(* ===== verification/Prelude.thy ===== *)
theory Prelude
  imports Main "HOL-Library.Word" "HOL-Library.Monad_Syntax"
begin

text \<open>
  Shared vocabulary of the development.

  \<^item> Panics. Rust code that may panic is a function into \<open>option\<close>: \<open>None\<close> is a panic (on the
    Internet Computer a trap, which rolls the state back), \<open>Some\<close> is a normal return. Recoverable
    errors (\<open>Result\<close>) are values of a sum type inside the \<open>Some\<close>. The predicate \<open>ok r Q\<close> says that
    \<open>r\<close> does not panic and that its value satisfies \<open>Q\<close>: it is the total-correctness triple in
    which the component lemmas are stated.
  \<^item> Machine integers. \<open>u64\<close>, \<open>u32\<close>, \<open>u16\<close> and \<open>usize\<close> values are natural numbers; each arithmetic
    operation that can overflow is one of the checked operations below, which panics when the result
    does not fit (overflow checks on, the semantics of a debug build). \<open>usize\<close> is 64 bits wide.
    Bytes are \<open>8 word\<close>.
  \<^item> Byte strings. Little-endian and big-endian encodings, slices of a byte string, and the relation
    \<open>wrote c off bs c'\<close> that a memory write establishes between the old and the new contents.
\<close>

named_theorems ok_intro \<open>total-correctness rules of operations\<close>
named_theorems subrange_simps \<open>how slices see writes\<close>

section \<open>Panics and results\<close>

type_synonym u8 = "8 word"
type_synonym bytes = "8 word list"

definition ok :: "'a option \<Rightarrow> ('a \<Rightarrow> bool) \<Rightarrow> bool" where
  "ok r Q \<longleftrightarrow> (\<exists>x. r = Some x \<and> Q x)"

text \<open>The \<open>?\<close> operator: an error is returned to the caller, a value goes to the rest.\<close>

definition try_bind ::
  "(('e + 'a) \<times> 's) option \<Rightarrow> ('a \<Rightarrow> 's \<Rightarrow> (('e + 'b) \<times> 's) option) \<Rightarrow> (('e + 'b) \<times> 's) option"
  where
  "try_bind m f = do {
     (r, s) \<leftarrow> m;
     case r of Inl e \<Rightarrow> Some (Inl e, s) | Inr a \<Rightarrow> f a s }"

text \<open>\<open>Result::expect\<close>: an error becomes a panic.\<close>

definition expect :: "(('e + 'a) \<times> 's) option \<Rightarrow> ('a \<times> 's) option" where
  "expect m = do {
     (r, s) \<leftarrow> m;
     case r of Inl e \<Rightarrow> None | Inr a \<Rightarrow> Some (a, s) }"

text \<open>\<open>assert!\<close>\<close>

definition assert_that :: "bool \<Rightarrow> unit option" where
  "assert_that b = (if b then Some () else None)"

lemma ok_Some [simp]: "ok (Some x) Q \<longleftrightarrow> Q x"
  by (simp add: ok_def)

lemma ok_None [simp]: "\<not> ok None Q"
  by (simp add: ok_def)

lemma ok_bind [simp]: "ok (Option.bind r f) Q \<longleftrightarrow> ok r (\<lambda>x. ok (f x) Q)"
  by (cases r) (simp_all add: ok_def)

lemma ok_case_prod [simp]: "ok (case p of (a, b) \<Rightarrow> f a b) Q \<longleftrightarrow> ok (f (fst p) (snd p)) Q"
  by (cases p) simp

lemma ok_assert_that [simp]: "ok (assert_that b) Q \<longleftrightarrow> b \<and> Q ()"
  by (simp add: assert_that_def)

lemma assert_that_simps [simp]: "assert_that True = Some ()" "assert_that False = None"
  by (simp_all add: assert_that_def)

lemma ok_mono: "ok r P \<Longrightarrow> (\<And>x. P x \<Longrightarrow> Q x) \<Longrightarrow> ok r Q"
  by (auto simp: ok_def)

lemma ok_bindI: "ok r P \<Longrightarrow> (\<And>x. P x \<Longrightarrow> ok (f x) Q) \<Longrightarrow> ok (Option.bind r f) Q"
  by (auto simp: ok_def)

lemma ok_obtain:
  assumes "ok r Q"
  obtains x where "r = Some x" "Q x"
  using assms by (auto simp: ok_def)

lemma okD: "ok r Q \<Longrightarrow> r = Some x \<Longrightarrow> Q x"
  by (simp add: ok_def)

lemma ok_conj: "ok r P \<Longrightarrow> ok r Q \<Longrightarrow> ok r (\<lambda>x. P x \<and> Q x)"
  by (auto simp: ok_def)

lemma ok_try_bind [simp]:
  "ok (try_bind m f) Q \<longleftrightarrow>
     ok m (\<lambda>(r, s). case r of Inl e \<Rightarrow> Q (Inl e, s) | Inr a \<Rightarrow> ok (f a s) Q)"
  by (cases m) (auto simp: try_bind_def ok_def split: sum.splits prod.splits)

lemma ok_expect [simp]:
  "ok (expect m) Q \<longleftrightarrow> ok m (\<lambda>(r, s). case r of Inl e \<Rightarrow> False | Inr a \<Rightarrow> Q (a, s))"
  by (cases m) (auto simp: expect_def ok_def split: sum.splits prod.splits)

lemma try_bind_Some:
  "try_bind m f = Some x \<longleftrightarrow>
     (\<exists>e s. m = Some (Inl e, s) \<and> x = (Inl e, s)) \<or> (\<exists>a s. m = Some (Inr a, s) \<and> f a s = Some x)"
  by (cases m) (auto simp: try_bind_def split: sum.splits prod.splits)

lemma expect_Some: "expect m = Some (a, s) \<longleftrightarrow> m = Some (Inr a, s)"
  by (cases m) (auto simp: expect_def split: sum.splits prod.splits)

section \<open>Checked arithmetic\<close>

abbreviation (input) U64_MAX :: nat where "U64_MAX \<equiv> 18446744073709551615"
abbreviation (input) U32_MAX :: nat where "U32_MAX \<equiv> 4294967295"
abbreviation (input) U16_MAX :: nat where "U16_MAX \<equiv> 65535"
abbreviation (input) U8_MAX :: nat where "U8_MAX \<equiv> 255"

definition u64_add :: "nat \<Rightarrow> nat \<Rightarrow> nat option" where
  "u64_add a b = (if a + b \<le> U64_MAX then Some (a + b) else None)"

definition u64_sub :: "nat \<Rightarrow> nat \<Rightarrow> nat option" where
  "u64_sub a b = (if b \<le> a then Some (a - b) else None)"

definition u64_mul :: "nat \<Rightarrow> nat \<Rightarrow> nat option" where
  "u64_mul a b = (if a * b \<le> U64_MAX then Some (a * b) else None)"

definition u64_div :: "nat \<Rightarrow> nat \<Rightarrow> nat option" where
  "u64_div a b = (if b = 0 then None else Some (a div b))"

definition u64_rem :: "nat \<Rightarrow> nat \<Rightarrow> nat option" where
  "u64_rem a b = (if b = 0 then None else Some (a mod b))"

definition u32_add :: "nat \<Rightarrow> nat \<Rightarrow> nat option" where
  "u32_add a b = (if a + b \<le> U32_MAX then Some (a + b) else None)"

definition u64_saturating_add :: "nat \<Rightarrow> nat \<Rightarrow> nat" where
  "u64_saturating_add a b = min (a + b) U64_MAX"

text \<open>\<open>u64::saturating_sub\<close> is subtraction of natural numbers.\<close>

definition u64_saturating_sub :: "nat \<Rightarrow> nat \<Rightarrow> nat" where
  "u64_saturating_sub a b = a - b"

text \<open>\<open>u64::div_ceil\<close>; the divisor 0 panics.\<close>

definition u64_div_ceil :: "nat \<Rightarrow> nat \<Rightarrow> nat option" where
  "u64_div_ceil a b = (if b = 0 then None else Some ((a + b - 1) div b))"

text \<open>\<open>n as u32\<close>: the low 32 bits.\<close>

definition as_u32 :: "nat \<Rightarrow> nat" where
  "as_u32 n = n mod 2 ^ 32"

lemma as_u32_id: "n \<le> U32_MAX \<Longrightarrow> as_u32 n = n"
  by (simp add: as_u32_def)

lemma ok_u64_add [simp]: "ok (u64_add a b) Q \<longleftrightarrow> a + b \<le> U64_MAX \<and> Q (a + b)"
  by (simp add: u64_add_def)

lemma ok_u64_sub [simp]: "ok (u64_sub a b) Q \<longleftrightarrow> b \<le> a \<and> Q (a - b)"
  by (simp add: u64_sub_def)

lemma ok_u64_mul [simp]: "ok (u64_mul a b) Q \<longleftrightarrow> a * b \<le> U64_MAX \<and> Q (a * b)"
  by (simp add: u64_mul_def)

lemma ok_u64_div [simp]: "ok (u64_div a b) Q \<longleftrightarrow> b \<noteq> 0 \<and> Q (a div b)"
  by (simp add: u64_div_def)

lemma ok_u64_rem [simp]: "ok (u64_rem a b) Q \<longleftrightarrow> b \<noteq> 0 \<and> Q (a mod b)"
  by (simp add: u64_rem_def)

lemma ok_u32_add [simp]: "ok (u32_add a b) Q \<longleftrightarrow> a + b \<le> U32_MAX \<and> Q (a + b)"
  by (simp add: u32_add_def)

lemma ok_u64_div_ceil [simp]: "ok (u64_div_ceil a b) Q \<longleftrightarrow> b \<noteq> 0 \<and> Q ((a + b - 1) div b)"
  by (simp add: u64_div_ceil_def)

lemmas u64_defs =
  u64_add_def u64_sub_def u64_mul_def u64_div_def u64_rem_def u32_add_def u64_div_ceil_def

lemma div_ceil_least:
  assumes "0 < (b::nat)"
  shows "a \<le> ((a + b - 1) div b) * b" and "((a + b - 1) div b) * b < a + b"
proof -
  have eq: "((a + b - 1) div b) * b + (a + b - 1) mod b = a + b - 1"
    by simp
  have lt: "(a + b - 1) mod b < b"
    using assms by simp
  show "a \<le> ((a + b - 1) div b) * b"
    using eq lt by linarith
  show "((a + b - 1) div b) * b < a + b"
    using eq assms by linarith
qed

text \<open>A position in an array of blocks of \<open>B\<close> bytes determines the block and the place in it.\<close>

lemma block_decomp:
  fixes B :: nat
  assumes "r < B" "r' < B" "B * b + r = B * b' + r'"
  shows "b = b' \<and> r = r'"
proof -
  have "(B * b + r) div B = b" "(B * b' + r') div B = b'"
    using assms(1,2) by simp_all
  with assms(3) show ?thesis by auto
qed

section \<open>Integers as bytes\<close>

text \<open>\<open>to_le_bytes\<close> and \<open>from_le_bytes\<close> of an integer of \<open>n\<close> bytes, and the big-endian pair.\<close>

primrec to_le_bytes :: "nat \<Rightarrow> nat \<Rightarrow> bytes" where
  "to_le_bytes 0 x = []"
| "to_le_bytes (Suc n) x = of_nat (x mod 256) # to_le_bytes n (x div 256)"

primrec from_le_bytes :: "bytes \<Rightarrow> nat" where
  "from_le_bytes [] = 0"
| "from_le_bytes (b # bs) = unat b + 256 * from_le_bytes bs"

definition to_be_bytes :: "nat \<Rightarrow> nat \<Rightarrow> bytes" where
  "to_be_bytes n x = rev (to_le_bytes n x)"

definition from_be_bytes :: "bytes \<Rightarrow> nat" where
  "from_be_bytes bs = from_le_bytes (rev bs)"

lemma length_to_le_bytes [simp]: "length (to_le_bytes n x) = n"
  by (induction n arbitrary: x) simp_all

lemma length_to_be_bytes [simp]: "length (to_be_bytes n x) = n"
  by (simp add: to_be_bytes_def)

lemma unat_of_nat_byte [simp]: "unat (of_nat (x mod 256) :: u8) = x mod 256"
  by (simp add: unat_of_nat)

lemma from_to_le_bytes: "from_le_bytes (to_le_bytes n x) = x mod 256 ^ n"
proof (induction n arbitrary: x)
  case 0
  show ?case by simp
next
  case (Suc n)
  have "x mod 256 ^ Suc n = 256 * (x div 256 mod 256 ^ n) + x mod 256"
    by (simp add: mod_mult2_eq)
  then show ?case using Suc by simp
qed

lemma from_to_le_bytes_id [simp]: "x < 256 ^ n \<Longrightarrow> from_le_bytes (to_le_bytes n x) = x"
  by (simp add: from_to_le_bytes)

lemma from_to_be_bytes [simp]: "x < 256 ^ n \<Longrightarrow> from_be_bytes (to_be_bytes n x) = x"
  by (simp add: from_be_bytes_def to_be_bytes_def)

lemma from_le_bytes_bound: "from_le_bytes bs < 256 ^ length bs"
proof (induction bs)
  case Nil
  show ?case by simp
next
  case (Cons b bs)
  have "unat b < 256"
    using unsigned_less[of b] by simp
  with Cons show ?case by simp
qed

lemma to_from_le_bytes: "to_le_bytes (length bs) (from_le_bytes bs) = bs"
proof (induction bs)
  case Nil
  show ?case by simp
next
  case (Cons b bs)
  have b: "unat b < 256"
    using unsigned_less[of b] by simp
  then have "(unat b + 256 * from_le_bytes bs) mod 256 = unat b"
    and "(unat b + 256 * from_le_bytes bs) div 256 = from_le_bytes bs"
    by simp_all
  with Cons show ?case by simp
qed

lemma to_from_be_bytes: "to_be_bytes (length bs) (from_be_bytes bs) = bs"
  using to_from_le_bytes[of "rev bs"] by (simp add: to_be_bytes_def from_be_bytes_def)

lemma from_be_bytes_bound: "from_be_bytes bs < 256 ^ length bs"
  using from_le_bytes_bound[of "rev bs"] by (simp add: from_be_bytes_def)

lemma from_le_bytes_u64: "length bs = 8 \<Longrightarrow> from_le_bytes bs \<le> U64_MAX"
  using from_le_bytes_bound[of bs] by simp

lemma from_le_bytes_u32: "length bs = 4 \<Longrightarrow> from_le_bytes bs \<le> U32_MAX"
  using from_le_bytes_bound[of bs] by simp

section \<open>Slices and writes\<close>

definition subrange :: "'a list \<Rightarrow> nat \<Rightarrow> nat \<Rightarrow> 'a list" where
  "subrange xs off n = take n (drop off xs)"

text \<open>\<open>xs[off..off + ys.len()].copy_from_slice(ys)\<close> where the range lies inside \<open>xs\<close>.\<close>

definition overwrite :: "'a list \<Rightarrow> nat \<Rightarrow> 'a list \<Rightarrow> 'a list" where
  "overwrite xs off ys = take off xs @ ys @ drop (off + length ys) xs"

text \<open>
  What a write of \<open>bs\<close> at \<open>off\<close> establishes, with or without growth of the memory: the range holds
  \<open>bs\<close> and every other byte that existed before is unchanged.
\<close>

definition wrote :: "bytes \<Rightarrow> nat \<Rightarrow> bytes \<Rightarrow> bytes \<Rightarrow> bool" where
  "wrote c off bs c' \<longleftrightarrow>
     length c \<le> length c' \<and> off + length bs \<le> length c' \<and> subrange c' off (length bs) = bs \<and>
     (\<forall>a < length c. a < off \<or> off + length bs \<le> a \<longrightarrow> c' ! a = c ! a)"

text \<open>Checked slicing: \<open>&xs[off..off + n]\<close>, \<open>&xs[off..]\<close> and a copy into a subslice panic out of range.\<close>

definition get_range :: "'a list \<Rightarrow> nat \<Rightarrow> nat \<Rightarrow> 'a list option" where
  "get_range xs off n = (if off + n \<le> length xs then Some (subrange xs off n) else None)"

definition get_from :: "'a list \<Rightarrow> nat \<Rightarrow> 'a list option" where
  "get_from xs off = (if off \<le> length xs then Some (drop off xs) else None)"

definition copy_into :: "'a list \<Rightarrow> nat \<Rightarrow> 'a list \<Rightarrow> 'a list option" where
  "copy_into dst off src = (if off + length src \<le> length dst then Some (overwrite dst off src) else None)"

lemma length_subrange [simp]: "off + n \<le> length xs \<Longrightarrow> length (subrange xs off n) = n"
  by (simp add: subrange_def)

lemma subrange_0 [simp]: "subrange xs off 0 = []"
  by (simp add: subrange_def)

lemma nth_subrange [simp]: "i < n \<Longrightarrow> off + n \<le> length xs \<Longrightarrow> subrange xs off n ! i = xs ! (off + i)"
  by (simp add: subrange_def)

lemma subrange_eqI:
  assumes "off + n \<le> length xs" "off + n \<le> length ys"
    and "\<And>a. off \<le> a \<Longrightarrow> a < off + n \<Longrightarrow> xs ! a = ys ! a"
  shows "subrange xs off n = subrange ys off n"
  using assms by (intro nth_equalityI) simp_all

lemma subrange_all [simp]: "subrange xs 0 (length xs) = xs"
  by (simp add: subrange_def)

lemma subrange_append1: "off + n \<le> length xs \<Longrightarrow> subrange (xs @ ys) off n = subrange xs off n"
  by (simp add: subrange_def)

lemma subrange_subrange: "i + k \<le> n \<Longrightarrow> subrange (subrange xs off n) i k = subrange xs (off + i) k"
  by (simp add: subrange_def drop_take min_def add.commute)

lemma subrange_split: "subrange xs off (m + n) = subrange xs off m @ subrange xs (off + m) n"
  by (simp add: subrange_def take_add add.commute)

lemma length_overwrite [simp]: "off + length ys \<le> length xs \<Longrightarrow> length (overwrite xs off ys) = length xs"
  by (simp add: overwrite_def)

lemma nth_overwrite:
  assumes "off + length ys \<le> length xs" "a < length xs"
  shows "overwrite xs off ys ! a = (if off \<le> a \<and> a < off + length ys then ys ! (a - off) else xs ! a)"
  using assms by (auto simp: overwrite_def nth_append)

lemma subrange_overwrite_same:
  "off + length ys \<le> length xs \<Longrightarrow> subrange (overwrite xs off ys) off (length ys) = ys"
  by (simp add: subrange_def overwrite_def)

lemma overwrite_middle:
  "off = length xs \<Longrightarrow> length ys' = length ys \<Longrightarrow> overwrite (xs @ ys @ zs) off ys' = xs @ ys' @ zs"
  by (simp add: overwrite_def)

lemma subrange_middle: "off = length xs \<Longrightarrow> n = length ys \<Longrightarrow> subrange (xs @ ys @ zs) off n = ys"
  by (simp add: subrange_def)

lemma copy_into_middle:
  "off = length xs \<Longrightarrow> length ys' = length ys \<Longrightarrow> copy_into (xs @ ys @ zs) off ys' = Some (xs @ ys' @ zs)"
  by (simp add: copy_into_def overwrite_middle)

lemma get_range_middle:
  "off = length xs \<Longrightarrow> n = length ys \<Longrightarrow> get_range (xs @ ys @ zs) off n = Some ys"
  by (simp add: get_range_def subrange_middle)

lemma wrote_overwrite:
  "off + length bs \<le> length c \<Longrightarrow> wrote c off bs (overwrite c off bs)"
  by (simp add: wrote_def subrange_overwrite_same nth_overwrite)

lemma wrote_overwrite_append:
  assumes "off + length bs \<le> length c + length zs"
  shows "wrote c off bs (overwrite (c @ zs) off bs)"
  using assms by (auto simp: wrote_def subrange_overwrite_same nth_overwrite nth_append)

lemma wrote_append:
  assumes "wrote (c @ zs) off bs c'"
  shows "wrote c off bs c'"
  using assms by (auto simp: wrote_def nth_append)

lemma wrote_length: "wrote c off bs c' \<Longrightarrow> length c \<le> length c'"
  by (simp add: wrote_def)

lemma wrote_range: "wrote c off bs c' \<Longrightarrow> off + length bs \<le> length c'"
  by (simp add: wrote_def)

lemma subrange_wrote_same [subrange_simps]: "wrote c off bs c' \<Longrightarrow> n = length bs \<Longrightarrow> subrange c' off n = bs"
  by (simp add: wrote_def)

lemma subrange_wrote_other [subrange_simps]:
  assumes "wrote c off bs c'" "a + n \<le> length c" "a + n \<le> off \<or> off + length bs \<le> a"
  shows "subrange c' a n = subrange c a n"
  using assms by (intro subrange_eqI) (auto simp: wrote_def)

lemma subrange_wrote_inside:
  assumes "wrote c off bs c'" "off \<le> a" "a + n \<le> off + length bs"
  shows "subrange c' a n = subrange bs (a - off) n"
proof -
  have "subrange (subrange c' off (length bs)) (a - off) n = subrange c' a n"
    using assms by (subst subrange_subrange) auto
  then show ?thesis
    using assms(1) by (simp add: wrote_def)
qed

lemma nth_wrote_other:
  "wrote c off bs c' \<Longrightarrow> a < length c \<Longrightarrow> a < off \<or> off + length bs \<le> a \<Longrightarrow> c' ! a = c ! a"
  by (auto simp: wrote_def)

lemma wrote_wrote:
  assumes "wrote c off xs c1" "wrote c1 (off + length xs) ys c2"
  shows "wrote c off (xs @ ys) c2"
proof -
  have "subrange c2 off (length xs) = xs"
    using subrange_wrote_other[OF assms(2), of off "length xs"] subrange_wrote_same[OF assms(1)] wrote_range[OF assms(1)]
    by simp
  moreover have "subrange c2 (off + length xs) (length ys) = ys"
    by (rule subrange_wrote_same[OF assms(2)]) simp
  ultimately show ?thesis
    using assms by (auto simp: wrote_def subrange_split)
qed

end
