(* ===== verification/Memory.thy ===== *)
theory Memory
  imports Prelude
begin

text \<open>
  The \<open>Memory\<close> trait and the helpers of \<open>src/src/lib.rs\<close>, the vector-backed memory of
  \<open>src/src/vec_mem.rs\<close> and \<open>RestrictedMemory\<close>.

  A trait with state is a record of operations over a state type \<open>'s\<close>; generic code takes such a
  record, as \<open>M: Memory\<close> does. Every operation may panic (\<open>None\<close>), and a read returns the new
  state too, since a virtual memory updates its bucket cache when it reads. The locale \<open>memory\<close> is
  the contract of the trait that clients rely on: it relates the operations to the byte string
  \<open>contents\<close> and to the number of pages \<open>cap\<close> up to which the memory can grow.
\<close>

section \<open>The trait and the helpers of lib.rs\<close>

abbreviation WASM_PAGE_SIZE :: nat where "WASM_PAGE_SIZE \<equiv> 65536"

definition MAX_PAGES :: nat where
  "MAX_PAGES = U64_MAX div WASM_PAGE_SIZE"

record 's memory_ops =
  size_op :: "'s \<Rightarrow> nat option"
  grow_op :: "'s \<Rightarrow> nat \<Rightarrow> (int \<times> 's) option"
  read_op :: "'s \<Rightarrow> nat \<Rightarrow> nat \<Rightarrow> (bytes \<times> 's) option"
  write_op :: "'s \<Rightarrow> nat \<Rightarrow> bytes \<Rightarrow> 's option"

datatype grow_failed = GrowFailed (gf_current_size: nat) (gf_delta: nat)

text \<open>\<open>read_unsafe\<close> and \<open>read\<close> fill the buffer with the same bytes; the buffer is the result.\<close>

definition read_to_vec :: "'s memory_ops \<Rightarrow> 's \<Rightarrow> nat \<Rightarrow> nat \<Rightarrow> (bytes \<times> 's) option" where
  "read_to_vec M s addr count = read_op M s addr count"

definition read_u32 :: "'s memory_ops \<Rightarrow> 's \<Rightarrow> nat \<Rightarrow> (nat \<times> 's) option" where
  "read_u32 M s addr = do {
     (buf, s) \<leftarrow> read_op M s addr 4;
     Some (from_le_bytes buf, s) }"

definition read_u64 :: "'s memory_ops \<Rightarrow> 's \<Rightarrow> nat \<Rightarrow> (nat \<times> 's) option" where
  "read_u64 M s addr = do {
     (buf, s) \<leftarrow> read_op M s addr 8;
     Some (from_le_bytes buf, s) }"

text \<open>\<open>chunks_exact\<close>: an incomplete last chunk is dropped.\<close>

function chunks_exact :: "nat \<Rightarrow> 'a list \<Rightarrow> 'a list list" where
  "chunks_exact n xs =
     (if n = 0 \<or> length xs < n then [] else take n xs # chunks_exact n (drop n xs))"
  by pat_completeness auto
termination
  by (relation "measure (\<lambda>(n, xs). length xs)") auto

declare chunks_exact.simps [simp del]

definition read_address_vec :: "'s memory_ops \<Rightarrow> 's \<Rightarrow> nat \<Rightarrow> nat \<Rightarrow> (nat list \<times> 's) option" where
  "read_address_vec M s addr count = do {
     let chunk_size = 8;
     byte_len \<leftarrow> u64_mul count chunk_size;
     (buf, s) \<leftarrow> read_to_vec M s addr byte_len;
     Some (map from_le_bytes (chunks_exact chunk_size buf), s) }"

definition safe_write ::
  "'s memory_ops \<Rightarrow> 's \<Rightarrow> nat \<Rightarrow> bytes \<Rightarrow> ((grow_failed + unit) \<times> 's) option" where
  "safe_write M s offset bs = do {
     last_byte \<leftarrow> u64_add offset (length bs);
     size_pages \<leftarrow> size_op M s;
     size_bytes \<leftarrow> u64_mul size_pages WASM_PAGE_SIZE;
     if size_bytes < last_byte then do {
       let diff_bytes = last_byte - size_bytes;
       rounded \<leftarrow> u64_add diff_bytes (WASM_PAGE_SIZE - 1);
       let diff_pages = rounded div WASM_PAGE_SIZE;
       (prev, s) \<leftarrow> grow_op M s diff_pages;
       if prev = -1 then Some (Inl (GrowFailed size_pages diff_pages), s)
       else do { s \<leftarrow> write_op M s offset bs; Some (Inr (), s) }
     } else do { s \<leftarrow> write_op M s offset bs; Some (Inr (), s) } }"

text \<open>\<open>write\<close> (named \<open>write_grow\<close> here): like \<open>safe_write\<close>, but a failed growth panics.\<close>

definition write_grow :: "'s memory_ops \<Rightarrow> 's \<Rightarrow> nat \<Rightarrow> bytes \<Rightarrow> 's option" where
  "write_grow M s offset bs = do {
     (_, s) \<leftarrow> expect (safe_write M s offset bs);
     Some s }"

definition write_u32 :: "'s memory_ops \<Rightarrow> 's \<Rightarrow> nat \<Rightarrow> nat \<Rightarrow> 's option" where
  "write_u32 M s addr val = write_grow M s addr (to_le_bytes 4 val)"

definition write_u64 :: "'s memory_ops \<Rightarrow> 's \<Rightarrow> nat \<Rightarrow> nat \<Rightarrow> 's option" where
  "write_u64 M s addr val = write_grow M s addr (to_le_bytes 8 val)"

text \<open>
  \<open>read_struct\<close> and \<open>write_struct\<close> move the bytes of a packed struct; the components that use them
  say how the bytes of their struct are laid out.
\<close>

definition read_struct :: "nat \<Rightarrow> (bytes \<Rightarrow> 'a) \<Rightarrow> 's memory_ops \<Rightarrow> 's \<Rightarrow> nat \<Rightarrow> ('a \<times> 's) option" where
  "read_struct size_of decode M s addr = do {
     (buf, s) \<leftarrow> read_op M s addr size_of;
     Some (decode buf, s) }"

definition write_struct :: "('a \<Rightarrow> bytes) \<Rightarrow> 'a \<Rightarrow> 's memory_ops \<Rightarrow> 's \<Rightarrow> nat \<Rightarrow> 's option" where
  "write_struct encode t M s addr = write_grow M s addr (encode t)"

section \<open>Vector memory\<close>

type_synonym vec_mem = bytes

definition VEC_MAX_PAGES :: nat where
  "VEC_MAX_PAGES = 9223372036854775807 div WASM_PAGE_SIZE"

definition vec_resize :: "'a list \<Rightarrow> nat \<Rightarrow> 'a \<Rightarrow> 'a list" where
  "vec_resize xs n v = take n xs @ replicate (n - length xs) v"

definition vec_size :: "vec_mem \<Rightarrow> nat option" where
  "vec_size m = Some (length m div WASM_PAGE_SIZE)"

definition vec_grow :: "vec_mem \<Rightarrow> nat \<Rightarrow> (int \<times> vec_mem) option" where
  "vec_grow m pages = do {
     size \<leftarrow> vec_size m;
     case u64_add size pages of
       Some n \<Rightarrow>
         if n > VEC_MAX_PAGES then Some (-1, m)
         else Some (int size, vec_resize m (n * WASM_PAGE_SIZE) 0)
     | None \<Rightarrow> Some (-1, m) }"

definition vec_read :: "vec_mem \<Rightarrow> nat \<Rightarrow> nat \<Rightarrow> (bytes \<times> vec_mem) option" where
  "vec_read m offset count = do {
     n \<leftarrow> u64_add offset count;
     if n > length m then None else Some (subrange m offset count, m) }"

definition vec_write :: "vec_mem \<Rightarrow> nat \<Rightarrow> bytes \<Rightarrow> vec_mem option" where
  "vec_write m offset src = do {
     n \<leftarrow> u64_add offset (length src);
     if n > length m then None else Some (overwrite m offset src) }"

definition VectorMemory :: "vec_mem memory_ops" where
  "VectorMemory = \<lparr>size_op = vec_size, grow_op = vec_grow, read_op = vec_read, write_op = vec_write\<rparr>"

section \<open>Restricted memory\<close>

text \<open>A page range \<open>start..end\<close> and the memory it restricts.\<close>

definition restricted_new :: "'s memory_ops \<Rightarrow> 's \<Rightarrow> nat \<Rightarrow> nat \<Rightarrow> 's option" where
  "restricted_new M s start stop = do {
     assert_that (stop \<le> MAX_PAGES);
     Some s }"

definition restricted_size :: "'s memory_ops \<Rightarrow> nat \<Rightarrow> nat \<Rightarrow> 's \<Rightarrow> nat option" where
  "restricted_size M start stop s = do {
     base_size \<leftarrow> size_op M s;
     if base_size < start then Some 0
     else if base_size > stop then u64_sub stop start
     else u64_sub base_size start }"

definition restricted_grow ::
  "'s memory_ops \<Rightarrow> nat \<Rightarrow> nat \<Rightarrow> 's \<Rightarrow> nat \<Rightarrow> (int \<times> 's) option" where
  "restricted_grow M start stop s delta = do {
     base_size \<leftarrow> size_op M s;
     if base_size < start then do {
       gap \<leftarrow> u64_sub start base_size;
       pages \<leftarrow> u64_add gap delta;
       (r, s) \<leftarrow> grow_op M s pages;
       Some (min r 0, s)
     } else if base_size \<ge> stop then
       (if delta = 0 then do { n \<leftarrow> u64_sub stop start; Some (int n, s) } else Some (-1, s))
     else do {
       pages_left \<leftarrow> u64_sub stop base_size;
       if pages_left < delta then Some (-1, s)
       else do {
         (r, s) \<leftarrow> grow_op M s delta;
         if r < 0 then Some (r, s) else Some (r - int start, s) } } }"

definition restricted_read ::
  "'s memory_ops \<Rightarrow> nat \<Rightarrow> nat \<Rightarrow> 's \<Rightarrow> nat \<Rightarrow> nat \<Rightarrow> (bytes \<times> 's) option" where
  "restricted_read M start stop s offset count = do {
     base \<leftarrow> u64_mul start WASM_PAGE_SIZE;
     addr \<leftarrow> u64_add base offset;
     read_op M s addr count }"

definition restricted_write ::
  "'s memory_ops \<Rightarrow> nat \<Rightarrow> nat \<Rightarrow> 's \<Rightarrow> nat \<Rightarrow> bytes \<Rightarrow> 's option" where
  "restricted_write M start stop s offset src = do {
     base \<leftarrow> u64_mul start WASM_PAGE_SIZE;
     addr \<leftarrow> u64_add base offset;
     write_op M s addr src }"

definition RestrictedMemory :: "'s memory_ops \<Rightarrow> nat \<Rightarrow> nat \<Rightarrow> 's memory_ops" where
  "RestrictedMemory M start stop =
     \<lparr>size_op = restricted_size M start stop, grow_op = restricted_grow M start stop,
      read_op = restricted_read M start stop, write_op = restricted_write M start stop\<rparr>"

section \<open>The contract of a memory\<close>

lemma MAX_PAGES_val: "MAX_PAGES = 281474976710655"
  by (simp add: MAX_PAGES_def)

lemma VEC_MAX_PAGES_val: "VEC_MAX_PAGES = 140737488355327"
  by (simp add: VEC_MAX_PAGES_def)

locale memory =
  fixes M :: "'s memory_ops"
    and inv :: "'s \<Rightarrow> bool"
    and contents :: "'s \<Rightarrow> bytes"
    and cap :: "'s \<Rightarrow> nat"
  assumes size_law: "inv s \<Longrightarrow> size_op M s = Some (length (contents s) div WASM_PAGE_SIZE)"
    and page_law: "inv s \<Longrightarrow> WASM_PAGE_SIZE dvd length (contents s)"
    and cap_law: "inv s \<Longrightarrow> cap s \<le> MAX_PAGES"
    and size_cap_law: "inv s \<Longrightarrow> length (contents s) \<le> cap s * WASM_PAGE_SIZE"
    and read_law: "inv s \<Longrightarrow> off + n \<le> length (contents s) \<Longrightarrow>
      ok (read_op M s off n) (\<lambda>(bs, s'). bs = subrange (contents s) off n \<and>
        inv s' \<and> contents s' = contents s \<and> cap s' = cap s)"
    and write_law: "inv s \<Longrightarrow> off + length bs \<le> length (contents s) \<Longrightarrow>
      ok (write_op M s off bs) (\<lambda>s'. inv s' \<and>
        contents s' = overwrite (contents s) off bs \<and> cap s' = cap s)"
    and grow_law: "inv s \<Longrightarrow> length (contents s) div WASM_PAGE_SIZE + n \<le> cap s \<Longrightarrow>
      ok (grow_op M s n) (\<lambda>(r, s'). r = int (length (contents s) div WASM_PAGE_SIZE) \<and>
        inv s' \<and> cap s' = cap s \<and>
        (\<exists>zs. length zs = n * WASM_PAGE_SIZE \<and> contents s' = contents s @ zs))"
    and grow_over_law: "inv s \<Longrightarrow> cap s < length (contents s) div WASM_PAGE_SIZE + n \<Longrightarrow>
      grow_op M s n = Some (r, s') \<Longrightarrow>
      r = -1 \<and> inv s' \<and> contents s' = contents s \<and> cap s' = cap s"
begin

lemma size_bytes:
  "inv s \<Longrightarrow> length (contents s) div WASM_PAGE_SIZE * WASM_PAGE_SIZE = length (contents s)"
  using page_law by simp

lemma cap_bytes: "inv s \<Longrightarrow> cap s * WASM_PAGE_SIZE \<le> U64_MAX - 65535"
  using cap_law by (fastforce simp: MAX_PAGES_val)

lemma length_le: "inv s \<Longrightarrow> length (contents s) \<le> U64_MAX - 65535"
  using size_cap_law cap_bytes order_trans by blast

lemma length_le_max: "inv s \<Longrightarrow> length (contents s) \<le> U64_MAX"
  using length_le by fastforce

lemma read_to_vec_ok [ok_intro]:
  "inv s \<Longrightarrow> off + n \<le> length (contents s) \<Longrightarrow>
   ok (read_to_vec M s off n) (\<lambda>(bs, s'). bs = subrange (contents s) off n \<and>
     inv s' \<and> contents s' = contents s \<and> cap s' = cap s)"
  unfolding read_to_vec_def by (rule read_law)

lemma read_u32_ok [ok_intro]:
  assumes "inv s" "off + 4 \<le> length (contents s)"
  shows "ok (read_u32 M s off) (\<lambda>(v, s'). v = from_le_bytes (subrange (contents s) off 4) \<and>
     inv s' \<and> contents s' = contents s \<and> cap s' = cap s)"
  using read_law[OF assms] by (auto simp: read_u32_def elim!: ok_mono)

lemma read_u64_ok [ok_intro]:
  assumes "inv s" "off + 8 \<le> length (contents s)"
  shows "ok (read_u64 M s off) (\<lambda>(v, s'). v = from_le_bytes (subrange (contents s) off 8) \<and>
     inv s' \<and> contents s' = contents s \<and> cap s' = cap s)"
  using read_law[OF assms] by (auto simp: read_u64_def elim!: ok_mono)

lemma write_ok [ok_intro]:
  assumes "inv s" "off + length bs \<le> length (contents s)"
  shows "ok (write_op M s off bs) (\<lambda>s'. inv s' \<and> cap s' = cap s \<and>
     length (contents s') = length (contents s) \<and> wrote (contents s) off bs (contents s'))"
  using write_law[OF assms] assms(2) by (auto simp: wrote_overwrite elim!: ok_mono)

lemma needed_pages:
  assumes "inv s" "length (contents s) < lb"
  defines "n \<equiv> (lb - length (contents s) + 65535) div WASM_PAGE_SIZE"
  shows "lb \<le> length (contents s) + n * WASM_PAGE_SIZE"
    and "length (contents s) div WASM_PAGE_SIZE + n \<le> cap s \<longleftrightarrow> lb \<le> cap s * WASM_PAGE_SIZE"
proof -
  let ?L = "length (contents s)"
  have up: "lb - ?L \<le> n * WASM_PAGE_SIZE" and lo: "n * WASM_PAGE_SIZE < lb - ?L + WASM_PAGE_SIZE"
    using div_ceil_least[of WASM_PAGE_SIZE "lb - ?L"] by (simp_all add: n_def)
  show "lb \<le> ?L + n * WASM_PAGE_SIZE"
    using up by linarith
  show "?L div WASM_PAGE_SIZE + n \<le> cap s \<longleftrightarrow> lb \<le> cap s * WASM_PAGE_SIZE"
    using up lo assms(2) size_bytes[OF assms(1)] by linarith
qed

lemma safe_write_no_growth:
  assumes s: "inv s" and le: "off + length bs \<le> length (contents s)"
  shows "safe_write M s off bs = do { s \<leftarrow> write_op M s off bs; Some (Inr (), s) }"
  using assms length_le[OF s] size_law[OF s] size_bytes[OF s]
  by (simp add: safe_write_def u64_add_def u64_mul_def)

lemma safe_write_growth:
  assumes s: "inv s" and lt: "length (contents s) < off + length bs"
    and lim: "off + length bs \<le> U64_MAX"
    and lim2: "off + length bs - length (contents s) + 65535 \<le> U64_MAX"
  defines "n \<equiv> (off + length bs - length (contents s) + 65535) div WASM_PAGE_SIZE"
  shows "safe_write M s off bs = do {
     (prev, s') \<leftarrow> grow_op M s n;
     if prev = -1 then Some (Inl (GrowFailed (length (contents s) div WASM_PAGE_SIZE) n), s')
     else do { s \<leftarrow> write_op M s' off bs; Some (Inr (), s) } }"
proof -
  have "u64_add off (length bs) = Some (off + length bs)"
    and "u64_mul (length (contents s) div WASM_PAGE_SIZE) WASM_PAGE_SIZE = Some (length (contents s))"
    and "u64_add (off + length bs - length (contents s)) 65535 =
      Some (off + length bs - length (contents s) + 65535)"
    using lim lim2 length_le_max[OF s] size_bytes[OF s] by (simp_all only: u64_add_def u64_mul_def if_True)
  then show ?thesis
    unfolding n_def by (simp add: safe_write_def size_law[OF s] lt Let_def)
qed

lemma write_after_grow:
  assumes "inv s" "off + length bs \<le> length (contents s0) + k"
    and "length zs = k" "contents s = contents s0 @ zs"
  shows "ok (write_op M s off bs) (\<lambda>s'. inv s' \<and> cap s' = cap s \<and>
    wrote (contents s0) off bs (contents s'))"
  using write_law[of s off bs] assms by (auto simp: wrote_overwrite_append elim!: ok_mono)

lemma safe_write_ok [ok_intro]:
  assumes s: "inv s" and fits: "off + length bs \<le> cap s * WASM_PAGE_SIZE"
  shows "ok (safe_write M s off bs) (\<lambda>(r, s'). r = Inr () \<and> inv s' \<and> cap s' = cap s \<and>
    wrote (contents s) off bs (contents s'))"
proof (cases "length (contents s) < off + length bs")
  case False
  then show ?thesis
    using write_ok[OF s, of off bs] by (auto simp: safe_write_no_growth[OF s] elim!: ok_mono)
next
  case True
  let ?n = "(off + length bs - length (contents s) + 65535) div WASM_PAGE_SIZE"
  have lim: "off + length bs \<le> U64_MAX - 65535"
    using fits cap_bytes[OF s] by linarith
  have eq: "safe_write M s off bs = do {
     (prev, s') \<leftarrow> grow_op M s ?n;
     if prev = -1 then Some (Inl (GrowFailed (length (contents s) div WASM_PAGE_SIZE) ?n), s')
     else do { s \<leftarrow> write_op M s' off bs; Some (Inr (), s) } }"
    using lim by (intro safe_write_growth[OF s True]) linarith+
  have "length (contents s) div WASM_PAGE_SIZE + ?n \<le> cap s"
    using needed_pages(2)[OF s True] fits by blast
  note g = grow_law[OF s this]
  show ?thesis
    unfolding eq
  proof (rule ok_bindI[OF g], clarsimp)
    fix s1 zs
    assume "inv s1" "cap s1 = cap s" "length zs = ?n * WASM_PAGE_SIZE" "contents s1 = contents s @ zs"
    with write_after_grow[of s1 off bs s "?n * WASM_PAGE_SIZE" zs] needed_pages(1)[OF s True]
    show "ok (write_op M s1 off bs) (\<lambda>x. inv x \<and> cap x = cap s \<and> wrote (contents s) off bs (contents x))"
      by simp
  qed
qed

lemma safe_write_cases:
  assumes s: "inv s" and r: "safe_write M s off bs = Some (r, s')"
  shows "r = Inr () \<and> off + length bs \<le> cap s * WASM_PAGE_SIZE \<and> inv s' \<and> cap s' = cap s \<and>
      wrote (contents s) off bs (contents s') \<or>
    (\<exists>d. r = Inl (GrowFailed (length (contents s) div WASM_PAGE_SIZE) d)) \<and>
      cap s * WASM_PAGE_SIZE < off + length bs \<and> inv s' \<and> cap s' = cap s \<and> contents s' = contents s"
proof (cases "off + length bs \<le> cap s * WASM_PAGE_SIZE")
  case True
  show ?thesis
    using okD[OF safe_write_ok[OF s True] r] True by simp
next
  case False
  let ?n = "(off + length bs - length (contents s) + 65535) div WASM_PAGE_SIZE"
  have lt: "length (contents s) < off + length bs"
    using False size_cap_law[OF s] by linarith
  have over: "cap s < length (contents s) div WASM_PAGE_SIZE + ?n"
    using needed_pages(2)[OF s lt] False by linarith
  have lim: "off + length bs \<le> U64_MAX" "off + length bs - length (contents s) + 65535 \<le> U64_MAX"
    using r lt size_law[OF s] size_bytes[OF s] length_le[OF s]
    by (auto simp: safe_write_def Let_def bind_eq_Some_conv u64_add_def u64_mul_def split: if_splits)
  from r obtain r' s1 where g: "grow_op M s ?n = Some (r', s1)"
    and rest: "(if r' = -1 then Some (Inl (GrowFailed (length (contents s) div WASM_PAGE_SIZE) ?n), s1)
       else do { s \<leftarrow> write_op M s1 off bs; Some (Inr (), s) }) = Some (r, s')"
    unfolding safe_write_growth[OF s lt lim] by (auto simp: bind_eq_Some_conv)
  from grow_over_law[OF s over g] rest False show ?thesis by auto
qed

lemma write_grow_ok [ok_intro]:
  assumes "inv s" "off + length bs \<le> cap s * WASM_PAGE_SIZE"
  shows "ok (write_grow M s off bs) (\<lambda>s'. inv s' \<and> cap s' = cap s \<and> wrote (contents s) off bs (contents s'))"
  using safe_write_ok[OF assms] by (auto simp: write_grow_def elim!: ok_mono)

lemma write_u32_ok [ok_intro]:
  assumes "inv s" "off + 4 \<le> cap s * WASM_PAGE_SIZE"
  shows "ok (write_u32 M s off v) (\<lambda>s'. inv s' \<and> cap s' = cap s \<and>
    wrote (contents s) off (to_le_bytes 4 v) (contents s'))"
  using write_grow_ok[of s off "to_le_bytes 4 v"] assms by (simp add: write_u32_def)

lemma write_u64_ok [ok_intro]:
  assumes "inv s" "off + 8 \<le> cap s * WASM_PAGE_SIZE"
  shows "ok (write_u64 M s off v) (\<lambda>s'. inv s' \<and> cap s' = cap s \<and>
    wrote (contents s) off (to_le_bytes 8 v) (contents s'))"
  using write_grow_ok[of s off "to_le_bytes 8 v"] assms by (simp add: write_u64_def)

lemma write_grow_cases:
  assumes "inv s" "write_grow M s off bs = Some s'"
  shows "off + length bs \<le> cap s * WASM_PAGE_SIZE \<and> inv s' \<and> cap s' = cap s \<and>
    wrote (contents s) off bs (contents s')"
proof -
  obtain r s1 where r: "safe_write M s off bs = Some (r, s1)"
    using assms(2) by (auto simp: write_grow_def expect_def bind_eq_Some_conv)
  moreover have "r = Inr () \<and> s1 = s'"
    using assms(2) r by (cases r) (auto simp: write_grow_def expect_def)
  ultimately show ?thesis
    using safe_write_cases[OF assms(1)] by auto
qed

end

text \<open>Out-of-range accesses: the other half of the trait's documentation.\<close>

locale strict_memory = memory +
  assumes read_oob_law: "inv s \<Longrightarrow> length (contents s) < off + n \<Longrightarrow> read_op M s off n = None"
    and write_oob_law: "inv s \<Longrightarrow> length (contents s) < off + length bs \<Longrightarrow> write_op M s off bs = None"
begin

lemma read_iff:
  assumes "inv s"
  shows "read_op M s off n \<noteq> None \<longleftrightarrow> off + n \<le> length (contents s)"
  using read_law[OF assms, of off n] read_oob_law[OF assms, of off n] by (force simp: ok_def not_le)

end

section \<open>The memories of the crate meet the contract\<close>

subsection \<open>Vector memory\<close>

definition vec_inv :: "vec_mem \<Rightarrow> bool" where
  "vec_inv m \<longleftrightarrow> WASM_PAGE_SIZE dvd length m \<and> length m \<le> VEC_MAX_PAGES * WASM_PAGE_SIZE"

definition vec_cap :: "vec_mem \<Rightarrow> nat" where
  "vec_cap m = VEC_MAX_PAGES"

lemma vec_resize_grow:
  "length m \<le> n \<Longrightarrow> vec_resize m n v = m @ replicate (n - length m) v"
  by (simp add: vec_resize_def)

lemma vec_grow_fits:
  assumes "vec_inv m" "length m div WASM_PAGE_SIZE + n \<le> VEC_MAX_PAGES"
  shows "vec_grow m n =
    Some (int (length m div WASM_PAGE_SIZE), m @ replicate (n * WASM_PAGE_SIZE) 0)"
proof -
  have "length m \<le> (length m div WASM_PAGE_SIZE + n) * WASM_PAGE_SIZE"
    and "(length m div WASM_PAGE_SIZE + n) * WASM_PAGE_SIZE - length m = n * WASM_PAGE_SIZE"
    using assms(1) by (auto simp: vec_inv_def)
  then show ?thesis
    using assms(2) by (simp add: vec_grow_def vec_size_def u64_add_def vec_resize_grow VEC_MAX_PAGES_val)
qed

interpretation vm: strict_memory VectorMemory vec_inv "\<lambda>m. m" vec_cap
proof unfold_locales
  fix s :: vec_mem and n
  assume inv: "vec_inv s" and le: "length s div WASM_PAGE_SIZE + n \<le> vec_cap s"
  have "length s + n * WASM_PAGE_SIZE \<le> VEC_MAX_PAGES * WASM_PAGE_SIZE"
    using inv le by (auto simp: vec_inv_def vec_cap_def)
  then show "ok (grow_op VectorMemory s n) (\<lambda>(r, s'). r = int (length s div WASM_PAGE_SIZE) \<and>
      vec_inv s' \<and> vec_cap s' = vec_cap s \<and> (\<exists>zs. length zs = n * WASM_PAGE_SIZE \<and> s' = s @ zs))"
    using inv le vec_grow_fits[OF inv, of n] by (auto simp: VectorMemory_def vec_inv_def vec_cap_def)
qed (auto simp: VectorMemory_def vec_inv_def vec_cap_def vec_size_def vec_read_def vec_write_def
      vec_grow_def u64_add_def VEC_MAX_PAGES_val MAX_PAGES_val split: if_splits)

text \<open>Growth beyond the limit reports \<open>-1\<close> and does not panic.\<close>

lemma vec_grow_over: "VEC_MAX_PAGES < length m div WASM_PAGE_SIZE + n \<Longrightarrow> vec_grow m n = Some (-1, m)"
  by (simp add: vec_grow_def vec_size_def u64_add_def)

lemma vec_inv_empty [simp]: "vec_inv []"
  by (simp add: vec_inv_def)

subsection \<open>Restricted memory\<close>

text \<open>
  A restricted memory meets the contract from the moment the underlying memory reaches the first
  page of the range. Before that, \<open>grow\<close> does not look at the end of the range (see below).
\<close>

definition restricted_inv :: "('s \<Rightarrow> bool) \<Rightarrow> ('s \<Rightarrow> bytes) \<Rightarrow> nat \<Rightarrow> nat \<Rightarrow> 's \<Rightarrow> bool" where
  "restricted_inv mi contents start stop s \<longleftrightarrow>
     mi s \<and> start \<le> stop \<and> stop \<le> MAX_PAGES \<and> start \<le> length (contents s) div WASM_PAGE_SIZE"

definition restricted_contents :: "('s \<Rightarrow> bytes) \<Rightarrow> nat \<Rightarrow> nat \<Rightarrow> 's \<Rightarrow> bytes" where
  "restricted_contents contents start stop s =
     subrange (contents s) (start * WASM_PAGE_SIZE) ((stop - start) * WASM_PAGE_SIZE)"

definition restricted_cap :: "('s \<Rightarrow> nat) \<Rightarrow> nat \<Rightarrow> nat \<Rightarrow> 's \<Rightarrow> nat" where
  "restricted_cap cap start stop s = min stop (cap s) - start"

lemma subrange_overwrite_shift:
  assumes "k + length bs \<le> n" "off + k + length bs \<le> length xs"
  shows "subrange (overwrite xs (off + k) bs) off n = overwrite (subrange xs off n) k bs"
proof (rule nth_equalityI)
  have len: "length (subrange xs off n) = min n (length xs - off)"
    by (simp add: subrange_def)
  then have le: "k + length bs \<le> length (subrange xs off n)"
    using assms by simp
  show "length (subrange (overwrite xs (off + k) bs) off n) = length (overwrite (subrange xs off n) k bs)"
    using assms le len by (simp add: subrange_def)
  fix i
  assume "i < length (subrange (overwrite xs (off + k) bs) off n)"
  then have i: "i < n" "off + i < length xs"
    using assms by (auto simp: subrange_def)
  then show "subrange (overwrite xs (off + k) bs) off n ! i = overwrite (subrange xs off n) k bs ! i"
    using assms le len by (simp add: nth_overwrite) (auto simp: subrange_def nth_overwrite)
qed

context memory
begin

lemma restricted_length:
  assumes "restricted_inv inv contents start stop s"
  shows "length (restricted_contents contents start stop s) =
    (min stop (length (contents s) div WASM_PAGE_SIZE) - start) * WASM_PAGE_SIZE"
proof -
  let ?b = "length (contents s) div WASM_PAGE_SIZE"
  have L: "length (contents s) = ?b * WASM_PAGE_SIZE"
    using assms size_bytes by (simp add: restricted_inv_def)
  have "length (restricted_contents contents start stop s) =
      min ((stop - start) * WASM_PAGE_SIZE) (?b * WASM_PAGE_SIZE - start * WASM_PAGE_SIZE)"
    unfolding restricted_contents_def subrange_def length_take length_drop using L by linarith
  also have "\<dots> = min (stop - start) (?b - start) * WASM_PAGE_SIZE"
    by (simp add: diff_mult_distrib)
  finally show ?thesis
    by (simp add: min_diff)
qed

lemma restricted_size_ok:
  assumes "restricted_inv inv contents start stop s"
  shows "restricted_size M start stop s =
    Some (length (restricted_contents contents start stop s) div WASM_PAGE_SIZE)"
  using assms size_law[of s]
  by (auto simp: restricted_length restricted_size_def restricted_inv_def u64_sub_def min_def)

lemma restricted_bounds:
  assumes "restricted_inv inv contents start stop s"
    and "off + n \<le> length (restricted_contents contents start stop s)"
  shows "start * WASM_PAGE_SIZE + off + n \<le> length (contents s)"
    and "off + n \<le> (stop - start) * WASM_PAGE_SIZE"
    and "start * WASM_PAGE_SIZE + off \<le> U64_MAX"
proof -
  have s: "inv s"
    using assms(1) by (simp add: restricted_inv_def)
  have len: "length (restricted_contents contents start stop s) =
      min ((stop - start) * WASM_PAGE_SIZE) (length (contents s) - start * WASM_PAGE_SIZE)"
    unfolding restricted_contents_def subrange_def length_take length_drop by linarith
  have "start * WASM_PAGE_SIZE \<le> length (contents s)"
    using assms(1) size_bytes[OF s] unfolding restricted_inv_def by linarith
  then show 1: "start * WASM_PAGE_SIZE + off + n \<le> length (contents s)"
    and "off + n \<le> (stop - start) * WASM_PAGE_SIZE"
    using assms(2) len by linarith+
  show "start * WASM_PAGE_SIZE + off \<le> U64_MAX"
    using 1 length_le_max[OF s] by linarith
qed

lemma restricted_read_ok:
  assumes r: "restricted_inv inv contents start stop s"
    and le: "off + n \<le> length (restricted_contents contents start stop s)"
  shows "ok (restricted_read M start stop s off n) (\<lambda>(bs, s').
    bs = subrange (restricted_contents contents start stop s) off n \<and>
    restricted_inv inv contents start stop s' \<and>
    restricted_contents contents start stop s' = restricted_contents contents start stop s \<and>
    restricted_cap cap start stop s' = restricted_cap cap start stop s)"
proof -
  note b = restricted_bounds[OF r le]
  have "subrange (restricted_contents contents start stop s) off n =
      subrange (contents s) (start * WASM_PAGE_SIZE + off) n"
    unfolding restricted_contents_def by (rule subrange_subrange) (rule b(2))
  with read_law[of s "start * WASM_PAGE_SIZE + off" n] b r show ?thesis
    by (auto simp: restricted_read_def restricted_inv_def restricted_contents_def restricted_cap_def
        elim!: ok_mono)
qed

lemma restricted_write_ok:
  assumes r: "restricted_inv inv contents start stop s"
    and le: "off + length bs \<le> length (restricted_contents contents start stop s)"
  shows "ok (restricted_write M start stop s off bs) (\<lambda>s'.
    restricted_inv inv contents start stop s' \<and>
    restricted_contents contents start stop s' =
      overwrite (restricted_contents contents start stop s) off bs \<and>
    restricted_cap cap start stop s' = restricted_cap cap start stop s)"
proof -
  note b = restricted_bounds[OF r le]
  from write_law[of s "start * WASM_PAGE_SIZE + off" bs] b r show ?thesis
    by (auto simp: restricted_write_def restricted_inv_def restricted_contents_def restricted_cap_def
        subrange_overwrite_shift elim!: ok_mono)
qed

lemma restricted_contents_grow:
  assumes "restricted_inv inv contents start stop s" "length zs = n * WASM_PAGE_SIZE"
    and "contents s' = contents s @ zs" "length (contents s) div WASM_PAGE_SIZE + n \<le> stop"
  shows "restricted_contents contents start stop s' = restricted_contents contents start stop s @ zs"
proof -
  let ?b = "length (contents s) div WASM_PAGE_SIZE"
  have "length (contents s) = ?b * WASM_PAGE_SIZE"
    using assms(1) size_bytes by (simp add: restricted_inv_def)
  then have "length (contents s) + length zs \<le> stop * WASM_PAGE_SIZE"
    using assms(2,4) by linarith
  moreover have "start * WASM_PAGE_SIZE \<le> length (contents s)"
    using assms(1) \<open>length (contents s) = ?b * WASM_PAGE_SIZE\<close> unfolding restricted_inv_def by linarith
  ultimately show ?thesis
    using assms(3) by (simp add: restricted_contents_def subrange_def diff_mult_distrib)
qed

lemma restricted_grow_ok:
  assumes r: "restricted_inv inv contents start stop s"
    and le: "length (restricted_contents contents start stop s) div WASM_PAGE_SIZE + n \<le>
      restricted_cap cap start stop s"
  shows "ok (restricted_grow M start stop s n) (\<lambda>(r, s').
    r = int (length (restricted_contents contents start stop s) div WASM_PAGE_SIZE) \<and>
    restricted_inv inv contents start stop s' \<and>
    restricted_cap cap start stop s' = restricted_cap cap start stop s \<and>
    (\<exists>zs. length zs = n * WASM_PAGE_SIZE \<and>
      restricted_contents contents start stop s' = restricted_contents contents start stop s @ zs))"
proof -
  let ?b = "length (contents s) div WASM_PAGE_SIZE"
  have s: "inv s" and rng: "start \<le> stop" "stop \<le> MAX_PAGES" "start \<le> ?b"
    using r by (simp_all add: restricted_inv_def)
  have sz: "length (restricted_contents contents start stop s) div WASM_PAGE_SIZE = min stop ?b - start"
    using restricted_length[OF r] by simp
  have bc: "?b \<le> cap s"
    using size_cap_law[OF s] size_bytes[OF s] by linarith
  show ?thesis
  proof (cases "stop \<le> ?b")
    case True
    then have "n = 0"
      using le sz rng bc by (auto simp: restricted_cap_def min_def split: if_splits)
    with True rng r sz size_law[OF s] show ?thesis
      by (simp add: restricted_grow_def u64_sub_def)
  next
    case False
    with le sz have n: "?b + n \<le> cap s" "?b + n \<le> stop"
      using rng bc by (auto simp: restricted_cap_def min_def split: if_splits)
    have eq: "restricted_grow M start stop s n = do {
        (r, s) \<leftarrow> grow_op M s n; if r < 0 then Some (r, s) else Some (r - int start, s) }"
    proof -
      have "\<not> stop - ?b < n"
        using n by linarith
      then show ?thesis
        using False rng by (simp add: restricted_grow_def size_law[OF s] u64_sub_def)
    qed
    show ?thesis
      unfolding eq
    proof (rule ok_bindI[OF grow_law[OF s n(1)]], clarsimp)
      fix s1 zs
      assume s1: "inv s1" "cap s1 = cap s" "length zs = n * WASM_PAGE_SIZE" "contents s1 = contents s @ zs"
      have "start \<le> length (contents s1) div WASM_PAGE_SIZE"
        using rng(3) s1(3,4) by simp
      with s1 False rng sz restricted_contents_grow[OF r s1(3,4) n(2)]
      show "int ?b - int start = int (length (restricted_contents contents start stop s) div WASM_PAGE_SIZE) \<and>
          restricted_inv inv contents start stop s1 \<and>
          restricted_cap cap start stop s1 = restricted_cap cap start stop s \<and>
          (\<exists>zs. length zs = n * WASM_PAGE_SIZE \<and>
            restricted_contents contents start stop s1 = restricted_contents contents start stop s @ zs)"
        by (auto simp: restricted_inv_def restricted_cap_def)
    qed
  qed
qed

lemma restricted_grow_fail:
  assumes r: "restricted_inv inv contents start stop s"
    and over: "restricted_cap cap start stop s <
      length (restricted_contents contents start stop s) div WASM_PAGE_SIZE + n"
    and g: "restricted_grow M start stop s n = Some (res, s')"
  shows "res = -1 \<and> restricted_inv inv contents start stop s' \<and>
    restricted_contents contents start stop s' = restricted_contents contents start stop s \<and>
    restricted_cap cap start stop s' = restricted_cap cap start stop s"
proof -
  let ?b = "length (contents s) div WASM_PAGE_SIZE"
  have s: "inv s" and rng: "start \<le> stop" "stop \<le> MAX_PAGES" "start \<le> ?b"
    using r by (simp_all add: restricted_inv_def)
  have sz: "length (restricted_contents contents start stop s) div WASM_PAGE_SIZE = min stop ?b - start"
    using restricted_length[OF r] by simp
  have bc: "?b \<le> cap s"
    using size_cap_law[OF s] size_bytes[OF s] by linarith
  show ?thesis
  proof (cases "stop \<le> ?b \<or> stop - ?b < n")
    case True
    with over g sz rng bc r show ?thesis
      by (auto simp: restricted_grow_def size_law[OF s] restricted_cap_def u64_sub_def split: if_splits)
  next
    case False
    then have "min stop ?b = ?b"
      by simp
    then have cap: "cap s < ?b + n"
      using over sz rng False unfolding restricted_cap_def by linarith
    have "restricted_grow M start stop s n = do {
        (r, s) \<leftarrow> grow_op M s n; if r < 0 then Some (r, s) else Some (r - int start, s) }"
      using False rng by (simp add: restricted_grow_def size_law[OF s] u64_sub_def)
    with g obtain r0 s1 where g1: "grow_op M s n = Some (r0, s1)"
      and "(if r0 < 0 then Some (r0, s1) else Some (r0 - int start, s1)) = Some (res, s')"
      by (auto simp: bind_eq_Some_conv)
    with grow_over_law[OF s cap g1] r show ?thesis
      by (auto simp: restricted_cap_def restricted_inv_def restricted_contents_def)
  qed
qed

lemma restricted_memory:
  "memory (RestrictedMemory M start stop) (restricted_inv inv contents start stop)
     (restricted_contents contents start stop) (restricted_cap cap start stop)"
proof (unfold_locales, unfold RestrictedMemory_def memory_ops.simps)
  fix s
  assume r: "restricted_inv inv contents start stop s"
  then have s: "inv s"
    by (simp add: restricted_inv_def)
  show "restricted_cap cap start stop s \<le> MAX_PAGES"
    using cap_law[OF s] by (simp add: restricted_cap_def)
  show "length (restricted_contents contents start stop s) \<le> restricted_cap cap start stop s * WASM_PAGE_SIZE"
    using size_cap_law[OF s] size_bytes[OF s] restricted_length[OF r]
    unfolding restricted_cap_def by (auto simp: min_def)
  show "WASM_PAGE_SIZE dvd length (restricted_contents contents start stop s)"
    using restricted_length[OF r] by simp
qed (rule restricted_size_ok restricted_read_ok restricted_write_ok restricted_grow_ok
      restricted_grow_fail; assumption)+

end

interpretation rvm: memory "RestrictedMemory VectorMemory start stop"
  "restricted_inv vec_inv (\<lambda>m. m) start stop" "restricted_contents (\<lambda>m. m) start stop"
  "restricted_cap vec_cap start stop" for start stop
  by (rule vm.restricted_memory)

subsection \<open>Where RestrictedMemory leaves its range\<close>

text \<open>
  C36. While the underlying memory ends before the range, \<open>grow\<close> does not compare the request with the
  end of the range: it reports success and the range has fewer pages than were asked for.
\<close>

theorem restricted_grow_before_range:
  assumes m: "vec_inv m" and before: "length m div WASM_PAGE_SIZE < start"
    and rng: "start \<le> stop" "stop < start + pages" and lim: "start + pages \<le> VEC_MAX_PAGES"
  shows "ok (restricted_grow VectorMemory start stop m pages) (\<lambda>(r, m').
    r = 0 \<and> restricted_size VectorMemory start stop m' = Some (stop - start) \<and> stop - start < pages)"
proof -
  let ?b = "length m div WASM_PAGE_SIZE" and ?n = "start - length m div WASM_PAGE_SIZE + pages"
  have eq: "?b + ?n = start + pages"
    using before by simp
  have g: "vec_grow m ?n = Some (int ?b, m @ replicate (?n * WASM_PAGE_SIZE) 0)"
    by (rule vec_grow_fits[OF m]) (use eq lim in simp)
  have sz: "(length m + ?n * WASM_PAGE_SIZE) div WASM_PAGE_SIZE = start + pages"
    using eq by simp
  have "u64_add (start - ?b) pages = Some ?n"
    using before lim by (simp add: u64_add_def VEC_MAX_PAGES_val)
  then show ?thesis
    using before rng g sz
    by (simp add: restricted_grow_def restricted_size_def VectorMemory_def vec_size_def u64_sub_def
        del: div_mult_self1 div_mult_self2)
qed

theorem restricted_grow_before_range_witness:
  "ok (restricted_grow VectorMemory 1 2 [] 5) (\<lambda>(r, m'). r = 0 \<and> restricted_size VectorMemory 1 2 m' = Some 1)"
  using restricted_grow_before_range[of "[]" 1 2 5] by (auto simp: VEC_MAX_PAGES_val elim!: ok_mono)

lemma subrange_overwrite_before:
  assumes "off + n \<le> k" "k + length bs \<le> length xs"
  shows "subrange (overwrite xs k bs) off n = subrange xs off n"
  using assms by (intro nth_equalityI) (auto simp: subrange_def nth_overwrite)

text \<open>An offset behind the range of a restricted memory is an offset in the range that follows it.\<close>

lemma restricted_write_next:
  assumes "start \<le> mid" "mid \<le> MAX_PAGES" "(mid - start) * WASM_PAGE_SIZE \<le> off"
  shows "restricted_write M start mid s off bs = restricted_write M mid stop s (off - (mid - start) * WASM_PAGE_SIZE) bs"
proof -
  have "start * WASM_PAGE_SIZE + off = mid * WASM_PAGE_SIZE + (off - (mid - start) * WASM_PAGE_SIZE)"
    using assms(1,3) by (simp add: diff_mult_distrib)
  moreover have "start * WASM_PAGE_SIZE \<le> U64_MAX" "mid * WASM_PAGE_SIZE \<le> U64_MAX"
    using assms(1,2) by (simp_all add: MAX_PAGES_val)
  ultimately show ?thesis
    by (simp add: restricted_write_def u64_mul_def u64_add_def)
qed

text \<open>
  C37. Restricted memories are not separated: two restricted memories of one memory have page ranges one after the other. A write through the first at an offset behind
  its own end, as given by its \<open>size\<close>, does not panic, whatever the documentation of the trait says: it leaves the first as it was and overwrites the
  contents of the second.
\<close>

theorem restricted_write_reaches_neighbour:
  assumes M: "memory M minv contents cap" and r: "restricted_inv minv contents start mid s" "restricted_inv minv contents mid stop s"
    and off: "(mid - start) * WASM_PAGE_SIZE \<le> off"
      "off + length bs \<le> (mid - start) * WASM_PAGE_SIZE + length (restricted_contents contents mid stop s)"
  shows "size_op (RestrictedMemory M start mid) s = Some (mid - start) \<and>
    ok (write_op (RestrictedMemory M start mid) s off bs) (\<lambda>s'.
      restricted_contents contents start mid s' = restricted_contents contents start mid s \<and>
      restricted_contents contents mid stop s' =
        overwrite (restricted_contents contents mid stop s) (off - (mid - start) * WASM_PAGE_SIZE) bs)"
proof -
  have s: "minv s" "start \<le> mid" "mid \<le> MAX_PAGES" "mid \<le> length (contents s) div WASM_PAGE_SIZE"
    using r by (simp_all add: restricted_inv_def)
  let ?off = "off - (mid - start) * WASM_PAGE_SIZE"
  have "length (restricted_contents contents start mid s) = (mid - start) * WASM_PAGE_SIZE"
    using memory.restricted_length[OF M r(1)] s(4) by (simp add: min_def)
  then have size: "size_op (RestrictedMemory M start mid) s = Some (mid - start)"
    using memory.restricted_size_ok[OF M r(1)] by (simp add: RestrictedMemory_def)
  have le: "?off + length bs \<le> length (restricted_contents contents mid stop s)"
    using off by linarith
  have b: "mid * WASM_PAGE_SIZE + ?off + length bs \<le> length (contents s)"
    using memory.restricted_bounds(1)[OF M r(2) le] by simp
  have "restricted_contents contents start mid s' = restricted_contents contents start mid s"
    if "contents s' = overwrite (contents s) (mid * WASM_PAGE_SIZE + ?off) bs" for s'
    using b s(2) by (simp add: restricted_contents_def that subrange_overwrite_before diff_mult_distrib)
  moreover have eq: "restricted_write M mid stop s ?off bs = write_op M s (mid * WASM_PAGE_SIZE + ?off) bs"
    using b s(3) memory.length_le_max[OF M s(1)] by (simp add: restricted_write_def u64_mul_def u64_add_def MAX_PAGES_val)
  ultimately have "ok (restricted_write M mid stop s ?off bs) (\<lambda>s'. restricted_contents contents start mid s' = restricted_contents contents start mid s \<and>
      restricted_contents contents mid stop s' = overwrite (restricted_contents contents mid stop s) ?off bs)"
    using memory.write_law[OF M s(1) b] memory.restricted_write_ok[OF M r(2) le] by (auto simp: eq elim!: ok_obtain)
  with size show ?thesis
    using restricted_write_next[OF s(2,3) off(1), of M s bs stop] by (simp add: RestrictedMemory_def)
qed

theorem restricted_write_reaches_neighbour_witness:
  "size_op (RestrictedMemory VectorMemory 0 1) (replicate 131072 0) = Some 1 \<and>
   ok (write_op (RestrictedMemory VectorMemory 0 1) (replicate 131072 0) 65540 [7]) (\<lambda>m.
     restricted_contents (\<lambda>m. m) 0 1 m = replicate 65536 0 \<and> restricted_contents (\<lambda>m. m) 1 2 m = overwrite (replicate 65536 0) 4 [7])"
proof -
  let ?m = "replicate 131072 0 :: bytes"
  have "restricted_inv vec_inv (\<lambda>m. m) 0 1 ?m" "restricted_inv vec_inv (\<lambda>m. m) 1 2 ?m"
    by (simp_all add: restricted_inv_def vec_inv_def VEC_MAX_PAGES_val MAX_PAGES_val)
  moreover have "restricted_contents (\<lambda>m. m) 0 1 ?m = replicate 65536 0" "restricted_contents (\<lambda>m. m) 1 2 ?m = replicate 65536 0"
    by (simp_all add: restricted_contents_def subrange_def)
  ultimately show ?thesis
    using restricted_write_reaches_neighbour[OF vm.memory_axioms, of 0 1 ?m 2 65540 "[7]"] by simp
qed

end
