(* ===== verification/Storable.thy ===== *)
theory Storable
  imports Prelude
begin

text \<open>
  The \<open>Storable\<close> trait of \<open>src/src/storable.rs\<close> and its implementations for the basic types.

  An implementation is a record of \<open>to_bytes\<close>, \<open>from_bytes\<close> and \<open>BOUND\<close>; both functions may panic.
  \<open>into_bytes\<close> returns the same bytes as \<open>to_bytes\<close> in every implementation and is not a separate
  field. The locale \<open>storable_type\<close> is the contract the containers rely on: decoding an encoding
  gives the value back, and encodings respect the declared bound. Types whose Rust values carry an
  invariant (a blob's size, a string's UTF-8 validity, an array's length) have a predicate \<open>valid\<close>.
\<close>

section \<open>Bounds\<close>

datatype bound = Unbounded | Bounded nat bool

definition bound_max_size :: "bound \<Rightarrow> nat option" where
  "bound_max_size b = (case b of Bounded max_size _ \<Rightarrow> Some max_size | Unbounded \<Rightarrow> None)"

definition bound_is_fixed_size :: "bound \<Rightarrow> bool" where
  "bound_is_fixed_size b = (case b of Bounded _ is_fixed_size \<Rightarrow> is_fixed_size | Unbounded \<Rightarrow> False)"

record 'a storable =
  to_bytes :: "'a \<Rightarrow> bytes option"
  from_bytes :: "bytes \<Rightarrow> 'a option"
  BOUND :: bound

definition check_bounds :: "'a storable \<Rightarrow> bytes \<Rightarrow> unit option" where
  "check_bounds T bs =
     (case BOUND T of
        Bounded max_size is_fixed_size \<Rightarrow>
          let actual = length bs in
          if is_fixed_size then assert_that (actual = max_size) else assert_that (actual \<le> max_size)
      | Unbounded \<Rightarrow> Some ())"

definition to_bytes_checked :: "'a storable \<Rightarrow> 'a \<Rightarrow> bytes option" where
  "to_bytes_checked T x = do {
     bs \<leftarrow> to_bytes T x;
     check_bounds T bs;
     Some bs }"

text \<open>\<open>struct Bounds\<close>: the maximal size and whether the size is fixed.\<close>

record bounds =
  max_size :: nat
  is_fixed_size :: bool

definition bounds_of :: "'a storable \<Rightarrow> bounds option" where
  "bounds_of T =
     (case BOUND T of
        Bounded m f \<Rightarrow> Some \<lparr>max_size = m, is_fixed_size = f\<rparr>
      | Unbounded \<Rightarrow> None)"

definition bytes_to_store_size :: "nat \<Rightarrow> nat" where
  "bytes_to_store_size bytes_size =
     (if bytes_size \<le> U8_MAX then 1 else if bytes_size \<le> U16_MAX then 2 else 4)"

definition bytes_to_store_size_bounded :: "bounds \<Rightarrow> nat" where
  "bytes_to_store_size_bounded b =
     (if is_fixed_size b then 0 else bytes_to_store_size (max_size b))"

section \<open>Implementations\<close>

subsection \<open>Unit, byte vectors and strings\<close>

definition unit_storable :: "unit storable" where
  "unit_storable =
     \<lparr>to_bytes = (\<lambda>_. Some []),
      from_bytes = (\<lambda>bs. assert_that (bs = [])),
      BOUND = Bounded 0 False\<rparr>"

definition vec_u8_storable :: "bytes storable" where
  "vec_u8_storable = \<lparr>to_bytes = Some, from_bytes = Some, BOUND = Unbounded\<rparr>"

text \<open>\<open>str::from_utf8\<close>: the byte sequences that are well-formed UTF-8.\<close>

definition utf8_cont :: "u8 \<Rightarrow> bool" where
  "utf8_cont b \<longleftrightarrow> 128 \<le> unat b \<and> unat b \<le> 191"

fun utf8_valid :: "bytes \<Rightarrow> bool" where
  "utf8_valid [] = True"
| "utf8_valid (b # bs) =
     (let n = unat b in
      if n < 128 then utf8_valid bs
      else if 194 \<le> n \<and> n \<le> 223 then
        (case bs of c # cs \<Rightarrow> utf8_cont c \<and> utf8_valid cs | _ \<Rightarrow> False)
      else if 224 \<le> n \<and> n \<le> 239 then
        (case bs of c # d # ds \<Rightarrow>
           utf8_cont c \<and> utf8_cont d \<and> (n = 224 \<longrightarrow> 160 \<le> unat c) \<and> (n = 237 \<longrightarrow> unat c \<le> 159) \<and>
           utf8_valid ds
         | _ \<Rightarrow> False)
      else if 240 \<le> n \<and> n \<le> 244 then
        (case bs of c # d # e # es \<Rightarrow>
           utf8_cont c \<and> utf8_cont d \<and> utf8_cont e \<and>
           (n = 240 \<longrightarrow> 144 \<le> unat c) \<and> (n = 244 \<longrightarrow> unat c \<le> 143) \<and> utf8_valid es
         | _ \<Rightarrow> False)
      else False)"

text \<open>A \<open>String\<close> is its UTF-8 bytes; \<open>String::from_utf8(..).unwrap()\<close> panics on anything else.\<close>

definition string_storable :: "bytes storable" where
  "string_storable =
     \<lparr>to_bytes = Some,
      from_bytes = (\<lambda>bs. if utf8_valid bs then Some bs else None),
      BOUND = Unbounded\<rparr>"

subsection \<open>Fixed-width integers and floats\<close>

text \<open>
  \<open>to_be_bytes\<close>, and \<open>from_be_bytes(bytes.try_into().unwrap())\<close>, which panics on a wrong length.
  A float is its bit pattern.
\<close>

definition word_to_bytes :: "nat \<Rightarrow> 'w::len word \<Rightarrow> bytes option" where
  "word_to_bytes k w = Some (to_be_bytes k (unat w))"

definition word_from_bytes :: "nat \<Rightarrow> bytes \<Rightarrow> 'w::len word option" where
  "word_from_bytes k bs = (if length bs = k then Some (of_nat (from_be_bytes bs)) else None)"

definition u128_storable :: "128 word storable" where
  "u128_storable = \<lparr>to_bytes = word_to_bytes 16, from_bytes = word_from_bytes 16, BOUND = Bounded 16 True\<rparr>"

definition u64_storable :: "64 word storable" where
  "u64_storable = \<lparr>to_bytes = word_to_bytes 8, from_bytes = word_from_bytes 8, BOUND = Bounded 8 True\<rparr>"

definition f64_storable :: "64 word storable" where
  "f64_storable = \<lparr>to_bytes = word_to_bytes 8, from_bytes = word_from_bytes 8, BOUND = Bounded 8 True\<rparr>"

definition u32_storable :: "32 word storable" where
  "u32_storable = \<lparr>to_bytes = word_to_bytes 4, from_bytes = word_from_bytes 4, BOUND = Bounded 4 True\<rparr>"

definition f32_storable :: "32 word storable" where
  "f32_storable = \<lparr>to_bytes = word_to_bytes 4, from_bytes = word_from_bytes 4, BOUND = Bounded 4 True\<rparr>"

definition u16_storable :: "16 word storable" where
  "u16_storable = \<lparr>to_bytes = word_to_bytes 2, from_bytes = word_from_bytes 2, BOUND = Bounded 2 True\<rparr>"

definition u8_storable :: "8 word storable" where
  "u8_storable = \<lparr>to_bytes = word_to_bytes 1, from_bytes = word_from_bytes 1, BOUND = Bounded 1 True\<rparr>"

definition bool_storable :: "bool storable" where
  "bool_storable =
     \<lparr>to_bytes = (\<lambda>b. Some (to_be_bytes 1 (if b then 1 else 0))),
      from_bytes = (\<lambda>bs. do {
        assert_that (length bs = 1);
        if bs ! 0 = 0 then Some False else if bs ! 0 = 1 then Some True else None }),
      BOUND = Bounded 1 True\<rparr>"

subsection \<open>Byte arrays and padded vectors\<close>

text \<open>\<open>[u8; N]\<close>: the byte lists of length \<open>N\<close>.\<close>

definition array_storable :: "nat \<Rightarrow> bytes storable" where
  "array_storable N =
     \<lparr>to_bytes = Some,
      from_bytes = (\<lambda>bs. do { assert_that (length bs = N); Some (overwrite (replicate N 0) 0 bs) }),
      BOUND = Bounded N True\<rparr>"

text \<open>\<open>UnboundedVecN::from\<close> and \<open>BoundedVecN::from\<close>: the slice, padded with zeros to \<open>N\<close> bytes.\<close>

definition vec_n_from :: "nat \<Rightarrow> bytes \<Rightarrow> bytes option" where
  "vec_n_from N xs = do {
     assert_that (length xs \<le> N);
     Some (take N xs @ replicate (N - length xs) 0) }"

definition vec_n_default :: "nat \<Rightarrow> bytes" where
  "vec_n_default N = replicate N 0"

definition bounded_vec_n_from :: "nat \<Rightarrow> bytes \<Rightarrow> bytes option" where
  "bounded_vec_n_from N xs = do {
     assert_that (length xs \<le> N);
     Some (take N xs @ replicate (N - length xs) 0) }"

definition bounded_vec_n_default :: "nat \<Rightarrow> bytes" where
  "bounded_vec_n_default N = replicate N 0"

definition unbounded_vec_n_storable :: "nat \<Rightarrow> bytes storable" where
  "unbounded_vec_n_storable N = \<lparr>to_bytes = Some, from_bytes = Some, BOUND = Unbounded\<rparr>"

definition bounded_vec_n_storable :: "nat \<Rightarrow> bytes storable" where
  "bounded_vec_n_storable N = \<lparr>to_bytes = Some, from_bytes = Some, BOUND = Bounded N False\<rparr>"

subsection \<open>Blobs\<close>

record blob =
  storage :: bytes
  blob_size :: nat

definition blob_len :: "blob \<Rightarrow> nat" where
  "blob_len b = blob_size b"

definition blob_is_empty :: "blob \<Rightarrow> bool" where
  "blob_is_empty b \<longleftrightarrow> blob_len b = 0"

definition as_slice :: "blob \<Rightarrow> bytes option" where
  "as_slice b = (if blob_len b \<le> length (storage b) then Some (take (blob_len b) (storage b)) else None)"

definition blob_default :: "nat \<Rightarrow> blob" where
  "blob_default N = \<lparr>storage = replicate N 0, blob_size = 0\<rparr>"

datatype try_from_slice_error = TryFromSliceError

definition blob_try_from :: "nat \<Rightarrow> bytes \<Rightarrow> try_from_slice_error + blob" where
  "blob_try_from N value =
     (if length value > N then Inl TryFromSliceError
      else let result = blob_default N in
        Inr (result\<lparr>storage := overwrite (storage result) 0 value, blob_size := length value\<rparr>))"

datatype ordering = Less | Equal | Greater

text \<open>\<open>Ord for [u8]\<close>: lexicographic.\<close>

fun slice_cmp :: "bytes \<Rightarrow> bytes \<Rightarrow> ordering" where
  "slice_cmp [] [] = Equal"
| "slice_cmp [] (y # ys) = Less"
| "slice_cmp (x # xs) [] = Greater"
| "slice_cmp (x # xs) (y # ys) = (if x < y then Less else if y < x then Greater else slice_cmp xs ys)"

definition blob_eq :: "blob \<Rightarrow> blob \<Rightarrow> bool option" where
  "blob_eq a b = do { x \<leftarrow> as_slice a; y \<leftarrow> as_slice b; Some (x = y) }"

definition blob_cmp :: "blob \<Rightarrow> blob \<Rightarrow> ordering option" where
  "blob_cmp a b = do { x \<leftarrow> as_slice a; y \<leftarrow> as_slice b; Some (slice_cmp x y) }"

definition blob_partial_cmp :: "blob \<Rightarrow> blob \<Rightarrow> ordering option option" where
  "blob_partial_cmp a b = do { r \<leftarrow> blob_cmp a b; Some (Some r) }"

definition blob_storable :: "nat \<Rightarrow> blob storable" where
  "blob_storable N =
     \<lparr>to_bytes = as_slice,
      from_bytes = (\<lambda>bs. case blob_try_from N bs of Inl _ \<Rightarrow> None | Inr b \<Rightarrow> Some b),
      BOUND = Bounded N False\<rparr>"

subsection \<open>Wrappers\<close>

datatype 'a reverse = Reverse (unReverse: 'a)

definition reverse_storable :: "'a storable \<Rightarrow> 'a reverse storable" where
  "reverse_storable T =
     \<lparr>to_bytes = (\<lambda>r. to_bytes T (unReverse r)),
      from_bytes = (\<lambda>bs. map_option Reverse (from_bytes T bs)),
      BOUND = BOUND T\<rparr>"

definition option_to_bytes :: "'a storable \<Rightarrow> 'a option \<Rightarrow> bytes option" where
  "option_to_bytes T v =
     (case v of
        Some t \<Rightarrow> do { bs \<leftarrow> to_bytes T t; Some (bs @ [1]) }
      | None \<Rightarrow> Some [0])"

definition option_from_bytes :: "'a storable \<Rightarrow> bytes \<Rightarrow> 'a option option" where
  "option_from_bytes T bs =
     (if bs = [] then None
      else let rest = butlast bs in
        if last bs = 0 then do { assert_that (rest = []); Some None }
        else if last bs = 1 then do { t \<leftarrow> from_bytes T rest; Some (Some t) }
        else None)"

definition option_bound :: "bound \<Rightarrow> bound" where
  "option_bound b =
     (case b of
        Bounded m f \<Rightarrow> Bounded (m + 1) f
      | Unbounded \<Rightarrow> Unbounded)"

definition option_storable :: "'a storable \<Rightarrow> 'a option storable" where
  "option_storable T =
     \<lparr>to_bytes = option_to_bytes T, from_bytes = option_from_bytes T, BOUND = option_bound (BOUND T)\<rparr>"

text \<open>
  \<open>Principal\<close> is a type of another crate: its \<open>as_slice\<close>, \<open>from_slice\<close> and
  \<open>MAX_LENGTH_IN_BYTES\<close> are parameters.
\<close>

definition principal_storable ::
  "('p \<Rightarrow> bytes) \<Rightarrow> (bytes \<Rightarrow> 'p option) \<Rightarrow> nat \<Rightarrow> 'p storable" where
  "principal_storable principal_as_slice principal_from_slice max_len =
     \<lparr>to_bytes = (\<lambda>p. Some (principal_as_slice p)),
      from_bytes = principal_from_slice,
      BOUND = Bounded max_len False\<rparr>"

section \<open>The contract\<close>

lemma ok_check_bounds:
  "ok (check_bounds T bs) Q \<longleftrightarrow>
     (case BOUND T of Bounded m f \<Rightarrow> length bs \<le> m \<and> (f \<longrightarrow> length bs = m) | Unbounded \<Rightarrow> True) \<and> Q ()"
  by (auto simp: check_bounds_def Let_def split: bound.splits)

lemma bytes_to_store_size_cases: "bytes_to_store_size n \<in> {1, 2, 4}"
  by (simp add: bytes_to_store_size_def)

lemma bytes_to_store_size_fits: "n \<le> U32_MAX \<Longrightarrow> n < 256 ^ bytes_to_store_size n"
  by (simp add: bytes_to_store_size_def)

lemma bytes_to_store_size_mono: "m \<le> n \<Longrightarrow> bytes_to_store_size m \<le> bytes_to_store_size n"
  by (simp add: bytes_to_store_size_def)

lemma bounds_of_Some: "bounds_of T = Some b \<longleftrightarrow> BOUND T = Bounded (max_size b) (is_fixed_size b)"
  by (cases b) (auto simp: bounds_of_def split: bound.splits)

locale storable_type =
  fixes T :: "'a storable"
    and valid :: "'a \<Rightarrow> bool"
  assumes roundtrip_law: "valid x \<Longrightarrow> ok (to_bytes T x) (\<lambda>bs. from_bytes T bs = Some x)"
    and bound_law: "valid x \<Longrightarrow> ok (to_bytes T x) (\<lambda>bs. ok (check_bounds T bs) (\<lambda>_. True))"
begin

lemma to_bytes_ok: "valid x \<Longrightarrow>
  ok (to_bytes T x) (\<lambda>bs. from_bytes T bs = Some x \<and> ok (check_bounds T bs) (\<lambda>_. True))"
  using ok_conj[OF roundtrip_law bound_law] .

lemma to_bytes_checked_ok: "valid x \<Longrightarrow>
  ok (to_bytes_checked T x) (\<lambda>bs. to_bytes T x = Some bs \<and> from_bytes T bs = Some x \<and>
    ok (check_bounds T bs) (\<lambda>_. True))"
  using to_bytes_ok by (fastforce simp: to_bytes_checked_def ok_def)

lemma to_bytes_bounded:
  assumes "valid x" "bounds_of T = Some b"
  obtains bs where "to_bytes T x = Some bs" "from_bytes T bs = Some x" "length bs \<le> max_size b"
    "is_fixed_size b \<Longrightarrow> length bs = max_size b"
proof -
  obtain bs where bs: "to_bytes T x = Some bs" "from_bytes T bs = Some x" "ok (check_bounds T bs) (\<lambda>_. True)"
    using to_bytes_ok[OF assms(1)] by (auto elim: ok_obtain)
  show thesis
    by (rule that[OF bs(1,2)]) (use bs(3) assms(2) in \<open>simp_all add: ok_check_bounds bounds_of_Some\<close>)
qed

lemma to_bytes_inj: "valid x \<Longrightarrow> valid y \<Longrightarrow> to_bytes T x = to_bytes T y \<Longrightarrow> x = y"
  using roundtrip_law[of x] roundtrip_law[of y] by (auto simp: ok_def)

lemma reverse_law: "storable_type (reverse_storable T) (\<lambda>r. valid (unReverse r))"
proof
  fix r :: "'a reverse"
  assume "valid (unReverse r)"
  from to_bytes_ok[OF this]
  show "ok (to_bytes (reverse_storable T) r) (\<lambda>bs. from_bytes (reverse_storable T) bs = Some r)"
    and "ok (to_bytes (reverse_storable T) r) (\<lambda>bs. ok (check_bounds (reverse_storable T) bs) (\<lambda>_. True))"
    by (auto simp: reverse_storable_def ok_check_bounds elim!: ok_mono)
qed

lemma option_roundtrip:
  assumes "pred_option valid v"
  shows "ok (option_to_bytes T v) (\<lambda>bs. option_from_bytes T bs = Some v)"
  using assms by (cases v) (auto simp: option_to_bytes_def option_from_bytes_def assert_that_def
      elim!: ok_mono[OF roundtrip_law])

end

lemma storable_typeI:
  assumes "\<And>x. valid x \<Longrightarrow>
    ok (to_bytes T x) (\<lambda>bs. from_bytes T bs = Some x \<and> ok (check_bounds T bs) (\<lambda>_. True))"
  shows "storable_type T valid"
  using assms by unfold_locales (force elim: ok_mono)+

text \<open>
  An optional value of a fixed-size type is declared fixed-size too, although \<open>None\<close> takes one byte
  and \<open>Some\<close> takes the size of the element and one more: only for types that are not fixed-size, or
  of size 0, does the encoding of every optional value respect the declared bound.
\<close>

lemma option_bound_ok:
  assumes "storable_type T valid"
    and "\<not> (bound_is_fixed_size (BOUND T)) \<or> bound_max_size (BOUND T) = Some 0"
  shows "storable_type (option_storable T) (pred_option valid)"
proof
  fix v
  assume v: "pred_option valid v"
  then show "ok (to_bytes (option_storable T) v) (\<lambda>bs. from_bytes (option_storable T) bs = Some v)"
    using storable_type.option_roundtrip[OF assms(1)] by (simp add: option_storable_def)
  show "ok (to_bytes (option_storable T) v) (\<lambda>bs. ok (check_bounds (option_storable T) bs) (\<lambda>_. True))"
    using assms(2) v storable_type.bound_law[OF assms(1)]
    by (cases v; cases "BOUND T") (fastforce simp: option_storable_def option_to_bytes_def option_bound_def
        ok_check_bounds bound_is_fixed_size_def bound_max_size_def elim!: ok_mono)+
qed

section \<open>The implementations meet the contract\<close>

lemma word_roundtrip:
  assumes "LENGTH('w) = 8 * k"
  shows "word_from_bytes k (to_be_bytes k (unat (w :: 'w::len word))) = Some w"
proof -
  have "unat w < 256 ^ k"
    using unsigned_less[of w] assms by (simp add: power_mult)
  then show ?thesis
    by (simp add: word_from_bytes_def)
qed

lemmas word_storable_defs =
  u128_storable_def u64_storable_def f64_storable_def u32_storable_def f32_storable_def
  u16_storable_def u8_storable_def

interpretation unit_ty: storable_type unit_storable "\<lambda>_. True"
  by unfold_locales (simp_all add: unit_storable_def ok_check_bounds assert_that_def)

interpretation vec_u8_ty: storable_type vec_u8_storable "\<lambda>_. True"
  by unfold_locales (simp_all add: vec_u8_storable_def ok_check_bounds)

interpretation string_ty: storable_type string_storable utf8_valid
  by unfold_locales (simp_all add: string_storable_def ok_check_bounds)

interpretation u128_ty: storable_type u128_storable "\<lambda>_. True"
  by unfold_locales (simp_all add: word_storable_defs word_to_bytes_def word_roundtrip ok_check_bounds)

interpretation u64_ty: storable_type u64_storable "\<lambda>_. True"
  by unfold_locales (simp_all add: word_storable_defs word_to_bytes_def word_roundtrip ok_check_bounds)

interpretation f64_ty: storable_type f64_storable "\<lambda>_. True"
  by unfold_locales (simp_all add: word_storable_defs word_to_bytes_def word_roundtrip ok_check_bounds)

interpretation u32_ty: storable_type u32_storable "\<lambda>_. True"
  by unfold_locales (simp_all add: word_storable_defs word_to_bytes_def word_roundtrip ok_check_bounds)

interpretation f32_ty: storable_type f32_storable "\<lambda>_. True"
  by unfold_locales (simp_all add: word_storable_defs word_to_bytes_def word_roundtrip ok_check_bounds)

interpretation u16_ty: storable_type u16_storable "\<lambda>_. True"
  by unfold_locales (simp_all add: word_storable_defs word_to_bytes_def word_roundtrip ok_check_bounds)

interpretation u8_ty: storable_type u8_storable "\<lambda>_. True"
  by unfold_locales (simp_all add: word_storable_defs word_to_bytes_def word_roundtrip ok_check_bounds)

interpretation bool_ty: storable_type bool_storable "\<lambda>_. True"
  by unfold_locales (simp_all add: bool_storable_def to_be_bytes_def assert_that_def ok_check_bounds)

interpretation array_ty: storable_type "array_storable N" "\<lambda>xs. length xs = N" for N
  by unfold_locales (simp_all add: array_storable_def assert_that_def overwrite_def ok_check_bounds)

interpretation unbounded_vec_n_ty: storable_type "unbounded_vec_n_storable N" "\<lambda>xs. length xs = N" for N
  by unfold_locales (simp_all add: unbounded_vec_n_storable_def ok_check_bounds)

interpretation bounded_vec_n_ty: storable_type "bounded_vec_n_storable N" "\<lambda>xs. length xs = N" for N
  by unfold_locales (simp_all add: bounded_vec_n_storable_def ok_check_bounds)

subsection \<open>Blobs\<close>

text \<open>
  The invariant of \<open>Blob<N>\<close>: \<open>N\<close> bytes of storage of which \<open>size\<close> are used. A value built by
  \<open>default\<close> or \<open>try_from\<close> has zeros behind the used part; equality and order do not look there.
\<close>

definition blob_inv :: "nat \<Rightarrow> blob \<Rightarrow> bool" where
  "blob_inv N b \<longleftrightarrow> length (storage b) = N \<and> blob_size b \<le> N"

definition blob_canonical :: "nat \<Rightarrow> blob \<Rightarrow> bool" where
  "blob_canonical N b \<longleftrightarrow>
     blob_inv N b \<and> storage b = take (blob_size b) (storage b) @ replicate (N - blob_size b) 0"

lemma blob_try_from_canonical:
  assumes "length xs \<le> N"
  shows "\<exists>b. blob_try_from N xs = Inr b \<and> blob_canonical N b \<and> as_slice b = Some xs"
  using assms by (auto simp: blob_try_from_def blob_default_def blob_canonical_def blob_inv_def
      as_slice_def blob_len_def overwrite_def)

lemma as_slice_inv: "blob_inv N b \<Longrightarrow> as_slice b = Some (take (blob_size b) (storage b))"
  by (simp add: blob_inv_def as_slice_def blob_len_def)

lemma blob_canonical_unique:
  assumes "blob_canonical N a" "blob_canonical N b" "as_slice a = as_slice b"
  shows "a = b"
proof -
  have ab: "blob_inv N a" "blob_inv N b"
    using assms by (simp_all add: blob_canonical_def)
  have s: "take (blob_size a) (storage a) = take (blob_size b) (storage b)"
    using assms(3) as_slice_inv[OF ab(1)] as_slice_inv[OF ab(2)] by simp
  moreover have "blob_size a \<le> length (storage a)" "blob_size b \<le> length (storage b)"
    using ab by (simp_all add: blob_inv_def)
  ultimately have "blob_size a = blob_size b"
    by (metis length_take min_absorb2)
  then show ?thesis
    using assms(1,2) s by (metis blob.equality blob_canonical_def old.unit.exhaust)
qed

interpretation blob_ty: storable_type "blob_storable N" "blob_canonical N" for N
proof
  fix b
  assume b: "blob_canonical N b"
  let ?x = "take (blob_size b) (storage b)"
  have sl: "as_slice b = Some ?x" and len: "length ?x \<le> N"
    using b as_slice_inv by (auto simp: blob_canonical_def blob_inv_def)
  obtain c where c: "blob_try_from N ?x = Inr c" "blob_canonical N c" "as_slice c = Some ?x"
    using blob_try_from_canonical[OF len] by blast
  have "c = b"
    using blob_canonical_unique[OF c(2) b] c(3) sl by simp
  then show "ok (to_bytes (blob_storable N) b) (\<lambda>bs. from_bytes (blob_storable N) bs = Some b)"
    using sl c(1) by (simp add: blob_storable_def)
  show "ok (to_bytes (blob_storable N) b) (\<lambda>bs. ok (check_bounds (blob_storable N) bs) (\<lambda>_. True))"
    using sl len by (simp add: blob_storable_def ok_check_bounds)
qed

lemma slice_cmp_equal: "slice_cmp xs ys = Equal \<longleftrightarrow> xs = ys"
  by (induction xs ys rule: slice_cmp.induct) auto

lemma slice_cmp_swap: "slice_cmp ys xs = Less \<longleftrightarrow> slice_cmp xs ys = Greater"
  by (induction xs ys rule: slice_cmp.induct) auto

lemma slice_cmp_trans: "slice_cmp xs ys = Less \<Longrightarrow> slice_cmp ys zs = Less \<Longrightarrow> slice_cmp xs zs = Less"
proof (induction xs zs arbitrary: ys rule: slice_cmp.induct)
  case 1
  then show ?case by (cases ys) auto
next
  case (2 z zs)
  then show ?case by simp
next
  case (3 x xs)
  then show ?case by (cases ys) auto
next
  case (4 x xs z zs)
  then show ?case by (cases ys) (auto split: if_splits)
qed

text \<open>\<open>Ord\<close> and \<open>PartialEq\<close> of blobs agree and the order is total and transitive.\<close>

lemma blob_order_laws:
  assumes "blob_inv N a" "blob_inv N b" "blob_inv N c"
  shows "blob_cmp a b = Some Equal \<longleftrightarrow> blob_eq a b = Some True"
    and "blob_cmp a b = Some Less \<longleftrightarrow> blob_cmp b a = Some Greater"
    and "blob_cmp a b = Some Less \<Longrightarrow> blob_cmp b c = Some Less \<Longrightarrow> blob_cmp a c = Some Less"
proof -
  note d = blob_cmp_def blob_eq_def assms[THEN as_slice_inv]
  show "blob_cmp a b = Some Equal \<longleftrightarrow> blob_eq a b = Some True"
    by (simp add: d slice_cmp_equal)
  show "blob_cmp a b = Some Less \<longleftrightarrow> blob_cmp b a = Some Greater"
    by (simp add: d, rule slice_cmp_swap)
  show "blob_cmp a b = Some Less \<Longrightarrow> blob_cmp b c = Some Less \<Longrightarrow> blob_cmp a c = Some Less"
    by (simp add: d, rule slice_cmp_trans)
qed

text \<open>The vectors of \<open>N\<close> bytes: made from a slice they have the length that their \<open>Storable\<close> implementations rely on.\<close>

lemma vec_n_from_ok:
  assumes "length xs \<le> N"
  shows "vec_n_from N xs = Some (xs @ replicate (N - length xs) 0)" "bounded_vec_n_from N xs = Some (xs @ replicate (N - length xs) 0)"
    "length (xs @ replicate (N - length xs) 0) = N"
  using assms by (simp_all add: vec_n_from_def bounded_vec_n_from_def assert_that_def)

section \<open>Where the bound of an option is wrong\<close>

text \<open>
  \<open>Option\<close> declares the size of its element and one byte more, fixed when that of the element is, but stores \<open>None\<close> in one byte.
\<close>

lemma option_checked:
  assumes T: "storable_type T valid" "BOUND T = Bounded m True"
  shows "to_bytes_checked (option_storable T) None = (if m = 0 then Some [0] else None)"
    "valid x \<Longrightarrow> ok (to_bytes_checked (option_storable T) (Some x)) (\<lambda>bs. from_bytes (option_storable T) bs = Some (Some x))"
proof -
  show "to_bytes_checked (option_storable T) None = (if m = 0 then Some [0] else None)"
    using T(2) by (simp add: to_bytes_checked_def option_storable_def option_to_bytes_def check_bounds_def option_bound_def assert_that_def)
  assume v: "valid x"
  have "bounds_of T = Some \<lparr>max_size = m, is_fixed_size = True\<rparr>"
    using T(2) by (simp add: bounds_of_def)
  from storable_type.to_bytes_bounded[OF T(1) v this] obtain bs where "to_bytes T x = Some bs" "from_bytes T bs = Some x" "length bs = m"
    by auto
  then show "ok (to_bytes_checked (option_storable T) (Some x)) (\<lambda>bs. from_bytes (option_storable T) bs = Some (Some x))"
    using storable_type.option_roundtrip[OF T(1), of "Some x"] v T(2)
    by (simp add: to_bytes_checked_def option_storable_def option_to_bytes_def check_bounds_def option_bound_def assert_that_def)
qed

lemma option_contract_iff:
  assumes T: "storable_type T valid" "BOUND T = Bounded m True"
  shows "storable_type (option_storable T) (pred_option valid) \<longleftrightarrow> m = 0"
proof
  assume "storable_type (option_storable T) (pred_option valid)"
  from storable_type.to_bytes_checked_ok[OF this, of None] option_checked(1)[OF T] show "m = 0"
    by (cases "m = 0") simp_all
next
  assume "m = 0"
  then show "storable_type (option_storable T) (pred_option valid)"
    using option_bound_ok[OF T(1)] T(2) by (simp add: bound_max_size_def)
qed

end
