(* ===== verification/Base_Vec.thy ===== *)
theory Base_Vec
  imports Memory Storable
begin

text \<open>
  The vector-like layout of \<open>src/src/base_vec.rs\<close> in a memory, byte for byte: the header, the slots,
  the operations and the iterator. The state of a \<open>BaseVec\<close> is its memory. The relation
  \<open>vec_rep T magic c xs\<close> says that the bytes \<open>c\<close> hold a vector of the items \<open>xs\<close>; the locale
  \<open>stable_vec\<close> joins the contract of the memory and of the item type and proves once that every
  operation acts on the represented list as the list operation it stands for, on every memory.
\<close>

section \<open>Data\<close>

definition LAYOUT_VERSION :: nat where "LAYOUT_VERSION = 1"
definition DATA_OFFSET :: nat where "DATA_OFFSET = 64"
definition LEN_OFFSET :: nat where "LEN_OFFSET = 4"

record vec_header =
  vh_magic :: bytes
  vh_version :: nat
  vh_len :: nat
  vh_max_size :: nat
  vh_is_fixed_size :: bool

datatype vec_init_error =
  BadMagic (actual: bytes) (expected: bytes)
| IncompatibleVersion nat
| IncompatibleElementType
| OutOfMemory

definition slot_size :: "'a storable \<Rightarrow> nat option" where
  "slot_size T = do {
     t_bounds \<leftarrow> bounds_of T;
     u32_add (max_size t_bounds) (bytes_to_store_size_bounded t_bounds) }"

text \<open>\<open>DATA_OFFSET + slot_size::<T>() as u64 * index\<close>\<close>

definition slot_offset :: "'a storable \<Rightarrow> nat \<Rightarrow> nat option" where
  "slot_offset T index = do {
     sz \<leftarrow> slot_size T;
     n \<leftarrow> u64_mul sz index;
     u64_add DATA_OFFSET n }"

section \<open>Header\<close>

definition bv_write_header :: "'s memory_ops \<Rightarrow> 's \<Rightarrow> vec_header \<Rightarrow> ((grow_failed + unit) \<times> 's) option" where
  "bv_write_header M s header =
     try_bind (safe_write M s 0 (vh_magic header)) (\<lambda>_ s. do {
       s \<leftarrow> write_op M s 3 [of_nat (vh_version header)];
       s \<leftarrow> write_u64 M s 4 (vh_len header);
       s \<leftarrow> write_u32 M s 12 (vh_max_size header);
       s \<leftarrow> write_op M s 16 [if vh_is_fixed_size header then 1 else 0];
       Some (Inr (), s) })"

definition bv_read_header :: "'s memory_ops \<Rightarrow> 's \<Rightarrow> (vec_header \<times> 's) option" where
  "bv_read_header M s = do {
     size \<leftarrow> size_op M s;
     assert_that (size > 0);
     (magic, s) \<leftarrow> read_op M s 0 3;
     (version, s) \<leftarrow> read_op M s 3 1;
     (len, s) \<leftarrow> read_u64 M s LEN_OFFSET;
     (max_size, s) \<leftarrow> read_u32 M s 12;
     (is_fixed, s) \<leftarrow> read_op M s 16 1;
     Some (\<lparr>vh_magic = magic, vh_version = unat (version ! 0), vh_len = len,
            vh_max_size = max_size, vh_is_fixed_size = (is_fixed ! 0 \<noteq> 0)\<rparr>, s) }"

definition bv_new :: "'a storable \<Rightarrow> 's memory_ops \<Rightarrow> 's \<Rightarrow> bytes \<Rightarrow> ((grow_failed + unit) \<times> 's) option" where
  "bv_new T M s magic = do {
     t_bounds \<leftarrow> bounds_of T;
     bv_write_header M s
       \<lparr>vh_magic = magic, vh_version = LAYOUT_VERSION, vh_len = 0,
        vh_max_size = max_size t_bounds, vh_is_fixed_size = is_fixed_size t_bounds\<rparr> }"

definition bv_init :: "'a storable \<Rightarrow> 's memory_ops \<Rightarrow> 's \<Rightarrow> bytes \<Rightarrow> ((vec_init_error + unit) \<times> 's) option" where
  "bv_init T M s magic = do {
     size \<leftarrow> size_op M s;
     if size = 0 then do {
       (r, s) \<leftarrow> bv_new T M s magic;
       Some (case r of Inl _ \<Rightarrow> Inl OutOfMemory | Inr u \<Rightarrow> Inr u, s)
     } else do {
       (header, s) \<leftarrow> bv_read_header M s;
       if vh_magic header \<noteq> magic then Some (Inl (BadMagic (vh_magic header) magic), s)
       else if vh_version header \<noteq> LAYOUT_VERSION then Some (Inl (IncompatibleVersion (vh_version header)), s)
       else do {
         t_bounds \<leftarrow> bounds_of T;
         if vh_max_size header \<noteq> max_size t_bounds \<or> vh_is_fixed_size header \<noteq> is_fixed_size t_bounds
         then Some (Inl IncompatibleElementType, s)
         else Some (Inr (), s) } } }"

section \<open>Operations\<close>

definition bv_len :: "'s memory_ops \<Rightarrow> 's \<Rightarrow> (nat \<times> 's) option" where
  "bv_len M s = read_u64 M s LEN_OFFSET"

definition bv_set_len :: "'s memory_ops \<Rightarrow> 's \<Rightarrow> nat \<Rightarrow> 's option" where
  "bv_set_len M s new_len = write_u64 M s LEN_OFFSET new_len"

definition bv_clear :: "'s memory_ops \<Rightarrow> 's \<Rightarrow> 's option" where
  "bv_clear M s = bv_set_len M s 0"

definition bv_is_empty :: "'s memory_ops \<Rightarrow> 's \<Rightarrow> (bool \<times> 's) option" where
  "bv_is_empty M s = do { (len, s) \<leftarrow> bv_len M s; Some (len = 0, s) }"

definition bv_write_entry_size ::
  "'a storable \<Rightarrow> 's memory_ops \<Rightarrow> 's \<Rightarrow> nat \<Rightarrow> nat \<Rightarrow> ((grow_failed + nat) \<times> 's) option" where
  "bv_write_entry_size T M s offset sz = do {
     t_bounds \<leftarrow> bounds_of T;
     assert_that (sz \<le> max_size t_bounds);
     if is_fixed_size t_bounds then Some (Inr offset, s)
     else if max_size t_bounds \<le> U8_MAX then
       try_bind (safe_write M s offset (to_le_bytes 1 sz)) (\<lambda>_ s. do {
         off \<leftarrow> u64_add offset 1; Some (Inr off, s) })
     else if max_size t_bounds \<le> U16_MAX then
       try_bind (safe_write M s offset (to_le_bytes 2 sz)) (\<lambda>_ s. do {
         off \<leftarrow> u64_add offset 2; Some (Inr off, s) })
     else
       try_bind (safe_write M s offset (to_le_bytes 4 sz)) (\<lambda>_ s. do {
         off \<leftarrow> u64_add offset 4; Some (Inr off, s) }) }"

definition bv_read_entry_size :: "'a storable \<Rightarrow> 's memory_ops \<Rightarrow> 's \<Rightarrow> nat \<Rightarrow> ((nat \<times> nat) \<times> 's) option" where
  "bv_read_entry_size T M s offset = do {
     t_bounds \<leftarrow> bounds_of T;
     if is_fixed_size t_bounds then Some ((offset, max_size t_bounds), s)
     else if max_size t_bounds \<le> U8_MAX then do {
       (size, s) \<leftarrow> read_op M s offset 1;
       off \<leftarrow> u64_add offset 1;
       Some ((off, from_le_bytes size), s) }
     else if max_size t_bounds \<le> U16_MAX then do {
       (size, s) \<leftarrow> read_op M s offset 2;
       off \<leftarrow> u64_add offset 2;
       Some ((off, from_le_bytes size), s) }
     else do {
       (size, s) \<leftarrow> read_u32 M s offset;
       off \<leftarrow> u64_add offset 4;
       Some ((off, size), s) } }"

definition bv_read_entry_to :: "'a storable \<Rightarrow> 's memory_ops \<Rightarrow> 's \<Rightarrow> nat \<Rightarrow> (bytes \<times> 's) option" where
  "bv_read_entry_to T M s index = do {
     offset \<leftarrow> slot_offset T index;
     ((data_offset, data_size), s) \<leftarrow> bv_read_entry_size T M s offset;
     read_to_vec M s data_offset data_size }"

definition bv_read_entry :: "'a storable \<Rightarrow> 's memory_ops \<Rightarrow> 's \<Rightarrow> nat \<Rightarrow> ('a \<times> 's) option" where
  "bv_read_entry T M s index = do {
     (data, s) \<leftarrow> bv_read_entry_to T M s index;
     x \<leftarrow> from_bytes T data;
     Some (x, s) }"

definition bv_set :: "'a storable \<Rightarrow> 's memory_ops \<Rightarrow> 's \<Rightarrow> nat \<Rightarrow> 'a \<Rightarrow> 's option" where
  "bv_set T M s index item = do {
     (len, s) \<leftarrow> bv_len M s;
     assert_that (index < len);
     offset \<leftarrow> slot_offset T index;
     bs \<leftarrow> to_bytes_checked T item;
     (data_offset, s) \<leftarrow> expect (bv_write_entry_size T M s offset (as_u32 (length bs)));
     write_grow M s data_offset bs }"

definition bv_get :: "'a storable \<Rightarrow> 's memory_ops \<Rightarrow> 's \<Rightarrow> nat \<Rightarrow> ('a option \<times> 's) option" where
  "bv_get T M s index = do {
     (len, s) \<leftarrow> bv_len M s;
     if index < len then do { (x, s) \<leftarrow> bv_read_entry T M s index; Some (Some x, s) }
     else Some (None, s) }"

definition bv_push :: "'a storable \<Rightarrow> 's memory_ops \<Rightarrow> 's \<Rightarrow> 'a \<Rightarrow> ((grow_failed + unit) \<times> 's) option" where
  "bv_push T M s item = do {
     (index, s) \<leftarrow> bv_len M s;
     offset \<leftarrow> slot_offset T index;
     bs \<leftarrow> to_bytes_checked T item;
     try_bind (bv_write_entry_size T M s offset (as_u32 (length bs))) (\<lambda>data_offset s.
       try_bind (safe_write M s data_offset bs) (\<lambda>_ s. do {
         new_len \<leftarrow> u64_add index 1;
         s \<leftarrow> bv_set_len M s new_len;
         Some (Inr (), s) })) }"

definition bv_pop :: "'a storable \<Rightarrow> 's memory_ops \<Rightarrow> 's \<Rightarrow> ('a option \<times> 's) option" where
  "bv_pop T M s = do {
     (len, s) \<leftarrow> bv_len M s;
     if len = 0 then Some (None, s)
     else do {
       (value, s) \<leftarrow> bv_read_entry T M s (len - 1);
       s \<leftarrow> bv_set_len M s (len - 1);
       Some (Some value, s) } }"

section \<open>Iterator\<close>

record vec_iter =
  it_start :: nat
  it_end :: nat

definition bv_iter :: "'s memory_ops \<Rightarrow> 's \<Rightarrow> (vec_iter \<times> 's) option" where
  "bv_iter M s = do {
     (len, s) \<leftarrow> bv_len M s;
     Some (\<lparr>it_start = 0, it_end = len\<rparr>, s) }"

definition it_next ::
  "'a storable \<Rightarrow> 's memory_ops \<Rightarrow> 's \<Rightarrow> vec_iter \<Rightarrow> ('a option \<times> vec_iter \<times> 's) option" where
  "it_next T M s it = do {
     (len, s) \<leftarrow> (if it_start it \<ge> it_end it then Some (0, s) else bv_len M s);
     if it_start it \<ge> it_end it \<or> len \<le> it_start it then Some (None, it, s)
     else do {
       (buf, s) \<leftarrow> bv_read_entry_to T M s (it_start it);
       x \<leftarrow> from_bytes T buf;
       Some (Some x, it\<lparr>it_start := u64_saturating_add (it_start it) 1\<rparr>, s) } }"

definition it_size_hint :: "'s memory_ops \<Rightarrow> 's \<Rightarrow> vec_iter \<Rightarrow> (nat \<times> 's) option" where
  "it_size_hint M s it = do {
     (len, s) \<leftarrow> bv_len M s;
     Some (u64_saturating_sub (min len (it_end it)) (it_start it), s) }"

definition it_count :: "'s memory_ops \<Rightarrow> 's \<Rightarrow> vec_iter \<Rightarrow> (nat \<times> 's) option" where
  "it_count M s it = do {
     (len, s) \<leftarrow> bv_len M s;
     Some (u64_saturating_sub (min len (it_end it)) (it_start it), s) }"

definition it_nth ::
  "'a storable \<Rightarrow> 's memory_ops \<Rightarrow> 's \<Rightarrow> vec_iter \<Rightarrow> nat \<Rightarrow> ('a option \<times> vec_iter \<times> 's) option" where
  "it_nth T M s it n = it_next T M s (it\<lparr>it_start := u64_saturating_add (it_start it) n\<rparr>)"

definition it_next_back ::
  "'a storable \<Rightarrow> 's memory_ops \<Rightarrow> 's \<Rightarrow> vec_iter \<Rightarrow> ('a option \<times> vec_iter \<times> 's) option" where
  "it_next_back T M s it = do {
     (len, s) \<leftarrow> (if it_start it \<ge> it_end it then Some (0, s) else bv_len M s);
     if it_start it \<ge> it_end it \<or> len < it_end it then Some (None, it, s)
     else do {
       (buf, s) \<leftarrow> bv_read_entry_to T M s (it_end it - 1);
       x \<leftarrow> from_bytes T buf;
       Some (Some x, it\<lparr>it_end := u64_saturating_sub (it_end it) 1\<rparr>, s) } }"

definition it_nth_back ::
  "'a storable \<Rightarrow> 's memory_ops \<Rightarrow> 's \<Rightarrow> vec_iter \<Rightarrow> nat \<Rightarrow> ('a option \<times> vec_iter \<times> 's) option" where
  "it_nth_back T M s it n = it_next_back T M s (it\<lparr>it_end := u64_saturating_sub (it_end it) n\<rparr>)"

text \<open>\<open>Iterator::collect\<close>: \<open>next\<close> until it returns \<open>None\<close>. A loop that does not end has no result.\<close>

partial_function (option) it_collect ::
  "'a storable \<Rightarrow> 's memory_ops \<Rightarrow> 's \<Rightarrow> vec_iter \<Rightarrow> ('a list \<times> 's) option" where
  "it_collect T M s it = do {
     (r, it, s) \<leftarrow> it_next T M s it;
     case r of
       None \<Rightarrow> Some ([], s)
     | Some x \<Rightarrow> do { (xs, s) \<leftarrow> it_collect T M s it; Some (x # xs, s) } }"

definition bv_to_vec :: "'a storable \<Rightarrow> 's memory_ops \<Rightarrow> 's \<Rightarrow> ('a list \<times> 's) option" where
  "bv_to_vec T M s = do {
     (it, s) \<leftarrow> bv_iter M s;
     it_collect T M s it }"

section \<open>What the bytes represent\<close>

text \<open>An item at an offset: its size field, if the type has one, and its bytes.\<close>

definition entry_at :: "'a storable \<Rightarrow> bounds \<Rightarrow> bytes \<Rightarrow> nat \<Rightarrow> 'a \<Rightarrow> bool" where
  "entry_at T b c off x \<longleftrightarrow>
     (\<exists>bs. from_bytes T bs = Some x \<and> length bs \<le> max_size b \<and> (is_fixed_size b \<longrightarrow> length bs = max_size b) \<and>
       (let k = bytes_to_store_size_bounded b in
        off + k + length bs \<le> length c \<and>
        subrange c off k = to_le_bytes k (length bs) \<and> subrange c (off + k) (length bs) = bs))"

definition header_at :: "bounds \<Rightarrow> bytes \<Rightarrow> bytes \<Rightarrow> nat \<Rightarrow> bool" where
  "header_at b magic c n \<longleftrightarrow>
     length magic = 3 \<and> WASM_PAGE_SIZE \<le> length c \<and>
     subrange c 0 3 = magic \<and> subrange c 3 1 = [of_nat LAYOUT_VERSION] \<and>
     subrange c 4 8 = to_le_bytes 8 n \<and> n \<le> U64_MAX \<and>
     subrange c 12 4 = to_le_bytes 4 (max_size b) \<and>
     subrange c 16 1 = [if is_fixed_size b then 1 else 0]"

abbreviation slot_bytes :: "bounds \<Rightarrow> nat" where
  "slot_bytes b \<equiv> max_size b + bytes_to_store_size_bounded b"

definition vec_rep :: "'a storable \<Rightarrow> bounds \<Rightarrow> bytes \<Rightarrow> bytes \<Rightarrow> 'a list \<Rightarrow> bool" where
  "vec_rep T b magic c xs \<longleftrightarrow>
     header_at b magic c (length xs) \<and>
     (\<forall>i < length xs. entry_at T b c (DATA_OFFSET + slot_bytes b * i) (xs ! i))"

lemma entry_at_frame:
  assumes "entry_at T b c off x" "wrote c o' bs c'"
    and "off + slot_bytes b \<le> o' \<or> o' + length bs \<le> off"
  shows "entry_at T b c' off x"
proof -
  let ?k = "bytes_to_store_size_bounded b"
  from assms(1) obtain ds where ds: "from_bytes T ds = Some x" "length ds \<le> max_size b"
    "is_fixed_size b \<longrightarrow> length ds = max_size b" "off + ?k + length ds \<le> length c"
    "subrange c off ?k = to_le_bytes ?k (length ds)" "subrange c (off + ?k) (length ds) = ds"
    by (auto simp: entry_at_def Let_def)
  have "subrange c' off ?k = subrange c off ?k" "subrange c' (off + ?k) (length ds) = subrange c (off + ?k) (length ds)"
    using assms(3) ds(2,4) by (auto intro!: subrange_wrote_other[OF assms(2)])
  moreover have "off + ?k + length ds \<le> length c'"
    using ds(4) wrote_length[OF assms(2)] by linarith
  ultimately show ?thesis
    using ds by (auto simp: entry_at_def Let_def)
qed

lemma header_at_frame:
  assumes "header_at b magic c n" "wrote c o' bs c'" "17 \<le> o'"
  shows "header_at b magic c' n"
proof -
  have "WASM_PAGE_SIZE \<le> length c"
    using assms(1) by (simp add: header_at_def)
  then have "subrange c' 0 3 = subrange c 0 3" "subrange c' 3 1 = subrange c 3 1" "subrange c' 4 8 = subrange c 4 8"
    "subrange c' 12 4 = subrange c 12 4" "subrange c' 16 1 = subrange c 16 1"
    using assms(3) by (auto intro!: subrange_wrote_other[OF assms(2)])
  then show ?thesis
    using assms(1) wrote_length[OF assms(2)] by (simp add: header_at_def)
qed

lemma header_at_set_len:
  assumes "header_at b magic c n" "wrote c 4 (to_le_bytes 8 m) c'" "m \<le> U64_MAX"
  shows "header_at b magic c' m"
proof -
  have "WASM_PAGE_SIZE \<le> length c"
    using assms(1) by (simp add: header_at_def)
  then have "subrange c' 0 3 = subrange c 0 3" "subrange c' 3 1 = subrange c 3 1"
    "subrange c' 12 4 = subrange c 12 4" "subrange c' 16 1 = subrange c 16 1"
    by (auto intro!: subrange_wrote_other[OF assms(2)])
  moreover have "subrange c' 4 8 = to_le_bytes 8 m"
    by (rule subrange_wrote_same[OF assms(2)]) simp
  ultimately show ?thesis
    using assms(1,3) wrote_length[OF assms(2)] by (simp add: header_at_def)
qed

lemma header_at_written:
  assumes w: "wrote c 0 (magic @ [of_nat LAYOUT_VERSION] @ to_le_bytes 8 n @ to_le_bytes 4 (max_size b) @
      [if is_fixed_size b then 1 else 0]) c'"
    and m: "length magic = 3" and len: "WASM_PAGE_SIZE \<le> length c'" and n: "n \<le> U64_MAX"
  shows "header_at b magic c' n"
proof -
  note sub = subrange_wrote_inside[OF w]
  have "subrange c' 0 3 = magic" "subrange c' 3 1 = [of_nat LAYOUT_VERSION]" "subrange c' 4 8 = to_le_bytes 8 n"
    "subrange c' 12 4 = to_le_bytes 4 (max_size b)" "subrange c' 16 1 = [if is_fixed_size b then 1 else 0]"
    using sub[of 0 3] sub[of 3 1] sub[of 4 8] sub[of 12 4] sub[of 16 1] m
    by (simp_all add: subrange_def del: to_le_bytes.simps)
  with m len n show ?thesis
    by (simp add: header_at_def)
qed

lemma slot_before: "j < i \<Longrightarrow> s * j + s \<le> s * (i :: nat)"
  by (metis Suc_leI mult_Suc_right mult_le_mono2 add.commute)

lemma vec_rep_len: "vec_rep T b magic c xs \<Longrightarrow> from_le_bytes (subrange c 4 8) = length xs"
  by (simp add: vec_rep_def header_at_def)

lemma vec_rep_page: "vec_rep T b magic c xs \<Longrightarrow> WASM_PAGE_SIZE \<le> length c"
  by (simp add: vec_rep_def header_at_def)

lemma vec_rep_shorten:
  assumes "vec_rep T b magic c xs" "n \<le> length xs" "wrote c 4 (to_le_bytes 8 n) c'"
  shows "vec_rep T b magic c' (take n xs)"
proof -
  have "n \<le> U64_MAX"
    using assms(1,2) by (simp add: vec_rep_def header_at_def)
  then show ?thesis
    using assms header_at_set_len[OF _ assms(3)]
    by (auto simp: vec_rep_def DATA_OFFSET_def min_def intro!: entry_at_frame[OF _ assms(3)])
qed

text \<open>An item written into slot \<open>i\<close> leaves the header and the other slots as they were.\<close>

lemma vec_rep_write_slot:
  assumes rep: "vec_rep T b magic c xs" and w: "wrote c (DATA_OFFSET + slot_bytes b * i) (to_le_bytes k (length bs) @ bs) c'"
    and k: "k = bytes_to_store_size_bounded b" and bs: "from_bytes T bs = Some x" "length bs \<le> max_size b"
      "is_fixed_size b \<longrightarrow> length bs = max_size b"
  shows "header_at b magic c' (length xs)"
    and "entry_at T b c' (DATA_OFFSET + slot_bytes b * i) x"
    and "j < length xs \<Longrightarrow> j \<noteq> i \<Longrightarrow> entry_at T b c' (DATA_OFFSET + slot_bytes b * j) (xs ! j)"
proof -
  let ?off = "DATA_OFFSET + slot_bytes b * i"
  show "header_at b magic c' (length xs)"
    by (rule header_at_frame[OF _ w]) (use rep in \<open>simp_all add: vec_rep_def DATA_OFFSET_def\<close>)
  have "subrange c' ?off k = to_le_bytes k (length bs)" "subrange c' (?off + k) (length bs) = bs"
    using subrange_wrote_inside[OF w, of ?off k] subrange_wrote_inside[OF w, of "?off + k" "length bs"]
    by (simp_all add: subrange_def)
  with wrote_range[OF w] show "entry_at T b c' ?off x"
    using bs k by (auto simp: entry_at_def Let_def)
  assume j: "j < length xs" "j \<noteq> i"
  show "entry_at T b c' (DATA_OFFSET + slot_bytes b * j) (xs ! j)"
  proof (rule entry_at_frame[OF _ w])
    show "entry_at T b c (DATA_OFFSET + slot_bytes b * j) (xs ! j)"
      using rep j by (simp add: vec_rep_def)
    show "DATA_OFFSET + slot_bytes b * j + slot_bytes b \<le> ?off \<or>
        ?off + length (to_le_bytes k (length bs) @ bs) \<le> DATA_OFFSET + slot_bytes b * j"
      using j(2) slot_before[of j i "slot_bytes b"] slot_before[of i j "slot_bytes b"] bs(2) k
      by (cases "j < i") (auto simp del: add_mult_distrib)
  qed
qed

section \<open>The operations on any memory\<close>

locale stable_vec = memory M inv contents cap + storable_type T valid
  for M :: "'s memory_ops" and inv contents cap and T :: "'a storable" and valid +
  fixes bd :: bounds
  assumes bd: "bounds_of T = Some bd"
    and slot_u32: "slot_bytes bd \<le> U32_MAX"
begin

abbreviation rep :: "bytes \<Rightarrow> 's \<Rightarrow> 'a list \<Rightarrow> bool" where
  "rep magic s xs \<equiv> inv s \<and> vec_rep T bd magic (contents s) xs"

lemma slot_size_ok: "slot_size T = Some (slot_bytes bd)"
  using slot_u32 by (simp add: slot_size_def bd u32_add_def)

lemma slot_offset_ok:
  "DATA_OFFSET + slot_bytes bd * i \<le> U64_MAX \<Longrightarrow> slot_offset T i = Some (DATA_OFFSET + slot_bytes bd * i)"
  by (simp add: slot_offset_def slot_size_ok u64_mul_def u64_add_def)

lemma entry_in_range:
  assumes "rep magic s xs" "i < length xs"
  shows "slot_offset T i = Some (DATA_OFFSET + slot_bytes bd * i)"
proof -
  have "DATA_OFFSET + slot_bytes bd * i \<le> length (contents s)"
    using assms by (auto simp: vec_rep_def entry_at_def Let_def)
  then show ?thesis
    using assms(1) length_le_max by (intro slot_offset_ok) (meson order_trans)
qed

lemma len_ok [ok_intro]:
  assumes "rep magic s xs"
  shows "ok (bv_len M s) (\<lambda>(n, s'). n = length xs \<and> inv s' \<and> contents s' = contents s \<and> cap s' = cap s)"
proof -
  have "LEN_OFFSET + 8 \<le> length (contents s)"
    using assms vec_rep_page[of T bd magic] by (fastforce simp: LEN_OFFSET_def)
  from read_u64_ok[OF _ this] assms show ?thesis
    by (auto simp: bv_len_def LEN_OFFSET_def vec_rep_len elim!: ok_mono)
qed

lemma set_len_ok [ok_intro]:
  assumes "rep magic s xs"
  shows "ok (bv_set_len M s n) (\<lambda>s'. inv s' \<and> cap s' = cap s \<and> wrote (contents s) 4 (to_le_bytes 8 n) (contents s'))"
proof -
  have "LEN_OFFSET + 8 \<le> cap s * WASM_PAGE_SIZE"
    using assms vec_rep_page[of T bd magic] size_cap_law by (fastforce simp: LEN_OFFSET_def)
  then show ?thesis
    using write_u64_ok assms by (auto simp: bv_set_len_def LEN_OFFSET_def)
qed

lemma clear_ok [ok_intro]:
  assumes "rep magic s xs"
  shows "ok (bv_clear M s) (\<lambda>s'. rep magic s' [] \<and> cap s' = cap s)"
  unfolding bv_clear_def
  by (rule ok_mono[OF set_len_ok[OF assms]])
    (use assms vec_rep_shorten[of T bd magic "contents s" xs 0] in auto)

lemma size_field:
  assumes "n \<le> max_size bd"
  shows "n < 256 ^ bytes_to_store_size_bounded bd \<or> is_fixed_size bd"
  using assms slot_u32 bytes_to_store_size_fits[of "max_size bd"]
  by (auto simp: bytes_to_store_size_bounded_def)

lemma read_entry_size_ok [ok_intro]:
  assumes s: "inv s" and "off + bytes_to_store_size_bounded bd \<le> length (contents s)"
    and c: "subrange (contents s) off (bytes_to_store_size_bounded bd) =
      to_le_bytes (bytes_to_store_size_bounded bd) n"
    and n: "n \<le> max_size bd" "is_fixed_size bd \<longrightarrow> n = max_size bd"
  shows "ok (bv_read_entry_size T M s off) (\<lambda>((o', n'), s'). o' = off + bytes_to_store_size_bounded bd \<and> n' = n \<and>
    inv s' \<and> contents s' = contents s \<and> cap s' = cap s)"
proof -
  have lim: "off + bytes_to_store_size_bounded bd \<le> U64_MAX"
    using assms(2) length_le_max[OF s] by linarith
  consider "is_fixed_size bd" | "\<not> is_fixed_size bd" "max_size bd \<le> U8_MAX"
    | "\<not> is_fixed_size bd" "U8_MAX < max_size bd" "max_size bd \<le> U16_MAX"
    | "\<not> is_fixed_size bd" "U16_MAX < max_size bd"
    by linarith
  then show ?thesis
  proof cases
    case 1
    with s n show ?thesis
      by (simp add: bv_read_entry_size_def bd bytes_to_store_size_bounded_def)
  next
    case 2
    with assms lim read_law[OF s, of off 1] n show ?thesis
      by (auto simp: bv_read_entry_size_def bd bytes_to_store_size_bounded_def bytes_to_store_size_def
          simp del: to_le_bytes.simps elim!: ok_mono)
  next
    case 3
    with assms lim read_law[OF s, of off 2] n show ?thesis
      by (auto simp: bv_read_entry_size_def bd bytes_to_store_size_bounded_def bytes_to_store_size_def
          simp del: to_le_bytes.simps elim!: ok_mono)
  next
    case 4
    with assms lim read_u32_ok[OF s, of off] n slot_u32 show ?thesis
      by (auto simp: bv_read_entry_size_def bd bytes_to_store_size_bounded_def bytes_to_store_size_def
          simp del: to_le_bytes.simps elim!: ok_mono)
  qed
qed

lemma read_entry_to_ok [ok_intro]:
  assumes rep: "rep magic s xs" and i: "i < length xs"
  shows "ok (bv_read_entry_to T M s i) (\<lambda>(bs, s'). from_bytes T bs = Some (xs ! i) \<and>
    inv s' \<and> contents s' = contents s \<and> cap s' = cap s)"
proof -
  let ?k = "bytes_to_store_size_bounded bd" and ?off = "DATA_OFFSET + slot_bytes bd * i"
  obtain bs where bs: "from_bytes T bs = Some (xs ! i)" "length bs \<le> max_size bd"
    "is_fixed_size bd \<longrightarrow> length bs = max_size bd" "?off + ?k + length bs \<le> length (contents s)"
    "subrange (contents s) ?off ?k = to_le_bytes ?k (length bs)"
    "subrange (contents s) (?off + ?k) (length bs) = bs"
    using rep i by (auto simp: vec_rep_def entry_at_def Let_def)
  have off: "slot_offset T i = Some ?off"
    by (rule entry_in_range[OF rep i])
  have "ok (bv_read_entry_size T M s ?off) (\<lambda>((o', n'), s'). o' = ?off + ?k \<and> n' = length bs \<and>
      inv s' \<and> contents s' = contents s \<and> cap s' = cap s)"
    using rep bs by (intro read_entry_size_ok) auto
  then show ?thesis
    unfolding bv_read_entry_to_def off
    using bs(1,4,6) read_to_vec_ok by (fastforce elim!: ok_mono)
qed

lemma read_entry_ok [ok_intro]:
  assumes "rep magic s xs" "i < length xs"
  shows "ok (bv_read_entry T M s i) (\<lambda>(x, s'). x = xs ! i \<and> inv s' \<and> contents s' = contents s \<and> cap s' = cap s)"
  using read_entry_to_ok[OF assms] by (auto simp: bv_read_entry_def elim!: ok_mono)

lemma get_ok [ok_intro]:
  assumes "rep magic s xs"
  shows "ok (bv_get T M s i) (\<lambda>(r, s'). r = (if i < length xs then Some (xs ! i) else None) \<and>
    inv s' \<and> contents s' = contents s \<and> cap s' = cap s)"
  unfolding bv_get_def
  by (rule ok_bindI[OF len_ok[OF assms]])
    (use assms in \<open>auto intro!: ok_mono[OF read_entry_ok[of _ magic xs i]]\<close>)

lemma is_empty_ok [ok_intro]:
  assumes "rep magic s xs"
  shows "ok (bv_is_empty M s) (\<lambda>(r, s'). r = (xs = []) \<and> inv s' \<and> contents s' = contents s \<and> cap s' = cap s)"
  using len_ok[OF assms] by (auto simp: bv_is_empty_def elim!: ok_mono)

lemma pop_ok [ok_intro]:
  assumes "rep magic s xs"
  shows "ok (bv_pop T M s) (\<lambda>(r, s'). r = (if xs = [] then None else Some (last xs)) \<and>
    rep magic s' (butlast xs) \<and> cap s' = cap s)"
  unfolding bv_pop_def
proof (rule ok_bindI[OF len_ok[OF assms]], clarsimp, intro conjI impI)
  fix s1
  assume s1: "inv s1" "contents s1 = contents s" "cap s1 = cap s" and "xs \<noteq> []"
  have rep1: "rep magic s1 xs"
    using assms s1 by simp
  have len: "length xs - Suc 0 < length xs" and l: "xs ! (length xs - Suc 0) = last xs"
    using \<open>xs \<noteq> []\<close> by (simp_all add: last_conv_nth)
  note rd = read_entry_ok[OF rep1 len]
  show "ok (bv_read_entry T M s1 (length xs - Suc 0)) (\<lambda>x. ok (bv_set_len M (snd x) (length xs - Suc 0))
      (\<lambda>xa. fst x = last xs \<and> inv xa \<and> vec_rep T bd magic (contents xa) (butlast xs) \<and> cap xa = cap s))"
  proof (rule ok_mono[OF rd], clarsimp)
    fix s2
    assume s2: "inv s2" "contents s2 = contents s1" "cap s2 = cap s1"
    then have "rep magic s2 xs"
      using rep1 by simp
    from set_len_ok[OF this, of "length xs - Suc 0"]
    show "ok (bv_set_len M s2 (length xs - Suc 0)) (\<lambda>xa. xs ! (length xs - Suc 0) = last xs \<and> inv xa \<and>
        vec_rep T bd magic (contents xa) (butlast xs) \<and> cap xa = cap s)"
      using vec_rep_shorten[of T bd magic "contents s2" xs "length xs - Suc 0"] rep1 s1 s2 l
      by (auto simp: butlast_conv_take elim!: ok_mono)
  qed
qed (use assms in auto)

text \<open>
  Writing an item is two writes, the size field (none for a fixed-size type) and the bytes. When
  they fit below the capacity they act as one; when the memory cannot grow, what precedes the slot
  is unchanged.
\<close>

lemma write_entry_size_eq:
  assumes n: "n \<le> max_size bd"
  shows "bv_write_entry_size T M s off n =
    (if is_fixed_size bd then Some (Inr off, s)
     else try_bind (safe_write M s off (to_le_bytes (bytes_to_store_size_bounded bd) n))
       (\<lambda>_ s. do { o' \<leftarrow> u64_add off (bytes_to_store_size_bounded bd); Some (Inr o', s) }))"
  using n
  by (simp add: bv_write_entry_size_def bd bytes_to_store_size_bounded_def bytes_to_store_size_def
      del: to_le_bytes.simps cong: if_cong split: if_splits)

lemma write_slot_ok:
  assumes s: "inv s" and n: "length bs \<le> max_size bd"
    and fits: "off + bytes_to_store_size_bounded bd + length bs \<le> cap s * WASM_PAGE_SIZE"
    and rest: "\<And>s'. inv s' \<Longrightarrow> cap s' = cap s \<Longrightarrow>
      wrote (contents s) off (to_le_bytes (bytes_to_store_size_bounded bd) (length bs) @ bs) (contents s') \<Longrightarrow> ok (g s') Q"
  shows "ok (try_bind (bv_write_entry_size T M s off (as_u32 (length bs))) (\<lambda>o' s.
      try_bind (safe_write M s o' bs) (\<lambda>_ s. g s))) Q"
proof -
  let ?k = "bytes_to_store_size_bounded bd"
  have len: "as_u32 (length bs) = length bs"
    using n slot_u32 by (intro as_u32_id) simp
  have lim: "off + ?k \<le> U64_MAX"
    using fits cap_bytes[OF s] by linarith
  show ?thesis
  proof (cases "is_fixed_size bd")
    case True
    then have "?k = 0"
      by (simp add: bytes_to_store_size_bounded_def)
    with True fits show ?thesis
      unfolding len write_entry_size_eq[OF n]
      by (auto intro!: ok_mono[OF safe_write_ok[OF s]] rest)
  next
    case False
    have "ok (safe_write M s off (to_le_bytes ?k (length bs))) (\<lambda>(r, s'). r = Inr () \<and> inv s' \<and> cap s' = cap s \<and>
        wrote (contents s) off (to_le_bytes ?k (length bs)) (contents s'))"
      using fits by (intro safe_write_ok[OF s]) simp
    then show ?thesis
      unfolding len write_entry_size_eq[OF n] using False fits lim wrote_wrote[of _ off "to_le_bytes ?k (length bs)"]
      by (auto intro!: ok_mono[OF safe_write_ok] rest elim!: ok_mono)
  qed
qed

lemma encode_item:
  assumes "valid x"
  obtains bs where "to_bytes_checked T x = Some bs" "from_bytes T bs = Some x" "length bs \<le> max_size bd"
    "is_fixed_size bd \<longrightarrow> length bs = max_size bd"
proof -
  obtain bs where bs: "to_bytes_checked T x = Some bs" "from_bytes T bs = Some x" "ok (check_bounds T bs) (\<lambda>_. True)"
    using to_bytes_checked_ok[OF assms] by (auto simp: ok_def)
  show thesis
    by (rule that[OF bs(1,2)]) (use bs(3) bd in \<open>simp_all add: ok_check_bounds bounds_of_Some\<close>)
qed

lemma vec_rep_append:
  assumes rep: "vec_rep T bd magic c xs" and n: "length xs < U64_MAX"
    and w: "wrote c (DATA_OFFSET + slot_bytes bd * length xs)
      (to_le_bytes (bytes_to_store_size_bounded bd) (length bs) @ bs) c1"
    and w2: "wrote c1 4 (to_le_bytes 8 (length xs + 1)) c2"
    and bs: "from_bytes T bs = Some x" "length bs \<le> max_size bd" "is_fixed_size bd \<longrightarrow> length bs = max_size bd"
  shows "vec_rep T bd magic c2 (xs @ [x])"
proof -
  note slot = vec_rep_write_slot[OF rep w refl bs]
  have "header_at bd magic c2 (length xs + 1)"
    using header_at_set_len[OF slot(1) w2] n by simp
  moreover have "entry_at T bd c2 (DATA_OFFSET + slot_bytes bd * i) ((xs @ [x]) ! i)" if "i < length xs + 1" for i
  proof (rule entry_at_frame[OF _ w2])
    show "entry_at T bd c1 (DATA_OFFSET + slot_bytes bd * i) ((xs @ [x]) ! i)"
      using that slot(2) slot(3)[of i] by (cases "i = length xs") (simp_all add: nth_append)
  qed (simp add: DATA_OFFSET_def)
  ultimately show ?thesis
    by (simp add: vec_rep_def)
qed

lemma push_ok [ok_intro]:
  assumes rep: "rep magic s xs" and x: "valid x" and n: "length xs < U64_MAX"
    and fits: "DATA_OFFSET + slot_bytes bd * length xs + slot_bytes bd \<le> cap s * WASM_PAGE_SIZE"
  shows "ok (bv_push T M s x) (\<lambda>(r, s'). r = Inr () \<and> rep magic s' (xs @ [x]) \<and> cap s' = cap s)"
proof -
  let ?off = "DATA_OFFSET + slot_bytes bd * length xs"
  obtain bs where bs: "to_bytes_checked T x = Some bs" "from_bytes T bs = Some x" "length bs \<le> max_size bd"
    "is_fixed_size bd \<longrightarrow> length bs = max_size bd"
    by (rule encode_item[OF x])
  have off: "slot_offset T (length xs) = Some ?off"
    using fits cap_bytes[of s] rep by (intro slot_offset_ok) linarith
  show ?thesis
    unfolding bv_push_def
  proof (rule ok_bindI[OF len_ok[OF rep]], clarsimp simp: off bs(1) simp del: ok_try_bind, rule write_slot_ok)
    fix s1 s2
    assume s1: "inv s1" "contents s1 = contents s" "cap s1 = cap s"
      and s2: "inv s2" "cap s2 = cap s1" "wrote (contents s1) ?off
        (to_le_bytes (bytes_to_store_size_bounded bd) (length bs) @ bs) (contents s2)"
    have "LEN_OFFSET + 8 \<le> cap s2 * WASM_PAGE_SIZE"
      using fits s1 s2 by (simp add: LEN_OFFSET_def DATA_OFFSET_def)
    from write_u64_ok[OF s2(1) this, of "Suc (length xs)"] show
      "ok (do { new_len \<leftarrow> u64_add (length xs) (Suc 0); s \<leftarrow> bv_set_len M s2 new_len; Some (Inr (), s) })
        (\<lambda>(r, s'). r = Inr () \<and> inv s' \<and> vec_rep T bd magic (contents s') (xs @ [x]) \<and> cap s' = cap s)"
      using n rep s1 s2 vec_rep_append[OF _ n s2(3) _ bs(2-4)]
      by (auto simp: bv_set_len_def LEN_OFFSET_def elim!: ok_mono)
  qed (use fits bs in auto)
qed

lemma set_slot_eq:
  "do { (o', s) \<leftarrow> expect m; write_grow M s o' bs } =
   do { (_, s) \<leftarrow> expect (try_bind m (\<lambda>o' s. try_bind (safe_write M s o' bs) (\<lambda>_ s. Some (Inr (), s)))); Some s }"
  by (cases m) (auto simp: expect_def try_bind_def write_grow_def split: sum.splits bind_splits)

lemma set_ok [ok_intro]:
  assumes rep: "rep magic s xs" and x: "valid x" and i: "i < length xs"
    and fits: "DATA_OFFSET + slot_bytes bd * i + slot_bytes bd \<le> cap s * WASM_PAGE_SIZE"
  shows "ok (bv_set T M s i x) (\<lambda>s'. rep magic s' (xs[i := x]) \<and> cap s' = cap s)"
proof -
  let ?off = "DATA_OFFSET + slot_bytes bd * i"
  obtain bs where bs: "to_bytes_checked T x = Some bs" "from_bytes T bs = Some x" "length bs \<le> max_size bd"
    "is_fixed_size bd \<longrightarrow> length bs = max_size bd"
    by (rule encode_item[OF x])
  obtain s1 where l: "bv_len M s = Some (length xs, s1)"
    and s1: "inv s1" "contents s1 = contents s" "cap s1 = cap s"
    using len_ok[OF rep] by (auto elim: ok_obtain)
  have eq: "bv_set T M s i x =
    do { (_, s) \<leftarrow> expect (try_bind (bv_write_entry_size T M s1 ?off (as_u32 (length bs)))
      (\<lambda>o' s. try_bind (safe_write M s o' bs) (\<lambda>_ s. Some (Inr (), s)))); Some s }"
    unfolding set_slot_eq[symmetric] by (simp add: bv_set_def l i entry_in_range[OF rep i] bs(1))
  have "ok (try_bind (bv_write_entry_size T M s1 ?off (as_u32 (length bs)))
      (\<lambda>o' s. try_bind (safe_write M s o' bs) (\<lambda>_ s. Some (Inr (), s))))
    (\<lambda>(r, s'). r = Inr () \<and> rep magic s' (xs[i := x]) \<and> cap s' = cap s)"
  proof (rule write_slot_ok[OF s1(1) bs(3)])
    fix s2
    assume s2: "inv s2" "cap s2 = cap s1" "wrote (contents s1) ?off
        (to_le_bytes (bytes_to_store_size_bounded bd) (length bs) @ bs) (contents s2)"
    have rep1: "vec_rep T bd magic (contents s1) xs"
      using rep s1 by simp
    have "vec_rep T bd magic (contents s2) (xs[i := x])"
      unfolding vec_rep_def
    proof (intro conjI allI impI)
      fix j
      assume "j < length (xs[i := x])"
      then show "entry_at T bd (contents s2) (DATA_OFFSET + slot_bytes bd * j) (xs[i := x] ! j)"
        using vec_rep_write_slot(2,3)[OF rep1 s2(3) refl bs(2-4)] by (cases "j = i") simp_all
    qed (use vec_rep_write_slot(1)[OF rep1 s2(3) refl bs(2-4)] in simp)
    with s2 s1 show "ok (Some (Inr (), s2)) (\<lambda>(r, s'). r = Inr () \<and> rep magic s' (xs[i := x]) \<and> cap s' = cap s)"
      by simp
  qed (use fits bs s1 in auto)
  then show ?thesis
    unfolding eq by (auto elim!: ok_mono simp del: ok_try_bind)
qed

lemma set_out_of_range:
  assumes "rep magic s xs" "length xs \<le> i"
  shows "bv_set T M s i x = None"
  using len_ok[OF assms(1)] assms(2) by (auto simp: bv_set_def ok_def assert_that_def)

text \<open>A push that reports a failed growth leaves the vector as it was.\<close>

lemma vec_rep_beyond:
  assumes rep: "vec_rep T bd magic c xs" and w: "wrote c (DATA_OFFSET + slot_bytes bd * length xs) bs c'"
  shows "vec_rep T bd magic c' xs"
proof -
  have "header_at bd magic c' (length xs)"
    using rep by (intro header_at_frame[OF _ w]) (simp_all add: vec_rep_def DATA_OFFSET_def)
  moreover have "entry_at T bd c' (DATA_OFFSET + slot_bytes bd * i) (xs ! i)" if "i < length xs" for i
    using rep that slot_before[OF that, of "slot_bytes bd"]
    by (intro entry_at_frame[OF _ w]) (simp_all add: vec_rep_def del: add_mult_distrib)
  ultimately show ?thesis
    by (simp add: vec_rep_def)
qed

lemma write_entry_size_frame:
  assumes s: "inv s" and n: "n \<le> max_size bd" and r: "bv_write_entry_size T M s off n = Some (q, s')"
  shows "inv s' \<and> cap s' = cap s \<and> (contents s' = contents s \<or> (\<exists>bs. wrote (contents s) off bs (contents s'))) \<and>
    (\<forall>o'. q = Inr o' \<longrightarrow> o' = off + bytes_to_store_size_bounded bd)"
proof (cases "is_fixed_size bd")
  case True
  with s r show ?thesis
    by (auto simp: write_entry_size_eq[OF n] bytes_to_store_size_bounded_def)
next
  case False
  with r obtain q1 s1 where q1: "safe_write M s off (to_le_bytes (bytes_to_store_size_bounded bd) n) = Some (q1, s1)"
    and rest: "(case q1 of Inl e \<Rightarrow> Some (Inl e, s1) | Inr _ \<Rightarrow>
      do { o' \<leftarrow> u64_add off (bytes_to_store_size_bounded bd); Some (Inr o', s1) }) = Some (q, s')"
    by (auto simp: write_entry_size_eq[OF n] try_bind_def bind_eq_Some_conv)
  from rest have "s1 = s'" "\<forall>o'. q = Inr o' \<longrightarrow> o' = off + bytes_to_store_size_bounded bd"
    by (auto simp: bind_eq_Some_conv u64_add_def split: sum.splits if_splits)
  with safe_write_cases[OF s q1] show ?thesis
    by blast
qed

lemma push_fail:
  assumes rep: "rep magic s xs" and x: "valid x" and r: "bv_push T M s x = Some (Inl e, s')"
  shows "rep magic s' xs \<and> cap s' = cap s"
proof -
  let ?off = "DATA_OFFSET + slot_bytes bd * length xs" and ?k = "bytes_to_store_size_bounded bd"
  obtain bs where bs: "to_bytes_checked T x = Some bs" "length bs \<le> max_size bd"
    by (rule encode_item[OF x])
  obtain s1 where l: "bv_len M s = Some (length xs, s1)"
    and s1: "inv s1" "contents s1 = contents s" "cap s1 = cap s"
    using len_ok[OF rep] by (auto elim: ok_obtain)
  have len: "as_u32 (length bs) = length bs"
    using bs(2) slot_u32 by (intro as_u32_id) simp
  obtain off where off: "slot_offset T (length xs) = Some off"
    using r by (auto simp: bv_push_def l bind_eq_Some_conv)
  then have off_eq: "off = ?off"
    by (auto simp: slot_offset_def slot_size_ok bind_eq_Some_conv u64_mul_def u64_add_def split: if_splits)
  obtain q s2 where q: "bv_write_entry_size T M s1 ?off (length bs) = Some (q, s2)"
    and rest: "(case q of Inl e \<Rightarrow> Some (Inl e, s2) | Inr o' \<Rightarrow> try_bind (safe_write M s2 o' bs) (\<lambda>_ s. do {
         new_len \<leftarrow> u64_add (length xs) 1; s \<leftarrow> bv_set_len M s new_len; Some (Inr (), s) })) = Some (Inl e, s')"
    using r unfolding bv_push_def try_bind_def[of "bv_write_entry_size _ _ _ _ _"]
    by (auto simp: l off off_eq bs(1) len bind_eq_Some_conv)
  note fr = write_entry_size_frame[OF s1(1) bs(2) q]
  have rep2: "rep magic s2 xs \<and> cap s2 = cap s"
    using fr rep s1 vec_rep_beyond by auto
  show ?thesis
  proof (cases q)
    case (Inl e')
    with rest rep2 show ?thesis by simp
  next
    case (Inr o')
    with rest obtain e' where "safe_write M s2 o' bs = Some (Inl e', s')"
      by (auto simp: try_bind_Some bind_eq_Some_conv)
    from safe_write_cases[OF _ this] rep2 show ?thesis
      by auto
  qed
qed

text \<open>A new vector is empty, and opening a memory that holds a vector finds the vector.\<close>

lemma new_ok:
  assumes s: "inv s" and m: "length magic = 3" and room: "0 < cap s"
  shows "ok (bv_new T M s magic) (\<lambda>(r, s'). r = Inr () \<and> rep magic s' [] \<and> cap s' = cap s)"
proof -
  have room: "WASM_PAGE_SIZE \<le> cap s * WASM_PAGE_SIZE"
    using room by simp
  obtain s1 where s1: "safe_write M s 0 magic = Some (Inr (), s1)" "inv s1" "cap s1 = cap s"
    "wrote (contents s) 0 magic (contents s1)"
    using safe_write_ok[OF s, of 0 magic] room m by (auto elim: ok_obtain)
  have len: "WASM_PAGE_SIZE \<le> length (contents s1)"
    using page_law[OF s1(2)] wrote_range[OF s1(4)] m by (auto intro!: dvd_imp_le)
  obtain s2 where s2: "write_op M s1 3 [of_nat LAYOUT_VERSION] = Some s2" "inv s2" "cap s2 = cap s"
    "length (contents s2) = length (contents s1)" "wrote (contents s1) 3 [of_nat LAYOUT_VERSION] (contents s2)"
    using write_ok[OF s1(2), of 3 "[of_nat LAYOUT_VERSION]"] len s1(3) by (auto elim: ok_obtain)
  obtain s3 where s3: "write_u64 M s2 4 0 = Some s3" "inv s3" "cap s3 = cap s"
    "wrote (contents s2) 4 (to_le_bytes 8 0) (contents s3)"
    using write_u64_ok[OF s2(2), of 4 0] room s2(3) by (auto elim: ok_obtain simp del: to_le_bytes.simps)
  obtain s4 where s4: "write_u32 M s3 12 (max_size bd) = Some s4" "inv s4" "cap s4 = cap s"
    "wrote (contents s3) 12 (to_le_bytes 4 (max_size bd)) (contents s4)"
    using write_u32_ok[OF s3(2), of 12 "max_size bd"] room s3(3) by (auto elim: ok_obtain simp del: to_le_bytes.simps)
  have len4: "WASM_PAGE_SIZE \<le> length (contents s4)"
    using len s2(4) wrote_length[OF s3(4)] wrote_length[OF s4(4)] by linarith
  let ?f = "[if is_fixed_size bd then 1 else 0] :: bytes"
  obtain s5 where s5: "write_op M s4 16 ?f = Some s5" "inv s5" "cap s5 = cap s"
    "length (contents s5) = length (contents s4)" "wrote (contents s4) 16 ?f (contents s5)"
    using write_ok[OF s4(2), of 16 ?f] len4 s4(3) by (auto elim: ok_obtain)
  have "wrote (contents s) 0 (magic @ [of_nat LAYOUT_VERSION]) (contents s2)"
    using wrote_wrote[OF s1(4)] s2(5) m by simp
  from wrote_wrote[OF this, of "to_le_bytes 8 0"] s3(4) m
  have "wrote (contents s) 0 (magic @ [of_nat LAYOUT_VERSION] @ to_le_bytes 8 0) (contents s3)"
    by (simp del: to_le_bytes.simps)
  from wrote_wrote[OF this, of "to_le_bytes 4 (max_size bd)"] s4(4) m
  have "wrote (contents s) 0 (magic @ [of_nat LAYOUT_VERSION] @ to_le_bytes 8 0 @ to_le_bytes 4 (max_size bd)) (contents s4)"
    by (simp del: to_le_bytes.simps)
  from wrote_wrote[OF this, of ?f] s5(5) m
  have "wrote (contents s) 0 (magic @ [of_nat LAYOUT_VERSION] @ to_le_bytes 8 0 @ to_le_bytes 4 (max_size bd) @ ?f) (contents s5)"
    by (simp del: to_le_bytes.simps)
  then have "header_at bd magic (contents s5) 0"
    using m len4 s5(4) by (intro header_at_written) simp_all
  then have "rep magic s5 []"
    using s5 by (simp add: vec_rep_def)
  with s5 show ?thesis
    by (simp add: bv_new_def bv_write_header_def bd s1(1) s2(1) s3(1) s4(1))
qed

lemma read_header_ok:
  assumes s: "inv s" and c: "WASM_PAGE_SIZE \<le> length (contents s)"
  shows "ok (bv_read_header M s) (\<lambda>(h, s'). inv s' \<and> contents s' = contents s \<and> cap s' = cap s \<and>
    h = \<lparr>vh_magic = subrange (contents s) 0 3, vh_version = unat (contents s ! 3),
         vh_len = from_le_bytes (subrange (contents s) 4 8),
         vh_max_size = from_le_bytes (subrange (contents s) 12 4),
         vh_is_fixed_size = (contents s ! 16 \<noteq> 0)\<rparr>)"
proof -
  have sz: "size_op M s = Some (length (contents s) div WASM_PAGE_SIZE)" "0 < length (contents s) div WASM_PAGE_SIZE"
    using size_law[OF s] c by (auto simp: div_greater_zero_iff)
  show ?thesis
    unfolding bv_read_header_def sz(1) using c sz(2)
    by (auto simp: LEN_OFFSET_def intro!: s ok_mono[OF read_law] ok_mono[OF read_u64_ok] ok_mono[OF read_u32_ok])
qed

lemma nonempty_size:
  assumes "inv s" "WASM_PAGE_SIZE \<le> length (contents s)"
  obtains n where "size_op M s = Some (Suc n)"
proof -
  have "length (contents s) div WASM_PAGE_SIZE \<noteq> 0"
    using assms(2) by (simp add: div_eq_0_iff)
  with size_law[OF assms(1)] that show thesis
    by (metis not0_implies_Suc)
qed

lemma header_fields:
  assumes "header_at bd magic c n"
  shows "subrange c 0 3 = magic" "unat (c ! 3) = LAYOUT_VERSION"
    "from_le_bytes (subrange c 12 4) = max_size bd" "(c ! 16 \<noteq> 0) = is_fixed_size bd"
proof -
  have len: "WASM_PAGE_SIZE \<le> length c"
    and s: "subrange c 3 1 = [of_nat LAYOUT_VERSION]" "subrange c 16 1 = [if is_fixed_size bd then 1 else 0]"
      "subrange c 12 4 = to_le_bytes 4 (max_size bd)"
    using assms by (simp_all add: header_at_def)
  have "subrange c 3 1 ! 0 = c ! 3" "subrange c 16 1 ! 0 = c ! 16"
    using len by (simp_all del: One_nat_def)
  with s show "unat (c ! 3) = LAYOUT_VERSION" "(c ! 16 \<noteq> 0) = is_fixed_size bd"
    by (simp_all add: LAYOUT_VERSION_def split: if_splits)
  show "from_le_bytes (subrange c 12 4) = max_size bd"
    using slot_u32 unfolding s(3) by (intro from_to_le_bytes_id) simp
qed (use assms in \<open>simp add: header_at_def\<close>)

lemma open_ok:
  assumes rep: "rep magic s xs"
  shows "ok (bv_init T M s magic) (\<lambda>(r, s'). r = Inr () \<and> rep magic s' xs \<and> cap s' = cap s)"
proof -
  have c: "WASM_PAGE_SIZE \<le> length (contents s)" and h: "header_at bd magic (contents s) (length xs)"
    using rep by (auto simp: vec_rep_def header_at_def)
  obtain n where n: "size_op M s = Some (Suc n)"
    using nonempty_size rep c by blast
  show ?thesis
    using read_header_ok[of s] rep c header_fields[OF h]
    by (auto simp: bv_init_def n bd elim!: ok_mono)
qed

lemma init_fresh:
  assumes "inv s" "contents s = []" "length magic = 3" "0 < cap s"
  shows "ok (bv_init T M s magic) (\<lambda>(r, s'). r = Inr () \<and> rep magic s' [] \<and> cap s' = cap s)"
  using new_ok[OF assms(1,3,4)] size_law[OF assms(1)] assms(2)
  by (auto simp: bv_init_def elim!: ok_mono)

text \<open>What \<open>init\<close> answers on a memory that holds something else: the checks in their order.\<close>

lemma init_rejects:
  assumes s: "inv s" and c: "WASM_PAGE_SIZE \<le> length (contents s)"
  shows "ok (bv_init T M s magic) (\<lambda>(r, s'). contents s' = contents s \<and> inv s' \<and> cap s' = cap s \<and>
    r = (if subrange (contents s) 0 3 \<noteq> magic then Inl (BadMagic (subrange (contents s) 0 3) magic)
         else if unat (contents s ! 3) \<noteq> LAYOUT_VERSION then Inl (IncompatibleVersion (unat (contents s ! 3)))
         else if from_le_bytes (subrange (contents s) 12 4) \<noteq> max_size bd \<or>
           (contents s ! 16 \<noteq> 0) \<noteq> is_fixed_size bd then Inl IncompatibleElementType
         else Inr ()))"
proof -
  obtain n where n: "size_op M s = Some (Suc n)"
    using nonempty_size[OF s c] by blast
  obtain h s1 where h: "bv_read_header M s = Some (h, s1)" "inv s1" "contents s1 = contents s" "cap s1 = cap s"
    "h = \<lparr>vh_magic = subrange (contents s) 0 3, vh_version = unat (contents s ! 3),
         vh_len = from_le_bytes (subrange (contents s) 4 8),
         vh_max_size = from_le_bytes (subrange (contents s) 12 4),
         vh_is_fixed_size = (contents s ! 16 \<noteq> 0)\<rparr>"
    using read_header_ok[OF s c] by (auto elim: ok_obtain)
  show ?thesis
    by (simp add: bv_init_def n bd h)
qed

text \<open>The iterator: the items from \<open>it_start\<close> to \<open>it_end\<close>, from both sides.\<close>

lemma it_next_ok [ok_intro]:
  assumes rep: "rep magic s xs"
  shows "ok (it_next T M s it) (\<lambda>(r, it', s'). inv s' \<and> contents s' = contents s \<and> cap s' = cap s \<and>
    (if it_start it < it_end it \<and> it_start it < length xs
     then r = Some (xs ! it_start it) \<and> it' = it\<lparr>it_start := it_start it + 1\<rparr>
     else r = None \<and> it' = it))"
proof -
  have "length xs \<le> U64_MAX"
    using rep by (simp add: vec_rep_def header_at_def)
  with rep show ?thesis
    by (auto simp: it_next_def u64_saturating_add_def
        intro!: ok_mono[OF len_ok[OF rep]] ok_mono[OF read_entry_to_ok[of _ magic xs]])
qed

lemma it_next_back_ok [ok_intro]:
  assumes rep: "rep magic s xs"
  shows "ok (it_next_back T M s it) (\<lambda>(r, it', s'). inv s' \<and> contents s' = contents s \<and> cap s' = cap s \<and>
    (if it_start it < it_end it \<and> it_end it \<le> length xs
     then r = Some (xs ! (it_end it - 1)) \<and> it' = it\<lparr>it_end := it_end it - 1\<rparr>
     else r = None \<and> it' = it))"
  using rep
  by (auto simp: it_next_back_def u64_saturating_sub_def
      intro!: ok_mono[OF len_ok[OF rep]] ok_mono[OF read_entry_to_ok[of _ magic xs]])

lemma it_nth_ok:
  assumes rep: "rep magic s xs"
  shows "ok (it_nth T M s it n) (\<lambda>(r, it', s'). inv s' \<and> contents s' = contents s \<and> cap s' = cap s \<and>
    r = (if it_start it + n < min (it_end it) (length xs) then Some (xs ! (it_start it + n)) else None))"
proof -
  have "length xs \<le> U64_MAX"
    using rep by (simp add: vec_rep_def header_at_def)
  then show ?thesis
    unfolding it_nth_def
    by (intro ok_mono[OF it_next_ok[OF rep]]) (auto simp: u64_saturating_add_def min_def split: if_splits)
qed

lemma it_size_hint_ok:
  assumes rep: "rep magic s xs"
  shows "ok (it_size_hint M s it) (\<lambda>(n, s'). n = min (length xs) (it_end it) - it_start it \<and>
    inv s' \<and> contents s' = contents s \<and> cap s' = cap s)"
  by (auto simp: it_size_hint_def u64_saturating_sub_def intro!: ok_mono[OF len_ok[OF rep]])

lemma it_collect_ok:
  assumes rep: "rep magic s xs" and e: "it_end it \<le> length xs"
  shows "ok (it_collect T M s it) (\<lambda>(ys, s'). ys = subrange xs (it_start it) (it_end it - it_start it) \<and>
    inv s' \<and> contents s' = contents s \<and> cap s' = cap s)"
  using assms
proof (induction "it_end it - it_start it" arbitrary: it s)
  case 0
  then show ?case
    by (subst it_collect.simps) (auto intro!: ok_mono[OF it_next_ok[of _ magic xs]])
next
  case (Suc n)
  let ?it = "it\<lparr>it_start := it_start it + 1\<rparr>"
  have st: "it_start it < it_end it" "it_start it < length xs"
    using Suc.hyps(2) Suc.prems(2) by simp_all
  have sub: "subrange xs (it_start it) (it_end it - it_start it) =
      xs ! it_start it # subrange xs (it_start ?it) (it_end ?it - it_start ?it)"
  proof -
    have n: "it_end it - it_start it = Suc n" "it_end ?it - it_start ?it = n"
      using Suc.hyps(2) by simp_all
    show ?thesis
      unfolding n using st(2) by (simp add: subrange_def Cons_nth_drop_Suc[symmetric])
  qed
  obtain s1 where s1: "it_next T M s it = Some (Some (xs ! it_start it), ?it, s1)"
    "inv s1" "contents s1 = contents s" "cap s1 = cap s"
    using it_next_ok[OF Suc.prems(1), of it] st by (auto elim: ok_obtain)
  have "ok (it_collect T M s1 ?it) (\<lambda>(ys, s'). ys = subrange xs (it_start ?it) (it_end ?it - it_start ?it) \<and>
      inv s' \<and> contents s' = contents s1 \<and> cap s' = cap s1)"
    using Suc.hyps(2) Suc.prems s1 by (intro Suc.hyps(1)) auto
  then show ?case
    unfolding sub by (subst it_collect.simps) (auto simp: s1 elim!: ok_mono)
qed

lemma to_vec_ok:
  assumes rep: "rep magic s xs"
  shows "ok (bv_to_vec T M s) (\<lambda>(ys, s'). ys = xs \<and> inv s' \<and> contents s' = contents s \<and> cap s' = cap s)"
  using rep
  by (auto simp: bv_to_vec_def bv_iter_def
      intro!: ok_mono[OF len_ok[OF rep]] ok_mono[OF it_collect_ok[of _ magic xs]])

end

text \<open>The contract is met by the vector memory with every bounded item type of the crate whose slot fits.\<close>

lemma stable_vec_on_vector_memory:
  assumes "storable_type T valid" "bounds_of T = Some b" "slot_bytes b \<le> U32_MAX"
  shows "stable_vec VectorMemory vec_inv (\<lambda>m. m) vec_cap T valid b"
  using assms vm.memory_axioms by (simp add: stable_vec_def stable_vec_axioms_def)

interpretation u64_vec: stable_vec VectorMemory vec_inv "\<lambda>m. m" vec_cap u64_storable "\<lambda>_. True"
  "\<lparr>max_size = 8, is_fixed_size = True\<rparr>"
  by (rule stable_vec_on_vector_memory[OF u64_ty.storable_type_axioms])
    (simp_all add: bounds_of_def u64_storable_def bytes_to_store_size_bounded_def)

interpretation blob_vec: stable_vec VectorMemory vec_inv "\<lambda>m. m" vec_cap "blob_storable 32" "blob_canonical 32"
  "\<lparr>max_size = 32, is_fixed_size = False\<rparr>"
  by (rule stable_vec_on_vector_memory[OF blob_ty.storable_type_axioms])
    (simp_all add: bounds_of_def blob_storable_def
      bytes_to_store_size_bounded_def bytes_to_store_size_def)

interpretation restricted_vec: stable_vec "RestrictedMemory VectorMemory start stop"
  "restricted_inv vec_inv (\<lambda>m. m) start stop" "restricted_contents (\<lambda>m. m) start stop"
  "restricted_cap vec_cap start stop" u64_storable "\<lambda>_. True" "\<lparr>max_size = 8, is_fixed_size = True\<rparr>" for start stop
  using rvm.memory_axioms u64_vec.stable_vec_axioms by (simp add: stable_vec_def)

end
