(* ===== verification/Growable_Vec.thy ===== *)
theory Growable_Vec
  imports Base_Vec
begin

text \<open>
  The public vector of \<open>src/src/vec.rs\<close>: a \<open>BaseVec\<close> with the magic \<open>SVC\<close> whose failures panic.
  The specification is the list of the items; the simulation at the end runs any sequence of
  operations, including the reopening of the memory that an upgrade performs, on the bytes and on
  the list.
\<close>

section \<open>The code\<close>

definition VEC_MAGIC :: bytes where
  "VEC_MAGIC = [83, 86, 67]"

definition sv_new :: "'a storable \<Rightarrow> 's memory_ops \<Rightarrow> 's \<Rightarrow> 's option" where
  "sv_new T M s = do { (_, s) \<leftarrow> expect (bv_new T M s VEC_MAGIC); Some s }"

definition sv_init :: "'a storable \<Rightarrow> 's memory_ops \<Rightarrow> 's \<Rightarrow> 's option" where
  "sv_init T M s = do { (_, s) \<leftarrow> expect (bv_init T M s VEC_MAGIC); Some s }"

definition sv_into_memory :: "'s \<Rightarrow> 's" where
  "sv_into_memory s = s"

definition sv_clear :: "'s memory_ops \<Rightarrow> 's \<Rightarrow> 's option" where
  "sv_clear M s = bv_clear M s"

definition sv_is_empty :: "'s memory_ops \<Rightarrow> 's \<Rightarrow> (bool \<times> 's) option" where
  "sv_is_empty M s = bv_is_empty M s"

definition sv_len :: "'s memory_ops \<Rightarrow> 's \<Rightarrow> (nat \<times> 's) option" where
  "sv_len M s = bv_len M s"

definition sv_set :: "'a storable \<Rightarrow> 's memory_ops \<Rightarrow> 's \<Rightarrow> nat \<Rightarrow> 'a \<Rightarrow> 's option" where
  "sv_set T M s index item = bv_set T M s index item"

definition sv_get :: "'a storable \<Rightarrow> 's memory_ops \<Rightarrow> 's \<Rightarrow> nat \<Rightarrow> ('a option \<times> 's) option" where
  "sv_get T M s index = bv_get T M s index"

definition sv_push :: "'a storable \<Rightarrow> 's memory_ops \<Rightarrow> 's \<Rightarrow> 'a \<Rightarrow> 's option" where
  "sv_push T M s item = do { (_, s) \<leftarrow> expect (bv_push T M s item); Some s }"

definition sv_pop :: "'a storable \<Rightarrow> 's memory_ops \<Rightarrow> 's \<Rightarrow> ('a option \<times> 's) option" where
  "sv_pop T M s = bv_pop T M s"

definition sv_iter :: "'s memory_ops \<Rightarrow> 's \<Rightarrow> (vec_iter \<times> 's) option" where
  "sv_iter M s = bv_iter M s"

definition sv_to_vec :: "'a storable \<Rightarrow> 's memory_ops \<Rightarrow> 's \<Rightarrow> ('a list \<times> 's) option" where
  "sv_to_vec T M s = bv_to_vec T M s"

section \<open>Specification\<close>

datatype 'a vec_cmd = Push 'a | Pop | Set nat 'a | Get nat | Len | Is_empty | Clear | Items | Reopen

datatype 'a vec_out = Out_unit | Out_item "'a option" | Out_nat nat | Out_bool bool | Out_list "'a list"

fun spec_step :: "'a vec_cmd \<Rightarrow> 'a list \<Rightarrow> ('a vec_out \<times> 'a list) option" where
  "spec_step (Push x) xs = Some (Out_unit, xs @ [x])"
| "spec_step Pop xs = Some (Out_item (if xs = [] then None else Some (last xs)), butlast xs)"
| "spec_step (Set i x) xs = (if i < length xs then Some (Out_unit, xs[i := x]) else None)"
| "spec_step (Get i) xs = Some (Out_item (if i < length xs then Some (xs ! i) else None), xs)"
| "spec_step Len xs = Some (Out_nat (length xs), xs)"
| "spec_step Is_empty xs = Some (Out_bool (xs = []), xs)"
| "spec_step Clear xs = Some (Out_unit, [])"
| "spec_step Items xs = Some (Out_list xs, xs)"
| "spec_step Reopen xs = Some (Out_unit, xs)"

fun sv_step :: "'a storable \<Rightarrow> 's memory_ops \<Rightarrow> 'a vec_cmd \<Rightarrow> 's \<Rightarrow> ('a vec_out \<times> 's) option" where
  "sv_step T M (Push x) s = do { s \<leftarrow> sv_push T M s x; Some (Out_unit, s) }"
| "sv_step T M Pop s = do { (r, s) \<leftarrow> sv_pop T M s; Some (Out_item r, s) }"
| "sv_step T M (Set i x) s = do { s \<leftarrow> sv_set T M s i x; Some (Out_unit, s) }"
| "sv_step T M (Get i) s = do { (r, s) \<leftarrow> sv_get T M s i; Some (Out_item r, s) }"
| "sv_step T M Len s = do { (r, s) \<leftarrow> sv_len M s; Some (Out_nat r, s) }"
| "sv_step T M Is_empty s = do { (r, s) \<leftarrow> sv_is_empty M s; Some (Out_bool r, s) }"
| "sv_step T M Clear s = do { s \<leftarrow> sv_clear M s; Some (Out_unit, s) }"
| "sv_step T M Items s = do { (r, s) \<leftarrow> sv_to_vec T M s; Some (Out_list r, s) }"
| "sv_step T M Reopen s = do { s \<leftarrow> sv_init T M s; Some (Out_unit, s) }"

fun run :: "('c \<Rightarrow> 'st \<Rightarrow> ('o \<times> 'st) option) \<Rightarrow> 'c list \<Rightarrow> 'st \<Rightarrow> ('o list \<times> 'st) option" where
  "run f [] s = Some ([], s)"
| "run f (c # cs) s = do {
     (out, s) \<leftarrow> f c s;
     (outs, s) \<leftarrow> run f cs s;
     Some (out # outs, s) }"

fun cmd_valid :: "('a \<Rightarrow> bool) \<Rightarrow> 'a vec_cmd \<Rightarrow> bool" where
  "cmd_valid valid (Push x) = valid x"
| "cmd_valid valid (Set i x) = valid x"
| "cmd_valid valid _ = True"

fun pushes :: "'a vec_cmd list \<Rightarrow> nat" where
  "pushes [] = 0"
| "pushes (Push x # cs) = Suc (pushes cs)"
| "pushes (_ # cs) = pushes cs"

context stable_vec
begin

abbreviation svec :: "'s \<Rightarrow> 'a list \<Rightarrow> bool" where
  "svec s xs \<equiv> inv s \<and> vec_rep T bd VEC_MAGIC (contents s) xs"

abbreviation slots :: "'s \<Rightarrow> nat \<Rightarrow> bool" where
  "slots s n \<equiv> n \<le> U64_MAX \<and> DATA_OFFSET + slot_bytes bd * n \<le> cap s * WASM_PAGE_SIZE"

lemma slots_mono: "slots s n \<Longrightarrow> m \<le> n \<Longrightarrow> slots s m"
  by (meson add_le_mono1 add_mono_thms_linordered_semiring(2) le_trans mult_le_mono2)

lemma sv_push_ok:
  assumes "svec s xs" "valid x" "slots s (Suc (length xs))"
  shows "ok (sv_push T M s x) (\<lambda>s'. svec s' (xs @ [x]) \<and> cap s' = cap s)"
  using push_ok[OF assms(1,2)] assms(3) by (auto simp: sv_push_def add_ac elim!: ok_mono)

lemma sv_step_ok:
  assumes "svec s xs" "cmd_valid valid c" "slots s (length xs + pushes [c])"
    and "spec_step c xs = Some (out, ys)"
  shows "ok (sv_step T M c s) (\<lambda>(out', s'). out' = out \<and> svec s' ys \<and> cap s' = cap s)"
proof (cases c)
  case (Push x)
  with assms show ?thesis
    by (auto intro!: ok_mono[OF sv_push_ok[OF assms(1)]])
next
  case (Set i x)
  then have "i < length xs" "valid x" "ys = xs[i := x]" "out = Out_unit"
    using assms by (auto split: if_splits)
  moreover have "slots s (Suc i)"
    using assms(3) Set \<open>i < length xs\<close> by (intro slots_mono[OF assms(3)]) simp
  ultimately show ?thesis
    using Set set_ok[OF assms(1), of x i] by (auto simp: sv_set_def add_ac elim!: ok_mono)
qed (use assms in \<open>auto simp: sv_pop_def sv_get_def sv_len_def sv_is_empty_def sv_clear_def sv_to_vec_def
      sv_init_def intro!: ok_mono[OF pop_ok[OF assms(1)]] ok_mono[OF get_ok[OF assms(1)]] ok_mono[OF len_ok[OF assms(1)]]
      ok_mono[OF is_empty_ok[OF assms(1)]] ok_mono[OF clear_ok[OF assms(1)]] ok_mono[OF to_vec_ok[OF assms(1)]]
      ok_mono[OF open_ok[OF assms(1)]]\<close>)

lemma spec_length:
  assumes "spec_step c xs = Some (out, ys)"
  shows "length ys + pushes cs \<le> length xs + pushes (c # cs)"
  using assms by (cases c) (auto split: if_splits)

lemma sv_run_ok:
  assumes "svec s xs" "\<forall>c \<in> set cs. cmd_valid valid c" "slots s (length xs + pushes cs)"
    and "run spec_step cs xs = Some (outs, ys)"
  shows "ok (run (sv_step T M) cs s) (\<lambda>(outs', s'). outs' = outs \<and> svec s' ys \<and> cap s' = cap s)"
  using assms
proof (induction cs arbitrary: s xs outs)
  case Nil
  then show ?case by simp
next
  case (Cons c cs)
  obtain out zs outs' where st: "spec_step c xs = Some (out, zs)" "run spec_step cs zs = Some (outs', ys)"
    "outs = out # outs'"
    using Cons.prems(4) by (auto simp: bind_eq_Some_conv)
  have "length xs + pushes [c] \<le> length xs + pushes (c # cs)"
    by (cases c) simp_all
  then have "ok (sv_step T M c s) (\<lambda>(out', s'). out' = out \<and> svec s' zs \<and> cap s' = cap s)"
    using Cons.prems st(1) by (intro sv_step_ok slots_mono[OF Cons.prems(3)]) simp_all
  then obtain s1 where s1: "sv_step T M c s = Some (out, s1)" "svec s1 zs" "cap s1 = cap s"
    by (auto elim: ok_obtain)
  have "slots s (length zs + pushes cs)"
    by (rule slots_mono[OF Cons.prems(3) spec_length[OF st(1)]])
  then have "ok (run (sv_step T M) cs s1) (\<lambda>(outs'', s'). outs'' = outs' \<and> svec s' ys \<and> cap s' = cap s1)"
    using Cons.prems(2) s1 st(2) by (intro Cons.IH) simp_all
  with s1 st(3) show ?case
    by (auto elim!: ok_mono)
qed

text \<open>Where the specification has no result (an index out of range) the code panics.\<close>

lemma sv_run_panics:
  assumes "svec s xs" "\<forall>c \<in> set cs. cmd_valid valid c" "slots s (length xs + pushes cs)"
    and "run spec_step cs xs = None"
  shows "run (sv_step T M) cs s = None"
  using assms
proof (induction cs arbitrary: s xs)
  case Nil
  then show ?case by simp
next
  case (Cons c cs)
  show ?case
  proof (cases "spec_step c xs")
    case None
    then obtain i x where "c = Set i x" "length xs \<le> i"
      by (cases c) (auto split: if_splits)
    with set_out_of_range[OF Cons.prems(1)] show ?thesis
      by (simp add: sv_set_def)
  next
    case (Some r)
    obtain out zs where r: "r = (out, zs)"
      by (cases r)
    have "length xs + pushes [c] \<le> length xs + pushes (c # cs)"
      by (cases c) simp_all
    then have "ok (sv_step T M c s) (\<lambda>(out', s'). out' = out \<and> svec s' zs \<and> cap s' = cap s)"
      using Cons.prems Some r by (intro sv_step_ok slots_mono[OF Cons.prems(3)]) simp_all
    then obtain s1 where s1: "sv_step T M c s = Some (out, s1)" "svec s1 zs" "cap s1 = cap s"
      by (auto elim: ok_obtain)
    have "slots s (length zs + pushes cs)"
      using Some r by (intro slots_mono[OF Cons.prems(3) spec_length]) simp
    moreover have "run spec_step cs zs = None"
      using Cons.prems(4) Some r by (cases "run spec_step cs zs") auto
    ultimately have "run (sv_step T M) cs s1 = None"
      using Cons.prems(2) s1 by (intro Cons.IH) simp_all
    with s1 show ?thesis
      by simp
  qed
qed

end

section \<open>Properties\<close>

text \<open>
  C10. A stable vector is a list. For every memory and item type that meet their contracts, any
  sequence of push, pop, set, get, len, is_empty, clear, iteration and reopening (the memory
  handed over by \<open>into_memory\<close> and opened again by \<open>init\<close>) on the bytes returns what the same
  sequence returns on the list, the bytes represent the resulting list, and the code panics exactly
  where the list operation is undefined (\<open>set\<close> out of range). The memory must have room for the
  slots of all pushed items.
\<close>

theorem vec_simulates_list:
  assumes "stable_vec M minv contents cap T valid bd"
    and "minv s" "vec_rep T bd VEC_MAGIC (contents s) xs" "\<forall>c \<in> set cs. cmd_valid valid c"
    and "length xs + pushes cs \<le> U64_MAX"
    and "DATA_OFFSET + slot_bytes bd * (length xs + pushes cs) \<le> cap s * WASM_PAGE_SIZE"
  shows "case run spec_step cs xs of
      Some (outs, ys) \<Rightarrow> ok (run (sv_step T M) cs s) (\<lambda>(outs', s').
        outs' = outs \<and> minv s' \<and> vec_rep T bd VEC_MAGIC (contents s') ys)
    | None \<Rightarrow> run (sv_step T M) cs s = None"
proof -
  note vec = stable_vec.sv_run_ok[OF assms(1), of s xs cs] stable_vec.sv_run_panics[OF assms(1), of s xs cs]
  show ?thesis
    using vec assms(2-6) by (auto split: option.split elim!: ok_mono)
qed

lemma vec_room: "n \<le> 1000 \<Longrightarrow> DATA_OFFSET + slot_bytes \<lparr>max_size = 8, is_fixed_size = True\<rparr> * n \<le> vec_cap s * WASM_PAGE_SIZE"
  by (simp add: DATA_OFFSET_def bytes_to_store_size_bounded_def vec_cap_def VEC_MAX_PAGES_val)

theorem vec_simulates_list_witness:
  "ok (sv_new u64_storable VectorMemory []) (\<lambda>s.
     ok (run (sv_step u64_storable VectorMemory) [Push 7, Push 9, Set 0 5, Reopen, Pop, Get 0, Items] s) (\<lambda>(outs, _).
       outs = [Out_unit, Out_unit, Out_unit, Out_unit, Out_item (Some 9), Out_item (Some 5), Out_list [5]]))"
proof -
  let ?cs = "[Push 7, Push 9, Set 0 5, Reopen, Pop, Get 0, Items] :: 64 word vec_cmd list"
  have "ok (bv_new u64_storable VectorMemory [] VEC_MAGIC) (\<lambda>(r, s). r = Inr () \<and>
      (vec_inv s \<and> vec_rep u64_storable \<lparr>max_size = 8, is_fixed_size = True\<rparr> VEC_MAGIC s []) \<and> vec_cap s = vec_cap [])"
    by (rule u64_vec.new_ok) (simp_all add: VEC_MAGIC_def vec_cap_def VEC_MAX_PAGES_val)
  then obtain s where s: "bv_new u64_storable VectorMemory [] VEC_MAGIC = Some (Inr (), s)" "vec_inv s"
    "vec_rep u64_storable \<lparr>max_size = 8, is_fixed_size = True\<rparr> VEC_MAGIC s []"
    by (auto elim: ok_obtain)
  have spec: "run spec_step ?cs [] =
      Some ([Out_unit, Out_unit, Out_unit, Out_unit, Out_item (Some 9), Out_item (Some 5), Out_list [5]], [5])"
    by simp
  have sv: "sv_new u64_storable VectorMemory [] = Some s"
    using s(1) by (simp add: sv_new_def expect_def)
  have "case run spec_step ?cs [] of
      Some (outs, ys) \<Rightarrow> ok (run (sv_step u64_storable VectorMemory) ?cs s) (\<lambda>(outs', s').
        outs' = outs \<and> vec_inv s' \<and> vec_rep u64_storable \<lparr>max_size = 8, is_fixed_size = True\<rparr> VEC_MAGIC s' ys)
    | None \<Rightarrow> run (sv_step u64_storable VectorMemory) ?cs s = None"
    using vec_room[of 2 s]
    by (intro vec_simulates_list[OF u64_vec.stable_vec_axioms s(2,3)]) simp_all
  then show ?thesis
    unfolding spec sv ok_Some by (auto elim!: ok_mono simp del: run.simps ok_bind)
qed

end
