(* ===== verification/File_Memory.thy ===== *)
theory File_Memory
  imports Growable_Vec
begin

text \<open>
  The memories outside of the crate's control: \<open>FileMemory\<close> of \<open>src/src/file_mem.rs\<close>, a memory in a file, and \<open>Ic0StableMemory\<close> of
  \<open>src/src/ic0_memory.rs\<close>, the stable memory of a canister behind the system interface.
\<close>

section \<open>Files\<close>

text \<open>
  What the code uses of \<open>std::fs::File\<close>: the bytes of a regular file, the position that reads and writes start from, and the length that
  the file system allows. A read stops at the end of the file, a write at the limit; a position is a signed offset for the operating system. A write behind
  the end fills the gap with zeros.
\<close>

record os_file =
  file_bytes :: bytes
  file_pos :: nat
  file_limit :: nat

datatype io_error = InvalidInput | FileTooLarge

abbreviation I64_MAX :: nat where "I64_MAX \<equiv> 9223372036854775807"

definition file_len :: "os_file \<Rightarrow> nat" where
  "file_len f = length (file_bytes f)"

definition file_set_len :: "os_file \<Rightarrow> nat \<Rightarrow> (io_error + unit) \<times> os_file" where
  "file_set_len f n = (if n \<le> file_limit f then (Inr (), f\<lparr>file_bytes := vec_resize (file_bytes f) n 0\<rparr>) else (Inl FileTooLarge, f))"

definition file_seek :: "os_file \<Rightarrow> nat \<Rightarrow> (io_error + nat) \<times> os_file" where
  "file_seek f n = (if n \<le> I64_MAX then (Inr n, f\<lparr>file_pos := n\<rparr>) else (Inl InvalidInput, f))"

definition file_read :: "os_file \<Rightarrow> nat \<Rightarrow> (io_error + bytes) \<times> os_file" where
  "file_read f n = (let bs = subrange (file_bytes f) (file_pos f) n in (Inr bs, f\<lparr>file_pos := file_pos f + length bs\<rparr>))"

definition file_write :: "os_file \<Rightarrow> bytes \<Rightarrow> (io_error + nat) \<times> os_file" where
  "file_write f src =
     (if src = [] then (Inr 0, f)
      else if file_limit f \<le> file_pos f then (Inl FileTooLarge, f)
      else let p = file_pos f; m = file_bytes f; n = min (length src) (file_limit f - p) in
        (Inr n, f\<lparr>file_bytes := take p (m @ replicate (p - length m) 0) @ take n src @ drop (p + n) m, file_pos := p + n\<rparr>))"

section \<open>File memory\<close>

definition file_memory_new :: "os_file \<Rightarrow> os_file" where
  "file_memory_new f = f"

definition file_memory_size :: "os_file \<Rightarrow> nat option" where
  "file_memory_size f = do {
     let len = file_len f;
     assert_that (len mod WASM_PAGE_SIZE = 0);
     Some (len div WASM_PAGE_SIZE) }"

definition file_memory_grow :: "os_file \<Rightarrow> nat \<Rightarrow> (int \<times> os_file) option" where
  "file_memory_grow f pages = do {
     previous_size \<leftarrow> file_memory_size f;
     n \<leftarrow> u64_add previous_size pages;
     len \<leftarrow> u64_mul n WASM_PAGE_SIZE;
     (_, f) \<leftarrow> expect (Some (file_set_len f len));
     size \<leftarrow> file_memory_size f;
     n \<leftarrow> u64_add previous_size pages;
     assert_that (size = n);
     Some (int previous_size, f) }"

definition file_memory_read :: "os_file \<Rightarrow> nat \<Rightarrow> nat \<Rightarrow> (bytes \<times> os_file) option" where
  "file_memory_read f offset count = do {
     (_, f) \<leftarrow> expect (Some (file_seek f offset));
     (bs, f) \<leftarrow> expect (Some (file_read f count));
     assert_that (length bs = count);
     Some (bs, f) }"

definition file_memory_write :: "os_file \<Rightarrow> nat \<Rightarrow> bytes \<Rightarrow> os_file option" where
  "file_memory_write f offset src = do {
     (_, f) \<leftarrow> expect (Some (file_seek f offset));
     (bytes_written, f) \<leftarrow> expect (Some (file_write f src));
     assert_that (bytes_written = length src);
     Some f }"

definition FileMemory :: "os_file memory_ops" where
  "FileMemory = \<lparr>size_op = file_memory_size, grow_op = file_memory_grow, read_op = file_memory_read, write_op = file_memory_write\<rparr>"

definition file_inv :: "os_file \<Rightarrow> bool" where
  "file_inv f \<longleftrightarrow> WASM_PAGE_SIZE dvd length (file_bytes f) \<and> length (file_bytes f) \<le> file_limit f \<and> file_limit f \<le> I64_MAX"

definition file_cap :: "os_file \<Rightarrow> nat" where
  "file_cap f = file_limit f div WASM_PAGE_SIZE"

lemma file_size_eq: "file_inv f \<Longrightarrow> file_memory_size f = vec_size (file_bytes f)"
  by (auto simp: file_memory_size_def file_inv_def file_len_def vec_size_def)

lemma file_read_eq:
  assumes "file_inv f" "off + n \<le> length (file_bytes f)"
  shows "file_memory_read f off n = Some (subrange (file_bytes f) off n, f\<lparr>file_pos := off + n\<rparr>)"
  using assms by (simp add: file_memory_read_def file_seek_def file_read_def file_inv_def expect_def)

lemma file_write_eq:
  assumes "file_inv f" "off + length bs \<le> length (file_bytes f)"
  shows "file_memory_write f off bs = Some (f\<lparr>file_bytes := overwrite (file_bytes f) off bs, file_pos := off + length bs\<rparr>)"
  using assms by (auto simp: file_memory_write_def file_seek_def file_write_def file_inv_def overwrite_def expect_def Let_def min_def)

lemma file_grow_eq:
  assumes "file_inv f" "length (file_bytes f) + n * WASM_PAGE_SIZE \<le> file_limit f"
  shows "file_memory_grow f n =
    Some (int (length (file_bytes f) div WASM_PAGE_SIZE), f\<lparr>file_bytes := file_bytes f @ replicate (n * WASM_PAGE_SIZE) 0\<rparr>)"
proof -
  let ?m = "file_bytes f"
  obtain q where q: "length ?m = WASM_PAGE_SIZE * q"
    using assms(1) by (auto simp: file_inv_def)
  then have "vec_resize ?m ((q + n) * WASM_PAGE_SIZE) 0 = ?m @ replicate (n * WASM_PAGE_SIZE) 0"
    by (simp add: vec_resize_def algebra_simps)
  moreover have "(q + n) * WASM_PAGE_SIZE \<le> file_limit f" "file_limit f \<le> I64_MAX"
    using assms q by (simp_all add: file_inv_def algebra_simps)
  ultimately show ?thesis
    using q by (simp add: file_memory_grow_def file_memory_size_def file_len_def file_set_len_def u64_add_def u64_mul_def expect_def algebra_simps)
qed

lemma file_grow_over:
  assumes "file_inv f" "file_cap f < length (file_bytes f) div WASM_PAGE_SIZE + n"
  shows "file_memory_grow f n = None"
proof -
  have "file_limit f < (length (file_bytes f) div WASM_PAGE_SIZE + n) * WASM_PAGE_SIZE"
    using assms(2) by (simp add: file_cap_def div_less_iff_less_mult)
  then show ?thesis
    using assms(1) by (simp add: file_memory_grow_def file_size_eq vec_size_def file_set_len_def u64_add_def u64_mul_def expect_def)
qed

interpretation fm: memory FileMemory file_inv file_bytes file_cap
proof unfold_locales
  fix f n
  assume f: "file_inv f" and le: "length (file_bytes f) div WASM_PAGE_SIZE + n \<le> file_cap f"
  then have "length (file_bytes f) + n * WASM_PAGE_SIZE \<le> file_limit f"
    by (auto simp: file_inv_def file_cap_def)
  with file_grow_eq[OF f this] f show "ok (grow_op FileMemory f n) (\<lambda>(r, s'). r = int (length (file_bytes f) div WASM_PAGE_SIZE) \<and>
      file_inv s' \<and> file_cap s' = file_cap f \<and> (\<exists>zs. length zs = n * WASM_PAGE_SIZE \<and> file_bytes s' = file_bytes f @ zs))"
    by (auto simp: FileMemory_def file_inv_def file_cap_def)
next
  fix f n r s'
  assume "file_inv f" "file_cap f < length (file_bytes f) div WASM_PAGE_SIZE + n" "grow_op FileMemory f n = Some (r, s')"
  then show "r = -1 \<and> file_inv s' \<and> file_bytes s' = file_bytes f \<and> file_cap s' = file_cap f"
    using file_grow_over by (simp add: FileMemory_def)
next
  fix f
  assume "file_inv f"
  then show "length (file_bytes f) \<le> file_cap f * WASM_PAGE_SIZE" "file_cap f \<le> MAX_PAGES"
    by (auto simp: file_inv_def file_cap_def MAX_PAGES_val)
qed (auto simp: FileMemory_def file_size_eq vec_size_def file_read_eq file_write_eq, auto simp: file_inv_def file_cap_def)


section \<open>Flat memories\<close>

text \<open>A flat memory fills the pages that it gets with zeros. Any sequence of calls on it answers what it answers on a vector.\<close>

datatype mem_cmd = Mem_size | Mem_grow nat | Mem_read nat nat | Mem_write nat bytes | Mem_put nat bytes

datatype mem_out = Pages nat | Grown int | Got bytes | Stored

fun mem_step :: "'s memory_ops \<Rightarrow> mem_cmd \<Rightarrow> 's \<Rightarrow> (mem_out \<times> 's) option" where
  "mem_step M Mem_size s = do { n \<leftarrow> size_op M s; Some (Pages n, s) }"
| "mem_step M (Mem_grow n) s = do { (r, s) \<leftarrow> grow_op M s n; Some (Grown r, s) }"
| "mem_step M (Mem_read off n) s = do { (bs, s) \<leftarrow> read_op M s off n; Some (Got bs, s) }"
| "mem_step M (Mem_write off bs) s = do { s \<leftarrow> write_op M s off bs; Some (Stored, s) }"
| "mem_step M (Mem_put off bs) s = do { s \<leftarrow> write_grow M s off bs; Some (Stored, s) }"

lemma vec_put:
  assumes v: "vec_inv m" and w: "write_grow VectorMemory m off bs = Some m'" and lt: "length m < off + length bs"
  defines "n \<equiv> (off + length bs - length m + 65535) div WASM_PAGE_SIZE"
  shows "off + length bs \<le> length m + n * WASM_PAGE_SIZE" "m' = overwrite (m @ replicate (n * WASM_PAGE_SIZE) 0) off bs"
proof -
  have lim: "off + length bs \<le> VEC_MAX_PAGES * WASM_PAGE_SIZE"
    using vm.write_grow_cases[OF v w] by (simp add: vec_cap_def)
  have le: "length m div WASM_PAGE_SIZE + n \<le> VEC_MAX_PAGES" and up: "off + length bs \<le> length m + n * WASM_PAGE_SIZE"
    using vm.needed_pages[OF v lt] lim by (simp_all add: n_def vec_cap_def)
  have "safe_write VectorMemory m off bs = do { (prev, s') \<leftarrow> grow_op VectorMemory m n;
     if prev = -1 then Some (Inl (GrowFailed (length m div WASM_PAGE_SIZE) n), s') else do { s \<leftarrow> write_op VectorMemory s' off bs; Some (Inr (), s) } }"
    unfolding n_def using lim by (intro vm.safe_write_growth[OF v lt]) (simp_all add: VEC_MAX_PAGES_val)
  moreover have "grow_op VectorMemory m n = Some (int (length m div WASM_PAGE_SIZE), m @ replicate (n * WASM_PAGE_SIZE) 0)"
    using vec_grow_fits[OF v le] by (simp add: VectorMemory_def)
  moreover have "write_op VectorMemory (m @ replicate (n * WASM_PAGE_SIZE) 0) off bs = Some (overwrite (m @ replicate (n * WASM_PAGE_SIZE) 0) off bs)"
    using up lim by (simp add: VectorMemory_def vec_write_def u64_add_def VEC_MAX_PAGES_val)
  ultimately show "m' = overwrite (m @ replicate (n * WASM_PAGE_SIZE) 0) off bs"
    using w by (simp add: write_grow_def expect_def)
  show "off + length bs \<le> length m + n * WASM_PAGE_SIZE"
    by (rule up)
qed

locale flat_memory = memory +
  assumes zero_law: "inv s \<Longrightarrow> grow_op M s n = Some (r, s') \<Longrightarrow> r \<noteq> -1 \<Longrightarrow> contents s' = contents s @ replicate (n * WASM_PAGE_SIZE) 0"
    and vec_law: "inv s \<Longrightarrow> cap s \<le> VEC_MAX_PAGES"
begin

lemma vec_contents: "inv s \<Longrightarrow> vec_inv (contents s)"
  using page_law size_cap_law vec_law by (fastforce simp: vec_inv_def)

lemma flat_grow:
  assumes s: "inv s" and le: "length (contents s) + n * WASM_PAGE_SIZE \<le> cap s * WASM_PAGE_SIZE"
  shows "ok (grow_op M s n) (\<lambda>(r, s'). r = int (length (contents s) div WASM_PAGE_SIZE) \<and> inv s' \<and> cap s' = cap s \<and>
    contents s' = contents s @ replicate (n * WASM_PAGE_SIZE) 0)"
proof -
  have "length (contents s) div WASM_PAGE_SIZE + n \<le> cap s"
    using le page_law[OF s] by auto
  from grow_law[OF s this] obtain s' where "grow_op M s n = Some (int (length (contents s) div WASM_PAGE_SIZE), s')" "inv s'" "cap s' = cap s"
    by (auto elim!: ok_obtain)
  then show ?thesis
    using zero_law[OF s] by simp
qed

lemma flat_put:
  assumes s: "inv s" and w: "write_grow VectorMemory (contents s) off bs = Some m'" and le: "length m' \<le> cap s * WASM_PAGE_SIZE"
  shows "ok (write_grow M s off bs) (\<lambda>s'. inv s' \<and> contents s' = m' \<and> cap s' = cap s)"
proof (cases "off + length bs \<le> length (contents s)")
  case True
  have "m' = overwrite (contents s) off bs"
    using w vm.safe_write_no_growth[OF vec_contents[OF s] True]
    by (auto simp: write_grow_def expect_def VectorMemory_def vec_write_def bind_eq_Some_conv u64_add_def split: if_splits)
  then show ?thesis
    using write_law[OF s True] by (auto simp: write_grow_def safe_write_no_growth[OF s True] expect_def elim!: ok_mono)
next
  case False
  then have lt: "length (contents s) < off + length bs"
    by simp
  define n where "n = (off + length bs - length (contents s) + 65535) div WASM_PAGE_SIZE"
  note v = vec_put[OF vec_contents[OF s] w lt, folded n_def]
  have len: "length (contents s) + n * WASM_PAGE_SIZE \<le> cap s * WASM_PAGE_SIZE"
    using v le by simp
  have lim: "off + length bs \<le> U64_MAX - 65535"
    using v(1) len cap_bytes[OF s] by linarith
  from flat_grow[OF s len] obtain s1 where g: "grow_op M s n = Some (int (length (contents s) div WASM_PAGE_SIZE), s1)" "inv s1" "cap s1 = cap s"
    "contents s1 = contents s @ replicate (n * WASM_PAGE_SIZE) 0"
    by (auto elim!: ok_obtain)
  have "safe_write M s off bs = do { s' \<leftarrow> write_op M s1 off bs; Some (Inr (), s') }"
    using safe_write_growth[OF s lt] lim g(1) by (simp add: n_def)
  then show ?thesis
    using write_law[OF g(2), of off bs] v g(3,4) by (auto simp: write_grow_def expect_def elim!: ok_mono)
qed

lemma flat_step:
  assumes s: "inv s" and m: "mem_step VectorMemory c (contents s) = Some (out, m')" and le: "length m' \<le> cap s * WASM_PAGE_SIZE" and out: "out \<noteq> Grown (-1)"
  shows "ok (mem_step M c s) (\<lambda>(out', s'). out' = out \<and> inv s' \<and> contents s' = m' \<and> cap s' = cap s)"
proof (cases c)
  case Mem_size
  then show ?thesis
    using m s size_law[OF s] by (auto simp: VectorMemory_def vec_size_def)
next
  case (Mem_grow n)
  have "length (contents s) div WASM_PAGE_SIZE + n \<le> VEC_MAX_PAGES"
    using m out Mem_grow vec_grow_over[of "contents s" n] by (auto simp: VectorMemory_def not_less[symmetric])
  with m Mem_grow vec_grow_fits[OF vec_contents[OF s]] have r: "out = Grown (int (length (contents s) div WASM_PAGE_SIZE))"
    "m' = contents s @ replicate (n * WASM_PAGE_SIZE) 0"
    by (auto simp: VectorMemory_def)
  show ?thesis
    using flat_grow[OF s, of n] le by (auto simp: Mem_grow r elim!: ok_mono)
next
  case (Mem_read off n)
  have "off + n \<le> length (contents s)" "out = Got (subrange (contents s) off n)" "m' = contents s"
    using m by (auto simp: Mem_read VectorMemory_def vec_read_def u64_add_def split: if_splits)
  then show ?thesis
    using read_law[OF s, of off n] by (auto simp: Mem_read elim!: ok_mono)
next
  case (Mem_write off bs)
  have "off + length bs \<le> length (contents s)" "out = Stored" "m' = overwrite (contents s) off bs"
    using m by (auto simp: Mem_write VectorMemory_def vec_write_def u64_add_def split: if_splits)
  then show ?thesis
    using write_law[OF s, of off bs] by (auto simp: Mem_write elim!: ok_mono)
next
  case (Mem_put off bs)
  have "write_grow VectorMemory (contents s) off bs = Some m'" "out = Stored"
    using m by (auto simp: Mem_put bind_eq_Some_conv)
  then show ?thesis
    using flat_put[OF s _ le] by (auto simp: Mem_put elim!: ok_mono)
qed

end

text \<open>The contents of a vector only grow.\<close>

lemma vec_step_grows:
  assumes v: "vec_inv m" and m: "mem_step VectorMemory c m = Some (out, m')"
  shows "length m \<le> length m'" "vec_inv m'"
proof -
  have "length m \<le> length m' \<and> vec_inv m'"
  proof (cases c)
    case (Mem_grow n)
    then obtain r where g: "grow_op VectorMemory m n = Some (r, m')"
      using m by (auto simp: bind_eq_Some_conv)
    show ?thesis
    proof (cases "length m div WASM_PAGE_SIZE + n \<le> vec_cap m")
      case True
      then show ?thesis
        using okD[OF vm.grow_law[OF v True] g] by auto
    next
      case False
      then show ?thesis
        using vm.grow_over_law[OF v _ g] v by simp
    qed
  next
    case (Mem_put off bs)
    then have "write_grow VectorMemory m off bs = Some m'"
      using m by (auto simp: bind_eq_Some_conv)
    then show ?thesis
      using vm.write_grow_cases[OF v] by (auto simp: wrote_def)
  qed (use v m in \<open>auto simp: VectorMemory_def vec_size_def vec_read_def vec_write_def vec_inv_def u64_add_def split: if_splits\<close>)
  then show "length m \<le> length m'" "vec_inv m'"
    by simp_all
qed

lemma vec_run_grows: "vec_inv m \<Longrightarrow> run (mem_step VectorMemory) cs m = Some (outs, m') \<Longrightarrow> length m \<le> length m'"
proof (induction cs arbitrary: m outs)
  case (Cons c cs)
  then obtain out m1 outs1 where 1: "mem_step VectorMemory c m = Some (out, m1)" "run (mem_step VectorMemory) cs m1 = Some (outs1, m')"
    by (auto simp: bind_eq_Some_conv)
  show ?case
    using vec_step_grows[OF Cons.prems(1) 1(1)] Cons.IH[OF _ 1(2)] by linarith
qed simp

context flat_memory
begin

lemma flat_run:
  assumes "inv s" "run (mem_step VectorMemory) cs (contents s) = Some (outs, m')" "length m' \<le> cap s * WASM_PAGE_SIZE" "Grown (-1) \<notin> set outs"
  shows "ok (run (mem_step M) cs s) (\<lambda>(outs', s'). outs' = outs \<and> inv s' \<and> contents s' = m')"
  using assms
proof (induction cs arbitrary: s outs)
  case (Cons c cs)
  then obtain out m1 outs1 where 1: "mem_step VectorMemory c (contents s) = Some (out, m1)" "run (mem_step VectorMemory) cs m1 = Some (outs1, m')"
    "outs = out # outs1"
    by (auto simp: bind_eq_Some_conv)
  have "length m1 \<le> cap s * WASM_PAGE_SIZE"
    using vec_run_grows[OF vec_step_grows(2)[OF vec_contents[OF Cons.prems(1)] 1(1)] 1(2)] Cons.prems(3) by linarith
  then obtain s1 where s1: "mem_step M c s = Some (out, s1)" "inv s1" "contents s1 = m1" "cap s1 = cap s"
    using flat_step[OF Cons.prems(1) 1(1)] Cons.prems(4) 1(3) by (auto elim!: ok_obtain)
  have "ok (run (mem_step M) cs s1) (\<lambda>(outs', s'). outs' = outs1 \<and> inv s' \<and> contents s' = m')"
    using Cons.IH[OF s1(2)] 1(2,3) Cons.prems(3,4) s1(3,4) by simp
  then show ?case
    using s1(1) 1(3) by (auto elim!: ok_mono)
qed simp

end

interpretation ffm: flat_memory FileMemory file_inv file_bytes file_cap
proof unfold_locales
  fix f n r s'
  assume f: "file_inv f" and g: "grow_op FileMemory f n = Some (r, s')"
  then have "length (file_bytes f) div WASM_PAGE_SIZE + n \<le> file_cap f"
    using file_grow_over[of f n] by (force simp: FileMemory_def)
  then have "length (file_bytes f) + n * WASM_PAGE_SIZE \<le> file_limit f"
    using f by (auto simp: file_inv_def file_cap_def)
  then show "file_bytes s' = file_bytes f @ replicate (n * WASM_PAGE_SIZE) 0"
    using file_grow_eq[OF f] g by (auto simp: FileMemory_def)
qed (auto simp: file_inv_def file_cap_def VEC_MAX_PAGES_val)

section \<open>The stable memory of a canister\<close>

text \<open>
  The functions that the system interface provides are parameters. Pointers into the memory of the program stand for the bytes that are there; a trap
  is \<open>None\<close>. What the interface documents: the size in pages, of a memory with 64-bit addresses; growth that is tried, and either gives pages of zeros and
  returns the size before, or returns -1 and changes nothing; access to what is in range, and a trap otherwise. Nothing is said about when growth succeeds.
\<close>

record 's ic0_api =
  stable64_size :: "'s \<Rightarrow> nat"
  stable64_grow :: "'s \<Rightarrow> nat \<Rightarrow> int \<times> 's"
  stable64_read :: "'s \<Rightarrow> nat \<Rightarrow> nat \<Rightarrow> bytes option"
  stable64_write :: "'s \<Rightarrow> nat \<Rightarrow> bytes \<Rightarrow> 's option"

definition ic0_size :: "'s ic0_api \<Rightarrow> 's \<Rightarrow> nat option" where
  "ic0_size api s = Some (stable64_size api s)"

definition ic0_grow :: "'s ic0_api \<Rightarrow> 's \<Rightarrow> nat \<Rightarrow> (int \<times> 's) option" where
  "ic0_grow api s pages = Some (stable64_grow api s pages)"

definition ic0_read :: "'s ic0_api \<Rightarrow> 's \<Rightarrow> nat \<Rightarrow> nat \<Rightarrow> (bytes \<times> 's) option" where
  "ic0_read api s offset count = do { bs \<leftarrow> stable64_read api s offset count; Some (bs, s) }"

definition ic0_write :: "'s ic0_api \<Rightarrow> 's \<Rightarrow> nat \<Rightarrow> bytes \<Rightarrow> 's option" where
  "ic0_write api s offset src = stable64_write api s offset src"

definition Ic0StableMemory :: "'s ic0_api \<Rightarrow> 's memory_ops" where
  "Ic0StableMemory api = \<lparr>size_op = ic0_size api, grow_op = ic0_grow api, read_op = ic0_read api, write_op = ic0_write api\<rparr>"

definition ic0_documented :: "'s ic0_api \<Rightarrow> ('s \<Rightarrow> bool) \<Rightarrow> ('s \<Rightarrow> bytes) \<Rightarrow> bool" where
  "ic0_documented api valid contents \<longleftrightarrow> (\<forall>s. valid s \<longrightarrow>
     length (contents s) = stable64_size api s * WASM_PAGE_SIZE \<and> stable64_size api s \<le> MAX_PAGES \<and>
     (\<forall>n. case stable64_grow api s n of (r, s') \<Rightarrow> valid s' \<and>
       (r = int (stable64_size api s) \<and> contents s' = contents s @ replicate (n * WASM_PAGE_SIZE) 0 \<or> r = -1 \<and> contents s' = contents s)) \<and>
     (\<forall>off n. stable64_read api s off n = (if off + n \<le> length (contents s) then Some (subrange (contents s) off n) else None)) \<and>
     (\<forall>off bs. case stable64_write api s off bs of
         Some s' \<Rightarrow> off + length bs \<le> length (contents s) \<and> valid s' \<and> contents s' = overwrite (contents s) off bs
       | None \<Rightarrow> length (contents s) < off + length bs))"

text \<open>
  What \<open>safe_write\<close> is to do to the contents: as many pages of zeros as the bytes need, and then the bytes. A sequence of writes, in which each one is done or reports
  the failed growth and does nothing.
\<close>

definition missing_pages :: "bytes \<Rightarrow> nat \<Rightarrow> bytes \<Rightarrow> nat" where
  "missing_pages c off bs = (off + length bs - length c + 65535) div WASM_PAGE_SIZE"

definition put_bytes :: "bytes \<Rightarrow> nat \<Rightarrow> bytes \<Rightarrow> bytes" where
  "put_bytes c off bs =
     overwrite (if off + length bs \<le> length c then c else c @ replicate (missing_pages c off bs * WASM_PAGE_SIZE) 0) off bs"

fun write_all :: "'s memory_ops \<Rightarrow> 's \<Rightarrow> (nat \<times> bytes) list \<Rightarrow> ((grow_failed + unit) list \<times> 's) option" where
  "write_all M s [] = Some ([], s)"
| "write_all M s ((off, bs) # ws) = do { (r, s) \<leftarrow> safe_write M s off bs; (rs, s) \<leftarrow> write_all M s ws; Some (r # rs, s) }"

fun written_as :: "bytes \<Rightarrow> (nat \<times> bytes) list \<Rightarrow> (grow_failed + unit) list \<Rightarrow> bytes \<Rightarrow> bool" where
  "written_as c [] [] c' \<longleftrightarrow> c' = c"
| "written_as c ((off, bs) # ws) (r # rs) c' \<longleftrightarrow>
     (case r of
        Inr _ \<Rightarrow> written_as (put_bytes c off bs) ws rs c'
      | Inl e \<Rightarrow> length c < off + length bs \<and> e = GrowFailed (length c div WASM_PAGE_SIZE) (missing_pages c off bs) \<and> written_as c ws rs c')"
| "written_as c _ _ c' \<longleftrightarrow> False"

text \<open>The pages that are asked for are enough, and one page less would not be.\<close>

lemma missing_pages_least:
  assumes "length c < off + length bs"
  shows "off + length bs \<le> length c + missing_pages c off bs * WASM_PAGE_SIZE" "length c + missing_pages c off bs * WASM_PAGE_SIZE < off + length bs + WASM_PAGE_SIZE"
  using div_ceil_least[of WASM_PAGE_SIZE "off + length bs - length c"] assms by (simp_all add: missing_pages_def)

lemma ic0_safe_write:
  assumes d: "ic0_documented api valid contents" and s: "valid s" and lim: "off + length bs + 65535 \<le> U64_MAX"
  shows "ok (safe_write (Ic0StableMemory api) s off bs) (\<lambda>(r, s'). valid s' \<and> written_as (contents s) [(off, bs)] [r] (contents s'))"
proof -
  let ?c = "contents s" and ?n = "missing_pages (contents s) off bs"
  have c: "length ?c = stable64_size api s * WASM_PAGE_SIZE" "stable64_size api s \<le> MAX_PAGES"
    using d s by (simp_all add: ic0_documented_def)
  have w: "ok (stable64_write api s' off bs) (\<lambda>s''. valid s'' \<and> contents s'' = overwrite (contents s') off bs)"
    if "valid s'" "off + length bs \<le> length (contents s')" for s'
  proof -
    have "case stable64_write api s' off bs of
         Some s'' \<Rightarrow> off + length bs \<le> length (contents s') \<and> valid s'' \<and> contents s'' = overwrite (contents s') off bs
       | None \<Rightarrow> length (contents s') < off + length bs"
      using d that(1) by (simp add: ic0_documented_def)
    then show ?thesis
      using that(2) by (cases "stable64_write api s' off bs") simp_all
  qed
  have size: "u64_add off (length bs) = Some (off + length bs)" "u64_mul (stable64_size api s) WASM_PAGE_SIZE = Some (length ?c)"
    using lim c by (simp_all add: u64_add_def u64_mul_def MAX_PAGES_val)
  show ?thesis
  proof (cases "off + length bs \<le> length ?c")
    case True
    then show ?thesis
      using w[OF s True] size by (auto simp: safe_write_def Ic0StableMemory_def ic0_size_def ic0_write_def put_bytes_def elim!: ok_mono)
  next
    case False
    then have lt: "length ?c < off + length bs"
      by simp
    obtain r s1 where g: "stable64_grow api s ?n = (r, s1)"
      by fastforce
    have "case stable64_grow api s ?n of (r, s') \<Rightarrow> valid s' \<and>
        (r = int (stable64_size api s) \<and> contents s' = ?c @ replicate (?n * WASM_PAGE_SIZE) 0 \<or> r = -1 \<and> contents s' = ?c)"
      using d s by (simp add: ic0_documented_def)
    with g have g1: "valid s1" "r = int (stable64_size api s) \<and> contents s1 = ?c @ replicate (?n * WASM_PAGE_SIZE) 0 \<or> r = -1 \<and> contents s1 = ?c"
      by simp_all
    have "u64_add (off + length bs - length ?c) 65535 = Some (off + length bs - length ?c + 65535)"
      using lim by (simp add: u64_add_def)
    then have eq: "safe_write (Ic0StableMemory api) s off bs =
      (if r = -1 then Some (Inl (GrowFailed (stable64_size api s) ?n), s1) else do { s' \<leftarrow> stable64_write api s1 off bs; Some (Inr (), s') })"
      using lt size g by (simp add: safe_write_def Ic0StableMemory_def ic0_size_def ic0_grow_def ic0_write_def missing_pages_def)
    show ?thesis
    proof (cases "r = -1")
      case True
      then show ?thesis
        using g1 lt c(1) by (simp add: eq)
    next
      case r: False
      then have c1: "contents s1 = ?c @ replicate (?n * WASM_PAGE_SIZE) 0"
        using g1(2) by simp
      then have "off + length bs \<le> length (contents s1)"
        using missing_pages_least(1)[OF lt] by simp
      from w[OF g1(1) this] show ?thesis
        using r False by (auto simp: eq put_bytes_def c1 elim!: ok_mono)
    qed
  qed
qed

section \<open>Properties\<close>

text \<open>
  C31. A file is as good as a vector: any sequence of calls that a vector with the contents of the file answers without a failed growth, and that ends within the limit of the
  file system, runs on the file memory with the same answers and leaves the same bytes.
\<close>

theorem file_memory_equals_vector:
  assumes "file_inv f" "run (mem_step VectorMemory) cs (file_bytes f) = Some (outs, m')" "Grown (-1) \<notin> set outs" "length m' \<le> file_cap f * WASM_PAGE_SIZE"
  shows "ok (run (mem_step FileMemory) cs (file_memory_new f)) (\<lambda>(outs', f'). outs' = outs \<and> file_inv f' \<and> file_bytes f' = m')"
  using ffm.flat_run[OF assms(1,2,4,3)] by (simp add: file_memory_new_def)

definition example_calls :: "mem_cmd list" where
  "example_calls = [Mem_put 3 [7, 8], Mem_size, Mem_read 3 2]"

lemma example_calls_vec:
  "run (mem_step VectorMemory) example_calls [] = Some ([Stored, Pages 1, Got [7, 8]], overwrite (replicate 65536 0) 3 [7, 8])"
proof -
  have "write_grow VectorMemory [] 3 [7, 8] = Some (overwrite (replicate 65536 0) 3 [7, 8])"
    by (simp add: write_grow_def safe_write_def VectorMemory_def vec_size_def vec_grow_def vec_write_def vec_resize_def u64_add_def u64_mul_def expect_def VEC_MAX_PAGES_val)
  moreover have "subrange (overwrite (replicate 65536 (0::8 word)) 3 [7, 8]) 3 2 = [7, 8]"
    using subrange_overwrite_same[of 3 "[7, 8] :: bytes" "replicate 65536 0"] by (simp add: numeral_2_eq_2)
  ultimately show ?thesis
    by (simp add: example_calls_def) (simp add: VectorMemory_def vec_size_def vec_read_def u64_add_def)
qed

theorem file_memory_equals_vector_witness:
  "ok (run (mem_step FileMemory) example_calls (file_memory_new \<lparr>file_bytes = [], file_pos = 0, file_limit = 100000\<rparr>)) (\<lambda>(outs, f).
     outs = [Stored, Pages 1, Got [7, 8]] \<and> file_inv f \<and> file_bytes f = overwrite (replicate 65536 0) 3 [7, 8])"
  by (rule file_memory_equals_vector) (simp_all add: example_calls_vec file_inv_def file_cap_def)

text \<open>
  C38. A write behind the end of a file memory does not panic, against the documentation of the trait: the file gets longer, and unless it ends on a page again,
  every later call of \<open>size\<close> and \<open>grow\<close> panics.
\<close>

theorem file_write_beyond_end:
  assumes "file_inv f" "length (file_bytes f) < off + length bs" "off + length bs \<le> file_limit f" "bs \<noteq> []"
  shows "ok (file_memory_write f off bs) (\<lambda>f'. length (file_bytes f') = off + length bs \<and>
    (\<not> WASM_PAGE_SIZE dvd off + length bs \<longrightarrow> file_memory_size f' = None \<and> file_memory_grow f' n = None))"
proof -
  let ?m = "file_bytes f"
  let ?f = "f\<lparr>file_bytes := take off (?m @ replicate (off - length ?m) 0) @ bs @ drop (off + length bs) ?m, file_pos := off + length bs\<rparr>"
  have "0 < length bs"
    using assms(4) by simp
  then have "off \<le> I64_MAX" "off < file_limit f" "length bs \<le> file_limit f - off"
    using assms(1,3) unfolding file_inv_def by linarith+
  then have "file_memory_write f off bs = Some ?f"
    using assms(4) by (simp add: file_memory_write_def file_seek_def file_write_def expect_def min_def Let_def)
  moreover have len: "length (file_bytes ?f) = off + length bs"
    using assms(2) by simp
  moreover have "file_memory_size ?f = None" if "\<not> WASM_PAGE_SIZE dvd off + length bs"
    unfolding file_memory_size_def file_len_def len using that by (simp add: assert_that_def dvd_eq_mod_eq_0)
  ultimately show ?thesis
    by (simp add: file_memory_grow_def)
qed

theorem file_write_beyond_end_witness:
  "ok (file_memory_write \<lparr>file_bytes = [], file_pos = 0, file_limit = 100000\<rparr> 5 [1]) (\<lambda>f'. length (file_bytes f') = 6 \<and>
    file_memory_size f' = None \<and> file_memory_grow f' 1 = None)"
  using file_write_beyond_end[of "\<lparr>file_bytes = [], file_pos = 0, file_limit = 100000\<rparr>" 5 "[1]" 1] by (simp add: file_inv_def)

text \<open>
  C32. Writing to the stable memory of a canister, whose growth can fail at any time: when the system interface behaves as documented, every write of a sequence returns. Each one either is
  done, with the memory grown by no more pages than its bytes need and nothing else changed, or reports the size and the pages that it asked for and
  leaves the memory as it was; later writes go on from there.
\<close>

theorem ic0_writes_all_or_nothing:
  assumes "ic0_documented api valid contents" "valid s" "\<forall>(off, bs) \<in> set ws. off + length bs + 65535 \<le> U64_MAX"
  shows "ok (write_all (Ic0StableMemory api) s ws) (\<lambda>(rs, s'). valid s' \<and> written_as (contents s) ws rs (contents s'))"
  using assms(2,3)
proof (induction ws arbitrary: s)
  case (Cons w ws)
  obtain off bs where w: "w = (off, bs)"
    by fastforce
  from ic0_safe_write[OF assms(1) Cons.prems(1), of off bs] Cons.prems(2) obtain r s1 where
    1: "safe_write (Ic0StableMemory api) s off bs = Some (r, s1)" "valid s1" "written_as (contents s) [(off, bs)] [r] (contents s1)"
    by (auto simp: w elim!: ok_obtain)
  have "ok (write_all (Ic0StableMemory api) s1 ws) (\<lambda>(rs, s'). valid s' \<and> written_as (contents s1) ws rs (contents s'))"
    using Cons.IH[OF 1(2)] Cons.prems(2) by simp
  then show ?case
    using 1(1,3) by (auto simp: w split: sum.splits elim!: ok_mono)
qed simp

text \<open>An interface whose memory never has more than one page.\<close>

definition example_api :: "bytes ic0_api" where
  "example_api = \<lparr>stable64_size = \<lambda>m. length m div WASM_PAGE_SIZE,
     stable64_grow = \<lambda>m n. if length m div WASM_PAGE_SIZE + n \<le> 1 then (int (length m div WASM_PAGE_SIZE), m @ replicate (n * WASM_PAGE_SIZE) 0) else (-1, m),
     stable64_read = \<lambda>m off n. if off + n \<le> length m then Some (subrange m off n) else None,
     stable64_write = \<lambda>m off bs. if off + length bs \<le> length m then Some (overwrite m off bs) else None\<rparr>"

theorem ic0_writes_all_or_nothing_witness:
  "ok (write_all (Ic0StableMemory example_api) [] [(3, [7]), (70000, [1]), (5, [2])]) (\<lambda>(rs, m).
     rs = [Inr (), Inl (GrowFailed 1 1), Inr ()] \<and> m = overwrite (overwrite (replicate 65536 0) 3 [7]) 5 [2])"
proof -
  let ?ws = "[(3, [7]), (70000, [1]), (5, [2])] :: (nat \<times> bytes) list"
  have "ic0_documented example_api (\<lambda>m. WASM_PAGE_SIZE dvd length m \<and> length m \<le> WASM_PAGE_SIZE) (\<lambda>m. m)"
    by (auto simp: ic0_documented_def example_api_def MAX_PAGES_val)
  from ic0_writes_all_or_nothing[OF this, of "[]" ?ws]
  have "ok (write_all (Ic0StableMemory example_api) [] ?ws) (\<lambda>(rs, m). written_as [] ?ws rs m)"
    by (auto elim!: ok_mono)
  moreover have "ok (write_all (Ic0StableMemory example_api) [] ?ws) (\<lambda>(rs, m). rs = [Inr (), Inl (GrowFailed 1 1), Inr ()])"
    by (simp add: safe_write_def Ic0StableMemory_def ic0_size_def ic0_grow_def ic0_write_def example_api_def u64_add_def u64_mul_def)
  ultimately show ?thesis
    by (auto simp: put_bytes_def missing_pages_def elim!: ok_obtain)
qed

end
