(* ===== verification/Min_Heap.thy ===== *)
theory Min_Heap
  imports Base_Vec "HOL-Library.Multiset"
begin

text \<open>
  The binary min heap of \<open>src/src/min_heap.rs\<close> on top of \<open>BaseVec\<close>.

  The sifting loops move a hole instead of swapping; they are first studied on lists
  (\<open>sift_up\<close>, \<open>sift_down\<close>: the reference definitions, with the heap invariant the code's
  \<open>check_invariant\<close> tests and the multiset of items), in the locale \<open>weak_order\<close> of a comparison
  that is a total preorder. The locale \<open>stable_heap\<close> joins it with the contract of the vector and
  proves that the operations on memory implement the list versions.
\<close>

section \<open>The code\<close>

definition HEAP_MAGIC :: bytes where
  "HEAP_MAGIC = [83, 77, 72]"

type_synonym 'a partial_cmp = "'a \<Rightarrow> 'a \<Rightarrow> ordering option"

definition is_less :: "'a partial_cmp \<Rightarrow> 'a \<Rightarrow> 'a \<Rightarrow> bool" where
  "is_less pcmp x y \<longleftrightarrow> pcmp x y = Some Less"

definition mh_new :: "'a storable \<Rightarrow> 's memory_ops \<Rightarrow> 's \<Rightarrow> 's option" where
  "mh_new T M s = do { (_, s) \<leftarrow> expect (bv_new T M s HEAP_MAGIC); Some s }"

definition mh_init :: "'a storable \<Rightarrow> 's memory_ops \<Rightarrow> 's \<Rightarrow> 's option" where
  "mh_init T M s = do { (_, s) \<leftarrow> expect (bv_init T M s HEAP_MAGIC); Some s }"

definition mh_len :: "'s memory_ops \<Rightarrow> 's \<Rightarrow> (nat \<times> 's) option" where
  "mh_len M s = bv_len M s"

definition mh_clear :: "'s memory_ops \<Rightarrow> 's \<Rightarrow> 's option" where
  "mh_clear M s = bv_clear M s"

definition mh_is_empty :: "'s memory_ops \<Rightarrow> 's \<Rightarrow> (bool \<times> 's) option" where
  "mh_is_empty M s = bv_is_empty M s"

definition mh_peek :: "'a storable \<Rightarrow> 's memory_ops \<Rightarrow> 's \<Rightarrow> ('a option \<times> 's) option" where
  "mh_peek T M s = bv_get T M s 0"

definition mh_iter :: "'s memory_ops \<Rightarrow> 's \<Rightarrow> (vec_iter \<times> 's) option" where
  "mh_iter M s = bv_iter M s"

definition mh_into_memory :: "'s \<Rightarrow> 's" where
  "mh_into_memory s = s"

text \<open>\<open>self.0.get(i).unwrap()\<close>\<close>

definition get_unwrap :: "'a storable \<Rightarrow> 's memory_ops \<Rightarrow> 's \<Rightarrow> nat \<Rightarrow> ('a \<times> 's) option" where
  "get_unwrap T M s i = do {
     (r, s) \<leftarrow> bv_get T M s i;
     x \<leftarrow> r;
     Some (x, s) }"

text \<open>The loop of \<open>check_invariant\<close> over the indices that are left; an error names the two indices.\<close>

fun mh_check_loop ::
  "'a partial_cmp \<Rightarrow> 'a storable \<Rightarrow> 's memory_ops \<Rightarrow> 's \<Rightarrow> nat list \<Rightarrow> ((nat \<times> nat + unit) \<times> 's) option" where
  "mh_check_loop pcmp T M s [] = Some (Inr (), s)"
| "mh_check_loop pcmp T M s (i # is) = do {
     let p = (i - 1) div 2;
     (item, s) \<leftarrow> get_unwrap T M s i;
     (parent, s) \<leftarrow> get_unwrap T M s p;
     if is_less pcmp item parent then Some (Inl (i, p), s)
     else mh_check_loop pcmp T M s is }"

definition mh_check_invariant ::
  "'a partial_cmp \<Rightarrow> 'a storable \<Rightarrow> 's memory_ops \<Rightarrow> 's \<Rightarrow> ((nat \<times> nat + unit) \<times> 's) option" where
  "mh_check_invariant pcmp T M s = do {
     (n, s) \<leftarrow> mh_len M s;
     mh_check_loop pcmp T M s [1..<n] }"

text \<open>The loop returns the position of the hole and the flag \<open>swapped\<close>.\<close>

function mh_bubble_up_loop ::
  "'a partial_cmp \<Rightarrow> 'a storable \<Rightarrow> 's memory_ops \<Rightarrow> 's \<Rightarrow> nat \<Rightarrow> 'a \<Rightarrow> bool \<Rightarrow> (nat \<times> bool \<times> 's) option" where
  "mh_bubble_up_loop pcmp T M s i item swapped =
     (if i > 0 then do {
        let p = (i - 1) div 2;
        (parent, s) \<leftarrow> get_unwrap T M s p;
        if is_less pcmp item parent then do {
          s \<leftarrow> bv_set T M s i parent;
          mh_bubble_up_loop pcmp T M s p item True
        } else Some (i, swapped, s)
      } else Some (i, swapped, s))"
  by pat_completeness auto
termination
  by (relation "measure (\<lambda>(_, _, _, _, i, _). i)") auto

definition mh_bubble_up ::
  "'a partial_cmp \<Rightarrow> 'a storable \<Rightarrow> 's memory_ops \<Rightarrow> 's \<Rightarrow> nat \<Rightarrow> 'a \<Rightarrow> 's option" where
  "mh_bubble_up pcmp T M s i item = do {
     (i, swapped, s) \<leftarrow> mh_bubble_up_loop pcmp T M s i item False;
     if swapped then bv_set T M s i item else Some s }"

function mh_bubble_down_loop ::
  "'a partial_cmp \<Rightarrow> 'a storable \<Rightarrow> 's memory_ops \<Rightarrow> 's \<Rightarrow> nat \<Rightarrow> nat \<Rightarrow> 'a \<Rightarrow> bool \<Rightarrow> (nat \<times> bool \<times> 's) option" where
  "mh_bubble_down_loop pcmp T M s i n item swapped = do {
     i2 \<leftarrow> u64_mul i 2;
     l \<leftarrow> u64_add i2 1;
     r \<leftarrow> u64_add l 1;
     if n \<le> l then Some (i, swapped, s)
     else if n \<le> r then do {
       (left, s) \<leftarrow> get_unwrap T M s l;
       if is_less pcmp left item then do {
         s \<leftarrow> bv_set T M s i left;
         mh_bubble_down_loop pcmp T M s l n item True
       } else Some (i, swapped, s)
     } else do {
       (left, s) \<leftarrow> get_unwrap T M s l;
       (right, s) \<leftarrow> get_unwrap T M s r;
       let (min_index, min_elem) = (if is_less pcmp left right then (l, left) else (r, right));
       if is_less pcmp min_elem item then do {
         s \<leftarrow> bv_set T M s i min_elem;
         mh_bubble_down_loop pcmp T M s min_index n item True
       } else Some (i, swapped, s) } }"
  by pat_completeness auto
termination
  by (relation "measure (\<lambda>(_, _, _, _, i, n, _). n - i)")
    (auto simp: u64_mul_def u64_add_def split: if_splits)

definition mh_bubble_down ::
  "'a partial_cmp \<Rightarrow> 'a storable \<Rightarrow> 's memory_ops \<Rightarrow> 's \<Rightarrow> nat \<Rightarrow> nat \<Rightarrow> 'a \<Rightarrow> 's option" where
  "mh_bubble_down pcmp T M s i n item = do {
     (i, swapped, s) \<leftarrow> mh_bubble_down_loop pcmp T M s i n item False;
     if swapped then bv_set T M s i item else Some s }"

declare mh_bubble_up_loop.simps [simp del] mh_bubble_down_loop.simps [simp del]

text \<open>\<open>debug_assert_eq!(Ok(()), self.check_invariant())\<close>\<close>

definition mh_debug_assert :: "'a partial_cmp \<Rightarrow> 'a storable \<Rightarrow> 's memory_ops \<Rightarrow> 's \<Rightarrow> 's option" where
  "mh_debug_assert pcmp T M s = do {
     (r, s) \<leftarrow> mh_check_invariant pcmp T M s;
     assert_that (r = Inr ());
     Some s }"

definition mh_push :: "'a partial_cmp \<Rightarrow> 'a storable \<Rightarrow> 's memory_ops \<Rightarrow> 's \<Rightarrow> 'a \<Rightarrow> 's option" where
  "mh_push pcmp T M s item = do {
     (_, s) \<leftarrow> expect (bv_push T M s item);
     (len, s) \<leftarrow> bv_len M s;
     i \<leftarrow> u64_sub len 1;
     s \<leftarrow> mh_bubble_up pcmp T M s i item;
     mh_debug_assert pcmp T M s }"

definition mh_pop :: "'a partial_cmp \<Rightarrow> 'a storable \<Rightarrow> 's memory_ops \<Rightarrow> 's \<Rightarrow> ('a option \<times> 's) option" where
  "mh_pop pcmp T M s = do {
     (n, s) \<leftarrow> mh_len M s;
     if n = 0 then Some (None, s)
     else if n = 1 then bv_pop T M s
     else do {
       (smallest, s) \<leftarrow> get_unwrap T M s 0;
       (r, s) \<leftarrow> bv_pop T M s;
       last_item \<leftarrow> r;
       s \<leftarrow> bv_set T M s 0 last_item;
       s \<leftarrow> mh_bubble_down pcmp T M s 0 (n - 1) last_item;
       s \<leftarrow> mh_debug_assert pcmp T M s;
       Some (Some smallest, s) } }"

text \<open>Sequences of operations: pushing a list of items, popping \<open>n\<close> times.\<close>

fun mh_push_all :: "'a partial_cmp \<Rightarrow> 'a storable \<Rightarrow> 's memory_ops \<Rightarrow> 's \<Rightarrow> 'a list \<Rightarrow> 's option" where
  "mh_push_all pcmp T M s [] = Some s"
| "mh_push_all pcmp T M s (x # xs) = do { s \<leftarrow> mh_push pcmp T M s x; mh_push_all pcmp T M s xs }"

fun mh_drain :: "'a partial_cmp \<Rightarrow> 'a storable \<Rightarrow> 's memory_ops \<Rightarrow> 's \<Rightarrow> nat \<Rightarrow> ('a list \<times> 's) option" where
  "mh_drain pcmp T M s 0 = Some ([], s)"
| "mh_drain pcmp T M s (Suc n) = do {
     (r, s) \<leftarrow> mh_pop pcmp T M s;
     x \<leftarrow> r;
     (xs, s) \<leftarrow> mh_drain pcmp T M s n;
     Some (x # xs, s) }"

section \<open>Reference: sifting in a list\<close>

abbreviation parent_of :: "nat \<Rightarrow> nat" where
  "parent_of k \<equiv> (k - 1) div 2"

definition heap_inv :: "('a \<Rightarrow> 'a \<Rightarrow> bool) \<Rightarrow> 'a list \<Rightarrow> bool" where
  "heap_inv lt xs \<longleftrightarrow> (\<forall>k < length xs. 0 < k \<longrightarrow> \<not> lt (xs ! k) (xs ! parent_of k))"

text \<open>The item that is sifted ends in the hole.\<close>

function sift_up :: "('a \<Rightarrow> 'a \<Rightarrow> bool) \<Rightarrow> 'a list \<Rightarrow> nat \<Rightarrow> 'a \<Rightarrow> 'a list" where
  "sift_up lt xs i x =
     (if 0 < i \<and> lt x (xs ! parent_of i)
      then sift_up lt (xs[i := xs ! parent_of i]) (parent_of i) x
      else xs[i := x])"
  by pat_completeness auto
termination
  by (relation "measure (\<lambda>(_, _, i, _). i)") auto

text \<open>The child that the loop of \<open>bubble_down\<close> compares with the item.\<close>

definition min_child :: "('a \<Rightarrow> 'a \<Rightarrow> bool) \<Rightarrow> 'a list \<Rightarrow> nat \<Rightarrow> nat" where
  "min_child lt xs i =
     (let l = 2 * i + 1 in
      if l + 1 < length xs \<and> \<not> lt (xs ! l) (xs ! (l + 1)) then l + 1 else l)"

function sift_down :: "('a \<Rightarrow> 'a \<Rightarrow> bool) \<Rightarrow> 'a list \<Rightarrow> nat \<Rightarrow> 'a \<Rightarrow> 'a list" where
  "sift_down lt xs i x =
     (let m = min_child lt xs i in
      if 2 * i + 1 < length xs \<and> lt (xs ! m) x
      then sift_down lt (xs[i := xs ! m]) m x
      else xs[i := x])"
  by pat_completeness auto
termination
  by (relation "measure (\<lambda>(_, xs, i, _). length xs - i)") (auto simp: min_child_def Let_def)

declare sift_up.simps [simp del] sift_down.simps [simp del]

lemma length_sift_up [simp]: "length (sift_up lt xs i x) = length xs"
  by (induction lt xs i x rule: sift_up.induct) (subst sift_up.simps, simp)

lemma length_sift_down [simp]: "length (sift_down lt xs i x) = length xs"
  by (induction lt xs i x rule: sift_down.induct) (subst sift_down.simps, simp add: Let_def)

lemma min_child_cases: "min_child lt xs i = 2 * i + 1 \<or> min_child lt xs i = 2 * i + 2"
  by (simp add: min_child_def Let_def)

lemma min_child_range: "2 * i + 1 < length xs \<Longrightarrow> min_child lt xs i < length xs"
  by (simp add: min_child_def Let_def)

lemma parent_min_child [simp]: "parent_of (min_child lt xs i) = i"
  using min_child_cases[of lt xs i] by auto

lemma parent_less: "0 < k \<Longrightarrow> parent_of k < k"
  by simp

lemma mset_move:
  assumes "i < length xs" "j < length xs" "i \<noteq> j"
  shows "mset (xs[i := xs ! j, j := x]) = mset (xs[i := x])"
proof -
  have "xs[i := xs ! j, j := x] = (xs[i := x])[j := xs[i := x] ! i, i := xs[i := x] ! j]"
    using assms by (intro nth_equalityI) (auto simp: nth_list_update)
  with mset_swap[of i "xs[i := x]" j] assms show ?thesis
    by (simp del: list_update_overwrite)
qed

lemma mset_sift_up: "i < length xs \<Longrightarrow> mset (sift_up lt xs i x) = mset (xs[i := x])"
proof (induction lt xs i x rule: sift_up.induct)
  case (1 lt xs i x)
  let ?p = "parent_of i"
  show ?case
  proof (cases "0 < i \<and> lt x (xs ! ?p)")
    case True
    then have "mset (sift_up lt xs i x) = mset (xs[i := xs ! ?p, ?p := x])"
      using 1 by (subst sift_up.simps) simp
    with True 1(2) mset_move[of i xs ?p x] parent_less[of i] show ?thesis
      by auto
  next
    case False
    then show ?thesis
      by (subst sift_up.simps) auto
  qed
qed

lemma mset_sift_down: "i < length xs \<Longrightarrow> mset (sift_down lt xs i x) = mset (xs[i := x])"
proof (induction lt xs i x rule: sift_down.induct)
  case (1 lt xs i x)
  let ?m = "min_child lt xs i"
  show ?case
  proof (cases "2 * i + 1 < length xs \<and> lt (xs ! ?m) x")
    case True
    then have "?m < length xs" "?m \<noteq> i"
      using min_child_range[of i xs lt] min_child_cases[of lt xs i] by auto
    with True 1 mset_move[of i xs ?m x] show ?thesis
      by (subst sift_down.simps) (simp add: Let_def)
  next
    case False
    then show ?thesis
      by (subst sift_down.simps) (auto simp: Let_def)
  qed
qed

text \<open>
  A comparison whose negation is a total preorder: \<open>PartialOrd\<close> of a type whose values are all
  comparable.
\<close>

locale weak_order =
  fixes lt :: "'a \<Rightarrow> 'a \<Rightarrow> bool"
  assumes less_asym: "lt x y \<Longrightarrow> \<not> lt y x"
    and not_less_trans: "\<not> lt y x \<Longrightarrow> \<not> lt z y \<Longrightarrow> \<not> lt z x"
begin

lemma less_irrefl: "\<not> lt x x"
  using less_asym by blast

text \<open>The invariants of the two loops: a heap but for the hole \<open>i\<close>, where \<open>x\<close> will go.\<close>

definition up_inv :: "'a list \<Rightarrow> nat \<Rightarrow> 'a \<Rightarrow> bool" where
  "up_inv xs i x \<longleftrightarrow> i < length xs \<and>
     (\<forall>k < length xs. 0 < k \<and> k \<noteq> i \<and> parent_of k \<noteq> i \<longrightarrow> \<not> lt (xs ! k) (xs ! parent_of k)) \<and>
     (\<forall>k < length xs. 0 < k \<and> parent_of k = i \<longrightarrow> \<not> lt (xs ! k) x \<and> (0 < i \<longrightarrow> \<not> lt (xs ! k) (xs ! parent_of i)))"

definition down_inv :: "'a list \<Rightarrow> nat \<Rightarrow> 'a \<Rightarrow> bool" where
  "down_inv xs i x \<longleftrightarrow> i < length xs \<and>
     (\<forall>k < length xs. 0 < k \<and> k \<noteq> i \<and> parent_of k \<noteq> i \<longrightarrow> \<not> lt (xs ! k) (xs ! parent_of k)) \<and>
     (0 < i \<longrightarrow> \<not> lt x (xs ! parent_of i)) \<and>
     (\<forall>k < length xs. 0 < k \<and> parent_of k = i \<and> 0 < i \<longrightarrow> \<not> lt (xs ! k) (xs ! parent_of i))"

lemma up_inv_step:
  assumes inv: "up_inv xs i x" and i: "0 < i" and l: "lt x (xs ! parent_of i)"
  shows "up_inv (xs[i := xs ! parent_of i]) (parent_of i) x"
proof -
  let ?p = "parent_of i"
  have p: "?p < i" "i < length xs"
    using inv i by (auto simp: up_inv_def)
  have ord: "\<not> lt (xs ! k) (xs ! parent_of k)" if "k < length xs" "0 < k" "k \<noteq> i" "parent_of k \<noteq> i" for k
    using inv that by (simp add: up_inv_def)
  have gp: "\<not> lt (xs ! k) (xs ! ?p)" if "k < length xs" "0 < k" "parent_of k = i" for k
    using inv that i by (simp add: up_inv_def)
  have above: "\<not> lt (xs ! ?p) (xs ! parent_of ?p)" if "0 < ?p"
    using ord[of ?p] that p parent_less[OF that] by simp
  have sib: "\<not> lt (xs ! k) (xs ! ?p)" if "k < length xs" "0 < k" "k \<noteq> i" "parent_of k = ?p" for k
    using ord[of k] that p by simp
  show ?thesis
    unfolding up_inv_def
  proof (intro conjI allI impI; (elim conjE)?)
    fix k
    assume k: "k < length (xs[i := xs ! ?p])" "0 < k"
    show "\<not> lt (xs[i := xs ! ?p] ! k) (xs[i := xs ! ?p] ! parent_of k)" if "k \<noteq> ?p" "parent_of k \<noteq> ?p"
      using k that p gp[of k] ord[of k] by (cases "parent_of k = i") (auto simp: nth_list_update)
    show "\<not> lt (xs[i := xs ! ?p] ! k) x" if "parent_of k = ?p"
      using k that p less_asym[OF l] sib[of k] not_less_trans[of "xs ! ?p" x "xs ! k"]
      by (cases "k = i") auto
    show "\<not> lt (xs[i := xs ! ?p] ! k) (xs[i := xs ! ?p] ! parent_of ?p)" if "parent_of k = ?p" "0 < ?p"
      using k that p above parent_less[of ?p] sib[of k] not_less_trans[of "xs ! ?p" "xs ! parent_of ?p" "xs ! k"]
      by (cases "k = i") auto
  qed (use p in simp)
qed

lemma up_inv_done:
  assumes inv: "up_inv xs i x" and fin: "i = 0 \<or> \<not> lt x (xs ! parent_of i)"
  shows "heap_inv lt (xs[i := x])"
  unfolding heap_inv_def
proof (intro allI impI)
  fix k
  assume k: "k < length (xs[i := x])" "0 < k"
  then have "parent_of k < k"
    by simp
  with k inv fin show "\<not> lt (xs[i := x] ! k) (xs[i := x] ! parent_of k)"
    by (cases "k = i"; cases "parent_of k = i") (auto simp: up_inv_def)
qed

lemma sift_up_heap: "up_inv xs i x \<Longrightarrow> heap_inv lt (sift_up lt xs i x)"
proof (induction i arbitrary: xs rule: less_induct)
  case (less i)
  show ?case
  proof (cases "0 < i \<and> lt x (xs ! parent_of i)")
    case True
    then show ?thesis
      using less.IH[of "parent_of i"] up_inv_step[OF less.prems] parent_less[of i] by (subst sift_up.simps) auto
  next
    case False
    then show ?thesis
      using up_inv_done[OF less.prems] by (subst sift_up.simps) auto
  qed
qed

lemma min_child_le:
  assumes "0 < k" "k < length xs" "parent_of k = i"
  shows "\<not> lt (xs ! k) (xs ! min_child lt xs i)"
proof -
  have "k = 2 * i + 1 \<or> k = 2 * i + 2"
    using assms(1,3) by auto
  with assms(2) show ?thesis
    by (auto simp: min_child_def Let_def less_irrefl less_asym)
qed

lemma down_inv_step:
  assumes inv: "down_inv xs i x" and c: "2 * i + 1 < length xs" and l: "lt (xs ! min_child lt xs i) x"
  shows "down_inv (xs[i := xs ! min_child lt xs i]) (min_child lt xs i) x"
proof -
  let ?m = "min_child lt xs i"
  have m: "?m < length xs" "i < ?m" "parent_of ?m = i"
    using min_child_range[OF c, of lt] min_child_cases[of lt xs i] by auto
  have ord: "\<not> lt (xs ! k) (xs ! parent_of k)" if "k < length xs" "0 < k" "k \<noteq> i" "parent_of k \<noteq> i" for k
    using inv that by (simp add: down_inv_def)
  have gp: "\<not> lt (xs ! ?m) (xs ! parent_of i)" if "0 < i"
    using inv that m by (auto simp: down_inv_def)
  show ?thesis
    unfolding down_inv_def
  proof (intro conjI allI impI; (elim conjE)?)
    fix k
    assume k: "k < length (xs[i := xs ! ?m])" "0 < k"
    then have pk: "parent_of k < k"
      by simp
    show "\<not> lt (xs[i := xs ! ?m] ! k) (xs[i := xs ! ?m] ! parent_of k)" if "k \<noteq> ?m" "parent_of k \<noteq> ?m"
      using k that pk gp ord[of k] min_child_le[of k xs i]
      by (cases "k = i"; cases "parent_of k = i") auto
    show "\<not> lt (xs[i := xs ! ?m] ! k) (xs[i := xs ! ?m] ! parent_of ?m)" if "parent_of k = ?m"
      using k that m pk ord[of k] inv by (auto simp: down_inv_def)
  qed (use m less_asym[OF l] inv in \<open>auto simp: down_inv_def\<close>)
qed

lemma down_inv_done:
  assumes inv: "down_inv xs i x" and fin: "length xs \<le> 2 * i + 1 \<or> \<not> lt (xs ! min_child lt xs i) x"
  shows "heap_inv lt (xs[i := x])"
  unfolding heap_inv_def
proof (intro allI impI)
  fix k
  assume k: "k < length (xs[i := x])" "0 < k"
  then have pk: "parent_of k < k"
    by simp
  have "\<not> lt (xs ! k) x" if "parent_of k = i"
  proof -
    have "2 * i + 1 < length xs"
      using k that by auto
    then show ?thesis
      using fin k that min_child_le[of k xs i] not_less_trans[of "xs ! min_child lt xs i" x "xs ! k"] by auto
  qed
  with k pk inv show "\<not> lt (xs[i := x] ! k) (xs[i := x] ! parent_of k)"
    by (cases "k = i"; cases "parent_of k = i") (auto simp: down_inv_def)
qed

lemma sift_down_heap: "down_inv xs i x \<Longrightarrow> heap_inv lt (sift_down lt xs i x)"
proof (induction "length xs - i" arbitrary: xs i rule: less_induct)
  case less
  let ?m = "min_child lt xs i"
  show ?case
  proof (cases "2 * i + 1 < length xs \<and> lt (xs ! ?m) x")
    case True
    then have "length (xs[i := xs ! ?m]) - ?m < length xs - i"
      using min_child_range[of i xs lt] min_child_cases[of lt xs i] by auto
    from less.hyps[OF this] True show ?thesis
      using down_inv_step[OF less.prems] by (subst sift_down.simps) (simp add: Let_def)
  next
    case False
    then show ?thesis
      using down_inv_done[OF less.prems] by (subst sift_down.simps) (auto simp: Let_def)
  qed
qed

lemma heap_root_least:
  assumes "heap_inv lt xs" "k < length xs"
  shows "\<not> lt (xs ! k) (xs ! 0)"
  using assms(2)
proof (induction k rule: less_induct)
  case (less k)
  show ?case
  proof (cases "k = 0")
    case True
    then show ?thesis by (simp add: less_irrefl)
  next
    case False
    then have "\<not> lt (xs ! parent_of k) (xs ! 0)" "\<not> lt (xs ! k) (xs ! parent_of k)"
      using less.IH[of "parent_of k"] less.prems assms(1) by (auto simp: heap_inv_def)
    then show ?thesis
      by (rule not_less_trans)
  qed
qed

lemma heap_inv_snoc: "heap_inv lt xs \<Longrightarrow> up_inv (xs @ [x]) (length xs) x"
proof -
  assume h: "heap_inv lt xs"
  have p: "parent_of k < length xs" if "0 < k" "k < Suc (length xs)" for k
    using that by auto
  show ?thesis
    unfolding up_inv_def using h p by (fastforce simp: heap_inv_def nth_append)
qed

lemma heap_inv_butlast:
  assumes "heap_inv lt xs" "2 \<le> length xs"
  shows "down_inv ((butlast xs)[0 := y]) 0 x"
  using assms by (auto simp: heap_inv_def down_inv_def nth_butlast)

lemma heap_inv_take: "heap_inv lt xs \<Longrightarrow> heap_inv lt (butlast xs)"
  by (auto simp: heap_inv_def nth_butlast)

end

section \<open>The operations on memory\<close>

locale stable_heap = stable_vec M inv contents cap T valid bd + weak_order "is_less pcmp"
  for M :: "'s memory_ops" and inv contents cap and T :: "'a storable" and valid bd
    and pcmp :: "'a partial_cmp"
begin

abbreviation less_item :: "'a \<Rightarrow> 'a \<Rightarrow> bool" where
  "less_item \<equiv> is_less pcmp"

text \<open>The list in the memory, with items that can be encoded; \<open>room s n\<close>: the memory can hold \<open>n\<close> slots.\<close>

abbreviation items :: "'s \<Rightarrow> 'a list \<Rightarrow> bool" where
  "items s xs \<equiv> inv s \<and> vec_rep T bd HEAP_MAGIC (contents s) xs \<and> (\<forall>x \<in> set xs. valid x)"

abbreviation room :: "'s \<Rightarrow> nat \<Rightarrow> bool" where
  "room s n \<equiv> DATA_OFFSET + slot_bytes bd * n \<le> cap s * WASM_PAGE_SIZE"

lemma room_less: "room s n \<Longrightarrow> m \<le> n \<Longrightarrow> room s m"
  by (meson add_le_mono1 add_mono_thms_linordered_semiring(2) le_trans mult_le_mono2)

lemma last_slot_in_range:
  assumes "items s xs" "xs \<noteq> []"
  shows "DATA_OFFSET + slot_bytes bd * (length xs - 1) \<le> length (contents s)"
proof -
  have "entry_at T bd (contents s) (DATA_OFFSET + slot_bytes bd * (length xs - 1)) (xs ! (length xs - 1))"
    using assms by (simp add: vec_rep_def)
  then show ?thesis
    by (auto simp: entry_at_def Let_def)
qed

lemma get_unwrap_ok [ok_intro]:
  assumes "items s xs" "i < length xs"
  shows "ok (get_unwrap T M s i) (\<lambda>(x, s'). x = xs ! i \<and> items s' xs \<and> cap s' = cap s)"
  using assms get_ok[of s HEAP_MAGIC xs i] by (auto simp: get_unwrap_def elim!: ok_mono)

lemma set_item_ok [ok_intro]:
  assumes "items s xs" "i < length xs" "valid x" "room s (length xs)"
  shows "ok (bv_set T M s i x) (\<lambda>s'. items s' (xs[i := x]) \<and> cap s' = cap s)"
proof -
  have "room s (Suc i)"
    using assms(2) by (intro room_less[OF assms(4)]) simp
  then show ?thesis
    using assms set_ok[of s HEAP_MAGIC xs x i] set_update_subset_insert[of xs i x]
    by (auto simp: add.commute add.left_commute elim!: ok_mono)
qed

text \<open>\<open>check_invariant\<close> reports the first index at which the list is not a heap.\<close>

abbreviation first_violation :: "'a list \<Rightarrow> nat list \<Rightarrow> nat \<times> nat + unit" where
  "first_violation xs is \<equiv>
     (case find (\<lambda>i. less_item (xs ! i) (xs ! parent_of i)) is of
        None \<Rightarrow> Inr () | Some i \<Rightarrow> Inl (i, parent_of i))"

lemma check_loop_ok:
  assumes "items s xs" "\<forall>i \<in> set is. 0 < i \<and> i < length xs"
  shows "ok (mh_check_loop pcmp T M s is) (\<lambda>(r, s'). r = first_violation xs is \<and> items s' xs \<and> cap s' = cap s)"
  using assms
proof (induction "is" arbitrary: s)
  case Nil
  then show ?case by simp
next
  case (Cons i "is")
  then have i: "i < length xs" "parent_of i < length xs"
    by auto
  obtain s1 where s1: "get_unwrap T M s i = Some (xs ! i, s1)" "items s1 xs" "cap s1 = cap s"
    using get_unwrap_ok[OF Cons.prems(1) i(1)] by (auto elim: ok_obtain)
  obtain s2 where s2: "get_unwrap T M s1 (parent_of i) = Some (xs ! parent_of i, s2)" "items s2 xs" "cap s2 = cap s"
    using get_unwrap_ok[OF s1(2) i(2)] s1(3) by (auto elim: ok_obtain)
  show ?case
    using Cons.IH[OF s2(2)] Cons.prems(2) s2
    by (auto simp: Let_def s1(1) s2(1)[unfolded One_nat_def] elim!: ok_mono)
qed

lemma first_violation_None:
  "first_violation xs [1..<length xs] = Inr () \<longleftrightarrow> heap_inv less_item xs"
proof -
  have "first_violation xs [1..<length xs] = Inr () \<longleftrightarrow>
      find (\<lambda>i. less_item (xs ! i) (xs ! parent_of i)) [1..<length xs] = None"
    by (simp split: option.split)
  then show ?thesis
    by (auto simp: heap_inv_def find_None_iff Suc_le_eq)
qed

lemma check_invariant_ok:
  assumes "items s xs"
  shows "ok (mh_check_invariant pcmp T M s) (\<lambda>(r, s').
    r = first_violation xs [1..<length xs] \<and> items s' xs \<and> cap s' = cap s)"
proof -
  obtain s1 where s1: "bv_len M s = Some (length xs, s1)" "items s1 xs" "cap s1 = cap s"
    using len_ok[of s HEAP_MAGIC xs] assms by (auto elim: ok_obtain)
  have "\<forall>i \<in> set [1..<length xs]. 0 < i \<and> i < length xs"
    by simp
  from check_loop_ok[OF s1(2) this] s1 show ?thesis
    by (simp add: mh_check_invariant_def mh_len_def)
qed

lemma debug_assert_ok [ok_intro]:
  assumes "items s xs" "heap_inv less_item xs"
  shows "ok (mh_debug_assert pcmp T M s) (\<lambda>s'. items s' xs \<and> cap s' = cap s)"
  unfolding mh_debug_assert_def
  by (rule ok_bindI[OF check_invariant_ok[OF assms(1)]])
    (use assms(2) in \<open>auto simp: first_violation_None[simplified]\<close>)

lemma bubble_up_loop_ok:
  assumes "items s xs" "i < length xs" "valid x" "room s (length xs)"
  shows "ok (mh_bubble_up_loop pcmp T M s i x sw) (\<lambda>(i', sw', s'). \<exists>ys. items s' ys \<and> cap s' = cap s \<and>
    i' < length ys \<and> length ys = length xs \<and> sift_up less_item xs i x = ys[i' := x] \<and>
    (sw' \<or> \<not> sw \<and> ys = xs \<and> i' = i))"
  using assms
proof (induction i arbitrary: s xs sw rule: less_induct)
  case (less i)
  let ?p = "parent_of i"
  show ?case
  proof (cases "0 < i")
    case False
    with less.prems show ?thesis
      by (subst mh_bubble_up_loop.simps, subst sift_up.simps) auto
  next
    case True
    then have p: "?p < i" "?p < length xs"
      using less.prems(2) by auto
    obtain s1 where s1: "get_unwrap T M s ?p = Some (xs ! ?p, s1)" "items s1 xs" "cap s1 = cap s"
      using get_unwrap_ok[OF less.prems(1) p(2)] by (auto elim: ok_obtain)
    show ?thesis
    proof (cases "less_item x (xs ! ?p)")
      case False
      with s1 True less.prems show ?thesis
        by (subst mh_bubble_up_loop.simps, subst sift_up.simps) auto
    next
      case lt: True
      have "valid (xs ! ?p)"
        using less.prems(1) p(2) by simp
      then obtain s2 where s2: "bv_set T M s1 i (xs ! ?p) = Some s2" "items s2 (xs[i := xs ! ?p])" "cap s2 = cap s"
        using set_item_ok[OF s1(2) less.prems(2), of "xs ! ?p"] s1(3) less.prems(4) by (auto elim: ok_obtain)
      have "ok (mh_bubble_up_loop pcmp T M s2 ?p x True) (\<lambda>(i', sw', s'). \<exists>ys. items s' ys \<and> cap s' = cap s2 \<and>
          i' < length ys \<and> length ys = length (xs[i := xs ! ?p]) \<and>
          sift_up less_item (xs[i := xs ! ?p]) ?p x = ys[i' := x] \<and>
          (sw' \<or> \<not> True \<and> ys = xs[i := xs ! ?p] \<and> i' = ?p))"
        using less.prems s2 p by (intro less.IH[OF p(1)]) auto
      with True lt s1 s2 show ?thesis
        by (subst mh_bubble_up_loop.simps, subst sift_up.simps) (auto simp: Let_def elim!: ok_mono)
    qed
  qed
qed

lemma bubble_up_ok:
  assumes "items s xs" "i < length xs" "xs ! i = x" "valid x" "room s (length xs)"
  shows "ok (mh_bubble_up pcmp T M s i x) (\<lambda>s'. items s' (sift_up less_item xs i x) \<and> cap s' = cap s)"
  unfolding mh_bubble_up_def
proof (rule ok_bindI[OF bubble_up_loop_ok[OF assms(1,2,4,5)]], clarsimp, intro conjI impI)
  fix i' s' ys
  assume ys: "inv s'" "vec_rep T bd HEAP_MAGIC (contents s') ys" "\<forall>x\<in>set ys. valid x" "cap s' = cap s"
    "i' < length xs" "length ys = length xs" "sift_up less_item xs i x = ys[i' := x]"
  then have "items s' ys" "i' < length ys" "room s' (length ys)"
    using assms(5) by auto
  from set_item_ok[OF this(1,2) assms(4) this(3)] ys(4)
  show "ok (bv_set T M s' i' x) (\<lambda>s'. inv s' \<and> vec_rep T bd HEAP_MAGIC (contents s') (ys[i' := x]) \<and>
      (\<forall>x\<in>set (ys[i' := x]). valid x) \<and> cap s' = cap s)"
    by (auto elim!: ok_mono)
next
  fix i' sw s' ys
  assume "sw \<or> ys = xs \<and> i' = i" "\<not> sw" "vec_rep T bd HEAP_MAGIC (contents s') ys" "\<forall>x\<in>set ys. valid x"
  then show "vec_rep T bd HEAP_MAGIC (contents s') (ys[i' := x])" "\<forall>x\<in>set (ys[i' := x]). valid x"
    using assms(3) by auto
qed

lemma bubble_down_step_eq:
  assumes xs: "items s xs" and i: "i < length xs" and lim: "2 * length xs \<le> U64_MAX"
    and c: "2 * i + 1 < length xs"
  obtains s' where "items s' xs" "cap s' = cap s"
    "mh_bubble_down_loop pcmp T M s i (length xs) x sw =
      (let m = min_child less_item xs i in
       if less_item (xs ! m) x then do {
         s \<leftarrow> bv_set T M s' i (xs ! m);
         mh_bubble_down_loop pcmp T M s m (length xs) x True }
       else Some (i, sw, s'))"
proof -
  have ar: "u64_mul i 2 = Some (i * 2)" "u64_add (i * 2) (Suc 0) = Some (Suc (2 * i))"
    "u64_add (Suc (2 * i)) (Suc 0) = Some (Suc (Suc (2 * i)))"
    using i lim by (simp_all add: u64_mul_def u64_add_def)
  obtain s1 where s1: "get_unwrap T M s (2 * i + 1) = Some (xs ! (2 * i + 1), s1)" "items s1 xs" "cap s1 = cap s"
    using get_unwrap_ok[OF xs c] by (auto elim: ok_obtain)
  show thesis
  proof (cases "2 * i + 2 < length xs")
    case False
    with s1 c show thesis
      by (intro that[OF s1(2,3)], subst mh_bubble_down_loop.simps) (simp add: ar min_child_def Let_def)
  next
    case True
    obtain s2 where s2: "get_unwrap T M s1 (2 * i + 2) = Some (xs ! (2 * i + 2), s2)" "items s2 xs" "cap s2 = cap s"
      using get_unwrap_ok[OF s1(2) True] s1(3) by (auto elim: ok_obtain)
    with True s1 c show thesis
      by (intro that[OF s2(2,3)], subst mh_bubble_down_loop.simps) (simp add: ar min_child_def Let_def)
  qed
qed

lemma bubble_down_loop_ok:
  assumes "items s xs" "i < length xs" "valid x" "room s (length xs)" "2 * length xs \<le> U64_MAX"
  shows "ok (mh_bubble_down_loop pcmp T M s i (length xs) x sw) (\<lambda>(i', sw', s'). \<exists>ys. items s' ys \<and> cap s' = cap s \<and>
    i' < length ys \<and> length ys = length xs \<and> sift_down less_item xs i x = ys[i' := x] \<and>
    (sw' \<or> \<not> sw \<and> ys = xs \<and> i' = i))"
  using assms
proof (induction "length xs - i" arbitrary: i s xs sw rule: less_induct)
  case less
  let ?m = "min_child less_item xs i"
  show ?case
  proof (cases "2 * i + 1 < length xs")
    case False
    have "u64_mul i 2 = Some (i * 2)" "u64_add (i * 2) (Suc 0) = Some (Suc (2 * i))"
      "u64_add (Suc (2 * i)) (Suc 0) = Some (Suc (Suc (2 * i)))"
      using less.prems(2,5) by (simp_all add: u64_mul_def u64_add_def)
    with False less.prems show ?thesis
      by (subst mh_bubble_down_loop.simps, subst sift_down.simps) (auto simp: Let_def)
  next
    case True
    obtain s1 where s1: "items s1 xs" "cap s1 = cap s" "mh_bubble_down_loop pcmp T M s i (length xs) x sw =
      (let m = ?m in
       if less_item (xs ! m) x then do {
         s \<leftarrow> bv_set T M s1 i (xs ! m);
         mh_bubble_down_loop pcmp T M s m (length xs) x True }
       else Some (i, sw, s1))"
      by (rule bubble_down_step_eq[OF less.prems(1,2,5) True])
    have m: "?m < length xs" "i < ?m"
      using min_child_range[OF True] min_child_cases[of less_item xs i] by auto
    show ?thesis
    proof (cases "less_item (xs ! ?m) x")
      case False
      with s1 less.prems show ?thesis
        by (subst sift_down.simps) (auto simp: Let_def)
    next
      case lt: True
      have "valid (xs ! ?m)"
        using less.prems(1) m by simp
      then obtain s2 where s2: "bv_set T M s1 i (xs ! ?m) = Some s2" "items s2 (xs[i := xs ! ?m])" "cap s2 = cap s"
        using set_item_ok[OF s1(1) less.prems(2), of "xs ! ?m"] s1(2) less.prems(4) by (auto elim: ok_obtain)
      have "ok (mh_bubble_down_loop pcmp T M s2 ?m (length (xs[i := xs ! ?m])) x True) (\<lambda>(i', sw', s').
          \<exists>ys. items s' ys \<and> cap s' = cap s2 \<and> i' < length ys \<and> length ys = length (xs[i := xs ! ?m]) \<and>
          sift_down less_item (xs[i := xs ! ?m]) ?m x = ys[i' := x] \<and>
          (sw' \<or> \<not> True \<and> ys = xs[i := xs ! ?m] \<and> i' = ?m))"
        using less.prems s2 m by (intro less.hyps) auto
      with True lt s1 s2 show ?thesis
        by (subst sift_down.simps) (auto simp: Let_def elim!: ok_mono)
    qed
  qed
qed

lemma bubble_down_ok:
  assumes "items s xs" "i < length xs" "xs ! i = x" "valid x" "room s (length xs)" "2 * length xs \<le> U64_MAX"
  shows "ok (mh_bubble_down pcmp T M s i (length xs) x) (\<lambda>s'. items s' (sift_down less_item xs i x) \<and> cap s' = cap s)"
  unfolding mh_bubble_down_def
proof (rule ok_bindI[OF bubble_down_loop_ok[OF assms(1,2,4,5,6)]], clarsimp, intro conjI impI)
  fix i' s' ys
  assume ys: "inv s'" "vec_rep T bd HEAP_MAGIC (contents s') ys" "\<forall>x\<in>set ys. valid x" "cap s' = cap s"
    "i' < length xs" "length ys = length xs" "sift_down less_item xs i x = ys[i' := x]"
  then have "items s' ys" "i' < length ys" "room s' (length ys)"
    using assms(5) by auto
  from set_item_ok[OF this(1,2) assms(4) this(3)] ys(4)
  show "ok (bv_set T M s' i' x) (\<lambda>s'. inv s' \<and> vec_rep T bd HEAP_MAGIC (contents s') (ys[i' := x]) \<and>
      (\<forall>x\<in>set (ys[i' := x]). valid x) \<and> cap s' = cap s)"
    by (auto elim!: ok_mono)
next
  fix i' sw s' ys
  assume "sw \<or> ys = xs \<and> i' = i" "\<not> sw" "vec_rep T bd HEAP_MAGIC (contents s') ys" "\<forall>x\<in>set ys. valid x"
  then show "vec_rep T bd HEAP_MAGIC (contents s') (ys[i' := x])" "\<forall>x\<in>set (ys[i' := x]). valid x"
    using assms(3) by auto
qed

text \<open>The state of a heap: its list satisfies the heap invariant. The contract is on multisets.\<close>

abbreviation heap :: "'s \<Rightarrow> 'a list \<Rightarrow> bool" where
  "heap s xs \<equiv> items s xs \<and> heap_inv less_item xs"

lemma push_refines:
  assumes h: "heap s xs" and x: "valid x" and n: "length xs < U64_MAX" and r: "room s (Suc (length xs))"
  shows "ok (mh_push pcmp T M s x) (\<lambda>s'. heap s' (sift_up less_item (xs @ [x]) (length xs) x) \<and> cap s' = cap s)"
proof -
  let ?ys = "sift_up less_item (xs @ [x]) (length xs) x"
  have "room s (length xs)" and fits: "DATA_OFFSET + slot_bytes bd * length xs + slot_bytes bd \<le> cap s * WASM_PAGE_SIZE"
    using r room_less[OF r, of "length xs"] by simp_all
  then obtain s1 where s1: "bv_push T M s x = Some (Inr (), s1)" "items s1 (xs @ [x])" "cap s1 = cap s"
    using push_ok[OF _ x n fits, of HEAP_MAGIC] h x by (auto elim: ok_obtain)
  obtain s2 where s2: "bv_len M s1 = Some (length xs + 1, s2)" "items s2 (xs @ [x])" "cap s2 = cap s"
    using len_ok[of s1 HEAP_MAGIC "xs @ [x]"] s1 by (auto elim: ok_obtain)
  obtain s3 where s3: "mh_bubble_up pcmp T M s2 (length xs) x = Some s3" "items s3 ?ys" "cap s3 = cap s"
    using bubble_up_ok[OF s2(2), of "length xs" x] s2(3) x r by (auto elim: ok_obtain)
  have heap: "heap_inv less_item ?ys"
    using h by (intro sift_up_heap heap_inv_snoc) simp
  from debug_assert_ok[OF s3(2) heap] heap s3(3) show ?thesis
    by (auto simp: mh_push_def s1(1) s2(1) s3(1) expect_def u64_sub_def elim!: ok_mono)
qed

lemma pop_refines:
  assumes h: "heap s xs" and n: "2 \<le> length xs" and lim: "2 * length xs \<le> U64_MAX"
  shows "ok (mh_pop pcmp T M s) (\<lambda>(r, s'). r = Some (hd xs) \<and>
    heap s' (sift_down less_item ((butlast xs)[0 := last xs]) 0 (last xs)) \<and> cap s' = cap s)"
proof -
  let ?zs = "(butlast xs)[0 := last xs]"
  let ?ys = "sift_down less_item ?zs 0 (last xs)"
  have ne: "xs \<noteq> []"
    using n by (cases xs) auto
  obtain s1 where s1: "bv_len M s = Some (length xs, s1)" "items s1 xs" "cap s1 = cap s"
    using len_ok[of s HEAP_MAGIC xs] h by (auto elim: ok_obtain)
  have "0 < length xs"
    using ne by simp
  then obtain s2 where s2: "get_unwrap T M s1 0 = Some (hd xs, s2)" "items s2 xs" "cap s2 = cap s"
    using get_unwrap_ok[OF s1(2), of 0] s1(3) by (auto simp: hd_conv_nth elim: ok_obtain)
  obtain s3 where s3: "bv_pop T M s2 = Some (Some (last xs), s3)" "items s3 (butlast xs)" "cap s3 = cap s"
    using pop_ok[of s2 HEAP_MAGIC xs] s2 n by (auto dest: in_set_butlastD elim!: ok_obtain split: if_splits)
  have room: "room s (length xs - 1)"
  proof -
    have "DATA_OFFSET + slot_bytes bd * (length xs - 1) \<le> length (contents s)"
      using h ne by (intro last_slot_in_range) auto
    with size_cap_law[of s] h show ?thesis
      by linarith
  qed
  have v: "valid (last xs)"
    using h ne by simp
  have "0 < length (butlast xs)"
    using n by simp
  then obtain s4 where s4: "bv_set T M s3 0 (last xs) = Some s4" "items s4 ?zs" "cap s4 = cap s"
    using set_item_ok[OF s3(2) _ v, of 0] s3(3) room by (auto elim: ok_obtain)
  have "2 * length ?zs \<le> U64_MAX"
    using lim by simp
  then obtain s5 where s5: "mh_bubble_down pcmp T M s4 0 (length xs - 1) (last xs) = Some s5" "items s5 ?ys" "cap s5 = cap s"
    using bubble_down_ok[OF s4(2), of 0 "last xs"] s4(3) v n lim room by (auto elim: ok_obtain)
  have heap: "heap_inv less_item ?ys"
    using h n by (intro sift_down_heap heap_inv_butlast) simp_all
  from debug_assert_ok[OF s5(2) heap] heap s5(3) n show ?thesis
    by (auto simp: mh_pop_def mh_len_def s1(1) s2(1) s3(1) s4(1) s5(1)[unfolded One_nat_def] elim!: ok_mono)
qed

lemma heap_push_ok:
  assumes "heap s xs" "valid x" "length xs < U64_MAX" "room s (Suc (length xs))"
  shows "ok (mh_push pcmp T M s x) (\<lambda>s'. \<exists>ys. heap s' ys \<and> mset ys = add_mset x (mset xs) \<and> cap s' = cap s)"
  using mset_sift_up[of "length xs" "xs @ [x]" less_item x]
  by (intro ok_mono[OF push_refines[OF assms]] exI[of _ "sift_up less_item (xs @ [x]) (length xs) x"]) simp

lemma hd_butlast_mset:
  assumes "2 \<le> length xs"
  shows "mset ((butlast xs)[0 := last xs]) = mset xs - {#hd xs#}"
proof -
  obtain x y ys where xs: "xs = x # y # ys"
    using assms by (cases xs; cases "tl xs") auto
  have "mset (butlast (y # ys) @ [last (y # ys)]) = mset (y # ys)"
    by (subst append_butlast_last_id) simp_all
  then show ?thesis
    by (simp add: xs)
qed

lemma heap_pop_ok:
  assumes h: "heap s xs" and lim: "2 * length xs \<le> U64_MAX"
  shows "ok (mh_pop pcmp T M s) (\<lambda>(r, s'). \<exists>ys. heap s' ys \<and> cap s' = cap s \<and>
    (case r of None \<Rightarrow> xs = [] \<and> ys = []
     | Some x \<Rightarrow> mset xs = add_mset x (mset ys) \<and> (\<forall>y \<in> set xs. \<not> less_item y x)))"
proof -
  have least: "\<forall>y \<in> set xs. \<not> less_item y (hd xs)" if "xs \<noteq> []"
    using that h heap_root_least[of xs] by (auto simp: in_set_conv_nth hd_conv_nth)
  obtain s1 where s1: "bv_len M s = Some (length xs, s1)" "items s1 xs" "cap s1 = cap s"
    using len_ok[of s HEAP_MAGIC xs] h by (auto elim: ok_obtain)
  consider "xs = []" | x where "xs = [x]" | "2 \<le> length xs"
    by (cases xs; cases "tl xs") auto
  then show ?thesis
  proof cases
    case 1
    with s1 h show ?thesis
      by (auto simp: mh_pop_def mh_len_def)
  next
    case (2 x)
    then obtain s2 where "bv_pop T M s1 = Some (Some x, s2)" "items s2 []" "cap s2 = cap s"
      using pop_ok[of s1 HEAP_MAGIC xs] s1 by (auto elim!: ok_obtain)
    with s1 2 least show ?thesis
      by (auto simp: mh_pop_def mh_len_def heap_inv_def)
  next
    case 3
    let ?ys = "sift_down less_item ((butlast xs)[0 := last xs]) 0 (last xs)"
    have ne: "xs \<noteq> []" "0 < length (butlast xs)"
      using 3 by (cases xs, auto)
    have "mset ?ys = mset ((butlast xs)[0 := last xs])"
      using mset_sift_down[of 0 "(butlast xs)[0 := last xs]" less_item "last xs"] ne(2) by simp
    then have "mset xs = add_mset (hd xs) (mset ?ys)"
      using hd_butlast_mset[OF 3] ne(1) by simp
    with least[OF ne(1)] show ?thesis
      by (intro ok_mono[OF pop_refines[OF h 3 lim]]) auto
  qed
qed

lemma heap_peek_ok:
  assumes h: "heap s xs"
  shows "ok (mh_peek T M s) (\<lambda>(r, s'). heap s' xs \<and> cap s' = cap s \<and>
    (case r of None \<Rightarrow> xs = [] | Some x \<Rightarrow> x \<in> set xs \<and> (\<forall>y \<in> set xs. \<not> less_item y x)))"
proof -
  have "\<forall>y \<in> set xs. \<not> less_item y (xs ! 0)"
    using h heap_root_least[of xs] by (auto simp: in_set_conv_nth)
  then show ?thesis
    using h unfolding mh_peek_def by (intro ok_mono[OF get_ok[of s HEAP_MAGIC xs 0]]) auto
qed

lemma heap_new_ok:
  assumes "inv s" "0 < cap s"
  shows "ok (mh_new T M s) (\<lambda>s'. heap s' [] \<and> cap s' = cap s)"
  using new_ok[OF assms(1) _ assms(2), of HEAP_MAGIC]
  by (auto simp: mh_new_def HEAP_MAGIC_def heap_inv_def elim!: ok_mono)

lemma heap_init_ok:
  assumes "heap s xs"
  shows "ok (mh_init T M s) (\<lambda>s'. heap s' xs \<and> cap s' = cap s)"
  using open_ok[of s HEAP_MAGIC xs] assms by (auto simp: mh_init_def elim!: ok_mono)

lemma heap_clear_ok:
  assumes "heap s xs"
  shows "ok (mh_clear M s) (\<lambda>s'. heap s' [] \<and> cap s' = cap s)"
  using clear_ok[of s HEAP_MAGIC xs] assms by (auto simp: mh_clear_def heap_inv_def elim!: ok_mono)

lemma push_all_ok:
  assumes "heap s xs" "\<forall>x \<in> set zs. valid x" "length xs + length zs \<le> U64_MAX" "room s (length xs + length zs)"
  shows "ok (mh_push_all pcmp T M s zs) (\<lambda>s'. \<exists>ys. heap s' ys \<and> mset ys = mset xs + mset zs \<and> cap s' = cap s)"
  using assms
proof (induction zs arbitrary: s xs)
  case Nil
  then show ?case by auto
next
  case (Cons z zs)
  have "room s (Suc (length xs))"
    using Cons.prems(4) by (rule room_less) simp
  then obtain s1 ys where s1: "mh_push pcmp T M s z = Some s1" "heap s1 ys" "mset ys = add_mset z (mset xs)" "cap s1 = cap s"
    using heap_push_ok[OF Cons.prems(1), of z] Cons.prems(2,3) by (auto elim: ok_obtain)
  have "length ys = Suc (length xs)"
    using s1(3) by (metis size_add_mset size_mset)
  then have "ok (mh_push_all pcmp T M s1 zs) (\<lambda>s'. \<exists>us. heap s' us \<and> mset us = mset ys + mset zs \<and> cap s' = cap s1)"
    using Cons.prems s1 by (intro Cons.IH) simp_all
  with s1 show ?case
    by (auto elim!: ok_mono)
qed

lemma drain_ok:
  assumes "heap s xs" "2 * length xs \<le> U64_MAX" "length xs = n"
  shows "ok (mh_drain pcmp T M s n) (\<lambda>(ys, s'). mset ys = mset xs \<and> sorted_wrt (\<lambda>x y. \<not> less_item y x) ys \<and>
    heap s' [] \<and> cap s' = cap s)"
  using assms
proof (induction n arbitrary: s xs)
  case 0
  then show ?case by simp
next
  case (Suc n)
  obtain r s1 ys where s1: "mh_pop pcmp T M s = Some (r, s1)" "heap s1 ys" "cap s1 = cap s"
    "case r of None \<Rightarrow> xs = [] \<and> ys = [] | Some x \<Rightarrow> mset xs = add_mset x (mset ys) \<and> (\<forall>y \<in> set xs. \<not> less_item y x)"
    using heap_pop_ok[OF Suc.prems(1,2)] by (auto elim!: ok_obtain)
  then obtain x where x: "r = Some x" "mset xs = add_mset x (mset ys)" "\<forall>y \<in> set xs. \<not> less_item y x"
    using Suc.prems(3) by (cases r) auto
  have len: "length ys = n"
    using x(2) Suc.prems(3) by (metis Suc_inject size_add_mset size_mset)
  have sub: "set ys \<subseteq> set xs"
    using x(2) by (metis set_mset_mset set_mset_add_mset_insert subset_insertI)
  have "ok (mh_drain pcmp T M s1 n) (\<lambda>(us, s'). mset us = mset ys \<and> sorted_wrt (\<lambda>x y. \<not> less_item y x) us \<and>
      heap s' [] \<and> cap s' = cap s1)"
    using Suc.prems len s1 by (intro Suc.IH) simp_all
  moreover have "\<forall>y \<in> set us. \<not> less_item y x" if "mset us = mset ys" for us
    using that sub x(3) mset_eq_setD[OF that] by blast
  ultimately show ?case
    using s1 x by (auto elim!: ok_mono)
qed

end

section \<open>Instances\<close>

text \<open>\<open>PartialOrd\<close> of \<open>u64\<close>: total.\<close>

definition u64_partial_cmp :: "64 word partial_cmp" where
  "u64_partial_cmp x y = Some (if x < y then Less else if x = y then Equal else Greater)"

lemma is_less_u64: "is_less u64_partial_cmp x y \<longleftrightarrow> x < y"
  by (simp add: is_less_def u64_partial_cmp_def)

interpretation u64_heap: stable_heap VectorMemory vec_inv "\<lambda>m. m" vec_cap u64_storable "\<lambda>_. True"
  "\<lparr>max_size = 8, is_fixed_size = True\<rparr>" u64_partial_cmp
  by unfold_locales (auto simp: is_less_u64)

section \<open>Properties\<close>

text \<open>
  C17. Push keeps the heap: on every memory and for every item type with a total comparison, a push
  onto a heap that has room succeeds, none of the debug assertions fires, the list in memory
  satisfies the heap invariant again, and its items are the old ones and the new one.
\<close>

theorem heap_push_spec:
  assumes "stable_heap M minv contents cap T valid bd pcmp"
    and "minv s" "vec_rep T bd HEAP_MAGIC (contents s) xs" "\<forall>x \<in> set xs. valid x" "heap_inv (is_less pcmp) xs"
    and "valid x" "length xs < U64_MAX"
    and "DATA_OFFSET + slot_bytes bd * Suc (length xs) \<le> cap s * WASM_PAGE_SIZE"
  shows "ok (mh_push pcmp T M s x) (\<lambda>s'. \<exists>ys. minv s' \<and> vec_rep T bd HEAP_MAGIC (contents s') ys \<and>
    (\<forall>y \<in> set ys. valid y) \<and> heap_inv (is_less pcmp) ys \<and> mset ys = add_mset x (mset xs))"
  using stable_heap.heap_push_ok[OF assms(1), of s xs x] assms(2-8) by (auto elim!: ok_mono)

text \<open>A new heap in a vector memory, for the concrete runs below.\<close>

lemma u64_heap_new:
  obtains s where "mh_new u64_storable VectorMemory [] = Some s" "vec_inv s"
    "vec_rep u64_storable \<lparr>max_size = 8, is_fixed_size = True\<rparr> HEAP_MAGIC s []"
  using u64_heap.heap_new_ok[of "[]"] by (auto simp: vec_cap_def VEC_MAX_PAGES_val elim: ok_obtain)

lemma vec_mem_room: "n \<le> 1000 \<Longrightarrow>
  DATA_OFFSET + slot_bytes \<lparr>max_size = 8, is_fixed_size = True\<rparr> * n \<le> vec_cap s * WASM_PAGE_SIZE"
  by (simp add: DATA_OFFSET_def bytes_to_store_size_bounded_def vec_cap_def VEC_MAX_PAGES_val)

theorem heap_push_spec_witness:
  "\<exists>s. mh_new u64_storable VectorMemory [] = Some s \<and>
     ok (mh_push u64_partial_cmp u64_storable VectorMemory s 5) (\<lambda>s'.
       \<exists>ys. vec_rep u64_storable \<lparr>max_size = 8, is_fixed_size = True\<rparr> HEAP_MAGIC s' ys \<and> mset ys = {#5#})"
proof -
  obtain s where s: "mh_new u64_storable VectorMemory [] = Some s" "vec_inv s"
    "vec_rep u64_storable \<lparr>max_size = 8, is_fixed_size = True\<rparr> HEAP_MAGIC s []"
    by (rule u64_heap_new)
  have "ok (mh_push u64_partial_cmp u64_storable VectorMemory s 5) (\<lambda>s'. \<exists>ys. vec_inv s' \<and>
      vec_rep u64_storable \<lparr>max_size = 8, is_fixed_size = True\<rparr> HEAP_MAGIC s' ys \<and> (\<forall>y \<in> set ys. True) \<and>
      heap_inv (is_less u64_partial_cmp) ys \<and> mset ys = add_mset 5 (mset []))"
    using vec_mem_room[of 1 s]
    by (intro heap_push_spec[OF u64_heap.stable_heap_axioms s(2,3)]) (simp_all add: heap_inv_def)
  with s(1) show ?thesis
    by (auto elim!: ok_mono)
qed

text \<open>
  C12. Pop returns a smallest item: from a nonempty heap it removes one occurrence of an item that no
  item of the heap is smaller than, keeps the heap invariant (so no debug assertion fires), and
  from an empty heap it returns \<open>None\<close>.
\<close>

theorem heap_pop_spec:
  assumes "stable_heap M minv contents cap T valid bd pcmp"
    and "minv s" "vec_rep T bd HEAP_MAGIC (contents s) xs" "\<forall>x \<in> set xs. valid x" "heap_inv (is_less pcmp) xs"
    and "2 * length xs \<le> U64_MAX"
  shows "ok (mh_pop pcmp T M s) (\<lambda>(r, s'). \<exists>ys. minv s' \<and> vec_rep T bd HEAP_MAGIC (contents s') ys \<and>
    (\<forall>y \<in> set ys. valid y) \<and> heap_inv (is_less pcmp) ys \<and>
    (case r of None \<Rightarrow> xs = [] \<and> ys = []
     | Some x \<Rightarrow> mset xs = add_mset x (mset ys) \<and> (\<forall>y \<in> set xs. \<not> is_less pcmp y x)))"
  using stable_heap.heap_pop_ok[OF assms(1), of s xs] assms(2-6) by (auto elim!: ok_mono)

lemma u64_heap_one:
  obtains s where "do { s \<leftarrow> mh_new u64_storable VectorMemory []; mh_push u64_partial_cmp u64_storable VectorMemory s 5 } = Some s"
    "vec_inv s" "vec_rep u64_storable \<lparr>max_size = 8, is_fixed_size = True\<rparr> HEAP_MAGIC s [5]"
proof -
  obtain s where s: "mh_new u64_storable VectorMemory [] = Some s" "vec_inv s"
    "vec_rep u64_storable \<lparr>max_size = 8, is_fixed_size = True\<rparr> HEAP_MAGIC s []"
    by (rule u64_heap_new)
  have "u64_heap.heap s []"
    using s by (simp add: heap_inv_def)
  from u64_heap.heap_push_ok[OF this, of 5] vec_mem_room[of 1 s] show thesis
    using that s(1) by (auto elim!: ok_obtain)
qed

theorem heap_pop_spec_witness:
  "ok (do { s \<leftarrow> mh_new u64_storable VectorMemory [];
        s \<leftarrow> mh_push u64_partial_cmp u64_storable VectorMemory s 5;
        mh_pop u64_partial_cmp u64_storable VectorMemory s }) (\<lambda>(r, s'). r = Some 5)"
proof -
  obtain s where s: "do { s \<leftarrow> mh_new u64_storable VectorMemory []; mh_push u64_partial_cmp u64_storable VectorMemory s 5 } = Some s"
    "vec_inv s" "vec_rep u64_storable \<lparr>max_size = 8, is_fixed_size = True\<rparr> HEAP_MAGIC s [5]"
    by (rule u64_heap_one)
  have "ok (mh_pop u64_partial_cmp u64_storable VectorMemory s) (\<lambda>(r, s'). \<exists>ys. vec_inv s' \<and>
      vec_rep u64_storable \<lparr>max_size = 8, is_fixed_size = True\<rparr> HEAP_MAGIC s' ys \<and> (\<forall>y \<in> set ys. True) \<and>
      heap_inv (is_less u64_partial_cmp) ys \<and>
      (case r of None \<Rightarrow> [5 :: 64 word] = [] \<and> ys = []
       | Some x \<Rightarrow> mset [5] = add_mset x (mset ys) \<and> (\<forall>y \<in> set [5]. \<not> is_less u64_partial_cmp y x)))"
    by (rule heap_pop_spec[OF u64_heap.stable_heap_axioms s(2,3)]) (simp_all add: heap_inv_def)
  then have "ok (mh_pop u64_partial_cmp u64_storable VectorMemory s) (\<lambda>(r, s'). r = Some 5)"
    by (auto elim!: ok_mono split: option.splits)
  then show ?thesis
    using s(1) by (auto simp: bind_eq_Some_conv)
qed

text \<open>
  C26. The heap sorts: pushing the items of a list onto a new heap and popping as many times returns
  a permutation of the list in ascending order.
\<close>

theorem heap_sorts:
  assumes "stable_heap M minv contents cap T valid bd pcmp"
    and "minv s" "\<forall>x \<in> set zs. valid x" "2 * length zs \<le> U64_MAX"
    and "0 < cap s" "DATA_OFFSET + slot_bytes bd * length zs \<le> cap s * WASM_PAGE_SIZE"
  shows "ok (do { s \<leftarrow> mh_new T M s; s \<leftarrow> mh_push_all pcmp T M s zs; mh_drain pcmp T M s (length zs) })
    (\<lambda>(ys, s'). mset ys = mset zs \<and> sorted_wrt (\<lambda>x y. \<not> is_less pcmp y x) ys \<and> minv s')"
proof -
  note h = stable_heap.heap_new_ok[OF assms(1)] stable_heap.push_all_ok[OF assms(1), of _ "[]" zs]
    stable_heap.drain_ok[OF assms(1)]
  obtain s1 where s1: "mh_new T M s = Some s1" "minv s1" "vec_rep T bd HEAP_MAGIC (contents s1) []"
    "heap_inv (is_less pcmp) []" "cap s1 = cap s"
    using h(1)[of s] assms(2,5) by (auto elim: ok_obtain)
  obtain s2 ys where s2: "mh_push_all pcmp T M s1 zs = Some s2" "minv s2" "vec_rep T bd HEAP_MAGIC (contents s2) ys"
    "\<forall>x \<in> set ys. valid x" "heap_inv (is_less pcmp) ys" "mset ys = mset zs"
    using h(2)[of s1] s1 assms(3,4,6) by (auto elim: ok_obtain)
  have len: "length ys = length zs"
    using s2(6) by (metis size_mset)
  show ?thesis
    using h(3)[of s2 ys "length zs"] s1(1) s2 len assms(4) by (auto elim!: ok_mono)
qed

theorem heap_sorts_witness:
  "ok (do { s \<leftarrow> mh_new u64_storable VectorMemory []; s \<leftarrow> mh_push_all u64_partial_cmp u64_storable VectorMemory s [3, 1, 2];
        mh_drain u64_partial_cmp u64_storable VectorMemory s 3 })
    (\<lambda>(ys, s'). mset ys = {#1, 2, 3#} \<and> sorted_wrt (\<le>) ys)"
proof -
  have "ok (do { s \<leftarrow> mh_new u64_storable VectorMemory []; s \<leftarrow> mh_push_all u64_partial_cmp u64_storable VectorMemory s [3, 1, 2];
        mh_drain u64_partial_cmp u64_storable VectorMemory s (length [3 :: 64 word, 1, 2]) })
    (\<lambda>(ys, s'). mset ys = mset [3, 1, 2] \<and> sorted_wrt (\<lambda>x y. \<not> is_less u64_partial_cmp y x) ys \<and> vec_inv s')"
    using vec_mem_room[of 3 "[]"]
    by (intro heap_sorts[OF u64_heap.stable_heap_axioms]) (simp_all add: vec_cap_def VEC_MAX_PAGES_val)
  moreover have "length [3 :: 64 word, 1, 2] = 3"
    by simp
  ultimately have "ok (do { s \<leftarrow> mh_new u64_storable VectorMemory []; s \<leftarrow> mh_push_all u64_partial_cmp u64_storable VectorMemory s [3, 1, 2];
        mh_drain u64_partial_cmp u64_storable VectorMemory s 3 })
    (\<lambda>(ys, s'). mset ys = mset [3, 1, 2] \<and> sorted_wrt (\<lambda>x y. \<not> is_less u64_partial_cmp y x) ys \<and> vec_inv s')"
    by (simp only:)
  then show ?thesis
    by (rule ok_mono) (auto simp: is_less_u64 not_less add_mset_commute)
qed

end
