(* ===== verification/Cell.thy ===== *)
theory Cell
  imports Memory Storable
begin

text \<open>
  The single-value cell of \<open>src/src/cell.rs\<close>: a header of 8 bytes and the encoded value at the
  start of a memory, with a copy of the value kept beside the memory. The locale \<open>stable_cell\<close>
  shows on every memory that a cell that is dropped and initialized again from its memory has the
  value it was last set to, and that a value for which the memory cannot grow changes nothing.
\<close>

section \<open>The code\<close>

definition CELL_MAGIC :: bytes where
  "CELL_MAGIC = [83, 67, 76]"

definition HEADER_V1_SIZE :: nat where
  "HEADER_V1_SIZE = 8"

definition CELL_LAYOUT_VERSION :: nat where
  "CELL_LAYOUT_VERSION = 1"

record cell_header =
  ch_magic :: bytes
  ch_version :: nat
  ch_value_length :: nat

datatype cell_value_error = ValueTooLarge nat

text \<open>The state of a cell: the memory and the value.\<close>

record ('a, 's) cell =
  cell_memory :: 's
  cell_value :: 'a

definition cell_flush_value ::
  "'a storable \<Rightarrow> 's memory_ops \<Rightarrow> 's \<Rightarrow> 'a \<Rightarrow> ((cell_value_error + unit) \<times> 's) option" where
  "cell_flush_value T M s value = do {
     bs \<leftarrow> to_bytes T value;
     let len = length bs;
     if len > U32_MAX then Some (Inl (ValueTooLarge len), s)
     else do {
       size \<leftarrow> size_op M s;
       available_space \<leftarrow> u64_mul size WASM_PAGE_SIZE;
       (failed, s) \<leftarrow>
         (if len > u64_saturating_sub available_space HEADER_V1_SIZE \<or> size = 0 then do {
            a \<leftarrow> u64_add len HEADER_V1_SIZE;
            b \<leftarrow> u64_add a WASM_PAGE_SIZE;
            used \<leftarrow> u64_mul size WASM_PAGE_SIZE;
            c \<leftarrow> u64_sub b used;
            d \<leftarrow> u64_sub c 1;
            let grow_by = d div WASM_PAGE_SIZE;
            (r, s) \<leftarrow> grow_op M s grow_by;
            Some (r < 0, s)
          } else Some (False, s));
       if failed then Some (Inl (ValueTooLarge len), s)
       else do {
         new_size \<leftarrow> size_op M s;
         bytes_now \<leftarrow> u64_mul new_size WASM_PAGE_SIZE;
         needed \<leftarrow> u64_add len HEADER_V1_SIZE;
         assert_that (bytes_now \<ge> needed);
         s \<leftarrow> write_op M s 0 CELL_MAGIC;
         s \<leftarrow> write_op M s 3 [of_nat CELL_LAYOUT_VERSION];
         s \<leftarrow> write_op M s 4 (to_le_bytes 4 (as_u32 len));
         s \<leftarrow> write_op M s HEADER_V1_SIZE bs;
         Some (Inr (), s) } } }"

definition cell_read_header :: "'s memory_ops \<Rightarrow> 's \<Rightarrow> (cell_header \<times> 's) option" where
  "cell_read_header M s = do {
     (magic, s) \<leftarrow> read_op M s 0 3;
     (version, s) \<leftarrow> read_op M s 3 1;
     (len, s) \<leftarrow> read_op M s 4 4;
     Some (\<lparr>ch_magic = magic, ch_version = unat (version ! 0), ch_value_length = from_le_bytes len\<rparr>, s) }"

definition cell_read_value :: "'a storable \<Rightarrow> 's memory_ops \<Rightarrow> 's \<Rightarrow> nat \<Rightarrow> ('a \<times> 's) option" where
  "cell_read_value T M s len = do {
     (buf, s) \<leftarrow> read_to_vec M s HEADER_V1_SIZE len;
     x \<leftarrow> from_bytes T buf;
     Some (x, s) }"

definition cell_new :: "'a storable \<Rightarrow> 's memory_ops \<Rightarrow> 's \<Rightarrow> 'a \<Rightarrow> ('a, 's) cell option" where
  "cell_new T M s value = do {
     (_, s) \<leftarrow> expect (cell_flush_value T M s value);
     Some \<lparr>cell_memory = s, cell_value = value\<rparr> }"

definition cell_init :: "'a storable \<Rightarrow> 's memory_ops \<Rightarrow> 's \<Rightarrow> 'a \<Rightarrow> ('a, 's) cell option" where
  "cell_init T M s default_value = do {
     size \<leftarrow> size_op M s;
     if size = 0 then cell_new T M s default_value
     else do {
       (header, s) \<leftarrow> cell_read_header M s;
       if ch_magic header \<noteq> CELL_MAGIC then cell_new T M s default_value
       else if ch_version header \<noteq> CELL_LAYOUT_VERSION then None
       else do {
         (value, s) \<leftarrow> cell_read_value T M s (ch_value_length header);
         Some \<lparr>cell_memory = s, cell_value = value\<rparr> } } }"

definition cell_get :: "('a, 's) cell \<Rightarrow> 'a" where
  "cell_get c = cell_value c"

definition cell_into_memory :: "('a, 's) cell \<Rightarrow> 's" where
  "cell_into_memory c = cell_memory c"

definition cell_set :: "'a storable \<Rightarrow> 's memory_ops \<Rightarrow> ('a, 's) cell \<Rightarrow> 'a \<Rightarrow> ('a \<times> ('a, 's) cell) option" where
  "cell_set T M c value = do {
     (_, s) \<leftarrow> expect (cell_flush_value T M (cell_memory c) value);
     Some (cell_value c, \<lparr>cell_memory = s, cell_value = value\<rparr>) }"

section \<open>What the bytes represent\<close>

definition cell_rep :: "'a storable \<Rightarrow> bytes \<Rightarrow> 'a \<Rightarrow> bool" where
  "cell_rep T c x \<longleftrightarrow>
     (\<exists>bs. from_bytes T bs = Some x \<and> length bs \<le> U32_MAX \<and> 8 + length bs \<le> length c \<and>
       subrange c 0 3 = CELL_MAGIC \<and> subrange c 3 1 = [1] \<and>
       subrange c 4 4 = to_le_bytes 4 (length bs) \<and> subrange c 8 (length bs) = bs)"

lemma length_CELL_MAGIC [simp]: "length CELL_MAGIC = 3"
  by (simp add: CELL_MAGIC_def)

lemma cell_rep_written:
  assumes w: "wrote c 0 (CELL_MAGIC @ [1] @ to_le_bytes 4 (length bs) @ bs) c'"
    and "from_bytes T bs = Some x" "length bs \<le> U32_MAX"
  shows "cell_rep T c' x"
proof -
  note sub = subrange_wrote_inside[OF w]
  have "subrange c' 0 3 = CELL_MAGIC" "subrange c' 3 1 = [1]" "subrange c' 4 4 = to_le_bytes 4 (length bs)"
    "subrange c' 8 (length bs) = bs"
    using sub[of 0 3] sub[of 3 1] sub[of 4 4] sub[of 8 "length bs"]
    by (simp_all add: subrange_def del: to_le_bytes.simps)
  with assms(2,3) wrote_range[OF w] show ?thesis
    by (auto simp: cell_rep_def)
qed

locale stable_cell = memory M inv contents cap + storable_type T valid
  for M :: "'s memory_ops" and inv contents cap and T :: "'a storable" and valid
begin

lemma write_header_ok:
  assumes s: "inv s" and len: "8 + length bs \<le> length (contents s)"
  shows "ok (do { s \<leftarrow> write_op M s 0 CELL_MAGIC; s \<leftarrow> write_op M s 3 [of_nat CELL_LAYOUT_VERSION];
      s \<leftarrow> write_op M s 4 (to_le_bytes 4 (length bs)); s \<leftarrow> write_op M s HEADER_V1_SIZE bs; Some (Inr (), s) })
    (\<lambda>(r, s'). r = Inr () \<and> inv s' \<and> cap s' = cap s \<and>
      wrote (contents s) 0 (CELL_MAGIC @ [1] @ to_le_bytes 4 (length bs) @ bs) (contents s'))"
proof -
  obtain s1 where s1: "write_op M s 0 CELL_MAGIC = Some s1" "inv s1" "cap s1 = cap s"
    "length (contents s1) = length (contents s)" "wrote (contents s) 0 CELL_MAGIC (contents s1)"
    using write_ok[OF s, of 0 CELL_MAGIC] len by (auto elim: ok_obtain)
  obtain s2 where s2: "write_op M s1 3 [of_nat CELL_LAYOUT_VERSION] = Some s2" "inv s2" "cap s2 = cap s"
    "length (contents s2) = length (contents s)" "wrote (contents s1) 3 [1] (contents s2)"
    using write_ok[OF s1(2), of 3 "[of_nat CELL_LAYOUT_VERSION]"] len s1(3,4)
    by (auto simp: CELL_LAYOUT_VERSION_def elim: ok_obtain)
  obtain s3 where s3: "write_op M s2 4 (to_le_bytes 4 (length bs)) = Some s3" "inv s3" "cap s3 = cap s"
    "length (contents s3) = length (contents s)" "wrote (contents s2) 4 (to_le_bytes 4 (length bs)) (contents s3)"
    using write_ok[OF s2(2), of 4 "to_le_bytes 4 (length bs)"] len s2(3,4)
    by (auto simp del: to_le_bytes.simps elim: ok_obtain)
  obtain s4 where s4: "write_op M s3 HEADER_V1_SIZE bs = Some s4" "inv s4" "cap s4 = cap s"
    "wrote (contents s3) 8 bs (contents s4)"
    using write_ok[OF s3(2), of 8 bs] len s3(3,4) by (auto simp: HEADER_V1_SIZE_def elim: ok_obtain)
  have "wrote (contents s) 0 (CELL_MAGIC @ [1]) (contents s2)"
    using wrote_wrote[OF s1(5)] s2(5) by simp
  from wrote_wrote[OF this, of "to_le_bytes 4 (length bs)"] s3(5)
  have "wrote (contents s) 0 (CELL_MAGIC @ [1] @ to_le_bytes 4 (length bs)) (contents s3)"
    by (simp del: to_le_bytes.simps)
  from wrote_wrote[OF this, of bs] s4(4)
  have "wrote (contents s) 0 (CELL_MAGIC @ [1] @ to_le_bytes 4 (length bs) @ bs) (contents s4)"
    by (simp del: to_le_bytes.simps)
  with s4 show ?thesis
    by (simp add: s1(1) s2(1) s3(1) del: to_le_bytes.simps)
qed

text \<open>The pages \<open>flush_value\<close> asks for are the least number that makes the value fit.\<close>

lemma grow_by_pages:
  assumes s: "inv s" and lt: "length (contents s) < n + 8"
  defines "g \<equiv> (n + 8 + 65536 - length (contents s) - 1) div WASM_PAGE_SIZE"
  shows "n + 8 \<le> length (contents s) + g * WASM_PAGE_SIZE"
    and "length (contents s) div WASM_PAGE_SIZE + g \<le> cap s \<longleftrightarrow> n + 8 \<le> cap s * WASM_PAGE_SIZE"
proof -
  have eq: "n + 8 + 65536 - length (contents s) - 1 = n + 8 - length (contents s) + 65535"
    using lt by linarith
  show "n + 8 \<le> length (contents s) + g * WASM_PAGE_SIZE"
    unfolding g_def eq by (rule needed_pages(1)[OF s lt])
  show "length (contents s) div WASM_PAGE_SIZE + g \<le> cap s \<longleftrightarrow> n + 8 \<le> cap s * WASM_PAGE_SIZE"
    unfolding g_def eq by (rule needed_pages(2)[OF s lt])
qed

lemma flush_eq:
  assumes s: "inv s" and bs: "to_bytes T x = Some bs" "length bs \<le> U32_MAX"
  shows "cell_flush_value T M s x = do {
    (failed, s') \<leftarrow> (if length (contents s) < length bs + 8 then do {
        (r, s') \<leftarrow> grow_op M s ((length bs + 8 + 65536 - length (contents s) - 1) div WASM_PAGE_SIZE);
        Some (r < 0, s') }
      else Some (False, s));
    if failed then Some (Inl (ValueTooLarge (length bs)), s')
    else do {
      new_size \<leftarrow> size_op M s';
      bytes_now \<leftarrow> u64_mul new_size WASM_PAGE_SIZE;
      assert_that (bytes_now \<ge> length bs + 8);
      s \<leftarrow> write_op M s' 0 CELL_MAGIC; s \<leftarrow> write_op M s 3 [of_nat CELL_LAYOUT_VERSION];
      s \<leftarrow> write_op M s 4 (to_le_bytes 4 (length bs)); s \<leftarrow> write_op M s HEADER_V1_SIZE bs; Some (Inr (), s) } }"
proof -
  let ?L = "length (contents s)"
  have m: "u64_mul (?L div WASM_PAGE_SIZE) WASM_PAGE_SIZE = Some ?L"
    using length_le_max[OF s] size_bytes[OF s] by (simp only: u64_mul_def if_True)
  have cond: "(length bs > u64_saturating_sub ?L HEADER_V1_SIZE \<or> ?L div WASM_PAGE_SIZE = 0) = (?L < length bs + 8)"
  proof (cases "?L = 0")
    case False
    then have "WASM_PAGE_SIZE \<le> ?L"
      using page_law[OF s] by (auto intro: dvd_imp_le)
    then show ?thesis
      by (auto simp: u64_saturating_sub_def HEADER_V1_SIZE_def div_eq_0_iff)
  qed (simp add: HEADER_V1_SIZE_def u64_saturating_sub_def)
  have a: "u64_add (length bs) HEADER_V1_SIZE = Some (length bs + 8)"
    "u64_add (length bs + 8) WASM_PAGE_SIZE = Some (length bs + 8 + 65536)"
    using bs(2) by (simp_all add: u64_add_def HEADER_V1_SIZE_def)
  have b: "u64_sub (length bs + 8 + 65536) ?L = Some (length bs + 8 + 65536 - ?L)"
    "u64_sub (length bs + 8 + 65536 - ?L) 1 = Some (length bs + 8 + 65536 - ?L - 1)" if "?L < length bs + 8"
    using that by (simp_all add: u64_sub_def)
  have nf: "\<not> length bs > U32_MAX"
    using bs(2) by simp
  show ?thesis
    unfolding cell_flush_value_def bs(1) size_law[OF s] Let_def bind.bind_lunit m cond as_u32_id[OF bs(2)]
    using nf by (simp only: if_False a b bind.bind_lunit if_True cong: if_cong)
qed

lemma flush_write:
  assumes s: "inv s" and len: "length bs + 8 \<le> length (contents s)" and r: "from_bytes T bs = Some x" "length bs \<le> U32_MAX"
  shows "ok (do { new_size \<leftarrow> size_op M s; bytes_now \<leftarrow> u64_mul new_size WASM_PAGE_SIZE;
      assert_that (bytes_now \<ge> length bs + 8);
      s \<leftarrow> write_op M s 0 CELL_MAGIC; s \<leftarrow> write_op M s 3 [of_nat CELL_LAYOUT_VERSION];
      s \<leftarrow> write_op M s 4 (to_le_bytes 4 (length bs)); s \<leftarrow> write_op M s HEADER_V1_SIZE bs; Some (Inr (), s) })
    (\<lambda>(r, s'). r = Inr () \<and> inv s' \<and> cap s' = cap s \<and> cell_rep T (contents s') x)"
proof -
  have m: "u64_mul (length (contents s) div WASM_PAGE_SIZE) WASM_PAGE_SIZE = Some (length (contents s))"
    using length_le_max[OF s] size_bytes[OF s] by (simp only: u64_mul_def if_True)
  have "8 + length bs \<le> length (contents s)"
    using len by simp
  from write_header_ok[OF s this] len cell_rep_written[OF _ r] show ?thesis
    unfolding size_law[OF s] bind.bind_lunit m by (auto simp del: to_le_bytes.simps ok_bind elim!: ok_mono)
qed

lemma flush_ok:
  assumes s: "inv s" and x: "valid x" and bs: "to_bytes T x = Some bs" "length bs \<le> U32_MAX"
    and fits: "length bs + 8 \<le> cap s * WASM_PAGE_SIZE"
  shows "ok (cell_flush_value T M s x) (\<lambda>(r, s'). r = Inr () \<and> inv s' \<and> cap s' = cap s \<and> cell_rep T (contents s') x)"
proof -
  have r: "from_bytes T bs = Some x"
    using roundtrip_law[OF x] bs(1) by simp
  show ?thesis
  proof (cases "length (contents s) < length bs + 8")
    case False
    with flush_write[OF s _ r bs(2)] show ?thesis
      unfolding flush_eq[OF s bs] by (simp del: ok_bind to_le_bytes.simps)
  next
    case True
    let ?g = "(length bs + 8 + 65536 - length (contents s) - 1) div WASM_PAGE_SIZE"
    have "length (contents s) div WASM_PAGE_SIZE + ?g \<le> cap s"
      using grow_by_pages(2)[OF s True] fits by blast
    from grow_law[OF s this] obtain s1 zs where s1: "grow_op M s ?g = Some (int (length (contents s) div WASM_PAGE_SIZE), s1)"
      "inv s1" "cap s1 = cap s" "length zs = ?g * WASM_PAGE_SIZE" "contents s1 = contents s @ zs"
      by (auto elim!: ok_obtain)
    have "length bs + 8 \<le> length (contents s1)"
      using grow_by_pages(1)[OF s True] s1(4,5) by simp
    from flush_write[OF s1(2) this r bs(2)] s1(3) True show ?thesis
      unfolding flush_eq[OF s bs] s1(1) by (simp del: ok_bind to_le_bytes.simps)
  qed
qed

text \<open>If the memory cannot grow, \<open>flush_value\<close> fails before it writes anything.\<close>

lemma flush_fail:
  assumes s: "inv s" and bs: "to_bytes T x = Some bs" "length bs \<le> U32_MAX"
    and over: "cap s * WASM_PAGE_SIZE < length bs + 8" and r: "cell_flush_value T M s x = Some (r, s')"
  shows "r = Inl (ValueTooLarge (length bs)) \<and> inv s' \<and> contents s' = contents s \<and> cap s' = cap s"
proof -
  let ?g = "(length bs + 8 + 65536 - length (contents s) - 1) div WASM_PAGE_SIZE"
  have lt: "length (contents s) < length bs + 8"
    using over size_cap_law[OF s] by linarith
  then have over': "cap s < length (contents s) div WASM_PAGE_SIZE + ?g"
    using grow_by_pages(2)[OF s lt] over by linarith
  obtain v s1 where g: "grow_op M s ?g = Some (v, s1)"
    using r lt unfolding flush_eq[OF s bs] by (auto simp: bind_eq_Some_conv)
  from grow_over_law[OF s over' g] r lt g show ?thesis
    unfolding flush_eq[OF s bs] by simp
qed

lemma flush_too_large:
  assumes "to_bytes T x = Some bs" "U32_MAX < length bs"
  shows "cell_flush_value T M s x = Some (Inl (ValueTooLarge (length bs)), s)"
  using assms by (simp add: cell_flush_value_def)

lemma new_cell_ok:
  assumes "inv s" "valid x" "to_bytes T x = Some bs" "length bs \<le> U32_MAX" "length bs + 8 \<le> cap s * WASM_PAGE_SIZE"
  shows "ok (cell_new T M s x) (\<lambda>c. cell_value c = x \<and> inv (cell_memory c) \<and>
    cap (cell_memory c) = cap s \<and> cell_rep T (contents (cell_memory c)) x)"
  using flush_ok[OF assms] by (auto simp: cell_new_def elim!: ok_mono)

lemma set_cell_ok:
  assumes "inv (cell_memory c)" "valid x" "to_bytes T x = Some bs" "length bs \<le> U32_MAX"
    and "length bs + 8 \<le> cap (cell_memory c) * WASM_PAGE_SIZE"
  shows "ok (cell_set T M c x) (\<lambda>(old, c'). old = cell_value c \<and> cell_value c' = x \<and> inv (cell_memory c') \<and>
    cap (cell_memory c') = cap (cell_memory c) \<and> cell_rep T (contents (cell_memory c')) x)"
  using flush_ok[OF assms] by (auto simp: cell_set_def elim!: ok_mono)

lemma nonempty_pages: "inv s \<Longrightarrow> 8 \<le> length (contents s) \<Longrightarrow> size_op M s \<noteq> Some 0"
  using size_law[of s] page_law[of s] by (auto simp: div_eq_0_iff dest!: dvd_imp_le)

lemma read_cell_header_ok:
  assumes s: "inv s" and c: "8 \<le> length (contents s)"
  shows "ok (cell_read_header M s) (\<lambda>(h, s'). inv s' \<and> contents s' = contents s \<and> cap s' = cap s \<and>
    h = \<lparr>ch_magic = subrange (contents s) 0 3, ch_version = unat (contents s ! 3),
         ch_value_length = from_le_bytes (subrange (contents s) 4 4)\<rparr>)"
  unfolding cell_read_header_def using c
  by (auto intro!: s ok_mono[OF read_law])

lemma reopen_cell_ok:
  assumes s: "inv s" and rep: "cell_rep T (contents s) x"
  shows "ok (cell_init T M s d) (\<lambda>c. cell_value c = x \<and> inv (cell_memory c) \<and>
    contents (cell_memory c) = contents s \<and> cap (cell_memory c) = cap s)"
proof -
  obtain bs where bs: "from_bytes T bs = Some x" "length bs \<le> U32_MAX" "8 + length bs \<le> length (contents s)"
    "subrange (contents s) 0 3 = CELL_MAGIC" "subrange (contents s) 3 1 = [1]"
    "subrange (contents s) 4 4 = to_le_bytes 4 (length bs)" "subrange (contents s) 8 (length bs) = bs"
    using rep by (auto simp: cell_rep_def)
  obtain n where n: "size_op M s = Some (Suc n)"
    using nonempty_pages[OF s] size_law[OF s] bs(3) by (metis add_leD1 not0_implies_Suc)
  have v: "unat (contents s ! 3) = CELL_LAYOUT_VERSION"
    using bs(3,5) nth_subrange[of 0 1 3 "contents s"] by (simp add: CELL_LAYOUT_VERSION_def del: nth_subrange)
  have l: "from_le_bytes (subrange (contents s) 4 4) = length bs"
    unfolding bs(6) using bs(2) by (intro from_to_le_bytes_id) simp
  obtain s1 where s1: "cell_read_header M s = Some (\<lparr>ch_magic = CELL_MAGIC, ch_version = CELL_LAYOUT_VERSION,
      ch_value_length = length bs\<rparr>, s1)" "inv s1" "contents s1 = contents s" "cap s1 = cap s"
    using read_cell_header_ok[OF s] bs(3,4) v l by (auto elim: ok_obtain)
  have "ok (cell_read_value T M s1 (length bs)) (\<lambda>(v, s'). v = x \<and> inv s' \<and> contents s' = contents s \<and> cap s' = cap s)"
    unfolding cell_read_value_def using bs(1,3,7) s1
    by (auto simp: HEADER_V1_SIZE_def intro!: ok_mono[OF read_to_vec_ok[OF s1(2)]])
  then show ?thesis
    by (auto simp: cell_init_def n s1(1) elim!: ok_mono)
qed

lemma init_other_version:
  assumes s: "inv s" and c: "8 \<le> length (contents s)"
    and h: "subrange (contents s) 0 3 = CELL_MAGIC" "unat (contents s ! 3) \<noteq> CELL_LAYOUT_VERSION"
  shows "cell_init T M s d = None"
proof -
  obtain n where n: "size_op M s = Some (Suc n)"
    using nonempty_pages[OF s c] size_law[OF s] by (metis not0_implies_Suc)
  then show ?thesis
    using read_cell_header_ok[OF s c] h by (auto simp: cell_init_def ok_def)
qed

lemma init_other_magic:
  assumes s: "inv s" and x: "valid d" and bs: "to_bytes T d = Some bs" "length bs \<le> U32_MAX"
    and fits: "length bs + 8 \<le> cap s * WASM_PAGE_SIZE"
    and h: "contents s = [] \<or> subrange (contents s) 0 3 \<noteq> CELL_MAGIC"
  shows "ok (cell_init T M s d) (\<lambda>c. cell_value c = d \<and> inv (cell_memory c) \<and>
    cap (cell_memory c) = cap s \<and> cell_rep T (contents (cell_memory c)) d)"
proof (cases "contents s = []")
  case True
  then show ?thesis
    using new_cell_ok[OF s x bs fits] size_law[OF s] by (simp add: cell_init_def)
next
  case False
  then have c: "8 \<le> length (contents s)"
    using page_law[OF s] by (auto dest!: dvd_imp_le)
  obtain n where n: "size_op M s = Some (Suc n)"
    using nonempty_pages[OF s c] size_law[OF s] by (metis not0_implies_Suc)
  obtain hd s1 where s1: "cell_read_header M s = Some (hd, s1)" "ch_magic hd \<noteq> CELL_MAGIC" "inv s1" "cap s1 = cap s"
    using read_cell_header_ok[OF s c] h False by (auto elim!: ok_obtain)
  show ?thesis
    using new_cell_ok[OF s1(3) x bs] fits s1 by (simp add: cell_init_def n)
qed

lemma flush_cases:
  assumes s: "inv s" and x: "valid x" and bs: "to_bytes T x = Some bs"
    and r: "cell_flush_value T M s x = Some (r, s')"
  shows "inv s' \<and> cap s' = cap s \<and>
    (case r of
       Inr _ \<Rightarrow> cell_rep T (contents s') x
     | Inl (ValueTooLarge n) \<Rightarrow> n = length bs \<and> contents s' = contents s \<and>
         (U32_MAX < length bs \<or> cap s * WASM_PAGE_SIZE < length bs + 8))"
proof -
  consider "U32_MAX < length bs" | "length bs \<le> U32_MAX" "length bs + 8 \<le> cap s * WASM_PAGE_SIZE"
    | "length bs \<le> U32_MAX" "cap s * WASM_PAGE_SIZE < length bs + 8"
    by linarith
  then show ?thesis
  proof cases
    case 1
    with flush_too_large[OF bs, of s] r s show ?thesis by auto
  next
    case 2
    from okD[OF flush_ok[OF s x bs 2] r] show ?thesis by simp
  next
    case 3
    with flush_fail[OF s bs 3(1,2) r] show ?thesis by simp
  qed
qed

end

section \<open>Properties\<close>

interpretation u64_cell: stable_cell VectorMemory vec_inv "\<lambda>m. m" vec_cap u64_storable "\<lambda>_. True"
  ..

interpretation string_cell: stable_cell VectorMemory vec_inv "\<lambda>m. m" vec_cap string_storable utf8_valid
  ..

text \<open>
  C23. A cell keeps its value across an upgrade: \<open>set\<close> returns the old value, and a cell that is
  initialized from the memory afterwards, with any default, holds the value that was set.
\<close>

theorem cell_set_survives_reopen:
  assumes "stable_cell M minv contents cap T valid"
    and "minv (cell_memory c)" "valid x" "to_bytes T x = Some bs" "length bs \<le> U32_MAX"
    and "length bs + 8 \<le> cap (cell_memory c) * WASM_PAGE_SIZE"
  shows "ok (do { (old, c1) \<leftarrow> cell_set T M c x; c2 \<leftarrow> cell_init T M (cell_into_memory c1) d; Some (old, c1, c2) })
    (\<lambda>(old, c1, c2). old = cell_get c \<and> cell_get c1 = x \<and> cell_get c2 = x \<and> minv (cell_memory c2))"
  using stable_cell.set_cell_ok[OF assms]
  by (auto simp: cell_into_memory_def cell_get_def elim!: ok_mono
      intro!: ok_mono[OF stable_cell.reopen_cell_ok[OF assms(1), of _ x]])

theorem cell_set_survives_reopen_witness:
  "ok (do { (old, c1) \<leftarrow> cell_set u64_storable VectorMemory \<lparr>cell_memory = [], cell_value = 1\<rparr> 42;
        c2 \<leftarrow> cell_init u64_storable VectorMemory (cell_into_memory c1) 7; Some (old, c1, c2) })
    (\<lambda>(old, c1, c2). old = 1 \<and> cell_get c2 = 42)"
  using cell_set_survives_reopen[OF u64_cell.stable_cell_axioms, of "\<lparr>cell_memory = [], cell_value = 1\<rparr>" 42
      "to_be_bytes 8 42" 7]
  by (auto simp: u64_storable_def word_to_bytes_def vec_cap_def VEC_MAX_PAGES_val cell_get_def elim!: ok_mono)

text \<open>
  C29. Writing a value is all or nothing: \<open>flush_value\<close> either succeeds, and then the memory holds
  the value, or it reports the size of a value that is too large, and then the memory is unchanged
  and either the value exceeds \<open>u32::MAX\<close> bytes or the memory cannot grow to hold it.
\<close>

theorem cell_flush_all_or_nothing:
  assumes "stable_cell M minv contents cap T valid"
    and "minv s" "valid x" "to_bytes T x = Some bs" "cell_flush_value T M s x = Some (r, s')"
  shows "minv s' \<and> (case r of
      Inr _ \<Rightarrow> cell_rep T (contents s') x
    | Inl (ValueTooLarge n) \<Rightarrow> n = length bs \<and> contents s' = contents s \<and>
        (U32_MAX < length bs \<or> cap s * WASM_PAGE_SIZE < length bs + 8))"
  using stable_cell.flush_cases[OF assms] by simp

theorem cell_flush_all_or_nothing_witness:
  "\<exists>s'. cell_flush_value u64_storable VectorMemory [] 42 = Some (Inr (), s') \<and> cell_rep u64_storable s' 42"
proof -
  have "ok (cell_flush_value u64_storable VectorMemory [] 42) (\<lambda>(r, s'). r = Inr ())"
    by (rule ok_mono[OF u64_cell.flush_ok[of "[]" 42 "to_be_bytes 8 42"]])
      (auto simp: u64_storable_def word_to_bytes_def vec_cap_def VEC_MAX_PAGES_val)
  then obtain s' where s': "cell_flush_value u64_storable VectorMemory [] 42 = Some (Inr (), s')"
    by (auto elim: ok_obtain)
  moreover have "to_bytes u64_storable 42 = Some (to_be_bytes 8 42)"
    by (simp add: u64_storable_def word_to_bytes_def)
  ultimately show ?thesis
    using cell_flush_all_or_nothing[OF u64_cell.stable_cell_axioms _ _ _ s', of "to_be_bytes 8 42"] by auto
qed

end
