(* ===== verification/Log.thy ===== *)
theory Log
  imports Memory Storable
begin

text \<open>
  The append-only log of \<open>src/src/log.rs\<close> over two memories, one for the index and one for the
  data. The index holds the running sums of the entry sizes, so entry \<open>i\<close> lies in the data between
  the sums \<open>i - 1\<close> and \<open>i\<close>. The locale \<open>stable_log\<close> proves on any two memories that the operations
  act on the represented list of entries: append adds at the end, a failed append changes nothing,
  reading, iterating and reopening return what was appended.
\<close>

section \<open>The code\<close>

definition INDEX_MAGIC :: bytes where "INDEX_MAGIC = [71, 76, 73]"
definition DATA_MAGIC :: bytes where "DATA_MAGIC = [71, 76, 68]"
definition LOG_LAYOUT_VERSION :: nat where "LOG_LAYOUT_VERSION = 1"
definition LOG_HEADER_V1_SIZE :: nat where "LOG_HEADER_V1_SIZE = 4"
definition RESERVED_HEADER_SIZE :: nat where "RESERVED_HEADER_SIZE = 28"
definition HEADER_OFFSET :: nat where "HEADER_OFFSET = LOG_HEADER_V1_SIZE + RESERVED_HEADER_SIZE"

record log_header =
  lh_magic :: bytes
  lh_version :: nat

datatype log_write_error = LogGrowFailed (lgf_current_size: nat) (lgf_delta: nat)

datatype no_such_entry = NoSuchEntry

record ('i, 'd) log =
  index_memory :: 'i
  data_memory :: 'd

text \<open>\<open>From<GrowFailed> for WriteError\<close>\<close>

fun write_error_from :: "grow_failed \<Rightarrow> log_write_error" where
  "write_error_from (GrowFailed current_size delta) = LogGrowFailed current_size delta"

definition log_write_header :: "'s memory_ops \<Rightarrow> 's \<Rightarrow> log_header \<Rightarrow> 's option" where
  "log_write_header M s header = do {
     size \<leftarrow> size_op M s;
     s \<leftarrow> (if size < 1 then do {
            (r, s) \<leftarrow> grow_op M s 1;
            assert_that (r \<noteq> -1);
            Some s }
          else Some s);
     s \<leftarrow> write_op M s 0 (lh_magic header);
     write_op M s 3 [of_nat (lh_version header)] }"

definition log_read_header :: "'s memory_ops \<Rightarrow> 's \<Rightarrow> (log_header \<times> 's) option" where
  "log_read_header M s = do {
     (magic, s) \<leftarrow> read_op M s 0 3;
     (version, s) \<leftarrow> read_op M s 3 1;
     Some (\<lparr>lh_magic = magic, lh_version = unat (version ! 0)\<rparr>, s) }"

definition log_new :: "'i memory_ops \<Rightarrow> 'd memory_ops \<Rightarrow> 'i \<Rightarrow> 'd \<Rightarrow> ('i, 'd) log option" where
  "log_new MI MD i d = do {
     i \<leftarrow> log_write_header MI i \<lparr>lh_magic = INDEX_MAGIC, lh_version = LOG_LAYOUT_VERSION\<rparr>;
     d \<leftarrow> log_write_header MD d \<lparr>lh_magic = DATA_MAGIC, lh_version = LOG_LAYOUT_VERSION\<rparr>;
     i \<leftarrow> write_u64 MI i HEADER_OFFSET 0;
     Some \<lparr>index_memory = i, data_memory = d\<rparr> }"

text \<open>
  The loop of \<open>validate_v1_index\<close> over the entries from \<open>i\<close> on; an error carries the index and the two
  offsets of the message.
\<close>

function validate_loop ::
  "'i memory_ops \<Rightarrow> 'i \<Rightarrow> nat \<Rightarrow> nat \<Rightarrow> nat \<Rightarrow> ((nat \<times> nat \<times> nat + unit) \<times> 'i) option" where
  "validate_loop MI s i num_entries prev_entry =
     (if i < num_entries then do {
        a \<leftarrow> u64_mul i 8;
        addr \<leftarrow> u64_add (HEADER_OFFSET + 8) a;
        (entry, s) \<leftarrow> read_u64 MI s addr;
        if entry < prev_entry then Some (Inl (i, entry, prev_entry), s)
        else validate_loop MI s (i + 1) num_entries entry }
      else Some (Inr (), s))"
  by pat_completeness auto
termination
  by (relation "measure (\<lambda>(_, _, i, n, _). n - i)") auto

declare validate_loop.simps [simp del]

definition validate_v1_index :: "'i memory_ops \<Rightarrow> 'i \<Rightarrow> ((nat \<times> nat \<times> nat + unit) \<times> 'i) option" where
  "validate_v1_index MI s = do {
     (num_entries, s) \<leftarrow> read_u64 MI s HEADER_OFFSET;
     if num_entries = 0 then Some (Inr (), s)
     else do {
       (prev_entry, s) \<leftarrow> read_u64 MI s (HEADER_OFFSET + 8);
       validate_loop MI s 1 num_entries prev_entry } }"

definition log_init :: "'i memory_ops \<Rightarrow> 'd memory_ops \<Rightarrow> 'i \<Rightarrow> 'd \<Rightarrow> ('i, 'd) log option" where
  "log_init MI MD i d = do {
     size \<leftarrow> size_op MD d;
     if size = 0 then log_new MI MD i d
     else do {
       (data_header, d) \<leftarrow> log_read_header MD d;
       if lh_magic data_header \<noteq> DATA_MAGIC then log_new MI MD i d
       else do {
         assert_that (lh_version data_header = LOG_LAYOUT_VERSION);
         (index_header, i) \<leftarrow> log_read_header MI i;
         assert_that (lh_magic index_header = INDEX_MAGIC);
         assert_that (lh_version index_header = LOG_LAYOUT_VERSION);
         (r, i) \<leftarrow> validate_v1_index MI i;
         assert_that (r = Inr ());
         Some \<lparr>index_memory = i, data_memory = d\<rparr> } } }"

definition log_into_memories :: "('i, 'd) log \<Rightarrow> 'i \<times> 'd" where
  "log_into_memories l = (index_memory l, data_memory l)"

definition index_entry_offset :: "nat \<Rightarrow> nat option" where
  "index_entry_offset idx = do {
     a \<leftarrow> u64_mul idx 8;
     u64_add (HEADER_OFFSET + 8) a }"

definition log_len :: "'i memory_ops \<Rightarrow> ('i, 'd) log \<Rightarrow> (nat \<times> ('i, 'd) log) option" where
  "log_len MI l = do {
     (n, i) \<leftarrow> read_u64 MI (index_memory l) HEADER_OFFSET;
     Some (n, l\<lparr>index_memory := i\<rparr>) }"

definition log_is_empty :: "'i memory_ops \<Rightarrow> ('i, 'd) log \<Rightarrow> (bool \<times> ('i, 'd) log) option" where
  "log_is_empty MI l = do { (n, l) \<leftarrow> log_len MI l; Some (n = 0, l) }"

definition log_clear :: "'i memory_ops \<Rightarrow> ('i, 'd) log \<Rightarrow> ('i, 'd) log option" where
  "log_clear MI l = do {
     i \<leftarrow> write_u64 MI (index_memory l) HEADER_OFFSET 0;
     Some (l\<lparr>index_memory := i\<rparr>) }"

text \<open>\<open>read_u64(&self.index_memory, self.index_entry_offset(idx))\<close>\<close>

definition read_index :: "'i memory_ops \<Rightarrow> ('i, 'd) log \<Rightarrow> nat \<Rightarrow> (nat \<times> ('i, 'd) log) option" where
  "read_index MI l idx = do {
     addr \<leftarrow> index_entry_offset idx;
     (v, i) \<leftarrow> read_u64 MI (index_memory l) addr;
     Some (v, l\<lparr>index_memory := i\<rparr>) }"

definition index_size_bytes :: "'i memory_ops \<Rightarrow> ('i, 'd) log \<Rightarrow> (nat \<times> ('i, 'd) log) option" where
  "index_size_bytes MI l = do {
     (num_entries, l) \<leftarrow> log_len MI l;
     addr \<leftarrow> index_entry_offset num_entries;
     Some (addr, l) }"

definition log_size_bytes :: "'i memory_ops \<Rightarrow> ('i, 'd) log \<Rightarrow> (nat \<times> ('i, 'd) log) option" where
  "log_size_bytes MI l = do {
     (num_entries, l) \<leftarrow> log_len MI l;
     if num_entries = 0 then Some (0, l) else read_index MI l (num_entries - 1) }"

definition data_size_bytes :: "'i memory_ops \<Rightarrow> ('i, 'd) log \<Rightarrow> (nat \<times> ('i, 'd) log) option" where
  "data_size_bytes MI l = do {
     (n, l) \<leftarrow> log_size_bytes MI l;
     m \<leftarrow> u64_add n HEADER_OFFSET;
     Some (m, l) }"

definition entry_meta :: "'i memory_ops \<Rightarrow> ('i, 'd) log \<Rightarrow> nat \<Rightarrow> ((nat \<times> nat) option \<times> ('i, 'd) log) option" where
  "entry_meta MI l idx = do {
     (len, l) \<leftarrow> log_len MI l;
     if len \<le> idx then Some (None, l)
     else if idx = 0 then do {
       (n, l) \<leftarrow> read_index MI l 0;
       Some (Some (0, n), l) }
     else do {
       (offset, l) \<leftarrow> read_index MI l (idx - 1);
       (next_off, l) \<leftarrow> read_index MI l idx;
       assert_that (offset \<le> next_off);
       n \<leftarrow> u64_sub next_off offset;
       Some (Some (offset, n), l) } }"

definition log_read_entry ::
  "'i memory_ops \<Rightarrow> 'd memory_ops \<Rightarrow> ('i, 'd) log \<Rightarrow> nat \<Rightarrow> ((no_such_entry + bytes) \<times> ('i, 'd) log) option" where
  "log_read_entry MI MD l idx = do {
     (m, l) \<leftarrow> entry_meta MI l idx;
     case m of
       None \<Rightarrow> Some (Inl NoSuchEntry, l)
     | Some (offset, len) \<Rightarrow> do {
         addr \<leftarrow> u64_add HEADER_OFFSET offset;
         (buf, d) \<leftarrow> read_to_vec MD (data_memory l) addr len;
         Some (Inr buf, l\<lparr>data_memory := d\<rparr>) } }"

definition log_get ::
  "'a storable \<Rightarrow> 'i memory_ops \<Rightarrow> 'd memory_ops \<Rightarrow> ('i, 'd) log \<Rightarrow> nat \<Rightarrow> ('a option \<times> ('i, 'd) log) option" where
  "log_get T MI MD l idx = do {
     (r, l) \<leftarrow> log_read_entry MI MD l idx;
     case r of
       Inl _ \<Rightarrow> Some (None, l)
     | Inr buf \<Rightarrow> do { x \<leftarrow> from_bytes T buf; Some (Some x, l) } }"

definition log_first ::
  "'a storable \<Rightarrow> 'i memory_ops \<Rightarrow> 'd memory_ops \<Rightarrow> ('i, 'd) log \<Rightarrow> ('a option \<times> ('i, 'd) log) option" where
  "log_first T MI MD l = log_get T MI MD l 0"

definition log_last ::
  "'a storable \<Rightarrow> 'i memory_ops \<Rightarrow> 'd memory_ops \<Rightarrow> ('i, 'd) log \<Rightarrow> ('a option \<times> ('i, 'd) log) option" where
  "log_last T MI MD l = do {
     (len, l) \<leftarrow> log_len MI l;
     if len = 0 then Some (None, l) else log_get T MI MD l (len - 1) }"

definition log_append ::
  "'a storable \<Rightarrow> 'i memory_ops \<Rightarrow> 'd memory_ops \<Rightarrow> ('i, 'd) log \<Rightarrow> 'a \<Rightarrow>
   ((log_write_error + nat) \<times> ('i, 'd) log) option" where
  "log_append T MI MD l item = do {
     (idx, l) \<leftarrow> log_len MI l;
     (data_offset, l) \<leftarrow> (if idx = 0 then Some (0, l) else read_index MI l (idx - 1));
     bs \<leftarrow> to_bytes T item;
     new_offset \<leftarrow> u64_add data_offset (length bs);
     entry_offset \<leftarrow> u64_add HEADER_OFFSET data_offset;
     assert_that (new_offset \<ge> data_offset);
     (r, d) \<leftarrow> safe_write MD (data_memory l) entry_offset bs;
     let l = l\<lparr>data_memory := d\<rparr>;
     case r of
       Inl e \<Rightarrow> Some (Inl (write_error_from e), l)
     | Inr _ \<Rightarrow> do {
         addr \<leftarrow> index_entry_offset idx;
         (r, i) \<leftarrow> safe_write MI (index_memory l) addr (to_le_bytes 8 new_offset);
         let l = l\<lparr>index_memory := i\<rparr>;
         case r of
           Inl e \<Rightarrow> Some (Inl (write_error_from e), l)
         | Inr _ \<Rightarrow> do {
             n \<leftarrow> u64_add idx 1;
             i \<leftarrow> write_u64 MI (index_memory l) HEADER_OFFSET n;
             let l = l\<lparr>index_memory := i\<rparr>;
             (got, l) \<leftarrow> log_get T MI MD l idx;
             x \<leftarrow> got;
             again \<leftarrow> to_bytes T x;
             assert_that (again = bs);
             Some (Inr idx, l) } } }"

section \<open>Iterators\<close>

text \<open>The position; the buffer of the iterator is overwritten by every read.\<close>

record log_iter =
  li_pos :: nat

definition log_iter_new :: "('i, 'd) log \<Rightarrow> log_iter" where
  "log_iter_new l = \<lparr>li_pos = 0\<rparr>"

definition li_next ::
  "'a storable \<Rightarrow> 'i memory_ops \<Rightarrow> 'd memory_ops \<Rightarrow> ('i, 'd) log \<Rightarrow> log_iter \<Rightarrow>
   ('a option \<times> log_iter \<times> ('i, 'd) log) option" where
  "li_next T MI MD l it = do {
     (r, l) \<leftarrow> log_read_entry MI MD l (li_pos it);
     case r of
       Inr buf \<Rightarrow> do {
         x \<leftarrow> from_bytes T buf;
         Some (Some x, it\<lparr>li_pos := u64_saturating_add (li_pos it) 1\<rparr>, l) }
     | Inl _ \<Rightarrow> Some (None, it, l) }"

definition li_size_hint :: "'i memory_ops \<Rightarrow> ('i, 'd) log \<Rightarrow> log_iter \<Rightarrow> (nat \<times> ('i, 'd) log) option" where
  "li_size_hint MI l it = do {
     (len, l) \<leftarrow> log_len MI l;
     Some (u64_saturating_sub len (li_pos it), l) }"

definition li_count :: "'i memory_ops \<Rightarrow> ('i, 'd) log \<Rightarrow> log_iter \<Rightarrow> (nat \<times> ('i, 'd) log) option" where
  "li_count MI l it = do {
     (len, l) \<leftarrow> log_len MI l;
     let n = u64_saturating_sub len (li_pos it);
     assert_that (n \<le> U64_MAX);
     Some (n, l) }"

definition li_nth ::
  "'a storable \<Rightarrow> 'i memory_ops \<Rightarrow> 'd memory_ops \<Rightarrow> ('i, 'd) log \<Rightarrow> log_iter \<Rightarrow> nat \<Rightarrow>
   ('a option \<times> log_iter \<times> ('i, 'd) log) option" where
  "li_nth T MI MD l it n = li_next T MI MD l (it\<lparr>li_pos := u64_saturating_add (li_pos it) n\<rparr>)"

text \<open>\<open>collect\<close>: \<open>next\<close> until it returns \<open>None\<close>.\<close>

partial_function (option) li_collect ::
  "'a storable \<Rightarrow> 'i memory_ops \<Rightarrow> 'd memory_ops \<Rightarrow> ('i, 'd) log \<Rightarrow> log_iter \<Rightarrow> ('a list \<times> ('i, 'd) log) option" where
  "li_collect T MI MD l it = do {
     (r, it, l) \<leftarrow> li_next T MI MD l it;
     case r of
       None \<Rightarrow> Some ([], l)
     | Some x \<Rightarrow> do { (xs, l) \<leftarrow> li_collect T MI MD l it; Some (x # xs, l) } }"

text \<open>
  The iterator over a log in a thread-local variable borrows the log for each step; the log may
  change between the steps.
\<close>

record tl_iter =
  tl_pos :: nat

definition iter_thread_local :: "tl_iter" where
  "iter_thread_local = \<lparr>tl_pos = 0\<rparr>"

definition tl_next ::
  "'a storable \<Rightarrow> 'i memory_ops \<Rightarrow> 'd memory_ops \<Rightarrow> ('i, 'd) log \<Rightarrow> tl_iter \<Rightarrow>
   ('a option \<times> tl_iter \<times> ('i, 'd) log) option" where
  "tl_next T MI MD l it = do {
     (r, l) \<leftarrow> log_read_entry MI MD l (tl_pos it);
     case r of
       Inr buf \<Rightarrow> do {
         x \<leftarrow> from_bytes T buf;
         Some (Some x, it\<lparr>tl_pos := u64_saturating_add (tl_pos it) 1\<rparr>, l) }
     | Inl _ \<Rightarrow> Some (None, it, l) }"

definition tl_size_hint :: "'i memory_ops \<Rightarrow> ('i, 'd) log \<Rightarrow> tl_iter \<Rightarrow> (nat \<times> ('i, 'd) log) option" where
  "tl_size_hint MI l it = do {
     (count, l) \<leftarrow> log_len MI l;
     Some (u64_saturating_sub count (tl_pos it), l) }"

definition tl_count :: "'i memory_ops \<Rightarrow> ('i, 'd) log \<Rightarrow> tl_iter \<Rightarrow> (nat \<times> ('i, 'd) log) option" where
  "tl_count MI l it = tl_size_hint MI l it"

definition tl_nth ::
  "'a storable \<Rightarrow> 'i memory_ops \<Rightarrow> 'd memory_ops \<Rightarrow> ('i, 'd) log \<Rightarrow> tl_iter \<Rightarrow> nat \<Rightarrow>
   ('a option \<times> tl_iter \<times> ('i, 'd) log) option" where
  "tl_nth T MI MD l it n = tl_next T MI MD l (it\<lparr>tl_pos := u64_saturating_add (tl_pos it) n\<rparr>)"

section \<open>What the bytes represent\<close>

text \<open>The offset in the data at which entry \<open>i\<close> starts.\<close>

definition ends :: "bytes list \<Rightarrow> nat \<Rightarrow> nat" where
  "ends bss i = length (concat (take i bss))"

definition log_index :: "bytes \<Rightarrow> bytes list \<Rightarrow> bool" where
  "log_index c bss \<longleftrightarrow>
     WASM_PAGE_SIZE \<le> length c \<and> subrange c 0 3 = INDEX_MAGIC \<and> subrange c 3 1 = [1] \<and>
     length bss \<le> U64_MAX \<and> subrange c 32 8 = to_le_bytes 8 (length bss) \<and> 40 + 8 * length bss \<le> length c \<and>
     (\<forall>i < length bss. subrange c (40 + 8 * i) 8 = to_le_bytes 8 (ends bss (Suc i)))"

definition log_data :: "bytes \<Rightarrow> bytes list \<Rightarrow> bool" where
  "log_data c bss \<longleftrightarrow>
     WASM_PAGE_SIZE \<le> length c \<and> subrange c 0 3 = DATA_MAGIC \<and> subrange c 3 1 = [1] \<and>
     32 + length (concat bss) \<le> length c \<and> subrange c 32 (length (concat bss)) = concat bss"

definition log_items :: "'a storable \<Rightarrow> bytes list \<Rightarrow> 'a list \<Rightarrow> bool" where
  "log_items T bss xs \<longleftrightarrow> list_all2 (\<lambda>bs x. from_bytes T bs = Some x) bss xs"

lemma length_magics [simp]: "length INDEX_MAGIC = 3" "length DATA_MAGIC = 3"
  by (simp_all add: INDEX_MAGIC_def DATA_MAGIC_def)

lemma HEADER_OFFSET_val: "HEADER_OFFSET = 32"
  by (simp add: HEADER_OFFSET_def LOG_HEADER_V1_SIZE_def RESERVED_HEADER_SIZE_def)

lemma ends_0 [simp]: "ends bss 0 = 0"
  by (simp add: ends_def)

lemma ends_Suc: "i < length bss \<Longrightarrow> ends bss (Suc i) = ends bss i + length (bss ! i)"
  by (simp add: ends_def take_Suc_conv_app_nth)

lemma ends_all: "length bss \<le> n \<Longrightarrow> ends bss n = length (concat bss)"
  by (simp add: ends_def)

lemma ends_append: "i \<le> length bss \<Longrightarrow> ends (bss @ [b]) i = ends bss i"
  by (simp add: ends_def)

lemma ends_le_total: "ends bss i \<le> length (concat bss)"
proof -
  have "concat bss = concat (take i bss) @ concat (drop i bss)"
    by (metis append_take_drop_id concat_append)
  then show ?thesis
    by (simp add: ends_def)
qed

lemma entry_in_concat:
  assumes "i < length bss"
  shows "subrange (concat bss) (ends bss i) (length (bss ! i)) = bss ! i"
proof -
  have "concat bss = concat (take i bss) @ bss ! i @ concat (drop (Suc i) bss)"
    using assms by (subst id_take_nth_drop[of i bss]) simp_all
  then show ?thesis
    by (simp add: ends_def subrange_middle)
qed

lemma log_data_entry:
  assumes "log_data c bss" "i < length bss"
  shows "32 + ends bss i + length (bss ! i) \<le> length c"
    and "subrange c (32 + ends bss i) (length (bss ! i)) = bss ! i"
proof -
  have le: "ends bss i + length (bss ! i) \<le> length (concat bss)"
    using ends_Suc[OF assms(2)] ends_le_total[of bss "Suc i"] by simp
  then show "32 + ends bss i + length (bss ! i) \<le> length c"
    using assms(1) by (simp add: log_data_def)
  have "subrange c (32 + ends bss i) (length (bss ! i)) =
      subrange (subrange c 32 (length (concat bss))) (ends bss i) (length (bss ! i))"
    by (rule subrange_subrange[symmetric]) (rule le)
  then show "subrange c (32 + ends bss i) (length (bss ! i)) = bss ! i"
    using assms(1) entry_in_concat[OF assms(2)] by (simp add: log_data_def)
qed

text \<open>Appending to the data, to the index, and updating the number of entries.\<close>

lemma log_data_append:
  assumes d: "log_data c bss" and w: "wrote c (32 + length (concat bss)) bs c'"
  shows "log_data c' bss" and "log_data c' (bss @ [bs])"
proof -
  have len: "WASM_PAGE_SIZE \<le> length c" "32 + length (concat bss) \<le> length c"
    using d by (simp_all add: log_data_def)
  then have fr: "subrange c' 0 3 = subrange c 0 3" "subrange c' 3 1 = subrange c 3 1"
    "subrange c' 32 (length (concat bss)) = subrange c 32 (length (concat bss))"
    by (auto intro!: subrange_wrote_other[OF w])
  then show "log_data c' bss"
    using d wrote_length[OF w] by (simp add: log_data_def)
  have "subrange c' 32 (length (concat bss) + length bs) = concat bss @ bs"
    unfolding subrange_split using fr(3) d subrange_wrote_same[OF w] by (simp add: log_data_def)
  then show "log_data c' (bss @ [bs])"
    using fr d wrote_length[OF w] wrote_range[OF w] by (simp add: log_data_def)
qed

lemma log_index_append:
  assumes i: "log_index c bss" and n: "length bss < U64_MAX"
    and w: "wrote c (40 + 8 * length bss) (to_le_bytes 8 (length (concat bss) + length bs)) c1"
  shows "log_index c1 bss"
    and "wrote c1 32 (to_le_bytes 8 (Suc (length bss))) c2 \<Longrightarrow> log_index c2 (bss @ [bs])"
proof -
  have len: "WASM_PAGE_SIZE \<le> length c" "40 + 8 * length bss \<le> length c"
    using i by (simp_all add: log_index_def)
  have fr: "subrange c1 0 3 = subrange c 0 3" "subrange c1 3 1 = subrange c 3 1" "subrange c1 32 8 = subrange c 32 8"
    "\<And>k. k < length bss \<Longrightarrow> subrange c1 (40 + 8 * k) 8 = subrange c (40 + 8 * k) 8"
    using len by (auto intro!: subrange_wrote_other[OF w])
  show i1: "log_index c1 bss"
    using i fr wrote_length[OF w] by (simp add: log_index_def)
  assume w2: "wrote c1 32 (to_le_bytes 8 (Suc (length bss))) c2"
  have len1: "WASM_PAGE_SIZE \<le> length c1" "48 + 8 * length bss \<le> length c1"
    using len wrote_length[OF w] wrote_range[OF w] by simp_all
  have fr2: "subrange c2 0 3 = subrange c1 0 3" "subrange c2 3 1 = subrange c1 3 1"
    "\<And>k. k \<le> length bss \<Longrightarrow> subrange c2 (40 + 8 * k) 8 = subrange c1 (40 + 8 * k) 8"
    using len1 by (auto intro!: subrange_wrote_other[OF w2])
  have cnt: "subrange c2 32 8 = to_le_bytes 8 (Suc (length bss))"
    by (rule subrange_wrote_same[OF w2]) simp
  have "subrange c1 (40 + 8 * length bss) 8 = to_le_bytes 8 (length (concat bss) + length bs)"
    by (rule subrange_wrote_same[OF w]) simp
  then have "subrange c2 (40 + 8 * k) 8 = to_le_bytes 8 (ends (bss @ [bs]) (Suc k))" if "k < Suc (length bss)" for k
    using that fr2(3)[of k] i1 ends_all[of "bss @ [bs]" "Suc k"] ends_append[of "Suc k" bss bs]
    by (cases "k = length bss") (simp_all add: log_index_def del: to_le_bytes.simps)
  then show "log_index c2 (bss @ [bs])"
    using i1 fr2(1,2) cnt n len1 wrote_length[OF w2] by (simp add: log_index_def del: to_le_bytes.simps)
qed

definition log_header_at :: "bytes \<Rightarrow> bytes \<Rightarrow> bool" where
  "log_header_at c m \<longleftrightarrow> WASM_PAGE_SIZE \<le> length c \<and> subrange c 0 3 = m \<and> subrange c 3 1 = [1]"

lemma log_index_clear:
  assumes i: "log_header_at c INDEX_MAGIC" and w: "wrote c 32 (to_le_bytes 8 0) c'"
  shows "log_index c' []"
proof -
  have len: "WASM_PAGE_SIZE \<le> length c"
    using i by (simp add: log_header_at_def)
  then have "subrange c' 0 3 = subrange c 0 3" "subrange c' 3 1 = subrange c 3 1"
    by (auto intro!: subrange_wrote_other[OF w])
  moreover have "subrange c' 32 8 = to_le_bytes 8 0"
    by (rule subrange_wrote_same[OF w]) simp
  ultimately show ?thesis
    using i len wrote_length[OF w] by (simp add: log_index_def log_header_at_def del: to_le_bytes.simps)
qed

context memory
begin

lemma first_page:
  assumes s: "inv s" and room: "0 < cap s"
  obtains s1 where "(do { size \<leftarrow> size_op M s;
      if size < 1 then do { (r, s) \<leftarrow> grow_op M s 1; assert_that (r \<noteq> -1); Some s } else Some s }) = Some s1"
    "inv s1" "cap s1 = cap s" "WASM_PAGE_SIZE \<le> length (contents s1)"
proof (cases "contents s = []")
  case True
  then have "length (contents s) div WASM_PAGE_SIZE + 1 \<le> cap s"
    using room by simp
  from grow_law[OF s this] obtain s1 zs where "grow_op M s 1 = Some (0, s1)" "inv s1" "cap s1 = cap s"
    "length zs = WASM_PAGE_SIZE" "contents s1 = contents s @ zs"
    using True by (auto elim!: ok_obtain)
  with size_law[OF s] True show thesis
    by (intro that[of s1]) simp_all
next
  case False
  then have "WASM_PAGE_SIZE \<le> length (contents s)"
    using page_law[OF s] by (auto intro: dvd_imp_le)
  with size_law[OF s] s show thesis
    by (intro that[of s]) (simp_all add: div_eq_0_iff)
qed

lemma write_log_header_ok:
  assumes s: "inv s" and room: "0 < cap s" and m: "length m = 3"
  shows "ok (log_write_header M s \<lparr>lh_magic = m, lh_version = LOG_LAYOUT_VERSION\<rparr>) (\<lambda>s'. inv s' \<and> cap s' = cap s \<and>
    log_header_at (contents s') m)"
proof -
  obtain s1 where s1: "(do { size \<leftarrow> size_op M s;
      if size < 1 then do { (r, s) \<leftarrow> grow_op M s 1; assert_that (r \<noteq> -1); Some s } else Some s }) = Some s1"
    "inv s1" "cap s1 = cap s" "WASM_PAGE_SIZE \<le> length (contents s1)"
    by (rule first_page[OF s room])
  have eq: "log_write_header M s \<lparr>lh_magic = m, lh_version = LOG_LAYOUT_VERSION\<rparr> =
      do { s \<leftarrow> write_op M s1 0 m; write_op M s 3 [of_nat LOG_LAYOUT_VERSION] }"
    using s1(1) by (auto simp: log_write_header_def bind_eq_Some_conv)
  have "ok (write_op M s1 0 m) (\<lambda>s'. inv s' \<and> cap s' = cap s1 \<and>
      length (contents s') = length (contents s1) \<and> wrote (contents s1) 0 m (contents s'))"
    using s1(4) m by (intro write_ok[OF s1(2)]) simp
  then obtain s2 where s2: "write_op M s1 0 m = Some s2" "inv s2" "cap s2 = cap s"
    "length (contents s2) = length (contents s1)" "wrote (contents s1) 0 m (contents s2)"
    using s1(3) by (auto elim: ok_obtain)
  have "ok (write_op M s2 3 [of_nat LOG_LAYOUT_VERSION]) (\<lambda>s'. inv s' \<and> cap s' = cap s2 \<and>
      length (contents s') = length (contents s2) \<and> wrote (contents s2) 3 [of_nat LOG_LAYOUT_VERSION] (contents s'))"
    using s1(4) s2(4) by (intro write_ok[OF s2(2)]) simp
  then obtain s3 where s3: "write_op M s2 3 [of_nat LOG_LAYOUT_VERSION] = Some s3" "inv s3" "cap s3 = cap s"
    "length (contents s3) = length (contents s2)" "wrote (contents s2) 3 [1] (contents s3)"
    using s2(3) by (auto simp: LOG_LAYOUT_VERSION_def elim: ok_obtain)
  have "subrange (contents s3) 0 3 = m"
    using subrange_wrote_other[OF s3(5), of 0 3] subrange_wrote_same[OF s2(5)] s1(4) s2(4) m by simp
  moreover have "subrange (contents s3) 3 1 = [1]"
    by (rule subrange_wrote_same[OF s3(5)]) simp
  ultimately show ?thesis
    using s1(4) s2 s3 by (simp add: eq log_header_at_def)
qed

lemma read_log_header_ok:
  assumes s: "inv s" and h: "log_header_at (contents s) m"
  shows "ok (log_read_header M s) (\<lambda>(r, s'). r = \<lparr>lh_magic = m, lh_version = LOG_LAYOUT_VERSION\<rparr> \<and>
    inv s' \<and> contents s' = contents s \<and> cap s' = cap s)"
  using h unfolding log_read_header_def log_header_at_def
  by (auto simp: LOG_LAYOUT_VERSION_def intro!: s ok_mono[OF read_law])

end

section \<open>The operations on any two memories\<close>

locale stable_log =
  I: memory MI iinv icont icap + D: memory MD dinv dcont dcap + storable_type T valid
  for MI :: "'i memory_ops" and iinv icont icap and MD :: "'d memory_ops" and dinv dcont dcap
    and T :: "'a storable" and valid
begin

abbreviation holds :: "('i, 'd) log \<Rightarrow> bytes list \<Rightarrow> bool" where
  "holds l bss \<equiv> iinv (index_memory l) \<and> dinv (data_memory l) \<and>
     log_index (icont (index_memory l)) bss \<and> log_data (dcont (data_memory l)) bss"

abbreviation caps :: "('i, 'd) log \<Rightarrow> ('i, 'd) log \<Rightarrow> bool" where
  "caps l l' \<equiv> icap (index_memory l') = icap (index_memory l) \<and> dcap (data_memory l') = dcap (data_memory l)"

lemma index_offset_ok:
  assumes "iinv s" "40 + 8 * n \<le> length (icont s)" "i \<le> n"
  shows "index_entry_offset i = Some (40 + 8 * i)"
proof -
  have "40 + 8 * i \<le> U64_MAX"
    using I.length_le_max[OF assms(1)] assms(2,3) by linarith
  then show ?thesis
    by (simp add: index_entry_offset_def u64_mul_def u64_add_def HEADER_OFFSET_val)
qed

lemma total_u64:
  assumes "dinv s" "log_data (dcont s) bss"
  shows "32 + length (concat bss) \<le> U64_MAX"
  using D.length_le_max[OF assms(1)] assms(2) by (simp add: log_data_def)

lemma len_ok [ok_intro]:
  assumes "holds l bss"
  shows "ok (log_len MI l) (\<lambda>(n, l'). n = length bss \<and> holds l' bss \<and> caps l l')"
proof -
  have "HEADER_OFFSET + 8 \<le> length (icont (index_memory l))"
    using assms by (simp add: log_index_def HEADER_OFFSET_val)
  from I.read_u64_ok[OF _ this] assms show ?thesis
    by (auto simp: log_len_def HEADER_OFFSET_val log_index_def elim!: ok_mono)
qed

lemma read_index_ok [ok_intro]:
  assumes h: "holds l bss" and i: "i < length bss"
  shows "ok (read_index MI l i) (\<lambda>(v, l'). v = ends bss (Suc i) \<and> holds l' bss \<and> caps l l')"
proof -
  have off: "index_entry_offset i = Some (40 + 8 * i)"
    using h i by (intro index_offset_ok[of "index_memory l" "length bss"]) (auto simp: log_index_def)
  have rng: "40 + 8 * i + 8 \<le> length (icont (index_memory l))"
    using h i by (simp add: log_index_def)
  have "ends bss (Suc i) \<le> U64_MAX"
    using total_u64[of "data_memory l" bss] h ends_le_total[of bss "Suc i"] by simp
  then have "from_le_bytes (subrange (icont (index_memory l)) (40 + 8 * i) 8) = ends bss (Suc i)"
    using h i by (simp add: log_index_def)
  with I.read_u64_ok[OF _ rng] h show ?thesis
    by (auto simp: read_index_def off elim!: ok_mono)
qed

lemma entry_meta_ok [ok_intro]:
  assumes h: "holds l bss"
  shows "ok (entry_meta MI l i) (\<lambda>(r, l'). r = (if i < length bss then Some (ends bss i, length (bss ! i)) else None) \<and>
    holds l' bss \<and> caps l l')"
proof -
  obtain l1 where l1: "log_len MI l = Some (length bss, l1)" "holds l1 bss" "caps l l1"
    using len_ok[OF h] by (auto elim: ok_obtain)
  show ?thesis
  proof (cases "i < length bss")
    case False
    with l1 show ?thesis by (simp add: entry_meta_def)
  next
    case True
    obtain l2 where l2: "read_index MI l1 i = Some (ends bss (Suc i), l2)" "holds l2 bss" "caps l l2"
      using read_index_ok[OF l1(2) True] l1(3) by (auto elim: ok_obtain)
    show ?thesis
    proof (cases "i = 0")
      case True
      with l1 l2 \<open>i < length bss\<close> show ?thesis
        by (simp add: entry_meta_def ends_Suc)
    next
      case False
      then have j: "i - 1 < length bss" "Suc (i - 1) = i"
        using True by simp_all
      obtain l3 where l3: "read_index MI l1 (i - 1) = Some (ends bss i, l3)" "holds l3 bss" "caps l l3"
        using read_index_ok[OF l1(2) j(1)] l1(3) j(2) by (auto elim: ok_obtain)
      obtain l4 where l4: "read_index MI l3 i = Some (ends bss (Suc i), l4)" "holds l4 bss" "caps l l4"
        using read_index_ok[OF l3(2) True] l3(3) by (auto elim: ok_obtain)
      from l1 l3 l4 True False show ?thesis
        by (simp add: entry_meta_def ends_Suc l3(1)[unfolded One_nat_def] u64_sub_def)
    qed
  qed
qed

lemma read_log_entry_ok [ok_intro]:
  assumes h: "holds l bss"
  shows "ok (log_read_entry MI MD l i) (\<lambda>(r, l'). r = (if i < length bss then Inr (bss ! i) else Inl NoSuchEntry) \<and>
    holds l' bss \<and> caps l l')"
proof -
  obtain l1 where l1: "entry_meta MI l i = Some (if i < length bss then Some (ends bss i, length (bss ! i)) else None, l1)"
    "holds l1 bss" "caps l l1"
    using entry_meta_ok[OF h] by (auto elim: ok_obtain)
  show ?thesis
  proof (cases "i < length bss")
    case False
    with l1 show ?thesis by (simp add: log_read_entry_def)
  next
    case True
    have d: "32 + ends bss i + length (bss ! i) \<le> length (dcont (data_memory l1))"
      "subrange (dcont (data_memory l1)) (32 + ends bss i) (length (bss ! i)) = bss ! i"
      using log_data_entry[OF _ True, of "dcont (data_memory l1)"] l1(2) by auto
    have "u64_add HEADER_OFFSET (ends bss i) = Some (32 + ends bss i)"
      using d(1) D.length_le_max[of "data_memory l1"] l1(2) by (simp add: u64_add_def HEADER_OFFSET_val)
    with True l1 d(2) D.read_to_vec_ok[OF _ d(1)] show ?thesis
      by (auto simp: log_read_entry_def elim!: ok_mono)
  qed
qed

lemma get_entry_ok [ok_intro]:
  assumes h: "holds l bss" and x: "log_items T bss xs"
  shows "ok (log_get T MI MD l i) (\<lambda>(r, l'). r = (if i < length xs then Some (xs ! i) else None) \<and>
    holds l' bss \<and> caps l l')"
proof -
  have len: "length bss = length xs"
    using x by (simp add: log_items_def list_all2_lengthD)
  have "i < length xs \<Longrightarrow> from_bytes T (bss ! i) = Some (xs ! i)"
    using x len by (simp add: log_items_def list_all2_conv_all_nth)
  with len show ?thesis
    unfolding log_get_def by (auto intro!: ok_mono[OF read_log_entry_ok[OF h]] split: if_splits)
qed

lemma log_items_snoc: "log_items T bss xs \<Longrightarrow> from_bytes T bs = Some x \<Longrightarrow> log_items T (bss @ [bs]) (xs @ [x])"
  by (simp add: log_items_def list_all2_appendI)

lemma append_start:
  assumes h: "holds l bss"
  obtains la l1 where "log_len MI l = Some (length bss, la)"
    "(if length bss = 0 then Some (0, la) else read_index MI la (length bss - 1)) = Some (length (concat bss), l1)"
    "holds l1 bss" "caps l l1"
proof -
  obtain l1 where l1: "log_len MI l = Some (length bss, l1)" "holds l1 bss" "caps l l1"
    using len_ok[OF h] by (auto elim: ok_obtain)
  show thesis
  proof (cases "bss = []")
    case True
    with l1 show thesis by (intro that[of l1 l1]) simp_all
  next
    case False
    then have j: "length bss - 1 < length bss" "Suc (length bss - 1) = length bss"
      by simp_all
    obtain l2 where l2: "read_index MI l1 (length bss - 1) = Some (length (concat bss), l2)" "holds l2 bss" "caps l l2"
      using read_index_ok[OF l1(2) j(1)] l1(3) ends_all[of bss "length bss"] unfolding j(2) by (auto elim: ok_obtain)
    with l1(1) False show thesis
      by (intro that[of l1 l2]) simp_all
  qed
qed

lemma append_ok:
  assumes h: "holds l bss" and xs: "log_items T bss xs" and x: "valid x" and bs: "to_bytes T x = Some bs"
    and data: "32 + length (concat bss) + length bs \<le> dcap (data_memory l) * WASM_PAGE_SIZE"
    and index: "48 + 8 * length bss \<le> icap (index_memory l) * WASM_PAGE_SIZE"
  shows "ok (log_append T MI MD l x) (\<lambda>(r, l'). r = Inr (length bss) \<and> holds l' (bss @ [bs]) \<and>
    log_items T (bss @ [bs]) (xs @ [x]) \<and> caps l l')"
proof -
  have dec: "from_bytes T bs = Some x"
    using roundtrip_law[OF x] bs by simp
  have xs': "log_items T (bss @ [bs]) (xs @ [x])"
    by (rule log_items_snoc[OF xs dec])
  have len: "length bss = length xs"
    using xs by (simp add: log_items_def list_all2_lengthD)
  obtain la l1 where l1: "log_len MI l = Some (length bss, la)"
    "(if length bss = 0 then Some (0, la) else read_index MI la (length bss - 1)) = Some (length (concat bss), l1)"
    "holds l1 bss" "caps l l1"
    by (rule append_start[OF h])
  have dcap: "dcap (data_memory l) * WASM_PAGE_SIZE \<le> U64_MAX - 65535"
    and icap: "icap (index_memory l) * WASM_PAGE_SIZE \<le> U64_MAX - 65535"
    using D.cap_bytes[of "data_memory l"] I.cap_bytes[of "index_memory l"] h by auto
  have ar: "u64_add (length (concat bss)) (length bs) = Some (length (concat bss) + length bs)"
    "u64_add HEADER_OFFSET (length (concat bss)) = Some (32 + length (concat bss))"
    "index_entry_offset (length bss) = Some (40 + 8 * length bss)" "u64_add (length bss) 1 = Some (Suc (length bss))"
    using data index dcap icap by (simp_all add: u64_add_def index_entry_offset_def u64_mul_def HEADER_OFFSET_val)
  obtain d where d: "safe_write MD (data_memory l1) (32 + length (concat bss)) bs = Some (Inr (), d)"
    "dinv d" "dcap d = dcap (data_memory l)" "wrote (dcont (data_memory l1)) (32 + length (concat bss)) bs (dcont d)"
    using D.safe_write_ok[of "data_memory l1" "32 + length (concat bss)" bs] l1(3,4) data by (auto elim: ok_obtain)
  obtain i1 where i1: "safe_write MI (index_memory l1) (40 + 8 * length bss)
      (to_le_bytes 8 (length (concat bss) + length bs)) = Some (Inr (), i1)"
    "iinv i1" "icap i1 = icap (index_memory l)"
    "wrote (icont (index_memory l1)) (40 + 8 * length bss) (to_le_bytes 8 (length (concat bss) + length bs)) (icont i1)"
    using I.safe_write_ok[of "index_memory l1" "40 + 8 * length bss" "to_le_bytes 8 (length (concat bss) + length bs)"]
      l1(3,4) index by (auto simp del: to_le_bytes.simps elim: ok_obtain)
  have "HEADER_OFFSET + 8 \<le> icap i1 * WASM_PAGE_SIZE"
    using index i1(3) by (simp add: HEADER_OFFSET_val)
  then obtain i2 where i2: "write_u64 MI i1 HEADER_OFFSET (Suc (length bss)) = Some i2" "iinv i2" "icap i2 = icap (index_memory l)"
    "wrote (icont i1) 32 (to_le_bytes 8 (Suc (length bss))) (icont i2)"
    using I.write_u64_ok[OF i1(2), of HEADER_OFFSET "Suc (length bss)"] i1(3)
    by (auto simp: HEADER_OFFSET_val simp del: to_le_bytes.simps elim: ok_obtain)
  let ?l2 = "l1\<lparr>data_memory := d, index_memory := i2\<rparr>"
  have "length bss < U64_MAX"
    using index icap by linarith
  then have h2: "holds ?l2 (bss @ [bs])"
    using log_data_append(2)[OF _ d(4)] log_index_append(2)[OF _ _ i1(4) i2(4)] l1(3) d(2) i2(2) by simp
  obtain l3 where l3: "log_get T MI MD ?l2 (length bss) = Some (Some x, l3)" "holds l3 (bss @ [bs])" "caps ?l2 l3"
    using get_entry_ok[OF h2 xs', of "length bss"] len by (auto elim: ok_obtain)
  have "log_append T MI MD l x = Some (Inr (length bss), l3)"
    using l1(1,2) ar d(1) i1(1) i2(1) l3(1) bs
    by (simp add: log_append_def Let_def del: to_le_bytes.simps)
  with l3 d(3) i2(3) xs' show ?thesis
    by simp
qed

text \<open>An append that reports an error leaves the log as it was.\<close>

lemma append_fail:
  assumes h: "holds l bss" and bs: "to_bytes T x = Some bs" and r: "log_append T MI MD l x = Some (Inl e, l')"
  shows "holds l' bss \<and> caps l l'"
proof -
  obtain la l1 where l1: "log_len MI l = Some (length bss, la)"
    "(if length bss = 0 then Some (0, la) else read_index MI la (length bss - 1)) = Some (length (concat bss), l1)"
    "holds l1 bss" "caps l l1"
    by (rule append_start[OF h])
  have t: "u64_add HEADER_OFFSET (length (concat bss)) = Some (32 + length (concat bss))"
    using total_u64[of "data_memory l1" bss] l1(3) by (simp add: u64_add_def HEADER_OFFSET_val)
  have i: "index_entry_offset (length bss) = Some (40 + 8 * length bss)"
    using l1(3) by (intro index_offset_ok[of "index_memory l1" "length bss"]) (auto simp: log_index_def)
  obtain q d where q: "safe_write MD (data_memory l1) (32 + length (concat bss)) bs = Some (q, d)"
    using r l1(1,2) t bs by (auto simp: log_append_def bind_eq_Some_conv)
  note wd = D.safe_write_cases[OF _ q]
  show ?thesis
  proof (cases q)
    case (Inl e1)
    then have "l' = l1\<lparr>data_memory := d\<rparr>"
      using r l1(1,2) t bs q by (auto simp: log_append_def bind_eq_Some_conv)
    with Inl wd l1(3,4) show ?thesis by auto
  next
    case (Inr u)
    then have d: "dinv d" "dcap d = dcap (data_memory l1)" "log_data (dcont d) bss"
      using wd l1(3) log_data_append(1) by auto
    obtain v where v: "u64_add (length (concat bss)) (length bs) = Some v"
      using r l1(1,2) t bs by (auto simp: log_append_def bind_eq_Some_conv)
    obtain q2 i2 where q2: "safe_write MI (index_memory l1) (40 + 8 * length bss) (to_le_bytes 8 v) = Some (q2, i2)"
      using r l1(1,2) t i bs q v Inr by (auto simp: log_append_def bind_eq_Some_conv)
    have "q2 \<noteq> Inr ()"
    proof
      assume "q2 = Inr ()"
      then show False
        using r l1(1,2) t i bs q v Inr q2 by (auto simp: log_append_def bind_eq_Some_conv Let_def)
    qed
    then obtain e2 where e2: "q2 = Inl e2"
      by (cases q2) auto
    then have "l' = l1\<lparr>data_memory := d, index_memory := i2\<rparr>"
      using r l1(1,2) t i bs q v Inr q2 by (auto simp: log_append_def bind_eq_Some_conv)
    with d e2 I.safe_write_cases[OF _ q2] l1(3,4) show ?thesis by auto
  qed
qed

lemma append_no_room:
  assumes h: "holds l bss" and bs: "to_bytes T x = Some bs"
    and lim: "length (concat bss) + length bs \<le> U64_MAX"
    and no: "\<And>d. dinv d \<Longrightarrow> log_data (dcont d) bss \<Longrightarrow> dcap d = dcap (data_memory l) \<Longrightarrow>
      \<exists>e d'. safe_write MD d (32 + length (concat bss)) bs = Some (Inl e, d')"
  shows "\<exists>e l'. log_append T MI MD l x = Some (Inl e, l')"
proof -
  obtain la l1 where l1: "log_len MI l = Some (length bss, la)"
    "(if length bss = 0 then Some (0, la) else read_index MI la (length bss - 1)) = Some (length (concat bss), l1)"
    "holds l1 bss" "caps l l1"
    by (rule append_start[OF h])
  have t: "u64_add HEADER_OFFSET (length (concat bss)) = Some (32 + length (concat bss))"
    using total_u64[of "data_memory l1" bss] l1(3) by (simp add: u64_add_def HEADER_OFFSET_val)
  obtain e d where "safe_write MD (data_memory l1) (32 + length (concat bss)) bs = Some (Inl e, d)"
    using no[of "data_memory l1"] l1(3,4) by auto
  with l1(1,2) t bs lim show ?thesis
    by (simp add: log_append_def u64_add_def)
qed

lemma clear_ok:
  assumes h: "holds l bss"
  shows "ok (log_clear MI l) (\<lambda>l'. holds l' [] \<and> caps l l')"
proof -
  have "HEADER_OFFSET + 8 \<le> icap (index_memory l) * WASM_PAGE_SIZE"
    using h I.size_cap_law[of "index_memory l"] by (auto simp: log_index_def HEADER_OFFSET_val)
  moreover have "log_data (dcont (data_memory l)) []"
    using h by (simp add: log_data_def)
  ultimately show ?thesis
    using h I.write_u64_ok[of "index_memory l" HEADER_OFFSET 0] log_index_clear[of "icont (index_memory l)"]
    by (auto simp: log_clear_def log_header_at_def log_index_def[of _ bss] HEADER_OFFSET_val simp del: to_le_bytes.simps elim!: ok_mono)
qed

lemma log_size_ok:
  assumes h: "holds l bss"
  shows "ok (log_size_bytes MI l) (\<lambda>(n, l'). n = length (concat bss) \<and> holds l' bss \<and> caps l l')"
proof -
  obtain la l1 where l1: "log_len MI l = Some (length bss, la)"
    "(if length bss = 0 then Some (0, la) else read_index MI la (length bss - 1)) = Some (length (concat bss), l1)"
    "holds l1 bss" "caps l l1"
    by (rule append_start[OF h])
  then show ?thesis
    by (simp add: log_size_bytes_def)
qed

lemma last_entry_ok:
  assumes h: "holds l bss" and x: "log_items T bss xs"
  shows "ok (log_last T MI MD l) (\<lambda>(r, l'). r = (if xs = [] then None else Some (last xs)) \<and> holds l' bss \<and> caps l l')"
proof -
  have len: "length bss = length xs"
    using x by (simp add: log_items_def list_all2_lengthD)
  show ?thesis
    unfolding log_last_def
    by (rule ok_bindI[OF len_ok[OF h]])
      (use len x in \<open>auto simp: last_conv_nth intro!: ok_mono[OF get_entry_ok[of _ bss xs]]\<close>)
qed

subsection \<open>Creating and reopening\<close>

lemma new_log_ok:
  assumes "iinv i" "dinv d" "0 < icap i" "0 < dcap d"
  shows "ok (log_new MI MD i d) (\<lambda>l. holds l [] \<and> icap (index_memory l) = icap i \<and> dcap (data_memory l) = dcap d)"
proof -
  obtain i1 where i1: "log_write_header MI i \<lparr>lh_magic = INDEX_MAGIC, lh_version = LOG_LAYOUT_VERSION\<rparr> = Some i1"
    "iinv i1" "icap i1 = icap i" "log_header_at (icont i1) INDEX_MAGIC"
    using I.write_log_header_ok[OF assms(1,3), of INDEX_MAGIC] by (auto elim: ok_obtain)
  obtain d1 where d1: "log_write_header MD d \<lparr>lh_magic = DATA_MAGIC, lh_version = LOG_LAYOUT_VERSION\<rparr> = Some d1"
    "dinv d1" "dcap d1 = dcap d" "log_header_at (dcont d1) DATA_MAGIC"
    using D.write_log_header_ok[OF assms(2,4), of DATA_MAGIC] by (auto elim: ok_obtain)
  have "HEADER_OFFSET + 8 \<le> icap i1 * WASM_PAGE_SIZE"
    using assms(3) i1(3) by (simp add: HEADER_OFFSET_val)
  then obtain i2 where i2: "write_u64 MI i1 HEADER_OFFSET 0 = Some i2" "iinv i2" "icap i2 = icap i"
    "wrote (icont i1) 32 (to_le_bytes 8 0) (icont i2)"
    using I.write_u64_ok[OF i1(2), of HEADER_OFFSET 0] i1(3)
    by (auto simp: HEADER_OFFSET_val simp del: to_le_bytes.simps elim: ok_obtain)
  have "log_index (icont i2) []"
    by (rule log_index_clear[OF i1(4) i2(4)])
  moreover have "log_data (dcont d1) []"
    using d1(4) by (simp add: log_data_def log_header_at_def)
  ultimately show ?thesis
    using i1 d1 i2 by (simp add: log_new_def)
qed

lemma validate_loop_ok:
  assumes "iinv s" "log_index (icont s) bss" "0 < i" "i \<le> length bss" "length (concat bss) \<le> U64_MAX"
  shows "ok (validate_loop MI s i (length bss) (ends bss i)) (\<lambda>(r, s'). r = Inr () \<and> iinv s' \<and>
    icont s' = icont s \<and> icap s' = icap s)"
  using assms
proof (induction "length bss - i" arbitrary: i s)
  case 0
  then show ?case
    by (subst validate_loop.simps) simp
next
  case (Suc n)
  then have i: "i < length bss"
    by simp
  have rng: "40 + 8 * i + 8 \<le> length (icont s)"
    using Suc.prems(2) i by (simp add: log_index_def)
  have ar: "u64_mul i 8 = Some (8 * i)" "u64_add (HEADER_OFFSET + 8) (8 * i) = Some (40 + 8 * i)"
    using rng I.length_le_max[OF Suc.prems(1)] by (simp_all add: u64_mul_def u64_add_def HEADER_OFFSET_val)
  have "ends bss (Suc i) \<le> U64_MAX"
    using Suc.prems(5) ends_le_total[of bss "Suc i"] by linarith
  then have "from_le_bytes (subrange (icont s) (40 + 8 * i) 8) = ends bss (Suc i)"
    using Suc.prems(2) i by (simp add: log_index_def)
  then obtain s1 where s1: "read_u64 MI s (40 + 8 * i) = Some (ends bss (Suc i), s1)" "iinv s1" "icont s1 = icont s" "icap s1 = icap s"
    using I.read_u64_ok[OF Suc.prems(1) rng] by (auto elim: ok_obtain)
  have "ok (validate_loop MI s1 (Suc i) (length bss) (ends bss (Suc i))) (\<lambda>(r, s'). r = Inr () \<and> iinv s' \<and>
      icont s' = icont s1 \<and> icap s' = icap s1)"
    using Suc.hyps(2) Suc.prems s1 i by (intro Suc.hyps(1)) auto
  then show ?case
    using i ar s1 ends_Suc[OF i] by (subst validate_loop.simps) (auto elim!: ok_mono)
qed

lemma validate_ok:
  assumes "iinv s" "log_index (icont s) bss" "length (concat bss) \<le> U64_MAX"
  shows "ok (validate_v1_index MI s) (\<lambda>(r, s'). r = Inr () \<and> iinv s' \<and> icont s' = icont s \<and> icap s' = icap s)"
proof -
  have "HEADER_OFFSET + 8 \<le> length (icont s)"
    using assms(2) by (simp add: log_index_def HEADER_OFFSET_val)
  moreover have "from_le_bytes (subrange (icont s) 32 8) = length bss"
    using assms(2) by (simp add: log_index_def)
  ultimately obtain s1 where s1: "read_u64 MI s HEADER_OFFSET = Some (length bss, s1)" "iinv s1" "icont s1 = icont s" "icap s1 = icap s"
    using I.read_u64_ok[OF assms(1), of HEADER_OFFSET] by (auto simp: HEADER_OFFSET_val elim: ok_obtain)
  show ?thesis
  proof (cases "bss = []")
    case True
    with s1 show ?thesis by (simp add: validate_v1_index_def)
  next
    case False
    then have "0 < length bss"
      by simp
    have rng: "40 + 8 \<le> length (icont s1)"
      using assms(2) s1(3) by (simp add: log_index_def)
    have "ends bss 1 \<le> U64_MAX"
      using assms(3) ends_le_total[of bss 1] by linarith
    then have "from_le_bytes (subrange (icont s1) 40 8) = ends bss 1"
      using assms(2) s1(3) False by (auto simp: log_index_def)
    then obtain s2 where s2: "read_u64 MI s1 40 = Some (ends bss 1, s2)" "iinv s2" "icont s2 = icont s" "icap s2 = icap s"
      using I.read_u64_ok[OF s1(2) rng] s1(3,4) by (auto elim: ok_obtain)
    have "ok (validate_loop MI s2 1 (length bss) (ends bss 1)) (\<lambda>(r, s'). r = Inr () \<and> iinv s' \<and>
        icont s' = icont s2 \<and> icap s' = icap s2)"
      using assms(2,3) s2 \<open>0 < length bss\<close> by (intro validate_loop_ok) (simp_all add: Suc_le_eq)
    with s1(1) s2 False show ?thesis
      by (simp add: validate_v1_index_def HEADER_OFFSET_val)
  qed
qed

lemma reopen_ok:
  assumes h: "holds l bss"
  shows "ok (log_init MI MD (index_memory l) (data_memory l)) (\<lambda>l'. holds l' bss \<and> caps l l')"
proof -
  have hd: "log_header_at (dcont (data_memory l)) DATA_MAGIC" and hi: "log_header_at (icont (index_memory l)) INDEX_MAGIC"
    using h by (auto simp: log_data_def log_index_def log_header_at_def)
  obtain n where n: "size_op MD (data_memory l) = Some (Suc n)"
    using D.size_law[of "data_memory l"] h hd unfolding log_header_at_def
    by (metis div_greater_zero_iff gr0_implies_Suc zero_less_numeral)
  obtain d where d: "log_read_header MD (data_memory l) = Some (\<lparr>lh_magic = DATA_MAGIC, lh_version = LOG_LAYOUT_VERSION\<rparr>, d)"
    "dinv d" "dcont d = dcont (data_memory l)" "dcap d = dcap (data_memory l)"
    using D.read_log_header_ok[OF _ hd] h by (auto elim: ok_obtain)
  obtain i where i: "log_read_header MI (index_memory l) = Some (\<lparr>lh_magic = INDEX_MAGIC, lh_version = LOG_LAYOUT_VERSION\<rparr>, i)"
    "iinv i" "icont i = icont (index_memory l)" "icap i = icap (index_memory l)"
    using I.read_log_header_ok[OF _ hi] h by (auto elim: ok_obtain)
  have "length (concat bss) \<le> U64_MAX"
    using total_u64[of "data_memory l" bss] h by simp
  then obtain i2 where i2: "validate_v1_index MI i = Some (Inr (), i2)" "iinv i2" "icont i2 = icont i" "icap i2 = icap i"
    using validate_ok[of i bss] i h by (auto elim: ok_obtain)
  show ?thesis
    using n d i i2 h by (simp add: log_init_def)
qed

subsection \<open>Iterators\<close>

lemma li_next_ok [ok_intro]:
  assumes h: "holds l bss" and x: "log_items T bss xs"
  shows "ok (li_next T MI MD l it) (\<lambda>(r, it', l'). holds l' bss \<and> caps l l' \<and>
    (if li_pos it < length xs then r = Some (xs ! li_pos it) \<and> it' = it\<lparr>li_pos := Suc (li_pos it)\<rparr>
     else r = None \<and> it' = it))"
proof -
  have len: "length bss = length xs" "length bss \<le> U64_MAX"
    using x h by (simp_all add: log_items_def list_all2_lengthD log_index_def)
  have "i < length xs \<Longrightarrow> from_bytes T (bss ! i) = Some (xs ! i)" for i
    using x len by (simp add: log_items_def list_all2_conv_all_nth)
  with len show ?thesis
    unfolding li_next_def
    by (auto simp: u64_saturating_add_def intro!: ok_mono[OF read_log_entry_ok[OF h]] split: if_splits)
qed

lemma collect_ok:
  assumes "holds l bss" "log_items T bss xs"
  shows "ok (li_collect T MI MD l it) (\<lambda>(ys, l'). ys = drop (li_pos it) xs \<and> holds l' bss \<and> caps l l')"
  using assms
proof (induction "length xs - li_pos it" arbitrary: it l)
  case 0
  then show ?case
    by (subst li_collect.simps) (auto intro!: ok_mono[OF li_next_ok[of _ bss xs]])
next
  case (Suc n)
  let ?it = "it\<lparr>li_pos := Suc (li_pos it)\<rparr>"
  have p: "li_pos it < length xs"
    using Suc.hyps(2) by simp
  obtain l1 where l1: "li_next T MI MD l it = Some (Some (xs ! li_pos it), ?it, l1)" "holds l1 bss" "caps l l1"
    using li_next_ok[OF Suc.prems, of it] p by (auto elim: ok_obtain)
  have "ok (li_collect T MI MD l1 ?it) (\<lambda>(ys, l'). ys = drop (li_pos ?it) xs \<and> holds l' bss \<and> caps l1 l')"
    using Suc.hyps(2) Suc.prems(2) l1 by (intro Suc.hyps(1)) auto
  with l1 show ?case
    by (subst li_collect.simps) (auto simp: Cons_nth_drop_Suc[OF p, symmetric] elim!: ok_mono)
qed

end

interpretation u64_log: stable_log VectorMemory vec_inv "\<lambda>m. m" vec_cap VectorMemory vec_inv "\<lambda>m. m" vec_cap
  u64_storable "\<lambda>_. True"
  ..

interpretation string_log: stable_log VectorMemory vec_inv "\<lambda>m. m" vec_cap VectorMemory vec_inv "\<lambda>m. m" vec_cap
  string_storable utf8_valid
  ..

section \<open>Properties\<close>

text \<open>
  C13. Appending to a log, on any two memories that can grow enough: the entry gets the next index,
  \<open>get\<close> of that index returns it (the post-condition documented at \<open>append\<close>), every earlier entry
  and the result of \<open>len\<close> are as in the extended list, and no debug assertion fires.
\<close>

theorem log_append_spec:
  assumes "stable_log MI iinv icont icap MD dinv dcont dcap T valid"
    and "iinv (index_memory l)" "dinv (data_memory l)"
    and "log_index (icont (index_memory l)) bss" "log_data (dcont (data_memory l)) bss" "log_items T bss xs"
    and "valid x" "to_bytes T x = Some bs"
    and "32 + length (concat bss) + length bs \<le> dcap (data_memory l) * WASM_PAGE_SIZE"
    and "48 + 8 * length bss \<le> icap (index_memory l) * WASM_PAGE_SIZE"
  shows "ok (do { (r, l1) \<leftarrow> log_append T MI MD l x; (g, l2) \<leftarrow> log_get T MI MD l1 i; (n, l3) \<leftarrow> log_len MI l2; Some (r, g, n) })
    (\<lambda>(r, g, n). r = Inr (length xs) \<and> n = length xs + 1 \<and>
      g = (if i < length xs then Some (xs ! i) else if i = length xs then Some x else None))"
proof -
  note ctx = assms(1)
  have h: "iinv (index_memory l) \<and> dinv (data_memory l) \<and>
      log_index (icont (index_memory l)) bss \<and> log_data (dcont (data_memory l)) bss"
    using assms(2-5) by simp
  have len: "length bss = length xs"
    using assms(6) by (simp add: log_items_def list_all2_lengthD)
  show ?thesis
    by (auto simp: len nth_append intro!: ok_mono[OF stable_log.append_ok[OF ctx h assms(6-10)]]
        ok_mono[OF stable_log.get_entry_ok[OF ctx, of _ "bss @ [bs]" "xs @ [x]"]]
        ok_mono[OF stable_log.len_ok[OF ctx, of _ "bss @ [bs]"]])
qed

lemma new_u64_log:
  obtains l where "log_new VectorMemory VectorMemory [] [] = Some l" "vec_inv (index_memory l)" "vec_inv (data_memory l)"
    "log_index (index_memory l) []" "log_data (data_memory l) []"
  using u64_log.new_log_ok[of "[]" "[]"] by (auto simp: vec_cap_def VEC_MAX_PAGES_val elim: ok_obtain)

theorem log_append_spec_witness:
  "\<exists>l. log_new VectorMemory VectorMemory [] [] = Some l \<and>
     ok (do { (r, l1) \<leftarrow> log_append u64_storable VectorMemory VectorMemory l 7;
              (g, l2) \<leftarrow> log_get u64_storable VectorMemory VectorMemory l1 0;
              (n, l3) \<leftarrow> log_len VectorMemory l2; Some (r, g, n) })
       (\<lambda>(r, g, n). r = Inr 0 \<and> n = 1 \<and> g = Some 7)"
proof -
  obtain l where l: "log_new VectorMemory VectorMemory [] [] = Some l" "vec_inv (index_memory l)" "vec_inv (data_memory l)"
    "log_index (index_memory l) []" "log_data (data_memory l) []"
    by (rule new_u64_log)
  have "log_items u64_storable [] []" "to_bytes u64_storable 7 = Some (to_be_bytes 8 7)"
    by (simp_all add: log_items_def u64_storable_def word_to_bytes_def)
  from log_append_spec[OF u64_log.stable_log_axioms l(2-5) this(1) TrueI this(2), of 0] l(1) show ?thesis
    by (auto simp: vec_cap_def VEC_MAX_PAGES_val simp del: ok_bind ok_case_prod elim!: ok_mono)
qed

text \<open>
  C24. A failed append is invisible: when \<open>append\<close> returns an error, because the data memory or the
  index memory could not grow, the log has the same entries as before.
\<close>

theorem log_append_error_keeps_log:
  fixes l :: "('i, 'd) log"
  assumes "stable_log MI iinv icont icap MD dinv dcont dcap T valid"
    and "iinv (index_memory l)" "dinv (data_memory l)"
    and "log_index (icont (index_memory l)) bss" "log_data (dcont (data_memory l)) bss"
    and "to_bytes T x = Some bs" "log_append T MI MD l x = Some (Inl e, l')"
  shows "iinv (index_memory l') \<and> dinv (data_memory l') \<and>
    log_index (icont (index_memory l')) bss \<and> log_data (dcont (data_memory l')) bss"
  using stable_log.append_fail[OF assms(1) _ assms(6,7), of bss] assms(2-5) by simp

text \<open>A log whose data memory is restricted to one page, for a run in which an append fails.\<close>

interpretation page_log: stable_log VectorMemory vec_inv "\<lambda>m. m" vec_cap "RestrictedMemory VectorMemory 0 1"
  "restricted_inv vec_inv (\<lambda>m. m) 0 1" "restricted_contents (\<lambda>m. m) 0 1" "restricted_cap vec_cap 0 1"
  vec_u8_storable "\<lambda>_. True"
  ..

lemma one_page_full:
  assumes s: "restricted_inv vec_inv (\<lambda>m. m) 0 1 s" and p: "WASM_PAGE_SIZE \<le> length (restricted_contents (\<lambda>m. m) 0 1 s)"
    and o: "WASM_PAGE_SIZE < off + length bs" "off + length bs \<le> 2 * WASM_PAGE_SIZE"
  shows "\<exists>e s'. safe_write (RestrictedMemory VectorMemory 0 1) s off bs = Some (Inl e, s')"
proof -
  have c: "restricted_cap vec_cap 0 1 s = 1"
    by (simp add: restricted_cap_def vec_cap_def VEC_MAX_PAGES_val)
  have L: "length (restricted_contents (\<lambda>m. m) 0 1 s) = WASM_PAGE_SIZE"
    using rvm.size_cap_law[OF s] p c by simp
  have n: "(off + length bs - WASM_PAGE_SIZE + 65535) div WASM_PAGE_SIZE = 1"
    using o by (intro div_nat_eqI) auto
  have "WASM_PAGE_SIZE \<le> length s"
    using L by (simp add: restricted_contents_def subrange_def)
  then have "1 \<le> length s div WASM_PAGE_SIZE"
    by (simp add: less_eq_div_iff_mult_less_eq)
  then have g: "grow_op (RestrictedMemory VectorMemory 0 1) s 1 = Some (-1, s)"
    by (simp add: RestrictedMemory_def restricted_grow_def VectorMemory_def vec_size_def)
  note w = rvm.safe_write_growth[OF s, of off bs, unfolded L n g]
  show ?thesis
    using o by (subst w) simp_all
qed

theorem log_append_error_keeps_log_witness:
  "\<exists>l e l'. log_new VectorMemory (RestrictedMemory VectorMemory 0 1) [] [] = Some l \<and>
     log_append vec_u8_storable VectorMemory (RestrictedMemory VectorMemory 0 1) l (replicate 70000 0) = Some (Inl e, l') \<and>
     log_index (index_memory l') [] \<and> log_data (restricted_contents (\<lambda>m. m) 0 1 (data_memory l')) []"
proof -
  have i0: "restricted_inv vec_inv (\<lambda>m. m) 0 1 []"
    by (simp add: restricted_inv_def MAX_PAGES_val)
  obtain l where l: "log_new VectorMemory (RestrictedMemory VectorMemory 0 1) [] [] = Some l" "page_log.holds l []"
    using page_log.new_log_ok[OF _ i0, of "[]"]
    by (auto simp: vec_cap_def restricted_cap_def VEC_MAX_PAGES_val elim: ok_obtain)
  have x: "to_bytes vec_u8_storable (replicate 70000 0) = Some (replicate 70000 0)"
    by (simp add: vec_u8_storable_def)
  obtain e l' where e: "log_append vec_u8_storable VectorMemory (RestrictedMemory VectorMemory 0 1) l (replicate 70000 0) = Some (Inl e, l')"
    using page_log.append_no_room[OF l(2) x] one_page_full[of _ 32 "replicate 70000 0"]
    by (auto simp: log_data_def)
  have "restricted_inv vec_inv (\<lambda>m. m) 0 1 (data_memory l)" "vec_inv (index_memory l)" "log_index (index_memory l) []"
    "log_data (restricted_contents (\<lambda>m. m) 0 1 (data_memory l)) []"
    using l(2) by simp_all
  from log_append_error_keeps_log[OF page_log.stable_log_axioms this(2,1,3,4) x e] l(1) e show ?thesis
    by blast
qed

text \<open>
  C25. Reopening: \<open>init\<close> on the two memories of a log validates the index without complaint, keeps
  every entry, and iterating over the reopened log returns the entries in the order they were
  appended.
\<close>

theorem log_reopen_collect:
  fixes l :: "('i, 'd) log"
  assumes "stable_log MI iinv icont icap MD dinv dcont dcap T valid"
    and "iinv (index_memory l)" "dinv (data_memory l)"
    and "log_index (icont (index_memory l)) bss" "log_data (dcont (data_memory l)) bss" "log_items T bss xs"
  shows "ok (do { l1 \<leftarrow> log_init MI MD (index_memory l) (data_memory l);
        (ys, l2) \<leftarrow> li_collect T MI MD l1 (log_iter_new l1); Some ys }) (\<lambda>ys. ys = xs)"
proof -
  have h: "iinv (index_memory l) \<and> dinv (data_memory l) \<and>
      log_index (icont (index_memory l)) bss \<and> log_data (dcont (data_memory l)) bss"
    using assms(2-5) by simp
  show ?thesis
    by (auto simp: log_iter_new_def intro!: ok_mono[OF stable_log.reopen_ok[OF assms(1) h]]
        ok_mono[OF stable_log.collect_ok[OF assms(1) _ assms(6)]])
qed

theorem log_reopen_collect_witness:
  "\<exists>l0 l1 l. log_new VectorMemory VectorMemory [] [] = Some l0 \<and>
     log_append u64_storable VectorMemory VectorMemory l0 7 = Some (Inr 0, l1) \<and>
     log_append u64_storable VectorMemory VectorMemory l1 9 = Some (Inr 1, l) \<and>
     ok (do { l1 \<leftarrow> log_init VectorMemory VectorMemory (index_memory l) (data_memory l);
        (ys, l2) \<leftarrow> li_collect u64_storable VectorMemory VectorMemory l1 (log_iter_new l1); Some ys }) (\<lambda>ys. ys = [7, 9])"
proof -
  obtain l0 where l0: "log_new VectorMemory VectorMemory [] [] = Some l0" "vec_inv (index_memory l0)" "vec_inv (data_memory l0)"
    "log_index (index_memory l0) []" "log_data (data_memory l0) []"
    by (rule new_u64_log)
  have nil: "log_items u64_storable [] []"
    by (simp add: log_items_def)
  have enc: "to_bytes u64_storable x = Some (to_be_bytes 8 (unat x))" for x
    by (simp add: u64_storable_def word_to_bytes_def)
  obtain l1 where l1: "log_append u64_storable VectorMemory VectorMemory l0 7 = Some (Inr 0, l1)" "u64_log.holds l1 [to_be_bytes 8 (unat (7 :: 64 word))]"
    "log_items u64_storable [to_be_bytes 8 (unat (7 :: 64 word))] [7]"
    using u64_log.append_ok[OF _ nil TrueI enc, of l0 7] l0(2-5) by (auto simp: vec_cap_def VEC_MAX_PAGES_val elim!: ok_obtain)
  obtain l where l: "log_append u64_storable VectorMemory VectorMemory l1 9 = Some (Inr 1, l)"
    "u64_log.holds l (map (\<lambda>x. to_be_bytes 8 (unat x)) [7 :: 64 word, 9])" "log_items u64_storable (map (\<lambda>x. to_be_bytes 8 (unat x)) [7 :: 64 word, 9]) [7, 9]"
    using u64_log.append_ok[OF l1(2,3) TrueI enc, of 9] by (auto simp: vec_cap_def VEC_MAX_PAGES_val elim!: ok_obtain)
  from log_reopen_collect[OF u64_log.stable_log_axioms _ _ _ _ l(3)] l(2) l0(1) l1(1) l(1) show ?thesis
    by (intro exI[of _ l0] exI[of _ l1] exI[of _ l]) simp
qed

end
