(* ===== verification/Tuples.thy ===== *)
theory Tuples
  imports Storable
begin

text \<open>
  \<open>Storable\<close> for pairs and triples, \<open>src/src/storable/tuples.rs\<close>: the padded layout of bounded pairs,
  the packed layout of triples with a byte of size lengths, and their round trips.
\<close>

unbundle bit_operations_syntax

section \<open>Sizes\<close>

definition encode_size :: "bytes \<Rightarrow> nat \<Rightarrow> nat \<Rightarrow> bytes option" where
  "encode_size dst size_len n =
     (if n = 1 then copy_into dst 0 (to_be_bytes 1 size_len)
      else if n = 2 then copy_into dst 0 (to_be_bytes 2 size_len)
      else copy_into dst 0 (to_be_bytes 4 size_len))"

definition decode_size :: "bytes \<Rightarrow> nat \<Rightarrow> nat option" where
  "decode_size src size_len =
     (if size_len = 1 then map_option from_be_bytes (get_range src 0 1)
      else if size_len = 2 then map_option from_be_bytes (get_range src 0 2)
      else map_option from_be_bytes (get_range src 0 4))"

definition decode_size_of_bound :: "bytes \<Rightarrow> bounds \<Rightarrow> nat option" where
  "decode_size_of_bound src b =
     (if is_fixed_size b then Some (max_size b)
      else decode_size src (bytes_to_store_size (max_size b)))"

definition encode_size_of_bound :: "bytes \<Rightarrow> nat \<Rightarrow> bounds \<Rightarrow> bytes option" where
  "encode_size_of_bound dst n b =
     (if \<not> is_fixed_size b then encode_size dst n (bytes_to_store_size (max_size b)) else Some dst)"

fun encode_size_lengths_loop :: "u8 \<Rightarrow> nat list \<Rightarrow> u8 option" where
  "encode_size_lengths_loop acc [] = Some acc"
| "encode_size_lengths_loop acc (sz # sizes) = do {
     let size_length = bytes_to_store_size sz;
     let shifted = push_bit 2 acc;
     assert_that (unat shifted + (size_length - 1) \<le> U8_MAX);
     encode_size_lengths_loop (shifted + of_nat (size_length - 1)) sizes }"

definition encode_size_lengths :: "nat list \<Rightarrow> u8 option" where
  "encode_size_lengths sizes = do {
     assert_that (length sizes \<le> 4);
     encode_size_lengths_loop 0 sizes }"

fun decode_size_lengths_loop :: "u8 \<Rightarrow> nat \<Rightarrow> nat list" where
  "decode_size_lengths_loop encoded 0 = []"
| "decode_size_lengths_loop encoded (Suc n) =
     (unat (encoded AND 3) + 1) # decode_size_lengths_loop (drop_bit 2 encoded) n"

definition decode_size_lengths :: "u8 \<Rightarrow> nat \<Rightarrow> nat list option" where
  "decode_size_lengths encoded n = do {
     assert_that (n \<le> 4);
     Some (rev (decode_size_lengths_loop encoded n)) }"

section \<open>Pairs\<close>

definition pair_bound :: "'a storable \<Rightarrow> 'b storable \<Rightarrow> bound" where
  "pair_bound A B =
     (case (bounds_of A, bounds_of B) of
        (Some a, Some b) \<Rightarrow>
          Bounded (max_size a + max_size b + bytes_to_store_size_bounded a + bytes_to_store_size_bounded b)
            (is_fixed_size a \<and> is_fixed_size b)
      | _ \<Rightarrow> Unbounded)"

definition into_bytes_inner_2 ::
  "bound \<Rightarrow> 'a storable \<Rightarrow> 'b storable \<Rightarrow> 'a \<Rightarrow> 'b \<Rightarrow> bytes option" where
  "into_bytes_inner_2 bound A B a b =
     (case bound of
        Bounded msz _ \<Rightarrow> do {
          a_bytes \<leftarrow> to_bytes A a;
          b_bytes \<leftarrow> to_bytes B b;
          a_bounds \<leftarrow> bounds_of A;
          b_bounds \<leftarrow> bounds_of B;
          let a_max_size = max_size a_bounds;
          let b_max_size = max_size b_bounds;
          let a_size_len = bytes_to_store_size_bounded a_bounds;
          let b_size_len = bytes_to_store_size_bounded b_bounds;
          let sizes_offset = a_max_size + b_max_size;
          assert_that (length a_bytes \<le> a_max_size);
          assert_that (length b_bytes \<le> b_max_size);
          let bs = replicate msz 0;
          bs \<leftarrow> copy_into bs 0 a_bytes;
          bs \<leftarrow> copy_into bs a_max_size b_bytes;
          dst \<leftarrow> get_range bs sizes_offset a_size_len;
          dst \<leftarrow> encode_size_of_bound dst (length a_bytes) a_bounds;
          bs \<leftarrow> copy_into bs sizes_offset dst;
          dst \<leftarrow> get_range bs (sizes_offset + a_size_len) b_size_len;
          dst \<leftarrow> encode_size_of_bound dst (length b_bytes) b_bounds;
          copy_into bs (sizes_offset + a_size_len) dst }
      | Unbounded \<Rightarrow> None)"

definition pair_from_bytes :: "'a storable \<Rightarrow> 'b storable \<Rightarrow> bytes \<Rightarrow> ('a \<times> 'b) option" where
  "pair_from_bytes A B bs =
     (case pair_bound A B of
        Bounded msz _ \<Rightarrow> do {
          assert_that (length bs = msz);
          a_bounds \<leftarrow> bounds_of A;
          b_bounds \<leftarrow> bounds_of B;
          let a_max_size = max_size a_bounds;
          let b_max_size = max_size b_bounds;
          let sizes_offset = a_max_size + b_max_size;
          let a_size_len = bytes_to_store_size_bounded a_bounds;
          let b_size_len = bytes_to_store_size_bounded b_bounds;
          src \<leftarrow> get_range bs sizes_offset a_size_len;
          a_len \<leftarrow> decode_size_of_bound src a_bounds;
          src \<leftarrow> get_range bs (sizes_offset + a_size_len) b_size_len;
          b_len \<leftarrow> decode_size_of_bound src b_bounds;
          a_bytes \<leftarrow> get_range bs 0 a_len;
          a \<leftarrow> from_bytes A a_bytes;
          b_bytes \<leftarrow> get_range bs a_max_size b_len;
          b \<leftarrow> from_bytes B b_bytes;
          Some (a, b) }
      | Unbounded \<Rightarrow> None)"

definition pair_storable :: "'a storable \<Rightarrow> 'b storable \<Rightarrow> ('a \<times> 'b) storable" where
  "pair_storable A B =
     \<lparr>to_bytes = (\<lambda>(a, b). into_bytes_inner_2 (pair_bound A B) A B a b),
      from_bytes = pair_from_bytes A B,
      BOUND = pair_bound A B\<rparr>"

section \<open>Triples\<close>

text \<open>An element at the beginning of \<open>dst\<close>; the result is the number of bytes written and the buffer.\<close>

definition encode_tuple_element :: "'a storable \<Rightarrow> bytes \<Rightarrow> bytes \<Rightarrow> bool \<Rightarrow> (nat \<times> bytes) option" where
  "encode_tuple_element T dst bs is_last = do {
     (offset, dst) \<leftarrow>
       (if \<not> is_last \<and> \<not> bound_is_fixed_size (BOUND T) then do {
          let size_len = bytes_to_store_size (length bs);
          dst \<leftarrow> encode_size dst (length bs) size_len;
          Some (size_len, dst) }
        else Some (0, dst));
     dst \<leftarrow> copy_into dst offset bs;
     Some (offset + length bs, dst) }"

definition decode_tuple_element :: "'a storable \<Rightarrow> bytes \<Rightarrow> nat option \<Rightarrow> bool \<Rightarrow> ('a \<times> nat) option" where
  "decode_tuple_element T src size_len is_last = do {
     (sz, n) \<leftarrow>
       (case size_len of
          Some len \<Rightarrow> do { s \<leftarrow> decode_size src len; Some (s, len) }
        | None \<Rightarrow>
            (case BOUND T of
               Bounded m True \<Rightarrow> Some (m, 0)
             | _ \<Rightarrow> do { assert_that is_last; Some (length src, 0) }));
     bs \<leftarrow> get_range src n sz;
     t \<leftarrow> from_bytes T bs;
     Some (t, n + sz) }"

definition sizes_overhead :: "'a storable \<Rightarrow> 'b storable \<Rightarrow> nat \<Rightarrow> nat \<Rightarrow> nat" where
  "sizes_overhead A B a_size b_size =
     (if \<not> (bound_is_fixed_size (BOUND A) \<and> bound_is_fixed_size (BOUND B)) then
        1 + (if \<not> bound_is_fixed_size (BOUND A) then bytes_to_store_size a_size else 0)
          + (if \<not> bound_is_fixed_size (BOUND B) then bytes_to_store_size b_size else 0)
      else 0)"

text \<open>\<open>encode_tuple_element\<close> applied to \<open>&mut bytes[offset..]\<close>.\<close>

definition encode_at :: "'a storable \<Rightarrow> bytes \<Rightarrow> nat \<Rightarrow> bytes \<Rightarrow> bool \<Rightarrow> (nat \<times> bytes) option" where
  "encode_at T bs offset x is_last = do {
     dst \<leftarrow> get_from bs offset;
     (n, dst) \<leftarrow> encode_tuple_element T dst x is_last;
     Some (offset + n, take offset bs @ dst) }"

definition into_bytes_inner_3 ::
  "'a storable \<Rightarrow> 'b storable \<Rightarrow> 'c storable \<Rightarrow> 'a \<Rightarrow> 'b \<Rightarrow> 'c \<Rightarrow> bytes option" where
  "into_bytes_inner_3 A B C a b c = do {
     a_bytes \<leftarrow> to_bytes A a;
     b_bytes \<leftarrow> to_bytes B b;
     c_bytes \<leftarrow> to_bytes C c;
     let a_size = length a_bytes;
     let b_size = length b_bytes;
     let c_size = length c_bytes;
     let overhead = sizes_overhead A B a_size b_size;
     let output_size = a_size + b_size + c_size + overhead;
     let bs = replicate output_size 0;
     (offset, bs) \<leftarrow>
       (if overhead \<noteq> 0 then do {
          w \<leftarrow> encode_size_lengths [a_size, b_size];
          bs \<leftarrow> copy_into bs 0 [w];
          Some (1, bs) }
        else Some (0, bs));
     (offset, bs) \<leftarrow> encode_at A bs offset a_bytes False;
     (offset, bs) \<leftarrow> encode_at B bs offset b_bytes False;
     (offset, bs) \<leftarrow> encode_at C bs offset c_bytes True;
     assert_that (offset = output_size);
     Some bs }"

definition triple_from_bytes ::
  "'a storable \<Rightarrow> 'b storable \<Rightarrow> 'c storable \<Rightarrow> bytes \<Rightarrow> ('a \<times> 'b \<times> 'c) option" where
  "triple_from_bytes A B C bs = do {
     (offset, la, lb) \<leftarrow>
       (if \<not> (bound_is_fixed_size (BOUND A) \<and> bound_is_fixed_size (BOUND B)) then do {
          hd_bytes \<leftarrow> get_range bs 0 1;
          lengths \<leftarrow> decode_size_lengths (hd_bytes ! 0) 2;
          Some (1,
            if \<not> bound_is_fixed_size (BOUND A) then Some (lengths ! 0) else None,
            if \<not> bound_is_fixed_size (BOUND B) then Some (lengths ! 1) else None) }
        else Some (0, None, None));
     src \<leftarrow> get_from bs offset;
     (a, n) \<leftarrow> decode_tuple_element A src la False;
     let offset = offset + n;
     src \<leftarrow> get_from bs offset;
     (b, n) \<leftarrow> decode_tuple_element B src lb False;
     let offset = offset + n;
     src \<leftarrow> get_from bs offset;
     (c, n) \<leftarrow> decode_tuple_element C src None True;
     let offset = offset + n;
     assert_that (offset = length bs);
     Some (a, b, c) }"

definition triple_bound :: "'a storable \<Rightarrow> 'b storable \<Rightarrow> 'c storable \<Rightarrow> bound" where
  "triple_bound A B C =
     (case (bounds_of A, bounds_of B, bounds_of C) of
        (Some a, Some b, Some c) \<Rightarrow>
          Bounded (max_size a + max_size b + max_size c + sizes_overhead A B (max_size a) (max_size b))
            (is_fixed_size a \<and> is_fixed_size b \<and> is_fixed_size c)
      | _ \<Rightarrow> Unbounded)"

definition triple_storable :: "'a storable \<Rightarrow> 'b storable \<Rightarrow> 'c storable \<Rightarrow> ('a \<times> 'b \<times> 'c) storable" where
  "triple_storable A B C =
     \<lparr>to_bytes = (\<lambda>(a, b, c). into_bytes_inner_3 A B C a b c),
      from_bytes = triple_from_bytes A B C,
      BOUND = triple_bound A B C\<rparr>"

section \<open>Sizes round-trip\<close>

lemma size_lengths_roundtrip:
  assumes "length sizes \<le> 4"
  shows "ok (encode_size_lengths sizes)
    (\<lambda>w. decode_size_lengths w (length sizes) = Some (map bytes_to_store_size sizes))"
proof -
  have cases: "sizes = [] \<or> (\<exists>a. sizes = [a]) \<or> (\<exists>a b. sizes = [a, b]) \<or> (\<exists>a b c. sizes = [a, b, c]) \<or>
      (\<exists>a b c d. sizes = [a, b, c, d])"
    using assms by (cases sizes; cases "tl sizes"; cases "tl (tl sizes)"; cases "tl (tl (tl sizes))") auto
  have k: "bytes_to_store_size n = 1 \<or> bytes_to_store_size n = 2 \<or> bytes_to_store_size n = 4" for n
    using bytes_to_store_size_cases[of n] by simp
  note d = encode_size_lengths_def decode_size_lengths_def Let_def
  show ?thesis
    using cases
  proof (elim disjE exE)
    show ?thesis if "sizes = []"
      using that by (simp add: d)
    show ?thesis if "sizes = [a]" for a
      using k[of a] that by (elim disjE) (simp_all add: d)
    show ?thesis if "sizes = [a, b]" for a b
      using k[of a] k[of b] that by (elim disjE) (simp_all add: d)
    show ?thesis if "sizes = [a, b, c]" for a b c
      using k[of a] k[of b] k[of c] that by (elim disjE) (simp_all add: d)
    show ?thesis if "sizes = [a, b, c, d]" for a b c d
      using k[of a] k[of b] k[of c] k[of d] that by (elim disjE) (simp_all add: d)
  qed
qed

lemma encode_size_append:
  assumes "n \<in> {1, 2, 4}" "n \<le> length dst"
  shows "encode_size dst v n = Some (to_be_bytes n v @ drop n dst)"
  using assms by (auto simp: encode_size_def copy_into_def overwrite_def numeral_2_eq_2)

lemma decode_size_append:
  assumes "n \<in> {1, 2, 4}" "v < 256 ^ n"
  shows "decode_size (to_be_bytes n v @ rest) n = Some v"
  using assms by (auto simp: decode_size_def get_range_def subrange_def)

text \<open>The size field of an element in a bounded pair.\<close>

definition size_field :: "bounds \<Rightarrow> nat \<Rightarrow> bytes" where
  "size_field b n = (if is_fixed_size b then [] else to_be_bytes (bytes_to_store_size (max_size b)) n)"

lemma length_size_field [simp]: "length (size_field b n) = bytes_to_store_size_bounded b"
  by (simp add: size_field_def bytes_to_store_size_bounded_def)

lemma encode_size_of_bound_ok:
  "length dst = bytes_to_store_size_bounded b \<Longrightarrow> encode_size_of_bound dst n b = Some (size_field b n)"
  using bytes_to_store_size_cases[of "max_size b"]
  by (cases "is_fixed_size b")
    (simp_all add: encode_size_of_bound_def size_field_def bytes_to_store_size_bounded_def encode_size_append)

lemma decode_size_of_bound_ok:
  assumes "n \<le> max_size b" "max_size b \<le> U32_MAX" "is_fixed_size b \<Longrightarrow> n = max_size b"
  shows "decode_size_of_bound (size_field b n) b = Some n"
proof -
  have "n < 256 ^ bytes_to_store_size (max_size b)"
    using assms(1) bytes_to_store_size_fits[OF assms(2)] by linarith
  then show ?thesis
    using assms(3) decode_size_append[of "bytes_to_store_size (max_size b)" n "[]"]
      bytes_to_store_size_cases[of "max_size b"]
    by (auto simp: decode_size_of_bound_def size_field_def)
qed

section \<open>Pairs round-trip\<close>

text \<open>The layout of a bounded pair: both elements padded to their maximal sizes, then the sizes.\<close>

definition pair_layout :: "bounds \<Rightarrow> bounds \<Rightarrow> bytes \<Rightarrow> bytes \<Rightarrow> bytes" where
  "pair_layout a b xs ys =
     (xs @ replicate (max_size a - length xs) 0) @ (ys @ replicate (max_size b - length ys) 0) @
     size_field a (length xs) @ size_field b (length ys)"

lemma pair_pieces:
  fixes p q f g :: bytes
  assumes "length p = m" "length q = n" "length f = j" "length g = k"
  shows "get_range (p @ q @ f @ g) (m + n) j = Some f"
    and "get_range (p @ q @ f @ g) (m + n + j) k = Some g"
    and "length f' = j \<Longrightarrow> copy_into (p @ q @ f @ g) (m + n) f' = Some (p @ q @ f' @ g)"
    and "length g' = k \<Longrightarrow> copy_into (p @ q @ f @ g) (m + n + j) g' = Some (p @ q @ f @ g')"
  using assms get_range_middle[of "m + n" "p @ q" j f g] get_range_middle[of "m + n + j" "p @ q @ f" k g "[]"]
    copy_into_middle[of "m + n" "p @ q" f' f g] copy_into_middle[of "m + n + j" "p @ q @ f" g' g "[]"]
  by simp_all

lemma pair_copies:
  fixes xs ys p :: bytes
  assumes "length xs \<le> m" "length ys \<le> n"
  shows "copy_into (replicate (m + n + j + k) 0) 0 xs =
      Some ((xs @ replicate (m - length xs) 0) @ replicate n 0 @ replicate j 0 @ replicate k 0)"
    and "length p = m \<Longrightarrow> copy_into (p @ replicate n 0 @ replicate j 0 @ replicate k 0) m ys =
      Some (p @ (ys @ replicate (n - length ys) 0) @ replicate j 0 @ replicate k 0)"
proof -
  show "copy_into (replicate (m + n + j + k) 0) 0 xs =
      Some ((xs @ replicate (m - length xs) 0) @ replicate n 0 @ replicate j 0 @ replicate k 0)"
    using assms by (simp add: copy_into_def overwrite_def flip: replicate_add)
  have "replicate n 0 = replicate (length ys) 0 @ replicate (n - length ys) (0 :: u8)"
    using assms by (simp flip: replicate_add)
  then show "length p = m \<Longrightarrow> copy_into (p @ replicate n 0 @ replicate j 0 @ replicate k 0) m ys =
      Some (p @ (ys @ replicate (n - length ys) 0) @ replicate j 0 @ replicate k 0)"
    using copy_into_middle[of m p ys "replicate (length ys) 0"] by simp
qed

lemma into_bytes_inner_2_layout:
  assumes a: "to_bytes A a = Some xs" "bounds_of A = Some ba" "length xs \<le> max_size ba"
    and b: "to_bytes B b = Some ys" "bounds_of B = Some bb" "length ys \<le> max_size bb"
  shows "into_bytes_inner_2 (pair_bound A B) A B a b = Some (pair_layout ba bb xs ys)"
proof -
  define p where "p = xs @ replicate (max_size ba - length xs) 0"
  define q where "q = ys @ replicate (max_size bb - length ys) 0"
  let ?j = "bytes_to_store_size_bounded ba" and ?k = "bytes_to_store_size_bounded bb"
  have len: "length p = max_size ba" "length q = max_size bb"
    using a(3) b(3) by (auto simp: p_def q_def)
  note copies = pair_copies[OF a(3) b(3), where j = ?j and k = ?k, folded p_def q_def]
  show ?thesis
    unfolding into_bytes_inner_2_def pair_bound_def pair_layout_def p_def[symmetric] q_def[symmetric]
    using a b
    by (simp add: Let_def copies len encode_size_of_bound_ok pair_pieces[OF len])
qed

lemma pair_from_layout:
  assumes a: "bounds_of A = Some ba" "length xs \<le> max_size ba" "max_size ba \<le> U32_MAX"
      "is_fixed_size ba \<Longrightarrow> length xs = max_size ba" "from_bytes A xs = Some a"
    and b: "bounds_of B = Some bb" "length ys \<le> max_size bb" "max_size bb \<le> U32_MAX"
      "is_fixed_size bb \<Longrightarrow> length ys = max_size bb" "from_bytes B ys = Some b"
  shows "pair_from_bytes A B (pair_layout ba bb xs ys) = Some (a, b)"
proof -
  define p where "p = xs @ replicate (max_size ba - length xs) 0"
  define q where "q = ys @ replicate (max_size bb - length ys) 0"
  have len: "length p = max_size ba" "length q = max_size bb"
    using a(2) b(2) by (auto simp: p_def q_def)
  have p: "get_range (p @ rest) 0 (length xs) = Some xs" for rest
    using get_range_middle[of 0 "[]" "length xs" xs] by (simp add: p_def)
  have q: "get_range (p @ q @ rest) (max_size ba) (length ys) = Some ys" for rest
    using get_range_middle[of "max_size ba" p "length ys" ys] len by (simp add: q_def)
  show ?thesis
    unfolding pair_from_bytes_def pair_bound_def pair_layout_def p_def[symmetric] q_def[symmetric]
    using a b by (simp add: Let_def decode_size_of_bound_ok len pair_pieces[OF len] p q)
qed

section \<open>Triples round-trip\<close>

text \<open>An element of a triple as it is laid out: its size field, if any, and its bytes.\<close>

definition element_layout :: "'a storable \<Rightarrow> bytes \<Rightarrow> bool \<Rightarrow> bytes" where
  "element_layout T xs is_last =
     (if \<not> is_last \<and> \<not> bound_is_fixed_size (BOUND T)
      then to_be_bytes (bytes_to_store_size (length xs)) (length xs) else []) @ xs"

lemma encode_at_ok:
  assumes "length p = offset" "length z = length (element_layout T xs is_last)"
  shows "encode_at T (p @ z @ r) offset xs is_last =
    Some (offset + length (element_layout T xs is_last), p @ element_layout T xs is_last @ r)"
  using assms bytes_to_store_size_cases[of "length xs"]
  by (auto simp: encode_at_def get_from_def encode_tuple_element_def element_layout_def Let_def
      encode_size_append copy_into_def overwrite_def split: if_splits)

definition triple_header :: "'a storable \<Rightarrow> 'b storable \<Rightarrow> u8 \<Rightarrow> bytes" where
  "triple_header A B w =
     (if bound_is_fixed_size (BOUND A) \<and> bound_is_fixed_size (BOUND B) then [] else [w])"

lemma sizes_overhead_length:
  "length xs + length ys + length zs + sizes_overhead A B (length xs) (length ys) =
     length (triple_header A B w) + length (element_layout A xs False) +
     length (element_layout B ys False) + length (element_layout C zs True)"
  by (simp add: sizes_overhead_def triple_header_def element_layout_def)

lemma sizes_overhead_zero:
  "sizes_overhead A B m n = 0 \<longleftrightarrow> bound_is_fixed_size (BOUND A) \<and> bound_is_fixed_size (BOUND B)"
  by (simp add: sizes_overhead_def)

lemma into_bytes_inner_3_layout:
  assumes "to_bytes A a = Some xs" "to_bytes B b = Some ys" "to_bytes C c = Some zs"
    and w: "encode_size_lengths [length xs, length ys] = Some w"
  shows "into_bytes_inner_3 A B C a b c = Some (triple_header A B w @ element_layout A xs False @
    element_layout B ys False @ element_layout C zs True)"
proof -
  let ?h = "triple_header A B w" and ?x = "element_layout A xs False"
    and ?y = "element_layout B ys False" and ?z = "element_layout C zs True"
  let ?n = "length xs + length ys + length zs + sizes_overhead A B (length xs) (length ys)"
  have n: "?n = length ?h + (length ?x + (length ?y + length ?z))"
    using sizes_overhead_length[of xs ys zs A B w C] by linarith
  have hdr: "(if sizes_overhead A B (length xs) (length ys) \<noteq> 0 then do {
        w \<leftarrow> encode_size_lengths [length xs, length ys];
        bs \<leftarrow> copy_into (replicate ?n 0) 0 [w];
        Some (1, bs) } else Some (0, replicate ?n 0)) =
      Some (length ?h, ?h @ replicate (length ?x) 0 @ replicate (length ?y) 0 @ replicate (length ?z) 0)"
    unfolding n using w
    by (simp add: sizes_overhead_zero triple_header_def copy_into_def overwrite_def replicate_add)
  have x: "encode_at A (?h @ replicate (length ?x) 0 @ r) (length ?h) xs False =
      Some (length ?h + length ?x, ?h @ ?x @ r)" for r
    by (rule encode_at_ok) simp_all
  have y: "encode_at B (?h @ ?x @ replicate (length ?y) 0 @ r) (length ?h + length ?x) ys False =
      Some (length ?h + length ?x + length ?y, ?h @ ?x @ ?y @ r)" for r
    using encode_at_ok[of "?h @ ?x" _ "replicate (length ?y) 0" B ys False r] by simp
  have z: "encode_at C (?h @ ?x @ ?y @ replicate (length ?z) 0) (length ?h + length ?x + length ?y) zs True =
      Some (?n, ?h @ ?x @ ?y @ ?z)"
    using encode_at_ok[of "?h @ ?x @ ?y" _ "replicate (length ?z) 0" C zs True "[]"] n
    by (simp add: add.assoc)
  show ?thesis
    unfolding into_bytes_inner_3_def
    using assms(1-3) by (simp only: Let_def bind.simps hdr prod.case x y z refl assert_that_simps)
qed

lemma decode_tuple_element_ok:
  assumes "from_bytes T xs = Some x" "length xs \<le> U32_MAX"
    and "\<And>m. BOUND T = Bounded m True \<Longrightarrow> length xs = m"
  shows "decode_tuple_element T (element_layout T xs False @ rest)
      (if \<not> bound_is_fixed_size (BOUND T) then Some (bytes_to_store_size (length xs)) else None) False =
    Some (x, length (element_layout T xs False))"
proof (cases "bound_is_fixed_size (BOUND T)")
  case True
  then obtain m where "BOUND T = Bounded m True"
    by (cases "BOUND T") (auto simp: bound_is_fixed_size_def)
  with assms True show ?thesis
    using get_range_middle[of 0 "[]" "length xs" xs rest]
    by (simp add: decode_tuple_element_def element_layout_def)
next
  case False
  let ?k = "bytes_to_store_size (length xs)"
  have "decode_size (to_be_bytes ?k (length xs) @ xs @ rest) ?k = Some (length xs)"
    using bytes_to_store_size_cases bytes_to_store_size_fits[OF assms(2)] by (rule decode_size_append)
  moreover have "get_range (to_be_bytes ?k (length xs) @ xs @ rest) ?k (length xs) = Some xs"
    by (rule get_range_middle) simp_all
  ultimately show ?thesis
    using False assms(1) by (simp add: decode_tuple_element_def element_layout_def)
qed

lemma decode_tuple_element_last:
  assumes "from_bytes T xs = Some x" "\<And>m. BOUND T = Bounded m True \<Longrightarrow> length xs = m"
  shows "decode_tuple_element T xs None True = Some (x, length xs)"
  using assms by (auto simp: decode_tuple_element_def get_range_def split: bound.splits bool.splits)

lemma triple_roundtrip:
  assumes x: "to_bytes A a = Some xs" "from_bytes A xs = Some a" "length xs \<le> U32_MAX"
      "\<And>m. BOUND A = Bounded m True \<Longrightarrow> length xs = m"
    and y: "to_bytes B b = Some ys" "from_bytes B ys = Some b" "length ys \<le> U32_MAX"
      "\<And>m. BOUND B = Bounded m True \<Longrightarrow> length ys = m"
    and z: "to_bytes C c = Some zs" "from_bytes C zs = Some c" "\<And>m. BOUND C = Bounded m True \<Longrightarrow> length zs = m"
  shows "ok (into_bytes_inner_3 A B C a b c) (\<lambda>bs. triple_from_bytes A B C bs = Some (a, b, c))"
proof -
  let ?fa = "bound_is_fixed_size (BOUND A)" and ?fb = "bound_is_fixed_size (BOUND B)"
  obtain w where w: "encode_size_lengths [length xs, length ys] = Some w"
    and dw: "decode_size_lengths w 2 = Some [bytes_to_store_size (length xs), bytes_to_store_size (length ys)]"
    using size_lengths_roundtrip[of "[length xs, length ys]"]
    by (auto simp: numeral_2_eq_2 elim: ok_obtain)
  define h where "h = triple_header A B w"
  define ex where "ex = element_layout A xs False"
  define ey where "ey = element_layout B ys False"
  have "(if \<not> (?fa \<and> ?fb) then do {
          hd_bytes \<leftarrow> get_range (h @ ex @ ey @ zs) 0 1;
          lengths \<leftarrow> decode_size_lengths (hd_bytes ! 0) 2;
          Some (1, if \<not> ?fa then Some (lengths ! 0) else None, if \<not> ?fb then Some (lengths ! 1) else None) }
        else Some (0, None, None)) =
      Some (length h, if \<not> ?fa then Some (bytes_to_store_size (length xs)) else None,
        if \<not> ?fb then Some (bytes_to_store_size (length ys)) else None)"
    using dw by (simp add: h_def triple_header_def get_range_def subrange_def)
  moreover have "get_from (h @ ex @ ey @ zs) (length h) = Some (ex @ ey @ zs)"
    "get_from (h @ ex @ ey @ zs) (length h + length ex) = Some (ey @ zs)"
    "get_from (h @ ex @ ey @ zs) (length h + length ex + length ey) = Some zs"
    by (simp_all add: get_from_def)
  moreover note decode_tuple_element_ok[OF x(2-4), where rest = "ey @ zs", folded ex_def]
    decode_tuple_element_ok[OF y(2-4), where rest = zs, folded ey_def]
    decode_tuple_element_last[OF z(2,3)]
  ultimately have "triple_from_bytes A B C (h @ ex @ ey @ zs) = Some (a, b, c)"
    unfolding triple_from_bytes_def by (simp only: bind.simps prod.case Let_def) simp
  then show ?thesis
    using into_bytes_inner_3_layout[OF x(1) y(1) z(1) w]
    by (simp add: h_def ex_def ey_def element_layout_def)
qed

section \<open>The contract\<close>

lemma pair_bounded_law:
  assumes A: "storable_type A va" and B: "storable_type B vb"
    and ba: "bounds_of A = Some ba" "max_size ba \<le> U32_MAX"
    and bb: "bounds_of B = Some bb" "max_size bb \<le> U32_MAX"
  shows "storable_type (pair_storable A B) (\<lambda>(a, b). va a \<and> vb b)"
proof -
  let ?P = "pair_storable A B"
  have "ok (to_bytes ?P (a, b)) (\<lambda>bs. from_bytes ?P bs = Some (a, b) \<and> ok (check_bounds ?P bs) (\<lambda>_. True))"
    if v: "va a" "vb b" for a b
  proof -
    obtain xs where xs: "to_bytes A a = Some xs" "from_bytes A xs = Some a" "length xs \<le> max_size ba"
      "is_fixed_size ba \<Longrightarrow> length xs = max_size ba"
      using storable_type.to_bytes_bounded[OF A v(1) ba(1)] by blast
    obtain ys where ys: "to_bytes B b = Some ys" "from_bytes B ys = Some b" "length ys \<le> max_size bb"
      "is_fixed_size bb \<Longrightarrow> length ys = max_size bb"
      using storable_type.to_bytes_bounded[OF B v(2) bb(1)] by blast
    show ?thesis
      using into_bytes_inner_2_layout[OF xs(1) ba(1) xs(3) ys(1) bb(1) ys(3)]
        pair_from_layout[OF ba(1) xs(3) ba(2) xs(4) xs(2) bb(1) ys(3) bb(2) ys(4) ys(2)] xs(3) ys(3) ba(1) bb(1)
      by (simp add: pair_storable_def ok_check_bounds pair_bound_def pair_layout_def)
  qed
  then show ?thesis
    by (intro storable_typeI) auto
qed

text \<open>
  C33. Pairs of bounded types meet the contract of \<open>Storable\<close>, and pairs with an unbounded type are not supported: when two bounded element types, with bounds that fit
  a \<open>u32\<close>, encode and decode faithfully within their bounds, so does the pair type built from them, and the encoded pair has the length its declared bound
  promises. When one of the element types is unbounded, every encoding and every decoding of a pair panics.
\<close>

theorem pair_storable_law:
  assumes "storable_type A va" "storable_type B vb"
    and "\<forall>b. bounds_of A = Some b \<longrightarrow> max_size b \<le> U32_MAX" "\<forall>b. bounds_of B = Some b \<longrightarrow> max_size b \<le> U32_MAX"
  shows "if BOUND A \<noteq> Unbounded \<and> BOUND B \<noteq> Unbounded then storable_type (pair_storable A B) (\<lambda>(a, b). va a \<and> vb b)
    else (\<forall>x. to_bytes (pair_storable A B) x = None) \<and> (\<forall>bs. from_bytes (pair_storable A B) bs = None)"
proof (cases "BOUND A \<noteq> Unbounded \<and> BOUND B \<noteq> Unbounded")
  case True
  then obtain ba bb where "bounds_of A = Some ba" "bounds_of B = Some bb"
    by (cases "BOUND A"; cases "BOUND B") (simp_all add: bounds_of_def)
  with pair_bounded_law[OF assms(1,2)] assms(3,4) True show ?thesis
    by simp
next
  case False
  then have "pair_bound A B = Unbounded"
    by (auto simp: pair_bound_def bounds_of_def split: bound.splits)
  with False show ?thesis
    by (auto simp: pair_storable_def into_bytes_inner_2_def pair_from_bytes_def)
qed

theorem pair_storable_law_witness:
  "storable_type (pair_storable u64_storable (blob_storable 10)) (\<lambda>(a, b). True \<and> blob_canonical 10 b) \<and>
   to_bytes (pair_storable u64_storable vec_u8_storable) (1, [2]) = None \<and> from_bytes (pair_storable u64_storable vec_u8_storable) [1, 2] = None"
  using pair_storable_law[OF u64_ty.storable_type_axioms blob_ty.storable_type_axioms, of 10]
    pair_storable_law[OF u64_ty.storable_type_axioms vec_u8_ty.storable_type_axioms]
  by (simp add: bounds_of_def u64_storable_def blob_storable_def vec_u8_storable_def)

text \<open>
  C34. Triples round-trip for bounded and unbounded element types alike: a triple of values whose
  encodings are below 4 GiB is serialized without a panic and decoded to the same triple.
\<close>

theorem triple_storable_roundtrip:
  assumes A: "storable_type A va" "va a" "ok (to_bytes A a) (\<lambda>xs. length xs \<le> U32_MAX)"
    and B: "storable_type B vb" "vb b" "ok (to_bytes B b) (\<lambda>ys. length ys \<le> U32_MAX)"
    and C: "storable_type C vc" "vc c"
  shows "ok (to_bytes (triple_storable A B C) (a, b, c))
    (\<lambda>bs. from_bytes (triple_storable A B C) bs = Some (a, b, c))"
proof -
  obtain xs where xs: "to_bytes A a = Some xs" "from_bytes A xs = Some a" "length xs \<le> U32_MAX"
    "ok (check_bounds A xs) (\<lambda>_. True)"
    using storable_type.to_bytes_ok[OF A(1,2)] A(3) by (auto simp: ok_def)
  obtain ys where ys: "to_bytes B b = Some ys" "from_bytes B ys = Some b" "length ys \<le> U32_MAX"
    "ok (check_bounds B ys) (\<lambda>_. True)"
    using storable_type.to_bytes_ok[OF B(1,2)] B(3) by (auto simp: ok_def)
  obtain zs where zs: "to_bytes C c = Some zs" "from_bytes C zs = Some c" "ok (check_bounds C zs) (\<lambda>_. True)"
    using storable_type.to_bytes_ok[OF C(1,2)] by (auto simp: ok_def)
  have "ok (into_bytes_inner_3 A B C a b c) (\<lambda>bs. triple_from_bytes A B C bs = Some (a, b, c))"
    by (rule triple_roundtrip[OF xs(1-3) _ ys(1-3) _ zs(1,2)])
      (use xs(4) ys(4) zs(3) in \<open>simp_all add: ok_check_bounds\<close>)
  then show ?thesis
    by (simp add: triple_storable_def)
qed

theorem triple_storable_roundtrip_witness:
  "ok (to_bytes (triple_storable u64_storable vec_u8_storable bool_storable) (7, [1, 2, 3], True))
    (\<lambda>bs. from_bytes (triple_storable u64_storable vec_u8_storable bool_storable) bs = Some (7, [1, 2, 3], True))"
  by (rule triple_storable_roundtrip[OF u64_ty.storable_type_axioms _ _ vec_u8_ty.storable_type_axioms _ _
        bool_ty.storable_type_axioms])
    (simp_all add: u64_storable_def word_to_bytes_def vec_u8_storable_def)

end
