(* ===== verification/Memory_IO.thy ===== *)
theory Memory_IO
  imports Memory
begin

text \<open>
  Sequential access to a memory: \<open>Reader\<close> and \<open>BufferedReader\<close> of \<open>src/src/reader.rs\<close>, \<open>Writer\<close> and
  \<open>BufferedWriter\<close> of \<open>src/src/writer.rs\<close>. The standard library's \<open>BufReader\<close> and \<open>BufWriter\<close>, which
  the buffered variants wrap, are modelled with their buffers. A reader borrows the memory; the
  memory is passed to and returned by each operation.
\<close>

section \<open>Reader\<close>

record reader =
  rd_offset :: nat

datatype out_of_bounds = OutOfBounds (max_address: nat) (attempted_read_address: nat)

definition reader_new :: "nat \<Rightarrow> reader" where
  "reader_new offset = \<lparr>rd_offset = offset\<rparr>"

text \<open>\<open>read\<close> into a buffer of \<open>n\<close> bytes: the bytes it puts at the start of the buffer.\<close>

definition reader_read ::
  "'s memory_ops \<Rightarrow> 's \<Rightarrow> reader \<Rightarrow> nat \<Rightarrow> ((out_of_bounds + bytes) \<times> reader \<times> 's) option" where
  "reader_read M s rd n = do {
     size \<leftarrow> size_op M s;
     memory_end_addr \<leftarrow> u64_mul size WASM_PAGE_SIZE;
     e \<leftarrow> u64_add n (rd_offset rd);
     if e > memory_end_addr \<and> \<not> rd_offset rd < memory_end_addr then
       Some (Inl (OutOfBounds memory_end_addr (rd_offset rd)), rd, s)
     else do {
       let count = (if e > memory_end_addr then memory_end_addr - rd_offset rd else n);
       (bs, s) \<leftarrow> read_op M s (rd_offset rd) count;
       off \<leftarrow> u64_add (rd_offset rd) count;
       Some (Inr bs, rd\<lparr>rd_offset := off\<rparr>, s) } }"

text \<open>\<open>io::Read for Reader\<close>: the end of the memory is the end of the stream.\<close>

definition reader_io_read :: "'s memory_ops \<Rightarrow> 's \<Rightarrow> reader \<Rightarrow> nat \<Rightarrow> (bytes \<times> reader \<times> 's) option" where
  "reader_io_read M s rd n = do {
     (r, rd, s) \<leftarrow> reader_read M s rd n;
     case r of Inl _ \<Rightarrow> Some ([], rd, s) | Inr bs \<Rightarrow> Some (bs, rd, s) }"

record buffered_reader =
  br_inner :: reader
  br_buf :: bytes
  br_capacity :: nat

definition buffered_reader_new :: "nat \<Rightarrow> reader \<Rightarrow> buffered_reader" where
  "buffered_reader_new buffer_size rd = \<lparr>br_inner = rd, br_buf = [], br_capacity = buffer_size\<rparr>"

text \<open>\<open>BufReader::read\<close>: large reads bypass an empty buffer; otherwise an empty buffer is filled first.\<close>

definition buffered_read ::
  "'s memory_ops \<Rightarrow> 's \<Rightarrow> buffered_reader \<Rightarrow> nat \<Rightarrow> (bytes \<times> buffered_reader \<times> 's) option" where
  "buffered_read M s br n =
     (if br_buf br = [] \<and> n \<ge> br_capacity br then do {
        (bs, rd, s) \<leftarrow> reader_io_read M s (br_inner br) n;
        Some (bs, br\<lparr>br_inner := rd\<rparr>, s)
      } else do {
        (br, s) \<leftarrow> (if br_buf br = [] then do {
            (bs, rd, s) \<leftarrow> reader_io_read M s (br_inner br) (br_capacity br);
            Some (br\<lparr>br_inner := rd, br_buf := bs\<rparr>, s)
          } else Some (br, s));
        Some (take n (br_buf br), br\<lparr>br_buf := drop n (br_buf br)\<rparr>, s) })"

section \<open>Writer\<close>

record writer =
  wr_offset :: nat

datatype io_error = OutOfMemoryError grow_failed

definition writer_new :: "nat \<Rightarrow> writer" where
  "writer_new offset = \<lparr>wr_offset = offset\<rparr>"

definition writer_write ::
  "'s memory_ops \<Rightarrow> 's \<Rightarrow> writer \<Rightarrow> bytes \<Rightarrow> ((grow_failed + unit) \<times> writer \<times> 's) option" where
  "writer_write M s w buf = do {
     (r, s) \<leftarrow> safe_write M s (wr_offset w) buf;
     case r of
       Inl e \<Rightarrow> Some (Inl e, w, s)
     | Inr _ \<Rightarrow> do {
         off \<leftarrow> u64_add (wr_offset w) (length buf);
         Some (Inr (), w\<lparr>wr_offset := off\<rparr>, s) } }"

definition writer_io_write ::
  "'s memory_ops \<Rightarrow> 's \<Rightarrow> writer \<Rightarrow> bytes \<Rightarrow> ((io_error + nat) \<times> writer \<times> 's) option" where
  "writer_io_write M s w buf = do {
     (r, w, s) \<leftarrow> writer_write M s w buf;
     Some (case r of Inl e \<Rightarrow> Inl (OutOfMemoryError e) | Inr _ \<Rightarrow> Inr (length buf), w, s) }"

definition writer_flush :: "writer \<Rightarrow> 's \<Rightarrow> ((io_error + unit) \<times> writer \<times> 's) option" where
  "writer_flush w s = Some (Inr (), w, s)"

record buffered_writer =
  bw_inner :: writer
  bw_buf :: bytes
  bw_capacity :: nat

definition buffered_writer_new :: "nat \<Rightarrow> writer \<Rightarrow> buffered_writer" where
  "buffered_writer_new buffer_size w = \<lparr>bw_inner = w, bw_buf = [], bw_capacity = buffer_size\<rparr>"

text \<open>\<open>BufWriter::flush_buf\<close>: a writer that accepts a write accepts all of it.\<close>

definition bw_flush_buf ::
  "'s memory_ops \<Rightarrow> 's \<Rightarrow> buffered_writer \<Rightarrow> ((io_error + unit) \<times> buffered_writer \<times> 's) option" where
  "bw_flush_buf M s bw =
     (if bw_buf bw = [] then Some (Inr (), bw, s)
      else do {
        (r, w, s) \<leftarrow> writer_io_write M s (bw_inner bw) (bw_buf bw);
        Some (case r of Inl e \<Rightarrow> (Inl e, bw\<lparr>bw_inner := w\<rparr>, s)
          | Inr n \<Rightarrow> (Inr (), bw\<lparr>bw_inner := w, bw_buf := drop n (bw_buf bw)\<rparr>, s)) })"

text \<open>\<open>BufWriter::write\<close>\<close>

definition buffered_write ::
  "'s memory_ops \<Rightarrow> 's \<Rightarrow> buffered_writer \<Rightarrow> bytes \<Rightarrow> ((io_error + nat) \<times> buffered_writer \<times> 's) option" where
  "buffered_write M s bw buf =
     (let spare = bw_capacity bw - length (bw_buf bw) in
      if length buf < spare then Some (Inr (length buf), bw\<lparr>bw_buf := bw_buf bw @ buf\<rparr>, s)
      else do {
        (r, bw, s) \<leftarrow> (if length buf > spare then bw_flush_buf M s bw else Some (Inr (), bw, s));
        case r of
          Inl e \<Rightarrow> Some (Inl e, bw, s)
        | Inr _ \<Rightarrow>
            if length buf \<ge> bw_capacity bw then do {
              (r, w, s) \<leftarrow> writer_io_write M s (bw_inner bw) buf;
              Some (r, bw\<lparr>bw_inner := w\<rparr>, s)
            } else Some (Inr (length buf), bw\<lparr>bw_buf := bw_buf bw @ buf\<rparr>, s) })"

definition buffered_flush ::
  "'s memory_ops \<Rightarrow> 's \<Rightarrow> buffered_writer \<Rightarrow> ((io_error + unit) \<times> buffered_writer \<times> 's) option" where
  "buffered_flush M s bw = do {
     (r, bw, s) \<leftarrow> bw_flush_buf M s bw;
     case r of
       Inl e \<Rightarrow> Some (Inl e, bw, s)
     | Inr _ \<Rightarrow> do {
         (r, w, s) \<leftarrow> writer_flush (bw_inner bw) s;
         Some (r, bw\<lparr>bw_inner := w\<rparr>, s) } }"

text \<open>Several writes in a row, each of which must succeed.\<close>

fun buffered_write_all ::
  "'s memory_ops \<Rightarrow> 's \<Rightarrow> buffered_writer \<Rightarrow> bytes list \<Rightarrow> ((io_error + unit) \<times> buffered_writer \<times> 's) option" where
  "buffered_write_all M s bw [] = Some (Inr (), bw, s)"
| "buffered_write_all M s bw (b # bs) = do {
     (r, bw, s) \<leftarrow> buffered_write M s bw b;
     case r of
       Inl e \<Rightarrow> Some (Inl e, bw, s)
     | Inr _ \<Rightarrow> buffered_write_all M s bw bs }"

text \<open>
  \<open>read_exact\<close> of \<open>io::Read\<close>, which a \<open>BufferedReader\<close> inherits: it reads until the buffer of \<open>n\<close> bytes is full; a read of no bytes is the end of the
  stream and an error.
\<close>

datatype read_error = UnexpectedEof

function buffered_read_exact ::
  "'s memory_ops \<Rightarrow> 's \<Rightarrow> buffered_reader \<Rightarrow> nat \<Rightarrow> ((read_error + bytes) \<times> buffered_reader \<times> 's) option" where
  "buffered_read_exact M s br n =
     (if n = 0 then Some (Inr [], br, s)
      else do {
        (b, br, s) \<leftarrow> buffered_read M s br n;
        if b = [] then Some (Inl UnexpectedEof, br, s)
        else do {
          (r, br, s) \<leftarrow> buffered_read_exact M s br (n - length b);
          Some (map_sum id (\<lambda>bs. b @ bs) r, br, s) } })"
  by pat_completeness auto
termination
  by (relation "measure (\<lambda>(M, s, br, n). n)") auto

declare buffered_read_exact.simps [simp del]

fun buffered_read_all ::
  "'s memory_ops \<Rightarrow> 's \<Rightarrow> buffered_reader \<Rightarrow> nat list \<Rightarrow> ((read_error + bytes list) \<times> buffered_reader \<times> 's) option" where
  "buffered_read_all M s br [] = Some (Inr [], br, s)"
| "buffered_read_all M s br (n # ns) = do {
     (r, br, s) \<leftarrow> buffered_read_exact M s br n;
     case r of
       Inl e \<Rightarrow> Some (Inl e, br, s)
     | Inr b \<Rightarrow> do {
         (r, br, s) \<leftarrow> buffered_read_all M s br ns;
         Some (map_sum id (\<lambda>bs. b # bs) r, br, s) } }"

section \<open>Sequential access on any memory\<close>

context memory
begin

text \<open>A read returns what lies at the offset, cut at the end of the memory.\<close>

lemma reader_read_ok:
  assumes s: "inv s" and o: "rd_offset rd + n \<le> U64_MAX"
  shows "ok (reader_read M s rd n) (\<lambda>(r, rd', s'). inv s' \<and> contents s' = contents s \<and> cap s' = cap s \<and>
    (if length (contents s) < rd_offset rd + n \<and> length (contents s) \<le> rd_offset rd
     then r = Inl (OutOfBounds (length (contents s)) (rd_offset rd)) \<and> rd' = rd
     else let bs = subrange (contents s) (rd_offset rd) n in
       r = Inr bs \<and> rd' = rd\<lparr>rd_offset := rd_offset rd + length bs\<rparr>))"
proof -
  let ?L = "length (contents s)" and ?o = "rd_offset rd"
  have m: "u64_mul (?L div WASM_PAGE_SIZE) WASM_PAGE_SIZE = Some ?L"
    using length_le_max[OF s] size_bytes[OF s] by (simp only: u64_mul_def if_True)
  have e: "u64_add n ?o = Some (?o + n)"
    using o by (simp add: u64_add_def add.commute)
  consider "?L < ?o + n" "?L \<le> ?o" | "?L < ?o + n" "?o < ?L" | "?o + n \<le> ?L"
    by linarith
  then show ?thesis
  proof cases
    case 1
    then show ?thesis
      using s by (simp add: reader_read_def size_law[OF s] m e)
  next
    case 2
    have "subrange (contents s) ?o n = subrange (contents s) ?o (?L - ?o)"
      using 2 by (simp add: subrange_def)
    moreover have "length (subrange (contents s) ?o (?L - ?o)) = ?L - ?o"
      using 2 by (intro length_subrange) simp
    moreover have "ok (read_op M s ?o (?L - ?o)) (\<lambda>(bs, s'). bs = subrange (contents s) ?o (?L - ?o) \<and>
        inv s' \<and> contents s' = contents s \<and> cap s' = cap s)"
      using 2 by (intro read_law[OF s]) simp
    ultimately show ?thesis
      using 2 length_le_max[OF s] by (auto simp: reader_read_def size_law[OF s] m e Let_def elim!: ok_mono)
  next
    case 3
    then show ?thesis
      using read_law[OF s, of ?o n] o by (auto simp: reader_read_def size_law[OF s] m e Let_def elim!: ok_mono)
  qed
qed

lemma reader_io_read_ok:
  assumes "inv s" "rd_offset rd + n \<le> U64_MAX"
  shows "ok (reader_io_read M s rd n) (\<lambda>(bs, rd', s'). inv s' \<and> contents s' = contents s \<and> cap s' = cap s \<and>
    bs = subrange (contents s) (rd_offset rd) n \<and> rd' = rd\<lparr>rd_offset := rd_offset rd + length bs\<rparr>)"
  unfolding reader_io_read_def
  by (rule ok_bindI[OF reader_read_ok[OF assms]])
    (auto simp: Let_def subrange_def split: if_splits)

text \<open>The bytes a buffered reader has still to deliver: its buffer and what follows in the memory.\<close>

abbreviation pending :: "'s \<Rightarrow> buffered_reader \<Rightarrow> bytes" where
  "pending s br \<equiv> br_buf br @ drop (rd_offset (br_inner br)) (contents s)"

lemma buffered_read_ok:
  assumes s: "inv s" and o: "rd_offset (br_inner br) + max n (br_capacity br) \<le> U64_MAX"
  shows "ok (buffered_read M s br n) (\<lambda>(bs, br', s'). inv s' \<and> contents s' = contents s \<and> cap s' = cap s \<and>
    br_capacity br' = br_capacity br \<and> bs @ pending s' br' = pending s br \<and> length bs \<le> n \<and>
    rd_offset (br_inner br') \<le> max (rd_offset (br_inner br)) (length (contents s)) \<and>
    (bs = [] \<longrightarrow> n = 0 \<or> pending s br = []))"
proof -
  let ?rd = "br_inner br"
  have o1: "rd_offset ?rd + n \<le> U64_MAX" and o2: "rd_offset ?rd + br_capacity br \<le> U64_MAX"
    using o by simp_all
  have rest: "subrange c k m @ drop (k + length (subrange c k m)) c = drop k c" for c :: bytes and k m
    by (simp add: subrange_def min_def) (metis append_take_drop_id drop_drop add.commute)
  consider "br_buf br = []" "br_capacity br \<le> n" | "br_buf br = []" "n < br_capacity br" | "br_buf br \<noteq> []"
    by linarith
  then show ?thesis
  proof cases
    case 1
    then show ?thesis
      using rest[of "contents s" "rd_offset ?rd" n]
      by (auto simp: buffered_read_def subrange_def intro!: ok_mono[OF reader_io_read_ok[OF s o1]])
  next
    case 2
    then have "n < br_capacity br"
      by simp
    then show ?thesis
      using 2 rest[of "contents s" "rd_offset ?rd" "br_capacity br"]
      by (auto simp: buffered_read_def subrange_def append.assoc[symmetric] simp del: append_assoc
          intro!: ok_mono[OF reader_io_read_ok[OF s o2]])
  next
    case 3
    then show ?thesis
      using s by (auto simp: buffered_read_def append.assoc[symmetric] simp del: append_assoc)
  qed
qed

text \<open>
  While there are enough bytes left, \<open>read_exact\<close> delivers the next \<open>n\<close> of them, whatever the buffer holds; a sequence of them
  delivers one chunk after the other.
\<close>

lemma buffered_read_exact_ok:
  assumes "inv s" "rd_offset (br_inner br) \<le> length (contents s)" "length (contents s) + max n (br_capacity br) \<le> U64_MAX" "n \<le> length (pending s br)"
  shows "ok (buffered_read_exact M s br n) (\<lambda>(r, br', s'). inv s' \<and> contents s' = contents s \<and> br_capacity br' = br_capacity br \<and>
    rd_offset (br_inner br') \<le> length (contents s) \<and> r = Inr (take n (pending s br)) \<and> pending s' br' = drop n (pending s br))"
  using assms
proof (induction n arbitrary: s br rule: less_induct)
  case (less n)
  show ?case
  proof (cases "n = 0")
    case True
    then show ?thesis
      using less.prems by (subst buffered_read_exact.simps) simp
  next
    case False
    have "rd_offset (br_inner br) + max n (br_capacity br) \<le> U64_MAX"
      using less.prems(2,3) by linarith
    from buffered_read_ok[OF less.prems(1) this] obtain b br1 s1 where r: "buffered_read M s br n = Some (b, br1, s1)"
      "inv s1" "contents s1 = contents s" "br_capacity br1 = br_capacity br" "b @ pending s1 br1 = pending s br" "length b \<le> n"
      "rd_offset (br_inner br1) \<le> length (contents s)" "b \<noteq> []"
      using less.prems(2,4) False by (auto simp: max_def elim!: ok_obtain)
    have p: "take (n - length b) (pending s1 br1) = drop (length b) (take n (pending s br))" "drop (n - length b) (pending s1 br1) = drop n (pending s br)"
      "b = take (length b) (take n (pending s br))"
      using r(6) by (simp_all add: r(5)[symmetric])
    have "n - length b < n"
      using r(8) False by simp
    moreover have "n - length b \<le> length (pending s1 br1)"
      using less.prems(4) by (simp add: r(5)[symmetric])
    moreover have "length (contents s1) + max (n - length b) (br_capacity br1) \<le> U64_MAX"
      using less.prems(3) r(3,4) by simp
    ultimately obtain br2 s2 where "buffered_read_exact M s1 br1 (n - length b) = Some (Inr (take (n - length b) (pending s1 br1)), br2, s2)"
      "inv s2" "contents s2 = contents s" "br_capacity br2 = br_capacity br" "rd_offset (br_inner br2) \<le> length (contents s)"
      "pending s2 br2 = drop (n - length b) (pending s1 br1)"
      using less.IH[of "n - length b" s1 br1] r(2,3,4,7) by (auto elim!: ok_obtain)
    moreover have "b @ take (n - length b) (pending s1 br1) = take n (pending s br)"
      using p by (metis append_take_drop_id)
    ultimately show ?thesis
      using False r(1,8) p(2) by (subst buffered_read_exact.simps) simp
  qed
qed

lemma buffered_read_all_ok:
  assumes "inv s" "rd_offset (br_inner br) \<le> length (contents s)" "\<forall>n \<in> set (br_capacity br # ns). length (contents s) + n \<le> U64_MAX"
    "sum_list ns \<le> length (pending s br)"
  shows "ok (buffered_read_all M s br ns) (\<lambda>(r, br', s'). \<exists>rs. r = Inr rs \<and> map length rs = ns \<and> concat rs = take (sum_list ns) (pending s br))"
  using assms
proof (induction ns arbitrary: s br)
  case Nil
  then show ?case by simp
next
  case (Cons n ns)
  have "length (contents s) + max n (br_capacity br) \<le> U64_MAX" "n \<le> length (pending s br)"
    using Cons.prems(3,4) by (auto simp: max_def)
  from buffered_read_exact_ok[OF Cons.prems(1,2) this] obtain br1 s1 where r: "buffered_read_exact M s br n = Some (Inr (take n (pending s br)), br1, s1)"
    "inv s1" "contents s1 = contents s" "br_capacity br1 = br_capacity br" "rd_offset (br_inner br1) \<le> length (contents s)"
    "pending s1 br1 = drop n (pending s br)"
    by (auto elim!: ok_obtain)
  have "sum_list ns \<le> length (pending s1 br1)"
    using Cons.prems(4) by (simp add: r(6))
  moreover have "rd_offset (br_inner br1) \<le> length (contents s1)" "\<forall>n \<in> set (br_capacity br1 # ns). length (contents s1) + n \<le> U64_MAX"
    using Cons.prems(3) r(3-5) by simp_all
  ultimately obtain rs br2 s2 where 2: "buffered_read_all M s1 br1 ns = Some (Inr rs, br2, s2)" "map length rs = ns"
    "concat rs = take (sum_list ns) (pending s1 br1)"
    using Cons.IH[of s1 br1] r(2) by (auto simp del: take_append elim!: ok_obtain)
  have "take n (pending s br) @ concat rs = take (n + sum_list ns) (pending s br)"
    by (simp only: 2(3) r(6) take_add)
  then show ?case
    using r(1) 2(1,2) \<open>n \<le> length (pending s br)\<close> by simp
qed

lemma writer_write_ok:
  assumes s: "inv s" and fits: "wr_offset w + length buf \<le> cap s * WASM_PAGE_SIZE"
  shows "ok (writer_write M s w buf) (\<lambda>(r, w', s'). r = Inr () \<and> inv s' \<and> cap s' = cap s \<and>
    w' = w\<lparr>wr_offset := wr_offset w + length buf\<rparr> \<and> wrote (contents s) (wr_offset w) buf (contents s'))"
proof -
  have "wr_offset w + length buf \<le> U64_MAX"
    using fits cap_bytes[OF s] by linarith
  then show ?thesis
    using safe_write_ok[OF s fits] by (auto simp: writer_write_def elim!: ok_mono)
qed

text \<open>A write for which the memory cannot grow writes nothing and keeps the offset.\<close>

lemma writer_write_fail:
  assumes "inv s" "writer_write M s w buf = Some (Inl e, w', s')"
  shows "w' = w \<and> inv s' \<and> contents s' = contents s \<and> cap s * WASM_PAGE_SIZE < wr_offset w + length buf"
proof -
  obtain r s1 where r: "safe_write M s (wr_offset w) buf = Some (r, s1)"
    using assms(2) by (auto simp: writer_write_def bind_eq_Some_conv)
  then have "r = Inl e \<and> w' = w \<and> s1 = s'"
    using assms(2) by (cases r) (auto simp: writer_write_def bind_eq_Some_conv)
  with safe_write_cases[OF assms(1) r] show ?thesis
    by auto
qed

definition bw_inv :: "bytes \<Rightarrow> nat \<Rightarrow> bytes \<Rightarrow> 's \<Rightarrow> buffered_writer \<Rightarrow> bool" where
  "bw_inv c0 off ws s bw \<longleftrightarrow> inv s \<and>
     (\<exists>fs. ws = fs @ bw_buf bw \<and> wr_offset (bw_inner bw) = off + length fs \<and>
       (fs = [] \<and> contents s = c0 \<or> wrote c0 off fs (contents s)))"

lemma inner_write_ok:
  assumes i: "bw_inv c0 off ws s bw" and e: "bw_buf bw = []" and fits: "off + length (ws @ buf) \<le> cap s * WASM_PAGE_SIZE"
  shows "ok (writer_io_write M s (bw_inner bw) buf) (\<lambda>(r, w, s'). r = Inr (length buf) \<and> cap s' = cap s \<and>
    bw_inv c0 off (ws @ buf) s' (bw\<lparr>bw_inner := w\<rparr>))"
proof -
  have fs: "inv s" "wr_offset (bw_inner bw) = off + length ws" "ws = [] \<and> contents s = c0 \<or> wrote c0 off ws (contents s)"
    using i e by (auto simp: bw_inv_def)
  have w: "wrote c0 off (ws @ buf) c'" if "wrote (contents s) (off + length ws) buf c'" for c'
    using fs(3) that wrote_wrote[of c0 off ws "contents s" buf c'] by auto
  have "wr_offset (bw_inner bw) + length buf \<le> cap s * WASM_PAGE_SIZE"
    using fits fs(2) by simp
  from writer_write_ok[OF fs(1) this] fs(2) e w show ?thesis
    by (auto simp: writer_io_write_def bw_inv_def elim!: ok_mono)
qed

lemma flush_buf_ok:
  assumes i: "bw_inv c0 off ws s bw" and fits: "off + length ws \<le> cap s * WASM_PAGE_SIZE"
  shows "ok (bw_flush_buf M s bw) (\<lambda>(r, bw', s'). r = Inr () \<and> cap s' = cap s \<and> bw_inv c0 off ws s' bw' \<and>
    bw_buf bw' = [] \<and> bw_capacity bw' = bw_capacity bw)"
proof (cases "bw_buf bw = []")
  case True
  with i show ?thesis by (simp add: bw_flush_buf_def)
next
  case False
  obtain fs where fs: "ws = fs @ bw_buf bw" "bw_inv c0 off fs s (bw\<lparr>bw_buf := []\<rparr>)"
    using i by (auto simp: bw_inv_def)
  have "ok (writer_io_write M s (bw_inner (bw\<lparr>bw_buf := []\<rparr>)) (bw_buf bw)) (\<lambda>(r, w, s'). r = Inr (length (bw_buf bw)) \<and> cap s' = cap s \<and>
    bw_inv c0 off (fs @ bw_buf bw) s' ((bw\<lparr>bw_buf := []\<rparr>)\<lparr>bw_inner := w\<rparr>))"
    using fits fs(1) by (intro inner_write_ok[OF fs(2)]) simp_all
  with False fs(1) show ?thesis
    by (auto simp: bw_flush_buf_def bw_inv_def elim!: ok_mono)
qed

lemma buffered_write_ok:
  assumes i: "bw_inv c0 off ws s bw" and fits: "off + length (ws @ buf) \<le> cap s * WASM_PAGE_SIZE"
    and c: "length (bw_buf bw) \<le> bw_capacity bw"
  shows "ok (buffered_write M s bw buf) (\<lambda>(r, bw', s'). r = Inr (length buf) \<and> cap s' = cap s \<and>
    bw_inv c0 off (ws @ buf) s' bw' \<and> bw_capacity bw' = bw_capacity bw \<and> length (bw_buf bw') \<le> bw_capacity bw')"
proof -
  let ?spare = "bw_capacity bw - length (bw_buf bw)"
  have buffer: "bw_inv c0 off (ws @ buf) s (b\<lparr>bw_buf := bw_buf b @ buf\<rparr>)" if "bw_inv c0 off ws s b" for b s
    using that by (auto simp: bw_inv_def)
  consider "length buf < ?spare" | "length buf = ?spare" | "?spare < length buf"
    by linarith
  then show ?thesis
  proof cases
    case 1
    with buffer[OF i] c show ?thesis
      by (simp add: buffered_write_def)
  next
    case 2
    show ?thesis
    proof (cases "bw_buf bw = []")
      case True
      with 2 i fits show ?thesis
        by (auto simp: buffered_write_def intro!: ok_mono[OF inner_write_ok[OF i]])
    next
      case False
      then have "\<not> bw_capacity bw \<le> length buf"
        using 2 c by (cases "bw_buf bw") auto
      with 2 c buffer[OF i] show ?thesis
        by (auto simp: buffered_write_def)
    qed
  next
    case 3
    have "off + length ws \<le> cap s * WASM_PAGE_SIZE"
      using fits by simp
    from flush_buf_ok[OF i this] obtain bw1 s1 where f: "bw_flush_buf M s bw = Some (Inr (), bw1, s1)" "cap s1 = cap s"
      "bw_inv c0 off ws s1 bw1" "bw_buf bw1 = []" "bw_capacity bw1 = bw_capacity bw"
      by (auto elim!: ok_obtain)
    have "off + length (ws @ buf) \<le> cap s1 * WASM_PAGE_SIZE"
      using fits f(2) by simp
    with 3 f buffer[OF f(3)] show ?thesis
      by (auto simp: buffered_write_def intro!: ok_mono[OF inner_write_ok[OF f(3,4)]])
  qed
qed

lemma buffered_write_all_ok:
  assumes "bw_inv c0 off ws s bw" "off + length (ws @ concat bss) \<le> cap s * WASM_PAGE_SIZE"
    and "length (bw_buf bw) \<le> bw_capacity bw"
  shows "ok (buffered_write_all M s bw bss) (\<lambda>(r, bw', s'). r = Inr () \<and> cap s' = cap s \<and>
    bw_inv c0 off (ws @ concat bss) s' bw')"
  using assms
proof (induction bss arbitrary: ws s bw)
  case Nil
  then show ?case by simp
next
  case (Cons b bss)
  have "off + length (ws @ b) \<le> cap s * WASM_PAGE_SIZE"
    using Cons.prems(2) by simp
  from buffered_write_ok[OF Cons.prems(1) this Cons.prems(3)] obtain bw1 s1 where
    f: "buffered_write M s bw b = Some (Inr (length b), bw1, s1)" "cap s1 = cap s"
      "bw_inv c0 off (ws @ b) s1 bw1" "length (bw_buf bw1) \<le> bw_capacity bw1"
    by (auto elim!: ok_obtain)
  have "off + length ((ws @ b) @ concat bss) \<le> cap s1 * WASM_PAGE_SIZE"
    using Cons.prems(2) f(2) by simp
  from Cons.IH[OF f(3) this f(4)] f(1,2) show ?case
    by simp
qed

lemma buffered_flush_ok:
  assumes "bw_inv c0 off ws s bw" "off + length ws \<le> cap s * WASM_PAGE_SIZE" "ws \<noteq> []"
  shows "ok (buffered_flush M s bw) (\<lambda>(r, bw', s'). r = Inr () \<and> inv s' \<and> cap s' = cap s \<and> wrote c0 off ws (contents s'))"
  using flush_buf_ok[OF assms(1,2)] assms(3)
  by (auto simp: buffered_flush_def writer_flush_def bw_inv_def elim!: ok_mono)

end

section \<open>Property\<close>

text \<open>
  C30. Buffered writing and buffered reading are inverse: the chunks written through a
  \<open>BufferedWriter\<close> of any buffer size and flushed are in the memory one after the other (nothing
  else changes), and \<open>read_exact\<close> calls of any sizes through a \<open>BufferedReader\<close> of any buffer size, which ask for no more than was written, all succeed: each
  returns as many bytes as it asked for, and together they are the bytes that were written, in order. Calls that ask for all of them get all of them.
\<close>

theorem buffered_write_then_read:
  assumes "memory M minv contents cap"
    and "minv s" "off + length (concat bss) \<le> cap s * WASM_PAGE_SIZE" "concat bss \<noteq> []"
    and "sum_list ns \<le> length (concat bss)" "\<forall>n \<in> set (rcap # ns). cap s * WASM_PAGE_SIZE + n \<le> U64_MAX"
  shows "ok (do {
      (_, bw, s) \<leftarrow> buffered_write_all M s (buffered_writer_new wcap (writer_new off)) bss;
      (r, bw, s) \<leftarrow> buffered_flush M s bw;
      (rs, br, s') \<leftarrow> buffered_read_all M s (buffered_reader_new rcap (reader_new off)) ns;
      Some (r, rs, s) })
    (\<lambda>(r, rs, s'). r = Inr () \<and> wrote (contents s) off (concat bss) (contents s') \<and>
      (\<exists>chunks. rs = Inr chunks \<and> map length chunks = ns \<and> concat chunks = take (sum_list ns) (concat bss)))"
proof -
  let ?bw = "buffered_writer_new wcap (writer_new off)" and ?br = "buffered_reader_new rcap (reader_new off)"
  have i: "memory.bw_inv minv contents (contents s) off [] s ?bw"
    using assms(2) by (simp add: memory.bw_inv_def[OF assms(1)] buffered_writer_new_def writer_new_def)
  obtain bw1 s1 where w: "buffered_write_all M s ?bw bss = Some (Inr (), bw1, s1)" "cap s1 = cap s"
    "memory.bw_inv minv contents (contents s) off (concat bss) s1 bw1"
    using memory.buffered_write_all_ok[OF assms(1) i, of bss] assms(3)
    by (auto simp: buffered_writer_new_def elim!: ok_obtain)
  have "off + length (concat bss) \<le> cap s1 * WASM_PAGE_SIZE"
    using assms(3) w(2) by simp
  from memory.buffered_flush_ok[OF assms(1) w(3) this assms(4)] w(2) obtain bw2 s2 where
    f: "buffered_flush M s1 bw1 = Some (Inr (), bw2, s2)" "minv s2" "wrote (contents s) off (concat bss) (contents s2)" "cap s2 = cap s"
    by (auto elim!: ok_obtain)
  have len: "length (contents s2) \<le> cap s * WASM_PAGE_SIZE" "off + length (concat bss) \<le> length (contents s2)"
    using memory.size_cap_law[OF assms(1) f(2)] wrote_range[OF f(3)] f(4) by simp_all
  have "take (length (concat bss)) (drop off (contents s2)) = concat bss"
    using subrange_wrote_same[OF f(3)] by (simp add: subrange_def)
  then have data: "take (sum_list ns) (drop off (contents s2)) = take (sum_list ns) (concat bss)"
    using assms(5) by (metis min.absorb1 take_take)
  have reads: "\<forall>n \<in> set (rcap # ns). length (contents s2) + n \<le> U64_MAX"
    using assms(6) len(1) by (meson add_le_mono1 order_trans)
  have "ok (buffered_read_all M s2 ?br ns) (\<lambda>(r, br', s'). \<exists>rs. r = Inr rs \<and> map length rs = ns \<and> concat rs = take (sum_list ns) (drop off (contents s2)))"
    using memory.buffered_read_all_ok[OF assms(1) f(2), of ?br ns] len assms(5) reads
    by (simp add: buffered_reader_new_def reader_new_def)
  with w(1) f data show ?thesis
    by (auto elim!: ok_mono)
qed

theorem buffered_write_then_read_witness:
  "ok (do {
      (_, bw, s) \<leftarrow> buffered_write_all VectorMemory [] (buffered_writer_new 3 (writer_new 10)) [[1, 2], [3, 4]];
      (r, bw, s) \<leftarrow> buffered_flush VectorMemory s bw;
      (rs, br, s') \<leftarrow> buffered_read_all VectorMemory s (buffered_reader_new 2 (reader_new 10)) [1, 3];
      Some (r, rs, s) })
    (\<lambda>(r, rs, s'). r = Inr () \<and> wrote [] 10 [1, 2, 3, 4] s' \<and> (\<exists>chunks. rs = Inr chunks \<and> map length chunks = [1, 3] \<and> concat chunks = [1, 2, 3, 4]))"
  using buffered_write_then_read[OF vm.memory_axioms vec_inv_empty, of 10 "[[1, 2], [3, 4]]" "[1, 3]" 2 3]
  by (simp add: vec_cap_def VEC_MAX_PAGES_val del: ok_bind)

end
