(* ===== verification/Types.thy ===== *)
theory Types
  imports Prelude
begin

text \<open>
  \<open>Address\<close> and \<open>Bytes\<close> of \<open>src/src/types.rs\<close>: two wrappers of \<open>u64\<close> whose operators are the checked
  operations of the wrapped integers. Both are natural numbers here; the operators keep their
  names so that the components that compute addresses read like the code.
\<close>

type_synonym address = nat
type_synonym nbytes = nat

definition NULL :: address where
  "NULL = 0"

definition address_size :: nbytes where
  "address_size = 8"

definition addr_add :: "address \<Rightarrow> nbytes \<Rightarrow> address option" where
  "addr_add a n = u64_add a n"

definition addr_diff :: "address \<Rightarrow> address \<Rightarrow> nbytes option" where
  "addr_diff a b = u64_sub a b"

definition addr_sub :: "address \<Rightarrow> nbytes \<Rightarrow> address option" where
  "addr_sub a n = u64_sub a n"

definition bytes_add :: "nbytes \<Rightarrow> nbytes \<Rightarrow> nbytes option" where
  "bytes_add m n = u64_add m n"

definition bytes_sub :: "nbytes \<Rightarrow> nbytes \<Rightarrow> nbytes option" where
  "bytes_sub m n = u64_sub m n"

definition bytes_mul :: "nbytes \<Rightarrow> nbytes \<Rightarrow> nbytes option" where
  "bytes_mul m n = u64_mul m n"

definition bytes_div :: "nbytes \<Rightarrow> nbytes \<Rightarrow> nbytes option" where
  "bytes_div m n = u64_div m n"

definition bytes_rem :: "nbytes \<Rightarrow> nbytes \<Rightarrow> nbytes option" where
  "bytes_rem m n = u64_rem m n"

lemmas types_simps [simp] =
  addr_add_def addr_diff_def addr_sub_def bytes_add_def bytes_sub_def bytes_mul_def bytes_div_def
  bytes_rem_def address_size_def

text \<open>Subtraction undoes addition, and addition is rejected exactly when it would wrap around.\<close>

lemma addr_add_diff: "addr_add a n = Some b \<Longrightarrow> addr_diff b a = Some n \<and> addr_sub b n = Some a"
  by (auto simp: u64_add_def u64_sub_def split: if_splits)

lemma addr_add_wraps: "addr_add a n = None \<longleftrightarrow> 2 ^ 64 \<le> a + n"
  by (simp add: u64_add_def not_le)

end
