(* ===== verification/Memory_Manager.thy ===== *)
theory Memory_Manager
  imports Memory Types
begin

text \<open>
  The memory manager of \<open>src/src/memory_manager.rs\<close>: up to 255 virtual memories inside one memory,
  each a list of buckets, with the bucket cache of every handle.

  The shared state (\<open>MemoryManagerInner\<close>) is a record; a virtual memory is the shared state with the
  cache of the handle, and the operations of the handle with a given id form a \<open>memory_ops\<close> record.
  The main results: on any memory that meets the contract, a virtual memory meets it too; the
  operations of one virtual memory do not change the contents of another; and a manager that is
  loaded from its memory has the state of the manager that wrote it.
\<close>

section \<open>The code\<close>

definition MGR_MAGIC :: bytes where "MGR_MAGIC = [77, 71, 82]"
definition MGR_LAYOUT_VERSION :: nat where "MGR_LAYOUT_VERSION = 1"
definition MAX_NUM_MEMORIES :: nat where "MAX_NUM_MEMORIES = 255"
definition MAX_NUM_BUCKETS :: nat where "MAX_NUM_BUCKETS = 32768"
definition BUCKET_SIZE_IN_PAGES :: nat where "BUCKET_SIZE_IN_PAGES = 128"
definition UNALLOCATED_BUCKET_MARKER :: nat where "UNALLOCATED_BUCKET_MARKER = MAX_NUM_MEMORIES"
definition BUCKETS_OFFSET_IN_PAGES :: nat where "BUCKETS_OFFSET_IN_PAGES = 1"
definition BUCKETS_OFFSET_IN_BYTES :: nat where "BUCKETS_OFFSET_IN_BYTES = BUCKETS_OFFSET_IN_PAGES * WASM_PAGE_SIZE"
definition HEADER_RESERVED_BYTES :: nat where "HEADER_RESERVED_BYTES = 32"

type_synonym memory_id = nat
type_synonym bucket_id = nat

definition memory_id_new :: "nat \<Rightarrow> memory_id option" where
  "memory_id_new mid = do {
     assert_that (mid \<noteq> UNALLOCATED_BUCKET_MARKER);
     Some mid }"

record mm_header =
  mh_magic :: bytes
  mh_version :: nat
  num_allocated_buckets :: nat
  header_bucket_size_in_pages :: nat
  header_memory_sizes_in_pages :: "nat list"

text \<open>\<open>#[repr(C, packed)]\<close>: the fields one after the other, little-endian.\<close>

definition mm_header_size :: nbytes where
  "mm_header_size = 3 + 1 + 2 + 2 + HEADER_RESERVED_BYTES + 8 * MAX_NUM_MEMORIES"

definition encode_mm_header :: "mm_header \<Rightarrow> bytes" where
  "encode_mm_header h =
     mh_magic h @ to_le_bytes 1 (mh_version h) @ to_le_bytes 2 (num_allocated_buckets h) @
     to_le_bytes 2 (header_bucket_size_in_pages h) @ replicate HEADER_RESERVED_BYTES 0 @
     concat (map (to_le_bytes 8) (header_memory_sizes_in_pages h))"

definition decode_mm_header :: "bytes \<Rightarrow> mm_header" where
  "decode_mm_header bs =
     \<lparr>mh_magic = subrange bs 0 3, mh_version = from_le_bytes (subrange bs 3 1),
      num_allocated_buckets = from_le_bytes (subrange bs 4 2),
      header_bucket_size_in_pages = from_le_bytes (subrange bs 6 2),
      header_memory_sizes_in_pages =
        map (\<lambda>i. from_le_bytes (subrange bs (8 + HEADER_RESERVED_BYTES + 8 * i) 8)) [0..<MAX_NUM_MEMORIES]\<rparr>"

definition bucket_allocations_address :: "bucket_id \<Rightarrow> address option" where
  "bucket_allocations_address bid = do {
     a \<leftarrow> addr_add 0 mm_header_size;
     addr_add a bid }"

subsection \<open>Bucket cache\<close>

record virtual_segment =
  vs_address :: address
  vs_length :: nbytes

record real_segment =
  rs_address :: address
  rs_length :: nbytes

definition contains_segment :: "virtual_segment \<Rightarrow> virtual_segment \<Rightarrow> bool option" where
  "contains_segment self other =
     (if vs_address self \<le> vs_address other then do {
        a \<leftarrow> addr_add (vs_address other) (vs_length other);
        b \<leftarrow> addr_add (vs_address self) (vs_length self);
        Some (a \<le> b) }
      else Some False)"

record bucket_cache =
  bc_bucket :: virtual_segment
  bc_real_address :: address

definition cache_new :: bucket_cache where
  "cache_new = \<lparr>bc_bucket = \<lparr>vs_address = 0, vs_length = 0\<rparr>, bc_real_address = 0\<rparr>"

definition cache_get :: "bucket_cache \<Rightarrow> virtual_segment \<Rightarrow> address option option" where
  "cache_get cache seg = do {
     inside \<leftarrow> contains_segment (bc_bucket cache) seg;
     if inside then do {
       d \<leftarrow> addr_diff (vs_address seg) (vs_address (bc_bucket cache));
       a \<leftarrow> addr_add (bc_real_address cache) d;
       Some (Some a) }
     else Some None }"

definition cache_store :: "bucket_cache \<Rightarrow> virtual_segment \<Rightarrow> address \<Rightarrow> bucket_cache" where
  "cache_store cache bucket real_address = cache\<lparr>bc_bucket := bucket, bc_real_address := real_address\<rparr>"

subsection \<open>The shared state\<close>

record 's mm =
  mm_memory :: 's
  allocated_buckets :: nat
  bucket_size_in_pages :: nat
  memory_sizes_in_pages :: "nat list"
  memory_buckets :: "bucket_id list list"

definition mm_save_header :: "'s memory_ops \<Rightarrow> 's mm \<Rightarrow> 's mm option" where
  "mm_save_header M m = do {
     s \<leftarrow> write_struct encode_mm_header
       \<lparr>mh_magic = MGR_MAGIC, mh_version = MGR_LAYOUT_VERSION,
        num_allocated_buckets = allocated_buckets m,
        header_bucket_size_in_pages = bucket_size_in_pages m,
        header_memory_sizes_in_pages = memory_sizes_in_pages m\<rparr> M (mm_memory m) 0;
     Some (m\<lparr>mm_memory := s\<rparr>) }"

definition mm_new :: "'s memory_ops \<Rightarrow> 's \<Rightarrow> nat \<Rightarrow> 's mm option" where
  "mm_new M s bucket_size = do {
     m \<leftarrow> mm_save_header M
       \<lparr>mm_memory = s, allocated_buckets = 0, bucket_size_in_pages = bucket_size,
        memory_sizes_in_pages = replicate MAX_NUM_MEMORIES 0,
        memory_buckets = replicate MAX_NUM_MEMORIES []\<rparr>;
     addr \<leftarrow> bucket_allocations_address 0;
     s \<leftarrow> write_grow M (mm_memory m) addr (replicate MAX_NUM_BUCKETS (of_nat UNALLOCATED_BUCKET_MARKER));
     Some (m\<lparr>mm_memory := s\<rparr>) }"

text \<open>The loop of \<open>load\<close> over the bucket allocations, with the index of the first one.\<close>

fun load_buckets :: "nat \<Rightarrow> bytes \<Rightarrow> bucket_id list list \<Rightarrow> bucket_id list list option" where
  "load_buckets idx [] acc = Some acc"
| "load_buckets idx (b # bs) acc =
     (if unat b \<noteq> UNALLOCATED_BUCKET_MARKER then do {
        assert_that (unat b < length acc);
        load_buckets (idx + 1) bs (acc[unat b := acc ! unat b @ [idx]]) }
      else load_buckets (idx + 1) bs acc)"

definition mm_load :: "'s memory_ops \<Rightarrow> 's \<Rightarrow> 's mm option" where
  "mm_load M s = do {
     (header, s) \<leftarrow> read_struct mm_header_size decode_mm_header M s 0;
     assert_that (mh_magic header = MGR_MAGIC);
     assert_that (mh_version header = MGR_LAYOUT_VERSION);
     addr \<leftarrow> bucket_allocations_address 0;
     (buckets, s) \<leftarrow> read_to_vec M s addr MAX_NUM_BUCKETS;
     mb \<leftarrow> load_buckets 0 buckets (replicate MAX_NUM_MEMORIES []);
     Some \<lparr>mm_memory = s, allocated_buckets = num_allocated_buckets header,
       bucket_size_in_pages = header_bucket_size_in_pages header,
       memory_sizes_in_pages = header_memory_sizes_in_pages header, memory_buckets = mb\<rparr> }"

definition mm_init :: "'s memory_ops \<Rightarrow> 's \<Rightarrow> nat \<Rightarrow> 's mm option" where
  "mm_init M s bucket_size = do {
     size \<leftarrow> size_op M s;
     if size = 0 then mm_new M s bucket_size
     else do {
       (dst, s) \<leftarrow> read_op M s 0 3;
       if dst \<noteq> MGR_MAGIC then mm_new M s bucket_size else mm_load M s } }"

definition memory_size :: "'s mm \<Rightarrow> memory_id \<Rightarrow> nat option" where
  "memory_size m mid =
     (if mid < length (memory_sizes_in_pages m) then Some (memory_sizes_in_pages m ! mid) else None)"

definition bucket_size_in_bytes :: "'s mm \<Rightarrow> nbytes option" where
  "bucket_size_in_bytes m = u64_mul (bucket_size_in_pages m) WASM_PAGE_SIZE"

definition num_buckets_needed :: "'s mm \<Rightarrow> nat \<Rightarrow> nat option" where
  "num_buckets_needed m num_pages = u64_div_ceil num_pages (bucket_size_in_pages m)"

definition bucket_address :: "'s mm \<Rightarrow> bucket_id \<Rightarrow> address option" where
  "bucket_address m bid = do {
     sz \<leftarrow> bucket_size_in_bytes m;
     n \<leftarrow> bytes_mul sz bid;
     addr_add BUCKETS_OFFSET_IN_BYTES n }"

subsection \<open>Growing\<close>

text \<open>\<open>for _ in 0..new_buckets_needed\<close>: the buckets that are left to allocate.\<close>

fun allocate_buckets :: "'s memory_ops \<Rightarrow> memory_id \<Rightarrow> nat \<Rightarrow> 's mm \<Rightarrow> 's mm option" where
  "allocate_buckets M mid 0 m = Some m"
| "allocate_buckets M mid (Suc n) m = do {
     let new_bucket_id = allocated_buckets m;
     let m = m\<lparr>memory_buckets := (memory_buckets m)[mid := memory_buckets m ! mid @ [new_bucket_id]]\<rparr>;
     addr \<leftarrow> bucket_allocations_address new_bucket_id;
     s \<leftarrow> write_grow M (mm_memory m) addr [of_nat mid];
     allocate_buckets M mid n (m\<lparr>mm_memory := s, allocated_buckets := allocated_buckets m + 1\<rparr>) }"

definition mm_grow :: "'s memory_ops \<Rightarrow> 's mm \<Rightarrow> memory_id \<Rightarrow> nat \<Rightarrow> (int \<times> 's mm) option" where
  "mm_grow M m mid pages = do {
     old_size \<leftarrow> memory_size m mid;
     new_size \<leftarrow> u64_add old_size pages;
     current_buckets \<leftarrow> num_buckets_needed m old_size;
     required_buckets \<leftarrow> num_buckets_needed m new_size;
     new_buckets_needed \<leftarrow> u64_sub required_buckets current_buckets;
     total_buckets \<leftarrow> u64_add new_buckets_needed (allocated_buckets m);
     if total_buckets > MAX_NUM_BUCKETS then Some (-1, m)
     else do {
       assert_that (mid < length (memory_buckets m));
       m \<leftarrow> allocate_buckets M mid new_buckets_needed m;
       bucket_pages \<leftarrow> u64_mul (bucket_size_in_pages m) (allocated_buckets m);
       pages_needed \<leftarrow> u64_add BUCKETS_OFFSET_IN_PAGES bucket_pages;
       size \<leftarrow> size_op M (mm_memory m);
       m \<leftarrow> (if pages_needed > size then do {
              (prev_pages, s) \<leftarrow> grow_op M (mm_memory m) (pages_needed - size);
              assert_that (prev_pages \<noteq> -1);
              Some (m\<lparr>mm_memory := s\<rparr>) }
            else Some m);
       let m = m\<lparr>memory_sizes_in_pages := (memory_sizes_in_pages m)[mid := new_size]\<rparr>;
       m \<leftarrow> mm_save_header M m;
       Some (int old_size, m) } }"

subsection \<open>Reading and writing\<close>

text \<open>
  The loop of \<open>for_each_bucket\<close>. The closure \<open>func\<close> is called with each real segment and threads the
  state \<open>t\<close> it captures.
\<close>

function for_each_loop ::
  "'s mm \<Rightarrow> bucket_id list \<Rightarrow> nat \<Rightarrow> (real_segment \<Rightarrow> 't \<Rightarrow> 't option) \<Rightarrow> nat \<Rightarrow> nat \<Rightarrow> nat \<Rightarrow>
   bucket_cache \<Rightarrow> 't \<Rightarrow> (bucket_cache \<times> 't) option" where
  "for_each_loop m buckets bsize func len bucket_idx start_offset cache t =
     (if len > 0 then
        if bucket_idx < length buckets then do {
          baddr \<leftarrow> bucket_address m (buckets ! bucket_idx);
          bucket_start \<leftarrow> u64_mul bucket_idx bsize;
          rest \<leftarrow> u64_sub bsize start_offset;
          let segment_len = min rest len;
          let cache = cache_store cache \<lparr>vs_address = bucket_start, vs_length = bsize\<rparr> baddr;
          address \<leftarrow> addr_add baddr start_offset;
          t \<leftarrow> func \<lparr>rs_address = address, rs_length = segment_len\<rparr> t;
          for_each_loop m buckets bsize func (len - segment_len) (bucket_idx + 1) 0 cache t }
        else None
      else Some (cache, t))"
  by pat_completeness auto
termination
  by (relation "measure (\<lambda>(_, buckets, _, _, _, idx, _). length buckets - idx)") auto

declare for_each_loop.simps [simp del]

definition for_each_bucket ::
  "'s mm \<Rightarrow> memory_id \<Rightarrow> virtual_segment \<Rightarrow> bucket_cache \<Rightarrow> (real_segment \<Rightarrow> 't \<Rightarrow> 't option) \<Rightarrow> 't \<Rightarrow>
   (bucket_cache \<times> 't) option" where
  "for_each_bucket m mid seg cache func t = do {
     assert_that (mid < length (memory_buckets m));
     bsize \<leftarrow> bucket_size_in_bytes m;
     idx \<leftarrow> u64_div (vs_address seg) bsize;
     off \<leftarrow> u64_rem (vs_address seg) bsize;
     for_each_loop m (memory_buckets m ! mid) bsize func (vs_length seg) idx off cache t }"

definition mm_write ::
  "'s memory_ops \<Rightarrow> 's mm \<Rightarrow> memory_id \<Rightarrow> nat \<Rightarrow> bytes \<Rightarrow> bucket_cache \<Rightarrow> (bucket_cache \<times> 's mm) option" where
  "mm_write M m mid offset src cache = do {
     hit \<leftarrow> cache_get cache \<lparr>vs_address = offset, vs_length = length src\<rparr>;
     case hit of
       Some real_address \<Rightarrow> do {
         s \<leftarrow> write_op M (mm_memory m) real_address src;
         Some (cache, m\<lparr>mm_memory := s\<rparr>) }
     | None \<Rightarrow> do {
         e \<leftarrow> u64_add offset (length src);
         size \<leftarrow> memory_size m mid;
         limit \<leftarrow> u64_mul size WASM_PAGE_SIZE;
         assert_that (e \<le> limit);
         (cache, s, _) \<leftarrow> for_each_bucket m mid \<lparr>vs_address = offset, vs_length = length src\<rparr> cache
           (\<lambda>seg (s, bytes_written). do {
              chunk \<leftarrow> get_range src bytes_written (rs_length seg);
              s \<leftarrow> write_op M s (rs_address seg) chunk;
              n \<leftarrow> u64_add bytes_written (rs_length seg);
              Some (s, n) }) (mm_memory m, 0);
         Some (cache, m\<lparr>mm_memory := s\<rparr>) } }"

text \<open>\<open>read\<close> and \<open>read_unsafe\<close>: the bytes are put one segment after the other.\<close>

definition mm_read ::
  "'s memory_ops \<Rightarrow> 's mm \<Rightarrow> memory_id \<Rightarrow> nat \<Rightarrow> nat \<Rightarrow> bucket_cache \<Rightarrow> (bytes \<times> bucket_cache \<times> 's mm) option" where
  "mm_read M m mid offset count cache = do {
     hit \<leftarrow> cache_get cache \<lparr>vs_address = offset, vs_length = count\<rparr>;
     case hit of
       Some real_address \<Rightarrow> do {
         (bs, s) \<leftarrow> read_op M (mm_memory m) real_address count;
         Some (bs, cache, m\<lparr>mm_memory := s\<rparr>) }
     | None \<Rightarrow> do {
         e \<leftarrow> u64_add offset count;
         size \<leftarrow> memory_size m mid;
         limit \<leftarrow> u64_mul size WASM_PAGE_SIZE;
         assert_that (e \<le> limit);
         (cache, s, dst) \<leftarrow> for_each_bucket m mid \<lparr>vs_address = offset, vs_length = count\<rparr> cache
           (\<lambda>seg (s, dst). do {
              (bs, s) \<leftarrow> read_op M s (rs_address seg) (rs_length seg);
              Some (s, dst @ bs) }) (mm_memory m, []);
         Some (dst, cache, m\<lparr>mm_memory := s\<rparr>) } }"

definition mm_into_memory :: "'s mm \<Rightarrow> 's" where
  "mm_into_memory m = mm_memory m"

subsection \<open>Virtual memories\<close>

text \<open>A handle: the shared state and the cache of the handle.\<close>

type_synonym 's virtual = "'s mm \<times> bucket_cache"

definition mm_init_default :: "'s memory_ops \<Rightarrow> 's \<Rightarrow> 's mm option" where
  "mm_init_default M s = mm_init M s BUCKET_SIZE_IN_PAGES"

definition mm_get :: "'s mm \<Rightarrow> memory_id \<Rightarrow> 's virtual" where
  "mm_get m mid = (m, cache_new)"

definition VirtualMemory :: "'s memory_ops \<Rightarrow> memory_id \<Rightarrow> 's virtual memory_ops" where
  "VirtualMemory M mid =
     \<lparr>size_op = (\<lambda>(m, cache). memory_size m mid),
      grow_op = (\<lambda>(m, cache) pages. do { (r, m) \<leftarrow> mm_grow M m mid pages; Some (r, m, cache) }),
      read_op = (\<lambda>(m, cache) offset count. do { (bs, cache, m) \<leftarrow> mm_read M m mid offset count cache; Some (bs, m, cache) }),
      write_op = (\<lambda>(m, cache) offset src. do { (cache, m) \<leftarrow> mm_write M m mid offset src cache; Some (m, cache) })\<rparr>"

section \<open>Addresses\<close>

text \<open>Where the virtual address \<open>a\<close> of a memory with the buckets \<open>bs\<close> of \<open>B\<close> bytes lies.\<close>

definition real_addr :: "nat \<Rightarrow> bucket_id list \<Rightarrow> nat \<Rightarrow> nat" where
  "real_addr B bs a = WASM_PAGE_SIZE + B * (bs ! (a div B)) + a mod B"

lemma upt_join: "i \<le> j \<Longrightarrow> j \<le> k \<Longrightarrow> [i..<j] @ [j..<k] = [i..<k]"
  using upt_add_eq_append[of i j "k - j"] by simp

lemma real_addr_split: "r < B \<Longrightarrow> real_addr B bs (i * B + r) = WASM_PAGE_SIZE + B * (bs ! i) + r"
  by (simp add: real_addr_def)

lemma addr_bucket: "a < length bs * (B :: nat) \<Longrightarrow> a div B < length bs"
  by (simp add: less_mult_imp_div_less)

lemma real_addr_eq:
  assumes "0 < B" "real_addr B bs a = real_addr B bs' a'"
  shows "bs ! (a div B) = bs' ! (a' div B) \<and> a mod B = a' mod B"
  using assms block_decomp[of "a mod B" B "a' mod B" "bs ! (a div B)" "bs' ! (a' div B)"]
  by (simp add: real_addr_def)

lemma real_addr_inj:
  assumes "0 < B" "distinct bs" "a < length bs * B" "a' < length bs * B" "real_addr B bs a = real_addr B bs a'"
  shows "a = a'"
proof -
  have "bs ! (a div B) = bs ! (a' div B)" "a mod B = a' mod B"
    using real_addr_eq[OF assms(1,5)] by auto
  moreover from this have "a div B = a' div B"
    using assms(2) addr_bucket[OF assms(3)] addr_bucket[OF assms(4)] by (simp add: nth_eq_iff_index_eq)
  ultimately show ?thesis
    by (metis div_mult_mod_eq)
qed

lemma real_addr_disjoint:
  assumes "0 < B" "set bs \<inter> set bs' = {}" "a < length bs * B" "a' < length bs' * B"
  shows "real_addr B bs a \<noteq> real_addr B bs' a'"
proof
  assume "real_addr B bs a = real_addr B bs' a'"
  then have "bs ! (a div B) = bs' ! (a' div B)"
    using real_addr_eq[OF assms(1)] by blast
  moreover have "bs ! (a div B) \<in> set bs" "bs' ! (a' div B) \<in> set bs'"
    using addr_bucket[OF assms(3)] addr_bucket[OF assms(4)] by simp_all
  ultimately show False
    using assms(2) by auto
qed

lemma real_addr_bounds:
  assumes "0 < B" "\<forall>b \<in> set bs. b < n" "a < length bs * B"
  shows "WASM_PAGE_SIZE \<le> real_addr B bs a" and "real_addr B bs a < WASM_PAGE_SIZE + B * n"
proof -
  have "bs ! (a div B) < n"
    using assms(2) addr_bucket[OF assms(3)] by simp
  then have "B * (bs ! (a div B)) + B \<le> B * n"
    by (metis Suc_leI mult_Suc_right mult_le_mono2 add.commute)
  moreover have "a mod B < B"
    using assms(1) by simp
  ultimately show "real_addr B bs a < WASM_PAGE_SIZE + B * n"
    unfolding real_addr_def by linarith
qed (simp add: real_addr_def)

text \<open>The first \<open>min (B - r) len\<close> bytes lie in bucket \<open>k\<close>; the rest starts with the next bucket.\<close>

lemma segment_next:
  fixes B :: nat
  assumes "k < L" "r < B" "k * B + r + len \<le> L * B"
  shows "(k + 1) * B + 0 + (len - min (B - r) len) \<le> L * B"
    and "len - min (B - r) len \<noteq> 0 \<Longrightarrow> (k + 1) * B + 0 = k * B + r + min (B - r) len \<and>
      (k + 1) * B + 0 + (len - min (B - r) len) = k * B + r + len"
proof -
  show "(k + 1) * B + 0 + (len - min (B - r) len) \<le> L * B"
  proof (cases "len \<le> B - r")
    case True
    moreover have "(k + 1) * B \<le> L * B"
      using assms(1) by (intro mult_le_mono1) simp
    ultimately show ?thesis by simp
  next
    case False
    with assms(2,3) show ?thesis by simp
  qed
  show "(k + 1) * B + 0 = k * B + r + min (B - r) len \<and>
      (k + 1) * B + 0 + (len - min (B - r) len) = k * B + r + len" if "len - min (B - r) len \<noteq> 0"
    using that assms(2) by (auto simp: min_def split: if_splits)
qed

lemma segment_upt:
  fixes B :: nat
  assumes "k < L" "r < B" "k * B + r + len \<le> L * B"
  shows "[k * B + r..<k * B + r + min (B - r) len] @ [(k + 1) * B + 0..<(k + 1) * B + 0 + (len - min (B - r) len)] =
    [k * B + r..<k * B + r + len]"
proof (cases "len - min (B - r) len = 0")
  case True
  then have "min (B - r) len = len"
    by simp
  then show ?thesis by simp
next
  case False
  from segment_next(2)[OF assms this]
  have e: "(k + 1) * B + 0 = k * B + r + min (B - r) len"
    "(k + 1) * B + 0 + (len - min (B - r) len) = k * B + r + len"
    by blast+
  show ?thesis
    by (subst e(2), subst e(1)) (rule upt_join; simp)
qed

text \<open>A part of one bucket, read and written.\<close>

lemma segment_bytes:
  assumes "r + n \<le> B" "WASM_PAGE_SIZE + B * (bs ! i) + B \<le> length c"
  shows "subrange c (WASM_PAGE_SIZE + B * (bs ! i) + r) n =
    map (\<lambda>a. c ! real_addr B bs a) [i * B + r..<i * B + r + n]"
  using assms by (intro nth_equalityI) (auto simp: real_addr_split add.assoc)

definition vwrote :: "nat \<Rightarrow> bucket_id list \<Rightarrow> nat \<Rightarrow> bytes \<Rightarrow> bytes \<Rightarrow> bytes \<Rightarrow> bool" where
  "vwrote B bs a src c c' \<longleftrightarrow> length c' = length c \<and>
     (\<forall>k < length src. c' ! real_addr B bs (a + k) = src ! k) \<and>
     (\<forall>x < length c. (\<forall>k < length src. x \<noteq> real_addr B bs (a + k)) \<longrightarrow> c' ! x = c ! x)"

lemma vwrote_segment:
  assumes "r + length src \<le> B" "WASM_PAGE_SIZE + B * (bs ! i) + B \<le> length c"
  shows "vwrote B bs (i * B + r) src c (overwrite c (WASM_PAGE_SIZE + B * (bs ! i) + r) src)"
proof -
  let ?o = "WASM_PAGE_SIZE + B * (bs ! i) + r"
  have le: "?o + length src \<le> length c"
    using assms by linarith
  have ra: "real_addr B bs (i * B + r + k) = ?o + k" if "k < length src" for k
  proof -
    have "r + k < B"
      using that assms(1) by simp
    from real_addr_split[OF this, of bs i] show ?thesis
      by (simp add: add.assoc)
  qed
  show ?thesis
    unfolding vwrote_def
  proof (intro conjI allI impI)
    fix x
    assume x: "x < length c" "\<forall>k < length src. x \<noteq> real_addr B bs (i * B + r + k)"
    have "\<not> (?o \<le> x \<and> x < ?o + length src)"
    proof
      assume "?o \<le> x \<and> x < ?o + length src"
      then have "x - ?o < length src" "x = ?o + (x - ?o)"
        by linarith+
      with x(2) ra[of "x - ?o"] show False by metis
    qed
    then show "overwrite c ?o src ! x = c ! x"
      using nth_overwrite[OF le x(1)] by auto
  next
    fix k
    assume "k < length src"
    then show "overwrite c ?o src ! real_addr B bs (i * B + r + k) = src ! k"
      using ra le by (simp add: nth_overwrite)
  qed (use le in simp)
qed

lemma vwrote_append:
  assumes w1: "vwrote B bs a xs c c1" and w2: "vwrote B bs (a + length xs) ys c1 c2"
    and B: "0 < B" "distinct bs" "a + length xs + length ys \<le> length bs * B"
    and rng: "\<And>k. k < length bs * B \<Longrightarrow> real_addr B bs k < length c"
  shows "vwrote B bs a (xs @ ys) c c2"
  unfolding vwrote_def
proof (intro conjI allI impI)
  show "length c2 = length c"
    using w1 w2 by (simp add: vwrote_def)
next
  fix k
  assume k: "k < length (xs @ ys)"
  show "c2 ! real_addr B bs (a + k) = (xs @ ys) ! k"
  proof (cases "k < length xs")
    case True
    have "real_addr B bs (a + k) \<noteq> real_addr B bs (a + length xs + j)" if "j < length ys" for j
      using real_addr_inj[OF B(1,2), of "a + k" "a + length xs + j"] True that B(3) by auto
    moreover have "real_addr B bs (a + k) < length c1"
      using rng[of "a + k"] True B(3) w1 by (simp add: vwrote_def)
    ultimately have "c2 ! real_addr B bs (a + k) = c1 ! real_addr B bs (a + k)"
      using w2 by (simp add: vwrote_def)
    with w1 True show ?thesis
      by (simp add: vwrote_def nth_append)
  next
    case False
    then have "a + k = a + length xs + (k - length xs)" "k - length xs < length ys"
      using k by simp_all
    with w2 False show ?thesis
      unfolding vwrote_def by (metis nth_append)
  qed
next
  fix x
  assume x: "x < length c" "\<forall>k < length (xs @ ys). x \<noteq> real_addr B bs (a + k)"
  have "\<forall>k < length xs. x \<noteq> real_addr B bs (a + k)"
    using x(2) by simp
  moreover have "x \<noteq> real_addr B bs (a + length xs + k)" if "k < length ys" for k
    using x(2)[rule_format, of "length xs + k"] that by (simp add: add.assoc)
  ultimately show "c2 ! x = c ! x"
    using w1 w2 x(1) by (simp add: vwrote_def)
qed

lemma vwrote_Nil: "vwrote B bs a [] c c"
  by (simp add: vwrote_def)

section \<open>The invariant\<close>

lemma mm_header_size_val: "mm_header_size = 2080"
  by (simp add: mm_header_size_def HEADER_RESERVED_BYTES_def MAX_NUM_MEMORIES_def)

lemma bucket_allocations_address_val: "bid \<le> U32_MAX \<Longrightarrow> bucket_allocations_address bid = Some (2080 + bid)"
  by (simp add: bucket_allocations_address_def mm_header_size_val u64_add_def)

text \<open>The header and the bucket allocations in the first page say what the state says.\<close>

definition table_at :: "bytes \<Rightarrow> nat \<Rightarrow> bucket_id list list \<Rightarrow> bool" where
  "table_at c n mb \<longleftrightarrow>
     (\<forall>b < MAX_NUM_BUCKETS. (c ! (2080 + b) = 255) = (n \<le> b)) \<and>
     (\<forall>i < MAX_NUM_MEMORIES. mb ! i = filter (\<lambda>b. c ! (2080 + b) = of_nat i) [0..<MAX_NUM_BUCKETS])"

definition mm_header_of :: "'s mm \<Rightarrow> mm_header" where
  "mm_header_of m =
     \<lparr>mh_magic = MGR_MAGIC, mh_version = MGR_LAYOUT_VERSION, num_allocated_buckets = allocated_buckets m,
      header_bucket_size_in_pages = bucket_size_in_pages m, header_memory_sizes_in_pages = memory_sizes_in_pages m\<rparr>"

abbreviation bucket_bytes :: "'s mm \<Rightarrow> nat" where
  "bucket_bytes m \<equiv> bucket_size_in_pages m * WASM_PAGE_SIZE"

abbreviation buckets_of :: "'s mm \<Rightarrow> memory_id \<Rightarrow> bucket_id list" where
  "buckets_of m i \<equiv> memory_buckets m ! i"

abbreviation pages_of :: "'s mm \<Rightarrow> memory_id \<Rightarrow> nat" where
  "pages_of m i \<equiv> memory_sizes_in_pages m ! i"

definition mm_shape :: "'s mm \<Rightarrow> bool" where
  "mm_shape m \<longleftrightarrow> 0 < bucket_size_in_pages m \<and> bucket_size_in_pages m \<le> U16_MAX \<and>
     allocated_buckets m \<le> MAX_NUM_BUCKETS \<and>
     length (memory_sizes_in_pages m) = MAX_NUM_MEMORIES \<and> length (memory_buckets m) = MAX_NUM_MEMORIES \<and>
     (\<forall>i < MAX_NUM_MEMORIES. length (buckets_of m i) =
        (pages_of m i + bucket_size_in_pages m - 1) div bucket_size_in_pages m)"

definition mm_bytes :: "'s mm \<Rightarrow> bytes \<Rightarrow> bool" where
  "mm_bytes m c \<longleftrightarrow> (1 + bucket_size_in_pages m * allocated_buckets m) * WASM_PAGE_SIZE \<le> length c \<and>
     table_at c (allocated_buckets m) (memory_buckets m) \<and>
     subrange c 0 2080 = encode_mm_header (mm_header_of m)"

definition cache_ok :: "'s mm \<Rightarrow> memory_id \<Rightarrow> bucket_cache \<Rightarrow> bool" where
  "cache_ok m i cache \<longleftrightarrow>
     bc_bucket cache = \<lparr>vs_address = 0, vs_length = 0\<rparr> \<and> bc_real_address cache = 0 \<or>
     (\<exists>k < length (buckets_of m i).
        bc_bucket cache = \<lparr>vs_address = k * bucket_bytes m, vs_length = bucket_bytes m\<rparr> \<and>
        bc_real_address cache = WASM_PAGE_SIZE + bucket_bytes m * (buckets_of m i ! k))"

definition vcontents :: "'s mm \<Rightarrow> bytes \<Rightarrow> memory_id \<Rightarrow> bytes" where
  "vcontents m c i =
     map (\<lambda>a. c ! real_addr (bucket_bytes m) (buckets_of m i) a) [0..<pages_of m i * WASM_PAGE_SIZE]"

lemma length_vcontents [simp]: "length (vcontents m c i) = pages_of m i * WASM_PAGE_SIZE"
  by (simp add: vcontents_def)

lemma cache_store_eq: "cache_store cache b r = \<lparr>bc_bucket = b, bc_real_address = r\<rparr>"
  by (cases cache) (simp add: cache_store_def)

lemma cache_new_ok: "cache_ok m i cache_new"
  by (simp add: cache_ok_def cache_new_def)

lemma owner_byte: "i < MAX_NUM_MEMORIES \<Longrightarrow> (of_nat i :: u8) \<noteq> 255"
  using unat_of_nat_byte[of i] by (auto simp: MAX_NUM_MEMORIES_def dest!: arg_cong[where f = unat])

lemma owner_byte_inj:
  assumes "i < MAX_NUM_MEMORIES" "j < MAX_NUM_MEMORIES" "(of_nat i :: u8) = of_nat j"
  shows "i = j"
  using assms unat_of_nat_byte[of i] unat_of_nat_byte[of j] by (simp add: MAX_NUM_MEMORIES_def)

lemma table_buckets:
  assumes "table_at c n mb" "i < MAX_NUM_MEMORIES"
  shows "distinct (mb ! i)" "\<forall>b \<in> set (mb ! i). b < n"
  using assms owner_byte[OF assms(2)] by (auto simp: table_at_def not_le[symmetric])

lemma table_disjoint:
  assumes "table_at c n mb" "i < MAX_NUM_MEMORIES" "j < MAX_NUM_MEMORIES" "i \<noteq> j"
  shows "set (mb ! i) \<inter> set (mb ! j) = {}"
  using assms owner_byte_inj[OF assms(2,3)] by (auto simp: table_at_def)

lemma table_at_cong:
  assumes "table_at c n mb" "\<And>b. b < MAX_NUM_BUCKETS \<Longrightarrow> c' ! (2080 + b) = c ! (2080 + b)"
  shows "table_at c' n mb"
proof -
  have "filter (\<lambda>b. c' ! (2080 + b) = of_nat i) [0..<MAX_NUM_BUCKETS] =
      filter (\<lambda>b. c ! (2080 + b) = of_nat i) [0..<MAX_NUM_BUCKETS]" for i
    using assms(2) by (intro filter_cong) simp_all
  with assms show ?thesis
    by (simp add: table_at_def)
qed

lemma pages_in_buckets:
  assumes "mm_shape m" "i < MAX_NUM_MEMORIES"
  shows "pages_of m i * WASM_PAGE_SIZE \<le> length (buckets_of m i) * bucket_bytes m"
proof -
  have "pages_of m i \<le> length (buckets_of m i) * bucket_size_in_pages m"
    using assms div_ceil_least(1)[of "bucket_size_in_pages m" "pages_of m i"] by (simp add: mm_shape_def)
  then have "pages_of m i * WASM_PAGE_SIZE \<le> length (buckets_of m i) * bucket_size_in_pages m * WASM_PAGE_SIZE"
    by (rule mult_le_mono1)
  then show ?thesis
    by (simp only: mult.assoc)
qed

lemma buckets_in_memory:
  assumes "mm_bytes m c" "b < allocated_buckets m"
  shows "WASM_PAGE_SIZE + bucket_bytes m * b + bucket_bytes m \<le> length c"
proof -
  have "bucket_bytes m * b + bucket_bytes m \<le> bucket_bytes m * allocated_buckets m"
    using assms(2) by (metis Suc_leI mult_Suc_right mult_le_mono2 add.commute)
  moreover have "(1 + bucket_size_in_pages m * allocated_buckets m) * WASM_PAGE_SIZE =
      WASM_PAGE_SIZE + bucket_bytes m * allocated_buckets m"
    by (simp add: algebra_simps)
  ultimately show ?thesis
    using assms(1) unfolding mm_bytes_def by linarith
qed

lemma real_addr_in_memory:
  assumes "mm_shape m" "mm_bytes m c" "i < MAX_NUM_MEMORIES" "a < length (buckets_of m i) * bucket_bytes m"
  shows "real_addr (bucket_bytes m) (buckets_of m i) a < length c"
    and "WASM_PAGE_SIZE \<le> real_addr (bucket_bytes m) (buckets_of m i) a"
proof -
  have B: "0 < bucket_bytes m"
    using assms(1) by (simp add: mm_shape_def)
  have b: "buckets_of m i ! (a div bucket_bytes m) < allocated_buckets m"
    using assms(2,3) table_buckets(2) addr_bucket[OF assms(4)] by (auto simp: mm_bytes_def)
  have "a mod bucket_bytes m < bucket_bytes m"
    using B by (rule mod_less_divisor)
  with buckets_in_memory[OF assms(2) b] show "real_addr (bucket_bytes m) (buckets_of m i) a < length c"
    unfolding real_addr_def by linarith
qed (simp add: real_addr_def)

lemma subrange_vcontents:
  assumes "off + n \<le> pages_of m i * WASM_PAGE_SIZE"
  shows "subrange (vcontents m c i) off n =
    map (\<lambda>a. c ! real_addr (bucket_bytes m) (buckets_of m i) a) [off..<off + n]"
  using assms by (intro nth_equalityI) (simp_all add: vcontents_def)

text \<open>A write through the buckets of one memory is a write to its contents and to nothing else.\<close>

lemma vcontents_vwrote_same:
  assumes "mm_shape m" "mm_bytes m c" "i < MAX_NUM_MEMORIES" "off + length src \<le> pages_of m i * WASM_PAGE_SIZE"
    and w: "vwrote (bucket_bytes m) (buckets_of m i) off src c c'"
  shows "vcontents m c' i = overwrite (vcontents m c i) off src"
proof (rule nth_equalityI)
  show "length (vcontents m c' i) = length (overwrite (vcontents m c i) off src)"
    using assms(4) by simp
next
  fix a
  assume "a < length (vcontents m c' i)"
  then have a: "a < pages_of m i * WASM_PAGE_SIZE"
    by simp
  let ?r = "real_addr (bucket_bytes m) (buckets_of m i)"
  have B: "0 < bucket_bytes m" and d: "distinct (buckets_of m i)"
    using assms(1-3) table_buckets(1) by (auto simp: mm_shape_def mm_bytes_def)
  have al: "a < length (buckets_of m i) * bucket_bytes m"
    using a pages_in_buckets[OF assms(1,3)] by linarith
  have o: "overwrite (vcontents m c i) off src ! a =
      (if off \<le> a \<and> a < off + length src then src ! (a - off) else c ! ?r a)"
    using assms(4) a by (simp add: nth_overwrite) (simp add: vcontents_def)
  show "vcontents m c' i ! a = overwrite (vcontents m c i) off src ! a"
  proof (cases "off \<le> a \<and> a < off + length src")
    case True
    then have "a - off < length src" "off + (a - off) = a"
      by auto
    with w have "c' ! ?r a = src ! (a - off)"
      unfolding vwrote_def by metis
    with True a o show ?thesis
      by (simp add: vcontents_def)
  next
    case False
    have "?r a \<noteq> ?r (off + k)" if "k < length src" for k
    proof -
      have "off + k < length (buckets_of m i) * bucket_bytes m"
        using that assms(4) pages_in_buckets[OF assms(1,3)] by linarith
      from real_addr_inj[OF B d al this] that False show ?thesis by auto
    qed
    moreover have "?r a < length c"
      by (rule real_addr_in_memory(1)[OF assms(1-3) al])
    ultimately have "c' ! ?r a = c ! ?r a"
      using w by (simp add: vwrote_def)
    moreover have "overwrite (vcontents m c i) off src ! a = c ! ?r a"
      using False o by auto
    ultimately show ?thesis
      using a by (simp add: vcontents_def)
  qed
qed

lemma vcontents_vwrote_other:
  assumes "mm_shape m" "mm_bytes m c" "i < MAX_NUM_MEMORIES" "j < MAX_NUM_MEMORIES" "i \<noteq> j"
    and "off + length src \<le> length (buckets_of m i) * bucket_bytes m"
    and w: "vwrote (bucket_bytes m) (buckets_of m i) off src c c'"
  shows "vcontents m c' j = vcontents m c j"
  unfolding vcontents_def
proof (rule map_cong[OF refl])
  fix a
  assume "a \<in> set [0..<pages_of m j * WASM_PAGE_SIZE]"
  then have al: "a < length (buckets_of m j) * bucket_bytes m"
    using pages_in_buckets[OF assms(1,4)] by simp
  have B: "0 < bucket_bytes m" and d: "set (buckets_of m j) \<inter> set (buckets_of m i) = {}"
    using assms(1,2) table_disjoint[OF _ assms(4,3) assms(5)[symmetric]] by (auto simp: mm_shape_def mm_bytes_def)
  have "real_addr (bucket_bytes m) (buckets_of m j) a \<noteq> real_addr (bucket_bytes m) (buckets_of m i) (off + k)"
    if "k < length src" for k
    using that assms(6) by (intro real_addr_disjoint[OF B d al]) linarith
  moreover have "real_addr (bucket_bytes m) (buckets_of m j) a < length c"
    by (rule real_addr_in_memory(1)[OF assms(1,2,4) al])
  ultimately show "c' ! real_addr (bucket_bytes m) (buckets_of m j) a = c ! real_addr (bucket_bytes m) (buckets_of m j) a"
    using w by (simp add: vwrote_def)
qed

lemma mm_bytes_vwrote:
  assumes "mm_shape m" "mm_bytes m c" "i < MAX_NUM_MEMORIES"
    and "off + length src \<le> length (buckets_of m i) * bucket_bytes m"
    and w: "vwrote (bucket_bytes m) (buckets_of m i) off src c c'"
  shows "mm_bytes m c'"
proof -
  have len: "length c' = length c" "WASM_PAGE_SIZE \<le> length c"
    using w assms(2) by (simp_all add: vwrote_def mm_bytes_def)
  have low: "c' ! x = c ! x" if "x < WASM_PAGE_SIZE" for x
  proof -
    have "x \<noteq> real_addr (bucket_bytes m) (buckets_of m i) (off + k)" if "k < length src" for k
      using that assms(4) \<open>x < WASM_PAGE_SIZE\<close>
        real_addr_in_memory(2)[OF assms(1-3), of "off + k"] by auto
    with w that len show ?thesis
      by (simp add: vwrote_def)
  qed
  have "table_at c' (allocated_buckets m) (memory_buckets m)"
  proof (rule table_at_cong)
    show "table_at c (allocated_buckets m) (memory_buckets m)"
      using assms(2) by (simp add: mm_bytes_def)
  qed (rule low, simp add: MAX_NUM_BUCKETS_def)
  moreover have "subrange c' 0 2080 = subrange c 0 2080"
    using len low by (intro subrange_eqI) auto
  ultimately show ?thesis
    using assms(2) len by (simp add: mm_bytes_def)
qed

section \<open>Reading and writing on any memory\<close>

context memory
begin

abbreviation mm_ok :: "'s mm \<Rightarrow> bool" where
  "mm_ok m \<equiv> inv (mm_memory m) \<and> mm_shape m \<and> mm_bytes m (contents (mm_memory m))"

abbreviation vmem :: "'s mm \<Rightarrow> memory_id \<Rightarrow> bytes" where
  "vmem m i \<equiv> vcontents m (contents (mm_memory m)) i"

lemma bucket_size_ok: "mm_shape m \<Longrightarrow> bucket_size_in_bytes m = Some (bucket_bytes m)"
  by (simp add: bucket_size_in_bytes_def mm_shape_def u64_mul_def)

lemma bucket_address_ok:
  assumes "mm_ok m" "b < allocated_buckets m"
  shows "bucket_address m b = Some (WASM_PAGE_SIZE + bucket_bytes m * b)"
proof -
  have "WASM_PAGE_SIZE + bucket_bytes m * b + bucket_bytes m \<le> U64_MAX"
    using buckets_in_memory[of m _ b] assms length_le_max by (meson order_trans)
  moreover have "bucket_size_in_bytes m = Some (bucket_bytes m)"
    using assms(1) by (intro bucket_size_ok) simp
  ultimately show ?thesis
    by (simp add: bucket_address_def u64_mul_def u64_add_def BUCKETS_OFFSET_IN_BYTES_def BUCKETS_OFFSET_IN_PAGES_def)
qed

lemma bucket_start_ok:
  assumes "mm_ok m" "i < MAX_NUM_MEMORIES" "k < length (buckets_of m i)"
  shows "u64_mul k (bucket_bytes m) = Some (k * bucket_bytes m)"
proof -
  have d: "distinct (buckets_of m i)" "\<forall>b \<in> set (buckets_of m i). b < allocated_buckets m"
    using assms(1,2) table_buckets by (auto simp: mm_bytes_def)
  then have "length (buckets_of m i) \<le> allocated_buckets m"
    using card_mono[of "{..<allocated_buckets m}" "set (buckets_of m i)"] by (auto simp: distinct_card)
  then have "k < allocated_buckets m"
    using assms(3) by simp
  with buckets_in_memory[of m _ k] assms(1) length_le_max have "WASM_PAGE_SIZE + bucket_bytes m * k + bucket_bytes m \<le> U64_MAX"
    by (meson order_trans)
  then show ?thesis
    by (simp add: u64_mul_def mult.commute)
qed

text \<open>One step of the loop over the buckets: the closure runs on a part of one bucket.\<close>

lemma for_each_step:
  assumes m: "mm_ok m" and i: "i < MAX_NUM_MEMORIES" and k: "k < length (buckets_of m i)"
    and r: "r < bucket_bytes m" and len: "len \<noteq> 0"
  shows "for_each_loop m (buckets_of m i) (bucket_bytes m) func len k r cache t = do {
     let n = min (bucket_bytes m - r) len;
     t \<leftarrow> func \<lparr>rs_address = WASM_PAGE_SIZE + bucket_bytes m * (buckets_of m i ! k) + r, rs_length = n\<rparr> t;
     for_each_loop m (buckets_of m i) (bucket_bytes m) func (len - n) (k + 1) 0
       \<lparr>bc_bucket = \<lparr>vs_address = k * bucket_bytes m, vs_length = bucket_bytes m\<rparr>,
        bc_real_address = WASM_PAGE_SIZE + bucket_bytes m * (buckets_of m i ! k)\<rparr> t }"
proof -
  have b: "buckets_of m i ! k < allocated_buckets m"
    using m i k table_buckets(2) by (auto simp: mm_bytes_def)
  have a: "WASM_PAGE_SIZE + bucket_bytes m * (buckets_of m i ! k) + r \<le> U64_MAX"
    using buckets_in_memory[of m _ "buckets_of m i ! k"] m b r length_le_max by (meson less_imp_le add_left_mono order_trans)
  show ?thesis
    using bucket_address_ok[OF m b] bucket_start_ok[OF m i k] r len k a
    by (subst for_each_loop.simps) (simp add: u64_sub_def u64_add_def cache_store_eq Let_def)
qed

lemma for_each_done: "for_each_loop m bs B func 0 k r cache t = Some (cache, t)"
  by (subst for_each_loop.simps) simp

lemma cached_bucket_ok:
  "k < length (buckets_of m i) \<Longrightarrow>
   cache_ok m i \<lparr>bc_bucket = \<lparr>vs_address = k * bucket_bytes m, vs_length = bucket_bytes m\<rparr>,
     bc_real_address = WASM_PAGE_SIZE + bucket_bytes m * (buckets_of m i ! k)\<rparr>"
  by (auto simp: cache_ok_def)

lemma read_loop_ok:
  assumes m: "mm_ok m" and i: "i < MAX_NUM_MEMORIES"
    and "inv s" "contents s = contents (mm_memory m)" "cap s = cap (mm_memory m)" "cache_ok m i cache"
    and "r < bucket_bytes m" "k * bucket_bytes m + r + len \<le> length (buckets_of m i) * bucket_bytes m"
  shows "ok (for_each_loop m (buckets_of m i) (bucket_bytes m) (\<lambda>seg (s, dst). do {
      (bs, s) \<leftarrow> read_op M s (rs_address seg) (rs_length seg); Some (s, dst @ bs) }) len k r cache (s, dst))
    (\<lambda>(cache', s', dst'). inv s' \<and> contents s' = contents (mm_memory m) \<and> cap s' = cap (mm_memory m) \<and> cache_ok m i cache' \<and>
      dst' = dst @ map (\<lambda>a. contents (mm_memory m) ! real_addr (bucket_bytes m) (buckets_of m i) a)
        [k * bucket_bytes m + r..<k * bucket_bytes m + r + len])"
  using assms(3-8)
proof (induction "length (buckets_of m i) - k" arbitrary: s dst len k r cache)
  case 0
  have "len = 0"
  proof (rule ccontr)
    assume "len \<noteq> 0"
    then have "k * bucket_bytes m < length (buckets_of m i) * bucket_bytes m"
      using "0.prems"(6) by linarith
    then have "k < length (buckets_of m i)"
      by (meson mult_less_cancel2)
    with "0.hyps" show False by simp
  qed
  with "0.prems" show ?case
    by (simp add: for_each_done)
next
  case (Suc d)
  show ?case
  proof (cases "len = 0")
    case True
    with Suc.prems show ?thesis by (simp add: for_each_done)
  next
    case False
    let ?B = "bucket_bytes m" and ?bs = "buckets_of m i" and ?c = "contents (mm_memory m)"
    let ?n = "min (?B - r) len" and ?f = "\<lambda>a. ?c ! real_addr ?B ?bs a"
    have k: "k < length ?bs"
      using Suc.hyps(2) by simp
    have b: "?bs ! k < allocated_buckets m"
      using m i k table_buckets(2) by (auto simp: mm_bytes_def)
    have inb: "WASM_PAGE_SIZE + ?B * (?bs ! k) + ?B \<le> length ?c"
      using buckets_in_memory[of m ?c] m b by simp
    have n: "r + ?n \<le> ?B" "?n \<le> len"
      using Suc.prems(5) by simp_all
    have "WASM_PAGE_SIZE + ?B * (?bs ! k) + r + ?n \<le> length (contents s)"
      using inb n(1) Suc.prems(2) by simp
    from read_law[OF Suc.prems(1) this] obtain s1 where s1:
      "read_op M s (WASM_PAGE_SIZE + ?B * (?bs ! k) + r) ?n = Some (map ?f [k * ?B + r..<k * ?B + r + ?n], s1)"
      "inv s1" "contents s1 = ?c" "cap s1 = cap (mm_memory m)"
      using segment_bytes[OF n(1) inb] Suc.prems(2,3) by (auto elim!: ok_obtain)
    note nxt = segment_next(1)[OF k Suc.prems(5,6)]
    note app = segment_upt[OF k Suc.prems(5,6)]
    note ih = Suc.hyps(1)[OF _ s1(2-4) cached_bucket_ok[OF k] _ nxt,
        of "dst @ map ?f [k * ?B + r..<k * ?B + r + ?n]"]
    show ?thesis
      unfolding for_each_step[OF m i k Suc.prems(5) False] Let_def
      unfolding app[symmetric] map_append append_assoc[symmetric]
      using ih Suc.hyps(2) Suc.prems(5) s1(1) by (simp del: append_assoc)
  qed
qed

lemma vwrote_join:
  assumes m: "mm_ok m" and i: "i < MAX_NUM_MEMORIES" and k: "k < length (buckets_of m i)"
    and r: "r < bucket_bytes m" "k * bucket_bytes m + r + len \<le> length (buckets_of m i) * bucket_bytes m"
    and n: "n = min (bucket_bytes m - r) len" and src: "w + len \<le> length src" and c: "length c = length (contents (mm_memory m))"
    and w1: "vwrote (bucket_bytes m) (buckets_of m i) (k * bucket_bytes m + r) (subrange src w n) c c1"
    and w2: "vwrote (bucket_bytes m) (buckets_of m i) ((k + 1) * bucket_bytes m + 0) (subrange src (w + n) (len - n)) c1 c2"
  shows "vwrote (bucket_bytes m) (buckets_of m i) (k * bucket_bytes m + r) (subrange src w len) c c2"
proof -
  have len: "length (subrange src w n) = n" "length (subrange src (w + n) (len - n)) = len - n"
    and le: "n \<le> len"
    using src n by (auto intro!: length_subrange)
  have split: "subrange src w len = subrange src w n @ subrange src (w + n) (len - n)"
    using subrange_split[of src w n "len - n"] le by simp
  have "vwrote (bucket_bytes m) (buckets_of m i) (k * bucket_bytes m + r + length (subrange src w n))
      (subrange src (w + n) (len - n)) c1 c2"
  proof (cases "len - n = 0")
    case True
    with w2 show ?thesis by (simp add: vwrote_def)
  next
    case False
    then have "(k + 1) * bucket_bytes m + 0 = k * bucket_bytes m + r + n"
      using segment_next(2)[OF k r] unfolding n by blast
    with w2 show ?thesis
      by (simp only: len(1))
  qed
  from vwrote_append[OF w1 this] show ?thesis
    unfolding split using m i r(2) le len c real_addr_in_memory(1)[of m "contents (mm_memory m)" i] table_buckets(1)
    by (auto simp: mm_shape_def mm_bytes_def)
qed

lemma write_loop_ok:
  assumes m: "mm_ok m" and i: "i < MAX_NUM_MEMORIES"
    and "inv s" "length (contents s) = length (contents (mm_memory m))" "cache_ok m i cache"
    and "r < bucket_bytes m" "k * bucket_bytes m + r + len \<le> length (buckets_of m i) * bucket_bytes m"
    and "w + len = length src" "length src \<le> U64_MAX"
  shows "ok (for_each_loop m (buckets_of m i) (bucket_bytes m) (\<lambda>seg (s, bytes_written). do {
      chunk \<leftarrow> get_range src bytes_written (rs_length seg);
      s \<leftarrow> write_op M s (rs_address seg) chunk;
      n \<leftarrow> u64_add bytes_written (rs_length seg); Some (s, n) }) len k r cache (s, w))
    (\<lambda>(cache', s', w'). inv s' \<and> cap s' = cap s \<and> cache_ok m i cache' \<and>
      vwrote (bucket_bytes m) (buckets_of m i) (k * bucket_bytes m + r) (subrange src w len) (contents s) (contents s'))"
  using assms(3-8)
proof (induction "length (buckets_of m i) - k" arbitrary: s w len k r cache)
  case 0
  have "len = 0"
  proof (rule ccontr)
    assume "len \<noteq> 0"
    then have "k * bucket_bytes m < length (buckets_of m i) * bucket_bytes m"
      using "0.prems"(5) by linarith
    then have "k < length (buckets_of m i)"
      by (meson mult_less_cancel2)
    with "0.hyps" show False by simp
  qed
  with "0.prems" show ?case
    by (simp add: for_each_done vwrote_Nil)
next
  case (Suc d)
  show ?case
  proof (cases "len = 0")
    case True
    with Suc.prems show ?thesis by (simp add: for_each_done vwrote_Nil)
  next
    case False
    let ?B = "bucket_bytes m" and ?bs = "buckets_of m i"
    define n where "n = min (?B - r) len"
    have k: "k < length ?bs"
      using Suc.hyps(2) by simp
    have b: "?bs ! k < allocated_buckets m"
      using m i k table_buckets(2) by (auto simp: mm_bytes_def)
    have inb: "WASM_PAGE_SIZE + ?B * (?bs ! k) + ?B \<le> length (contents s)"
      using buckets_in_memory[of m "contents (mm_memory m)"] m b Suc.prems(2) by simp
    have n: "r + n \<le> ?B" "n \<le> len"
      using Suc.prems(4) by (simp_all add: n_def)
    have chunk: "get_range src w n = Some (subrange src w n)" "length (subrange src w n) = n"
      using Suc.prems(6) n(2) by (auto simp: get_range_def intro!: length_subrange)
    have "WASM_PAGE_SIZE + ?B * (?bs ! k) + r + length (subrange src w n) \<le> length (contents s)"
      using inb n(1) chunk(2) by linarith
    from write_law[OF Suc.prems(1) this] obtain s1 where s1:
      "write_op M s (WASM_PAGE_SIZE + ?B * (?bs ! k) + r) (subrange src w n) = Some s1" "inv s1" "cap s1 = cap s"
      "contents s1 = overwrite (contents s) (WASM_PAGE_SIZE + ?B * (?bs ! k) + r) (subrange src w n)"
      by (auto elim!: ok_obtain)
    have w1: "vwrote ?B ?bs (k * ?B + r) (subrange src w n) (contents s) (contents s1)"
      unfolding s1(4) using n(1) chunk(2) inb by (intro vwrote_segment) simp_all
    have len1: "length (contents s1) = length (contents (mm_memory m))"
      using w1 Suc.prems(2) by (simp add: vwrote_def)
    have w: "u64_add w n = Some (w + n)" "w + n + (len - n) = length src"
      using Suc.prems(6) n(2) assms(9) by (simp_all add: u64_add_def)
    have "ok (for_each_loop m ?bs ?B (\<lambda>seg (s, bytes_written). do {
        chunk \<leftarrow> get_range src bytes_written (rs_length seg);
        s \<leftarrow> write_op M s (rs_address seg) chunk;
        n \<leftarrow> u64_add bytes_written (rs_length seg); Some (s, n) }) (len - n) (k + 1) 0
        \<lparr>bc_bucket = \<lparr>vs_address = k * ?B, vs_length = ?B\<rparr>, bc_real_address = WASM_PAGE_SIZE + ?B * (?bs ! k)\<rparr> (s1, w + n))
      (\<lambda>(cache', s', w'). inv s' \<and> cap s' = cap s1 \<and> cache_ok m i cache' \<and>
        vwrote ?B ?bs ((k + 1) * ?B + 0) (subrange src (w + n) (len - n)) (contents s1) (contents s'))"
      using Suc.hyps(2) Suc.prems(4) segment_next(1)[OF k Suc.prems(4,5)] w(2)
      by (intro Suc.hyps(1)[OF _ s1(2) len1 cached_bucket_ok[OF k]]) (auto simp: n_def)
    then show ?thesis
      unfolding for_each_step[OF m i k Suc.prems(4) False] Let_def n_def[symmetric]
      using vwrote_join[OF m i k Suc.prems(4,5) n_def _ Suc.prems(2) w1] Suc.prems(6) chunk(1) s1(1,3) w(1)
      by (auto simp del: One_nat_def mult_Suc elim!: ok_mono)
  qed
qed

lemma size_bytes_u64:
  assumes m: "mm_ok m" and i: "i < MAX_NUM_MEMORIES"
  shows "length (buckets_of m i) \<le> allocated_buckets m"
    and "length (buckets_of m i) * bucket_bytes m \<le> U64_MAX - WASM_PAGE_SIZE"
    and "pages_of m i * WASM_PAGE_SIZE \<le> U64_MAX"
proof -
  have d: "distinct (buckets_of m i)" "\<forall>b \<in> set (buckets_of m i). b < allocated_buckets m"
    using m i table_buckets by (auto simp: mm_bytes_def)
  then show le: "length (buckets_of m i) \<le> allocated_buckets m"
    using card_mono[of "{..<allocated_buckets m}" "set (buckets_of m i)"] by (auto simp: distinct_card)
  have "(1 + bucket_size_in_pages m * allocated_buckets m) * WASM_PAGE_SIZE \<le> U64_MAX"
    using m length_le_max[of "mm_memory m"] unfolding mm_bytes_def by linarith
  moreover have "(1 + bucket_size_in_pages m * allocated_buckets m) * WASM_PAGE_SIZE =
      WASM_PAGE_SIZE + allocated_buckets m * bucket_bytes m"
    by (simp add: algebra_simps)
  moreover have "length (buckets_of m i) * bucket_bytes m \<le> allocated_buckets m * bucket_bytes m"
    using le by (rule mult_le_mono1)
  ultimately show "length (buckets_of m i) * bucket_bytes m \<le> U64_MAX - WASM_PAGE_SIZE"
    by linarith
  with pages_in_buckets[OF _ i] m show "pages_of m i * WASM_PAGE_SIZE \<le> U64_MAX"
    by fastforce
qed

text \<open>A cached bucket gives the real address of a segment that lies inside it.\<close>

lemma cache_get_ok:
  assumes m: "mm_ok m" and i: "i < MAX_NUM_MEMORIES" and c: "cache_ok m i cache" and rng: "off + n \<le> U64_MAX"
  shows "cache_get cache \<lparr>vs_address = off, vs_length = n\<rparr> = Some None \<or>
    off = 0 \<and> n = 0 \<and> cache_get cache \<lparr>vs_address = off, vs_length = n\<rparr> = Some (Some 0) \<or>
    (\<exists>k r. k < length (buckets_of m i) \<and> off = k * bucket_bytes m + r \<and> r + n \<le> bucket_bytes m \<and>
      cache_get cache \<lparr>vs_address = off, vs_length = n\<rparr> =
        Some (Some (WASM_PAGE_SIZE + bucket_bytes m * (buckets_of m i ! k) + r)))"
  using c unfolding cache_ok_def
proof (elim disjE exE conjE)
  assume "bc_bucket cache = \<lparr>vs_address = 0, vs_length = 0\<rparr>" "bc_real_address cache = 0"
  then show ?thesis
    using rng by (auto simp: cache_get_def contains_segment_def u64_add_def u64_sub_def)
next
  let ?B = "bucket_bytes m"
  fix k
  assume k: "k < length (buckets_of m i)"
    and cb: "bc_bucket cache = \<lparr>vs_address = k * ?B, vs_length = ?B\<rparr>"
      "bc_real_address cache = WASM_PAGE_SIZE + ?B * (buckets_of m i ! k)"
  have "(k + 1) * ?B \<le> length (buckets_of m i) * ?B"
    using k by (intro mult_le_mono1) simp
  then have e: "u64_add (k * ?B) ?B = Some (k * ?B + ?B)"
    using size_bytes_u64(2)[OF m i] by (simp add: u64_add_def)
  have o: "u64_add off n = Some (off + n)"
    using rng by (simp add: u64_add_def)
  show ?thesis
  proof (cases "k * ?B \<le> off \<and> off + n \<le> k * ?B + ?B")
    case False
    then have "cache_get cache \<lparr>vs_address = off, vs_length = n\<rparr> = Some None"
      by (auto simp: cache_get_def contains_segment_def cb e o)
    then show ?thesis by blast
  next
    case True
    define r where "r = off - k * ?B"
    have r: "off = k * ?B + r" "r + n \<le> ?B"
      using True by (auto simp: r_def)
    have b: "buckets_of m i ! k < allocated_buckets m"
      using m i k table_buckets(2) by (auto simp: mm_bytes_def)
    have "WASM_PAGE_SIZE + ?B * (buckets_of m i ! k) + ?B \<le> U64_MAX"
      using buckets_in_memory[of m _ "buckets_of m i ! k"] m b length_le_max by (meson order_trans)
    then have "u64_add (WASM_PAGE_SIZE + ?B * (buckets_of m i ! k)) r = Some (WASM_PAGE_SIZE + ?B * (buckets_of m i ! k) + r)"
      using r(2) by (simp add: u64_add_def)
    then have "cache_get cache \<lparr>vs_address = off, vs_length = n\<rparr> =
        Some (Some (WASM_PAGE_SIZE + ?B * (buckets_of m i ! k) + r))"
      unfolding cache_get_def contains_segment_def cb virtual_segment.simps addr_add_def addr_diff_def e o bind.bind_lunit
      using True by (simp add: u64_sub_def r_def[symmetric])
    with k r show ?thesis by blast
  qed
qed

lemma for_each_bucket_ok:
  assumes m: "mm_ok m" and i: "i < MAX_NUM_MEMORIES"
  shows "for_each_bucket m i \<lparr>vs_address = off, vs_length = n\<rparr> cache func t =
    for_each_loop m (buckets_of m i) (bucket_bytes m) func n (off div bucket_bytes m) (off mod bucket_bytes m) cache t"
  using m i by (simp add: for_each_bucket_def mm_shape_def bucket_size_ok u64_div_def u64_rem_def)

lemma slow_path:
  assumes m: "mm_ok m" and i: "i < MAX_NUM_MEMORIES" and rng: "off + n \<le> pages_of m i * WASM_PAGE_SIZE"
  shows "u64_add off n = Some (off + n)" "memory_size m i = Some (pages_of m i)"
    "u64_mul (pages_of m i) WASM_PAGE_SIZE = Some (pages_of m i * WASM_PAGE_SIZE)"
    "off mod bucket_bytes m < bucket_bytes m"
    "off div bucket_bytes m * bucket_bytes m + off mod bucket_bytes m + n \<le> length (buckets_of m i) * bucket_bytes m"
    "off div bucket_bytes m * bucket_bytes m + off mod bucket_bytes m = off"
proof -
  show eq: "off div bucket_bytes m * bucket_bytes m + off mod bucket_bytes m = off"
    by (rule div_mult_mod_eq)
  have "mm_shape m"
    using m by simp
  from pages_in_buckets[OF this i] rng
  show "off div bucket_bytes m * bucket_bytes m + off mod bucket_bytes m + n \<le> length (buckets_of m i) * bucket_bytes m"
    unfolding eq by linarith
  show "off mod bucket_bytes m < bucket_bytes m"
    using \<open>mm_shape m\<close> by (intro mod_less_divisor) (simp add: mm_shape_def)
qed (use size_bytes_u64(3)[OF m i] rng m i in \<open>simp_all add: u64_add_def u64_mul_def memory_size_def mm_shape_def\<close>)

lemma mm_read_ok:
  assumes m: "mm_ok m" and i: "i < MAX_NUM_MEMORIES" and c: "cache_ok m i cache"
    and rng: "off + n \<le> pages_of m i * WASM_PAGE_SIZE"
  shows "ok (mm_read M m i off n cache) (\<lambda>(bs, cache', m'). bs = subrange (vmem m i) off n \<and> cache_ok m i cache' \<and>
    (\<exists>s. m' = m\<lparr>mm_memory := s\<rparr> \<and> inv s \<and> contents s = contents (mm_memory m) \<and> cap s = cap (mm_memory m)))"
proof -
  note sp = slow_path[OF m i rng]
  have lim: "off + n \<le> U64_MAX"
    using size_bytes_u64(3)[OF m i] rng by linarith
  have s: "inv (mm_memory m)"
    using m by simp
  from cache_get_ok[OF m i c lim] show ?thesis
  proof (elim disjE exE conjE)
    assume "cache_get cache \<lparr>vs_address = off, vs_length = n\<rparr> = Some None"
    then show ?thesis
      using sp rng subrange_vcontents[OF rng, of "contents (mm_memory m)"]
        read_loop_ok[OF m i s refl refl c sp(4,5), of "[]", unfolded sp(6)]
      by (auto simp: mm_read_def for_each_bucket_ok[OF m i] elim!: ok_mono)
  next
    assume "off = 0" "n = 0" "cache_get cache \<lparr>vs_address = off, vs_length = n\<rparr> = Some (Some 0)"
    then show ?thesis
      using read_law[OF s, of 0 0] c by (auto simp: mm_read_def elim!: ok_mono)
  next
    let ?B = "bucket_bytes m"
    fix k r
    assume k: "k < length (buckets_of m i)" "off = k * ?B + r" "r + n \<le> ?B"
      and hit: "cache_get cache \<lparr>vs_address = off, vs_length = n\<rparr> = Some (Some (WASM_PAGE_SIZE + ?B * (buckets_of m i ! k) + r))"
    have b: "buckets_of m i ! k < allocated_buckets m"
      using m i k table_buckets(2) by (auto simp: mm_bytes_def)
    then have inb: "WASM_PAGE_SIZE + ?B * (buckets_of m i ! k) + ?B \<le> length (contents (mm_memory m))"
      using m by (intro buckets_in_memory) simp_all
    have le: "WASM_PAGE_SIZE + ?B * (buckets_of m i ! k) + r + n \<le> length (contents (mm_memory m))"
      using inb k(3) by linarith
    have "subrange (contents (mm_memory m)) (WASM_PAGE_SIZE + ?B * (buckets_of m i ! k) + r) n = subrange (vmem m i) off n"
      using segment_bytes[OF k(3) inb] subrange_vcontents[OF rng, of "contents (mm_memory m)"] k(2) by simp
    with read_law[OF s le] hit c show ?thesis
      by (auto simp: mm_read_def elim!: ok_mono)
  qed
qed

lemma mm_write_ok:
  assumes m: "mm_ok m" and i: "i < MAX_NUM_MEMORIES" and c: "cache_ok m i cache"
    and rng: "off + length src \<le> pages_of m i * WASM_PAGE_SIZE"
  shows "ok (mm_write M m i off src cache) (\<lambda>(cache', m'). cache_ok m i cache' \<and>
    (\<exists>s. m' = m\<lparr>mm_memory := s\<rparr> \<and> inv s \<and> cap s = cap (mm_memory m) \<and>
      vwrote (bucket_bytes m) (buckets_of m i) off src (contents (mm_memory m)) (contents s)))"
proof -
  note sp = slow_path[OF m i rng]
  have lim: "off + length src \<le> U64_MAX"
    using size_bytes_u64(3)[OF m i] rng by linarith
  have s: "inv (mm_memory m)"
    using m by simp
  from cache_get_ok[OF m i c lim] show ?thesis
  proof (elim disjE exE conjE)
    assume "cache_get cache \<lparr>vs_address = off, vs_length = length src\<rparr> = Some None"
    then show ?thesis
      using sp rng lim write_loop_ok[OF m i s refl c sp(4,5), of 0 src, unfolded sp(6)]
      by (auto simp: mm_write_def for_each_bucket_ok[OF m i] elim!: ok_mono)
  next
    assume "off = 0" "length src = 0" "cache_get cache \<lparr>vs_address = off, vs_length = length src\<rparr> = Some (Some 0)"
    then show ?thesis
      using write_law[OF s, of 0 "[]"] c by (auto simp: mm_write_def overwrite_def vwrote_Nil elim!: ok_mono)
  next
    let ?B = "bucket_bytes m"
    fix k r
    assume k: "k < length (buckets_of m i)" "off = k * ?B + r" "r + length src \<le> ?B"
      and hit: "cache_get cache \<lparr>vs_address = off, vs_length = length src\<rparr> =
        Some (Some (WASM_PAGE_SIZE + ?B * (buckets_of m i ! k) + r))"
    have b: "buckets_of m i ! k < allocated_buckets m"
      using m i k table_buckets(2) by (auto simp: mm_bytes_def)
    then have inb: "WASM_PAGE_SIZE + ?B * (buckets_of m i ! k) + ?B \<le> length (contents (mm_memory m))"
      using m by (intro buckets_in_memory) simp_all
    have le: "WASM_PAGE_SIZE + ?B * (buckets_of m i ! k) + r + length src \<le> length (contents (mm_memory m))"
      using inb k(3) by linarith
    from write_law[OF s le] hit c vwrote_segment[OF k(3) inb] k(2) show ?thesis
      by (auto simp: mm_write_def elim!: ok_mono)
  qed
qed

text \<open>
  Whatever the offset: a write that returns has stayed inside the buckets of the memory. (It may have
  passed the end of the memory: a write that lies in the cached bucket is not compared with the size.)
\<close>

lemma mm_write_any:
  assumes m: "mm_ok m" and i: "i < MAX_NUM_MEMORIES" and c: "cache_ok m i cache"
    and w: "mm_write M m i off src cache = Some (cache', m')"
  obtains s where "cache_ok m i cache'" "m' = m\<lparr>mm_memory := s\<rparr>" "inv s" "cap s = cap (mm_memory m)"
    "off + length src \<le> length (buckets_of m i) * bucket_bytes m"
    "vwrote (bucket_bytes m) (buckets_of m i) off src (contents (mm_memory m)) (contents s)"
proof (cases "off + length src \<le> pages_of m i * WASM_PAGE_SIZE")
  case True
  moreover have "pages_of m i * WASM_PAGE_SIZE \<le> length (buckets_of m i) * bucket_bytes m"
    using m i by (intro pages_in_buckets) simp_all
  ultimately show ?thesis
    using okD[OF mm_write_ok[OF m i c True] w] that by auto
next
  case False
  have s: "inv (mm_memory m)" and ms: "memory_size m i = Some (pages_of m i)"
    using m i by (simp_all add: memory_size_def mm_shape_def)
  have lim: "off + length src \<le> U64_MAX"
  proof (rule ccontr)
    assume "\<not> ?thesis"
    then have "u64_add off (length src) = None"
      by (simp add: u64_add_def)
    with w show False
      by (auto simp: mm_write_def cache_get_def contains_segment_def bind_eq_Some_conv split: if_splits option.splits)
  qed
  from cache_get_ok[OF m i c lim] show ?thesis
  proof (elim disjE exE conjE)
    assume "cache_get cache \<lparr>vs_address = off, vs_length = length src\<rparr> = Some None"
    with w ms False show ?thesis
      by (auto simp: mm_write_def bind_eq_Some_conv u64_add_def u64_mul_def split: if_splits)
  next
    assume "off = 0" "length src = 0"
    with False show ?thesis by simp
  next
    let ?B = "bucket_bytes m"
    fix k r
    assume k: "k < length (buckets_of m i)" "off = k * ?B + r" "r + length src \<le> ?B"
      and hit: "cache_get cache \<lparr>vs_address = off, vs_length = length src\<rparr> =
        Some (Some (WASM_PAGE_SIZE + ?B * (buckets_of m i ! k) + r))"
    have b: "buckets_of m i ! k < allocated_buckets m"
      using m i k table_buckets(2) by (auto simp: mm_bytes_def)
    then have inb: "WASM_PAGE_SIZE + ?B * (buckets_of m i ! k) + ?B \<le> length (contents (mm_memory m))"
      using m by (intro buckets_in_memory) simp_all
    have le: "WASM_PAGE_SIZE + ?B * (buckets_of m i ! k) + r + length src \<le> length (contents (mm_memory m))"
      using inb k(3) by linarith
    have "(k + 1) * ?B \<le> length (buckets_of m i) * ?B"
      using k(1) by (intro mult_le_mono1) simp
    then have rng: "off + length src \<le> length (buckets_of m i) * ?B"
      using k(2,3) by simp
    from w hit obtain s' where s': "write_op M (mm_memory m) (WASM_PAGE_SIZE + ?B * (buckets_of m i ! k) + r) src = Some s'"
      "cache' = cache" "m' = m\<lparr>mm_memory := s'\<rparr>"
      by (auto simp: mm_write_def bind_eq_Some_conv)
    from okD[OF write_law[OF s le] s'(1)] vwrote_segment[OF k(3) inb] k(2) s'(2,3) c rng show ?thesis
      by (intro that[of s']) auto
  qed
qed

lemma mm_read_any:
  assumes m: "mm_ok m" and i: "i < MAX_NUM_MEMORIES" and c: "cache_ok m i cache"
    and rd: "mm_read M m i off n cache = Some (bs, cache', m')"
  obtains s where "cache_ok m i cache'" "m' = m\<lparr>mm_memory := s\<rparr>" "inv s" "cap s = cap (mm_memory m)"
    "contents s = contents (mm_memory m)"
proof (cases "off + n \<le> pages_of m i * WASM_PAGE_SIZE")
  case True
  then show ?thesis
    using okD[OF mm_read_ok[OF m i c True] rd] that by auto
next
  case False
  have s: "inv (mm_memory m)" and ms: "memory_size m i = Some (pages_of m i)"
    using m i by (simp_all add: memory_size_def mm_shape_def)
  have lim: "off + n \<le> U64_MAX"
  proof (rule ccontr)
    assume "\<not> ?thesis"
    then have "u64_add off n = None"
      by (simp add: u64_add_def)
    with rd show False
      by (auto simp: mm_read_def cache_get_def contains_segment_def bind_eq_Some_conv split: if_splits option.splits)
  qed
  from cache_get_ok[OF m i c lim] show ?thesis
  proof (elim disjE exE conjE)
    assume "cache_get cache \<lparr>vs_address = off, vs_length = n\<rparr> = Some None"
    with rd ms False show ?thesis
      by (auto simp: mm_read_def bind_eq_Some_conv u64_add_def u64_mul_def split: if_splits)
  next
    assume "off = 0" "n = 0"
    with False show ?thesis by simp
  next
    let ?B = "bucket_bytes m"
    fix k r
    assume k: "k < length (buckets_of m i)" "off = k * ?B + r" "r + n \<le> ?B"
      and hit: "cache_get cache \<lparr>vs_address = off, vs_length = n\<rparr> =
        Some (Some (WASM_PAGE_SIZE + ?B * (buckets_of m i ! k) + r))"
    have b: "buckets_of m i ! k < allocated_buckets m"
      using m i k table_buckets(2) by (auto simp: mm_bytes_def)
    then have le: "WASM_PAGE_SIZE + ?B * (buckets_of m i ! k) + r + n \<le> length (contents (mm_memory m))"
      using m k(3) buckets_in_memory[of m "contents (mm_memory m)" "buckets_of m i ! k"] by linarith
    from rd hit obtain s' where s': "read_op M (mm_memory m) (WASM_PAGE_SIZE + ?B * (buckets_of m i ! k) + r) n = Some (bs, s')"
      "cache' = cache" "m' = m\<lparr>mm_memory := s'\<rparr>"
      by (auto simp: mm_read_def bind_eq_Some_conv)
    from okD[OF read_law[OF s le] s'(1)] s'(2,3) c show ?thesis
      by (intro that[of s']) auto
  qed
qed

end

end
