(* ===== verification/Virtual_Memory.thy ===== *)
theory Virtual_Memory
  imports Memory_Manager
begin

text \<open>
  Growth and reload of the memory manager of \<open>src/src/memory_manager.rs\<close>, and the virtual memories as
  memories: on any memory that meets the contract of \<open>Memory\<close> a virtual memory meets it too, no
  operation on one virtual memory changes the contents of another, and a manager loaded from a memory
  has the state of the manager that wrote it.
\<close>

section \<open>Growing on any memory\<close>

lemma table_prefix:
  assumes "table_at c n mb" "n \<le> MAX_NUM_BUCKETS" "i < MAX_NUM_MEMORIES"
  shows "filter (\<lambda>b. c ! (2080 + b) = of_nat i) [0..<MAX_NUM_BUCKETS] = filter (\<lambda>b. c ! (2080 + b) = of_nat i) [0..<n]"
proof -
  have "filter (\<lambda>b. c ! (2080 + b) = of_nat i) [n..<MAX_NUM_BUCKETS] = []"
    using assms(1) owner_byte[OF assms(3)] by (auto simp: filter_empty_conv table_at_def)
  then show ?thesis
    using upt_join[of 0 n MAX_NUM_BUCKETS] assms(2) by (metis append.right_neutral filter_append zero_le)
qed

lemma table_allocate:
  assumes t: "table_at c n mb" and n: "n < MAX_NUM_BUCKETS" and i: "i < MAX_NUM_MEMORIES" and len: "length mb = MAX_NUM_MEMORIES"
    and w: "wrote c (2080 + n) [of_nat i] c'" and c: "2080 + MAX_NUM_BUCKETS \<le> length c"
  shows "table_at c' (Suc n) (mb[i := mb ! i @ [n]])"
proof -
  have new: "c' ! (2080 + n) = of_nat i"
    using subrange_wrote_same[OF w, of 1] nth_subrange[of 0 1 "2080 + n" c'] wrote_range[OF w] by simp
  have old: "c' ! (2080 + b) = c ! (2080 + b)" if "b < MAX_NUM_BUCKETS" "b \<noteq> n" for b
    using that c by (intro nth_wrote_other[OF w]) auto
  have first: "(c' ! (2080 + b) = 255) = (Suc n \<le> b)" if "b < MAX_NUM_BUCKETS" for b
  proof (cases "b = n")
    case True
    then show ?thesis
      using new owner_byte[OF i] by auto
  next
    case False
    then show ?thesis
      using old[OF that False] t that by (auto simp: table_at_def)
  qed
  have pre: "filter (\<lambda>b. c' ! (2080 + b) = of_nat j) [0..<n] = mb ! j" if "j < MAX_NUM_MEMORIES" for j
  proof -
    have "filter (\<lambda>b. c' ! (2080 + b) = of_nat j) [0..<n] = filter (\<lambda>b. c ! (2080 + b) = of_nat j) [0..<n]"
      using old n by (intro filter_cong) auto
    then show ?thesis
      using table_prefix[OF t _ that] t that n by (simp add: table_at_def)
  qed
  have "filter (\<lambda>b. c' ! (2080 + b) = of_nat j) [0..<MAX_NUM_BUCKETS] = mb[i := mb ! i @ [n]] ! j"
    if j: "j < MAX_NUM_MEMORIES" for j
  proof -
    have "filter (\<lambda>b. c' ! (2080 + b) = of_nat j) [Suc n..<MAX_NUM_BUCKETS] = []"
      unfolding filter_empty_conv using first owner_byte[OF j] by (metis atLeastLessThan_iff set_upt)
    then have "filter (\<lambda>b. c' ! (2080 + b) = of_nat j) [0..<MAX_NUM_BUCKETS] =
        filter (\<lambda>b. c' ! (2080 + b) = of_nat j) ([0..<n] @ [n])"
      using upt_join[of 0 "Suc n" MAX_NUM_BUCKETS] n by (metis Suc_leI append.right_neutral filter_append upt_Suc_append zero_le)
    then show ?thesis
      using pre[OF j] new i len owner_byte_inj[OF i j] by (cases "j = i") auto
  qed
  then show ?thesis
    using first by (simp add: table_at_def)
qed

lemma length_encode_mm_header:
  assumes "length (memory_sizes_in_pages m) = MAX_NUM_MEMORIES"
  shows "length (encode_mm_header (mm_header_of m)) = 2080"
proof -
  have "length (concat (map (to_le_bytes 8) xs)) = 8 * length xs" for xs :: "nat list"
    by (induction xs) (simp_all del: to_le_bytes.simps)
  with assms show ?thesis
    by (simp add: encode_mm_header_def mm_header_of_def MGR_MAGIC_def HEADER_RESERVED_BYTES_def MAX_NUM_MEMORIES_def
        del: to_le_bytes.simps)
qed

context memory
begin

lemma write_in_place:
  assumes "inv s" "off + length bs \<le> length (contents s)"
  shows "ok (write_grow M s off bs) (\<lambda>s'. inv s' \<and> cap s' = cap s \<and> length (contents s') = length (contents s) \<and>
    wrote (contents s) off bs (contents s'))"
  using write_ok[OF assms] by (auto simp: write_grow_def safe_write_no_growth[OF assms] elim!: ok_mono)

lemma allocate_buckets_ok:
  assumes "inv (mm_memory m)" "WASM_PAGE_SIZE \<le> length (contents (mm_memory m))"
    and "table_at (contents (mm_memory m)) (allocated_buckets m) (memory_buckets m)"
    and "allocated_buckets m + n \<le> MAX_NUM_BUCKETS" "i < MAX_NUM_MEMORIES" "length (memory_buckets m) = MAX_NUM_MEMORIES"
  shows "ok (allocate_buckets M i n m) (\<lambda>m'. \<exists>s. inv s \<and> cap s = cap (mm_memory m) \<and>
    length (contents s) = length (contents (mm_memory m)) \<and>
    (\<forall>x < length (contents s). x < 2080 \<or> 2080 + MAX_NUM_BUCKETS \<le> x \<longrightarrow> contents s ! x = contents (mm_memory m) ! x) \<and>
    m' = m\<lparr>mm_memory := s, allocated_buckets := allocated_buckets m + n,
      memory_buckets := (memory_buckets m)[i := buckets_of m i @ [allocated_buckets m..<allocated_buckets m + n]]\<rparr> \<and>
    table_at (contents s) (allocated_buckets m') (memory_buckets m'))"
  using assms
proof (induction n arbitrary: m)
  case 0
  then show ?case
    by (auto intro!: exI[of _ "mm_memory m"])
next
  case (Suc n)
  let ?a = "allocated_buckets m" and ?c = "contents (mm_memory m)"
  have a: "bucket_allocations_address ?a = Some (2080 + ?a)"
    using Suc.prems(4) by (intro bucket_allocations_address_val) (simp add: MAX_NUM_BUCKETS_def)
  have "2080 + ?a + length [of_nat i :: u8] \<le> length ?c"
    using Suc.prems(2,4) by (simp add: MAX_NUM_BUCKETS_def)
  from write_in_place[OF Suc.prems(1) this] obtain s where s: "write_grow M (mm_memory m) (2080 + ?a) [of_nat i] = Some s"
    "inv s" "cap s = cap (mm_memory m)" "length (contents s) = length ?c" "wrote ?c (2080 + ?a) [of_nat i] (contents s)"
    by (auto elim: ok_obtain)
  let ?m = "m\<lparr>memory_buckets := (memory_buckets m)[i := buckets_of m i @ [?a]], mm_memory := s, allocated_buckets := ?a + 1\<rparr>"
  have tab: "table_at (contents s) (Suc ?a) ((memory_buckets m)[i := buckets_of m i @ [?a]])"
    using Suc.prems s(5) by (intro table_allocate[where c = ?c]) (auto simp: MAX_NUM_BUCKETS_def)
  have other: "contents s ! x = ?c ! x" if "x < length ?c" "x < 2080 \<or> 2080 + MAX_NUM_BUCKETS \<le> x" for x
    using that Suc.prems(4) by (intro nth_wrote_other[OF s(5)]) auto
  have ih: "ok (allocate_buckets M i n ?m) (\<lambda>m'. \<exists>s'. inv s' \<and> cap s' = cap (mm_memory ?m) \<and>
    length (contents s') = length (contents (mm_memory ?m)) \<and>
    (\<forall>x < length (contents s'). x < 2080 \<or> 2080 + MAX_NUM_BUCKETS \<le> x \<longrightarrow> contents s' ! x = contents (mm_memory ?m) ! x) \<and>
    m' = ?m\<lparr>mm_memory := s', allocated_buckets := allocated_buckets ?m + n,
      memory_buckets := (memory_buckets ?m)[i := buckets_of ?m i @ [allocated_buckets ?m..<allocated_buckets ?m + n]]\<rparr> \<and>
    table_at (contents s') (allocated_buckets m') (memory_buckets m'))"
    using Suc.prems s tab by (intro Suc.IH) simp_all
  have eq: "allocate_buckets M i (Suc n) m = allocate_buckets M i n ?m"
    by (simp add: a s(1) Let_def)
  have up: "[?a] @ [?a + 1..<?a + 1 + n] = [?a..<?a + Suc n]"
    by (simp add: upt_rec)
  have bs: "(memory_buckets ?m)[i := buckets_of ?m i @ [?a + 1..<?a + 1 + n]] =
      (memory_buckets m)[i := buckets_of m i @ [?a..<?a + Suc n]]"
    using Suc.prems(5,6) by (simp add: up[symmetric, simplified])
  from ih obtain s' where s': "inv s'" "cap s' = cap s" "length (contents s') = length (contents s)"
    "\<forall>x < length (contents s'). x < 2080 \<or> 2080 + MAX_NUM_BUCKETS \<le> x \<longrightarrow> contents s' ! x = contents s ! x"
    "allocate_buckets M i n ?m = Some (m\<lparr>mm_memory := s', allocated_buckets := ?a + Suc n,
      memory_buckets := (memory_buckets m)[i := buckets_of m i @ [?a..<?a + Suc n]]\<rparr>)"
    "table_at (contents s') (?a + Suc n) ((memory_buckets m)[i := buckets_of m i @ [?a..<?a + Suc n]])"
    using bs by (auto elim!: ok_obtain)
  show ?case
    unfolding eq s'(5) using s' s(3,4) other by (auto intro!: exI[of _ s'])
qed

end

text \<open>The state after memory \<open>i\<close> has grown by \<open>n\<close> pages over the memory \<open>s\<close>.\<close>

abbreviation buckets_for :: "'s mm \<Rightarrow> nat \<Rightarrow> nat" where
  "buckets_for m p \<equiv> (p + bucket_size_in_pages m - 1) div bucket_size_in_pages m"

definition new_buckets :: "'s mm \<Rightarrow> memory_id \<Rightarrow> nat \<Rightarrow> nat" where
  "new_buckets m i n = buckets_for m (pages_of m i + n) - buckets_for m (pages_of m i)"

definition grown :: "'s mm \<Rightarrow> memory_id \<Rightarrow> nat \<Rightarrow> 's \<Rightarrow> 's mm" where
  "grown m i n s = m\<lparr>mm_memory := s, allocated_buckets := allocated_buckets m + new_buckets m i n,
     memory_sizes_in_pages := (memory_sizes_in_pages m)[i := pages_of m i + n],
     memory_buckets := (memory_buckets m)[i := buckets_of m i @
       [allocated_buckets m..<allocated_buckets m + new_buckets m i n]]\<rparr>"

lemma grown_memory [simp]: "mm_memory (grown m i n s) = s"
  by (simp add: grown_def)

lemma buckets_for_mono: "p \<le> q \<Longrightarrow> buckets_for m p \<le> buckets_for m q"
  by (intro div_le_mono) simp

lemma buckets_for_le:
  assumes "0 < bucket_size_in_pages m" "p \<le> k * bucket_size_in_pages m"
  shows "buckets_for m p \<le> k"
proof -
  have "p + bucket_size_in_pages m - 1 < (k + 1) * bucket_size_in_pages m"
    using assms by simp
  then have "buckets_for m p < k + 1"
    by (rule less_mult_imp_div_less)
  then show ?thesis by simp
qed

lemma grown_shape:
  assumes "mm_shape m" "i < MAX_NUM_MEMORIES" "allocated_buckets m + new_buckets m i n \<le> MAX_NUM_BUCKETS"
  shows "mm_shape (grown m i n s)"
proof -
  have "buckets_for m (pages_of m i) + new_buckets m i n = buckets_for m (pages_of m i + n)"
    using buckets_for_mono[of "pages_of m i" "pages_of m i + n" m] by (simp add: new_buckets_def)
  with assms show ?thesis
    by (auto simp: mm_shape_def grown_def nth_list_update)
qed

text \<open>The bytes of the buckets are kept: what a virtual memory held it still holds.\<close>

lemma vcontents_keep:
  assumes "mm_shape m" "mm_bytes m c" "j < MAX_NUM_MEMORIES" "bucket_size_in_pages m' = bucket_size_in_pages m"
    and keep: "\<And>x. x < length c \<Longrightarrow> WASM_PAGE_SIZE \<le> x \<Longrightarrow> c' ! x = c ! x"
    and bs: "buckets_of m' j = buckets_of m j @ ext" and p: "pages_of m' j = pages_of m j + n"
  shows "\<exists>zs. length zs = n * WASM_PAGE_SIZE \<and> vcontents m' c' j = vcontents m c j @ zs"
proof -
  let ?P = "pages_of m j * WASM_PAGE_SIZE" and ?f = "\<lambda>a. c' ! real_addr (bucket_bytes m') (buckets_of m' j) a"
  have "[0..<pages_of m' j * WASM_PAGE_SIZE] = [0..<?P] @ [?P..<?P + n * WASM_PAGE_SIZE]"
    unfolding p by (subst upt_join) (simp_all add: algebra_simps)
  then have "vcontents m' c' j = map ?f [0..<?P] @ map ?f [?P..<?P + n * WASM_PAGE_SIZE]"
    by (simp add: vcontents_def)
  moreover have "map ?f [0..<?P] = vcontents m c j"
    unfolding vcontents_def
  proof (rule map_cong[OF refl])
    fix a
    assume "a \<in> set [0..<?P]"
    then have a: "a < length (buckets_of m j) * bucket_bytes m"
      using pages_in_buckets[OF assms(1,3)] by simp
    have "real_addr (bucket_bytes m') (buckets_of m' j) a = real_addr (bucket_bytes m) (buckets_of m j) a"
      using addr_bucket[OF a] by (simp add: real_addr_def bs assms(4) nth_append)
    with keep real_addr_in_memory[OF assms(1-3) a] show "?f a = c ! real_addr (bucket_bytes m) (buckets_of m j) a"
      by simp
  qed
  ultimately show ?thesis by simp
qed

lemma grown_vcontents:
  assumes "mm_shape m" "mm_bytes m c" "i < MAX_NUM_MEMORIES" "j < MAX_NUM_MEMORIES"
    and "\<And>x. x < length c \<Longrightarrow> WASM_PAGE_SIZE \<le> x \<Longrightarrow> c' ! x = c ! x"
  shows "i \<noteq> j \<Longrightarrow> vcontents (grown m i n s) c' j = vcontents m c j"
    and "\<exists>zs. length zs = n * WASM_PAGE_SIZE \<and> vcontents (grown m i n s) c' i = vcontents m c i @ zs"
proof -
  show "\<exists>zs. length zs = n * WASM_PAGE_SIZE \<and> vcontents (grown m i n s) c' i = vcontents m c i @ zs"
    using assms by (intro vcontents_keep[OF assms(1-3)]) (auto simp: grown_def mm_shape_def)
  assume "i \<noteq> j"
  then show "vcontents (grown m i n s) c' j = vcontents m c j"
    using vcontents_keep[OF assms(1,2,4), of "grown m i n s" c' "[]" 0] assms(5) by (auto simp: grown_def)
qed

lemma grown_cache:
  assumes "cache_ok m j cache" "i < length (memory_buckets m)"
  shows "cache_ok (grown m i n s) j cache"
proof -
  obtain ext where ext: "buckets_of (grown m i n s) j = buckets_of m j @ ext"
    using assms(2) by (cases "i = j") (auto simp: grown_def)
  have b: "bucket_bytes (grown m i n s) = bucket_bytes m"
    by (simp add: grown_def)
  from assms(1) show ?thesis
    unfolding cache_ok_def b ext by (elim disjE exE conjE, blast) (rule disjI2, auto simp: nth_append)
qed

lemma shape_buckets: "mm_shape m \<Longrightarrow> i < MAX_NUM_MEMORIES \<Longrightarrow> length (buckets_of m i) = buckets_for m (pages_of m i)"
  by (simp add: mm_shape_def)

text \<open>How far memory \<open>i\<close> can grow: the pages of its buckets and of those that are still free.\<close>

definition virtual_cap :: "nat \<Rightarrow> 's mm \<Rightarrow> memory_id \<Rightarrow> nat" where
  "virtual_cap cp m i = (length (buckets_of m i) +
     (min MAX_NUM_BUCKETS ((cp - 1) div bucket_size_in_pages m) - allocated_buckets m)) * bucket_size_in_pages m"

lemma virtual_cap_room:
  assumes sh: "mm_shape m" and i: "i < MAX_NUM_MEMORIES" and cp: "1 + bucket_size_in_pages m * allocated_buckets m \<le> cp"
    and fit: "pages_of m i + n \<le> virtual_cap cp m i"
  shows "allocated_buckets m + new_buckets m i n \<le> MAX_NUM_BUCKETS"
    and "1 + bucket_size_in_pages m * (allocated_buckets m + new_buckets m i n) \<le> cp"
proof -
  let ?b = "bucket_size_in_pages m" and ?a = "allocated_buckets m"
  let ?f = "min MAX_NUM_BUCKETS ((cp - 1) div ?b)"
  have "buckets_for m (pages_of m i + n) \<le> length (buckets_of m i) + (?f - ?a)"
    using fit sh by (intro buckets_for_le) (auto simp: virtual_cap_def mm_shape_def)
  then have k: "new_buckets m i n \<le> ?f - ?a"
    unfolding new_buckets_def le_diff_conv by (simp add: shape_buckets[OF sh i] add.commute)
  have "?b * ?a \<le> cp - 1"
    using cp by simp
  then have "?a \<le> (cp - 1) div ?b"
    using sh by (simp add: mm_shape_def less_eq_div_iff_mult_less_eq mult.commute)
  then have f: "?a + new_buckets m i n \<le> ?f"
    using k sh by (auto simp: mm_shape_def)
  then show "?a + new_buckets m i n \<le> MAX_NUM_BUCKETS"
    by simp
  have "?b * (?a + new_buckets m i n) \<le> ?b * ((cp - 1) div ?b)"
    using f by (intro mult_le_mono2) simp
  also have "\<dots> \<le> cp - 1"
    by (rule times_div_less_eq_dividend)
  finally show "1 + ?b * (?a + new_buckets m i n) \<le> cp"
    using cp by linarith
qed

lemma virtual_cap_full:
  assumes sh: "mm_shape m" and i: "i < MAX_NUM_MEMORIES" and cp: "1 + bucket_size_in_pages m * allocated_buckets m \<le> cp"
    and over: "virtual_cap cp m i < pages_of m i + n" and le: "allocated_buckets m + new_buckets m i n \<le> MAX_NUM_BUCKETS"
  shows "cp < 1 + bucket_size_in_pages m * (allocated_buckets m + new_buckets m i n)"
proof (rule ccontr)
  let ?b = "bucket_size_in_pages m" and ?a = "allocated_buckets m" and ?k = "new_buckets m i n"
  have b: "0 < ?b"
    using sh by (simp add: mm_shape_def)
  assume "\<not> ?thesis"
  then have "?b * (?a + ?k) \<le> cp - 1"
    by linarith
  then have "?a + ?k \<le> (cp - 1) div ?b"
    using b by (simp add: less_eq_div_iff_mult_less_eq mult.commute)
  with le have "?k \<le> min MAX_NUM_BUCKETS ((cp - 1) div ?b) - ?a"
    by linarith
  then have "(length (buckets_of m i) + ?k) * ?b \<le> virtual_cap cp m i"
    unfolding virtual_cap_def by (intro mult_le_mono1) simp
  moreover have "buckets_for m (pages_of m i + n) \<le> length (buckets_of m i) + ?k"
    using sh i by (simp add: new_buckets_def mm_shape_def)
  then have "buckets_for m (pages_of m i + n) * ?b \<le> (length (buckets_of m i) + ?k) * ?b"
    by (rule mult_le_mono1)
  ultimately show False
    using div_ceil_least(1)[OF b, of "pages_of m i + n"] over by linarith
qed

lemma virtual_cap_grown:
  assumes "i < length (memory_buckets m)" "allocated_buckets m + new_buckets m i n \<le> MAX_NUM_BUCKETS"
    and "1 + bucket_size_in_pages m * (allocated_buckets m + new_buckets m i n) \<le> cp" "0 < bucket_size_in_pages m"
  shows "virtual_cap cp (grown m i n s) i = virtual_cap cp m i"
proof -
  have "bucket_size_in_pages m * (allocated_buckets m + new_buckets m i n) \<le> cp - 1"
    using assms(3) by linarith
  then have "allocated_buckets m + new_buckets m i n \<le> (cp - 1) div bucket_size_in_pages m"
    using assms(4) by (simp add: less_eq_div_iff_mult_less_eq mult.commute)
  with assms(1,2) show ?thesis
    by (auto simp: virtual_cap_def grown_def)
qed

text \<open>What the bytes of the manager have to say after the allocation, the growth and the header.\<close>

lemma grown_bytes:
  assumes "1 + bucket_size_in_pages m * (allocated_buckets m + new_buckets m i n) \<le> length c3 div WASM_PAGE_SIZE"
    and "table_at c1 (allocated_buckets m + new_buckets m i n) ((memory_buckets m)[i := buckets_of m i @
       [allocated_buckets m..<allocated_buckets m + new_buckets m i n]])"
    and "2080 + MAX_NUM_BUCKETS \<le> length c1" "wrote (c1 @ zs) 0 (encode_mm_header (mm_header_of (grown m i n s))) c3"
    and "length (memory_sizes_in_pages m) = MAX_NUM_MEMORIES"
  shows "mm_bytes (grown m i n s) c3"
proof -
  have len: "length (encode_mm_header (mm_header_of (grown m i n s))) = 2080"
    using assms(5) by (intro length_encode_mm_header) (simp add: grown_def)
  have "table_at c3 (allocated_buckets m + new_buckets m i n) ((memory_buckets m)[i := buckets_of m i @
       [allocated_buckets m..<allocated_buckets m + new_buckets m i n]])"
    using assms(3) len nth_wrote_other[OF assms(4)]
    by (intro table_at_cong[OF assms(2)]) (simp add: nth_append)
  moreover have "subrange c3 0 2080 = encode_mm_header (mm_header_of (grown m i n s))"
    using subrange_wrote_same[OF assms(4)] len by simp
  moreover have "(1 + bucket_size_in_pages m * (allocated_buckets m + new_buckets m i n)) * WASM_PAGE_SIZE \<le> length c3"
    using mult_le_mono1[OF assms(1), of WASM_PAGE_SIZE] by (simp only: div_times_less_eq_dividend order_trans)
  ultimately show ?thesis
    by (simp add: mm_bytes_def) (simp add: grown_def)
qed

context memory
begin

abbreviation vcap :: "'s mm \<Rightarrow> memory_id \<Rightarrow> nat" where
  "vcap m i \<equiv> virtual_cap (cap (mm_memory m)) m i"

lemma mm_cap: "mm_ok m \<Longrightarrow> 1 + bucket_size_in_pages m * allocated_buckets m \<le> cap (mm_memory m)"
  using size_cap_law[of "mm_memory m"] unfolding mm_bytes_def by (meson mult_le_cancel2 order_trans zero_less_numeral)

lemma vcap_bounds:
  assumes m: "mm_ok m" and i: "i < MAX_NUM_MEMORIES"
  shows "pages_of m i \<le> vcap m i" "vcap m i \<le> MAX_PAGES"
proof -
  let ?b = "bucket_size_in_pages m"
  have b: "0 < ?b"
    using m by (simp add: mm_shape_def)
  have "pages_of m i \<le> length (buckets_of m i) * ?b"
    using m i div_ceil_least(1)[OF b, of "pages_of m i"] shape_buckets[of m i] by simp
  also have "\<dots> \<le> vcap m i"
    unfolding virtual_cap_def by (intro mult_le_mono1) simp
  finally show "pages_of m i \<le> vcap m i" .
  have "?b * allocated_buckets m \<le> cap (mm_memory m) - 1"
    using mm_cap[OF m] by linarith
  then have "allocated_buckets m \<le> (cap (mm_memory m) - 1) div ?b"
    using b by (simp add: less_eq_div_iff_mult_less_eq mult.commute)
  then have "length (buckets_of m i) + (min MAX_NUM_BUCKETS ((cap (mm_memory m) - 1) div ?b) - allocated_buckets m)
      \<le> (cap (mm_memory m) - 1) div ?b"
    using size_bytes_u64(1)[OF m i] by linarith
  then have "vcap m i \<le> (cap (mm_memory m) - 1) div ?b * ?b"
    unfolding virtual_cap_def by (rule mult_le_mono1)
  also have "\<dots> \<le> MAX_PAGES"
    using cap_law[of "mm_memory m"] m div_times_less_eq_dividend[of "cap (mm_memory m) - 1" ?b] by linarith
  finally show "vcap m i \<le> MAX_PAGES" .
qed

text \<open>The part of \<open>grow\<close> after the buckets are allocated.\<close>

lemma grow_start:
  assumes m: "mm_ok m" and i: "i < MAX_NUM_MEMORIES" and lim: "pages_of m i + n \<le> U64_MAX"
    and all: "allocated_buckets m + new_buckets m i n \<le> MAX_NUM_BUCKETS"
  obtains s where "inv s" "cap s = cap (mm_memory m)" "length (contents s) = length (contents (mm_memory m))"
    "\<forall>x < length (contents s). 2080 + MAX_NUM_BUCKETS \<le> x \<longrightarrow> contents s ! x = contents (mm_memory m) ! x"
    "table_at (contents s) (allocated_buckets m + new_buckets m i n) ((memory_buckets m)[i := buckets_of m i @
       [allocated_buckets m..<allocated_buckets m + new_buckets m i n]])"
    "mm_grow M m i n = do {
       let m1 = m\<lparr>mm_memory := s, allocated_buckets := allocated_buckets m + new_buckets m i n,
         memory_buckets := (memory_buckets m)[i := buckets_of m i @
           [allocated_buckets m..<allocated_buckets m + new_buckets m i n]]\<rparr>;
       bucket_pages \<leftarrow> u64_mul (bucket_size_in_pages m) (allocated_buckets m + new_buckets m i n);
       pages_needed \<leftarrow> u64_add BUCKETS_OFFSET_IN_PAGES bucket_pages;
       size \<leftarrow> size_op M s;
       m2 \<leftarrow> (if pages_needed > size then do {
              (prev_pages, s) \<leftarrow> grow_op M s (pages_needed - size);
              assert_that (prev_pages \<noteq> -1);
              Some (m1\<lparr>mm_memory := s\<rparr>) }
            else Some m1);
       m3 \<leftarrow> mm_save_header M (m2\<lparr>memory_sizes_in_pages := (memory_sizes_in_pages m2)[i := pages_of m i + n]\<rparr>);
       Some (int (pages_of m i), m3) }"
proof -
  have W: "WASM_PAGE_SIZE \<le> length (contents (mm_memory m))"
    using m by (simp add: mm_bytes_def)
  have le: "buckets_for m (pages_of m i) \<le> buckets_for m (pages_of m i + n)"
    by (rule buckets_for_mono) simp
  have "ok (allocate_buckets M i (new_buckets m i n) m) (\<lambda>m'. \<exists>s. inv s \<and> cap s = cap (mm_memory m) \<and>
    length (contents s) = length (contents (mm_memory m)) \<and>
    (\<forall>x < length (contents s). x < 2080 \<or> 2080 + MAX_NUM_BUCKETS \<le> x \<longrightarrow> contents s ! x = contents (mm_memory m) ! x) \<and>
    m' = m\<lparr>mm_memory := s, allocated_buckets := allocated_buckets m + new_buckets m i n,
      memory_buckets := (memory_buckets m)[i := buckets_of m i @ [allocated_buckets m..<allocated_buckets m + new_buckets m i n]]\<rparr> \<and>
    table_at (contents s) (allocated_buckets m') (memory_buckets m'))"
    using m i W all by (intro allocate_buckets_ok) (auto simp: mm_bytes_def mm_shape_def)
  then obtain s where s: "inv s" "cap s = cap (mm_memory m)" "length (contents s) = length (contents (mm_memory m))"
    "\<forall>x < length (contents s). 2080 + MAX_NUM_BUCKETS \<le> x \<longrightarrow> contents s ! x = contents (mm_memory m) ! x"
    "allocate_buckets M i (new_buckets m i n) m = Some (m\<lparr>mm_memory := s, allocated_buckets := allocated_buckets m + new_buckets m i n,
      memory_buckets := (memory_buckets m)[i := buckets_of m i @ [allocated_buckets m..<allocated_buckets m + new_buckets m i n]]\<rparr>)"
    "table_at (contents s) (allocated_buckets m + new_buckets m i n) ((memory_buckets m)[i := buckets_of m i @
       [allocated_buckets m..<allocated_buckets m + new_buckets m i n]])"
    by (auto elim!: ok_obtain)
  have "memory_size m i = Some (pages_of m i)" "0 < bucket_size_in_pages m" "i < length (memory_buckets m)"
    using m i by (auto simp: memory_size_def mm_shape_def)
  moreover have "new_buckets m i n + allocated_buckets m \<le> MAX_NUM_BUCKETS"
    "new_buckets m i n + allocated_buckets m \<le> U64_MAX"
    using all by (simp_all add: MAX_NUM_BUCKETS_def)
  ultimately have "mm_grow M m i n = do {
       m1 \<leftarrow> allocate_buckets M i (new_buckets m i n) m;
       bucket_pages \<leftarrow> u64_mul (bucket_size_in_pages m1) (allocated_buckets m1);
       pages_needed \<leftarrow> u64_add BUCKETS_OFFSET_IN_PAGES bucket_pages;
       size \<leftarrow> size_op M (mm_memory m1);
       m2 \<leftarrow> (if pages_needed > size then do {
              (prev_pages, s) \<leftarrow> grow_op M (mm_memory m1) (pages_needed - size);
              assert_that (prev_pages \<noteq> -1);
              Some (m1\<lparr>mm_memory := s\<rparr>) }
            else Some m1);
       m3 \<leftarrow> mm_save_header M (m2\<lparr>memory_sizes_in_pages := (memory_sizes_in_pages m2)[i := pages_of m i + n]\<rparr>);
       Some (int (pages_of m i), m3) }"
    using lim le unfolding mm_grow_def new_buckets_def num_buckets_needed_def
    by (simp add: u64_add_def u64_sub_def u64_div_ceil_def Let_def)
  with s show ?thesis
    by (intro that[of s]) (simp_all add: Let_def cong del: if_weak_cong)
qed

text \<open>The growth of the memory below, when the buckets do not fit.\<close>

lemma grow_base:
  assumes "inv s" "p \<le> cap s" "mm_memory m = s"
  obtains s' zs where "inv s'" "cap s' = cap s" "contents s' = contents s @ zs" "p \<le> length (contents s') div WASM_PAGE_SIZE"
    "(if length (contents s) div WASM_PAGE_SIZE < p then do {
          (prev_pages, s') \<leftarrow> grow_op M s (p - length (contents s) div WASM_PAGE_SIZE);
          assert_that (prev_pages \<noteq> -1);
          Some (m\<lparr>mm_memory := s'\<rparr>) }
        else Some m) = Some (m\<lparr>mm_memory := s'\<rparr>)"
proof (cases "length (contents s) div WASM_PAGE_SIZE < p")
  case True
  then have "length (contents s) div WASM_PAGE_SIZE + (p - length (contents s) div WASM_PAGE_SIZE) \<le> cap s"
    using assms(2) by simp
  from grow_law[OF assms(1) this] True that show ?thesis
    by (force elim!: ok_obtain)
next
  case False
  with assms show ?thesis
    by (intro that[of s "[]"]) auto
qed

lemma mm_grow_ok:
  assumes m: "mm_ok m" and i: "i < MAX_NUM_MEMORIES" and fit: "pages_of m i + n \<le> vcap m i"
  shows "ok (mm_grow M m i n) (\<lambda>(r, m'). r = int (pages_of m i) \<and> mm_ok m' \<and> vcap m' i = vcap m i \<and>
    (\<exists>s. m' = grown m i n s \<and> cap s = cap (mm_memory m) \<and>
      (\<forall>x < length (contents (mm_memory m)). WASM_PAGE_SIZE \<le> x \<longrightarrow> contents s ! x = contents (mm_memory m) ! x)))"
proof -
  let ?a = "allocated_buckets m + new_buckets m i n" and ?c = "contents (mm_memory m)"
  have sh: "mm_shape m" and W: "2080 + MAX_NUM_BUCKETS \<le> WASM_PAGE_SIZE" "WASM_PAGE_SIZE \<le> length ?c"
    using m by (auto simp: MAX_NUM_BUCKETS_def mm_bytes_def)
  note room = virtual_cap_room[OF sh i mm_cap[OF m] fit]
  have lim: "pages_of m i + n \<le> U64_MAX"
    using fit vcap_bounds(2)[OF m i] by (simp add: MAX_PAGES_val)
  from m i lim room(1) obtain s where s: "inv s" "cap s = cap (mm_memory m)" "length (contents s) = length ?c"
    "\<forall>x < length (contents s). 2080 + MAX_NUM_BUCKETS \<le> x \<longrightarrow> contents s ! x = ?c ! x"
    and tab: "table_at (contents s) ?a ((memory_buckets m)[i := buckets_of m i @ [allocated_buckets m..<?a]])"
    and eq: "mm_grow M m i n = do {
       let m1 = m\<lparr>mm_memory := s, allocated_buckets := ?a,
         memory_buckets := (memory_buckets m)[i := buckets_of m i @ [allocated_buckets m..<?a]]\<rparr>;
       bucket_pages \<leftarrow> u64_mul (bucket_size_in_pages m) ?a;
       pages_needed \<leftarrow> u64_add BUCKETS_OFFSET_IN_PAGES bucket_pages;
       size \<leftarrow> size_op M s;
       m2 \<leftarrow> (if pages_needed > size then do {
              (prev_pages, s) \<leftarrow> grow_op M s (pages_needed - size);
              assert_that (prev_pages \<noteq> -1);
              Some (m1\<lparr>mm_memory := s\<rparr>) }
            else Some m1);
       m3 \<leftarrow> mm_save_header M (m2\<lparr>memory_sizes_in_pages := (memory_sizes_in_pages m2)[i := pages_of m i + n]\<rparr>);
       Some (int (pages_of m i), m3) }"
    by (rule grow_start)
  let ?p = "1 + bucket_size_in_pages m * ?a"
  define m1 where "m1 = m\<lparr>mm_memory := s, allocated_buckets := ?a,
         memory_buckets := (memory_buckets m)[i := buckets_of m i @ [allocated_buckets m..<?a]]\<rparr>"
  have p: "?p \<le> cap s" "?p \<le> U64_MAX"
    using room(2) s(2) cap_law[OF s(1)] by (simp_all add: MAX_PAGES_val)
  have "mm_memory m1 = s"
    by (simp add: m1_def)
  with s(1) p(1) obtain s2 zs where s2: "inv s2" "cap s2 = cap s" "contents s2 = contents s @ zs"
    "?p \<le> length (contents s2) div WASM_PAGE_SIZE"
    and g: "(if length (contents s) div WASM_PAGE_SIZE < ?p then do {
          (prev_pages, s') \<leftarrow> grow_op M s (?p - length (contents s) div WASM_PAGE_SIZE);
          assert_that (prev_pages \<noteq> -1);
          Some (m1\<lparr>mm_memory := s'\<rparr>) }
        else Some m1) = Some (m1\<lparr>mm_memory := s2\<rparr>)"
    by (rule grow_base)
  let ?h = "encode_mm_header (mm_header_of (grown m i n s2))"
  have hl: "length ?h = 2080"
    using sh by (intro length_encode_mm_header) (simp add: grown_def mm_shape_def)
  have "0 + length ?h \<le> length (contents s2)"
    using W s(3) s2(3) hl by simp
  from write_in_place[OF s2(1) this] obtain s3 where s3: "write_grow M s2 0 ?h = Some s3" "inv s3" "cap s3 = cap s2"
    "length (contents s3) = length (contents s2)" "wrote (contents s2) 0 ?h (contents s3)"
    by (auto elim: ok_obtain)
  have g3: "mm_grow M m i n = Some (int (pages_of m i), grown m i n s3)"
  proof -
    have u: "u64_mul (bucket_size_in_pages m) ?a = Some (bucket_size_in_pages m * ?a)"
      "u64_add BUCKETS_OFFSET_IN_PAGES (bucket_size_in_pages m * ?a) = Some ?p"
      using p(2) by (auto simp: u64_mul_def u64_add_def BUCKETS_OFFSET_IN_PAGES_def)
    show ?thesis
      unfolding eq Let_def m1_def[symmetric] u size_law[OF s(1)] bind.bind_lunit g using s3(1)
      by (simp add: mm_save_header_def write_struct_def grown_def mm_header_of_def m1_def)
  qed
  have keep: "contents s3 ! x = ?c ! x" if "x < length ?c" "WASM_PAGE_SIZE \<le> x" for x
    using nth_wrote_other[OF s3(5), of x] s(3,4) s2(3) that W hl by (simp add: nth_append)
  have hd: "mm_header_of (grown m i n s3) = mm_header_of (grown m i n s2)"
    by (simp add: mm_header_of_def grown_def)
  have "mm_bytes (grown m i n s3) (contents s3)"
    using s2(3,4) s3(4,5) W s(3) sh by (intro grown_bytes[OF _ tab, where zs = zs]) (simp_all add: hd mm_shape_def)
  moreover have "vcap (grown m i n s3) i = vcap m i"
    using virtual_cap_grown[OF _ room, of s3] s2(2) s3(3) s(2) sh i by (simp add: mm_shape_def)
  ultimately show ?thesis
    unfolding g3 using s3(2) keep grown_shape[OF sh i room(1)] s2(2) s3(3) s(2) by auto
qed

lemma mm_grow_over:
  assumes m: "mm_ok m" and i: "i < MAX_NUM_MEMORIES" and over: "vcap m i < pages_of m i + n"
    and g: "mm_grow M m i n = Some (r, m')"
  shows "r = -1 \<and> m' = m"
proof -
  let ?a = "allocated_buckets m + new_buckets m i n"
  have sh: "mm_shape m" and b: "0 < bucket_size_in_pages m"
    using m by (auto simp: mm_shape_def)
  have ms: "memory_size m i = Some (pages_of m i)"
    using sh i by (simp add: memory_size_def mm_shape_def)
  have lim: "pages_of m i + n \<le> U64_MAX"
    using g ms by (auto simp: mm_grow_def bind_eq_Some_conv u64_add_def split: if_splits)
  show ?thesis
  proof (cases "?a \<le> MAX_NUM_BUCKETS")
    case False
    have "buckets_for m (pages_of m i) \<le> buckets_for m (pages_of m i + n)"
      by (rule buckets_for_mono) simp
    with g ms lim b False show ?thesis
      unfolding mm_grow_def num_buckets_needed_def new_buckets_def
      by (auto simp: u64_add_def u64_sub_def u64_div_ceil_def split: if_splits)
  next
    case True
    note full = virtual_cap_full[OF sh i mm_cap[OF m] over True]
    from m i lim True obtain s where s: "inv s" "cap s = cap (mm_memory m)"
      "length (contents s) = length (contents (mm_memory m))"
      and "\<forall>x < length (contents s). 2080 + MAX_NUM_BUCKETS \<le> x \<longrightarrow> contents s ! x = contents (mm_memory m) ! x"
      and "table_at (contents s) ?a ((memory_buckets m)[i := buckets_of m i @ [allocated_buckets m..<?a]])"
      and eq: "mm_grow M m i n = do {
         let m1 = m\<lparr>mm_memory := s, allocated_buckets := ?a,
           memory_buckets := (memory_buckets m)[i := buckets_of m i @ [allocated_buckets m..<?a]]\<rparr>;
         bucket_pages \<leftarrow> u64_mul (bucket_size_in_pages m) ?a;
         pages_needed \<leftarrow> u64_add BUCKETS_OFFSET_IN_PAGES bucket_pages;
         size \<leftarrow> size_op M s;
         m2 \<leftarrow> (if pages_needed > size then do {
                (prev_pages, s) \<leftarrow> grow_op M s (pages_needed - size);
                assert_that (prev_pages \<noteq> -1);
                Some (m1\<lparr>mm_memory := s\<rparr>) }
              else Some m1);
         m3 \<leftarrow> mm_save_header M (m2\<lparr>memory_sizes_in_pages := (memory_sizes_in_pages m2)[i := pages_of m i + n]\<rparr>);
         Some (int (pages_of m i), m3) }"
      by (rule grow_start)
    let ?q = "1 + bucket_size_in_pages m * ?a" and ?l = "length (contents s) div WASM_PAGE_SIZE"
    have pages: "?l \<le> cap s"
      using size_cap_law[OF s(1)] div_le_mono[of "length (contents s)" "cap s * WASM_PAGE_SIZE" WASM_PAGE_SIZE] by simp
    have le: "?l < ?q" "cap s < ?l + (?q - ?l)"
      using full pages s(2) by linarith+
    have "do { (prev_pages, s) \<leftarrow> grow_op M s (?q - ?l); assert_that (prev_pages \<noteq> -1); Some (m1\<lparr>mm_memory := s\<rparr>) } = None" for m1
      using grow_over_law[OF s(1) le(2)] by (cases "grow_op M s (?q - ?l)") (fastforce simp del: One_nat_def)+
    note none = this
    have "mm_grow M m i n = None"
    proof (cases "?q \<le> U64_MAX")
      case True
      then have u: "u64_mul (bucket_size_in_pages m) ?a = Some (bucket_size_in_pages m * ?a)"
        "u64_add BUCKETS_OFFSET_IN_PAGES (bucket_size_in_pages m * ?a) = Some ?q"
        by (auto simp: u64_mul_def u64_add_def BUCKETS_OFFSET_IN_PAGES_def)
      show ?thesis
        unfolding eq Let_def u size_law[OF s(1)] bind.bind_lunit none using le(1) by simp
    next
      case False
      then have u: "u64_mul (bucket_size_in_pages m) ?a = None \<or>
        u64_mul (bucket_size_in_pages m) ?a = Some (bucket_size_in_pages m * ?a)"
        "u64_add BUCKETS_OFFSET_IN_PAGES (bucket_size_in_pages m * ?a) = None"
        by (auto simp: u64_mul_def u64_add_def BUCKETS_OFFSET_IN_PAGES_def)
      from u(1) show ?thesis
        unfolding eq Let_def using u(2) by (elim disjE) simp_all
    qed
    with g show ?thesis by simp
  qed
qed

end

section \<open>A virtual memory is a memory\<close>

definition virtual_inv :: "('s \<Rightarrow> bool) \<Rightarrow> ('s \<Rightarrow> bytes) \<Rightarrow> memory_id \<Rightarrow> 's virtual \<Rightarrow> bool" where
  "virtual_inv minv contents i = (\<lambda>(m, cache). i < MAX_NUM_MEMORIES \<and> minv (mm_memory m) \<and> mm_shape m \<and>
     mm_bytes m (contents (mm_memory m)) \<and> cache_ok m i cache)"

definition virtual_contents :: "('s \<Rightarrow> bytes) \<Rightarrow> memory_id \<Rightarrow> 's virtual \<Rightarrow> bytes" where
  "virtual_contents contents i = (\<lambda>(m, cache). vcontents m (contents (mm_memory m)) i)"

definition virtual_limit :: "('s \<Rightarrow> nat) \<Rightarrow> memory_id \<Rightarrow> 's virtual \<Rightarrow> nat" where
  "virtual_limit cap i = (\<lambda>(m, cache). virtual_cap (cap (mm_memory m)) m i)"

lemma set_memory_simps [simp]:
  "mm_shape (m\<lparr>mm_memory := s\<rparr>) = mm_shape m" "mm_bytes (m\<lparr>mm_memory := s\<rparr>) c = mm_bytes m c"
  "cache_ok (m\<lparr>mm_memory := s\<rparr>) i cache = cache_ok m i cache" "vcontents (m\<lparr>mm_memory := s\<rparr>) c i = vcontents m c i"
  "virtual_cap cp (m\<lparr>mm_memory := s\<rparr>) i = virtual_cap cp m i"
  by (simp_all add: mm_shape_def mm_bytes_def cache_ok_def vcontents_def virtual_cap_def mm_header_of_def)

context memory
begin

lemma virtual_memory:
  "memory (VirtualMemory M i) (virtual_inv inv contents i) (virtual_contents contents i) (virtual_limit cap i)"
proof (unfold_locales, unfold VirtualMemory_def memory_ops.simps)
  fix v :: "'s virtual"
  obtain m cache where v: "v = (m, cache)"
    by (cases v)
  assume "virtual_inv inv contents i v"
  then have i: "i < MAX_NUM_MEMORIES" and m: "mm_ok m" and c: "cache_ok m i cache"
    by (auto simp: virtual_inv_def v)
  have cont: "virtual_contents contents i v = vmem m i" and lim: "virtual_limit cap i v = vcap m i"
    by (simp_all add: virtual_contents_def virtual_limit_def v)
  have len: "length (virtual_contents contents i v) div WASM_PAGE_SIZE = pages_of m i"
    by (simp add: cont)
  show "(case v of (m, cache) \<Rightarrow> memory_size m i) = Some (length (virtual_contents contents i v) div WASM_PAGE_SIZE)"
    using m i unfolding len by (simp add: v memory_size_def mm_shape_def)
  show "WASM_PAGE_SIZE dvd length (virtual_contents contents i v)"
    by (simp add: cont)
  show "virtual_limit cap i v \<le> MAX_PAGES" "length (virtual_contents contents i v) \<le> virtual_limit cap i v * WASM_PAGE_SIZE"
    using vcap_bounds[OF m i] by (simp_all add: cont lim)
  show "ok ((case v of (m, cache) \<Rightarrow> \<lambda>offset count. do { (bs, cache, m) \<leftarrow> mm_read M m i offset count cache; Some (bs, m, cache) }) off n)
      (\<lambda>(bs, v'). bs = subrange (virtual_contents contents i v) off n \<and> virtual_inv inv contents i v' \<and>
        virtual_contents contents i v' = virtual_contents contents i v \<and> virtual_limit cap i v' = virtual_limit cap i v)"
    if "off + n \<le> length (virtual_contents contents i v)" for off n
    using mm_read_ok[OF m i c, of off n] that m i unfolding cont lim
    by (auto simp: v virtual_inv_def virtual_contents_def virtual_limit_def elim!: ok_mono)
  show "ok ((case v of (m, cache) \<Rightarrow> \<lambda>offset src. do { (cache, m) \<leftarrow> mm_write M m i offset src cache; Some (m, cache) }) off bs)
      (\<lambda>v'. virtual_inv inv contents i v' \<and> virtual_contents contents i v' = overwrite (virtual_contents contents i v) off bs \<and>
        virtual_limit cap i v' = virtual_limit cap i v)"
    if "off + length bs \<le> length (virtual_contents contents i v)" for off bs
    using mm_write_ok[OF m i c, of off bs] that m i mm_bytes_vwrote[of m _ i off bs] vcontents_vwrote_same[of m _ i off bs]
      pages_in_buckets[of m i]
    unfolding cont lim
    by (auto simp: v virtual_inv_def virtual_contents_def virtual_limit_def elim!: ok_mono)
  show "ok ((case v of (m, cache) \<Rightarrow> \<lambda>pages. do { (r, m) \<leftarrow> mm_grow M m i pages; Some (r, m, cache) }) n)
      (\<lambda>(r, v'). r = int (length (virtual_contents contents i v) div WASM_PAGE_SIZE) \<and> virtual_inv inv contents i v' \<and>
        virtual_limit cap i v' = virtual_limit cap i v \<and>
        (\<exists>zs. length zs = n * WASM_PAGE_SIZE \<and> virtual_contents contents i v' = virtual_contents contents i v @ zs))"
    if "length (virtual_contents contents i v) div WASM_PAGE_SIZE + n \<le> virtual_limit cap i v" for n
    using mm_grow_ok[OF m i, of n] that m i c grown_vcontents(2)[of m "contents (mm_memory m)" i i] grown_cache[of m i cache i]
    unfolding len lim
    by (auto simp: v virtual_inv_def virtual_contents_def virtual_limit_def mm_shape_def elim!: ok_mono)
  show "r = -1 \<and> virtual_inv inv contents i v' \<and> virtual_contents contents i v' = virtual_contents contents i v \<and>
      virtual_limit cap i v' = virtual_limit cap i v"
    if "virtual_limit cap i v < length (virtual_contents contents i v) div WASM_PAGE_SIZE + n"
      "(case v of (m, cache) \<Rightarrow> \<lambda>pages. do { (r, m) \<leftarrow> mm_grow M m i pages; Some (r, m, cache) }) n = Some (r, v')" for n r v'
    using mm_grow_over[OF m i, of n r "fst v'"] that m i c unfolding len lim
    by (auto simp: v virtual_inv_def virtual_contents_def virtual_limit_def bind_eq_Some_conv)
qed

end

interpretation vmm: memory "VirtualMemory VectorMemory i" "virtual_inv vec_inv (\<lambda>m. m) i"
  "virtual_contents (\<lambda>m. m) i" "virtual_limit vec_cap i" for i
  by (rule vm.virtual_memory)

section \<open>Virtual memories do not interfere\<close>

text \<open>
  The handle of memory \<open>i\<close>, with what every other memory holds (\<open>D\<close>) and the other handles (\<open>H\<close>), to
  the same memory or to others. Every operation of the handle that returns, whatever its range, keeps the contents of the
  other memories and leaves the other handles usable.
\<close>

definition framed_inv ::
  "('s \<Rightarrow> bool) \<Rightarrow> ('s \<Rightarrow> bytes) \<Rightarrow> memory_id \<Rightarrow> (memory_id \<Rightarrow> bytes) \<Rightarrow> (memory_id \<times> bucket_cache) set \<Rightarrow>
   's virtual \<Rightarrow> bool" where
  "framed_inv minv contents i D H v \<longleftrightarrow> virtual_inv minv contents i v \<and>
     (\<forall>j < MAX_NUM_MEMORIES. j \<noteq> i \<longrightarrow> vcontents (fst v) (contents (mm_memory (fst v))) j = D j) \<and>
     (\<forall>(j, c) \<in> H. virtual_inv minv contents j (fst v, c))"

lemma ok_also: "ok r Q \<Longrightarrow> (\<And>x. r = Some x \<Longrightarrow> R x) \<Longrightarrow> ok r (\<lambda>x. Q x \<and> R x)"
  by (auto simp: ok_def)

context memory
begin

text \<open>A stronger invariant that every returning operation keeps serves as the invariant, too.\<close>

lemma strengthen_inv:
  assumes imp: "\<And>s. inv' s \<Longrightarrow> inv s"
    and rd: "\<And>s off n bs s'. inv' s \<Longrightarrow> read_op M s off n = Some (bs, s') \<Longrightarrow> inv' s'"
    and wr: "\<And>s off bs s'. inv' s \<Longrightarrow> write_op M s off bs = Some s' \<Longrightarrow> inv' s'"
    and gr: "\<And>s n r s'. inv' s \<Longrightarrow> grow_op M s n = Some (r, s') \<Longrightarrow> inv' s'"
  shows "memory M inv' contents cap"
proof
  fix s off n
  assume s: "inv' s"
  show "size_op M s = Some (length (contents s) div WASM_PAGE_SIZE)" "WASM_PAGE_SIZE dvd length (contents s)"
    "cap s \<le> MAX_PAGES" "length (contents s) \<le> cap s * WASM_PAGE_SIZE"
    using imp[OF s] size_law page_law cap_law size_cap_law by blast+
  show "ok (read_op M s off n) (\<lambda>(bs, s'). bs = subrange (contents s) off n \<and> inv' s' \<and> contents s' = contents s \<and> cap s' = cap s)"
    if "off + n \<le> length (contents s)"
    by (rule ok_mono[OF ok_also[OF read_law[OF imp[OF s] that], where R = "\<lambda>(bs, s'). inv' s'"]]) (auto intro: rd[OF s])
  show "ok (write_op M s off bs) (\<lambda>s'. inv' s' \<and> contents s' = overwrite (contents s) off bs \<and> cap s' = cap s)"
    if "off + length bs \<le> length (contents s)" for bs
    by (rule ok_mono[OF ok_also[OF write_law[OF imp[OF s] that], where R = inv']]) (auto intro: wr[OF s])
  show "ok (grow_op M s n) (\<lambda>(r, s'). r = int (length (contents s) div WASM_PAGE_SIZE) \<and> inv' s' \<and> cap s' = cap s \<and>
      (\<exists>zs. length zs = n * WASM_PAGE_SIZE \<and> contents s' = contents s @ zs))"
    if "length (contents s) div WASM_PAGE_SIZE + n \<le> cap s"
    by (rule ok_mono[OF ok_also[OF grow_law[OF imp[OF s] that], where R = "\<lambda>(r, s'). inv' s'"]]) (auto intro: gr[OF s])
  show "r = -1 \<and> inv' s' \<and> contents s' = contents s \<and> cap s' = cap s"
    if "cap s < length (contents s) div WASM_PAGE_SIZE + n" "grow_op M s n = Some (r, s')" for r s'
    using grow_over_law[OF imp[OF s] that] gr[OF s that(2)] by blast
qed

lemma virtual_write_framed:
  assumes f: "framed_inv inv contents i D H v" and w: "write_op (VirtualMemory M i) v off src = Some v'"
  shows "framed_inv inv contents i D H v'"
proof -
  obtain m cache where v: "v = (m, cache)"
    by (cases v)
  have i: "i < MAX_NUM_MEMORIES" and m: "mm_ok m" and c: "cache_ok m i cache"
    using f by (auto simp: framed_inv_def virtual_inv_def v)
  from w obtain cache' m' where w': "mm_write M m i off src cache = Some (cache', m')" "v' = (m', cache')"
    by (auto simp: VirtualMemory_def v bind_eq_Some_conv)
  from m i c w'(1) obtain s where s: "cache_ok m i cache'" "m' = m\<lparr>mm_memory := s\<rparr>" "inv s" "cap s = cap (mm_memory m)"
    "off + length src \<le> length (buckets_of m i) * bucket_bytes m"
    "vwrote (bucket_bytes m) (buckets_of m i) off src (contents (mm_memory m)) (contents s)"
    by (rule mm_write_any)
  have "vcontents m (contents s) j = vmem m j" if "j < MAX_NUM_MEMORIES" "j \<noteq> i" for j
    using vcontents_vwrote_other[OF _ _ i that(1) that(2)[symmetric] s(5,6)] m by simp
  moreover have "mm_bytes m (contents s)"
    using mm_bytes_vwrote[OF _ _ i s(5,6)] m by simp
  ultimately show ?thesis
    using f s(1-3) w'(2) by (auto simp: framed_inv_def virtual_inv_def v)
qed

lemma virtual_read_framed:
  assumes f: "framed_inv inv contents i D H v" and w: "read_op (VirtualMemory M i) v off n = Some (bs, v')"
  shows "framed_inv inv contents i D H v'"
proof -
  obtain m cache where v: "v = (m, cache)"
    by (cases v)
  have i: "i < MAX_NUM_MEMORIES" and m: "mm_ok m" and c: "cache_ok m i cache"
    using f by (auto simp: framed_inv_def virtual_inv_def v)
  from w obtain cache' m' where w': "mm_read M m i off n cache = Some (bs, cache', m')" "v' = (m', cache')"
    by (auto simp: VirtualMemory_def v bind_eq_Some_conv)
  from m i c w'(1) obtain s where s: "cache_ok m i cache'" "m' = m\<lparr>mm_memory := s\<rparr>" "inv s" "cap s = cap (mm_memory m)"
    "contents s = contents (mm_memory m)"
    by (rule mm_read_any)
  with f w'(2) show ?thesis
    by (auto simp: framed_inv_def virtual_inv_def v)
qed

lemma virtual_grow_framed:
  assumes f: "framed_inv inv contents i D H v" and w: "grow_op (VirtualMemory M i) v n = Some (r, v')"
  shows "framed_inv inv contents i D H v'"
proof -
  obtain m cache where v: "v = (m, cache)"
    by (cases v)
  have i: "i < MAX_NUM_MEMORIES" and m: "mm_ok m" and c: "cache_ok m i cache"
    using f by (auto simp: framed_inv_def virtual_inv_def v)
  from w obtain m' where w': "mm_grow M m i n = Some (r, m')" "v' = (m', cache)"
    by (auto simp: VirtualMemory_def v bind_eq_Some_conv)
  show ?thesis
  proof (cases "pages_of m i + n \<le> vcap m i")
    case False
    with mm_grow_over[OF m i _ w'(1)] f w'(2) show ?thesis by (simp add: v)
  next
    case True
    from okD[OF mm_grow_ok[OF m i True] w'(1)] obtain s where s: "mm_ok m'" "m' = grown m i n s"
      "\<forall>x < length (contents (mm_memory m)). WASM_PAGE_SIZE \<le> x \<longrightarrow> contents s ! x = contents (mm_memory m) ! x"
      by auto
    have il: "i < length (memory_buckets m)"
      using m i by (simp add: mm_shape_def)
    have "vcontents m' (contents s) j = vmem m j" if "j < MAX_NUM_MEMORIES" "j \<noteq> i" for j
      unfolding s(2) using m i that s(3) by (intro grown_vcontents(1)) auto
    moreover have "cache_ok m' j c'" if "cache_ok m j c'" for j c'
      unfolding s(2) by (rule grown_cache[OF that il])
    moreover have "mm_memory m' = s"
      by (simp add: s(2))
    ultimately show ?thesis
      using f s(1) w'(2) c by (auto simp: framed_inv_def virtual_inv_def v)
  qed
qed

lemma framed_memory:
  "memory (VirtualMemory M i) (framed_inv inv contents i D H) (virtual_contents contents i) (virtual_limit cap i)"
  by (rule memory.strengthen_inv[OF virtual_memory])
    (simp add: framed_inv_def, (blast intro: virtual_read_framed virtual_write_framed virtual_grow_framed)+)

end

section \<open>Creating and loading a manager\<close>

lemma decode_encode_mm_header:
  assumes "length (memory_sizes_in_pages m) = MAX_NUM_MEMORIES" "\<forall>i < MAX_NUM_MEMORIES. pages_of m i \<le> U64_MAX"
    and "allocated_buckets m \<le> U16_MAX" "bucket_size_in_pages m \<le> U16_MAX"
  shows "decode_mm_header (encode_mm_header (mm_header_of m)) = mm_header_of m"
proof -
  let ?ps = "memory_sizes_in_pages m"
  define pre where "pre = MGR_MAGIC @ to_le_bytes 1 MGR_LAYOUT_VERSION @ to_le_bytes 2 (allocated_buckets m) @
     to_le_bytes 2 (bucket_size_in_pages m) @ replicate HEADER_RESERVED_BYTES 0"
  have pl: "length pre = 40"
    by (simp add: pre_def MGR_MAGIC_def HEADER_RESERVED_BYTES_def del: to_le_bytes.simps)
  have e: "encode_mm_header (mm_header_of m) = pre @ concat (map (to_le_bytes 8) ?ps)"
    by (simp add: encode_mm_header_def mm_header_of_def pre_def)
  have chunk: "subrange (concat (map (to_le_bytes 8) ps)) (8 * i) 8 = to_le_bytes 8 (ps ! i)" if "i < length ps" for i ps
    using that
  proof (induction ps arbitrary: i)
    case (Cons p ps)
    then show ?case
      by (cases i) (simp_all add: subrange_def del: to_le_bytes.simps)
  qed simp
  have "subrange (encode_mm_header (mm_header_of m)) (40 + 8 * i) 8 = to_le_bytes 8 (?ps ! i)" if "i < MAX_NUM_MEMORIES" for i
    using chunk[of i ?ps] that assms(1) pl unfolding e by (simp add: subrange_def del: to_le_bytes.simps)
  moreover have "pages_of m i mod 18446744073709551616 = pages_of m i" if "i < MAX_NUM_MEMORIES" for i
    using assms(2) that by (intro mod_less) fastforce
  ultimately have sizes: "map (\<lambda>i. from_le_bytes (subrange (encode_mm_header (mm_header_of m)) (40 + 8 * i) 8)) [0..<MAX_NUM_MEMORIES] = ?ps"
    using assms(1) by (intro nth_equalityI) (simp_all add: from_to_le_bytes del: to_le_bytes.simps)
  have parts: "subrange (encode_mm_header (mm_header_of m)) 0 3 = MGR_MAGIC"
    "subrange (encode_mm_header (mm_header_of m)) 3 1 = to_le_bytes 1 MGR_LAYOUT_VERSION"
    "subrange (encode_mm_header (mm_header_of m)) 4 2 = to_le_bytes 2 (allocated_buckets m)"
    "subrange (encode_mm_header (mm_header_of m)) 6 2 = to_le_bytes 2 (bucket_size_in_pages m)"
    unfolding e by (simp_all add: pre_def subrange_def MGR_MAGIC_def del: to_le_bytes.simps)
  have vals: "from_le_bytes (to_le_bytes 1 MGR_LAYOUT_VERSION) = MGR_LAYOUT_VERSION"
    "from_le_bytes (to_le_bytes 2 (allocated_buckets m)) = allocated_buckets m"
    "from_le_bytes (to_le_bytes 2 (bucket_size_in_pages m)) = bucket_size_in_pages m"
    using assms(3,4) by (simp_all add: from_to_le_bytes MGR_LAYOUT_VERSION_def del: to_le_bytes.simps)
  have "(8::nat) + HEADER_RESERVED_BYTES = 40"
    by (simp add: HEADER_RESERVED_BYTES_def)
  then show ?thesis
    unfolding decode_mm_header_def parts vals using sizes by (simp only: mm_header_of_def[of m])
qed

lemma load_buckets_val:
  assumes "length acc = MAX_NUM_MEMORIES"
  shows "load_buckets idx bs acc = Some (map (\<lambda>i. acc ! i @
    map fst (filter (\<lambda>(k, b). b = of_nat i) (zip [idx..<idx + length bs] bs))) [0..<MAX_NUM_MEMORIES])"
  using assms
proof (induction idx bs acc rule: load_buckets.induct)
  case (1 idx acc)
  then show ?case
    by (simp add: map_nth[symmetric] cong: map_cong) (metis map_nth)
next
  case (2 idx b bs acc)
  have up: "[idx..<idx + length (b # bs)] = idx # [idx + 1..<idx + 1 + length bs]"
    by (simp add: upt_rec)
  have owner: "b = of_nat i \<longleftrightarrow> unat b = i" if "i < MAX_NUM_MEMORIES" for i
    using that unat_of_nat_byte[of i] by (auto simp: MAX_NUM_MEMORIES_def)
  show ?case
  proof (cases "unat b = UNALLOCATED_BUCKET_MARKER")
    case True
    with 2 show ?thesis
      unfolding up by (auto simp: owner UNALLOCATED_BUCKET_MARKER_def intro!: map_cong)
  next
    case False
    then have b: "unat b < MAX_NUM_MEMORIES"
      using unsigned_less[of b, where 'a = nat] by (simp add: UNALLOCATED_BUCKET_MARKER_def MAX_NUM_MEMORIES_def)
    with 2 False show ?thesis
      unfolding up by (auto simp: owner nth_list_update intro!: map_cong)
  qed
qed

lemma filter_index:
  assumes "length bs = n"
  shows "map fst (filter (\<lambda>(k, b). b = x) (zip [0..<n] bs)) = filter (\<lambda>k. bs ! k = x) [0..<n]"
  using assms
proof -
  have "zip [0..<n] bs = map (\<lambda>k. (k, bs ! k)) [0..<n]"
    using assms by (intro nth_equalityI) simp_all
  then show ?thesis
    by (simp add: filter_map comp_def)
qed

lemma load_table:
  assumes "table_at c n mb" "length mb = MAX_NUM_MEMORIES" "2080 + MAX_NUM_BUCKETS \<le> length c"
  shows "load_buckets 0 (subrange c 2080 MAX_NUM_BUCKETS) (replicate MAX_NUM_MEMORIES []) = Some mb"
proof -
  have "filter (\<lambda>k. subrange c 2080 MAX_NUM_BUCKETS ! k = of_nat i) [0..<MAX_NUM_BUCKETS] = mb ! i" if "i < MAX_NUM_MEMORIES" for i
    using assms that by (auto simp: table_at_def intro!: filter_cong)
  then have "map (\<lambda>i. filter (\<lambda>k. subrange c 2080 MAX_NUM_BUCKETS ! k = of_nat i) [0..<MAX_NUM_BUCKETS]) [0..<MAX_NUM_MEMORIES] = mb"
    using assms(2) by (intro nth_equalityI) simp_all
  moreover have "length (subrange c 2080 MAX_NUM_BUCKETS) = MAX_NUM_BUCKETS"
    using assms(3) by simp
  ultimately show ?thesis
    unfolding load_buckets_val[OF length_replicate] by (auto simp: filter_index intro: map_cong)
qed

context memory
begin

lemma mm_new_ok:
  assumes s: "inv s" and cp: "1 \<le> cap s" and b: "0 < b" "b \<le> U16_MAX"
  shows "ok (mm_new M s b) (\<lambda>m. mm_ok m \<and> cap (mm_memory m) = cap s \<and> bucket_size_in_pages m = b \<and> allocated_buckets m = 0 \<and>
    (\<forall>i < MAX_NUM_MEMORIES. pages_of m i = 0))"
proof -
  define m where "m = \<lparr>mm_memory = s, allocated_buckets = 0, bucket_size_in_pages = b,
     memory_sizes_in_pages = replicate MAX_NUM_MEMORIES 0, memory_buckets = replicate MAX_NUM_MEMORIES []\<rparr>"
  let ?h = "encode_mm_header (mm_header_of m)" and ?t = "replicate MAX_NUM_BUCKETS (of_nat UNALLOCATED_BUCKET_MARKER) :: bytes"
  have hl: "length ?h = 2080"
    by (rule length_encode_mm_header) (simp add: m_def)
  have W: "0 + length ?h \<le> cap s * WASM_PAGE_SIZE" "2080 + length ?t \<le> cap s * WASM_PAGE_SIZE"
    using cp hl by (simp_all add: MAX_NUM_BUCKETS_def)
  from write_grow_ok[OF s W(1)] obtain s1 where s1: "write_grow M s 0 ?h = Some s1" "inv s1" "cap s1 = cap s"
    "wrote (contents s) 0 ?h (contents s1)"
    by (auto elim: ok_obtain)
  have "2080 + length ?t \<le> cap s1 * WASM_PAGE_SIZE"
    using W(2) s1(3) by simp
  from write_grow_ok[OF s1(2) this] obtain s2 where s2: "write_grow M s1 2080 ?t = Some s2" "inv s2" "cap s2 = cap s1"
    "wrote (contents s1) 2080 ?t (contents s2)"
    by (auto elim: ok_obtain)
  have new: "mm_new M s b = Some (m\<lparr>mm_memory := s2\<rparr>)"
    using s1(1) s2(1) bucket_allocations_address_val[of 0]
    by (simp add: mm_new_def mm_save_header_def write_struct_def m_def mm_header_of_def)
  have len: "2080 + MAX_NUM_BUCKETS \<le> length (contents s2)"
    using wrote_range[OF s2(4)] by simp
  have page: "WASM_PAGE_SIZE \<le> length (contents s2)"
    using page_law[OF s2(2)] len by (intro dvd_imp_le) (auto simp: MAX_NUM_BUCKETS_def)
  have free: "contents s2 ! (2080 + k) = 255" if "k < MAX_NUM_BUCKETS" for k
    using subrange_wrote_same[OF s2(4) refl] nth_subrange[of k MAX_NUM_BUCKETS 2080 "contents s2"] that len
    by (simp add: UNALLOCATED_BUCKET_MARKER_def MAX_NUM_MEMORIES_def)
  have "table_at (contents s2) 0 (replicate MAX_NUM_MEMORIES [])"
    unfolding table_at_def using free owner_byte by (auto simp: filter_empty_conv)
  moreover have "subrange (contents s2) 0 2080 = ?h"
    using subrange_wrote_other[OF s2(4), of 0 2080] subrange_wrote_same[OF s1(4)] wrote_range[OF s1(4)] hl by simp
  ultimately have "mm_bytes m (contents s2)"
    using page by (simp add: mm_bytes_def m_def)
  moreover have "mm_shape m"
    using b by (simp add: mm_shape_def m_def)
  ultimately show ?thesis
    unfolding new using s1(3) s2(2,3) by simp (simp add: m_def)
qed

lemma mm_load_ok:
  assumes m: "mm_ok m"
  shows "ok (mm_load M (mm_memory m)) (\<lambda>m'. \<exists>s. m' = m\<lparr>mm_memory := s\<rparr> \<and> inv s \<and> contents s = contents (mm_memory m) \<and>
    cap s = cap (mm_memory m))"
proof -
  let ?c = "contents (mm_memory m)"
  have sh: "length (memory_sizes_in_pages m) = MAX_NUM_MEMORIES" "allocated_buckets m \<le> U16_MAX" "bucket_size_in_pages m \<le> U16_MAX"
    "length (memory_buckets m) = MAX_NUM_MEMORIES"
    using m by (auto simp: mm_shape_def MAX_NUM_BUCKETS_def)
  have len: "0 + 2080 \<le> length ?c" "2080 + MAX_NUM_BUCKETS \<le> length ?c"
    using m by (auto simp: mm_bytes_def MAX_NUM_BUCKETS_def)
  have "\<forall>i < MAX_NUM_MEMORIES. pages_of m i \<le> U64_MAX"
    using size_bytes_u64(3)[OF m] by fastforce
  then have hd: "decode_mm_header (subrange ?c 0 2080) = mm_header_of m"
    using decode_encode_mm_header[OF sh(1) _ sh(2,3)] m by (simp add: mm_bytes_def)
  from read_law[OF conjunct1[OF m] len(1)] obtain s1 where s1: "read_op M (mm_memory m) 0 2080 = Some (subrange ?c 0 2080, s1)"
    "inv s1" "contents s1 = ?c" "cap s1 = cap (mm_memory m)"
    by (auto elim!: ok_obtain)
  have "2080 + MAX_NUM_BUCKETS \<le> length (contents s1)"
    using len(2) s1(3) by simp
  from read_law[OF s1(2) this] obtain s2 where s2: "read_op M s1 2080 MAX_NUM_BUCKETS = Some (subrange ?c 2080 MAX_NUM_BUCKETS, s2)"
    "inv s2" "contents s2 = ?c" "cap s2 = cap (mm_memory m)"
    using s1(3,4) by (auto elim!: ok_obtain)
  have "load_buckets 0 (subrange ?c 2080 MAX_NUM_BUCKETS) (replicate MAX_NUM_MEMORIES []) = Some (memory_buckets m)"
    using m by (intro load_table[OF _ sh(4) len(2), where n = "allocated_buckets m"]) (simp add: mm_bytes_def)
  then have "mm_load M (mm_memory m) = Some (m\<lparr>mm_memory := s2\<rparr>)"
    using s1(1) s2(1) hd bucket_allocations_address_val[of 0]
    by (simp add: mm_load_def read_struct_def read_to_vec_def mm_header_size_val mm_header_of_def)
  with s2 show ?thesis by auto
qed

lemma mm_init_ok:
  assumes m: "mm_ok m"
  shows "ok (mm_init M (mm_memory m) b) (\<lambda>m'. \<exists>s. m' = m\<lparr>mm_memory := s\<rparr> \<and> inv s \<and> contents s = contents (mm_memory m) \<and>
    cap s = cap (mm_memory m))"
proof -
  let ?c = "contents (mm_memory m)"
  have len: "0 + 3 \<le> length ?c" "WASM_PAGE_SIZE \<le> length ?c"
    using m by (auto simp: mm_bytes_def)
  have "subrange (subrange ?c 0 2080) 0 3 = MGR_MAGIC"
    using m by (simp add: mm_bytes_def) (simp add: encode_mm_header_def mm_header_of_def MGR_MAGIC_def subrange_def)
  then have magic: "subrange ?c 0 3 = MGR_MAGIC"
    by (simp add: subrange_subrange)
  have sz: "size_op M (mm_memory m) = Some (length ?c div WASM_PAGE_SIZE)" "length ?c div WASM_PAGE_SIZE \<noteq> 0"
    using size_law[of "mm_memory m"] m len(2) by (simp_all add: div_eq_0_iff)
  from read_law[OF conjunct1[OF m] len(1)] obtain s1 where s1: "read_op M (mm_memory m) 0 3 = Some (MGR_MAGIC, s1)"
    "inv s1" "contents s1 = ?c" "cap s1 = cap (mm_memory m)"
    using magic by (auto elim!: ok_obtain)
  have "mm_ok (m\<lparr>mm_memory := s1\<rparr>)"
    using m s1 by simp
  from mm_load_ok[OF this] show ?thesis
    using sz s1 by (auto simp: mm_init_def elim!: ok_mono)
qed

end

section \<open>The system of a manager and its handles\<close>

text \<open>
  A state is the shared state and the handles that were given out; several handles may belong to the
  same memory, each with its own cache. A step takes a new handle, runs an operation of a handle that
  returns, or gives back the memory and initialises a manager on it again (an upgrade of the canister,
  which drops the handles). A panic has no step.
\<close>

datatype vop = VRead nat nat | VWrite nat bytes | VGrow nat

fun vop_exec :: "'s memory_ops \<Rightarrow> memory_id \<Rightarrow> vop \<Rightarrow> 's virtual \<Rightarrow> 's virtual option" where
  "vop_exec M i (VRead off n) v = map_option snd (read_op (VirtualMemory M i) v off n)"
| "vop_exec M i (VWrite off bs) v = write_op (VirtualMemory M i) v off bs"
| "vop_exec M i (VGrow n) v = map_option snd (grow_op (VirtualMemory M i) v n)"

type_synonym 's mm_system = "'s mm \<times> (memory_id \<times> bucket_cache) list"

inductive mm_step :: "'s memory_ops \<Rightarrow> 's mm_system \<Rightarrow> memory_id option \<Rightarrow> 's mm_system \<Rightarrow> bool"
  for M :: "'s memory_ops" where
  take_handle: "memory_id_new n = Some i \<Longrightarrow> n \<le> U8_MAX \<Longrightarrow> mm_get m i = (m', c) \<Longrightarrow>
    mm_step M (m, hs) None (m', hs @ [(i, c)])"
| use_handle: "h < length hs \<Longrightarrow> hs ! h = (i, c) \<Longrightarrow> vop_exec M i x (m, c) = Some (m', c') \<Longrightarrow>
    mm_step M (m, hs) (Some i) (m', hs[h := (i, c')])"
| upgrade: "mm_init M (mm_into_memory m) b = Some m' \<Longrightarrow> mm_step M (m, hs) None (m', [])"

inductive mm_reachable :: "'s memory_ops \<Rightarrow> 's \<Rightarrow> nat \<Rightarrow> 's mm_system \<Rightarrow> bool"
  for M :: "'s memory_ops" and s :: 's and b :: nat where
  start: "mm_init M s b = Some m \<Longrightarrow> mm_reachable M s b (m, [])"
| step: "mm_reachable M s b st \<Longrightarrow> mm_step M st lab st' \<Longrightarrow> mm_reachable M s b st'"

definition mm_system_ok :: "('s \<Rightarrow> bool) \<Rightarrow> ('s \<Rightarrow> bytes) \<Rightarrow> 's mm_system \<Rightarrow> bool" where
  "mm_system_ok minv contents st \<longleftrightarrow> minv (mm_memory (fst st)) \<and> mm_shape (fst st) \<and>
     mm_bytes (fst st) (contents (mm_memory (fst st))) \<and>
     (\<forall>(j, c) \<in> set (snd st). virtual_inv minv contents j (fst st, c))"

context memory
begin

lemma vop_framed:
  assumes "framed_inv inv contents i D H v" "vop_exec M i x v = Some v'"
  shows "framed_inv inv contents i D H v'"
  using assms
  by (cases x) (auto dest: virtual_read_framed virtual_write_framed virtual_grow_framed)

lemma mm_step_ok:
  assumes "mm_step M st lab st'" "mm_system_ok inv contents st"
  shows "mm_system_ok inv contents st' \<and> (\<forall>j < MAX_NUM_MEMORIES. lab \<noteq> Some j \<longrightarrow> vmem (fst st') j = vmem (fst st) j)"
  using assms
proof (induction rule: mm_step.induct)
  case (take_handle n i m m' c hs)
  then show ?case
    by (auto simp: mm_system_ok_def virtual_inv_def mm_get_def cache_new_ok memory_id_new_def UNALLOCATED_BUCKET_MARKER_def
        MAX_NUM_MEMORIES_def assert_that_def split: if_splits)
next
  case (use_handle h hs i c x m m' c')
  let ?H = "set hs"
  have "framed_inv inv contents i (vmem m) ?H (m, c)"
    using use_handle by (auto simp: framed_inv_def mm_system_ok_def dest!: nth_mem)
  from vop_framed[OF this use_handle(3)] show ?case
    using set_update_subset_insert[of hs h "(i, c')"]
    by (auto simp: framed_inv_def mm_system_ok_def virtual_inv_def)
next
  case (upgrade m b m' hs)
  then show ?case
    using mm_init_ok[of m b] by (auto simp: mm_system_ok_def mm_into_memory_def ok_def)
qed

lemma mm_init_fresh:
  assumes "inv s" "contents s = []" "1 \<le> cap s" "0 < b" "b \<le> U16_MAX"
  shows "ok (mm_init M s b) (\<lambda>m. mm_ok m \<and> cap (mm_memory m) = cap s \<and> bucket_size_in_pages m = b \<and> allocated_buckets m = 0 \<and>
    (\<forall>i < MAX_NUM_MEMORIES. pages_of m i = 0))"
  using mm_new_ok[OF assms(1,3-5)] size_law[OF assms(1)] assms(2) by (simp add: mm_init_def)

lemma mm_reachable_ok:
  assumes "mm_reachable M s b st" "inv s" "contents s = []" "1 \<le> cap s" "0 < b" "b \<le> U16_MAX"
  shows "mm_system_ok inv contents st"
  using assms(1)
proof (induction rule: mm_reachable.induct)
  case (start m)
  then show ?case
    using mm_init_fresh[OF assms(2-6)] by (simp add: mm_system_ok_def)
next
  case (step st lab st')
  then show ?case
    using mm_step_ok by blast
qed

end

section \<open>Properties\<close>

text \<open>A manager on a fresh vector memory, a handle to memory 3, and its growth by one page.\<close>

lemma example_system:
  "\<exists>m m'. mm_reachable VectorMemory [] 2 (m, [(3, cache_new)]) \<and>
     mm_step VectorMemory (m, [(3, cache_new)]) (Some 3) (m', [(3, cache_new)]) \<and>
     mm_reachable VectorMemory [] 2 (m', [(3, cache_new)]) \<and> length (vcontents m' (mm_memory m') 3) = WASM_PAGE_SIZE \<and>
     bucket_size_in_pages m' = 2"
proof -
  obtain m where m: "mm_init VectorMemory [] 2 = Some m" "vm.mm_ok m" "bucket_size_in_pages m = 2"
    "allocated_buckets m = 0" "\<forall>i < MAX_NUM_MEMORIES. pages_of m i = 0"
    using vm.mm_init_fresh[of "[]" 2] by (auto simp: vec_cap_def VEC_MAX_PAGES_val elim: ok_obtain)
  have "mm_step VectorMemory (m, []) None (m, [] @ [(3, cache_new)])"
    by (rule mm_step.take_handle[of 3]) (simp_all add: memory_id_new_def UNALLOCATED_BUCKET_MARKER_def MAX_NUM_MEMORIES_def mm_get_def)
  then have r: "mm_reachable VectorMemory [] 2 (m, [(3, cache_new)])"
    using mm_reachable.start[OF m(1)] mm_reachable.step by fastforce
  have "pages_of m 3 + 1 \<le> vm.vcap m 3" "3 < MAX_NUM_MEMORIES"
    using m by (simp_all add: virtual_cap_def MAX_NUM_MEMORIES_def MAX_NUM_BUCKETS_def vec_cap_def VEC_MAX_PAGES_val)
  from vm.mm_grow_ok[OF m(2) this(2,1)] obtain s where g: "mm_grow VectorMemory m 3 1 = Some (int (pages_of m 3), grown m 3 1 s)"
    by (auto elim!: ok_obtain)
  have "mm_step VectorMemory (m, [(3, cache_new)]) (Some 3) (grown m 3 1 s, [(3, cache_new)][0 := (3, cache_new)])"
    using g by (intro mm_step.use_handle[where x = "VGrow 1"]) (simp_all add: VirtualMemory_def)
  then have st: "mm_step VectorMemory (m, [(3, cache_new)]) (Some 3) (grown m 3 1 s, [(3, cache_new)])"
    by simp
  have "length (vcontents (grown m 3 1 s) s 3) = WASM_PAGE_SIZE" "bucket_size_in_pages (grown m 3 1 s) = 2"
    using m(2,3,5) by (simp_all add: grown_def mm_shape_def MAX_NUM_MEMORIES_def)
  with st r mm_reachable.step[OF r st] show ?thesis by force
qed

text \<open>
  C14. On every memory that meets the contract of the \<open>Memory\<close> trait, each of the 255 virtual memories
  of a manager meets it too: size, in-range reads and writes, growth and failed growth of a handle with
  a valid cache behave like those of a memory of its own, whatever the bucket size and the order in
  which the buckets were allocated.
\<close>

theorem virtual_memory_contract:
  assumes "memory M minv contents cap"
  shows "memory (VirtualMemory M i) (virtual_inv minv contents i) (virtual_contents contents i) (virtual_limit cap i)"
  by (rule memory.virtual_memory[OF assms])

theorem virtual_memory_contract_witness:
  "memory (VirtualMemory VectorMemory 7) (virtual_inv vec_inv (\<lambda>m. m) 7) (virtual_contents (\<lambda>m. m) 7) (virtual_limit vec_cap 7)"
  by (rule virtual_memory_contract) (rule vm.memory_axioms)

text \<open>
  C2. Isolation: in every state that a manager on a fresh memory can reach (with any number of
  handles, any interleaving of their operations, in range or not, and upgrades in between), a step that
  is not an operation of a handle of memory \<open>j\<close> leaves every byte and the size of memory \<open>j\<close> unchanged.
\<close>

theorem virtual_memories_isolated:
  assumes "memory M minv contents cap" "minv s" "contents s = []" "1 \<le> cap s" "0 < b" "b \<le> U16_MAX"
    and "mm_reachable M s b st" "mm_step M st lab st'" "j < MAX_NUM_MEMORIES" "lab \<noteq> Some j"
  shows "vcontents (fst st') (contents (mm_memory (fst st'))) j = vcontents (fst st) (contents (mm_memory (fst st))) j"
  using memory.mm_step_ok[OF assms(1,8) memory.mm_reachable_ok[OF assms(1,7,2-6)]] assms(9,10) by blast

theorem virtual_memories_isolated_witness:
  "\<exists>m m'. mm_step VectorMemory (m, [(3, cache_new)]) (Some 3) (m', [(3, cache_new)]) \<and>
     length (vcontents m' (mm_memory m') 3) = WASM_PAGE_SIZE \<and>
     vcontents m' (mm_memory m') 4 = vcontents m (mm_memory m) 4"
proof -
  obtain m m' where e: "mm_reachable VectorMemory [] 2 (m, [(3, cache_new)])"
    "mm_step VectorMemory (m, [(3, cache_new)]) (Some 3) (m', [(3, cache_new)])"
    "length (vcontents m' (mm_memory m') 3) = WASM_PAGE_SIZE"
    using example_system by blast
  have "vcontents m' (mm_memory m') 4 = vcontents m (mm_memory m) 4"
    using virtual_memories_isolated[OF vm.memory_axioms _ _ _ _ _ e(1,2), of 4]
    by (simp add: vec_cap_def VEC_MAX_PAGES_val MAX_NUM_MEMORIES_def)
  with e show ?thesis by blast
qed

text \<open>
  C19. In every reachable state of a manager: at most 32768 buckets are allocated and they fit into the
  memory below; every memory has exactly as many buckets as its pages need; the buckets of a memory are
  allocated and pairwise different; and no bucket belongs to two memories.
\<close>

theorem manager_invariant:
  assumes M: "memory M minv contents cap" and "minv s" "contents s = []" "1 \<le> cap s" "0 < b" "b \<le> U16_MAX"
    and "mm_reachable M s b (m, hs)" "i < MAX_NUM_MEMORIES"
  shows "allocated_buckets m \<le> MAX_NUM_BUCKETS \<and>
    (1 + bucket_size_in_pages m * allocated_buckets m) * WASM_PAGE_SIZE \<le> length (contents (mm_memory m)) \<and>
    length (memory_buckets m ! i) = (memory_sizes_in_pages m ! i + bucket_size_in_pages m - 1) div bucket_size_in_pages m \<and>
    distinct (memory_buckets m ! i) \<and> (\<forall>k \<in> set (memory_buckets m ! i). k < allocated_buckets m) \<and>
    (\<forall>j < MAX_NUM_MEMORIES. j \<noteq> i \<longrightarrow> set (memory_buckets m ! i) \<inter> set (memory_buckets m ! j) = {})"
proof -
  have ok: "mm_shape m" "mm_bytes m (contents (mm_memory m))"
    using memory.mm_reachable_ok[OF M assms(7,2-6)] by (simp_all add: mm_system_ok_def)
  then have t: "table_at (contents (mm_memory m)) (allocated_buckets m) (memory_buckets m)"
    by (simp add: mm_bytes_def)
  from ok show ?thesis
    using table_buckets[OF t assms(8)] table_disjoint[OF t assms(8)] assms(8) by (simp add: mm_shape_def mm_bytes_def)
qed

theorem manager_invariant_witness:
  "\<exists>m hs. mm_reachable VectorMemory [] 2 (m, hs) \<and> length (vcontents m (mm_memory m) 3) = WASM_PAGE_SIZE \<and>
     set (memory_buckets m ! 3) \<inter> set (memory_buckets m ! 4) = {} \<and> allocated_buckets m \<le> MAX_NUM_BUCKETS"
proof -
  obtain m where e: "mm_reachable VectorMemory [] 2 (m, [(3, cache_new)])"
    "length (vcontents m (mm_memory m) 3) = WASM_PAGE_SIZE"
    using example_system by blast
  have "set (memory_buckets m ! 3) \<inter> set (memory_buckets m ! 4) = {} \<and> allocated_buckets m \<le> MAX_NUM_BUCKETS"
    using manager_invariant[OF vm.memory_axioms _ _ _ _ _ e(1), of 3]
    by (simp add: vec_cap_def VEC_MAX_PAGES_val MAX_NUM_MEMORIES_def)
  with e show ?thesis by blast
qed

text \<open>
  C20. Reload: a manager that is initialised, with any bucket size, on the memory of a manager in a
  reachable state returns, and has the state of that manager: the same bucket size, sizes and buckets,
  and the same contents of every virtual memory.
\<close>

theorem manager_survives_upgrade:
  assumes M: "memory M minv contents cap" and "minv s" "contents s = []" "1 \<le> cap s" "0 < b" "b \<le> U16_MAX"
    and "mm_reachable M s b (m, hs)"
  shows "ok (mm_init M (mm_into_memory m) b') (\<lambda>m'. bucket_size_in_pages m' = bucket_size_in_pages m \<and>
    allocated_buckets m' = allocated_buckets m \<and> memory_sizes_in_pages m' = memory_sizes_in_pages m \<and>
    memory_buckets m' = memory_buckets m \<and>
    (\<forall>j. vcontents m' (contents (mm_memory m')) j = vcontents m (contents (mm_memory m)) j))"
  using memory.mm_init_ok[OF M, of m b'] memory.mm_reachable_ok[OF M assms(7,2-6)]
  by (auto simp: mm_system_ok_def mm_into_memory_def elim!: ok_mono)

theorem manager_survives_upgrade_witness:
  "\<exists>m hs. mm_reachable VectorMemory [] 2 (m, hs) \<and> length (vcontents m (mm_memory m) 3) = WASM_PAGE_SIZE \<and>
     ok (mm_init VectorMemory (mm_into_memory m) 128) (\<lambda>m'. bucket_size_in_pages m' = bucket_size_in_pages m \<and>
       vcontents m' (mm_memory m') 3 = vcontents m (mm_memory m) 3)"
proof -
  obtain m where e: "mm_reachable VectorMemory [] 2 (m, [(3, cache_new)])"
    "length (vcontents m (mm_memory m) 3) = WASM_PAGE_SIZE"
    using example_system by blast
  with manager_survives_upgrade[OF vm.memory_axioms _ _ _ _ _ e(1), of 128] show ?thesis
    by (force simp: vec_cap_def VEC_MAX_PAGES_val elim!: ok_mono)
qed

text \<open>
  C39. Beyond the end: once a bucket is cached, a write that lies inside the bucket returns, also when it
  passes the end of the virtual memory, where the trait asks for a panic.
\<close>

theorem cached_write_beyond_size:
  assumes v: "virtual_inv vec_inv (\<lambda>m. m) i (m, cache)"
    and cached: "bc_bucket cache = \<lparr>vs_address = a, vs_length = n\<rparr>" "n \<noteq> 0"
    and inside: "a \<le> off" "off + length src \<le> a + n"
    and beyond: "memory_size m i = Some p" "p * WASM_PAGE_SIZE < off + length src"
  shows "write_op (VirtualMemory VectorMemory i) (m, cache) off src \<noteq> None"
proof -
  have m: "vm.mm_ok m" "i < MAX_NUM_MEMORIES" and c: "cache_ok m i cache"
    using v by (auto simp: virtual_inv_def)
  from c cached obtain k where k: "k < length (buckets_of m i)" "a = k * bucket_bytes m" "n = bucket_bytes m"
    "bc_real_address cache = WASM_PAGE_SIZE + bucket_bytes m * (buckets_of m i ! k)"
    by (auto simp: cache_ok_def)
  have b: "buckets_of m i ! k < allocated_buckets m"
    using m k(1) table_buckets(2) by (auto simp: mm_bytes_def)
  have inb: "WASM_PAGE_SIZE + bucket_bytes m * (buckets_of m i ! k) + bucket_bytes m \<le> length (mm_memory m)"
    using m b by (intro buckets_in_memory) simp_all
  have le: "bc_real_address cache + (off - a) + length src \<le> length (mm_memory m)"
    using inside k inb by linarith
  have max: "length (mm_memory m) \<le> U64_MAX"
    using m vm.length_le_max[of "mm_memory m"] by simp
  have "(k + 1) * bucket_bytes m \<le> length (buckets_of m i) * bucket_bytes m"
    using k(1) by (intro mult_le_mono1) simp
  then have "a + n \<le> U64_MAX"
    using vm.size_bytes_u64(2)[OF m] k(2,3) by simp
  then have "cache_get cache \<lparr>vs_address = off, vs_length = length src\<rparr> = Some (Some (bc_real_address cache + (off - a)))"
    using inside le max by (simp add: cache_get_def contains_segment_def cached u64_add_def u64_sub_def)
  then show ?thesis
    using le max by (simp add: VirtualMemory_def mm_write_def) (simp add: VectorMemory_def vec_write_def u64_add_def)
qed

theorem cached_write_beyond_size_witness:
  "\<exists>m cache. virtual_inv vec_inv (\<lambda>m. m) 3 (m, cache) \<and> memory_size m 3 = Some 1 \<and>
     write_op (VirtualMemory VectorMemory 3) (m, cache) 65536 [7] \<noteq> None"
proof -
  obtain m where e: "mm_reachable VectorMemory [] 2 (m, [(3, cache_new)])"
    "length (vcontents m (mm_memory m) 3) = WASM_PAGE_SIZE" "bucket_size_in_pages m = 2"
    using example_system by blast
  let ?cache = "\<lparr>bc_bucket = \<lparr>vs_address = 0 * bucket_bytes m, vs_length = bucket_bytes m\<rparr>,
     bc_real_address = WASM_PAGE_SIZE + bucket_bytes m * (buckets_of m 3 ! 0)\<rparr>"
  have m: "vm.mm_ok m" "pages_of m 3 = 1" "3 < MAX_NUM_MEMORIES"
    using vm.mm_reachable_ok[OF e(1)] e(2) by (simp_all add: mm_system_ok_def vec_cap_def VEC_MAX_PAGES_val MAX_NUM_MEMORIES_def)
  then have sz: "memory_size m 3 = Some 1" "0 < length (buckets_of m 3)"
    using e(3) by (simp_all add: memory_size_def mm_shape_def)
  have v: "virtual_inv vec_inv (\<lambda>m. m) 3 (m, ?cache)"
    using m vm.cached_bucket_ok[OF sz(2)] by (simp add: virtual_inv_def)
  from cached_write_beyond_size[OF v, of 0 131072 65536 "[7]" 1] sz e(3)
  have "write_op (VirtualMemory VectorMemory 3) (m, ?cache) 65536 [7] \<noteq> None"
    by simp
  with v sz(1) show ?thesis by blast
qed

end
