(* ===== verification/Allocator.thy ===== *)
theory Allocator
  imports Memory Types
begin

text \<open>
  The chunk allocator of \<open>src/src/btreemap/allocator.rs\<close>: chunks of one size, each with a header, and a
  linked list of free chunks whose last element is the first chunk that was never used.

  The contract that the B-tree relies on is the locale \<open>chunk_pool\<close>: a set of addresses in use and the
  number of chunks that can still be handed out. The main results: \<open>allocate\<close> returns a chunk that is not in use and keeps the data of the chunks that
  are; \<open>deallocate\<close> gives a chunk back and panics on a chunk that is free; and an allocator that is
  loaded from its memory has the state of the allocator that wrote it.
\<close>

section \<open>The code\<close>

definition ALLOCATOR_LAYOUT_VERSION :: nat where "ALLOCATOR_LAYOUT_VERSION = 1"
definition CHUNK_LAYOUT_VERSION :: nat where "CHUNK_LAYOUT_VERSION = 1"
definition ALLOCATOR_MAGIC :: bytes where "ALLOCATOR_MAGIC = [66, 84, 65]"
definition CHUNK_MAGIC :: bytes where "CHUNK_MAGIC = [67, 72, 75]"

record 's allocator =
  al_header_addr :: address
  al_allocation_size :: nbytes
  al_num_allocated_chunks :: nat
  al_free_list_head :: address
  al_memory :: 's

record allocator_header =
  ah_magic :: bytes
  ah_version :: nat
  ah_alignment :: bytes
  ah_allocation_size :: nbytes
  ah_num_allocated_chunks :: nat
  ah_free_list_head :: address
  ah_buffer :: bytes

text \<open>\<open>#[repr(C, packed)]\<close>: the fields one after the other, little-endian.\<close>

definition allocator_header_size :: nbytes where
  "allocator_header_size = 3 + 1 + 4 + 8 + 8 + 8 + 16"

definition encode_allocator_header :: "allocator_header \<Rightarrow> bytes" where
  "encode_allocator_header h = ah_magic h @ to_le_bytes 1 (ah_version h) @ ah_alignment h @
     to_le_bytes 8 (ah_allocation_size h) @ to_le_bytes 8 (ah_num_allocated_chunks h) @
     to_le_bytes 8 (ah_free_list_head h) @ ah_buffer h"

definition decode_allocator_header :: "bytes \<Rightarrow> allocator_header" where
  "decode_allocator_header bs =
     \<lparr>ah_magic = subrange bs 0 3, ah_version = from_le_bytes (subrange bs 3 1), ah_alignment = subrange bs 4 4,
      ah_allocation_size = from_le_bytes (subrange bs 8 8),
      ah_num_allocated_chunks = from_le_bytes (subrange bs 16 8),
      ah_free_list_head = from_le_bytes (subrange bs 24 8), ah_buffer = subrange bs 32 16\<rparr>"

record chunk_header =
  ch_magic :: bytes
  ch_version :: nat
  ch_allocated :: bool
  ch_alignment :: bytes
  ch_next :: address

definition chunk_header_size :: nbytes where
  "chunk_header_size = 3 + 1 + 1 + 3 + 8"

definition encode_chunk_header :: "chunk_header \<Rightarrow> bytes" where
  "encode_chunk_header h = ch_magic h @ to_le_bytes 1 (ch_version h) @ [if ch_allocated h then 1 else 0] @
     ch_alignment h @ to_le_bytes 8 (ch_next h)"

text \<open>A \<open>bool\<close> is stored as the byte 0 or 1; no other byte is ever stored.\<close>

definition decode_chunk_header :: "bytes \<Rightarrow> chunk_header" where
  "decode_chunk_header bs =
     \<lparr>ch_magic = subrange bs 0 3, ch_version = from_le_bytes (subrange bs 3 1), ch_allocated = (bs ! 4 = 1),
      ch_alignment = subrange bs 5 3, ch_next = from_le_bytes (subrange bs 8 8)\<rparr>"

definition chunk_null :: chunk_header where
  "chunk_null = \<lparr>ch_magic = CHUNK_MAGIC, ch_version = CHUNK_LAYOUT_VERSION, ch_allocated = False,
     ch_alignment = replicate 3 0, ch_next = NULL\<rparr>"

definition chunk_save :: "chunk_header \<Rightarrow> address \<Rightarrow> 's memory_ops \<Rightarrow> 's \<Rightarrow> 's option" where
  "chunk_save h addr M s = write_struct encode_chunk_header h M s addr"

definition chunk_load :: "address \<Rightarrow> 's memory_ops \<Rightarrow> 's \<Rightarrow> (chunk_header \<times> 's) option" where
  "chunk_load addr M s = do {
     (header, s) \<leftarrow> read_struct chunk_header_size decode_chunk_header M s addr;
     assert_that (ch_magic header = CHUNK_MAGIC);
     assert_that (ch_version header = CHUNK_LAYOUT_VERSION);
     Some (header, s) }"

definition allocator_save :: "'s memory_ops \<Rightarrow> 's allocator \<Rightarrow> 's allocator option" where
  "allocator_save M a = do {
     let header = \<lparr>ah_magic = ALLOCATOR_MAGIC, ah_version = ALLOCATOR_LAYOUT_VERSION, ah_alignment = replicate 4 0,
       ah_allocation_size = al_allocation_size a, ah_num_allocated_chunks = al_num_allocated_chunks a,
       ah_free_list_head = al_free_list_head a, ah_buffer = replicate 16 0\<rparr>;
     s \<leftarrow> write_struct encode_allocator_header header M (al_memory a) (al_header_addr a);
     Some (a\<lparr>al_memory := s\<rparr>) }"

definition allocator_clear :: "'s memory_ops \<Rightarrow> 's allocator \<Rightarrow> 's allocator option" where
  "allocator_clear M a = do {
     head \<leftarrow> addr_add (al_header_addr a) allocator_header_size;
     let a = a\<lparr>al_free_list_head := head\<rparr>;
     s \<leftarrow> chunk_save chunk_null (al_free_list_head a) M (al_memory a);
     let a = a\<lparr>al_memory := s, al_num_allocated_chunks := 0\<rparr>;
     allocator_save M a }"

definition allocator_new :: "'s memory_ops \<Rightarrow> 's \<Rightarrow> address \<Rightarrow> nbytes \<Rightarrow> 's allocator option" where
  "allocator_new M s addr allocation_size =
     allocator_clear M \<lparr>al_header_addr = addr, al_allocation_size = allocation_size, al_num_allocated_chunks = 0,
       al_free_list_head = NULL, al_memory = s\<rparr>"

definition allocator_load :: "'s memory_ops \<Rightarrow> 's \<Rightarrow> address \<Rightarrow> 's allocator option" where
  "allocator_load M s addr = do {
     (header, s) \<leftarrow> read_struct allocator_header_size decode_allocator_header M s addr;
     assert_that (ah_magic header = ALLOCATOR_MAGIC);
     assert_that (ah_version header = ALLOCATOR_LAYOUT_VERSION);
     Some \<lparr>al_header_addr = addr, al_allocation_size = ah_allocation_size header,
       al_num_allocated_chunks = ah_num_allocated_chunks header,
       al_free_list_head = ah_free_list_head header, al_memory = s\<rparr> }"

definition chunk_size :: "'s allocator \<Rightarrow> nbytes option" where
  "chunk_size a = bytes_add (al_allocation_size a) chunk_header_size"

definition allocate :: "'s memory_ops \<Rightarrow> 's allocator \<Rightarrow> (address \<times> 's allocator) option" where
  "allocate M a = do {
     let chunk_addr = al_free_list_head a;
     (chunk, s) \<leftarrow> chunk_load chunk_addr M (al_memory a);
     assert_that (\<not> ch_allocated chunk);
     let chunk = chunk\<lparr>ch_allocated := True\<rparr>;
     s \<leftarrow> chunk_save chunk chunk_addr M s;
     let a = a\<lparr>al_memory := s\<rparr>;
     a \<leftarrow> (if ch_next chunk \<noteq> NULL then Some (a\<lparr>al_free_list_head := ch_next chunk\<rparr>)
          else do {
            size \<leftarrow> chunk_size a;
            head \<leftarrow> addr_add (al_free_list_head a) size;
            s \<leftarrow> chunk_save chunk_null head M (al_memory a);
            Some (a\<lparr>al_free_list_head := head, al_memory := s\<rparr>) });
     num \<leftarrow> u64_add (al_num_allocated_chunks a) 1;
     a \<leftarrow> allocator_save M (a\<lparr>al_num_allocated_chunks := num\<rparr>);
     addr \<leftarrow> addr_add chunk_addr chunk_header_size;
     Some (addr, a) }"

definition deallocate :: "'s memory_ops \<Rightarrow> 's allocator \<Rightarrow> address \<Rightarrow> 's allocator option" where
  "deallocate M a address = do {
     chunk_addr \<leftarrow> addr_sub address chunk_header_size;
     (chunk, s) \<leftarrow> chunk_load chunk_addr M (al_memory a);
     assert_that (ch_allocated chunk);
     let chunk = chunk\<lparr>ch_allocated := False, ch_next := al_free_list_head a\<rparr>;
     s \<leftarrow> chunk_save chunk chunk_addr M s;
     let a = a\<lparr>al_memory := s, al_free_list_head := chunk_addr\<rparr>;
     num \<leftarrow> u64_sub (al_num_allocated_chunks a) 1;
     allocator_save M (a\<lparr>al_num_allocated_chunks := num\<rparr>) }"

definition allocator_into_memory :: "'s allocator \<Rightarrow> 's" where
  "allocator_into_memory a = al_memory a"

section \<open>The layout of the chunks\<close>

text \<open>Chunk \<open>k\<close> of an allocator with header at \<open>H\<close> and \<open>sz\<close> bytes per chunk.\<close>

abbreviation chunk_at :: "address \<Rightarrow> nbytes \<Rightarrow> nat \<Rightarrow> address" where
  "chunk_at H sz k \<equiv> H + 48 + (sz + 16) * k"

definition chunk_hdr :: "bool \<Rightarrow> address \<Rightarrow> chunk_header" where
  "chunk_hdr b nx = \<lparr>ch_magic = CHUNK_MAGIC, ch_version = CHUNK_LAYOUT_VERSION, ch_allocated = b,
     ch_alignment = replicate 3 0, ch_next = nx\<rparr>"

definition alloc_hdr :: "'s allocator \<Rightarrow> allocator_header" where
  "alloc_hdr a = \<lparr>ah_magic = ALLOCATOR_MAGIC, ah_version = ALLOCATOR_LAYOUT_VERSION, ah_alignment = replicate 4 0,
     ah_allocation_size = al_allocation_size a, ah_num_allocated_chunks = al_num_allocated_chunks a,
     ah_free_list_head = al_free_list_head a, ah_buffer = replicate 16 0\<rparr>"

lemma header_sizes [simp]: "allocator_header_size = 48" "chunk_header_size = 16"
  by (simp_all add: allocator_header_size_def chunk_header_size_def)

lemma length_encodings [simp]:
  "length (encode_chunk_header (chunk_hdr b nx)) = 16" "length (encode_allocator_header (alloc_hdr a)) = 48"
  by (simp_all add: encode_chunk_header_def chunk_hdr_def CHUNK_MAGIC_def encode_allocator_header_def alloc_hdr_def
      ALLOCATOR_MAGIC_def del: to_le_bytes.simps)

lemma decode_chunk_hdr:
  assumes "nx \<le> U64_MAX"
  shows "decode_chunk_header (encode_chunk_header (chunk_hdr b nx)) = chunk_hdr b nx"
proof -
  have "from_le_bytes (to_le_bytes 8 nx) = nx" "from_le_bytes (to_le_bytes 1 CHUNK_LAYOUT_VERSION) = CHUNK_LAYOUT_VERSION"
    using assms by (simp_all add: from_to_le_bytes CHUNK_LAYOUT_VERSION_def del: to_le_bytes.simps)
  then show ?thesis
    by (simp add: decode_chunk_header_def encode_chunk_header_def chunk_hdr_def CHUNK_MAGIC_def subrange_def nth_append
        del: to_le_bytes.simps)
qed

lemma decode_alloc_hdr:
  assumes "al_allocation_size a \<le> U64_MAX" "al_num_allocated_chunks a \<le> U64_MAX" "al_free_list_head a \<le> U64_MAX"
  shows "decode_allocator_header (encode_allocator_header (alloc_hdr a)) = alloc_hdr a"
proof -
  have "from_le_bytes (to_le_bytes 8 (al_allocation_size a)) = al_allocation_size a"
    "from_le_bytes (to_le_bytes 8 (al_num_allocated_chunks a)) = al_num_allocated_chunks a"
    "from_le_bytes (to_le_bytes 8 (al_free_list_head a)) = al_free_list_head a"
    "from_le_bytes (to_le_bytes 1 ALLOCATOR_LAYOUT_VERSION) = ALLOCATOR_LAYOUT_VERSION"
    using assms by (simp_all add: from_to_le_bytes ALLOCATOR_LAYOUT_VERSION_def del: to_le_bytes.simps)
  then show ?thesis
    by (simp add: decode_allocator_header_def encode_allocator_header_def alloc_hdr_def ALLOCATOR_MAGIC_def subrange_def
        del: to_le_bytes.simps)
qed

lemma chunk_order: "k < j \<Longrightarrow> chunk_at H sz k + sz + 16 \<le> chunk_at H sz j"
  using mult_le_mono2[of "Suc k" j "sz + 16"] by simp

lemma chunk_apart: "j \<noteq> k \<Longrightarrow> chunk_at H sz j + 16 \<le> chunk_at H sz k \<or> chunk_at H sz k + 16 \<le> chunk_at H sz j"
  using chunk_order[of j k H sz] chunk_order[of k j H sz] by (cases j k rule: linorder_cases) auto

lemma chunk_inj: "chunk_at H sz j = chunk_at H sz k \<Longrightarrow> j = k"
  using chunk_apart[of j k H sz] by (cases "j = k") auto

text \<open>The free list as it is linked in memory.\<close>

definition next_of :: "address \<Rightarrow> nbytes \<Rightarrow> nat list \<Rightarrow> address" where
  "next_of H sz ks = (case ks of [] \<Rightarrow> NULL | k # _ \<Rightarrow> chunk_at H sz k)"

primrec free_chain :: "bytes \<Rightarrow> address \<Rightarrow> nbytes \<Rightarrow> nat list \<Rightarrow> bool" where
  "free_chain c H sz [] \<longleftrightarrow> True"
| "free_chain c H sz (k # ks) \<longleftrightarrow>
     subrange c (chunk_at H sz k) 16 = encode_chunk_header (chunk_hdr False (next_of H sz ks)) \<and> free_chain c H sz ks"

lemma free_chain_cong:
  "free_chain c H sz ks \<Longrightarrow> (\<And>k. k \<in> set ks \<Longrightarrow> subrange c' (chunk_at H sz k) 16 = subrange c (chunk_at H sz k) 16) \<Longrightarrow>
   free_chain c' H sz ks"
  by (induction ks) auto

text \<open>
  The invariant: the chunks \<open>fs\<close> were given back and are free again, chunk \<open>n\<close> and those after it were
  never used, all others are allocated.
\<close>

definition alloc_inv :: "bytes \<Rightarrow> 's allocator \<Rightarrow> nat list \<Rightarrow> nat \<Rightarrow> bool" where
  "alloc_inv c a fs n \<longleftrightarrow> (let H = al_header_addr a; sz = al_allocation_size a in
     sz \<le> U64_MAX \<and> distinct fs \<and> (\<forall>k \<in> set fs. k < n) \<and>
     chunk_at H sz n + 16 \<le> length c \<and> free_chain c H sz (fs @ [n]) \<and>
     (\<forall>k < n. k \<notin> set fs \<longrightarrow>
        (\<exists>nx \<le> U64_MAX. subrange c (chunk_at H sz k) 16 = encode_chunk_header (chunk_hdr True nx))) \<and>
     al_num_allocated_chunks a = n - length fs \<and> al_free_list_head a = next_of H sz (fs @ [n]) \<and>
     subrange c H 48 = encode_allocator_header (alloc_hdr a))"

lemma alloc_invD:
  assumes "alloc_inv c a fs n"
  defines "H \<equiv> al_header_addr a" and "sz \<equiv> al_allocation_size a"
  shows "sz \<le> U64_MAX" "distinct fs" "\<forall>k \<in> set fs. k < n" "chunk_at H sz n + 16 \<le> length c"
    "free_chain c H sz (fs @ [n])"
    "\<And>k. k < n \<Longrightarrow> k \<notin> set fs \<Longrightarrow> \<exists>nx \<le> U64_MAX. subrange c (chunk_at H sz k) 16 = encode_chunk_header (chunk_hdr True nx)"
    "al_num_allocated_chunks a = n - length fs" "al_free_list_head a = next_of H sz (fs @ [n])"
    "subrange c H 48 = encode_allocator_header (alloc_hdr a)"
  using assms(1) unfolding alloc_inv_def H_def sz_def Let_def by blast+

text \<open>The addresses that are in use: those \<open>allocate\<close> returned and \<open>deallocate\<close> did not take back.\<close>

definition in_use :: "'s allocator \<Rightarrow> nat list \<Rightarrow> nat \<Rightarrow> address set" where
  "in_use a fs n = (\<lambda>k. chunk_at (al_header_addr a) (al_allocation_size a) k + 16) ` ({..<n} - set fs)"

lemma free_count: "distinct fs \<Longrightarrow> \<forall>k \<in> set fs. k < n \<Longrightarrow> length fs \<le> (n :: nat)"
  using card_mono[of "{..<n}" "set fs"] by (auto simp: distinct_card)

lemma card_in_use:
  assumes "alloc_inv c a fs n"
  shows "finite (in_use a fs n)" "card (in_use a fs n) = al_num_allocated_chunks a"
proof -
  have "inj_on (\<lambda>k. chunk_at (al_header_addr a) (al_allocation_size a) k + 16) ({..<n} - set fs)"
    by (auto simp: inj_on_def)
  moreover have "card ({..<n} - set fs) = n - length fs"
    using assms by (subst card_Diff_subset) (auto simp: alloc_inv_def Let_def distinct_card)
  ultimately show "card (in_use a fs n) = al_num_allocated_chunks a"
    using assms by (simp add: in_use_def card_image alloc_inv_def Let_def)
qed (simp add: in_use_def)

section \<open>Changes of the memory\<close>

text \<open>What lies below the allocator and the data of the chunks: everything that is not the allocator's own.\<close>

definition data_kept :: "address \<Rightarrow> nbytes \<Rightarrow> bytes \<Rightarrow> bytes \<Rightarrow> bool" where
  "data_kept H sz c c' \<longleftrightarrow> length c \<le> length c' \<and>
     (\<forall>x < length c. x < H \<or> (\<exists>k j. x = chunk_at H sz k + 16 + j \<and> j < sz) \<longrightarrow> c' ! x = c ! x)"

lemma data_kept_trans [trans]: "data_kept H sz c c1 \<Longrightarrow> data_kept H sz c1 c2 \<Longrightarrow> data_kept H sz c c2"
  by (auto simp: data_kept_def)

lemma data_kept_chunk:
  assumes "wrote c (chunk_at H sz k) bs c'" "length bs = 16"
  shows "data_kept H sz c c'"
  unfolding data_kept_def
proof (intro conjI allI impI)
  fix x
  assume x: "x < length c" "x < H \<or> (\<exists>k j. x = chunk_at H sz k + 16 + j \<and> j < sz)"
  have "\<not> (chunk_at H sz k \<le> x \<and> x < chunk_at H sz k + 16)"
  proof
    assume r: "chunk_at H sz k \<le> x \<and> x < chunk_at H sz k + 16"
    with x(2) obtain i j where j: "x = chunk_at H sz i + 16 + j" "j < sz"
      by auto
    then have "(sz + 16) * i + (16 + j) = (sz + 16) * k + (x - chunk_at H sz k)"
      using r by linarith
    moreover have "x - chunk_at H sz k < sz + 16" "x - chunk_at H sz k < 16"
      using r by linarith+
    ultimately show False
      using block_decomp[of "16 + j" "sz + 16" "x - chunk_at H sz k" i k] j(2) by simp
  qed
  with nth_wrote_other[OF assms(1) x(1)] assms(2) show "c' ! x = c ! x" by auto
qed (rule wrote_length[OF assms(1)])

lemma data_kept_header:
  assumes "wrote c H bs c'" "length bs = 48"
  shows "data_kept H sz c c'"
  using assms nth_wrote_other[OF assms(1)] wrote_length[OF assms(1)] by (auto simp: data_kept_def)

lemma data_kept_subrange:
  assumes "data_kept H sz c c'" "chunk_at H sz k + 16 + off + len \<le> length c" "off + len \<le> sz"
  shows "subrange c' (chunk_at H sz k + 16 + off) len = subrange c (chunk_at H sz k + 16 + off) len"
proof (rule subrange_eqI)
  fix x
  assume x: "chunk_at H sz k + 16 + off \<le> x" "x < chunk_at H sz k + 16 + off + len"
  then have "x = chunk_at H sz k + 16 + (x - (chunk_at H sz k + 16))" "x - (chunk_at H sz k + 16) < sz" "x < length c"
    using assms(2,3) by linarith+
  then show "c' ! x = c ! x"
    using assms(1) unfolding data_kept_def by blast
qed (use assms in \<open>auto simp: data_kept_def\<close>)

text \<open>A chunk header that is written does not touch the others, nor does the header of the allocator.\<close>

lemma chunk_wrote_other:
  assumes "wrote c (chunk_at H sz k) bs c'" "length bs = 16" "j \<noteq> k" "chunk_at H sz j + 16 \<le> length c"
  shows "subrange c' (chunk_at H sz j) 16 = subrange c (chunk_at H sz j) 16"
  using chunk_apart[OF assms(3), of H sz] assms by (intro subrange_wrote_other[OF assms(1)]) auto

lemma header_wrote_chunk:
  assumes "wrote c H bs c'" "length bs = 48" "chunk_at H sz j + 16 \<le> length c"
  shows "subrange c' (chunk_at H sz j) 16 = subrange c (chunk_at H sz j) 16"
  using assms by (intro subrange_wrote_other[OF assms(1)]) auto

lemma chunk_le: "k \<le> n \<Longrightarrow> chunk_at H sz n + 16 \<le> len \<Longrightarrow> chunk_at H sz k + 16 \<le> len"
  using mult_le_mono2[of k n "sz + 16"] by linarith

lemma alloc_inv_intro:
  assumes "al_allocation_size a \<le> U64_MAX" "distinct fs" "\<forall>k \<in> set fs. k < n"
    and len: "chunk_at (al_header_addr a) (al_allocation_size a) n + 16 \<le> length c"
    and fc: "free_chain c (al_header_addr a) (al_allocation_size a) (fs @ [n])"
    and used: "\<And>k. k < n \<Longrightarrow> k \<notin> set fs \<Longrightarrow> \<exists>nx \<le> U64_MAX.
      subrange c (chunk_at (al_header_addr a) (al_allocation_size a) k) 16 = encode_chunk_header (chunk_hdr True nx)"
    and "al_num_allocated_chunks a = n - length fs"
    and "al_free_list_head a = next_of (al_header_addr a) (al_allocation_size a) (fs @ [n])"
    and w: "wrote c (al_header_addr a) (encode_allocator_header (alloc_hdr a)) c'"
  shows "alloc_inv c' a fs n"
proof -
  have same: "subrange c' (chunk_at (al_header_addr a) (al_allocation_size a) k) 16 =
      subrange c (chunk_at (al_header_addr a) (al_allocation_size a) k) 16" if "k \<le> n" for k
    using chunk_le[OF that len] by (intro header_wrote_chunk[OF w]) simp_all
  have "free_chain c' (al_header_addr a) (al_allocation_size a) (fs @ [n])"
    using assms(3) by (intro free_chain_cong[OF fc] same) auto
  moreover have "length c \<le> length c'" "subrange c' (al_header_addr a) 48 = encode_allocator_header (alloc_hdr a)"
    using wrote_length[OF w] subrange_wrote_same[OF w] by simp_all
  ultimately show ?thesis
    using assms same by (auto simp: alloc_inv_def Let_def)
qed

lemma alloc_inv_pop:
  assumes i: "alloc_inv c a (k # fs) n" and nx: "nx \<le> U64_MAX"
    and w1: "wrote c (chunk_at (al_header_addr a) (al_allocation_size a) k) (encode_chunk_header (chunk_hdr True nx)) c1"
    and a': "a' = a\<lparr>al_memory := s, al_free_list_head := next_of (al_header_addr a) (al_allocation_size a) (fs @ [n]),
      al_num_allocated_chunks := al_num_allocated_chunks a + 1\<rparr>"
    and w2: "wrote c1 (al_header_addr a) (encode_allocator_header (alloc_hdr a')) c2"
  shows "alloc_inv c2 a' fs n"
proof -
  let ?H = "al_header_addr a" and ?sz = "al_allocation_size a"
  have f: "al_header_addr a' = ?H" "al_allocation_size a' = ?sz" "al_num_allocated_chunks a' = al_num_allocated_chunks a + 1"
    "al_free_list_head a' = next_of ?H ?sz (fs @ [n])"
    by (simp_all add: a')
  have k: "k < n" "k \<notin> set fs" and len: "chunk_at ?H ?sz n + 16 \<le> length c" and lf: "length (k # fs) \<le> n"
    using i free_count[of "k # fs" n] by (auto simp: alloc_inv_def Let_def)
  have other: "subrange c1 (chunk_at ?H ?sz j) 16 = subrange c (chunk_at ?H ?sz j) 16" if "j \<noteq> k" "j \<le> n" for j
    using that chunk_le[OF that(2) len] by (intro chunk_wrote_other[OF w1]) simp_all
  have "free_chain c1 ?H ?sz (fs @ [n])"
  proof (rule free_chain_cong)
    show "free_chain c ?H ?sz (fs @ [n])"
      using alloc_invD(5)[OF i] by simp
    fix j
    assume "j \<in> set (fs @ [n])"
    then have "j \<noteq> k" "j \<le> n"
      using k alloc_invD(3)[OF i] by auto
    then show "subrange c1 (chunk_at ?H ?sz j) 16 = subrange c (chunk_at ?H ?sz j) 16"
      by (rule other)
  qed
  moreover have "\<exists>nx \<le> U64_MAX. subrange c1 (chunk_at ?H ?sz j) 16 = encode_chunk_header (chunk_hdr True nx)"
    if "j < n" "j \<notin> set fs" for j
    using i nx subrange_wrote_same[OF w1] other[of j] that by (cases "j = k") (auto simp: alloc_inv_def Let_def)
  ultimately show ?thesis
    using alloc_invD[OF i] w2 wrote_length[OF w1] lf f by (intro alloc_inv_intro[where c = c1]) simp_all
qed

lemma alloc_inv_extend:
  assumes i: "alloc_inv c a [] n"
    and w1: "wrote c (chunk_at (al_header_addr a) (al_allocation_size a) n) (encode_chunk_header (chunk_hdr True NULL)) c1"
    and w2: "wrote c1 (chunk_at (al_header_addr a) (al_allocation_size a) (n + 1)) (encode_chunk_header (chunk_hdr False NULL)) c2"
    and a': "a' = a\<lparr>al_free_list_head := chunk_at (al_header_addr a) (al_allocation_size a) (n + 1), al_memory := s,
      al_num_allocated_chunks := al_num_allocated_chunks a + 1\<rparr>"
    and w3: "wrote c2 (al_header_addr a) (encode_allocator_header (alloc_hdr a')) c3"
  shows "alloc_inv c3 a' [] (n + 1)"
proof -
  let ?H = "al_header_addr a" and ?sz = "al_allocation_size a"
  have f: "al_header_addr a' = ?H" "al_allocation_size a' = ?sz" "al_num_allocated_chunks a' = al_num_allocated_chunks a + 1"
    "al_free_list_head a' = chunk_at ?H ?sz (n + 1)"
    by (simp_all add: a')
  have len: "chunk_at ?H ?sz n + 16 \<le> length c" "length c \<le> length c1"
    using i wrote_length[OF w1] by (auto simp: alloc_inv_def Let_def)
  have keep2: "subrange c2 (chunk_at ?H ?sz j) 16 = subrange c1 (chunk_at ?H ?sz j) 16" if "j \<le> n" for j
    using chunk_le[OF that len(1)] len(2) that by (intro chunk_wrote_other[OF w2]) simp_all
  have keep1: "subrange c1 (chunk_at ?H ?sz j) 16 = subrange c (chunk_at ?H ?sz j) 16" if "j < n" for j
    using chunk_le[OF less_imp_le[OF that] len(1)] that by (intro chunk_wrote_other[OF w1]) simp_all
  have "free_chain c2 ?H ?sz ([] @ [n + 1])"
    using subrange_wrote_same[OF w2] by (simp add: next_of_def)
  moreover have "\<exists>nx \<le> U64_MAX. subrange c2 (chunk_at ?H ?sz j) 16 = encode_chunk_header (chunk_hdr True nx)" if "j < n + 1" for j
  proof (cases "j = n")
    case True
    then show ?thesis
      using keep2[of n] subrange_wrote_same[OF w1] by (auto simp: NULL_def)
  next
    case False
    then show ?thesis
      using i keep1[of j] keep2[of j] that by (auto simp: alloc_inv_def Let_def)
  qed
  ultimately show ?thesis
    using alloc_invD[OF i] w3 wrote_range[OF w2] f by (intro alloc_inv_intro[where c = c2]) (simp_all add: next_of_def)
qed

lemma alloc_inv_push:
  assumes i: "alloc_inv c a fs n" and k: "k < n" "k \<notin> set fs"
    and w1: "wrote c (chunk_at (al_header_addr a) (al_allocation_size a) k)
      (encode_chunk_header (chunk_hdr False (al_free_list_head a))) c1"
    and a': "a' = a\<lparr>al_memory := s, al_free_list_head := chunk_at (al_header_addr a) (al_allocation_size a) k,
      al_num_allocated_chunks := al_num_allocated_chunks a - 1\<rparr>"
    and w2: "wrote c1 (al_header_addr a) (encode_allocator_header (alloc_hdr a')) c2"
  shows "alloc_inv c2 a' (k # fs) n"
proof -
  let ?H = "al_header_addr a" and ?sz = "al_allocation_size a"
  have f: "al_header_addr a' = ?H" "al_allocation_size a' = ?sz" "al_num_allocated_chunks a' = al_num_allocated_chunks a - 1"
    "al_free_list_head a' = chunk_at ?H ?sz k"
    by (simp_all add: a')
  have len: "chunk_at ?H ?sz n + 16 \<le> length c"
    using i by (auto simp: alloc_inv_def Let_def)
  have other: "subrange c1 (chunk_at ?H ?sz j) 16 = subrange c (chunk_at ?H ?sz j) 16" if "j \<noteq> k" "j \<le> n" for j
    using that chunk_le[OF that(2) len] by (intro chunk_wrote_other[OF w1]) simp_all
  have "free_chain c1 ?H ?sz (fs @ [n])"
  proof (rule free_chain_cong)
    show "free_chain c ?H ?sz (fs @ [n])"
      using alloc_invD(5)[OF i] by simp
    fix j
    assume "j \<in> set (fs @ [n])"
    then have "j \<noteq> k" "j \<le> n"
      using k alloc_invD(3)[OF i] by auto
    then show "subrange c1 (chunk_at ?H ?sz j) 16 = subrange c (chunk_at ?H ?sz j) 16"
      by (rule other)
  qed
  then have "free_chain c1 ?H ?sz ((k # fs) @ [n])"
    using i subrange_wrote_same[OF w1] by (simp add: alloc_inv_def Let_def)
  moreover have "\<exists>nx \<le> U64_MAX. subrange c1 (chunk_at ?H ?sz j) 16 = encode_chunk_header (chunk_hdr True nx)"
    if "j < n" "j \<notin> set (k # fs)" for j
    using i other[of j] that by (auto simp: alloc_inv_def Let_def)
  ultimately show ?thesis
    using alloc_invD[OF i] k w2 wrote_length[OF w1] f by (intro alloc_inv_intro[where c = c1]) (simp_all add: next_of_def)
qed

section \<open>The operations on any memory\<close>

lemma chunk_null_eq: "chunk_null = chunk_hdr False NULL"
  by (simp add: chunk_null_def chunk_hdr_def)

lemma chunk_hdr_simps [simp]:
  "ch_magic (chunk_hdr b nx) = CHUNK_MAGIC" "ch_version (chunk_hdr b nx) = CHUNK_LAYOUT_VERSION"
  "ch_allocated (chunk_hdr b nx) = b" "ch_next (chunk_hdr b nx) = nx"
  "(chunk_hdr b nx)\<lparr>ch_allocated := b'\<rparr> = chunk_hdr b' nx" "(chunk_hdr b nx)\<lparr>ch_next := nx'\<rparr> = chunk_hdr b nx'"
  by (simp_all add: chunk_hdr_def)

context memory
begin

lemma chunk_load_ok:
  assumes "inv s" "addr + 16 \<le> length (contents s)" "nx \<le> U64_MAX"
    and "subrange (contents s) addr 16 = encode_chunk_header (chunk_hdr b nx)"
  shows "ok (chunk_load addr M s) (\<lambda>(h, s'). h = chunk_hdr b nx \<and> inv s' \<and> contents s' = contents s \<and> cap s' = cap s)"
  using read_law[OF assms(1,2)] decode_chunk_hdr[OF assms(3), of b] assms(4)
  by (auto simp: chunk_load_def read_struct_def elim!: ok_mono)

lemma chunk_save_ok:
  assumes "inv s" "addr + 16 \<le> cap s * WASM_PAGE_SIZE"
  shows "ok (chunk_save (chunk_hdr b nx) addr M s) (\<lambda>s'. inv s' \<and> cap s' = cap s \<and>
    wrote (contents s) addr (encode_chunk_header (chunk_hdr b nx)) (contents s'))"
  using write_grow_ok[OF assms(1), of addr "encode_chunk_header (chunk_hdr b nx)"] assms(2)
  by (simp add: chunk_save_def write_struct_def)

lemma allocator_save_ok:
  assumes "inv (al_memory a)" "al_header_addr a + 48 \<le> cap (al_memory a) * WASM_PAGE_SIZE"
  shows "ok (allocator_save M a) (\<lambda>a'. \<exists>s. a' = a\<lparr>al_memory := s\<rparr> \<and> inv s \<and> cap s = cap (al_memory a) \<and>
    wrote (contents (al_memory a)) (al_header_addr a) (encode_allocator_header (alloc_hdr a)) (contents s))"
  using write_grow_ok[OF assms(1), of "al_header_addr a" "encode_allocator_header (alloc_hdr a)"] assms(2)
  by (auto simp: allocator_save_def write_struct_def alloc_hdr_def[symmetric] Let_def elim!: ok_mono)

lemma alloc_hdr_memory [simp]: "alloc_hdr (a\<lparr>al_memory := s\<rparr>) = alloc_hdr a"
  by (simp add: alloc_hdr_def)

lemma alloc_inv_memory [simp]: "alloc_inv c (a\<lparr>al_memory := s\<rparr>) fs n = alloc_inv c a fs n"
  by (simp add: alloc_inv_def)

lemma in_use_memory [simp]: "in_use (a\<lparr>al_memory := s\<rparr>) fs n = in_use a fs n"
  by (simp add: in_use_def)

abbreviation alloc_ok :: "'s allocator \<Rightarrow> nat list \<Rightarrow> nat \<Rightarrow> bool" where
  "alloc_ok a fs n \<equiv> inv (al_memory a) \<and> alloc_inv (contents (al_memory a)) a fs n"

abbreviation same_place :: "'s allocator \<Rightarrow> 's allocator \<Rightarrow> bool" where
  "same_place a a' \<equiv> al_header_addr a' = al_header_addr a \<and> al_allocation_size a' = al_allocation_size a \<and>
     cap (al_memory a') = cap (al_memory a) \<and>
     data_kept (al_header_addr a) (al_allocation_size a) (contents (al_memory a)) (contents (al_memory a'))"

lemma allocator_clear_ok:
  assumes s: "inv (al_memory a)" and fit: "al_header_addr a + 64 \<le> cap (al_memory a) * WASM_PAGE_SIZE"
    and sz: "al_allocation_size a \<le> U64_MAX"
  shows "ok (allocator_clear M a) (\<lambda>a'. alloc_ok a' [] 0 \<and> same_place a a')"
proof -
  let ?H = "al_header_addr a" and ?sz = "al_allocation_size a"
  have add: "u64_add ?H 48 = Some (?H + 48)"
    using fit cap_bytes[OF s] by (simp add: u64_add_def)
  have "?H + 48 + 16 \<le> cap (al_memory a) * WASM_PAGE_SIZE"
    using fit by simp
  from chunk_save_ok[OF s this, of False NULL] obtain s1 where s1: "chunk_save chunk_null (?H + 48) M (al_memory a) = Some s1"
    "inv s1" "cap s1 = cap (al_memory a)" "wrote (contents (al_memory a)) (?H + 48) (encode_chunk_header (chunk_hdr False NULL)) (contents s1)"
    by (auto simp: chunk_null_eq elim: ok_obtain)
  define a1 where "a1 = a\<lparr>al_free_list_head := ?H + 48, al_memory := s1, al_num_allocated_chunks := 0\<rparr>"
  have f: "al_header_addr a1 = ?H" "al_allocation_size a1 = ?sz" "al_num_allocated_chunks a1 = 0" "al_free_list_head a1 = ?H + 48"
    "al_memory a1 = s1"
    by (simp_all add: a1_def)
  have "al_header_addr a1 + 48 \<le> cap (al_memory a1) * WASM_PAGE_SIZE" "inv (al_memory a1)"
    using fit s1(2,3) by (simp_all add: f)
  from allocator_save_ok[OF this(2,1)] obtain s2 where s2: "allocator_save M a1 = Some (a1\<lparr>al_memory := s2\<rparr>)" "inv s2" "cap s2 = cap s1"
    "wrote (contents s1) ?H (encode_allocator_header (alloc_hdr a1)) (contents s2)"
    by (auto simp: f elim: ok_obtain)
  have "alloc_inv (contents s2) a1 [] 0"
    using s2(4) wrote_range[OF s1(4)] subrange_wrote_same[OF s1(4)] sz
    by (intro alloc_inv_intro[where c = "contents s1"]) (simp_all add: f next_of_def)
  moreover have "data_kept ?H ?sz (contents (al_memory a)) (contents s2)"
    using data_kept_chunk[of "contents (al_memory a)" ?H ?sz 0 "encode_chunk_header (chunk_hdr False NULL)" "contents s1"] s1(4) data_kept_header[OF s2(4), of ?sz]
    by (auto intro: data_kept_trans)
  moreover have "allocator_clear M a = Some (a1\<lparr>al_memory := s2\<rparr>)"
    using s1(1) s2(1) by (simp add: allocator_clear_def add Let_def a1_def)
  ultimately show ?thesis
    using s2 s1(3) by (simp add: f)
qed

lemma allocator_new_ok:
  assumes "inv s" "addr + 64 \<le> cap s * WASM_PAGE_SIZE" "sz \<le> U64_MAX"
  shows "ok (allocator_new M s addr sz) (\<lambda>a. alloc_ok a [] 0 \<and> al_header_addr a = addr \<and> al_allocation_size a = sz \<and>
    cap (al_memory a) = cap s \<and> data_kept addr sz (contents s) (contents (al_memory a)))"
  using allocator_clear_ok[of "\<lparr>al_header_addr = addr, al_allocation_size = sz, al_num_allocated_chunks = 0,
       al_free_list_head = NULL, al_memory = s\<rparr>"] assms by (auto simp: allocator_new_def elim!: ok_mono)

lemma alloc_bounds:
  assumes "alloc_ok a fs n"
  shows "al_num_allocated_chunks a + 1 \<le> U64_MAX" "al_free_list_head a + 16 \<le> length (contents (al_memory a))"
proof -
  let ?H = "al_header_addr a" and ?sz = "al_allocation_size a" and ?c = "contents (al_memory a)"
  note d = alloc_invD[OF conjunct2[OF assms]]
  have "length ?c \<le> U64_MAX"
    using length_le_max assms by simp
  moreover have "n \<le> (?sz + 16) * n"
    by simp
  ultimately show "al_num_allocated_chunks a + 1 \<le> U64_MAX"
    using d(4,7) by linarith
  have "al_free_list_head a = chunk_at ?H ?sz (hd (fs @ [n]))" "hd (fs @ [n]) \<le> n"
    using d(3,8) by (cases fs; auto simp: next_of_def)+
  then show "al_free_list_head a + 16 \<le> length ?c"
    using chunk_le[OF _ d(4)] by simp
qed

lemma allocator_load_ok:
  assumes a: "alloc_ok a fs n"
  shows "ok (allocator_load M (al_memory a) (al_header_addr a)) (\<lambda>a'. \<exists>s. a' = a\<lparr>al_memory := s\<rparr> \<and> inv s \<and>
    contents s = contents (al_memory a) \<and> cap s = cap (al_memory a))"
proof -
  note d = alloc_invD[OF conjunct2[OF a]]
  have "al_header_addr a + 48 \<le> length (contents (al_memory a))"
    using d(4) by simp
  from read_law[OF conjunct1[OF a] this] obtain s where s: "inv s" "contents s = contents (al_memory a)" "cap s = cap (al_memory a)"
    "read_op M (al_memory a) (al_header_addr a) 48 = Some (encode_allocator_header (alloc_hdr a), s)"
    using d(9) by (auto elim!: ok_obtain)
  have "decode_allocator_header (encode_allocator_header (alloc_hdr a)) = alloc_hdr a"
    using alloc_bounds[OF a] length_le_max[OF conjunct1[OF a]] d(1) by (intro decode_alloc_hdr) linarith+
  with s have "allocator_load M (al_memory a) (al_header_addr a) = Some (a\<lparr>al_memory := s\<rparr>)"
    by (simp add: allocator_load_def read_struct_def alloc_hdr_def)
  with s show ?thesis by auto
qed

lemma allocate_reuse:
  assumes a: "alloc_ok a (k # fs) n"
  shows "ok (allocate M a) (\<lambda>(addr, a'). addr = chunk_at (al_header_addr a) (al_allocation_size a) k + 16 \<and>
    alloc_ok a' fs n \<and> same_place a a')"
proof -
  let ?H = "al_header_addr a" and ?sz = "al_allocation_size a" and ?nx = "next_of (al_header_addr a) (al_allocation_size a) (fs @ [n])"
  note d = alloc_invD[OF conjunct2[OF a]] and b = alloc_bounds[OF a]
  have hd: "al_free_list_head a = chunk_at ?H ?sz k"
    using d(8) by (simp add: next_of_def)
  have nx: "?nx \<le> U64_MAX" "?nx \<noteq> NULL"
  proof -
    have "?nx + 16 \<le> length (contents (al_memory a))"
      using d(3) chunk_le[OF _ d(4)] by (cases fs) (auto simp: next_of_def)
    then show "?nx \<le> U64_MAX"
      using length_le_max[OF conjunct1[OF a]] by linarith
  qed (simp add: next_of_def NULL_def split: list.split)
  have "subrange (contents (al_memory a)) (chunk_at ?H ?sz k) 16 = encode_chunk_header (chunk_hdr False ?nx)"
    using d(5) by simp
  from chunk_load_ok[OF conjunct1[OF a] b(2)[unfolded hd] nx(1) this] obtain s where s: "inv s" "contents s = contents (al_memory a)"
    "cap s = cap (al_memory a)" "chunk_load (chunk_at ?H ?sz k) M (al_memory a) = Some (chunk_hdr False ?nx, s)"
    by (auto elim!: ok_obtain)
  have fit: "length (contents (al_memory a)) \<le> cap (al_memory a) * WASM_PAGE_SIZE"
    using size_cap_law a by simp
  have "chunk_at ?H ?sz k + 16 \<le> cap s * WASM_PAGE_SIZE"
    using b(2) fit s(3) hd by simp
  from chunk_save_ok[OF s(1) this, of True ?nx] obtain s1 where s1: "chunk_save (chunk_hdr True ?nx) (chunk_at ?H ?sz k) M s = Some s1"
    "inv s1" "cap s1 = cap s" "wrote (contents s) (chunk_at ?H ?sz k) (encode_chunk_header (chunk_hdr True ?nx)) (contents s1)"
    by (auto elim: ok_obtain)
  define a1 where "a1 = a\<lparr>al_memory := s1, al_free_list_head := ?nx, al_num_allocated_chunks := al_num_allocated_chunks a + 1\<rparr>"
  have f: "al_header_addr a1 = ?H" "al_allocation_size a1 = ?sz" "al_memory a1 = s1"
    by (simp_all add: a1_def)
  have "al_header_addr a1 + 48 \<le> cap (al_memory a1) * WASM_PAGE_SIZE" "inv (al_memory a1)"
    using d(4) fit s1(2,3) s(3) by (simp_all add: f)
  from allocator_save_ok[OF this(2,1)] obtain s2 where s2: "allocator_save M a1 = Some (a1\<lparr>al_memory := s2\<rparr>)" "inv s2" "cap s2 = cap s1"
    "wrote (contents s1) ?H (encode_allocator_header (alloc_hdr a1)) (contents s2)"
    by (auto simp: f elim: ok_obtain)
  have "alloc_inv (contents s2) a1 fs n"
    by (rule alloc_inv_pop[OF conjunct2[OF a] nx(1) _ a1_def s2(4)]) (use s1(4) s(2) in simp)
  moreover have "data_kept ?H ?sz (contents (al_memory a)) (contents s2)"
    using data_kept_chunk[OF s1(4)] data_kept_header[OF s2(4), of ?sz] s(2) by (auto intro: data_kept_trans)
  moreover have "allocate M a = Some (chunk_at ?H ?sz k + 16, a1\<lparr>al_memory := s2\<rparr>)"
    using s(4) s1(1) s2(1) b nx(2) length_le_max[OF conjunct1[OF a]] unfolding allocate_def
    by (simp add: hd Let_def u64_add_def a1_def)
  ultimately show ?thesis
    using s2(2,3) s1(3) s(3) by (simp add: f)
qed

lemma allocate_fresh:
  assumes a: "alloc_ok a [] n"
    and fit: "chunk_at (al_header_addr a) (al_allocation_size a) (n + 1) + 16 \<le> cap (al_memory a) * WASM_PAGE_SIZE"
  shows "ok (allocate M a) (\<lambda>(addr, a'). addr = chunk_at (al_header_addr a) (al_allocation_size a) n + 16 \<and>
    alloc_ok a' [] (n + 1) \<and> same_place a a')"
proof -
  let ?H = "al_header_addr a" and ?sz = "al_allocation_size a"
  note d = alloc_invD[OF conjunct2[OF a]] and b = alloc_bounds[OF a]
  have hd: "al_free_list_head a = chunk_at ?H ?sz n"
    using d(8) by (simp add: next_of_def)
  have nul: "NULL \<le> U64_MAX"
    by (simp add: NULL_def)
  have "subrange (contents (al_memory a)) (chunk_at ?H ?sz n) 16 = encode_chunk_header (chunk_hdr False NULL)"
    using d(5) by (simp add: next_of_def)
  from chunk_load_ok[OF conjunct1[OF a] b(2)[unfolded hd] nul this] obtain s where s: "inv s" "contents s = contents (al_memory a)"
    "cap s = cap (al_memory a)" "chunk_load (chunk_at ?H ?sz n) M (al_memory a) = Some (chunk_hdr False NULL, s)"
    by (auto elim!: ok_obtain)
  have nxt: "chunk_at ?H ?sz (n + 1) = chunk_at ?H ?sz n + (?sz + 16)"
    by simp
  have c1: "chunk_at ?H ?sz n + 16 \<le> cap s * WASM_PAGE_SIZE"
    using fit s(3) unfolding nxt by linarith
  from chunk_save_ok[OF s(1) c1, of True NULL] obtain s1 where s1: "chunk_save (chunk_hdr True NULL) (chunk_at ?H ?sz n) M s = Some s1"
    "inv s1" "cap s1 = cap s" "wrote (contents s) (chunk_at ?H ?sz n) (encode_chunk_header (chunk_hdr True NULL)) (contents s1)"
    by (auto elim: ok_obtain)
  have c2: "chunk_at ?H ?sz (n + 1) + 16 \<le> cap s1 * WASM_PAGE_SIZE"
    using fit s(3) s1(3) by simp
  from chunk_save_ok[OF s1(2) c2, of False NULL] obtain s2 where
    s2: "chunk_save (chunk_hdr False NULL) (chunk_at ?H ?sz (n + 1)) M s1 = Some s2" "inv s2" "cap s2 = cap s1"
    "wrote (contents s1) (chunk_at ?H ?sz (n + 1)) (encode_chunk_header (chunk_hdr False NULL)) (contents s2)"
    by (auto elim: ok_obtain)
  define a1 where "a1 = a\<lparr>al_free_list_head := chunk_at ?H ?sz (n + 1), al_memory := s2,
    al_num_allocated_chunks := al_num_allocated_chunks a + 1\<rparr>"
  have f: "al_header_addr a1 = ?H" "al_allocation_size a1 = ?sz" "al_memory a1 = s2"
    by (simp_all add: a1_def)
  have "al_header_addr a1 + 48 \<le> cap (al_memory a1) * WASM_PAGE_SIZE" "inv (al_memory a1)"
    using fit s2(2,3) s1(3) s(3) by (simp_all add: f)
  from allocator_save_ok[OF this(2,1)] obtain s3 where s3: "allocator_save M a1 = Some (a1\<lparr>al_memory := s3\<rparr>)" "inv s3" "cap s3 = cap s2"
    "wrote (contents s2) ?H (encode_allocator_header (alloc_hdr a1)) (contents s3)"
    by (auto simp: f elim: ok_obtain)
  have "alloc_inv (contents s3) a1 [] (n + 1)"
    by (rule alloc_inv_extend[OF conjunct2[OF a] _ s2(4) a1_def s3(4)]) (use s1(4) s(2) in simp)
  moreover have "data_kept ?H ?sz (contents (al_memory a)) (contents s3)"
    using data_kept_chunk[OF s1(4)] data_kept_chunk[OF s2(4)] data_kept_header[OF s3(4), of ?sz] s(2)
    by (auto intro: data_kept_trans)
  moreover have "allocate M a = Some (chunk_at ?H ?sz n + 16, a1\<lparr>al_memory := s3\<rparr>)"
  proof -
    have "chunk_at ?H ?sz (n + 1) \<le> U64_MAX"
      using fit cap_bytes[OF conjunct1[OF a]] by linarith
    then have u: "u64_add ?sz 16 = Some (?sz + 16)" "u64_add (chunk_at ?H ?sz n) (?sz + 16) = Some (chunk_at ?H ?sz (n + 1))"
      "u64_add (al_num_allocated_chunks a) 1 = Some (al_num_allocated_chunks a + 1)"
      "u64_add (chunk_at ?H ?sz n) 16 = Some (chunk_at ?H ?sz n + 16)"
      using b(1) unfolding nxt by (simp_all add: u64_add_def)
    show ?thesis
      unfolding allocate_def Let_def hd s(4) bind.bind_lunit case_prod_conv chunk_hdr_simps s1(1) chunk_null_eq chunk_size_def
      using u s2(1) s3(1) by (simp add: a1_def hd)
  qed
  ultimately show ?thesis
    using s3(2,3) s2(3) s1(3) s(3) by (simp add: f)
qed

lemma deallocate_ok:
  assumes a: "alloc_ok a fs n" and k: "k < n" "k \<notin> set fs"
  shows "ok (deallocate M a (chunk_at (al_header_addr a) (al_allocation_size a) k + 16))
    (\<lambda>a'. alloc_ok a' (k # fs) n \<and> same_place a a')"
proof -
  let ?H = "al_header_addr a" and ?sz = "al_allocation_size a"
  note d = alloc_invD[OF conjunct2[OF a]] and b = alloc_bounds[OF a]
  from d(6)[OF k] obtain nx where nx: "nx \<le> U64_MAX"
    "subrange (contents (al_memory a)) (chunk_at ?H ?sz k) 16 = encode_chunk_header (chunk_hdr True nx)"
    by blast
  have le: "chunk_at ?H ?sz k + 16 \<le> length (contents (al_memory a))"
    using chunk_le[OF less_imp_le[OF k(1)] d(4)] .
  from chunk_load_ok[OF conjunct1[OF a] le nx] obtain s where s: "inv s" "contents s = contents (al_memory a)"
    "cap s = cap (al_memory a)" "chunk_load (chunk_at ?H ?sz k) M (al_memory a) = Some (chunk_hdr True nx, s)"
    by (auto elim!: ok_obtain)
  have fit: "length (contents (al_memory a)) \<le> cap (al_memory a) * WASM_PAGE_SIZE"
    using size_cap_law a by simp
  have "chunk_at ?H ?sz k + 16 \<le> cap s * WASM_PAGE_SIZE"
    using le fit s(3) by simp
  from chunk_save_ok[OF s(1) this, of False "al_free_list_head a"] obtain s1 where
    s1: "chunk_save (chunk_hdr False (al_free_list_head a)) (chunk_at ?H ?sz k) M s = Some s1" "inv s1" "cap s1 = cap s"
    "wrote (contents s) (chunk_at ?H ?sz k) (encode_chunk_header (chunk_hdr False (al_free_list_head a))) (contents s1)"
    by (auto elim: ok_obtain)
  define a1 where "a1 = a\<lparr>al_memory := s1, al_free_list_head := chunk_at ?H ?sz k,
    al_num_allocated_chunks := al_num_allocated_chunks a - 1\<rparr>"
  have f: "al_header_addr a1 = ?H" "al_allocation_size a1 = ?sz" "al_memory a1 = s1"
    by (simp_all add: a1_def)
  have "al_header_addr a1 + 48 \<le> cap (al_memory a1) * WASM_PAGE_SIZE" "inv (al_memory a1)"
    using d(4) fit s1(2,3) s(3) by (simp_all add: f)
  from allocator_save_ok[OF this(2,1)] obtain s2 where s2: "allocator_save M a1 = Some (a1\<lparr>al_memory := s2\<rparr>)" "inv s2" "cap s2 = cap s1"
    "wrote (contents s1) ?H (encode_allocator_header (alloc_hdr a1)) (contents s2)"
    by (auto simp: f elim: ok_obtain)
  have "alloc_inv (contents s2) a1 (k # fs) n"
    by (rule alloc_inv_push[OF conjunct2[OF a] k _ a1_def s2(4)]) (use s1(4) s(2) in simp)
  moreover have "data_kept ?H ?sz (contents (al_memory a)) (contents s2)"
    using data_kept_chunk[OF s1(4)] data_kept_header[OF s2(4), of ?sz] s(2) by (auto intro: data_kept_trans)
  moreover have "deallocate M a (chunk_at ?H ?sz k + 16) = Some (a1\<lparr>al_memory := s2\<rparr>)"
  proof -
    have "length (k # fs) \<le> n"
      using d(2,3) k by (intro free_count) auto
    then have u: "u64_sub (chunk_at ?H ?sz k + 16) 16 = Some (chunk_at ?H ?sz k)"
      "u64_sub (al_num_allocated_chunks a) 1 = Some (al_num_allocated_chunks a - 1)"
      using d(7) by (simp_all add: u64_sub_def)
    show ?thesis
      unfolding deallocate_def Let_def addr_sub_def header_sizes u(1) s(4) bind.bind_lunit case_prod_conv chunk_hdr_simps s1(1)
      using u(2) s2(1) by (simp add: a1_def)
  qed
  ultimately show ?thesis
    using s2(2,3) s1(3) s(3) by (simp add: f)
qed

lemma deallocate_free:
  assumes a: "alloc_ok a fs n" and k: "k \<in> set (fs @ [n])"
  shows "deallocate M a (chunk_at (al_header_addr a) (al_allocation_size a) k + 16) = None"
proof -
  let ?H = "al_header_addr a" and ?sz = "al_allocation_size a" and ?c = "contents (al_memory a)"
  note d = alloc_invD[OF conjunct2[OF a]]
  have nx: "\<exists>nx \<le> U64_MAX. subrange ?c (chunk_at ?H ?sz k) 16 = encode_chunk_header (chunk_hdr False nx)"
    if "free_chain ?c ?H ?sz ks" "k \<in> set ks" "\<forall>j \<in> set ks. j \<le> n" for ks
    using that
  proof (induction ks)
    case (Cons j ks)
    have "next_of ?H ?sz ks \<le> length ?c"
      using Cons.prems(3) chunk_le[OF _ d(4), of "hd ks"] by (cases ks) (auto simp: next_of_def NULL_def)
    then have "next_of ?H ?sz ks \<le> U64_MAX"
      using length_le_max[OF conjunct1[OF a]] by linarith
    with Cons show ?case by auto
  qed simp
  have le: "\<forall>j \<in> set (fs @ [n]). j \<le> n"
    using d(3) by auto
  from nx[OF d(5) k le] obtain nx where "nx \<le> U64_MAX"
    "subrange ?c (chunk_at ?H ?sz k) 16 = encode_chunk_header (chunk_hdr False nx)"
    by blast
  moreover have "chunk_at ?H ?sz k + 16 \<le> length ?c"
    using le k by (intro chunk_le[OF _ d(4)]) blast
  ultimately obtain s where "chunk_load (chunk_at ?H ?sz k) M (al_memory a) = Some (chunk_hdr False nx, s)"
    using chunk_load_ok[of "al_memory a" "chunk_at ?H ?sz k" nx False] a by (auto elim: ok_obtain)
  moreover have "u64_sub (chunk_at ?H ?sz k + 16) 16 = Some (chunk_at ?H ?sz k)"
    by (simp add: u64_sub_def)
  ultimately show ?thesis
    unfolding deallocate_def addr_sub_def header_sizes by simp
qed

text \<open>A client that writes to the data of chunks and below the allocator does not disturb it.\<close>

lemma client_write_ok:
  assumes a: "alloc_ok a fs n" and s: "inv s"
    and len: "length (contents (al_memory a)) \<le> length (contents s)"
    and same: "\<And>x. x < length (contents (al_memory a)) \<Longrightarrow> contents s ! x \<noteq> contents (al_memory a) ! x \<Longrightarrow>
      x < al_header_addr a \<or> (\<exists>k j. x = chunk_at (al_header_addr a) (al_allocation_size a) k + 16 + j \<and> j < al_allocation_size a)"
  shows "alloc_ok (a\<lparr>al_memory := s\<rparr>) fs n"
proof -
  let ?H = "al_header_addr a" and ?sz = "al_allocation_size a" and ?c = "contents (al_memory a)"
  note d = alloc_invD[OF conjunct2[OF a]]
  have hdr: "subrange (contents s) (chunk_at ?H ?sz k) 16 = subrange ?c (chunk_at ?H ?sz k) 16" if "k \<le> n" for k
  proof (rule subrange_eqI)
    fix x
    assume x: "chunk_at ?H ?sz k \<le> x" "x < chunk_at ?H ?sz k + 16"
    show "contents s ! x = ?c ! x"
    proof (rule ccontr)
      assume "contents s ! x \<noteq> ?c ! x"
      moreover have "x < length ?c"
        using x(2) chunk_le[OF that d(4)] by linarith
      ultimately obtain i j where j: "x = chunk_at ?H ?sz i + 16 + j" "j < ?sz"
        using same x(1) by fastforce
      have "(?sz + 16) * i + (16 + j) = (?sz + 16) * k + (x - chunk_at ?H ?sz k)"
        using j(1) x by linarith
      moreover have "x - chunk_at ?H ?sz k < ?sz + 16" "x - chunk_at ?H ?sz k < 16"
        using x by linarith+
      ultimately show False
        using block_decomp[of "16 + j" "?sz + 16" "x - chunk_at ?H ?sz k" i k] j(2) by simp
    qed
  qed (use chunk_le[OF that d(4)] len in linarith)+
  have "subrange (contents s) ?H 48 = subrange ?c ?H 48"
  proof (rule subrange_eqI)
    fix x
    assume x: "?H \<le> x" "x < ?H + 48"
    then have "x < length ?c" "\<not> (\<exists>k j. x = chunk_at ?H ?sz k + 16 + j)"
      using d(4) by auto
    with same x(1) show "contents s ! x = ?c ! x"
      by (meson not_le)
  qed (use d(4) len in linarith)+
  moreover have "free_chain (contents s) ?H ?sz (fs @ [n])"
    using d(3) by (intro free_chain_cong[OF d(5)] hdr) auto
  ultimately show ?thesis
    using s a len hdr d(4) by (auto simp: alloc_inv_def Let_def)
qed

end

section \<open>The contract of the allocator\<close>

text \<open>
  What a client relies on: \<open>rep p U r\<close> says that the addresses \<open>U\<close> are in use and that at least \<open>r\<close> more
  chunks can be handed out.
\<close>

locale chunk_pool =
  fixes pool_alloc :: "'p \<Rightarrow> (address \<times> 'p) option"
    and pool_free :: "'p \<Rightarrow> address \<Rightarrow> 'p option"
    and rep :: "'p \<Rightarrow> address set \<Rightarrow> nat \<Rightarrow> bool"
  assumes alloc_law: "rep p U (Suc r) \<Longrightarrow> ok (pool_alloc p) (\<lambda>(x, p'). x \<notin> U \<and> rep p' (insert x U) r)"
    and free_law: "rep p U r \<Longrightarrow> x \<in> U \<Longrightarrow> ok (pool_free p x) (\<lambda>p'. rep p' (U - {x}) (Suc r))"

primrec alloc_many :: "('p \<Rightarrow> (address \<times> 'p) option) \<Rightarrow> nat \<Rightarrow> 'p \<Rightarrow> (address list \<times> 'p) option" where
  "alloc_many f 0 p = Some ([], p)"
| "alloc_many f (Suc n) p = do { (x, p) \<leftarrow> f p; (xs, p) \<leftarrow> alloc_many f n p; Some (x # xs, p) }"

primrec free_many :: "('p \<Rightarrow> address \<Rightarrow> 'p option) \<Rightarrow> address list \<Rightarrow> 'p \<Rightarrow> 'p option" where
  "free_many f [] p = Some p"
| "free_many f (x # xs) p = do { p \<leftarrow> f p x; free_many f xs p }"

context chunk_pool
begin

lemma alloc_many_ok:
  "rep p U (n + r) \<Longrightarrow> ok (alloc_many pool_alloc n p) (\<lambda>(xs, p'). length xs = n \<and> distinct xs \<and> set xs \<inter> U = {} \<and>
     rep p' (U \<union> set xs) r)"
proof (induction n arbitrary: p U)
  case (Suc n)
  from alloc_law[of p U "n + r"] Suc.prems obtain x p1 where p1: "pool_alloc p = Some (x, p1)" "x \<notin> U" "rep p1 (insert x U) (n + r)"
    by (auto elim!: ok_obtain)
  have eq: "insert x U \<union> set xs = U \<union> set (x # xs)" for xs
    by auto
  show ?case
    using p1(1,2) by (auto simp: eq[symmetric, simplified] intro!: ok_mono[OF Suc.IH[OF p1(3)]])
qed simp

lemma free_many_ok:
  "rep p U r \<Longrightarrow> distinct xs \<Longrightarrow> set xs \<subseteq> U \<Longrightarrow> ok (free_many pool_free xs p) (\<lambda>p'. rep p' (U - set xs) (length xs + r))"
proof (induction xs arbitrary: p U r)
  case (Cons x xs)
  from free_law[OF Cons.prems(1), of x] Cons.prems(3) obtain p1 where p1: "pool_free p x = Some p1" "rep p1 (U - {x}) (Suc r)"
    by (auto elim!: ok_obtain)
  have "set xs \<subseteq> U - {x}"
    using Cons.prems by auto
  moreover have "U - {x} - set xs = U - insert x (set xs)"
    by auto
  ultimately show ?case
    using Cons.IH[OF p1(2), of] Cons.prems(2) p1(1) by simp
qed simp

text \<open>Everything that was allocated can be given back, and then the pool is as it was.\<close>

lemma alloc_free_many:
  assumes "rep p U (n + r)"
  shows "ok (do { (xs, p) \<leftarrow> alloc_many pool_alloc n p; free_many pool_free xs p }) (\<lambda>p'. rep p' U (n + r))"
proof -
  from alloc_many_ok[OF assms] obtain xs p1 where p1: "alloc_many pool_alloc n p = Some (xs, p1)" "length xs = n"
    "distinct xs" "set xs \<inter> U = {}" "rep p1 (U \<union> set xs) r"
    by (auto elim!: ok_obtain)
  moreover have "(U \<union> set xs) - set xs = U"
    using p1(4) by auto
  ultimately show ?thesis
    using free_many_ok[OF p1(5,3)] p1(1,2) by simp
qed

end

text \<open>The chunks that are left: those given back and those that still fit behind the last one.\<close>

definition alloc_rep ::
  "('s \<Rightarrow> bool) \<Rightarrow> ('s \<Rightarrow> bytes) \<Rightarrow> ('s \<Rightarrow> nat) \<Rightarrow> 's allocator \<Rightarrow> address set \<Rightarrow> nat \<Rightarrow> bool" where
  "alloc_rep minv contents cap a U r \<longleftrightarrow> minv (al_memory a) \<and> (\<exists>fs n. alloc_inv (contents (al_memory a)) a fs n \<and>
     U = in_use a fs n \<and> (r \<le> length fs \<or>
       chunk_at (al_header_addr a) (al_allocation_size a) (n + (r - length fs)) + 16 \<le> cap (al_memory a) * WASM_PAGE_SIZE))"

lemma in_use_apart:
  assumes "alloc_inv c a fs n" "x \<in> in_use a fs n" "y \<in> in_use a fs n" "x \<noteq> y"
  shows "x + al_allocation_size a + 16 \<le> y \<or> y + al_allocation_size a + 16 \<le> x"
proof -
  let ?H = "al_header_addr a" and ?sz = "al_allocation_size a"
  obtain k j where "x = chunk_at ?H ?sz k + 16" "y = chunk_at ?H ?sz j + 16" "k \<noteq> j"
    using assms by (auto simp: in_use_def)
  then show ?thesis
    using chunk_order[of k j ?H ?sz] chunk_order[of j k ?H ?sz] by (cases k j rule: linorder_cases) auto
qed

lemma in_use_update: "al_header_addr a' = al_header_addr a \<Longrightarrow> al_allocation_size a' = al_allocation_size a \<Longrightarrow> in_use a' fs n = in_use a fs n"
  by (simp add: in_use_def)

lemma in_use_pop: "k < n \<Longrightarrow> k \<notin> set fs \<Longrightarrow> in_use a fs n = insert (chunk_at (al_header_addr a) (al_allocation_size a) k + 16) (in_use a (k # fs) n)"
  by (auto simp: in_use_def image_iff)

lemma in_use_extend: "in_use a [] (n + 1) = insert (chunk_at (al_header_addr a) (al_allocation_size a) n + 16) (in_use a [] n)"
  by (auto simp: in_use_def lessThan_Suc)

lemma in_use_push: "in_use a (k # fs) n = in_use a fs n - {chunk_at (al_header_addr a) (al_allocation_size a) k + 16}"
  by (auto simp: in_use_def)

context memory
begin

lemma allocate_rep:
  assumes "alloc_rep inv contents cap a U (Suc r)"
  shows "ok (allocate M a) (\<lambda>(x, a'). x \<notin> U \<and> alloc_rep inv contents cap a' (insert x U) r \<and> same_place a a' \<and>
    x + al_allocation_size a \<le> length (contents (al_memory a')))"
proof -
  let ?H = "al_header_addr a" and ?sz = "al_allocation_size a"
  from assms obtain fs n where a: "alloc_ok a fs n" and U: "U = in_use a fs n"
    and room: "Suc r \<le> length fs \<or> chunk_at ?H ?sz (n + (Suc r - length fs)) + 16 \<le> cap (al_memory a) * WASM_PAGE_SIZE"
    by (auto simp: alloc_rep_def)
  note d = alloc_invD[OF conjunct2[OF a]]
  show ?thesis
  proof (cases fs)
    case Nil
    have "chunk_at ?H ?sz (n + 1) + 16 \<le> cap (al_memory a) * WASM_PAGE_SIZE"
      using room chunk_le[of "n + 1" "n + Suc r" ?H ?sz] Nil by simp
    from allocate_fresh[OF a[unfolded Nil] this] obtain a' where a': "allocate M a = Some (chunk_at ?H ?sz n + 16, a')"
      "alloc_ok a' [] (n + 1)" "same_place a a'"
      by (auto elim!: ok_obtain)
    have "insert (chunk_at ?H ?sz n + 16) U = in_use a' [] (n + 1)"
      using a'(3) in_use_update[of a' a] in_use_extend[of a n] U Nil by simp
    moreover have "chunk_at ?H ?sz (n + (r + 1)) + 16 \<le> cap (al_memory a') * WASM_PAGE_SIZE"
      using room Nil a'(3) by simp
    ultimately have "alloc_rep inv contents cap a' (insert (chunk_at ?H ?sz n + 16) U) r"
      unfolding alloc_rep_def using a'(2,3) by (intro conjI exI[of _ "[]"] exI[of _ "n + 1"]) (simp_all add: add.commute)
    moreover have "chunk_at ?H ?sz n + 16 \<notin> U"
      by (auto simp: U in_use_def)
    moreover have "chunk_at ?H ?sz n + 16 + ?sz \<le> length (contents (al_memory a'))"
      using alloc_invD(4)[OF conjunct2[OF a'(2)]] a'(3) by simp
    ultimately show ?thesis
      using a' by simp
  next
    case (Cons k gs)
    have k: "k < n" "k \<notin> set gs"
      using d(2,3) Cons by auto
    from allocate_reuse[OF a[unfolded Cons]] obtain a' where a': "allocate M a = Some (chunk_at ?H ?sz k + 16, a')"
      "alloc_ok a' gs n" "same_place a a'"
      by (auto elim!: ok_obtain)
    have "insert (chunk_at ?H ?sz k + 16) U = in_use a' gs n"
      using a'(3) in_use_update[of a' a] in_use_pop[OF k, of a] U Cons by simp
    then have "alloc_rep inv contents cap a' (insert (chunk_at ?H ?sz k + 16) U) r"
      unfolding alloc_rep_def using a'(2,3) room Cons by (intro conjI exI[of _ gs] exI[of _ n]) auto
    moreover have "chunk_at ?H ?sz k + 16 \<notin> U"
      using Cons by (auto simp: U in_use_def)
    moreover have "chunk_at ?H ?sz k + 16 + ?sz \<le> length (contents (al_memory a'))"
      using alloc_invD(4)[OF conjunct2[OF a'(2)]] a'(3) chunk_order[OF k(1), of ?H ?sz] by simp
    ultimately show ?thesis
      using a' by simp
  qed
qed

lemma deallocate_rep:
  assumes "alloc_rep inv contents cap a U r" "x \<in> U"
  shows "ok (deallocate M a x) (\<lambda>a'. alloc_rep inv contents cap a' (U - {x}) (Suc r) \<and> same_place a a' \<and>
    deallocate M a' x = None \<and> ok (allocate M a') (\<lambda>(y, _). y = x))"
proof -
  let ?H = "al_header_addr a" and ?sz = "al_allocation_size a"
  from assms obtain fs n where a: "alloc_ok a fs n" and U: "U = in_use a fs n"
    and room: "r \<le> length fs \<or> chunk_at ?H ?sz (n + (r - length fs)) + 16 \<le> cap (al_memory a) * WASM_PAGE_SIZE"
    by (auto simp: alloc_rep_def)
  from assms(2) U obtain k where k: "k < n" "k \<notin> set fs" "x = chunk_at ?H ?sz k + 16"
    by (auto simp: in_use_def)
  from deallocate_ok[OF a k(1,2)] obtain a' where a': "deallocate M a x = Some a'" "alloc_ok a' (k # fs) n" "same_place a a'"
    using k(3) by (auto elim!: ok_obtain)
  have "U - {x} = in_use a' (k # fs) n"
    using a'(3) in_use_update[of a' a] in_use_push[of a k fs n] U k(3) by simp
  then have "alloc_rep inv contents cap a' (U - {x}) (Suc r)"
    unfolding alloc_rep_def using a'(2,3) room by (intro conjI exI[of _ "k # fs"] exI[of _ n]) auto
  moreover have "deallocate M a' x = None" "ok (allocate M a') (\<lambda>(y, _). y = x)"
    using deallocate_free[OF a'(2), of k] ok_mono[OF allocate_reuse[OF a'(2)], of "\<lambda>(y, _). y = x"] a'(3) k(3) by auto
  ultimately show ?thesis
    using a' by simp
qed

lemma allocator_pool: "chunk_pool (allocate M) (deallocate M) (alloc_rep inv contents cap)"
  by unfold_locales (auto intro!: ok_mono[OF allocate_rep] ok_mono[OF deallocate_rep])

end

interpretation vec_pool: chunk_pool "allocate VectorMemory" "deallocate VectorMemory" "alloc_rep vec_inv (\<lambda>m. m) vec_cap"
  by (rule vm.allocator_pool)

section \<open>Properties\<close>

lemma data_in_use:
  assumes "alloc_inv c a fs n" "data_kept (al_header_addr a) (al_allocation_size a) c c'" "u \<in> in_use a fs n"
  shows "u + al_allocation_size a \<le> length c" "subrange c' u (al_allocation_size a) = subrange c u (al_allocation_size a)"
proof -
  let ?H = "al_header_addr a" and ?sz = "al_allocation_size a"
  from assms(3) obtain k where k: "k < n" "u = chunk_at ?H ?sz k + 16"
    by (auto simp: in_use_def)
  have le: "chunk_at ?H ?sz k + 16 + 0 + ?sz \<le> length c"
    using chunk_order[OF k(1), of ?H ?sz] alloc_invD(4)[OF assms(1)] by linarith
  then show "u + ?sz \<le> length c"
    using k(2) by simp
  show "subrange c' u ?sz = subrange c u ?sz"
    using data_kept_subrange[OF assms(2) le] k(2) by simp
qed

lemma example_allocator:
  "\<exists>a. allocator_new VectorMemory [] 0 16 = Some a \<and> alloc_rep vec_inv (\<lambda>m. m) vec_cap a {} 5 \<and> al_allocation_size a = 16"
proof -
  obtain a where a: "allocator_new VectorMemory [] 0 16 = Some a" "vm.alloc_ok a [] 0" "al_header_addr a = 0" "al_allocation_size a = 16"
    using vm.allocator_new_ok[of "[]" 0 16] by (auto simp: vec_cap_def VEC_MAX_PAGES_val elim!: ok_obtain)
  then have "alloc_rep vec_inv (\<lambda>m. m) vec_cap a {} 5"
    unfolding alloc_rep_def by (intro conjI exI[of _ "[]"] exI[of _ 0]) (simp_all add: in_use_def vec_cap_def VEC_MAX_PAGES_val)
  with a(1,4) show ?thesis by blast
qed

text \<open>
  C11. \<open>allocate\<close>, when a chunk is left: it returns an address that is not in use; the chunk is inside
  the memory and neither it nor its header overlaps a chunk in use; exactly this address joins those in
  use; and the data of every chunk in use is unchanged.
\<close>

theorem allocate_spec:
  assumes M: "memory M minv contents cap" and a: "alloc_rep minv contents cap a U (Suc r)"
  shows "ok (allocate M a) (\<lambda>(x, a'). x \<notin> U \<and> x + al_allocation_size a \<le> length (contents (al_memory a')) \<and>
    (\<forall>u \<in> U. u + al_allocation_size a + 16 \<le> x \<or> x + al_allocation_size a + 16 \<le> u) \<and>
    alloc_rep minv contents cap a' (insert x U) r \<and>
    (\<forall>u \<in> U. subrange (contents (al_memory a')) u (al_allocation_size a) =
       subrange (contents (al_memory a)) u (al_allocation_size a)))"
proof -
  from memory.allocate_rep[OF M a] obtain x a' where x: "allocate M a = Some (x, a')" "x \<notin> U"
    "alloc_rep minv contents cap a' (insert x U) r" "al_header_addr a' = al_header_addr a"
    "al_allocation_size a' = al_allocation_size a"
    "data_kept (al_header_addr a) (al_allocation_size a) (contents (al_memory a)) (contents (al_memory a'))"
    "x + al_allocation_size a \<le> length (contents (al_memory a'))"
    by (auto elim!: ok_obtain)
  obtain fs n where n: "alloc_inv (contents (al_memory a')) a' fs n" "insert x U = in_use a' fs n"
    using x(3) by (auto simp: alloc_rep_def)
  have "u + al_allocation_size a + 16 \<le> x \<or> x + al_allocation_size a + 16 \<le> u" if "u \<in> U" for u
    using in_use_apart[OF n(1), of u x] that x(2,5) n(2) by auto
  moreover obtain gs k where "alloc_inv (contents (al_memory a)) a gs k" "U = in_use a gs k"
    using a by (auto simp: alloc_rep_def)
  ultimately show ?thesis
    using x data_in_use(2)[OF _ x(6)] by auto
qed

theorem allocate_spec_witness:
  "\<exists>a x a1. allocator_new VectorMemory [] 0 16 = Some a \<and> allocate VectorMemory a = Some (x, a1) \<and>
     ok (allocate VectorMemory a1) (\<lambda>(y, a2). y \<noteq> x \<and> (x + 32 \<le> y \<or> y + 32 \<le> x) \<and> y + 16 \<le> length (al_memory a2) \<and>
       subrange (al_memory a2) x 16 = subrange (al_memory a1) x 16)"
proof -
  obtain a where a: "allocator_new VectorMemory [] 0 16 = Some a" "alloc_rep vec_inv (\<lambda>m. m) vec_cap a {} (Suc 4)" "al_allocation_size a = 16"
    using example_allocator by auto
  from vm.allocate_rep[OF a(2)] obtain x a1 where x: "allocate VectorMemory a = Some (x, a1)"
    "alloc_rep vec_inv (\<lambda>m. m) vec_cap a1 {x} (Suc 3)" "al_allocation_size a1 = 16"
    using a(3) by (auto simp: eval_nat_numeral elim!: ok_obtain)
  have "ok (allocate VectorMemory a1) (\<lambda>(y, a2). y \<noteq> x \<and> (x + 32 \<le> y \<or> y + 32 \<le> x) \<and> y + 16 \<le> length (al_memory a2) \<and>
      subrange (al_memory a2) x 16 = subrange (al_memory a1) x 16)"
    by (rule ok_mono[OF allocate_spec[OF vm.memory_axioms x(2)]]) (auto simp: x(3))
  with a(1) x(1) show ?thesis by blast
qed

text \<open>
  C18. \<open>deallocate\<close> of an address in use: it returns, exactly this address leaves those in use and one more
  chunk is left; the data of the other chunks in use is unchanged. A second \<open>deallocate\<close> of the address
  panics, and the next \<open>allocate\<close> hands this chunk out again.
\<close>

theorem deallocate_spec:
  assumes M: "memory M minv contents cap" and a: "alloc_rep minv contents cap a U r" and x: "x \<in> U"
  shows "ok (deallocate M a x) (\<lambda>a'. alloc_rep minv contents cap a' (U - {x}) (Suc r) \<and>
    (\<forall>u \<in> U. subrange (contents (al_memory a')) u (al_allocation_size a) =
       subrange (contents (al_memory a)) u (al_allocation_size a)) \<and>
    deallocate M a' x = None \<and> ok (allocate M a') (\<lambda>(y, _). y = x))"
proof -
  obtain gs k where g: "alloc_inv (contents (al_memory a)) a gs k" "U = in_use a gs k"
    using a by (auto simp: alloc_rep_def)
  show ?thesis
    using memory.deallocate_rep[OF M a x] data_in_use(2)[OF g(1)] g(2) by (auto elim!: ok_mono)
qed

theorem deallocate_spec_witness:
  "\<exists>a x a1. allocator_new VectorMemory [] 0 16 = Some a \<and> allocate VectorMemory a = Some (x, a1) \<and>
     ok (deallocate VectorMemory a1 x) (\<lambda>a2. deallocate VectorMemory a2 x = None \<and> ok (allocate VectorMemory a2) (\<lambda>(y, _). y = x))"
proof -
  obtain a where a: "allocator_new VectorMemory [] 0 16 = Some a" "alloc_rep vec_inv (\<lambda>m. m) vec_cap a {} (Suc 4)"
    using example_allocator by auto
  from vec_pool.alloc_law[OF a(2)] obtain x a1 where x: "allocate VectorMemory a = Some (x, a1)"
    "alloc_rep vec_inv (\<lambda>m. m) vec_cap a1 {x} 4"
    by (auto elim!: ok_obtain)
  have "ok (deallocate VectorMemory a1 x) (\<lambda>a2. deallocate VectorMemory a2 x = None \<and> ok (allocate VectorMemory a2) (\<lambda>(y, _). y = x))"
    by (rule ok_mono[OF deallocate_spec[OF vm.memory_axioms x(2)]]) auto
  with a(1) x(1) show ?thesis by blast
qed

text \<open>
  C27. An allocator that is loaded from the memory of another, at the address of its header, has its
  state: the same chunks are in use and as many are left.
\<close>

theorem allocator_survives_reload:
  assumes M: "memory M minv contents cap" and a: "alloc_rep minv contents cap a U r"
  shows "ok (allocator_load M (allocator_into_memory a) (al_header_addr a)) (\<lambda>a'. alloc_rep minv contents cap a' U r \<and>
    contents (al_memory a') = contents (al_memory a) \<and> al_allocation_size a' = al_allocation_size a \<and>
    al_num_allocated_chunks a' = al_num_allocated_chunks a \<and> al_free_list_head a' = al_free_list_head a)"
proof -
  obtain fs n where "minv (al_memory a) \<and> alloc_inv (contents (al_memory a)) a fs n"
    using a by (auto simp: alloc_rep_def)
  from memory.allocator_load_ok[OF M this] obtain s where
    s: "allocator_load M (al_memory a) (al_header_addr a) = Some (a\<lparr>al_memory := s\<rparr>)" "minv s"
    "contents s = contents (al_memory a)" "cap s = cap (al_memory a)"
    by (auto elim!: ok_obtain)
  then have "alloc_rep minv contents cap (a\<lparr>al_memory := s\<rparr>) U r"
    using a by (simp add: alloc_rep_def alloc_inv_def in_use_def alloc_hdr_def)
  with s show ?thesis
    by (simp add: allocator_into_memory_def)
qed

theorem allocator_survives_reload_witness:
  "\<exists>a. allocator_new VectorMemory [] 0 16 = Some a \<and>
     ok (allocator_load VectorMemory (allocator_into_memory a) (al_header_addr a)) (\<lambda>a'. al_memory a' = al_memory a)"
proof -
  obtain a where a: "allocator_new VectorMemory [] 0 16 = Some a" "alloc_rep vec_inv (\<lambda>m. m) vec_cap a {} 5"
    using example_allocator by auto
  have "ok (allocator_load VectorMemory (allocator_into_memory a) (al_header_addr a)) (\<lambda>a'. al_memory a' = al_memory a)"
    by (rule ok_mono[OF allocator_survives_reload[OF vm.memory_axioms a(2)]]) simp
  with a(1) show ?thesis by blast
qed

text \<open>
  C28. Any number of chunks that is left can be allocated one after the other and then given back in the
  order of allocation; afterwards the same addresses are in use and as many chunks are left as before.
\<close>

theorem allocate_free_roundtrip:
  assumes M: "memory M minv contents cap" and a: "alloc_rep minv contents cap a U (n + r)"
  shows "ok (do { (xs, a) \<leftarrow> alloc_many (allocate M) n a; free_many (deallocate M) xs a })
    (\<lambda>a'. alloc_rep minv contents cap a' U (n + r))"
  by (rule chunk_pool.alloc_free_many[OF memory.allocator_pool[OF M] a])

theorem allocate_free_roundtrip_witness:
  "\<exists>a. allocator_new VectorMemory [] 0 16 = Some a \<and>
     ok (do { (xs, a) \<leftarrow> alloc_many (allocate VectorMemory) 3 a; free_many (deallocate VectorMemory) xs a })
       (\<lambda>a'. alloc_rep vec_inv (\<lambda>m. m) vec_cap a' {} 5)"
proof -
  obtain a where a: "allocator_new VectorMemory [] 0 16 = Some a" "alloc_rep vec_inv (\<lambda>m. m) vec_cap a {} (3 + 2)"
    using example_allocator by auto
  with allocate_free_roundtrip[OF vm.memory_axioms a(2)] show ?thesis by auto
qed

end
