(* ===== verification/Page_Store.thy ===== *)
theory Page_Store
  imports Allocator
begin

text \<open>
  The allocator as the B-tree sees it: a store of pages. The locale \<open>page_store\<close> is the interface between
  \<open>src/src/btreemap/allocator.rs\<close> and the nodes: \<open>prep a h D r\<close> says that the pages in use and their bytes
  are the finite map \<open>D\<close>, that the bytes below the allocator are \<open>h\<close>, and that \<open>r\<close> more pages can be
  allocated. Everything above the allocator is proved from these laws; the allocator on any memory
  meets them.
\<close>

section \<open>The interface\<close>

locale page_store =
  fixes M :: "'s memory_ops"
    and H :: address
    and sz :: nbytes
    and prep :: "'s allocator \<Rightarrow> bytes \<Rightarrow> (address \<rightharpoonup> bytes) \<Rightarrow> nat \<Rightarrow> bool"
  assumes page_law: "prep a h D r \<Longrightarrow> D u = Some p \<Longrightarrow> length p = sz \<and> H + 64 \<le> u \<and> u + sz \<le> U64_MAX"
    and count_law: "prep a h D r \<Longrightarrow> finite (dom D) \<and> card (dom D) * sz \<le> U64_MAX"
    and size_law: "prep a h D r \<Longrightarrow> al_allocation_size a = sz \<and> al_header_addr a = H \<and> length h = H"
    and less_law: "prep a h D r \<Longrightarrow> r' \<le> r \<Longrightarrow> prep a h D r'"
    and alloc_law: "prep a h D (Suc r) \<Longrightarrow>
      ok (allocate M a) (\<lambda>(x, a'). x \<notin> dom D \<and> (\<exists>p. prep a' h (D(x \<mapsto> p)) r))"
    and free_law: "prep a h D r \<Longrightarrow> x \<in> dom D \<Longrightarrow> ok (deallocate M a x) (\<lambda>a'. prep a' h (D(x := None)) (Suc r))"
    and read_law: "prep a h D r \<Longrightarrow> D u = Some p \<Longrightarrow> off + n \<le> sz \<Longrightarrow>
      ok (read_op M (al_memory a) (u + off) n) (\<lambda>(bs, s). bs = subrange p off n \<and> prep (a\<lparr>al_memory := s\<rparr>) h D r)"
    and write_law: "prep a h D r \<Longrightarrow> D u = Some p \<Longrightarrow> off + length bs \<le> sz \<Longrightarrow>
      ok (write_op M (al_memory a) (u + off) bs) (\<lambda>s. prep (a\<lparr>al_memory := s\<rparr>) h (D(u \<mapsto> overwrite p off bs)) r)"
    and write_grow_law: "prep a h D r \<Longrightarrow> D u = Some p \<Longrightarrow> off + length bs \<le> sz \<Longrightarrow>
      ok (write_grow M (al_memory a) (u + off) bs) (\<lambda>s. prep (a\<lparr>al_memory := s\<rparr>) h (D(u \<mapsto> overwrite p off bs)) r)"
    and read_header_law: "prep a h D r \<Longrightarrow> off + n \<le> H \<Longrightarrow>
      ok (read_op M (al_memory a) off n) (\<lambda>(bs, s). bs = subrange h off n \<and> prep (a\<lparr>al_memory := s\<rparr>) h D r)"
    and write_header_law: "prep a h D r \<Longrightarrow> off + length bs \<le> H \<Longrightarrow>
      ok (write_grow M (al_memory a) off bs) (\<lambda>s. prep (a\<lparr>al_memory := s\<rparr>) (overwrite h off bs) D r)"
    and clear_law: "prep a h D r \<Longrightarrow> ok (allocator_clear M a) (\<lambda>a'. prep a' h Map.empty (card (dom D) + r))"
    and load_law: "prep a h D r \<Longrightarrow> ok (allocator_load M (al_memory a) H) (\<lambda>a'. prep a' h D r)"

section \<open>The allocator is a page store\<close>

definition page_rep ::
  "('s \<Rightarrow> bool) \<Rightarrow> ('s \<Rightarrow> bytes) \<Rightarrow> ('s \<Rightarrow> nat) \<Rightarrow> address \<Rightarrow> nbytes \<Rightarrow>
   's allocator \<Rightarrow> bytes \<Rightarrow> (address \<rightharpoonup> bytes) \<Rightarrow> nat \<Rightarrow> bool" where
  "page_rep minv contents cap H sz a h D r \<longleftrightarrow> alloc_rep minv contents cap a (dom D) r \<and>
     al_header_addr a = H \<and> al_allocation_size a = sz \<and> h = take H (contents (al_memory a)) \<and>
     (\<forall>u p. D u = Some p \<longrightarrow> p = subrange (contents (al_memory a)) u sz)"

lemma in_use_place:
  assumes "alloc_inv c a fs n" "u \<in> in_use a fs n"
  obtains k where "k < n" "u = chunk_at (al_header_addr a) (al_allocation_size a) k + 16"
    "al_header_addr a + 64 \<le> u" "u + al_allocation_size a + 16 \<le> length c"
proof -
  let ?H = "al_header_addr a" and ?sz = "al_allocation_size a"
  from assms(2) obtain k where k: "k < n" "u = chunk_at ?H ?sz k + 16"
    by (auto simp: in_use_def)
  then have "?H + 64 \<le> u" "u + ?sz + 16 \<le> length c"
    using chunk_order[OF k(1), of ?H ?sz] alloc_invD(4)[OF assms(1)] by linarith+
  with k that show thesis by blast
qed

lemma alloc_rep_less: "alloc_rep minv contents cap a U r \<Longrightarrow> r' \<le> r \<Longrightarrow> alloc_rep minv contents cap a U r'"
proof -
  assume a: "alloc_rep minv contents cap a U r" and r: "r' \<le> r"
  then obtain fs n where n: "minv (al_memory a)" "alloc_inv (contents (al_memory a)) a fs n" "U = in_use a fs n"
    "r \<le> length fs \<or> chunk_at (al_header_addr a) (al_allocation_size a) (n + (r - length fs)) + 16 \<le> cap (al_memory a) * WASM_PAGE_SIZE"
    by (auto simp: alloc_rep_def)
  have "n + (r' - length fs) \<le> n + (r - length fs)"
    using r by simp
  with n(4) r have "r' \<le> length fs \<or> chunk_at (al_header_addr a) (al_allocation_size a) (n + (r' - length fs)) + 16 \<le> cap (al_memory a) * WASM_PAGE_SIZE"
    using chunk_le[of "n + (r' - length fs)" "n + (r - length fs)"] by auto
  with n(1-3) show ?thesis
    by (auto simp: alloc_rep_def)
qed

lemma take_data_kept: "data_kept H sz c c' \<Longrightarrow> H \<le> length c \<Longrightarrow> take H c' = take H c"
  by (intro nth_equalityI) (auto simp: data_kept_def)

lemma subrange_overwrite_other:
  assumes "off + length bs \<le> length c" "a + n \<le> length c" "a + n \<le> off \<or> off + length bs \<le> a"
  shows "subrange (overwrite c off bs) a n = subrange c a n"
  using assms by (intro subrange_eqI) (auto simp: nth_overwrite)

lemma subrange_overwrite_inside:
  assumes "u + off + length bs \<le> length c" "off + length bs \<le> n" "u + n \<le> length c"
  shows "subrange (overwrite c (u + off) bs) u n = overwrite (subrange c u n) off bs"
  using assms by (intro nth_equalityI) (auto simp: nth_overwrite)

lemma take_overwrite_before: "off + length bs \<le> n \<Longrightarrow> n \<le> length c \<Longrightarrow> take n (overwrite c off bs) = overwrite (take n c) off bs"
  by (intro nth_equalityI) (auto simp: nth_overwrite)

lemma take_overwrite_after: "n \<le> off \<Longrightarrow> off + length bs \<le> length c \<Longrightarrow> take n (overwrite c off bs) = take n c"
  by (intro nth_equalityI) (auto simp: nth_overwrite)

context memory
begin

lemma page_repD:
  assumes "page_rep inv contents cap H sz a h D r"
  obtains fs n where "inv (al_memory a)" "alloc_inv (contents (al_memory a)) a fs n" "dom D = in_use a fs n"
    "al_header_addr a = H" "al_allocation_size a = sz" "h = take H (contents (al_memory a))" "H \<le> length (contents (al_memory a))"
    "\<And>u p. D u = Some p \<Longrightarrow> p = subrange (contents (al_memory a)) u sz \<and> u + sz \<le> length (contents (al_memory a)) \<and> H + 64 \<le> u"
proof -
  from assms obtain fs n where n: "inv (al_memory a)" "alloc_inv (contents (al_memory a)) a fs n" "dom D = in_use a fs n"
    and a: "al_header_addr a = H" "al_allocation_size a = sz" "h = take H (contents (al_memory a))"
      "\<And>u p. D u = Some p \<Longrightarrow> p = subrange (contents (al_memory a)) u sz"
    by (auto simp: page_rep_def alloc_rep_def)
  have "u + sz \<le> length (contents (al_memory a)) \<and> H + 64 \<le> u" if "D u = Some p" for u p
    using in_use_place[OF n(2), of u thesis] that n(3) a(1,2) by (metis domI in_use_place[OF n(2)] add_leD1)
  moreover have "H \<le> length (contents (al_memory a))"
    using alloc_invD(4)[OF n(2)] a(1) by simp
  ultimately show thesis
    using that[OF n a(1-3)] a(4) by blast
qed

text \<open>An operation of the allocator keeps the data, so the pages read as before.\<close>

lemma page_rep_kept:
  assumes a: "page_rep inv contents cap H sz a h D r" and p: "same_place a a'"
    and a': "alloc_rep inv contents cap a' (dom D') r'"
    and D': "\<And>u p. D' u = Some p \<Longrightarrow> D u = Some p \<or> p = subrange (contents (al_memory a')) u sz"
  shows "page_rep inv contents cap H sz a' h D' r'"
proof -
  obtain fs n where n: "inv (al_memory a)" "alloc_inv (contents (al_memory a)) a fs n" "dom D = in_use a fs n"
    "al_header_addr a = H" "al_allocation_size a = sz" "h = take H (contents (al_memory a))" "H \<le> length (contents (al_memory a))"
    "\<And>u p. D u = Some p \<Longrightarrow> p = subrange (contents (al_memory a)) u sz \<and> u + sz \<le> length (contents (al_memory a)) \<and> H + 64 \<le> u"
    by (rule page_repD[OF a]) blast
  have "subrange (contents (al_memory a')) u sz = subrange (contents (al_memory a)) u sz" if "u \<in> dom D" for u
    using data_in_use(2)[OF n(2), of "contents (al_memory a')" u] p n(3,5) that by simp
  then have "p = subrange (contents (al_memory a')) u sz" if "D' u = Some p" for u p
    using D'[OF that] n(8)[of u p] domI[of D u p] by auto
  moreover have "take H (contents (al_memory a')) = h"
    using take_data_kept[of H sz "contents (al_memory a)" "contents (al_memory a')"] p n(4-7) by simp
  ultimately show ?thesis
    using a' p n(4,5) by (simp add: page_rep_def)
qed

text \<open>A write inside the data of one page or below the allocator.\<close>

lemma alloc_rep_write:
  assumes a: "alloc_rep inv contents cap a U r" and s: "inv s" "cap s = cap (al_memory a)"
    and c: "contents s = overwrite (contents (al_memory a)) off bs" "off + length bs \<le> length (contents (al_memory a))"
    and where_: "off + length bs \<le> al_header_addr a \<or> (\<exists>u \<in> U. u \<le> off \<and> off + length bs \<le> u + al_allocation_size a)"
  shows "alloc_rep inv contents cap (a\<lparr>al_memory := s\<rparr>) U r"
proof -
  from a obtain fs n where n: "alloc_ok a fs n" "U = in_use a fs n"
    "r \<le> length fs \<or> chunk_at (al_header_addr a) (al_allocation_size a) (n + (r - length fs)) + 16 \<le> cap (al_memory a) * WASM_PAGE_SIZE"
    by (auto simp: alloc_rep_def)
  have "alloc_ok (a\<lparr>al_memory := s\<rparr>) fs n"
  proof (rule client_write_ok[OF n(1) s(1)])
    show "length (contents (al_memory a)) \<le> length (contents s)"
      using c by simp
    fix x
    assume "x < length (contents (al_memory a))" "contents s ! x \<noteq> contents (al_memory a) ! x"
    then have x: "off \<le> x" "x < off + length bs"
      using c by (auto simp: nth_overwrite split: if_splits)
    from where_ show "x < al_header_addr a \<or>
      (\<exists>k j. x = chunk_at (al_header_addr a) (al_allocation_size a) k + 16 + j \<and> j < al_allocation_size a)"
    proof
      assume "\<exists>u \<in> U. u \<le> off \<and> off + length bs \<le> u + al_allocation_size a"
      then obtain k where k: "chunk_at (al_header_addr a) (al_allocation_size a) k + 16 \<le> off"
        "off + length bs \<le> chunk_at (al_header_addr a) (al_allocation_size a) k + 16 + al_allocation_size a"
        using n(2) by (auto simp: in_use_def)
      let ?j = "x - (chunk_at (al_header_addr a) (al_allocation_size a) k + 16)"
      have "x = chunk_at (al_header_addr a) (al_allocation_size a) k + 16 + ?j \<and> ?j < al_allocation_size a"
        using k x by linarith
      then show ?thesis by blast
    qed (use x in simp)
  qed
  then show ?thesis
    using n s by (auto simp: alloc_rep_def)
qed

lemma page_rep_write:
  assumes a: "page_rep inv contents cap H sz a h D r" and u: "D u = Some p" and off: "off + length bs \<le> sz"
    and s: "inv s" "cap s = cap (al_memory a)" "contents s = overwrite (contents (al_memory a)) (u + off) bs"
  shows "page_rep inv contents cap H sz (a\<lparr>al_memory := s\<rparr>) h (D(u \<mapsto> overwrite p off bs)) r"
proof -
  let ?c = "contents (al_memory a)"
  obtain fs n where n: "inv (al_memory a)" "alloc_inv ?c a fs n" "dom D = in_use a fs n"
    "al_header_addr a = H" "al_allocation_size a = sz" "h = take H ?c" "H \<le> length ?c"
    "\<And>u p. D u = Some p \<Longrightarrow> p = subrange ?c u sz \<and> u + sz \<le> length ?c \<and> H + 64 \<le> u"
    by (rule page_repD[OF a]) blast
  note pu = n(8)[OF u]
  have "alloc_rep inv contents cap (a\<lparr>al_memory := s\<rparr>) (dom D) r"
  proof (rule alloc_rep_write[OF _ s])
    show "alloc_rep inv contents cap a (dom D) r"
      using a by (simp add: page_rep_def)
    show "u + off + length bs \<le> length ?c"
      using pu off by simp
    show "u + off + length bs \<le> al_header_addr a \<or>
        (\<exists>v \<in> dom D. v \<le> u + off \<and> u + off + length bs \<le> v + al_allocation_size a)"
      using u off n(5) by (intro disjI2 bexI[of _ u]) auto
  qed
  moreover have "dom (D(u \<mapsto> overwrite p off bs)) = dom D"
    using u by auto
  moreover have "take H (contents s) = h"
    using take_overwrite_after[of H "u + off" bs ?c] s(3) off pu n(6) by simp
  moreover have "q = subrange (contents s) v sz" if "(D(u \<mapsto> overwrite p off bs)) v = Some q" for v q
  proof (cases "v = u")
    case True
    then show ?thesis
      using that pu off s(3) subrange_overwrite_inside[of u off bs ?c sz] by simp
  next
    case False
    then have v: "D v = Some q"
      using that by simp
    have "u + sz + 16 \<le> v \<or> v + sz + 16 \<le> u"
      using in_use_apart[OF n(2), of u v] u v n(3,5) False by (metis domI)
    then show ?thesis
      using n(8)[OF v] pu off s(3) subrange_overwrite_other[of "u + off" bs ?c v sz] by auto
  qed
  ultimately show ?thesis
    using n(4,5) by (auto simp: page_rep_def)
qed

lemma write_grow_inside:
  assumes "inv s" "off + length bs \<le> length (contents s)"
  shows "ok (write_grow M s off bs) (\<lambda>s'. inv s' \<and> contents s' = overwrite (contents s) off bs \<and> cap s' = cap s)"
  using write_law[OF assms] by (auto simp: write_grow_def safe_write_no_growth[OF assms] elim!: ok_mono)

lemma page_rep_same:
  assumes "page_rep inv contents cap H sz a h D r" "inv s" "contents s = contents (al_memory a)" "cap s = cap (al_memory a)"
  shows "page_rep inv contents cap H sz (a\<lparr>al_memory := s\<rparr>) h D r"
  using assms by (auto simp: page_rep_def alloc_rep_def)

lemma page_rep_count:
  assumes "page_rep inv contents cap H sz a h D r"
  shows "finite (dom D)" "card (dom D) * sz \<le> U64_MAX"
proof -
  obtain fs n where n: "inv (al_memory a)" "alloc_inv (contents (al_memory a)) a fs n" "dom D = in_use a fs n"
    "al_header_addr a = H" "al_allocation_size a = sz"
    by (rule page_repD[OF assms]) blast
  have "card (dom D) * sz \<le> (sz + 16) * n"
    using card_in_use[OF n(2)] alloc_invD(7)[OF n(2)] n(3) mult_le_mono[of "n - length fs" n sz "sz + 16"] by (simp add: mult.commute)
  then show "card (dom D) * sz \<le> U64_MAX"
    using alloc_invD(4)[OF n(2), unfolded n(4,5)] length_le_max[OF n(1)] by linarith
  show "finite (dom D)"
    using card_in_use(1)[OF n(2)] n(3) by simp
qed

lemma page_rep_allocate:
  assumes "page_rep inv contents cap H sz a h D (Suc r)"
  shows "ok (allocate M a) (\<lambda>(x, a'). x \<notin> dom D \<and> (\<exists>p. page_rep inv contents cap H sz a' h (D(x \<mapsto> p)) r))"
proof -
  have "alloc_rep inv contents cap a (dom D) (Suc r)" "al_allocation_size a = sz"
    using assms by (simp_all add: page_rep_def)
  from allocate_rep[OF this(1)] obtain x a' where x: "allocate M a = Some (x, a')" "x \<notin> dom D"
    "alloc_rep inv contents cap a' (insert x (dom D)) r" "same_place a a'"
    by (auto elim!: ok_obtain)
  have "page_rep inv contents cap H sz a' h (D(x \<mapsto> subrange (contents (al_memory a')) x sz)) r"
    using x(3) by (intro page_rep_kept[OF assms x(4)]) (auto split: if_splits)
  with x(1,2) show ?thesis by auto
qed

lemma page_rep_deallocate:
  assumes "page_rep inv contents cap H sz a h D r" "x \<in> dom D"
  shows "ok (deallocate M a x) (\<lambda>a'. page_rep inv contents cap H sz a' h (D(x := None)) (Suc r))"
proof -
  have "alloc_rep inv contents cap a (dom D) r"
    using assms(1) by (simp add: page_rep_def)
  from deallocate_rep[OF this assms(2)] obtain a' where a': "deallocate M a x = Some a'"
    "alloc_rep inv contents cap a' (dom D - {x}) (Suc r)" "same_place a a'"
    by (auto elim!: ok_obtain)
  have "page_rep inv contents cap H sz a' h (D(x := None)) (Suc r)"
    using a'(2) by (intro page_rep_kept[OF assms(1) a'(3)]) (auto split: if_splits)
  with a'(1) show ?thesis by simp
qed

lemma page_rep_clear:
  assumes a: "page_rep inv contents cap H sz a h D r"
  shows "ok (allocator_clear M a) (\<lambda>a'. page_rep inv contents cap H sz a' h Map.empty (card (dom D) + r))"
proof -
  from a obtain fs n where n: "inv (al_memory a)" "alloc_inv (contents (al_memory a)) a fs n" "dom D = in_use a fs n"
    "al_header_addr a = H" "al_allocation_size a = sz"
    and room: "r \<le> length fs \<or> chunk_at H sz (n + (r - length fs)) + 16 \<le> cap (al_memory a) * WASM_PAGE_SIZE"
    by (auto simp: page_rep_def alloc_rep_def)
  note d = alloc_invD[OF n(2)]
  have cn: "chunk_at H sz n + 16 \<le> cap (al_memory a) * WASM_PAGE_SIZE"
    using d(4)[unfolded n(4,5)] size_cap_law[OF n(1)] by linarith
  have "card (dom D) + r \<le> n + (r - length fs)"
    using card_in_use(2)[OF n(2)] d(7) n(3) free_count[OF d(2,3)] by simp
  then have fit: "chunk_at H sz (card (dom D) + r) + 16 \<le> cap (al_memory a) * WASM_PAGE_SIZE"
    using room cn chunk_le[of "card (dom D) + r" "n + (r - length fs)" H sz] by auto
  from allocator_clear_ok[OF n(1)] obtain a' where a': "allocator_clear M a = Some a'" "alloc_ok a' [] 0" "same_place a a'"
    using cn n(4,5) d(1) by (auto elim!: ok_obtain)
  have "alloc_rep inv contents cap a' {} (card (dom D) + r)"
    unfolding alloc_rep_def using a'(2,3) n(4,5) fit
    by (intro conjI exI[of _ "[]"] exI[of _ 0]) (simp_all add: in_use_def)
  then have "page_rep inv contents cap H sz a' h Map.empty (card (dom D) + r)"
    by (intro page_rep_kept[OF a a'(3)]) simp_all
  with a'(1) show ?thesis by simp
qed

lemma page_rep_load:
  assumes a: "page_rep inv contents cap H sz a h D r"
  shows "ok (allocator_load M (al_memory a) H) (\<lambda>a'. page_rep inv contents cap H sz a' h D r)"
proof -
  from a obtain fs n where n: "alloc_ok a fs n" "al_header_addr a = H"
    by (auto simp: page_rep_def alloc_rep_def)
  from allocator_load_ok[OF n(1)] page_rep_same[OF a] n(2) show ?thesis
    by (auto elim!: ok_mono)
qed

lemma page_rep_header:
  assumes a: "page_rep inv contents cap H sz a h D r" and off: "off + length bs \<le> H"
  shows "ok (write_grow M (al_memory a) off bs) (\<lambda>s. page_rep inv contents cap H sz (a\<lparr>al_memory := s\<rparr>) (overwrite h off bs) D r)"
proof -
  let ?c = "contents (al_memory a)"
  obtain fs n where n: "inv (al_memory a)" "alloc_inv ?c a fs n" "dom D = in_use a fs n"
    "al_header_addr a = H" "al_allocation_size a = sz" "h = take H ?c" "H \<le> length ?c"
    "\<And>u p. D u = Some p \<Longrightarrow> p = subrange ?c u sz \<and> u + sz \<le> length ?c \<and> H + 64 \<le> u"
    by (rule page_repD[OF a]) blast
  have le: "off + length bs \<le> length ?c"
    using off n(7) by simp
  from write_grow_inside[OF n(1) le] obtain s where s: "write_grow M (al_memory a) off bs = Some s" "inv s"
    "contents s = overwrite ?c off bs" "cap s = cap (al_memory a)"
    by (auto elim!: ok_obtain)
  have "alloc_rep inv contents cap (a\<lparr>al_memory := s\<rparr>) (dom D) r"
    using a off n(4) by (intro alloc_rep_write[OF _ s(2,4,3) le] disjI1) (simp_all add: page_rep_def)
  moreover have "p = subrange (contents s) u sz" if "D u = Some p" for u p
    using n(8)[OF that] s(3) off le subrange_overwrite_other[of off bs ?c u sz] by simp
  moreover have "overwrite h off bs = take H (contents s)"
    using s(3) n(6,7) off take_overwrite_before[of off bs H ?c] by simp
  ultimately show ?thesis
    using s(1) n(4,5) by (simp add: page_rep_def)
qed

lemma page_rep_read:
  assumes a: "page_rep inv contents cap H sz a h D r" and le: "off + n \<le> length (contents (al_memory a))"
  shows "ok (read_op M (al_memory a) off n) (\<lambda>(bs, s). bs = subrange (contents (al_memory a)) off n \<and>
    page_rep inv contents cap H sz (a\<lparr>al_memory := s\<rparr>) h D r)"
proof -
  have "inv (al_memory a)"
    using a by (simp add: page_rep_def alloc_rep_def)
  from read_law[OF this le] page_rep_same[OF a] show ?thesis
    by (auto elim!: ok_mono)
qed

lemma allocator_page_store: "page_store M H sz (page_rep inv contents cap H sz)"
proof
  fix a h D r u p off n bs r' x
  assume a: "page_rep inv contents cap H sz a h D r"
  obtain fs k where n: "inv (al_memory a)" "alloc_inv (contents (al_memory a)) a fs k"
    "al_header_addr a = H" "al_allocation_size a = sz" "h = take H (contents (al_memory a))" "H \<le> length (contents (al_memory a))"
    "\<And>u p. D u = Some p \<Longrightarrow> p = subrange (contents (al_memory a)) u sz \<and> u + sz \<le> length (contents (al_memory a)) \<and> H + 64 \<le> u"
    by (rule page_repD[OF a]) blast
  have len: "length (contents (al_memory a)) \<le> U64_MAX"
    by (rule length_le_max[OF n(1)])
  show "finite (dom D) \<and> card (dom D) * sz \<le> U64_MAX"
    using page_rep_count[OF a] by simp
  show "al_allocation_size a = sz \<and> al_header_addr a = H \<and> length h = H"
    using n by simp
  show "page_rep inv contents cap H sz a h D r'" if "r' \<le> r"
    using a alloc_rep_less[OF _ that] by (auto simp: page_rep_def)
  show "ok (deallocate M a x) (\<lambda>a'. page_rep inv contents cap H sz a' h (D(x := None)) (Suc r))" if "x \<in> dom D"
    by (rule page_rep_deallocate[OF a that])
  show "ok (read_op M (al_memory a) off n) (\<lambda>(bs, s). bs = subrange h off n \<and> page_rep inv contents cap H sz (a\<lparr>al_memory := s\<rparr>) h D r)"
    if "off + n \<le> H"
    using page_rep_read[OF a, of off n] that n(5,6) by (auto simp: subrange_def drop_take elim!: ok_mono)
  show "ok (write_grow M (al_memory a) off bs) (\<lambda>s. page_rep inv contents cap H sz (a\<lparr>al_memory := s\<rparr>) (overwrite h off bs) D r)"
    if "off + length bs \<le> H"
    by (rule page_rep_header[OF a that])
  show "ok (allocator_clear M a) (\<lambda>a'. page_rep inv contents cap H sz a' h Map.empty (card (dom D) + r))"
    by (rule page_rep_clear[OF a])
  show "ok (allocator_load M (al_memory a) H) (\<lambda>a'. page_rep inv contents cap H sz a' h D r)"
    by (rule page_rep_load[OF a])
  assume u: "D u = Some p"
  note pu = n(7)[OF u]
  show "length p = sz \<and> H + 64 \<le> u \<and> u + sz \<le> U64_MAX"
    using pu len by simp
  show "ok (read_op M (al_memory a) (u + off) n) (\<lambda>(bs, s). bs = subrange p off n \<and> page_rep inv contents cap H sz (a\<lparr>al_memory := s\<rparr>) h D r)"
    if "off + n \<le> sz"
    using page_rep_read[OF a, of "u + off" n] that pu by (auto simp: subrange_subrange elim!: ok_mono)
  assume off: "off + length bs \<le> sz"
  have le: "u + off + length bs \<le> length (contents (al_memory a))"
    using pu off by simp
  show "ok (write_op M (al_memory a) (u + off) bs) (\<lambda>s. page_rep inv contents cap H sz (a\<lparr>al_memory := s\<rparr>) h (D(u \<mapsto> overwrite p off bs)) r)"
    using write_law[OF n(1) le] page_rep_write[OF a u off] by (auto elim!: ok_mono)
  show "ok (write_grow M (al_memory a) (u + off) bs) (\<lambda>s. page_rep inv contents cap H sz (a\<lparr>al_memory := s\<rparr>) h (D(u \<mapsto> overwrite p off bs)) r)"
    using write_grow_inside[OF n(1) le] page_rep_write[OF a u off] by (auto elim!: ok_mono)
qed (rule page_rep_allocate)

end

interpretation vec_pages: page_store VectorMemory H sz "page_rep vec_inv (\<lambda>m. m) vec_cap H sz" for H sz
  by (rule vm.allocator_page_store)

end
