(* ===== verification/Node_Pages.thy ===== *)
theory Node_Pages
  imports Page_Store
begin

text \<open>
  The pages of a B-tree node (\<open>src/src/btreemap/node/io.rs\<close> and the page sizes of
  \<open>src/src/btreemap/node.rs\<close>): a node is one contiguous memory made of an initial page and a chain of
  overflow pages, all of them chunks of the allocator. \<open>NodeReader\<close> reads from it, \<open>NodeWriter\<close> writes to
  it and allocates and deallocates pages as needed.

  The interface of the allocator to the nodes is the locale \<open>page_store\<close>: pages that are in use and
  what they hold. The main results: a read through the reader returns the bytes of the pages in
  order, and a write through the writer changes exactly the bytes it is meant to.
\<close>

section \<open>The code\<close>

definition CAPACITY :: nat where "CAPACITY = 2 * 6 - 1"
definition U32_SIZE :: nbytes where "U32_SIZE = 4"
definition OVERFLOW_ADDRESS_OFFSET :: nbytes where "OVERFLOW_ADDRESS_OFFSET = 7"
definition OVERFLOW_MAGIC :: bytes where "OVERFLOW_MAGIC = [78, 79, 70]"
definition PAGE_OVERFLOW_NEXT_OFFSET :: nbytes where "PAGE_OVERFLOW_NEXT_OFFSET = 3"
definition PAGE_OVERFLOW_DATA_OFFSET :: nbytes where "PAGE_OVERFLOW_DATA_OFFSET = 11"

record node_header =
  nh_magic :: bytes
  nh_version :: nat
  nh_node_type :: nat
  nh_num_entries :: nat

definition node_header_size :: nbytes where
  "node_header_size = 3 + 1 + 1 + 2"

definition size_v1 :: "nat \<Rightarrow> nat \<Rightarrow> nbytes option" where
  "size_v1 max_key_size max_value_size = do {
     a \<leftarrow> bytes_add U32_SIZE max_key_size;
     b \<leftarrow> bytes_add a max_value_size;
     entry_size \<leftarrow> bytes_add b U32_SIZE;
     let child_size = address_size;
     entries \<leftarrow> bytes_mul CAPACITY entry_size;
     children \<leftarrow> bytes_mul (CAPACITY + 1) child_size;
     c \<leftarrow> bytes_add node_header_size entries;
     bytes_add c children }"

datatype page_size = Derived nat nat | PageValue nat

fun page_size_get :: "page_size \<Rightarrow> nat option" where
  "page_size_get (PageValue n) = Some n"
| "page_size_get (Derived mk mv) = do { n \<leftarrow> size_v1 mk mv; Some (as_u32 n) }"

subsection \<open>Segments\<close>

record page_segment =
  ps_page_idx :: nat
  ps_offset :: nbytes
  ps_length :: nbytes

record node_iterator =
  ni_address :: address
  ni_length :: nbytes
  ni_page_size :: nbytes
  ni_overflow_page_capacity :: nbytes

definition node_iterator_new :: "address \<Rightarrow> nbytes \<Rightarrow> nbytes \<Rightarrow> node_iterator option" where
  "node_iterator_new address len page_size = do {
     capacity \<leftarrow> bytes_sub page_size PAGE_OVERFLOW_DATA_OFFSET;
     Some \<lparr>ni_address = address, ni_length = len, ni_page_size = page_size, ni_overflow_page_capacity = capacity\<rparr> }"

definition node_iterator_next :: "node_iterator \<Rightarrow> (page_segment \<times> node_iterator) option option" where
  "node_iterator_next it =
     (if ni_length it = 0 then Some None
      else do {
        let offset = ni_address it;
        page_idx \<leftarrow> (if offset < ni_page_size it then Some 0
          else do {
            d \<leftarrow> bytes_sub offset (ni_page_size it);
            q \<leftarrow> bytes_div d (ni_overflow_page_capacity it);
            u64_add q 1 });
        before \<leftarrow> bytes_mul (ni_overflow_page_capacity it) page_idx;
        page_end \<leftarrow> bytes_add (ni_page_size it) before;
        room \<leftarrow> bytes_sub page_end offset;
        let len = min room (ni_length it);
        off \<leftarrow> (if offset < ni_page_size it then Some offset
          else do {
            d \<leftarrow> bytes_sub offset (ni_page_size it);
            r \<leftarrow> bytes_rem d (ni_overflow_page_capacity it);
            bytes_add PAGE_OVERFLOW_DATA_OFFSET r });
        rest \<leftarrow> bytes_sub (ni_length it) len;
        addr \<leftarrow> addr_add (ni_address it) len;
        Some (Some (\<lparr>ps_page_idx = page_idx, ps_offset = off, ps_length = len\<rparr>,
          it\<lparr>ni_length := rest, ni_address := addr\<rparr>)) })"

text \<open>Every segment takes something off the rest, so the loops over the iterator end.\<close>

lemma node_iterator_decreases:
  assumes "node_iterator_next it = Some (Some (seg, it'))"
  shows "ni_length it' < ni_length it"
proof -
  let ?o = "ni_address it" and ?ps = "ni_page_size it" and ?c = "ni_overflow_page_capacity it"
  have "?o < ?ps + ?c * ((?o - ?ps) div ?c + 1)" if "0 < ?c" "?ps \<le> ?o"
    using that div_mult_mod_eq[of "?o - ?ps" ?c] mod_less_divisor[OF that(1), of "?o - ?ps"]
    unfolding distrib_left mult.commute[of ?c] by linarith
  with assms show ?thesis
    by (auto simp: node_iterator_next_def bind_eq_Some_conv u64_sub_def u64_div_def u64_rem_def u64_mul_def u64_add_def Let_def
        split: if_splits)
qed

text \<open>Where page \<open>page_idx\<close> of a node starts: the initial page, or an overflow page.\<close>

definition page_base :: "address \<Rightarrow> address list \<Rightarrow> nat \<Rightarrow> address option" where
  "page_base address overflows page_idx =
     (if page_idx = 0 then Some address
      else if page_idx - 1 < length overflows then Some (overflows ! (page_idx - 1)) else None)"

subsection \<open>Reading\<close>

record node_reader =
  nr_address :: address
  nr_overflows :: "address list"
  nr_page_size :: page_size

text \<open>The loop over the segments.\<close>

function nr_loop ::
  "'s memory_ops \<Rightarrow> node_reader \<Rightarrow> nat \<Rightarrow> node_iterator \<Rightarrow> nat \<Rightarrow> bytes \<Rightarrow> 's \<Rightarrow> (bytes \<times> 's) option" where
  "nr_loop M R count it position dst s = do {
     nxt \<leftarrow> node_iterator_next it;
     case nxt of
       None \<Rightarrow> Some (dst, s)
     | Some (seg, it') \<Rightarrow> do {
         e \<leftarrow> u64_add position (ps_length seg);
         assert_that (e \<le> count);
         base \<leftarrow> page_base (nr_address R) (nr_overflows R) (ps_page_idx seg);
         addr \<leftarrow> addr_add base (ps_offset seg);
         (bs, s) \<leftarrow> read_op M s addr (ps_length seg);
         nr_loop M R count it' e (dst @ bs) s } }"
  by pat_completeness auto
termination
  by (relation "measure (\<lambda>(_, _, _, it, _). ni_length it)") (auto dest: node_iterator_decreases)

declare nr_loop.simps [simp del]

definition nr_read :: "'s memory_ops \<Rightarrow> node_reader \<Rightarrow> 's \<Rightarrow> nat \<Rightarrow> nat \<Rightarrow> (bytes \<times> 's) option" where
  "nr_read M R s offset count = do {
     e \<leftarrow> u64_add offset count;
     page_size \<leftarrow> page_size_get (nr_page_size R);
     if e < page_size then do {
       addr \<leftarrow> u64_add (nr_address R) offset;
       read_op M s addr count }
     else do {
       it \<leftarrow> node_iterator_new offset count page_size;
       nr_loop M R count it 0 [] s } }"

definition NodeReader :: "'s memory_ops \<Rightarrow> node_reader \<Rightarrow> 's memory_ops" where
  "NodeReader M R = \<lparr>size_op = (\<lambda>_. None), grow_op = (\<lambda>_ _. None), read_op = nr_read M R, write_op = (\<lambda>_ _ _. None)\<rparr>"

subsection \<open>Writing\<close>

record 's node_writer =
  nw_address :: address
  nw_page_size :: page_size
  nw_overflows :: "address list"
  nw_allocator :: "'s allocator"
  nw_max_offset :: nat

definition node_writer_new :: "address \<Rightarrow> address list \<Rightarrow> page_size \<Rightarrow> 's allocator \<Rightarrow> 's node_writer" where
  "node_writer_new address overflows page_size a =
     \<lparr>nw_address = address, nw_page_size = page_size, nw_overflows = overflows, nw_allocator = a, nw_max_offset = 0\<rparr>"

definition compute_num_overflow_pages_needed :: "nat \<Rightarrow> nat \<Rightarrow> nat option" where
  "compute_num_overflow_pages_needed sz page_size =
     (if sz > page_size then do {
        overflow_data_len \<leftarrow> u64_sub sz page_size;
        overflow_page_capacity \<leftarrow> u64_sub page_size PAGE_OVERFLOW_DATA_OFFSET;
        u64_div_ceil overflow_data_len overflow_page_capacity }
      else Some 0)"

text \<open>Where the address of the page after the last one is stored.\<close>

definition link_address :: "'s node_writer \<Rightarrow> address option" where
  "link_address w = (case nw_overflows w of
       [] \<Rightarrow> addr_add (nw_address w) OVERFLOW_ADDRESS_OFFSET
     | _ # _ \<Rightarrow> addr_add (last (nw_overflows w)) PAGE_OVERFLOW_NEXT_OFFSET)"

definition set_memory :: "'s node_writer \<Rightarrow> 's \<Rightarrow> 's node_writer" where
  "set_memory w s = w\<lparr>nw_allocator := (nw_allocator w)\<lparr>al_memory := s\<rparr>\<rparr>"

abbreviation nw_memory :: "'s node_writer \<Rightarrow> 's" where
  "nw_memory w \<equiv> al_memory (nw_allocator w)"

definition allocate_new_page :: "'s memory_ops \<Rightarrow> 's node_writer \<Rightarrow> 's node_writer option" where
  "allocate_new_page M w = do {
     (new_page, a) \<leftarrow> allocate M (nw_allocator w);
     let w = w\<lparr>nw_allocator := a\<rparr>;
     s \<leftarrow> write_op M (nw_memory w) new_page OVERFLOW_MAGIC;
     let w = set_memory w s;
     addr \<leftarrow> addr_add new_page PAGE_OVERFLOW_NEXT_OFFSET;
     s \<leftarrow> write_u64 M (nw_memory w) addr NULL;
     let w = set_memory w s;
     addr \<leftarrow> link_address w;
     s \<leftarrow> write_u64 M (nw_memory w) addr new_page;
     let w = set_memory w s;
     Some (w\<lparr>nw_overflows := nw_overflows w @ [new_page]\<rparr>) }"

text \<open>\<open>while self.overflows.len() < needed_pages\<close>: the pages that are missing.\<close>

fun allocate_pages :: "'s memory_ops \<Rightarrow> nat \<Rightarrow> 's node_writer \<Rightarrow> 's node_writer option" where
  "allocate_pages M 0 w = Some w"
| "allocate_pages M (Suc n) w = do { w \<leftarrow> allocate_new_page M w; allocate_pages M n w }"

function nw_loop ::
  "'s memory_ops \<Rightarrow> bytes \<Rightarrow> node_iterator \<Rightarrow> nat \<Rightarrow> 's node_writer \<Rightarrow> 's node_writer option" where
  "nw_loop M src it position w = do {
     nxt \<leftarrow> node_iterator_next it;
     case nxt of
       None \<Rightarrow> Some w
     | Some (seg, it') \<Rightarrow> do {
         base \<leftarrow> page_base (nw_address w) (nw_overflows w) (ps_page_idx seg);
         addr \<leftarrow> addr_add base (ps_offset seg);
         chunk \<leftarrow> get_range src position (ps_length seg);
         s \<leftarrow> write_grow M (nw_memory w) addr chunk;
         e \<leftarrow> u64_add position (ps_length seg);
         nw_loop M src it' e (set_memory w s) } }"
  by pat_completeness auto
termination
  by (relation "measure (\<lambda>(_, _, it, _). ni_length it)") (auto dest: node_iterator_decreases)

declare nw_loop.simps [simp del]

definition nw_write :: "'s memory_ops \<Rightarrow> 's node_writer \<Rightarrow> address \<Rightarrow> bytes \<Rightarrow> 's node_writer option" where
  "nw_write M w offset src = do {
     end_offset \<leftarrow> u64_add offset (length src);
     let w = w\<lparr>nw_max_offset := max (nw_max_offset w) end_offset\<rparr>;
     page_size \<leftarrow> page_size_get (nw_page_size w);
     if end_offset < page_size then do {
       addr \<leftarrow> u64_add (nw_address w) offset;
       s \<leftarrow> write_grow M (nw_memory w) addr src;
       Some (set_memory w s) }
     else do {
       needed_pages \<leftarrow> compute_num_overflow_pages_needed end_offset page_size;
       w \<leftarrow> allocate_pages M (needed_pages - length (nw_overflows w)) w;
       it \<leftarrow> node_iterator_new offset (length src) page_size;
       nw_loop M src it 0 w } }"

definition nw_write_u32 :: "'s memory_ops \<Rightarrow> 's node_writer \<Rightarrow> address \<Rightarrow> nat \<Rightarrow> 's node_writer option" where
  "nw_write_u32 M w offset val = nw_write M w offset (to_le_bytes 4 val)"

definition nw_write_u64 :: "'s memory_ops \<Rightarrow> 's node_writer \<Rightarrow> address \<Rightarrow> nat \<Rightarrow> 's node_writer option" where
  "nw_write_u64 M w offset val = nw_write M w offset (to_le_bytes 8 val)"

definition nw_write_struct :: "('a \<Rightarrow> bytes) \<Rightarrow> 'a \<Rightarrow> 's memory_ops \<Rightarrow> 's node_writer \<Rightarrow> address \<Rightarrow> 's node_writer option" where
  "nw_write_struct encode t M w addr = nw_write M w addr (encode t)"

text \<open>\<open>while self.overflows.len() > overflow_pages_needed\<close>: the pages that are too many.\<close>

fun deallocate_pages :: "'s memory_ops \<Rightarrow> nat \<Rightarrow> 's node_writer \<Rightarrow> 's node_writer option" where
  "deallocate_pages M 0 w = Some w"
| "deallocate_pages M (Suc n) w =
     (if nw_overflows w = [] then None
      else do {
        a \<leftarrow> deallocate M (nw_allocator w) (last (nw_overflows w));
        deallocate_pages M n (w\<lparr>nw_allocator := a, nw_overflows := butlast (nw_overflows w)\<rparr>) })"

definition deallocate_unused_pages :: "'s memory_ops \<Rightarrow> 's node_writer \<Rightarrow> 's node_writer option" where
  "deallocate_unused_pages M w = do {
     page_size \<leftarrow> page_size_get (nw_page_size w);
     overflow_pages_needed \<leftarrow> compute_num_overflow_pages_needed (nw_max_offset w) page_size;
     assert_that (overflow_pages_needed \<le> length (nw_overflows w));
     w \<leftarrow> deallocate_pages M (length (nw_overflows w) - overflow_pages_needed) w;
     addr \<leftarrow> link_address w;
     s \<leftarrow> write_u64 M (nw_memory w) addr NULL;
     Some (set_memory w s) }"

definition nw_finish :: "'s memory_ops \<Rightarrow> 's node_writer \<Rightarrow> (address list \<times> 's allocator) option" where
  "nw_finish M w = do {
     w \<leftarrow> deallocate_unused_pages M w;
     Some (nw_overflows w, nw_allocator w) }"

section \<open>The bytes of a node\<close>

text \<open>The pages of a node, put together: the initial page and the data of the overflow pages.\<close>

definition node_bytes :: "(address \<rightharpoonup> bytes) \<Rightarrow> address \<Rightarrow> address list \<Rightarrow> bytes" where
  "node_bytes D x ovs = the (D x) @ concat (map (\<lambda>v. drop 11 (the (D v))) ovs)"

definition node_pages :: "(address \<rightharpoonup> bytes) \<Rightarrow> nbytes \<Rightarrow> address \<Rightarrow> address list \<Rightarrow> bool" where
  "node_pages D ps x ovs \<longleftrightarrow> distinct (x # ovs) \<and> (\<forall>u \<in> set (x # ovs). u \<in> dom D \<and> length (the (D u)) = ps)"

lemmas page_consts = U32_SIZE_def OVERFLOW_ADDRESS_OFFSET_def PAGE_OVERFLOW_NEXT_OFFSET_def PAGE_OVERFLOW_DATA_OFFSET_def

lemma length_concat_equal: "\<forall>x \<in> set xss. length x = c \<Longrightarrow> length (concat xss) = c * length xss"
  by (induction xss) simp_all

lemma concat_at:
  assumes "\<forall>x \<in> set xss. length x = c" "q < length xss" "r + l \<le> c"
  shows "subrange (concat xss) (c * q + r) l = subrange (xss ! q) r l"
    and "length bs = l \<Longrightarrow> overwrite (concat xss) (c * q + r) bs = concat (xss[q := overwrite (xss ! q) r bs])"
proof -
  have eq: "xss = take q xss @ [xss ! q] @ drop (Suc q) xss"
    using assms(2) by (simp add: id_take_nth_drop[symmetric])
  have tk: "length (concat (take q xss)) = c * q"
    using assms(1,2) length_concat_equal[of "take q xss" c] by (auto dest: in_set_takeD)
  have len: "length (xss ! q) = c"
    using assms(1,2) by simp
  have e2: "concat xss = concat (take q xss) @ (xss ! q) @ concat (drop (Suc q) xss)"
    by (subst eq) simp
  show "subrange (concat xss) (c * q + r) l = subrange (xss ! q) r l"
    unfolding e2 subrange_def using tk len assms(3) by simp
  assume bs: "length bs = l"
  have "overwrite (concat xss) (c * q + r) bs = concat (take q xss) @ overwrite (xss ! q) r bs @ concat (drop (Suc q) xss)"
    unfolding e2 overwrite_def using tk len assms(3) bs by simp
  also have "\<dots> = concat (xss[q := overwrite (xss ! q) r bs])"
    using assms(2) by (simp add: upd_conv_take_nth_drop)
  finally show "overwrite (concat xss) (c * q + r) bs = concat (xss[q := overwrite (xss ! q) r bs])" .
qed

lemma subrange_append2: "length xs \<le> off \<Longrightarrow> subrange (xs @ ys) off n = subrange ys (off - length xs) n"
  by (simp add: subrange_def)

lemma overwrite_append1: "off + length bs \<le> length xs \<Longrightarrow> overwrite (xs @ ys) off bs = overwrite xs off bs @ ys"
  by (simp add: overwrite_def)

lemma overwrite_append2: "length xs \<le> off \<Longrightarrow> overwrite (xs @ ys) off bs = xs @ overwrite ys (off - length xs) bs"
  by (simp add: overwrite_def)

lemma length_node_bytes: "node_pages D ps x ovs \<Longrightarrow> length (node_bytes D x ovs) = ps + length ovs * (ps - 11)"
proof -
  assume "node_pages D ps x ovs"
  then have "\<forall>v \<in> set (map (\<lambda>v. drop 11 (the (D v))) ovs). length v = ps - 11" "length (the (D x)) = ps"
    by (auto simp: node_pages_def)
  then show ?thesis
    using length_concat_equal[of "map (\<lambda>v. drop 11 (the (D v))) ovs" "ps - 11"] by (simp add: node_bytes_def mult.commute)
qed

text \<open>The page in which position \<open>off\<close> of the node lies, the place in the page, and the room up to its end.\<close>

definition seg_idx :: "nbytes \<Rightarrow> nat \<Rightarrow> nat" where
  "seg_idx ps off = (if off < ps then 0 else (off - ps) div (ps - 11) + 1)"

definition seg_off :: "nbytes \<Rightarrow> nat \<Rightarrow> nat" where
  "seg_off ps off = (if off < ps then off else 11 + (off - ps) mod (ps - 11))"

lemma seg_off_less: "11 < ps \<Longrightarrow> seg_off ps off < ps"
  using mod_less_divisor[of "ps - 11" "off - ps"] unfolding seg_off_def by (cases "off < ps"; simp only: if_True if_False; linarith)

lemma seg_idx_le:
  assumes "11 < ps" "off < ps + k * (ps - 11)"
  shows "seg_idx ps off \<le> k"
proof (cases "off < ps")
  case False
  then have "off - ps < k * (ps - 11)"
    using assms(2) by linarith
  then have "(off - ps) div (ps - 11) < k"
    by (rule less_mult_imp_div_less)
  with False show ?thesis by (simp add: seg_idx_def)
qed (simp add: seg_idx_def)

lemma seg_room:
  assumes "11 < ps"
  shows "ps + (ps - 11) * seg_idx ps off - off = ps - seg_off ps off" "off < ps + (ps - 11) * seg_idx ps off"
proof -
  have "ps + (ps - 11) * seg_idx ps off = off + (ps - seg_off ps off)"
  proof (cases "off < ps")
    case False
    let ?c = "ps - 11"
    have "?c * ((off - ps) div ?c) + (off - ps) mod ?c = off - ps" "(off - ps) mod ?c < ?c"
      using assms by simp_all
    moreover have "seg_idx ps off = (off - ps) div ?c + 1" "seg_off ps off = 11 + (off - ps) mod ?c"
      using False by (simp_all add: seg_idx_def seg_off_def)
    moreover have "?c * ((off - ps) div ?c + 1) = ?c * ((off - ps) div ?c) + ?c"
      by simp
    ultimately show ?thesis
      using False assms by (simp only:) linarith
  qed (simp add: seg_idx_def seg_off_def)
  with seg_off_less[OF assms, of off] show "ps + (ps - 11) * seg_idx ps off - off = ps - seg_off ps off"
    "off < ps + (ps - 11) * seg_idx ps off"
    by simp_all
qed

lemma node_iterator_next_seg:
  assumes ps: "11 < ps" and n: "0 < n" and le: "off + n \<le> ps + k * (ps - 11)" "ps + k * (ps - 11) \<le> U64_MAX"
  defines "l \<equiv> min (ps - seg_off ps off) n"
  shows "node_iterator_next \<lparr>ni_address = off, ni_length = n, ni_page_size = ps, ni_overflow_page_capacity = ps - 11\<rparr> =
    Some (Some (\<lparr>ps_page_idx = seg_idx ps off, ps_offset = seg_off ps off, ps_length = l\<rparr>,
      \<lparr>ni_address = off + l, ni_length = n - l, ni_page_size = ps, ni_overflow_page_capacity = ps - 11\<rparr>))"
proof -
  have idx: "seg_idx ps off \<le> k"
    using seg_idx_le[OF ps, of off k] n le(1) by simp
  have mul: "(ps - 11) * seg_idx ps off \<le> k * (ps - 11)"
    using mult_le_mono2[OF idx, of "ps - 11"] by (simp add: mult.commute)
  have "1 * seg_idx ps off \<le> (ps - 11) * seg_idx ps off"
    using ps by (intro mult_le_mono1) linarith
  then have b: "(ps - 11) * seg_idx ps off \<le> U64_MAX" "ps + (ps - 11) * seg_idx ps off \<le> U64_MAX" "seg_idx ps off \<le> U64_MAX"
    "off + n \<le> U64_MAX"
    using mul le by linarith+
  have page: "(if off < ps then Some 0 else do { d \<leftarrow> u64_sub off ps; q \<leftarrow> u64_div d (ps - 11); u64_add q 1 }) = Some (seg_idx ps off)"
    using ps b(3) by (cases "off < ps") (simp_all add: seg_idx_def u64_sub_def u64_div_def u64_add_def)
  have off': "(if off < ps then Some off else do { d \<leftarrow> u64_sub off ps; q \<leftarrow> u64_rem d (ps - 11); u64_add PAGE_OVERFLOW_DATA_OFFSET q }) = Some (seg_off ps off)"
    using ps seg_off_less[OF ps, of off] le(2)
    by (cases "off < ps") (simp_all add: seg_off_def u64_sub_def u64_rem_def u64_add_def page_consts)
  have "off + l \<le> U64_MAX" "l \<le> n"
    using b(4) by (simp_all add: l_def)
  with n b seg_room[OF ps, of off] show ?thesis
    unfolding node_iterator_next_def Let_def node_iterator.simps types_simps page off' bind.bind_lunit
    by (simp add: u64_mul_def u64_add_def u64_sub_def l_def Let_def)
qed

lemma node_bytes_seg:
  assumes pg: "node_pages D ps x ovs" and ps: "11 < ps" and idx: "seg_idx ps off \<le> length ovs" and l: "seg_off ps off + l \<le> ps"
  defines "u \<equiv> (x # ovs) ! seg_idx ps off"
  shows "page_base x ovs (seg_idx ps off) = Some u"
    and "u \<in> set (x # ovs)"
    and "subrange (node_bytes D x ovs) off l = subrange (the (D u)) (seg_off ps off) l"
    and "length bs = l \<Longrightarrow> node_bytes (D(u \<mapsto> overwrite (the (D u)) (seg_off ps off) bs)) x ovs = overwrite (node_bytes D x ovs) off bs"
    and "length bs = l \<Longrightarrow> v \<in> set ovs \<Longrightarrow>
      take 11 (the ((D(u \<mapsto> overwrite (the (D u)) (seg_off ps off) bs)) v)) = take 11 (the (D v))"
proof -
  have lx: "length (the (D x)) = ps" and lo: "\<forall>v \<in> set ovs. length (the (D v)) = ps" and dist: "distinct (x # ovs)"
    using pg by (auto simp: node_pages_def)
  show "page_base x ovs (seg_idx ps off) = Some u"
    using idx by (cases "seg_idx ps off") (simp_all add: page_base_def u_def)
  show us: "u \<in> set (x # ovs)"
    unfolding u_def using idx by (intro nth_mem) simp
  show "subrange (node_bytes D x ovs) off l = subrange (the (D u)) (seg_off ps off) l"
  proof (cases "off < ps")
    case True
    then show ?thesis
      using l lx by (simp add: node_bytes_def u_def seg_idx_def seg_off_def subrange_append1)
  next
    case False
    let ?q = "(off - ps) div (ps - 11)" and ?r = "(off - ps) mod (ps - 11)"
    have q: "?q < length ovs" "?r + l \<le> ps - 11"
      using idx l False by (simp_all add: seg_idx_def seg_off_def)
    have "subrange (concat (map (\<lambda>v. drop 11 (the (D v))) ovs)) ((ps - 11) * ?q + ?r) l = subrange (drop 11 (the (D (ovs ! ?q)))) ?r l"
      using concat_at(1)[of "map (\<lambda>v. drop 11 (the (D v))) ovs" "ps - 11" ?q ?r l] q lo by simp
    then show ?thesis
      using False lx by (simp add: node_bytes_def u_def seg_idx_def seg_off_def subrange_append2 subrange_def add.commute)
  qed
  assume bs: "length bs = l"
  show "take 11 (the ((D(u \<mapsto> overwrite (the (D u)) (seg_off ps off) bs)) v)) = take 11 (the (D v))" if "v \<in> set ovs"
  proof (cases "u = v \<and> ps \<le> off")
    case True
    then show ?thesis
      using l bs lo that by (auto simp: seg_off_def intro!: take_overwrite_after)
  next
    case False
    then have "u \<noteq> v"
      using that dist by (auto simp: u_def seg_idx_def not_le)
    then show ?thesis by simp
  qed
  show "node_bytes (D(u \<mapsto> overwrite (the (D u)) (seg_off ps off) bs)) x ovs = overwrite (node_bytes D x ovs) off bs"
  proof (cases "off < ps")
    case True
    then have ux: "u = x"
      by (simp add: u_def seg_idx_def)
    have "map (\<lambda>v. drop 11 (the ((D(x \<mapsto> p)) v))) ovs = map (\<lambda>v. drop 11 (the (D v))) ovs" for p
      using dist by auto
    with True l lx bs show ?thesis
      unfolding node_bytes_def ux by (simp only: fun_upd_same option.sel) (simp add: seg_off_def overwrite_append1)
  next
    case False
    let ?q = "(off - ps) div (ps - 11)" and ?r = "(off - ps) mod (ps - 11)"
    have q: "?q < length ovs" "?r + l \<le> ps - 11" and u: "u = ovs ! ?q"
      using idx l False by (simp_all add: seg_idx_def seg_off_def u_def)
    let ?D = "D(u \<mapsto> overwrite (the (D u)) (11 + ?r) bs)"
    have lu: "length (the (D u)) = ps"
      using lo q(1) u by simp
    have "map (\<lambda>v. drop 11 (the (?D v))) ovs = (map (\<lambda>v. drop 11 (the (D v))) ovs)[?q := overwrite (drop 11 (the (D u))) ?r bs]"
    proof (rule nth_equalityI)
      fix i
      assume i: "i < length (map (\<lambda>v. drop 11 (the (?D v))) ovs)"
      have "drop 11 (overwrite (the (D u)) (11 + ?r) bs) = overwrite (drop 11 (the (D u))) ?r bs"
        using lu q(2) bs ps by (intro nth_equalityI) (auto simp: nth_overwrite)
      moreover have "ovs ! i = u \<longleftrightarrow> i = ?q"
        using i q(1) dist u by (simp add: nth_eq_iff_index_eq)
      ultimately show "map (\<lambda>v. drop 11 (the (?D v))) ovs ! i = (map (\<lambda>v. drop 11 (the (D v))) ovs)[?q := overwrite (drop 11 (the (D u))) ?r bs] ! i"
        using i q(1) by (simp add: nth_list_update)
    qed simp
    also have "concat \<dots> = overwrite (concat (map (\<lambda>v. drop 11 (the (D v))) ovs)) ((ps - 11) * ?q + ?r) bs"
      using concat_at(2)[of "map (\<lambda>v. drop 11 (the (D v))) ovs" "ps - 11" ?q ?r l bs] q lo bs u by simp
    moreover have "u \<noteq> x"
      using dist q(1) u by auto
    ultimately show ?thesis
      using False lx by (simp add: node_bytes_def seg_off_def overwrite_append2)
  qed
qed

section \<open>Reading and writing through the pages\<close>

context page_store
begin

lemma pages_bound:
  assumes "prep a h D r" "node_pages D sz x ovs"
  shows "sz + length ovs * (sz - 11) \<le> U64_MAX"
proof -
  have "card (set (x # ovs)) = length ovs + 1" "set (x # ovs) \<subseteq> dom D" "finite (dom D)" "card (dom D) * sz \<le> U64_MAX"
    using assms(2) count_law[OF assms(1)] distinct_card[of "x # ovs"] by (auto simp: node_pages_def)
  then have "length ovs + 1 \<le> card (dom D)"
    using card_mono[of "dom D" "set (x # ovs)"] by metis
  then have "(length ovs + 1) * sz \<le> U64_MAX"
    using mult_le_mono1[of "length ovs + 1" "card (dom D)" sz] \<open>card (dom D) * sz \<le> U64_MAX\<close> by linarith
  moreover have "length ovs * (sz - 11) \<le> length ovs * sz"
    by simp
  ultimately show ?thesis
    unfolding distrib_right by linarith
qed

lemma nr_loop_ok:
  assumes "prep a h D r" "node_pages D sz x ovs" "11 < sz"
    "off + n \<le> length (node_bytes D x ovs)" "pos + n \<le> count" "count \<le> U64_MAX"
  shows "ok (nr_loop M \<lparr>nr_address = x, nr_overflows = ovs, nr_page_size = pg\<rparr> count
      \<lparr>ni_address = off, ni_length = n, ni_page_size = sz, ni_overflow_page_capacity = sz - 11\<rparr> pos dst (al_memory a))
    (\<lambda>(bs, s). bs = dst @ subrange (node_bytes D x ovs) off n \<and> prep (a\<lparr>al_memory := s\<rparr>) h D r)"
  using assms
proof (induction n arbitrary: off pos dst a rule: less_induct)
  case (less n)
  note bound = pages_bound[OF less.prems(1,2)]
  have le: "off + n \<le> sz + length ovs * (sz - 11)"
    using less.prems(4) length_node_bytes[OF less.prems(2)] by simp
  show ?case
  proof (cases "n = 0")
    case True
    then show ?thesis
      using less.prems(1) by (subst nr_loop.simps) (simp add: node_iterator_next_def)
  next
    case False
    define l where "l = min (sz - seg_off sz off) n"
    define u where "u = (x # ovs) ! seg_idx sz off"
    have l: "0 < l" "l \<le> n" "seg_off sz off + l \<le> sz"
      using False seg_off_less[OF less.prems(3), of off] by (auto simp: l_def)
    have idx: "seg_idx sz off \<le> length ovs"
      using seg_idx_le[OF less.prems(3)] le False by simp
    note seg = node_bytes_seg(1-3)[OF less.prems(2,3) idx l(3), folded u_def]
    obtain p where p: "D u = Some p"
      using seg(2) less.prems(2) by (auto simp: node_pages_def)
    have pu: "u + seg_off sz off \<le> U64_MAX"
      using page_law[OF less.prems(1) p] l(3) by simp
    from read_law[OF less.prems(1) p l(3)] obtain s where s: "read_op M (al_memory a) (u + seg_off sz off) l = Some (subrange p (seg_off sz off) l, s)"
      "prep (a\<lparr>al_memory := s\<rparr>) h D r"
      by (auto elim!: ok_obtain)
    have "subrange (node_bytes D x ovs) off n = subrange p (seg_off sz off) l @ subrange (node_bytes D x ovs) (off + l) (n - l)"
      using subrange_split[of "node_bytes D x ovs" off l "n - l"] l(2) seg(3) p by simp
    then show ?thesis
      using less.IH[of "n - l" "a\<lparr>al_memory := s\<rparr>" "off + l" "pos + l" "dst @ subrange p (seg_off sz off) l"] l less.prems(2-6) s
        node_iterator_next_seg[OF less.prems(3) _ le bound] False seg(1) pu
      by (subst nr_loop.simps) (simp add: u64_add_def l_def[symmetric])
  qed
qed

text \<open>A read through the reader returns the bytes of the node.\<close>

lemma nr_read_ok:
  assumes "prep a h D r" "node_pages D sz x ovs" "11 < sz" "page_size_get pg = Some sz"
    "off + n \<le> length (node_bytes D x ovs)"
  shows "ok (nr_read M \<lparr>nr_address = x, nr_overflows = ovs, nr_page_size = pg\<rparr> (al_memory a) off n)
    (\<lambda>(bs, s). bs = subrange (node_bytes D x ovs) off n \<and> prep (a\<lparr>al_memory := s\<rparr>) h D r)"
proof -
  have le: "off + n \<le> sz + length ovs * (sz - 11)" "sz + length ovs * (sz - 11) \<le> U64_MAX"
    using assms(5) length_node_bytes[OF assms(2)] pages_bound[OF assms(1,2)] by simp_all
  obtain p where p: "D x = Some p" "length p = sz" "x + sz \<le> U64_MAX"
    using assms(2) page_law[OF assms(1)] by (auto simp: node_pages_def)
  show ?thesis
  proof (cases "off + n < sz")
    case True
    then have "subrange (node_bytes D x ovs) off n = subrange p off n"
      using p by (simp add: node_bytes_def subrange_append1)
    then show ?thesis
      using read_law[OF assms(1) p(1), of off n] True p(3) le assms(4) by (simp add: nr_read_def u64_add_def)
  next
    case False
    then show ?thesis
      using nr_loop_ok[OF assms(1-3), of off n 0 n pg "[]"] assms(3-5) le
      by (simp add: nr_read_def u64_add_def u64_sub_def node_iterator_new_def page_consts)
  qed
qed

end

text \<open>
  The overflow pages are linked: each holds the magic bytes and the address of the next one, the last
  one \<open>NULL\<close>; the initial page holds the address of the first at offset 7.
\<close>

definition next_page :: "address list \<Rightarrow> nat \<Rightarrow> address" where
  "next_page ovs i = (if i < length ovs then ovs ! i else NULL)"

definition overflow_chain :: "(address \<rightharpoonup> bytes) \<Rightarrow> address list \<Rightarrow> bool" where
  "overflow_chain D ovs \<longleftrightarrow>
     (\<forall>i < length ovs. take 11 (the (D (ovs ! i))) = OVERFLOW_MAGIC @ to_le_bytes 8 (next_page ovs (Suc i)))"

definition first_link :: "(address \<rightharpoonup> bytes) \<Rightarrow> address \<Rightarrow> address list \<Rightarrow> bool" where
  "first_link D x ovs \<longleftrightarrow> subrange (the (D x)) 7 8 = to_le_bytes 8 (next_page ovs 0)"

text \<open>What was written so far; the link to the first overflow page has its own life.\<close>

definition agrees :: "bytes \<Rightarrow> bytes \<Rightarrow> bool" where
  "agrees F enc \<longleftrightarrow> length enc \<le> length F \<and> (\<forall>i < length enc. i < 7 \<or> 15 \<le> i \<longrightarrow> F ! i = enc ! i)"

definition pages_needed :: "nbytes \<Rightarrow> nat \<Rightarrow> nat" where
  "pages_needed ps n = (if n > ps then (n - ps + (ps - 11) - 1) div (ps - 11) else 0)"

lemma compute_num_ok: "11 < ps \<Longrightarrow> compute_num_overflow_pages_needed n ps = Some (pages_needed ps n)"
  by (simp add: compute_num_overflow_pages_needed_def pages_needed_def u64_sub_def u64_div_ceil_def page_consts)

lemma pages_needed_enough: "11 < ps \<Longrightarrow> n \<le> ps + pages_needed ps n * (ps - 11)"
  using div_ceil_least(1)[of "ps - 11" "n - ps"] by (auto simp: pages_needed_def)

lemma pages_needed_mono: "m \<le> n \<Longrightarrow> pages_needed ps m \<le> pages_needed ps n"
  by (auto simp: pages_needed_def intro!: div_le_mono)

lemma pages_needed_least:
  assumes "11 < ps" "n \<le> ps + k * (ps - 11)"
  shows "pages_needed ps n \<le> k"
proof (cases "n > ps")
  case True
  let ?c = "ps - 11" and ?q = "pages_needed ps n"
  have "?q * ?c < (n - ps) + ?c"
    using div_ceil_least(2)[of ?c "n - ps"] True assms(1) by (simp add: pages_needed_def)
  also have "\<dots> \<le> (k + 1) * ?c"
    using assms True by (simp add: distrib_right)
  finally have "?q < k + 1"
    by (simp only: mult_less_cancel2)
  then show ?thesis by simp
qed (simp add: pages_needed_def)

lemma node_pages_upd:
  "node_pages D ps x ovs \<Longrightarrow> length p = ps \<Longrightarrow> u \<in> set (x # ovs) \<Longrightarrow> node_pages (D(u \<mapsto> p)) ps x ovs"
  by (auto simp: node_pages_def)

lemma restrict_upd_inside: "u \<in> P \<Longrightarrow> (D(u := y)) |` (- P) = D |` (- P)"
  by (auto simp: restrict_map_def)

text \<open>Writing the initial page or the header of an overflow page.\<close>

lemma node_bytes_first:
  assumes "node_pages D ps x ovs"
  shows "node_bytes (D(x \<mapsto> p)) x ovs = p @ drop ps (node_bytes D x ovs)"
proof -
  have "map (\<lambda>v. drop 11 (the ((D(x \<mapsto> p)) v))) ovs = map (\<lambda>v. drop 11 (the (D v))) ovs" "length (the (D x)) = ps"
    using assms by (auto simp: node_pages_def)
  then show ?thesis
    unfolding node_bytes_def by (simp only: fun_upd_same option.sel drop_append) simp
qed

lemma node_bytes_header:
  assumes "node_pages D ps x ovs" "v \<in> set ovs" "off + length bs \<le> 11" "11 \<le> ps"
  shows "node_bytes (D(v \<mapsto> overwrite (the (D v)) off bs)) x ovs = node_bytes D x ovs"
proof -
  have "drop 11 (overwrite (the (D v)) off bs) = drop 11 (the (D v))"
    using assms by (intro nth_equalityI) (auto simp: node_pages_def nth_overwrite)
  then have m: "map (\<lambda>u. drop 11 (the ((D(v \<mapsto> overwrite (the (D v)) off bs)) u))) ovs = map (\<lambda>u. drop 11 (the (D u))) ovs"
    by auto
  have "x \<noteq> v"
    using assms by (auto simp: node_pages_def)
  then show ?thesis
    unfolding node_bytes_def m by simp
qed

text \<open>The pages after a new one was linked behind the last.\<close>

definition with_page :: "(address \<rightharpoonup> bytes) \<Rightarrow> address \<Rightarrow> address list \<Rightarrow> address \<Rightarrow> bytes \<Rightarrow> (address \<rightharpoonup> bytes)" where
  "with_page D x ovs y p = (let v = last (x # ovs); off = (if ovs = [] then 7 else 3) in
     D(y \<mapsto> p, v \<mapsto> overwrite (the (D v)) off (to_le_bytes 8 y)))"

lemma node_bytes_with_page:
  assumes pg: "node_pages D sz x ovs" and yn: "y \<notin> set (x # ovs)" and p2: "length p2 = sz" and sz: "15 < sz"
  shows "node_pages (with_page D x ovs y p2) sz x (ovs @ [y])"
    and "node_bytes (with_page D x ovs y p2) x (ovs @ [y]) =
      (if ovs = [] then overwrite (node_bytes D x ovs) 7 (to_le_bytes 8 y) else node_bytes D x ovs) @ drop 11 p2"
proof -
  define v where "v = last (x # ovs)"
  define off where "off = (if ovs = [] then 7 else 3 :: nat)"
  define q where "q = the (D v)"
  define D' where "D' = D(y \<mapsto> p2, v \<mapsto> overwrite q off (to_le_bytes 8 y))"
  have D': "with_page D x ovs y p2 = D'"
    by (simp add: with_page_def D'_def v_def off_def q_def Let_def)
  have v: "v \<in> set (x # ovs)" "v \<noteq> y"
    using yn last_in_set[of "x # ovs"] by (auto simp: v_def simp del: last.simps)
  then have q: "D v = Some q" "length q = sz"
    using pg by (auto simp: node_pages_def q_def)
  have pg0: "node_pages (D(y \<mapsto> p2)) sz x (ovs @ [y])"
    using pg yn p2 by (auto simp: node_pages_def)
  have vq: "the ((D(y \<mapsto> p2)) v) = q"
    using q(1) v(2) by simp
  have pg': "node_pages D' sz x (ovs @ [y])"
    using node_pages_upd[OF pg0, of "overwrite q off (to_le_bytes 8 y)" v] q(2) sz v(1) by (auto simp: D'_def off_def)
  have nb0: "node_bytes (D(y \<mapsto> p2)) x (ovs @ [y]) = node_bytes D x ovs @ drop 11 p2"
  proof -
    have m: "map (\<lambda>v. drop 11 (the ((D(y \<mapsto> p2)) v))) ovs = map (\<lambda>v. drop 11 (the (D v))) ovs"
      using yn by auto
    show ?thesis
      using yn unfolding node_bytes_def map_append concat_append m by simp
  qed
  have nb: "node_bytes D' x (ovs @ [y]) = (if ovs = [] then overwrite (node_bytes D x ovs) 7 (to_le_bytes 8 y) @ drop 11 p2
      else node_bytes D x ovs @ drop 11 p2)"
  proof (cases "ovs = []")
    case True
    then have "v = x" "off = 7" "node_bytes D x ovs = q"
      using q(1) by (simp_all add: v_def off_def node_bytes_def)
    then show ?thesis
      using True node_bytes_first[OF pg0, of "overwrite q 7 (to_le_bytes 8 y)"] nb0 q(2) by (simp add: D'_def)
  next
    case False
    then have "v \<in> set (ovs @ [y])" "off = 3"
      by (simp_all add: v_def off_def)
    then show ?thesis
      using False node_bytes_header[OF pg0, of v off "to_le_bytes 8 y"] nb0 sz unfolding vq by (simp add: D'_def)
  qed
  show "node_pages (with_page D x ovs y p2) sz x (ovs @ [y])"
    using pg' by (simp add: D')
  show "node_bytes (with_page D x ovs y p2) x (ovs @ [y]) =
      (if ovs = [] then overwrite (node_bytes D x ovs) 7 (to_le_bytes 8 y) else node_bytes D x ovs) @ drop 11 p2"
    using nb by (simp add: D')
qed

lemma overflow_chain_with_page:
  assumes pg: "node_pages D sz x ovs" and yn: "y \<notin> set (x # ovs)" and sz: "15 < sz"
    and p2: "take 11 p2 = OVERFLOW_MAGIC @ to_le_bytes 8 NULL" and ch: "overflow_chain D ovs"
  shows "overflow_chain (with_page D x ovs y p2) (ovs @ [y])"
proof -
  define v where "v = last (x # ovs)"
  define off where "off = (if ovs = [] then 7 else 3 :: nat)"
  define q where "q = the (D v)"
  define D' where "D' = D(y \<mapsto> p2, v \<mapsto> overwrite q off (to_le_bytes 8 y))"
  have D': "with_page D x ovs y p2 = D'"
    by (simp add: with_page_def D'_def v_def off_def q_def Let_def)
  have v: "v \<in> set (x # ovs)" "v \<noteq> y"
    using yn last_in_set[of "x # ovs"] by (auto simp: v_def simp del: last.simps)
  then have q: "D v = Some q" "length q = sz"
    using pg by (auto simp: node_pages_def q_def)
  have chain: "overflow_chain D' (ovs @ [y])"
    unfolding overflow_chain_def
  proof (intro allI impI)
    fix i
    assume i: "i < length (ovs @ [y])"
    show "take 11 (the (D' ((ovs @ [y]) ! i))) = OVERFLOW_MAGIC @ to_le_bytes 8 (next_page (ovs @ [y]) (Suc i))"
    proof (cases "i = length ovs")
      case True
      then show ?thesis
        using v(2) p2 by (simp add: D'_def next_page_def)
    next
      case False
      then have io: "i < length ovs" "(ovs @ [y]) ! i = ovs ! i" "ovs ! i \<noteq> y" "ovs \<noteq> []"
        using i yn by (auto simp: nth_append)
      have old: "take 11 (the (D (ovs ! i))) = OVERFLOW_MAGIC @ to_le_bytes 8 (next_page ovs (Suc i))"
        using ch io(1) by (simp add: overflow_chain_def)
      show ?thesis
      proof (cases "Suc i = length ovs")
        case True
        then have iv: "ovs ! i = v" "off = 3"
          using io(4) by (simp_all add: v_def off_def last_conv_nth flip: True)
        moreover have "take 11 (overwrite q 3 (to_le_bytes 8 y)) = OVERFLOW_MAGIC @ to_le_bytes 8 y"
        proof -
          have "take 11 (overwrite q 3 (to_le_bytes 8 y)) = take 3 (take 11 q) @ to_le_bytes 8 y"
            using sz q(2) by (simp add: overwrite_def)
          also have "take 3 (take 11 q) = OVERFLOW_MAGIC"
            using old unfolding iv q(1) option.sel by (simp add: OVERFLOW_MAGIC_def del: take_take)
          finally show ?thesis .
        qed
        ultimately show ?thesis
          using io(2) True by (simp add: D'_def next_page_def nth_append del: to_le_bytes.simps)
      next
        case False
        then have "ovs ! i \<noteq> v"
          using io(1,4) pg nth_eq_iff_index_eq[of ovs i "length ovs - 1"] by (auto simp: v_def last_conv_nth node_pages_def)
        then have "the (D' (ovs ! i)) = the (D (ovs ! i))"
          using io(3) by (simp add: D'_def)
        moreover have "next_page (ovs @ [y]) (Suc i) = next_page ovs (Suc i)"
          using False io(1) by (simp add: next_page_def nth_append)
        ultimately show ?thesis
          using old io(2) by simp
      qed
    qed
  qed
  then show ?thesis
    by (simp add: D')
qed

lemma first_link_with_page:
  assumes pg: "node_pages D sz x ovs" and yn: "y \<notin> set (x # ovs)" and sz: "15 < sz" and fl: "first_link D x ovs"
  shows "first_link (with_page D x ovs y p2) x (ovs @ [y])"
proof (cases "ovs = []")
  case True
  then show ?thesis
    using subrange_overwrite_same[of 7 "to_le_bytes 8 y" "the (D x)"] pg sz
    by (simp add: first_link_def next_page_def with_page_def node_pages_def del: to_le_bytes.simps)
next
  case False
  then have "last ovs \<noteq> x" "last ovs \<noteq> y"
    using pg yn last_in_set[of ovs] by (auto simp: node_pages_def)
  then show ?thesis
    using False fl yn by (simp add: first_link_def next_page_def with_page_def Let_def nth_append)
qed

lemma restrict_with_page:
  "y \<notin> dom D \<Longrightarrow> with_page D x ovs y p |` (- set (x # ovs @ [y])) = D |` (- set (x # ovs))"
  by (auto simp: with_page_def restrict_map_def Let_def)

context page_store
begin

text \<open>The state of a writer: where it writes, and the pages it has.\<close>

definition wst :: "'s node_writer \<Rightarrow> bytes \<Rightarrow> (address \<rightharpoonup> bytes) \<Rightarrow> nat \<Rightarrow> address \<Rightarrow> address list \<Rightarrow> bool" where
  "wst w h D r x ovs \<longleftrightarrow> prep (nw_allocator w) h D r \<and> nw_address w = x \<and> nw_overflows w = ovs \<and>
     page_size_get (nw_page_size w) = Some sz \<and> node_pages D sz x ovs"

lemma wst_write:
  assumes "wst w h D r x ovs" "prep ((nw_allocator w)\<lparr>al_memory := s\<rparr>) h (D(u \<mapsto> p)) r" "u \<in> set (x # ovs)"
  shows "wst (set_memory w s) h (D(u \<mapsto> p)) r x ovs" "nw_max_offset (set_memory w s) = nw_max_offset w"
proof -
  have "length p = sz"
    using page_law[OF assms(2), of u p] by simp
  then show "wst (set_memory w s) h (D(u \<mapsto> p)) r x ovs"
    using assms node_pages_upd[of D sz x ovs p u] by (simp add: wst_def set_memory_def)
qed (simp add: set_memory_def)

lemma wst_page:
  assumes "wst w h D r x ovs" "u \<in> set (x # ovs)"
  obtains p where "D u = Some p" "length p = sz" "u + sz \<le> U64_MAX"
proof -
  obtain p where p: "D u = Some p"
    using assms by (auto simp: wst_def node_pages_def)
  then show thesis
    using that page_law[of "nw_allocator w" h D r u p] assms(1) by (auto simp: wst_def)
qed

lemma nw_loop_ok:
  assumes "wst w h D r x ovs" "11 < sz" "off + n \<le> length (node_bytes D x ovs)" "pos + n = length src" "length src \<le> U64_MAX"
  shows "ok (nw_loop M src \<lparr>ni_address = off, ni_length = n, ni_page_size = sz, ni_overflow_page_capacity = sz - 11\<rparr> pos w)
    (\<lambda>w'. \<exists>D'. wst w' h D' r x ovs \<and> nw_max_offset w' = nw_max_offset w \<and>
      node_bytes D' x ovs = overwrite (node_bytes D x ovs) off (drop pos src) \<and>
      (\<forall>v \<in> set ovs. take 11 (the (D' v)) = take 11 (the (D v))) \<and>
      D' |` (- set (x # ovs)) = D |` (- set (x # ovs)))"
  using assms
proof (induction n arbitrary: off pos w D rule: less_induct)
  case (less n)
  have w: "prep (nw_allocator w) h D r" "nw_address w = x" "nw_overflows w = ovs" "node_pages D sz x ovs"
    using less.prems(1) by (simp_all add: wst_def)
  note bound = pages_bound[OF w(1,4)]
  have le: "off + n \<le> sz + length ovs * (sz - 11)"
    using less.prems(3) length_node_bytes[OF w(4)] by simp
  show ?case
  proof (cases "n = 0")
    case True
    then show ?thesis
      using less.prems by (subst nw_loop.simps) (auto simp: node_iterator_next_def overwrite_def)
  next
    case False
    define l where "l = min (sz - seg_off sz off) n"
    define u where "u = (x # ovs) ! seg_idx sz off"
    have l: "0 < l" "l \<le> n" "seg_off sz off + l \<le> sz"
      using False seg_off_less[OF less.prems(2), of off] by (auto simp: l_def)
    have idx: "seg_idx sz off \<le> length ovs"
      using seg_idx_le[OF less.prems(2)] le False by simp
    define bs where "bs = subrange src pos l"
    have bs: "length bs = l" "get_range src pos l = Some bs"
      using l(2) less.prems(4) by (simp_all add: bs_def get_range_def)
    note seg = node_bytes_seg[OF w(4) less.prems(2) idx l(3), folded u_def]
    obtain p where p: "D u = Some p" "length p = sz" "u + sz \<le> U64_MAX"
      by (rule wst_page[OF less.prems(1) seg(2)])
    define D1 where "D1 = D(u \<mapsto> overwrite p (seg_off sz off) bs)"
    from write_grow_law[OF w(1) p(1), of "seg_off sz off" bs] obtain s where
      s: "write_grow M (nw_memory w) (u + seg_off sz off) bs = Some s" "prep ((nw_allocator w)\<lparr>al_memory := s\<rparr>) h D1 r"
      using l(3) bs(1) by (auto simp: D1_def elim!: ok_obtain)
    have w1: "wst (set_memory w s) h D1 r x ovs" "nw_max_offset (set_memory w s) = nw_max_offset w"
      using wst_write[OF less.prems(1) _ seg(2)] s(2) by (simp_all add: D1_def)
    have D1: "node_bytes D1 x ovs = overwrite (node_bytes D x ovs) off bs"
      "\<forall>v \<in> set ovs. take 11 (the (D1 v)) = take 11 (the (D v))"
      using seg(4,5)[OF bs(1)] p(1) by (simp_all add: D1_def)
    have D1': "D1 |` (- set (x # ovs)) = D |` (- set (x # ovs))"
      unfolding D1_def by (rule restrict_upd_inside[OF seg(2)])
    have len: "length (node_bytes D1 x ovs) = length (node_bytes D x ovs)"
      using D1(1) less.prems(3) l(2) bs(1) by simp
    have drp: "drop pos src = bs @ drop (pos + l) src"
      by (simp add: bs_def subrange_def add.commute flip: drop_drop)
    have "overwrite (overwrite F off bs) (off + l) ys = overwrite F off (bs @ ys)" if "off + l + length ys \<le> length F" for F :: bytes and ys
      using that bs(1) by (simp add: overwrite_def ac_simps)
    then have "overwrite (node_bytes D1 x ovs) (off + l) (drop (pos + l) src) = overwrite (node_bytes D x ovs) off (drop pos src)"
      unfolding D1(1) drp using less.prems(3,4) l(2) by simp
    moreover have "ok (nw_loop M src \<lparr>ni_address = off + l, ni_length = n - l, ni_page_size = sz, ni_overflow_page_capacity = sz - 11\<rparr> (pos + l) (set_memory w s))
      (\<lambda>w'. \<exists>D'. wst w' h D' r x ovs \<and> nw_max_offset w' = nw_max_offset (set_memory w s) \<and>
        node_bytes D' x ovs = overwrite (node_bytes D1 x ovs) (off + l) (drop (pos + l) src) \<and>
        (\<forall>v \<in> set ovs. take 11 (the (D' v)) = take 11 (the (D1 v))) \<and>
        D' |` (- set (x # ovs)) = D1 |` (- set (x # ovs)))"
      using l less.prems(2-5) len by (intro less.IH[OF _ w1(1)]) simp_all
    moreover have "nw_loop M src \<lparr>ni_address = off, ni_length = n, ni_page_size = sz, ni_overflow_page_capacity = sz - 11\<rparr> pos w =
      nw_loop M src \<lparr>ni_address = off + l, ni_length = n - l, ni_page_size = sz, ni_overflow_page_capacity = sz - 11\<rparr> (pos + l) (set_memory w s)"
      using node_iterator_next_seg[OF less.prems(2) _ le bound] False seg(1) s(1) bs(2) l(2,3) less.prems(4,5) p(3)
      by (subst nw_loop.simps) (simp add: w(2,3) u64_add_def l_def[symmetric])
    ultimately show ?thesis
      using D1(2) D1' w1(2) by (auto elim!: ok_mono)
  qed
qed

text \<open>A new page is linked behind the last one.\<close>

lemma allocate_new_page_ok:
  assumes w: "wst w h D (Suc r) x ovs" and sz: "15 < sz" and ch: "overflow_chain D ovs" and fl: "first_link D x ovs"
  shows "ok (allocate_new_page M w) (\<lambda>w'. \<exists>y D'. y \<notin> dom D \<and> wst w' h D' r x (ovs @ [y]) \<and> nw_max_offset w' = nw_max_offset w \<and>
    overflow_chain D' (ovs @ [y]) \<and> first_link D' x (ovs @ [y]) \<and>
    (\<forall>i < length (node_bytes D x ovs). i < 7 \<or> 15 \<le> i \<longrightarrow> node_bytes D' x (ovs @ [y]) ! i = node_bytes D x ovs ! i) \<and>
    D' |` (- set (x # ovs @ [y])) = D |` (- set (x # ovs)))"
proof -
  let ?m = "\<lambda>a s. a\<lparr>al_memory := s\<rparr>"
  have w0: "prep (nw_allocator w) h D (Suc r)" "nw_address w = x" "nw_overflows w = ovs" "page_size_get (nw_page_size w) = Some sz"
    and pg: "node_pages D sz x ovs"
    using w by (simp_all add: wst_def)
  from alloc_law[OF w0(1)] obtain y a p where y: "allocate M (nw_allocator w) = Some (y, a)" "y \<notin> dom D" "prep a h (D(y \<mapsto> p)) r"
    by (auto elim!: ok_obtain)
  have p: "length p = sz" "y + sz \<le> U64_MAX"
    using page_law[OF y(3), of y p] by simp_all
  have yn: "y \<notin> set (x # ovs)"
    using y(2) pg by (auto simp: node_pages_def)
  define p2 where "p2 = overwrite (overwrite p 0 OVERFLOW_MAGIC) 3 (to_le_bytes 8 NULL)"
  from write_law[OF y(3), of y p 0 OVERFLOW_MAGIC] obtain s1 where s1: "write_op M (al_memory a) y OVERFLOW_MAGIC = Some s1"
    "prep (?m a s1) h (D(y \<mapsto> overwrite p 0 OVERFLOW_MAGIC)) r"
    using sz by (auto simp: OVERFLOW_MAGIC_def elim!: ok_obtain)
  from write_grow_law[OF s1(2), of y "overwrite p 0 OVERFLOW_MAGIC" 3 "to_le_bytes 8 NULL"] obtain s2 where
    s2: "write_u64 M s1 (y + 3) NULL = Some s2" "prep (?m a s2) h (D(y \<mapsto> p2)) r"
    using sz by (auto simp: write_u64_def p2_def elim!: ok_obtain)
  have p2: "length p2 = sz" "take 11 p2 = OVERFLOW_MAGIC @ to_le_bytes 8 NULL"
  proof -
    have "take 11 p2 = overwrite (overwrite (take 11 p) 0 OVERFLOW_MAGIC) 3 (to_le_bytes 8 NULL)"
      using p sz unfolding p2_def by (subst take_overwrite_before; simp add: OVERFLOW_MAGIC_def take_overwrite_before)+
    then show "take 11 p2 = OVERFLOW_MAGIC @ to_le_bytes 8 NULL"
      using p sz by (simp add: overwrite_def OVERFLOW_MAGIC_def del: to_le_bytes.simps)
    show "length p2 = sz"
      using p sz by (simp add: p2_def OVERFLOW_MAGIC_def)
  qed
  define v where "v = last (x # ovs)"
  define off where "off = (if ovs = [] then 7 else 3 :: nat)"
  have v: "v \<in> set (x # ovs)" "v \<noteq> y"
    using yn last_in_set[of "x # ovs"] by (auto simp: v_def simp del: last.simps)
  obtain q where q: "D v = Some q" "length q = sz" "v + sz \<le> U64_MAX"
    by (rule wst_page[OF w v(1)])
  define D' where "D' = with_page D x ovs y p2"
  have D': "D' = D(y \<mapsto> p2, v \<mapsto> overwrite q off (to_le_bytes 8 y))" and off: "off + 8 \<le> sz"
    using q(1) sz by (auto simp: with_page_def D'_def v_def off_def Let_def)
  from write_grow_law[OF s2(2), of v q off "to_le_bytes 8 y"] obtain s3 where
    s3: "write_u64 M s2 (v + off) y = Some s3" "prep (?m a s3) h D' r"
    using off q(1) v(2) by (auto simp: write_u64_def D' elim!: ok_obtain)
  have link: "link_address (w\<lparr>nw_allocator := b\<rparr>) = Some (v + off)" for b
    using q(3) sz by (auto simp: link_address_def w0(2,3) v_def off_def page_consts u64_add_def split: list.split)
  have code: "allocate_new_page M w = Some (w\<lparr>nw_allocator := ?m a s3, nw_overflows := ovs @ [y]\<rparr>)"
    using y(1) s1(1) s2(1) s3(1) p(2) sz w0(3)
    by (simp add: allocate_new_page_def set_memory_def link page_consts u64_add_def)
  note nb = node_bytes_with_page[OF pg yn p2(1) sz, folded D'_def]
  have keep: "node_bytes D' x (ovs @ [y]) ! i = node_bytes D x ovs ! i" if "i < length (node_bytes D x ovs)" "i < 7 \<or> 15 \<le> i" for i
    using that sz length_node_bytes[OF pg] by (auto simp: nb(2) nth_append nth_overwrite)
  have "wst (w\<lparr>nw_allocator := ?m a s3, nw_overflows := ovs @ [y]\<rparr>) h D' r x (ovs @ [y])"
    using s3(2) nb(1) w0 by (simp add: wst_def)
  then show ?thesis
    unfolding code ok_Some using y(2) keep
      overflow_chain_with_page[OF pg yn sz p2(2) ch, folded D'_def] first_link_with_page[OF pg yn sz fl, of p2, folded D'_def]
      restrict_with_page[OF y(2), of x ovs p2, folded D'_def]
    by (intro exI[of _ y] exI[of _ D']) simp
qed

text \<open>
  The writer after it wrote \<open>enc\<close> from the beginning of the node: its pages are linked, it can have \<open>k\<close>
  overflow pages in all, and \<open>R\<close> are the pages of others.
\<close>

definition written :: "bytes \<Rightarrow> address \<Rightarrow> (address \<rightharpoonup> bytes) \<Rightarrow> nat \<Rightarrow> nat \<Rightarrow> 's node_writer \<Rightarrow> bytes \<Rightarrow> bool" where
  "written h x R k m w enc \<longleftrightarrow> (\<exists>D r ovs. wst w h D r x ovs \<and> overflow_chain D ovs \<and> first_link D x ovs \<and>
     agrees (node_bytes D x ovs) enc \<and> nw_max_offset w = m \<and> r + length ovs = k \<and> D |` (- set (x # ovs)) = R)"

lemma allocate_pages_ok:
  assumes "written h x R k m w enc" "15 < sz" "length (nw_overflows w) + n \<le> k"
  shows "ok (allocate_pages M n w) (\<lambda>w'. written h x R k m w' enc \<and> length (nw_overflows w') = length (nw_overflows w) + n)"
  using assms
proof (induction n arbitrary: w)
  case (Suc n)
  from Suc.prems(1) obtain D r ovs where w: "wst w h D r x ovs" "overflow_chain D ovs" "first_link D x ovs"
    "agrees (node_bytes D x ovs) enc" "nw_max_offset w = m" "r + length ovs = k" "D |` (- set (x # ovs)) = R"
    by (auto simp: written_def)
  have ovs: "nw_overflows w = ovs"
    using w(1) by (simp add: wst_def)
  obtain r' where r': "r = Suc r'"
    using w(6) Suc.prems(3) ovs by (cases r) auto
  from allocate_new_page_ok[OF w(1)[unfolded r'] Suc.prems(2) w(2,3)] obtain w' y D' where
    w': "allocate_new_page M w = Some w'" "y \<notin> dom D" "wst w' h D' r' x (ovs @ [y])" "nw_max_offset w' = m"
      "overflow_chain D' (ovs @ [y])" "first_link D' x (ovs @ [y])"
      "\<forall>i < length (node_bytes D x ovs). i < 7 \<or> 15 \<le> i \<longrightarrow> node_bytes D' x (ovs @ [y]) ! i = node_bytes D x ovs ! i"
      "D' |` (- set (x # ovs @ [y])) = R"
    unfolding w(5) w(7) by (elim ok_obtain exE conjE)
  have "length (node_bytes D x ovs) \<le> length (node_bytes D' x (ovs @ [y]))"
    using length_node_bytes[of D sz x ovs] length_node_bytes[of D' sz x "ovs @ [y]"] w(1) w'(3) by (simp add: wst_def)
  then have "agrees (node_bytes D' x (ovs @ [y])) enc"
    using w(4) w'(7) by (auto simp: agrees_def)
  moreover have "r' + length (ovs @ [y]) = k"
    using w(6) r' by simp
  ultimately have "written h x R k m w' enc"
    unfolding written_def using w'(3-6,8) by blast
  moreover have "length (nw_overflows w') = length ovs + 1"
    using w'(3) by (simp add: wst_def)
  ultimately show ?case
    using Suc.IH[of w'] Suc.prems(2,3) w'(1) ovs by (simp add: add.commute)
qed simp

lemma agrees_append:
  assumes "agrees F enc" "length enc + length src \<le> length F"
  shows "agrees (overwrite F (length enc) src) (enc @ src)"
  using assms by (auto simp: agrees_def nth_overwrite nth_append)

lemma chain_cong:
  assumes "overflow_chain D ovs" "\<forall>v \<in> set ovs. take 11 (the (D' v)) = take 11 (the (D v))"
  shows "overflow_chain D' ovs"
  using assms by (simp add: overflow_chain_def)

lemma first_link_bytes:
  "node_pages D ps x ovs \<Longrightarrow> 15 \<le> ps \<Longrightarrow> first_link D x ovs \<longleftrightarrow> subrange (node_bytes D x ovs) 7 8 = to_le_bytes 8 (next_page ovs 0)"
  by (simp add: first_link_def node_bytes_def node_pages_def subrange_append1)

lemma nw_append_ok:
  assumes w: "written h x R k (length enc) w enc" and sz: "15 < sz" and e: "15 \<le> length enc"
    and lim: "length enc + length src \<le> U64_MAX" "pages_needed sz (length enc + length src) \<le> k"
  shows "ok (nw_write M w (length enc) src) (\<lambda>w'. written h x R k (length enc + length src) w' (enc @ src))"
proof -
  let ?e = "length enc + length src"
  define w1 where "w1 = w\<lparr>nw_max_offset := ?e\<rparr>"
  have w1: "written h x R k ?e w1 enc" "page_size_get (nw_page_size w1) = Some sz" "nw_max_offset w = length enc"
    using w by (auto simp: written_def w1_def wst_def)
  have code: "nw_write M w (length enc) src = (if ?e < sz then do {
       addr \<leftarrow> u64_add (nw_address w1) (length enc);
       s \<leftarrow> write_grow M (nw_memory w1) addr src;
       Some (set_memory w1 s) }
     else do {
       w \<leftarrow> allocate_pages M (pages_needed sz ?e - length (nw_overflows w1)) w1;
       nw_loop M src \<lparr>ni_address = length enc, ni_length = length src, ni_page_size = sz, ni_overflow_page_capacity = sz - 11\<rparr> 0 w })"
    using lim(1) w1(2,3) sz compute_num_ok[of sz ?e]
    by (simp add: nw_write_def u64_add_def u64_sub_def w1_def node_iterator_new_def page_consts max_def)
  show ?thesis
  proof (cases "?e < sz")
    case True
    from w1(1) obtain D r ovs where w: "wst w1 h D r x ovs" "overflow_chain D ovs" "first_link D x ovs"
      "agrees (node_bytes D x ovs) enc" "nw_max_offset w1 = ?e" "r + length ovs = k" "D |` (- set (x # ovs)) = R"
      by (auto simp: written_def)
    have x: "x \<in> set (x # ovs)" and pg: "node_pages D sz x ovs" and a: "prep (nw_allocator w1) h D r" "nw_address w1 = x"
      using w(1) by (simp_all add: wst_def)
    obtain p where p: "D x = Some p" "length p = sz" "x + sz \<le> U64_MAX"
      by (rule wst_page[OF w(1) x])
    define p' where "p' = overwrite p (length enc) src"
    from write_grow_law[OF a(1) p(1), of "length enc" src] True obtain s where
      s: "write_grow M (nw_memory w1) (x + length enc) src = Some s" "prep ((nw_allocator w1)\<lparr>al_memory := s\<rparr>) h (D(x \<mapsto> p')) r"
      by (auto simp: p'_def elim!: ok_obtain)
    note w2 = wst_write[OF w(1) s(2) x]
    have nb: "node_bytes (D(x \<mapsto> p')) x ovs = overwrite (node_bytes D x ovs) (length enc) src"
      using node_bytes_first[OF pg, of p'] p True by (simp add: node_bytes_def p'_def overwrite_append1)
    have "agrees (node_bytes (D(x \<mapsto> p')) x ovs) (enc @ src)"
      unfolding nb using w(4) length_node_bytes[OF pg] True by (intro agrees_append) auto
    moreover have "first_link (D(x \<mapsto> p')) x ovs"
      using w(3) p e True subrange_overwrite_other[of "length enc" src p 7 8] by (simp add: first_link_def p'_def)
    moreover have "overflow_chain (D(x \<mapsto> p')) ovs"
      using pg by (intro chain_cong[OF w(2)]) (auto simp: node_pages_def)
    moreover have "(D(x \<mapsto> p')) |` (- set (x # ovs)) = R"
      using w(7) restrict_upd_inside[OF x, of D] by metis
    ultimately have "written h x R k ?e (set_memory w1 s) (enc @ src)"
      unfolding written_def using w2 w(5,6) by metis
    then show ?thesis
      using True s(1) p(3) a(2) by (simp add: code u64_add_def)
  next
    case False
    have "length (nw_overflows w1) \<le> k"
      using w1(1) by (auto simp: written_def wst_def)
    then have "length (nw_overflows w1) + (pages_needed sz ?e - length (nw_overflows w1)) \<le> k"
      using lim(2) by linarith
    from allocate_pages_ok[OF w1(1) sz this] obtain w2 where w2: "allocate_pages M (pages_needed sz ?e - length (nw_overflows w1)) w1 = Some w2"
      "written h x R k ?e w2 enc" "pages_needed sz ?e \<le> length (nw_overflows w2)"
      by (auto elim!: ok_obtain)
    from w2(2) obtain D r ovs where w: "wst w2 h D r x ovs" "overflow_chain D ovs" "first_link D x ovs"
      "agrees (node_bytes D x ovs) enc" "nw_max_offset w2 = ?e" "r + length ovs = k" "D |` (- set (x # ovs)) = R"
      by (auto simp: written_def)
    have pg: "node_pages D sz x ovs" and ovs: "nw_overflows w2 = ovs"
      using w(1) by (simp_all add: wst_def)
    have "pages_needed sz ?e * (sz - 11) \<le> length ovs * (sz - 11)"
      using w2(3) ovs by (intro mult_le_mono1) simp
    then have fit: "?e \<le> length (node_bytes D x ovs)"
      using pages_needed_enough[of sz ?e] length_node_bytes[OF pg] sz by linarith
    from nw_loop_ok[OF w(1), of "length enc" "length src" 0 src] fit sz lim(1) obtain w3 D' where
      w3: "nw_loop M src \<lparr>ni_address = length enc, ni_length = length src, ni_page_size = sz, ni_overflow_page_capacity = sz - 11\<rparr> 0 w2 = Some w3"
        "wst w3 h D' r x ovs" "nw_max_offset w3 = ?e" "node_bytes D' x ovs = overwrite (node_bytes D x ovs) (length enc) src"
        "\<forall>v \<in> set ovs. take 11 (the (D' v)) = take 11 (the (D v))" "D' |` (- set (x # ovs)) = R"
      unfolding w(5,7) by (auto elim!: ok_obtain)
    have pg': "node_pages D' sz x ovs"
      using w3(2) by (simp add: wst_def)
    have "first_link D' x ovs"
      using w(3) first_link_bytes[OF pg] first_link_bytes[OF pg'] sz e fit subrange_overwrite_other[of "length enc" src "node_bytes D x ovs" 7 8]
      by (simp add: w3(4) del: to_le_bytes.simps)
    then have "written h x R k ?e w3 (enc @ src)"
      unfolding written_def using w3(2,3,6) chain_cong[OF w(2) w3(5)] agrees_append[OF w(4) fit] w(6)
      by (metis w3(4))
    then show ?thesis
      using False w2(1) w3(1) by (simp add: code)
  qed
qed

lemma deallocate_pages_ok:
  assumes "wst w h D r x ovs" "n \<le> length ovs"
  shows "ok (deallocate_pages M n w) (\<lambda>w'. \<exists>D'. wst w' h D' (r + n) x (take (length ovs - n) ovs) \<and>
    nw_max_offset w' = nw_max_offset w \<and> (\<forall>v \<in> set (x # take (length ovs - n) ovs). D' v = D v) \<and>
    D' |` (- set (x # take (length ovs - n) ovs)) = D |` (- set (x # ovs)))"
  using assms
proof (induction n arbitrary: w D r ovs)
  case 0
  then show ?case by auto
next
  case (Suc n)
  then obtain us v where ovs: "ovs = us @ [v]"
    by (cases ovs rule: rev_cases) auto
  have w: "prep (nw_allocator w) h D r" "nw_address w = x" "nw_overflows w = us @ [v]" "page_size_get (nw_page_size w) = Some sz"
    "node_pages D sz x (us @ [v])"
    using Suc.prems(1) by (simp_all add: wst_def ovs)
  have v: "v \<in> dom D" "v \<notin> set (x # us)"
    using w(5) by (auto simp: node_pages_def)
  from free_law[OF w(1) v(1)] obtain a where a: "deallocate M (nw_allocator w) v = Some a" "prep a h (D(v := None)) (Suc r)"
    by (auto elim!: ok_obtain)
  define w1 where "w1 = w\<lparr>nw_allocator := a, nw_overflows := us\<rparr>"
  have w1: "wst w1 h (D(v := None)) (Suc r) x us" "nw_max_offset w1 = nw_max_offset w"
    using a(2) w v(2) by (auto simp: wst_def w1_def node_pages_def)
  have "n \<le> length us"
    using Suc.prems(2) ovs by simp
  from Suc.IH[OF w1(1) this] obtain w' D' where w': "deallocate_pages M n w1 = Some w'" "wst w' h D' (Suc r + n) x (take (length us - n) us)"
    "nw_max_offset w' = nw_max_offset w" "\<forall>u \<in> set (x # take (length us - n) us). D' u = (D(v := None)) u"
    "D' |` (- set (x # take (length us - n) us)) = (D(v := None)) |` (- set (x # us))"
    unfolding w1(2) by (elim ok_obtain exE conjE)
  have tk: "take (length ovs - Suc n) ovs = take (length us - n) us"
    by (simp add: ovs)
  have "(D(v := None)) |` (- set (x # us)) = D |` (- set (x # ovs))"
    by (auto simp: restrict_map_def ovs)
  moreover have "\<forall>u \<in> set (x # take (length us - n) us). D' u = D u"
    using w'(4) v(2) by (auto dest: in_set_takeD)
  moreover have "deallocate_pages M (Suc n) w = Some w'"
    using a(1) w(3) w'(1) by (simp add: w1_def)
  ultimately show ?case
    using w'(2,3,5) unfolding tk by auto
qed

end

text \<open>The last page is told that there is no other.\<close>

definition end_chain :: "(address \<rightharpoonup> bytes) \<Rightarrow> address \<Rightarrow> address list \<Rightarrow> (address \<rightharpoonup> bytes)" where
  "end_chain D x ovs = (let v = last (x # ovs); off = (if ovs = [] then 7 else 3) in
     D(v \<mapsto> overwrite (the (D v)) off (to_le_bytes 8 NULL)))"

lemma overflow_chain_end:
  assumes pg: "node_pages D ps x ovs" and ps: "15 < ps" and ch: "overflow_chain D (ovs @ us)"
  shows "overflow_chain (end_chain D x ovs) ovs"
  unfolding overflow_chain_def
proof (intro allI impI)
  fix i
  assume i: "i < length ovs"
  have old: "take 11 (the (D (ovs ! i))) = OVERFLOW_MAGIC @ to_le_bytes 8 (next_page (ovs @ us) (Suc i))"
    using ch i by (auto simp: overflow_chain_def nth_append dest!: spec[of _ i])
  have dist: "distinct ovs" "ovs \<noteq> []" "length (the (D (ovs ! i))) = ps"
    using pg i by (auto simp: node_pages_def)
  show "take 11 (the (end_chain D x ovs (ovs ! i))) = OVERFLOW_MAGIC @ to_le_bytes 8 (next_page ovs (Suc i))"
  proof (cases "Suc i = length ovs")
    case True
    then have "last (x # ovs) = ovs ! i"
      using dist(2) by (simp add: last_conv_nth flip: True)
    moreover have "take 11 (overwrite (the (D (ovs ! i))) 3 (to_le_bytes 8 NULL)) = take 3 (take 11 (the (D (ovs ! i)))) @ to_le_bytes 8 NULL"
      using ps dist(3) by (simp add: overwrite_def)
    ultimately show ?thesis
      using dist(2) True unfolding old by (simp add: end_chain_def Let_def next_page_def OVERFLOW_MAGIC_def del: to_le_bytes.simps)
  next
    case False
    then have "last (x # ovs) \<noteq> ovs ! i"
      using dist i nth_eq_iff_index_eq[of ovs i "length ovs - 1"] by (auto simp: last_conv_nth)
    then show ?thesis
      using old False i by (simp add: end_chain_def Let_def next_page_def nth_append)
  qed
qed

lemma first_link_end:
  assumes pg: "node_pages D ps x ovs" and ps: "15 < ps" and fl: "first_link D x (ovs @ us)"
  shows "first_link (end_chain D x ovs) x ovs"
proof (cases "ovs = []")
  case True
  then show ?thesis
    using subrange_overwrite_same[of 7 "to_le_bytes 8 NULL" "the (D x)"] pg ps
    by (simp add: first_link_def next_page_def end_chain_def node_pages_def del: to_le_bytes.simps)
next
  case False
  then have "last (x # ovs) \<noteq> x"
    using pg last_in_set[of ovs] by (auto simp: node_pages_def)
  then show ?thesis
    using False fl by (simp add: first_link_def next_page_def end_chain_def Let_def nth_append)
qed

lemma node_bytes_end:
  assumes pg: "node_pages D ps x ovs" and ps: "15 < ps"
  shows "node_pages (end_chain D x ovs) ps x ovs"
    and "agrees (node_bytes D x ovs) enc \<Longrightarrow> agrees (node_bytes (end_chain D x ovs) x ovs) enc"
    and "end_chain D x ovs |` (- set (x # ovs)) = D |` (- set (x # ovs))"
proof -
  define v where "v = last (x # ovs)"
  have v: "v \<in> set (x # ovs)"
    using last_in_set[of "x # ovs"] by (simp add: v_def del: last.simps)
  have lv: "length (the (D v)) = ps" "length (the (D x)) = ps"
    using pg v by (auto simp: node_pages_def)
  show "node_pages (end_chain D x ovs) ps x ovs"
    unfolding end_chain_def Let_def v_def[symmetric] using ps lv by (intro node_pages_upd[OF pg _ v]) auto
  show "end_chain D x ovs |` (- set (x # ovs)) = D |` (- set (x # ovs))"
    unfolding end_chain_def Let_def v_def[symmetric] by (rule restrict_upd_inside[OF v])
  assume ag: "agrees (node_bytes D x ovs) enc"
  show "agrees (node_bytes (end_chain D x ovs) x ovs) enc"
  proof (cases "ovs = []")
    case True
    then show ?thesis
      using ag lv(2) ps by (auto simp: agrees_def node_bytes_def end_chain_def nth_overwrite)
  next
    case False
    then have "v \<in> set ovs" "end_chain D x ovs = D(v \<mapsto> overwrite (the (D v)) 3 (to_le_bytes 8 NULL))"
      by (simp_all add: v_def end_chain_def Let_def)
    then show ?thesis
      using node_bytes_header[OF pg, of v 3 "to_le_bytes 8 NULL"] ag ps by simp
  qed
qed

context page_store
begin

lemma nw_finish_ok:
  assumes w: "written h x R k (length enc) w enc" and sz: "15 < sz"
  shows "ok (nw_finish M w) (\<lambda>(ovs, a). \<exists>D. prep a h D (k - length ovs) \<and> node_pages D sz x ovs \<and> overflow_chain D ovs \<and>
    first_link D x ovs \<and> agrees (node_bytes D x ovs) enc \<and> length ovs = pages_needed sz (length enc) \<and> length ovs \<le> k \<and>
    D |` (- set (x # ovs)) = R)"
proof -
  from w obtain D r ovs where w: "wst w h D r x ovs" "overflow_chain D ovs" "first_link D x ovs"
    "agrees (node_bytes D x ovs) enc" "nw_max_offset w = length enc" "r + length ovs = k" "D |` (- set (x # ovs)) = R"
    by (auto simp: written_def)
  define n where "n = pages_needed sz (length enc)"
  define us where "us = take n ovs"
  have pg: "node_pages D sz x ovs" and ovs: "nw_overflows w = ovs" and ps: "page_size_get (nw_page_size w) = Some sz"
    using w(1) by (simp_all add: wst_def)
  have n: "n \<le> length ovs"
    using pages_needed_least[of sz "length enc" "length ovs"] w(4) length_node_bytes[OF pg] sz by (simp add: n_def agrees_def)
  from deallocate_pages_ok[OF w(1), of "length ovs - n"] n obtain w1 D1 where
    w1: "deallocate_pages M (length ovs - n) w = Some w1" "wst w1 h D1 (r + (length ovs - n)) x us"
      "\<forall>v \<in> set (x # us). D1 v = D v" "D1 |` (- set (x # us)) = R"
    unfolding w(7) by (auto simp: us_def elim!: ok_obtain)
  have a1: "prep (nw_allocator w1) h D1 (r + (length ovs - n))" and pg1: "node_pages D1 sz x us"
    and f1: "nw_address w1 = x" "nw_overflows w1 = us"
    using w1(2) by (simp_all add: wst_def)
  have nb1: "node_bytes D1 x us = take (sz + length us * (sz - 11)) (node_bytes D x ovs)"
  proof -
    have "node_bytes D x ovs = node_bytes D1 x us @ concat (map (\<lambda>v. drop 11 (the (D v))) (drop n ovs))"
      using w1(3) append_take_drop_id[of n ovs]
      by (metis (no_types, lifting) append.assoc concat_append list.set_intros(1,2) map_append map_cong node_bytes_def us_def)
    then show ?thesis
      using length_node_bytes[OF pg1] by simp
  qed
  have "length enc \<le> sz + length us * (sz - 11)"
    using pages_needed_enough[of sz "length enc"] sz n by (simp add: us_def n_def)
  then have ag1: "agrees (node_bytes D1 x us) enc"
    using w(4) unfolding nb1 by (auto simp: agrees_def)
  have split: "us @ drop n ovs = ovs"
    by (simp add: us_def)
  define v where "v = last (x # us)"
  define off where "off = (if us = [] then 7 else 3 :: nat)"
  have v: "v \<in> set (x # us)"
    using last_in_set[of "x # us"] by (simp add: v_def del: last.simps)
  obtain q where q: "D1 v = Some q" "length q = sz" "v + sz \<le> U64_MAX"
    by (rule wst_page[OF w1(2) v])
  have off: "off + 8 \<le> sz" and D2: "end_chain D1 x us = D1(v \<mapsto> overwrite q off (to_le_bytes 8 NULL))"
    using sz q(1) by (simp_all add: off_def end_chain_def v_def Let_def)
  from write_grow_law[OF a1 q(1), of off "to_le_bytes 8 NULL"] off obtain s where
    s: "write_u64 M (nw_memory w1) (v + off) NULL = Some s"
       "prep ((nw_allocator w1)\<lparr>al_memory := s\<rparr>) h (end_chain D1 x us) (r + (length ovs - n))"
    by (auto simp: write_u64_def D2 elim!: ok_obtain)
  have link: "link_address w1 = Some (v + off)"
    using q(3) off by (auto simp: link_address_def f1 v_def off_def page_consts u64_add_def split: list.split)
  have code: "nw_finish M w = Some (us, (nw_allocator w1)\<lparr>al_memory := s\<rparr>)"
    using ps ovs n w1(1) link s(1) sz
    by (simp add: nw_finish_def deallocate_unused_pages_def compute_num_ok w(5) n_def[symmetric] set_memory_def f1)
  have "overflow_chain D (us @ drop n ovs)" "first_link D x (us @ drop n ovs)" "node_pages D sz x us"
    using w(2,3) split pg by (auto simp: node_pages_def us_def dest: in_set_takeD)
  then have "overflow_chain (end_chain D x us) us" "first_link (end_chain D x us) x us"
    using overflow_chain_end[of D sz x us] first_link_end[of D sz x us] sz by blast+
  then have "overflow_chain (end_chain D1 x us) us" "first_link (end_chain D1 x us) x us"
    using w1(3) v by (auto simp: overflow_chain_def first_link_def end_chain_def Let_def v_def)
  moreover have "k - length us = r + (length ovs - n)" "length us = n" "length us \<le> k"
    using w(6) n by (simp_all add: us_def)
  ultimately show ?thesis
    unfolding code using s(2) node_bytes_end[OF pg1 sz] ag1 w1(4) by (auto simp: n_def intro!: exI[of _ "end_chain D1 x us"])
qed

end

end
