(* ===== verification/Node_Heap.thy ===== *)
theory Node_Heap
  imports Node_Pages
begin

text \<open>
  The pages of an allocator as a heap of nodes: \<open>W x = Some (ovs, F)\<close> says that a node starts at page \<open>x\<close>,
  has the overflow pages \<open>ovs\<close>, and that its bytes are \<open>F\<close>. The pages of different nodes are disjoint and
  every page in use belongs to a node, so nothing leaks. This is the view of the memory in which the
  operations on nodes are specified: one node is read or replaced, the others stay.
\<close>

type_synonym node_heap = "address \<rightharpoonup> address list \<times> bytes"

definition pages_of :: "node_heap \<Rightarrow> address \<Rightarrow> address set" where
  "pages_of W x = (case W x of None \<Rightarrow> {} | Some (ovs, F) \<Rightarrow> set (x # ovs))"

definition heap_pages :: "nbytes \<Rightarrow> (address \<rightharpoonup> bytes) \<Rightarrow> node_heap \<Rightarrow> bool" where
  "heap_pages ps D W \<longleftrightarrow>
     (\<forall>x ovs F. W x = Some (ovs, F) \<longrightarrow> node_pages D ps x ovs \<and> overflow_chain D ovs \<and> F = node_bytes D x ovs) \<and>
     (\<forall>x y. x \<noteq> y \<longrightarrow> pages_of W x \<inter> pages_of W y = {}) \<and> dom D = (\<Union>x. pages_of W x)"

lemma pages_of_simps [simp]:
  "pages_of (W(x \<mapsto> (ovs, F))) y = (if y = x then set (x # ovs) else pages_of W y)"
  "pages_of (W(x := None)) y = (if y = x then {} else pages_of W y)"
  "W x = Some (ovs, F) \<Longrightarrow> pages_of W x = set (x # ovs)"
  "W x = None \<Longrightarrow> pages_of W x = {}"
  by (simp_all add: pages_of_def)

lemma heap_pagesD:
  assumes "heap_pages ps D W" "W x = Some (ovs, F)"
  shows "node_pages D ps x ovs" "overflow_chain D ovs" "F = node_bytes D x ovs"
  using assms unfolding heap_pages_def by blast+

lemma dom_others:
  assumes "heap_pages ps D W"
  shows "dom D - pages_of W x = (\<Union>y \<in> - {x}. pages_of W y)"
proof -
  have U: "dom D = (\<Union>y. pages_of W y)" and disj: "y \<noteq> x \<Longrightarrow> pages_of W y \<inter> pages_of W x = {}" for y
    using assms by (simp_all add: heap_pages_def)
  show ?thesis
  proof (rule set_eqI)
    fix u
    show "u \<in> dom D - pages_of W x \<longleftrightarrow> u \<in> (\<Union>y \<in> - {x}. pages_of W y)"
      unfolding U using disj[THEN equals0D, of _ u] by auto
  qed
qed

lemma node_bytes_cong: "(\<And>u. u \<in> set (x # ovs) \<Longrightarrow> D' u = D u) \<Longrightarrow> node_bytes D' x ovs = node_bytes D x ovs"
  unfolding node_bytes_def by (simp cong: map_cong)

lemma heap_pages_keep:
  assumes "heap_pages ps D W" "W y = Some (ovs, F)" "\<And>u. u \<in> set (y # ovs) \<Longrightarrow> D' u = D u"
  shows "node_pages D' ps y ovs \<and> overflow_chain D' ovs \<and> F = node_bytes D' y ovs"
proof -
  note y = heap_pagesD[OF assms(1,2)]
  have "node_pages D' ps y ovs" "overflow_chain D' ovs"
    using y(1,2) assms(3) by (auto simp: node_pages_def overflow_chain_def domD)
  then show ?thesis
    using y(3) node_bytes_cong[of y ovs D' D] assms(3) by simp
qed

text \<open>The pages of one node are replaced, those of the others are not touched.\<close>

lemma restrict_eq_outside: "D' |` (- A) = D |` (- B) \<Longrightarrow> u \<notin> A \<Longrightarrow> u \<notin> B \<Longrightarrow> D' u = D u"
  by (metis ComplI restrict_in)

lemma restrict_eq_None: "D' |` (- A) = D |` (- B) \<Longrightarrow> u \<in> A \<Longrightarrow> u \<notin> B \<Longrightarrow> D u = None"
  by (metis ComplD ComplI restrict_in restrict_out)

lemma heap_pages_upd:
  assumes hp: "heap_pages ps D W" and W: "W x = Some (ovs, F) \<or> W x = None \<and> ovs' = [] \<and> P = {}"
    and P: "P = pages_of W x"
    and new: "node_pages D' ps x ovs'" "overflow_chain D' ovs'"
    and rest: "D' |` (- set (x # ovs')) = D |` (- P)"
  shows "heap_pages ps D' (W(x \<mapsto> (ovs', node_bytes D' x ovs')))"
proof -
  have disj: "pages_of W y \<inter> P = {}" if "y \<noteq> x" for y
    using hp that by (auto simp: heap_pages_def P)
  have fresh: "pages_of W y \<inter> set (x # ovs') = {}" if "y \<noteq> x" for y
  proof -
    have "u \<notin> set (x # ovs')" if u: "u \<in> pages_of W y" for u
    proof
      assume "u \<in> set (x # ovs')"
      then have "D u = None"
        using restrict_eq_None[OF rest] disj[OF \<open>y \<noteq> x\<close>] u by blast
      then show False
        using hp u unfolding heap_pages_def by (metis UN_I UNIV_I domIff)
    qed
    then show ?thesis by blast
  qed
  have A: "node_pages D' ps y us \<and> overflow_chain D' us \<and> G = node_bytes D' y us"
    if "(W(x \<mapsto> (ovs', node_bytes D' x ovs'))) y = Some (us, G)" for y us G
  proof (cases "y = x")
    case True
    then show ?thesis
      using that new by auto
  next
    case False
    then have y: "W y = Some (us, G)"
      using that by simp
    show ?thesis
    proof (rule heap_pages_keep[OF hp y])
      fix u
      assume "u \<in> set (y # us)"
      then have "u \<in> pages_of W y"
        using y by simp
      then show "D' u = D u"
        using restrict_eq_outside[OF rest] fresh[OF False] disj[OF False] by blast
    qed
  qed
  have B: "pages_of (W(x \<mapsto> (ovs', G))) y \<inter> pages_of (W(x \<mapsto> (ovs', G))) z = {}" if "y \<noteq> z" for y z G
    using that fresh[of y] fresh[of z] hp by (cases "y = x"; cases "z = x") (auto simp: heap_pages_def)
  have C: "dom D' = (\<Union>y. pages_of (W(x \<mapsto> (ovs', G))) y)" for G
  proof -
    have "dom D' = set (x # ovs') \<union> (dom D - P)"
    proof (rule set_eqI)
      fix u
      have "u \<in> set (x # ovs') \<Longrightarrow> u \<in> dom D'" "u \<in> set (x # ovs') \<Longrightarrow> u \<notin> P \<Longrightarrow> u \<notin> dom D"
        using new(1) restrict_eq_None[OF rest, of u] by (auto simp: node_pages_def)
      moreover have "u \<in> P \<Longrightarrow> u \<notin> set (x # ovs') \<Longrightarrow> D' u = None"
        using restrict_eq_None[OF rest[symmetric], of u] by blast
      moreover have "u \<notin> P \<Longrightarrow> u \<notin> set (x # ovs') \<Longrightarrow> D' u = D u"
        using restrict_eq_outside[OF rest, of u] by blast
      ultimately show "u \<in> dom D' \<longleftrightarrow> u \<in> set (x # ovs') \<union> (dom D - P)"
        by (cases "u \<in> set (x # ovs')"; cases "u \<in> P") (simp_all add: domIff)
    qed
    moreover have "dom D - P = (\<Union>y \<in> - {x}. pages_of W y)"
      unfolding P by (rule dom_others[OF hp])
    ultimately show ?thesis by auto
  qed
  show ?thesis
    unfolding heap_pages_def
    by (rule conjI, intro allI impI, rule A, assumption, rule conjI, intro allI impI, rule B, assumption, rule C)
qed

lemma heap_pages_free:
  assumes hp: "heap_pages ps D W" and rest: "D' = D |` (- pages_of W x)"
  shows "heap_pages ps D' (W(x := None))"
proof -
  have keep: "D' u = D u" if "u \<in> pages_of W y" "y \<noteq> x" for u y
    using hp that rest unfolding heap_pages_def by (metis ComplI disjoint_iff restrict_in)
  have "node_pages D' ps y us \<and> overflow_chain D' us \<and> G = node_bytes D' y us" if "(W(x := None)) y = Some (us, G)" for y us G
  proof -
    have y: "W y = Some (us, G)" "y \<noteq> x"
      using that by (auto split: if_splits)
    show ?thesis
      using keep[of _ y] y by (intro heap_pages_keep[OF hp y(1)]) simp
  qed
  moreover have "dom D' = (\<Union>y. pages_of (W(x := None)) y)"
    using dom_others[OF hp, of x] unfolding rest dom_restrict by (auto split: if_splits)
  ultimately show ?thesis
    using hp unfolding heap_pages_def by auto
qed

context page_store
begin

definition heap :: "'s allocator \<Rightarrow> bytes \<Rightarrow> node_heap \<Rightarrow> nat \<Rightarrow> bool" where
  "heap a h W r \<longleftrightarrow> (\<exists>D. prep a h D r \<and> heap_pages sz D W)"

lemma heap_less: "heap a h W r \<Longrightarrow> r' \<le> r \<Longrightarrow> heap a h W r'"
  unfolding heap_def by (blast intro: less_law)

lemma heap_node:
  assumes "heap a h W r" "W x = Some (ovs, F)"
  shows "length F = sz + length ovs * (sz - 11)" "length F \<le> U64_MAX" "H + 64 \<le> x" "x + sz \<le> U64_MAX" "distinct (x # ovs)"
proof -
  obtain D where D: "prep a h D r" "heap_pages sz D W"
    using assms(1) by (auto simp: heap_def)
  note x = heap_pagesD[OF D(2) assms(2)]
  show "length F = sz + length ovs * (sz - 11)" "length F \<le> U64_MAX" "distinct (x # ovs)"
    using length_node_bytes[OF x(1)] pages_bound[OF D(1) x(1)] x by (simp_all add: node_pages_def)
  obtain p where "D x = Some p"
    using x(1) by (auto simp: node_pages_def)
  from page_law[OF D(1) this] show "H + 64 \<le> x" "x + sz \<le> U64_MAX"
    by simp_all
qed

lemma heap_read:
  assumes "heap a h W r" "W x = Some (ovs, F)" "11 < sz" "page_size_get pg = Some sz" "off + n \<le> length F"
  shows "ok (read_to_vec (NodeReader M \<lparr>nr_address = x, nr_overflows = ovs, nr_page_size = pg\<rparr>) (al_memory a) off n)
    (\<lambda>(bs, s). bs = subrange F off n \<and> heap (a\<lparr>al_memory := s\<rparr>) h W r)"
proof -
  obtain D where D: "prep a h D r" "heap_pages sz D W"
    using assms(1) by (auto simp: heap_def)
  note x = heap_pagesD[OF D(2) assms(2)]
  have "ok (nr_read M \<lparr>nr_address = x, nr_overflows = ovs, nr_page_size = pg\<rparr> (al_memory a) off n)
    (\<lambda>(bs, s). bs = subrange F off n \<and> prep (a\<lparr>al_memory := s\<rparr>) h D r)"
    using nr_read_ok[OF D(1) x(1) assms(3,4)] assms(5) unfolding x(3) by blast
  then show ?thesis
    unfolding read_to_vec_def NodeReader_def memory_ops.simps using D(2) by (auto simp: heap_def elim!: ok_mono)
qed

lemma heap_read_page:
  assumes "heap a h W r" "W x = Some (ovs, F)" "off + n \<le> sz"
  shows "ok (read_op M (al_memory a) (x + off) n) (\<lambda>(bs, s). bs = subrange F off n \<and> heap (a\<lparr>al_memory := s\<rparr>) h W r)"
proof -
  obtain D where D: "prep a h D r" "heap_pages sz D W"
    using assms(1) by (auto simp: heap_def)
  note x = heap_pagesD[OF D(2) assms(2)]
  obtain p where p: "D x = Some p" "length p = sz"
    using x(1) by (auto simp: node_pages_def)
  have "subrange F off n = subrange p off n"
    using p assms(3) by (simp add: x(3) node_bytes_def subrange_append1)
  then show ?thesis
    using read_law[OF D(1) p(1) assms(3)] D(2) by (auto simp: heap_def elim!: ok_mono)
qed

text \<open>A write inside the initial page of a node without overflow pages.\<close>

lemma heap_write_page:
  assumes "heap a h W r" "W x = Some ([], F)" "off + length bs \<le> sz"
  shows "ok (write_grow M (al_memory a) (x + off) bs) (\<lambda>s. heap (a\<lparr>al_memory := s\<rparr>) h (W(x \<mapsto> ([], overwrite F off bs))) r)"
proof -
  obtain D where D: "prep a h D r" "heap_pages sz D W"
    using assms(1) by (auto simp: heap_def)
  note x = heap_pagesD[OF D(2) assms(2)]
  obtain p where p: "D x = Some p" "length p = sz" "F = p"
    using x by (auto simp: node_pages_def node_bytes_def)
  have pg: "node_pages (D(x \<mapsto> overwrite p off bs)) sz x []"
    using p assms(3) by (simp add: node_pages_def)
  have nb: "node_bytes (D(x \<mapsto> overwrite p off bs)) x [] = overwrite F off bs"
    by (simp add: node_bytes_def p(3))
  have "heap_pages sz (D(x \<mapsto> overwrite p off bs)) (W(x \<mapsto> ([], overwrite F off bs)))"
    unfolding nb[symmetric] using pg assms(2) restrict_upd_inside[of x "{x}" D]
    by (intro heap_pages_upd[OF D(2), where P = "{x}"]) (simp_all only: pages_of_simps overflow_chain_def list.set list.size; simp)+
  then show ?thesis
    unfolding heap_def by (intro ok_mono[OF write_grow_law[OF D(1) p(1) assms(3)]]) blast
qed

lemma heap_alloc:
  assumes "heap a h W (Suc r)"
  shows "ok (allocate M a) (\<lambda>(x, a'). x \<notin> dom W \<and> (\<exists>F. heap a' h (W(x \<mapsto> ([], F))) r))"
proof -
  obtain D where D: "prep a h D (Suc r)" "heap_pages sz D W"
    using assms(1) by (auto simp: heap_def)
  from alloc_law[OF D(1)] obtain x a' p where x: "allocate M a = Some (x, a')" "x \<notin> dom D" "prep a' h (D(x \<mapsto> p)) r"
    by (auto elim!: ok_obtain)
  have "length p = sz"
    using page_law[OF x(3), of x p] by simp
  then have pg: "node_pages (D(x \<mapsto> p)) sz x []" "node_bytes (D(x \<mapsto> p)) x [] = p"
    by (simp_all add: node_pages_def node_bytes_def)
  have Wx: "W x = None"
    using heap_pagesD(1)[OF D(2)] x(2) by (cases "W x") (force simp: node_pages_def)+
  have "(D(x \<mapsto> p)) |` (- set [x]) = D |` (- {})"
    using x(2) by (auto simp: restrict_map_def)
  then have "heap_pages sz (D(x \<mapsto> p)) (W(x \<mapsto> ([], p)))"
    using heap_pages_upd[OF D(2), of x "[]" p "[]" "{}" "D(x \<mapsto> p)"] pg Wx by (simp add: overflow_chain_def)
  with x(1,3) Wx show ?thesis
    by (auto simp: heap_def)
qed

lemma heap_clear: "heap a h W r \<Longrightarrow> ok (allocator_clear M a) (\<lambda>a'. heap a' h Map.empty r)"
proof -
  assume "heap a h W r"
  then obtain D where D: "prep a h D r"
    by (auto simp: heap_def)
  have "heap_pages sz Map.empty Map.empty"
    by (simp add: heap_pages_def pages_of_def)
  then show ?thesis
    unfolding heap_def by (intro ok_mono[OF clear_law[OF D]]) (blast intro: less_law le_add2)
qed

lemma heap_load: "heap a h W r \<Longrightarrow> ok (allocator_load M (al_memory a) H) (\<lambda>a'. heap a' h W r)"
  using load_law by (fastforce simp: heap_def ok_def)

lemma heap_read_header:
  "heap a h W r \<Longrightarrow> off + n \<le> H \<Longrightarrow>
   ok (read_op M (al_memory a) off n) (\<lambda>(bs, s). bs = subrange h off n \<and> heap (a\<lparr>al_memory := s\<rparr>) h W r)"
  using read_header_law by (fastforce simp: heap_def ok_def)

lemma heap_write_header:
  "heap a h W r \<Longrightarrow> off + length bs \<le> H \<Longrightarrow>
   ok (write_grow M (al_memory a) off bs) (\<lambda>s. heap (a\<lparr>al_memory := s\<rparr>) (overwrite h off bs) W r)"
  using write_header_law by (fastforce simp: heap_def ok_def)

lemma heap_overflow_header:
  assumes "heap a h W r" "W x = Some (ovs, F)" "11 < sz" "i < length ovs"
  shows "ok (read_op M (al_memory a) (ovs ! i) 11)
    (\<lambda>(bs, s). bs = OVERFLOW_MAGIC @ to_le_bytes 8 (next_page ovs (Suc i)) \<and> heap (a\<lparr>al_memory := s\<rparr>) h W r)"
proof -
  obtain D where D: "prep a h D r" "heap_pages sz D W"
    using assms(1) by (auto simp: heap_def)
  note x = heap_pagesD[OF D(2) assms(2)]
  obtain p where p: "D (ovs ! i) = Some p" "length p = sz"
    using x(1) assms(4) by (auto simp: node_pages_def dest!: bspec[of _ _ "ovs ! i"])
  have "take 11 p = OVERFLOW_MAGIC @ to_le_bytes 8 (next_page ovs (Suc i))"
    using x(2) assms(4) p(1) by (auto simp: overflow_chain_def)
  then show ?thesis
    using read_law[OF D(1) p(1), of 0 11] assms(3) D(2) by (auto simp: heap_def subrange_def elim!: ok_mono)
qed

lemma heap_next_page:
  assumes "heap a h W r" "W x = Some (ovs, F)"
  shows "i < length ovs \<Longrightarrow> next_page ovs i \<noteq> NULL" "next_page ovs i \<le> U64_MAX"
proof -
  obtain D where D: "prep a h D r" "heap_pages sz D W"
    using assms(1) by (auto simp: heap_def)
  note x = heap_pagesD[OF D(2) assms(2)]
  have "H + 64 \<le> ovs ! i \<and> ovs ! i \<le> U64_MAX" if i: "i < length ovs"
  proof -
    obtain p where "D (ovs ! i) = Some p"
      using x(1) i by (auto simp: node_pages_def dest!: bspec[of _ _ "ovs ! i"])
    from page_law[OF D(1) this] show ?thesis by simp
  qed
  then show "i < length ovs \<Longrightarrow> next_page ovs i \<noteq> NULL" "next_page ovs i \<le> U64_MAX"
    by (auto simp: next_page_def NULL_def)
qed

text \<open>A node is written: the first 15 bytes, then the rest piece by piece, then the pages are trimmed.\<close>

lemma nw_write_first:
  assumes w: "wst w h D r x ovs" and off: "off + length src < sz" and sz: "15 < sz"
  shows "ok (nw_write M w off src) (\<lambda>w'. wst w' h (D(x \<mapsto> overwrite (the (D x)) off src)) r x ovs \<and>
    nw_max_offset w' = max (nw_max_offset w) (off + length src))"
proof -
  have x: "x \<in> set (x # ovs)" and a: "prep (nw_allocator w) h D r" "nw_address w = x" "page_size_get (nw_page_size w) = Some sz"
    using w by (simp_all add: wst_def)
  obtain p where p: "D x = Some p" "length p = sz" "x + sz \<le> U64_MAX"
    by (rule wst_page[OF w x])
  define w1 where "w1 = w\<lparr>nw_max_offset := max (nw_max_offset w) (off + length src)\<rparr>"
  have w1: "wst w1 h D r x ovs"
    using w by (simp add: wst_def w1_def)
  from write_grow_law[OF a(1) p(1), of off src] off obtain s where
    s: "write_grow M (nw_memory w) (x + off) src = Some s" "prep ((nw_allocator w1)\<lparr>al_memory := s\<rparr>) h (D(x \<mapsto> overwrite p off src)) r"
    by (auto simp: w1_def elim!: ok_obtain)
  have "nw_write M w off src = Some (set_memory w1 s)"
    using off p(3) a(2,3) s(1) by (simp add: nw_write_def u64_add_def w1_def)
  then show ?thesis
    using wst_write[OF w1 s(2) x] p(1) by (simp add: w1_def)
qed

lemma heap_start_write:
  assumes hp: "heap a h W r" and W: "W x = Some (ovs, F)" and pg: "page_size_get pg = Some sz" and sz: "15 < sz" and hdr: "length hdr = 7"
  shows "ok (do { w \<leftarrow> nw_write M (node_writer_new x ovs pg a) 0 hdr; nw_write M w 7 (to_le_bytes 8 (next_page ovs 0)) })
    (\<lambda>w. \<exists>D. heap_pages sz D W \<and>
      written h x (D |` (- set (x # ovs))) (r + length ovs) 15 w (hdr @ to_le_bytes 8 (next_page ovs 0)))"
proof -
  obtain D where D: "prep a h D r" "heap_pages sz D W"
    using hp by (auto simp: heap_def)
  note x = heap_pagesD[OF D(2) W]
  obtain p where p: "D x = Some p" "length p = sz"
    using x(1) by (auto simp: node_pages_def)
  let ?w = "node_writer_new x ovs pg a" and ?l = "to_le_bytes 8 (next_page ovs 0)"
  have w: "wst ?w h D r x ovs" "nw_max_offset ?w = 0"
    using D(1) pg x(1) by (simp_all add: wst_def node_writer_new_def)
  from nw_write_first[OF w(1), of 0 hdr] hdr sz p obtain w1 where w1: "nw_write M ?w 0 hdr = Some w1"
    "wst w1 h (D(x \<mapsto> overwrite p 0 hdr)) r x ovs" "nw_max_offset w1 = 7"
    by (auto simp: w(2) elim!: ok_obtain)
  define p' where "p' = overwrite (overwrite p 0 hdr) 7 ?l"
  from nw_write_first[OF w1(2), of 7 ?l] sz obtain w2 where w2: "nw_write M w1 7 ?l = Some w2"
    "wst w2 h (D(x \<mapsto> p')) r x ovs" "nw_max_offset w2 = 15"
    by (auto simp: w1(3) p'_def elim!: ok_obtain)
  have p': "take 15 p' = hdr @ ?l" "subrange p' 7 8 = ?l" "length p' = sz"
    using p(2) hdr sz by (simp_all add: p'_def overwrite_def subrange_def del: to_le_bytes.simps)
  have "overflow_chain (D(x \<mapsto> p')) ovs"
    using x(1) by (intro chain_cong[OF x(2)]) (auto simp: node_pages_def)
  moreover have "first_link (D(x \<mapsto> p')) x ovs"
    using p'(2) by (simp add: first_link_def)
  moreover have "agrees (node_bytes (D(x \<mapsto> p')) x ovs) (hdr @ ?l)"
  proof -
    have "take 15 (node_bytes (D(x \<mapsto> p')) x ovs) = hdr @ ?l"
      using node_bytes_first[OF x(1), of p'] p'(1,3) sz by simp
    then have "node_bytes (D(x \<mapsto> p')) x ovs ! i = (hdr @ ?l) ! i" if "i < 15" for i
      using that by (metis nth_take)
    then show ?thesis
      using hdr sz p'(3) node_bytes_first[OF x(1), of p'] by (auto simp: agrees_def)
  qed
  moreover have "(D(x \<mapsto> p')) |` (- set (x # ovs)) = D |` (- set (x # ovs))"
    by (rule restrict_upd_inside) simp
  ultimately have "written h x (D |` (- set (x # ovs))) (r + length ovs) 15 w2 (hdr @ ?l)"
    unfolding written_def using w2(2,3) by blast
  with w1(1) w2(1) D(2) show ?thesis by auto
qed

lemma heap_end_write:
  assumes w: "written h x (D |` (- set (x # ovs))) k (length enc) w enc" and hp: "heap_pages sz D W" and W: "W x = Some (ovs, F)" and sz: "15 < sz"
  shows "ok (nw_finish M w) (\<lambda>(ovs', a'). \<exists>F'. heap a' h (W(x \<mapsto> (ovs', F'))) (k - length ovs') \<and> agrees F' enc \<and>
    subrange F' 7 8 = to_le_bytes 8 (next_page ovs' 0) \<and> length ovs' = pages_needed sz (length enc) \<and> length ovs' \<le> k)"
proof -
  from nw_finish_ok[OF w sz] obtain us a' D' where f: "nw_finish M w = Some (us, a')" "prep a' h D' (k - length us)" "node_pages D' sz x us"
    "overflow_chain D' us" "first_link D' x us" "agrees (node_bytes D' x us) enc" "length us = pages_needed sz (length enc)" "length us \<le> k"
    "D' |` (- set (x # us)) = D |` (- set (x # ovs))"
    by (elim ok_obtain) (auto simp del: list.set)
  have "heap_pages sz D' (W(x \<mapsto> (us, node_bytes D' x us)))"
    using heap_pages_upd[OF hp _ _ f(3,4,9)] W by simp
  then show ?thesis
    using f(1,2,5-8) first_link_bytes[OF f(3)] sz unfolding heap_def by auto
qed

end

end
