(* ===== verification/BTree_Node.thy ===== *)
theory BTree_Node
  imports Node_Heap Storable
begin

text \<open>
  The nodes of the B-tree in memory (\<open>src/src/btreemap/node.rs\<close>): entries whose keys and values are loaded
  from the pages when they are first needed, the accessors that load and cache them, the operations on
  entries and children, the search in a node, and the splitting of a node.

  \<open>entry_rep F n e kv\<close> relates a lazy entry to the key and value it stands for, given the bytes \<open>F\<close> of the
  node as they are stored; \<open>node_rep\<close> does this for all entries. The main results: an accessor returns
  the key or value of the abstract node and leaves the node with the same meaning; \<open>search\<close> finds the
  position that a search through the list of keys finds.
\<close>

section \<open>The code\<close>

definition BTREE_B :: nat where "BTREE_B = 6"
definition LAYOUT_VERSION_1 :: nat where "LAYOUT_VERSION_1 = 1"
definition LAYOUT_VERSION_2 :: nat where "LAYOUT_VERSION_2 = 2"
definition NODE_MAGIC :: bytes where "NODE_MAGIC = [66, 84, 78]"
definition LEAF_NODE_TYPE :: nat where "LEAF_NODE_TYPE = 0"
definition INTERNAL_NODE_TYPE :: nat where "INTERNAL_NODE_TYPE = 1"

datatype node_type = Leaf | Internal

text \<open>The header as a packed struct.\<close>

definition encode_node_header :: "node_header \<Rightarrow> bytes" where
  "encode_node_header h = nh_magic h @ to_le_bytes 1 (nh_version h) @ to_le_bytes 1 (nh_node_type h) @ to_le_bytes 2 (nh_num_entries h)"

definition decode_node_header :: "bytes \<Rightarrow> node_header" where
  "decode_node_header bs = \<lparr>nh_magic = subrange bs 0 3, nh_version = from_le_bytes (subrange bs 3 1),
     nh_node_type = from_le_bytes (subrange bs 4 1), nh_num_entries = from_le_bytes (subrange bs 5 2)\<rparr>"

subsection \<open>Lazy objects\<close>

datatype 'a lazy_object = ByVal 'a | ByRef nbytes nat "'a option"

definition by_value :: "'a \<Rightarrow> 'a lazy_object" where
  "by_value v = ByVal v"

definition by_ref :: "nbytes \<Rightarrow> nat \<Rightarrow> 'a lazy_object" where
  "by_ref offset sz = ByRef offset sz None"

text \<open>The reference that is returned, the object with its cell filled, and the state after loading.\<close>

fun get_or_load ::
  "'a lazy_object \<Rightarrow> (nbytes \<Rightarrow> nat \<Rightarrow> 's \<Rightarrow> ('a \<times> 's) option) \<Rightarrow> 's \<Rightarrow> ('a \<times> 'a lazy_object \<times> 's) option" where
  "get_or_load (ByVal v) load s = Some (v, ByVal v, s)"
| "get_or_load (ByRef offset sz (Some v)) load s = Some (v, ByRef offset sz (Some v), s)"
| "get_or_load (ByRef offset sz None) load s = do {
     (v, s) \<leftarrow> load offset sz s;
     Some (v, ByRef offset sz (Some v), s) }"

fun take_or_load ::
  "'a lazy_object \<Rightarrow> (nbytes \<Rightarrow> nat \<Rightarrow> 's \<Rightarrow> ('a \<times> 's) option) \<Rightarrow> 's \<Rightarrow> ('a \<times> 's) option" where
  "take_or_load (ByVal v) load s = Some (v, s)"
| "take_or_load (ByRef offset sz (Some v)) load s = Some (v, s)"
| "take_or_load (ByRef offset sz None) load s = load offset sz s"

subsection \<open>Nodes\<close>

datatype version = V1 nat nat | V2 page_size

fun version_page_size :: "version \<Rightarrow> page_size" where
  "version_page_size (V1 max_key_size max_value_size) = Derived max_key_size max_value_size"
| "version_page_size (V2 page_size) = page_size"

type_synonym 'k lazy_entry = "'k lazy_object \<times> bytes lazy_object"
type_synonym 'k entry = "'k \<times> bytes"

record 'k node =
  nd_address :: address
  nd_entries :: "'k lazy_entry list"
  nd_children :: "address list"
  nd_node_type :: node_type
  nd_version :: version
  nd_overflows :: "address list"

definition node_page_size :: "'k node \<Rightarrow> page_size" where
  "node_page_size n = version_page_size (nd_version n)"

definition node_reader_of :: "'k node \<Rightarrow> node_reader" where
  "node_reader_of n = \<lparr>nr_address = nd_address n, nr_overflows = nd_overflows n, nr_page_size = node_page_size n\<rparr>"

definition load_key_from_memory ::
  "'k storable \<Rightarrow> 's memory_ops \<Rightarrow> 'k node \<Rightarrow> nbytes \<Rightarrow> nat \<Rightarrow> 's \<Rightarrow> ('k \<times> 's) option" where
  "load_key_from_memory K M n offset loaded_size s = do {
     (offset, sz) \<leftarrow> (case nd_version n of
         V1 _ _ \<Rightarrow> do { offset \<leftarrow> bytes_add offset U32_SIZE; Some (offset, loaded_size) }
       | V2 _ \<Rightarrow>
           if bound_is_fixed_size (BOUND K) then do { m \<leftarrow> bound_max_size (BOUND K); Some (offset, m) }
           else do { offset \<leftarrow> bytes_add offset U32_SIZE; Some (offset, loaded_size) });
     (bs, s) \<leftarrow> read_to_vec (NodeReader M (node_reader_of n)) s offset sz;
     k \<leftarrow> from_bytes K bs;
     Some (k, s) }"

definition load_value_from_memory ::
  "'s memory_ops \<Rightarrow> 'k node \<Rightarrow> nbytes \<Rightarrow> nat \<Rightarrow> 's \<Rightarrow> (bytes \<times> 's) option" where
  "load_value_from_memory M n offset loaded_size s = do {
     addr \<leftarrow> bytes_add offset U32_SIZE;
     read_to_vec (NodeReader M (node_reader_of n)) s addr loaded_size }"

text \<open>
  \<open>get_key\<close> and \<open>get_value\<close> of entry \<open>idx\<close>: the cell of the entry is filled in the node that is returned.
  \<open>key\<close> and \<open>value\<close> index the entries first, which panics out of range.
\<close>

definition get_key :: "'k storable \<Rightarrow> 's memory_ops \<Rightarrow> 'k node \<Rightarrow> nat \<Rightarrow> 's \<Rightarrow> ('k \<times> 'k node \<times> 's) option" where
  "get_key K M n idx s = do {
     let (lk, lv) = nd_entries n ! idx;
     (k, lk, s) \<leftarrow> get_or_load lk (load_key_from_memory K M n) s;
     Some (k, n\<lparr>nd_entries := (nd_entries n)[idx := (lk, lv)]\<rparr>, s) }"

definition get_value :: "'s memory_ops \<Rightarrow> 'k node \<Rightarrow> nat \<Rightarrow> 's \<Rightarrow> (bytes \<times> 'k node \<times> 's) option" where
  "get_value M n idx s = do {
     let (lk, lv) = nd_entries n ! idx;
     (v, lv, s) \<leftarrow> get_or_load lv (load_value_from_memory M n) s;
     Some (v, n\<lparr>nd_entries := (nd_entries n)[idx := (lk, lv)]\<rparr>, s) }"

definition node_key :: "'k storable \<Rightarrow> 's memory_ops \<Rightarrow> 'k node \<Rightarrow> nat \<Rightarrow> 's \<Rightarrow> ('k \<times> 'k node \<times> 's) option" where
  "node_key K M n idx s = do {
     assert_that (idx < length (nd_entries n));
     get_key K M n idx s }"

definition node_value :: "'s memory_ops \<Rightarrow> 'k node \<Rightarrow> nat \<Rightarrow> 's \<Rightarrow> (bytes \<times> 'k node \<times> 's) option" where
  "node_value M n idx s = do {
     assert_that (idx < length (nd_entries n));
     get_value M n idx s }"

definition node_entry ::
  "'k storable \<Rightarrow> 's memory_ops \<Rightarrow> 'k node \<Rightarrow> nat \<Rightarrow> 's \<Rightarrow> ('k entry \<times> 'k node \<times> 's) option" where
  "node_entry K M n idx s = do {
     (k, n, s) \<leftarrow> node_key K M n idx s;
     (v, n, s) \<leftarrow> node_value M n idx s;
     Some ((k, v), n, s) }"

definition extract_key :: "'k storable \<Rightarrow> 's memory_ops \<Rightarrow> 'k node \<Rightarrow> 'k lazy_object \<Rightarrow> 's \<Rightarrow> ('k \<times> 's) option" where
  "extract_key K M n lk s = take_or_load lk (load_key_from_memory K M n) s"

definition extract_value :: "'s memory_ops \<Rightarrow> 'k node \<Rightarrow> bytes lazy_object \<Rightarrow> 's \<Rightarrow> (bytes \<times> 's) option" where
  "extract_value M n lv s = take_or_load lv (load_value_from_memory M n) s"

definition extract_entry :: "'k storable \<Rightarrow> 's memory_ops \<Rightarrow> 'k node \<Rightarrow> 'k lazy_entry \<Rightarrow> 's \<Rightarrow> ('k entry \<times> 's) option" where
  "extract_entry K M n e s = do {
     (k, s) \<leftarrow> extract_key K M n (fst e) s;
     (v, s) \<leftarrow> extract_value M n (snd e) s;
     Some ((k, v), s) }"

definition lazy_pair :: "'k entry \<Rightarrow> 'k lazy_entry" where
  "lazy_pair e = (by_value (fst e), by_value (snd e))"

definition is_full :: "'k node \<Rightarrow> bool" where
  "is_full n \<longleftrightarrow> length (nd_entries n) \<ge> CAPACITY"

definition at_minimum :: "'k node \<Rightarrow> bool" where
  "at_minimum n \<longleftrightarrow> length (nd_entries n) < BTREE_B"

definition can_remove_entry_without_merging :: "'k node \<Rightarrow> bool" where
  "can_remove_entry_without_merging n \<longleftrightarrow> \<not> at_minimum n"

definition entries_len :: "'k node \<Rightarrow> nat" where
  "entries_len n = length (nd_entries n)"

definition children_len :: "'k node \<Rightarrow> nat" where
  "children_len n = length (nd_children n)"

definition swap_value :: "'s memory_ops \<Rightarrow> 'k node \<Rightarrow> nat \<Rightarrow> bytes \<Rightarrow> 's \<Rightarrow> (bytes \<times> 'k node \<times> 's) option" where
  "swap_value M n idx new s = do {
     assert_that (idx < length (nd_entries n));
     let (lk, old) = nd_entries n ! idx;
     let n = n\<lparr>nd_entries := (nd_entries n)[idx := (lk, by_value new)]\<rparr>;
     (v, s) \<leftarrow> extract_value M n old s;
     Some (v, n, s) }"

definition swap_entry ::
  "'k storable \<Rightarrow> 's memory_ops \<Rightarrow> 'k node \<Rightarrow> nat \<Rightarrow> 'k entry \<Rightarrow> 's \<Rightarrow> ('k entry \<times> 'k node \<times> 's) option" where
  "swap_entry K M n idx e s = do {
     assert_that (idx < length (nd_entries n));
     let old = nd_entries n ! idx;
     let n = n\<lparr>nd_entries := (nd_entries n)[idx := lazy_pair e]\<rparr>;
     (old, s) \<leftarrow> extract_entry K M n old s;
     Some (old, n, s) }"

definition node_child :: "'k node \<Rightarrow> nat \<Rightarrow> address option" where
  "node_child n idx = (if idx < length (nd_children n) then Some (nd_children n ! idx) else None)"

text \<open>\<open>Vec::insert\<close> and \<open>Vec::remove\<close>, which panic out of range.\<close>

definition vec_insert :: "'a list \<Rightarrow> nat \<Rightarrow> 'a \<Rightarrow> 'a list option" where
  "vec_insert xs idx x = (if idx \<le> length xs then Some (take idx xs @ x # drop idx xs) else None)"

definition vec_remove :: "'a list \<Rightarrow> nat \<Rightarrow> ('a \<times> 'a list) option" where
  "vec_remove xs idx = (if idx < length xs then Some (xs ! idx, take idx xs @ drop (Suc idx) xs) else None)"

definition vec_swap_remove :: "'a list \<Rightarrow> nat \<Rightarrow> ('a \<times> 'a list) option" where
  "vec_swap_remove xs idx = (if idx < length xs then Some (xs ! idx, butlast (xs[idx := last xs])) else None)"

definition insert_child :: "'k node \<Rightarrow> nat \<Rightarrow> address \<Rightarrow> 'k node option" where
  "insert_child n idx addr = do {
     cs \<leftarrow> vec_insert (nd_children n) idx addr;
     Some (n\<lparr>nd_children := cs\<rparr>) }"

definition push_child :: "'k node \<Rightarrow> address \<Rightarrow> 'k node" where
  "push_child n addr = n\<lparr>nd_children := nd_children n @ [addr]\<rparr>"

definition remove_child :: "'k node \<Rightarrow> nat \<Rightarrow> (address \<times> 'k node) option" where
  "remove_child n idx = do {
     (c, cs) \<leftarrow> vec_remove (nd_children n) idx;
     Some (c, n\<lparr>nd_children := cs\<rparr>) }"

definition pop_child :: "'k node \<Rightarrow> address option \<times> 'k node" where
  "pop_child n = (if nd_children n = [] then (None, n)
     else (Some (last (nd_children n)), n\<lparr>nd_children := butlast (nd_children n)\<rparr>))"

definition insert_entry :: "'k node \<Rightarrow> nat \<Rightarrow> 'k entry \<Rightarrow> 'k node option" where
  "insert_entry n idx e = do {
     es \<leftarrow> vec_insert (nd_entries n) idx (lazy_pair e);
     Some (n\<lparr>nd_entries := es\<rparr>) }"

definition extract_entry_at ::
  "'k storable \<Rightarrow> 's memory_ops \<Rightarrow> 'k node \<Rightarrow> nat \<Rightarrow> 's \<Rightarrow> ('k entry \<times> 'k node \<times> 's) option" where
  "extract_entry_at K M n idx s = do {
     (e, es) \<leftarrow> vec_swap_remove (nd_entries n) idx;
     let n = n\<lparr>nd_entries := es\<rparr>;
     (kv, s) \<leftarrow> extract_entry K M n e s;
     Some (kv, n, s) }"

definition remove_entry ::
  "'k storable \<Rightarrow> 's memory_ops \<Rightarrow> 'k node \<Rightarrow> nat \<Rightarrow> 's \<Rightarrow> ('k entry \<times> 'k node \<times> 's) option" where
  "remove_entry K M n idx s = do {
     (e, es) \<leftarrow> vec_remove (nd_entries n) idx;
     let n = n\<lparr>nd_entries := es\<rparr>;
     (kv, s) \<leftarrow> extract_entry K M n e s;
     Some (kv, n, s) }"

definition push_entry :: "'k node \<Rightarrow> 'k entry \<Rightarrow> 'k node" where
  "push_entry n e = n\<lparr>nd_entries := nd_entries n @ [lazy_pair e]\<rparr>"

definition pop_entry ::
  "'k storable \<Rightarrow> 's memory_ops \<Rightarrow> 'k node \<Rightarrow> 's \<Rightarrow> ('k entry option \<times> 'k node \<times> 's) option" where
  "pop_entry K M n s =
     (if entries_len n = 0 then Some (None, n, s)
      else do {
        let e = last (nd_entries n);
        let n = n\<lparr>nd_entries := butlast (nd_entries n)\<rparr>;
        (kv, s) \<leftarrow> extract_entry K M n e s;
        Some (Some kv, n, s) })"

text \<open>\<open>for i in from..to { self.entry(i, memory); }\<close>: fills the cells.\<close>

fun load_entries :: "'k storable \<Rightarrow> 's memory_ops \<Rightarrow> nat list \<Rightarrow> 'k node \<Rightarrow> 's \<Rightarrow> ('k node \<times> 's) option" where
  "load_entries K M [] n s = Some (n, s)"
| "load_entries K M (i # is) n s = do {
     (_, n, s) \<leftarrow> node_entry K M n i s;
     load_entries K M is n s }"

text \<open>\<open>append\<close>: both nodes are updated.\<close>

definition node_append ::
  "'k::linorder storable \<Rightarrow> 's memory_ops \<Rightarrow> 'k node \<Rightarrow> 'k node \<Rightarrow> 'k entry \<Rightarrow> 's \<Rightarrow> ('k node \<times> 'k node \<times> 's) option" where
  "node_append K M a b median s = do {
     let a_len = entries_len a;
     assert_that (nd_node_type a = nd_node_type b);
     assert_that (entries_len b > 0);
     assert_that (a_len > 0);
     (ka, a, s) \<leftarrow> node_key K M a (a_len - 1) s;
     assert_that (ka < fst median);
     (kb, b, s) \<leftarrow> node_key K M b 0 s;
     assert_that (fst median < kb);
     let a = push_entry a median;
     let a = a\<lparr>nd_entries := nd_entries a @ nd_entries b, nd_children := nd_children a @ nd_children b\<rparr>;
     let b = b\<lparr>nd_entries := [], nd_children := []\<rparr>;
     assert_that (length (nd_entries b) = 0);
     assert_that (length (nd_children b) = 0);
     Some (a, b, s) }"

text \<open>
  \<open>slice::binary_search_by_key\<close> of the standard library: the range is halved without comparing for
  equality until one element is left. \<open>Inr\<close> is \<open>Ok\<close>, \<open>Inl\<close> is \<open>Err\<close>.
\<close>

function search_loop ::
  "'k::linorder storable \<Rightarrow> 's memory_ops \<Rightarrow> 'k \<Rightarrow> nat \<Rightarrow> nat \<Rightarrow> 'k node \<Rightarrow> 's \<Rightarrow> (nat \<times> 'k node \<times> 's) option" where
  "search_loop K M key base sz n s =
     (if sz > 1 then do {
        let half = sz div 2;
        let mid = base + half;
        (k, n, s) \<leftarrow> get_key K M n mid s;
        search_loop K M key (if k > key then base else mid) (sz - half) n s }
      else Some (base, n, s))"
  by pat_completeness auto
termination
  by (relation "measure (\<lambda>(_, _, _, _, sz, _). sz)") auto

declare search_loop.simps [simp del]

definition node_search ::
  "'k::linorder storable \<Rightarrow> 's memory_ops \<Rightarrow> 'k node \<Rightarrow> 'k \<Rightarrow> 's \<Rightarrow> ((nat + nat) \<times> 'k node \<times> 's) option" where
  "node_search K M n key s =
     (if length (nd_entries n) = 0 then Some (Inl 0, n, s)
      else do {
        (base, n, s) \<leftarrow> search_loop K M key 0 (length (nd_entries n)) n s;
        (k, n, s) \<leftarrow> get_key K M n base s;
        Some (if k = key then Inr base else Inl (base + (if k < key then 1 else 0)), n, s) })"

text \<open>\<open>Vec::split_off\<close>\<close>

definition split_off :: "'a list \<Rightarrow> nat \<Rightarrow> ('a list \<times> 'a list) option" where
  "split_off xs at_idx = (if at_idx \<le> length xs then Some (take at_idx xs, drop at_idx xs) else None)"

definition node_split ::
  "'k storable \<Rightarrow> 's memory_ops \<Rightarrow> 'k node \<Rightarrow> 'k node \<Rightarrow> 's \<Rightarrow> ('k entry \<times> 'k node \<times> 'k node \<times> 's) option" where
  "node_split K M n sibling s = do {
     assert_that (is_full n);
     (n, s) \<leftarrow> load_entries K M [BTREE_B..<entries_len n] n s;
     (es, moved) \<leftarrow> split_off (nd_entries n) BTREE_B;
     let n = n\<lparr>nd_entries := es\<rparr>;
     let sibling = sibling\<lparr>nd_entries := moved\<rparr>;
     (n, sibling) \<leftarrow> (if nd_node_type n = Internal then do {
          (cs, moved) \<leftarrow> split_off (nd_children n) BTREE_B;
          Some (n\<lparr>nd_children := cs\<rparr>, sibling\<lparr>nd_children := moved\<rparr>) }
        else Some (n, sibling));
     (median, n, s) \<leftarrow> pop_entry K M n s;
     case median of None \<Rightarrow> None | Some e \<Rightarrow> Some (e, n, sibling, s) }"

text \<open>\<open>deallocate\<close>: the overflow pages, then the initial page.\<close>

fun deallocate_all :: "'s memory_ops \<Rightarrow> address list \<Rightarrow> 's allocator \<Rightarrow> 's allocator option" where
  "deallocate_all M [] a = Some a"
| "deallocate_all M (x # xs) a = do { a \<leftarrow> deallocate M a x; deallocate_all M xs a }"

definition node_deallocate :: "'s memory_ops \<Rightarrow> 'k node \<Rightarrow> 's allocator \<Rightarrow> 's allocator option" where
  "node_deallocate M n a = do {
     a \<leftarrow> deallocate_all M (nd_overflows n) a;
     deallocate M a (nd_address n) }"

section \<open>What a node in memory stands for\<close>

text \<open>Where the bytes of a key are, given the reference; no entry lies in the header of the node.\<close>

definition key_place :: "'k storable \<Rightarrow> version \<Rightarrow> nbytes \<Rightarrow> nat \<Rightarrow> nat \<times> nat" where
  "key_place K v off n = (case v of
       V1 _ _ \<Rightarrow> (off + 4, n)
     | V2 _ \<Rightarrow> (case BOUND K of Bounded m f \<Rightarrow> if f then (off, m) else (off + 4, n) | Unbounded \<Rightarrow> (off + 4, n)))"

fun key_rep :: "'k storable \<Rightarrow> version \<Rightarrow> bytes \<Rightarrow> 'k lazy_object \<Rightarrow> 'k \<Rightarrow> bool" where
  "key_rep K v F (ByVal k') k \<longleftrightarrow> k' = k"
| "key_rep K v F (ByRef off n (Some k')) k \<longleftrightarrow> k' = k"
| "key_rep K v F (ByRef off n None) k \<longleftrightarrow> (case key_place K v off n of
     (p, l) \<Rightarrow> 7 \<le> off \<and> p + l \<le> length F \<and> from_bytes K (subrange F p l) = Some k)"

fun val_rep :: "bytes \<Rightarrow> bytes lazy_object \<Rightarrow> bytes \<Rightarrow> bool" where
  "val_rep F (ByVal v') v \<longleftrightarrow> v' = v"
| "val_rep F (ByRef off n (Some v')) v \<longleftrightarrow> v' = v"
| "val_rep F (ByRef off n None) v \<longleftrightarrow> 7 \<le> off \<and> off + 4 + n \<le> length F \<and> subrange F (off + 4) n = v"

definition entry_rep :: "'k storable \<Rightarrow> version \<Rightarrow> bytes \<Rightarrow> 'k lazy_entry \<Rightarrow> 'k entry \<Rightarrow> bool" where
  "entry_rep K v F e kv \<longleftrightarrow> key_rep K v F (fst e) (fst kv) \<and> val_rep F (snd e) (snd kv)"

definition node_rep :: "'k storable \<Rightarrow> bytes \<Rightarrow> 'k node \<Rightarrow> 'k entry list \<Rightarrow> bool" where
  "node_rep K F n es \<longleftrightarrow> list_all2 (entry_rep K (nd_version n) F) (nd_entries n) es"

fun loaded :: "'a lazy_object \<Rightarrow> bool" where
  "loaded (ByVal v) \<longleftrightarrow> True"
| "loaded (ByRef off n (Some v)) \<longleftrightarrow> True"
| "loaded (ByRef off n None) \<longleftrightarrow> False"

definition entry_loaded :: "'k lazy_entry \<Rightarrow> bool" where
  "entry_loaded e \<longleftrightarrow> loaded (fst e) \<and> loaded (snd e)"

text \<open>The same node, with at least as much of it loaded.\<close>

definition entry_more :: "'k lazy_entry \<Rightarrow> 'k lazy_entry \<Rightarrow> bool" where
  "entry_more e e' \<longleftrightarrow> (loaded (fst e) \<longrightarrow> loaded (fst e')) \<and> (loaded (snd e) \<longrightarrow> loaded (snd e'))"

definition node_more :: "'k node \<Rightarrow> 'k node \<Rightarrow> bool" where
  "node_more n n' \<longleftrightarrow> nd_address n' = nd_address n \<and> nd_children n' = nd_children n \<and> nd_node_type n' = nd_node_type n \<and>
     nd_version n' = nd_version n \<and> nd_overflows n' = nd_overflows n \<and> list_all2 entry_more (nd_entries n) (nd_entries n')"

lemma node_more_refl [simp]: "node_more n n"
  by (simp add: node_more_def list_all2_refl entry_more_def)

lemma node_more_trans [trans]: "node_more a b \<Longrightarrow> node_more b c \<Longrightarrow> node_more a c"
  using list_all2_trans[of entry_more entry_more entry_more "nd_entries a" "nd_entries b" "nd_entries c"]
  by (auto simp: node_more_def entry_more_def)

lemma node_moreD:
  assumes "node_more n n'"
  shows "nd_address n' = nd_address n" "nd_children n' = nd_children n" "nd_node_type n' = nd_node_type n"
    "nd_version n' = nd_version n" "nd_overflows n' = nd_overflows n" "length (nd_entries n') = length (nd_entries n)"
    "\<And>i. i < length (nd_entries n) \<Longrightarrow> entry_loaded (nd_entries n ! i) \<Longrightarrow> entry_loaded (nd_entries n' ! i)"
  using assms by (auto simp: node_more_def entry_more_def entry_loaded_def list_all2_conv_all_nth)

lemma key_rep_loaded: "loaded lk \<Longrightarrow> key_rep K v F lk k = key_rep K v' F' lk k"
  by (cases lk rule: loaded.cases) auto

lemma val_rep_loaded: "loaded lv \<Longrightarrow> val_rep F lv v = val_rep F' lv v"
  by (cases lv rule: loaded.cases) auto

lemma entry_rep_loaded: "entry_loaded e \<Longrightarrow> entry_rep K v F e kv \<Longrightarrow> entry_rep K v' F' e kv"
  by (auto simp: entry_rep_def entry_loaded_def key_rep_loaded[of _ _ v F _ v' F'] val_rep_loaded[of _ F _ F'])

lemma entry_rep_pair [simp]: "entry_rep K v F (lazy_pair e) e" "entry_loaded (lazy_pair e)"
  by (simp_all add: entry_rep_def entry_loaded_def lazy_pair_def by_value_def)

lemma node_rep_length: "node_rep K F n es \<Longrightarrow> length (nd_entries n) = length es"
  by (simp add: node_rep_def list_all2_lengthD)

lemma node_rep_upd:
  assumes "node_rep K F n es" "i < length es" "entry_rep K (nd_version n) F e kv"
  shows "node_rep K F (n\<lparr>nd_entries := (nd_entries n)[i := e]\<rparr>) (es[i := kv])"
  using assms by (simp add: node_rep_def list_all2_update_cong)

lemma node_rep_nth:
  "node_rep K F n es \<Longrightarrow> i < length es \<Longrightarrow> entry_rep K (nd_version n) F (nd_entries n ! i) (es ! i)"
  by (simp add: node_rep_def list_all2_conv_all_nth)

section \<open>The operations on nodes\<close>

text \<open>What a search in a sorted list of keys is to find.\<close>

fun linear_search :: "'k::linorder \<Rightarrow> 'k list \<Rightarrow> nat + nat" where
  "linear_search key [] = Inl 0"
| "linear_search key (k # ks) =
     (if k = key then Inr 0 else if key < k then Inl 0 else map_sum Suc Suc (linear_search key ks))"

definition found_at :: "'k::linorder list \<Rightarrow> 'k \<Rightarrow> nat + nat \<Rightarrow> bool" where
  "found_at ks key r \<longleftrightarrow> (case r of
       Inr i \<Rightarrow> i < length ks \<and> ks ! i = key
     | Inl i \<Rightarrow> i \<le> length ks \<and> (\<forall>j < i. ks ! j < key) \<and> (\<forall>j. i \<le> j \<longrightarrow> j < length ks \<longrightarrow> key < ks ! j))"

lemma found_at_linear: "sorted_wrt (<) ks \<Longrightarrow> found_at ks key (linear_search key ks)"
proof (induction ks)
  case (Cons k ks)
  then have IH: "found_at ks key (linear_search key ks)" and lt: "\<forall>x \<in> set ks. k < x"
    by simp_all
  show ?case
  proof (cases "linear_search key ks")
    case (Inl i)
    then show ?thesis
      using IH lt by (auto simp: found_at_def nth_Cons split: nat.splits dest: less_trans)
  next
    case (Inr i)
    then show ?thesis
      using IH lt by (auto simp: found_at_def nth_Cons split: nat.splits dest: less_trans)
  qed
qed (simp add: found_at_def)

lemma found_at_unique:
  assumes "sorted_wrt (<) ks" "found_at ks key r" "found_at ks key r'"
  shows "r = r'"
proof -
  have inj: "i = j" if "i < length ks" "j < length ks" "ks ! i = ks ! j" for i j
    using that assms(1) by (metis less_irrefl linorder_neqE_nat sorted_wrt_iff_nth_less)
  show ?thesis
  proof (cases r; cases r')
    fix i j
    assume "r = Inl i" "r' = Inl j"
    then show ?thesis
      using assms(2,3) by (auto simp: found_at_def) (metis less_asym linorder_neqE_nat nat_le_linear le_antisym not_less less_le_trans)
  next
    fix i j
    assume "r = Inr i" "r' = Inr j"
    then show ?thesis
      using assms(2,3) inj by (auto simp: found_at_def)
  qed (use assms(2,3) in \<open>auto simp: found_at_def dest: leI\<close>)
qed

text \<open>
  A node whose keys can be read: a read gives the key, loads it perhaps, and keeps what is known of the node and the memory. The search relies on nothing else.
\<close>

definition reads_keys :: "'k storable \<Rightarrow> 's memory_ops \<Rightarrow> 'k list \<Rightarrow> ('k node \<Rightarrow> 's \<Rightarrow> bool) \<Rightarrow> bool" where
  "reads_keys K M ks R \<longleftrightarrow> (\<forall>n s. R n s \<longrightarrow> length (nd_entries n) = length ks \<and>
     (\<forall>i < length ks. ok (get_key K M n i s) (\<lambda>(k, n', s'). k = ks ! i \<and> R n' s')))"

lemma reads_keysD:
  assumes "reads_keys K M ks R" "R n s"
  shows "length (nd_entries n) = length ks" "i < length ks \<Longrightarrow> ok (get_key K M n i s) (\<lambda>(k, n', s'). k = ks ! i \<and> R n' s')"
  using assms by (auto simp: reads_keys_def)

lemma search_loop_keys:
  assumes R: "reads_keys K M ks R" and so: "sorted_wrt (<) ks" and "R n s" "base + m \<le> length ks" "0 < m"
    "base = 0 \<or> ks ! base \<le> key" "\<forall>j. base + m \<le> j \<longrightarrow> j < length ks \<longrightarrow> key < ks ! j"
  shows "ok (search_loop K M key base m n s) (\<lambda>(b, n', s'). R n' s' \<and>
    b < length ks \<and> (b = 0 \<or> ks ! b \<le> key) \<and> (\<forall>j. b < j \<longrightarrow> j < length ks \<longrightarrow> key < ks ! j))"
  using assms(3-)
proof (induction m arbitrary: n s base rule: less_induct)
  case (less m)
  show ?case
  proof (cases "m = 1")
    case True
    then show ?thesis
      using less.prems by (subst search_loop.simps) auto
  next
    case False
    let ?half = "m div 2"
    let ?mid = "base + ?half"
    have half: "0 < ?half" "?half < m" "?mid < length ks" "1 < m"
      using False less.prems(2,3) by auto
    from reads_keysD(2)[OF R less.prems(1) half(3)] obtain n1 s1 where 1: "get_key K M n ?mid s = Some (ks ! ?mid, n1, s1)" "R n1 s1"
      by (auto elim!: ok_obtain)
    define base' where "base' = (if ks ! ?mid > key then base else ?mid)"
    have B1: "base' + (m - ?half) \<le> length ks" and B2: "base' = 0 \<or> ks ! base' \<le> key"
      using half less.prems(2,4) by (auto simp: base'_def)
    have B3: "\<forall>j. base' + (m - ?half) \<le> j \<longrightarrow> j < length ks \<longrightarrow> key < ks ! j"
    proof (intro allI impI)
      fix j
      assume j: "base' + (m - ?half) \<le> j" "j < length ks"
      show "key < ks ! j"
      proof (cases "ks ! ?mid > key")
        case True
        then have "?mid \<le> j"
          using j(1) half by (simp add: base'_def)
        with True j(2) so show ?thesis
          by (cases "?mid = j") (auto simp: sorted_wrt_iff_nth_less intro: less_trans)
      next
        case False
        then show ?thesis
          using j less.prems(5) half by (simp add: base'_def)
      qed
    qed
    have "ok (search_loop K M key base' (m - ?half) n1 s1) (\<lambda>(b, n', s'). R n' s' \<and>
      b < length ks \<and> (b = 0 \<or> ks ! b \<le> key) \<and> (\<forall>j. b < j \<longrightarrow> j < length ks \<longrightarrow> key < ks ! j))"
      using half by (intro less.IH[OF _ 1(2) B1 _ B2 B3]) simp_all
    then show ?thesis
      using half(4) 1(1) by (subst search_loop.simps) (auto simp: Let_def base'_def[symmetric] elim!: ok_mono)
  qed
qed

lemma search_keys:
  assumes R: "reads_keys K M ks R" and n: "R n s" and so: "sorted_wrt (<) ks"
  shows "ok (node_search K M n key s) (\<lambda>(res, n', s'). R n' s' \<and> found_at ks key res)"
proof (cases "ks = []")
  case True
  then show ?thesis
    using n reads_keysD(1)[OF R n] by (simp add: node_search_def found_at_def)
next
  case False
  from search_loop_keys[OF R so n, of 0 "length ks" key] False obtain b n1 s1 where
    1: "search_loop K M key 0 (length ks) n s = Some (b, n1, s1)" "R n1 s1" "b < length ks" "b = 0 \<or> ks ! b \<le> key" "\<forall>j. b < j \<longrightarrow> j < length ks \<longrightarrow> key < ks ! j"
    by (auto elim!: ok_obtain)
  from reads_keysD(2)[OF R 1(2,3)] obtain n2 s2 where 2: "get_key K M n1 b s1 = Some (ks ! b, n2, s2)" "R n2 s2"
    by (auto elim!: ok_obtain)
  have less_b: "ks ! j < key" if "j < b" for j
    using so that 1(3,4) by (fastforce simp: sorted_wrt_iff_nth_less)
  have "found_at ks key (if ks ! b = key then Inr b else Inl (b + (if ks ! b < key then 1 else 0)))"
  proof (cases "ks ! b" key rule: linorder_cases)
    case less
    then show ?thesis
      using 1(3,5) less_b by (auto simp: found_at_def less_Suc_eq)
  next
    case equal
    then show ?thesis
      using 1(3) by (simp add: found_at_def)
  next
    case greater
    then have "b = 0"
      using 1(4) by auto
    with greater 1(3,5) show ?thesis
      by (auto simp: found_at_def) (metis gr0I)
  qed
  then show ?thesis
    using 1 2 reads_keysD(1)[OF R n] False by (simp add: node_search_def)
qed

text \<open>
  C16. The binary search of a node is the search through its list of keys: on every node whose keys can be read, loaded already or not, the search ends and
  returns the position of the key, or the position before which it has to be inserted, that a linear search through the keys finds.
\<close>

theorem node_search_linear:
  assumes "reads_keys K M ks R" "R n s" "sorted_wrt (<) ks"
  shows "ok (node_search K M n key s) (\<lambda>(res, n', s'). R n' s' \<and> res = linear_search key ks)"
  using search_keys[OF assms, of key] found_at_unique[OF assms(3) _ found_at_linear[OF assms(3)]] by (auto elim!: ok_mono)

definition example_node :: "64 word node" where
  "example_node = \<lparr>nd_address = 0, nd_entries = map (\<lambda>k. (by_value k, by_value [])) [3, 7, 9], nd_children = [], nd_node_type = Leaf,
     nd_version = V2 (PageValue 275), nd_overflows = []\<rparr>"

theorem node_search_linear_witness:
  "ok (node_search u64_storable VectorMemory example_node 8 []) (\<lambda>(res, n, s). (n = example_node \<and> s = []) \<and> res = Inl 2)"
proof -
  have r: "reads_keys u64_storable VectorMemory [3, 7, 9] (\<lambda>n s. n = example_node \<and> s = [])"
    by (auto simp: reads_keys_def example_node_def by_value_def get_key_def less_Suc_eq)
  have "linear_search 8 [3, 7, 9 :: 64 word] = Inl 2"
    by simp
  with node_search_linear[OF r, of example_node "[]" 8] show ?thesis
    by (simp del: linear_search.simps)
qed

locale node_ops = page_store M H sz prep + storable_type K valid
  for M :: "'s memory_ops" and H sz prep and K :: "'k::linorder storable" and valid +
  fixes pg :: page_size
  assumes pg: "page_size_get pg = Some sz"
    and sz: "128 \<le> sz"
begin

lemma sz_gt: "15 < sz" "11 < sz"
  using sz by simp_all

definition live :: "node_heap \<Rightarrow> 'k node \<Rightarrow> 'k entry list \<Rightarrow> bool" where
  "live W n es \<longleftrightarrow> node_page_size n = pg \<and> (\<exists>F. W (nd_address n) = Some (nd_overflows n, F) \<and> node_rep K F n es)"

lemma live_cong: "W' (nd_address n) = W (nd_address n) \<Longrightarrow> live W' n es = live W n es"
  by (simp add: live_def)

lemma live_length: "live W n es \<Longrightarrow> length (nd_entries n) = length es"
  by (auto simp: live_def node_rep_length)

lemma load_key_ok:
  assumes hp: "heap a h W r" and W: "W (nd_address n) = Some (nd_overflows n, F)" and p: "node_page_size n = pg"
    and k: "key_rep K (nd_version n) F (ByRef off l None) k"
  shows "ok (load_key_from_memory K M n off l (al_memory a)) (\<lambda>(k', s). k' = k \<and> heap (a\<lparr>al_memory := s\<rparr>) h W r)"
proof -
  obtain q m where q: "key_place K (nd_version n) off l = (q, m)" "q + m \<le> length F" "from_bytes K (subrange F q m) = Some k"
    using k by auto
  have len: "length F \<le> U64_MAX"
    by (rule heap_node[OF hp W])
  have place: "(case nd_version n of
         V1 _ _ \<Rightarrow> do { offset \<leftarrow> bytes_add off U32_SIZE; Some (offset, l) }
       | V2 _ \<Rightarrow>
           if bound_is_fixed_size (BOUND K) then do { m \<leftarrow> bound_max_size (BOUND K); Some (off, m) }
           else do { offset \<leftarrow> bytes_add off U32_SIZE; Some (offset, l) }) = Some (q, m)"
    using q(1,2) len by (auto simp: key_place_def U32_SIZE_def u64_add_def bound_is_fixed_size_def bound_max_size_def
        split: version.splits bound.splits if_splits)
  show ?thesis
    unfolding load_key_from_memory_def place node_reader_of_def p bind.bind_lunit case_prod_conv
    using heap_read[OF hp W sz_gt(2) pg q(2)] q(3) by (auto elim!: ok_mono)
qed

lemma load_value_ok:
  assumes hp: "heap a h W r" and W: "W (nd_address n) = Some (nd_overflows n, F)" and p: "node_page_size n = pg"
    and v: "val_rep F (ByRef off l None) v"
  shows "ok (load_value_from_memory M n off l (al_memory a)) (\<lambda>(v', s). v' = v \<and> heap (a\<lparr>al_memory := s\<rparr>) h W r)"
  using heap_read[OF hp W sz_gt(2) pg, of "off + 4" l] heap_node(2)[OF hp W] v
  by (auto simp: load_value_from_memory_def node_reader_of_def p U32_SIZE_def u64_add_def elim!: ok_mono)

lemma get_or_load_key:
  assumes "heap a h W r" "W (nd_address n) = Some (nd_overflows n, F)" "node_page_size n = pg" "key_rep K (nd_version n) F lk k"
  shows "ok (get_or_load lk (load_key_from_memory K M n) (al_memory a)) (\<lambda>(k', lk', s). k' = k \<and>
    heap (a\<lparr>al_memory := s\<rparr>) h W r \<and> key_rep K (nd_version n) F lk' k \<and> loaded lk')"
proof (cases lk rule: loaded.cases)
  case (3 off l)
  then show ?thesis
    using load_key_ok[OF assms(1-3), of off l k] assms(4) by (simp del: key_rep.simps) (auto elim!: ok_mono)
qed (use assms in simp_all)

lemma get_or_load_value:
  assumes "heap a h W r" "W (nd_address n) = Some (nd_overflows n, F)" "node_page_size n = pg" "val_rep F lv v"
  shows "ok (get_or_load lv (load_value_from_memory M n) (al_memory a)) (\<lambda>(v', lv', s). v' = v \<and>
    heap (a\<lparr>al_memory := s\<rparr>) h W r \<and> val_rep F lv' v \<and> loaded lv')"
proof (cases lv rule: loaded.cases)
  case (3 off l)
  then show ?thesis
    using load_value_ok[OF assms(1-3), of off l v] assms(4) by (simp del: val_rep.simps) (auto elim!: ok_mono)
qed (use assms in simp_all)

text \<open>The accessors return the key and the value, and only fill cells.\<close>

lemma node_more_upd:
  assumes "i < length (nd_entries n)" "entry_more (nd_entries n ! i) e"
  shows "node_more n (n\<lparr>nd_entries := (nd_entries n)[i := e]\<rparr>)"
  using assms by (auto simp: node_more_def list_all2_conv_all_nth nth_list_update entry_more_def)

lemma get_key_ok:
  assumes hp: "heap a h W r" and l: "live W n es" and i: "i < length es"
  shows "ok (get_key K M n i (al_memory a)) (\<lambda>(k, n', s). k = fst (es ! i) \<and> heap (a\<lparr>al_memory := s\<rparr>) h W r \<and>
    live W n' es \<and> node_more n n' \<and> loaded (fst (nd_entries n' ! i)))"
proof -
  obtain F where F: "W (nd_address n) = Some (nd_overflows n, F)" "node_page_size n = pg" "node_rep K F n es"
    using l by (auto simp: live_def)
  obtain lk lv where e: "nd_entries n ! i = (lk, lv)"
    by fastforce
  have len: "i < length (nd_entries n)"
    using i node_rep_length[OF F(3)] by simp
  have rep: "key_rep K (nd_version n) F lk (fst (es ! i))" "val_rep F lv (snd (es ! i))"
    using node_rep_nth[OF F(3) i] e by (simp_all add: entry_rep_def)
  have "live W (n\<lparr>nd_entries := (nd_entries n)[i := (lk', lv)]\<rparr>) es \<and>
      node_more n (n\<lparr>nd_entries := (nd_entries n)[i := (lk', lv)]\<rparr>)"
    if "key_rep K (nd_version n) F lk' (fst (es ! i))" "loaded lk'" for lk'
  proof
    have "node_rep K F (n\<lparr>nd_entries := (nd_entries n)[i := (lk', lv)]\<rparr>) (es[i := es ! i])"
      using that rep(2) by (intro node_rep_upd[OF F(3) i]) (simp add: entry_rep_def)
    then show "live W (n\<lparr>nd_entries := (nd_entries n)[i := (lk', lv)]\<rparr>) es"
      using F(1,2) by (simp add: live_def node_page_size_def)
    show "node_more n (n\<lparr>nd_entries := (nd_entries n)[i := (lk', lv)]\<rparr>)"
      using that(2) by (intro node_more_upd[OF len]) (simp add: e entry_more_def)
  qed
  then show ?thesis
    using get_or_load_key[OF hp F(1,2) rep(1)] len by (auto simp: get_key_def e elim!: ok_mono)
qed

lemma get_value_ok:
  assumes hp: "heap a h W r" and l: "live W n es" and i: "i < length es"
  shows "ok (get_value M n i (al_memory a)) (\<lambda>(v, n', s). v = snd (es ! i) \<and> heap (a\<lparr>al_memory := s\<rparr>) h W r \<and>
    live W n' es \<and> node_more n n' \<and> loaded (snd (nd_entries n' ! i)))"
proof -
  obtain F where F: "W (nd_address n) = Some (nd_overflows n, F)" "node_page_size n = pg" "node_rep K F n es"
    using l by (auto simp: live_def)
  obtain lk lv where e: "nd_entries n ! i = (lk, lv)"
    by fastforce
  have len: "i < length (nd_entries n)"
    using i node_rep_length[OF F(3)] by simp
  have rep: "key_rep K (nd_version n) F lk (fst (es ! i))" "val_rep F lv (snd (es ! i))"
    using node_rep_nth[OF F(3) i] e by (simp_all add: entry_rep_def)
  have "live W (n\<lparr>nd_entries := (nd_entries n)[i := (lk, lv')]\<rparr>) es \<and>
      node_more n (n\<lparr>nd_entries := (nd_entries n)[i := (lk, lv')]\<rparr>)"
    if "val_rep F lv' (snd (es ! i))" "loaded lv'" for lv'
  proof
    have "node_rep K F (n\<lparr>nd_entries := (nd_entries n)[i := (lk, lv')]\<rparr>) (es[i := es ! i])"
      using that rep(1) by (intro node_rep_upd[OF F(3) i]) (simp add: entry_rep_def)
    then show "live W (n\<lparr>nd_entries := (nd_entries n)[i := (lk, lv')]\<rparr>) es"
      using F(1,2) by (simp add: live_def node_page_size_def)
    show "node_more n (n\<lparr>nd_entries := (nd_entries n)[i := (lk, lv')]\<rparr>)"
      using that(2) by (intro node_more_upd[OF len]) (simp add: e entry_more_def)
  qed
  then show ?thesis
    using get_or_load_value[OF hp F(1,2) rep(2)] len by (auto simp: get_value_def e elim!: ok_mono)
qed

lemma node_key_ok:
  assumes "heap a h W r" "live W n es" "i < length es"
  shows "ok (node_key K M n i (al_memory a)) (\<lambda>(k, n', s). k = fst (es ! i) \<and> heap (a\<lparr>al_memory := s\<rparr>) h W r \<and>
    live W n' es \<and> node_more n n' \<and> loaded (fst (nd_entries n' ! i)))"
  using get_key_ok[OF assms] assms(3) live_length[OF assms(2)] by (simp add: node_key_def)

lemma node_value_ok:
  assumes "heap a h W r" "live W n es" "i < length es"
  shows "ok (node_value M n i (al_memory a)) (\<lambda>(v, n', s). v = snd (es ! i) \<and> heap (a\<lparr>al_memory := s\<rparr>) h W r \<and>
    live W n' es \<and> node_more n n' \<and> loaded (snd (nd_entries n' ! i)))"
  using get_value_ok[OF assms] assms(3) live_length[OF assms(2)] by (simp add: node_value_def)

lemma node_entry_ok:
  assumes "heap a h W r" "live W n es" "i < length es"
  shows "ok (node_entry K M n i (al_memory a)) (\<lambda>(e, n', s). e = es ! i \<and> heap (a\<lparr>al_memory := s\<rparr>) h W r \<and>
    live W n' es \<and> node_more n n' \<and> entry_loaded (nd_entries n' ! i))"
proof -
  from node_key_ok[OF assms] obtain n1 s1 where 1: "node_key K M n i (al_memory a) = Some (fst (es ! i), n1, s1)"
    "heap (a\<lparr>al_memory := s1\<rparr>) h W r" "live W n1 es" "node_more n n1" "loaded (fst (nd_entries n1 ! i))"
    by (auto elim!: ok_obtain)
  from node_value_ok[OF 1(2,3) assms(3)] obtain n2 s2 where 2: "node_value M n1 i s1 = Some (snd (es ! i), n2, s2)"
    "heap (a\<lparr>al_memory := s2\<rparr>) h W r" "live W n2 es" "node_more n1 n2" "loaded (snd (nd_entries n2 ! i))"
    by (auto elim!: ok_obtain)
  have "loaded (fst (nd_entries n2 ! i))"
    using 1(5) 2(4) assms(3) live_length[OF 1(3)] by (auto simp: node_more_def list_all2_conv_all_nth entry_more_def)
  then show ?thesis
    using 1 2 node_more_trans[OF 1(4) 2(4)] by (simp add: node_entry_def entry_loaded_def)
qed

lemma load_entries_ok:
  assumes "heap a h W r" "live W n es" "\<forall>i \<in> set is. i < length es"
  shows "ok (load_entries K M is n (al_memory a)) (\<lambda>(n', s). heap (a\<lparr>al_memory := s\<rparr>) h W r \<and> live W n' es \<and> node_more n n' \<and>
    (\<forall>i \<in> set is. entry_loaded (nd_entries n' ! i)))"
  using assms
proof (induction "is" arbitrary: n a)
  case (Cons i "is")
  have i: "i < length es"
    using Cons.prems(3) by simp
  from node_entry_ok[OF Cons.prems(1,2) i] obtain n1 s1 where 1: "node_entry K M n i (al_memory a) = Some (es ! i, n1, s1)"
    "heap (a\<lparr>al_memory := s1\<rparr>) h W r" "live W n1 es" "node_more n n1" "entry_loaded (nd_entries n1 ! i)"
    by (auto elim!: ok_obtain)
  from Cons.IH[OF 1(2,3)] Cons.prems(3) obtain n2 s2 where 2: "load_entries K M is n1 s1 = Some (n2, s2)"
    "heap (a\<lparr>al_memory := s2\<rparr>) h W r" "live W n2 es" "node_more n1 n2" "\<forall>j \<in> set is. entry_loaded (nd_entries n2 ! j)"
    by (auto elim!: ok_obtain)
  have "entry_loaded (nd_entries n2 ! i)"
    using node_moreD(7)[OF 2(4)] 1(5) i live_length[OF 1(3)] by simp
  then show ?case
    using 1 2 node_more_trans[OF 1(4) 2(4)] by simp
qed simp

text \<open>Taking an entry out of a node.\<close>

lemma take_or_load_get: "take_or_load x load s = map_option (\<lambda>(v, _, s). (v, s)) (get_or_load x load s)"
  by (cases x rule: loaded.cases) (auto simp: option.map_comp comp_def split: option.split bind_splits)

lemma extract_entry_ok:
  assumes hp: "heap a h W r" and W: "W (nd_address n) = Some (nd_overflows n, F)" "node_page_size n = pg"
    and e: "entry_rep K (nd_version n) F e kv"
  shows "ok (extract_entry K M n e (al_memory a)) (\<lambda>(kv', s). kv' = kv \<and> heap (a\<lparr>al_memory := s\<rparr>) h W r)"
proof -
  from get_or_load_key[OF hp W, of "fst e" "fst kv"] e obtain lk s1 where 1: "get_or_load (fst e) (load_key_from_memory K M n) (al_memory a) = Some (fst kv, lk, s1)"
    "heap (a\<lparr>al_memory := s1\<rparr>) h W r"
    by (auto simp: entry_rep_def elim!: ok_obtain)
  from get_or_load_value[OF 1(2) W, of "snd e" "snd kv"] e obtain lv s2 where 2: "get_or_load (snd e) (load_value_from_memory M n) s1 = Some (snd kv, lv, s2)"
    "heap (a\<lparr>al_memory := s2\<rparr>) h W r"
    by (auto simp: entry_rep_def elim!: ok_obtain)
  show ?thesis
    using 1 2 by (simp add: extract_entry_def extract_key_def extract_value_def take_or_load_get)
qed

lemma liveD:
  assumes "live W n es"
  obtains F where "W (nd_address n) = Some (nd_overflows n, F)" "node_page_size n = pg" "node_rep K F n es"
  using assms by (auto simp: live_def)

lemma live_entries:
  assumes "live W n es" "list_all2 (entry_rep K (nd_version n) F) ls es'" "W (nd_address n) = Some (nd_overflows n, F)"
  shows "live W (n\<lparr>nd_entries := ls\<rparr>) es'"
  using assms by (auto simp: live_def node_rep_def node_page_size_def)

lemma live_children [simp]: "live W (n\<lparr>nd_children := cs\<rparr>) es \<longleftrightarrow> live W n es"
  by (simp add: live_def node_rep_def node_page_size_def)

lemma swap_value_ok:
  assumes hp: "heap a h W r" and l: "live W n es" and i: "i < length es"
  shows "ok (swap_value M n i v (al_memory a)) (\<lambda>(old, n', s). old = snd (es ! i) \<and> heap (a\<lparr>al_memory := s\<rparr>) h W r \<and>
    live W n' (es[i := (fst (es ! i), v)]) \<and> n' = n\<lparr>nd_entries := nd_entries n'\<rparr>)"
proof -
  obtain F where F: "W (nd_address n) = Some (nd_overflows n, F)" "node_page_size n = pg" "node_rep K F n es"
    by (rule liveD[OF l])
  obtain lk lv where e: "nd_entries n ! i = (lk, lv)"
    by fastforce
  let ?n = "n\<lparr>nd_entries := (nd_entries n)[i := (lk, by_value v)]\<rparr>"
  have rep: "key_rep K (nd_version n) F lk (fst (es ! i))" "val_rep F lv (snd (es ! i))"
    using node_rep_nth[OF F(3) i] e by (simp_all add: entry_rep_def)
  have "node_rep K F ?n (es[i := (fst (es ! i), v)])"
    using rep(1) by (intro node_rep_upd[OF F(3) i]) (simp add: entry_rep_def by_value_def)
  then have n': "live W ?n (es[i := (fst (es ! i), v)])"
    using F(1,2) by (simp add: live_def node_page_size_def)
  have f: "W (nd_address ?n) = Some (nd_overflows ?n, F)" "node_page_size ?n = pg"
    using F(1,2) by (simp_all add: node_page_size_def)
  from get_or_load_value[OF hp f rep(2)] n' live_length[OF l] i show ?thesis
    by (auto simp: swap_value_def e extract_value_def take_or_load_get Let_def elim!: ok_obtain)
qed

lemma swap_entry_ok:
  assumes hp: "heap a h W r" and l: "live W n es" and i: "i < length es"
  shows "ok (swap_entry K M n i e (al_memory a)) (\<lambda>(old, n', s). old = es ! i \<and> heap (a\<lparr>al_memory := s\<rparr>) h W r \<and>
    live W n' (es[i := e]) \<and> n' = n\<lparr>nd_entries := nd_entries n'\<rparr>)"
proof -
  obtain F where F: "W (nd_address n) = Some (nd_overflows n, F)" "node_page_size n = pg" "node_rep K F n es"
    by (rule liveD[OF l])
  let ?n = "n\<lparr>nd_entries := (nd_entries n)[i := lazy_pair e]\<rparr>"
  have n': "live W ?n (es[i := e])"
    using F node_rep_upd[OF F(3) i, of "lazy_pair e" e] by (simp add: live_def node_page_size_def)
  have f: "W (nd_address ?n) = Some (nd_overflows ?n, F)" "node_page_size ?n = pg" "entry_rep K (nd_version ?n) F (nd_entries n ! i) (es ! i)"
    using F node_rep_nth[OF F(3) i] by (simp_all add: node_page_size_def)
  from extract_entry_ok[OF hp f] n' live_length[OF l] i show ?thesis
    by (auto simp: swap_entry_def Let_def elim!: ok_mono)
qed

lemma remove_entry_ok:
  assumes hp: "heap a h W r" and l: "live W n es" and i: "i < length es"
  shows "ok (remove_entry K M n i (al_memory a)) (\<lambda>(e, n', s). e = es ! i \<and> heap (a\<lparr>al_memory := s\<rparr>) h W r \<and>
    live W n' (take i es @ drop (Suc i) es) \<and> n' = n\<lparr>nd_entries := nd_entries n'\<rparr>)"
proof -
  obtain F where F: "W (nd_address n) = Some (nd_overflows n, F)" "node_page_size n = pg" "node_rep K F n es"
    by (rule liveD[OF l])
  let ?n = "n\<lparr>nd_entries := take i (nd_entries n) @ drop (Suc i) (nd_entries n)\<rparr>"
  have n': "live W ?n (take i es @ drop (Suc i) es)"
    using F(3) by (intro live_entries[OF l _ F(1)]) (auto simp: node_rep_def intro!: list_all2_appendI)
  have f: "W (nd_address ?n) = Some (nd_overflows ?n, F)" "node_page_size ?n = pg" "entry_rep K (nd_version ?n) F (nd_entries n ! i) (es ! i)"
    using F node_rep_nth[OF F(3) i] by (simp_all add: node_page_size_def)
  from extract_entry_ok[OF hp f] n' live_length[OF l] i show ?thesis
    by (auto simp: remove_entry_def vec_remove_def Let_def elim!: ok_mono)
qed

lemma extract_entry_at_ok:
  assumes hp: "heap a h W r" and l: "live W n es" and i: "i < length es"
  shows "ok (extract_entry_at K M n i (al_memory a)) (\<lambda>(e, n', s). e = es ! i \<and> heap (a\<lparr>al_memory := s\<rparr>) h W r)"
proof -
  obtain F where F: "W (nd_address n) = Some (nd_overflows n, F)" "node_page_size n = pg" "node_rep K F n es"
    by (rule liveD[OF l])
  let ?n = "n\<lparr>nd_entries := butlast ((nd_entries n)[i := last (nd_entries n)])\<rparr>"
  have f: "W (nd_address ?n) = Some (nd_overflows ?n, F)" "node_page_size ?n = pg" "entry_rep K (nd_version ?n) F (nd_entries n ! i) (es ! i)"
    using F node_rep_nth[OF F(3) i] by (simp_all add: node_page_size_def)
  from extract_entry_ok[OF hp f] live_length[OF l] i show ?thesis
    by (auto simp: extract_entry_at_def vec_swap_remove_def Let_def elim!: ok_mono)
qed

lemma pop_entry_ok:
  assumes hp: "heap a h W r" and l: "live W n es"
  shows "ok (pop_entry K M n (al_memory a)) (\<lambda>(e, n', s). e = (if es = [] then None else Some (last es)) \<and>
    heap (a\<lparr>al_memory := s\<rparr>) h W r \<and> live W n' (butlast es) \<and> n' = n\<lparr>nd_entries := butlast (nd_entries n)\<rparr>)"
proof (cases "es = []")
  case True
  then show ?thesis
    using hp l live_length[OF l] by (simp add: pop_entry_def entries_len_def)
next
  case False
  obtain F where F: "W (nd_address n) = Some (nd_overflows n, F)" "node_page_size n = pg" "node_rep K F n es"
    by (rule liveD[OF l])
  let ?n = "n\<lparr>nd_entries := butlast (nd_entries n)\<rparr>"
  have len: "length (nd_entries n) = length es" "nd_entries n \<noteq> []"
    using live_length[OF l] False by auto
  have n': "live W ?n (butlast es)"
    using F(3) len(1) by (intro live_entries[OF l _ F(1)]) (simp add: node_rep_def butlast_conv_take)
  have "entry_rep K (nd_version n) F (nd_entries n ! (length es - 1)) (es ! (length es - 1))"
    using False by (intro node_rep_nth[OF F(3)]) simp
  then have f: "W (nd_address ?n) = Some (nd_overflows ?n, F)" "node_page_size ?n = pg" "entry_rep K (nd_version ?n) F (last (nd_entries n)) (last es)"
    using F(1,2) len False by (simp_all add: node_page_size_def last_conv_nth)
  from extract_entry_ok[OF hp f] n' len False show ?thesis
    by (auto simp: pop_entry_def entries_len_def Let_def elim!: ok_mono)
qed

lemma insert_entry_ok:
  assumes l: "live W n es" and i: "i \<le> length es"
  shows "ok (insert_entry n i e) (\<lambda>n'. live W n' (take i es @ e # drop i es) \<and> n' = n\<lparr>nd_entries := nd_entries n'\<rparr>)"
proof -
  obtain F where F: "W (nd_address n) = Some (nd_overflows n, F)" "node_page_size n = pg" "node_rep K F n es"
    by (rule liveD[OF l])
  have "live W (n\<lparr>nd_entries := take i (nd_entries n) @ lazy_pair e # drop i (nd_entries n)\<rparr>) (take i es @ e # drop i es)"
    using F(3) by (intro live_entries[OF l _ F(1)]) (auto simp: node_rep_def intro!: list_all2_appendI)
  then show ?thesis
    using i live_length[OF l] by (simp add: insert_entry_def vec_insert_def)
qed

lemma push_entry_ok: "live W n es \<Longrightarrow> live W (push_entry n e) (es @ [e])"
  by (auto simp: live_def push_entry_def node_rep_def node_page_size_def intro!: list_all2_appendI)

lemma deallocate_ok:
  assumes hp: "heap a h W r" and W: "W (nd_address n) = Some (nd_overflows n, F)"
  shows "ok (node_deallocate M n a) (\<lambda>a'. heap a' h (W(nd_address n := None)) (r + length (nd_overflows n) + 1))"
proof -
  have free: "ok (deallocate_all M xs a) (\<lambda>a'. prep a' h (D |` (- set xs)) (r + length xs))"
    if "prep a h D r" "distinct xs" "set xs \<subseteq> dom D" for a D r xs
    using that
  proof (induction xs arbitrary: a D r)
    case (Cons x xs)
    have "x \<in> dom D"
      using Cons.prems(3) by simp
    from free_law[OF Cons.prems(1) this] obtain a1 where a1: "deallocate M a x = Some a1" "prep a1 h (D(x := None)) (Suc r)"
      by (auto elim!: ok_obtain)
    have sub: "set xs \<subseteq> dom (D(x := None))" and eq: "(D(x := None)) |` (- set xs) = D |` (- set (x # xs))" and d: "distinct xs"
      using Cons.prems(2,3) by (auto simp: restrict_map_def)
    from Cons.IH[OF a1(2) d sub, unfolded eq] show ?case
      using a1(1) by simp
  qed (simp add: restrict_map_def)
  obtain D where D: "prep a h D r" "heap_pages sz D W"
    using hp by (auto simp: heap_def)
  have pgs: "node_pages D sz (nd_address n) (nd_overflows n)"
    by (rule heap_pagesD[OF D(2) W])
  have "distinct (nd_overflows n @ [nd_address n])" "set (nd_overflows n @ [nd_address n]) \<subseteq> dom D"
    using pgs by (auto simp: node_pages_def)
  from free[OF D(1) this] have f: "ok (deallocate_all M (nd_overflows n @ [nd_address n]) a)
      (\<lambda>a'. prep a' h (D |` (- pages_of W (nd_address n))) (r + length (nd_overflows n) + 1))"
    using W by (simp add: insert_commute)
  have "deallocate_all M (xs @ [y]) a = do { a \<leftarrow> deallocate_all M xs a; deallocate M a y }" for xs y a
    by (induction xs arbitrary: a) (auto split: bind_splits)
  then have "node_deallocate M n a = deallocate_all M (nd_overflows n @ [nd_address n]) a"
    by (simp add: node_deallocate_def)
  then show ?thesis
    using f heap_pages_free[OF D(2) refl, of "nd_address n"] by (auto simp: heap_def elim!: ok_mono)
qed

text \<open>The search.\<close>

lemma search_ok:
  assumes hp: "heap a h W r" and l: "live W n es" and so: "sorted_wrt (<) (map fst es)"
  shows "ok (node_search K M n key (al_memory a)) (\<lambda>(res, n', s). heap (a\<lparr>al_memory := s\<rparr>) h W r \<and> live W n' es \<and> node_more n n' \<and>
    found_at (map fst es) key res)"
proof -
  let ?R = "\<lambda>n' s. heap (a\<lparr>al_memory := s\<rparr>) h W r \<and> live W n' es \<and> node_more n n'"
  have "ok (get_key K M n' i s) (\<lambda>(k, n'', s'). k = map fst es ! i \<and> ?R n'' s')" if "?R n' s" "i < length es" for n' s i
    using get_key_ok[of "a\<lparr>al_memory := s\<rparr>" h W r n' es i] that by (auto intro: node_more_trans elim!: ok_mono)
  then have "reads_keys K M (map fst es) ?R"
    by (auto simp: reads_keys_def live_length)
  from search_keys[OF this _ so, where n=n and s="al_memory a"] show ?thesis
    using hp l by (auto elim!: ok_mono)
qed

text \<open>
  Splitting a full node: the upper half goes to the sibling, the median is returned. All entries that
  move are loaded, since they stand for nothing in the pages of the sibling.
\<close>

lemma loaded_part:
  assumes "list_all2 (entry_rep K v F) ls es" "\<forall>e \<in> set ls. entry_loaded e"
  shows "list_all2 (entry_rep K v' F') ls es"
  using assms entry_rep_loaded[of _ K v F _ v' F'] by (auto simp: list_all2_conv_all_nth)

lemma split_ok:
  assumes hp: "heap a h W r" and l: "live W n es" and full: "CAPACITY \<le> length es"
    and sib: "W (nd_address sib) = Some (nd_overflows sib, G)" "node_page_size sib = pg"
    and ch: "nd_node_type n = Internal \<longrightarrow> BTREE_B \<le> length (nd_children n)"
  shows "ok (node_split K M n sib (al_memory a)) (\<lambda>(e, n', sib', s). e = es ! 5 \<and> heap (a\<lparr>al_memory := s\<rparr>) h W r \<and>
    live W n' (take 5 es) \<and> live W sib' (drop 6 es) \<and>
    n' = n\<lparr>nd_entries := nd_entries n', nd_children := (if nd_node_type n = Internal then take 6 (nd_children n) else nd_children n)\<rparr> \<and>
    sib' = sib\<lparr>nd_entries := nd_entries sib', nd_children := (if nd_node_type n = Internal then drop 6 (nd_children n) else nd_children sib)\<rparr>)"
proof -
  have len: "length (nd_entries n) = length es" "11 \<le> length es"
    using live_length[OF l] full by (simp_all add: CAPACITY_def)
  from load_entries_ok[OF hp l, of "[6..<length es]"] obtain n1 s1 where
    1: "load_entries K M [6..<length es] n (al_memory a) = Some (n1, s1)" "heap (a\<lparr>al_memory := s1\<rparr>) h W r" "live W n1 es" "node_more n n1"
      "\<forall>i \<in> set [6..<length es]. entry_loaded (nd_entries n1 ! i)"
    by (auto elim!: ok_obtain)
  obtain F where F: "W (nd_address n1) = Some (nd_overflows n1, F)" "node_page_size n1 = pg" "node_rep K F n1 es"
    by (rule liveD[OF 1(3)])
  note m = node_moreD[OF 1(4)]
  have len1: "length (nd_entries n1) = length es"
    using m(6) len by simp
  let ?cs = "if nd_node_type n = Internal then take 6 (nd_children n) else nd_children n"
  let ?ds = "if nd_node_type n = Internal then drop 6 (nd_children n) else nd_children sib"
  define n2 where "n2 = n1\<lparr>nd_entries := take 6 (nd_entries n1), nd_children := ?cs\<rparr>"
  define sib' where "sib' = sib\<lparr>nd_entries := drop 6 (nd_entries n1), nd_children := ?ds\<rparr>"
  have "live W n2 (take 6 es)"
    using live_entries[OF 1(3) _ F(1), of "take 6 (nd_entries n1)" "take 6 es"] F(3) unfolding n2_def by (simp add: node_rep_def)
  moreover have med: "es \<noteq> []" "last (take 6 es) = es ! 5"
    using len(2) last_conv_nth[of "take 6 es"] by (cases es; simp)+
  ultimately obtain n3 s3 where 3: "pop_entry K M n2 s1 = Some (Some (es ! 5), n3, s3)"
    "heap (a\<lparr>al_memory := s3\<rparr>) h W r" "live W n3 (take 5 es)" "n3 = n2\<lparr>nd_entries := butlast (nd_entries n2)\<rparr>"
    using pop_entry_ok[OF 1(2), of n2 "take 6 es"] len(2) by (auto simp: butlast_take elim!: ok_obtain)
  have "\<forall>e \<in> set (drop 6 (nd_entries n1)). entry_loaded e"
    using 1(5) len1 by (auto simp: set_conv_nth)
  then have "list_all2 (entry_rep K (nd_version sib) G) (drop 6 (nd_entries n1)) (drop 6 es)"
    using F(3) loaded_part[of "nd_version n1" F "drop 6 (nd_entries n1)" "drop 6 es"] by (simp add: node_rep_def)
  then have sib': "live W sib' (drop 6 es)"
    using sib by (simp add: live_def node_rep_def sib'_def node_page_size_def)
  have n3: "n3 = n\<lparr>nd_entries := nd_entries n3, nd_children := ?cs\<rparr>"
    using m(1-5) unfolding 3(4) n2_def by (cases n; cases n1) simp
  have n2: "n2 = n1\<lparr>nd_entries := take 6 (nd_entries n1)\<rparr>" if "nd_node_type n \<noteq> Internal"
    using m(2) that by (cases n1) (simp add: n2_def)
  have "node_split K M n sib (al_memory a) = Some (es ! 5, n3, sib', s3)"
  proof (cases "nd_node_type n = Internal")
    case True
    then show ?thesis
      using 1(1) 3(1) ch m(2,3) len len1 full
      by (simp add: node_split_def is_full_def BTREE_B_def entries_len_def split_off_def n2_def sib'_def Let_def)
  next
    case False
    then show ?thesis
      using 1(1) 3(1)[unfolded n2[OF False]] m(3) len len1 full
      by (simp add: node_split_def is_full_def BTREE_B_def entries_len_def split_off_def sib'_def Let_def)
  qed
  moreover have "sib' = sib\<lparr>nd_entries := nd_entries sib', nd_children := ?ds\<rparr>"
    by (simp add: sib'_def)
  ultimately show ?thesis
    using 3(2,3) sib' n3 by simp
qed

lemma append_ok:
  assumes hp: "heap a h W r" and x: "live W x ex" and y: "live W y ey" and ty: "nd_node_type x = nd_node_type y"
    and ne: "ex \<noteq> []" "ey \<noteq> []" and med: "fst (last ex) < fst e" "fst e < fst (hd ey)"
  shows "ok (node_append K M x y e (al_memory a)) (\<lambda>(x', y', s). heap (a\<lparr>al_memory := s\<rparr>) h W r \<and>
    (\<exists>x1 y1. live W x1 ex \<and> node_more x x1 \<and> live W y1 ey \<and> node_more y y1 \<and>
      x' = x1\<lparr>nd_entries := nd_entries x1 @ lazy_pair e # nd_entries y1, nd_children := nd_children x @ nd_children y\<rparr> \<and>
      y' = y1\<lparr>nd_entries := [], nd_children := []\<rparr>))"
proof -
  have lx: "length ex - 1 < length ex" and ly: "0 < length ey"
    using ne by simp_all
  from node_key_ok[OF hp x lx] obtain x1 s1 where 1: "node_key K M x (length ex - 1) (al_memory a) = Some (fst (last ex), x1, s1)"
    "heap (a\<lparr>al_memory := s1\<rparr>) h W r" "live W x1 ex" "node_more x x1"
    using ne by (auto simp: last_conv_nth elim!: ok_obtain)
  from node_key_ok[OF 1(2) y ly] obtain y1 s2 where 2: "node_key K M y 0 s1 = Some (fst (hd ey), y1, s2)"
    "heap (a\<lparr>al_memory := s2\<rparr>) h W r" "live W y1 ey" "node_more y y1"
    using ne by (auto simp: hd_conv_nth elim!: ok_obtain)
  have len: "length (nd_entries x) = length ex" "length (nd_entries y) = length ey"
    using live_length[OF x] live_length[OF y] by simp_all
  have "node_append K M x y e (al_memory a) = Some (
      x1\<lparr>nd_entries := nd_entries x1 @ lazy_pair e # nd_entries y1, nd_children := nd_children x @ nd_children y\<rparr>,
      y1\<lparr>nd_entries := [], nd_children := []\<rparr>, s2)"
    using 1(1) 2(1) ty ne med len node_moreD(2)[OF 1(4)] node_moreD(2)[OF 2(4)]
    by (simp add: node_append_def entries_len_def push_entry_def Let_def)
  then show ?thesis
    using 2(2) 1(3,4) 2(3,4) by auto
qed

end

end
