(* ===== verification/Node_V2.thy ===== *)
theory Node_V2
  imports BTree_Node
begin

text \<open>
  Nodes of version 2 (\<open>src/src/btreemap/node/v2.rs\<close>): a node of any size, written to its initial page and
  as many overflow pages as it needs. \<open>encode_v2\<close> is the layout. The main result: a node that is saved is
  in its pages as \<open>encode_v2\<close> says, linked, with exactly the pages it needs; and a node that is loaded from
  such pages stands for the entries and children that were saved.
\<close>

section \<open>The code\<close>

definition ENTRIES_OFFSET :: nbytes where "ENTRIES_OFFSET = 15"
definition MINIMUM_PAGE_SIZE :: nat where "MINIMUM_PAGE_SIZE = 128"
definition CHILDREN_BATCH_READ_THRESHOLD :: nat where "CHILDREN_BATCH_READ_THRESHOLD = 4"
definition EAGER_LOAD_KEY_SIZE_THRESHOLD :: nat where "EAGER_LOAD_KEY_SIZE_THRESHOLD = 16"

text \<open>\<open>n as u16\<close>\<close>

definition as_u16 :: "nat \<Rightarrow> nat" where
  "as_u16 n = n mod 2 ^ 16"

definition new_v2 :: "address \<Rightarrow> node_type \<Rightarrow> page_size \<Rightarrow> 'k node option" where
  "new_v2 address node_type page_size = do {
     p \<leftarrow> page_size_get page_size;
     assert_that (p \<ge> MINIMUM_PAGE_SIZE);
     Some \<lparr>nd_address = address, nd_entries = [], nd_children = [], nd_node_type = node_type,
       nd_version = V2 page_size, nd_overflows = []\<rparr> }"

record overflow_page_header =
  oph_magic :: bytes
  oph_next :: address

definition decode_overflow_header :: "bytes \<Rightarrow> overflow_page_header" where
  "decode_overflow_header bs = \<lparr>oph_magic = subrange bs 0 3, oph_next = from_le_bytes (subrange bs 3 8)\<rparr>"

text \<open>The loop along the chain of overflow pages; it ends when it meets \<open>NULL\<close>.\<close>

partial_function (option) read_overflows_loop ::
  "'s memory_ops \<Rightarrow> address \<Rightarrow> address list \<Rightarrow> 's \<Rightarrow> (address list \<times> 's) option" where
  "read_overflows_loop M overflow overflows s =
     (if overflow = NULL then Some (overflows, s)
      else do {
        (header, s) \<leftarrow> read_struct 11 decode_overflow_header M s overflow;
        assert_that (oph_magic header = OVERFLOW_MAGIC);
        read_overflows_loop M (oph_next header) (overflows @ [overflow]) s })"

definition read_overflows :: "'s memory_ops \<Rightarrow> address \<Rightarrow> 's \<Rightarrow> (address list \<times> 's) option" where
  "read_overflows M address s = do {
     addr \<leftarrow> addr_add address OVERFLOW_ADDRESS_OFFSET;
     (overflow, s) \<leftarrow> read_u64 M s addr;
     read_overflows_loop M overflow [] s }"

definition node_type_of :: "nat \<Rightarrow> node_type option" where
  "node_type_of t = (if t = LEAF_NODE_TYPE then Some Leaf else if t = INTERNAL_NODE_TYPE then Some Internal else None)"

definition node_type_code :: "node_type \<Rightarrow> nat" where
  "node_type_code t = (case t of Leaf \<Rightarrow> LEAF_NODE_TYPE | Internal \<Rightarrow> INTERNAL_NODE_TYPE)"

text \<open>The individual reads of a small number of children.\<close>

fun read_children :: "'s memory_ops \<Rightarrow> nat \<Rightarrow> address \<Rightarrow> 's \<Rightarrow> (address list \<times> address \<times> 's) option" where
  "read_children R 0 offset s = Some ([], offset, s)"
| "read_children R (Suc n) offset s = do {
     (c, s) \<leftarrow> read_u64 R s offset;
     offset \<leftarrow> addr_add offset address_size;
     (cs, offset, s) \<leftarrow> read_children R n offset s;
     Some (c # cs, offset, s) }"

definition load_children_v2 :: "'s memory_ops \<Rightarrow> nat \<Rightarrow> address \<Rightarrow> 's \<Rightarrow> (address list \<times> address \<times> 's) option" where
  "load_children_v2 R count offset s =
     (if count \<le> CHILDREN_BATCH_READ_THRESHOLD then read_children R count offset s
      else do {
        (cs, s) \<leftarrow> read_address_vec R s offset count;
        n \<leftarrow> bytes_mul count address_size;
        offset \<leftarrow> addr_add offset n;
        Some (cs, offset, s) })"

text \<open>The keys: small ones are loaded, of large ones the place is noted.\<close>

fun load_keys_v2 ::
  "'k storable \<Rightarrow> 's memory_ops \<Rightarrow> nat \<Rightarrow> address \<Rightarrow> 's \<Rightarrow> ('k lazy_entry list \<times> address \<times> 's) option" where
  "load_keys_v2 K R 0 offset s = Some ([], offset, s)"
| "load_keys_v2 K R (Suc n) offset s = do {
     let key_offset = offset;
     (key_size, offset, s) \<leftarrow> (if bound_is_fixed_size (BOUND K) then do { m \<leftarrow> bound_max_size (BOUND K); Some (m, offset, s) }
        else do {
          (sz, s) \<leftarrow> read_u32 R s offset;
          offset \<leftarrow> addr_add offset U32_SIZE;
          Some (sz, offset, s) });
     (key, s) \<leftarrow> (if key_size \<le> EAGER_LOAD_KEY_SIZE_THRESHOLD then do {
          (buf, s) \<leftarrow> read_to_vec R s offset key_size;
          k \<leftarrow> from_bytes K buf;
          Some (by_value k, s) }
        else Some (by_ref key_offset key_size, s));
     offset \<leftarrow> addr_add offset key_size;
     (es, offset, s) \<leftarrow> load_keys_v2 K R n offset s;
     Some ((key, by_ref 0 0) # es, offset, s) }"

text \<open>The values are never loaded here.\<close>

fun load_values_v2 ::
  "'s memory_ops \<Rightarrow> 'k lazy_entry list \<Rightarrow> address \<Rightarrow> 's \<Rightarrow> ('k lazy_entry list \<times> address \<times> 's) option" where
  "load_values_v2 R [] offset s = Some ([], offset, s)"
| "load_values_v2 R (e # es) offset s = do {
     (value_size, s) \<leftarrow> read_u32 R s offset;
     let value = by_ref offset value_size;
     n \<leftarrow> bytes_add U32_SIZE value_size;
     offset \<leftarrow> addr_add offset n;
     (es, offset, s) \<leftarrow> load_values_v2 R es offset s;
     Some ((fst e, value) # es, offset, s) }"

definition load_v2 ::
  "'k storable \<Rightarrow> 's memory_ops \<Rightarrow> address \<Rightarrow> page_size \<Rightarrow> node_header \<Rightarrow> 's \<Rightarrow> ('k node \<times> 's) option" where
  "load_v2 K M address page_size header s = do {
     (overflows, s) \<leftarrow> read_overflows M address s;
     let R = NodeReader M \<lparr>nr_address = address, nr_overflows = overflows, nr_page_size = page_size\<rparr>;
     node_type \<leftarrow> node_type_of (nh_node_type header);
     let num_entries = nh_num_entries header;
     offset \<leftarrow> addr_add 0 ENTRIES_OFFSET;
     (children, offset, s) \<leftarrow> (if node_type = Internal then do {
          count \<leftarrow> u64_add num_entries 1;
          load_children_v2 R count offset s }
        else Some ([], offset, s));
     (entries, offset, s) \<leftarrow> load_keys_v2 K R num_entries offset s;
     (entries, offset, s) \<leftarrow> load_values_v2 R entries offset s;
     Some (\<lparr>nd_address = address, nd_entries = entries, nd_children = children, nd_node_type = node_type,
       nd_version = V2 page_size, nd_overflows = overflows\<rparr>, s) }"

fun save_keys_v2 ::
  "'k storable \<Rightarrow> 's memory_ops \<Rightarrow> nat list \<Rightarrow> 'k node \<Rightarrow> 's node_writer \<Rightarrow> address \<Rightarrow> ('k node \<times> 's node_writer \<times> address) option" where
  "save_keys_v2 K M [] n w offset = Some (n, w, offset)"
| "save_keys_v2 K M (i # is) n w offset = do {
     (key, n, s) \<leftarrow> node_key K M n i (nw_memory w);
     let w = set_memory w s;
     key_bytes \<leftarrow> to_bytes_checked K key;
     (w, offset) \<leftarrow> (if \<not> bound_is_fixed_size (BOUND K) then do {
          w \<leftarrow> nw_write_u32 M w offset (as_u32 (length key_bytes));
          offset \<leftarrow> addr_add offset U32_SIZE;
          Some (w, offset) }
        else Some (w, offset));
     w \<leftarrow> nw_write M w offset key_bytes;
     offset \<leftarrow> addr_add offset (length key_bytes);
     save_keys_v2 K M is n w offset }"

fun save_values_v2 ::
  "'s memory_ops \<Rightarrow> nat list \<Rightarrow> 'k node \<Rightarrow> 's node_writer \<Rightarrow> address \<Rightarrow> ('k node \<times> 's node_writer \<times> address) option" where
  "save_values_v2 M [] n w offset = Some (n, w, offset)"
| "save_values_v2 M (i # is) n w offset = do {
     (value, n, s) \<leftarrow> node_value M n i (nw_memory w);
     let w = set_memory w s;
     w \<leftarrow> nw_write_u32 M w offset (as_u32 (length value));
     offset \<leftarrow> addr_add offset U32_SIZE;
     w \<leftarrow> nw_write M w offset value;
     offset \<leftarrow> addr_add offset (length value);
     save_values_v2 M is n w offset }"

definition save_v2 :: "'k storable \<Rightarrow> 's memory_ops \<Rightarrow> 'k node \<Rightarrow> 's allocator \<Rightarrow> ('k node \<times> 's allocator) option" where
  "save_v2 K M n a = do {
     page_size \<leftarrow> page_size_get (version_page_size (nd_version n));
     assert_that (page_size \<ge> MINIMUM_PAGE_SIZE);
     (n, s) \<leftarrow> load_entries K M [0..<length (nd_entries n)] n (al_memory a);
     let w = node_writer_new (nd_address n) (nd_overflows n) (node_page_size n) (a\<lparr>al_memory := s\<rparr>);
     let offset = 0;
     let header = \<lparr>nh_magic = NODE_MAGIC, nh_version = LAYOUT_VERSION_2, nh_node_type = node_type_code (nd_node_type n),
       nh_num_entries = as_u16 (length (nd_entries n))\<rparr>;
     w \<leftarrow> nw_write_struct encode_node_header header M w offset;
     offset \<leftarrow> addr_add offset node_header_size;
     w \<leftarrow> nw_write_u64 M w offset (case nd_overflows n of [] \<Rightarrow> NULL | v # _ \<Rightarrow> v);
     offset \<leftarrow> addr_add offset 8;
     let count = length (nd_children n);
     byte_len \<leftarrow> u64_mul count address_size;
     let bs = concat (map (to_le_bytes 8) (nd_children n));
     w \<leftarrow> nw_write M w offset bs;
     offset \<leftarrow> addr_add offset byte_len;
     (n, w, offset) \<leftarrow> save_keys_v2 K M [0..<length (nd_entries n)] n w offset;
     (n, w, offset) \<leftarrow> save_values_v2 M [0..<length (nd_entries n)] n w offset;
     (overflows, a) \<leftarrow> nw_finish M w;
     Some (n\<lparr>nd_overflows := overflows\<rparr>, a) }"

section \<open>The layout\<close>

text \<open>What a node stands for.\<close>

record 'k anode =
  an_type :: node_type
  an_entries :: "'k entry list"
  an_children :: "address list"

definition key_bytes :: "'k storable \<Rightarrow> 'k \<Rightarrow> bytes" where
  "key_bytes K k = the (to_bytes K k)"

definition key_enc :: "'k storable \<Rightarrow> 'k \<Rightarrow> bytes" where
  "key_enc K k = (if bound_is_fixed_size (BOUND K) then [] else to_le_bytes 4 (length (key_bytes K k))) @ key_bytes K k"

definition val_enc :: "bytes \<Rightarrow> bytes" where
  "val_enc v = to_le_bytes 4 (length v) @ v"

definition node_hdr :: "nat \<Rightarrow> node_type \<Rightarrow> nat \<Rightarrow> node_header" where
  "node_hdr v t n = \<lparr>nh_magic = NODE_MAGIC, nh_version = v, nh_node_type = node_type_code t, nh_num_entries = n\<rparr>"

definition encode_v2 :: "'k storable \<Rightarrow> 'k anode \<Rightarrow> address \<Rightarrow> bytes" where
  "encode_v2 K an link = encode_node_header (node_hdr LAYOUT_VERSION_2 (an_type an) (length (an_entries an))) @ to_le_bytes 8 link @
     concat (map (to_le_bytes 8) (an_children an)) @ concat (map (\<lambda>e. key_enc K (fst e)) (an_entries an)) @
     concat (map (\<lambda>e. val_enc (snd e)) (an_entries an))"

definition stored_v2 :: "'k storable \<Rightarrow> 'k anode \<Rightarrow> address list \<times> bytes \<Rightarrow> bool" where
  "stored_v2 K an raw \<longleftrightarrow> (\<exists>post. snd raw = encode_v2 K an (next_page (fst raw) 0) @ post)"

definition anode_ok :: "('k \<Rightarrow> bool) \<Rightarrow> 'k storable \<Rightarrow> 'k anode \<Rightarrow> bool" where
  "anode_ok valid K an \<longleftrightarrow> length (an_entries an) \<le> U16_MAX - 1 \<and>
     (\<forall>(k, v) \<in> set (an_entries an). valid k \<and> length (key_bytes K k) \<le> U32_MAX \<and> length v \<le> U32_MAX) \<and>
     (\<forall>c \<in> set (an_children an). c \<le> U64_MAX) \<and>
     length (an_children an) = (case an_type an of Leaf \<Rightarrow> 0 | Internal \<Rightarrow> length (an_entries an) + 1)"

lemma length_node_header [simp]: "length (encode_node_header (node_hdr v t n)) = 7"
  by (simp add: encode_node_header_def node_hdr_def NODE_MAGIC_def)

lemma decode_node_hdr:
  assumes "n \<le> U16_MAX" "v \<le> U8_MAX"
  shows "decode_node_header (encode_node_header (node_hdr v t n)) = node_hdr v t n"
proof -
  have "from_le_bytes (to_le_bytes 2 n) = n" "from_le_bytes (to_le_bytes 1 v) = v" "from_le_bytes (to_le_bytes 1 (node_type_code t)) = node_type_code t"
    using assms by (cases t; simp add: from_to_le_bytes node_type_code_def LEAF_NODE_TYPE_def INTERNAL_NODE_TYPE_def del: to_le_bytes.simps)+
  then show ?thesis
    by (simp add: decode_node_header_def encode_node_header_def node_hdr_def NODE_MAGIC_def subrange_def del: to_le_bytes.simps)
qed

lemma node_type_roundtrip [simp]: "node_type_of (node_type_code t) = Some t"
  by (cases t) (simp_all add: node_type_of_def node_type_code_def LEAF_NODE_TYPE_def INTERNAL_NODE_TYPE_def)

lemma subrange_prefix: "F = pre @ bs @ post \<Longrightarrow> off = length pre \<Longrightarrow> n = length bs \<Longrightarrow> subrange F off n = bs"
  by (simp add: subrange_def)

lemma concat_chunks: "map from_le_bytes (chunks_exact 8 (concat (map (to_le_bytes 8) cs))) = cs" if "\<forall>c \<in> set cs. c \<le> U64_MAX"
  using that
proof (induction cs)
  case (Cons c cs)
  have "chunks_exact 8 (to_le_bytes 8 c @ zs) = to_le_bytes 8 c # chunks_exact 8 zs" for zs
    by (subst chunks_exact.simps) (simp del: to_le_bytes.simps)
  moreover have "from_le_bytes (to_le_bytes 8 c) = c"
    using Cons.prems by (simp add: from_to_le_bytes del: to_le_bytes.simps)
  ultimately show ?case
    using Cons by (simp del: to_le_bytes.simps)
qed (simp add: chunks_exact.simps)

lemma length_concat_le8 [simp]: "length (concat (map (to_le_bytes 8) cs)) = 8 * length cs"
  using length_concat_equal[of "map (to_le_bytes 8) cs" 8] by simp

section \<open>Loading\<close>

context node_ops
begin

abbreviation reader :: "address \<Rightarrow> address list \<Rightarrow> 's memory_ops" where
  "reader x ovs \<equiv> NodeReader M \<lparr>nr_address = x, nr_overflows = ovs, nr_page_size = pg\<rparr>"

lemma read_overflows_loop_ok:
  assumes "heap a h W r" "W x = Some (ovs, F)" "i \<le> length ovs"
  shows "ok (read_overflows_loop M (next_page ovs i) (take i ovs) (al_memory a)) (\<lambda>(us, s). us = ovs \<and> heap (a\<lparr>al_memory := s\<rparr>) h W r)"
  using assms
proof (induction "length ovs - i" arbitrary: i a)
  case 0
  then show ?case
    by (subst read_overflows_loop.simps) (simp add: next_page_def)
next
  case (Suc n)
  then have i: "i < length ovs"
    by simp
  from heap_overflow_header[OF Suc.prems(1,2) sz_gt(2) i] obtain s where s:
    "read_op M (al_memory a) (next_page ovs i) 11 = Some (OVERFLOW_MAGIC @ to_le_bytes 8 (next_page ovs (Suc i)), s)" "heap (a\<lparr>al_memory := s\<rparr>) h W r"
    using i by (auto simp: next_page_def elim!: ok_obtain)
  have "decode_overflow_header (OVERFLOW_MAGIC @ to_le_bytes 8 (next_page ovs (Suc i))) =
      \<lparr>oph_magic = OVERFLOW_MAGIC, oph_next = next_page ovs (Suc i)\<rparr>"
    using heap_next_page(2)[OF Suc.prems(1,2), of "Suc i"]
    by (simp add: decode_overflow_header_def OVERFLOW_MAGIC_def subrange_def from_to_le_bytes del: to_le_bytes.simps)
  moreover have "take (Suc i) ovs = take i ovs @ [next_page ovs i]"
    using i by (simp add: next_page_def take_Suc_conv_app_nth)
  ultimately show ?case
    using Suc.hyps(1)[of "Suc i" "a\<lparr>al_memory := s\<rparr>"] Suc.hyps(2) Suc.prems(2) i s heap_next_page(1)[OF Suc.prems(1,2) i]
    by (subst read_overflows_loop.simps) (simp add: read_struct_def)
qed

lemma read_overflows_ok:
  assumes hp: "heap a h W r" and W: "W x = Some (ovs, F)" and l: "subrange F 7 8 = to_le_bytes 8 (next_page ovs 0)"
  shows "ok (read_overflows M x (al_memory a)) (\<lambda>(us, s). us = ovs \<and> heap (a\<lparr>al_memory := s\<rparr>) h W r)"
proof -
  have x: "x + 7 \<le> U64_MAX"
    using heap_node(4)[OF hp W] sz by simp
  have link: "from_le_bytes (to_le_bytes 8 (next_page ovs 0)) = next_page ovs 0"
    using heap_next_page(2)[OF hp W, of 0] by (simp add: from_to_le_bytes del: to_le_bytes.simps)
  from heap_read_page[OF hp W, of 7 8] sz obtain s where s: "read_op M (al_memory a) (x + 7) 8 = Some (to_le_bytes 8 (next_page ovs 0), s)"
    "heap (a\<lparr>al_memory := s\<rparr>) h W r"
    using l by (auto elim!: ok_obtain)
  show ?thesis
    using read_overflows_loop_ok[OF s(2) W, of 0] s(1) x link
    by (simp add: read_overflows_def page_consts u64_add_def read_u64_def del: to_le_bytes.simps)
qed

lemma reader_ok:
  assumes "heap a h W r" "W x = Some (ovs, F)" "F = pre @ bs @ post" "off = length pre" "n = length bs"
  shows "ok (read_op (reader x ovs) (al_memory a) off n) (\<lambda>(bs', s). bs' = bs \<and> heap (a\<lparr>al_memory := s\<rparr>) h W r)"
  using heap_read[OF assms(1,2) sz_gt(2) pg, of off n] subrange_prefix[OF assms(3-5)] assms(3-5)
  by (simp add: read_to_vec_def)

lemma read_children_ok:
  assumes "heap a h W r" "W x = Some (ovs, F)" "F = pre @ concat (map (to_le_bytes 8) cs) @ post" "\<forall>c \<in> set cs. c \<le> U64_MAX"
  shows "ok (read_children (reader x ovs) (length cs) (length pre) (al_memory a))
    (\<lambda>(cs', off, s). cs' = cs \<and> off = length pre + 8 * length cs \<and> heap (a\<lparr>al_memory := s\<rparr>) h W r)"
  using assms
proof (induction cs arbitrary: a pre)
  case (Cons c cs)
  have F: "F = pre @ to_le_bytes 8 c @ (concat (map (to_le_bytes 8) cs) @ post)"
    using Cons.prems(3) by simp
  from reader_ok[OF Cons.prems(1,2) F refl refl] obtain s where s: "read_op (reader x ovs) (al_memory a) (length pre) 8 = Some (to_le_bytes 8 c, s)"
    "heap (a\<lparr>al_memory := s\<rparr>) h W r"
    by (auto elim!: ok_obtain)
  have "length pre + 8 \<le> U64_MAX"
    using heap_node(2)[OF Cons.prems(1,2)] F by simp
  moreover have "from_le_bytes (to_le_bytes 8 c) = c"
    using Cons.prems(4) by (simp add: from_to_le_bytes del: to_le_bytes.simps)
  ultimately show ?case
    using Cons.IH[OF s(2) Cons.prems(2), of "pre @ to_le_bytes 8 c"] s(1) F Cons.prems(4)
    by (simp add: read_u64_def u64_add_def del: to_le_bytes.simps) (auto elim!: ok_mono)
qed simp

lemma load_children_ok:
  assumes hp: "heap a h W r" and W: "W x = Some (ovs, F)" and F: "F = pre @ concat (map (to_le_bytes 8) cs) @ post" and cs: "\<forall>c \<in> set cs. c \<le> U64_MAX"
  shows "ok (load_children_v2 (reader x ovs) (length cs) (length pre) (al_memory a))
    (\<lambda>(cs', off, s). cs' = cs \<and> off = length pre + 8 * length cs \<and> heap (a\<lparr>al_memory := s\<rparr>) h W r)"
proof (cases "length cs \<le> CHILDREN_BATCH_READ_THRESHOLD")
  case True
  then show ?thesis
    using read_children_ok[OF assms] by (simp add: load_children_v2_def)
next
  case False
  from reader_ok[OF hp W F refl refl] obtain s where s: "read_op (reader x ovs) (al_memory a) (length pre) (8 * length cs) = Some (concat (map (to_le_bytes 8) cs), s)"
    "heap (a\<lparr>al_memory := s\<rparr>) h W r"
    by (auto elim!: ok_obtain)
  have "length pre + 8 * length cs \<le> U64_MAX"
    using heap_node(2)[OF hp W] F by simp
  then show ?thesis
    using False s concat_chunks[OF cs]
    by (simp add: load_children_v2_def read_address_vec_def read_to_vec_def u64_mul_def u64_add_def mult.commute)
qed

lemma key_bytes_ok:
  assumes "valid k"
  shows "to_bytes K k = Some (key_bytes K k)" "to_bytes_checked K k = Some (key_bytes K k)" "from_bytes K (key_bytes K k) = Some k"
    "bound_is_fixed_size (BOUND K) \<Longrightarrow> bound_max_size (BOUND K) = Some (length (key_bytes K k))"
proof -
  from to_bytes_checked_ok[OF assms] obtain bs where bs: "to_bytes_checked K k = Some bs" "to_bytes K k = Some bs" "from_bytes K bs = Some k"
    "ok (check_bounds K bs) (\<lambda>_. True)"
    by (auto elim!: ok_obtain)
  then show "to_bytes K k = Some (key_bytes K k)" "to_bytes_checked K k = Some (key_bytes K k)" "from_bytes K (key_bytes K k) = Some k"
    by (simp_all add: key_bytes_def)
  show "bound_max_size (BOUND K) = Some (length (key_bytes K k))" if "bound_is_fixed_size (BOUND K)"
    using bs(2,4) that by (auto simp: check_bounds_def bound_is_fixed_size_def bound_max_size_def key_bytes_def Let_def split: bound.splits if_splits)
qed

lemma key_place_v2:
  assumes "valid k"
  shows "key_place K (V2 p) off (length (key_bytes K k)) = (off + (length (key_enc K k) - length (key_bytes K k)), length (key_bytes K k))"
  using key_bytes_ok(4)[OF assms]
  by (auto simp: key_place_def key_enc_def bound_is_fixed_size_def bound_max_size_def split: bound.splits)

lemma load_keys_ok:
  assumes "heap a h W r" "W x = Some (ovs, F)" "F = pre @ concat (map (\<lambda>e. key_enc K (fst e)) es) @ post"
    "\<forall>(k, v) \<in> set es. valid k \<and> length (key_bytes K k) \<le> U32_MAX" "7 \<le> length pre"
  shows "ok (load_keys_v2 K (reader x ovs) (length es) (length pre) (al_memory a)) (\<lambda>(ls, off, s).
    list_all2 (\<lambda>e kv. key_rep K (V2 pg) F (fst e) (fst kv)) ls es \<and>
    off = length pre + length (concat (map (\<lambda>e. key_enc K (fst e)) es)) \<and> heap (a\<lparr>al_memory := s\<rparr>) h W r)"
  using assms
proof (induction es arbitrary: a pre)
  case (Cons e es)
  obtain k v where e: "e = (k, v)"
    by fastforce
  let ?kb = "key_bytes K k" and ?b = "bound_is_fixed_size (BOUND K)"
  define l where "l = (if ?b then [] else to_le_bytes 4 (length ?kb))"
  have k: "valid k" "length ?kb \<le> U32_MAX"
    using Cons.prems(4) e by simp_all
  note kb = key_bytes_ok[OF k(1)]
  have enc: "key_enc K k = l @ ?kb"
    by (simp add: key_enc_def l_def)
  define rest where "rest = concat (map (\<lambda>e. key_enc K (fst e)) es) @ post"
  have F: "F = pre @ l @ (?kb @ rest)" "F = (pre @ l) @ ?kb @ rest"
    using Cons.prems(3) e enc by (simp_all add: rest_def)
  have lim: "length pre + length l + length ?kb \<le> U64_MAX"
    using heap_node(2)[OF Cons.prems(1,2)] F(1) by simp
  obtain s1 where s1: "(if ?b then do { m \<leftarrow> bound_max_size (BOUND K); Some (m, length pre, al_memory a) }
        else do { (sz, s) \<leftarrow> read_u32 (reader x ovs) (al_memory a) (length pre); offset \<leftarrow> addr_add (length pre) U32_SIZE; Some (sz, offset, s) }) =
      Some (length ?kb, length (pre @ l), s1)" "heap (a\<lparr>al_memory := s1\<rparr>) h W r"
  proof (cases ?b)
    case True
    then show ?thesis
      using that[of "al_memory a"] kb(4) Cons.prems(1) by (simp add: l_def)
  next
    case False
    from reader_ok[OF Cons.prems(1,2) F(1) refl refl] False obtain s where
      "read_op (reader x ovs) (al_memory a) (length pre) 4 = Some (to_le_bytes 4 (length ?kb), s)" "heap (a\<lparr>al_memory := s\<rparr>) h W r"
      by (auto simp: l_def elim!: ok_obtain)
    moreover have "from_le_bytes (to_le_bytes 4 (length ?kb)) = length ?kb"
      using k(2) by (simp add: from_to_le_bytes del: to_le_bytes.simps)
    ultimately show ?thesis
      using that[of s] False lim by (simp add: read_u32_def l_def U32_SIZE_def u64_add_def del: to_le_bytes.simps)
  qed
  obtain lk s2 where s2: "(if length ?kb \<le> EAGER_LOAD_KEY_SIZE_THRESHOLD then do {
          (buf, s) \<leftarrow> read_to_vec (reader x ovs) s1 (length (pre @ l)) (length ?kb);
          k \<leftarrow> from_bytes K buf;
          Some (by_value k, s) }
        else Some (by_ref (length pre) (length ?kb), s1)) = Some (lk, s2)" "heap (a\<lparr>al_memory := s2\<rparr>) h W r" "key_rep K (V2 pg) F lk k"
  proof (cases "length ?kb \<le> EAGER_LOAD_KEY_SIZE_THRESHOLD")
    case True
    from reader_ok[OF s1(2) Cons.prems(2) F(2) refl refl] obtain s where
      "read_op (reader x ovs) s1 (length (pre @ l)) (length ?kb) = Some (?kb, s)" "heap (a\<lparr>al_memory := s\<rparr>) h W r"
      by (auto elim!: ok_obtain)
    then show ?thesis
      using that[of "by_value k" s] True kb(3) by (simp add: read_to_vec_def by_value_def)
  next
    case False
    have "key_place K (V2 pg) (length pre) (length ?kb) = (length (pre @ l), length ?kb)"
      using key_place_v2[OF k(1), of pg "length pre"] enc by simp
    moreover have "subrange F (length (pre @ l)) (length ?kb) = ?kb"
      by (rule subrange_prefix[OF F(2)]) simp_all
    ultimately have "key_rep K (V2 pg) F (by_ref (length pre) (length ?kb)) k"
      using F(2) kb(3) Cons.prems(5) by (simp add: by_ref_def)
    then show ?thesis
      using that False s1(2) by simp
  qed
  have "F = (pre @ key_enc K k) @ concat (map (\<lambda>e. key_enc K (fst e)) es) @ post"
    using F(1) enc by (simp add: rest_def)
  moreover have "\<forall>(k, v) \<in> set es. valid k \<and> length (key_bytes K k) \<le> U32_MAX"
    using Cons.prems(4) by simp
  ultimately obtain ls s3 where s3: "load_keys_v2 K (reader x ovs) (length es) (length (pre @ key_enc K k)) s2 =
      Some (ls, length pre + length (concat (map (\<lambda>e. key_enc K (fst e)) (e # es))), s3)"
    "list_all2 (\<lambda>e kv. key_rep K (V2 pg) F (fst e) (fst kv)) ls es" "heap (a\<lparr>al_memory := s3\<rparr>) h W r"
    using Cons.IH[OF s2(2) Cons.prems(2), of "pre @ key_enc K k"] e Cons.prems(5) by (auto simp: add.assoc elim!: ok_obtain)
  have "u64_add (length (pre @ l)) (length ?kb) = Some (length (pre @ key_enc K k))"
    using lim enc by (simp add: u64_add_def add.assoc)
  then have "load_keys_v2 K (reader x ovs) (length (e # es)) (length pre) (al_memory a) =
      Some ((lk, by_ref 0 0) # ls, length pre + length (concat (map (\<lambda>e. key_enc K (fst e)) (e # es))), s3)"
    unfolding load_keys_v2.simps list.size add_Suc_right add_0_right Let_def s1(1) bind.bind_lunit case_prod_conv s2(1)
    using s3(1) by simp
  then show ?case
    using s2(3) s3(2,3) e by simp
qed simp

lemma load_values_ok:
  assumes "heap a h W r" "W x = Some (ovs, F)" "F = pre @ concat (map (\<lambda>e. val_enc (snd e)) es) @ post"
    "\<forall>(k, v) \<in> set es. length v \<le> U32_MAX" "list_all2 (\<lambda>e kv. key_rep K (V2 pg) F (fst e) (fst kv)) ls es" "7 \<le> length pre"
  shows "ok (load_values_v2 (reader x ovs) ls (length pre) (al_memory a)) (\<lambda>(ls', off, s).
    list_all2 (entry_rep K (V2 pg) F) ls' es \<and> heap (a\<lparr>al_memory := s\<rparr>) h W r)"
  using assms
proof (induction es arbitrary: a pre ls)
  case (Cons e es)
  obtain k v where e: "e = (k, v)"
    by fastforce
  obtain l ls' where ls: "ls = l # ls'" "key_rep K (V2 pg) F (fst l) k" "list_all2 (\<lambda>e kv. key_rep K (V2 pg) F (fst e) (fst kv)) ls' es"
    using Cons.prems(5) e by (auto simp: list_all2_Cons2)
  define rest where "rest = concat (map (\<lambda>e. val_enc (snd e)) es) @ post"
  have F: "F = pre @ to_le_bytes 4 (length v) @ (v @ rest)" "F = (pre @ to_le_bytes 4 (length v)) @ v @ rest"
    using Cons.prems(3) e by (simp_all add: rest_def val_enc_def del: to_le_bytes.simps)
  have v: "length v \<le> U32_MAX" "length pre + (4 + length v) \<le> U64_MAX"
    using Cons.prems(4) e heap_node(2)[OF Cons.prems(1,2)] F(1) by simp_all
  from reader_ok[OF Cons.prems(1,2) F(1) refl refl] obtain s where
    s: "read_op (reader x ovs) (al_memory a) (length pre) 4 = Some (to_le_bytes 4 (length v), s)" "heap (a\<lparr>al_memory := s\<rparr>) h W r"
    by (auto elim!: ok_obtain)
  have "from_le_bytes (to_le_bytes 4 (length v)) = length v"
    using v(1) by (simp add: from_to_le_bytes del: to_le_bytes.simps)
  then have rd: "read_u32 (reader x ovs) (al_memory a) (length pre) = Some (length v, s)"
    using s(1) by (simp add: read_u32_def)
  have "subrange F (length pre + 4) (length v) = v"
    by (rule subrange_prefix[OF F(2)]) simp_all
  then have er: "entry_rep K (V2 pg) F (fst l, by_ref (length pre) (length v)) e"
    using F(2) ls(2) e Cons.prems(6) by (simp add: entry_rep_def by_ref_def)
  have "F = (pre @ val_enc v) @ concat (map (\<lambda>e. val_enc (snd e)) es) @ post" "\<forall>(k, v) \<in> set es. length v \<le> U32_MAX"
    using F(1) Cons.prems(4) by (simp_all add: rest_def val_enc_def del: to_le_bytes.simps)
  from Cons.IH[OF s(2) Cons.prems(2) this ls(3)] have "ok (load_values_v2 (reader x ovs) ls' (length pre + (4 + length v)) s)
      (\<lambda>(ls', off, s). list_all2 (entry_rep K (V2 pg) F) ls' es \<and> heap (a\<lparr>al_memory := s\<rparr>) h W r)"
    using Cons.prems(6) by (simp add: val_enc_def)
  then show ?case
    using rd v(2) er by (auto simp: ls(1) U32_SIZE_def u64_add_def elim!: ok_mono)
qed simp

text \<open>A node that is stored is loaded as it was saved.\<close>

lemma load_v2_ok:
  assumes hp: "heap a h W r" and W: "W x = Some raw" and st: "stored_v2 K an raw" and an: "anode_ok valid K an"
  shows "ok (load_v2 K M x pg (node_hdr LAYOUT_VERSION_2 (an_type an) (length (an_entries an))) (al_memory a)) (\<lambda>(n, s).
    heap (a\<lparr>al_memory := s\<rparr>) h W r \<and> live W n (an_entries an) \<and> nd_address n = x \<and> nd_children n = an_children an \<and>
    nd_node_type n = an_type an \<and> nd_version n = V2 pg)"
proof -
  obtain ovs F where raw: "raw = (ovs, F)"
    by fastforce
  let ?es = "an_entries an" and ?cs = "an_children an" and ?t = "an_type an"
  define hd where "hd = encode_node_header (node_hdr LAYOUT_VERSION_2 ?t (length ?es))"
  define lk where "lk = to_le_bytes 8 (next_page ovs 0)"
  define cb where "cb = concat (map (to_le_bytes 8) ?cs)"
  define kb where "kb = concat (map (\<lambda>e. key_enc K (fst e)) ?es)"
  define vb where "vb = concat (map (\<lambda>e. val_enc (snd e)) ?es)"
  obtain post where F: "F = hd @ lk @ cb @ kb @ vb @ post"
    using st raw by (auto simp: stored_v2_def encode_v2_def hd_def lk_def cb_def kb_def vb_def simp del: to_le_bytes.simps)
  have len: "length hd = 7" "length lk = 8" "length cb = 8 * length ?cs"
    by (simp_all add: hd_def lk_def cb_def)
  have Wx: "W x = Some (ovs, F)"
    using W raw by simp
  have es: "\<forall>(k, v) \<in> set ?es. valid k \<and> length (key_bytes K k) \<le> U32_MAX" "\<forall>(k, v) \<in> set ?es. length v \<le> U32_MAX"
    and cs: "\<forall>c \<in> set ?cs. c \<le> U64_MAX" and n: "length ?es \<le> 65534" "length ?cs = (case ?t of Leaf \<Rightarrow> 0 | Internal \<Rightarrow> length ?es + 1)"
    using an by (auto simp: anode_ok_def)
  have "subrange F 7 8 = lk"
    by (rule subrange_prefix[OF F]) (simp_all add: len)
  from read_overflows_ok[OF hp Wx this[unfolded lk_def]] obtain s1 where s1: "read_overflows M x (al_memory a) = Some (ovs, s1)"
    "heap (a\<lparr>al_memory := s1\<rparr>) h W r"
    by (auto elim!: ok_obtain)
  obtain s2 where s2: "(if ?t = Internal then do { count \<leftarrow> u64_add (length ?es) 1; load_children_v2 (reader x ovs) count 15 s1 }
        else Some ([], 15, s1)) = Some (?cs, 15 + 8 * length ?cs, s2)" "heap (a\<lparr>al_memory := s2\<rparr>) h W r"
  proof (cases ?t)
    case Leaf
    then show ?thesis
      using that s1(2) n(2) by simp
  next
    case Internal
    have F1: "F = (hd @ lk) @ concat (map (to_le_bytes 8) ?cs) @ (kb @ vb @ post)"
      using F by (simp add: cb_def)
    from load_children_ok[OF s1(2) Wx F1 cs] obtain s2 where
      "load_children_v2 (reader x ovs) (length ?cs) 15 s1 = Some (?cs, 15 + 8 * length ?cs, s2)" "heap (a\<lparr>al_memory := s2\<rparr>) h W r"
      by (auto simp: len elim!: ok_obtain)
    then show ?thesis
      using that Internal n by (simp add: u64_add_def)
  qed
  have F2: "F = (hd @ lk @ cb) @ concat (map (\<lambda>e. key_enc K (fst e)) ?es) @ (vb @ post)"
    using F by (simp add: kb_def)
  from load_keys_ok[OF s2(2) Wx F2 es(1)] len obtain ls s3 where
    s3: "load_keys_v2 K (reader x ovs) (length ?es) (15 + 8 * length ?cs) s2 = Some (ls, 15 + 8 * length ?cs + length kb, s3)"
      "list_all2 (\<lambda>e kv. key_rep K (V2 pg) F (fst e) (fst kv)) ls ?es" "heap (a\<lparr>al_memory := s3\<rparr>) h W r"
    by (auto simp: len kb_def elim!: ok_obtain)
  have F3: "F = (hd @ lk @ cb @ kb) @ concat (map (\<lambda>e. val_enc (snd e)) ?es) @ post"
    using F by (simp add: vb_def)
  from load_values_ok[OF s3(3) Wx F3 es(2) s3(2)] len obtain ls' off s4 where
    s4: "load_values_v2 (reader x ovs) ls (15 + 8 * length ?cs + length kb) s3 = Some (ls', off, s4)"
      "list_all2 (entry_rep K (V2 pg) F) ls' ?es" "heap (a\<lparr>al_memory := s4\<rparr>) h W r"
    by (auto simp: len add.assoc elim!: ok_obtain)
  let ?n = "\<lparr>nd_address = x, nd_entries = ls', nd_children = ?cs, nd_node_type = ?t, nd_version = V2 pg, nd_overflows = ovs\<rparr>"
  have "load_v2 K M x pg (node_hdr LAYOUT_VERSION_2 ?t (length ?es)) (al_memory a) = Some (?n, s4)"
    using s1(1) s2(1) s3(1) s4(1) by (simp add: load_v2_def node_hdr_def ENTRIES_OFFSET_def u64_add_def Let_def)
  moreover have "live W ?n ?es"
    using Wx s4(2) by (simp add: live_def node_rep_def node_page_size_def)
  ultimately show ?thesis
    using s4(3) by simp
qed

section \<open>Saving\<close>

text \<open>A node all of whose entries are loaded does not look at the memory.\<close>

lemma set_memory_same [simp]: "set_memory w (nw_memory w) = w"
  by (simp add: set_memory_def)

lemma get_or_load_loaded: "loaded x \<Longrightarrow> \<exists>v. get_or_load x load s = Some (v, x, s)"
  by (cases x rule: loaded.cases) auto

lemma node_key_loaded:
  assumes "node_rep K F n es" "i < length es" "entry_loaded (nd_entries n ! i)"
  shows "node_key K M n i s = Some (fst (es ! i), n, s)" "node_value M n i s = Some (snd (es ! i), n, s)"
proof -
  obtain lk lv where e: "nd_entries n ! i = (lk, lv)"
    by fastforce
  have rep: "key_rep K (nd_version n) F lk (fst (es ! i))" "val_rep F lv (snd (es ! i))" and l: "loaded lk" "loaded lv"
    using node_rep_nth[OF assms(1,2)] e assms(3) by (simp_all add: entry_rep_def entry_loaded_def)
  have same: "n\<lparr>nd_entries := (nd_entries n)[i := (lk, lv)]\<rparr> = n" and i: "i < length (nd_entries n)"
    using e list_update_id[of "nd_entries n" i] assms(2) node_rep_length[OF assms(1)] by simp_all
  have "get_or_load lk (load_key_from_memory K M n) s = Some (fst (es ! i), lk, s)"
    using rep(1) l(1) by (cases lk rule: loaded.cases) simp_all
  moreover have "get_or_load lv (load_value_from_memory M n) s = Some (snd (es ! i), lv, s)"
    using rep(2) l(2) by (cases lv rule: loaded.cases) simp_all
  ultimately show "node_key K M n i s = Some (fst (es ! i), n, s)" "node_value M n i s = Some (snd (es ! i), n, s)"
    using same i by (simp_all add: node_key_def get_key_def node_value_def get_value_def e)
qed

lemma save_keys_ok:
  assumes w: "written h x R k (length enc) w enc" and n: "node_rep K F n es" "\<forall>i < length es. entry_loaded (nd_entries n ! i)"
    and es: "\<forall>(k, v) \<in> set es. valid k \<and> length (key_bytes K k) \<le> U32_MAX" and i: "\<forall>i \<in> set is. i < length es" and e: "15 \<le> length enc"
    and lim: "length enc + length (concat (map (\<lambda>i. key_enc K (fst (es ! i))) is)) \<le> U64_MAX"
      "pages_needed sz (length enc + length (concat (map (\<lambda>i. key_enc K (fst (es ! i))) is))) \<le> k"
  shows "ok (save_keys_v2 K M is n w (length enc)) (\<lambda>(n', w', off). n' = n \<and>
    off = length (enc @ concat (map (\<lambda>i. key_enc K (fst (es ! i))) is)) \<and>
    written h x R k off w' (enc @ concat (map (\<lambda>i. key_enc K (fst (es ! i))) is)))"
  using w i e lim
proof (induction "is" arbitrary: w enc)
  case (Cons i "is")
  let ?k = "fst (es ! i)"
  let ?kb = "key_bytes K ?k" and ?b = "bound_is_fixed_size (BOUND K)" and ?rest = "concat (map (\<lambda>i. key_enc K (fst (es ! i))) is)"
  define l where "l = (if ?b then [] else to_le_bytes 4 (length ?kb))"
  have i: "i < length es"
    using Cons.prems(2) by simp
  then have "es ! i \<in> set es"
    by simp
  then have k: "valid ?k" "length ?kb \<le> U32_MAX"
    using es by (auto simp: split_beta)
  have enc: "key_enc K ?k = l @ ?kb"
    by (simp add: key_enc_def l_def)
  have le: "length enc + length l + length ?kb + length ?rest \<le> U64_MAX"
    and pn: "pages_needed sz (length enc + length l + length ?kb + length ?rest) \<le> k"
    using Cons.prems(4,5) enc by (simp_all add: add.assoc)
  note pn' = order_trans[OF pages_needed_mono pn]
  obtain w1 where w1: "(if \<not> ?b then do { w \<leftarrow> nw_write_u32 M w (length enc) (as_u32 (length ?kb)); offset \<leftarrow> addr_add (length enc) U32_SIZE; Some (w, offset) }
        else Some (w, length enc)) = Some (w1, length (enc @ l))" "written h x R k (length (enc @ l)) w1 (enc @ l)"
  proof (cases ?b)
    case True
    then show ?thesis
      using that Cons.prems(1) by (simp add: l_def)
  next
    case False
    then have "ok (nw_write M w (length enc) l) (\<lambda>w'. written h x R k (length enc + length l) w' (enc @ l))"
      using le by (intro nw_append_ok[OF Cons.prems(1) sz_gt(1) Cons.prems(3)] pn') simp_all
    then show ?thesis
      using that False le k(2) as_u32_id[OF k(2)] by (auto simp: nw_write_u32_def l_def U32_SIZE_def u64_add_def elim!: ok_obtain)
  qed
  have "ok (nw_write M w1 (length (enc @ l)) ?kb) (\<lambda>w'. written h x R k (length (enc @ l) + length ?kb) w' ((enc @ l) @ ?kb))"
    using le Cons.prems(3) by (intro nw_append_ok[OF w1(2) sz_gt(1)] pn') simp_all
  then obtain w2 where w2: "nw_write M w1 (length (enc @ l)) ?kb = Some w2"
    "written h x R k (length (enc @ key_enc K ?k)) w2 (enc @ key_enc K ?k)"
    using enc by (auto simp: add.assoc elim!: ok_obtain)
  have IH: "ok (save_keys_v2 K M is n w2 (length (enc @ key_enc K ?k))) (\<lambda>(n', w', off). n' = n \<and>
      off = length ((enc @ key_enc K ?k) @ ?rest) \<and> written h x R k off w' ((enc @ key_enc K ?k) @ ?rest))"
    using Cons.prems(2,3) le pn enc by (intro Cons.IH[OF w2(2)]) (simp_all add: add.assoc)
  have add: "addr_add (length (enc @ l)) (length ?kb) = Some (length (enc @ key_enc K ?k))"
    using le enc by (simp add: u64_add_def)
  have "save_keys_v2 K M (i # is) n w (length enc) = save_keys_v2 K M is n w2 (length (enc @ key_enc K ?k))"
    unfolding save_keys_v2.simps node_key_loaded(1)[OF n(1) i n(2)[rule_format, OF i]] bind.bind_lunit case_prod_conv Let_def
      set_memory_same key_bytes_ok(2)[OF k(1)] w1(1) w2(1) add ..
  then show ?case
    using IH by simp
qed simp

lemma save_values_ok:
  assumes w: "written h x R k (length enc) w enc" and n: "node_rep K F n es" "\<forall>i < length es. entry_loaded (nd_entries n ! i)"
    and es: "\<forall>(k, v) \<in> set es. length v \<le> U32_MAX" and i: "\<forall>i \<in> set is. i < length es" and e: "15 \<le> length enc"
    and lim: "length enc + length (concat (map (\<lambda>i. val_enc (snd (es ! i))) is)) \<le> U64_MAX"
      "pages_needed sz (length enc + length (concat (map (\<lambda>i. val_enc (snd (es ! i))) is))) \<le> k"
  shows "ok (save_values_v2 M is n w (length enc)) (\<lambda>(n', w', off). n' = n \<and>
    off = length (enc @ concat (map (\<lambda>i. val_enc (snd (es ! i))) is)) \<and>
    written h x R k off w' (enc @ concat (map (\<lambda>i. val_enc (snd (es ! i))) is)))"
  using w i e lim
proof (induction "is" arbitrary: w enc)
  case (Cons i "is")
  let ?v = "snd (es ! i)" and ?rest = "concat (map (\<lambda>i. val_enc (snd (es ! i))) is)"
  let ?l = "to_le_bytes 4 (length ?v)"
  have i: "i < length es"
    using Cons.prems(2) by simp
  then have "es ! i \<in> set es"
    by simp
  then have v: "length ?v \<le> U32_MAX"
    using es by (auto simp: split_beta)
  have le: "length enc + 4 + length ?v + length ?rest \<le> U64_MAX" and pn: "pages_needed sz (length enc + 4 + length ?v + length ?rest) \<le> k"
    using Cons.prems(4,5) by (simp_all add: val_enc_def add.assoc)
  note pn' = order_trans[OF pages_needed_mono pn]
  have "ok (nw_write M w (length enc) ?l) (\<lambda>w'. written h x R k (length enc + length ?l) w' (enc @ ?l))"
    using le by (intro nw_append_ok[OF Cons.prems(1) sz_gt(1) Cons.prems(3)] pn') simp_all
  then obtain w1 where w1: "nw_write_u32 M w (length enc) (as_u32 (length ?v)) = Some w1" "written h x R k (length (enc @ ?l)) w1 (enc @ ?l)"
    by (auto simp: nw_write_u32_def as_u32_id[OF v] elim!: ok_obtain)
  have "ok (nw_write M w1 (length (enc @ ?l)) ?v) (\<lambda>w'. written h x R k (length (enc @ ?l) + length ?v) w' ((enc @ ?l) @ ?v))"
    using le Cons.prems(3) by (intro nw_append_ok[OF w1(2) sz_gt(1)] pn') simp_all
  then obtain w2 where w2: "nw_write M w1 (length (enc @ ?l)) ?v = Some w2"
    "written h x R k (length (enc @ val_enc ?v)) w2 (enc @ val_enc ?v)"
    by (auto simp: val_enc_def add.assoc simp del: to_le_bytes.simps elim!: ok_obtain)
  have IH: "ok (save_values_v2 M is n w2 (length (enc @ val_enc ?v))) (\<lambda>(n', w', off). n' = n \<and>
      off = length ((enc @ val_enc ?v) @ ?rest) \<and> written h x R k off w' ((enc @ val_enc ?v) @ ?rest))"
    using Cons.prems(2,3) le pn by (intro Cons.IH[OF w2(2)]) (simp_all add: val_enc_def add.assoc)
  have add: "addr_add (length enc) U32_SIZE = Some (length (enc @ ?l))" "addr_add (length (enc @ ?l)) (length ?v) = Some (length (enc @ val_enc ?v))"
    using le by (simp_all add: u64_add_def U32_SIZE_def val_enc_def)
  have "save_values_v2 M (i # is) n w (length enc) = save_values_v2 M is n w2 (length (enc @ val_enc ?v))"
    unfolding save_values_v2.simps node_key_loaded(2)[OF n(1) i n(2)[rule_format, OF i]] bind.bind_lunit case_prod_conv Let_def
      set_memory_same w1(1) add(1) w2(1) add(2) ..
  then show ?case
    using IH by simp
qed simp

lemma map_nth_upt: "map (\<lambda>i. f (es ! i)) [0..<length es] = map f es"
  by (rule nth_equalityI) simp_all

lemma encode_agrees:
  assumes "agrees F (hdr @ l @ rest)" "length hdr = 7" "length l = 8" "subrange F 7 8 = l'" "length l' = 8"
  shows "\<exists>post. F = hdr @ l' @ rest @ post"
proof -
  have le: "15 + length rest \<le> length F"
    using assms(1-3) by (simp add: agrees_def)
  have "take (15 + length rest) F = hdr @ l' @ rest"
  proof (rule nth_equalityI)
    fix i
    assume "i < length (take (15 + length rest) F)"
    then have i: "i < 15 + length rest"
      by simp
    show "take (15 + length rest) F ! i = (hdr @ l' @ rest) ! i"
    proof (cases "7 \<le> i \<and> i < 15")
      case True
      then have i8: "i - 7 < 8"
        by linarith
      then have "F ! i = l' ! (i - 7)"
        using nth_subrange[of "i - 7" 8 7 F] le assms(4) True by simp
      then show ?thesis
        using True assms(2,5) i i8 by (simp add: nth_append)
    next
      case False
      then have "F ! i = (hdr @ l @ rest) ! i"
        using assms(1-3) i by (auto simp: agrees_def)
      then show ?thesis
        using False i assms(2,3,5) by (auto simp: nth_append)
    qed
  qed (use le assms in simp)
  then show ?thesis
    using append_take_drop_id[of "15 + length rest" F] by (metis append.assoc)
qed

lemma save_v2_ok:
  assumes hp: "heap a h W r" and l: "live W n (an_entries an)" and v: "nd_version n = V2 pg"
    and an: "an_type an = nd_node_type n" "an_children an = nd_children n" "anode_ok valid K an"
    and lim: "length (encode_v2 K an 0) \<le> U64_MAX" "pages_needed sz (length (encode_v2 K an 0)) \<le> r + length (nd_overflows n)"
  shows "ok (save_v2 K M n a) (\<lambda>(n', a'). \<exists>F. heap a' h (W(nd_address n \<mapsto> (nd_overflows n', F)))
      (r + length (nd_overflows n) - length (nd_overflows n')) \<and>
    stored_v2 K an (nd_overflows n', F) \<and> live (W(nd_address n \<mapsto> (nd_overflows n', F))) n' (an_entries an) \<and>
    length (nd_overflows n') = pages_needed sz (length (encode_v2 K an 0)) \<and>
    n' = n\<lparr>nd_entries := nd_entries n', nd_overflows := nd_overflows n'\<rparr> \<and> (\<forall>e \<in> set (nd_entries n'). entry_loaded e))"
proof -
  let ?es = "an_entries an" and ?cs = "an_children an" and ?x = "nd_address n" and ?ovs = "nd_overflows n"
  have len: "length (nd_entries n) = length ?es"
    by (rule live_length[OF l])
  from load_entries_ok[OF hp l, of "[0..<length ?es]"] obtain n1 s1 where
    1: "load_entries K M [0..<length ?es] n (al_memory a) = Some (n1, s1)" "heap (a\<lparr>al_memory := s1\<rparr>) h W r" "live W n1 ?es" "node_more n n1"
      "\<forall>i < length ?es. entry_loaded (nd_entries n1 ! i)"
    by (auto elim!: ok_obtain)
  note m = node_moreD[OF 1(4)]
  obtain F1 where F1: "W ?x = Some (?ovs, F1)" "node_rep K F1 n1 ?es"
    by (rule liveD[OF 1(3)]) (simp add: m)
  have es: "\<forall>(k, v) \<in> set ?es. valid k \<and> length (key_bytes K k) \<le> U32_MAX" "\<forall>(k, v) \<in> set ?es. length v \<le> U32_MAX"
    and ne: "length ?es \<le> U16_MAX"
    using an(3) by (auto simp: anode_ok_def)
  define hdr where "hdr = encode_node_header (node_hdr LAYOUT_VERSION_2 (nd_node_type n) (length ?es))"
  define lk where "lk = to_le_bytes 8 (next_page ?ovs 0)"
  define cb where "cb = concat (map (to_le_bytes 8) ?cs)"
  define kb where "kb = concat (map (\<lambda>e. key_enc K (fst e)) ?es)"
  define vb where "vb = concat (map (\<lambda>e. val_enc (snd e)) ?es)"
  have ln: "length hdr = 7" "length lk = 8" "length cb = 8 * length ?cs"
    by (simp_all add: hdr_def lk_def cb_def)
  have tot: "length (encode_v2 K an 0) = 15 + length cb + length kb + length vb"
    by (simp add: encode_v2_def cb_def kb_def vb_def)
  define k where "k = r + length ?ovs"
  have le: "15 + length cb + length kb + length vb \<le> U64_MAX" and pn: "pages_needed sz (15 + length cb + length kb + length vb) \<le> k"
    using lim tot by (simp_all add: k_def)
  note pn' = order_trans[OF pages_needed_mono pn]
  define w0 where "w0 = node_writer_new ?x ?ovs pg (a\<lparr>al_memory := s1\<rparr>)"
  from heap_start_write[OF 1(2) F1(1) pg sz_gt(1) ln(1)] obtain w1 w2 D where
    w: "nw_write M w0 0 hdr = Some w1" "nw_write M w1 7 lk = Some w2" "heap_pages sz D W"
      "written h ?x (D |` (- set (?x # ?ovs))) k 15 w2 (hdr @ lk)"
    unfolding w0_def[symmetric] lk_def[symmetric] k_def[symmetric] by (elim ok_obtain) (auto simp: bind_eq_Some_conv)
  let ?R = "D |` (- set (?x # ?ovs))"
  have w2: "written h ?x ?R k (length (hdr @ lk)) w2 (hdr @ lk)"
    using w(4) ln by simp
  have "ok (nw_write M w2 (length (hdr @ lk)) cb) (\<lambda>w'. written h ?x ?R k (length (hdr @ lk) + length cb) w' ((hdr @ lk) @ cb))"
    using le ln by (intro nw_append_ok[OF w2 sz_gt(1)] pn') simp_all
  then obtain w3 where w3: "nw_write M w2 15 cb = Some w3" "written h ?x ?R k (length (hdr @ lk @ cb)) w3 (hdr @ lk @ cb)"
    using ln by (auto elim!: ok_obtain)
  have mk: "concat (map (\<lambda>i. key_enc K (fst (?es ! i))) [0..<length ?es]) = kb" "concat (map (\<lambda>i. val_enc (snd (?es ! i))) [0..<length ?es]) = vb"
    by (simp_all add: kb_def vb_def map_nth_upt[of "\<lambda>e. key_enc K (fst e)"] map_nth_upt[of "\<lambda>e. val_enc (snd e)"])
  have "ok (save_keys_v2 K M [0..<length ?es] n1 w3 (length (hdr @ lk @ cb))) (\<lambda>(n', w', off). n' = n1 \<and>
      off = length ((hdr @ lk @ cb) @ kb) \<and> written h ?x ?R k off w' ((hdr @ lk @ cb) @ kb))"
    using le ln pn' by (intro save_keys_ok[OF w3(2) F1(2) 1(5) es(1), of "[0..<length ?es]", unfolded mk]) simp_all
  then obtain w4 where w4: "save_keys_v2 K M [0..<length ?es] n1 w3 (15 + length cb) = Some (n1, w4, 15 + length cb + length kb)"
    "written h ?x ?R k (length (hdr @ lk @ cb @ kb)) w4 (hdr @ lk @ cb @ kb)"
    using ln by (auto simp: add.assoc elim!: ok_obtain)
  have "ok (save_values_v2 M [0..<length ?es] n1 w4 (length (hdr @ lk @ cb @ kb))) (\<lambda>(n', w', off). n' = n1 \<and>
      off = length ((hdr @ lk @ cb @ kb) @ vb) \<and> written h ?x ?R k off w' ((hdr @ lk @ cb @ kb) @ vb))"
    using le ln pn by (intro save_values_ok[OF w4(2) F1(2) 1(5) es(2), of "[0..<length ?es]", unfolded mk]) (simp_all add: add.assoc)
  then obtain w5 off where w5: "save_values_v2 M [0..<length ?es] n1 w4 (15 + length cb + length kb) = Some (n1, w5, off)"
    "written h ?x ?R k (length (hdr @ lk @ cb @ kb @ vb)) w5 (hdr @ lk @ cb @ kb @ vb)"
    using ln by (auto simp: add.assoc elim!: ok_obtain)
  from heap_end_write[OF w5(2) w(3) F1(1) sz_gt(1)] obtain us a' F where
    f: "nw_finish M w5 = Some (us, a')" "heap a' h (W(?x \<mapsto> (us, F))) (k - length us)" "agrees F (hdr @ lk @ cb @ kb @ vb)"
      "subrange F 7 8 = to_le_bytes 8 (next_page us 0)" "length us = pages_needed sz (length (encode_v2 K an 0))"
    unfolding tot using ln by (auto simp: add.assoc elim!: ok_obtain)
  have "stored_v2 K an (us, F)"
    using encode_agrees[OF f(3) ln(1,2) f(4)] an(1)
    by (auto simp: stored_v2_def encode_v2_def hdr_def cb_def kb_def vb_def simp del: to_le_bytes.simps)
  moreover define n2 where "n2 = n1\<lparr>nd_overflows := us\<rparr>"
  have ld: "\<forall>e \<in> set (nd_entries n1). entry_loaded e"
    using 1(5) m(6) len by (auto simp: set_conv_nth)
  have "live (W(?x \<mapsto> (us, F))) n2 ?es"
    using 1(3) m(1) loaded_part[OF _ ld, of "nd_version n1" F1 ?es "nd_version n1" F] F1(2)
    by (simp add: live_def node_rep_def n2_def node_page_size_def)
  moreover have "save_v2 K M n a = Some (n2, a')"
  proof -
    have hd: "\<lparr>nh_magic = NODE_MAGIC, nh_version = LAYOUT_VERSION_2, nh_node_type = node_type_code (nd_node_type n1),
        nh_num_entries = as_u16 (length ?es)\<rparr> = node_hdr LAYOUT_VERSION_2 (nd_node_type n) (length ?es)"
      using m ne len by (simp add: node_hdr_def as_u16_def)
    have fst: "(case ?ovs of [] \<Rightarrow> NULL | v # _ \<Rightarrow> v) = next_page ?ovs 0"
      by (simp add: next_page_def split: list.split)
    have lens: "length (nd_entries n1) = length ?es" "nd_children n1 = ?cs" "node_page_size n1 = pg" "nd_address n1 = ?x" "nd_overflows n1 = ?ovs"
      using m len an(2) v by (simp_all add: node_page_size_def)
    show ?thesis
      using 1(1) w(1,2) w3(1) w4(1) w5(1) f(1) le ln sz
      unfolding save_v2_def v version_page_size.simps pg bind.bind_lunit len Let_def
      by (simp add: hd fst lens w0_def[symmetric] hdr_def[symmetric] lk_def[symmetric] cb_def[symmetric] nw_write_struct_def nw_write_u64_def
          node_header_size_def u64_add_def u64_mul_def MINIMUM_PAGE_SIZE_def n2_def mult.commute)
  qed
  moreover have "n2 = n\<lparr>nd_entries := nd_entries n2, nd_overflows := nd_overflows n2\<rparr>"
    using m unfolding n2_def by (cases n; cases n1) simp
  ultimately show ?thesis
    using f(2,5) ld by (auto simp: n2_def k_def)
qed

end

end
