(* ===== verification/Node_V1.thy ===== *)
theory Node_V1
  imports Node_V2
begin

text \<open>
  Nodes of version 1 (\<open>src/src/btreemap/node/v1.rs\<close>): one page with a slot of fixed size for every entry,
  for keys and values of bounded size. The main result: a node that is saved is in its page as
  \<open>stored_v1\<close> says, and a node that is loaded from such a page stands for what was saved.
\<close>

section \<open>The code\<close>

definition new_v1 :: "address \<Rightarrow> node_type \<Rightarrow> nat \<Rightarrow> nat \<Rightarrow> 'k node" where
  "new_v1 address node_type max_key_size max_value_size =
     \<lparr>nd_address = address, nd_entries = [], nd_children = [], nd_node_type = node_type,
      nd_version = V1 max_key_size max_value_size, nd_overflows = []\<rparr>"

fun load_entries_v1 ::
  "'s memory_ops \<Rightarrow> address \<Rightarrow> nat \<Rightarrow> nat \<Rightarrow> nat \<Rightarrow> nbytes \<Rightarrow> 's \<Rightarrow> ('k lazy_entry list \<times> nbytes \<times> 's) option" where
  "load_entries_v1 M address mk mv 0 offset s = Some ([], offset, s)"
| "load_entries_v1 M address mk mv (Suc n) offset s = do {
     a \<leftarrow> addr_add address offset;
     (sz, s) \<leftarrow> read_u32 M s a;
     let key = by_ref offset sz;
     d \<leftarrow> bytes_add U32_SIZE mk;
     offset \<leftarrow> bytes_add offset d;
     a \<leftarrow> addr_add address offset;
     (sz, s) \<leftarrow> read_u32 M s a;
     let value = by_ref offset sz;
     d \<leftarrow> bytes_add U32_SIZE mv;
     offset \<leftarrow> bytes_add offset d;
     (es, offset, s) \<leftarrow> load_entries_v1 M address mk mv n offset s;
     Some ((key, value) # es, offset, s) }"

fun load_children_v1 :: "'s memory_ops \<Rightarrow> address \<Rightarrow> nat \<Rightarrow> nbytes \<Rightarrow> 's \<Rightarrow> (address list \<times> 's) option" where
  "load_children_v1 M address 0 offset s = Some ([], s)"
| "load_children_v1 M address (Suc n) offset s = do {
     a \<leftarrow> addr_add address offset;
     (c, s) \<leftarrow> read_u64 M s a;
     offset \<leftarrow> bytes_add offset address_size;
     (cs, s) \<leftarrow> load_children_v1 M address n offset s;
     Some (c # cs, s) }"

text \<open>\<open>header.num_entries + 1\<close> is a sum of \<open>u16\<close>.\<close>

definition u16_add :: "nat \<Rightarrow> nat \<Rightarrow> nat option" where
  "u16_add a b = (if a + b \<le> U16_MAX then Some (a + b) else None)"

definition load_v1 ::
  "'s memory_ops \<Rightarrow> node_header \<Rightarrow> address \<Rightarrow> nat \<Rightarrow> nat \<Rightarrow> 's \<Rightarrow> ('k node \<times> 's) option" where
  "load_v1 M header address max_key_size max_value_size s = do {
     let offset = node_header_size;
     (entries, offset, s) \<leftarrow> load_entries_v1 M address max_key_size max_value_size (nh_num_entries header) offset s;
     (children, s) \<leftarrow> (if nh_node_type header = INTERNAL_NODE_TYPE then do {
          n \<leftarrow> u16_add (nh_num_entries header) 1;
          (children, s) \<leftarrow> load_children_v1 M address n offset s;
          assert_that (length children = length entries + 1);
          Some (children, s) }
        else Some ([], s));
     node_type \<leftarrow> node_type_of (nh_node_type header);
     Some (\<lparr>nd_address = address, nd_entries = entries, nd_children = children, nd_node_type = node_type,
       nd_version = V1 max_key_size max_value_size, nd_overflows = []\<rparr>, s) }"

text \<open>\<open>entries.windows(2).all(..)\<close>: the check that the keys increase.\<close>

fun keys_increasing :: "'k::linorder storable \<Rightarrow> 's memory_ops \<Rightarrow> nat list \<Rightarrow> 'k node \<Rightarrow> 's \<Rightarrow> (bool \<times> 'k node \<times> 's) option" where
  "keys_increasing K M [] n s = Some (True, n, s)"
| "keys_increasing K M (i # is) n s = do {
     (k0, n, s) \<leftarrow> get_key K M n i s;
     (k1, n, s) \<leftarrow> get_key K M n (i + 1) s;
     if k0 < k1 then keys_increasing K M is n s else Some (False, n, s) }"

fun save_entries_v1 ::
  "'k storable \<Rightarrow> 's memory_ops \<Rightarrow> nat \<Rightarrow> nat \<Rightarrow> nat list \<Rightarrow> 'k node \<Rightarrow> nbytes \<Rightarrow> 's \<Rightarrow> ('k node \<times> nbytes \<times> 's) option" where
  "save_entries_v1 K M mk mv [] n offset s = Some (n, offset, s)"
| "save_entries_v1 K M mk mv (i # is) n offset s = do {
     (key, n, s) \<leftarrow> node_key K M n i s;
     key_bytes \<leftarrow> to_bytes_checked K key;
     a \<leftarrow> addr_add (nd_address n) offset;
     s \<leftarrow> write_u32 M s a (as_u32 (length key_bytes));
     offset \<leftarrow> bytes_add offset U32_SIZE;
     a \<leftarrow> addr_add (nd_address n) offset;
     s \<leftarrow> write_grow M s a key_bytes;
     offset \<leftarrow> bytes_add offset mk;
     (value, n, s) \<leftarrow> node_value M n i s;
     a \<leftarrow> addr_add (nd_address n) offset;
     s \<leftarrow> write_u32 M s a (as_u32 (length value));
     offset \<leftarrow> bytes_add offset U32_SIZE;
     a \<leftarrow> addr_add (nd_address n) offset;
     s \<leftarrow> write_grow M s a value;
     offset \<leftarrow> bytes_add offset mv;
     save_entries_v1 K M mk mv is n offset s }"

fun save_children_v1 :: "'s memory_ops \<Rightarrow> address \<Rightarrow> address list \<Rightarrow> nbytes \<Rightarrow> 's \<Rightarrow> 's option" where
  "save_children_v1 M address [] offset s = Some s"
| "save_children_v1 M address (c # cs) offset s = do {
     a \<leftarrow> addr_add address offset;
     s \<leftarrow> write_grow M s a (to_le_bytes 8 c);
     offset \<leftarrow> bytes_add offset address_size;
     save_children_v1 M address cs offset s }"

definition save_v1 :: "'k::linorder storable \<Rightarrow> 's memory_ops \<Rightarrow> 'k node \<Rightarrow> 's \<Rightarrow> ('k node \<times> 's) option" where
  "save_v1 K M n s = do {
     (case nd_node_type n of
        Leaf \<Rightarrow> assert_that (nd_children n = [])
      | Internal \<Rightarrow> assert_that (length (nd_children n) = length (nd_entries n) + 1));
     assert_that (nd_entries n \<noteq> [] \<or> nd_children n \<noteq> []);
     (b, n, s) \<leftarrow> keys_increasing K M [0..<length (nd_entries n) - 1] n s;
     assert_that b;
     (mk, mv) \<leftarrow> (case nd_version n of V1 mk mv \<Rightarrow> Some (mk, mv) | V2 _ \<Rightarrow> None);
     let header = \<lparr>nh_magic = NODE_MAGIC, nh_version = LAYOUT_VERSION_1, nh_node_type = node_type_code (nd_node_type n),
       nh_num_entries = as_u16 (length (nd_entries n))\<rparr>;
     s \<leftarrow> write_struct encode_node_header header M s (nd_address n);
     let offset = node_header_size;
     (n, s) \<leftarrow> load_entries K M [0..<length (nd_entries n)] n s;
     (n, offset, s) \<leftarrow> save_entries_v1 K M mk mv [0..<length (nd_entries n)] n offset s;
     s \<leftarrow> save_children_v1 M (nd_address n) (nd_children n) offset s;
     Some (n, s) }"

section \<open>The layout\<close>

definition entry_at :: "'k storable \<Rightarrow> nat \<Rightarrow> nat \<Rightarrow> bytes \<Rightarrow> nat \<Rightarrow> 'k entry \<Rightarrow> bool" where
  "entry_at K mk mv F p e \<longleftrightarrow> (let kb = key_bytes K (fst e); v = snd e in
     p + (8 + mk + mv) \<le> length F \<and> subrange F p 4 = to_le_bytes 4 (length kb) \<and> subrange F (p + 4) (length kb) = kb \<and>
     subrange F (p + 4 + mk) 4 = to_le_bytes 4 (length v) \<and> subrange F (p + 8 + mk) (length v) = v)"

definition stored_v1 :: "'k storable \<Rightarrow> nat \<Rightarrow> nat \<Rightarrow> 'k anode \<Rightarrow> address list \<times> bytes \<Rightarrow> bool" where
  "stored_v1 K mk mv an raw \<longleftrightarrow> fst raw = [] \<and>
     subrange (snd raw) 0 7 = encode_node_header (node_hdr LAYOUT_VERSION_1 (an_type an) (length (an_entries an))) \<and>
     (\<forall>i < length (an_entries an). entry_at K mk mv (snd raw) (7 + (8 + mk + mv) * i) (an_entries an ! i)) \<and>
     (\<forall>i < length (an_children an).
        subrange (snd raw) (7 + (8 + mk + mv) * length (an_entries an) + 8 * i) 8 = to_le_bytes 8 (an_children an ! i))"

text \<open>What a node of version 1 can hold.\<close>

definition fits_v1 :: "'k storable \<Rightarrow> nat \<Rightarrow> nat \<Rightarrow> 'k anode \<Rightarrow> bool" where
  "fits_v1 K mk mv an \<longleftrightarrow> length (an_entries an) \<le> CAPACITY \<and>
     (\<forall>(k, v) \<in> set (an_entries an). length (key_bytes K k) \<le> mk \<and> length v \<le> mv)"

lemma entry_at_other:
  assumes "entry_at K mk mv F p e" "length (key_bytes K (fst e)) \<le> mk" "length (snd e) \<le> mv"
    "off + length bs \<le> length F" "p + (8 + mk + mv) \<le> off \<or> off + length bs \<le> p"
  shows "entry_at K mk mv (overwrite F off bs) p e"
proof -
  have sub: "subrange (overwrite F off bs) q n = subrange F q n" if "p \<le> q" "q + n \<le> p + (8 + mk + mv)" for q n
    using that assms(1,4,5) by (intro subrange_overwrite_other) (auto simp: entry_at_def Let_def)
  show ?thesis
    using assms(1-4) by (simp add: entry_at_def Let_def sub)
qed

section \<open>Loading\<close>

context node_ops
begin

lemma load_entries_v1_ok:
  assumes "heap a h W r" "W x = Some ([], F)" "i + n = length es"
    "\<forall>j < length es. entry_at K mk mv F (7 + (8 + mk + mv) * j) (es ! j)"
    "\<forall>(k, v) \<in> set es. valid k \<and> length (key_bytes K k) \<le> mk \<and> length v \<le> mv \<and> length (key_bytes K k) \<le> U32_MAX \<and> length v \<le> U32_MAX"
  shows "ok (load_entries_v1 M x mk mv n (7 + (8 + mk + mv) * i) (al_memory a)) (\<lambda>(ls, off, s).
    list_all2 (entry_rep K (V1 mk mv) F) ls (drop i es) \<and> off = 7 + (8 + mk + mv) * length es \<and> heap (a\<lparr>al_memory := s\<rparr>) h W r)"
  using assms
proof (induction n arbitrary: i a)
  case (Suc n)
  let ?o = "7 + (8 + mk + mv) * i"
  obtain k v where e: "es ! i = (k, v)"
    by fastforce
  have i: "i < length es"
    using Suc.prems(3) by simp
  have at: "?o + (8 + mk + mv) \<le> length F" "subrange F ?o 4 = to_le_bytes 4 (length (key_bytes K k))"
    "subrange F (?o + 4) (length (key_bytes K k)) = key_bytes K k" "subrange F (?o + 4 + mk) 4 = to_le_bytes 4 (length v)"
    "subrange F (?o + 8 + mk) (length v) = v"
    using Suc.prems(4)[rule_format, OF i] unfolding entry_at_def Let_def e fst_conv snd_conv by blast+
  have "(k, v) \<in> set es"
    using e i by (metis nth_mem)
  with Suc.prems(5) have kv: "valid k" "length (key_bytes K k) \<le> mk" "length v \<le> mv" "length (key_bytes K k) \<le> U32_MAX" "length v \<le> U32_MAX"
    by blast+
  have F: "length F = sz" "x + sz \<le> U64_MAX"
    using heap_node(1,4)[OF Suc.prems(1,2)] by simp_all
  have dec: "from_le_bytes (to_le_bytes 4 (length (key_bytes K k))) = length (key_bytes K k)" "from_le_bytes (to_le_bytes 4 (length v)) = length v"
    using kv by (simp_all add: from_to_le_bytes del: to_le_bytes.simps)
  have "?o + 4 \<le> sz"
    using at(1) F by linarith
  from heap_read_page[OF Suc.prems(1,2) this] obtain s1 where
    s1: "read_u32 M (al_memory a) (x + ?o) = Some (length (key_bytes K k), s1)" "heap (a\<lparr>al_memory := s1\<rparr>) h W r"
    using at(2) dec(1) by (auto simp: read_u32_def elim!: ok_obtain)
  have "?o + 4 + mk + 4 \<le> sz"
    using at(1) F by linarith
  from heap_read_page[OF s1(2) Suc.prems(2) this] obtain s2 where
    s2: "read_u32 M s1 (x + (?o + (4 + mk))) = Some (length v, s2)" "heap (a\<lparr>al_memory := s2\<rparr>) h W r"
    using at(4) dec(2) by (auto simp: read_u32_def add.assoc elim!: ok_obtain)
  have next_o: "?o + (4 + mk) + (4 + mv) = 7 + (8 + mk + mv) * Suc i"
    by simp
  have er: "entry_rep K (V1 mk mv) F (by_ref ?o (length (key_bytes K k)), by_ref (?o + (4 + mk)) (length v)) (k, v)"
    using at kv key_bytes_ok(3)[OF kv(1)] by (simp add: entry_rep_def by_ref_def key_place_def add.assoc)
  have drp: "drop i es = (k, v) # drop (Suc i) es"
    using Cons_nth_drop_Suc[OF i] e by simp
  have b: "x + ?o \<le> U64_MAX" "4 + mk \<le> U64_MAX" "?o + (4 + mk) \<le> U64_MAX" "x + (?o + (4 + mk)) \<le> U64_MAX" "4 + mv \<le> U64_MAX"
    "?o + (4 + mk) + (4 + mv) \<le> U64_MAX"
    using at(1) F by linarith+
  have "ok (load_entries_v1 M x mk mv n (7 + (8 + mk + mv) * Suc i) s2) (\<lambda>(ls, off, s).
    list_all2 (entry_rep K (V1 mk mv) F) ls (drop (Suc i) es) \<and> off = 7 + (8 + mk + mv) * length es \<and> heap (a\<lparr>al_memory := s\<rparr>) h W r)"
    using Suc.IH[OF s2(2) Suc.prems(2), of "Suc i"] Suc.prems(3-5) by simp
  then obtain ls s3 where s3: "load_entries_v1 M x mk mv n (?o + (4 + mk) + (4 + mv)) s2 = Some (ls, 7 + (8 + mk + mv) * length es, s3)"
    "list_all2 (entry_rep K (V1 mk mv) F) ls (drop (Suc i) es)" "heap (a\<lparr>al_memory := s3\<rparr>) h W r"
    unfolding next_o by (auto elim!: ok_obtain)
  have "load_entries_v1 M x mk mv (Suc n) ?o (al_memory a) =
      Some ((by_ref ?o (length (key_bytes K k)), by_ref (?o + (4 + mk)) (length v)) # ls, 7 + (8 + mk + mv) * length es, s3)"
    using b s1(1) s2(1) s3(1) by (simp add: u64_add_def U32_SIZE_def Let_def)
  then show ?case
    using er s3(2,3) drp by simp
qed simp

lemma load_children_v1_ok:
  assumes "heap a h W r" "W x = Some ([], F)" "i + n = length cs" "\<forall>j < length cs. subrange F (b + 8 * j) 8 = to_le_bytes 8 (cs ! j)"
    "b + 8 * length cs \<le> sz" "\<forall>c \<in> set cs. c \<le> U64_MAX"
  shows "ok (load_children_v1 M x n (b + 8 * i) (al_memory a)) (\<lambda>(cs', s). cs' = drop i cs \<and> heap (a\<lparr>al_memory := s\<rparr>) h W r)"
  using assms
proof (induction n arbitrary: i a)
  case (Suc n)
  let ?o = "b + 8 * i"
  have i: "i < length cs" "?o + 8 \<le> sz"
    using Suc.prems(3,5) by simp_all
  have F: "x + sz \<le> U64_MAX"
    by (rule heap_node[OF Suc.prems(1,2)])
  have "cs ! i \<le> U64_MAX"
    using Suc.prems(6) nth_mem[OF i(1)] by blast
  then have dec: "from_le_bytes (to_le_bytes 8 (cs ! i)) = cs ! i"
    by (simp add: from_to_le_bytes del: to_le_bytes.simps)
  from heap_read_page[OF Suc.prems(1,2) i(2)] obtain s1 where
    s1: "read_u64 M (al_memory a) (x + ?o) = Some (cs ! i, s1)" "heap (a\<lparr>al_memory := s1\<rparr>) h W r"
    using Suc.prems(4) i dec by (auto simp: read_u64_def elim!: ok_obtain)
  have drp: "drop i cs = cs ! i # drop (Suc i) cs"
    using i by (simp add: Cons_nth_drop_Suc)
  have "ok (load_children_v1 M x n (?o + 8) s1) (\<lambda>(cs', s). cs' = drop (Suc i) cs \<and> heap (a\<lparr>al_memory := s\<rparr>) h W r)"
    using Suc.IH[OF s1(2) Suc.prems(2), of "Suc i"] Suc.prems(3-6) by (simp add: ac_simps)
  then show ?case
    using s1(1) i F drp by (auto simp: u64_add_def elim!: ok_mono)
qed simp

lemma load_v1_ok:
  assumes hp: "heap a h W r" and W: "W x = Some raw" and st: "stored_v1 K mk mv an raw" and an: "anode_ok valid K an" "fits_v1 K mk mv an"
    and p: "pg = Derived mk mv" and fit: "7 + 11 * (8 + mk + mv) + 96 \<le> sz"
  shows "ok (load_v1 M (node_hdr LAYOUT_VERSION_1 (an_type an) (length (an_entries an))) x mk mv (al_memory a)) (\<lambda>(n, s).
    heap (a\<lparr>al_memory := s\<rparr>) h W r \<and> live W n (an_entries an) \<and> nd_address n = x \<and> nd_children n = an_children an \<and>
    nd_node_type n = an_type an \<and> nd_version n = V1 mk mv)"
proof -
  let ?es = "an_entries an" and ?cs = "an_children an" and ?t = "an_type an" and ?w = "8 + mk + mv"
  obtain F where Wx: "W x = Some ([], F)" and F: "\<forall>i < length ?es. entry_at K mk mv F (7 + ?w * i) (?es ! i)"
    "\<forall>i < length ?cs. subrange F (7 + ?w * length ?es + 8 * i) 8 = to_le_bytes 8 (?cs ! i)"
    using st W by (cases raw) (auto simp: stored_v1_def)
  have es: "\<forall>(k, v) \<in> set ?es. valid k \<and> length (key_bytes K k) \<le> mk \<and> length v \<le> mv \<and> length (key_bytes K k) \<le> U32_MAX \<and> length v \<le> U32_MAX"
    and cs: "\<forall>c \<in> set ?cs. c \<le> U64_MAX" "length ?cs = (case ?t of Leaf \<Rightarrow> 0 | Internal \<Rightarrow> length ?es + 1)" and n: "length ?es \<le> 11"
    using an by (auto simp: anode_ok_def fits_v1_def CAPACITY_def)
  from load_entries_v1_ok[OF hp Wx, of 0 "length ?es" ?es mk mv] F(1) es obtain ls s1 where
    s1: "load_entries_v1 M x mk mv (length ?es) 7 (al_memory a) = Some (ls, 7 + ?w * length ?es, s1)"
      "list_all2 (entry_rep K (V1 mk mv) F) ls ?es" "heap (a\<lparr>al_memory := s1\<rparr>) h W r"
    by (auto elim!: ok_obtain)
  have wl: "?w * length ?es \<le> 11 * ?w"
    using mult_le_mono2[OF n, of ?w] by (simp add: mult.commute)
  obtain s2 where s2: "(if node_type_code ?t = INTERNAL_NODE_TYPE then do {
          n \<leftarrow> u16_add (length ?es) 1;
          (children, s) \<leftarrow> load_children_v1 M x n (7 + ?w * length ?es) s1;
          assert_that (length children = length ls + 1);
          Some (children, s) }
        else Some ([], s1)) = Some (?cs, s2)" "heap (a\<lparr>al_memory := s2\<rparr>) h W r"
  proof (cases ?t)
    case Leaf
    then show ?thesis
      using that s1(3) cs(2) by (simp add: node_type_code_def LEAF_NODE_TYPE_def INTERNAL_NODE_TYPE_def)
  next
    case Internal
    then have lc: "length ?cs = length ?es + 1"
      using cs(2) by simp
    then have "7 + ?w * length ?es + 8 * length ?cs \<le> sz"
      using n fit wl by linarith
    from load_children_v1_ok[OF s1(3) Wx, of 0 "length ?cs" ?cs "7 + ?w * length ?es"] this F(2) cs(1) obtain s2 where
      "load_children_v1 M x (length ?cs) (7 + ?w * length ?es) s1 = Some (?cs, s2)" "heap (a\<lparr>al_memory := s2\<rparr>) h W r"
      by (auto elim!: ok_obtain)
    moreover have "u16_add (length ?es) 1 = Some (length ?cs)" "length ls + 1 = length ?cs"
      using n lc list_all2_lengthD[OF s1(2)] by (simp_all add: u16_add_def)
    ultimately show ?thesis
      using that Internal by (simp add: node_type_code_def del: load_children_v1.simps)
  qed
  let ?n = "\<lparr>nd_address = x, nd_entries = ls, nd_children = ?cs, nd_node_type = ?t, nd_version = V1 mk mv, nd_overflows = []\<rparr>"
  have h7: "node_header_size = 7"
    by (simp add: node_header_size_def)
  have "load_v1 M (node_hdr LAYOUT_VERSION_1 ?t (length ?es)) x mk mv (al_memory a) = Some (?n, s2)"
    unfolding load_v1_def node_hdr_def node_header.simps Let_def h7 s1(1) bind.bind_lunit case_prod_conv s2(1) by simp
  moreover have "live W ?n ?es"
    unfolding live_def using Wx s1(2) p by (simp add: node_rep_def node_page_size_def)
  ultimately show ?thesis
    using s2(2) by simp
qed

section \<open>Saving\<close>

lemma keys_increasing_ok:
  assumes "heap a h W r" "live W n es" "sorted_wrt (<) (map fst es)" "\<forall>i \<in> set is. i + 1 < length es"
  shows "ok (keys_increasing K M is n (al_memory a)) (\<lambda>(b, n', s). b \<and> heap (a\<lparr>al_memory := s\<rparr>) h W r \<and> live W n' es \<and> node_more n n')"
  using assms
proof (induction "is" arbitrary: n a)
  case (Cons i "is")
  have i: "i < length es" "i + 1 < length es"
    using Cons.prems(4) by simp_all
  from get_key_ok[OF Cons.prems(1,2) i(1)] obtain n1 s1 where 1: "get_key K M n i (al_memory a) = Some (fst (es ! i), n1, s1)"
    "heap (a\<lparr>al_memory := s1\<rparr>) h W r" "live W n1 es" "node_more n n1"
    by (auto elim!: ok_obtain)
  from get_key_ok[OF 1(2,3) i(2)] obtain n2 s2 where 2: "get_key K M n1 (i + 1) s1 = Some (fst (es ! (i + 1)), n2, s2)"
    "heap (a\<lparr>al_memory := s2\<rparr>) h W r" "live W n2 es" "node_more n1 n2"
    by (auto elim!: ok_obtain)
  have "fst (es ! i) < fst (es ! (i + 1))"
    using Cons.prems(3) i by (auto simp: sorted_wrt_iff_nth_less)
  then show ?case
    using 1(1) 2(1) Cons.IH[OF 2(2,3) Cons.prems(3)] Cons.prems(4) node_more_trans[OF 1(4)] node_more_trans[OF 2(4)]
    by (auto elim!: ok_mono)
qed simp

lemma heap_write_v1:
  assumes "heap a h W r" "W x = Some ([], F)" "off + length bs \<le> sz"
  shows "ok (write_grow M (al_memory a) (x + off) bs) (\<lambda>s. heap (a\<lparr>al_memory := s\<rparr>) h (W(x \<mapsto> ([], overwrite F off bs))) r)"
    "x + off \<le> U64_MAX" "length (overwrite F off bs) = sz" "length F = sz"
  using heap_write_page[OF assms] heap_node(1,4)[OF assms(1,2)] assms(3) by simp_all

text \<open>One slot is written: four writes inside the page, the other slots keep their contents.\<close>

lemma save_slot_ok:
  assumes hp: "heap a h W r" and W: "W x = Some ([], F)" and p: "p + (8 + mk + mv) \<le> sz"
    and e: "length (key_bytes K k) \<le> mk" "length v \<le> mv"
  defines "F1 \<equiv> overwrite F p (to_le_bytes 4 (length (key_bytes K k)))"
  defines "F2 \<equiv> overwrite F1 (p + 4) (key_bytes K k)"
  defines "F3 \<equiv> overwrite F2 (p + 4 + mk) (to_le_bytes 4 (length v))"
  defines "F4 \<equiv> overwrite F3 (p + 8 + mk) v"
  shows "ok (write_grow M (al_memory a) (x + p) (to_le_bytes 4 (length (key_bytes K k)))) (\<lambda>s.
      ok (write_grow M s (x + (p + 4)) (key_bytes K k)) (\<lambda>s.
      ok (write_grow M s (x + (p + 4 + mk)) (to_le_bytes 4 (length v))) (\<lambda>s.
      ok (write_grow M s (x + (p + 8 + mk)) v) (\<lambda>s. heap (a\<lparr>al_memory := s\<rparr>) h (W(x \<mapsto> ([], F4))) r))))"
    and "entry_at K mk mv F4 p (k, v)" and "length F4 = sz"
    and "\<And>q n. q + n \<le> sz \<Longrightarrow> q + n \<le> p \<Longrightarrow> subrange F4 q n = subrange F q n"
proof -
  have p': "p + length (to_le_bytes 4 (length (key_bytes K k))) \<le> sz" "p + 4 + length (key_bytes K k) \<le> sz"
    "p + 4 + mk + length (to_le_bytes 4 (length v)) \<le> sz" "p + 8 + mk + length v \<le> sz"
    using p e by simp_all
  have F: "length F = sz"
    by (rule heap_write_v1(4)[OF hp W p'(1)])
  have L: "length F1 = sz" "length F2 = sz" "length F3 = sz" "length F4 = sz"
    using F p' by (simp_all add: F1_def F2_def F3_def F4_def)
  from heap_write_v1(1)[OF hp W p'(1)] obtain s1 where s1: "write_grow M (al_memory a) (x + p) (to_le_bytes 4 (length (key_bytes K k))) = Some s1"
    "heap (a\<lparr>al_memory := s1\<rparr>) h (W(x \<mapsto> ([], F1))) r"
    by (auto simp: F1_def simp del: to_le_bytes.simps elim!: ok_obtain)
  from heap_write_v1(1)[OF s1(2) _ p'(2), of x F1] obtain s2 where s2: "write_grow M s1 (x + (p + 4)) (key_bytes K k) = Some s2"
    "heap (a\<lparr>al_memory := s2\<rparr>) h (W(x \<mapsto> ([], F2))) r"
    by (auto simp: F2_def elim!: ok_obtain)
  from heap_write_v1(1)[OF s2(2) _ p'(3), of x F2] obtain s3 where s3: "write_grow M s2 (x + (p + 4 + mk)) (to_le_bytes 4 (length v)) = Some s3"
    "heap (a\<lparr>al_memory := s3\<rparr>) h (W(x \<mapsto> ([], F3))) r"
    by (auto simp: F3_def simp del: to_le_bytes.simps elim!: ok_obtain)
  from heap_write_v1(1)[OF s3(2) _ p'(4), of x F3] obtain s4 where s4: "write_grow M s3 (x + (p + 8 + mk)) v = Some s4"
    "heap (a\<lparr>al_memory := s4\<rparr>) h (W(x \<mapsto> ([], F4))) r"
    by (auto simp: F4_def elim!: ok_obtain)
  show "ok (write_grow M (al_memory a) (x + p) (to_le_bytes 4 (length (key_bytes K k)))) (\<lambda>s.
      ok (write_grow M s (x + (p + 4)) (key_bytes K k)) (\<lambda>s.
      ok (write_grow M s (x + (p + 4 + mk)) (to_le_bytes 4 (length v))) (\<lambda>s.
      ok (write_grow M s (x + (p + 8 + mk)) v) (\<lambda>s. heap (a\<lparr>al_memory := s\<rparr>) h (W(x \<mapsto> ([], F4))) r))))"
    using s1(1) s2(1) s3(1) s4 by simp
  have o: "subrange (overwrite G off bs) q n = subrange G q n" if "length G = sz" "off + length bs \<le> sz" "q + n \<le> sz" "q + n \<le> off \<or> off + length bs \<le> q" for G off q n and bs :: bytes
    using that by (intro subrange_overwrite_other) simp_all
  have o4: "subrange F4 q n = subrange F3 q n" if "q + n \<le> sz" "q + n \<le> p + 8 + mk" for q n
    unfolding F4_def using that p' L by (intro o) simp_all
  have o3: "subrange F3 q n = subrange F2 q n" if "q + n \<le> sz" "q + n \<le> p + 4 + mk" for q n
    unfolding F3_def using that p' L by (intro o) simp_all
  have o2: "subrange F2 q n = subrange F1 q n" if "q + n \<le> sz" "q + n \<le> p + 4" for q n
    unfolding F2_def using that p' L by (intro o) simp_all
  have o1: "subrange F1 q n = subrange F q n" if "q + n \<le> sz" "q + n \<le> p" for q n
    unfolding F1_def using that p' F by (intro o) simp_all
  show "subrange F4 q n = subrange F q n" if "q + n \<le> sz" "q + n \<le> p" for q n
    using that by (simp add: o4 o3 o2 o1)
  have "subrange F4 p 4 = to_le_bytes 4 (length (key_bytes K k))"
    using subrange_overwrite_same[of p "to_le_bytes 4 (length (key_bytes K k))" F] F p'
    by (simp add: o4 o3 o2 del: to_le_bytes.simps) (simp add: F1_def)
  moreover have "subrange F4 (p + 4) (length (key_bytes K k)) = key_bytes K k"
    using subrange_overwrite_same[of "p + 4" "key_bytes K k" F1] L p' e by (simp add: o4 o3) (simp add: F2_def)
  moreover have "subrange F4 (p + 4 + mk) 4 = to_le_bytes 4 (length v)"
    using subrange_overwrite_same[of "p + 4 + mk" "to_le_bytes 4 (length v)" F2] L p'
    by (simp add: o4 del: to_le_bytes.simps) (simp add: F3_def)
  moreover have "subrange F4 (p + 8 + mk) (length v) = v"
    using subrange_overwrite_same[of "p + 8 + mk" v F3] L p' by (simp add: F4_def)
  ultimately show "entry_at K mk mv F4 p (k, v)"
    using L p by (simp add: entry_at_def Let_def)
  show "length F4 = sz"
    by (rule L(4))
qed

lemma entry_at_cong:
  assumes "entry_at K mk mv F p e" "length (key_bytes K (fst e)) \<le> mk" "length (snd e) \<le> mv" "length F' = length F"
    "\<And>q n. q + n \<le> p + (8 + mk + mv) \<Longrightarrow> subrange F' q n = subrange F q n"
  shows "entry_at K mk mv F' p e"
  using assms(1-4) by (simp add: entry_at_def Let_def assms(5))

lemma save_entries_v1_ok:
  assumes "heap a h W r" "W x = Some ([], F)" "i + m = length es" "nd_address n = x"
    "node_rep K F0 n es" "\<forall>i < length es. entry_loaded (nd_entries n ! i)"
    "\<forall>(k, v) \<in> set es. valid k \<and> length (key_bytes K k) \<le> mk \<and> length v \<le> mv \<and> length (key_bytes K k) \<le> U32_MAX \<and> length v \<le> U32_MAX"
    "7 + (8 + mk + mv) * length es \<le> sz" "\<forall>j < i. entry_at K mk mv F (7 + (8 + mk + mv) * j) (es ! j)"
  shows "ok (save_entries_v1 K M mk mv [i..<length es] n (7 + (8 + mk + mv) * i) (al_memory a)) (\<lambda>(n', off, s). n' = n \<and>
    off = 7 + (8 + mk + mv) * length es \<and> (\<exists>F'. heap (a\<lparr>al_memory := s\<rparr>) h (W(x \<mapsto> ([], F'))) r \<and> subrange F' 0 7 = subrange F 0 7 \<and>
      (\<forall>j < length es. entry_at K mk mv F' (7 + (8 + mk + mv) * j) (es ! j))))"
  using assms
proof (induction m arbitrary: i a W F)
  case 0
  have "W(x \<mapsto> ([], F)) = W"
    using 0(2) by auto
  then show ?case
    using 0 by (auto simp del: fun_upd_apply intro!: exI[of _ F])
next
  case (Suc m)
  let ?w = "8 + mk + mv"
  let ?o = "7 + ?w * i"
  obtain k v where e: "es ! i = (k, v)"
    by fastforce
  have i: "i < length es"
    using Suc.prems(3) by simp
  have "(k, v) \<in> set es"
    using e i by (metis nth_mem)
  with Suc.prems(7) have kv: "valid k" "length (key_bytes K k) \<le> mk" "length v \<le> mv" "length (key_bytes K k) \<le> U32_MAX" "length v \<le> U32_MAX"
    by blast+
  have next_o: "?o + ?w = 7 + ?w * Suc i" and "?w * Suc i \<le> ?w * length es"
    using mult_le_mono2[of "Suc i" "length es" ?w] i by simp_all
  then have o: "?o + ?w \<le> sz"
    using Suc.prems(8) by linarith
  define F4 where "F4 = overwrite (overwrite (overwrite (overwrite F ?o (to_le_bytes 4 (length (key_bytes K k)))) (?o + 4) (key_bytes K k))
    (?o + 4 + mk) (to_le_bytes 4 (length v))) (?o + 8 + mk) v"
  note slot = save_slot_ok[OF Suc.prems(1,2) o kv(2,3), folded F4_def]
  from slot(1) obtain s1 s2 s3 s4 where s:
    "write_grow M (al_memory a) (x + ?o) (to_le_bytes 4 (length (key_bytes K k))) = Some s1"
    "write_grow M s1 (x + (?o + 4)) (key_bytes K k) = Some s2" "write_grow M s2 (x + (?o + 4 + mk)) (to_le_bytes 4 (length v)) = Some s3"
    "write_grow M s3 (x + (?o + 8 + mk)) v = Some s4" "heap (a\<lparr>al_memory := s4\<rparr>) h (W(x \<mapsto> ([], F4))) r"
    by (elim ok_obtain) blast
  have len: "length F = sz" "x + sz \<le> U64_MAX"
    using heap_node(1,4)[OF Suc.prems(1,2)] by simp_all
  have b: "x + ?o \<le> U64_MAX" "?o + 4 \<le> U64_MAX" "x + (?o + 4) \<le> U64_MAX" "?o + 4 + mk \<le> U64_MAX" "x + (?o + 4 + mk) \<le> U64_MAX"
    "?o + 4 + mk + 4 \<le> U64_MAX" "x + (?o + 8 + mk) \<le> U64_MAX" "?o + 8 + mk + mv \<le> U64_MAX"
    using o len(2) by linarith+
  have eqs: "?o + 4 + mk + 4 = ?o + 8 + mk" "?o + 8 + mk + mv = 7 + ?w * Suc i"
    by simp_all
  have "entry_at K mk mv F4 (7 + ?w * j) (es ! j)" if j: "j < Suc i" for j
  proof (cases "j = i")
    case True
    then show ?thesis
      using slot(2) e by simp
  next
    case False
    then have j': "j < i" "7 + ?w * j + ?w \<le> ?o"
      using j mult_le_mono2[of "Suc j" i ?w] by simp_all
    have "es ! j \<in> set es"
      using j'(1) i by simp
    then have "length (key_bytes K (fst (es ! j))) \<le> mk" "length (snd (es ! j)) \<le> mv"
      using Suc.prems(7) by (auto simp: split_beta)
    then show ?thesis
    proof (rule entry_at_cong[OF Suc.prems(9)[rule_format, OF j'(1)]])
      show "length F4 = length F"
        using slot(3) len(1) by simp
      show "subrange F4 q n = subrange F q n" if "q + n \<le> 7 + ?w * j + ?w" for q n
        using that j'(2) o by (intro slot(4)) linarith+
    qed
  qed
  moreover have "subrange F4 0 7 = subrange F 0 7"
    using o by (intro slot(4)) simp_all
  ultimately have IH: "ok (save_entries_v1 K M mk mv [Suc i..<length es] n (7 + ?w * Suc i) s4) (\<lambda>(n', off, s). n' = n \<and>
    off = 7 + ?w * length es \<and> (\<exists>F'. heap (a\<lparr>al_memory := s\<rparr>) h (W(x \<mapsto> ([], F'))) r \<and> subrange F' 0 7 = subrange F 0 7 \<and>
      (\<forall>j < length es. entry_at K mk mv F' (7 + ?w * j) (es ! j))))"
    using Suc.IH[OF s(5) fun_upd_same, of "Suc i"] Suc.prems(3-8) by (simp del: upt_Suc fun_upd_apply)
  have "[i..<length es] = i # [Suc i..<length es]"
    using i by (rule upt_conv_Cons)
  moreover have "save_entries_v1 K M mk mv (i # [Suc i..<length es]) n ?o (al_memory a) =
      save_entries_v1 K M mk mv [Suc i..<length es] n (7 + ?w * Suc i) s4"
    unfolding save_entries_v1.simps node_key_loaded[OF Suc.prems(5) i Suc.prems(6)[rule_format, OF i]] e fst_conv snd_conv
      bind.bind_lunit case_prod_conv key_bytes_ok(2)[OF kv(1)] as_u32_id[OF kv(4)] as_u32_id[OF kv(5)] write_u32_def
      types_simps U32_SIZE_def Suc.prems(4) u64_add_def
    using b s(1-4) unfolding eqs by (simp add: ac_simps del: upt_Suc to_le_bytes.simps)
  ultimately show ?case
    using IH by (simp only:)
qed

lemma save_children_v1_ok:
  assumes "heap a h W r" "W x = Some ([], F)" "i + m = length cs" "b + 8 * length cs \<le> sz"
    "\<forall>j < i. subrange F (b + 8 * j) 8 = to_le_bytes 8 (cs ! j)"
  shows "ok (save_children_v1 M x (drop i cs) (b + 8 * i) (al_memory a)) (\<lambda>s. \<exists>F'. heap (a\<lparr>al_memory := s\<rparr>) h (W(x \<mapsto> ([], F'))) r \<and>
    length F' = length F \<and> (\<forall>q n. q + n \<le> b \<longrightarrow> subrange F' q n = subrange F q n) \<and>
    (\<forall>j < length cs. subrange F' (b + 8 * j) 8 = to_le_bytes 8 (cs ! j)))"
  using assms
proof (induction m arbitrary: i a W F)
  case 0
  have "W(x \<mapsto> ([], F)) = W"
    using 0(2) by auto
  then show ?case
    using 0 by (auto simp del: fun_upd_apply intro!: exI[of _ F])
next
  case (Suc m)
  let ?o = "b + 8 * i"
  let ?F = "overwrite F ?o (to_le_bytes 8 (cs ! i))"
  have i: "i < length cs" and o: "?o + 8 \<le> sz" "?o + length (to_le_bytes 8 (cs ! i)) \<le> sz"
    using Suc.prems(3,4) by simp_all
  note wr = heap_write_v1[OF Suc.prems(1,2) o(2)]
  from wr(1) obtain s where s: "write_grow M (al_memory a) (x + ?o) (to_le_bytes 8 (cs ! i)) = Some s"
    "heap (a\<lparr>al_memory := s\<rparr>) h (W(x \<mapsto> ([], ?F))) r"
    by (auto simp del: to_le_bytes.simps elim!: ok_obtain)
  have keep: "subrange ?F q n = subrange F q n" if "q + n \<le> ?o" for q n
    using that wr(4) o by (intro subrange_overwrite_other) simp_all
  have here: "subrange ?F ?o 8 = to_le_bytes 8 (cs ! i)"
    using subrange_overwrite_same[of ?o "to_le_bytes 8 (cs ! i)" F] wr(4) o by simp
  have upto: "\<forall>j < Suc i. subrange ?F (b + 8 * j) 8 = to_le_bytes 8 (cs ! j)"
  proof (intro allI impI)
    fix j
    assume "j < Suc i"
    then show "subrange ?F (b + 8 * j) 8 = to_le_bytes 8 (cs ! j)"
      using here keep[of "b + 8 * j" 8] Suc.prems(5) by (cases "j = i") auto
  qed
  have IH: "ok (save_children_v1 M x (drop (Suc i) cs) (b + 8 * Suc i) s) (\<lambda>s. \<exists>F'. heap (a\<lparr>al_memory := s\<rparr>) h (W(x \<mapsto> ([], F'))) r \<and>
    length F' = length F \<and> (\<forall>q n. q + n \<le> b \<longrightarrow> subrange F' q n = subrange F q n) \<and>
    (\<forall>j < length cs. subrange F' (b + 8 * j) 8 = to_le_bytes 8 (cs ! j)))"
  proof -
    have "ok (save_children_v1 M x (drop (Suc i) cs) (b + 8 * Suc i) (al_memory (a\<lparr>al_memory := s\<rparr>))) (\<lambda>s'. \<exists>F'.
        heap (a\<lparr>al_memory := s, al_memory := s'\<rparr>) h (W(x \<mapsto> ([], ?F), x \<mapsto> ([], F'))) r \<and> length F' = length ?F \<and>
        (\<forall>q n. q + n \<le> b \<longrightarrow> subrange F' q n = subrange ?F q n) \<and> (\<forall>j < length cs. subrange F' (b + 8 * j) 8 = to_le_bytes 8 (cs ! j)))"
      using Suc.prems(3,4) upto by (intro Suc.IH[OF s(2)]) simp_all
    then show ?thesis
      using keep wr(3,4) by (auto simp del: fun_upd_apply to_le_bytes.simps elim!: ok_mono)
  qed
  have "drop i cs = cs ! i # drop (Suc i) cs"
    using i by (simp add: Cons_nth_drop_Suc)
  moreover have "x + ?o \<le> U64_MAX" "?o + 8 \<le> U64_MAX"
    using wr(2) o heap_node(4)[OF Suc.prems(1,2)] by simp_all
  ultimately have "save_children_v1 M x (drop i cs) ?o (al_memory a) = save_children_v1 M x (drop (Suc i) cs) (b + 8 * Suc i) s"
    using s(1) by (simp add: u64_add_def ac_simps del: to_le_bytes.simps)
  with IH show ?case
    by (simp only:)
qed

lemma val_rep_header:
  assumes "val_rep F lv v" "length bs = 7" "7 \<le> length F"
  shows "val_rep (overwrite F 0 bs) lv v"
  using assms by (cases lv rule: loaded.cases) (auto simp: subrange_overwrite_other)

lemma key_rep_header:
  assumes "key_rep K u F lk k" "length bs = 7" "7 \<le> length F"
  shows "key_rep K u (overwrite F 0 bs) lk k"
  using assms by (cases lk rule: loaded.cases)
    (auto simp: key_place_def subrange_overwrite_other split: version.splits bound.splits if_splits)

lemma save_v1_ok:
  assumes hp: "heap a h W r" and l: "live W n (an_entries an)" and v: "nd_version n = V1 mk mv" "nd_overflows n = []"
    and an: "an_type an = nd_node_type n" "an_children an = nd_children n" "anode_ok valid K an" "fits_v1 K mk mv an"
    and so: "sorted_wrt (<) (map fst (an_entries an))" and ne: "an_entries an \<noteq> []"
    and fit: "7 + 11 * (8 + mk + mv) + 96 \<le> sz"
  shows "ok (save_v1 K M n (al_memory a)) (\<lambda>(n', s). \<exists>F. heap (a\<lparr>al_memory := s\<rparr>) h (W(nd_address n \<mapsto> ([], F))) r \<and>
    stored_v1 K mk mv an ([], F) \<and> live (W(nd_address n \<mapsto> ([], F))) n' (an_entries an) \<and>
    n' = n\<lparr>nd_entries := nd_entries n'\<rparr> \<and> (\<forall>e \<in> set (nd_entries n'). entry_loaded e))"
proof -
  let ?es = "an_entries an" and ?cs = "an_children an" and ?x = "nd_address n" and ?w = "8 + mk + mv"
  define hdr where "hdr = encode_node_header (node_hdr LAYOUT_VERSION_1 (nd_node_type n) (length ?es))"
  have len: "length (nd_entries n) = length ?es" and lh: "length hdr = 7"
    by (simp_all add: live_length[OF l] hdr_def)
  have es: "\<forall>(k, v) \<in> set ?es. valid k \<and> length (key_bytes K k) \<le> mk \<and> length v \<le> mv \<and> length (key_bytes K k) \<le> U32_MAX \<and> length v \<le> U32_MAX"
    and cs: "length ?cs = (case nd_node_type n of Leaf \<Rightarrow> 0 | Internal \<Rightarrow> length ?es + 1)" and n11: "length ?es \<le> 11"
    using an by (auto simp: anode_ok_def fits_v1_def CAPACITY_def)
  have wl: "?w * length ?es \<le> 11 * ?w"
    using mult_le_mono2[OF n11, of ?w] by (simp add: mult.commute)
  have "8 * length ?cs \<le> 96"
    using cs n11 by (cases "nd_node_type n") simp_all
  then have lim: "7 + ?w * length ?es \<le> sz" "7 + ?w * length ?es + 8 * length ?cs \<le> sz"
    using fit wl by linarith+
  have "\<forall>i \<in> set [0..<length ?es - 1]. i + 1 < length ?es"
    by auto
  from keys_increasing_ok[OF hp l so this] obtain n1 s1 where
    1: "keys_increasing K M [0..<length ?es - 1] n (al_memory a) = Some (True, n1, s1)" "heap (a\<lparr>al_memory := s1\<rparr>) h W r" "live W n1 ?es" "node_more n n1"
    by (auto elim!: ok_obtain)
  note m1 = node_moreD[OF 1(4)]
  obtain F0 where F0: "W ?x = Some ([], F0)" "node_rep K F0 n1 ?es"
    by (rule liveD[OF 1(3)]) (simp add: m1 v)
  have lF: "length F0 = sz"
    using heap_node(1)[OF hp F0(1)] by simp
  let ?F1 = "overwrite F0 0 hdr" and ?W1 = "W(?x \<mapsto> ([], overwrite F0 0 hdr))"
  from heap_write_v1(1)[OF 1(2) F0(1), of 0 hdr] sz lh obtain s2 where s2: "write_grow M s1 ?x hdr = Some s2" "heap (a\<lparr>al_memory := s2\<rparr>) h ?W1 r"
    by (auto elim!: ok_obtain)
  have "node_rep K ?F1 n1 ?es"
    using F0(2) lF sz lh val_rep_header[of F0 _ _ hdr] key_rep_header[of _ F0 _ _ hdr]
    by (auto simp: node_rep_def entry_rep_def elim!: list_all2_mono)
  then have l1: "live ?W1 n1 ?es"
    using 1(3) m1 v by (simp add: live_def)
  from load_entries_ok[OF s2(2) l1, of "[0..<length ?es]"] obtain n2 s3 where
    3: "load_entries K M [0..<length ?es] n1 s2 = Some (n2, s3)" "heap (a\<lparr>al_memory := s3\<rparr>) h ?W1 r" "live ?W1 n2 ?es" "node_more n1 n2"
      "\<forall>i < length ?es. entry_loaded (nd_entries n2 ! i)"
    by (auto elim!: ok_obtain)
  note m2 = node_moreD[OF 3(4)]
  have f2: "nd_address n2 = ?x" "nd_children n2 = ?cs" "nd_overflows n2 = []" "length (nd_entries n2) = length ?es"
    using m1 m2 v an(2) len by simp_all
  obtain G where G: "node_rep K G n2 ?es"
    by (rule liveD[OF 3(3)])
  have W1: "?W1 ?x = Some ([], ?F1)"
    by simp
  have "ok (save_entries_v1 K M mk mv [0..<length ?es] n2 (7 + ?w * 0) (al_memory (a\<lparr>al_memory := s3\<rparr>))) (\<lambda>(n', off, s). n' = n2 \<and>
    off = 7 + ?w * length ?es \<and> (\<exists>F'. heap (a\<lparr>al_memory := s3, al_memory := s\<rparr>) h (?W1(?x \<mapsto> ([], F'))) r \<and> subrange F' 0 7 = subrange ?F1 0 7 \<and>
      (\<forall>j < length ?es. entry_at K mk mv F' (7 + ?w * j) (?es ! j))))"
    using f2(1) lim(1) es by (intro save_entries_v1_ok[OF 3(2) W1 _ _ G 3(5)]) simp_all
  then obtain s4 F2 where s4: "save_entries_v1 K M mk mv [0..<length ?es] n2 7 s3 = Some (n2, 7 + ?w * length ?es, s4)"
    "heap (a\<lparr>al_memory := s4\<rparr>) h (W(?x \<mapsto> ([], F2))) r" "subrange F2 0 7 = subrange ?F1 0 7"
    "\<forall>j < length ?es. entry_at K mk mv F2 (7 + ?w * j) (?es ! j)"
    by (auto simp del: fun_upd_apply elim!: ok_obtain)
  have W2: "(W(?x \<mapsto> ([], F2))) ?x = Some ([], F2)"
    by simp
  from save_children_v1_ok[OF s4(2) W2, of 0 "length ?cs" ?cs "7 + ?w * length ?es"] lim(2) obtain s5 F3 where
    s5: "save_children_v1 M ?x ?cs (7 + ?w * length ?es) s4 = Some s5" "heap (a\<lparr>al_memory := s5\<rparr>) h (W(?x \<mapsto> ([], F3))) r" "length F3 = length F2"
      "\<forall>q n. q + n \<le> 7 + ?w * length ?es \<longrightarrow> subrange F3 q n = subrange F2 q n"
      "\<forall>j < length ?cs. subrange F3 (7 + ?w * length ?es + 8 * j) 8 = to_le_bytes 8 (?cs ! j)"
    by (auto simp del: fun_upd_apply elim!: ok_obtain)
  have "entry_at K mk mv F3 (7 + ?w * j) (?es ! j)" if j: "j < length ?es" for j
  proof (rule entry_at_cong[OF s4(4)[rule_format, OF j] _ _ s5(3)])
    have "?es ! j \<in> set ?es"
      using j by simp
    then show "length (key_bytes K (fst (?es ! j))) \<le> mk" "length (snd (?es ! j)) \<le> mv"
      using es by (auto simp: split_beta)
    have "?w * Suc j \<le> ?w * length ?es"
      using j by (intro mult_le_mono2) simp
    then show "subrange F3 q n = subrange F2 q n" if "q + n \<le> 7 + ?w * j + ?w" for q n
      using that s5(4) by simp
  qed
  moreover have "subrange F3 0 7 = hdr"
    using s5(4) s4(3) subrange_overwrite_same[of 0 hdr F0] lF sz lh by simp
  ultimately have st: "stored_v1 K mk mv an ([], F3)"
    using s5(5) an(1) by (simp add: stored_v1_def hdr_def)
  have ld: "\<forall>e \<in> set (nd_entries n2). entry_loaded e"
    using 3(5) f2(4) by (auto simp: set_conv_nth)
  have lv: "live (W(?x \<mapsto> ([], F3))) n2 ?es"
    using 3(3) f2 loaded_part[OF _ ld, of "nd_version n2" G ?es "nd_version n2" F3] G
    by (simp add: live_def node_rep_def)
  have hd: "encode_node_header \<lparr>nh_magic = NODE_MAGIC, nh_version = LAYOUT_VERSION_1, nh_node_type = node_type_code (nd_node_type n),
      nh_num_entries = as_u16 (length ?es)\<rparr> = hdr"
    using n11 by (simp add: hdr_def node_hdr_def as_u16_def)
  have chk: "(case nd_node_type n of Leaf \<Rightarrow> assert_that (nd_children n = [])
      | Internal \<Rightarrow> assert_that (length (nd_children n) = length ?es + 1)) = Some ()"
    using cs an(2) len by (cases "nd_node_type n") simp_all
  have f1: "nd_version n1 = V1 mk mv" "nd_node_type n1 = nd_node_type n" "nd_address n1 = ?x" "length (nd_entries n1) = length ?es"
    using m1 v(1) len by simp_all
  have "nd_entries n \<noteq> []"
    using ne len by auto
  then have "save_v1 K M n (al_memory a) = Some (n2, s5)"
    unfolding save_v1_def chk len bind.bind_lunit using 1(1) s2(1) 3(1) s4(1) s5(1)
    by (simp add: f1 f2 hd write_struct_def node_header_size_def Let_def)
  moreover have "n2 = n\<lparr>nd_entries := nd_entries n2\<rparr>"
    using m1 m2 by (cases n; cases n1; cases n2) simp
  ultimately show ?thesis
    using s5(2) st lv ld by (auto simp del: fun_upd_apply)
qed

end

end
