(* ===== verification/Node_Store.thy ===== *)
theory Node_Store
  imports Node_V1
begin

text \<open>
  Loading, saving and merging nodes of either version (\<open>src/src/btreemap/node.rs\<close>), and the interface
  that the B-tree is built on: a heap of nodes. Its pages are hidden behind a budget: \<open>nodes a h W r\<close> says
  that every node in \<open>W\<close> can grow to the largest size it may have and that \<open>r\<close> more nodes can be
  allocated, so that saving a node of the tree never runs out of memory.
\<close>

section \<open>The code\<close>

definition node_load ::
  "'k storable \<Rightarrow> 's memory_ops \<Rightarrow> address \<Rightarrow> page_size \<Rightarrow> 's \<Rightarrow> ('k node \<times> 's) option" where
  "node_load K M address page_size s = do {
     (header, s) \<leftarrow> read_struct node_header_size decode_node_header M s address;
     assert_that (nh_magic header = NODE_MAGIC);
     if nh_version header = LAYOUT_VERSION_1 then
       (case page_size of
          Derived max_key_size max_value_size \<Rightarrow> load_v1 M header address max_key_size max_value_size s
        | PageValue _ \<Rightarrow> None)
     else if nh_version header = LAYOUT_VERSION_2 then load_v2 K M address page_size header s
     else None }"

definition node_save :: "'k::linorder storable \<Rightarrow> 's memory_ops \<Rightarrow> 'k node \<Rightarrow> 's allocator \<Rightarrow> ('k node \<times> 's allocator) option" where
  "node_save K M n a = (case nd_version n of
       V1 _ _ \<Rightarrow> do {
         (n, s) \<leftarrow> save_v1 K M n (al_memory a);
         Some (n, a\<lparr>al_memory := s\<rparr>) }
     | V2 _ \<Rightarrow> save_v2 K M n a)"

text \<open>
  The walks to the ends of the subtree. The node that is returned is the node itself, with the cells
  that were filled.
\<close>

partial_function (option) get_max ::
  "'k storable \<Rightarrow> 's memory_ops \<Rightarrow> 'k node \<Rightarrow> 's \<Rightarrow> ('k entry \<times> 'k node \<times> 's) option" where
  "get_max K M n s = (case nd_node_type n of
       Leaf \<Rightarrow> do {
         assert_that (nd_entries n \<noteq> []);
         let idx = length (nd_entries n) - 1;
         (k, n, s) \<leftarrow> get_key K M n idx s;
         (v, n, s) \<leftarrow> get_value M n idx s;
         Some ((k, v), n, s) }
     | Internal \<Rightarrow> do {
         assert_that (nd_children n \<noteq> []);
         (last_child, s) \<leftarrow> node_load K M (last (nd_children n)) (version_page_size (nd_version n)) s;
         (e, _, s) \<leftarrow> get_max K M last_child s;
         Some (e, n, s) })"

partial_function (option) get_min ::
  "'k storable \<Rightarrow> 's memory_ops \<Rightarrow> 'k node \<Rightarrow> 's \<Rightarrow> ('k entry \<times> 'k node \<times> 's) option" where
  "get_min K M n s = (case nd_node_type n of
       Leaf \<Rightarrow> node_entry K M n 0 s
     | Internal \<Rightarrow> do {
         c \<leftarrow> node_child n 0;
         (first_child, s) \<leftarrow> node_load K M c (version_page_size (nd_version n)) s;
         (e, _, s) \<leftarrow> get_min K M first_child s;
         Some (e, n, s) })"

definition node_merge ::
  "'k::linorder storable \<Rightarrow> 's memory_ops \<Rightarrow> 'k node \<Rightarrow> 'k node \<Rightarrow> 'k entry \<Rightarrow> 's allocator \<Rightarrow> ('k node \<times> 's allocator) option" where
  "node_merge K M n source median a = do {
     (source, s) \<leftarrow> load_entries K M [0..<entries_len source] source (al_memory a);
     (ks, source, s) \<leftarrow> node_key K M source 0 s;
     (kn, n, s) \<leftarrow> node_key K M n 0 s;
     (n, source, s) \<leftarrow>
       (if ks > kn then node_append K M n source median s
        else do {
          (source, n, s) \<leftarrow> node_append K M source n median s;
          let n = n\<lparr>nd_entries := nd_entries source, nd_children := nd_children source\<rparr>;
          let source = source\<lparr>nd_entries := [], nd_children := []\<rparr>;
          Some (n, source, s) });
     (n, a) \<leftarrow> node_save K M n (a\<lparr>al_memory := s\<rparr>);
     a \<leftarrow> node_deallocate M source a;
     Some (n, a) }"

section \<open>The heap of nodes\<close>

locale btree_nodes = node_ops M H sz prep K valid pg
  for M :: "'s memory_ops" and H sz prep and K :: "'k::linorder storable" and valid pg +
  fixes kb vb :: nat
  assumes kb: "kb \<le> U32_MAX" "valid k \<Longrightarrow> length (key_bytes K k) \<le> kb"
    and vb: "vb \<le> U32_MAX"
    and slots: "pg = Derived mk mv \<Longrightarrow> kb \<le> mk \<and> vb \<le> mv \<and> 7 + 11 * (8 + mk + mv) + 96 \<le> sz"
begin

text \<open>What a node of the tree may hold: at most 11 entries, in order, with the children the type asks for.\<close>

definition good :: "'k anode \<Rightarrow> bool" where
  "good an \<longleftrightarrow> an_entries an \<noteq> [] \<and> length (an_entries an) \<le> 11 \<and> sorted_wrt (<) (map fst (an_entries an)) \<and>
     (\<forall>(k, v) \<in> set (an_entries an). valid k \<and> length v \<le> vb) \<and> (\<forall>c \<in> set (an_children an). c \<le> U64_MAX) \<and>
     length (an_children an) = (case an_type an of Leaf \<Rightarrow> 0 | Internal \<Rightarrow> length (an_entries an) + 1)"

lemma good_ok: "good an \<Longrightarrow> anode_ok valid K an"
  using kb vb by (fastforce simp: good_def anode_ok_def)

lemma good_fits: "good an \<Longrightarrow> pg = Derived mk mv \<Longrightarrow> fits_v1 K mk mv an"
  using kb(2) slots[of mk mv] by (fastforce simp: good_def fits_v1_def CAPACITY_def)

text \<open>The most overflow pages that a node can need.\<close>

definition most :: nat where
  "most = pages_needed sz (199 + 11 * (kb + vb))"

lemma length_concat_bound: "(\<And>x. x \<in> set xs \<Longrightarrow> length (f x) \<le> c) \<Longrightarrow> length (concat (map f xs)) \<le> length xs * c"
  by (induction xs) fastforce+

lemma good_size:
  assumes "good an"
  shows "length (encode_v2 K an l) \<le> 199 + 11 * (kb + vb)"
proof -
  let ?es = "an_entries an" and ?cs = "an_children an"
  have n: "length ?es \<le> 11" "length ?cs \<le> 12" and e: "\<And>e. e \<in> set ?es \<Longrightarrow> valid (fst e) \<and> length (snd e) \<le> vb"
    using assms by (auto simp: good_def split: node_type.splits)
  have "length (concat (map (\<lambda>e. key_enc K (fst e)) ?es)) \<le> length ?es * (4 + kb)"
    using kb(2) e by (intro length_concat_bound) (simp add: key_enc_def trans_le_add2)
  moreover have "length (concat (map (\<lambda>e. val_enc (snd e)) ?es)) \<le> length ?es * (4 + vb)"
    using e by (intro length_concat_bound) (simp add: val_enc_def)
  moreover have "length ?es * (4 + kb) \<le> 11 * (4 + kb)" "length ?es * (4 + vb) \<le> 11 * (4 + vb)"
    by (rule mult_le_mono1[OF n(1)])+
  ultimately show ?thesis
    using n(2) by (simp add: encode_v2_def)
qed

definition spare :: "node_heap \<Rightarrow> nat" where
  "spare W = (\<Sum>x \<in> dom W. most - length (fst (the (W x))))"

definition nodes :: "'s allocator \<Rightarrow> bytes \<Rightarrow> node_heap \<Rightarrow> nat \<Rightarrow> bool" where
  "nodes a h W r \<longleftrightarrow> finite (dom W) \<and> (\<forall>x ovs F. W x = Some (ovs, F) \<longrightarrow> length ovs \<le> most) \<and>
     heap a h W (r + r * most + spare W)"

lemma nodesD:
  assumes "nodes a h W r"
  shows "finite (dom W)" "W x = Some (ovs, F) \<Longrightarrow> length ovs \<le> most" "heap a h W (r + r * most + spare W)"
  using assms by (auto simp: nodes_def)

lemma spare_upd:
  assumes "finite (dom W)"
  shows "spare (W(x \<mapsto> (ovs, F))) = spare (W(x := None)) + (most - length ovs)"
proof -
  have "dom W - {x} = dom (W(x := None))"
    by auto
  have "spare (W(x \<mapsto> (ovs, F))) = (\<Sum>y \<in> insert x (dom W - {x}). most - length (fst (the ((W(x \<mapsto> (ovs, F))) y))))"
    by (simp add: spare_def)
  also have "\<dots> = (most - length ovs) + (\<Sum>y \<in> dom W - {x}. most - length (fst (the ((W(x \<mapsto> (ovs, F))) y))))"
    using assms by (subst sum.insert) auto
  also have "(\<Sum>y \<in> dom W - {x}. most - length (fst (the ((W(x \<mapsto> (ovs, F))) y)))) = spare (W(x := None))"
    unfolding spare_def by (intro sum.cong) auto
  finally show ?thesis
    by (simp only: add.commute)
qed

lemma spare_split:
  assumes "finite (dom W)" "W x = Some (ovs, F)"
  shows "spare W = spare (W(x := None)) + (most - length ovs)"
proof -
  have "W = W(x \<mapsto> (ovs, F))"
    using assms(2) by auto
  then show ?thesis
    using spare_upd[OF assms(1), of x ovs F] by simp
qed

text \<open>The node in memory and the node as it is stored.\<close>

definition node_is :: "node_heap \<Rightarrow> 'k node \<Rightarrow> 'k anode \<Rightarrow> bool" where
  "node_is W n an \<longleftrightarrow> live W n (an_entries an) \<and> nd_node_type n = an_type an \<and> nd_children n = an_children an \<and>
     (\<forall>mk mv. nd_version n = V1 mk mv \<longrightarrow> nd_overflows n = [])"

definition stored :: "node_heap \<Rightarrow> address \<Rightarrow> 'k anode \<Rightarrow> bool" where
  "stored W x an \<longleftrightarrow> good an \<and> (\<exists>raw. W x = Some raw \<and>
     (stored_v2 K an raw \<or> (\<exists>mk mv. pg = Derived mk mv \<and> stored_v1 K mk mv an raw)))"

lemma stored_cong: "W' x = W x \<Longrightarrow> stored W' x an = stored W x an"
  by (simp add: stored_def)

lemma node_is_cong: "W' (nd_address n) = W (nd_address n) \<Longrightarrow> node_is W' n an = node_is W n an"
  by (simp add: node_is_def live_cong[of W' n W])

lemma node_load_ok:
  assumes hp: "nodes a h W r" and st: "stored W x an"
  shows "ok (node_load K M x pg (al_memory a)) (\<lambda>(n, s). nodes (a\<lparr>al_memory := s\<rparr>) h W r \<and> node_is W n an \<and> nd_address n = x)"
proof -
  note hp' = nodesD(3)[OF hp]
  obtain ovs F where raw: "W x = Some (ovs, F)"
    and v: "stored_v2 K an (ovs, F) \<or> (\<exists>mk mv. pg = Derived mk mv \<and> stored_v1 K mk mv an (ovs, F))" and an: "good an"
    using st by (auto simp: stored_def)
  have n: "length (an_entries an) \<le> U16_MAX"
    using an by (simp add: good_def)
  define v where "v = (if stored_v2 K an (ovs, F) then LAYOUT_VERSION_2 else LAYOUT_VERSION_1)"
  let ?hdr = "node_hdr v (an_type an) (length (an_entries an))"
  have "subrange F 0 7 = encode_node_header ?hdr"
    using v by (auto simp: v_def stored_v1_def stored_v2_def encode_v2_def subrange_def)
  then have dec: "decode_node_header (subrange F 0 7) = ?hdr"
    using n by (simp add: decode_node_hdr v_def LAYOUT_VERSION_1_def LAYOUT_VERSION_2_def)
  from heap_read_page[OF hp' raw, of 0 7] sz obtain s where s: "read_op M (al_memory a) x 7 = Some (subrange F 0 7, s)"
    "heap (a\<lparr>al_memory := s\<rparr>) h W (r + r * most + spare W)"
    by (auto elim!: ok_obtain)
  then have rs: "read_struct node_header_size decode_node_header M (al_memory a) x = Some (?hdr, s)"
    by (simp add: read_struct_def node_header_size_def dec)
  have w: "nodes (a\<lparr>al_memory := s'\<rparr>) h W r" if "heap (a\<lparr>al_memory := s'\<rparr>) h W (r + r * most + spare W)" for s'
    using hp that by (simp add: nodes_def)
  show ?thesis
  proof (cases "stored_v2 K an (ovs, F)")
    case True
    with load_v2_ok[OF s(2) raw True good_ok[OF an]] w show ?thesis
      unfolding node_load_def rs by (auto simp: v_def node_is_def node_hdr_def LAYOUT_VERSION_1_def LAYOUT_VERSION_2_def elim!: ok_mono)
  next
    case False
    then obtain mk mv where p: "pg = Derived mk mv" "stored_v1 K mk mv an (ovs, F)"
      using v by blast
    have "node_load K M x pg (al_memory a) = load_v1 M (node_hdr LAYOUT_VERSION_1 (an_type an) (length (an_entries an))) x mk mv s"
      using False by (simp add: node_load_def rs v_def node_hdr_def p(1))
    with load_v1_ok[OF s(2) raw p(2) good_ok[OF an] good_fits[OF an p(1)] p(1)] slots[OF p(1)] w p(2) raw show ?thesis
      by (auto simp: node_is_def live_def stored_v1_def elim!: ok_mono)
  qed
qed

lemma node_save_ok:
  assumes hp: "nodes a h W r" and n: "node_is W n an" and an: "good an"
  shows "ok (node_save K M n a) (\<lambda>(n', a'). \<exists>raw. nodes a' h (W(nd_address n \<mapsto> raw)) r \<and> nd_address n' = nd_address n \<and>
    stored (W(nd_address n \<mapsto> raw)) (nd_address n) an \<and> node_is (W(nd_address n \<mapsto> raw)) n' an)"
proof -
  let ?x = "nd_address n"
  note hp' = nodesD(3)[OF hp]
  have l: "live W n (an_entries an)" and f: "an_type an = nd_node_type n" "an_children an = nd_children n"
    using n by (simp_all add: node_is_def)
  obtain F where W: "W ?x = Some (nd_overflows n, F)" and p: "version_page_size (nd_version n) = pg"
    by (rule liveD[OF l]) (auto simp: node_page_size_def)
  note few = nodesD(2)[OF hp W] and fin = nodesD(1)[OF hp]
  show ?thesis
  proof (cases "nd_version n")
    case (V1 mk mv)
    then have d: "pg = Derived mk mv"
      using p by simp
    have ovs: "nd_overflows n = []"
      using n V1 by (simp add: node_is_def)
    have sp: "spare (W(?x \<mapsto> ([], F'))) = spare W" for F'
      using spare_upd[OF fin, of ?x "[]" F'] spare_split[OF fin W] ovs by simp
    have "an_entries an \<noteq> []" "sorted_wrt (<) (map fst (an_entries an))"
      using an by (simp_all add: good_def)
    with save_v1_ok[OF hp' l V1 ovs f good_ok[OF an] good_fits[OF an d]] slots[OF d] obtain n' s' F' where
      s: "save_v1 K M n (al_memory a) = Some (n', s')" "heap (a\<lparr>al_memory := s'\<rparr>) h (W(?x \<mapsto> ([], F'))) (r + r * most + spare W)"
        "stored_v1 K mk mv an ([], F')" "live (W(?x \<mapsto> ([], F'))) n' (an_entries an)" "n' = n\<lparr>nd_entries := nd_entries n'\<rparr>"
      by (auto simp del: fun_upd_apply elim!: ok_obtain)
    have n': "nd_address n' = ?x" "nd_node_type n' = an_type an" "nd_children n' = an_children an" "nd_overflows n' = []"
      using f ovs by (subst s(5); simp)+
    have "nodes (a\<lparr>al_memory := s'\<rparr>) h (W(?x \<mapsto> ([], F'))) r"
      using s(2) fin nodesD(2)[OF hp] unfolding nodes_def sp by auto
    moreover have "stored (W(?x \<mapsto> ([], F'))) ?x an"
      unfolding stored_def using an d s(3) by (metis fun_upd_same)
    ultimately show ?thesis
      using s(1,4) n' by (auto simp: node_save_def V1 node_is_def simp del: fun_upd_apply)
  next
    case (V2 q)
    then have q: "nd_version n = V2 pg"
      using p by simp
    have pn: "pages_needed sz (length (encode_v2 K an 0)) \<le> most"
      unfolding most_def by (intro pages_needed_mono good_size an)
    have sp: "spare W = spare (W(?x := None)) + (most - length (nd_overflows n))"
      by (rule spare_split[OF fin W])
    have "length (encode_v2 K an 0) \<le> U64_MAX"
      using good_size[OF an, of 0] kb(1) vb by simp
    moreover have "pages_needed sz (length (encode_v2 K an 0)) \<le> r + r * most + spare W + length (nd_overflows n)"
      using pn sp few by simp
    ultimately obtain n' a' F' where s: "save_v2 K M n a = Some (n', a')"
      "heap a' h (W(?x \<mapsto> (nd_overflows n', F'))) (r + r * most + spare W + length (nd_overflows n) - length (nd_overflows n'))"
      "stored_v2 K an (nd_overflows n', F')" "live (W(?x \<mapsto> (nd_overflows n', F'))) n' (an_entries an)"
      "length (nd_overflows n') = pages_needed sz (length (encode_v2 K an 0))"
      "n' = n\<lparr>nd_entries := nd_entries n', nd_overflows := nd_overflows n'\<rparr>"
      using save_v2_ok[OF hp' l q f good_ok[OF an]] by (auto simp del: fun_upd_apply elim!: ok_obtain)
    have n': "nd_address n' = ?x" "nd_node_type n' = an_type an" "nd_children n' = an_children an" "nd_version n' = V2 pg"
      using f q by (subst s(6); simp)+
    have "r + r * most + spare W + length (nd_overflows n) - length (nd_overflows n') =
        r + r * most + spare (W(?x \<mapsto> (nd_overflows n', F')))"
      unfolding spare_upd[OF fin] sp using few pn s(5) by simp
    then have "nodes a' h (W(?x \<mapsto> (nd_overflows n', F'))) r"
      using s(2,5) pn fin nodesD(2)[OF hp] unfolding nodes_def by auto
    moreover have "stored (W(?x \<mapsto> (nd_overflows n', F'))) ?x an"
      using an s(3) by (auto simp: stored_def)
    ultimately show ?thesis
      using s(1,4) n' by (auto simp: node_save_def V2 node_is_def simp del: fun_upd_apply)
  qed
qed

lemma node_alloc_ok:
  assumes "nodes a h W (Suc r)"
  shows "ok (allocate M a) (\<lambda>(x, a'). W x = None \<and> x \<le> U64_MAX \<and> H + 64 \<le> x \<and> (\<exists>raw. nodes a' h (W(x \<mapsto> raw)) r \<and>
    (\<forall>n. nd_address n = x \<longrightarrow> nd_entries n = [] \<longrightarrow> nd_overflows n = [] \<longrightarrow> version_page_size (nd_version n) = pg \<longrightarrow>
      node_is (W(x \<mapsto> raw)) n \<lparr>an_type = nd_node_type n, an_entries = [], an_children = nd_children n\<rparr>)))"
proof -
  have eq: "Suc r + Suc r * most + spare W = Suc (r + r * most + (most + spare W))"
    by simp
  from heap_alloc[OF nodesD(3)[OF assms, unfolded eq]] obtain x a' F where
    x: "allocate M a = Some (x, a')" "x \<notin> dom W" "heap a' h (W(x \<mapsto> ([], F))) (r + r * most + (most + spare W))"
    by (auto elim!: ok_obtain)
  have "spare (W(x \<mapsto> ([], F))) = most + spare W"
    using spare_upd[OF nodesD(1)[OF assms], of x "[]" F] x(2) by (simp add: domIff fun_upd_idem)
  then have "nodes a' h (W(x \<mapsto> ([], F))) r"
    using x(3) nodesD(1,2)[OF assms] by (auto simp: nodes_def simp del: mult_Suc_right add_mult_distrib2)
  moreover have "x \<le> U64_MAX" "H + 64 \<le> x"
    using heap_node(3,4)[OF x(3), of x] by simp_all
  ultimately show ?thesis
    using x(1,2) by (auto simp: node_is_def live_def node_rep_def node_page_size_def domIff simp del: not_None_eq intro!: exI[of _ "[]"] exI[of _ F])
qed

lemma node_dealloc_ok:
  assumes hp: "nodes a h W r" and n: "W (nd_address n) = Some (nd_overflows n, F)"
  shows "ok (node_deallocate M n a) (\<lambda>a'. nodes a' h (W(nd_address n := None)) (Suc r))"
proof -
  have "r + r * most + spare W + length (nd_overflows n) + 1 = Suc r + Suc r * most + spare (W(nd_address n := None))"
    using spare_split[OF nodesD(1)[OF hp] n] nodesD(2)[OF hp n] by simp
  from deallocate_ok[OF nodesD(3)[OF hp] n, unfolded this] show ?thesis
    by (rule ok_mono) (use nodesD(1,2)[OF hp] in \<open>auto simp: nodes_def simp del: mult_Suc split: if_splits\<close>)
qed

text \<open>The operations on a node in memory, over the heap of nodes.\<close>

lemma nodes_upd: "nodes a h W r \<Longrightarrow> heap a' h W (r + r * most + spare W) \<Longrightarrow> nodes a' h W r"
  by (auto simp: nodes_def)

lemma node_is_more:
  assumes "node_is W n an" "live W n' (an_entries an)" "node_more n n'"
  shows "node_is W n' an"
  using assms node_moreD[OF assms(3)] by (auto simp: node_is_def)

lemma node_is_entries:
  assumes "node_is W n an" "live W n' es" "n' = n\<lparr>nd_entries := nd_entries n'\<rparr>"
  shows "node_is W n' (an\<lparr>an_entries := es\<rparr>)" "nd_address n' = nd_address n"
proof -
  have "nd_node_type n' = nd_node_type n" "nd_children n' = nd_children n" "nd_version n' = nd_version n" "nd_overflows n' = nd_overflows n"
      "nd_address n' = nd_address n"
    by (subst assms(3), simp)+
  then show "node_is W n' (an\<lparr>an_entries := es\<rparr>)" "nd_address n' = nd_address n"
    using assms(1,2) by (auto simp: node_is_def)
qed

lemma node_is_parts:
  assumes "node_is W n an" "live W n' es" "n' = n\<lparr>nd_entries := nd_entries n', nd_children := cs\<rparr>"
  shows "node_is W n' (an\<lparr>an_entries := es, an_children := cs\<rparr>)" "nd_address n' = nd_address n"
proof -
  have "nd_node_type n' = nd_node_type n" "nd_children n' = cs" "nd_version n' = nd_version n" "nd_overflows n' = nd_overflows n"
      "nd_address n' = nd_address n"
    by (subst assms(3), simp)+
  then show "node_is W n' (an\<lparr>an_entries := es, an_children := cs\<rparr>)" "nd_address n' = nd_address n"
    using assms(1,2) by (auto simp: node_is_def)
qed

lemma node_is_raw:
  assumes "node_is W n an"
  obtains F where "W (nd_address n) = Some (nd_overflows n, F)" "node_page_size n = pg" "version_page_size (nd_version n) = pg"
  using assms by (auto simp: node_is_def live_def node_page_size_def)

lemma node_isD: "node_is W n an \<Longrightarrow> live W n (an_entries an)"
  by (simp add: node_is_def)

lemma node_is_length: "node_is W n an \<Longrightarrow> length (nd_entries n) = length (an_entries an)"
  by (auto simp: node_is_def dest: live_length)

lemma tree_search:
  assumes "nodes a h W r" "node_is W n an" "sorted_wrt (<) (map fst (an_entries an))"
  shows "ok (node_search K M n key (al_memory a)) (\<lambda>(res, n', s). nodes (a\<lparr>al_memory := s\<rparr>) h W r \<and> node_is W n' an \<and>
    nd_address n' = nd_address n \<and> found_at (map fst (an_entries an)) key res)"
  using search_ok[OF nodesD(3)[OF assms(1)] node_isD[OF assms(2)] assms(3)]
  by (rule ok_mono) (auto intro: nodes_upd[OF assms(1)] node_is_more[OF assms(2)] dest: node_moreD(1))

lemma tree_swap_value:
  assumes "nodes a h W r" "node_is W n an" "i < length (an_entries an)"
  shows "ok (swap_value M n i v (al_memory a)) (\<lambda>(old, n', s). old = snd (an_entries an ! i) \<and> nodes (a\<lparr>al_memory := s\<rparr>) h W r \<and>
    node_is W n' (an\<lparr>an_entries := (an_entries an)[i := (fst (an_entries an ! i), v)]\<rparr>) \<and> nd_address n' = nd_address n)"
  using swap_value_ok[OF nodesD(3)[OF assms(1)] node_isD[OF assms(2)] assms(3)]
  by (rule ok_mono) (auto intro: nodes_upd[OF assms(1)] node_is_entries[OF assms(2)] dest: node_moreD(1))

lemma tree_swap_entry:
  assumes "nodes a h W r" "node_is W n an" "i < length (an_entries an)"
  shows "ok (swap_entry K M n i e (al_memory a)) (\<lambda>(old, n', s). old = an_entries an ! i \<and> nodes (a\<lparr>al_memory := s\<rparr>) h W r \<and>
    node_is W n' (an\<lparr>an_entries := (an_entries an)[i := e]\<rparr>) \<and> nd_address n' = nd_address n)"
  using swap_entry_ok[OF nodesD(3)[OF assms(1)] node_isD[OF assms(2)] assms(3)]
  by (rule ok_mono) (auto intro: nodes_upd[OF assms(1)] node_is_entries[OF assms(2)] dest: node_moreD(1))

lemma tree_remove_entry:
  assumes "nodes a h W r" "node_is W n an" "i < length (an_entries an)"
  shows "ok (remove_entry K M n i (al_memory a)) (\<lambda>(e, n', s). e = an_entries an ! i \<and> nodes (a\<lparr>al_memory := s\<rparr>) h W r \<and>
    node_is W n' (an\<lparr>an_entries := take i (an_entries an) @ drop (Suc i) (an_entries an)\<rparr>) \<and> nd_address n' = nd_address n)"
  using remove_entry_ok[OF nodesD(3)[OF assms(1)] node_isD[OF assms(2)] assms(3)]
  by (rule ok_mono) (auto intro: nodes_upd[OF assms(1)] node_is_entries[OF assms(2)] dest: node_moreD(1))

lemma tree_extract_entry_at:
  assumes "nodes a h W r" "node_is W n an" "i < length (an_entries an)"
  shows "ok (extract_entry_at K M n i (al_memory a)) (\<lambda>(e, n', s). e = an_entries an ! i \<and> nodes (a\<lparr>al_memory := s\<rparr>) h W r)"
  using extract_entry_at_ok[OF nodesD(3)[OF assms(1)] node_isD[OF assms(2)] assms(3)]
  by (rule ok_mono) (auto intro: nodes_upd[OF assms(1)])

lemma tree_pop_entry:
  assumes "nodes a h W r" "node_is W n an" "an_entries an \<noteq> []"
  shows "ok (pop_entry K M n (al_memory a)) (\<lambda>(e, n', s). e = Some (last (an_entries an)) \<and> nodes (a\<lparr>al_memory := s\<rparr>) h W r \<and>
    node_is W n' (an\<lparr>an_entries := butlast (an_entries an)\<rparr>) \<and> nd_address n' = nd_address n)"
  using pop_entry_ok[OF nodesD(3)[OF assms(1)] node_isD[OF assms(2)]]
  by (rule ok_mono) (use assms(3) in \<open>auto intro: nodes_upd[OF assms(1)] node_is_entries(1)[OF assms(2)]\<close>)

lemma tree_insert_entry:
  assumes "node_is W n an" "i \<le> length (an_entries an)"
  shows "ok (insert_entry n i e) (\<lambda>n'. node_is W n' (an\<lparr>an_entries := take i (an_entries an) @ e # drop i (an_entries an)\<rparr>) \<and>
    nd_address n' = nd_address n)"
  using insert_entry_ok[OF node_isD[OF assms(1)] assms(2)]
  by (rule ok_mono) (auto intro: node_is_entries[OF assms(1)])

lemma tree_push_entry:
  assumes "node_is W n an"
  shows "node_is W (push_entry n e) (an\<lparr>an_entries := an_entries an @ [e]\<rparr>)" "nd_address (push_entry n e) = nd_address n"
  using push_entry_ok[of W n "an_entries an" e] assms by (auto simp: node_is_def push_entry_def)

lemma tree_children:
  assumes "node_is W n an"
  shows "node_is W (n\<lparr>nd_children := cs\<rparr>) (an\<lparr>an_children := cs\<rparr>)"
  using assms by (simp add: node_is_def)

text \<open>Splitting a full node into the freshly allocated node \<open>sib\<close>.\<close>

lemma tree_split:
  assumes hp: "nodes a h W r" and n: "node_is W n an" "good an" "length (an_entries an) = 11"
    and sib: "node_is W sib \<lparr>an_type = an_type an, an_entries = [], an_children = []\<rparr>"
  shows "ok (node_split K M n sib (al_memory a)) (\<lambda>(e, n', sib', s). e = an_entries an ! 5 \<and> nodes (a\<lparr>al_memory := s\<rparr>) h W r \<and>
    nd_address n' = nd_address n \<and> nd_address sib' = nd_address sib \<and>
    node_is W n' (an\<lparr>an_entries := take 5 (an_entries an), an_children := take 6 (an_children an)\<rparr>) \<and>
    node_is W sib' (an\<lparr>an_entries := drop 6 (an_entries an), an_children := drop 6 (an_children an)\<rparr>))"
proof -
  let ?es = "an_entries an"
  have l: "live W n ?es" and f: "nd_node_type n = an_type an" "nd_children n = an_children an"
    "\<And>mk mv. nd_version n = V1 mk mv \<Longrightarrow> nd_overflows n = []"
    using n(1) by (simp_all add: node_is_def)
  obtain G where G: "W (nd_address sib) = Some (nd_overflows sib, G)" "node_page_size sib = pg"
    by (rule node_is_raw[OF sib])
  have fs: "nd_node_type sib = an_type an" "nd_children sib = []" "\<And>mk mv. nd_version sib = V1 mk mv \<Longrightarrow> nd_overflows sib = []"
    using sib by (simp_all add: node_is_def)
  have ch: "length (an_children an) = (case an_type an of Leaf \<Rightarrow> 0 | Internal \<Rightarrow> 12)"
    using n(2,3) by (auto simp: good_def split: node_type.splits)
  then have "nd_node_type n = Internal \<longrightarrow> BTREE_B \<le> length (nd_children n)"
    by (auto simp: f BTREE_B_def)
  then have "ok (node_split K M n sib (al_memory a)) (\<lambda>(e, n', sib', s). e = ?es ! 5 \<and>
      heap (a\<lparr>al_memory := s\<rparr>) h W (r + r * most + spare W) \<and> live W n' (take 5 ?es) \<and> live W sib' (drop 6 ?es) \<and>
      n' = n\<lparr>nd_entries := nd_entries n', nd_children := take 6 (an_children an)\<rparr> \<and>
      sib' = sib\<lparr>nd_entries := nd_entries sib', nd_children := drop 6 (an_children an)\<rparr>)"
    using split_ok[OF nodesD(3)[OF hp] l _ G] n(3) f(1,2) fs(2) ch by (cases "an_type an") (simp_all add: CAPACITY_def)
  moreover have "node_is W sib (an\<lparr>an_entries := [], an_children := []\<rparr>)"
    using sib by (cases an) simp
  ultimately show ?thesis
    by (elim ok_mono) (auto intro: nodes_upd[OF hp] node_is_parts[OF n(1)] node_is_parts[of W sib "an\<lparr>an_entries := [], an_children := []\<rparr>", simplified])
qed

lemma tree_append:
  assumes hp: "nodes a h W r" and x: "live W x ex" and y: "live W y ey" and ty: "nd_node_type x = nd_node_type y"
    and ne: "ex \<noteq> []" "ey \<noteq> []" and med: "fst (last ex) < fst e" "fst e < fst (hd ey)"
  shows "ok (node_append K M x y e (al_memory a)) (\<lambda>(x', y', s). nodes (a\<lparr>al_memory := s\<rparr>) h W r \<and>
    (\<exists>x1 y1. live W x1 ex \<and> node_more x x1 \<and> live W y1 ey \<and> node_more y y1 \<and>
      x' = x1\<lparr>nd_entries := nd_entries x1 @ lazy_pair e # nd_entries y1, nd_children := nd_children x @ nd_children y\<rparr> \<and>
      y' = y1\<lparr>nd_entries := [], nd_children := []\<rparr>))"
  by (rule ok_mono[OF append_ok[OF nodesD(3)[OF hp] x y ty ne med]]) (auto intro: nodes_upd[OF hp])

text \<open>
  Merging the node \<open>source\<close> into \<open>n\<close>. Whichever of the two has the smaller keys, \<open>n\<close> keeps its page and gets
  all entries; the entries of \<open>source\<close> have been loaded before they move.
\<close>

lemma merge_entries:
  assumes n: "live W n en" and b: "live W b eb" "\<forall>e \<in> set (nd_entries b). entry_loaded e"
  shows "live W (n\<lparr>nd_entries := nd_entries n @ lazy_pair e # nd_entries b, nd_children := cs\<rparr>) (en @ e # eb)"
    "live W (n\<lparr>nd_entries := nd_entries b @ lazy_pair e # nd_entries n, nd_children := cs\<rparr>) (eb @ e # en)"
proof -
  obtain F where F: "W (nd_address n) = Some (nd_overflows n, F)" "node_page_size n = pg" "node_rep K F n en"
    by (rule liveD[OF n])
  obtain G where "node_rep K G b eb"
    by (rule liveD[OF b(1)])
  then have "list_all2 (entry_rep K (nd_version n) F) (nd_entries b) eb"
    using b(2) by (auto simp: node_rep_def intro: loaded_part)
  moreover have "list_all2 (entry_rep K (nd_version n) F) (nd_entries n) en"
    using F(3) by (simp add: node_rep_def)
  ultimately have "list_all2 (entry_rep K (nd_version n) F) (nd_entries n @ lazy_pair e # nd_entries b) (en @ e # eb)"
    "list_all2 (entry_rep K (nd_version n) F) (nd_entries b @ lazy_pair e # nd_entries n) (eb @ e # en)"
    by (auto intro!: list_all2_appendI)
  then show "live W (n\<lparr>nd_entries := nd_entries n @ lazy_pair e # nd_entries b, nd_children := cs\<rparr>) (en @ e # eb)"
    "live W (n\<lparr>nd_entries := nd_entries b @ lazy_pair e # nd_entries n, nd_children := cs\<rparr>) (eb @ e # en)"
    using live_entries[OF n _ F(1)] by simp_all
qed

definition merged :: "bool \<Rightarrow> 'k anode \<Rightarrow> 'k entry \<Rightarrow> 'k anode \<Rightarrow> 'k anode" where
  "merged right an e bn = (if right then an\<lparr>an_entries := an_entries an @ e # an_entries bn, an_children := an_children an @ an_children bn\<rparr>
     else an\<lparr>an_entries := an_entries bn @ e # an_entries an, an_children := an_children bn @ an_children an\<rparr>)"

lemma merged_hd:
  assumes "good an" "good bn" "good (merged right an e bn)"
  shows "(fst (hd (an_entries bn)) > fst (hd (an_entries an))) = right"
    "right \<Longrightarrow> fst (last (an_entries an)) < fst e \<and> fst e < fst (hd (an_entries bn))"
    "\<not> right \<Longrightarrow> fst (last (an_entries bn)) < fst e \<and> fst e < fst (hd (an_entries an))"
  using assms by (cases right; force simp: good_def merged_def sorted_wrt_append neq_Nil_conv)+

lemma merge_ok:
  assumes hp: "nodes a h W r" and n: "node_is W n an" "good an" and b: "node_is W b bn" "good bn" and ty: "an_type an = an_type bn"
    and g: "good (merged right an e bn)" and ne: "nd_address n \<noteq> nd_address b"
  shows "ok (node_merge K M n b e a) (\<lambda>(n', a'). \<exists>raw. nodes a' h (W(nd_address b := None, nd_address n \<mapsto> raw)) (Suc r) \<and>
    nd_address n' = nd_address n \<and> stored (W(nd_address b := None, nd_address n \<mapsto> raw)) (nd_address n) (merged right an e bn) \<and>
    node_is (W(nd_address b := None, nd_address n \<mapsto> raw)) n' (merged right an e bn))"
proof -
  let ?en = "an_entries an" and ?eb = "an_entries bn" and ?R = "\<lambda>s. nodes (a\<lparr>al_memory := s\<rparr>) h W r"
  note heapD = nodesD(3) and up = nodes_upd[OF hp]
  have pos: "0 < length ?en" "0 < length ?eb" "?en \<noteq> []" "?eb \<noteq> []"
    using n(2) b(2) by (simp_all add: good_def)
  from load_entries_ok[OF heapD[OF hp] node_isD[OF b(1)], of "[0..<length ?eb]"] obtain b1 s1 where
    1: "load_entries K M [0..<length ?eb] b (al_memory a) = Some (b1, s1)" "?R s1" "live W b1 ?eb" "node_more b b1"
      "\<forall>i < length ?eb. entry_loaded (nd_entries b1 ! i)"
    by (auto dest: up elim!: ok_obtain)
  from node_key_ok[OF heapD[OF 1(2)] 1(3) pos(2)] obtain b2 s2 where
    2: "node_key K M b1 0 s1 = Some (fst (hd ?eb), b2, s2)" "?R s2" "live W b2 ?eb" "node_more b1 b2"
    using pos by (auto simp: hd_conv_nth dest: up elim!: ok_obtain)
  from node_key_ok[OF heapD[OF 2(2)] node_isD[OF n(1)] pos(1)] obtain n3 s3 where
    3: "node_key K M n 0 s2 = Some (fst (hd ?en), n3, s3)" "?R s3" "live W n3 ?en" "node_more n n3"
    using pos by (auto simp: hd_conv_nth dest: up elim!: ok_obtain)
  have mb: "node_more b b2"
    by (rule node_more_trans[OF 1(4) 2(4)])
  have lb: "\<forall>e \<in> set (nd_entries b'). entry_loaded e" if "node_more b2 b'" for b'
    using 1(5) node_moreD(6,7)[OF 2(4)] node_moreD(6,7)[OF that] live_length[OF 1(3)] by (auto simp: set_conv_nth)
  have ty3: "nd_node_type n3 = nd_node_type b2" and ch: "nd_children n3 = an_children an" "nd_children b2 = an_children bn"
    using ty node_moreD[OF mb] node_moreD[OF 3(4)] n(1) b(1) by (simp_all add: node_is_def)
  have "ok (if fst (hd ?eb) > fst (hd ?en) then node_append K M n3 b2 e s3
        else do {
          (source, n, s) \<leftarrow> node_append K M b2 n3 e s3;
          let n = n\<lparr>nd_entries := nd_entries source, nd_children := nd_children source\<rparr>;
          let source = source\<lparr>nd_entries := [], nd_children := []\<rparr>;
          Some (n, source, s) }) (\<lambda>(n', b', s). ?R s \<and> node_is W n' (merged right an e bn) \<and> nd_address n' = nd_address n \<and>
            nd_address b' = nd_address b \<and> nd_overflows b' = nd_overflows b)"
  proof (cases right)
    case True
    note m = merged_hd[OF n(2) b(2) g]
    from tree_append[OF 3(2,3) 2(3) ty3 pos(3,4) m(2)[OF True, THEN conjunct1] m(2)[OF True, THEN conjunct2]] obtain n4 b4 s4 where
      4: "node_append K M n3 b2 e s3 = Some (n4\<lparr>nd_entries := nd_entries n4 @ lazy_pair e # nd_entries b4, nd_children := an_children an @ an_children bn\<rparr>,
          b4\<lparr>nd_entries := [], nd_children := []\<rparr>, s4)" "?R s4" "live W n4 ?en" "node_more n3 n4" "live W b4 ?eb" "node_more b2 b4"
      by (auto simp: ch elim!: ok_obtain)
    have "node_is W n4 an"
      by (rule node_is_more[OF n(1) 4(3) node_more_trans[OF 3(4) 4(4)]])
    then have "node_is W (n4\<lparr>nd_entries := nd_entries n4 @ lazy_pair e # nd_entries b4, nd_children := an_children an @ an_children bn\<rparr>) (merged right an e bn)"
      unfolding merged_def if_P[OF True] by (rule node_is_parts(1)[OF _ merge_entries(1)[OF 4(3,5) lb[OF 4(6)]]]) simp
    then show ?thesis
      using 4(1,2) m(1) True node_moreD[OF node_more_trans[OF 3(4) 4(4)]] node_moreD[OF node_more_trans[OF mb 4(6)]] by simp
  next
    case False
    note m = merged_hd[OF n(2) b(2) g]
    from tree_append[OF 3(2) 2(3) 3(3) ty3[symmetric] pos(4,3) m(3)[OF False, THEN conjunct1] m(3)[OF False, THEN conjunct2]] obtain n4 b4 s4 where
      4: "node_append K M b2 n3 e s3 = Some (b4\<lparr>nd_entries := nd_entries b4 @ lazy_pair e # nd_entries n4, nd_children := an_children bn @ an_children an\<rparr>,
          n4\<lparr>nd_entries := [], nd_children := []\<rparr>, s4)" "?R s4" "live W n4 ?en" "node_more n3 n4" "live W b4 ?eb" "node_more b2 b4"
      by (auto simp: ch elim!: ok_obtain)
    have "node_is W n4 an"
      by (rule node_is_more[OF n(1) 4(3) node_more_trans[OF 3(4) 4(4)]])
    then have "node_is W (n4\<lparr>nd_entries := nd_entries b4 @ lazy_pair e # nd_entries n4, nd_children := an_children bn @ an_children an\<rparr>) (merged right an e bn)"
      unfolding merged_def if_not_P[OF False] by (rule node_is_parts(1)[OF _ merge_entries(2)[OF 4(3,5) lb[OF 4(6)]]]) simp
    then show ?thesis
      using 4(1,2) m(1) False node_moreD[OF node_more_trans[OF 3(4) 4(4)]] node_moreD[OF node_more_trans[OF mb 4(6)]] by simp
  qed
  then obtain n' b' s4 where 4: "(if fst (hd ?eb) > fst (hd ?en) then node_append K M n3 b2 e s3
        else do {
          (source, n, s) \<leftarrow> node_append K M b2 n3 e s3;
          let n = n\<lparr>nd_entries := nd_entries source, nd_children := nd_children source\<rparr>;
          let source = source\<lparr>nd_entries := [], nd_children := []\<rparr>;
          Some (n, source, s) }) = Some (n', b', s4)"
      "?R s4" "node_is W n' (merged right an e bn)" "nd_address n' = nd_address n" "nd_address b' = nd_address b" "nd_overflows b' = nd_overflows b"
    by (elim ok_obtain) blast
  obtain F where F: "W (nd_address b) = Some (nd_overflows b, F)"
    by (rule node_is_raw[OF b(1)])
  from node_save_ok[OF 4(2,3) g] obtain n5 a5 raw where 5: "node_save K M n' (a\<lparr>al_memory := s4\<rparr>) = Some (n5, a5)"
    "nodes a5 h (W(nd_address n \<mapsto> raw)) r" "stored (W(nd_address n \<mapsto> raw)) (nd_address n) (merged right an e bn)"
    "node_is (W(nd_address n \<mapsto> raw)) n5 (merged right an e bn)" "nd_address n5 = nd_address n"
    unfolding 4(4) by (elim ok_obtain) blast
  let ?W = "W(nd_address b := None, nd_address n \<mapsto> raw)"
  have Weq: "(W(nd_address n \<mapsto> raw))(nd_address b := None) = ?W"
    using ne by (rule fun_upd_twist)
  from node_dealloc_ok[OF 5(2), of b' F] F ne 4(5,6) obtain a6 where 6: "node_deallocate M b' a5 = Some a6" "nodes a6 h ?W (Suc r)"
    unfolding Weq[symmetric] by (auto simp del: fun_upd_apply simp: fun_upd_other elim!: ok_obtain)
  have "stored ?W (nd_address n) (merged right an e bn)" "node_is ?W n5 (merged right an e bn)"
    using stored_cong[of ?W "nd_address n" "W(nd_address n \<mapsto> raw)"] node_is_cong[of ?W n5 "W(nd_address n \<mapsto> raw)"] 5 by simp_all
  moreover have "node_merge K M n b e a = Some (n5, a6)"
    unfolding node_merge_def entries_len_def node_is_length[OF b(1)] 1(1) 2(1) 3(1) bind.bind_lunit case_prod_conv 4(1) 5(1) 6(1) ..
  ultimately show ?thesis
    using 5(5) 6(2) by (auto simp del: split_paired_Ex)
qed

end

end
