(* ===== verification/BTree_Map.thy ===== *)
theory BTree_Map
  imports Node_Store
begin

text \<open>
  The B-tree map (\<open>src/src/btreemap.rs\<close>): its header, creation, loading and migration, insertion with the
  splitting of full children on the way down, look-up, and removal with the rotations and merges that
  keep the nodes filled. The recursive operations are partial functions in the option monad, so that a
  panic and a run that does not end are both \<open>None\<close>; that they return is part of what is proved.
\<close>

definition BTREE_MAGIC :: bytes where "BTREE_MAGIC = [66, 84, 82]"
definition BTREE_LAYOUT_VERSION :: nat where "BTREE_LAYOUT_VERSION = 1"
definition BTREE_LAYOUT_VERSION_2 :: nat where "BTREE_LAYOUT_VERSION_2 = 2"
definition PACKED_HEADER_SIZE :: nat where "PACKED_HEADER_SIZE = 28"
definition ALLOCATOR_OFFSET :: address where "ALLOCATOR_OFFSET = 52"
definition DEFAULT_PAGE_SIZE :: nat where "DEFAULT_PAGE_SIZE = 1024"
definition PAGE_SIZE_VALUE_MARKER :: nat where "PAGE_SIZE_VALUE_MARKER = U32_MAX"

record 's btree_map =
  bt_root_addr :: address
  bt_version :: version
  bt_allocator :: "'s allocator"
  bt_length :: nat

record btree_header =
  bh_version :: version
  bh_root_addr :: address
  bh_length :: nat

definition bt_memory :: "'s btree_map \<Rightarrow> 's" where
  "bt_memory m = al_memory (bt_allocator m)"

definition bt_with_memory :: "'s btree_map \<Rightarrow> 's \<Rightarrow> 's btree_map" where
  "bt_with_memory m s = m\<lparr>bt_allocator := bt_allocator m\<lparr>al_memory := s\<rparr>\<rparr>"

section \<open>The header\<close>

definition encode_btree_header :: "btree_header \<Rightarrow> bytes" where
  "encode_btree_header h = BTREE_MAGIC @
     (case bh_version h of
        V1 max_key_size max_value_size \<Rightarrow>
          to_le_bytes 1 BTREE_LAYOUT_VERSION @ to_le_bytes 4 max_key_size @ to_le_bytes 4 max_value_size
      | V2 (Derived max_key_size max_value_size) \<Rightarrow>
          to_le_bytes 1 BTREE_LAYOUT_VERSION @ to_le_bytes 4 max_key_size @ to_le_bytes 4 max_value_size
      | V2 (PageValue page_size) \<Rightarrow>
          to_le_bytes 1 BTREE_LAYOUT_VERSION_2 @ to_le_bytes 4 page_size @ to_le_bytes 4 PAGE_SIZE_VALUE_MARKER) @
     to_le_bytes 8 (bh_root_addr h) @ to_le_bytes 8 (bh_length h)"

definition write_header :: "'s memory_ops \<Rightarrow> btree_header \<Rightarrow> 's \<Rightarrow> 's option" where
  "write_header M header s = write_grow M s 0 (encode_btree_header header)"

definition save_header :: "'s memory_ops \<Rightarrow> 's btree_map \<Rightarrow> 's btree_map option" where
  "save_header M m = do {
     let header = \<lparr>bh_version = bt_version m, bh_root_addr = bt_root_addr m, bh_length = bt_length m\<rparr>;
     s \<leftarrow> write_header M header (bt_memory m);
     Some (bt_with_memory m s) }"

definition decode_btree_header :: "bytes \<Rightarrow> btree_header option" where
  "decode_btree_header buf = do {
     assert_that (subrange buf 0 3 = BTREE_MAGIC);
     let a = from_le_bytes (subrange buf 4 4);
     let b = from_le_bytes (subrange buf 8 4);
     let root_addr = from_le_bytes (subrange buf 12 8);
     let length = from_le_bytes (subrange buf 20 8);
     let layout = from_le_bytes (subrange buf 3 1);
     if layout = BTREE_LAYOUT_VERSION then
       Some \<lparr>bh_version = V1 a b, bh_root_addr = root_addr, bh_length = length\<rparr>
     else if layout = BTREE_LAYOUT_VERSION_2 then
       Some \<lparr>bh_version = V2 (if b = PAGE_SIZE_VALUE_MARKER then PageValue a else Derived a b),
         bh_root_addr = root_addr, bh_length = length\<rparr>
     else None }"

definition read_header :: "'s memory_ops \<Rightarrow> 's \<Rightarrow> (btree_header \<times> 's) option" where
  "read_header M s = do {
     (buf, s) \<leftarrow> read_op M s 0 PACKED_HEADER_SIZE;
     header \<leftarrow> decode_btree_header buf;
     Some (header, s) }"

section \<open>Creation and loading\<close>

definition new_page_size :: "'k storable \<Rightarrow> 'v storable \<Rightarrow> page_size option" where
  "new_page_size K V = (case (BOUND K, BOUND V) of
       (Bounded max_key_size _, Bounded max_value_size _) \<Rightarrow> do {
         max_node_size \<leftarrow> size_v1 max_key_size max_value_size;
         x \<leftarrow> u64_mul max_node_size 3;
         Some (PageValue (as_u32 (x div 4))) }
     | _ \<Rightarrow> Some (PageValue DEFAULT_PAGE_SIZE))"

definition btree_new :: "'k storable \<Rightarrow> 'v storable \<Rightarrow> 's memory_ops \<Rightarrow> 's \<Rightarrow> 's btree_map option" where
  "btree_new K V M s = do {
     page_size \<leftarrow> new_page_size K V;
     p \<leftarrow> page_size_get page_size;
     allocator \<leftarrow> allocator_new M s ALLOCATOR_OFFSET p;
     save_header M \<lparr>bt_root_addr = NULL, bt_version = V2 page_size, bt_allocator = allocator, bt_length = 0\<rparr> }"

definition btree_new_v1 :: "'k storable \<Rightarrow> 'v storable \<Rightarrow> 's memory_ops \<Rightarrow> 's \<Rightarrow> 's btree_map option" where
  "btree_new_v1 K V M s = do {
     max_key_size \<leftarrow> bound_max_size (BOUND K);
     max_value_size \<leftarrow> bound_max_size (BOUND V);
     p \<leftarrow> size_v1 max_key_size max_value_size;
     allocator \<leftarrow> allocator_new M s ALLOCATOR_OFFSET p;
     save_header M \<lparr>bt_root_addr = NULL, bt_version = V1 max_key_size max_value_size, bt_allocator = allocator,
       bt_length = 0\<rparr> }"

definition load_helper :: "'k storable \<Rightarrow> 'v storable \<Rightarrow> 's memory_ops \<Rightarrow> bool \<Rightarrow> 's \<Rightarrow> 's btree_map option" where
  "load_helper K V M migrate_to_v2 s = do {
     (header, s) \<leftarrow> read_header M s;
     version \<leftarrow> (case bh_version header of
         V1 max_key_size max_value_size \<Rightarrow>
           if migrate_to_v2 then Some (V2 (Derived max_key_size max_value_size))
           else do {
             mk \<leftarrow> bound_max_size (BOUND K);
             assert_that (mk \<le> max_key_size);
             mv \<leftarrow> bound_max_size (BOUND V);
             assert_that (mv \<le> max_value_size);
             Some (V1 max_key_size max_value_size) }
       | other \<Rightarrow> Some other);
     allocator \<leftarrow> allocator_load M s ALLOCATOR_OFFSET;
     Some \<lparr>bt_root_addr = bh_root_addr header, bt_version = version, bt_allocator = allocator, bt_length = bh_length header\<rparr> }"

definition btree_load :: "'k storable \<Rightarrow> 'v storable \<Rightarrow> 's memory_ops \<Rightarrow> 's \<Rightarrow> 's btree_map option" where
  "btree_load K V M s = load_helper K V M True s"

definition btree_init :: "'k storable \<Rightarrow> 'v storable \<Rightarrow> 's memory_ops \<Rightarrow> 's \<Rightarrow> 's btree_map option" where
  "btree_init K V M s =
     do {
        pages \<leftarrow> size_op M s;
        if pages = 0 then btree_new K V M s
        else do {
          (dst, s) \<leftarrow> read_op M s 0 3;
          if dst \<noteq> BTREE_MAGIC then btree_new K V M s else btree_load K V M s } }"

definition btree_init_v1 :: "'k storable \<Rightarrow> 'v storable \<Rightarrow> 's memory_ops \<Rightarrow> 's \<Rightarrow> 's btree_map option" where
  "btree_init_v1 K V M s =
     do {
        pages \<leftarrow> size_op M s;
        if pages = 0 then btree_new_v1 K V M s
        else do {
          (dst, s) \<leftarrow> read_op M s 0 3;
          if dst \<noteq> BTREE_MAGIC then btree_new_v1 K V M s else load_helper K V M False s } }"

section \<open>Nodes of the map\<close>

definition allocate_node :: "'s memory_ops \<Rightarrow> 's btree_map \<Rightarrow> node_type \<Rightarrow> ('k node \<times> 's btree_map) option" where
  "allocate_node M m node_type = do {
     (address, allocator) \<leftarrow> allocate M (bt_allocator m);
     node \<leftarrow> (case bt_version m of
         V1 max_key_size max_value_size \<Rightarrow> Some (new_v1 address node_type max_key_size max_value_size)
       | V2 page_size \<Rightarrow> new_v2 address node_type page_size);
     Some (node, m\<lparr>bt_allocator := allocator\<rparr>) }"

definition deallocate_node :: "'s memory_ops \<Rightarrow> 's btree_map \<Rightarrow> 'k node \<Rightarrow> 's btree_map option" where
  "deallocate_node M m node = do {
     allocator \<leftarrow> node_deallocate M node (bt_allocator m);
     Some (m\<lparr>bt_allocator := allocator\<rparr>) }"

definition load_node :: "'k storable \<Rightarrow> 's memory_ops \<Rightarrow> 's btree_map \<Rightarrow> address \<Rightarrow> ('k node \<times> 's btree_map) option" where
  "load_node K M m address = do {
     (node, s) \<leftarrow> node_load K M address (version_page_size (bt_version m)) (bt_memory m);
     Some (node, bt_with_memory m s) }"

definition save_node :: "'k::linorder storable \<Rightarrow> 's memory_ops \<Rightarrow> 's btree_map \<Rightarrow> 'k node \<Rightarrow> ('k node \<times> 's btree_map) option" where
  "save_node K M m node = do {
     (node, allocator) \<leftarrow> node_save K M node (bt_allocator m);
     Some (node, m\<lparr>bt_allocator := allocator\<rparr>) }"

definition update_value ::
  "'k::linorder storable \<Rightarrow> 's memory_ops \<Rightarrow> 's btree_map \<Rightarrow> 'k node \<Rightarrow> nat \<Rightarrow> bytes \<Rightarrow> (bytes \<times> 's btree_map) option" where
  "update_value K M m node idx new_value = do {
     (old_value, node, s) \<leftarrow> swap_value M node idx new_value (bt_memory m);
     (node, m) \<leftarrow> save_node K M (bt_with_memory m s) node;
     Some (old_value, m) }"

definition btree_merge ::
  "'k::linorder storable \<Rightarrow> 's memory_ops \<Rightarrow> 's btree_map \<Rightarrow> 'k node \<Rightarrow> 'k node \<Rightarrow> 'k entry \<Rightarrow> ('k node \<times> 's btree_map) option" where
  "btree_merge K M m source into median = do {
     (into, allocator) \<leftarrow> node_merge K M into source median (bt_allocator m);
     Some (into, m\<lparr>bt_allocator := allocator\<rparr>) }"

text \<open>A search in a node of the map.\<close>

definition search_node ::
  "'k::linorder storable \<Rightarrow> 's memory_ops \<Rightarrow> 's btree_map \<Rightarrow> 'k node \<Rightarrow> 'k \<Rightarrow> ((nat + nat) \<times> 'k node \<times> 's btree_map) option" where
  "search_node K M m node key = do {
     (res, node, s) \<leftarrow> node_search K M node key (bt_memory m);
     Some (res, node, bt_with_memory m s) }"

section \<open>Insertion\<close>

definition split_child ::
  "'k::linorder storable \<Rightarrow> 's memory_ops \<Rightarrow> 's btree_map \<Rightarrow> 'k node \<Rightarrow> nat \<Rightarrow> ('k node \<times> 's btree_map) option" where
  "split_child K M m node full_child_idx = do {
     assert_that (\<not> is_full node);
     c \<leftarrow> node_child node full_child_idx;
     (full_child, m) \<leftarrow> load_node K M m c;
     assert_that (is_full full_child);
     (sibling, m) \<leftarrow> allocate_node M m (nd_node_type full_child);
     assert_that (nd_node_type sibling = nd_node_type full_child);
     node \<leftarrow> insert_child node (full_child_idx + 1) (nd_address sibling);
     (median, full_child, sibling, s) \<leftarrow> node_split K M full_child sibling (bt_memory m);
     let m = bt_with_memory m s;
     node \<leftarrow> insert_entry node full_child_idx median;
     (sibling, m) \<leftarrow> save_node K M m sibling;
     (full_child, m) \<leftarrow> save_node K M m full_child;
     (node, m) \<leftarrow> save_node K M m node;
     Some (node, m) }"

partial_function (option) insert_nonfull ::
  "'k::linorder storable \<Rightarrow> 's memory_ops \<Rightarrow> 's btree_map \<Rightarrow> 'k node \<Rightarrow> 'k \<Rightarrow> bytes \<Rightarrow> (bytes option \<times> 's btree_map) option" where
  "insert_nonfull K M m node key value = do {
     assert_that (\<not> is_full node);
     (res, node, m) \<leftarrow> search_node K M m node key;
     case res of
       Inr idx \<Rightarrow> do {
         (old, m) \<leftarrow> update_value K M m node idx value;
         Some (Some old, m) }
     | Inl idx \<Rightarrow> (case nd_node_type node of
         Leaf \<Rightarrow> do {
           node \<leftarrow> insert_entry node idx (key, value);
           (node, m) \<leftarrow> save_node K M m node;
           length \<leftarrow> u64_add (bt_length m) 1;
           m \<leftarrow> save_header M (m\<lparr>bt_length := length\<rparr>);
           Some (None, m) }
       | Internal \<Rightarrow> do {
           c \<leftarrow> node_child node idx;
           (child, m) \<leftarrow> load_node K M m c;
           if is_full child then do {
             (res, child, m) \<leftarrow> search_node K M m child key;
             case res of
               Inr idx \<Rightarrow> do {
                 (old, m) \<leftarrow> update_value K M m child idx value;
                 Some (Some old, m) }
             | Inl _ \<Rightarrow> do {
                 (node, m) \<leftarrow> split_child K M m node idx;
                 (res, node, m) \<leftarrow> search_node K M m node key;
                 c \<leftarrow> node_child node (case res of Inr idx \<Rightarrow> idx | Inl idx \<Rightarrow> idx);
                 (child, m) \<leftarrow> load_node K M m c;
                 assert_that (\<not> is_full child);
                 insert_nonfull K M m child key value } }
           else do {
             assert_that (\<not> is_full child);
             insert_nonfull K M m child key value } }) }"

definition from_stored :: "'v storable \<Rightarrow> bytes option \<Rightarrow> 'v option option" where
  "from_stored V b = (case b of None \<Rightarrow> Some None | Some bs \<Rightarrow> do { v \<leftarrow> from_bytes V bs; Some (Some v) })"

definition btree_insert ::
  "'k::linorder storable \<Rightarrow> 'v storable \<Rightarrow> 's memory_ops \<Rightarrow> 's btree_map \<Rightarrow> 'k \<Rightarrow> 'v \<Rightarrow> ('v option \<times> 's btree_map) option" where
  "btree_insert K V M m key value = do {
     value \<leftarrow> to_bytes_checked V value;
     (old, m) \<leftarrow>
       (if bt_root_addr m = NULL then do {
          (node, m) \<leftarrow> allocate_node M m Leaf;
          m \<leftarrow> save_header M (m\<lparr>bt_root_addr := nd_address node\<rparr>);
          insert_nonfull K M m node key value }
        else do {
          (root, m) \<leftarrow> load_node K M m (bt_root_addr m);
          (res, root, m) \<leftarrow> search_node K M m root key;
          case res of
            Inr idx \<Rightarrow> do {
              (old, m) \<leftarrow> update_value K M m root idx value;
              Some (Some old, m) }
          | Inl _ \<Rightarrow>
              if is_full root then do {
                (new_root, m) \<leftarrow> allocate_node M m Internal;
                let new_root = push_child new_root (bt_root_addr m);
                m \<leftarrow> save_header M (m\<lparr>bt_root_addr := nd_address new_root\<rparr>);
                (new_root, m) \<leftarrow> split_child K M m new_root 0;
                insert_nonfull K M m new_root key value }
              else insert_nonfull K M m root key value });
     old \<leftarrow> from_stored V old;
     Some (old, m) }"

section \<open>Look-up\<close>

partial_function (option) traverse ::
  "'k::linorder storable \<Rightarrow> 's memory_ops \<Rightarrow> 's btree_map \<Rightarrow> address \<Rightarrow> 'k \<Rightarrow>
   ('k node \<Rightarrow> nat \<Rightarrow> 's \<Rightarrow> ('r \<times> 's) option) \<Rightarrow> ('r option \<times> 's btree_map) option" where
  "traverse K M m node_addr key f = do {
     (node, m) \<leftarrow> load_node K M m node_addr;
     (res, node, m) \<leftarrow> search_node K M m node key;
     case res of
       Inr idx \<Rightarrow> do {
         (r, s) \<leftarrow> f node idx (bt_memory m);
         Some (Some r, bt_with_memory m s) }
     | Inl idx \<Rightarrow> (case nd_node_type node of
         Leaf \<Rightarrow> Some (None, m)
       | Internal \<Rightarrow> do {
           c \<leftarrow> node_child node idx;
           traverse K M m c key f }) }"

definition btree_get ::
  "'k::linorder storable \<Rightarrow> 'v storable \<Rightarrow> 's memory_ops \<Rightarrow> 's btree_map \<Rightarrow> 'k \<Rightarrow> ('v option \<times> 's btree_map) option" where
  "btree_get K V M m key =
     (if bt_root_addr m = NULL then Some (None, m)
      else do {
        (b, m) \<leftarrow> traverse K M m (bt_root_addr m) key (\<lambda>node idx s. do {
          (e, node, s) \<leftarrow> extract_entry_at K M node idx s;
          Some (snd e, s) });
        v \<leftarrow> from_stored V b;
        Some (v, m) })"

definition btree_contains_key :: "'k::linorder storable \<Rightarrow> 's memory_ops \<Rightarrow> 's btree_map \<Rightarrow> 'k \<Rightarrow> (bool \<times> 's btree_map) option" where
  "btree_contains_key K M m key =
     (if bt_root_addr m = NULL then Some (False, m)
      else do {
        (b, m) \<leftarrow> traverse K M m (bt_root_addr m) key (\<lambda>node idx s. Some ((), s));
        Some (b \<noteq> None, m) })"

definition btree_is_empty :: "'s btree_map \<Rightarrow> bool" where
  "btree_is_empty m \<longleftrightarrow> bt_length m = 0"

definition btree_len :: "'s btree_map \<Rightarrow> nat" where
  "btree_len m = bt_length m"

definition btree_into_memory :: "'s btree_map \<Rightarrow> 's" where
  "btree_into_memory m = al_memory (bt_allocator m)"

definition btree_clear :: "'k storable \<Rightarrow> 'v storable \<Rightarrow> 's memory_ops \<Rightarrow> 's btree_map \<Rightarrow> 's btree_map option" where
  "btree_clear K V M m = btree_new K V M (btree_into_memory m)"

definition btree_clear_new :: "'s memory_ops \<Rightarrow> 's btree_map \<Rightarrow> 's btree_map option" where
  "btree_clear_new M m = do {
     let m = m\<lparr>bt_root_addr := NULL, bt_length := 0\<rparr>;
     allocator \<leftarrow> allocator_clear M (bt_allocator m);
     save_header M (m\<lparr>bt_allocator := allocator\<rparr>) }"

definition btree_first_key_value ::
  "'k::linorder storable \<Rightarrow> 'v storable \<Rightarrow> 's memory_ops \<Rightarrow> 's btree_map \<Rightarrow> (('k \<times> 'v) option \<times> 's btree_map) option" where
  "btree_first_key_value K V M m =
     (if bt_root_addr m = NULL then Some (None, m)
      else do {
        (root, m) \<leftarrow> load_node K M m (bt_root_addr m);
        ((k, encoded_v), root, s) \<leftarrow> get_min K M root (bt_memory m);
        v \<leftarrow> from_bytes V encoded_v;
        Some (Some (k, v), bt_with_memory m s) })"

definition btree_last_key_value ::
  "'k::linorder storable \<Rightarrow> 'v storable \<Rightarrow> 's memory_ops \<Rightarrow> 's btree_map \<Rightarrow> (('k \<times> 'v) option \<times> 's btree_map) option" where
  "btree_last_key_value K V M m =
     (if bt_root_addr m = NULL then Some (None, m)
      else do {
        (root, m) \<leftarrow> load_node K M m (bt_root_addr m);
        ((k, encoded_v), root, s) \<leftarrow> get_max K M root (bt_memory m);
        v \<leftarrow> from_bytes V encoded_v;
        Some (Some (k, v), bt_with_memory m s) })"

section \<open>Removal\<close>

text \<open>Case 1: the node is a leaf.\<close>

definition remove_from_leaf ::
  "'k::linorder storable \<Rightarrow> 's memory_ops \<Rightarrow> 's btree_map \<Rightarrow> 'k node \<Rightarrow> 'k \<Rightarrow> (bytes option \<times> 's btree_map) option" where
  "remove_from_leaf K M m node key = do {
     (res, node, m) \<leftarrow> search_node K M m node key;
     case res of
       Inr idx \<Rightarrow> do {
         (e, node, s) \<leftarrow> remove_entry K M node idx (bt_memory m);
         let m = bt_with_memory m s;
         length \<leftarrow> u64_sub (bt_length m) 1;
         let m = m\<lparr>bt_length := length\<rparr>;
         m \<leftarrow> (if entries_len node = 0 then do {
              assert_that (nd_address node = bt_root_addr m);
              m \<leftarrow> deallocate_node M m node;
              Some (m\<lparr>bt_root_addr := NULL\<rparr>) }
            else do {
              (node, m) \<leftarrow> save_node K M m node;
              Some m });
         m \<leftarrow> save_header M m;
         Some (Some (snd e), m) }
     | Inl _ \<Rightarrow> Some (None, m) }"

text \<open>The end of cases 2.a and 2.b: the entry of the key is replaced by its neighbour, which is gone from the child.\<close>

definition replace_entry ::
  "'k::linorder storable \<Rightarrow> 's memory_ops \<Rightarrow> 's btree_map \<Rightarrow> 'k node \<Rightarrow> nat \<Rightarrow> 'k entry \<Rightarrow> (bytes \<times> 's btree_map) option" where
  "replace_entry K M m node idx e = do {
     (old, node, s) \<leftarrow> swap_entry K M node idx e (bt_memory m);
     (node, m) \<leftarrow> save_node K M (bt_with_memory m s) node;
     Some (snd old, m) }"

text \<open>Case 2.c: the key and the two children around it become one node, on which the removal goes on.\<close>

definition merge_around ::
  "'k::linorder storable \<Rightarrow> 's memory_ops \<Rightarrow> 's btree_map \<Rightarrow> 'k node \<Rightarrow> nat \<Rightarrow> 'k node \<Rightarrow> 'k node \<Rightarrow> ('k node \<times> 's btree_map) option" where
  "merge_around K M m node idx left_child right_child = do {
     assert_that (at_minimum left_child);
     assert_that (at_minimum right_child);
     (e, node, s) \<leftarrow> remove_entry K M node idx (bt_memory m);
     (new_child, m) \<leftarrow> btree_merge K M (bt_with_memory m s) right_child left_child e;
     (_, node) \<leftarrow> remove_child node (idx + 1);
     m \<leftarrow> (if entries_len node = 0 then do {
          assert_that (nd_address node = bt_root_addr m);
          c \<leftarrow> node_child node 0;
          assert_that (c = nd_address new_child);
          assert_that (children_len node = 1);
          m \<leftarrow> deallocate_node M (m\<lparr>bt_root_addr := nd_address new_child\<rparr>) node;
          save_header M m }
        else do {
          (node, m) \<leftarrow> save_node K M m node;
          Some m });
     save_node K M m new_child }"

text \<open>Case 3.a: an entry moves from a sibling through the parent into the child.\<close>

definition rotate_from_left ::
  "'k::linorder storable \<Rightarrow> 's memory_ops \<Rightarrow> 's btree_map \<Rightarrow> 'k node \<Rightarrow> nat \<Rightarrow> 'k node \<Rightarrow> 'k node \<Rightarrow> ('k node \<times> 's btree_map) option" where
  "rotate_from_left K M m node idx left_sibling child = do {
     (e, left_sibling, s) \<leftarrow> pop_entry K M left_sibling (bt_memory m);
     e \<leftarrow> e;
     i \<leftarrow> u64_sub idx 1;
     (parent_entry, node, s) \<leftarrow> swap_entry K M node i e s;
     let m = bt_with_memory m s;
     child \<leftarrow> insert_entry child 0 parent_entry;
     let (last_child, left_sibling) = pop_child left_sibling;
     child \<leftarrow> (case last_child of
         Some last_child \<Rightarrow> do {
           assert_that (nd_node_type left_sibling = Internal);
           assert_that (nd_node_type child = Internal);
           insert_child child 0 last_child }
       | None \<Rightarrow> do {
           assert_that (nd_node_type left_sibling = Leaf);
           assert_that (nd_node_type child = Leaf);
           Some child });
     (left_sibling, m) \<leftarrow> save_node K M m left_sibling;
     (child, m) \<leftarrow> save_node K M m child;
     (node, m) \<leftarrow> save_node K M m node;
     Some (child, m) }"

definition rotate_from_right ::
  "'k::linorder storable \<Rightarrow> 's memory_ops \<Rightarrow> 's btree_map \<Rightarrow> 'k node \<Rightarrow> nat \<Rightarrow> 'k node \<Rightarrow> 'k node \<Rightarrow> ('k node \<times> 's btree_map) option" where
  "rotate_from_right K M m node idx right_sibling child = do {
     (e, right_sibling, s) \<leftarrow> remove_entry K M right_sibling 0 (bt_memory m);
     (parent_entry, node, s) \<leftarrow> swap_entry K M node idx e s;
     let m = bt_with_memory m s;
     let child = push_entry child parent_entry;
     (child, right_sibling) \<leftarrow> (case nd_node_type right_sibling of
         Internal \<Rightarrow> do {
           assert_that (nd_node_type child = Internal);
           (c, right_sibling) \<leftarrow> remove_child right_sibling 0;
           Some (push_child child c, right_sibling) }
       | Leaf \<Rightarrow> do {
           assert_that (nd_node_type child = Leaf);
           Some (child, right_sibling) });
     (right_sibling, m) \<leftarrow> save_node K M m right_sibling;
     (child, m) \<leftarrow> save_node K M m child;
     (node, m) \<leftarrow> save_node K M m node;
     Some (child, m) }"

text \<open>
  Case 3.b: the child is merged into a sibling, with the entry between them, which is entry
  \<open>entry_idx\<close> of the parent (\<open>idx - 1\<close> for the left sibling, \<open>idx\<close> for the right one).
\<close>

definition merge_into_sibling ::
  "'k::linorder storable \<Rightarrow> 's memory_ops \<Rightarrow> 's btree_map \<Rightarrow> 'k node \<Rightarrow> nat \<Rightarrow> nat \<Rightarrow> 'k node \<Rightarrow> 'k node \<Rightarrow>
   ('k node \<times> 's btree_map) option" where
  "merge_into_sibling K M m node idx entry_idx sibling child = do {
     assert_that (at_minimum sibling);
     (e, node, s) \<leftarrow> remove_entry K M node entry_idx (bt_memory m);
     (sibling, m) \<leftarrow> btree_merge K M (bt_with_memory m s) child sibling e;
     (_, node) \<leftarrow> remove_child node idx;
     m \<leftarrow> (if entries_len node = 0 then do {
          let node_address = nd_address node;
          m \<leftarrow> deallocate_node M m node;
          if node_address = bt_root_addr m then save_header M (m\<lparr>bt_root_addr := nd_address sibling\<rparr>) else Some m }
        else do {
          (node, m) \<leftarrow> save_node K M m node;
          Some m });
     Some (sibling, m) }"

definition load_sibling ::
  "'k storable \<Rightarrow> 's memory_ops \<Rightarrow> 's btree_map \<Rightarrow> 'k node \<Rightarrow> bool \<Rightarrow> nat \<Rightarrow> ('k node option \<times> 's btree_map) option" where
  "load_sibling K M m node cond idx =
     (if cond then do {
        c \<leftarrow> node_child node idx;
        (n, m) \<leftarrow> load_node K M m c;
        Some (Some n, m) }
      else Some (None, m))"

text \<open>
  Case 3: the key is not in the node. The child below is first brought above its minimum, if it is not;
  the node to go on with is returned.
\<close>

definition prepare_child ::
  "'k::linorder storable \<Rightarrow> 's memory_ops \<Rightarrow> 's btree_map \<Rightarrow> 'k node \<Rightarrow> nat \<Rightarrow> ('k node \<times> 's btree_map) option" where
  "prepare_child K M m node idx = do {
     c \<leftarrow> node_child node idx;
     (child, m) \<leftarrow> load_node K M m c;
     if can_remove_entry_without_merging child then Some (child, m)
     else do {
       (left_sibling, m) \<leftarrow> load_sibling K M m node (idx > 0) (idx - 1);
       (right_sibling, m) \<leftarrow> load_sibling K M m node (idx + 1 < children_len node) (idx + 1);
       case (left_sibling, right_sibling) of
         (Some l, r) \<Rightarrow>
           if can_remove_entry_without_merging l then rotate_from_left K M m node idx l child
           else (case r of
             Some r \<Rightarrow>
               if can_remove_entry_without_merging r then rotate_from_right K M m node idx r child
               else merge_into_sibling K M m node idx (idx - 1) l child
           | None \<Rightarrow> merge_into_sibling K M m node idx (idx - 1) l child)
       | (None, Some r) \<Rightarrow>
           if can_remove_entry_without_merging r then rotate_from_right K M m node idx r child
           else merge_into_sibling K M m node idx idx r child
       | (None, None) \<Rightarrow> None } }"

partial_function (option) remove_helper ::
  "'k::linorder storable \<Rightarrow> 's memory_ops \<Rightarrow> 's btree_map \<Rightarrow> 'k node \<Rightarrow> 'k \<Rightarrow> (bytes option \<times> 's btree_map) option" where
  "remove_helper K M m node key = do {
     assert_that (nd_address node = bt_root_addr m \<or> can_remove_entry_without_merging node);
     case nd_node_type node of
       Leaf \<Rightarrow> remove_from_leaf K M m node key
     | Internal \<Rightarrow> do {
         (res, node, m) \<leftarrow> search_node K M m node key;
         case res of
           Inr idx \<Rightarrow> do {
             c \<leftarrow> node_child node idx;
             (left_child, m) \<leftarrow> load_node K M m c;
             if can_remove_entry_without_merging left_child then do {
               (predecessor, left_child, s) \<leftarrow> get_max K M left_child (bt_memory m);
               (r, m) \<leftarrow> remove_helper K M (bt_with_memory m s) left_child (fst predecessor);
               if r = None then Some (None, m)
               else do {
                 (old, m) \<leftarrow> replace_entry K M m node idx predecessor;
                 Some (Some old, m) } }
             else do {
               c \<leftarrow> node_child node (idx + 1);
               (right_child, m) \<leftarrow> load_node K M m c;
               if can_remove_entry_without_merging right_child then do {
                 (successor, right_child, s) \<leftarrow> get_min K M right_child (bt_memory m);
                 (r, m) \<leftarrow> remove_helper K M (bt_with_memory m s) right_child (fst successor);
                 if r = None then Some (None, m)
                 else do {
                   (old, m) \<leftarrow> replace_entry K M m node idx successor;
                   Some (Some old, m) } }
               else do {
                 (new_child, m) \<leftarrow> merge_around K M m node idx left_child right_child;
                 remove_helper K M m new_child key } } }
         | Inl idx \<Rightarrow> do {
             (child, m) \<leftarrow> prepare_child K M m node idx;
             remove_helper K M m child key } } }"

definition btree_remove ::
  "'k::linorder storable \<Rightarrow> 'v storable \<Rightarrow> 's memory_ops \<Rightarrow> 's btree_map \<Rightarrow> 'k \<Rightarrow> ('v option \<times> 's btree_map) option" where
  "btree_remove K V M m key =
     (if bt_root_addr m = NULL then Some (None, m)
      else do {
        (root_node, m) \<leftarrow> load_node K M m (bt_root_addr m);
        (b, m) \<leftarrow> remove_helper K M m root_node key;
        v \<leftarrow> from_stored V b;
        Some (v, m) })"

definition btree_pop_last ::
  "'k::linorder storable \<Rightarrow> 'v storable \<Rightarrow> 's memory_ops \<Rightarrow> 's btree_map \<Rightarrow> (('k \<times> 'v) option \<times> 's btree_map) option" where
  "btree_pop_last K V M m =
     (if bt_root_addr m = NULL then Some (None, m)
      else do {
        (root, m) \<leftarrow> load_node K M m (bt_root_addr m);
        ((max_key, _), root, s) \<leftarrow> get_max K M root (bt_memory m);
        (b, m) \<leftarrow> remove_helper K M (bt_with_memory m s) root max_key;
        v \<leftarrow> from_stored V b;
        Some (map_option (Pair max_key) v, m) })"

definition btree_pop_first ::
  "'k::linorder storable \<Rightarrow> 'v storable \<Rightarrow> 's memory_ops \<Rightarrow> 's btree_map \<Rightarrow> (('k \<times> 'v) option \<times> 's btree_map) option" where
  "btree_pop_first K V M m =
     (if bt_root_addr m = NULL then Some (None, m)
      else do {
        (root, m) \<leftarrow> load_node K M m (bt_root_addr m);
        ((min_key, _), root, s) \<leftarrow> get_min K M root (bt_memory m);
        (b, m) \<leftarrow> remove_helper K M (bt_with_memory m s) root min_key;
        v \<leftarrow> from_stored V b;
        Some (map_option (Pair min_key) v, m) })"

end
