(* ===== verification/BTree_Tree.thy ===== *)
theory BTree_Tree
  imports BTree_Map
begin

text \<open>
  The tree that the nodes of a map form, as a value: \<open>tree_at W t\<close> says that the tree \<open>t\<close>, with the addresses
  of its nodes, is what the heap of nodes \<open>W\<close> holds. Its contents are the list \<open>inorder t\<close>, on which
  insertion and removal of a key are the filters \<open>ins\<close> and \<open>del\<close>. \<open>evolves\<close> is the frame of an operation: the nodes
  that it owned before and after, and that no other node is touched.
\<close>

section \<open>Sorted lists of entries\<close>

definition ins :: "'k::linorder \<Rightarrow> 'v \<Rightarrow> ('k \<times> 'v) list \<Rightarrow> ('k \<times> 'v) list" where
  "ins k v es = filter (\<lambda>e. fst e < k) es @ (k, v) # filter (\<lambda>e. k < fst e) es"

definition del :: "'k \<Rightarrow> ('k \<times> 'v) list \<Rightarrow> ('k \<times> 'v) list" where
  "del k es = filter (\<lambda>e. fst e \<noteq> k) es"

abbreviation sorted_keys :: "('k::linorder \<times> 'v) list \<Rightarrow> bool" where
  "sorted_keys es \<equiv> sorted_wrt (\<lambda>x y. fst x < fst y) es"

lemma sorted_keys_map: "sorted_wrt (<) (map fst es) = sorted_keys es"
  by (simp add: sorted_wrt_map)

definition all_below :: "('k::linorder \<times> 'v) list \<Rightarrow> 'k \<Rightarrow> bool" where
  "all_below es k \<longleftrightarrow> (\<forall>e \<in> set es. fst e < k)"

definition all_above :: "'k::linorder \<Rightarrow> ('k \<times> 'v) list \<Rightarrow> bool" where
  "all_above k es \<longleftrightarrow> (\<forall>e \<in> set es. k < fst e)"

lemma below_simps [simp]: "all_below [] k" "all_below (x # xs) k \<longleftrightarrow> fst x < k \<and> all_below xs k" "all_below (xs @ ys) k \<longleftrightarrow> all_below xs k \<and> all_below ys k"
  by (auto simp: all_below_def)

lemma above_simps [simp]: "all_above k []" "all_above k (x # xs) \<longleftrightarrow> k < fst x \<and> all_above k xs" "all_above k (xs @ ys) \<longleftrightarrow> all_above k xs \<and> all_above k ys"
  by (auto simp: all_above_def)

lemma sorted_keys_parts:
  assumes "sorted_keys (xs @ (k, v) # ys)"
  shows "all_below xs k" "all_above k ys"
  using assms by (auto simp: sorted_wrt_append all_below_def all_above_def)

lemma ins_frame [simp]: "all_below xs k \<Longrightarrow> all_above k ys \<Longrightarrow> ins k v (xs @ es @ ys) = xs @ ins k v es @ ys"
proof -
  assume a: "all_below xs k" "all_above k ys"
  have "filter (\<lambda>e. fst e < k) xs = xs" "filter (\<lambda>e. k < fst e) xs = []" "filter (\<lambda>e. fst e < k) ys = []" "filter (\<lambda>e. k < fst e) ys = ys"
    using a by (force simp: all_below_def all_above_def filter_id_conv filter_empty_conv)+
  then show ?thesis
    by (simp add: ins_def)
qed

lemma ins_here: "all_below xs k \<Longrightarrow> all_above k ys \<Longrightarrow> ins k v (xs @ (k, w) # ys) = xs @ (k, v) # ys"
  using ins_frame[of xs k ys v "[(k, w)]"] by (simp add: ins_def)

lemma ins_new: "all_below xs k \<Longrightarrow> all_above k ys \<Longrightarrow> ins k v (xs @ ys) = xs @ (k, v) # ys"
  using ins_frame[of xs k ys v "[]"] by (simp add: ins_def)

lemma del_append [simp]: "del k (xs @ ys) = del k xs @ del k ys"
  by (simp add: del_def)

lemma del_outside [simp]: "all_below xs k \<Longrightarrow> del k xs = xs" "all_above k xs \<Longrightarrow> del k xs = xs"
  by (auto simp: del_def all_below_def all_above_def filter_id_conv)

lemma del_Cons: "del k (x # xs) = (if fst x = k then del k xs else x # del k xs)"
  by (simp add: del_def)

lemma lookup_outside [simp]: "all_below xs k \<Longrightarrow> map_of xs k = None" "all_above k xs \<Longrightarrow> map_of xs k = None"
  by (auto simp: map_of_eq_None_iff all_below_def all_above_def)

lemma lookup_frame [simp]: "all_below xs k \<Longrightarrow> all_above k ys \<Longrightarrow> map_of (xs @ es @ ys) k = map_of es k"
  by (simp add: map_add_def split: option.split)

lemma sorted_ins: "sorted_keys es \<Longrightarrow> sorted_keys (ins k v es)"
  by (auto simp: ins_def sorted_wrt_append sorted_wrt_filter)

lemma sorted_del: "sorted_keys es \<Longrightarrow> sorted_keys (del k es)"
  by (simp add: del_def sorted_wrt_filter)

lemma set_ins: "set (ins k v es) \<subseteq> insert (k, v) (set es)"
  by (auto simp: ins_def)

lemma map_of_ins: "sorted_keys es \<Longrightarrow> map_of (ins k v es) = (map_of es)(k \<mapsto> v)"
proof
  fix x
  assume "sorted_keys es"
  have "map_of (filter (\<lambda>e. fst e < k) es) x = (if x < k then map_of es x else None)"
    "map_of (filter (\<lambda>e. k < fst e) es) x = (if k < x then map_of es x else None)"
    by (induction es) auto
  then show "map_of (ins k v es) x = ((map_of es)(k \<mapsto> v)) x"
    by (auto simp: ins_def map_add_def split: option.split)
qed

lemma map_of_del: "map_of (del k es) = (map_of es)(k := None)"
  by (induction es) (auto simp: del_def)

lemma length_ins:
  assumes "sorted_keys es"
  shows "length (ins k v es) = (if map_of es k = None then Suc (length es) else length es)"
  using assms
proof (induction es)
  case (Cons e es)
  then have e: "\<forall>x \<in> set es. fst e < fst x" and IH: "length (ins k v es) = (if map_of es k = None then Suc (length es) else length es)"
    by simp_all
  show ?case
  proof (cases "fst e" k rule: linorder_cases)
    case equal
    then have "filter (\<lambda>e. k < fst e) es = es" "filter (\<lambda>e. fst e < k) es = []"
      using e by (force simp: filter_id_conv filter_empty_conv)+
    with equal show ?thesis
      by (simp add: ins_def)
  next
    case greater
    then have k: "all_above k (e # es)"
      using e by (auto simp: all_above_def)
    then show ?thesis
      using ins_new[of "[]" k "e # es" v] lookup_outside(2)[OF k] by simp
  qed (use IH in \<open>auto simp: ins_def\<close>)
qed (simp add: ins_def)

lemma length_del:
  assumes "sorted_keys es"
  shows "length (del k es) = (if map_of es k = None then length es else length es - 1)"
  using assms
proof (induction es)
  case (Cons e es)
  then have IH: "length (del k es) = (if map_of es k = None then length es else length es - 1)" and e: "\<forall>x \<in> set es. fst e < fst x"
    by simp_all
  show ?case
  proof (cases "fst e = k")
    case True
    then have "all_above k es"
      using e by (auto simp: all_above_def)
    then show ?thesis
      using True by (simp add: del_Cons)
  next
    case False
    then show ?thesis
      using IH by (cases es) (auto simp: del_Cons)
  qed
qed (simp add: del_def)

section \<open>Trees\<close>

datatype 'k btree = BNode (tree_addr: address) (tree_entries: "'k entry list") (tree_kids: "'k btree list")

text \<open>The entries of the children with the entries of the node between them.\<close>

fun pre :: "'a list list \<Rightarrow> 'a list \<Rightarrow> 'a list" where
  "pre (l # ls) (e # es) = l @ e # pre ls es"
| "pre _ _ = []"

fun post :: "'a list list \<Rightarrow> 'a list \<Rightarrow> 'a list" where
  "post (l # ls) (e # es) = e # l @ post ls es"
| "post _ _ = []"

fun weave :: "'a list list \<Rightarrow> 'a list \<Rightarrow> 'a list" where
  "weave [] es = es"
| "weave (l # ls) es = l @ post ls es"

fun inorder :: "'k btree \<Rightarrow> 'k entry list" where
  "inorder (BNode x es ts) = weave (map inorder ts) es"

fun addrs :: "'k btree \<Rightarrow> address list" where
  "addrs (BNode x es ts) = x # concat (map addrs ts)"

fun shape :: "nat \<Rightarrow> 'k btree \<Rightarrow> bool" where
  "shape 0 (BNode x es ts) \<longleftrightarrow> ts = [] \<and> es \<noteq> [] \<and> length es \<le> 11"
| "shape (Suc h) (BNode x es ts) \<longleftrightarrow> length ts = length es + 1 \<and> es \<noteq> [] \<and> length es \<le> 11 \<and>
     (\<forall>t \<in> set ts. shape h t \<and> 5 \<le> length (tree_entries t))"

lemma tree_addr_in [simp]: "tree_addr t \<in> set (addrs t)"
  by (cases t) simp

lemma post_append: "length ls = length es \<Longrightarrow> post (ls @ ls') (es @ es') = post ls es @ post ls' es'"
  by (induction ls es rule: list_induct2) auto

lemma post_at:
  "length ls = length es \<Longrightarrow> post (ls @ l # ls') (e # es @ es') = e # pre ls es @ l @ post ls' es'"
  by (induction ls es arbitrary: e rule: list_induct2) auto

lemma weave_at:
  "length ls = length es \<Longrightarrow> weave (ls @ l # ls') (es @ es') = pre ls es @ l @ post ls' es'"
  by (cases ls; cases es) (auto simp: post_at)

lemma pre_append: "length ls = length es \<Longrightarrow> pre (ls @ ls') (es @ es') = pre ls es @ pre ls' es'"
  by (induction ls es rule: list_induct2) auto

lemma pre_below: "sorted_keys (pre ls es) \<Longrightarrow> length ls = length es \<Longrightarrow> all_below es k \<Longrightarrow> all_below (pre ls es) k"
  by (induction ls es rule: pre.induct) (auto simp: sorted_wrt_append all_below_def dest: less_trans)

lemma post_above: "sorted_keys (post ls es) \<Longrightarrow> length ls = length es \<Longrightarrow> all_above k es \<Longrightarrow> all_above k (post ls es)"
  by (induction ls es rule: post.induct) (auto simp: sorted_wrt_append all_above_def dest: less_trans)

lemma set_pre: "length ls = length es \<Longrightarrow> set (pre ls es) = set es \<union> \<Union> (set ` set ls)"
  by (induction ls es rule: list_induct2) auto

lemma set_post: "length ls = length es \<Longrightarrow> set (post ls es) = set es \<union> \<Union> (set ` set ls)"
  by (induction ls es rule: list_induct2) auto

lemma weave_split:
  assumes "length ls = length es + 1" "ls' \<noteq> []"
  shows "weave (ls @ ls') (es @ e # es') = weave ls es @ e # weave ls' es'"
proof -
  obtain l ls0 l' ls1 where "ls = l # ls0" "ls' = l' # ls1" "length ls0 = length es"
    using assms by (cases ls; cases ls') auto
  then show ?thesis
    by (simp add: post_append)
qed

lemma sorted_post: "sorted_keys (post ls es) \<Longrightarrow> length ls = length es \<Longrightarrow> sorted_keys es"
  by (induction ls es rule: post.induct) (auto simp: sorted_wrt_append set_post)

lemma sorted_weave: "sorted_keys (weave ls es) \<Longrightarrow> ls = [] \<or> length ls = length es + 1 \<Longrightarrow> sorted_keys es"
  by (cases ls) (auto simp: sorted_wrt_append dest: sorted_post)

lemma set_weave: "ls = [] \<or> length ls = length es + 1 \<Longrightarrow> set (weave ls es) = set es \<union> \<Union> (set ` set ls)"
  by (cases ls) (auto simp: set_post)

section \<open>Positions in the tree\<close>

lemma found_entry:
  assumes "found_at (map fst es) key (Inr i)"
  shows "i < length es" "fst (es ! i) = key" "es = take i es @ (key, snd (es ! i)) # drop (Suc i) es"
proof -
  show "i < length es" "fst (es ! i) = key"
    using assms by (auto simp: found_at_def)
  then show "es = take i es @ (key, snd (es ! i)) # drop (Suc i) es"
    using id_take_nth_drop[of i es] by (metis prod.collapse)
qed

lemma found_between:
  assumes "found_at (map fst es) key (Inl i)"
  shows "i \<le> length es" "all_below (take i es) key" "all_above key (drop i es)"
  using assms by (auto simp: found_at_def all_below_def all_above_def all_set_conv_all_nth)

definition before :: "nat \<Rightarrow> 'k entry list \<Rightarrow> 'k btree list \<Rightarrow> 'k entry list" where
  "before i es ts = pre (map inorder (take i ts)) (take i es)"

definition after :: "nat \<Rightarrow> 'k entry list \<Rightarrow> 'k btree list \<Rightarrow> 'k entry list" where
  "after i es ts = post (map inorder (drop (Suc i) ts)) (drop i es)"

lemma inorder_child:
  assumes "length ts = length es + 1" "i \<le> length es"
  shows "inorder (BNode x es ts) = before i es ts @ inorder (ts ! i) @ after i es ts"
proof -
  have "ts = take i ts @ ts ! i # drop (Suc i) ts"
    using assms by (intro id_take_nth_drop) simp
  moreover have "es = take i es @ drop i es"
    by simp
  moreover have "length (map inorder (take i ts)) = length (take i es)"
    using assms by simp
  ultimately show ?thesis
    unfolding before_def after_def inorder.simps by (metis weave_at list.map(2) map_append)
qed

lemma inorder_update:
  assumes "length ts = length es + 1" "i \<le> length es"
  shows "inorder (BNode x es (ts[i := t])) = before i es ts @ inorder t @ after i es ts"
  using inorder_child[of "ts[i := t]" es i x] assms by (simp add: before_def after_def)

lemma between_child:
  assumes "sorted_keys (inorder (BNode x es ts))" "length ts = length es + 1" "found_at (map fst es) key (Inl i)"
  shows "all_below (before i es ts) key" "all_above key (after i es ts)" "i < length ts"
proof -
  note b = found_between[OF assms(3)]
  have so: "sorted_keys (before i es ts)" "sorted_keys (after i es ts)"
    using assms(1)[unfolded inorder_child[OF assms(2) b(1)]] by (simp_all add: sorted_wrt_append)
  show "all_below (before i es ts) key" "all_above key (after i es ts)" "i < length ts"
    using so assms(2) b by (auto simp: before_def after_def intro!: pre_below post_above)
qed

lemma addrs_child:
  assumes "i < length ts"
  shows "set (addrs (BNode x es (ts[i := c]))) = set (addrs c) \<union> insert x (\<Union>t \<in> set (take i ts) \<union> set (drop (Suc i) ts). set (addrs t))"
    "length (addrs (BNode x es (ts[i := c]))) + length (addrs (ts ! i)) = length (addrs (BNode x es ts)) + length (addrs c)"
    "distinct (addrs (BNode x es (ts[i := c]))) \<longleftrightarrow> distinct (addrs c) \<and> distinct (x # concat (map addrs (take i ts)) @ concat (map addrs (drop (Suc i) ts))) \<and>
       set (addrs c) \<inter> insert x (\<Union>t \<in> set (take i ts) \<union> set (drop (Suc i) ts). set (addrs t)) = {}"
proof -
  have ts: "ts[i := c] = take i ts @ c # drop (Suc i) ts" "ts = take i ts @ ts ! i # drop (Suc i) ts"
    using assms by (simp_all add: upd_conv_take_nth_drop id_take_nth_drop[symmetric])
  show "set (addrs (BNode x es (ts[i := c]))) = set (addrs c) \<union> insert x (\<Union>t \<in> set (take i ts) \<union> set (drop (Suc i) ts). set (addrs t))"
    unfolding ts(1) by auto
  show "distinct (addrs (BNode x es (ts[i := c]))) \<longleftrightarrow> distinct (addrs c) \<and> distinct (x # concat (map addrs (take i ts)) @ concat (map addrs (drop (Suc i) ts))) \<and>
       set (addrs c) \<inter> insert x (\<Union>t \<in> set (take i ts) \<union> set (drop (Suc i) ts). set (addrs t)) = {}"
    unfolding ts(1) by auto
  have "length (addrs (BNode x es ts)) = length (addrs (BNode x es (take i ts @ ts ! i # drop (Suc i) ts)))"
    using ts(2) by simp
  then show "length (addrs (BNode x es (ts[i := c]))) + length (addrs (ts ! i)) = length (addrs (BNode x es ts)) + length (addrs c)"
    unfolding ts(1) by simp
qed

lemma shape_entries:
  assumes "shape h t"
  shows "tree_entries t \<noteq> []" "length (tree_entries t) \<le> 11" "tree_kids t = [] \<or> length (tree_kids t) = length (tree_entries t) + 1"
    "tree_kids t = [] \<longleftrightarrow> h = 0"
  using assms by (cases h; cases t; auto)+

lemma shape_plug:
  assumes "shape (Suc h) (BNode x es ts)" "i < length ts" "shape h c" "5 \<le> length (tree_entries c)"
  shows "shape (Suc h) (BNode x es (ts[i := c]))"
  using assms set_update_subset_insert[of ts i c] by auto

lemma map_of_here: "sorted_keys (xs @ (k, v) # ys) \<Longrightarrow> map_of (xs @ (k, v) # ys) k = Some v"
  using sorted_keys_parts[of xs k v ys] by (simp add: map_add_def)

text \<open>An entry of a node has the entries of the tree around it.\<close>

lemma inorder_entry:
  assumes "shape h (BNode x es ts)" "found_at (map fst es) key (Inr i)"
  obtains xs ys where "\<And>v. inorder (BNode x (es[i := (key, v)]) ts) = xs @ (key, v) # ys" "es[i := (key, snd (es ! i))] = es"
proof -
  note f = found_entry[OF assms(2)]
  have eq: "es[i := (key, snd (es ! i))] = es"
    using f(2) by (metis list_update_id prod.collapse)
  show thesis
  proof (cases "ts = []")
    case True
    then have "inorder (BNode x (es[i := (key, v)]) ts) = take i es @ (key, v) # drop (Suc i) es" for v
      using f(1) by (simp add: upd_conv_take_nth_drop)
    then show thesis
      using eq that by blast
  next
    case False
    then have ts: "length ts = length es + 1"
      using shape_entries(3)[OF assms(1)] by simp
    have "inorder (BNode x (es[i := (key, v)]) ts) = (before i es ts @ inorder (ts ! i)) @ (key, v) # inorder (ts ! Suc i) @ post (map inorder (drop (Suc (Suc i)) ts)) (drop (Suc i) es)" for v
    proof -
      have "drop (Suc i) ts = ts ! Suc i # drop (Suc (Suc i)) ts"
        using ts f(1) by (simp add: Cons_nth_drop_Suc)
      moreover have "drop i (es[i := (key, v)]) = (key, v) # drop (Suc i) es"
        using f(1) by (simp add: drop_update_swap Cons_nth_drop_Suc[symmetric])
      ultimately show ?thesis
        using inorder_child[of ts "es[i := (key, v)]" i x] ts f(1) by (simp add: before_def after_def)
    qed
    then show thesis
      using eq that by blast
  qed
qed

text \<open>The frame of an operation that owned the nodes \<open>X\<close> and ends owning \<open>X'\<close>.\<close>

definition evolves :: "node_heap \<Rightarrow> address set \<Rightarrow> node_heap \<Rightarrow> address set \<Rightarrow> bool" where
  "evolves W X W' X' \<longleftrightarrow> X \<subseteq> dom W \<and> X' \<inter> (dom W - X) = {} \<and> dom W' = dom W - X \<union> X' \<and> (\<forall>y \<in> - X. y \<notin> X' \<longrightarrow> W' y = W y)"

lemma evolves_refl [simp]: "evolves W X W X \<longleftrightarrow> X \<subseteq> dom W"
  by (auto simp: evolves_def)

lemma evolvesD:
  assumes "evolves W X W' X'"
  shows "X \<subseteq> dom W" "X' \<inter> (dom W - X) = {}" "dom W' = dom W - X \<union> X'" "y \<notin> X \<Longrightarrow> y \<notin> X' \<Longrightarrow> W' y = W y"
  using assms by (auto simp: evolves_def)

lemma evolve_sets:
  assumes "X1 \<inter> (D - X) = {}" "D1 = D - X \<union> X1" "X2 \<inter> (D1 - X1) = {}" "D2 = D1 - X1 \<union> X2"
  shows "X2 \<inter> (D - X) = {}" "D2 = D - X \<union> X2"
proof -
  have "D1 - X1 = D - X"
    using assms(1) unfolding assms(2) by blast
  then show "X2 \<inter> (D - X) = {}" "D2 = D - X \<union> X2"
    using assms(3,4) by simp_all
qed

lemma evolves_trans [trans]:
  assumes a: "evolves W X W1 X1" and b: "evolves W1 X1 W2 X2"
  shows "evolves W X W2 X2"
proof -
  note a = evolvesD[OF a] and b = evolvesD[OF b]
  have "W2 y = W y" if "y \<notin> X" "y \<notin> X2" for y
  proof (cases "y \<in> X1")
    case True
    then have "y \<notin> dom W" "y \<notin> dom W2"
      using that a(2) b(3) by blast+
    then show ?thesis
      by (metis domIff)
  qed (use that a(4) b(4) in simp)
  moreover have "X2 \<inter> (dom W - X) = {}" "dom W2 = dom W - X \<union> X2"
    using evolve_sets[OF a(2,3) b(2,3)] .
  ultimately show ?thesis
    using a(1) by (simp add: evolves_def)
qed

lemma evolves_frame:
  assumes e: "evolves W X W' X'" and Y: "Y \<subseteq> dom W" "X \<inter> Y = {}"
  shows "evolves W (X \<union> Y) W' (X' \<union> Y)" "X' \<inter> Y = {}" "y \<in> Y \<Longrightarrow> W' y = W y"
proof -
  note e = evolvesD[OF e]
  show d: "X' \<inter> Y = {}"
    using e(2) Y by blast
  show "W' y = W y" if "y \<in> Y"
    using that d Y(2) by (intro e(4)) blast+
  have "(X' \<union> Y) \<inter> (dom W - (X \<union> Y)) = {}" "dom W' = dom W - (X \<union> Y) \<union> (X' \<union> Y)"
    using e(2,3) Y by blast+
  then show "evolves W (X \<union> Y) W' (X' \<union> Y)"
    using e(1,4) Y(1) by (simp add: evolves_def)
qed

lemma evolves_save: "x \<in> X \<Longrightarrow> X \<subseteq> dom W \<Longrightarrow> evolves W X (W(x \<mapsto> raw)) X"
  by (auto simp: evolves_def)

lemma evolves_alloc: "W x = None \<Longrightarrow> X \<subseteq> dom W \<Longrightarrow> evolves W X (W(x \<mapsto> raw)) (insert x X)"
  by (auto simp: evolves_def)

lemma evolves_free: "x \<in> X \<Longrightarrow> X \<subseteq> dom W \<Longrightarrow> evolves W X (W(x := None)) (X - {x})"
  by (auto simp: evolves_def)

section \<open>The tree in the heap of nodes\<close>

definition anode_of :: "'k btree \<Rightarrow> 'k anode" where
  "anode_of t = \<lparr>an_type = (if tree_kids t = [] then Leaf else Internal), an_entries = tree_entries t,
     an_children = map tree_addr (tree_kids t)\<rparr>"

lemma anode_of_simps [simp]:
  "an_entries (anode_of t) = tree_entries t" "an_children (anode_of t) = map tree_addr (tree_kids t)"
  "an_type (anode_of t) = Leaf \<longleftrightarrow> tree_kids t = []" "an_type (anode_of t) = Internal \<longleftrightarrow> tree_kids t \<noteq> []"
  by (simp_all add: anode_of_def)

locale btree_store = btree_nodes M H sz prep K valid pg kb vb
  for M :: "'s memory_ops" and H sz prep and K :: "'k::linorder storable" and valid pg kb vb +
  assumes H: "H = ALLOCATOR_OFFSET"
begin

fun tree_at :: "node_heap \<Rightarrow> 'k btree \<Rightarrow> bool" where
  "tree_at W (BNode x es ts) \<longleftrightarrow> stored W x (anode_of (BNode x es ts)) \<and> (\<forall>t \<in> set ts. tree_at W t)"

lemma tree_at_root: "tree_at W t \<Longrightarrow> stored W (tree_addr t) (anode_of t)"
  by (cases t) simp

lemma tree_at_cong: "(\<And>y. y \<in> set (addrs t) \<Longrightarrow> W' y = W y) \<Longrightarrow> tree_at W' t = tree_at W t"
proof (induction t)
  case (BNode x es ts)
  then have "stored W' x (anode_of (BNode x es ts)) = stored W x (anode_of (BNode x es ts))"
    by (intro stored_cong) simp
  moreover have "tree_at W' t = tree_at W t" if "t \<in> set ts" for t
    using that BNode by auto
  ultimately show ?case
    by simp
qed

lemma tree_at_upd [simp]: "x \<notin> set (addrs t) \<Longrightarrow> tree_at (W(x := v)) t = tree_at W t"
  by (intro tree_at_cong) auto

lemma tree_at_evolves:
  assumes "tree_at W t" "evolves W X W' X'" "set (addrs t) \<subseteq> dom W" "set (addrs t) \<inter> X = {}"
  shows "tree_at W' t" "set (addrs t) \<inter> X' = {}"
proof -
  have X: "X \<inter> set (addrs t) = {}"
    using assms(4) by auto
  show "tree_at W' t"
    using assms(1) tree_at_cong[of t W' W, OF evolves_frame(3)[OF assms(2,3) X]] by simp
  show "set (addrs t) \<inter> X' = {}"
    using evolves_frame(2)[OF assms(2,3) X] by auto
qed

lemma tree_at_dom: "tree_at W t \<Longrightarrow> set (addrs t) \<subseteq> dom W"
proof (induction t)
  case (BNode x es ts)
  then show ?case
    by (auto simp: stored_def)
qed

text \<open>What the entries of a map are: in order, with keys and values of the sizes that the nodes provide for.\<close>

definition content :: "'k entry list \<Rightarrow> bool" where
  "content es \<longleftrightarrow> sorted_keys es \<and> (\<forall>(k, v) \<in> set es. valid k \<and> length v \<le> vb)"

lemma content_part: "content (xs @ ys @ zs) \<Longrightarrow> content ys"
  by (auto simp: content_def sorted_wrt_append)

lemma content_weave: "content (weave ls es) \<Longrightarrow> ls = [] \<or> length ls = length es + 1 \<Longrightarrow> content es"
  using sorted_weave[of ls es] set_weave[of ls es] by (auto simp: content_def)

lemma content_ins: "content es \<Longrightarrow> valid k \<Longrightarrow> length v \<le> vb \<Longrightarrow> content (ins k v es)"
  using sorted_ins[of es k v] set_ins[of k v es] by (auto simp: content_def)

lemma content_del: "content es \<Longrightarrow> content (del k es)"
  using sorted_del[of es k] by (auto simp: content_def del_def)

lemma nodes_addr:
  assumes "nodes a h W r" "x \<in> dom W"
  shows "x \<le> U64_MAX" "x \<noteq> NULL"
proof -
  obtain ovs F where "W x = Some (ovs, F)"
    using assms(2) by auto
  from heap_node(3,4)[OF nodesD(3)[OF assms(1)] this] show "x \<le> U64_MAX" "x \<noteq> NULL"
    by (simp_all add: NULL_def)
qed

lemma good_tree:
  assumes "nodes a h W r" "content (tree_entries t)" "tree_entries t \<noteq> []" "length (tree_entries t) \<le> 11"
    "tree_kids t = [] \<or> length (tree_kids t) = length (tree_entries t) + 1" "\<forall>c \<in> set (tree_kids t). tree_addr c \<in> dom W"
  shows "good (anode_of t)"
  using assms nodes_addr(1)[OF assms(1)]
  by (auto simp: good_def content_def sorted_keys_map anode_of_def)

section \<open>The state of the map\<close>

definition synced :: "'s btree_map \<Rightarrow> address \<Rightarrow> nat \<Rightarrow> node_heap \<Rightarrow> nat \<Rightarrow> bool" where
  "synced m root len W r \<longleftrightarrow> version_page_size (bt_version m) = pg \<and> bt_root_addr m = root \<and> bt_length m = len \<and>
     (\<exists>h. nodes (bt_allocator m) h W r \<and>
        take 28 h = encode_btree_header \<lparr>bh_version = bt_version m, bh_root_addr = root, bh_length = len\<rparr>)"

lemma length_encode_header [simp]: "length (encode_btree_header bh) = 28"
  by (simp add: encode_btree_header_def BTREE_MAGIC_def split: version.splits page_size.splits)

lemma bt_memory_simps [simp]: "bt_memory (bt_with_memory m s) = s" "bt_with_memory (bt_with_memory m s) s' = bt_with_memory m s'"
  "bt_root_addr (bt_with_memory m s) = bt_root_addr m" "bt_length (bt_with_memory m s) = bt_length m"
  "bt_version (bt_with_memory m s) = bt_version m"
  by (simp_all add: bt_memory_def bt_with_memory_def)

lemma syncedD:
  assumes "synced m root len W r"
  shows "version_page_size (bt_version m) = pg" "bt_root_addr m = root" "bt_length m = len"
  using assms by (auto simp: synced_def)

lemma syncedE:
  assumes "synced m root len W r"
  obtains h where "nodes (bt_allocator m) h W r"
    "\<And>s. nodes (bt_allocator m\<lparr>al_memory := s\<rparr>) h W r \<Longrightarrow> synced (bt_with_memory m s) root len W r"
    "\<And>a W' r'. nodes a h W' r' \<Longrightarrow> synced (m\<lparr>bt_allocator := a\<rparr>) root len W' r'"
  using assms by (auto simp: synced_def bt_with_memory_def)

lemma synced_addr: "synced m root len W r \<Longrightarrow> x \<in> dom W \<Longrightarrow> x \<noteq> NULL"
  by (erule syncedE) (rule nodes_addr)

lemma synced_good:
  assumes "synced m root len W r" "content (tree_entries t)" "tree_entries t \<noteq> []" "length (tree_entries t) \<le> 11"
    "tree_kids t = [] \<or> length (tree_kids t) = length (tree_entries t) + 1" "\<forall>c \<in> set (tree_kids t). tree_addr c \<in> dom W"
  shows "good (anode_of t)"
  by (rule syncedE[OF assms(1)]) (rule good_tree[OF _ assms(2-6)])

lemma load_node_ok:
  assumes m: "synced m root len W r" and x: "stored W x an"
  shows "ok (load_node K M m x) (\<lambda>(n, m'). synced m' root len W r \<and> node_is W n an \<and> nd_address n = x)"
proof -
  obtain h where h: "nodes (bt_allocator m) h W r"
    "\<And>s. nodes (bt_allocator m\<lparr>al_memory := s\<rparr>) h W r \<Longrightarrow> synced (bt_with_memory m s) root len W r"
    by (rule syncedE[OF m]) blast
  from node_load_ok[OF h(1) x] show ?thesis
    unfolding load_node_def syncedD(1)[OF m] bt_memory_def ok_bind by (rule ok_mono) (auto intro: h(2))
qed

lemma search_node_ok:
  assumes m: "synced m root len W r" and n: "node_is W n an" "sorted_keys (an_entries an)"
  shows "ok (search_node K M m n key) (\<lambda>(res, n', m'). synced m' root len W r \<and> node_is W n' an \<and> nd_address n' = nd_address n \<and>
    found_at (map fst (an_entries an)) key res)"
proof -
  obtain h where h: "nodes (bt_allocator m) h W r"
    "\<And>s. nodes (bt_allocator m\<lparr>al_memory := s\<rparr>) h W r \<Longrightarrow> synced (bt_with_memory m s) root len W r"
    by (rule syncedE[OF m]) blast
  from tree_search[OF h(1) n(1)[unfolded sorted_keys_map], unfolded sorted_keys_map, OF n(2), of key] show ?thesis
    unfolding search_node_def bt_memory_def ok_bind by (rule ok_mono) (auto intro: h(2))
qed

lemma save_node_ok:
  assumes m: "synced m root len W r" and n: "node_is W n an" "good an"
  shows "ok (save_node K M m n) (\<lambda>(n', m'). \<exists>raw. synced m' root len (W(nd_address n \<mapsto> raw)) r \<and> nd_address n' = nd_address n \<and>
    stored (W(nd_address n \<mapsto> raw)) (nd_address n) an \<and> node_is (W(nd_address n \<mapsto> raw)) n' an)"
proof -
  obtain h where h: "nodes (bt_allocator m) h W r" "\<And>a W' r'. nodes a h W' r' \<Longrightarrow> synced (m\<lparr>bt_allocator := a\<rparr>) root len W' r'"
    by (rule syncedE[OF m]) blast
  from node_save_ok[OF h(1) n] show ?thesis
    unfolding save_node_def ok_bind by (rule ok_mono) (clarsimp simp del: fun_upd_apply split_paired_Ex, blast intro: h(2))
qed

lemma allocate_node_ok:
  assumes m: "synced m root len W (Suc r)"
  shows "ok (allocate_node M m ty) (\<lambda>(n, m'). \<exists>raw. W (nd_address n) = None \<and> synced m' root len (W(nd_address n \<mapsto> raw)) r \<and>
    node_is (W(nd_address n \<mapsto> raw)) n \<lparr>an_type = ty, an_entries = [], an_children = []\<rparr>)"
proof -
  obtain h where h: "nodes (bt_allocator m) h W (Suc r)" "\<And>a W' r'. nodes a h W' r' \<Longrightarrow> synced (m\<lparr>bt_allocator := a\<rparr>) root len W' r'"
    by (rule syncedE[OF m]) blast
  from node_alloc_ok[OF h(1)] obtain x a' raw where x: "allocate M (bt_allocator m) = Some (x, a')" "W x = None" "nodes a' h (W(x \<mapsto> raw)) r"
    "\<And>n. nd_address n = x \<Longrightarrow> nd_entries n = [] \<Longrightarrow> nd_overflows n = [] \<Longrightarrow> version_page_size (nd_version n) = pg \<Longrightarrow>
      node_is (W(x \<mapsto> raw)) n \<lparr>an_type = nd_node_type n, an_entries = [], an_children = nd_children n\<rparr>"
    by (auto simp del: fun_upd_apply elim!: ok_obtain)
  note v = syncedD(1)[OF m]
  show ?thesis
  proof (cases "bt_version m")
    case (V1 mk mv)
    then have p: "Derived mk mv = pg"
      using v by simp
    have "allocate_node M m ty = Some (new_v1 x ty mk mv :: 'k node, m\<lparr>bt_allocator := a'\<rparr>)"
      using x(1) V1 by (simp add: allocate_node_def)
    moreover have "node_is (W(x \<mapsto> raw)) (new_v1 x ty mk mv) \<lparr>an_type = ty, an_entries = [], an_children = []\<rparr>" "nd_address (new_v1 x ty mk mv :: 'k node) = x"
      using x(4)[of "new_v1 x ty mk mv"] by (simp_all add: new_v1_def p)
    ultimately show ?thesis
      using x(2) h(2)[OF x(3)] by (auto simp del: fun_upd_apply split_paired_Ex)
  next
    case (V2 p)
    then have "new_v2 x ty p = Some (\<lparr>nd_address = x, nd_entries = [], nd_children = [], nd_node_type = ty, nd_version = V2 pg, nd_overflows = []\<rparr> :: 'k node)"
      using v sz by (simp add: new_v2_def pg MINIMUM_PAGE_SIZE_def)
    then show ?thesis
      using V2 x(1-3) x(4)[of "\<lparr>nd_address = x, nd_entries = [], nd_children = [], nd_node_type = ty, nd_version = V2 pg, nd_overflows = []\<rparr>"] h(2)[OF x(3)]
      by (auto simp: allocate_node_def simp del: fun_upd_apply split_paired_Ex)
  qed
qed

lemma deallocate_node_ok:
  assumes m: "synced m root len W r" and n: "W (nd_address n) = Some (nd_overflows n, F)"
  shows "ok (deallocate_node M m n) (\<lambda>m'. synced m' root len (W(nd_address n := None)) (Suc r))"
proof -
  obtain h where h: "nodes (bt_allocator m) h W r" "\<And>a W' r'. nodes a h W' r' \<Longrightarrow> synced (m\<lparr>bt_allocator := a\<rparr>) root len W' r'"
    by (rule syncedE[OF m]) blast
  from node_dealloc_ok[OF h(1) n] show ?thesis
    unfolding deallocate_node_def ok_bind by (rule ok_mono) (auto simp del: fun_upd_apply intro: h(2))
qed

lemma save_header_ok:
  assumes m: "nodes (bt_allocator m) h W r" "version_page_size (bt_version m) = pg"
  shows "ok (save_header M m) (\<lambda>m'. synced m' (bt_root_addr m) (bt_length m) W r)"
proof -
  let ?e = "encode_btree_header \<lparr>bh_version = bt_version m, bh_root_addr = bt_root_addr m, bh_length = bt_length m\<rparr>"
  have le: "0 + length ?e \<le> H"
    by (simp add: H ALLOCATOR_OFFSET_def)
  from heap_write_header[OF nodesD(3)[OF m(1)] le] show ?thesis
    unfolding save_header_def write_header_def Let_def ok_bind bt_memory_def
  proof (rule ok_mono)
    fix s
    assume s: "heap (bt_allocator m\<lparr>al_memory := s\<rparr>) (overwrite h 0 ?e) W (r + r * most + spare W)"
    then have "nodes (bt_allocator m\<lparr>al_memory := s\<rparr>) (overwrite h 0 ?e) W r"
      using m(1) by (simp add: nodes_def)
    moreover have "take 28 (overwrite h 0 ?e) = ?e"
      by (simp add: overwrite_def)
    ultimately show "ok (Some (bt_with_memory m s)) (\<lambda>m'. synced m' (bt_root_addr m) (bt_length m) W r)"
      using m(2) by (auto simp: synced_def bt_with_memory_def)
  qed
qed

text \<open>The operations on nodes in memory that the map calls.\<close>

lemma synced_mem:
  assumes m: "synced m root len W r" and op: "\<And>h. nodes (bt_allocator m) h W r \<Longrightarrow> ok f (Q h)"
    and imp: "\<And>h x. (\<And>s. nodes (bt_allocator m\<lparr>al_memory := s\<rparr>) h W r \<Longrightarrow> synced (bt_with_memory m s) root len W r) \<Longrightarrow> Q h x \<Longrightarrow> P x"
  shows "ok f P"
  by (rule syncedE[OF m]) (rule ok_mono[OF op imp])

lemma bt_swap_entry:
  assumes m: "synced m root len W r" and n: "node_is W n an" "i < length (an_entries an)"
  shows "ok (swap_entry K M n i e (bt_memory m)) (\<lambda>(old, n', s). old = an_entries an ! i \<and> synced (bt_with_memory m s) root len W r \<and>
    node_is W n' (an\<lparr>an_entries := (an_entries an)[i := e]\<rparr>) \<and> nd_address n' = nd_address n)"
  unfolding bt_memory_def by (rule synced_mem[OF m tree_swap_entry[OF _ n]]) auto

lemma bt_remove_entry:
  assumes m: "synced m root len W r" and n: "node_is W n an" "i < length (an_entries an)"
  shows "ok (remove_entry K M n i (bt_memory m)) (\<lambda>(e, n', s). e = an_entries an ! i \<and> synced (bt_with_memory m s) root len W r \<and>
    node_is W n' (an\<lparr>an_entries := take i (an_entries an) @ drop (Suc i) (an_entries an)\<rparr>) \<and> nd_address n' = nd_address n)"
  unfolding bt_memory_def by (rule synced_mem[OF m tree_remove_entry[OF _ n]]) auto

lemma bt_pop_entry:
  assumes m: "synced m root len W r" and n: "node_is W n an" "an_entries an \<noteq> []"
  shows "ok (pop_entry K M n (bt_memory m)) (\<lambda>(e, n', s). e = Some (last (an_entries an)) \<and> synced (bt_with_memory m s) root len W r \<and>
    node_is W n' (an\<lparr>an_entries := butlast (an_entries an)\<rparr>) \<and> nd_address n' = nd_address n)"
  unfolding bt_memory_def by (rule synced_mem[OF m tree_pop_entry[OF _ n]]) auto

lemma bt_extract_entry_at:
  assumes m: "synced m root len W r" and n: "node_is W n an" "i < length (an_entries an)"
  shows "ok (extract_entry_at K M n i (bt_memory m)) (\<lambda>(e, n', s). e = an_entries an ! i \<and> synced (bt_with_memory m s) root len W r)"
  unfolding bt_memory_def by (rule synced_mem[OF m tree_extract_entry_at[OF _ n]]) auto

lemma bt_split:
  assumes m: "synced m root len W r" and n: "node_is W n an" "good an" "length (an_entries an) = 11"
    and sib: "node_is W sib \<lparr>an_type = an_type an, an_entries = [], an_children = []\<rparr>"
  shows "ok (node_split K M n sib (bt_memory m)) (\<lambda>(e, n', sib', s). e = an_entries an ! 5 \<and> synced (bt_with_memory m s) root len W r \<and>
    nd_address n' = nd_address n \<and> nd_address sib' = nd_address sib \<and>
    node_is W n' (an\<lparr>an_entries := take 5 (an_entries an), an_children := take 6 (an_children an)\<rparr>) \<and>
    node_is W sib' (an\<lparr>an_entries := drop 6 (an_entries an), an_children := drop 6 (an_children an)\<rparr>))"
  unfolding bt_memory_def by (rule synced_mem[OF m tree_split[OF _ n sib]]) auto

lemma update_value_ok:
  assumes m: "synced m root len W r" and n: "node_is W n an" "i < length (an_entries an)"
    and g: "good (an\<lparr>an_entries := (an_entries an)[i := (fst (an_entries an ! i), v)]\<rparr>)"
  shows "ok (update_value K M m n i v) (\<lambda>(old, m'). old = snd (an_entries an ! i) \<and> (\<exists>raw. synced m' root len (W(nd_address n \<mapsto> raw)) r \<and>
    stored (W(nd_address n \<mapsto> raw)) (nd_address n) (an\<lparr>an_entries := (an_entries an)[i := (fst (an_entries an ! i), v)]\<rparr>)))"
proof -
  let ?an = "an\<lparr>an_entries := (an_entries an)[i := (fst (an_entries an ! i), v)]\<rparr>"
  obtain h where h: "nodes (bt_allocator m) h W r"
    "\<And>s. nodes (bt_allocator m\<lparr>al_memory := s\<rparr>) h W r \<Longrightarrow> synced (bt_with_memory m s) root len W r"
    by (rule syncedE[OF m]) blast
  from tree_swap_value[OF h(1) n, of v] obtain n1 s1 where 1: "swap_value M n i v (bt_memory m) = Some (snd (an_entries an ! i), n1, s1)"
    "synced (bt_with_memory m s1) root len W r" "node_is W n1 ?an" "nd_address n1 = nd_address n"
    unfolding bt_memory_def by (auto dest: h(2) elim!: ok_obtain)
  from save_node_ok[OF 1(2,3) g] obtain n2 m2 raw where "save_node K M (bt_with_memory m s1) n1 = Some (n2, m2)"
    "synced m2 root len (W(nd_address n \<mapsto> raw)) r" "stored (W(nd_address n \<mapsto> raw)) (nd_address n) ?an"
    unfolding 1(4) by (elim ok_obtain) blast
  then show ?thesis
    using 1(1) by (auto simp: update_value_def simp del: fun_upd_apply split_paired_Ex)
qed

lemma btree_merge_ok:
  assumes m: "synced m root len W r" and n: "node_is W n an" "good an" and b: "node_is W b bn" "good bn" and ty: "an_type an = an_type bn"
    and g: "good (merged right an e bn)" and ne: "nd_address n \<noteq> nd_address b"
  shows "ok (btree_merge K M m b n e) (\<lambda>(n', m'). \<exists>raw. synced m' root len (W(nd_address b := None, nd_address n \<mapsto> raw)) (Suc r) \<and>
    nd_address n' = nd_address n \<and> stored (W(nd_address b := None, nd_address n \<mapsto> raw)) (nd_address n) (merged right an e bn) \<and>
    node_is (W(nd_address b := None, nd_address n \<mapsto> raw)) n' (merged right an e bn))"
proof -
  obtain h where h: "nodes (bt_allocator m) h W r" "\<And>a W' r'. nodes a h W' r' \<Longrightarrow> synced (m\<lparr>bt_allocator := a\<rparr>) root len W' r'"
    by (rule syncedE[OF m]) blast
  from merge_ok[OF h(1) n b ty g ne] show ?thesis
    unfolding btree_merge_def ok_bind by (rule ok_mono) (clarsimp simp del: fun_upd_apply split_paired_Ex, blast intro: h(2))
qed

end

end
