(* ===== verification/BTree_Insert.thy ===== *)
theory BTree_Insert
  imports BTree_Tree
begin

text \<open>
  Look-up and insertion in the tree: \<open>traverse\<close> returns what the list of entries has for the key, the
  splitting of a full child keeps the entries, and the insertion into a node that is not full ends with
  a tree of the same height whose entries are \<open>ins key value\<close> of those before, having touched no other node.
\<close>

section \<open>Splitting a child\<close>

definition split_tree :: "address \<Rightarrow> 'k entry list \<Rightarrow> 'k btree list \<Rightarrow> nat \<Rightarrow> address \<Rightarrow> 'k btree" where
  "split_tree x es ts i z = (case ts ! i of BNode y ces cts \<Rightarrow>
     BNode x (take i es @ ces ! 5 # drop i es)
       (take i ts @ BNode y (take 5 ces) (take 6 cts) # BNode z (drop 6 ces) (drop 6 cts) # drop (Suc i) ts))"

lemma take_drop_12: "length ces = 11 \<Longrightarrow> take 5 ces @ ces ! 5 # drop 6 ces = ces"
  using id_take_nth_drop[of 5 ces] by simp

lemma split_tree_inorder:
  assumes ts: "length ts = length es + 1" "i < length ts" and c: "shape h (ts ! i)" "length (tree_entries (ts ! i)) = 11"
  shows "inorder (split_tree x es ts i z) = inorder (BNode x es ts)"
proof -
  obtain y ces cts where ci: "ts ! i = BNode y ces cts" "length ces = 11" "cts = [] \<or> length cts = 12"
    using c shape_entries(3)[OF c(1)] by (cases "ts ! i") auto
  have "weave (map inorder (take 6 cts)) (take 5 ces) @ ces ! 5 # weave (map inorder (drop 6 cts)) (drop 6 ces) = weave (map inorder cts) ces"
  proof (cases "cts = []")
    case True
    then show ?thesis
      using take_drop_12[OF ci(2)] by simp
  next
    case False
    then have "weave (map inorder (take 6 cts) @ map inorder (drop 6 cts)) (take 5 ces @ ces ! 5 # drop 6 ces) =
        weave (map inorder (take 6 cts)) (take 5 ces) @ ces ! 5 # weave (map inorder (drop 6 cts)) (drop 6 ces)"
      using ci(2,3) by (intro weave_split) auto
    then show ?thesis
      unfolding take_drop_12[OF ci(2)] map_append[symmetric] by simp
  qed
  moreover have len: "length (map inorder (take i ts)) = length (take i es)"
    using ts by simp
  have "inorder (split_tree x es ts i z) = pre (map inorder (take i ts)) (take i es) @
      (weave (map inorder (take 6 cts)) (take 5 ces) @ ces ! 5 # weave (map inorder (drop 6 cts)) (drop 6 ces)) @ post (map inorder (drop (Suc i) ts)) (drop i es)"
    using weave_at[OF len] by (simp add: split_tree_def ci(1))
  ultimately show ?thesis
    using inorder_child[of ts es i x] ts by (simp add: ci(1) before_def after_def)
qed

lemma split_tree_addrs:
  assumes i: "i < length ts" and z: "z \<notin> set (addrs (BNode x es ts))"
  shows "set (addrs (split_tree x es ts i z)) = insert z (set (addrs (BNode x es ts)))"
    "length (addrs (split_tree x es ts i z)) = Suc (length (addrs (BNode x es ts)))"
    "distinct (addrs (BNode x es ts)) \<Longrightarrow> distinct (addrs (split_tree x es ts i z))"
proof -
  obtain y ces cts where ci: "ts ! i = BNode y ces cts"
    by (cases "ts ! i")
  have ts: "ts = take i ts @ BNode y ces cts # drop (Suc i) ts"
    using id_take_nth_drop[OF i] ci by simp
  define A B where AB: "A = take i ts" "B = drop (Suc i) ts"
  have ts: "ts = A @ BNode y ces cts # B"
    using ts unfolding AB .
  have st: "split_tree x es ts i z = BNode x (take i es @ ces ! 5 # drop i es)
      (A @ BNode y (take 5 ces) (take 6 cts) # BNode z (drop 6 ces) (drop 6 cts) # B)"
    by (simp add: split_tree_def ci AB)
  have cc: "concat (map addrs cts) = concat (map addrs (take 6 cts)) @ concat (map addrs (drop 6 cts))"
    unfolding concat_append[symmetric] map_append[symmetric] by simp
  have a: "addrs (BNode x es ts) = x # concat (map addrs A) @ y # concat (map addrs (take 6 cts)) @ concat (map addrs (drop 6 cts)) @ concat (map addrs B)"
    unfolding ts by (simp add: cc)
  have b: "addrs (split_tree x es ts i z) = x # concat (map addrs A) @ y # concat (map addrs (take 6 cts)) @ z # concat (map addrs (drop 6 cts)) @ concat (map addrs B)"
    unfolding st by simp
  show "set (addrs (split_tree x es ts i z)) = insert z (set (addrs (BNode x es ts)))"
    "length (addrs (split_tree x es ts i z)) = Suc (length (addrs (BNode x es ts)))"
    unfolding a b by auto
  show "distinct (addrs (BNode x es ts)) \<Longrightarrow> distinct (addrs (split_tree x es ts i z))"
    using z unfolding a b by auto
qed

lemma split_tree_shape:
  assumes ts: "length ts = length es + 1" "i < length ts" "length es < 11"
    and c: "\<And>t. t \<in> set ts \<Longrightarrow> shape h t" "\<And>t. t \<in> set ts \<Longrightarrow> 5 \<le> length (tree_entries t)" "length (tree_entries (ts ! i)) = 11"
  shows "shape (Suc h) (split_tree x es ts i z)"
proof -
  obtain y ces cts where ci: "ts ! i = BNode y ces cts" "length ces = 11"
    using c(3) by (cases "ts ! i") auto
  have "shape h (BNode y ces cts)"
    using c(1)[OF nth_mem[OF ts(2)]] ci(1) by simp
  then have "shape h (BNode y (take 5 ces) (take 6 cts))" "shape h (BNode z (drop 6 ces) (drop 6 cts))"
    using ci(2) by (cases h; auto dest: in_set_takeD in_set_dropD)+
  then show ?thesis
    using ts c(1,2) ci by (auto simp: split_tree_def dest: in_set_takeD in_set_dropD)
qed

lemma found_in: "found_at (map fst es) key (Inr i) \<Longrightarrow> key \<in> fst ` set es"
  by (metis found_entry(1,2) imageI nth_mem)

text \<open>After the split, the search in the parent leads to one of the two halves.\<close>

lemma split_position:
  assumes i: "found_at (map fst es) key (Inl i)" and p: "found_at (map fst ces) key (Inl p)" "e \<in> set ces"
    and res: "found_at (map fst (take i es @ e # drop i es)) key res"
  obtains j where "res = Inl j" "j = i \<or> j = Suc i"
proof -
  let ?es = "take i es @ e # drop i es"
  have notin: "key \<notin> fst ` set ys" if "found_at (map fst ys) key (Inl q)" for ys q
  proof -
    have "set ys = set (take q ys) \<union> set (drop q ys)"
      by (metis append_take_drop_id set_append)
    then show ?thesis
      using found_between(2,3)[OF that] by (auto simp: all_below_def all_above_def)
  qed
  have "key \<notin> fst ` set ?es"
    using notin[OF i] notin[OF p(1)] p(2) by (auto dest: in_set_takeD in_set_dropD)
  then obtain j where j: "res = Inl j"
    using found_in[of ?es key] res by (cases res) blast+
  have order: "k < q \<Longrightarrow> fst (ys ! k) < key" "q \<le> k \<Longrightarrow> k < length ys \<Longrightarrow> key < fst (ys ! k)" "q \<le> length ys"
    if "found_at (map fst ys) key (Inl q)" for ys k q
    using that by (auto simp: found_at_def)
  note a = order[OF i] and b = order[OF res[unfolded j]]
  have "?es ! j = es ! j" if "j < i"
    using that a(3) by (simp add: nth_append)
  then have "\<not> j < i"
    using a(1)[of j] b(2)[of j] a(3) by fastforce
  moreover have "?es ! Suc i = es ! i"
    using a(3) by (simp add: nth_append)
  then have "\<not> Suc i < j"
    using a(2)[of i] b(1)[of "Suc i"] b(3) by fastforce
  ultimately show thesis
    using that[OF j] by linarith
qed

context btree_store
begin

section \<open>Replacing a child\<close>

lemma plug:
  assumes t: "tree_at W (BNode x es ts)" "distinct (addrs (BNode x es ts))" "i < length ts"
    and c: "tree_at W' c" "evolves W (set (addrs (ts ! i))) W' (set (addrs c))" "tree_addr c = tree_addr (ts ! i)" "distinct (addrs c)"
  shows "tree_at W' (BNode x es (ts[i := c]))" "distinct (addrs (BNode x es (ts[i := c])))" "W' x = W x"
    "evolves W (set (addrs (BNode x es ts))) W' (set (addrs (BNode x es (ts[i := c]))))"
proof -
  let ?Y = "insert x (\<Union>t \<in> set (take i ts) \<union> set (drop (Suc i) ts). set (addrs t))"
  have eq: "ts[i := ts ! i] = ts"
    by simp
  note old = addrs_child[OF t(3), of x es "ts ! i", unfolded eq] and new = addrs_child[OF t(3), of x es c]
  have dom: "set (addrs (BNode x es ts)) \<subseteq> dom W"
    by (rule tree_at_dom[OF t(1)])
  then have Y: "?Y \<subseteq> dom W" "set (addrs (ts ! i)) \<inter> ?Y = {}"
    using old(3) t(2) unfolding old(1) by blast+
  note fr = evolves_frame[OF c(2) Y]
  show "evolves W (set (addrs (BNode x es ts))) W' (set (addrs (BNode x es (ts[i := c]))))"
    unfolding old(1) new(1) by (rule fr(1))
  show "distinct (addrs (BNode x es (ts[i := c])))"
    using old(3) t(2) c(4) fr(2) unfolding new(3) by simp
  show W: "W' x = W x"
    by (rule fr(3)) simp
  have an: "anode_of (BNode x es (ts[i := c])) = anode_of (BNode x es ts)"
    using c(3) t(3) by (simp add: anode_of_def map_update list_update_same_conv)
  have "tree_at W' t" if "t \<in> set (take i ts) \<union> set (drop (Suc i) ts)" for t
  proof -
    have "tree_at W t"
      using that t(1) by (auto dest: in_set_takeD in_set_dropD)
    moreover have "W' y = W y" if "y \<in> set (addrs t)" for y
      using that \<open>t \<in> _\<close> by (intro fr(3)) blast
    ultimately show ?thesis
      using tree_at_cong[of t W' W] by blast
  qed
  moreover have "set (ts[i := c]) = insert c (set (take i ts) \<union> set (drop (Suc i) ts))"
    using t(3) by (simp add: upd_conv_take_nth_drop)
  moreover have "stored W' x (anode_of (BNode x es ts))"
    using t(1) stored_cong[of W' x W] W by simp
  ultimately show "tree_at W' (BNode x es (ts[i := c]))"
    unfolding tree_at.simps an using c(1) by simp
qed

lemma node_is_dom: "node_is W n an \<Longrightarrow> nd_address n \<in> dom W"
  by (erule node_is_raw) (rule domI)

lemma trees_dom: "\<forall>t \<in> set ts. tree_at W t \<Longrightarrow> x \<in> dom W \<Longrightarrow> set (addrs (BNode x es ts)) \<subseteq> dom W"
  using tree_at_dom by (simp; blast)

lemma kid_dom: "tree_at W k \<Longrightarrow> tree_addr k \<in> dom W"
  using tree_at_dom tree_addr_in by blast

lemma tree_atI: "stored W x (anode_of (BNode x es ts)) \<Longrightarrow> (\<And>t. t \<in> set ts \<Longrightarrow> tree_at W t) \<Longrightarrow> tree_at W (BNode x es ts)"
  by simp

lemma stored_good: "stored W x an \<Longrightarrow> good an"
  by (simp add: stored_def)

lemma content_tree: "content (inorder t) \<Longrightarrow> shape h t \<Longrightarrow> content (tree_entries t)"
  using content_weave[of "map inorder (tree_kids t)" "tree_entries t"] shape_entries(3)[of h t] by (cases t) auto

section \<open>Look-up\<close>

lemma content_sorted: "content es \<Longrightarrow> sorted_keys es"
  by (simp add: content_def)

lemma traverse_ok:
  assumes f: "\<And>m n an i. synced m root len W r \<Longrightarrow> node_is W n an \<Longrightarrow> i < length (an_entries an) \<Longrightarrow>
    ok (f n i (bt_memory m)) (\<lambda>(x, s). x = g (snd (an_entries an ! i)) \<and> synced (bt_with_memory m s) root len W r)"
  shows "synced m root len W r \<Longrightarrow> tree_at W t \<Longrightarrow> shape h t \<Longrightarrow> content (inorder t) \<Longrightarrow>
    ok (traverse K M m (tree_addr t) key f) (\<lambda>(x, m'). x = map_option g (map_of (inorder t) key) \<and> synced m' root len W r)"
proof (induction t arbitrary: m h)
  case (BNode x es ts)
  let ?t = "BNode x es ts"
  from load_node_ok[OF BNode.prems(1) tree_at_root[OF BNode.prems(2)]] obtain n1 m1 where
    1: "load_node K M m x = Some (n1, m1)" "synced m1 root len W r" "node_is W n1 (anode_of ?t)"
    by (auto elim!: ok_obtain)
  have es: "sorted_keys (an_entries (anode_of ?t))"
    using content_sorted[OF content_tree[OF BNode.prems(4,3)]] by simp
  from search_node_ok[OF 1(2,3) es, of key] obtain res n2 m2 where
    2: "search_node K M m1 n1 key = Some (res, n2, m2)" "synced m2 root len W r" "node_is W n2 (anode_of ?t)" "found_at (map fst es) key res"
    by (auto elim!: ok_obtain)
  have ty: "nd_node_type n2 = Leaf \<longleftrightarrow> ts = []" "nd_children n2 = map tree_addr ts"
    using 2(3) by (auto simp: node_is_def)
  note so = content_sorted[OF BNode.prems(4)]
  show ?case
  proof (cases res)
    case (Inr i)
    with 2(4) have fi: "found_at (map fst es) key (Inr i)"
      by simp
    obtain xs ys where "inorder (BNode x es ts) = xs @ (key, snd (es ! i)) # ys"
      by (rule inorder_entry[OF BNode.prems(3) fi]) metis
    then have "map_of (inorder ?t) key = Some (snd (es ! i))"
      using map_of_here[of xs key "snd (es ! i)" ys] so by simp
    with f[OF 2(2,3), of i] found_entry(1)[OF fi] show ?thesis
      by (subst traverse.simps) (auto simp: 1(1) 2(1) Inr elim!: ok_mono)
  next
    case (Inl i)
    with 2(4) have fi: "found_at (map fst es) key (Inl i)"
      by simp
    show ?thesis
    proof (cases "ts = []")
      case True
      then have "map_of (inorder ?t) key = None"
        using found_between[OF fi] lookup_frame[of "take i es" key "drop i es" "[]"] by simp
      then show ?thesis
        using True ty 2(2) by (subst traverse.simps) (simp add: 1(1) 2(1) Inl)
    next
      case False
      then obtain h' where h: "h = Suc h'" "length ts = length es + 1"
        using BNode.prems(3) by (cases h) auto
      note b = between_child[OF so h(2) fi]
      have split: "inorder ?t = before i es ts @ inorder (ts ! i) @ after i es ts"
        using b(3) h(2) by (intro inorder_child) simp_all
      have c: "ts ! i \<in> set ts"
        using b(3) by simp
      have "ok (traverse K M m2 (tree_addr (ts ! i)) key f) (\<lambda>(x, m'). x = map_option g (map_of (inorder (ts ! i)) key) \<and> synced m' root len W r)"
        using BNode.prems(2,3) c content_part[OF BNode.prems(4)[unfolded split]] h(1) by (intro BNode.IH[OF c 2(2)]) auto
      moreover have "map_of (inorder ?t) key = map_of (inorder (ts ! i)) key"
        unfolding split by (rule lookup_frame[OF b(1,2)])
      moreover have "nd_node_type n2 = Internal"
        using False ty(1) by (cases "nd_node_type n2") auto
      ultimately show ?thesis
        using b(3) ty(2) by (subst traverse.simps) (simp add: 1(1) 2(1) Inl node_child_def)
    qed
  qed
qed

section \<open>Insertion\<close>

lemma split_child_ok:
  assumes m: "synced m root len W (Suc r)" and n: "node_is W n \<lparr>an_type = Internal, an_entries = es, an_children = map tree_addr ts\<rparr>"
      "nd_address n = x"
    and kids: "\<forall>t \<in> set ts. tree_at W t \<and> shape h t \<and> 5 \<le> length (tree_entries t)" and d: "distinct (addrs (BNode x es ts))"
    and ts: "length ts = length es + 1" "length es < 11" "i < length ts" "length (tree_entries (ts ! i)) = 11"
    and con: "content (inorder (BNode x es ts))"
  shows "ok (split_child K M m n i) (\<lambda>(n', m'). \<exists>W' z. synced m' root len W' r \<and> tree_at W' (split_tree x es ts i z) \<and>
    node_is W' n' (anode_of (split_tree x es ts i z)) \<and> nd_address n' = x \<and> z \<notin> set (addrs (BNode x es ts)) \<and>
    evolves W (set (addrs (BNode x es ts))) W' (set (addrs (split_tree x es ts i z))))"
proof -
  obtain y ces cts where ci: "ts ! i = BNode y ces cts" "length ces = 11"
    using ts(4) by (cases "ts ! i") auto
  let ?c = "BNode y ces cts" and ?ay = "anode_of (BNode y ces cts)"
  have c: "tree_at W ?c" "shape h ?c" "?c \<in> set ts"
    using kids nth_mem[OF ts(3)] ci(1) by auto
  from shape_entries(3)[OF c(2)] have cts: "cts = [] \<or> length cts = 12"
    using ci(2) by simp
  from load_node_ok[OF m tree_at_root[OF c(1)]] obtain fc m1 where
    1: "load_node K M m y = Some (fc, m1)" "synced m1 root len W (Suc r)" "node_is W fc ?ay" "nd_address fc = y"
    by (auto elim!: ok_obtain)
  have dom: "x \<in> dom W" "y \<in> dom W"
    using node_is_dom[OF n(1)] n(2) node_is_dom[OF 1(3)] 1(4) by simp_all
  then have domt: "set (addrs (BNode x es ts)) \<subseteq> dom W"
    using kids by (intro trees_dom) simp_all
  from allocate_node_ok[OF 1(2), of "an_type ?ay"] obtain sib m2 raw0 where
    2: "allocate_node M m1 (an_type ?ay) = Some (sib, m2)" "W (nd_address sib) = None" "synced m2 root len (W(nd_address sib \<mapsto> raw0)) r"
      "node_is (W(nd_address sib \<mapsto> raw0)) sib \<lparr>an_type = an_type ?ay, an_entries = [], an_children = []\<rparr>"
    by (elim ok_obtain) blast
  define z where "z = nd_address sib"
  let ?W1 = "W(z \<mapsto> raw0)"
  note 2 = 2[folded z_def]
  have ne: "z \<noteq> x" "z \<noteq> y" "z \<notin> set (addrs (BNode x es ts))"
    using 2(2) dom domt by (auto simp: domIff)
  have xy: "x \<noteq> y" "x \<notin> set (addrs ?c)"
    using d c(3) by auto
  define cs where "cs = take (i + 1) (map tree_addr ts) @ z # drop (i + 1) (map tree_addr ts)"
  let ?n = "n\<lparr>nd_children := cs\<rparr>"
  have n1: "node_is ?W1 ?n \<lparr>an_type = Internal, an_entries = es, an_children = cs\<rparr>"
    using tree_children[OF n(1), of cs] node_is_cong[of ?W1 ?n W] n(2) ne(1) by simp
  have fc: "node_is ?W1 fc ?ay"
    using 1(3,4) ne(2) node_is_cong[of ?W1 fc W] by simp
  from bt_split[OF 2(3) fc stored_good[OF tree_at_root[OF c(1)]] _ 2(4)] ci(2) obtain fc2 sib2 s where
    3: "node_split K M fc sib (bt_memory m2) = Some (ces ! 5, fc2, sib2, s)" "synced (bt_with_memory m2 s) root len ?W1 r"
      "nd_address fc2 = y" "nd_address sib2 = z"
      "node_is ?W1 fc2 (?ay\<lparr>an_entries := take 5 ces, an_children := take 6 (map tree_addr cts)\<rparr>)"
      "node_is ?W1 sib2 (?ay\<lparr>an_entries := drop 6 ces, an_children := drop 6 (map tree_addr cts)\<rparr>)"
    using 1(4) by (auto simp: z_def elim!: ok_obtain)
  let ?c1 = "BNode y (take 5 ces) (take 6 cts)" and ?c2 = "BNode z (drop 6 ces) (drop 6 cts)" and ?t = "split_tree x es ts i z"
  have an: "?ay\<lparr>an_entries := take 5 ces, an_children := take 6 (map tree_addr cts)\<rparr> = anode_of ?c1"
    "?ay\<lparr>an_entries := drop 6 ces, an_children := drop 6 (map tree_addr cts)\<rparr> = anode_of ?c2"
    using cts by (auto simp: anode_of_def take_map drop_map)
  have ile: "i \<le> length es"
    using ts(1,3) by simp
  from tree_insert_entry[OF n1, of i "ces ! 5"] ile n(2) obtain n2 where 4: "insert_entry ?n i (ces ! 5) = Some n2" "nd_address n2 = x"
    "node_is ?W1 n2 \<lparr>an_type = Internal, an_entries = take i es @ ces ! 5 # drop i es, an_children = cs\<rparr>"
    by (auto elim!: ok_obtain)
  have ant: "\<lparr>an_type = Internal, an_entries = take i es @ ces ! 5 # drop i es, an_children = cs\<rparr> = anode_of ?t"
    using ts(3) ci(1) by (simp add: anode_of_def split_tree_def cs_def take_Suc_conv_app_nth take_map drop_map)
  have shp: "shape (Suc h) ?t"
    using kids ts by (intro split_tree_shape) auto
  have con_c: "content ces"
    using content_tree[OF content_part[OF con[unfolded inorder_child[OF ts(1) ile]]], of h] ci(1) c(2) by simp
  have "content (inorder ?t)"
    using con split_tree_inorder[OF ts(1,3) _ ts(4), of h x z] kids nth_mem[OF ts(3)] by simp
  from content_tree[OF this shp] have con_t: "content (tree_entries ?t)" .
  have kdom: "\<forall>k \<in> set cts. tree_addr k \<in> dom ?W1"
    using kid_dom c(1) unfolding tree_at.simps dom_fun_upd by simp
  have g: "good (anode_of ?c1)" "good (anode_of ?c2)"
    using content_part[of "[]" "take 5 ces" "drop 5 ces"] content_part[of "take 6 ces" "drop 6 ces" "[]"] con_c ci(2) cts kdom
    by (intro synced_good[OF 3(2)]; auto dest: in_set_takeD in_set_dropD)+
  have "tree_addr k \<in> dom ?W1" if "k \<in> set (tree_kids ?t)" for k
  proof -
    have "k = ?c1 \<or> k = ?c2 \<or> k \<in> set ts"
      using that by (auto simp: split_tree_def ci(1) dest: in_set_takeD in_set_dropD)
    moreover have "tree_addr k \<in> dom W" if "k \<in> set ts"
      using kid_dom[of W k] kids that by blast
    ultimately show ?thesis
      using dom by auto
  qed
  then have g3: "good (anode_of ?t)"
    using shape_entries[OF shp] by (intro synced_good[OF 3(2) con_t]) blast+
  from save_node_ok[OF 3(2) 3(6)[unfolded an] g(2)] obtain sib3 m3 r1 where
    5: "save_node K M (bt_with_memory m2 s) sib2 = Some (sib3, m3)" "synced m3 root len (?W1(z \<mapsto> r1)) r" "stored (?W1(z \<mapsto> r1)) z (anode_of ?c2)"
    unfolding 3(4) by (elim ok_obtain) blast
  let ?W2 = "?W1(z \<mapsto> r1)"
  have "node_is ?W2 fc2 (anode_of ?c1)"
    using 3(3,5) an(1) ne(2) node_is_cong[of ?W2 fc2 ?W1] by simp
  from save_node_ok[OF 5(2) this g(1)] obtain fc3 m4 r2 where
    6: "save_node K M m3 fc2 = Some (fc3, m4)" "synced m4 root len (?W2(y \<mapsto> r2)) r" "stored (?W2(y \<mapsto> r2)) y (anode_of ?c1)"
    unfolding 3(3) by (elim ok_obtain) blast
  let ?W3 = "?W2(y \<mapsto> r2)"
  have "node_is ?W3 n2 (anode_of ?t)"
    using 4(2,3) ant ne(1) xy(1) node_is_cong[of ?W3 n2 ?W1] by simp
  from save_node_ok[OF 6(2) this g3] obtain n3 m5 r3 where
    7: "save_node K M m4 n2 = Some (n3, m5)" "synced m5 root len (?W3(x \<mapsto> r3)) r" "stored (?W3(x \<mapsto> r3)) x (anode_of ?t)"
      "node_is (?W3(x \<mapsto> r3)) n3 (anode_of ?t)" "nd_address n3 = x"
    unfolding 4(2) by (elim ok_obtain) blast
  let ?W4 = "?W3(x \<mapsto> r3)"
  have ch: "nd_children n = map tree_addr ts" "length (nd_entries n) = length es" "length (nd_entries fc) = 11" "nd_node_type fc = an_type ?ay"
    "nd_node_type sib = an_type ?ay"
    using n(1) node_is_length[OF n(1)] node_is_length[OF 1(3)] 1(3) 2(4) ci(2) by (simp_all add: node_is_def)
  have "insert_child n (i + 1) z = Some ?n"
    using ts(3) by (simp add: insert_child_def vec_insert_def ch(1) cs_def)
  then have "split_child K M m n i = Some (n3, m5)"
    using 1(1) 2(1) 3(1) 4(1) 5(1) 6(1) 7(1) ts(2,3) ci(1)
    by (simp add: split_child_def is_full_def CAPACITY_def node_child_def ch z_def)
  moreover have "tree_at ?W4 ?t"
  proof -
    have "ts[i := BNode y ces cts] = ts"
      using ci(1) by (metis list_update_id)
    from addrs_child(3)[OF ts(3), of x es ?c, unfolded this] d have apart: "set (addrs ?c) \<inter> (\<Union>t \<in> set (take i ts) \<union> set (drop (Suc i) ts). set (addrs t)) = {}" "distinct (addrs ?c)"
      by simp_all
    have old: "tree_at ?W4 k" if "tree_at W k" "x \<notin> set (addrs k)" "y \<notin> set (addrs k)" "z \<notin> set (addrs k)" for k
      using that by simp
    have sub: "tree_at ?W4 k" if "k \<in> set cts" for k
    proof (rule old)
      show "tree_at W k" "x \<notin> set (addrs k)" "y \<notin> set (addrs k)"
        using c(1) that xy(2) apart(2) by auto
      have "set (addrs k) \<subseteq> set (addrs ?c)"
        using that by auto
      then show "z \<notin> set (addrs k)"
        using ne(3) c(3) by force
    qed
    have rest: "tree_at ?W4 k" if k: "k \<in> set (take i ts) \<union> set (drop (Suc i) ts)" for k
    proof (rule old)
      have "k \<in> set ts"
        using k by (auto dest: in_set_takeD in_set_dropD)
      then show "tree_at W k" "x \<notin> set (addrs k)" "z \<notin> set (addrs k)"
        using kids d ne(3) by auto
      show "y \<notin> set (addrs k)"
        using apart(1) k by auto
    qed
    have c12: "tree_at ?W4 ?c1" "tree_at ?W4 ?c2"
      using sub 6(3) xy(1) stored_cong[of ?W4 y ?W3] 5(3) ne stored_cong[of ?W4 z ?W2] by (auto dest: in_set_takeD in_set_dropD)
    have st: "?t = BNode x (take i es @ ces ! 5 # drop i es) (take i ts @ ?c1 # ?c2 # drop (Suc i) ts)"
      by (simp add: split_tree_def ci(1))
    show ?thesis
      unfolding st
    proof (rule tree_atI)
      show "tree_at ?W4 k" if "k \<in> set (take i ts @ ?c1 # ?c2 # drop (Suc i) ts)" for k
        using that rest c12 unfolding set_append list.set by blast
    qed (rule 7(3)[unfolded st])
  qed
  moreover have "evolves W (set (addrs (BNode x es ts))) ?W4 (set (addrs ?t))"
  proof -
    let ?X = "set (addrs (BNode x es ts))"
    have "y \<in> ?X"
      using c(3) by force
    moreover have "evolves W ?X ?W1 (insert z ?X)"
      using 2(2) domt by (intro evolves_alloc)
    ultimately have "evolves W ?X ?W4 (insert z ?X)"
      using domt by (elim evolves_trans) (intro evolves_trans[OF evolves_save evolves_trans[OF evolves_save evolves_save]]; auto)
    then show ?thesis
      unfolding split_tree_addrs(1)[OF ts(3) ne(3)] .
  qed
  ultimately show ?thesis
    using 7(2,4,5) ne(3) by auto
qed

text \<open>
  The tree \<open>t\<close> has become \<open>t'\<close>, at the same address; \<open>ins_post\<close> is what an insertion into the subtree \<open>t\<close> of a map
  with \<open>len\<close> entries ends with.
\<close>

definition moved :: "node_heap \<Rightarrow> 'k btree \<Rightarrow> nat \<Rightarrow> node_heap \<Rightarrow> 'k btree \<Rightarrow> nat \<Rightarrow> bool" where
  "moved W t r W' t' r' \<longleftrightarrow> tree_at W' t' \<and> distinct (addrs t') \<and> tree_addr t' = tree_addr t \<and>
     evolves W (set (addrs t)) W' (set (addrs t')) \<and> r' + length (addrs t') = r + length (addrs t)"

definition ins_post :: "address \<Rightarrow> nat \<Rightarrow> node_heap \<Rightarrow> nat \<Rightarrow> nat \<Rightarrow> 'k btree \<Rightarrow> 'k \<Rightarrow> bytes \<Rightarrow> bytes option \<times> 's btree_map \<Rightarrow> bool" where
  "ins_post root len W r h t key v res \<longleftrightarrow> fst res = map_of (inorder t) key \<and> (\<exists>W' t' r'.
     synced (snd res) root (if fst res = None then Suc len else len) W' r' \<and> moved W t r W' t' r' \<and> shape h t' \<and>
     length (tree_entries t) \<le> length (tree_entries t') \<and> inorder t' = ins key v (inorder t))"

lemma ins_postI:
  assumes "fst res = map_of (inorder t) key" "synced (snd res) root (if fst res = None then Suc len else len) W' r'" "moved W t r W' t' r'"
    "shape h t'" "length (tree_entries t) \<le> length (tree_entries t')" "inorder t' = ins key v (inorder t)"
  shows "ins_post root len W r h t key v res"
  using assms unfolding ins_post_def by blast

lemma ins_postE:
  assumes "ins_post root len W r h t key v res"
  obtains W' t' r' where "fst res = map_of (inorder t) key" "synced (snd res) root (if fst res = None then Suc len else len) W' r'"
    "moved W t r W' t' r'" "shape h t'" "length (tree_entries t) \<le> length (tree_entries t')" "inorder t' = ins key v (inorder t)"
  using assms unfolding ins_post_def by blast

lemma moved_plug:
  assumes t: "tree_at W (BNode x es ts)" "distinct (addrs (BNode x es ts))" "i < length ts" and c: "moved W (ts ! i) r W' c r'"
  shows "moved W (BNode x es ts) r W' (BNode x es (ts[i := c])) r'" "W' x = W x"
  using plug[OF t, of W' c] addrs_child(2)[OF t(3), of x es c] c by (auto simp: moved_def simp del: addrs.simps)

lemma moved_trans: "moved W t r W1 t1 r1 \<Longrightarrow> moved W1 t1 r1 W2 t2 r2 \<Longrightarrow> moved W t r W2 t2 r2"
  using evolves_trans by (auto simp: moved_def)

lemma ins_post_plug:
  assumes t: "tree_at W (BNode x es ts)" "distinct (addrs (BNode x es ts))" "shape (Suc h) (BNode x es ts)" "content (inorder (BNode x es ts))"
    and i: "found_at (map fst es) key (Inl i)" and c: "ins_post root len W r h (ts ! i) key v res"
  shows "ins_post root len W r (Suc h) (BNode x es ts) key v res"
proof -
  have ts: "length ts = length es + 1"
    using t(3) by simp
  note b = between_child[OF content_sorted[OF t(4)] ts i]
  have ile: "i \<le> length es"
    using b(3) ts by simp
  obtain W' c' r' where c': "fst res = map_of (inorder (ts ! i)) key" "synced (snd res) root (if fst res = None then Suc len else len) W' r'"
    "moved W (ts ! i) r W' c' r'" "shape h c'" "length (tree_entries (ts ! i)) \<le> length (tree_entries c')" "inorder c' = ins key v (inorder (ts ! i))"
    by (rule ins_postE[OF c])
  have "5 \<le> length (tree_entries (ts ! i))"
    using t(3) nth_mem[OF b(3)] by simp
  then have "shape (Suc h) (BNode x es (ts[i := c']))"
    using c'(4,5) by (intro shape_plug[OF t(3) b(3)]) simp_all
  moreover have "inorder (BNode x es (ts[i := c'])) = ins key v (inorder (BNode x es ts))"
    unfolding inorder_update[OF ts ile] inorder_child[OF ts ile] c'(6) by (rule ins_frame[OF b(1,2), symmetric])
  moreover have "fst res = map_of (inorder (BNode x es ts)) key"
    unfolding c'(1) inorder_child[OF ts ile] by (rule lookup_frame[OF b(1,2), symmetric])
  ultimately show ?thesis
    by (intro ins_postI[OF _ c'(2) moved_plug(1)[OF t(1,2) b(3) c'(3)]]) simp_all
qed

lemma ins_post_after:
  assumes "moved W t r W1 t1 r1" "inorder t1 = inorder t" "length (tree_entries t) \<le> length (tree_entries t1)"
    "ins_post root len W1 r1 h t1 key v res"
  shows "ins_post root len W r h t key v res"
  by (rule ins_postE[OF assms(4)]) (rule ins_postI[OF _ _ moved_trans[OF assms(1)]], use assms(2,3) in auto)

text \<open>The key is in the node: its value is replaced.\<close>

lemma update_here:
  assumes m: "synced m root len W r" and t: "tree_at W t" "distinct (addrs t)" "shape h t" "content (inorder t)"
    and n: "node_is W n (anode_of t)" "nd_address n = tree_addr t" and i: "found_at (map fst (tree_entries t)) key (Inr i)"
    and v: "length v \<le> vb"
  shows "ok (update_value K M m n i v) (\<lambda>(old, m'). ins_post root len W r h t key v (Some old, m'))"
proof -
  obtain x es ts where T: "t = BNode x es ts"
    by (cases t)
  let ?t = "BNode x (es[i := (key, v)]) ts"
  have fi: "found_at (map fst es) key (Inr i)"
    using i T by simp
  note f = found_entry[OF fi]
  obtain xs ys where e: "\<And>w. inorder (BNode x (es[i := (key, w)]) ts) = xs @ (key, w) # ys" "es[i := (key, snd (es ! i))] = es"
    by (rule inorder_entry[OF t(3)[unfolded T] fi]) blast
  have io: "inorder t = xs @ (key, snd (es ! i)) # ys"
    using e(1)[of "snd (es ! i)"] e(2) T by simp
  note ab = sorted_keys_parts[OF content_sorted[OF t(4), unfolded io]]
  have "valid key"
    using t(4) unfolding io by (auto simp: content_def)
  then have con: "content (ins key v (inorder t))"
    by (intro content_ins[OF t(4)] v)
  have io': "inorder ?t = ins key v (inorder t)"
    unfolding e(1) io using ins_here[OF ab] by simp
  have sh: "shape h ?t"
    using t(3) T by (cases h) auto
  have an: "anode_of t\<lparr>an_entries := (tree_entries t)[i := (fst (tree_entries t ! i), v)]\<rparr> = anode_of ?t"
    using f(2) by (simp add: anode_of_def T)
  have "good (anode_of ?t)"
    using content_tree[OF con[folded io'] sh] shape_entries[OF sh] t(1) kid_dom by (intro synced_good[OF m]) (auto simp: T)
  with update_value_ok[OF m n(1), of i v, unfolded anode_of_simps an] f(1) obtain old m' raw where
    u: "update_value K M m n i v = Some (snd (es ! i), m')" "synced m' root len (W(x \<mapsto> raw)) r" "stored (W(x \<mapsto> raw)) x (anode_of ?t)"
    using n(2) by (auto simp: T simp del: fun_upd_apply split_paired_Ex elim!: ok_obtain)
  have "tree_at (W(x \<mapsto> raw)) ?t"
    using u(3) t(1,2) by (intro tree_atI) (auto simp: T)
  moreover have "evolves W (set (addrs t)) (W(x \<mapsto> raw)) (set (addrs ?t))"
    using evolves_save[OF _ tree_at_dom[OF t(1)], of x raw] by (simp add: T)
  ultimately have mv: "moved W t r (W(x \<mapsto> raw)) ?t r"
    using t(2) by (simp add: moved_def T)
  have "map_of (inorder t) key = Some (snd (es ! i))"
    unfolding io by (rule map_of_here[OF content_sorted[OF t(4), unfolded io]])
  then show ?thesis
    unfolding u(1) ok_Some case_prod_conv using u(2) by (intro ins_postI[OF _ _ mv sh _ io']) (simp_all add: T)
qed

lemma bt_save_header:
  assumes "synced m root len W r" "bt_allocator m' = bt_allocator m" "bt_version m' = bt_version m"
  shows "ok (save_header M m') (\<lambda>m''. synced m'' (bt_root_addr m') (bt_length m') W r)"
  using save_header_ok[of m' _ W r] assms by (auto simp: synced_def[of m])

text \<open>A new entry in a leaf; the leaf may be the empty one that becomes the root of an empty map.\<close>

lemma insert_leaf:
  assumes m: "synced m root len W r" and n: "node_is W n \<lparr>an_type = Leaf, an_entries = es, an_children = []\<rparr>" "nd_address n = x"
    and es: "content es" "length es < 11" and i: "found_at (map fst es) key (Inl i)" and v: "valid key" "length v \<le> vb" "len < U64_MAX"
  shows "ok (do {
      node \<leftarrow> insert_entry n i (key, v);
      (node, m) \<leftarrow> save_node K M m node;
      length \<leftarrow> u64_add (bt_length m) 1;
      m \<leftarrow> save_header M (m\<lparr>bt_length := length\<rparr>);
      Some (None :: bytes option, m) }) (\<lambda>(old, m'). old = None \<and> (\<exists>raw. synced m' root (Suc len) (W(x \<mapsto> raw)) r \<and>
        tree_at (W(x \<mapsto> raw)) (BNode x (ins key v es) [])))"
proof -
  note b = found_between[OF i]
  have ie: "take i es @ (key, v) # drop i es = ins key v es"
    using ins_new[OF b(2,3), of v] by simp
  have con: "content (ins key v es)"
    by (rule content_ins[OF es(1) v(1,2)])
  have an: "\<lparr>an_type = Leaf, an_entries = ins key v es, an_children = []\<rparr> = anode_of (BNode x (ins key v es) [])"
    by (simp add: anode_of_def)
  have "length (ins key v es) = Suc (length es)"
    unfolding ie[symmetric] using b(1) by simp
  then have g: "good (anode_of (BNode x (ins key v es) []))"
    using es(2) con by (intro synced_good[OF m]) auto
  from tree_insert_entry[OF n(1), of i "(key, v)"] b(1) ie obtain n1 where
    1: "insert_entry n i (key, v) = Some n1" "node_is W n1 (anode_of (BNode x (ins key v es) []))" "nd_address n1 = x"
    using n(2) an by (auto elim!: ok_obtain)
  from save_node_ok[OF m 1(2) g] obtain n2 m2 raw where
    2: "save_node K M m n1 = Some (n2, m2)" "synced m2 root len (W(x \<mapsto> raw)) r" "stored (W(x \<mapsto> raw)) x (anode_of (BNode x (ins key v es) []))"
    unfolding 1(3) by (elim ok_obtain) blast
  from bt_save_header[OF 2(2), of "m2\<lparr>bt_length := Suc len\<rparr>"] obtain m3 where
    3: "save_header M (m2\<lparr>bt_length := Suc len\<rparr>) = Some m3" "synced m3 root (Suc len) (W(x \<mapsto> raw)) r"
    using syncedD(2)[OF 2(2)] by (auto elim!: ok_obtain)
  have "tree_at (W(x \<mapsto> raw)) (BNode x (ins key v es) [])"
    using 2(3) by (intro tree_atI) auto
  then show ?thesis
    using 1(1) 2(1) 3 v(3) syncedD(3)[OF 2(2)] by (auto simp: u64_add_def simp del: fun_upd_apply split_paired_Ex)
qed

lemma search_here:
  assumes m: "synced m root len W r" and t: "shape h t" "content (inorder t)" and n: "node_is W n (anode_of t)"
  shows "ok (search_node K M m n key) (\<lambda>(res, n', m'). synced m' root len W r \<and> node_is W n' (anode_of t) \<and> nd_address n' = nd_address n \<and>
    found_at (map fst (tree_entries t)) key res)"
  using search_node_ok[OF m n, of key] content_sorted[OF content_tree[OF t(2,1)]] by simp

lemma insert_nonfull_leaf:
  assumes "\<not> is_full n" "search_node K M m n key = Some (Inl i, n1, m1)" "nd_node_type n1 = Leaf"
  shows "insert_nonfull K M m n key v = do {
      node \<leftarrow> insert_entry n1 i (key, v);
      (node, m) \<leftarrow> save_node K M m1 node;
      length \<leftarrow> u64_add (bt_length m) 1;
      m \<leftarrow> save_header M (m\<lparr>bt_length := length\<rparr>);
      Some (None, m) }"
  by (subst insert_nonfull.simps) (simp add: assms)

text \<open>The descent into a child that is not full.\<close>

lemma child_facts:
  assumes t: "tree_at W (BNode x es ts)" "distinct (addrs (BNode x es ts))" "shape (Suc h) (BNode x es ts)" "content (inorder (BNode x es ts))" "i < length ts"
  shows "tree_at W (ts ! i)" "distinct (addrs (ts ! i))" "shape h (ts ! i)" "content (inorder (ts ! i))" "5 \<le> length (tree_entries (ts ! i))"
proof -
  have ts: "length ts = length es + 1" "i \<le> length es"
    using t(3,5) by simp_all
  show "tree_at W (ts ! i)" "distinct (addrs (ts ! i))" "shape h (ts ! i)" "content (inorder (ts ! i))" "5 \<le> length (tree_entries (ts ! i))"
    using t(1-3) nth_mem[OF t(5)] content_part[OF t(4)[unfolded inorder_child[OF ts]]] by (auto simp: distinct_concat_iff)
qed

lemma insert_into_child:
  assumes IH: "\<And>m W r t n. synced m root len W r \<Longrightarrow> tree_at W t \<Longrightarrow> distinct (addrs t) \<Longrightarrow> shape h t \<Longrightarrow> content (inorder t) \<Longrightarrow>
      node_is W n (anode_of t) \<Longrightarrow> nd_address n = tree_addr t \<Longrightarrow> length (tree_entries t) < 11 \<Longrightarrow> h \<le> r \<Longrightarrow>
      ok (insert_nonfull K M m n key v) (ins_post root len W r h t key v)"
    and m: "synced m root len W r" "h \<le> r"
    and t: "tree_at W (BNode x es ts)" "distinct (addrs (BNode x es ts))" "shape (Suc h) (BNode x es ts)" "content (inorder (BNode x es ts))"
    and i: "found_at (map fst es) key (Inl i)" "length (tree_entries (ts ! i)) < 11"
  shows "ok (do {
      (child, m) \<leftarrow> load_node K M m (tree_addr (ts ! i));
      assert_that (\<not> is_full child);
      insert_nonfull K M m child key v }) (ins_post root len W r (Suc h) (BNode x es ts) key v)"
proof -
  have "i < length ts"
    using t(3) found_between(1)[OF i(1)] by simp
  note c = child_facts[OF t this]
  from load_node_ok[OF m(1) tree_at_root[OF c(1)]] obtain c2 m2 where
    2: "load_node K M m (tree_addr (ts ! i)) = Some (c2, m2)" "synced m2 root len W r" "node_is W c2 (anode_of (ts ! i))" "nd_address c2 = tree_addr (ts ! i)"
    by (auto elim!: ok_obtain)
  have "\<not> is_full c2"
    using node_is_length[OF 2(3)] i(2) by (simp add: is_full_def CAPACITY_def)
  moreover have "ok (insert_nonfull K M m2 c2 key v) (ins_post root len W r (Suc h) (BNode x es ts) key v)"
    by (rule ok_mono[OF IH[OF 2(2) c(1-4) 2(3,4) i(2) m(2)]]) (rule ins_post_plug[OF t i(1)])
  ultimately show ?thesis
    using 2(1) by simp
qed

text \<open>The descent into a full child, which is split first.\<close>

lemma insert_split:
  assumes IH: "\<And>m W r t n. synced m root len W r \<Longrightarrow> tree_at W t \<Longrightarrow> distinct (addrs t) \<Longrightarrow> shape h t \<Longrightarrow> content (inorder t) \<Longrightarrow>
      node_is W n (anode_of t) \<Longrightarrow> nd_address n = tree_addr t \<Longrightarrow> length (tree_entries t) < 11 \<Longrightarrow> h \<le> r \<Longrightarrow>
      ok (insert_nonfull K M m n key v) (ins_post root len W r h t key v)"
    and m: "synced m root len W r" "h < r"
    and t: "tree_at W (BNode x es ts)" "distinct (addrs (BNode x es ts))" "shape (Suc h) (BNode x es ts)" "content (inorder (BNode x es ts))" "length es < 11"
    and n: "node_is W n (anode_of (BNode x es ts))" "nd_address n = x"
    and i: "found_at (map fst es) key (Inl i)" "length (tree_entries (ts ! i)) = 11" and p: "found_at (map fst (tree_entries (ts ! i))) key (Inl p)"
  shows "ok (do {
      (node, m) \<leftarrow> split_child K M m n i;
      (res, node, m) \<leftarrow> search_node K M m node key;
      c \<leftarrow> node_child node (case res of Inr idx \<Rightarrow> idx | Inl idx \<Rightarrow> idx);
      (child, m) \<leftarrow> load_node K M m c;
      assert_that (\<not> is_full child);
      insert_nonfull K M m child key v }) (ins_post root len W r (Suc h) (BNode x es ts) key v)"
proof -
  have ts: "length ts = length es + 1" "i < length ts"
    using t(3) found_between(1)[OF i(1)] by simp_all
  obtain r0 where r: "r = Suc r0" "h \<le> r0"
    using m(2) by (cases r) auto
  have an: "anode_of (BNode x es ts) = \<lparr>an_type = Internal, an_entries = es, an_children = map tree_addr ts\<rparr>"
    using ts(1) by (auto simp: anode_of_def)
  have kids: "\<forall>t \<in> set ts. tree_at W t \<and> shape h t \<and> 5 \<le> length (tree_entries t)"
    using t(1,3) by simp
  from split_child_ok[OF m(1)[unfolded r(1)] n(1)[unfolded an] n(2) kids t(2) ts(1) t(5) ts(2) i(2) t(4)] obtain n1 m1 W1 z where
    1: "split_child K M m n i = Some (n1, m1)" "synced m1 root len W1 r0" "tree_at W1 (split_tree x es ts i z)"
      "node_is W1 n1 (anode_of (split_tree x es ts i z))" "nd_address n1 = x" "z \<notin> set (addrs (BNode x es ts))"
      "evolves W (set (addrs (BNode x es ts))) W1 (set (addrs (split_tree x es ts i z)))"
    by (elim ok_obtain) blast
  obtain y ces cts where ci: "ts ! i = BNode y ces cts" "length ces = 11"
    using i(2) by (cases "ts ! i") auto
  define es1 where "es1 = take i es @ ces ! 5 # drop i es"
  define ts1 where "ts1 = take i ts @ BNode y (take 5 ces) (take 6 cts) # BNode z (drop 6 ces) (drop 6 cts) # drop (Suc i) ts"
  have st: "split_tree x es ts i z = BNode x es1 ts1"
    by (simp add: split_tree_def ci(1) es1_def ts1_def)
  note 1 = 1[unfolded st]
  have sh: "shape h (ts ! i)"
    using kids nth_mem[OF ts(2)] by simp
  have t1: "distinct (addrs (BNode x es1 ts1))" "shape (Suc h) (BNode x es1 ts1)" "inorder (BNode x es1 ts1) = inorder (BNode x es ts)"
      "length (addrs (BNode x es1 ts1)) = Suc (length (addrs (BNode x es ts)))"
    using split_tree_addrs(2,3)[OF ts(2) 1(6)] t(2) split_tree_shape[OF ts t(5), of h x z] kids i(2) split_tree_inorder[OF ts sh i(2), of x z]
    unfolding st by blast+
  have con1: "content (inorder (BNode x es1 ts1))"
    using t(4) t1(3) by simp
  have mv: "moved W (BNode x es ts) r W1 (BNode x es1 ts1) r0"
    using 1(3,7) t1(1,4) r(1) by (simp add: moved_def del: addrs.simps tree_at.simps)
  from search_here[OF 1(2) t1(2) con1 1(4), of key] obtain res n2 m2 where
    2: "search_node K M m1 n1 key = Some (res, n2, m2)" "synced m2 root len W1 r0" "node_is W1 n2 (anode_of (BNode x es1 ts1))" "found_at (map fst es1) key res"
    by (auto elim!: ok_obtain)
  obtain j where j: "res = Inl j" "j = i \<or> j = Suc i"
    by (rule split_position[OF i(1) p _ 2(4)[unfolded es1_def]]) (auto simp: ci)
  have j': "j < length ts1" "length (tree_entries (ts1 ! j)) < 11"
    using j(2) ts ci(2) by (auto simp: ts1_def nth_append)
  have "ok (do {
      (child, m) \<leftarrow> load_node K M m2 (tree_addr (ts1 ! j));
      assert_that (\<not> is_full child);
      insert_nonfull K M m child key v }) (ins_post root len W1 r0 (Suc h) (BNode x es1 ts1) key v)"
    by (rule insert_into_child[OF IH 2(2) r(2) 1(3) t1(1,2) con1 2(4)[unfolded j(1)] j'(2)])
  then have "ok (do {
      (child, m) \<leftarrow> load_node K M m2 (tree_addr (ts1 ! j));
      assert_that (\<not> is_full child);
      insert_nonfull K M m child key v }) (ins_post root len W r (Suc h) (BNode x es ts) key v)"
    by (rule ok_mono) (rule ins_post_after[OF mv t1(3)], auto simp: es1_def)
  moreover have "nd_children n2 = map tree_addr ts1"
    using 2(3) by (simp add: node_is_def)
  ultimately show ?thesis
    using j'(1) by (simp add: 1(1) 2(1) j(1) node_child_def)
qed

lemma insert_nonfull_ok:
  assumes v: "valid key" "length v \<le> vb" "len < U64_MAX"
  shows "synced m root len W r \<Longrightarrow> tree_at W t \<Longrightarrow> distinct (addrs t) \<Longrightarrow> shape h t \<Longrightarrow> content (inorder t) \<Longrightarrow>
    node_is W n (anode_of t) \<Longrightarrow> nd_address n = tree_addr t \<Longrightarrow> length (tree_entries t) < 11 \<Longrightarrow> h \<le> r \<Longrightarrow>
    ok (insert_nonfull K M m n key v) (ins_post root len W r h t key v)"
proof (induction h arbitrary: m W r t n rule: less_induct)
  case (less h)
  obtain x es ts where T: "t = BNode x es ts"
    by (cases t)
  note prems = less.prems[unfolded T]
  have nf: "\<not> is_full n"
    using prems(8) node_is_length[OF prems(6)] by (simp add: is_full_def CAPACITY_def)
  from search_here[OF prems(1,4,5,6), of key] obtain res n1 m1 where
    1: "search_node K M m n key = Some (res, n1, m1)" "synced m1 root len W r" "node_is W n1 (anode_of (BNode x es ts))" "nd_address n1 = x"
      "found_at (map fst es) key res"
    using prems(7) by (auto elim!: ok_obtain)
  show ?case
  proof (cases res)
    case (Inr i)
    with 1(5) have fi: "found_at (map fst (tree_entries (BNode x es ts))) key (Inr i)"
      by simp
    show ?thesis
      unfolding T using update_here[OF 1(2) prems(2-5) 1(3) _ fi v(2)] 1(4)
      by (subst insert_nonfull.simps) (auto simp: nf 1(1) Inr elim!: ok_mono)
  next
    case (Inl i)
    with 1(5) have fi: "found_at (map fst es) key (Inl i)"
      by simp
    show ?thesis
    proof (cases h)
      case 0
      then have ts: "ts = []"
        using prems(4) by simp
      have an: "anode_of (BNode x es []) = \<lparr>an_type = Leaf, an_entries = es, an_children = []\<rparr>"
        by (simp add: anode_of_def)
      have es: "content es" "length es < 11" and ty: "nd_node_type n1 = Leaf"
        using prems(5,8) 1(3) ts by (simp_all add: node_is_def)
      from insert_leaf[OF 1(2) 1(3)[unfolded ts an] 1(4) es fi v] obtain m2 raw where
        2: "insert_nonfull K M m n key v = Some (None, m2)" "synced m2 root (Suc len) (W(x \<mapsto> raw)) r" "tree_at (W(x \<mapsto> raw)) (BNode x (ins key v es) [])"
        unfolding insert_nonfull_leaf[OF nf 1(1)[unfolded Inl] ty] by (elim ok_obtain) blast
      have none: "map_of es key = None" and len: "length (ins key v es) = Suc (length es)"
        using found_between[OF fi] lookup_frame[of "take i es" key "drop i es" "[]"] ins_new[of "take i es" key "drop i es" v] by simp_all
      have "moved W (BNode x es []) r (W(x \<mapsto> raw)) (BNode x (ins key v es) []) r"
        using 2(3) evolves_save[of x "{x}" W raw] tree_at_dom[OF prems(2)] by (simp add: moved_def ts del: tree_at.simps)
      then show ?thesis
        unfolding T 2(1) ok_Some ts using 2(2) none len prems(8) 0 by (intro ins_postI[where t' = "BNode x (ins key v es) []"]) auto
    next
      case (Suc h')
      have ts: "length ts = length es + 1" "i < length ts"
        using prems(4) Suc found_between(1)[OF fi] by simp_all
      have sh: "shape (Suc h') (BNode x es ts)"
        using prems(4) Suc by simp
      note c = child_facts[OF prems(2,3) sh prems(5) ts(2)] and IH = less.IH[of h', unfolded Suc, OF lessI]
      from load_node_ok[OF 1(2) tree_at_root[OF c(1)]] obtain c2 m2 where
        2: "load_node K M m1 (tree_addr (ts ! i)) = Some (c2, m2)" "synced m2 root len W r" "node_is W c2 (anode_of (ts ! i))" "nd_address c2 = tree_addr (ts ! i)"
        by (auto elim!: ok_obtain)
      have nc: "nd_node_type n1 = Internal" "nd_children n1 = map tree_addr ts" and fc: "is_full c2 \<longleftrightarrow> length (tree_entries (ts ! i)) = 11"
        using 1(3) ts node_is_length[OF 2(3)] shape_entries(2)[OF c(3)] by (auto simp: node_is_def is_full_def CAPACITY_def)
      show ?thesis
      proof (cases "length (tree_entries (ts ! i)) = 11")
        case False
        then have lt: "length (tree_entries (ts ! i)) < 11"
          using shape_entries(2)[OF c(3)] by simp
        have "h' \<le> r"
          using less.prems(9) Suc by simp
        from insert_into_child[OF IH 1(2) this prems(2,3) sh prems(5) fi lt] have "ok (insert_nonfull K M m2 c2 key v) (ins_post root len W r h t key v)"
          unfolding T Suc 2(1) bind.bind_lunit case_prod_conv ok_bind ok_assert_that by (rule conjunct2)
        then show ?thesis
          using ts(2) False by (subst insert_nonfull.simps) (simp add: nf 1(1) Inl nc node_child_def 2(1) fc)
      next
        case True
        from search_here[OF 2(2) c(3,4) 2(3), of key] obtain res3 c3 m3 where
          3: "search_node K M m2 c2 key = Some (res3, c3, m3)" "synced m3 root len W r" "node_is W c3 (anode_of (ts ! i))" "nd_address c3 = tree_addr (ts ! i)"
            "found_at (map fst (tree_entries (ts ! i))) key res3"
          using 2(4) by (auto elim!: ok_obtain)
        show ?thesis
        proof (cases res3)
          case (Inr j)
          from update_here[OF 3(2) c(1-4) 3(3,4) 3(5)[unfolded Inr] v(2)]
          have "ok (update_value K M m3 c3 j v) (\<lambda>(old, m'). ins_post root len W r h t key v (Some old, m'))"
            unfolding T Suc by (rule ok_mono) (auto intro!: ins_post_plug[OF prems(2,3) sh prems(5) fi])
          then show ?thesis
            using ts(2) True by (subst insert_nonfull.simps) (auto simp: nf 1(1) Inl nc node_child_def 2(1) fc 3(1) Inr elim!: ok_mono)
        next
          case (Inl j)
          have "h' < r" "length es < 11"
            using less.prems(9) prems(8) Suc by simp_all
          note post = insert_split[OF IH 3(2) this(1) prems(2,3) sh prems(5) this(2) 1(3,4) fi True 3(5)[unfolded Inl]]
          have "insert_nonfull K M m n key v = do {
              (node, m) \<leftarrow> split_child K M m3 n1 i;
              (res, node, m) \<leftarrow> search_node K M m node key;
              c \<leftarrow> node_child node (case res of Inr idx \<Rightarrow> idx | Inl idx \<Rightarrow> idx);
              (child, m) \<leftarrow> load_node K M m c;
              assert_that (\<not> is_full child);
              insert_nonfull K M m child key v }"
            using ts(2) True by (subst insert_nonfull.simps) (simp add: nf 1(1) \<open>res = Inl i\<close> nc node_child_def 2(1) fc 3(1) Inl)
          then show ?thesis
            using post unfolding T Suc by (simp only:)
        qed
      qed
    qed
  qed
qed

end

end
