(* ===== verification/BTree_Rebalance.thy ===== *)
theory BTree_Rebalance
  imports BTree_Insert
begin

text \<open>
  What removal needs of the tree: the walks to the least and the greatest entry, the rotations and merges that
  bring the next node above its minimum without changing the entries of the tree.
\<close>

section \<open>Two neighbouring children\<close>

lemma inorder_pair:
  assumes "length A = length es1"
  shows "inorder (BNode x (es1 @ e # es2) (A @ l # c # B)) =
    pre (map inorder A) es1 @ (inorder l @ e # inorder c) @ post (map inorder B) es2"
  using weave_at[of "map inorder A" es1 "inorder l" "map inorder (c # B)" "e # es2"] assms by simp

lemma inorder_single:
  assumes "length A = length es1"
  shows "inorder (BNode x (es1 @ es2) (A @ c # B)) = pre (map inorder A) es1 @ inorder c @ post (map inorder B) es2"
  using weave_at[of "map inorder A" es1 "inorder c" "map inorder B" es2] assms by simp

text \<open>The node that merging makes of two children and the entry between them.\<close>

definition joined :: "address \<Rightarrow> 'k btree \<Rightarrow> 'k entry \<Rightarrow> 'k btree \<Rightarrow> 'k btree" where
  "joined a l e c = BNode a (tree_entries l @ e # tree_entries c) (tree_kids l @ tree_kids c)"

lemma joined_inorder:
  assumes "shape h l" "shape h c"
  shows "inorder (joined a l e c) = inorder l @ e # inorder c"
proof -
  obtain y yes yts z zes zts where lc: "l = BNode y yes yts" "c = BNode z zes zts"
    by (cases l; cases c)
  show ?thesis
  proof (cases "h = 0")
    case True
    then show ?thesis
      using assms lc by (simp add: joined_def)
  next
    case False
    then have "length yts = length yes + 1" "zts \<noteq> []"
      using assms lc by (cases h; auto)+
    then show ?thesis
      using lc weave_split[of "map inorder yts" yes "map inorder zts" e zes] by (simp add: joined_def)
  qed
qed

lemma joined_shape:
  assumes "shape h l" "shape h c" "length (tree_entries l) = 5" "length (tree_entries c) = 5"
  shows "shape h (joined a l e c)" "length (tree_entries (joined a l e c)) = 11"
  using assms by (cases h; cases l; cases c; auto simp: joined_def)+

lemma addrs_node: "addrs t = tree_addr t # concat (map addrs (tree_kids t))"
  by (cases t) simp

text \<open>A pair of children is as good as another pair with the same addresses and the same children below.\<close>

lemma addrs_pair:
  assumes "tree_kids l' @ tree_kids c' = tree_kids l @ tree_kids c" "tree_addr l' = tree_addr l" "tree_addr c' = tree_addr c"
  shows "set (addrs l') \<union> set (addrs c') = set (addrs l) \<union> set (addrs c)"
    "length (addrs l') + length (addrs c') = length (addrs l) + length (addrs c)"
    "distinct (addrs l' @ addrs c') = distinct (addrs l @ addrs c)"
proof -
  have eq: "concat (map addrs (tree_kids l')) @ concat (map addrs (tree_kids c')) = concat (map addrs (tree_kids l)) @ concat (map addrs (tree_kids c))"
    using assms(1) by (metis concat_append map_append)
  have s: "set (addrs a) \<union> set (addrs b) = {tree_addr a, tree_addr b} \<union> set (concat (map addrs (tree_kids a)) @ concat (map addrs (tree_kids b)))"
    "length (addrs a) + length (addrs b) = Suc (Suc (length (concat (map addrs (tree_kids a)) @ concat (map addrs (tree_kids b)))))"
    "distinct (addrs a @ addrs b) = (tree_addr a \<noteq> tree_addr b \<and> {tree_addr a, tree_addr b} \<inter> set (concat (map addrs (tree_kids a)) @ concat (map addrs (tree_kids b))) = {} \<and>
       distinct (concat (map addrs (tree_kids a)) @ concat (map addrs (tree_kids b))))" for a b :: "'a btree"
    unfolding addrs_node[of a] addrs_node[of b] by auto
  show "set (addrs l') \<union> set (addrs c') = set (addrs l) \<union> set (addrs c)"
    "length (addrs l') + length (addrs c') = length (addrs l) + length (addrs c)"
    "distinct (addrs l' @ addrs c') = distinct (addrs l @ addrs c)"
    unfolding s eq assms(2,3) by (rule refl)+
qed

lemma addrs_in_pair:
  "set (addrs (BNode x es (A @ l # c # B))) = set (addrs l) \<union> set (addrs c) \<union> insert x (\<Union>t \<in> set A \<union> set B. set (addrs t))"
  "length (addrs (BNode x es (A @ l # c # B))) = length (addrs l) + length (addrs c) + length (addrs (BNode x es (A @ B)))"
  "distinct (addrs (BNode x es (A @ l # c # B))) \<longleftrightarrow> distinct (addrs l @ addrs c) \<and> distinct (addrs (BNode x es (A @ B))) \<and>
     (set (addrs l) \<union> set (addrs c)) \<inter> insert x (\<Union>t \<in> set A \<union> set B. set (addrs t)) = {}"
  by auto

lemma addrs_in_single:
  "set (addrs (BNode x es (A @ c # B))) = set (addrs c) \<union> insert x (\<Union>t \<in> set A \<union> set B. set (addrs t))"
  "length (addrs (BNode x es (A @ c # B))) = length (addrs c) + length (addrs (BNode x es (A @ B)))"
  "distinct (addrs (BNode x es (A @ c # B))) \<longleftrightarrow> distinct (addrs c) \<and> distinct (addrs (BNode x es (A @ B))) \<and>
     set (addrs c) \<inter> insert x (\<Union>t \<in> set A \<union> set B. set (addrs t)) = {}"
  by auto

lemma pair_in: "{x, tree_addr l, tree_addr c} \<subseteq> set (addrs (BNode x es (A @ l # c # B)))"
  using tree_addr_in[of l] tree_addr_in[of c] by simp

lemma evolvesI:
  assumes "X \<subseteq> dom W" "X' \<subseteq> X" "dom W' = dom W - (X - X')" "\<And>y. y \<notin> X \<Longrightarrow> W' y = W y"
  shows "evolves W X W' X'"
proof -
  have "X' \<inter> (dom W - X) = {}" "dom W - (X - X') = dom W - X \<union> X'"
    using assms(1,2) by blast+
  then show ?thesis
    using assms by (simp add: evolves_def)
qed

lemma addrs_joined:
  assumes "distinct (addrs l @ addrs c)" "{a, b} = {tree_addr l, tree_addr c}"
  shows "set (addrs (joined a l e c)) = set (addrs l) \<union> set (addrs c) - {b}" "distinct (addrs (joined a l e c))"
    "Suc (length (addrs (joined a l e c))) = length (addrs l) + length (addrs c)"
  using assms by (cases l; cases c; auto simp: joined_def doubleton_eq_iff)+

lemma freed_in: "{a, b} = {tree_addr l, tree_addr c} \<Longrightarrow> b \<in> set (addrs l) \<union> set (addrs c)"
  using tree_addr_in[of l] tree_addr_in[of c] by (auto simp: doubleton_eq_iff)

text \<open>The pair after an entry has moved from the left child through the parent into the right one, and the other way.\<close>

definition left_rest :: "'k btree \<Rightarrow> 'k btree" where
  "left_rest l = BNode (tree_addr l) (butlast (tree_entries l)) (butlast (tree_kids l))"

definition right_more :: "'k btree \<Rightarrow> 'k entry \<Rightarrow> 'k btree \<Rightarrow> 'k btree" where
  "right_more l e c = BNode (tree_addr c) (e # tree_entries c) (if tree_kids l = [] then tree_kids c else last (tree_kids l) # tree_kids c)"

definition left_more :: "'k btree \<Rightarrow> 'k entry \<Rightarrow> 'k btree \<Rightarrow> 'k btree" where
  "left_more l e c = BNode (tree_addr l) (tree_entries l @ [e]) (tree_kids l @ take 1 (tree_kids c))"

definition right_rest :: "'k btree \<Rightarrow> 'k btree" where
  "right_rest c = BNode (tree_addr c) (tl (tree_entries c)) (tl (tree_kids c))"

lemma rotate_right_inorder:
  assumes "shape h l" "shape h c"
  shows "inorder (left_rest l) @ last (tree_entries l) # inorder (right_more l e c) = inorder l @ e # inorder c"
proof -
  obtain y yes yts z zes zts where lc: "l = BNode y yes yts" "c = BNode z zes zts"
    by (cases l; cases c)
  have ne: "yes \<noteq> []"
    using shape_entries(1)[OF assms(1)] lc by simp
  show ?thesis
  proof (cases "h = 0")
    case True
    then show ?thesis
      using assms lc ne by (simp add: left_rest_def right_more_def)
  next
    case False
    then have len: "length yts = length yes + 1" "zts \<noteq> []" "yts \<noteq> []"
      using assms lc by (cases h; auto)+
    have "weave (map inorder (butlast yts) @ [inorder (last yts)]) (butlast yes @ last yes # []) =
        weave (map inorder (butlast yts)) (butlast yes) @ last yes # weave [inorder (last yts)] []"
      using len ne by (intro weave_split) simp_all
    moreover have "map inorder (butlast yts) @ [inorder (last yts)] = map inorder yts"
      using len(3) by (metis append_butlast_last_id list.simps(8,9) map_append)
    ultimately show ?thesis
      using lc ne len(2,3) by (cases zts) (simp_all add: left_rest_def right_more_def)
  qed
qed

lemma rotate_left_inorder:
  assumes "shape h l" "shape h c"
  shows "inorder (left_more l e c) @ hd (tree_entries c) # inorder (right_rest c) = inorder l @ e # inorder c"
proof -
  obtain y yes yts z zes zts where lc: "l = BNode y yes yts" "c = BNode z zes zts"
    by (cases l; cases c)
  have ne: "zes \<noteq> []"
    using shape_entries(1)[OF assms(2)] lc by simp
  show ?thesis
  proof (cases "h = 0")
    case True
    then show ?thesis
      using assms lc ne by (simp add: left_more_def right_rest_def)
  next
    case False
    then have len: "length yts = length yes + 1" "length zts = length zes + 1"
      using assms lc by (cases h; auto)+
    then obtain z0 z1 zr where z: "zts = z0 # z1 # zr"
      using ne by (cases zts; cases "tl zts") auto
    have "weave (map inorder yts @ [inorder z0]) (yes @ e # []) = weave (map inorder yts) yes @ e # weave [inorder z0] []"
      using len by (intro weave_split) simp_all
    then show ?thesis
      using lc ne z by (cases zes) (simp_all add: left_more_def right_rest_def)
  qed
qed

lemma rest_shape:
  assumes "shape h t" "2 \<le> length (tree_entries t)"
  shows "shape h (left_rest t)" "shape h (right_rest t)"
proof -
  obtain x es ts where T: "t = BNode x es ts"
    by (cases t)
  have es: "butlast es \<noteq> []" "tl es \<noteq> []" "length es \<le> 11"
    using assms(2) shape_entries(2)[OF assms(1)] T by (cases es; cases "tl es"; simp)+
  have sub: "set (butlast ts) \<subseteq> set ts" "set (tl ts) \<subseteq> set ts"
    by (auto dest: in_set_butlastD) (cases ts; simp)
  show "shape h (left_rest t)" "shape h (right_rest t)"
    using assms es sub by (cases h; simp add: T left_rest_def right_rest_def subset_iff)+
qed

lemma more_shape:
  assumes "shape h l" "shape h c"
  shows "length (tree_entries c) \<le> 10 \<Longrightarrow> shape h (right_more l e c)" "length (tree_entries l) \<le> 10 \<Longrightarrow> shape h (left_more l e c)"
  using assms by (cases h; cases l; cases c; auto simp: right_more_def left_more_def dest: in_set_takeD)+

lemma entries_in: "shape h t \<Longrightarrow> set (tree_entries t) \<subseteq> set (inorder t)"
  using shape_entries(3)[of h t] set_weave[of "map inorder (tree_kids t)" "tree_entries t"] by (cases t) auto

lemma pair_order:
  assumes "sorted_keys (inorder (BNode x (es1 @ e # es2) (A @ l # c # B)))" "length A = length es1" "shape h l" "shape h c"
  shows "a \<in> set (tree_entries l) \<Longrightarrow> fst a < fst e" "a \<in> set (tree_entries c) \<Longrightarrow> fst e < fst a"
proof -
  have "sorted_keys (inorder l @ e # inorder c)"
    using assms(1) unfolding inorder_pair[OF assms(2)] by (simp add: sorted_wrt_append)
  then show "a \<in> set (tree_entries l) \<Longrightarrow> fst a < fst e" "a \<in> set (tree_entries c) \<Longrightarrow> fst e < fst a"
    using entries_in[OF assms(3)] entries_in[OF assms(4)] by (auto simp: sorted_wrt_append)
qed

lemma found_at_between: "all_below es1 key \<Longrightarrow> all_above key es2 \<Longrightarrow> found_at (map fst (es1 @ es2)) key (Inl (length es1))"
  by (auto simp: found_at_def all_below_def all_above_def nth_append)

context btree_store
begin

lemma tree_at_node: "tree_at W t \<longleftrightarrow> stored W (tree_addr t) (anode_of t) \<and> (\<forall>u \<in> set (tree_kids t). tree_at W u)"
  by (cases t) simp

lemma tree_at_outside:
  assumes "\<And>u. u \<notin> S \<Longrightarrow> W' u = W u" "set (addrs t) \<inter> S = {}" "tree_at W t"
  shows "tree_at W' t"
  using assms tree_at_cong[of t W' W] by (metis disjoint_iff)

text \<open>Where the nodes of the tree are that an operation on a pair of children leaves alone.\<close>

lemma untouched:
  assumes t: "tree_at W (BNode x es (A @ l # c # B))" "distinct (addrs (BNode x es (A @ l # c # B)))"
    and W': "\<And>u. u \<notin> {x, tree_addr l, tree_addr c} \<Longrightarrow> W' u = W u"
    and u: "u \<in> set (tree_kids l @ tree_kids c) \<union> set A \<union> set B"
  shows "tree_at W' u"
proof (rule tree_at_outside[OF W'])
  show "tree_at W u"
    using u t(1) by (cases l; cases c) auto
  show "set (addrs u) \<inter> {x, tree_addr l, tree_addr c} = {}"
    using u t(2) by (cases l; cases c; force)
qed

text \<open>After a rotation: the three nodes have been saved, the children have the same children as before.\<close>

lemma rotated:
  assumes t: "tree_at W (BNode x es (A @ l # c # B))" "distinct (addrs (BNode x es (A @ l # c # B)))"
    and k: "tree_kids l' @ tree_kids c' = tree_kids l @ tree_kids c" "tree_addr l' = tree_addr l" "tree_addr c' = tree_addr c"
    and W': "\<And>u. u \<notin> {x, tree_addr l, tree_addr c} \<Longrightarrow> W' u = W u" "dom W' = dom W"
    and st: "stored W' x (anode_of (BNode x es' (A @ l' # c' # B)))" "stored W' (tree_addr l) (anode_of l')" "stored W' (tree_addr c) (anode_of c')"
  shows "moved W (BNode x es (A @ l # c # B)) r W' (BNode x es' (A @ l' # c' # B)) r"
proof -
  let ?t = "BNode x es (A @ l # c # B)" and ?t' = "BNode x es' (A @ l' # c' # B)"
  note p = addrs_pair[OF k]
  have s: "set (addrs ?t') = set (addrs ?t)" "length (addrs ?t') = length (addrs ?t)" "distinct (addrs ?t')"
    using t(2) p unfolding addrs_in_pair by simp_all
  note old = untouched[OF t W'(1)]
  have kids: "tree_at W' u" if "u \<in> set (tree_kids l') \<union> set (tree_kids c')" for u
    using that old[of u] by (simp flip: k(1))
  have lc: "tree_at W' l'" "tree_at W' c'"
    unfolding tree_at_node[of W' l'] tree_at_node[of W' c'] k(2,3) using st(2,3) kids by blast+
  have "tree_at W' ?t'"
    using st(1) lc old by (intro tree_atI) auto
  moreover have "evolves W (set (addrs ?t)) W' (set (addrs ?t'))"
    unfolding s(1)
  proof (rule evolvesI[OF tree_at_dom[OF t(1)]])
    show "W' u = W u" if "u \<notin> set (addrs ?t)" for u
      using that pair_in[of x l c es A B] by (intro W'(1)) blast
  qed (use W'(2) in simp_all)
  ultimately show ?thesis
    using s by (simp add: moved_def)
qed

text \<open>After a merge: one of the two addresses is free, the other has the joined node.\<close>

lemma joined_at:
  assumes t: "tree_at W (BNode x es (A @ l # c # B))" "distinct (addrs (BNode x es (A @ l # c # B)))"
    and ab: "{a, b} = {tree_addr l, tree_addr c}"
    and W': "\<And>u. u \<notin> {x, tree_addr l, tree_addr c} \<Longrightarrow> W' u = W u" and st: "stored W' a (anode_of (joined a l e c))"
  shows "tree_at W' (joined a l e c)"
  using st untouched[OF t W'] by (auto simp: joined_def)

lemma merged_moved:
  assumes t: "tree_at W (BNode x es (A @ l # c # B))" "distinct (addrs (BNode x es (A @ l # c # B)))"
    and ab: "{a, b} = {tree_addr l, tree_addr c}"
    and W': "\<And>u. u \<notin> {x, tree_addr l, tree_addr c} \<Longrightarrow> W' u = W u" "dom W' = dom W - {b}"
    and st: "stored W' a (anode_of (joined a l e c))" "stored W' x (anode_of (BNode x es' (A @ joined a l e c # B)))"
  shows "moved W (BNode x es (A @ l # c # B)) r W' (BNode x es' (A @ joined a l e c # B)) (Suc r)"
proof -
  let ?t = "BNode x es (A @ l # c # B)" and ?t' = "BNode x es' (A @ joined a l e c # B)"
  let ?Y = "insert x (\<Union>t \<in> set A \<union> set B. set (addrs t))"
  have d: "distinct (addrs l @ addrs c)" "distinct (addrs (BNode x es (A @ B)))" "(set (addrs l) \<union> set (addrs c)) \<inter> ?Y = {}"
    using t(2) unfolding addrs_in_pair by simp_all
  note j = addrs_joined[OF d(1) ab, of e] and bin = freed_in[OF ab]
  have b: "b \<notin> ?Y"
    using d(3) bin by blast
  have s1: "set (addrs ?t') = set (addrs ?t) - {b}"
    unfolding addrs_in_single[of x es' A "joined a l e c"] addrs_in_pair j(1) by (simp only: Un_Diff Diff_insert0[OF b] Diff_empty)
  have s2: "Suc (length (addrs ?t')) = length (addrs ?t)"
    using j(3) by simp
  have s3: "distinct (addrs ?t')"
    unfolding addrs_in_single[of x es' A "joined a l e c"] j(1)
  proof (intro conjI)
    have less: "(P - Z) \<inter> Y = {}" if "P \<inter> Y = {}" for P Y Z :: "address set"
      using that by blast
    show "(set (addrs l) \<union> set (addrs c) - {b}) \<inter> ?Y = {}"
      by (rule less[OF d(3)])
  qed (use d(2) j(2) in simp_all)
  have s4: "b \<in> set (addrs ?t)"
    unfolding addrs_in_pair using bin by blast
  note s = s1 s2 s3 s4
  have "tree_at W' ?t'"
    using st(2) joined_at[OF t ab W'(1) st(1)] untouched[OF t W'(1)] by (intro tree_atI) auto
  moreover have "evolves W (set (addrs ?t)) W' (set (addrs ?t'))"
    unfolding s(1)
  proof (rule evolvesI[OF tree_at_dom[OF t(1)]])
    show "W' u = W u" if "u \<notin> set (addrs ?t)" for u
      using that pair_in[of x l c es A B] by (intro W'(1)) blast
    have "set (addrs ?t) - (set (addrs ?t) - {b}) = {b}"
      using s(4) by blast
    then show "dom W' = dom W - (set (addrs ?t) - (set (addrs ?t) - {b}))"
      using W'(2) by simp
  qed blast
  ultimately show ?thesis
    using s by (simp add: moved_def)
qed

text \<open>The same when the parent had no other entry: it is gone too.\<close>

lemma collapsed:
  assumes t: "tree_at W (BNode x es [l, c])" "distinct (addrs (BNode x es [l, c]))" and ab: "{a, b} = {tree_addr l, tree_addr c}"
    and W': "\<And>u. u \<notin> {x, tree_addr l, tree_addr c} \<Longrightarrow> W' u = W u" "dom W' = dom W - {b, x}"
    and st: "stored W' a (anode_of (joined a l e c))"
  shows "tree_at W' (joined a l e c)" "distinct (addrs (joined a l e c))"
    "evolves W (set (addrs (BNode x es [l, c]))) W' (set (addrs (joined a l e c)))"
    "Suc (Suc (length (addrs (joined a l e c)))) = length (addrs (BNode x es [l, c]))"
proof -
  have t': "tree_at W (BNode x es ([] @ l # c # []))" "distinct (addrs (BNode x es ([] @ l # c # [])))"
    using t by simp_all
  have d: "distinct (addrs l @ addrs c)" "x \<notin> set (addrs l) \<union> set (addrs c)"
    using t(2) by auto
  note j = addrs_joined[OF d(1) ab, of e]
  show "tree_at W' (joined a l e c)"
    by (rule joined_at[OF t' ab W'(1) st])
  show "distinct (addrs (joined a l e c))"
    by (rule j(2))
  show "Suc (Suc (length (addrs (joined a l e c)))) = length (addrs (BNode x es [l, c]))"
    using j(3) by simp
  have "set (addrs (BNode x es [l, c])) = insert x (set (addrs l) \<union> set (addrs c))"
    by auto
  then have X: "set (addrs (BNode x es [l, c])) - (set (addrs l) \<union> set (addrs c) - {b}) = {b, x}" "set (addrs l) \<union> set (addrs c) - {b} \<subseteq> set (addrs (BNode x es [l, c]))"
    using d(2) freed_in[OF ab] by auto
  show "evolves W (set (addrs (BNode x es [l, c]))) W' (set (addrs (joined a l e c)))"
    unfolding j(1)
  proof (rule evolvesI[OF tree_at_dom[OF t(1)] X(2)])
    show "W' u = W u" if "u \<notin> set (addrs (BNode x es [l, c]))" for u
      using that pair_in[of x l c es "[]" "[]"] by (intro W'(1)) auto
  qed (use W'(2) X(1) in simp)
qed

section \<open>The least and the greatest entry\<close>

lemma inorder_ne: "shape h t \<Longrightarrow> inorder t \<noteq> []"
  using shape_entries(1,3)[of h t] set_weave[of "map inorder (tree_kids t)" "tree_entries t"] by (cases t) fastforce

lemma last_inorder:
  assumes "shape (Suc h) (BNode x es ts)"
  shows "last (inorder (BNode x es ts)) = last (inorder (last ts))" "last ts \<in> set ts"
proof -
  have ts: "length ts = length es + 1" "last ts = ts ! length es"
    using assms last_conv_nth[of ts] by (cases "ts = []"; simp)+
  then show l: "last ts \<in> set ts"
    by simp
  have "shape h (last ts)"
    using assms l by simp
  then show "last (inorder (BNode x es ts)) = last (inorder (last ts))"
    using inorder_child[OF ts(1), of "length es" x] inorder_ne[of h "last ts"] ts by (simp add: after_def)
qed

lemma hd_inorder:
  assumes "shape (Suc h) (BNode x es ts)"
  shows "hd (inorder (BNode x es ts)) = hd (inorder (ts ! 0))" "ts ! 0 \<in> set ts"
proof -
  have ts: "length ts = length es + 1"
    using assms by simp
  then show l: "ts ! 0 \<in> set ts"
    by simp
  have "shape h (ts ! 0)"
    using assms l by simp
  then show "hd (inorder (BNode x es ts)) = hd (inorder (ts ! 0))"
    using inorder_child[OF ts, of 0 x] inorder_ne[of h "ts ! 0"] by (simp add: before_def)
qed

lemma bt_node_entry:
  assumes m: "synced m root len W r" and n: "node_is W n an" and i: "i < length (an_entries an)"
  shows "ok (node_entry K M n i (bt_memory m)) (\<lambda>(e, n', s). e = an_entries an ! i \<and> synced (bt_with_memory m s) root len W r \<and>
    node_is W n' an \<and> nd_address n' = nd_address n)"
proof -
  have "ok (node_entry K M n i (al_memory a)) (\<lambda>(e, n', s). e = an_entries an ! i \<and> nodes (a\<lparr>al_memory := s\<rparr>) h W r \<and> node_is W n' an \<and> nd_address n' = nd_address n)"
    if "nodes a h W r" for a h
    by (rule ok_mono[OF node_entry_ok[OF nodesD(3)[OF that] node_isD[OF n] i]]) (auto intro: nodes_upd[OF that] node_is_more[OF n] dest: node_moreD(1))
  then show ?thesis
    unfolding bt_memory_def by (rule synced_mem[OF m]) auto
qed

lemma bt_node_load:
  assumes m: "synced m root len W r" and x: "stored W x an"
  shows "ok (node_load K M x pg (bt_memory m)) (\<lambda>(n, s). synced (bt_with_memory m s) root len W r \<and> node_is W n an \<and> nd_address n = x)"
  unfolding bt_memory_def by (rule synced_mem[OF m node_load_ok[OF _ x]]) auto

lemma get_max_leaf:
  assumes "nd_node_type n = Leaf" "nd_entries n \<noteq> []"
  shows "get_max K M n s = node_entry K M n (length (nd_entries n) - 1) s"
proof -
  let ?i = "length (nd_entries n) - 1"
  have i: "?i < length (nd_entries n)"
    using assms(2) by simp
  have len: "length (nd_entries n') = length (nd_entries n)" if "get_key K M n ?i s = Some (k, n', s')" for k n' s'
    using that by (auto simp: get_key_def split: prod.splits bind_splits)
  show ?thesis
  proof (cases "get_key K M n ?i s")
    case (Some p)
    then obtain k n' s' where "get_key K M n ?i s = Some (k, n', s')"
      by (cases p) auto
    with len[OF this] assms i show ?thesis
      by (subst get_max.simps) (simp add: node_entry_def node_key_def node_value_def)
  qed (use assms i in \<open>simp add: get_max.simps node_entry_def node_key_def\<close>)
qed

lemma get_max_ok:
  "synced m root len W r \<Longrightarrow> tree_at W t \<Longrightarrow> shape h t \<Longrightarrow> node_is W n (anode_of t) \<Longrightarrow>
   ok (get_max K M n (bt_memory m)) (\<lambda>(e, n', s). e = last (inorder t) \<and> synced (bt_with_memory m s) root len W r \<and>
     node_is W n' (anode_of t) \<and> nd_address n' = nd_address n)"
proof (induction t arbitrary: m n h)
  case (BNode x es ts)
  let ?t = "BNode x es ts"
  note len = node_is_length[OF BNode.prems(4)]
  have v: "version_page_size (nd_version n) = pg"
    by (rule node_is_raw[OF BNode.prems(4)])
  show ?case
  proof (cases h)
    case 0
    then have ts: "ts = []" "es \<noteq> []"
      using BNode.prems(3) by simp_all
    then have "nd_node_type n = Leaf" "nd_entries n \<noteq> []" "last es = es ! (length (nd_entries n) - 1)" "length (nd_entries n) - 1 < length es"
      using BNode.prems(4) len by (auto simp: node_is_def last_conv_nth)
    then show ?thesis
      using bt_node_entry[OF BNode.prems(1,4), of "length (nd_entries n) - 1"] ts by (simp add: get_max_leaf)
  next
    case (Suc h')
    note l = last_inorder[OF BNode.prems(3)[unfolded Suc]]
    have c: "tree_at W (last ts)" "shape h' (last ts)" "ts \<noteq> []"
      using BNode.prems(2,3) Suc l(2) by auto
    have ch: "nd_node_type n = Internal" "nd_children n \<noteq> []" "last (nd_children n) = tree_addr (last ts)"
      using BNode.prems(4) c(3) by (auto simp: node_is_def last_map)
    from bt_node_load[OF BNode.prems(1) tree_at_root[OF c(1)]] obtain n1 s1 where
      1: "node_load K M (tree_addr (last ts)) pg (bt_memory m) = Some (n1, s1)" "synced (bt_with_memory m s1) root len W r" "node_is W n1 (anode_of (last ts))"
      by (auto elim!: ok_obtain)
    from BNode.IH[OF l(2) 1(2) c(1,2) 1(3)] show ?thesis
      using BNode.prems(4) l(1) by (subst get_max.simps) (auto simp: ch v 1(1) elim!: ok_mono)
  qed
qed

lemma get_min_ok:
  "synced m root len W r \<Longrightarrow> tree_at W t \<Longrightarrow> shape h t \<Longrightarrow> node_is W n (anode_of t) \<Longrightarrow>
   ok (get_min K M n (bt_memory m)) (\<lambda>(e, n', s). e = hd (inorder t) \<and> synced (bt_with_memory m s) root len W r \<and>
     node_is W n' (anode_of t) \<and> nd_address n' = nd_address n)"
proof (induction t arbitrary: m n h)
  case (BNode x es ts)
  let ?t = "BNode x es ts"
  have v: "version_page_size (nd_version n) = pg"
    by (rule node_is_raw[OF BNode.prems(4)])
  show ?case
  proof (cases h)
    case 0
    then have ts: "ts = []" "es \<noteq> []"
      using BNode.prems(3) by simp_all
    then have "nd_node_type n = Leaf"
      using BNode.prems(4) by (auto simp: node_is_def)
    then show ?thesis
      using bt_node_entry[OF BNode.prems(1,4), of 0] ts by (subst get_min.simps) (simp add: hd_conv_nth)
  next
    case (Suc h')
    note l = hd_inorder[OF BNode.prems(3)[unfolded Suc]]
    have c: "tree_at W (ts ! 0)" "shape h' (ts ! 0)" "ts \<noteq> []"
      using BNode.prems(2,3) Suc l(2) by auto
    have ch: "nd_node_type n = Internal" "node_child n 0 = Some (tree_addr (ts ! 0))"
      using BNode.prems(4) c(3) by (auto simp: node_is_def node_child_def)
    from bt_node_load[OF BNode.prems(1) tree_at_root[OF c(1)]] obtain n1 s1 where
      1: "node_load K M (tree_addr (ts ! 0)) pg (bt_memory m) = Some (n1, s1)" "synced (bt_with_memory m s1) root len W r" "node_is W n1 (anode_of (ts ! 0))"
      by (auto elim!: ok_obtain)
    from BNode.IH[OF l(2) 1(2) c(1,2) 1(3)] show ?thesis
      using BNode.prems(4) l(1) by (subst get_min.simps) (auto simp: ch v 1(1) elim!: ok_mono)
  qed
qed

section \<open>Rotations\<close>

lemma pair_shape:
  assumes "shape (Suc h) (BNode x (es1 @ e # es2) (A @ l # c # B))" "length A = length es1"
  shows "shape h l" "shape h c" "length B = length es2" "\<And>t. t \<in> set A \<union> set B \<Longrightarrow> shape h t \<and> 5 \<le> length (tree_entries t)"
    "5 \<le> length (tree_entries l)" "5 \<le> length (tree_entries c)" "length es1 + length es2 < 11"
  using assms by auto

lemma pair_shapeI:
  assumes "shape (Suc h) (BNode x (es1 @ e # es2) (A @ l # c # B))" "length A = length es1"
    "shape h l'" "shape h c'" "5 \<le> length (tree_entries l')" "5 \<le> length (tree_entries c')"
  shows "shape (Suc h) (BNode x (es1 @ e' # es2) (A @ l' # c' # B))"
  using assms by auto

lemma pair_good:
  assumes m: "synced m root len W r" and t: "shape (Suc h) (BNode x (es1 @ e # es2) (A @ l # c # B))" "length A = length es1"
      "content (inorder (BNode x (es1 @ e # es2) (A @ l # c # B)))"
    and k: "\<forall>t \<in> set (l # c # tree_kids l @ tree_kids c @ A @ B). tree_addr t \<in> dom W"
  shows "good (anode_of (BNode x (es1 @ e # es2) (A @ l # c # B)))" "good (anode_of l)" "good (anode_of c)"
proof -
  note s = pair_shape[OF t(1,2)]
  let ?io = "pre (map inorder A) es1 @ (inorder l @ e # inorder c) @ post (map inorder B) es2"
  have "?io = pre (map inorder A) es1 @ inorder l @ e # inorder c @ post (map inorder B) es2"
    "?io = (pre (map inorder A) es1 @ inorder l @ [e]) @ inorder c @ post (map inorder B) es2"
    by simp_all
  then have con: "content (inorder l)" "content (inorder c)"
    using t(3) content_part unfolding inorder_pair[OF t(2)] by metis+
  show "good (anode_of l)"
    using content_tree[OF con(1) s(1)] shape_entries[OF s(1)] k by (intro synced_good[OF m]) auto
  show "good (anode_of c)"
    using content_tree[OF con(2) s(2)] shape_entries[OF s(2)] k by (intro synced_good[OF m]) auto
  show "good (anode_of (BNode x (es1 @ e # es2) (A @ l # c # B)))"
    using content_tree[OF t(3,1)] shape_entries[OF t(1)] k by (intro synced_good[OF m]) auto
qed

lemma save3:
  assumes m: "synced m root len W r" and a: "node_is W a (anode_of ta)" "good (anode_of ta)" and b: "node_is W b (anode_of tb)" "good (anode_of tb)"
    and n: "node_is W n (anode_of t)" "good (anode_of t)"
    and d: "nd_address a \<noteq> nd_address b" "nd_address n \<noteq> nd_address a" "nd_address n \<noteq> nd_address b"
  shows "ok (do {
      (a, m) \<leftarrow> save_node K M m a;
      (b, m) \<leftarrow> save_node K M m b;
      (n, m) \<leftarrow> save_node K M m n;
      Some (b, m) }) (\<lambda>(b', m'). \<exists>W'. synced m' root len W' r \<and> (\<forall>u. u \<notin> {nd_address n, nd_address a, nd_address b} \<longrightarrow> W' u = W u) \<and> dom W' = dom W \<and>
        stored W' (nd_address n) (anode_of t) \<and> stored W' (nd_address a) (anode_of ta) \<and> stored W' (nd_address b) (anode_of tb) \<and>
        node_is W' b' (anode_of tb) \<and> nd_address b' = nd_address b)"
proof -
  let ?x = "nd_address n" and ?y = "nd_address a" and ?z = "nd_address b"
  from save_node_ok[OF m a] obtain a1 m1 r1 where
    1: "save_node K M m a = Some (a1, m1)" "synced m1 root len (W(?y \<mapsto> r1)) r" "stored (W(?y \<mapsto> r1)) ?y (anode_of ta)"
    by (elim ok_obtain) blast
  have "node_is (W(?y \<mapsto> r1)) b (anode_of tb)"
    using b(1) d(1) node_is_cong[of "W(?y \<mapsto> r1)" b W] by simp
  from save_node_ok[OF 1(2) this b(2)] obtain b2 m2 r2 where
    2: "save_node K M m1 b = Some (b2, m2)" "synced m2 root len (W(?y \<mapsto> r1, ?z \<mapsto> r2)) r" "stored (W(?y \<mapsto> r1, ?z \<mapsto> r2)) ?z (anode_of tb)"
      "node_is (W(?y \<mapsto> r1, ?z \<mapsto> r2)) b2 (anode_of tb)" "nd_address b2 = ?z"
    by (elim ok_obtain) blast
  let ?W2 = "W(?y \<mapsto> r1, ?z \<mapsto> r2)"
  have "node_is ?W2 n (anode_of t)"
    using n(1) d node_is_cong[of ?W2 n W] by simp
  from save_node_ok[OF 2(2) this n(2)] obtain n3 m3 r3 where
    3: "save_node K M m2 n = Some (n3, m3)" "synced m3 root len (?W2(?x \<mapsto> r3)) r" "stored (?W2(?x \<mapsto> r3)) ?x (anode_of t)"
    by (elim ok_obtain) blast
  let ?W3 = "?W2(?x \<mapsto> r3)"
  have "stored ?W3 ?y (anode_of ta)" "stored ?W3 ?z (anode_of tb)" "node_is ?W3 b2 (anode_of tb)"
    using 1(3) 2(3,4,5) d stored_cong[of ?W3 ?y "W(?y \<mapsto> r1)"] stored_cong[of ?W3 ?z ?W2] node_is_cong[of ?W3 b2 ?W2] by simp_all
  moreover have "dom ?W3 = dom W"
    using node_is_dom[OF a(1)] node_is_dom[OF b(1)] node_is_dom[OF n(1)] by (simp add: insert_absorb)
  moreover have "\<forall>u. u \<notin> {?x, ?y, ?z} \<longrightarrow> ?W3 u = W u"
    by simp
  ultimately show ?thesis
    using 1(1) 2(1,5) 3 by (auto simp del: fun_upd_apply dom_fun_upd intro!: exI[of _ ?W3])
qed

text \<open>
  What the preparation of the next node ends with: the same entries in a tree at the same address, and
  the child that the key leads to in memory, with more entries than the minimum.
\<close>

definition child_ready :: "address \<Rightarrow> nat \<Rightarrow> node_heap \<Rightarrow> nat \<Rightarrow> nat \<Rightarrow> 'k btree \<Rightarrow> 'k \<Rightarrow> 'k node \<times> 's btree_map \<Rightarrow> bool" where
  "child_ready root len W r h t key res \<longleftrightarrow> (\<exists>W' r' es1 es2 A c B.
     synced (snd res) root len W' r' \<and> moved W t r W' (BNode (tree_addr t) (es1 @ es2) (A @ c # B)) r' \<and>
     shape (Suc h) (BNode (tree_addr t) (es1 @ es2) (A @ c # B)) \<and> inorder (BNode (tree_addr t) (es1 @ es2) (A @ c # B)) = inorder t \<and>
     length (tree_entries t) \<le> Suc (length (es1 @ es2)) \<and> length A = length es1 \<and> all_below es1 key \<and> all_above key es2 \<and>
     node_is W' (fst res) (anode_of c) \<and> nd_address (fst res) = tree_addr c \<and> 6 \<le> length (tree_entries c))"

lemma child_readyI:
  assumes "synced m' root len W' r'" "moved W t r W' (BNode (tree_addr t) (es1 @ es2) (A @ c # B)) r'"
    "shape (Suc h) (BNode (tree_addr t) (es1 @ es2) (A @ c # B))" "inorder (BNode (tree_addr t) (es1 @ es2) (A @ c # B)) = inorder t"
    "length (tree_entries t) \<le> Suc (length (es1 @ es2))" "length A = length es1" "all_below es1 key" "all_above key es2"
    "node_is W' n' (anode_of c)" "nd_address n' = tree_addr c" "6 \<le> length (tree_entries c)"
  shows "child_ready root len W r h t key (n', m')"
  using assms unfolding child_ready_def fst_conv snd_conv by blast

text \<open>Three nodes with new contents are saved; \<open>ta\<close> and \<open>tb\<close> are the two children, in one order or the other.\<close>

lemma rotation_saved:
  assumes m: "synced m root len W r" and T: "t = BNode x (es1 @ e # es2) (A @ l # c # B)" "length A = length es1"
    and t: "tree_at W t" "distinct (addrs t)" "shape (Suc h) t" "content (inorder t)"
    and T': "t' = BNode x (es1 @ e' # es2) (A @ l' # c' # B)" "shape h l'" "shape h c'" "5 \<le> length (tree_entries l')" "5 \<le> length (tree_entries c')"
      "inorder t' = inorder t" "tree_kids l' @ tree_kids c' = tree_kids l @ tree_kids c" "tree_addr l' = tree_addr l" "tree_addr c' = tree_addr c"
    and ab: "ta = l' \<and> tb = c' \<or> ta = c' \<and> tb = l'"
    and a: "node_is W a (anode_of ta)" "nd_address a = tree_addr ta" and b: "node_is W b (anode_of tb)" "nd_address b = tree_addr tb"
    and n: "node_is W n (anode_of t')" "nd_address n = x"
    and ready: "t' = BNode x (es1' @ es2') (A' @ tb # B')" "length A' = length es1'" "all_below es1' key" "all_above key es2'" "6 \<le> length (tree_entries tb)"
  shows "ok (do {
      (a, m) \<leftarrow> save_node K M m a;
      (b, m) \<leftarrow> save_node K M m b;
      (n, m) \<leftarrow> save_node K M m n;
      Some (b, m) }) (child_ready root len W r h t key)"
proof -
  have sht: "shape (Suc h) t'"
    unfolding T'(1) by (rule pair_shapeI[OF t(3)[unfolded T(1)] T(2) T'(2-5)])
  have dom: "\<forall>u \<in> set (l' # c' # tree_kids l' @ tree_kids c' @ A @ B). tree_addr u \<in> dom W"
  proof
    fix u
    assume that: "u \<in> set (l' # c' # tree_kids l' @ tree_kids c' @ A @ B)"
    have "set (tree_kids l') \<union> set (tree_kids c') = set (tree_kids l) \<union> set (tree_kids c)"
      using T'(7) by (metis set_append)
    then have "u = l' \<or> u = c' \<or> u \<in> set (tree_kids l) \<union> set (tree_kids c) \<union> set A \<union> set B"
      using that by auto
    moreover have lc: "tree_at W l" "tree_at W c" "\<forall>u \<in> set A \<union> set B. tree_at W u"
      using t(1) unfolding T(1) by simp_all
    moreover have "\<forall>u \<in> set (tree_kids l) \<union> set (tree_kids c). tree_at W u"
      using lc(1,2) unfolding tree_at_node[of W l] tree_at_node[of W c] by blast
    ultimately have "tree_at W u \<or> u = l' \<or> u = c'"
      by blast
    then show "tree_addr u \<in> dom W"
      using kid_dom[of W u] kid_dom[OF lc(1)] kid_dom[OF lc(2)] T'(8,9) by (elim disjE) simp_all
  qed
  have con: "content (inorder t')"
    using t(4) T'(6) by simp
  note g = pair_good[OF m sht[unfolded T'(1)] T(2) con[unfolded T'(1)] dom, folded T'(1)]
  have ga: "good (anode_of ta)" "good (anode_of tb)"
    using ab g(2,3) by auto
  have x: "tree_addr t = x" and len: "length (tree_entries t) \<le> Suc (length (es1' @ es2'))"
    using arg_cong[OF trans[OF T'(1)[symmetric] ready(1)], of "\<lambda>t. length (tree_entries t)"] unfolding T(1) by simp_all
  have d: "tree_addr l \<noteq> tree_addr c" "x \<noteq> tree_addr l" "x \<noteq> tree_addr c"
    using t(2) unfolding T(1) by (cases l; cases c; auto)+
  have ad: "tree_addr ta \<noteq> tree_addr tb" "x \<noteq> tree_addr ta" "x \<noteq> tree_addr tb" "{x, tree_addr ta, tree_addr tb} = {x, tree_addr l, tree_addr c}"
    using ab d T'(8,9) by auto
  from save3[OF m a(1) ga(1) b(1) ga(2) n(1) g(1), unfolded a(2) b(2) n(2) ad(4), OF ad(1-3)] show ?thesis
  proof (elim ok_mono, clarify)
    fix b' m' W'
    assume W': "synced m' root len W' r" "\<forall>u. u \<notin> {x, tree_addr l, tree_addr c} \<longrightarrow> W' u = W u" "dom W' = dom W"
      and st: "stored W' x (anode_of t')" "stored W' (tree_addr ta) (anode_of ta)" "stored W' (tree_addr tb) (anode_of tb)"
      and b': "node_is W' b' (anode_of tb)" "nd_address b' = tree_addr tb"
    have "stored W' (tree_addr l) (anode_of l')" "stored W' (tree_addr c) (anode_of c')"
      using ab st(2,3) T'(8,9) by auto
    from rotated[OF t(1,2)[unfolded T(1)] T'(7-9) _ W'(3) st(1)[unfolded T'(1)] this] W'(2)
    have "moved W t r W' t' r"
      unfolding T(1) T'(1) by blast
    then show "child_ready root len W r h t key (b', m')"
      using sht T'(6) ready(2-5) W'(1) b' len x unfolding ready(1) by (intro child_readyI) simp_all
  qed
qed

lemma rotate_from_left_ok:
  assumes m: "synced m root len W r" and T: "t = BNode x (es1 @ e # es2) (A @ l # c # B)" "length A = length es1"
    and t: "tree_at W t" "distinct (addrs t)" "shape (Suc h) t" "content (inorder t)"
    and n: "node_is W n (anode_of t)" "nd_address n = x" and ln: "node_is W ln (anode_of l)" "nd_address ln = tree_addr l"
    and cn: "node_is W cn (anode_of c)" "nd_address cn = tree_addr c"
    and occ: "6 \<le> length (tree_entries l)" "length (tree_entries c) = 5" and key: "all_below (es1 @ [e]) key" "all_above key es2"
  shows "ok (rotate_from_left K M m n (Suc (length A)) ln cn) (child_ready root len W r h t key)"
proof -
  note s = pair_shape[OF t(3)[unfolded T(1)] T(2)]
  let ?e = "last (tree_entries l)" and ?l = "left_rest l" and ?c = "right_more l e c"
  let ?t = "BNode x (es1 @ ?e # es2) (A @ ?l # ?c # B)"
  have ne: "tree_entries l \<noteq> []"
    using occ(1) by auto
  have sh: "shape h ?l" "shape h ?c"
    using rest_shape(1)[OF s(1)] more_shape(1)[OF s(1,2)] occ by simp_all
  have occ': "5 \<le> length (tree_entries ?l)" "length (tree_entries ?c) = 6"
    using occ by (simp_all add: left_rest_def right_more_def)
  have sht: "shape (Suc h) ?t"
    using occ' by (intro pair_shapeI[OF t(3)[unfolded T(1)] T(2) sh]) simp_all
  have io: "inorder ?t = inorder t"
    unfolding T(1) inorder_pair[OF T(2)] rotate_right_inorder[OF s(1,2)] ..
  have kids: "tree_kids ?l @ tree_kids ?c = tree_kids l @ tree_kids c"
    by (auto simp: left_rest_def right_more_def)
  from bt_pop_entry[OF m ln(1)] ne obtain ln1 s1 where
    1: "pop_entry K M ln (bt_memory m) = Some (Some ?e, ln1, s1)" "synced (bt_with_memory m s1) root len W r"
      "node_is W ln1 (anode_of l\<lparr>an_entries := butlast (tree_entries l)\<rparr>)" "nd_address ln1 = tree_addr l"
    using ln(2) by (auto elim!: ok_obtain)
  have i: "length A < length (an_entries (anode_of t))"
    using T by simp
  from bt_swap_entry[OF 1(2) n(1) i, of ?e] obtain n2 s2 where
    2: "swap_entry K M n (length A) ?e s1 = Some (e, n2, s2)" "synced (bt_with_memory m s2) root len W r"
      "node_is W n2 (anode_of t\<lparr>an_entries := es1 @ ?e # es2\<rparr>)" "nd_address n2 = x"
    using n(2) T by (auto simp: list_update_append elim!: ok_obtain)
  from tree_insert_entry[OF cn(1), of 0 e] obtain cn3 where
    3: "insert_entry cn 0 e = Some cn3" "node_is W cn3 (anode_of c\<lparr>an_entries := e # tree_entries c\<rparr>)" "nd_address cn3 = tree_addr c"
    using cn(2) by (auto elim!: ok_obtain)
  have leaf: "tree_kids l = [] \<longleftrightarrow> tree_kids c = []"
    using shape_entries(4)[OF s(1)] shape_entries(4)[OF s(2)] by simp
  obtain lc ln4 cn4 where 4: "pop_child ln1 = (lc, ln4)" "(case lc of
         Some last_child \<Rightarrow> do {
           assert_that (nd_node_type ln4 = Internal);
           assert_that (nd_node_type cn3 = Internal);
           insert_child cn3 0 last_child }
       | None \<Rightarrow> do {
           assert_that (nd_node_type ln4 = Leaf);
           assert_that (nd_node_type cn3 = Leaf);
           Some cn3 }) = Some cn4"
      "node_is W ln4 (anode_of ?l)" "nd_address ln4 = tree_addr l" "node_is W cn4 (anode_of ?c)" "nd_address cn4 = tree_addr c"
  proof (cases "tree_kids l = []")
    case True
    then have "pop_child ln1 = (None, ln1)" "nd_node_type ln1 = Leaf" "nd_node_type cn3 = Leaf"
        "anode_of l\<lparr>an_entries := butlast (tree_entries l)\<rparr> = anode_of ?l" "anode_of c\<lparr>an_entries := e # tree_entries c\<rparr> = anode_of ?c"
      using 1(3) 3(2) leaf by (auto simp: node_is_def pop_child_def anode_of_def left_rest_def right_more_def)
    then show thesis
      using that[of None ln1 cn3] 1(3,4) 3(2,3) by simp
  next
    case False
    let ?ln = "ln1\<lparr>nd_children := butlast (map tree_addr (tree_kids l))\<rparr>" and ?cn = "cn3\<lparr>nd_children := tree_addr (last (tree_kids l)) # map tree_addr (tree_kids c)\<rparr>"
    have ch: "nd_children ln1 = map tree_addr (tree_kids l)" "nd_children cn3 = map tree_addr (tree_kids c)" "nd_node_type ln1 = Internal" "nd_node_type cn3 = Internal"
      using 1(3) 3(2) leaf False by (auto simp: node_is_def)
    have "length (tree_kids l) = length (tree_entries l) + 1"
      using shape_entries(3)[OF s(1)] False by blast
    then have "length (butlast (tree_kids l)) \<noteq> 0"
      using ne by simp
    then have "butlast (tree_kids l) \<noteq> []"
      by (metis list.size(3))
    then have an: "anode_of l\<lparr>an_entries := butlast (tree_entries l), an_children := butlast (map tree_addr (tree_kids l))\<rparr> = anode_of ?l"
        "anode_of c\<lparr>an_entries := e # tree_entries c, an_children := tree_addr (last (tree_kids l)) # map tree_addr (tree_kids c)\<rparr> = anode_of ?c"
      using False leaf by (auto simp: anode_of_def left_rest_def right_more_def map_butlast)
    have "pop_child ln1 = (Some (tree_addr (last (tree_kids l))), ?ln)" "insert_child cn3 0 (tree_addr (last (tree_kids l))) = Some ?cn"
      using False by (simp_all add: pop_child_def ch last_map insert_child_def vec_insert_def)
    moreover have "node_is W ?ln (anode_of ?l)" "node_is W ?cn (anode_of ?c)"
      using tree_children[OF 1(3)] tree_children[OF 3(2)] unfolding an[symmetric] by blast+
    ultimately show thesis
      using that[of _ ?ln ?cn] ch 1(4) 3(3) by simp
  qed
  have ant: "anode_of t\<lparr>an_entries := es1 @ ?e # es2\<rparr> = anode_of ?t"
    unfolding T(1) by (simp add: anode_of_def left_rest_def right_more_def)
  have ad: "tree_addr ?l = tree_addr l" "tree_addr ?c = tree_addr c"
    by (simp_all add: left_rest_def right_more_def)
  have lt: "fst ?e < key"
    using pair_order(1)[OF content_sorted[OF t(4)[unfolded T(1)]] T(2) s(1,2) last_in_set[OF ne]] key(1) by (auto intro: less_trans)
  have "ok (do {
      (a, m) \<leftarrow> save_node K M (bt_with_memory m s2) ln4;
      (b, m) \<leftarrow> save_node K M m cn4;
      (n, m) \<leftarrow> save_node K M m n2;
      Some (b, m) }) (child_ready root len W r h t key)"
    by (rule rotation_saved[OF 2(2) T t refl sh _ _ io kids ad disjI1[OF conjI[OF refl refl]] 4(3) _ 4(5) _ 2(3)[unfolded ant] 2(4),
          of "es1 @ [?e]" es2 "A @ [?l]" B]) (use T(2) 4(4,6) key lt occ' in \<open>simp_all add: ad\<close>)
  moreover have "u64_sub (Suc (length A)) 1 = Some (length A)"
    by (simp add: u64_sub_def)
  ultimately show ?thesis
    unfolding rotate_from_left_def using 4(2) by (simp add: 1(1) 2(1) 3(1) 4(1))
qed

lemma rotate_from_right_ok:
  assumes m: "synced m root len W r" and T: "t = BNode x (es1 @ e # es2) (A @ c # q # B)" "length A = length es1"
    and t: "tree_at W t" "distinct (addrs t)" "shape (Suc h) t" "content (inorder t)"
    and n: "node_is W n (anode_of t)" "nd_address n = x" and qn: "node_is W qn (anode_of q)" "nd_address qn = tree_addr q"
    and cn: "node_is W cn (anode_of c)" "nd_address cn = tree_addr c"
    and occ: "6 \<le> length (tree_entries q)" "length (tree_entries c) = 5" and key: "all_below es1 key" "all_above key (e # es2)"
  shows "ok (rotate_from_right K M m n (length A) qn cn) (child_ready root len W r h t key)"
proof -
  note s = pair_shape[OF t(3)[unfolded T(1)] T(2)]
  let ?e = "hd (tree_entries q)" and ?q = "right_rest q" and ?c = "left_more c e q"
  let ?t = "BNode x (es1 @ ?e # es2) (A @ ?c # ?q # B)"
  obtain q0 qs where qe: "tree_entries q = q0 # qs"
    using occ(1) by (cases "tree_entries q") auto
  have sh: "shape h ?c" "shape h ?q"
    using rest_shape(2)[OF s(2)] more_shape(2)[OF s(1,2)] occ by simp_all
  have occ': "length (tree_entries ?c) = 6" "5 \<le> length (tree_entries ?q)"
    using occ by (simp_all add: right_rest_def left_more_def)
  have io: "inorder ?t = inorder t"
    unfolding T(1) inorder_pair[OF T(2)] rotate_left_inorder[OF s(1,2)] ..
  have kids: "tree_kids ?c @ tree_kids ?q = tree_kids c @ tree_kids q"
    by (cases "tree_kids q") (simp_all add: right_rest_def left_more_def)
  from bt_remove_entry[OF m qn(1), of 0] obtain qn1 s1 where
    1: "remove_entry K M qn 0 (bt_memory m) = Some (?e, qn1, s1)" "synced (bt_with_memory m s1) root len W r"
      "node_is W qn1 (anode_of q\<lparr>an_entries := tl (tree_entries q)\<rparr>)" "nd_address qn1 = tree_addr q"
    using qn(2) qe by (auto elim!: ok_obtain)
  have i: "length A < length (an_entries (anode_of t))"
    using T by simp
  from bt_swap_entry[OF 1(2) n(1) i, of ?e] obtain n2 s2 where
    2: "swap_entry K M n (length A) ?e s1 = Some (e, n2, s2)" "synced (bt_with_memory m s2) root len W r"
      "node_is W n2 (anode_of t\<lparr>an_entries := es1 @ ?e # es2\<rparr>)" "nd_address n2 = x"
    using n(2) T by (auto simp: list_update_append elim!: ok_obtain)
  let ?cn = "push_entry cn e"
  note 3 = tree_push_entry[OF cn(1), of e, unfolded anode_of_simps]
  have leaf: "tree_kids q = [] \<longleftrightarrow> tree_kids c = []"
    using shape_entries(4)[OF s(1)] shape_entries(4)[OF s(2)] by simp
  obtain qn4 cn4 where 4: "(case nd_node_type qn1 of
         Internal \<Rightarrow> do {
           assert_that (nd_node_type ?cn = Internal);
           (c, right_sibling) \<leftarrow> remove_child qn1 0;
           Some (push_child ?cn c, right_sibling) }
       | Leaf \<Rightarrow> do {
           assert_that (nd_node_type ?cn = Leaf);
           Some (?cn, qn1) }) = Some (cn4, qn4)"
      "node_is W qn4 (anode_of ?q)" "nd_address qn4 = tree_addr q" "node_is W cn4 (anode_of ?c)" "nd_address cn4 = tree_addr c"
  proof (cases "tree_kids q = []")
    case True
    then have "nd_node_type qn1 = Leaf" "nd_node_type ?cn = Leaf"
        "anode_of q\<lparr>an_entries := tl (tree_entries q)\<rparr> = anode_of ?q" "anode_of c\<lparr>an_entries := tree_entries c @ [e]\<rparr> = anode_of ?c"
      using 1(3) 3(1) leaf by (auto simp: node_is_def anode_of_def right_rest_def left_more_def)
    then show thesis
      using that[of ?cn qn1] 1(3,4) 3 cn(2) by simp
  next
    case False
    then have "length (tree_kids q) = length (tree_entries q) + 1"
      using shape_entries(3)[OF s(2)] by blast
    then obtain k ks where ks: "tree_kids q = k # ks" "ks \<noteq> []"
      using qe by (cases "tree_kids q"; cases "tl (tree_kids q)") auto
    let ?qn = "qn1\<lparr>nd_children := map tree_addr ks\<rparr>" and ?cn4 = "?cn\<lparr>nd_children := map tree_addr (tree_kids c) @ [tree_addr k]\<rparr>"
    have ch: "nd_children qn1 = map tree_addr (tree_kids q)" "nd_children ?cn = map tree_addr (tree_kids c)" "nd_node_type qn1 = Internal" "nd_node_type ?cn = Internal"
      using 1(3) 3(1) leaf False by (auto simp: node_is_def)
    have an: "anode_of q\<lparr>an_entries := tl (tree_entries q), an_children := map tree_addr ks\<rparr> = anode_of ?q"
        "anode_of c\<lparr>an_entries := tree_entries c @ [e], an_children := map tree_addr (tree_kids c) @ [tree_addr k]\<rparr> = anode_of ?c"
      using ks leaf by (auto simp: anode_of_def right_rest_def left_more_def)
    have "remove_child qn1 0 = Some (tree_addr k, ?qn)" "push_child ?cn (tree_addr k) = ?cn4"
      using ks by (simp_all add: remove_child_def push_child_def vec_remove_def ch)
    moreover have "node_is W ?qn (anode_of ?q)" "node_is W ?cn4 (anode_of ?c)"
      using tree_children[OF 1(3)] tree_children[OF 3(1)] unfolding an[symmetric] by blast+
    ultimately show thesis
      using that[of ?cn4 ?qn] ch 1(4) 3(2) cn(2) by simp
  qed
  have ant: "anode_of t\<lparr>an_entries := es1 @ ?e # es2\<rparr> = anode_of ?t"
    unfolding T(1) by (simp add: anode_of_def right_rest_def left_more_def)
  have ad: "tree_addr ?c = tree_addr c" "tree_addr ?q = tree_addr q"
    by (simp_all add: right_rest_def left_more_def)
  have "hd (tree_entries q) \<in> set (tree_entries q)"
    using qe by simp
  from pair_order(2)[OF content_sorted[OF t(4)[unfolded T(1)]] T(2) s(1,2) this] have lt: "key < fst ?e"
    using key(2) by (auto intro: less_trans)
  have "ok (do {
      (a, m) \<leftarrow> save_node K M (bt_with_memory m s2) qn4;
      (b, m) \<leftarrow> save_node K M m cn4;
      (n, m) \<leftarrow> save_node K M m n2;
      Some (b, m) }) (child_ready root len W r h t key)"
    by (rule rotation_saved[OF 2(2) T t refl sh _ _ io kids ad disjI2[OF conjI[OF refl refl]] 4(2) _ 4(4) _ 2(3)[unfolded ant] 2(4),
          of es1 "?e # es2" A "?q # B"]) (use T(2) 4(3,5) key lt occ' in \<open>simp_all add: ad\<close>)
  then show ?thesis
    unfolding rotate_from_right_def using 4(1) by (simp add: 1(1) 2(1))
qed

end

end
