(* ===== verification/BTree_Remove.thy ===== *)
theory BTree_Remove
  imports BTree_Rebalance
begin

text \<open>
  Removal: two children at their minimum and the entry between them are merged into one node, and the parent goes
  when that was its only entry; the next node of the descent is thus always above its minimum, unless it is the
  root. A removal ends with a tree whose entries are \<open>del key\<close> of those before.
\<close>

lemma del_ends:
  assumes "sorted_keys xs" "xs \<noteq> []"
  shows "del (fst (last xs)) xs = butlast xs" "del (fst (hd xs)) xs = tl xs" "map_of xs (fst (last xs)) \<noteq> None" "map_of xs (fst (hd xs)) \<noteq> None"
proof -
  obtain ys y where y: "xs = ys @ [y]"
    using assms(2) by (metis rev_exhaust)
  have "all_below ys (fst y)"
    using assms(1) by (auto simp: y sorted_wrt_append all_below_def)
  then show "del (fst (last xs)) xs = butlast xs"
    by (simp add: y del_Cons)
  obtain z zs where z: "xs = z # zs"
    using assms(2) by (cases xs) auto
  have "all_above (fst z) zs"
    using assms(1) by (auto simp: z all_above_def)
  then show "del (fst (hd xs)) xs = tl xs"
    by (simp add: z del_Cons)
  show "map_of xs (fst (last xs)) \<noteq> None" "map_of xs (fst (hd xs)) \<noteq> None"
    using assms(2) by (simp_all add: map_of_eq_None_iff)
qed

context btree_store
begin

section \<open>Merging two children\<close>

text \<open>The outcome when the parent, the root, had a single entry: the merged node is the new root.\<close>

definition collapsed_to :: "nat \<Rightarrow> node_heap \<Rightarrow> nat \<Rightarrow> nat \<Rightarrow> 'k btree \<Rightarrow> 'k node \<times> 's btree_map \<Rightarrow> bool" where
  "collapsed_to len W r h t res \<longleftrightarrow> (\<exists>W' r' c. synced (snd res) (tree_addr c) len W' r' \<and> tree_at W' c \<and> distinct (addrs c) \<and>
     evolves W (set (addrs t)) W' (set (addrs c)) \<and> r' + length (addrs c) = r + length (addrs t) \<and> shape h c \<and> inorder c = inorder t \<and>
     node_is W' (fst res) (anode_of c) \<and> nd_address (fst res) = tree_addr c)"

definition ready :: "address \<Rightarrow> nat \<Rightarrow> node_heap \<Rightarrow> nat \<Rightarrow> nat \<Rightarrow> 'k btree \<Rightarrow> 'k \<Rightarrow> 'k node \<times> 's btree_map \<Rightarrow> bool" where
  "ready root len W r h t key res \<longleftrightarrow> child_ready root len W r h t key res \<or> length (tree_entries t) = 1 \<and> collapsed_to len W r h t res"

lemma merged_joined:
  assumes "shape h l" "shape h c"
  shows "merged True (anode_of l) e (anode_of c) = anode_of (joined (tree_addr l) l e c)"
    "merged False (anode_of c) e (anode_of l) = anode_of (joined (tree_addr c) l e c)"
  using shape_entries(4)[OF assms(1)] shape_entries(4)[OF assms(2)] by (simp_all add: merged_def joined_def anode_of_def)

lemma joined_good:
  assumes m: "synced m root len W r" and T: "length A = length es1" and t: "tree_at W (BNode x (es1 @ e # es2) (A @ l # c # B))"
      "shape (Suc h) (BNode x (es1 @ e # es2) (A @ l # c # B))" "content (inorder (BNode x (es1 @ e # es2) (A @ l # c # B)))"
    and occ: "length (tree_entries l) = 5" "length (tree_entries c) = 5"
  shows "good (anode_of (joined a l e c))"
proof -
  note s = pair_shape[OF t(2) T] and lc = t(1)[unfolded tree_at.simps]
  have io: "content (inorder (joined a l e c))"
    using content_part[OF t(3)[unfolded inorder_pair[OF T]]] joined_inorder[OF s(1,2)] by simp
  note sh = joined_shape[OF s(1,2) occ, of a e]
  have "tree_at W u" if "u \<in> set (tree_kids l) \<union> set (tree_kids c)" for u
    using that lc tree_at_node[of W l] tree_at_node[of W c] by auto
  then show ?thesis
    using content_tree[OF io sh(1)] shape_entries[OF sh(1)] kid_dom by (intro synced_good[OF m]) (auto simp: joined_def)
qed

text \<open>\<open>into\<close> is the node that stays, at address \<open>a\<close>, \<open>src\<close> the one that goes; \<open>j\<close> is the position of the latter in the parent.\<close>

lemma pair_merge:
  assumes m: "synced m root len W r" and T: "t = BNode x (es1 @ e # es2) (A @ l # c # B)" "length A = length es1"
    and t: "tree_at W t" "distinct (addrs t)" "shape (Suc h) t" "content (inorder t)"
    and n: "node_is W n (anode_of t)" "nd_address n = x"
    and pos: "u = l \<and> v = c \<and> j = Suc (length A) \<or> u = c \<and> v = l \<and> j = length A"
    and into: "node_is W into (anode_of u)" "nd_address into = tree_addr u" and src: "node_is W src (anode_of v)" "nd_address src = tree_addr v"
    and occ: "length (tree_entries l) = 5" "length (tree_entries c) = 5"
  shows "ok (do {
      (e, node, s) \<leftarrow> remove_entry K M n (length A) (bt_memory m);
      (new, m) \<leftarrow> btree_merge K M (bt_with_memory m s) src into e;
      (_, node) \<leftarrow> remove_child node j;
      Some (new, node, m) }) (\<lambda>(new, node, m'). \<exists>W'. synced m' root len W' (Suc r) \<and> (\<forall>y. y \<notin> {x, tree_addr l, tree_addr c} \<longrightarrow> W' y = W y) \<and>
        dom W' = dom W - {tree_addr v} \<and> stored W' (tree_addr u) (anode_of (joined (tree_addr u) l e c)) \<and>
        node_is W' new (anode_of (joined (tree_addr u) l e c)) \<and> nd_address new = tree_addr u \<and>
        node_is W' node (anode_of (BNode x (es1 @ es2) (A @ joined (tree_addr u) l e c # B))) \<and> nd_address node = x)"
proof -
  let ?j = "joined (tree_addr u) l e c"
  note s = pair_shape[OF t(3)[unfolded T(1)] T(2)]
  have d: "tree_addr l \<noteq> tree_addr c" "x \<noteq> tree_addr l" "x \<noteq> tree_addr c"
    using t(2) unfolding T(1) by (cases l; cases c; auto)+
  then have uv: "tree_addr u \<noteq> tree_addr v" "x \<noteq> tree_addr u" "x \<noteq> tree_addr v" "{tree_addr u, tree_addr v} = {tree_addr l, tree_addr c}"
    using pos by auto
  obtain right where g: "merged right (anode_of u) e (anode_of v) = anode_of ?j" "an_type (anode_of u) = an_type (anode_of v)"
    using pos merged_joined[OF s(1,2), of e] shape_entries(4)[OF s(1)] shape_entries(4)[OF s(2)] by (auto simp: anode_of_def)
  have lc: "tree_at W l" "tree_at W c"
    using t(1) unfolding T(1) by simp_all
  have gd: "good (anode_of u)" "good (anode_of v)"
    using pos stored_good[OF tree_at_root[OF lc(1)]] stored_good[OF tree_at_root[OF lc(2)]] by auto
  have gj: "good (merged right (anode_of u) e (anode_of v))"
    unfolding g(1) by (rule joined_good[OF m T(2) t(1,3,4)[unfolded T(1)] occ])
  from bt_remove_entry[OF m n(1), of "length A"] obtain n1 s1 where
    1: "remove_entry K M n (length A) (bt_memory m) = Some (e, n1, s1)" "synced (bt_with_memory m s1) root len W r"
      "node_is W n1 (anode_of t\<lparr>an_entries := es1 @ es2\<rparr>)" "nd_address n1 = x"
    using n(2) T by (auto elim!: ok_obtain)
  from btree_merge_ok[OF 1(2) into(1) gd(1) src(1) gd(2) g(2) gj, unfolded into(2) src(2) g(1), OF uv(1)] obtain new m2 raw where
    2: "btree_merge K M (bt_with_memory m s1) src into e = Some (new, m2)" "synced m2 root len (W(tree_addr v := None, tree_addr u \<mapsto> raw)) (Suc r)"
      "nd_address new = tree_addr u" "stored (W(tree_addr v := None, tree_addr u \<mapsto> raw)) (tree_addr u) (anode_of ?j)"
      "node_is (W(tree_addr v := None, tree_addr u \<mapsto> raw)) new (anode_of ?j)"
    by (elim ok_obtain) blast
  let ?W = "W(tree_addr v := None, tree_addr u \<mapsto> raw)" and ?n = "n1\<lparr>nd_children := map tree_addr (A @ ?j # B)\<rparr>"
  have ch: "nd_children n1 = map tree_addr (A @ l # c # B)"
    using 1(3) T(1) by (simp add: node_is_def)
  have ja: "tree_addr ?j = tree_addr u"
    by (simp add: joined_def)
  obtain y where 3: "remove_child n1 j = Some (y, ?n)"
    using pos ja by (auto simp: remove_child_def vec_remove_def ch)
  have run: "(do {
      (e, node, s) \<leftarrow> remove_entry K M n (length A) (bt_memory m);
      (new, m) \<leftarrow> btree_merge K M (bt_with_memory m s) src into e;
      (_, node) \<leftarrow> remove_child node j;
      Some (new, node, m) }) = Some (new, ?n, m2)"
    by (simp add: 1(1) 2(1) 3)
  have an: "anode_of t\<lparr>an_entries := es1 @ es2, an_children := map tree_addr (A @ ?j # B)\<rparr> = anode_of (BNode x (es1 @ es2) (A @ ?j # B))"
    unfolding T(1) by (simp add: anode_of_def)
  have "node_is W ?n (anode_of (BNode x (es1 @ es2) (A @ ?j # B)))"
    using tree_children[OF 1(3)] unfolding an[symmetric] by blast
  moreover have "?W x = W x"
    using uv by simp
  ultimately have "node_is ?W ?n (anode_of (BNode x (es1 @ es2) (A @ ?j # B)))"
    using node_is_cong[of ?W ?n W] 1(4) by simp
  moreover have "tree_addr u \<in> dom W"
    using node_is_dom[OF into(1)] into(2) by simp
  then have "dom ?W = dom W - {tree_addr v}"
    using uv(1) by auto
  moreover have "\<forall>y. y \<notin> {x, tree_addr l, tree_addr c} \<longrightarrow> ?W y = W y"
    using uv(4) by auto
  moreover have "nd_address ?n = x"
    using 1(4) by simp
  ultimately show ?thesis
    unfolding run ok_Some case_prod_conv using 2(2-5) by blast
qed

lemma merge_ready:
  assumes m': "synced m' root len W' (Suc r)" and T: "t = BNode x (es1 @ e # es2) (A @ l # c # B)" "length A = length es1"
    and t: "tree_at W t" "distinct (addrs t)" "shape (Suc h) t" and ab: "{a, b} = {tree_addr l, tree_addr c}"
    and W': "\<forall>y. y \<notin> {x, tree_addr l, tree_addr c} \<longrightarrow> W' y = W y" "dom W' = dom W - {b}"
    and st: "stored W' a (anode_of (joined a l e c))" "stored W' x (anode_of (BNode x (es1 @ es2) (A @ joined a l e c # B)))"
    and new: "node_is W' new (anode_of (joined a l e c))" "nd_address new = a"
    and occ: "length (tree_entries l) = 5" "length (tree_entries c) = 5" "es1 @ es2 \<noteq> []" and key: "all_below es1 key" "all_above key es2"
  shows "child_ready root len W r h t key (new, m')"
proof -
  note s = pair_shape[OF t(3)[unfolded T(1)] T(2)]
  note j = joined_shape[OF s(1,2) occ(1,2), of a e]
  have "moved W t r W' (BNode x (es1 @ es2) (A @ joined a l e c # B)) (Suc r)"
    unfolding T(1) using W'(1) by (intro merged_moved[OF t(1,2)[unfolded T(1)] ab _ W'(2) st]) blast
  moreover have "shape (Suc h) (BNode x (es1 @ es2) (A @ joined a l e c # B))"
    using s(3,4,7) j occ(3) T(2) by auto
  moreover have "inorder (BNode x (es1 @ es2) (A @ joined a l e c # B)) = inorder t"
    using inorder_single[OF T(2), of x es2 "joined a l e c" B] inorder_pair[OF T(2), of x e es2 l c B] joined_inorder[OF s(1,2), of a e] T(1) by simp
  moreover have "tree_addr t = x" "tree_addr (joined a l e c) = a"
    by (simp_all add: T(1) joined_def)
  ultimately show ?thesis
    using T key m' new j(2) by (intro child_readyI[of m' root len W' "Suc r" W t r es1 es2 A "joined a l e c" B]) simp_all
qed

lemma parent_good:
  assumes m': "synced m' root len W' r'" and T: "t = BNode x (es1 @ e # es2) (A @ l # c # B)" "length A = length es1"
    and t: "tree_at W t" "distinct (addrs t)" "shape (Suc h) t" "content (inorder t)" and ab: "{a, b} = {tree_addr l, tree_addr c}"
    and W': "\<forall>y. y \<notin> {x, tree_addr l, tree_addr c} \<longrightarrow> W' y = W y" and st: "stored W' a (anode_of (joined a l e c))"
    and occ: "length (tree_entries l) = 5" "length (tree_entries c) = 5" "es1 @ es2 \<noteq> []"
  shows "good (anode_of (BNode x (es1 @ es2) (A @ joined a l e c # B)))"
proof -
  note s = pair_shape[OF t(3)[unfolded T(1)] T(2)]
  note j = joined_shape[OF s(1,2) occ(1,2), of a e]
  have sh: "shape (Suc h) (BNode x (es1 @ es2) (A @ joined a l e c # B))"
    using s(3,4,7) j occ(3) T(2) by auto
  have "inorder (BNode x (es1 @ es2) (A @ joined a l e c # B)) = inorder t"
    using inorder_single[OF T(2), of x es2 "joined a l e c" B] inorder_pair[OF T(2), of x e es2 l c B] joined_inorder[OF s(1,2), of a e] T(1) by simp
  then have con: "content (inorder (BNode x (es1 @ es2) (A @ joined a l e c # B)))"
    using t(4) by simp
  have W1: "W' y = W y" if "y \<notin> {x, tree_addr l, tree_addr c}" for y
    using W' that by blast
  have "tree_at W' u" if "u \<in> set A \<union> set B" for u
    using that by (intro untouched[OF t(1,2)[unfolded T(1)] W1]) auto
  moreover have "tree_addr (joined a l e c) \<in> dom W'"
    using st by (auto simp: stored_def joined_def)
  ultimately have "\<forall>u \<in> set (A @ joined a l e c # B). tree_addr u \<in> dom W'"
    using kid_dom by auto
  then show ?thesis
    using content_tree[OF con sh] shape_entries[OF sh] by (intro synced_good[OF m']) simp_all
qed

lemma merge_collapse:
  assumes m': "synced m' a len W' (Suc (Suc r))" and T: "t = BNode x [e] [l, c]"
    and t: "tree_at W t" "distinct (addrs t)" "shape (Suc h) t" and ab: "{a, b} = {tree_addr l, tree_addr c}"
    and W': "\<forall>y. y \<notin> {x, tree_addr l, tree_addr c} \<longrightarrow> W' y = W y" "dom W' = dom W - {b, x}"
    and st: "stored W' a (anode_of (joined a l e c))" and new: "node_is W' new (anode_of (joined a l e c))" "nd_address new = a"
    and occ: "length (tree_entries l) = 5" "length (tree_entries c) = 5"
  shows "collapsed_to len W r h t (new, m')"
proof -
  have s: "shape h l" "shape h c"
    using t(3) unfolding T by simp_all
  have W1: "W' y = W y" if "y \<notin> {x, tree_addr l, tree_addr c}" for y
    using W'(1) that by blast
  note cl = collapsed[OF t(1,2)[unfolded T] ab W1 W'(2) st, folded T]
  have "inorder (joined a l e c) = inorder t"
    using joined_inorder[OF s, of a e] by (simp add: T)
  moreover have "tree_addr (joined a l e c) = a"
    by (simp add: joined_def)
  moreover have "Suc (Suc r) + length (addrs (joined a l e c)) = r + length (addrs t)"
    using cl(4) by simp
  ultimately show ?thesis
    unfolding collapsed_to_def fst_conv snd_conv using m' cl(1-3) joined_shape(1)[OF s occ] new by metis
qed

lemma dealloc_node_is:
  assumes "synced m root len W r" "node_is W n an"
  shows "ok (deallocate_node M m n) (\<lambda>m'. synced m' root len (W(nd_address n := None)) (Suc r))"
  by (rule node_is_raw[OF assms(2)]) (rule deallocate_node_ok[OF assms(1)])

lemma bt_root:
  assumes "synced m root len W r"
  shows "ok (save_header M (m\<lparr>bt_root_addr := a\<rparr>)) (\<lambda>m'. synced m' a len W r)"
  using bt_save_header[OF assms, of "m\<lparr>bt_root_addr := a\<rparr>"] syncedD(3)[OF assms] by simp

text \<open>Case 3.b.\<close>

lemma merge_into_sibling_ok:
  assumes m: "synced m root len W r" and T: "t = BNode x (es1 @ e # es2) (A @ l # c # B)" "length A = length es1"
    and t: "tree_at W t" "distinct (addrs t)" "shape (Suc h) t" "content (inorder t)"
    and n: "node_is W n (anode_of t)" "nd_address n = x"
    and pos: "u = l \<and> v = c \<and> j = Suc (length A) \<or> u = c \<and> v = l \<and> j = length A"
    and into: "node_is W into (anode_of u)" "nd_address into = tree_addr u" and src: "node_is W src (anode_of v)" "nd_address src = tree_addr v"
    and occ: "length (tree_entries l) = 5" "length (tree_entries c) = 5" and key: "all_below es1 key" "all_above key es2"
    and root: "length (tree_entries t) = 1 \<Longrightarrow> root = x"
  shows "ok (merge_into_sibling K M m n j (length A) into src) (ready root len W r h t key)"
proof -
  let ?j = "joined (tree_addr u) l e c" and ?a = "tree_addr u" and ?b = "tree_addr v"
  have ab: "{?a, ?b} = {tree_addr l, tree_addr c}" and x: "x \<noteq> ?a" "x \<noteq> ?b"
    using pos t(2) unfolding T(1) by (cases l; cases c; auto)+
  from pair_merge[OF m T t n pos into src occ] obtain new node m1 W1 where
    1: "(do {
      (e, node, s) \<leftarrow> remove_entry K M n (length A) (bt_memory m);
      (new, m) \<leftarrow> btree_merge K M (bt_with_memory m s) src into e;
      (_, node) \<leftarrow> remove_child node j;
      Some (new, node, m) }) = Some (new, node, m1)" "synced m1 root len W1 (Suc r)" "\<forall>y. y \<notin> {x, tree_addr l, tree_addr c} \<longrightarrow> W1 y = W y"
      "dom W1 = dom W - {?b}" "stored W1 ?a (anode_of ?j)" "node_is W1 new (anode_of ?j)" "nd_address new = ?a"
      "node_is W1 node (anode_of (BNode x (es1 @ es2) (A @ ?j # B)))" "nd_address node = x"
    by (elim ok_obtain) blast
  have am: "at_minimum into" and len: "entries_len node = length (es1 @ es2)"
    using node_is_length[OF into(1)] node_is_length[OF 1(8)] pos occ by (auto simp: at_minimum_def BTREE_B_def entries_len_def)
  have run: "merge_into_sibling K M m n j (length A) into src = do {
     m \<leftarrow> (if entries_len node = 0 then do {
          let node_address = nd_address node;
          m \<leftarrow> deallocate_node M m1 node;
          if node_address = bt_root_addr m then save_header M (m\<lparr>bt_root_addr := nd_address new\<rparr>) else Some m }
        else do {
          (node, m) \<leftarrow> save_node K M m1 node;
          Some m });
     Some (new, m) }"
    using 1(1) am by (auto simp: merge_into_sibling_def bind_eq_Some_conv)
  show ?thesis
  proof (cases "es1 @ es2 = []")
    case True
    then have t1: "t = BNode x [e] [l, c]"
      using T pair_shape(3)[OF t(3)[unfolded T(1)] T(2)] by simp
    then have "root = x"
      using root by simp
    from dealloc_node_is[OF 1(2,8)] obtain m2 where 2: "deallocate_node M m1 node = Some m2" "synced m2 root len (W1(x := None)) (Suc (Suc r))"
      unfolding 1(9) by (auto elim!: ok_obtain)
    from bt_root[OF 2(2), of ?a] obtain m3 where 3: "save_header M (m2\<lparr>bt_root_addr := ?a\<rparr>) = Some m3" "synced m3 ?a len (W1(x := None)) (Suc (Suc r))"
      by (auto elim!: ok_obtain)
    have "collapsed_to len W r h t (new, m3)"
    proof (rule merge_collapse[OF 3(2) t1 t(1-3) ab _ _ _ _ 1(7) occ])
      show "dom (W1(x := None)) = dom W - {?b, x}"
        using 1(4) by auto
      show "stored (W1(x := None)) ?a (anode_of ?j)" "node_is (W1(x := None)) new (anode_of ?j)"
        using stored_cong[of "W1(x := None)" ?a W1] node_is_cong[of "W1(x := None)" new W1] 1(5-7) x by simp_all
    qed (use 1(3) in simp)
    then show ?thesis
      unfolding run using True t1 len syncedD(2)[OF 2(2)] \<open>root = x\<close> by (simp add: 2(1) 3(1) 1(7,9) ready_def)
  next
    case False
    let ?t = "BNode x (es1 @ es2) (A @ ?j # B)"
    have "good (anode_of ?t)"
      by (rule parent_good[OF 1(2) T t ab 1(3,5) occ False])
    from save_node_ok[OF 1(2,8) this] obtain node2 m2 raw where
      2: "save_node K M m1 node = Some (node2, m2)" "synced m2 root len (W1(x \<mapsto> raw)) (Suc r)" "stored (W1(x \<mapsto> raw)) x (anode_of ?t)"
      unfolding 1(9) by (elim ok_obtain) blast
    have "child_ready root len W r h t key (new, m2)"
    proof (rule merge_ready[OF 2(2) T t(1-3) ab _ _ _ 2(3) _ 1(7) occ False key])
      have "x \<in> dom W1"
        using node_is_dom[OF 1(8)] 1(9) by simp
      then show "dom (W1(x \<mapsto> raw)) = dom W - {?b}"
        using 1(4) by auto
      show "stored (W1(x \<mapsto> raw)) ?a (anode_of ?j)" "node_is (W1(x \<mapsto> raw)) new (anode_of ?j)"
        using stored_cong[of "W1(x \<mapsto> raw)" ?a W1] node_is_cong[of "W1(x \<mapsto> raw)" new W1] 1(5-7) x by simp_all
    qed (use 1(3) in simp)
    moreover have "entries_len node \<noteq> 0"
      using False len by simp
    ultimately show ?thesis
      unfolding run by (simp add: 2(1) ready_def)
  qed
qed

text \<open>Case 2.c.\<close>

lemma merge_around_ok:
  assumes m: "synced m root len W r" and T: "t = BNode x (es1 @ e # es2) (A @ l # c # B)" "length A = length es1"
    and t: "tree_at W t" "distinct (addrs t)" "shape (Suc h) t" "content (inorder t)"
    and n: "node_is W n (anode_of t)" "nd_address n = x"
    and ln: "node_is W ln (anode_of l)" "nd_address ln = tree_addr l" and cn: "node_is W cn (anode_of c)" "nd_address cn = tree_addr c"
    and occ: "length (tree_entries l) = 5" "length (tree_entries c) = 5" and key: "all_below es1 key" "all_above key es2"
    and root: "length (tree_entries t) = 1 \<Longrightarrow> root = x"
  shows "ok (merge_around K M m n (length A) ln cn) (ready root len W r h t key)"
proof -
  let ?j = "joined (tree_addr l) l e c" and ?a = "tree_addr l" and ?b = "tree_addr c"
  have ab: "{?a, ?b} = {tree_addr l, tree_addr c}" and x: "x \<noteq> ?a" "x \<noteq> ?b"
    using t(2) unfolding T(1) by (cases l; cases c; auto)+
  from pair_merge[OF m T t n disjI1[OF conjI[OF refl conjI[OF refl refl]]] ln cn occ] obtain new node m1 W1 where
    1: "(do {
      (e, node, s) \<leftarrow> remove_entry K M n (length A) (bt_memory m);
      (new, m) \<leftarrow> btree_merge K M (bt_with_memory m s) cn ln e;
      (_, node) \<leftarrow> remove_child node (Suc (length A));
      Some (new, node, m) }) = Some (new, node, m1)" "synced m1 root len W1 (Suc r)" "\<forall>y. y \<notin> {x, tree_addr l, tree_addr c} \<longrightarrow> W1 y = W y"
      "dom W1 = dom W - {?b}" "stored W1 ?a (anode_of ?j)" "node_is W1 new (anode_of ?j)" "nd_address new = ?a"
      "node_is W1 node (anode_of (BNode x (es1 @ es2) (A @ ?j # B)))" "nd_address node = x"
    by (elim ok_obtain) blast
  have am: "at_minimum ln" "at_minimum cn" and len: "entries_len node = length (es1 @ es2)" and ch: "nd_children node = map tree_addr (A @ ?j # B)"
    using node_is_length[OF ln(1)] node_is_length[OF cn(1)] node_is_length[OF 1(8)] 1(8) occ
    by (auto simp: at_minimum_def BTREE_B_def entries_len_def node_is_def)
  have run: "merge_around K M m n (length A) ln cn = do {
     m \<leftarrow> (if entries_len node = 0 then do {
          assert_that (nd_address node = bt_root_addr m1);
          c \<leftarrow> node_child node 0;
          assert_that (c = nd_address new);
          assert_that (children_len node = 1);
          m \<leftarrow> deallocate_node M (m1\<lparr>bt_root_addr := nd_address new\<rparr>) node;
          save_header M m }
        else do {
          (node, m) \<leftarrow> save_node K M m1 node;
          Some m });
     save_node K M m new }"
    using 1(1) am by (auto simp: merge_around_def bind_eq_Some_conv)
  have ga: "good (anode_of ?j)"
    by (rule stored_good[OF 1(5)])
  show ?thesis
  proof (cases "es1 @ es2 = []")
    case True
    then have t1: "t = BNode x [e] [l, c]" "A = []" "B = []"
      using T pair_shape(3)[OF t(3)[unfolded T(1)] T(2)] by simp_all
    then have rx: "root = x"
      using root by simp
    from dealloc_node_is[OF 1(2,8)] obtain m2 where 2: "deallocate_node M m1 node = Some m2" "synced m2 root len (W1(x := None)) (Suc (Suc r))"
      unfolding 1(9) by (auto elim!: ok_obtain)
    then have de: "deallocate_node M (m1\<lparr>bt_root_addr := ?a\<rparr>) node = Some (m2\<lparr>bt_root_addr := ?a\<rparr>)"
      by (auto simp: deallocate_node_def bind_eq_Some_conv)
    from bt_root[OF 2(2), of ?a] obtain m3 where 3: "save_header M (m2\<lparr>bt_root_addr := ?a\<rparr>) = Some m3" "synced m3 ?a len (W1(x := None)) (Suc (Suc r))"
      by (auto elim!: ok_obtain)
    let ?W = "W1(x := None)"
    have nw: "node_is ?W new (anode_of ?j)"
      using node_is_cong[of ?W new W1] 1(6,7) x by simp
    from save_node_ok[OF 3(2) nw ga] obtain new4 m4 raw where
      4: "save_node K M m3 new = Some (new4, m4)" "synced m4 ?a len (?W(?a \<mapsto> raw)) (Suc (Suc r))" "nd_address new4 = ?a"
        "stored (?W(?a \<mapsto> raw)) ?a (anode_of ?j)" "node_is (?W(?a \<mapsto> raw)) new4 (anode_of ?j)"
      unfolding 1(7) by (elim ok_obtain) blast
    have "?a \<in> dom ?W"
      using node_is_dom[OF nw] 1(7) by simp
    then have dom: "dom (?W(?a \<mapsto> raw)) = dom W - {?b, x}"
      using 1(4) by auto
    have out: "\<forall>y. y \<notin> {x, tree_addr l, tree_addr c} \<longrightarrow> (?W(?a \<mapsto> raw)) y = W y"
      using 1(3) by simp
    have "collapsed_to len W r h t (new4, m4)"
      by (rule merge_collapse[OF 4(2) t1(1) t(1-3) ab out dom 4(4,5,3) occ])
    moreover have "bt_root_addr m1 = x" "node_child node 0 = Some ?a" "children_len node = 1"
      using syncedD(2)[OF 1(2)] rx ch t1(2,3) by (simp_all add: node_child_def children_len_def joined_def)
    ultimately show ?thesis
      unfolding run using True len t1(1) by (simp add: de 3(1) 4(1) 1(7,9) ready_def)
  next
    case False
    let ?t = "BNode x (es1 @ es2) (A @ ?j # B)"
    have "good (anode_of ?t)"
      by (rule parent_good[OF 1(2) T t ab 1(3,5) occ False])
    from save_node_ok[OF 1(2,8) this] obtain node2 m2 raw where
      2: "save_node K M m1 node = Some (node2, m2)" "synced m2 root len (W1(x \<mapsto> raw)) (Suc r)" "stored (W1(x \<mapsto> raw)) x (anode_of ?t)"
      unfolding 1(9) by (elim ok_obtain) blast
    let ?W = "W1(x \<mapsto> raw)"
    have nw: "node_is ?W new (anode_of ?j)"
      using node_is_cong[of ?W new W1] 1(6,7) x by simp
    from save_node_ok[OF 2(2) nw ga] obtain new4 m4 raw4 where
      4: "save_node K M m2 new = Some (new4, m4)" "synced m4 root len (?W(?a \<mapsto> raw4)) (Suc r)" "nd_address new4 = ?a"
        "stored (?W(?a \<mapsto> raw4)) ?a (anode_of ?j)" "node_is (?W(?a \<mapsto> raw4)) new4 (anode_of ?j)"
      unfolding 1(7) by (elim ok_obtain) blast
    have "x \<in> dom W1" "?a \<in> dom ?W"
      using node_is_dom[OF 1(8)] node_is_dom[OF nw] 1(7,9) by simp_all
    then have dom: "dom (?W(?a \<mapsto> raw4)) = dom W - {?b}"
      using 1(4) by auto
    have out: "\<forall>y. y \<notin> {x, tree_addr l, tree_addr c} \<longrightarrow> (?W(?a \<mapsto> raw4)) y = W y"
      using 1(3) by simp
    have "stored (?W(?a \<mapsto> raw4)) x (anode_of ?t)"
      using 2(3) stored_cong[of "?W(?a \<mapsto> raw4)" x ?W] x(1) by simp
    then have "child_ready root len W r h t key (new4, m4)"
      by (rule merge_ready[OF 4(2) T t(1-3) ab out dom 4(4) _ 4(5,3) occ False key])
    moreover have "entries_len node \<noteq> 0"
      using False len by simp
    ultimately show ?thesis
      unfolding run by (simp add: 2(1) 4(1) ready_def)
  qed
qed

section \<open>Preparing the next node\<close>

lemma pair_split:
  assumes "j < length es" "length ts = length es + 1"
  shows "BNode x es ts = BNode x (take j es @ es ! j # drop (Suc j) es) (take j ts @ ts ! j # ts ! Suc j # drop (Suc (Suc j)) ts)"
    "length (take j ts) = length (take j es)" "length (take j ts) = j"
  using assms by (simp_all add: id_take_nth_drop[symmetric] Cons_nth_drop_Suc)

lemma load_sibling_ok:
  assumes m: "synced m root len W r" and n: "node_is W n (anode_of (BNode x es ts))" and j: "cond \<longrightarrow> j < length ts \<and> tree_at W (ts ! j)"
  shows "ok (load_sibling K M m n cond j) (\<lambda>(s, m'). synced m' root len W r \<and> (case s of None \<Rightarrow> \<not> cond
    | Some sn \<Rightarrow> cond \<and> node_is W sn (anode_of (ts ! j)) \<and> nd_address sn = tree_addr (ts ! j)))"
proof (cases cond)
  case True
  then have "node_child n j = Some (tree_addr (ts ! j))"
    using n j by (simp add: node_is_def node_child_def)
  then show ?thesis
    using True j load_node_ok[OF m tree_at_root, of "ts ! j"] by (auto simp: load_sibling_def elim!: ok_mono)
qed (use m in \<open>simp add: load_sibling_def\<close>)

lemma without_merging: "node_is W n (anode_of t) \<Longrightarrow> can_remove_entry_without_merging n \<longleftrightarrow> 6 \<le> length (tree_entries t)"
  using node_is_length[of W n "anode_of t"] by (auto simp: can_remove_entry_without_merging_def at_minimum_def BTREE_B_def)

lemma prepare_child_ok:
  assumes m: "synced m root len W r" and T: "t = BNode x es ts" and t: "tree_at W t" "distinct (addrs t)" "shape (Suc h) t" "content (inorder t)"
    and n: "node_is W n (anode_of t)" "nd_address n = x" and i: "found_at (map fst es) key (Inl i)" and root: "length es = 1 \<Longrightarrow> root = x"
  shows "ok (prepare_child K M m n i) (ready root len W r h t key)"
proof -
  have ts: "length ts = length es + 1" "i < length ts"
    using t(3) found_between(1)[OF i] T by simp_all
  have kids: "tree_at W (ts ! j)" "shape h (ts ! j)" "5 \<le> length (tree_entries (ts ! j))" if "j < length ts" for j
    using t(1,3) that by (simp_all add: T)
  note bt = found_between[OF i]
  have rt: "length (tree_entries t) = 1 \<Longrightarrow> root = x"
    using root T by simp
  have nc: "node_child n i = Some (tree_addr (ts ! i))" and cl: "children_len n = length ts"
    using n(1) ts(2) T by (simp_all add: node_is_def node_child_def children_len_def)
  from load_node_ok[OF m tree_at_root[OF kids(1)[OF ts(2)]]] obtain cn m1 where
    1: "load_node K M m (tree_addr (ts ! i)) = Some (cn, m1)" "synced m1 root len W r" "node_is W cn (anode_of (ts ! i))" "nd_address cn = tree_addr (ts ! i)"
    by (auto elim!: ok_obtain)
  show ?thesis
  proof (cases "6 \<le> length (tree_entries (ts ! i))")
    case True
    have "BNode (tree_addr t) (take i es @ drop i es) (take i ts @ ts ! i # drop (Suc i) ts) = t"
      using ts by (simp add: T id_take_nth_drop[symmetric])
    moreover have "moved W t r W t r"
      using t(1,2) tree_at_dom[OF t(1)] by (simp add: moved_def)
    ultimately have "child_ready root len W r h t key (cn, m1)"
      using 1(2-4) t(3) bt ts True by (intro child_readyI[of m1 root len W r W t r "take i es" "drop i es" "take i ts" "ts ! i" "drop (Suc i) ts"]) (simp_all add: T)
    then show ?thesis
      using True by (simp add: prepare_child_def nc 1(1) without_merging[OF 1(3)] ready_def)
  next
    case False
    then have occ: "length (tree_entries (ts ! i)) = 5"
      using kids(3)[OF ts(2)] by simp
    have L: "i > 0 \<longrightarrow> i - 1 < length ts \<and> tree_at W (ts ! (i - 1))" and R: "i + 1 < children_len n \<longrightarrow> i + 1 < length ts \<and> tree_at W (ts ! (i + 1))"
      using kids(1)[of "i - 1"] kids(1)[of "i + 1"] ts(2) cl by (simp_all add: less_imp_diff_less)
    from load_sibling_ok[OF 1(2) n(1)[unfolded T] L] obtain ls m2 where
      2: "load_sibling K M m1 n (i > 0) (i - 1) = Some (ls, m2)" "synced m2 root len W r"
        "case ls of None \<Rightarrow> \<not> i > 0 | Some l \<Rightarrow> i > 0 \<and> node_is W l (anode_of (ts ! (i - 1))) \<and> nd_address l = tree_addr (ts ! (i - 1))"
      by (elim ok_obtain) blast
    from load_sibling_ok[OF 2(2) n(1)[unfolded T] R] obtain rs m3 where
      3: "load_sibling K M m2 n (i + 1 < children_len n) (i + 1) = Some (rs, m3)" "synced m3 root len W r"
        "case rs of None \<Rightarrow> \<not> i + 1 < children_len n | Some q \<Rightarrow> i + 1 < children_len n \<and> node_is W q (anode_of (ts ! (i + 1))) \<and> nd_address q = tree_addr (ts ! (i + 1))"
      by (elim ok_obtain) blast
    have left: "ok (if can_remove_entry_without_merging l then rotate_from_left K M m3 n i l cn else merge_into_sibling K M m3 n i (i - 1) l cn)
        (ready root len W r h t key)" if "ls = Some l" for l
    proof -
      have l: "i > 0" "node_is W l (anode_of (ts ! (i - 1)))" "nd_address l = tree_addr (ts ! (i - 1))"
        using 2(3) that by simp_all
      then obtain j where j: "i = Suc j" "j < length es"
        using ts by (cases i) auto
      note sp = pair_split(1)[OF j(2) ts(1), of x, folded T] pair_split(2,3)[OF j(2) ts(1)]
      have key: "all_below (take j es @ [es ! j]) key" "all_above key (drop (Suc j) es)"
        using bt(2,3) j by (simp_all add: take_Suc_conv_app_nth)
      show ?thesis
      proof (cases "6 \<le> length (tree_entries (ts ! j))")
        case True
        from rotate_from_left_ok[OF 3(2) sp(1,2) t n _ _ 1(3,4)[unfolded j(1)] True occ[unfolded j(1)] key, of l, unfolded sp(3)] l
        have "ok (rotate_from_left K M m3 n i l cn) (child_ready root len W r h t key)"
          using j(1) by simp
        then show ?thesis
          using True j(1) without_merging[OF l(2)] by (auto simp: ready_def elim!: ok_mono)
      next
        case False
        have "j < length ts"
          using j ts by simp
        then have "length (tree_entries (ts ! j)) = 5"
          using kids(3)[of j] False by simp
        with merge_into_sibling_ok[OF 3(2) sp(1,2) t n disjI1[OF conjI[OF refl conjI[OF refl refl]]] _ _ 1(3,4)[unfolded j(1)] _ occ[unfolded j(1)] _ key(2) rt, of l, unfolded sp(3)] l
        have "ok (merge_into_sibling K M m3 n i (i - 1) l cn) (ready root len W r h t key)"
          using j(1) key(1) by simp
        then show ?thesis
          using False j(1) without_merging[OF l(2)] by simp
      qed
    qed
    have right: "ok (if can_remove_entry_without_merging q then rotate_from_right K M m3 n i q cn else merge_into_sibling K M m3 n i i q cn)
        (ready root len W r h t key)" if "rs = Some q" for q
    proof -
      have q: "i + 1 < length ts" "node_is W q (anode_of (ts ! Suc i))" "nd_address q = tree_addr (ts ! Suc i)"
        using 3(3) that cl by simp_all
      then have j: "i < length es"
        using ts by simp
      note sp = pair_split(1)[OF j ts(1), of x, folded T] pair_split(2,3)[OF j ts(1)]
      have key: "all_below (take i es) key" "all_above key (es ! i # drop (Suc i) es)"
        using bt(2,3) j by (simp_all add: Cons_nth_drop_Suc)
      show ?thesis
      proof (cases "6 \<le> length (tree_entries (ts ! Suc i))")
        case True
        from rotate_from_right_ok[OF 3(2) sp(1,2) t n q(2,3) 1(3,4) True occ key, unfolded sp(3)]
        have "ok (rotate_from_right K M m3 n i q cn) (child_ready root len W r h t key)"
          by simp
        then show ?thesis
          using True without_merging[OF q(2)] by (auto simp: ready_def elim!: ok_mono)
      next
        case False
        then have "length (tree_entries (ts ! Suc i)) = 5"
          using kids(3)[of "Suc i"] q(1) by simp
        with merge_into_sibling_ok[OF 3(2) sp(1,2) t n disjI2[OF conjI[OF refl conjI[OF refl refl]]] q(2,3) 1(3,4) occ _ key(1) _ rt, unfolded sp(3)]
        have "ok (merge_into_sibling K M m3 n i i q cn) (ready root len W r h t key)"
          using key(2) by simp
        then show ?thesis
          using False without_merging[OF q(2)] by simp
      qed
    qed
    have "prepare_child K M m n i = (case (ls, rs) of
         (Some l, r) \<Rightarrow>
           if can_remove_entry_without_merging l then rotate_from_left K M m3 n i l cn
           else (case r of
             Some r \<Rightarrow>
               if can_remove_entry_without_merging r then rotate_from_right K M m3 n i r cn
               else merge_into_sibling K M m3 n i (i - 1) l cn
           | None \<Rightarrow> merge_into_sibling K M m3 n i (i - 1) l cn)
       | (None, Some r) \<Rightarrow>
           if can_remove_entry_without_merging r then rotate_from_right K M m3 n i r cn
           else merge_into_sibling K M m3 n i i r cn
       | (None, None) \<Rightarrow> None)"
      unfolding prepare_child_def nc using 2(1) 3(1) False without_merging[OF 1(3)] by (simp add: 1(1))
    moreover have "ls \<noteq> None \<or> rs \<noteq> None"
      using 2(3) 3(3) ts shape_entries(1)[OF t(3)] T cl by (auto split: option.splits)
    ultimately show ?thesis
      using left right by (auto split: option.splits if_splits)
  qed
qed

section \<open>Removal below the root\<close>

text \<open>What a removal from the subtree \<open>t\<close> of a map with \<open>len\<close> entries ends with, when its root stays.\<close>

definition del_post :: "address \<Rightarrow> nat \<Rightarrow> node_heap \<Rightarrow> nat \<Rightarrow> nat \<Rightarrow> 'k btree \<Rightarrow> 'k \<Rightarrow> bytes option \<times> 's btree_map \<Rightarrow> bool" where
  "del_post root len W r h t key res \<longleftrightarrow> fst res = map_of (inorder t) key \<and> (\<exists>W' t' r'.
     synced (snd res) root (if fst res = None then len else len - 1) W' r' \<and> moved W t r W' t' r' \<and> shape h t' \<and>
     length (tree_entries t) \<le> Suc (length (tree_entries t')) \<and> inorder t' = del key (inorder t))"

lemma del_postI:
  assumes "fst res = map_of (inorder t) key" "synced (snd res) root (if fst res = None then len else len - 1) W' r'" "moved W t r W' t' r'"
    "shape h t'" "length (tree_entries t) \<le> Suc (length (tree_entries t'))" "inorder t' = del key (inorder t)"
  shows "del_post root len W r h t key res"
  using assms unfolding del_post_def by blast

lemma del_postE:
  assumes "del_post root len W r h t key res"
  obtains W' t' r' where "fst res = map_of (inorder t) key" "synced (snd res) root (if fst res = None then len else len - 1) W' r'"
    "moved W t r W' t' r'" "shape h t'" "length (tree_entries t) \<le> Suc (length (tree_entries t'))" "inorder t' = del key (inorder t)"
  using assms unfolding del_post_def by blast

lemma movedD:
  assumes "moved W t r W' t' r'"
  shows "tree_at W' t'" "distinct (addrs t')" "tree_addr t' = tree_addr t" "evolves W (set (addrs t)) W' (set (addrs t'))"
    "r' + length (addrs t') = r + length (addrs t)"
  using assms by (simp_all add: moved_def)

lemma child_in:
  assumes "length A = length es1" "shape (Suc h) (BNode x (es1 @ es2) (A @ c # B))" "content (inorder (BNode x (es1 @ es2) (A @ c # B)))"
    "all_below es1 key" "all_above key es2"
  shows "all_below (pre (map inorder A) es1) key" "all_above key (post (map inorder B) es2)"
proof -
  have "length B = length es2"
    using assms(1,2) by simp
  moreover have "sorted_keys (pre (map inorder A) es1)" "sorted_keys (post (map inorder B) es2)"
    using content_sorted[OF assms(3)] unfolding inorder_single[OF assms(1)] by (simp_all add: sorted_wrt_append)
  ultimately show "all_below (pre (map inorder A) es1) key" "all_above key (post (map inorder B) es2)"
    using assms(1,4,5) by (auto intro!: pre_below post_above)
qed

text \<open>The induction hypothesis: removal from a tree of height \<open>h\<close> that is not the whole one and is above its minimum.\<close>

definition removes :: "address \<Rightarrow> nat \<Rightarrow> nat \<Rightarrow> bool" where
  "removes root len h \<longleftrightarrow> (\<forall>key m W r t n. synced m root len W r \<longrightarrow> tree_at W t \<longrightarrow> distinct (addrs t) \<longrightarrow> shape h t \<longrightarrow> content (inorder t) \<longrightarrow>
     node_is W n (anode_of t) \<longrightarrow> nd_address n = tree_addr t \<longrightarrow> 6 \<le> length (tree_entries t) \<longrightarrow> root \<in> dom W \<longrightarrow> root \<notin> set (addrs t) \<longrightarrow>
     ok (remove_helper K M m n key) (del_post root len W r h t key))"

lemma removesD:
  assumes "removes root len h" "synced m root len W r" "tree_at W t" "distinct (addrs t)" "shape h t" "content (inorder t)"
    "node_is W n (anode_of t)" "nd_address n = tree_addr t" "6 \<le> length (tree_entries t)" "root \<in> dom W" "root \<notin> set (addrs t)"
  shows "ok (remove_helper K M m n key) (del_post root len W r h t key)"
  using assms unfolding removes_def by blast

text \<open>The descent into the child that was prepared.\<close>

lemma descend:
  assumes IH: "removes root len h"
    and t: "content (inorder t)" "root = tree_addr t \<or> root \<in> dom W \<and> root \<notin> set (addrs t)" and c: "child_ready root len W r h t key (n, m)"
  shows "ok (remove_helper K M m n key) (del_post root len W r (Suc h) t key)"
proof -
  obtain W1 r1 es1 es2 A c B where
    c: "synced m root len W1 r1" "moved W t r W1 (BNode (tree_addr t) (es1 @ es2) (A @ c # B)) r1"
      "shape (Suc h) (BNode (tree_addr t) (es1 @ es2) (A @ c # B))" "inorder (BNode (tree_addr t) (es1 @ es2) (A @ c # B)) = inorder t"
      "length (tree_entries t) \<le> Suc (length (es1 @ es2))" "length A = length es1" "all_below es1 key" "all_above key es2"
      "node_is W1 n (anode_of c)" "nd_address n = tree_addr c" "6 \<le> length (tree_entries c)"
    using c unfolding child_ready_def fst_conv snd_conv by blast
  let ?t = "BNode (tree_addr t) (es1 @ es2) (A @ c # B)" and ?i = "length A"
  note mv = movedD[OF c(2)] and ev = evolvesD[OF movedD(4)[OF c(2)]]
  have con: "content (inorder ?t)"
    using t(1) c(4) by simp
  have nth: "(A @ c # B) ! ?i = c" "?i < length (A @ c # B)" "\<And>c'. (A @ c # B)[?i := c'] = A @ c' # B"
    by (simp_all add: nth_append)
  note ch = child_facts[OF mv(1,2) c(3) con nth(2), unfolded nth(1)]
  have rt: "root \<in> dom W1" "root \<notin> set (addrs c)"
  proof -
    have "tree_addr t \<in> dom W1" "tree_addr t \<notin> set (addrs c)"
      using tree_at_dom[OF mv(1)] mv(2) by auto
    moreover have "root \<in> dom W1 \<and> root \<notin> set (addrs c)" if "root \<in> dom W" "root \<notin> set (addrs t)"
    proof -
      have "set (addrs c) \<subseteq> set (addrs ?t)"
        by auto
      then show ?thesis
        using that ev(2,3) by blast
    qed
    ultimately show "root \<in> dom W1" "root \<notin> set (addrs c)"
      using t(2) by blast+
  qed
  from removesD[OF IH c(1) ch(1-4) c(9-11) rt] show ?thesis
  proof (rule ok_mono)
    fix res
    assume "del_post root len W1 r1 h c key res"
    then obtain W2 c' r2 where d: "fst res = map_of (inorder c) key" "synced (snd res) root (if fst res = None then len else len - 1) W2 r2"
      "moved W1 c r1 W2 c' r2" "shape h c'" "length (tree_entries c) \<le> Suc (length (tree_entries c'))" "inorder c' = del key (inorder c)"
      by (rule del_postE)
    let ?t' = "BNode (tree_addr t) (es1 @ es2) (A @ c' # B)"
    note ab = child_in[OF c(6,3) con c(7,8)]
    have "moved W t r W2 ?t' r2"
      using moved_trans[OF c(2)] moved_plug(1)[OF mv(1,2) nth(2), of r1 W2 c' r2] d(3) unfolding nth by blast
    moreover have "shape (Suc h) ?t'"
      using shape_plug[OF c(3) nth(2) d(4)] d(5) c(11) unfolding nth(3) by simp
    moreover have "inorder ?t' = del key (inorder t)"
      unfolding c(4)[symmetric] inorder_single[OF c(6)] using ab d(6) by simp
    moreover have "map_of (inorder t) key = map_of (inorder c) key"
      unfolding c(4)[symmetric] inorder_single[OF c(6)] by (rule lookup_frame[OF ab])
    ultimately show "del_post root len W r (Suc h) t key res"
      using d(1,2) c(5) by (intro del_postI[where t' = ?t']) simp_all
  qed
qed

text \<open>Cases 2.a and 2.b: after the removal of \<open>e\<close> from the child at \<open>j\<close>, it takes the place of the entry at \<open>i\<close>.\<close>

lemma replace_entry_ok:
  assumes m: "synced m root len' W' r'" and t: "tree_at W (BNode x es ts)" "distinct (addrs (BNode x es ts))"
    and n: "node_is W n (anode_of (BNode x es ts))" "nd_address n = x" and j: "j < length ts" "moved W (ts ! j) r W' c r'" and i: "i < length es"
    and T': "t' = BNode x (es[i := e]) (ts[j := c])" "shape (Suc h) t'" "content (inorder t')"
  shows "ok (replace_entry K M m n i e) (\<lambda>(old, m'). old = snd (es ! i) \<and> (\<exists>W''. synced m' root len' W'' r' \<and> moved W (BNode x es ts) r W'' t' r'))"
proof -
  note mp = moved_plug[OF t j] and mv = movedD[OF moved_plug(1)[OF t j]]
  let ?t = "BNode x es (ts[j := c])"
  have "map tree_addr (ts[j := c]) = map tree_addr ts"
    using movedD(3)[OF j(2)] j(1) by (metis list_update_id map_update nth_map)
  then have an: "anode_of (BNode x es ts)\<lparr>an_entries := es[i := e]\<rparr> = anode_of t'"
    by (simp add: T'(1) anode_of_def)
  have n': "node_is W' n (anode_of (BNode x es ts))"
    using n node_is_cong[of W' n W] mp(2) by simp
  from bt_swap_entry[OF m n', of i e] i obtain n1 s1 where
    1: "swap_entry K M n i e (bt_memory m) = Some (es ! i, n1, s1)" "synced (bt_with_memory m s1) root len' W' r'" "node_is W' n1 (anode_of t')" "nd_address n1 = x"
    using n(2) an by (auto elim!: ok_obtain)
  have kids: "\<forall>u \<in> set (ts[j := c]). tree_at W' u"
    using mv(1) by simp
  have "good (anode_of t')"
    using content_tree[OF T'(3,2)] shape_entries[OF T'(2)] kids kid_dom by (intro synced_good[OF m]) (auto simp: T'(1))
  from save_node_ok[OF 1(2,3) this] obtain n2 m2 raw where
    2: "save_node K M (bt_with_memory m s1) n1 = Some (n2, m2)" "synced m2 root len' (W'(x \<mapsto> raw)) r'" "stored (W'(x \<mapsto> raw)) x (anode_of t')"
    unfolding 1(4) by (elim ok_obtain) blast
  have "tree_at (W'(x \<mapsto> raw)) t'"
    unfolding T'(1)
  proof (rule tree_atI)
    show "tree_at (W'(x \<mapsto> raw)) u" if "u \<in> set (ts[j := c])" for u
      using that kids mv(2) by (subst tree_at_upd) auto
  qed (use 2(3) T'(1) in simp)
  moreover have "evolves W' (set (addrs ?t)) (W'(x \<mapsto> raw)) (set (addrs ?t))"
    by (rule evolves_save[OF _ tree_at_dom[OF mv(1)]]) simp
  ultimately have "moved W' ?t r' (W'(x \<mapsto> raw)) t' r'"
    using mv(2) by (simp add: moved_def T'(1))
  then have "moved W (BNode x es ts) r (W'(x \<mapsto> raw)) t' r'"
    by (rule moved_trans[OF mp(1)])
  then show ?thesis
    using 1(1) 2(1,2) by (auto simp: replace_entry_def simp del: fun_upd_apply split_paired_Ex)
qed

lemma remove_neighbour:
  assumes IH: "removes root len h"
    and m: "synced m root len W r" and T: "t = BNode x (es1 @ (key, v) # es2) (A @ l # c # B)" "length A = length es1"
    and t: "tree_at W t" "distinct (addrs t)" "shape (Suc h) t" "content (inorder t)"
    and n: "node_is W n (anode_of t)" "nd_address n = x"
    and pos: "u = l \<and> j = length A \<and> e = last (inorder l) \<or> u = c \<and> j = Suc (length A) \<and> e = hd (inorder c)"
    and un: "node_is W un (anode_of u)" "nd_address un = tree_addr u" "6 \<le> length (tree_entries u)"
    and root: "root = tree_addr t \<or> root \<in> dom W \<and> root \<notin> set (addrs t)"
  shows "ok (do {
      (r, m) \<leftarrow> remove_helper K M m un (fst e);
      if r = None then Some (None, m)
      else do {
        (old, m) \<leftarrow> replace_entry K M m n (length A) e;
        Some (Some old, m) } }) (del_post root len W r (Suc h) t key)"
proof -
  note s = pair_shape[OF t(3)[unfolded T(1)] T(2)]
  let ?ts = "A @ l # c # B" and ?es = "es1 @ (key, v) # es2"
  have nth: "?ts ! j = u" "j < length ?ts"
    using pos by (auto simp: nth_append)
  note ch = child_facts[OF t[unfolded T(1)] nth(2), unfolded nth(1)]
  have un_in: "u \<in> set ?ts"
    using pos by auto
  have rt: "root \<in> dom W" "root \<notin> set (addrs u)"
  proof -
    have "tree_addr t \<in> dom W" "tree_addr t \<notin> set (addrs u)" "set (addrs u) \<subseteq> set (addrs t)"
      using tree_at_dom[OF t(1)] t(2) un_in unfolding T(1) by auto
    then show "root \<in> dom W" "root \<notin> set (addrs u)"
      using root by blast+
  qed
  note de = del_ends[OF content_sorted[OF ch(4)] inorder_ne[OF ch(3)]]
  from removesD[OF IH m ch(1-4) un rt, of "fst e"] obtain b m2 where
    2: "remove_helper K M m un (fst e) = Some (b, m2)" "del_post root len W r h u (fst e) (b, m2)"
    by (auto elim!: ok_obtain)
  then obtain W' u' r' where d: "b = map_of (inorder u) (fst e)" "synced m2 root (if b = None then len else len - 1) W' r'" "moved W u r W' u' r'" "shape h u'"
      "length (tree_entries u) \<le> Suc (length (tree_entries u'))" "inorder u' = del (fst e) (inorder u)"
    by (auto elim!: del_postE)
  have b: "b \<noteq> None"
    using de(3,4) d(1) pos by auto
  define t' where "t' = BNode x (?es[length A := e]) (?ts[j := u'])"
  have es': "?es[length A := e] = es1 @ e # es2"
    using T(2) by (simp add: list_update_append)
  have iot: "inorder t = pre (map inorder A) es1 @ (inorder l @ (key, v) # inorder c) @ post (map inorder B) es2"
    unfolding T(1) by (rule inorder_pair[OF T(2)])
  have new: "shape (Suc h) t' \<and> inorder t' = pre (map inorder A) es1 @ (inorder l @ inorder c) @ post (map inorder B) es2"
    using pos
  proof (elim disjE conjE)
    assume p: "u = l" "j = length A" "e = last (inorder l)"
    have "t' = BNode x (es1 @ e # es2) (A @ u' # c # B)"
      unfolding t'_def es' by (simp add: p(2) list_update_append)
    moreover have "inorder u' @ e # inorder c = inorder l @ inorder c"
      using d(6) de(1) inorder_ne[OF ch(3)] p by (metis append.assoc append_Cons append_Nil append_butlast_last_id)
    ultimately show ?thesis
      using inorder_pair[OF T(2), of x e es2 u' c B] d(4,5) un(3) s(2,6) p(1) pair_shapeI[OF t(3)[unfolded T(1)] T(2) d(4), of c e] by simp
  next
    assume p: "u = c" "j = Suc (length A)" "e = hd (inorder c)"
    have "t' = BNode x (es1 @ e # es2) (A @ l # u' # B)"
      unfolding t'_def es' by (simp add: p(2) list_update_append)
    moreover have "inorder l @ e # inorder u' = inorder l @ inorder c"
      using d(6) de(2) inorder_ne[OF ch(3)] p by simp
    ultimately show ?thesis
      using inorder_pair[OF T(2), of x e es2 l u' B] d(4,5) un(3) s(1,5) p(1) pair_shapeI[OF t(3)[unfolded T(1)] T(2) s(1) d(4), of e] by simp
  qed
  have so: "sorted_keys ((pre (map inorder A) es1 @ inorder l) @ (key, v) # (inorder c @ post (map inorder B) es2))"
    using content_sorted[OF t(4)] unfolding iot by simp
  have io: "inorder t' = del key (inorder t)" and lk: "map_of (inorder t) key = Some v"
    using sorted_keys_parts[OF so] map_of_here[OF so] iot new by (simp_all add: del_Cons)
  have con: "content (inorder t')"
    unfolding io by (rule content_del[OF t(4)])
  have i: "length A < length ?es" "?es ! length A = (key, v)"
    using T(2) by simp_all
  have mv: "moved W (?ts ! j) r W' u' r'"
    using d(3) nth(1) by simp
  from replace_entry_ok[OF d(2) t(1,2)[unfolded T(1)] n(1)[unfolded T(1)] n(2) nth(2) mv i(1) t'_def conjunct1[OF new] con] obtain m3 W3 where
    3: "replace_entry K M m2 n (length A) e = Some (v, m3)" "synced m3 root (if b = None then len else len - 1) W3 r'" "moved W t r W3 t' r'"
    unfolding i(2) T(1)[symmetric] by (elim ok_obtain) auto
  have "del_post root len W r (Suc h) t key (Some v, m3)"
    using 3(2) b lk by (intro del_postI[OF _ _ 3(3) conjunct1[OF new] _ io]) (simp_all add: T(1) t'_def)
  moreover obtain b' where "b = Some b'"
    using b by blast
  ultimately show ?thesis
    by (simp add: 2(1) 3(1))
qed

section \<open>Leaves\<close>

lemma with_length:
  "save_node K M (m\<lparr>bt_length := k\<rparr>) n = do { (n, m) \<leftarrow> save_node K M m n; Some (n, m\<lparr>bt_length := k\<rparr>) }"
  "deallocate_node M (m\<lparr>bt_length := k\<rparr>) n = do { m \<leftarrow> deallocate_node M m n; Some (m\<lparr>bt_length := k\<rparr>) }"
proof -
  have upd: "m\<lparr>bt_length := k, bt_allocator := a\<rparr> = m\<lparr>bt_allocator := a, bt_length := k\<rparr>" for a
    by (cases m) simp
  show "save_node K M (m\<lparr>bt_length := k\<rparr>) n = do { (n, m) \<leftarrow> save_node K M m n; Some (n, m\<lparr>bt_length := k\<rparr>) }"
    "deallocate_node M (m\<lparr>bt_length := k\<rparr>) n = do { m \<leftarrow> deallocate_node M m n; Some (m\<lparr>bt_length := k\<rparr>) }"
    by (simp_all add: save_node_def deallocate_node_def upd split_def)
qed

text \<open>The map at the end of a removal: \<open>X\<close> are the nodes that the tree had in \<open>W\<close>, \<open>c\<close> the nodes that can be had in all.\<close>

definition rooted :: "'s btree_map \<Rightarrow> nat \<Rightarrow> node_heap \<Rightarrow> address set \<Rightarrow> nat \<Rightarrow> 'k entry list \<Rightarrow> bool" where
  "rooted m len W X c es \<longleftrightarrow> (\<exists>root W' r'. synced m root len W' r' \<and> (es = [] \<and> root = NULL \<and> evolves W X W' {} \<and> r' = c \<or>
     (\<exists>t h. root = tree_addr t \<and> tree_at W' t \<and> distinct (addrs t) \<and> shape h t \<and> inorder t = es \<and> evolves W X W' (set (addrs t)) \<and>
        r' + length (addrs t) = c)))"

definition root_post :: "nat \<Rightarrow> node_heap \<Rightarrow> nat \<Rightarrow> 'k btree \<Rightarrow> 'k \<Rightarrow> bytes option \<times> 's btree_map \<Rightarrow> bool" where
  "root_post len W r t key res \<longleftrightarrow> fst res = map_of (inorder t) key \<and>
     rooted (snd res) (if fst res = None then len else len - 1) W (set (addrs t)) (r + length (addrs t)) (del key (inorder t))"

lemma rooted_tree:
  "synced m (tree_addr t) len W' r' \<Longrightarrow> tree_at W' t \<Longrightarrow> distinct (addrs t) \<Longrightarrow> shape h t \<Longrightarrow> evolves W X W' (set (addrs t)) \<Longrightarrow>
   rooted m len W X (r' + length (addrs t)) (inorder t)"
  unfolding rooted_def by blast

lemma rooted_empty: "synced m NULL len W' r' \<Longrightarrow> evolves W X W' {} \<Longrightarrow> rooted m len W X r' []"
  unfolding rooted_def by blast

lemma rooted_trans: "evolves W X W1 X1 \<Longrightarrow> rooted m len W1 X1 c es \<Longrightarrow> rooted m len W X c es"
  unfolding rooted_def by (elim exE conjE disjE) (blast intro: evolves_trans)+

lemma del_post_root:
  assumes "del_post (tree_addr t) len W r h t key res"
  shows "root_post len W r t key res"
proof -
  obtain W' t' r' where d: "fst res = map_of (inorder t) key" "synced (snd res) (tree_addr t) (if fst res = None then len else len - 1) W' r'"
    "moved W t r W' t' r'" "shape h t'" "inorder t' = del key (inorder t)"
    by (rule del_postE[OF assms])
  note mv = movedD[OF d(3)]
  from rooted_tree[OF d(2)[folded mv(3)] mv(1,2) d(4) mv(4)] show ?thesis
    unfolding root_post_def d(5)[symmetric] mv(5)[symmetric] using d(1) by simp
qed

lemma root_post_collapsed:
  assumes "evolves W (set (addrs t)) W1 (set (addrs c))" "r1 + length (addrs c) = r + length (addrs t)" "inorder c = inorder t" "root_post len W1 r1 c key res"
  shows "root_post len W r t key res"
proof -
  have res: "fst res = map_of (inorder t) key"
    "rooted (snd res) (if fst res = None then len else len - 1) W1 (set (addrs c)) (r + length (addrs t)) (del key (inorder t))"
    using assms(4) unfolding root_post_def assms(2,3) by blast+
  show ?thesis
    unfolding root_post_def using res(1) rooted_trans[OF assms(1) res(2)] by blast
qed

lemma remove_from_leaf_ok:
  assumes m: "synced m root len W r" "0 < len" and t: "tree_at W (BNode x es [])" "shape 0 (BNode x es [])" "content es"
    and n: "node_is W n (anode_of (BNode x es []))" "nd_address n = x"
  shows "2 \<le> length es \<Longrightarrow> ok (remove_from_leaf K M m n key) (del_post root len W r 0 (BNode x es []) key)"
    "root = x \<Longrightarrow> ok (remove_from_leaf K M m n key) (root_post len W r (BNode x es []) key)"
proof -
  let ?t = "BNode x es []"
  have con: "content (inorder ?t)"
    using t(3) by simp
  from search_here[OF m(1) t(2) con n(1), of key] obtain res n1 m1 where
    1: "search_node K M m n key = Some (res, n1, m1)" "synced m1 root len W r" "node_is W n1 (anode_of ?t)" "nd_address n1 = x" "found_at (map fst es) key res"
    using n(2) by (auto elim!: ok_obtain)
  have dom: "x \<in> dom W"
    using tree_at_dom[OF t(1)] by simp
  have "(2 \<le> length es \<longrightarrow> ok (remove_from_leaf K M m n key) (del_post root len W r 0 ?t key)) \<and>
    (root = x \<longrightarrow> ok (remove_from_leaf K M m n key) (root_post len W r ?t key))"
  proof (cases res)
    case (Inl i)
    with 1(5) have b: "all_below (take i es) key" "all_above key (drop i es)"
      using found_between(2,3)[of es key i] by simp_all
    have none: "map_of es key = None" "del key es = es"
      using lookup_frame[OF b, of "[]"] del_append[of key "take i es" "drop i es"] b by simp_all
    have "moved W ?t r W ?t r"
      using t(1) dom by (simp add: moved_def del: tree_at.simps)
    then have "del_post root len W r 0 ?t key (None, m1)"
      using 1(2) none t(2) by (intro del_postI[where t' = ?t]) simp_all
    then show ?thesis
      using del_post_root[of ?t len W r 0 key "(None, m1)"] by (auto simp: remove_from_leaf_def 1(1) Inl)
  next
    case (Inr i)
    with 1(5) have fi: "found_at (map fst es) key (Inr i)"
      by simp
    note f = found_entry[OF fi]
    have so: "sorted_keys (take i es @ (key, snd (es ! i)) # drop (Suc i) es)"
      using content_sorted[OF t(3)] f(3) by simp
    have val: "map_of es key = Some (snd (es ! i))" and de: "take i es @ drop (Suc i) es = del key es"
      using map_of_here[OF so] sorted_keys_parts[OF so] f(3) del_append[of key "take i es" "(key, snd (es ! i)) # drop (Suc i) es"] by (simp_all add: del_Cons)
    let ?t' = "BNode x (del key es) []"
    have len: "Suc (length (del key es)) = length es"
      using f(1) by (simp flip: de)
    from bt_remove_entry[OF 1(2,3), of i] f(1) obtain n2 s2 where
      2: "remove_entry K M n1 i (bt_memory m1) = Some (es ! i, n2, s2)" "synced (bt_with_memory m1 s2) root len W r"
        "node_is W n2 (anode_of ?t')" "nd_address n2 = x"
      using 1(4) de by (auto simp: anode_of_def elim!: ok_obtain)
    let ?m = "bt_with_memory m1 s2"
    have el: "entries_len n2 = length (del key es)"
      using node_is_length[OF 2(3)] by (simp add: entries_len_def)
    have run: "remove_from_leaf K M m n key = do {
         m \<leftarrow> (if entries_len n2 = 0 then do {
              assert_that (nd_address n2 = root);
              m \<leftarrow> deallocate_node M (?m\<lparr>bt_length := len - 1\<rparr>) n2;
              Some (m\<lparr>bt_root_addr := NULL\<rparr>) }
            else do {
              (node, m) \<leftarrow> save_node K M (?m\<lparr>bt_length := len - 1\<rparr>) n2;
              Some m });
         m \<leftarrow> save_header M m;
         Some (Some (snd (es ! i)), m) }"
      using m(2) syncedD(2,3)[OF 2(2)] by (simp add: remove_from_leaf_def 1(1) Inr 2(1) u64_sub_def)
    show ?thesis
    proof (cases "del key es = []")
      case True
      from dealloc_node_is[OF 2(2,3)] obtain m3 where 3: "deallocate_node M ?m n2 = Some m3" "synced m3 root len (W(x := None)) (Suc r)"
        unfolding 2(4) by (auto elim!: ok_obtain)
      from bt_save_header[OF 3(2), of "m3\<lparr>bt_length := len - 1, bt_root_addr := NULL\<rparr>"] obtain m4 where
        4: "save_header M (m3\<lparr>bt_length := len - 1, bt_root_addr := NULL\<rparr>) = Some m4" "synced m4 NULL (len - 1) (W(x := None)) (Suc r)"
        by (auto elim!: ok_obtain)
      have "evolves W {x} (W(x := None)) {}"
        using evolves_free[of x "{x}" W] dom by simp
      with rooted_empty[OF 4(2)] have "root_post len W r ?t key (Some (snd (es ! i)), m4)"
        using True val by (simp add: root_post_def)
      moreover have "\<not> 2 \<le> length es"
        using True len by simp
      ultimately show ?thesis
        unfolding run using True el by (simp add: with_length 3(1) 4(1)[simplified] 2(4))
    next
      case False
      have sh: "shape 0 ?t'"
        using False len t(2) by simp
      have "good (anode_of ?t')"
        using content_del[OF t(3)] shape_entries[OF sh] by (intro synced_good[OF 2(2)]) simp_all
      from save_node_ok[OF 2(2,3) this] obtain n3 m3 raw where
        3: "save_node K M ?m n2 = Some (n3, m3)" "synced m3 root len (W(x \<mapsto> raw)) r" "stored (W(x \<mapsto> raw)) x (anode_of ?t')"
        unfolding 2(4) by (elim ok_obtain) blast
      from bt_save_header[OF 3(2), of "m3\<lparr>bt_length := len - 1\<rparr>"] obtain m4 where
        4: "save_header M (m3\<lparr>bt_length := len - 1\<rparr>) = Some m4" "synced m4 root (len - 1) (W(x \<mapsto> raw)) r"
        using syncedD(2)[OF 3(2)] by (auto elim!: ok_obtain)
      have "moved W ?t r (W(x \<mapsto> raw)) ?t' r"
        using tree_atI[OF 3(3)] evolves_save[of x "{x}" W raw] dom by (simp add: moved_def del: tree_at.simps)
      then have "del_post root len W r 0 ?t key (Some (snd (es ! i)), m4)"
        using 4(2) val sh len by (intro del_postI[where t' = ?t']) simp_all
      then show ?thesis
        unfolding run using False el del_post_root[of ?t len W r 0 key "(Some (snd (es ! i)), m4)"] by (auto simp: with_length 3(1) 4(1)[simplified])
    qed
  qed
  then show "2 \<le> length es \<Longrightarrow> ok (remove_from_leaf K M m n key) (del_post root len W r 0 ?t key)"
    "root = x \<Longrightarrow> ok (remove_from_leaf K M m n key) (root_post len W r ?t key)"
    by blast+
qed

section \<open>The whole removal\<close>

text \<open>One step at an internal node, for removals below the root and for the root, where the tree may lose a level.\<close>

lemma remove_internal:
  assumes IH: "removes root len h"
    and m: "synced m root len W r" and T: "t = BNode x es ts" and t: "tree_at W t" "distinct (addrs t)" "shape (Suc h) t" "content (inorder t)"
    and n: "node_is W n (anode_of t)" "nd_address n = x" and root: "root = x \<or> 6 \<le> length es \<and> root \<in> dom W \<and> root \<notin> set (addrs t)"
    and P: "\<And>res. del_post root len W r (Suc h) t key res \<Longrightarrow> P res"
    and coll: "\<And>n' m'. length es = 1 \<Longrightarrow> collapsed_to len W r h t (n', m') \<Longrightarrow> ok (remove_helper K M m' n' key) P"
  shows "ok (remove_helper K M m n key) P"
proof -
  have guard: "nd_address n = bt_root_addr m \<or> can_remove_entry_without_merging n"
    using root n(2) syncedD(2)[OF m] without_merging[OF n(1)] T by auto
  have one: "length es = 1 \<Longrightarrow> root = x" "length (tree_entries t) = 1 \<Longrightarrow> root = x" and rt: "root = tree_addr t \<or> root \<in> dom W \<and> root \<notin> set (addrs t)"
    using root T by auto
  have rdy: "ok (remove_helper K M m' n' key) P" if "ready root len W r h t key (n', m')" for n' m'
    using that unfolding ready_def
  proof (elim disjE conjE)
    assume "child_ready root len W r h t key (n', m')"
    from descend[OF IH t(4) rt this] show ?thesis
      by (rule ok_mono) (rule P)
  next
    assume "length (tree_entries t) = 1" "collapsed_to len W r h t (n', m')"
    then show ?thesis
      using T by (intro coll) simp_all
  qed
  have ts: "length ts = length es + 1" "ts \<noteq> []"
    using t(3) T by auto
  have ty: "nd_node_type n = Internal"
    using n(1) ts(2) T by (simp add: node_is_def)
  from search_here[OF m t(3,4) n(1), of key] obtain res n1 m1 where
    1: "search_node K M m n key = Some (res, n1, m1)" "synced m1 root len W r" "node_is W n1 (anode_of t)" "nd_address n1 = x" "found_at (map fst es) key res"
    using n(2) T by (auto elim!: ok_obtain)
  show ?thesis
  proof (cases res)
    case (Inl i)
    from prepare_child_ok[OF 1(2) T t 1(3,4) _ one(1), of key i] 1(5) Inl obtain c2 m2 where
      2: "prepare_child K M m1 n1 i = Some (c2, m2)" "ready root len W r h t key (c2, m2)"
      by (auto elim!: ok_obtain)
    show ?thesis
      using rdy[OF 2(2)] by (subst remove_helper.simps) (simp add: guard ty 1(1) Inl 2(1))
  next
    case (Inr i)
    with 1(5) have fi: "found_at (map fst es) key (Inr i)"
      by simp
    note f = found_entry[OF fi]
    note sp = pair_split(1)[OF f(1) ts(1), of x, folded T] pair_split(2,3)[OF f(1) ts(1)]
    define v where "v = snd (es ! i)"
    have ei: "es ! i = (key, v)"
      using f(2) by (simp add: v_def prod_eq_iff)
    note T1 = sp(1)[unfolded ei]
    have i: "i < length ts" "Suc i < length ts"
      using f(1) ts(1) by simp_all
    note l = child_facts[OF t[unfolded T] i(1)] and c = child_facts[OF t[unfolded T] i(2)]
    have nc: "node_child n1 i = Some (tree_addr (ts ! i))" "node_child n1 (i + 1) = Some (tree_addr (ts ! Suc i))"
      using 1(3) i T by (simp_all add: node_is_def node_child_def)
    from load_node_ok[OF 1(2) tree_at_root[OF l(1)]] obtain ln m2 where
      2: "load_node K M m1 (tree_addr (ts ! i)) = Some (ln, m2)" "synced m2 root len W r" "node_is W ln (anode_of (ts ! i))" "nd_address ln = tree_addr (ts ! i)"
      by (auto elim!: ok_obtain)
    show ?thesis
    proof (cases "6 \<le> length (tree_entries (ts ! i))")
      case True
      from get_max_ok[OF 2(2) l(1,3) 2(3)] obtain ln1 s1 where
        3: "get_max K M ln (bt_memory m2) = Some (last (inorder (ts ! i)), ln1, s1)" "synced (bt_with_memory m2 s1) root len W r"
          "node_is W ln1 (anode_of (ts ! i))" "nd_address ln1 = tree_addr (ts ! i)"
        using 2(4) by (auto elim!: ok_obtain)
      let ?e = "last (inorder (ts ! i))"
      have eq: "remove_helper K M m n key = do {
          (r, m) \<leftarrow> remove_helper K M (bt_with_memory m2 s1) ln1 (fst ?e);
          if r = None then Some (None, m)
          else do {
            (old, m) \<leftarrow> replace_entry K M m n1 i ?e;
            Some (Some old, m) } }"
        using True by (subst remove_helper.simps) (simp add: guard ty 1(1) Inr nc 2(1) without_merging[OF 2(3)] 3(1))
      have "ok (remove_helper K M m n key) (del_post root len W r (Suc h) t key)"
        unfolding eq by (rule remove_neighbour[OF IH 3(2) T1 sp(2) t 1(3,4) disjI1[OF conjI[OF refl conjI[OF refl refl]]] 3(3,4) True rt, unfolded sp(3)])
      then show ?thesis
        by (rule ok_mono) (rule P)
    next
      case False
      then have lo: "length (tree_entries (ts ! i)) = 5"
        using l(5) by simp
      from load_node_ok[OF 2(2) tree_at_root[OF c(1)]] obtain cn m3 where
        3: "load_node K M m2 (tree_addr (ts ! Suc i)) = Some (cn, m3)" "synced m3 root len W r" "node_is W cn (anode_of (ts ! Suc i))" "nd_address cn = tree_addr (ts ! Suc i)"
        by (auto elim!: ok_obtain)
      show ?thesis
      proof (cases "6 \<le> length (tree_entries (ts ! Suc i))")
        case True
        from get_min_ok[OF 3(2) c(1,3) 3(3)] obtain cn1 s1 where
          4: "get_min K M cn (bt_memory m3) = Some (hd (inorder (ts ! Suc i)), cn1, s1)" "synced (bt_with_memory m3 s1) root len W r"
            "node_is W cn1 (anode_of (ts ! Suc i))" "nd_address cn1 = tree_addr (ts ! Suc i)"
          using 3(4) by (auto elim!: ok_obtain)
        let ?e = "hd (inorder (ts ! Suc i))"
        have eq: "remove_helper K M m n key = do {
            (r, m) \<leftarrow> remove_helper K M (bt_with_memory m3 s1) cn1 (fst ?e);
            if r = None then Some (None, m)
            else do {
              (old, m) \<leftarrow> replace_entry K M m n1 i ?e;
              Some (Some old, m) } }"
          using True False nc(2) by (subst remove_helper.simps) (simp add: guard ty 1(1) Inr nc(1) 2(1) without_merging[OF 2(3)] 3(1) without_merging[OF 3(3)] 4(1))
        have "ok (remove_helper K M m n key) (del_post root len W r (Suc h) t key)"
          unfolding eq by (rule remove_neighbour[OF IH 4(2) T1 sp(2) t 1(3,4) disjI2[OF conjI[OF refl conjI[OF refl refl]]] 4(3,4) True rt, unfolded sp(3)])
        then show ?thesis
          by (rule ok_mono) (rule P)
      next
        case F2: False
        then have co: "length (tree_entries (ts ! Suc i)) = 5"
          using c(5) by simp
        have so: "sorted_keys (take i es @ (key, v) # drop (Suc i) es)"
          using content_sorted[OF content_tree[OF t(4,3)]] f(3) by (simp add: T v_def)
        note ab = sorted_keys_parts[OF so]
        from merge_around_ok[OF 3(2) T1 sp(2) t 1(3,4) 2(3,4) 3(3,4) lo co ab one(2), unfolded sp(3)] obtain c4 m4 where
          4: "merge_around K M m3 n1 i ln cn = Some (c4, m4)" "ready root len W r h t key (c4, m4)"
          by (auto elim!: ok_obtain)
        show ?thesis
          using False F2 rdy[OF 4(2)] nc(2)
          by (subst remove_helper.simps) (simp add: guard ty 1(1) Inr nc(1) 2(1) without_merging[OF 2(3)] 3(1) without_merging[OF 3(3)] 4(1))
      qed
    qed
  qed
qed

lemma remove_below: "0 < len \<Longrightarrow> removes root len h"
proof (induction h)
  case 0
  show ?case
    unfolding removes_def
  proof (intro allI impI)
    fix key m W r t n
    assume a: "synced m root len W r" "tree_at W t" "shape 0 t" "content (inorder t)" "node_is W n (anode_of t)" "nd_address n = tree_addr t" "6 \<le> length (tree_entries t)"
    obtain x es where T: "t = BNode x es []"
      using a(3) by (cases t) simp
    have "nd_node_type n = Leaf"
      using a(5) by (simp add: node_is_def T)
    moreover have "ok (remove_from_leaf K M m n key) (del_post root len W r 0 t key)"
      unfolding T using a by (intro remove_from_leaf_ok(1)[OF _ 0]) (simp_all add: T)
    ultimately show "ok (remove_helper K M m n key) (del_post root len W r 0 t key)"
      using a(7) by (subst remove_helper.simps) (simp add: without_merging[OF a(5)])
  qed
next
  case (Suc h)
  show ?case
    unfolding removes_def
  proof (intro allI impI)
    fix key m W r t n
    assume a: "synced m root len W r" "tree_at W t" "distinct (addrs t)" "shape (Suc h) t" "content (inorder t)" "node_is W n (anode_of t)" "nd_address n = tree_addr t"
      "6 \<le> length (tree_entries t)" "root \<in> dom W" "root \<notin> set (addrs t)"
    obtain x es ts where T: "t = BNode x es ts"
      by (cases t)
    show "ok (remove_helper K M m n key) (del_post root len W r (Suc h) t key)"
      by (rule remove_internal[OF Suc.IH[OF Suc.prems] a(1) T a(2-6)]) (use a(7-) in \<open>simp_all add: T\<close>)
  qed
qed

lemma remove_root:
  "synced m (tree_addr t) len W r \<Longrightarrow> 0 < len \<Longrightarrow> tree_at W t \<Longrightarrow> distinct (addrs t) \<Longrightarrow> shape h t \<Longrightarrow> content (inorder t) \<Longrightarrow>
   node_is W n (anode_of t) \<Longrightarrow> nd_address n = tree_addr t \<Longrightarrow> ok (remove_helper K M m n key) (root_post len W r t key)"
proof (induction h arbitrary: m W r t n)
  case 0
  obtain x es where T: "t = BNode x es []"
    using 0(5) by (cases t) simp
  have "nd_node_type n = Leaf"
    using 0(7) by (simp add: node_is_def T)
  moreover have "ok (remove_from_leaf K M m n key) (root_post len W r t key)"
    unfolding T using 0 by (intro remove_from_leaf_ok(2)) (simp_all add: T)
  ultimately show ?case
    using syncedD(2)[OF 0(1)] 0(8) by (subst remove_helper.simps) simp
next
  case (Suc h)
  obtain x es ts where T: "t = BNode x es ts"
    by (cases t)
  show ?case
  proof (rule remove_internal[OF remove_below[OF Suc.prems(2)] Suc.prems(1) T Suc.prems(3-7)])
    fix n' m'
    assume "collapsed_to len W r h t (n', m')"
    then obtain W' r' c where c: "synced m' (tree_addr c) len W' r'" "tree_at W' c" "distinct (addrs c)"
      "evolves W (set (addrs t)) W' (set (addrs c))" "r' + length (addrs c) = r + length (addrs t)" "shape h c" "inorder c = inorder t"
      "node_is W' n' (anode_of c)" "nd_address n' = tree_addr c"
      unfolding collapsed_to_def fst_conv snd_conv by blast
    have "content (inorder c)"
      using Suc.prems(6) c(7) by simp
    from Suc.IH[OF c(1) Suc.prems(2) c(2,3,6) this c(8,9)] show "ok (remove_helper K M m' n' key) (root_post len W r t key)"
      by (rule ok_mono) (rule root_post_collapsed[OF c(4,5,7)])
  qed (use Suc.prems(8) del_post_root in \<open>simp_all add: T\<close>)
qed

end

end
