(* ===== verification/BTree_Ops.thy ===== *)
theory BTree_Ops
  imports BTree_Remove
begin

text \<open>
  The operations of the map on its entries as bytes: \<open>holds m es C\<close> says that the map \<open>m\<close> has the entries \<open>es\<close>, that every
  node in use is a node of its tree, and that the memory has room for \<open>C\<close> nodes in all. Every operation
  keeps \<open>C\<close>, so that nothing is leaked.
\<close>

section \<open>The size of a tree\<close>

lemma length_weave: "ls = [] \<or> length ls = length es + 1 \<Longrightarrow> length (weave ls es) = sum_list (map length ls) + length es"
proof -
  have "length (post ls es) = sum_list (map length ls) + length es" if "length ls = length es" for ls :: "'b list list" and es
    using that by (induction ls es rule: list_induct2) auto
  then show "ls = [] \<or> length ls = length es + 1 \<Longrightarrow> length (weave ls es) = sum_list (map length ls) + length es"
    by (cases ls) auto
qed

lemma sum_list_bounds:
  fixes f g :: "'a \<Rightarrow> nat"
  assumes "\<And>x. x \<in> set xs \<Longrightarrow> c * f x \<le> g x"
  shows "c * sum_list (map f xs) \<le> sum_list (map g xs)"
  using assms by (induction xs) (auto simp: distrib_left intro: add_mono)

lemma length_inorder: "shape h t \<Longrightarrow> length (inorder t) = sum_list (map (\<lambda>u. length (inorder u)) (tree_kids t)) + length (tree_entries t)"
  using shape_entries(3)[of h t] by (cases t) (auto simp: length_weave comp_def)

lemma length_addrs: "length (addrs t) = Suc (sum_list (map (\<lambda>u. length (addrs u)) (tree_kids t)))"
  by (cases t) (simp add: length_concat comp_def)

lemma tree_sizes:
  "shape h t \<Longrightarrow> 5 * length (addrs t) + length (tree_entries t) \<le> length (inorder t) + 5 \<and>
    length (inorder t) \<le> 11 * length (addrs t) \<and> h < length (addrs t)"
proof (induction h arbitrary: t)
  case 0
  then show ?case
    by (cases t) simp
next
  case (Suc h)
  have kid: "shape h u" "5 \<le> length (tree_entries u)" if "u \<in> set (tree_kids t)" for u
    using Suc.prems that by (cases t; simp)+
  have e: "length (tree_entries t) \<le> 11"
    by (rule shape_entries(2)[OF Suc.prems])
  have "5 * sum_list (map (\<lambda>u. length (addrs u)) (tree_kids t)) \<le> sum_list (map (\<lambda>u. length (inorder u)) (tree_kids t))"
    using Suc.IH kid by (intro sum_list_bounds) fastforce
  moreover have "1 * sum_list (map (\<lambda>u. length (inorder u)) (tree_kids t)) \<le> sum_list (map (\<lambda>u. 11 * length (addrs u)) (tree_kids t))"
    using Suc.IH kid by (intro sum_list_bounds) fastforce
  moreover have "sum_list (map (\<lambda>u. 11 * length (addrs u)) (tree_kids t)) = 11 * sum_list (map (\<lambda>u. length (addrs u)) (tree_kids t))"
    by (rule sum_list_const_mult)
  ultimately have "5 * length (addrs t) + length (tree_entries t) \<le> length (inorder t) + 5" "length (inorder t) \<le> 11 * length (addrs t)"
    using e unfolding length_inorder[OF Suc.prems] length_addrs[of t] by simp_all
  moreover obtain u where "u \<in> set (tree_kids t)"
    using shape_entries(4)[OF Suc.prems] by (cases "tree_kids t") auto
  then have "h < length (addrs u)" "length (addrs u) \<le> sum_list (map (\<lambda>u. length (addrs u)) (tree_kids t))"
    using Suc.IH kid member_le_sum_list[of "length (addrs u)" "map (\<lambda>u. length (addrs u)) (tree_kids t)"] by auto
  ultimately show ?case
    using length_addrs[of t] by linarith
qed

lemma tree_size:
  assumes "shape h t"
  shows "5 * length (addrs t) + length (tree_entries t) \<le> length (inorder t) + 5" "length (inorder t) \<le> 11 * length (addrs t)" "h < length (addrs t)"
  using tree_sizes[OF assms] by blast+

lemma evolves_fresh: "evolves Map.empty {} W X \<longleftrightarrow> dom W = X"
  by (auto simp: evolves_def)

context btree_store
begin

section \<open>The entries of a map\<close>

definition holds :: "'s btree_map \<Rightarrow> 'k entry list \<Rightarrow> nat \<Rightarrow> bool" where
  "holds m es C \<longleftrightarrow> content es \<and> rooted m (length es) Map.empty {} C es"

lemma holds_cases:
  assumes "holds m es C"
  obtains (empty) "es = []" "synced m NULL 0 Map.empty C"
  | (tree) t h W r where "synced m (tree_addr t) (length es) W r" "tree_at W t" "distinct (addrs t)" "shape h t" "inorder t = es" "content (inorder t)"
      "dom W = set (addrs t)" "r + length (addrs t) = C"
proof -
  obtain root W' r' where s: "synced m root (length es) W' r'" and c: "content es" "es = [] \<and> root = NULL \<and> dom W' = {} \<and> r' = C \<or>
     (\<exists>t h. root = tree_addr t \<and> tree_at W' t \<and> distinct (addrs t) \<and> shape h t \<and> inorder t = es \<and> dom W' = set (addrs t) \<and> r' + length (addrs t) = C)"
    using assms unfolding holds_def rooted_def evolves_fresh by blast
  from c(2) show thesis
  proof (elim disjE exE conjE)
    assume "es = []" "root = NULL" "dom W' = {}" "r' = C"
    then show thesis
      using s by (intro empty) auto
  next
    fix t h
    assume "root = tree_addr t" "tree_at W' t" "distinct (addrs t)" "shape h t" "inorder t = es" "dom W' = set (addrs t)" "r' + length (addrs t) = C"
    then show thesis
      using s c(1) by (intro tree[of t W' r' h]) simp_all
  qed
qed

lemma holds_tree:
  assumes "synced m (tree_addr t) (length (inorder t)) W r" "tree_at W t" "distinct (addrs t)" "shape h t" "content (inorder t)" "dom W = set (addrs t)"
  shows "holds m (inorder t) (r + length (addrs t))"
  unfolding holds_def using assms rooted_tree[OF assms(1-4), of Map.empty "{}"] by (simp add: evolves_fresh)

lemma holds_root:
  assumes "holds m es C"
  shows "bt_root_addr m = NULL \<longleftrightarrow> es = []" "bt_length m = length es" "version_page_size (bt_version m) = pg"
proof -
  have "(bt_root_addr m = NULL \<longleftrightarrow> es = []) \<and> bt_length m = length es \<and> version_page_size (bt_version m) = pg"
    using assms
  proof (cases rule: holds_cases)
    case (tree t h W r)
    have "tree_addr t \<noteq> NULL"
      using synced_addr[OF tree(1)] kid_dom[OF tree(2)] by simp
    then show ?thesis
      using syncedD[OF tree(1)] inorder_ne[OF tree(4)] tree(5) by auto
  qed (auto dest: syncedD)
  then show "bt_root_addr m = NULL \<longleftrightarrow> es = []" "bt_length m = length es" "version_page_size (bt_version m) = pg"
    by blast+
qed

lemma node_count:
  assumes "nodes a h W r"
  shows "card (dom W) * sz \<le> U64_MAX"
proof -
  obtain D where D: "prep a h D (r + r * most + spare W)" "heap_pages sz D W"
    using nodesD(3)[OF assms] by (auto simp: heap_def)
  have "dom W \<subseteq> dom D"
  proof
    fix x
    assume "x \<in> dom W"
    then obtain ovs F where "W x = Some (ovs, F)"
      by auto
    then show "x \<in> dom D"
      using heap_pagesD(1)[OF D(2)] by (auto simp: node_pages_def)
  qed
  then have "card (dom W) \<le> card (dom D)"
    using count_law[OF D(1)] by (intro card_mono) simp_all
  then show ?thesis
    using count_law[OF D(1)] by (meson le_trans mult_le_mono1)
qed

lemma tree_length:
  assumes "synced m root len W r" "tree_at W t" "distinct (addrs t)" "shape h t" "dom W = set (addrs t)"
  shows "length (inorder t) < U64_MAX"
proof (rule syncedE[OF assms(1)])
  fix h'
  assume "nodes (bt_allocator m) h' W r"
  from node_count[OF this] have "length (addrs t) * sz \<le> U64_MAX"
    by (simp add: assms(5) distinct_card[OF assms(3)])
  then have "length (addrs t) * 128 \<le> U64_MAX"
    using mult_le_mono2[OF sz, of "length (addrs t)"] by linarith
  then show ?thesis
    using tree_size(2)[OF assms(4)] by simp
qed

section \<open>Look-up\<close>

lemma holds_upd:
  assumes "synced m' (tree_addr t) (length es) W r" "tree_at W t" "distinct (addrs t)" "shape h t" "inorder t = es" "content (inorder t)"
    "dom W = set (addrs t)" "r + length (addrs t) = C"
  shows "holds m' es C"
  using holds_tree[of m' t W r h] assms by simp

lemma traverse_holds:
  assumes f: "\<And>root len W r m n an i. synced m root len W r \<Longrightarrow> node_is W n an \<Longrightarrow> i < length (an_entries an) \<Longrightarrow>
    ok (f n i (bt_memory m)) (\<lambda>(x, s). x = g (snd (an_entries an ! i)) \<and> synced (bt_with_memory m s) root len W r)"
    and m: "holds m es C" "es \<noteq> []"
  shows "ok (traverse K M m (bt_root_addr m) key f) (\<lambda>(x, m'). x = map_option g (map_of es key) \<and> holds m' es C)"
  using m(1)
proof (cases rule: holds_cases)
  case (tree t h W r)
  have "ok (traverse K M m (tree_addr t) key f) (\<lambda>(x, m'). x = map_option g (map_of (inorder t) key) \<and> synced m' (tree_addr t) (length es) W r)"
    by (rule traverse_ok[where f = f and g = g, OF _ tree(1,2,4,6)]) (rule f)
  then show ?thesis
    unfolding syncedD(2)[OF tree(1)] tree(5) by (rule ok_mono) (auto intro: holds_upd[OF _ tree(2-8)])
qed (use m(2) in simp)

section \<open>Insertion\<close>

lemma moved_root:
  assumes t: "synced m (tree_addr t) len W' r'" "moved W t r W' t' r'" "dom W = set (addrs t)" "shape h t'" "content (inorder t')" "length (inorder t') = len"
    "r + length (addrs t) = C"
  shows "holds m (inorder t') C"
proof -
  note mv = movedD[OF t(2)]
  have "dom W' = set (addrs t')"
    using evolvesD(3)[OF mv(4)] t(3) by simp
  then show ?thesis
    using holds_tree[OF _ mv(1,2) t(4,5), of m r'] t(1,6,7) mv(3,5) by simp
qed

lemma ins_post_holds:
  assumes res: "ins_post (tree_addr t) (length (inorder t)) W r h t key v res" and t: "dom W = set (addrs t)" "content (inorder t)" "r + length (addrs t) = C"
    and v: "valid key" "length v \<le> vb"
  shows "fst res = map_of (inorder t) key" "holds (snd res) (ins key v (inorder t)) C"
proof -
  obtain W' t' r' where p: "fst res = map_of (inorder t) key" "synced (snd res) (tree_addr t) (if fst res = None then Suc (length (inorder t)) else length (inorder t)) W' r'"
    "moved W t r W' t' r'" "shape h t'" "inorder t' = ins key v (inorder t)"
    by (rule ins_postE[OF res])
  show "fst res = map_of (inorder t) key"
    by (rule p(1))
  have "length (inorder t') = (if fst res = None then Suc (length (inorder t)) else length (inorder t))"
    using length_ins[OF content_sorted[OF t(2)], of key v] p(1,5) by simp
  from moved_root[OF p(2,3) t(1) p(4) _ this t(3)] show "holds (snd res) (ins key v (inorder t)) C"
    using content_ins[OF t(2) v] p(5) by simp
qed

text \<open>The first entry: a leaf is allocated and becomes the root.\<close>

lemma insert_first:
  assumes m: "synced m NULL 0 Map.empty (Suc r)" and v: "valid key" "length v \<le> vb"
  shows "ok (do {
      (node, m) \<leftarrow> allocate_node M m Leaf;
      m \<leftarrow> save_header M (m\<lparr>bt_root_addr := nd_address node\<rparr>);
      insert_nonfull K M m node key v }) (\<lambda>(old, m'). old = None \<and> holds m' [(key, v)] (Suc r))"
proof -
  from allocate_node_ok[OF m, of Leaf] obtain n m1 raw where
    1: "allocate_node M m Leaf = Some (n, m1)" "synced m1 NULL 0 [nd_address n \<mapsto> raw] r"
      "node_is [nd_address n \<mapsto> raw] n \<lparr>an_type = Leaf, an_entries = [], an_children = []\<rparr>"
    by (elim ok_obtain) blast
  let ?x = "nd_address n"
  from bt_root[OF 1(2), of ?x] obtain m2 where 2: "save_header M (m1\<lparr>bt_root_addr := ?x\<rparr>) = Some m2" "synced m2 ?x 0 [?x \<mapsto> raw] r"
    by (auto elim!: ok_obtain)
  have "sorted_keys (an_entries \<lparr>an_type = Leaf, an_entries = [], an_children = []\<rparr>)"
    by simp
  from search_node_ok[OF 2(2) 1(3) this, of key] obtain res n3 m3 where
    3: "search_node K M m2 n key = Some (res, n3, m3)" "synced m3 ?x 0 [?x \<mapsto> raw] r"
      "node_is [?x \<mapsto> raw] n3 \<lparr>an_type = Leaf, an_entries = [], an_children = []\<rparr>" "nd_address n3 = ?x" "found_at [] key res"
    by (auto elim!: ok_obtain)
  have i: "res = Inl 0"
    using 3(5) by (cases res) (auto simp: found_at_def)
  have nf: "\<not> is_full n" and ty: "nd_node_type n3 = Leaf"
    using node_is_length[OF 1(3)] 3(3) by (simp_all add: is_full_def CAPACITY_def node_is_def)
  have fi: "found_at (map fst []) key (Inl 0)" and c: "content []"
    by (simp_all add: found_at_def content_def)
  have z: "length ([] :: 'k entry list) < 11" "(0 :: nat) < U64_MAX"
    by simp_all
  from insert_leaf[OF 3(2,3,4) c z(1) fi v z(2), unfolded fun_upd_upd] obtain m4 raw' where
    4: "insert_nonfull K M m2 n key v = Some (None, m4)" "synced m4 ?x (Suc 0) [?x \<mapsto> raw'] r" "tree_at [?x \<mapsto> raw'] (BNode ?x (ins key v []) [])"
    unfolding insert_nonfull_leaf[OF nf 3(1)[unfolded i] ty] by (elim ok_obtain) blast
  have "ins key v [] = [(key, v)]" "content [(key, v)]"
    using v by (simp_all add: ins_def content_def)
  then have "holds m4 [(key, v)] (Suc r)"
    using holds_tree[of m4 "BNode ?x [(key, v)] []" "[?x \<mapsto> raw']" r 0] 4(2,3) by simp
  then show ?thesis
    using 1(1) 2(1) 4(1) by simp
qed

text \<open>A full root: it becomes the only child of a new root, and is split.\<close>

lemma grow_root:
  assumes m: "synced m (tree_addr t) len W (Suc (Suc r))" and t: "tree_at W t" "distinct (addrs t)" "shape h t" "content (inorder t)" "length (tree_entries t) = 11"
  shows "ok (do {
      (new_root, m) \<leftarrow> allocate_node M m Internal;
      let new_root = push_child new_root (bt_root_addr m);
      m \<leftarrow> save_header M (m\<lparr>bt_root_addr := nd_address new_root\<rparr>);
      split_child K M m new_root 0 }) (\<lambda>(n', m'). \<exists>W' t'. synced m' (tree_addr t') len W' r \<and> tree_at W' t' \<and> distinct (addrs t') \<and> shape (Suc h) t' \<and>
        inorder t' = inorder t \<and> length (tree_entries t') = 1 \<and> node_is W' n' (anode_of t') \<and> nd_address n' = tree_addr t' \<and>
        evolves W (set (addrs t)) W' (set (addrs t')) \<and> r + length (addrs t') = Suc (Suc r) + length (addrs t))"
proof -
  from allocate_node_ok[OF m, of Internal] obtain n m1 raw where
    1: "allocate_node M m Internal = Some (n, m1)" "W (nd_address n) = None" "synced m1 (tree_addr t) len (W(nd_address n \<mapsto> raw)) (Suc r)"
      "node_is (W(nd_address n \<mapsto> raw)) n \<lparr>an_type = Internal, an_entries = [], an_children = []\<rparr>"
    by (elim ok_obtain) blast
  let ?x = "nd_address n" and ?n = "push_child n (tree_addr t)"
  let ?W = "W(?x \<mapsto> raw)"
  from bt_root[OF 1(3), of ?x] obtain m2 where 2: "save_header M (m1\<lparr>bt_root_addr := ?x\<rparr>) = Some m2" "synced m2 ?x len ?W (Suc r)"
    by (auto elim!: ok_obtain)
  have x: "?x \<notin> set (addrs t)"
    using tree_at_dom[OF t(1)] 1(2) by blast
  have ta: "tree_at ?W t"
    using t(1) x by simp
  have ch: "nd_children n = []"
    using 1(4) by (simp add: node_is_def)
  have n: "node_is ?W ?n \<lparr>an_type = Internal, an_entries = [], an_children = map tree_addr [t]\<rparr>" "nd_address ?n = ?x"
    using tree_children[OF 1(4), of "[tree_addr t]"] by (simp_all add: push_child_def ch)
  have s: "\<forall>u \<in> set [t]. tree_at ?W u \<and> shape h u \<and> 5 \<le> length (tree_entries u)" "distinct (addrs (BNode ?x [] [t]))" "length [t] = length ([] :: 'k entry list) + 1"
    "length ([] :: 'k entry list) < 11" "0 < length [t]" "length (tree_entries ([t] ! 0)) = 11" "content (inorder (BNode ?x [] [t]))"
    using ta t x by simp_all
  have sh: "\<And>u. u \<in> set [t] \<Longrightarrow> shape h u" "\<And>u. u \<in> set [t] \<Longrightarrow> 5 \<le> length (tree_entries u)"
    using s(1) by simp_all
  from split_child_ok[OF 2(2) n s] obtain n3 m3 W3 z where
    3: "split_child K M m2 ?n 0 = Some (n3, m3)" "synced m3 ?x len W3 r" "tree_at W3 (split_tree ?x [] [t] 0 z)" "node_is W3 n3 (anode_of (split_tree ?x [] [t] 0 z))"
      "nd_address n3 = ?x" "z \<notin> set (addrs (BNode ?x [] [t]))" "evolves ?W (set (addrs (BNode ?x [] [t]))) W3 (set (addrs (split_tree ?x [] [t] 0 z)))"
    by (elim ok_obtain) blast
  let ?t = "split_tree ?x [] [t] 0 z"
  have t': "tree_addr ?t = ?x" "length (tree_entries ?t) = 1"
    by (cases t; simp add: split_tree_def)+
  note ad = split_tree_addrs[OF s(5) 3(6)]
  have io: "inorder ?t = inorder t"
    using split_tree_inorder[OF s(3,5) _ s(6), of h ?x z] t(3) by simp
  have "evolves W (set (addrs t)) ?W (set (addrs (BNode ?x [] [t])))"
    using evolves_alloc[of W ?x "set (addrs t)" raw] 1(2) tree_at_dom[OF t(1)] by simp
  then have ev: "evolves W (set (addrs t)) W3 (set (addrs ?t))"
    by (rule evolves_trans) (rule 3(7))
  have run: "do {
      (new_root, m) \<leftarrow> allocate_node M m Internal;
      let new_root = push_child new_root (bt_root_addr m);
      m \<leftarrow> save_header M (m\<lparr>bt_root_addr := nd_address new_root\<rparr>);
      split_child K M m new_root 0 } = Some (n3, m3)"
    using 1(1) 2(1) 3(1) syncedD(2)[OF 1(3)] n(2) by simp
  have "shape (Suc h) ?t"
    by (rule split_tree_shape[OF s(3,5,4) sh s(6)])
  moreover have "r + length (addrs ?t) = Suc (Suc r) + length (addrs t)"
    using ad(2) by simp
  ultimately show ?thesis
    unfolding run ok_Some case_prod_conv using 3(2-5) t' ad(3)[OF s(2)] io ev by (intro exI[of _ W3] exI[of _ ?t]) simp
qed

lemma insert_holds:
  assumes m: "holds m es C" and v: "valid key" "length v \<le> vb" and C: "2 * (length es div 5) + 4 \<le> C"
  shows "ok (if bt_root_addr m = NULL then do {
          (node, m) \<leftarrow> allocate_node M m Leaf;
          m \<leftarrow> save_header M (m\<lparr>bt_root_addr := nd_address node\<rparr>);
          insert_nonfull K M m node key v }
        else do {
          (root, m) \<leftarrow> load_node K M m (bt_root_addr m);
          (res, root, m) \<leftarrow> search_node K M m root key;
          case res of
            Inr idx \<Rightarrow> do {
              (old, m) \<leftarrow> update_value K M m root idx v;
              Some (Some old, m) }
          | Inl _ \<Rightarrow>
              if is_full root then do {
                (new_root, m) \<leftarrow> allocate_node M m Internal;
                let new_root = push_child new_root (bt_root_addr m);
                m \<leftarrow> save_header M (m\<lparr>bt_root_addr := nd_address new_root\<rparr>);
                (new_root, m) \<leftarrow> split_child K M m new_root 0;
                insert_nonfull K M m new_root key v }
              else insert_nonfull K M m root key v }) (\<lambda>(old, m'). old = map_of es key \<and> holds m' (ins key v es) C)"
  using m
proof (cases rule: holds_cases)
  case empty
  obtain r where "C = Suc r"
    using C by (cases C) auto
  then show ?thesis
    using insert_first[of m r key v] empty v syncedD(2)[OF empty(2)] by (simp add: ins_def)
next
  case (tree t h W r)
  have ne: "bt_root_addr m \<noteq> NULL"
    using holds_root(1)[OF m] inorder_ne[OF tree(4)] tree(5) by simp
  have "5 * length (addrs t) \<le> length es + 4"
    using tree_size(1)[OF tree(4)] shape_entries(1)[OF tree(4)] tree(5) by (cases "tree_entries t") auto
  then have "length (addrs t) \<le> length es div 5 + 1"
    by presburger
  then have rm: "h + 3 \<le> r"
    using tree_size(3)[OF tree(4)] C tree(8) by linarith
  have len: "length es < U64_MAX"
    using tree_length[OF tree(1-4,7)] tree(5) by simp
  have post: "(\<lambda>(old, m'). old = map_of es key \<and> holds m' (ins key v es) C) res"
    if "ins_post (tree_addr t) (length es) W r h t key v res" for res
    using that ins_post_holds[OF _ tree(7,6,8) v, of h res] tree(5) by (cases res) simp
  from load_node_ok[OF tree(1) tree_at_root[OF tree(2)]] obtain n1 m1 where
    1: "load_node K M m (tree_addr t) = Some (n1, m1)" "synced m1 (tree_addr t) (length es) W r" "node_is W n1 (anode_of t)" "nd_address n1 = tree_addr t"
    by (auto elim!: ok_obtain)
  from search_here[OF 1(2) tree(4,6) 1(3), of key] obtain res n2 m2 where
    2: "search_node K M m1 n1 key = Some (res, n2, m2)" "synced m2 (tree_addr t) (length es) W r" "node_is W n2 (anode_of t)" "nd_address n2 = tree_addr t"
      "found_at (map fst (tree_entries t)) key res"
    using 1(4) by (auto elim!: ok_obtain)
  have full: "is_full n2 \<longleftrightarrow> length (tree_entries t) = 11"
    using node_is_length[OF 2(3)] shape_entries(2)[OF tree(4)] by (auto simp: is_full_def CAPACITY_def)
  note run = ne syncedD(2)[OF tree(1)] 1(1) 2(1)
  show ?thesis
  proof (cases res)
    case (Inr i)
    from update_here[OF 2(2) tree(2-4,6) 2(3,4) 2(5)[unfolded Inr] v(2)] have
      "ok (update_value K M m2 n2 i v) (\<lambda>(old, m'). (\<lambda>(old, m'). old = map_of es key \<and> holds m' (ins key v es) C) (Some old, m'))"
      by (rule ok_mono) (use post in auto)
    then show ?thesis
      using run Inr by (auto elim!: ok_mono)
  next
    case (Inl i)
    show ?thesis
    proof (cases "length (tree_entries t) = 11")
      case False
      then have "length (tree_entries t) < 11" "h \<le> r"
        using shape_entries(2)[OF tree(4)] rm by simp_all
      from insert_nonfull_ok[OF v len 2(2) tree(2-4,6) 2(3,4) this] have "ok (insert_nonfull K M m2 n2 key v) (\<lambda>(old, m'). old = map_of es key \<and> holds m' (ins key v es) C)"
        by (rule ok_mono) (rule post)
      then show ?thesis
        using run Inl False full by simp
    next
      case True
      obtain r2 where r2: "r = Suc (Suc r2)" "Suc h \<le> r2"
        using rm by (intro that[of "r - 2"]) simp_all
      from grow_root[OF 2(2)[unfolded r2(1)] tree(2-4,6) True] obtain n3 m3 W3 t3 where
        3: "do {
          (new_root, m) \<leftarrow> allocate_node M m2 Internal;
          let new_root = push_child new_root (bt_root_addr m);
          m \<leftarrow> save_header M (m\<lparr>bt_root_addr := nd_address new_root\<rparr>);
          split_child K M m new_root 0 } = Some (n3, m3)" "synced m3 (tree_addr t3) (length es) W3 r2" "tree_at W3 t3" "distinct (addrs t3)" "shape (Suc h) t3"
          "inorder t3 = inorder t" "length (tree_entries t3) = 1" "node_is W3 n3 (anode_of t3)" "nd_address n3 = tree_addr t3"
          "evolves W (set (addrs t)) W3 (set (addrs t3))" "r2 + length (addrs t3) = Suc (Suc r2) + length (addrs t)"
        by (elim ok_obtain) blast
      have c3: "content (inorder t3)" "dom W3 = set (addrs t3)" "r2 + length (addrs t3) = C"
        using tree(6-8) 3(6,11) evolvesD(3)[OF 3(10)] r2(1) by simp_all
      have "length (tree_entries t3) < 11"
        using 3(7) by simp
      from insert_nonfull_ok[OF v len 3(2-5) c3(1) 3(8,9) this r2(2)]
      have "ok (insert_nonfull K M m3 n3 key v) (\<lambda>(old, m'). old = map_of es key \<and> holds m' (ins key v es) C)"
      proof (rule ok_mono)
        fix res
        assume "ins_post (tree_addr t3) (length es) W3 r2 (Suc h) t3 key v res"
        then show "(\<lambda>(old, m'). old = map_of es key \<and> holds m' (ins key v es) C) res"
          using ins_post_holds[OF _ c3(2,1,3) v, of "Suc h" res] 3(6) tree(5) by (cases res) simp
      qed
      moreover have "do {
          (new_root, m) \<leftarrow> allocate_node M m2 Internal;
          let new_root = push_child new_root (bt_root_addr m);
          m \<leftarrow> save_header M (m\<lparr>bt_root_addr := nd_address new_root\<rparr>);
          (new_root, m) \<leftarrow> split_child K M m new_root 0;
          insert_nonfull K M m new_root key v } = insert_nonfull K M m3 n3 key v"
        using 3(1) by (auto simp: Let_def bind_eq_Some_conv)
      ultimately show ?thesis
        using run Inl True full by simp
    qed
  qed
qed

section \<open>Removal and the ends of the map\<close>

lemma remove_holds:
  assumes m: "synced m (tree_addr t) (length es) W r" "tree_at W t" "distinct (addrs t)" "shape h t" "inorder t = es" "content (inorder t)"
      "dom W = set (addrs t)" "r + length (addrs t) = C" and n: "node_is W n (anode_of t)" "nd_address n = tree_addr t"
  shows "ok (remove_helper K M m n key) (\<lambda>(b, m'). b = map_of es key \<and> holds m' (del key es) C)"
proof -
  have "0 < length es"
    using inorder_ne[OF m(4)] m(5) by auto
  from remove_root[OF m(1) this m(2-4,6) n] show ?thesis
  proof (rule ok_mono)
    fix res
    assume "root_post (length es) W r t key res"
    then have res: "fst res = map_of es key" "rooted (snd res) (if fst res = None then length es else length es - 1) W (set (addrs t)) C (del key es)"
      unfolding root_post_def m(5,8) by blast+
    have "(if fst res = None then length es else length es - 1) = length (del key es)"
      using length_del[OF content_sorted[OF m(6)], of key] res(1) m(5) by simp
    moreover have "evolves Map.empty {} W (set (addrs t))"
      using m(7) by (simp add: evolves_fresh)
    ultimately have "holds (snd res) (del key es) C"
      using rooted_trans[OF _ res(2)] content_del[OF m(6), of key] m(5) by (simp add: holds_def)
    then show "(\<lambda>(b, m'). b = map_of es key \<and> holds m' (del key es) C) res"
      using res(1) by (cases res) simp
  qed
qed

lemma remove_key_holds:
  assumes m: "holds m es C" "es \<noteq> []"
  shows "ok (do {
      (root_node, m) \<leftarrow> load_node K M m (bt_root_addr m);
      remove_helper K M m root_node key }) (\<lambda>(b, m'). b = map_of es key \<and> holds m' (del key es) C)"
  using m(1)
proof (cases rule: holds_cases)
  case (tree t h W r)
  from load_node_ok[OF tree(1) tree_at_root[OF tree(2)]] obtain n1 m1 where
    1: "load_node K M m (tree_addr t) = Some (n1, m1)" "synced m1 (tree_addr t) (length es) W r" "node_is W n1 (anode_of t)" "nd_address n1 = tree_addr t"
    by (auto elim!: ok_obtain)
  show ?thesis
    using remove_holds[OF 1(2) tree(2-8) 1(3,4)] syncedD(2)[OF tree(1)] by (simp add: 1(1))
qed (use m(2) in simp)

lemma ends_holds:
  assumes m: "holds m es C" "es \<noteq> []"
  shows "ok (do {
      (root, m) \<leftarrow> load_node K M m (bt_root_addr m);
      (e, root, s) \<leftarrow> get_min K M root (bt_memory m);
      Some (e, bt_with_memory m s) }) (\<lambda>(e, m'). e = hd es \<and> holds m' es C)"
    "ok (do {
      (root, m) \<leftarrow> load_node K M m (bt_root_addr m);
      (e, root, s) \<leftarrow> get_max K M root (bt_memory m);
      Some (e, bt_with_memory m s) }) (\<lambda>(e, m'). e = last es \<and> holds m' es C)"
    "ok (do {
      (root, m) \<leftarrow> load_node K M m (bt_root_addr m);
      (e, root, s) \<leftarrow> get_min K M root (bt_memory m);
      (b, m) \<leftarrow> remove_helper K M (bt_with_memory m s) root (fst e);
      Some (e, b, m) }) (\<lambda>(e, b, m'). e = hd es \<and> b = Some (snd (hd es)) \<and> holds m' (tl es) C)"
    "ok (do {
      (root, m) \<leftarrow> load_node K M m (bt_root_addr m);
      (e, root, s) \<leftarrow> get_max K M root (bt_memory m);
      (b, m) \<leftarrow> remove_helper K M (bt_with_memory m s) root (fst e);
      Some (e, b, m) }) (\<lambda>(e, b, m'). e = last es \<and> b = Some (snd (last es)) \<and> holds m' (butlast es) C)"
proof -
  obtain t h W r where tree: "synced m (tree_addr t) (length es) W r" "tree_at W t" "distinct (addrs t)" "shape h t" "inorder t = es" "content (inorder t)"
      "dom W = set (addrs t)" "r + length (addrs t) = C"
    using m(1) by (cases rule: holds_cases) (use m(2) in simp, blast)
  from load_node_ok[OF tree(1) tree_at_root[OF tree(2)]] obtain n1 m1 where
    1: "load_node K M m (tree_addr t) = Some (n1, m1)" "synced m1 (tree_addr t) (length es) W r" "node_is W n1 (anode_of t)" "nd_address n1 = tree_addr t"
    by (auto elim!: ok_obtain)
  note root = syncedD(2)[OF tree(1)]
  have so: "sorted_keys es"
    using content_sorted[OF tree(6)] tree(5) by simp
  note de = del_ends[OF so m(2)]
  have "distinct (map fst es)"
    using so unfolding sorted_keys_map[symmetric] strict_sorted_iff by blast
  note mo = map_of_is_SomeI[OF this]
  have mo: "map_of es (fst (hd es)) = Some (snd (hd es))" "map_of es (fst (last es)) = Some (snd (last es))"
    using mo[of "fst (hd es)" "snd (hd es)"] mo[of "fst (last es)" "snd (last es)"] m(2) by simp_all
  from get_min_ok[OF 1(2) tree(2,4) 1(3)] obtain n2 s2 where
    2: "get_min K M n1 (bt_memory m1) = Some (hd es, n2, s2)" "synced (bt_with_memory m1 s2) (tree_addr t) (length es) W r" "node_is W n2 (anode_of t)" "nd_address n2 = tree_addr t"
    using 1(4) tree(5) by (auto elim!: ok_obtain)
  from get_max_ok[OF 1(2) tree(2,4) 1(3)] obtain n3 s3 where
    3: "get_max K M n1 (bt_memory m1) = Some (last es, n3, s3)" "synced (bt_with_memory m1 s3) (tree_addr t) (length es) W r" "node_is W n3 (anode_of t)" "nd_address n3 = tree_addr t"
    using 1(4) tree(5) by (auto elim!: ok_obtain)
  show "ok (do {
      (root, m) \<leftarrow> load_node K M m (bt_root_addr m);
      (e, root, s) \<leftarrow> get_min K M root (bt_memory m);
      Some (e, bt_with_memory m s) }) (\<lambda>(e, m'). e = hd es \<and> holds m' es C)"
    using holds_upd[OF 2(2) tree(2-8)] by (simp add: root 1(1) 2(1))
  show "ok (do {
      (root, m) \<leftarrow> load_node K M m (bt_root_addr m);
      (e, root, s) \<leftarrow> get_max K M root (bt_memory m);
      Some (e, bt_with_memory m s) }) (\<lambda>(e, m'). e = last es \<and> holds m' es C)"
    using holds_upd[OF 3(2) tree(2-8)] by (simp add: root 1(1) 3(1))
  show "ok (do {
      (root, m) \<leftarrow> load_node K M m (bt_root_addr m);
      (e, root, s) \<leftarrow> get_min K M root (bt_memory m);
      (b, m) \<leftarrow> remove_helper K M (bt_with_memory m s) root (fst e);
      Some (e, b, m) }) (\<lambda>(e, b, m'). e = hd es \<and> b = Some (snd (hd es)) \<and> holds m' (tl es) C)"
    using remove_holds[OF 2(2) tree(2-8) 2(3,4), of "fst (hd es)"] mo(1) de(2) by (auto simp: root 1(1) 2(1) elim!: ok_mono)
  show "ok (do {
      (root, m) \<leftarrow> load_node K M m (bt_root_addr m);
      (e, root, s) \<leftarrow> get_max K M root (bt_memory m);
      (b, m) \<leftarrow> remove_helper K M (bt_with_memory m s) root (fst e);
      Some (e, b, m) }) (\<lambda>(e, b, m'). e = last es \<and> b = Some (snd (last es)) \<and> holds m' (butlast es) C)"
    using remove_holds[OF 3(2) tree(2-8) 3(3,4), of "fst (last es)"] mo(2) de(1) by (auto simp: root 1(1) 3(1) elim!: ok_mono)
qed

end

end
