(* ===== verification/BTree_Spec.thy ===== *)
theory BTree_Spec
  imports BTree_Ops
begin

text \<open>
  The map as its client sees it: \<open>btree_rep\<close> relates a map in memory to a sorted list of keys and values. Every
  operation does what the operation on the list does, a map that is loaded again is the same map, and in
  any sequence of operations the map returns what a finite map returns.
\<close>

section \<open>The header\<close>

text \<open>A map of version 1 is read as one of version 2 with pages of the same size; its header is the same.\<close>

fun migrated :: "version \<Rightarrow> version" where
  "migrated (V1 mk mv) = V2 (Derived mk mv)"
| "migrated v = v"

lemma migrated_simps [simp]: "version_page_size (migrated v) = version_page_size v"
  "encode_btree_header \<lparr>bh_version = migrated v, bh_root_addr = a, bh_length = l\<rparr> = encode_btree_header \<lparr>bh_version = v, bh_root_addr = a, bh_length = l\<rparr>"
  by (cases v; simp add: encode_btree_header_def)+

text \<open>The sizes in a version fit into the fields of the header.\<close>

fun page_size_fits :: "page_size \<Rightarrow> bool" where
  "page_size_fits (Derived mk mv) \<longleftrightarrow> mk \<le> U32_MAX \<and> mv \<le> U32_MAX"
| "page_size_fits (PageValue p) \<longleftrightarrow> p \<le> U32_MAX"

text \<open>What is read from the header; version 2 with derived pages is stored as version 1.\<close>

fun header_version :: "version \<Rightarrow> version" where
  "header_version (V2 (Derived mk mv)) = V1 mk mv"
| "header_version v = v"

lemma decode_encode_btree_header:
  assumes "page_size_fits (version_page_size v)" "a \<le> U64_MAX" "l \<le> U64_MAX"
  shows "decode_btree_header (encode_btree_header \<lparr>bh_version = v, bh_root_addr = a, bh_length = l\<rparr>) =
    Some \<lparr>bh_version = header_version v, bh_root_addr = a, bh_length = l\<rparr>"
proof -
  have le: "from_le_bytes (to_le_bytes 8 a) = a" "from_le_bytes (to_le_bytes 8 l) = l" "from_le_bytes (to_le_bytes 1 1) = 1" "from_le_bytes (to_le_bytes 1 2) = 2"
    "from_le_bytes (to_le_bytes 4 U32_MAX) = U32_MAX" "\<And>x. x \<le> U32_MAX \<Longrightarrow> from_le_bytes (to_le_bytes 4 x) = x"
    using assms(2,3) by (simp_all add: from_to_le_bytes del: to_le_bytes.simps)
  show ?thesis
    using assms(1) le
    by (cases v rule: header_version.cases) (simp_all add: decode_btree_header_def encode_btree_header_def BTREE_MAGIC_def BTREE_LAYOUT_VERSION_def
        BTREE_LAYOUT_VERSION_2_def PAGE_SIZE_VALUE_MARKER_def subrange_def Let_def del: to_le_bytes.simps)
qed

section \<open>Clearing and loading\<close>

lemma UN_support: "(\<And>x. x \<notin> A \<Longrightarrow> f x = {}) \<Longrightarrow> (\<Union>x. f x) = (\<Union>x \<in> A. f x)"
  by fastforce

lemma heap_pages_card:
  assumes hp: "heap_pages ps D W" and fin: "finite (dom W)"
  shows "card (dom D) = (\<Sum>x \<in> dom W. Suc (length (fst (the (W x)))))"
proof -
  have "pages_of W x = {}" if "x \<notin> dom W" for x
    using that by (cases "W x") auto
  moreover have "dom D = (\<Union>x. pages_of W x)"
    using hp by (simp add: heap_pages_def)
  ultimately have D: "dom D = (\<Union>x \<in> dom W. pages_of W x)"
    using UN_support[of "dom W" "pages_of W"] by simp
  have pg: "finite (pages_of W x) \<and> card (pages_of W x) = Suc (length (fst (the (W x))))" if x: "x \<in> dom W" for x
  proof -
    obtain ovs F where W: "W x = Some (ovs, F)"
      using x by auto
    have "distinct (x # ovs)"
      using heap_pagesD(1)[OF hp W] by (simp add: node_pages_def)
    then have "card (set (x # ovs)) = length (x # ovs)"
      by (rule distinct_card)
    then show ?thesis
      using W by simp
  qed
  have "card (dom D) = (\<Sum>x \<in> dom W. card (pages_of W x))"
    unfolding D using pg hp by (intro card_UN_disjoint[OF fin]) (auto simp: heap_pages_def)
  then show ?thesis
    using pg by simp
qed

context btree_store
begin

lemma node_clear_ok:
  assumes "nodes a h W r"
  shows "ok (allocator_clear M a) (\<lambda>a'. nodes a' h Map.empty (r + card (dom W)))"
proof -
  obtain D where D: "prep a h D (r + r * most + spare W)" "heap_pages sz D W"
    using nodesD(3)[OF assms] by (auto simp: heap_def)
  note fin = nodesD(1)[OF assms]
  have "card (dom D) + spare W = (\<Sum>x \<in> dom W. Suc (length (fst (the (W x)))) + (most - length (fst (the (W x)))))"
    unfolding heap_pages_card[OF D(2) fin] spare_def by (rule sum.distrib[symmetric])
  also have "\<dots> = (\<Sum>x \<in> dom W. Suc most)"
  proof (rule sum.cong[OF refl])
    fix x
    assume "x \<in> dom W"
    then have "length (fst (the (W x))) \<le> most"
      using nodesD(2)[OF assms, of x] by auto
    then show "Suc (length (fst (the (W x)))) + (most - length (fst (the (W x)))) = Suc most"
      by simp
  qed
  finally have le: "(r + card (dom W)) + (r + card (dom W)) * most + spare Map.empty \<le> card (dom D) + (r + r * most + spare W)"
    by (simp add: spare_def algebra_simps)
  have "heap_pages sz Map.empty Map.empty"
    by (simp add: heap_pages_def pages_of_def)
  then show ?thesis
    by (intro ok_mono[OF clear_law[OF D(1)]]) (auto simp: nodes_def heap_def intro: less_law[OF _ le])
qed

lemma clear_new_holds:
  assumes m: "holds m es C"
  shows "ok (btree_clear_new M m) (\<lambda>m'. holds m' [] C)"
proof -
  obtain root len W r where s: "synced m root len W r" and C: "r + card (dom W) = C"
    using m by (cases rule: holds_cases) (use distinct_card in \<open>force simp: distinct_card\<close>)+
  obtain h where h: "nodes (bt_allocator m) h W r"
    by (rule syncedE[OF s]) blast
  from node_clear_ok[OF h] obtain a' where a: "allocator_clear M (bt_allocator m) = Some a'" "nodes a' h Map.empty C"
    unfolding C by (auto elim!: ok_obtain)
  have "ok (save_header M (m\<lparr>bt_root_addr := NULL, bt_length := 0, bt_allocator := a'\<rparr>)) (\<lambda>m'. synced m' NULL 0 Map.empty C)"
    using save_header_ok[of "m\<lparr>bt_root_addr := NULL, bt_length := 0, bt_allocator := a'\<rparr>" h Map.empty C] a(2) syncedD(1)[OF s] by simp
  then show ?thesis
    unfolding btree_clear_new_def Let_def using a(1) rooted_empty[of _ 0 Map.empty C Map.empty "{}"]
    by (auto simp: holds_def content_def evolves_fresh elim!: ok_mono)
qed

text \<open>The state of a map in memory, up to what an operation on the memory may change.\<close>

lemma holds_synced:
  assumes m: "holds m es C"
  obtains root W r where "synced m root (length es) W r" "root \<le> U64_MAX" "length es \<le> U64_MAX"
    "\<And>m'. synced m' root (length es) W r \<Longrightarrow> holds m' es C"
proof -
  have "\<exists>root W r. synced m root (length es) W r \<and> root \<le> U64_MAX \<and> length es \<le> U64_MAX \<and> (\<forall>m'. synced m' root (length es) W r \<longrightarrow> holds m' es C)"
    using m
  proof (cases rule: holds_cases)
    case empty
    then show ?thesis
      using rooted_empty[of _ 0 Map.empty C Map.empty "{}"] by (auto simp: holds_def content_def evolves_fresh NULL_def)
  next
    case (tree t h W r)
    obtain h' where "nodes (bt_allocator m) h' W r"
      by (rule syncedE[OF tree(1)]) blast
    from nodes_addr(1)[OF this kid_dom[OF tree(2)]] show ?thesis
      using tree(1) holds_upd[OF _ tree(2-8)] tree_length[OF tree(1-4,7)] tree(5) by auto
  qed
  then show thesis
    using that by blast
qed

lemma magic_holds:
  assumes m: "holds m es C"
  shows "ok (read_op M (bt_memory m) 0 3) (\<lambda>(bs, s). bs = BTREE_MAGIC \<and> holds (bt_with_memory m s) es C)"
proof -
  obtain root W r where s: "synced m root (length es) W r" and hold: "\<And>m'. synced m' root (length es) W r \<Longrightarrow> holds m' es C"
    by (rule holds_synced[OF m]) blast
  obtain h where h: "nodes (bt_allocator m) h W r" "take 28 h = encode_btree_header \<lparr>bh_version = bt_version m, bh_root_addr = root, bh_length = length es\<rparr>"
    using s by (auto simp: synced_def)
  have "0 + 3 \<le> H"
    by (simp add: H ALLOCATOR_OFFSET_def)
  from heap_read_header[OF nodesD(3)[OF h(1)] this] obtain s1 where
    1: "read_op M (bt_memory m) 0 3 = Some (take 3 h, s1)" "nodes (bt_allocator m\<lparr>al_memory := s1\<rparr>) h W r"
    using nodes_upd[OF h(1)] by (auto simp: bt_memory_def subrange_def elim!: ok_obtain)
  have "take 3 h = take 3 (take 28 h)"
    by simp
  also have "\<dots> = BTREE_MAGIC"
    unfolding h(2) by (simp add: encode_btree_header_def BTREE_MAGIC_def split: version.splits page_size.splits)
  finally have "take 3 h = BTREE_MAGIC" .
  moreover have "synced (bt_with_memory m s1) root (length es) W r"
    using s 1(2) h(2) by (auto simp: synced_def bt_with_memory_def)
  ultimately show ?thesis
    using 1(1) hold by simp
qed

lemma synced_prep: "synced m root len W r \<Longrightarrow> \<exists>h D r'. prep (bt_allocator m) h D r' \<and> heap_pages sz D W"
  by (erule syncedE) (blast dest: nodesD(3)[unfolded heap_def])

lemma holds_prep: "holds m es C \<Longrightarrow> \<exists>h D r. prep (bt_allocator m) h D r"
  by (erule holds_synced) (blast dest: synced_prep)

text \<open>The chunks in use are those of the nodes of the tree, and the tree is at least a third full.\<close>

lemma holds_pages:
  assumes "holds m es C"
  shows "\<exists>h D r. prep (bt_allocator m) h D r \<and> card (dom D) \<le> (length es + 4) div 5 * Suc most"
  using assms
proof (cases rule: holds_cases)
  case empty
  then show ?thesis
    using synced_prep[OF empty(2)] by (fastforce simp: heap_pages_def pages_of_def)
next
  case (tree t h W r)
  obtain h' where n: "nodes (bt_allocator m) h' W r"
    by (rule syncedE[OF tree(1)]) blast
  obtain D r' where D: "prep (bt_allocator m) h' D r'" "heap_pages sz D W"
    using nodesD(3)[OF n] unfolding heap_def by blast
  have "5 * length (addrs t) + 1 \<le> length es + 5"
    using tree_size(1)[OF tree(4)] shape_entries(1)[OF tree(4)] tree(5) by (cases "tree_entries t") auto
  then have "length (addrs t) \<le> (length es + 4) div 5"
    by (simp add: less_eq_div_iff_mult_less_eq)
  moreover have "card (dom D) \<le> card (dom W) * Suc most"
    unfolding heap_pages_card[OF D(2) nodesD(1)[OF n]] using nodesD(2)[OF n] by (intro sum_bounded_above[where K = "Suc most", unfolded of_nat_id]) auto
  moreover have "card (dom W) = length (addrs t)"
    using tree(3,7) by (simp add: distinct_card)
  ultimately have "card (dom D) \<le> (length es + 4) div 5 * Suc most"
    by (metis le_trans mult_le_mono1)
  with D(1) show ?thesis
    by blast
qed

lemma load_holds:
  assumes m: "holds m es C" and fits: "page_size_fits pg"
  shows "ok (btree_load K V M (bt_memory m)) (\<lambda>m'. holds m' es C \<and> bt_version m' = migrated (bt_version m))"
proof -
  obtain root W r where s: "synced m root (length es) W r" "root \<le> U64_MAX" "length es \<le> U64_MAX"
    and hold: "\<And>m'. synced m' root (length es) W r \<Longrightarrow> holds m' es C"
    by (rule holds_synced[OF m]) blast
  let ?v = "bt_version m" and ?l = "length es"
  obtain h where h: "version_page_size ?v = pg" "nodes (bt_allocator m) h W r" "take 28 h = encode_btree_header \<lparr>bh_version = ?v, bh_root_addr = root, bh_length = ?l\<rparr>"
    using s(1) by (auto simp: synced_def)
  have "0 + 28 \<le> H"
    by (simp add: H ALLOCATOR_OFFSET_def)
  from heap_read_header[OF nodesD(3)[OF h(2)] this] obtain s1 where
    1: "read_op M (bt_memory m) 0 28 = Some (take 28 h, s1)" "nodes (bt_allocator m\<lparr>al_memory := s1\<rparr>) h W r"
    using nodes_upd[OF h(2)] by (auto simp: bt_memory_def subrange_def elim!: ok_obtain)
  have "read_header M (bt_memory m) = Some (\<lparr>bh_version = header_version ?v, bh_root_addr = root, bh_length = ?l\<rparr>, s1)"
    unfolding read_header_def PACKED_HEADER_SIZE_def 1(1) h(3) using decode_encode_btree_header[of ?v root ?l] fits h(1) s(2,3) by simp
  moreover from heap_load[OF nodesD(3)[OF 1(2)]] obtain a' where
    2: "allocator_load M s1 ALLOCATOR_OFFSET = Some a'" "nodes a' h W r"
    using nodes_upd[OF 1(2)] H by (auto elim!: ok_obtain)
  moreover have "(case header_version ?v of
         V1 max_key_size max_value_size \<Rightarrow> Some (V2 (Derived max_key_size max_value_size))
       | other \<Rightarrow> Some other) = Some (migrated ?v)"
    by (cases ?v rule: header_version.cases) simp_all
  ultimately have run: "btree_load K V M (bt_memory m) = Some \<lparr>bt_root_addr = root, bt_version = migrated ?v, bt_allocator = a', bt_length = ?l\<rparr>"
    unfolding btree_load_def load_helper_def if_True by simp
  have "synced \<lparr>bt_root_addr = root, bt_version = migrated ?v, bt_allocator = a', bt_length = ?l\<rparr> root ?l W r"
    using h(1,3) 2(2) by (auto simp: synced_def)
  then show ?thesis
    unfolding run using hold by simp
qed

end

section \<open>Keys and values\<close>

definition enc :: "'v storable \<Rightarrow> 'v \<Rightarrow> bytes" where
  "enc V v = the (to_bytes V v)"

abbreviation encoded :: "'v storable \<Rightarrow> ('k \<times> 'v) list \<Rightarrow> 'k entry list" where
  "encoded V xs \<equiv> map (apsnd (enc V)) xs"

lemma encoded_simps:
  "ins k (enc V v) (encoded V xs) = encoded V (ins k v xs)" "del k (encoded V xs) = encoded V (del k xs)"
  "map_of (encoded V xs) k = map_option (enc V) (map_of xs k)" "sorted_keys (encoded V xs) = sorted_keys xs"
  by (simp_all add: ins_def del_def filter_map comp_def map_of_map apsnd_def map_prod_def sorted_wrt_map case_prod_beta)

locale btree_values = btree_store M H sz prep K valid pg kb vb + vals: storable_type V vvalid
  for M :: "'s memory_ops" and H sz prep and K :: "'k::linorder storable" and valid pg kb vb and V :: "'v storable" and vvalid +
  assumes value_size: "vvalid v \<Longrightarrow> length (enc V v) \<le> vb"
    and page_fits: "page_size_fits pg"
begin

definition is_map :: "'s btree_map \<Rightarrow> ('k \<times> 'v) list \<Rightarrow> nat \<Rightarrow> bool" where
  "is_map m xs C \<longleftrightarrow> (\<forall>(k, v) \<in> set xs. vvalid v) \<and> holds m (encoded V xs) C"

lemma is_mapD: "is_map m xs C \<Longrightarrow> holds m (encoded V xs) C" "is_map m xs C \<Longrightarrow> map_of xs k = Some v \<Longrightarrow> vvalid v"
  by (auto simp: is_map_def dest: map_of_SomeD)

lemma enc_ok: "vvalid v \<Longrightarrow> to_bytes_checked V v = Some (enc V v)" "vvalid v \<Longrightarrow> from_bytes V (enc V v) = Some v"
  using vals.to_bytes_checked_ok[of v] by (auto simp: enc_def to_bytes_checked_def elim!: ok_obtain)

lemma from_stored_ok: "is_map m xs C \<Longrightarrow> from_stored V (map_option (enc V) (map_of xs k)) = Some (map_of xs k)"
  using is_mapD(2)[of m xs C k] by (auto simp: from_stored_def enc_ok(2) split: option.splits)

lemma is_map_ins: "is_map m xs C \<Longrightarrow> vvalid v \<Longrightarrow> holds m' (encoded V (ins k v xs)) C \<Longrightarrow> is_map m' (ins k v xs) C"
  using set_ins[of k v xs] by (auto simp: is_map_def)

lemma is_map_del: "is_map m xs C \<Longrightarrow> holds m' (encoded V (del k xs)) C \<Longrightarrow> is_map m' (del k xs) C"
  by (auto simp: is_map_def del_def)

lemma is_map_upd: "is_map m xs C \<Longrightarrow> holds m' (encoded V xs) C \<Longrightarrow> is_map m' xs C"
  by (simp add: is_map_def)

lemma insert_ok:
  assumes m: "is_map m xs C" and v: "valid k" "vvalid v" and C: "2 * (length xs div 5) + 4 \<le> C"
  shows "ok (btree_insert K V M m k v) (\<lambda>(old, m'). old = map_of xs k \<and> is_map m' (ins k v xs) C)"
proof -
  have C': "2 * (length (encoded V xs) div 5) + 4 \<le> C"
    using C by simp
  from insert_holds[OF is_mapD(1)[OF m] v(1) value_size[OF v(2)] C', unfolded encoded_simps] show ?thesis
    unfolding btree_insert_def enc_ok(1)[OF v(2)] bind.bind_lunit ok_bind
    by (rule ok_mono) (auto simp: from_stored_ok[OF m] intro: is_map_ins[OF m v(2)])
qed

lemma get_ok:
  assumes m: "is_map m xs C"
  shows "ok (btree_get K V M m k) (\<lambda>(v, m'). v = map_of xs k \<and> is_map m' xs C)"
proof (cases "xs = []")
  case True
  then show ?thesis
    using m holds_root(1)[OF is_mapD(1)[OF m]] by (simp add: btree_get_def)
next
  case False
  have f: "ok (do { (e, node, s) \<leftarrow> extract_entry_at K M n i (bt_memory m); Some (snd e, s) })
      (\<lambda>(x, s). x = id (snd (an_entries an ! i)) \<and> synced (bt_with_memory m s) root len W r)"
    if "synced m root len W r" "node_is W n an" "i < length (an_entries an)" for root len W r m n an i
    using bt_extract_entry_at[OF that] by (auto elim!: ok_mono)
  from traverse_holds[of "\<lambda>n i s. do { (e, node, s) \<leftarrow> extract_entry_at K M n i s; Some (snd e, s) }" id m "encoded V xs" C k] f is_mapD(1)[OF m] False
  have "ok (traverse K M m (bt_root_addr m) k (\<lambda>n i s. do { (e, node, s) \<leftarrow> extract_entry_at K M n i s; Some (snd e, s) }))
      (\<lambda>(x, m'). x = map_option (enc V) (map_of xs k) \<and> holds m' (encoded V xs) C)"
    by (simp add: encoded_simps option.map_id)
  then show ?thesis
    using holds_root(1)[OF is_mapD(1)[OF m]] False unfolding btree_get_def
    by (auto simp: from_stored_ok[OF m] intro: is_map_upd[OF m] elim!: ok_mono)
qed

lemma contains_key_ok:
  assumes m: "is_map m xs C"
  shows "ok (btree_contains_key K M m k) (\<lambda>(b, m'). b = (map_of xs k \<noteq> None) \<and> is_map m' xs C)"
proof (cases "xs = []")
  case True
  then show ?thesis
    using m holds_root(1)[OF is_mapD(1)[OF m]] by (simp add: btree_contains_key_def)
next
  case False
  from traverse_holds[of "\<lambda>n i s. Some ((), s)" "\<lambda>_. ()" m "encoded V xs" C k] is_mapD(1)[OF m] False
  have "ok (traverse K M m (bt_root_addr m) k (\<lambda>n i s. Some ((), s))) (\<lambda>(x, m'). x = map_option (\<lambda>_. ()) (map_of xs k) \<and> holds m' (encoded V xs) C)"
    by (simp add: encoded_simps bt_with_memory_def bt_memory_def option.map_comp comp_def)
  then show ?thesis
    using holds_root(1)[OF is_mapD(1)[OF m]] False unfolding btree_contains_key_def
    by (auto intro: is_map_upd[OF m] elim!: ok_mono)
qed

lemma is_map_sorted: "is_map m xs C \<Longrightarrow> sorted_keys xs"
  using content_sorted[of "encoded V xs"] by (simp add: is_map_def holds_def encoded_simps)

lemma len_ok: "is_map m xs C \<Longrightarrow> btree_len m = length xs" "is_map m xs C \<Longrightarrow> btree_is_empty m \<longleftrightarrow> xs = []"
  using holds_root(2)[OF is_mapD(1)[of m xs C]] by (simp_all add: btree_len_def btree_is_empty_def)

lemma remove_ok:
  assumes m: "is_map m xs C"
  shows "ok (btree_remove K V M m k) (\<lambda>(v, m'). v = map_of xs k \<and> is_map m' (del k xs) C)"
proof (cases "xs = []")
  case True
  then show ?thesis
    using m holds_root(1)[OF is_mapD(1)[OF m]] by (simp add: btree_remove_def del_def)
next
  case False
  then have "encoded V xs \<noteq> []"
    by simp
  from remove_key_holds[OF is_mapD(1)[OF m] this, of k, unfolded encoded_simps] show ?thesis
    using holds_root(1)[OF is_mapD(1)[OF m]] False unfolding btree_remove_def
    by (auto simp: from_stored_ok[OF m] intro: is_map_del[OF m] elim!: ok_mono)
qed

lemma ends_ok:
  assumes m: "is_map m xs C"
  shows "ok (btree_first_key_value K V M m) (\<lambda>(e, m'). e = (if xs = [] then None else Some (hd xs)) \<and> is_map m' xs C)"
    "ok (btree_last_key_value K V M m) (\<lambda>(e, m'). e = (if xs = [] then None else Some (last xs)) \<and> is_map m' xs C)"
    "ok (btree_pop_first K V M m) (\<lambda>(e, m'). e = (if xs = [] then None else Some (hd xs)) \<and> is_map m' (tl xs) C)"
    "ok (btree_pop_last K V M m) (\<lambda>(e, m'). e = (if xs = [] then None else Some (last xs)) \<and> is_map m' (butlast xs) C)"
proof -
  note root = holds_root(1)[OF is_mapD(1)[OF m]]
  have "ok (btree_first_key_value K V M m) (\<lambda>(e, m'). e = (if xs = [] then None else Some (hd xs)) \<and> is_map m' xs C) \<and>
    ok (btree_last_key_value K V M m) (\<lambda>(e, m'). e = (if xs = [] then None else Some (last xs)) \<and> is_map m' xs C) \<and>
    ok (btree_pop_first K V M m) (\<lambda>(e, m'). e = (if xs = [] then None else Some (hd xs)) \<and> is_map m' (tl xs) C) \<and>
    ok (btree_pop_last K V M m) (\<lambda>(e, m'). e = (if xs = [] then None else Some (last xs)) \<and> is_map m' (butlast xs) C)"
  proof (cases "xs = []")
    case True
    then show ?thesis
      using m root by (simp add: btree_first_key_value_def btree_last_key_value_def btree_pop_first_def btree_pop_last_def)
  next
    case False
    then have ne: "encoded V xs \<noteq> []"
      by simp
    have he: "hd (encoded V xs) = (fst (hd xs), enc V (snd (hd xs)))" "last (encoded V xs) = (fst (last xs), enc V (snd (last xs)))"
      using False by (simp_all add: hd_map last_map prod_eq_iff)
    have v: "vvalid (snd (hd xs))" "vvalid (snd (last xs))"
      using m hd_in_set[OF False] last_in_set[OF False] by (auto simp: is_map_def case_prod_beta)
    have sub: "holds m' (encoded V (tl xs)) C \<Longrightarrow> is_map m' (tl xs) C" "holds m' (encoded V (butlast xs)) C \<Longrightarrow> is_map m' (butlast xs) C" for m'
      using m by (auto simp: is_map_def dest: in_set_butlastD list.set_sel(2)[OF False])
    note e = ends_holds[OF is_mapD(1)[OF m] ne, unfolded he map_tl[symmetric] map_butlast[symmetric]]
    have nn: "bt_root_addr m \<noteq> NULL"
      using root False by simp
    have "ok (btree_first_key_value K V M m) (\<lambda>(e, m'). e = Some (hd xs) \<and> is_map m' xs C)"
      using e(1) nn unfolding btree_first_key_value_def by (auto simp: enc_ok(2)[OF v(1)] case_prod_beta intro: is_map_upd[OF m] elim!: ok_mono)
    moreover have "ok (btree_last_key_value K V M m) (\<lambda>(e, m'). e = Some (last xs) \<and> is_map m' xs C)"
      using e(2) nn unfolding btree_last_key_value_def by (auto simp: enc_ok(2)[OF v(2)] case_prod_beta intro: is_map_upd[OF m] elim!: ok_mono)
    moreover have "ok (btree_pop_first K V M m) (\<lambda>(e, m'). e = Some (hd xs) \<and> is_map m' (tl xs) C)"
      using e(3) nn unfolding btree_pop_first_def
      by (auto simp: from_stored_def enc_ok(2)[OF v(1)] case_prod_beta intro: sub elim!: ok_mono)
    moreover have "ok (btree_pop_last K V M m) (\<lambda>(e, m'). e = Some (last xs) \<and> is_map m' (butlast xs) C)"
      using e(4) nn unfolding btree_pop_last_def
      by (auto simp: from_stored_def enc_ok(2)[OF v(2)] case_prod_beta intro: sub elim!: ok_mono)
    ultimately show ?thesis
      using False by simp
  qed
  then show "ok (btree_first_key_value K V M m) (\<lambda>(e, m'). e = (if xs = [] then None else Some (hd xs)) \<and> is_map m' xs C)"
    "ok (btree_last_key_value K V M m) (\<lambda>(e, m'). e = (if xs = [] then None else Some (last xs)) \<and> is_map m' xs C)"
    "ok (btree_pop_first K V M m) (\<lambda>(e, m'). e = (if xs = [] then None else Some (hd xs)) \<and> is_map m' (tl xs) C)"
    "ok (btree_pop_last K V M m) (\<lambda>(e, m'). e = (if xs = [] then None else Some (last xs)) \<and> is_map m' (butlast xs) C)"
    by blast+
qed

lemma magic_ok: "is_map m xs C \<Longrightarrow> ok (read_op M (bt_memory m) 0 3) (\<lambda>(bs, s). bs = BTREE_MAGIC \<and> is_map (bt_with_memory m s) xs C)"
  using magic_holds[OF is_mapD(1)] by (fastforce simp: is_map_def elim!: ok_mono)

lemma clear_new_ok: "is_map m xs C \<Longrightarrow> ok (btree_clear_new M m) (\<lambda>m'. is_map m' [] C)"
  using clear_new_holds[OF is_mapD(1)] by (fastforce simp: is_map_def elim!: ok_mono)

lemma load_ok:
  "is_map m xs C \<Longrightarrow> ok (btree_load K V M (btree_into_memory m)) (\<lambda>m'. is_map m' xs C \<and> bt_version m' = migrated (bt_version m))"
  using load_holds[OF is_mapD(1) page_fits, of m xs C V] unfolding btree_into_memory_def bt_memory_def by (fastforce simp: is_map_def elim!: ok_mono)

end

end
