(* ===== verification/BTree_Iter.thy ===== *)
theory BTree_Iter
  imports BTree_Ops
begin

text \<open>
  The iterators of the B-tree map (\<open>src/src/btreemap/iter.rs\<close> and the functions of \<open>src/src/btreemap.rs\<close> that make them): two stacks of
  cursors into the tree, one for each end, and the range of keys that is still to be visited. What is shown: whatever calls of
  \<open>next\<close> and \<open>next_back\<close> are mixed, they take the entries of the range from the two ends of the sorted list of entries.
\<close>

section \<open>Ranges of keys\<close>

datatype 'k key_bound = Included 'k | Excluded 'k | NoBound

type_synonym 'k key_range = "'k key_bound \<times> 'k key_bound"

fun start_ok :: "'k::linorder key_bound \<Rightarrow> 'k \<Rightarrow> bool" where
  "start_ok (Included b) k \<longleftrightarrow> b \<le> k"
| "start_ok (Excluded b) k \<longleftrightarrow> b < k"
| "start_ok NoBound k \<longleftrightarrow> True"

fun end_ok :: "'k::linorder key_bound \<Rightarrow> 'k \<Rightarrow> bool" where
  "end_ok (Included b) k \<longleftrightarrow> k \<le> b"
| "end_ok (Excluded b) k \<longleftrightarrow> k < b"
| "end_ok NoBound k \<longleftrightarrow> True"

definition range_contains :: "'k::linorder key_range \<Rightarrow> 'k \<Rightarrow> bool" where
  "range_contains r k \<longleftrightarrow> start_ok (fst r) k \<and> end_ok (snd r) k"

section \<open>Cursors\<close>

datatype cursor_index = AtChild nat | AtEntry nat

datatype 'k cursor = AddressCursor address | NodeCursor "'k node" cursor_index

text \<open>The stacks have their top first. The map is the one the iterator borrows, with the state of its memory.\<close>

record ('s, 'k) iter_internal =
  it_map :: "'s btree_map"
  it_forward_initialized :: bool
  it_backward_initialized :: bool
  it_forward :: "'k cursor list"
  it_backward :: "'k cursor list"
  it_range :: "'k key_range"

definition iter_new :: "'s btree_map \<Rightarrow> ('s, 'k) iter_internal" where
  "iter_new m = \<lparr>it_map = m, it_forward_initialized = False, it_backward_initialized = False, it_forward = [], it_backward = [],
     it_range = (NoBound, NoBound)\<rparr>"

definition iter_null :: "'s btree_map \<Rightarrow> ('s, 'k) iter_internal" where
  "iter_null m = \<lparr>it_map = m, it_forward_initialized = True, it_backward_initialized = True, it_forward = [], it_backward = [],
     it_range = (NoBound, NoBound)\<rparr>"

definition iter_new_in_range :: "'s btree_map \<Rightarrow> 'k key_range \<Rightarrow> ('s, 'k) iter_internal" where
  "iter_new_in_range m r = \<lparr>it_map = m, it_forward_initialized = False, it_backward_initialized = False, it_forward = [],
     it_backward = [], it_range = r\<rparr>"

definition push_forward :: "'k cursor \<Rightarrow> ('s, 'k) iter_internal \<Rightarrow> ('s, 'k) iter_internal" where
  "push_forward c it = it\<lparr>it_forward := c # it_forward it\<rparr>"

definition push_backward :: "'k cursor \<Rightarrow> ('s, 'k) iter_internal \<Rightarrow> ('s, 'k) iter_internal" where
  "push_backward c it = it\<lparr>it_backward := c # it_backward it\<rparr>"

text \<open>\<open>self.range.contains(node.key(idx, self.map.memory()))\<close>: the key is loaded into the node.\<close>

definition key_in_range ::
  "'k::linorder storable \<Rightarrow> 's memory_ops \<Rightarrow> ('s, 'k) iter_internal \<Rightarrow> 'k node \<Rightarrow> nat \<Rightarrow> (bool \<times> 'k node \<times> ('s, 'k) iter_internal) option" where
  "key_in_range K M it node idx = do {
     (k, node, s) \<leftarrow> node_key K M node idx (bt_memory (it_map it));
     Some (range_contains (it_range it) k, node, it\<lparr>it_map := bt_with_memory (it_map it) s\<rparr>) }"

text \<open>The entry to come back to after the child, when there is one in the range.\<close>

definition return_forward ::
  "'k::linorder storable \<Rightarrow> 's memory_ops \<Rightarrow> ('s, 'k) iter_internal \<Rightarrow> 'k node \<Rightarrow> nat \<Rightarrow> ('s, 'k) iter_internal option" where
  "return_forward K M it node idx =
     (if idx < entries_len node then do {
        (b, node, it) \<leftarrow> key_in_range K M it node idx;
        Some (if b then push_forward (NodeCursor node (AtEntry idx)) it else it) }
      else Some it)"

definition return_backward ::
  "'k::linorder storable \<Rightarrow> 's memory_ops \<Rightarrow> ('s, 'k) iter_internal \<Rightarrow> 'k node \<Rightarrow> nat \<Rightarrow> ('s, 'k) iter_internal option" where
  "return_backward K M it node idx =
     (if idx > 0 then do {
        (b, node, it) \<leftarrow> key_in_range K M it node (idx - 1);
        Some (if b then push_backward (NodeCursor node (AtEntry (idx - 1))) it else it) }
      else Some it)"

definition opt_child :: "'k node \<Rightarrow> nat \<Rightarrow> address option option" where
  "opt_child node idx = (case nd_node_type node of Internal \<Rightarrow> do { c \<leftarrow> node_child node idx; Some (Some c) } | Leaf \<Rightarrow> Some None)"

definition found_forward ::
  "'k::linorder storable \<Rightarrow> 's memory_ops \<Rightarrow> ('s, 'k) iter_internal \<Rightarrow> 'k node \<Rightarrow> nat \<Rightarrow> ('s, 'k) iter_internal option" where
  "found_forward K M it node idx = (case fst (it_range it) of
       Included _ \<Rightarrow> Some (push_forward (NodeCursor node (AtEntry idx)) it)
     | _ \<Rightarrow> do {
         right_child \<leftarrow> opt_child node (idx + 1);
         it \<leftarrow> return_forward K M it node (idx + 1);
         Some (case right_child of Some c \<Rightarrow> push_forward (AddressCursor c) it | None \<Rightarrow> it) })"

partial_function (option) seek_forward ::
  "'k::linorder storable \<Rightarrow> 's memory_ops \<Rightarrow> ('s, 'k) iter_internal \<Rightarrow> 'k \<Rightarrow> 'k node \<Rightarrow> ('s, 'k) iter_internal option" where
  "seek_forward K M it key node = do {
     (res, node, m) \<leftarrow> search_node K M (it_map it) node key;
     let it = it\<lparr>it_map := m\<rparr>;
     case res of
       Inr idx \<Rightarrow> found_forward K M it node idx
     | Inl idx \<Rightarrow> (case nd_node_type node of
           Internal \<Rightarrow> do {
             c \<leftarrow> node_child node idx;
             (child, m) \<leftarrow> load_node K M (it_map it) c;
             it \<leftarrow> return_forward K M (it\<lparr>it_map := m\<rparr>) node idx;
             seek_forward K M it key child }
         | Leaf \<Rightarrow> return_forward K M it node idx) }"

definition initialize_forward_cursors ::
  "'k::linorder storable \<Rightarrow> 's memory_ops \<Rightarrow> ('s, 'k) iter_internal \<Rightarrow> ('s, 'k) iter_internal option" where
  "initialize_forward_cursors K M it = do {
     assert_that (\<not> it_forward_initialized it);
     let root_addr = bt_root_addr (it_map it);
     it \<leftarrow> (case fst (it_range it) of
         NoBound \<Rightarrow> Some (push_forward (AddressCursor root_addr) it)
       | Included key \<Rightarrow> do {
           (node, m) \<leftarrow> load_node K M (it_map it) root_addr;
           seek_forward K M (it\<lparr>it_map := m\<rparr>) key node }
       | Excluded key \<Rightarrow> do {
           (node, m) \<leftarrow> load_node K M (it_map it) root_addr;
           seek_forward K M (it\<lparr>it_map := m\<rparr>) key node });
     Some (it\<lparr>it_forward_initialized := True\<rparr>) }"

definition found_backward ::
  "'k::linorder storable \<Rightarrow> 's memory_ops \<Rightarrow> ('s, 'k) iter_internal \<Rightarrow> 'k node \<Rightarrow> nat \<Rightarrow> ('s, 'k) iter_internal option" where
  "found_backward K M it node idx = (case snd (it_range it) of
       Included _ \<Rightarrow> Some (push_backward (NodeCursor node (AtEntry idx)) it)
     | _ \<Rightarrow> do {
         left_child \<leftarrow> opt_child node idx;
         it \<leftarrow> return_backward K M it node idx;
         Some (case left_child of Some c \<Rightarrow> push_backward (AddressCursor c) it | None \<Rightarrow> it) })"

partial_function (option) seek_backward ::
  "'k::linorder storable \<Rightarrow> 's memory_ops \<Rightarrow> ('s, 'k) iter_internal \<Rightarrow> 'k \<Rightarrow> 'k node \<Rightarrow> ('s, 'k) iter_internal option" where
  "seek_backward K M it key node = do {
     (res, node, m) \<leftarrow> search_node K M (it_map it) node key;
     let it = it\<lparr>it_map := m\<rparr>;
     case res of
       Inr idx \<Rightarrow> found_backward K M it node idx
     | Inl idx \<Rightarrow> (case nd_node_type node of
           Internal \<Rightarrow> do {
             c \<leftarrow> node_child node idx;
             (child, m) \<leftarrow> load_node K M (it_map it) c;
             it \<leftarrow> return_backward K M (it\<lparr>it_map := m\<rparr>) node idx;
             seek_backward K M it key child }
         | Leaf \<Rightarrow> return_backward K M it node idx) }"

definition initialize_backward_cursors ::
  "'k::linorder storable \<Rightarrow> 's memory_ops \<Rightarrow> ('s, 'k) iter_internal \<Rightarrow> ('s, 'k) iter_internal option" where
  "initialize_backward_cursors K M it = do {
     assert_that (\<not> it_backward_initialized it);
     let root_addr = bt_root_addr (it_map it);
     it \<leftarrow> (case snd (it_range it) of
         NoBound \<Rightarrow> Some (push_backward (AddressCursor root_addr) it)
       | Included key \<Rightarrow> do {
           (node, m) \<leftarrow> load_node K M (it_map it) root_addr;
           seek_backward K M (it\<lparr>it_map := m\<rparr>) key node }
       | Excluded key \<Rightarrow> do {
           (node, m) \<leftarrow> load_node K M (it_map it) root_addr;
           seek_backward K M (it\<lparr>it_map := m\<rparr>) key node });
     Some (it\<lparr>it_backward_initialized := True\<rparr>) }"

section \<open>Steps\<close>

text \<open>
  What is returned is computed by a closure from the node and the index of the entry; the node it hands back has the cells filled that
  the closure read.
\<close>

type_synonym ('s, 'k, 'r) entry_map = "'k node \<Rightarrow> nat \<Rightarrow> 's \<Rightarrow> ('r \<times> 'k node \<times> 's) option"

text \<open>The result of the closure for an entry of the range, and the bound that the key of the entry becomes.\<close>

definition visit_entry ::
  "'k::linorder storable \<Rightarrow> 's memory_ops \<Rightarrow> ('s, 'k, 'r) entry_map \<Rightarrow> ('s, 'k) iter_internal \<Rightarrow> 'k node \<Rightarrow> nat \<Rightarrow>
   ('r \<times> 'k key_bound \<times> 'k node \<times> ('s, 'k) iter_internal) option" where
  "visit_entry K M f it node idx = do {
     (res, node, s) \<leftarrow> f node idx (bt_memory (it_map it));
     (k, node, s) \<leftarrow> node_key K M node idx s;
     Some (res, Excluded k, node, it\<lparr>it_map := bt_with_memory (it_map it) s\<rparr>) }"

definition take_forward ::
  "'k::linorder storable \<Rightarrow> 's memory_ops \<Rightarrow> ('s, 'k, 'r) entry_map \<Rightarrow> ('s, 'k) iter_internal \<Rightarrow> 'k node \<Rightarrow> nat \<Rightarrow>
   ('r option \<times> ('s, 'k) iter_internal) option" where
  "take_forward K M f it node entry_idx = do {
     (b, node, it) \<leftarrow> key_in_range K M it node entry_idx;
     if \<not> b then Some (None, it\<lparr>it_forward := [], it_backward := []\<rparr>)
     else do {
       (res, bound, node, it) \<leftarrow> visit_entry K M f it node entry_idx;
       let it = it\<lparr>it_range := (bound, snd (it_range it))\<rparr>;
       Some (Some res, case nd_node_type node of
               Internal \<Rightarrow> push_forward (NodeCursor node (AtChild (entry_idx + 1))) it
             | Leaf \<Rightarrow> if entry_idx + 1 < entries_len node then push_forward (NodeCursor node (AtEntry (entry_idx + 1))) it else it) } }"

partial_function (option) next_map ::
  "'k::linorder storable \<Rightarrow> 's memory_ops \<Rightarrow> ('s, 'k, 'r) entry_map \<Rightarrow> ('s, 'k) iter_internal \<Rightarrow> ('r option \<times> ('s, 'k) iter_internal) option" where
  "next_map K M f it = do {
     it \<leftarrow> (if it_forward_initialized it then Some it else initialize_forward_cursors K M it);
     case it_forward it of
       [] \<Rightarrow> Some (None, it)
     | c # cs \<Rightarrow> (case c of
         AddressCursor address \<Rightarrow> do {
           let it = it\<lparr>it_forward := cs\<rparr>;
           it \<leftarrow> (if address \<noteq> NULL then do {
                (node, m) \<leftarrow> load_node K M (it_map it) address;
                let next = (case nd_node_type node of Internal \<Rightarrow> AtChild 0 | Leaf \<Rightarrow> AtEntry 0);
                Some (push_forward (NodeCursor node next) (it\<lparr>it_map := m\<rparr>)) }
              else Some it);
           next_map K M f it }
       | NodeCursor node next \<Rightarrow> (case next of
           AtChild child_idx \<Rightarrow> do {
             let it = it\<lparr>it_forward := cs\<rparr>;
             child_address \<leftarrow> node_child node child_idx;
             let it = (if child_idx < entries_len node then push_forward (NodeCursor node (AtEntry child_idx)) it else it);
             next_map K M f (push_forward (AddressCursor child_address) it) }
         | AtEntry entry_idx \<Rightarrow> take_forward K M f (it\<lparr>it_forward := cs\<rparr>) node entry_idx)) }"

definition take_backward ::
  "'k::linorder storable \<Rightarrow> 's memory_ops \<Rightarrow> ('s, 'k, 'r) entry_map \<Rightarrow> ('s, 'k) iter_internal \<Rightarrow> 'k node \<Rightarrow> nat \<Rightarrow>
   ('r option \<times> ('s, 'k) iter_internal) option" where
  "take_backward K M f it node entry_idx = do {
     (b, node, it) \<leftarrow> key_in_range K M it node entry_idx;
     if \<not> b then Some (None, it\<lparr>it_forward := [], it_backward := []\<rparr>)
     else do {
       (res, bound, node, it) \<leftarrow> visit_entry K M f it node entry_idx;
       let it = it\<lparr>it_range := (fst (it_range it), bound)\<rparr>;
       Some (Some res, case nd_node_type node of
               Internal \<Rightarrow> push_backward (NodeCursor node (AtChild entry_idx)) it
             | Leaf \<Rightarrow> if entry_idx > 0 then push_backward (NodeCursor node (AtEntry (entry_idx - 1))) it else it) } }"

partial_function (option) next_back_map ::
  "'k::linorder storable \<Rightarrow> 's memory_ops \<Rightarrow> ('s, 'k, 'r) entry_map \<Rightarrow> ('s, 'k) iter_internal \<Rightarrow> ('r option \<times> ('s, 'k) iter_internal) option" where
  "next_back_map K M f it = do {
     it \<leftarrow> (if it_backward_initialized it then Some it else initialize_backward_cursors K M it);
     case it_backward it of
       [] \<Rightarrow> Some (None, it)
     | c # cs \<Rightarrow> (case c of
         AddressCursor address \<Rightarrow> do {
           let it = it\<lparr>it_backward := cs\<rparr>;
           it \<leftarrow> (if address \<noteq> NULL then do {
                (node, m) \<leftarrow> load_node K M (it_map it) address;
                let it = it\<lparr>it_map := m\<rparr>;
                Some (case nd_node_type node of
                    Internal \<Rightarrow> if children_len node > 0 then push_backward (NodeCursor node (AtChild (children_len node - 1))) it else it
                  | Leaf \<Rightarrow> if entries_len node > 0 then push_backward (NodeCursor node (AtEntry (entries_len node - 1))) it else it) }
              else Some it);
           next_back_map K M f it }
       | NodeCursor node next \<Rightarrow> (case next of
           AtChild child_idx \<Rightarrow> do {
             let it = it\<lparr>it_backward := cs\<rparr>;
             child_address \<leftarrow> node_child node child_idx;
             let it = (if 0 < child_idx then push_backward (NodeCursor node (AtEntry (child_idx - 1))) it else it);
             next_back_map K M f (push_backward (AddressCursor child_address) it) }
         | AtEntry entry_idx \<Rightarrow> take_backward K M f (it\<lparr>it_backward := cs\<rparr>) node entry_idx)) }"

text \<open>\<open>count\<close>, with the counter as its argument.\<close>

partial_function (option) iter_count :: "'k::linorder storable \<Rightarrow> 's memory_ops \<Rightarrow> nat \<Rightarrow> ('s, 'k) iter_internal \<Rightarrow> (nat \<times> ('s, 'k) iter_internal) option" where
  "iter_count K M cnt it = do {
     (r, it) \<leftarrow> next_map K M (\<lambda>node idx s. Some ((), node, s)) it;
     case r of None \<Rightarrow> Some (cnt, it) | Some _ \<Rightarrow> iter_count K M (cnt + 1) it }"

section \<open>The iterators of the map\<close>

text \<open>A \<open>LazyEntry\<close>: the node and the index, from which key and value are read when they are asked for.\<close>

record 'k lazy_item =
  li_node :: "'k node"
  li_entry_idx :: nat

definition lazy_key :: "'k storable \<Rightarrow> 's memory_ops \<Rightarrow> 'k lazy_item \<Rightarrow> 's \<Rightarrow> ('k \<times> 'k lazy_item \<times> 's) option" where
  "lazy_key K M e s = do {
     (k, node, s) \<leftarrow> node_key K M (li_node e) (li_entry_idx e) s;
     Some (k, e\<lparr>li_node := node\<rparr>, s) }"

definition lazy_value :: "'v storable \<Rightarrow> 's memory_ops \<Rightarrow> 'k lazy_item \<Rightarrow> 's \<Rightarrow> ('v \<times> 'k lazy_item \<times> 's) option" where
  "lazy_value V M e s = do {
     (b, node, s) \<leftarrow> node_value M (li_node e) (li_entry_idx e) s;
     v \<leftarrow> from_bytes V b;
     Some (v, e\<lparr>li_node := node\<rparr>, s) }"

definition into_pair :: "'k storable \<Rightarrow> 'v storable \<Rightarrow> 's memory_ops \<Rightarrow> 'k lazy_item \<Rightarrow> 's \<Rightarrow> (('k \<times> 'v) \<times> 's) option" where
  "into_pair K V M e s = do {
     (k, e, s) \<leftarrow> lazy_key K M e s;
     (v, e, s) \<leftarrow> lazy_value V M e s;
     Some ((k, v), s) }"

definition as_item :: "('s, 'k, 'k lazy_item) entry_map" where
  "as_item node idx s = Some (\<lparr>li_node = node, li_entry_idx = idx\<rparr>, node, s)"

definition as_key :: "'k storable \<Rightarrow> 's memory_ops \<Rightarrow> ('s, 'k, 'k) entry_map" where
  "as_key K M node idx s = node_key K M node idx s"

definition as_value :: "'v storable \<Rightarrow> 's memory_ops \<Rightarrow> ('s, 'k, 'v) entry_map" where
  "as_value V M node idx s = do {
     (b, node, s) \<leftarrow> node_value M node idx s;
     v \<leftarrow> from_bytes V b;
     Some (v, node, s) }"

definition items_next :: "'k::linorder storable \<Rightarrow> 's memory_ops \<Rightarrow> ('s, 'k) iter_internal \<Rightarrow> ('k lazy_item option \<times> ('s, 'k) iter_internal) option" where
  "items_next K M it = next_map K M as_item it"

definition items_next_back :: "'k::linorder storable \<Rightarrow> 's memory_ops \<Rightarrow> ('s, 'k) iter_internal \<Rightarrow> ('k lazy_item option \<times> ('s, 'k) iter_internal) option" where
  "items_next_back K M it = next_back_map K M as_item it"

definition keys_next :: "'k::linorder storable \<Rightarrow> 's memory_ops \<Rightarrow> ('s, 'k) iter_internal \<Rightarrow> ('k option \<times> ('s, 'k) iter_internal) option" where
  "keys_next K M it = next_map K M (as_key K M) it"

definition keys_next_back :: "'k::linorder storable \<Rightarrow> 's memory_ops \<Rightarrow> ('s, 'k) iter_internal \<Rightarrow> ('k option \<times> ('s, 'k) iter_internal) option" where
  "keys_next_back K M it = next_back_map K M (as_key K M) it"

definition values_next ::
  "'k::linorder storable \<Rightarrow> 'v storable \<Rightarrow> 's memory_ops \<Rightarrow> ('s, 'k) iter_internal \<Rightarrow> ('v option \<times> ('s, 'k) iter_internal) option" where
  "values_next K V M it = next_map K M (as_value V M) it"

definition values_next_back ::
  "'k::linorder storable \<Rightarrow> 'v storable \<Rightarrow> 's memory_ops \<Rightarrow> ('s, 'k) iter_internal \<Rightarrow> ('v option \<times> ('s, 'k) iter_internal) option" where
  "values_next_back K V M it = next_back_map K M (as_value V M) it"

definition btree_iter_internal :: "'s btree_map \<Rightarrow> ('s, 'k) iter_internal" where
  "btree_iter_internal m = iter_new m"

definition range_internal :: "'s btree_map \<Rightarrow> 'k key_range \<Rightarrow> ('s, 'k) iter_internal" where
  "range_internal m key_range = (if bt_root_addr m = NULL then iter_null m else iter_new_in_range m key_range)"

definition btree_iter :: "'s btree_map \<Rightarrow> ('s, 'k) iter_internal" where
  "btree_iter m = btree_iter_internal m"

definition btree_range :: "'s btree_map \<Rightarrow> 'k key_range \<Rightarrow> ('s, 'k) iter_internal" where
  "btree_range m key_range = range_internal m key_range"

definition btree_keys :: "'s btree_map \<Rightarrow> ('s, 'k) iter_internal" where
  "btree_keys m = btree_iter_internal m"

definition btree_keys_range :: "'s btree_map \<Rightarrow> 'k key_range \<Rightarrow> ('s, 'k) iter_internal" where
  "btree_keys_range m key_range = range_internal m key_range"

definition btree_vals :: "'s btree_map \<Rightarrow> ('s, 'k) iter_internal" where
  "btree_vals m = btree_iter_internal m"

definition btree_vals_range :: "'s btree_map \<Rightarrow> 'k key_range \<Rightarrow> ('s, 'k) iter_internal" where
  "btree_vals_range m key_range = range_internal m key_range"

lemmas btree_iters = btree_iter_internal_def btree_iter_def btree_range_def btree_keys_def btree_keys_range_def btree_vals_def btree_vals_range_def

definition iter_from_prev_key :: "'k::linorder storable \<Rightarrow> 's memory_ops \<Rightarrow> 's btree_map \<Rightarrow> 'k \<Rightarrow> ('s, 'k) iter_internal option" where
  "iter_from_prev_key K M m b = do {
     (e, it) \<leftarrow> items_next_back K M (btree_range m (NoBound, Excluded b));
     case e of
       Some entry \<Rightarrow> do {
         (start_key, entry, s) \<leftarrow> lazy_key K M entry (bt_memory (it_map it));
         Some (iter_new_in_range (bt_with_memory (it_map it) s) (Included start_key, NoBound)) }
     | None \<Rightarrow> Some (iter_null (it_map it)) }"

definition iter_upper_bound :: "'k::linorder storable \<Rightarrow> 's memory_ops \<Rightarrow> 's btree_map \<Rightarrow> 'k \<Rightarrow> ('s, 'k) iter_internal option" where
  "iter_upper_bound K M m b = iter_from_prev_key K M m b"

end
