(* ===== verification/BTree_Range.thy ===== *)
theory BTree_Range
  imports BTree_Iter
begin

text \<open>
  The iterators visit the entries of the range in order, from both ends: the stacks of cursors are described by the lists of entries that
  they still lead to.
\<close>

section \<open>Ranges of sorted lists\<close>

abbreviation in_range :: "'k::linorder key_range \<Rightarrow> 'k entry \<Rightarrow> bool" where
  "in_range rg e \<equiv> range_contains rg (fst e)"

lemma start_ok_mono: "start_ok b k \<Longrightarrow> k \<le> k' \<Longrightarrow> start_ok b k'"
  by (cases b) auto

lemma end_ok_mono: "end_ok b k \<Longrightarrow> k' \<le> k \<Longrightarrow> end_ok b k'"
  by (cases b) auto

text \<open>A key that has been visited becomes an excluded bound.\<close>

lemma narrow_start: "range_contains rg k \<Longrightarrow> range_contains (Excluded k, snd rg) x \<longleftrightarrow> range_contains rg x \<and> k < x"
  using start_ok_mono[of "fst rg" k x] by (auto simp: range_contains_def)

lemma narrow_end: "range_contains rg k \<Longrightarrow> range_contains (fst rg, Excluded k) x \<longleftrightarrow> range_contains rg x \<and> x < k"
  using end_ok_mono[of "snd rg" k x] by (auto simp: range_contains_def)

lemma takeWhile_stop: "\<forall>x \<in> set ys. \<not> P x \<Longrightarrow> takeWhile P (xs @ ys) = takeWhile P xs"
  by (induction xs) (cases ys, auto)

lemma takeWhile_upto: "\<forall>x \<in> set xs. P x \<Longrightarrow> \<not> P y \<Longrightarrow> takeWhile P (xs @ [y]) = xs"
  by (induction xs) auto

lemma takeWhile_conj: "takeWhile (\<lambda>x. P x \<and> Q x) xs = takeWhile Q (takeWhile P xs)"
  by (induction xs) auto

lemma sorted_skip: "sorted_keys (A @ F @ R) \<Longrightarrow> R' = R \<or> R' = F @ R \<Longrightarrow> sorted_keys (A @ R')"
  by (elim disjE) (simp_all add: sorted_wrt_append ball_Un)

lemma sorted_skip_rev: "sorted_keys (rev R @ F @ A) \<Longrightarrow> R' = R \<or> R' = rev F @ R \<Longrightarrow> sorted_keys (rev R' @ A)"
  by (elim disjE) (simp_all add: sorted_wrt_append ball_Un)

text \<open>From a list of entries that starts behind the bound, the entries of the range come first.\<close>

lemma filter_range:
  assumes "sorted_keys es"
  shows "filter (in_range rg) es = takeWhile (in_range rg) (filter (\<lambda>e. start_ok (fst rg) (fst e)) es)"
    "rev (filter (in_range rg) es) = takeWhile (in_range rg) (rev (filter (\<lambda>e. end_ok (snd rg) (fst e)) es))"
proof -
  show "filter (in_range rg) es = takeWhile (in_range rg) (filter (\<lambda>e. start_ok (fst rg) (fst e)) es)"
    using assms
  proof (induction es)
    case (Cons e es)
    show ?case
    proof (cases "in_range rg e \<or> \<not> start_ok (fst rg) (fst e)")
      case True
      then show ?thesis
        using Cons by (auto simp: range_contains_def)
    next
      case False
      then have "\<not> end_ok (snd rg) (fst e)"
        by (auto simp: range_contains_def)
      then have "\<not> in_range rg x" if "x \<in> set es" for x
        using that Cons.prems end_ok_mono[of "snd rg" "fst x" "fst e"] by (force simp: range_contains_def)
      then show ?thesis
        using False by (simp add: filter_empty_conv)
    qed
  qed simp
  show "rev (filter (in_range rg) es) = takeWhile (in_range rg) (rev (filter (\<lambda>e. end_ok (snd rg) (fst e)) es))"
    using assms
  proof (induction es rule: rev_induct)
    case (snoc e es)
    have s: "sorted_keys es" "\<forall>x \<in> set es. fst x < fst e"
      using snoc.prems by (auto simp: sorted_wrt_append)
    show ?case
    proof (cases "in_range rg e \<or> \<not> end_ok (snd rg) (fst e)")
      case True
      then show ?thesis
        using snoc.IH[OF s(1)] by (auto simp: range_contains_def)
    next
      case False
      then have "\<not> start_ok (fst rg) (fst e)"
        by (auto simp: range_contains_def)
      then have "\<not> in_range rg x" if "x \<in> set es" for x
        using that s(2) start_ok_mono[of "fst rg" "fst x" "fst e"] by (force simp: range_contains_def)
      then show ?thesis
        using False by (simp add: filter_empty_conv)
    qed
  qed simp
qed

lemma bound_sides:
  assumes "b = Included key \<or> b = Excluded key"
  shows "all_below xs key \<Longrightarrow> filter (\<lambda>e. start_ok b (fst e)) xs = []" "all_above key xs \<Longrightarrow> filter (\<lambda>e. start_ok b (fst e)) xs = xs"
    "all_below xs key \<Longrightarrow> filter (\<lambda>e. end_ok b (fst e)) xs = xs" "all_above key xs \<Longrightarrow> filter (\<lambda>e. end_ok b (fst e)) xs = []"
  using assms by (induction xs) auto

section \<open>Positions in a node\<close>

text \<open>The entries of the subtree from an entry on, and those up to an entry.\<close>

definition from_entry :: "nat \<Rightarrow> 'k btree \<Rightarrow> 'k entry list" where
  "from_entry i t = (if tree_kids t = [] then drop i (tree_entries t) else after i (tree_entries t) (tree_kids t))"

definition up_to_entry :: "nat \<Rightarrow> 'k btree \<Rightarrow> 'k entry list" where
  "up_to_entry i t = (if tree_kids t = [] then take i (tree_entries t) else before i (tree_entries t) (tree_kids t))"

definition kid_entries :: "nat \<Rightarrow> 'k btree \<Rightarrow> 'k entry list" where
  "kid_entries i t = (if tree_kids t = [] then [] else inorder (tree_kids t ! i))"

lemma inorder_at:
  assumes "shape h t" "i \<le> length (tree_entries t)"
  shows "inorder t = up_to_entry i t @ kid_entries i t @ from_entry i t"
proof (cases "tree_kids t = []")
  case True
  then show ?thesis
    by (cases t) (simp add: up_to_entry_def kid_entries_def from_entry_def)
next
  case False
  then have "length (tree_kids t) = length (tree_entries t) + 1"
    using shape_entries(3)[OF assms(1)] by simp
  from inorder_child[OF this assms(2), of "tree_addr t"] False show ?thesis
    by (simp add: up_to_entry_def kid_entries_def from_entry_def)
qed

lemma from_entry_step:
  assumes "shape h t" "i < length (tree_entries t)"
  shows "from_entry i t = tree_entries t ! i # kid_entries (Suc i) t @ from_entry (Suc i) t"
proof (cases "tree_kids t = []")
  case False
  then have "length (tree_kids t) = length (tree_entries t) + 1"
    using shape_entries(3)[OF assms(1)] by simp
  then have "drop (Suc i) (tree_kids t) = tree_kids t ! Suc i # drop (Suc (Suc i)) (tree_kids t)"
    using assms(2) by (simp add: Cons_nth_drop_Suc)
  moreover have "drop i (tree_entries t) = tree_entries t ! i # drop (Suc i) (tree_entries t)"
    using assms(2) by (simp add: Cons_nth_drop_Suc)
  ultimately show ?thesis
    using False by (simp add: from_entry_def kid_entries_def after_def)
qed (use assms(2) in \<open>simp add: from_entry_def kid_entries_def Cons_nth_drop_Suc\<close>)

lemma up_to_entry_step:
  assumes "shape h t" "i < length (tree_entries t)"
  shows "up_to_entry (Suc i) t = up_to_entry i t @ kid_entries i t @ [tree_entries t ! i]"
proof (cases "tree_kids t = []")
  case False
  then have l: "length (tree_kids t) = length (tree_entries t) + 1"
    using shape_entries(3)[OF assms(1)] by simp
  then have "take (Suc i) (tree_kids t) = take i (tree_kids t) @ [tree_kids t ! i]"
    using assms(2) by (simp add: take_Suc_conv_app_nth)
  moreover have "take (Suc i) (tree_entries t) = take i (tree_entries t) @ [tree_entries t ! i]"
    using assms(2) by (simp add: take_Suc_conv_app_nth)
  ultimately show ?thesis
    using False l assms(2) by (simp add: up_to_entry_def kid_entries_def before_def pre_append)
qed (use assms(2) in \<open>simp add: up_to_entry_def kid_entries_def take_Suc_conv_app_nth\<close>)

lemma ends_empty [simp]:
  "shape h t \<Longrightarrow> from_entry (length (tree_entries t)) t = []" "up_to_entry 0 t = []"
  using shape_entries(3)[of h t] by (auto simp: from_entry_def up_to_entry_def after_def before_def)

text \<open>What the range keeps when its first or its last entry has been visited.\<close>

lemma advance_start:
  assumes "sorted_keys es" "filter (in_range rg) es = e # L"
  defines "rg' \<equiv> (Excluded (fst e), snd rg)"
  shows "in_range rg e" "filter (in_range rg') es = L" "takeWhile (in_range rg) ys = rev (e # L) \<Longrightarrow> takeWhile (in_range rg') ys = rev L"
    "takeWhile (in_range rg) xs = L \<Longrightarrow> takeWhile (in_range rg') xs = L" "e \<in> set es"
proof -
  have "e \<in> set (filter (in_range rg) es)"
    by (simp add: assms(2))
  then show e: "in_range rg e" "e \<in> set es"
    by simp_all
  from e(1) have rg': "in_range rg' = (\<lambda>x. in_range rg x \<and> fst e < fst x)"
    by (auto simp: rg'_def narrow_start)
  have s: "sorted_keys (e # L)"
    using assms(1) sorted_wrt_filter[of "\<lambda>x y. fst x < fst y" es "in_range rg"] by (simp add: assms(2))
  have "filter (in_range rg') es = filter (\<lambda>x. fst e < fst x) (filter (in_range rg) es)"
    unfolding rg' by (simp add: conj_commute)
  then show "filter (in_range rg') es = L"
    unfolding assms(2) using s by (simp add: filter_id_conv)
  show "takeWhile (in_range rg') ys = rev L" if "takeWhile (in_range rg) ys = rev (e # L)"
    unfolding rg' takeWhile_conj that using s by (simp add: takeWhile_upto)
  show "takeWhile (in_range rg') xs = L" if "takeWhile (in_range rg) xs = L"
    unfolding rg' takeWhile_conj that using s by (simp add: takeWhile_eq_all_conv)
qed

lemma advance_end:
  assumes "sorted_keys es" "filter (in_range rg) es = L @ [e]"
  defines "rg' \<equiv> (fst rg, Excluded (fst e))"
  shows "in_range rg e" "filter (in_range rg') es = L" "takeWhile (in_range rg) ys = L @ [e] \<Longrightarrow> takeWhile (in_range rg') ys = L"
    "takeWhile (in_range rg) xs = rev L \<Longrightarrow> takeWhile (in_range rg') xs = rev L" "e \<in> set es"
proof -
  have "e \<in> set (filter (in_range rg) es)"
    by (simp add: assms(2))
  then show e: "in_range rg e" "e \<in> set es"
    by simp_all
  from e(1) have rg': "in_range rg' = (\<lambda>x. in_range rg x \<and> fst x < fst e)"
    by (auto simp: rg'_def narrow_end)
  have s: "sorted_keys (L @ [e])"
    using assms(1) sorted_wrt_filter[of "\<lambda>x y. fst x < fst y" es "in_range rg"] by (simp add: assms(2))
  have "filter (in_range rg') es = filter (\<lambda>x. fst x < fst e) (filter (in_range rg) es)"
    unfolding rg' by (simp add: conj_commute)
  then show "filter (in_range rg') es = L"
    unfolding assms(2) using s by (simp add: filter_id_conv sorted_wrt_append)
  show "takeWhile (in_range rg') ys = L" if "takeWhile (in_range rg) ys = L @ [e]"
    unfolding rg' takeWhile_conj that using s by (simp add: sorted_wrt_append takeWhile_upto)
  show "takeWhile (in_range rg') xs = rev L" if "takeWhile (in_range rg) xs = rev L"
    unfolding rg' takeWhile_conj that using s by (simp add: takeWhile_eq_all_conv sorted_wrt_append)
qed

text \<open>An entry outside the range that is not before it has nothing of the range behind it.\<close>

lemma none_behind:
  assumes "sorted_keys (e # R @ R')" "\<not> in_range rg e" "start_ok (fst rg) (fst e)"
  shows "takeWhile (in_range rg) (A @ R') = takeWhile (in_range rg) (A @ (e # R) @ R')"
proof -
  have e: "\<not> end_ok (snd rg) (fst e)"
    using assms(2,3) by (simp add: range_contains_def)
  have "\<not> in_range rg x" if x: "x \<in> set ((e # R) @ R')" for x
  proof -
    have "fst e \<le> fst x"
      using x assms(1) by (auto simp: sorted_wrt_append dest: less_imp_le)
    then show ?thesis
      using e end_ok_mono[of "snd rg" "fst x" "fst e"] by (auto simp: range_contains_def)
  qed
  then show ?thesis
    using takeWhile_stop[of "(e # R) @ R'" "in_range rg" A] takeWhile_stop[of R' "in_range rg" A] by simp
qed

lemma none_before:
  assumes "sorted_keys (R' @ R @ [e])" "\<not> in_range rg e" "end_ok (snd rg) (fst e)"
  shows "takeWhile (in_range rg) (A @ rev R') = takeWhile (in_range rg) (A @ rev (R @ [e]) @ rev R')"
proof -
  have e: "\<not> start_ok (fst rg) (fst e)"
    using assms(2,3) by (simp add: range_contains_def)
  have "\<not> in_range rg x" if x: "x \<in> set (R' @ R @ [e])" for x
  proof -
    have "fst x \<le> fst e"
      using x assms(1) by (auto simp: sorted_wrt_append dest: less_imp_le)
    then show ?thesis
      using e start_ok_mono[of "fst rg" "fst x" "fst e"] by (auto simp: range_contains_def)
  qed
  then show ?thesis
    using takeWhile_stop[of "rev (R @ [e]) @ rev R'" "in_range rg" A] takeWhile_stop[of "rev R'" "in_range rg" A] by (simp add: ball_Un)
qed

section \<open>Nodes\<close>

context btree_store
begin

definition subtree :: "node_heap \<Rightarrow> nat \<Rightarrow> 'k btree \<Rightarrow> bool" where
  "subtree W h t \<longleftrightarrow> tree_at W t \<and> shape h t \<and> content (inorder t)"

lemma subtreeD:
  assumes "subtree W h t"
  shows "tree_at W t" "shape h t" "sorted_keys (inorder t)" "sorted_keys (tree_entries t)" "tree_entries t \<noteq> []" "stored W (tree_addr t) (anode_of t)"
proof -
  show t: "tree_at W t" "shape h t" "sorted_keys (inorder t)" "tree_entries t \<noteq> []" "stored W (tree_addr t) (anode_of t)"
    using assms tree_at_root[of W t] shape_entries(1)[of h t] by (auto simp: subtree_def content_def)
  show "sorted_keys (tree_entries t)"
    using sorted_weave[of "map inorder (tree_kids t)" "tree_entries t"] t(3) shape_entries(3)[OF t(2)] by (cases t) auto
qed

lemma subtree_kid:
  assumes "subtree W h t" "tree_kids t \<noteq> []" "i \<le> length (tree_entries t)"
  shows "\<exists>h'. h = Suc h' \<and> subtree W h' (tree_kids t ! i)" "i < length (tree_kids t)" "kid_entries i t = inorder (tree_kids t ! i)"
proof -
  note t = subtreeD[OF assms(1)]
  show i: "i < length (tree_kids t)"
    using shape_entries(3)[OF t(2)] assms(2,3) by simp
  show k: "kid_entries i t = inorder (tree_kids t ! i)"
    using assms(2) by (simp add: kid_entries_def)
  obtain h' where h: "h = Suc h'"
    using shape_entries(4)[OF t(2)] assms(2) by (cases h) auto
  have "tree_at W (tree_kids t ! i)" "shape h' (tree_kids t ! i)"
    using t(1,2) i h by (cases t; auto simp: nth_mem)+
  moreover have "content (inorder (tree_kids t ! i))"
    using assms(1) content_part[of "up_to_entry i t" "kid_entries i t" "from_entry i t"] inorder_at[OF t(2) assms(3)] k by (simp add: subtree_def)
  ultimately show "\<exists>h'. h = Suc h' \<and> subtree W h' (tree_kids t ! i)"
    using h by (simp add: subtree_def)
qed

lemma node_of_tree:
  assumes "node_is W n (anode_of t)" "subtree W h t"
  shows "entries_len n = length (tree_entries t)" "nd_node_type n = Leaf \<longleftrightarrow> tree_kids t = []" "nd_node_type n = Internal \<longleftrightarrow> tree_kids t \<noteq> []"
    "tree_kids t \<noteq> [] \<Longrightarrow> i \<le> length (tree_entries t) \<Longrightarrow> node_child n i = Some (tree_addr (tree_kids t ! i))"
    "tree_kids t \<noteq> [] \<Longrightarrow> children_len n = Suc (length (tree_entries t))"
proof -
  show "entries_len n = length (tree_entries t)"
    using node_is_length[OF assms(1)] by (simp add: entries_len_def)
  show "nd_node_type n = Leaf \<longleftrightarrow> tree_kids t = []" "nd_node_type n = Internal \<longleftrightarrow> tree_kids t \<noteq> []"
    using assms(1) by (auto simp: node_is_def)
  have c: "nd_children n = map tree_addr (tree_kids t)"
    using assms(1) by (simp add: node_is_def)
  show "node_child n i = Some (tree_addr (tree_kids t ! i))" if "tree_kids t \<noteq> []" "i \<le> length (tree_entries t)"
    using subtree_kid(2)[OF assms(2) that] by (simp add: node_child_def c)
  show "children_len n = Suc (length (tree_entries t))" if "tree_kids t \<noteq> []"
    using shape_entries(3)[OF subtreeD(2)[OF assms(2)]] that by (simp add: children_len_def c)
qed

lemma bt_node_key:
  assumes m: "synced m root len W r" and n: "node_is W n an" "i < length (an_entries an)"
  shows "ok (node_key K M n i (bt_memory m)) (\<lambda>(k, n', s). k = fst (an_entries an ! i) \<and> synced (bt_with_memory m s) root len W r \<and> node_is W n' an)"
proof -
  have "ok (node_key K M n i (al_memory a)) (\<lambda>(k, n', s). k = fst (an_entries an ! i) \<and> nodes (a\<lparr>al_memory := s\<rparr>) h W r \<and> node_is W n' an)"
    if "nodes a h W r" for a h
    using node_key_ok[OF nodesD(3)[OF that] node_isD[OF n(1)] n(2)]
    by (rule ok_mono) (auto intro: nodes_upd[OF that] node_is_more[OF n(1)])
  then show ?thesis
    unfolding bt_memory_def by (rule synced_mem[OF m]) auto
qed

lemma bt_node_value:
  assumes m: "synced m root len W r" and n: "node_is W n an" "i < length (an_entries an)"
  shows "ok (node_value M n i (bt_memory m)) (\<lambda>(v, n', s). v = snd (an_entries an ! i) \<and> synced (bt_with_memory m s) root len W r \<and> node_is W n' an)"
proof -
  have "ok (node_value M n i (al_memory a)) (\<lambda>(v, n', s). v = snd (an_entries an ! i) \<and> nodes (a\<lparr>al_memory := s\<rparr>) h W r \<and> node_is W n' an)"
    if "nodes a h W r" for a h
    using node_value_ok[OF nodesD(3)[OF that] node_isD[OF n(1)] n(2)]
    by (rule ok_mono) (auto intro: nodes_upd[OF that] node_is_more[OF n(1)])
  then show ?thesis
    unfolding bt_memory_def by (rule synced_mem[OF m]) auto
qed

lemma key_in_range_ok:
  assumes m: "synced (it_map it) root len W r" and n: "node_is W n an" "i < length (an_entries an)"
  shows "ok (key_in_range K M it n i) (\<lambda>(b, n', it'). b = in_range (it_range it) (an_entries an ! i) \<and> node_is W n' an \<and>
    (\<exists>m'. it' = it\<lparr>it_map := m'\<rparr> \<and> synced m' root len W r))"
  using bt_node_key[OF assms] unfolding key_in_range_def by (auto elim!: ok_mono)

section \<open>The entries that a stack of cursors leads to\<close>

definition forward_at :: "node_heap \<Rightarrow> 'k cursor \<Rightarrow> 'k entry list \<Rightarrow> bool" where
  "forward_at W c S \<longleftrightarrow> (case c of
       AddressCursor x \<Rightarrow> x = NULL \<and> S = [] \<or> (\<exists>t h. subtree W h t \<and> tree_addr t = x \<and> S = inorder t)
     | NodeCursor n next \<Rightarrow> (\<exists>t h. subtree W h t \<and> node_is W n (anode_of t) \<and> (case next of
           AtEntry i \<Rightarrow> i < length (tree_entries t) \<and> S = from_entry i t
         | AtChild i \<Rightarrow> i \<le> length (tree_entries t) \<and> tree_kids t \<noteq> [] \<and> S = kid_entries i t @ from_entry i t)))"

fun forward_stack :: "node_heap \<Rightarrow> 'k cursor list \<Rightarrow> 'k entry list \<Rightarrow> bool" where
  "forward_stack W [] S \<longleftrightarrow> S = []"
| "forward_stack W (c # cs) S \<longleftrightarrow> (\<exists>A B. S = A @ B \<and> forward_at W c A \<and> forward_stack W cs B)"

definition backward_at :: "node_heap \<Rightarrow> 'k cursor \<Rightarrow> 'k entry list \<Rightarrow> bool" where
  "backward_at W c S \<longleftrightarrow> (case c of
       AddressCursor x \<Rightarrow> x = NULL \<and> S = [] \<or> (\<exists>t h. subtree W h t \<and> tree_addr t = x \<and> S = rev (inorder t))
     | NodeCursor n next \<Rightarrow> (\<exists>t h. subtree W h t \<and> node_is W n (anode_of t) \<and> (case next of
           AtEntry i \<Rightarrow> i < length (tree_entries t) \<and> S = rev (up_to_entry (Suc i) t)
         | AtChild i \<Rightarrow> i \<le> length (tree_entries t) \<and> tree_kids t \<noteq> [] \<and> S = rev (up_to_entry i t @ kid_entries i t))))"

fun backward_stack :: "node_heap \<Rightarrow> 'k cursor list \<Rightarrow> 'k entry list \<Rightarrow> bool" where
  "backward_stack W [] S \<longleftrightarrow> S = []"
| "backward_stack W (c # cs) S \<longleftrightarrow> (\<exists>A B. S = A @ B \<and> backward_at W c A \<and> backward_stack W cs B)"

lemma forward_push: "forward_at W c A \<Longrightarrow> forward_stack W cs B \<Longrightarrow> forward_stack W (c # cs) (A @ B)"
  by auto

lemma forward_at_cases:
  assumes "forward_at W c S"
  obtains (null) "c = AddressCursor NULL" "S = []" | (addr) h t where "c = AddressCursor (tree_addr t)" "subtree W h t" "S = inorder t"
  | (entry) n i h t where "c = NodeCursor n (AtEntry i)" "subtree W h t" "node_is W n (anode_of t)" "i < length (tree_entries t)" "S = from_entry i t"
  | (child) n i h t where "c = NodeCursor n (AtChild i)" "subtree W h t" "node_is W n (anode_of t)" "i \<le> length (tree_entries t)" "tree_kids t \<noteq> []"
      "S = kid_entries i t @ from_entry i t"
proof (cases c)
  case (AddressCursor x)
  then show thesis
    using assms null addr by (auto simp: forward_at_def)
next
  case (NodeCursor n nx)
  then show thesis
    using assms entry child by (cases nx) (auto simp: forward_at_def)
qed

lemma forward_at_entry: "subtree W h t \<Longrightarrow> node_is W n (anode_of t) \<Longrightarrow> i < length (tree_entries t) \<Longrightarrow> forward_at W (NodeCursor n (AtEntry i)) (from_entry i t)"
  by (auto simp: forward_at_def)

lemma forward_at_kid:
  "subtree W h t \<Longrightarrow> tree_kids t \<noteq> [] \<Longrightarrow> i \<le> length (tree_entries t) \<Longrightarrow> forward_at W (AddressCursor (tree_addr (tree_kids t ! i))) (kid_entries i t)"
  using subtree_kid[of W h t i] by (auto simp: forward_at_def)

lemma backward_push: "backward_at W c A \<Longrightarrow> backward_stack W cs B \<Longrightarrow> backward_stack W (c # cs) (A @ B)"
  by auto

lemma backward_at_cases:
  assumes "backward_at W c S"
  obtains (null) "c = AddressCursor NULL" "S = []" | (addr) h t where "c = AddressCursor (tree_addr t)" "subtree W h t" "S = rev (inorder t)"
  | (entry) n i h t where "c = NodeCursor n (AtEntry i)" "subtree W h t" "node_is W n (anode_of t)" "i < length (tree_entries t)" "S = rev (up_to_entry (Suc i) t)"
  | (child) n i h t where "c = NodeCursor n (AtChild i)" "subtree W h t" "node_is W n (anode_of t)" "i \<le> length (tree_entries t)" "tree_kids t \<noteq> []"
      "S = rev (kid_entries i t) @ rev (up_to_entry i t)"
proof (cases c)
  case (AddressCursor x)
  then show thesis
    using assms null addr by (auto simp: backward_at_def)
next
  case (NodeCursor n nx)
  then show thesis
    using assms entry child by (cases nx) (auto simp: backward_at_def)
qed

lemma backward_at_entry:
  "subtree W h t \<Longrightarrow> node_is W n (anode_of t) \<Longrightarrow> i < length (tree_entries t) \<Longrightarrow> backward_at W (NodeCursor n (AtEntry i)) (rev (up_to_entry (Suc i) t))"
  by (auto simp: backward_at_def)

lemma backward_at_kid:
  "subtree W h t \<Longrightarrow> tree_kids t \<noteq> [] \<Longrightarrow> i \<le> length (tree_entries t) \<Longrightarrow> backward_at W (AddressCursor (tree_addr (tree_kids t ! i))) (rev (kid_entries i t))"
  using subtree_kid[of W h t i] by (auto simp: backward_at_def)

lemma return_forward_ok:
  assumes m: "synced (it_map it) root len W r" and t: "subtree W h t" and n: "node_is W n (anode_of t)" and i: "i \<le> length (tree_entries t)"
    and lo: "i < length (tree_entries t) \<Longrightarrow> start_ok (fst (it_range it)) (fst (tree_entries t ! i))"
    and R: "forward_stack W (it_forward it) R" "sorted_keys (from_entry i t @ R)"
  shows "ok (return_forward K M it n i) (\<lambda>it'. \<exists>m' cs R'. it' = it\<lparr>it_map := m', it_forward := cs\<rparr> \<and> synced m' root len W r \<and>
    forward_stack W cs R' \<and> (R' = R \<or> R' = from_entry i t @ R) \<and>
    (\<forall>A. takeWhile (in_range (it_range it)) (A @ R') = takeWhile (in_range (it_range it)) (A @ from_entry i t @ R)))"
proof (cases "i < length (tree_entries t)")
  case False
  then have "from_entry i t = []"
    using i subtreeD(2)[OF t] by simp
  then show ?thesis
    using False m R by (auto simp: return_forward_def node_of_tree[OF n t] intro!: exI[of _ "it_map it"] exI[of _ "it_forward it"])
next
  case True
  let ?P = "in_range (it_range it)" and ?e = "tree_entries t ! i"
  note step = from_entry_step[OF subtreeD(2)[OF t] True]
  from key_in_range_ok[OF m n, of i] True obtain n' m' where
    k: "key_in_range K M it n i = Some (?P ?e, n', it\<lparr>it_map := m'\<rparr>)" "node_is W n' (anode_of t)" "synced m' root len W r"
    by (auto elim!: ok_obtain)
  show ?thesis
  proof (cases "?P ?e")
    case True
    have "return_forward K M it n i = Some (it\<lparr>it_map := m', it_forward := NodeCursor n' (AtEntry i) # it_forward it\<rparr>)"
      using True k(1) \<open>i < _\<close> by (simp add: return_forward_def node_of_tree[OF n t] push_forward_def)
    then show ?thesis
      using forward_push[OF forward_at_entry[OF t k(2) \<open>i < _\<close>] R(1)] k(3) by (auto simp del: forward_stack.simps)
  next
    case False
    have "return_forward K M it n i = Some (it\<lparr>it_map := m', it_forward := it_forward it\<rparr>)"
      using False k(1) \<open>i < _\<close> by (simp add: return_forward_def node_of_tree[OF n t])
    moreover have "takeWhile ?P (A @ R) = takeWhile ?P (A @ from_entry i t @ R)" for A
      unfolding step using R(2) lo[OF \<open>i < _\<close>] False by (intro none_behind) (simp_all add: step)
    ultimately show ?thesis
      using k(3) R(1) by (auto intro!: exI[of _ m'] exI[of _ "it_forward it"])
  qed
qed

lemma return_backward_ok:
  assumes m: "synced (it_map it) root len W r" and t: "subtree W h t" and n: "node_is W n (anode_of t)" and i: "i \<le> length (tree_entries t)"
    and hi: "0 < i \<Longrightarrow> end_ok (snd (it_range it)) (fst (tree_entries t ! (i - 1)))"
    and R: "backward_stack W (it_backward it) R" "sorted_keys (rev R @ up_to_entry i t)"
  shows "ok (return_backward K M it n i) (\<lambda>it'. \<exists>m' cs R'. it' = it\<lparr>it_map := m', it_backward := cs\<rparr> \<and> synced m' root len W r \<and>
    backward_stack W cs R' \<and> (R' = R \<or> R' = rev (up_to_entry i t) @ R) \<and>
    (\<forall>A. takeWhile (in_range (it_range it)) (A @ R') = takeWhile (in_range (it_range it)) (A @ rev (up_to_entry i t) @ R)))"
proof (cases i)
  case 0
  then show ?thesis
    using m R by (auto simp: return_backward_def intro!: exI[of _ "it_map it"] exI[of _ "it_backward it"])
next
  case (Suc j)
  let ?P = "in_range (it_range it)" and ?e = "tree_entries t ! j"
  have j: "j < length (tree_entries t)"
    using i Suc by simp
  note step = up_to_entry_step[OF subtreeD(2)[OF t] j]
  from key_in_range_ok[OF m n, of j] j obtain n' m' where
    k: "key_in_range K M it n j = Some (?P ?e, n', it\<lparr>it_map := m'\<rparr>)" "node_is W n' (anode_of t)" "synced m' root len W r"
    by (auto elim!: ok_obtain)
  show ?thesis
  proof (cases "?P ?e")
    case True
    have "return_backward K M it n i = Some (it\<lparr>it_map := m', it_backward := NodeCursor n' (AtEntry j) # it_backward it\<rparr>)"
      using True k(1) Suc by (simp add: return_backward_def push_backward_def)
    then show ?thesis
      using backward_push[OF backward_at_entry[OF t k(2) j] R(1)] k(3) Suc by (auto simp del: backward_stack.simps)
  next
    case False
    have "return_backward K M it n i = Some (it\<lparr>it_map := m', it_backward := it_backward it\<rparr>)"
      using False k(1) Suc by (simp add: return_backward_def)
    moreover have "takeWhile ?P (A @ R) = takeWhile ?P (A @ rev (up_to_entry i t) @ R)" for A
      using none_before[of "rev R" "up_to_entry j t @ kid_entries j t" ?e "it_range it" A] R(2) hi False unfolding Suc step by simp
    ultimately show ?thesis
      using k(3) R(1) by (auto intro!: exI[of _ m'] exI[of _ "it_backward it"])
  qed
qed

text \<open>The entries that are not before the bound, by the position of the bound in the node.\<close>

lemma filter_start_kid:
  assumes t: "subtree W h t" and f: "found_at (map fst (tree_entries t)) key (Inl i)" and b: "b = Included key \<or> b = Excluded key"
  shows "filter (\<lambda>e. start_ok b (fst e)) (inorder t) = filter (\<lambda>e. start_ok b (fst e)) (kid_entries i t) @ from_entry i t"
    "i < length (tree_entries t) \<Longrightarrow> start_ok b (fst (tree_entries t ! i))"
    "filter (\<lambda>e. end_ok b (fst e)) (inorder t) = up_to_entry i t @ filter (\<lambda>e. end_ok b (fst e)) (kid_entries i t)"
    "0 < i \<Longrightarrow> end_ok b (fst (tree_entries t ! (i - 1)))"
proof -
  note d = subtreeD[OF t] and fb = found_between[OF f]
  have io: "inorder t = up_to_entry i t @ kid_entries i t @ from_entry i t"
    by (rule inorder_at[OF d(2) fb(1)])
  have so: "all_below (up_to_entry i t) key" "all_above key (from_entry i t)"
  proof -
    have "all_below (up_to_entry i t) key \<and> all_above key (from_entry i t)"
    proof (cases "tree_kids t = []")
      case False
      then have "length (tree_kids t) = length (tree_entries t) + 1"
        using shape_entries(3)[OF d(2)] by simp
      from between_child[OF _ this f, of "tree_addr t"] d(3) False show ?thesis
        by (simp add: up_to_entry_def from_entry_def)
    qed (use fb in \<open>simp add: up_to_entry_def from_entry_def\<close>)
    then show "all_below (up_to_entry i t) key" "all_above key (from_entry i t)"
      by blast+
  qed
  show "filter (\<lambda>e. start_ok b (fst e)) (inorder t) = filter (\<lambda>e. start_ok b (fst e)) (kid_entries i t) @ from_entry i t"
    "filter (\<lambda>e. end_ok b (fst e)) (inorder t) = up_to_entry i t @ filter (\<lambda>e. end_ok b (fst e)) (kid_entries i t)"
    unfolding io using so by (simp_all add: bound_sides[OF b])
  show "i < length (tree_entries t) \<Longrightarrow> start_ok b (fst (tree_entries t ! i))" "0 < i \<Longrightarrow> end_ok b (fst (tree_entries t ! (i - 1)))"
    using f b by (auto simp: found_at_def less_imp_le)
qed

lemma filter_start_entry:
  assumes t: "subtree W h t" and f: "found_at (map fst (tree_entries t)) key (Inr i)"
  shows "i < length (tree_entries t)" "fst (tree_entries t ! i) = key"
    "filter (\<lambda>e. start_ok (Included key) (fst e)) (inorder t) = from_entry i t"
    "filter (\<lambda>e. start_ok (Excluded key) (fst e)) (inorder t) = kid_entries (Suc i) t @ from_entry (Suc i) t"
    "filter (\<lambda>e. end_ok (Included key) (fst e)) (inorder t) = up_to_entry (Suc i) t"
    "filter (\<lambda>e. end_ok (Excluded key) (fst e)) (inorder t) = up_to_entry i t @ kid_entries i t"
proof -
  note d = subtreeD[OF t]
  show i: "i < length (tree_entries t)" "fst (tree_entries t ! i) = key"
    using f by (auto simp: found_at_def)
  have io: "inorder t = (up_to_entry i t @ kid_entries i t) @ tree_entries t ! i # kid_entries (Suc i) t @ from_entry (Suc i) t"
    using inorder_at[OF d(2), of i] from_entry_step[OF d(2) i(1)] i(1) by simp
  have so: "all_below (up_to_entry i t @ kid_entries i t) key" "all_above key (kid_entries (Suc i) t @ from_entry (Suc i) t)"
    using d(3) i(2) unfolding io by (auto simp: sorted_wrt_append all_below_def all_above_def)
  show "filter (\<lambda>e. start_ok (Included key) (fst e)) (inorder t) = from_entry i t"
    "filter (\<lambda>e. start_ok (Excluded key) (fst e)) (inorder t) = kid_entries (Suc i) t @ from_entry (Suc i) t"
    "filter (\<lambda>e. end_ok (Included key) (fst e)) (inorder t) = up_to_entry (Suc i) t"
    "filter (\<lambda>e. end_ok (Excluded key) (fst e)) (inorder t) = up_to_entry i t @ kid_entries i t"
    unfolding io from_entry_step[OF d(2) i(1)] up_to_entry_step[OF d(2) i(1)] using so i
    by (simp_all add: bound_sides[of "Included key" key] bound_sides[of "Excluded key" key] del: start_ok.simps end_ok.simps) simp_all
qed

section \<open>Initialising the cursors\<close>

text \<open>The node that has the bound as one of its keys.\<close>

lemma found_forward_ok:
  assumes m: "synced (it_map it) root len W r" and t: "subtree W h t" and n: "node_is W n (anode_of t)"
    and b: "fst (it_range it) = Included key \<or> fst (it_range it) = Excluded key" and fd: "found_at (map fst (tree_entries t)) key (Inr i)"
    and R: "forward_stack W (it_forward it) R" "sorted_keys (inorder t @ R)"
  shows "ok (found_forward K M it n i) (\<lambda>it'. \<exists>m' cs S. it' = it\<lparr>it_map := m', it_forward := cs\<rparr> \<and> synced m' root len W r \<and>
    forward_stack W cs S \<and> sorted_keys S \<and>
    takeWhile (in_range (it_range it)) S = takeWhile (in_range (it_range it)) (filter (\<lambda>e. start_ok (fst (it_range it)) (fst e)) (inorder t) @ R))"
proof -
  let ?P = "in_range (it_range it)" and ?b = "fst (it_range it)" and ?es = "tree_entries t"
  note d = subtreeD[OF t] and f = filter_start_entry[OF t fd] and n' = node_of_tree[OF n t]
  have io: "inorder t = up_to_entry i t @ kid_entries i t @ from_entry i t" "from_entry i t = ?es ! i # kid_entries (Suc i) t @ from_entry (Suc i) t"
    using inorder_at[OF d(2), of i] f(1) from_entry_step[OF d(2) f(1)] by simp_all
  have so: "sorted_keys (from_entry i t @ R)" "sorted_keys (kid_entries (Suc i) t @ from_entry (Suc i) t @ R)" "sorted_keys (from_entry (Suc i) t @ R)"
    using R(2) unfolding io by (simp_all add: sorted_wrt_append)
  show ?thesis
  proof (cases "?b = Included key")
    case True
    then have "found_forward K M it n i = Some (it\<lparr>it_map := it_map it, it_forward := NodeCursor n (AtEntry i) # it_forward it\<rparr>)"
      by (simp add: found_forward_def push_forward_def)
    then show ?thesis
      using m so(1) forward_push[OF forward_at_entry[OF t n f(1)] R(1)] True f(3)
      by (auto simp del: forward_stack.simps intro!: exI[of _ "it_map it"] exI[of _ "NodeCursor n (AtEntry i) # it_forward it"])
  next
    case False
    then have b': "?b = Excluded key"
      using b by simp
    have "start_ok ?b (fst (?es ! Suc i))" if "Suc i < length ?es"
      using sorted_wrt_nth_less[OF d(4), of i "Suc i"] that f(2) b' by simp
    from return_forward_ok[OF m t n _ this R(1) so(3)] f(1) obtain m2 cs R' where
      2: "return_forward K M it n (Suc i) = Some (it\<lparr>it_map := m2, it_forward := cs\<rparr>)" "synced m2 root len W r"
        "forward_stack W cs R'" "R' = R \<or> R' = from_entry (Suc i) t @ R" "\<And>A. takeWhile ?P (A @ R') = takeWhile ?P (A @ from_entry (Suc i) t @ R)"
      by (auto elim!: ok_obtain)
    let ?cs = "if tree_kids t = [] then cs else AddressCursor (tree_addr (tree_kids t ! Suc i)) # cs"
    have run: "found_forward K M it n i = Some (it\<lparr>it_map := m2, it_forward := ?cs\<rparr>)"
      using b' 2(1) n'(2,3) n'(4)[of "Suc i"] f(1) by (cases "nd_node_type n") (simp_all add: found_forward_def opt_child_def push_forward_def)
    have "forward_stack W ?cs (kid_entries (Suc i) t @ R')"
      using 2(3) f(1) forward_push[OF forward_at_kid[OF t] 2(3), of "Suc i"] by (simp add: kid_entries_def del: forward_stack.simps)
    then show ?thesis
      unfolding run ok_Some using 2(2) sorted_skip[OF so(2) 2(4)] 2(5)[of "kid_entries (Suc i) t"] f(4) b'
      by (intro exI[of _ m2] exI[of _ ?cs] exI[of _ "kid_entries (Suc i) t @ R'"] conjI refl) simp_all
  qed
qed

text \<open>The cursors at the start of the range: the stack leads to the entries of the subtree that are not before the bound, and the rest.\<close>

lemma seek_forward_ok:
  assumes "synced (it_map it) root len W r" "subtree W h t" "node_is W n (anode_of t)" "fst (it_range it) = Included key \<or> fst (it_range it) = Excluded key"
    "forward_stack W (it_forward it) R" "sorted_keys (inorder t @ R)"
  shows "ok (seek_forward K M it key n) (\<lambda>it'. \<exists>m' cs S. it' = it\<lparr>it_map := m', it_forward := cs\<rparr> \<and> synced m' root len W r \<and>
    forward_stack W cs S \<and> sorted_keys S \<and>
    takeWhile (in_range (it_range it)) S = takeWhile (in_range (it_range it)) (filter (\<lambda>e. start_ok (fst (it_range it)) (fst e)) (inorder t) @ R))"
  using assms
proof (induction h arbitrary: it t n R rule: less_induct)
  case (less h)
  let ?P = "in_range (it_range it)"
  note t = less.prems(2) and b = less.prems(4)
  note d = subtreeD[OF t]
  from search_node_ok[OF less.prems(1,3), of key] d(4) obtain res n1 m1 where
    1: "search_node K M (it_map it) n key = Some (res, n1, m1)" "synced m1 root len W r" "node_is W n1 (anode_of t)" "found_at (map fst (tree_entries t)) key res"
    by (auto elim!: ok_obtain)
  note n1 = node_of_tree[OF 1(3) t]
  show ?case
  proof (cases res)
    case (Inr i)
    have "seek_forward K M it key n = found_forward K M (it\<lparr>it_map := m1\<rparr>) n1 i"
      using 1(1) Inr by (subst seek_forward.simps) simp
    then show ?thesis
      using found_forward_ok[of "it\<lparr>it_map := m1\<rparr>" root len W r h t n1 key i R] 1 Inr t b less.prems(5,6) by (simp del: forward_stack.simps)
  next
    case (Inl i)
    note f = filter_start_kid[OF t 1(4)[unfolded Inl] b] and i = found_between(1)[OF 1(4)[unfolded Inl]]
    have so: "sorted_keys (kid_entries i t @ from_entry i t @ R)" "sorted_keys (from_entry i t @ R)"
      using less.prems(6) unfolding inorder_at[OF d(2) i] by (simp_all add: sorted_wrt_append)
    have ret: "\<exists>m' cs R'. return_forward K M (it\<lparr>it_map := m2\<rparr>) n1 i = Some (it\<lparr>it_map := m', it_forward := cs\<rparr>) \<and> synced m' root len W r \<and>
        forward_stack W cs R' \<and> (R' = R \<or> R' = from_entry i t @ R) \<and> (\<forall>A. takeWhile ?P (A @ R') = takeWhile ?P (A @ from_entry i t @ R))"
      if "synced m2 root len W r" for m2
      using return_forward_ok[of "it\<lparr>it_map := m2\<rparr>" root len W r h t n1 i R] that 1(3) t f(2) i less.prems(5) so(2) by (auto elim!: ok_obtain)
    show ?thesis
    proof (cases "tree_kids t = []")
      case True
      obtain m2 cs R' where 2: "return_forward K M (it\<lparr>it_map := m1\<rparr>) n1 i = Some (it\<lparr>it_map := m2, it_forward := cs\<rparr>)" "synced m2 root len W r"
          "forward_stack W cs R'" "R' = R \<or> R' = from_entry i t @ R" "\<And>A. takeWhile ?P (A @ R') = takeWhile ?P (A @ from_entry i t @ R)"
        using ret[OF 1(2)] by blast
      have "seek_forward K M it key n = Some (it\<lparr>it_map := m2, it_forward := cs\<rparr>)" "kid_entries i t = []"
        using 1(1) Inl 2(1) n1(2) True by (subst seek_forward.simps, simp_all add: kid_entries_def)
      then show ?thesis
        using 2(2,3) 2(5)[of "[]"] sorted_skip[of "[]", OF _ 2(4)] so(2) f(1) by auto
    next
      case False
      obtain h' where kid: "h = Suc h'" "subtree W h' (tree_kids t ! i)" "kid_entries i t = inorder (tree_kids t ! i)"
        using subtree_kid[OF t False i] by blast
      from load_node_ok[OF 1(2) subtreeD(6)[OF kid(2)]] obtain c m2 where
        2: "load_node K M m1 (tree_addr (tree_kids t ! i)) = Some (c, m2)" "synced m2 root len W r" "node_is W c (anode_of (tree_kids t ! i))"
        by (auto elim!: ok_obtain)
      obtain m3 cs R' where 3: "return_forward K M (it\<lparr>it_map := m2\<rparr>) n1 i = Some (it\<lparr>it_map := m3, it_forward := cs\<rparr>)" "synced m3 root len W r"
          "forward_stack W cs R'" "R' = R \<or> R' = from_entry i t @ R" "\<And>A. takeWhile ?P (A @ R') = takeWhile ?P (A @ from_entry i t @ R)"
        using ret[OF 2(2)] by blast
      have run: "seek_forward K M it key n = seek_forward K M (it\<lparr>it_map := m3, it_forward := cs\<rparr>) key c"
        using 1(1) Inl 2(1) 3(1) n1(3) n1(4)[OF False i] False by (subst seek_forward.simps) simp
      from less.IH[of h' "it\<lparr>it_map := m3, it_forward := cs\<rparr>" "tree_kids t ! i" c R'] kid(1,2) 2(3) 3(2,3) b sorted_skip[OF so(1) 3(4)] show ?thesis
        unfolding run f(1) kid(3) using 3(5) by (auto elim!: ok_mono)
    qed
  qed
qed

lemma found_backward_ok:
  assumes m: "synced (it_map it) root len W r" and t: "subtree W h t" and n: "node_is W n (anode_of t)"
    and b: "snd (it_range it) = Included key \<or> snd (it_range it) = Excluded key" and fd: "found_at (map fst (tree_entries t)) key (Inr i)"
    and R: "backward_stack W (it_backward it) R" "sorted_keys (rev R @ inorder t)"
  shows "ok (found_backward K M it n i) (\<lambda>it'. \<exists>m' cs S. it' = it\<lparr>it_map := m', it_backward := cs\<rparr> \<and> synced m' root len W r \<and>
    backward_stack W cs S \<and> sorted_keys (rev S) \<and>
    takeWhile (in_range (it_range it)) S = takeWhile (in_range (it_range it)) (rev (filter (\<lambda>e. end_ok (snd (it_range it)) (fst e)) (inorder t)) @ R))"
proof -
  let ?P = "in_range (it_range it)" and ?b = "snd (it_range it)" and ?es = "tree_entries t"
  note d = subtreeD[OF t] and f = filter_start_entry[OF t fd] and n' = node_of_tree[OF n t]
  have io: "inorder t = up_to_entry (Suc i) t @ kid_entries (Suc i) t @ from_entry (Suc i) t" "up_to_entry (Suc i) t = up_to_entry i t @ kid_entries i t @ [?es ! i]"
    using inorder_at[OF d(2), of "Suc i"] f(1) up_to_entry_step[OF d(2) f(1)] by simp_all
  have so: "sorted_keys (rev R @ up_to_entry (Suc i) t)" "sorted_keys (rev R @ up_to_entry i t @ kid_entries i t)" "sorted_keys (rev R @ up_to_entry i t)"
    using R(2) unfolding io by (simp_all add: sorted_wrt_append ball_Un)
  show ?thesis
  proof (cases "?b = Included key")
    case True
    then have "found_backward K M it n i = Some (it\<lparr>it_map := it_map it, it_backward := NodeCursor n (AtEntry i) # it_backward it\<rparr>)"
      by (simp add: found_backward_def push_backward_def)
    then show ?thesis
      using m so(1) backward_push[OF backward_at_entry[OF t n f(1)] R(1)] True f(5)
      by (auto simp del: backward_stack.simps intro!: exI[of _ "it_map it"] exI[of _ "NodeCursor n (AtEntry i) # it_backward it"])
  next
    case False
    then have b': "?b = Excluded key"
      using b by simp
    have "end_ok ?b (fst (?es ! (i - 1)))" if "0 < i"
      using sorted_wrt_nth_less[OF d(4), of "i - 1" i] that f(1,2) b' by simp
    from return_backward_ok[OF m t n _ this R(1) so(3)] f(1) obtain m2 cs R' where
      2: "return_backward K M it n i = Some (it\<lparr>it_map := m2, it_backward := cs\<rparr>)" "synced m2 root len W r"
        "backward_stack W cs R'" "R' = R \<or> R' = rev (up_to_entry i t) @ R" "\<And>A. takeWhile ?P (A @ R') = takeWhile ?P (A @ rev (up_to_entry i t) @ R)"
      by (auto elim!: ok_obtain)
    let ?cs = "if tree_kids t = [] then cs else AddressCursor (tree_addr (tree_kids t ! i)) # cs"
    have run: "found_backward K M it n i = Some (it\<lparr>it_map := m2, it_backward := ?cs\<rparr>)"
      using b' 2(1) n'(2,3) n'(4)[of i] f(1) by (cases "nd_node_type n") (simp_all add: found_backward_def opt_child_def push_backward_def)
    have "backward_stack W ?cs (rev (kid_entries i t) @ R')"
      using 2(3) f(1) backward_push[OF backward_at_kid[OF t] 2(3), of i] by (simp add: kid_entries_def del: backward_stack.simps)
    then show ?thesis
      unfolding run ok_Some using 2(2) sorted_skip_rev[OF so(2) 2(4)] 2(5)[of "rev (kid_entries i t)"] f(6) b'
      by (intro exI[of _ m2] exI[of _ ?cs] exI[of _ "rev (kid_entries i t) @ R'"] conjI refl) simp_all
  qed
qed

lemma seek_backward_ok:
  assumes "synced (it_map it) root len W r" "subtree W h t" "node_is W n (anode_of t)" "snd (it_range it) = Included key \<or> snd (it_range it) = Excluded key"
    "backward_stack W (it_backward it) R" "sorted_keys (rev R @ inorder t)"
  shows "ok (seek_backward K M it key n) (\<lambda>it'. \<exists>m' cs S. it' = it\<lparr>it_map := m', it_backward := cs\<rparr> \<and> synced m' root len W r \<and>
    backward_stack W cs S \<and> sorted_keys (rev S) \<and>
    takeWhile (in_range (it_range it)) S = takeWhile (in_range (it_range it)) (rev (filter (\<lambda>e. end_ok (snd (it_range it)) (fst e)) (inorder t)) @ R))"
  using assms
proof (induction h arbitrary: it t n R rule: less_induct)
  case (less h)
  let ?P = "in_range (it_range it)"
  note t = less.prems(2) and b = less.prems(4)
  note d = subtreeD[OF t]
  from search_node_ok[OF less.prems(1,3), of key] d(4) obtain res n1 m1 where
    1: "search_node K M (it_map it) n key = Some (res, n1, m1)" "synced m1 root len W r" "node_is W n1 (anode_of t)" "found_at (map fst (tree_entries t)) key res"
    by (auto elim!: ok_obtain)
  note n1 = node_of_tree[OF 1(3) t]
  show ?case
  proof (cases res)
    case (Inr i)
    have "seek_backward K M it key n = found_backward K M (it\<lparr>it_map := m1\<rparr>) n1 i"
      using 1(1) Inr by (subst seek_backward.simps) simp
    then show ?thesis
      using found_backward_ok[of "it\<lparr>it_map := m1\<rparr>" root len W r h t n1 key i R] 1 Inr t b less.prems(5,6) by (simp del: backward_stack.simps)
  next
    case (Inl i)
    note f = filter_start_kid[OF t 1(4)[unfolded Inl] b] and i = found_between(1)[OF 1(4)[unfolded Inl]]
    have so: "sorted_keys (rev R @ up_to_entry i t @ kid_entries i t)" "sorted_keys (rev R @ up_to_entry i t)"
      using less.prems(6) unfolding inorder_at[OF d(2) i] by (simp_all add: sorted_wrt_append ball_Un)
    have ret: "\<exists>m' cs R'. return_backward K M (it\<lparr>it_map := m2\<rparr>) n1 i = Some (it\<lparr>it_map := m', it_backward := cs\<rparr>) \<and> synced m' root len W r \<and>
        backward_stack W cs R' \<and> (R' = R \<or> R' = rev (up_to_entry i t) @ R) \<and> (\<forall>A. takeWhile ?P (A @ R') = takeWhile ?P (A @ rev (up_to_entry i t) @ R))"
      if "synced m2 root len W r" for m2
      using return_backward_ok[of "it\<lparr>it_map := m2\<rparr>" root len W r h t n1 i R] that 1(3) t f(4) i less.prems(5) so(2) by (auto elim!: ok_obtain)
    show ?thesis
    proof (cases "tree_kids t = []")
      case True
      obtain m2 cs R' where 2: "return_backward K M (it\<lparr>it_map := m1\<rparr>) n1 i = Some (it\<lparr>it_map := m2, it_backward := cs\<rparr>)" "synced m2 root len W r"
          "backward_stack W cs R'" "R' = R \<or> R' = rev (up_to_entry i t) @ R" "\<And>A. takeWhile ?P (A @ R') = takeWhile ?P (A @ rev (up_to_entry i t) @ R)"
        using ret[OF 1(2)] by blast
      have "seek_backward K M it key n = Some (it\<lparr>it_map := m2, it_backward := cs\<rparr>)" "kid_entries i t = []"
        using 1(1) Inl 2(1) n1(2) True by (subst seek_backward.simps, simp_all add: kid_entries_def)
      then show ?thesis
        using 2(2,3) 2(5)[of "[]"] sorted_skip_rev[of R "up_to_entry i t" "[]", OF _ 2(4)] so(2) f(3) by auto
    next
      case False
      obtain h' where kid: "h = Suc h'" "subtree W h' (tree_kids t ! i)" "kid_entries i t = inorder (tree_kids t ! i)"
        using subtree_kid[OF t False i] by blast
      from load_node_ok[OF 1(2) subtreeD(6)[OF kid(2)]] obtain c m2 where
        2: "load_node K M m1 (tree_addr (tree_kids t ! i)) = Some (c, m2)" "synced m2 root len W r" "node_is W c (anode_of (tree_kids t ! i))"
        by (auto elim!: ok_obtain)
      obtain m3 cs R' where 3: "return_backward K M (it\<lparr>it_map := m2\<rparr>) n1 i = Some (it\<lparr>it_map := m3, it_backward := cs\<rparr>)" "synced m3 root len W r"
          "backward_stack W cs R'" "R' = R \<or> R' = rev (up_to_entry i t) @ R" "\<And>A. takeWhile ?P (A @ R') = takeWhile ?P (A @ rev (up_to_entry i t) @ R)"
        using ret[OF 2(2)] by blast
      have run: "seek_backward K M it key n = seek_backward K M (it\<lparr>it_map := m3, it_backward := cs\<rparr>) key c"
        using 1(1) Inl 2(1) 3(1) n1(3) n1(4)[OF False i] False by (subst seek_backward.simps) simp
      from less.IH[of h' "it\<lparr>it_map := m3, it_backward := cs\<rparr>" "tree_kids t ! i" c R'] kid(1,2) 2(3) 3(2,3) b sorted_skip_rev[OF so(1) 3(4)] show ?thesis
        unfolding run f(3) kid(3) rev_append append_assoc using 3(5) by (auto elim!: ok_mono simp: kid(3))
    qed
  qed
qed

section \<open>The invariant of an iterator\<close>

text \<open>
  \<open>L\<close> is what is left: the entries \<open>es\<close> of the map that lie in the range. Each stack, once it is initialised, leads to a list that starts
  with them, from its end.
\<close>

definition forward_ok :: "node_heap \<Rightarrow> ('s, 'k) iter_internal \<Rightarrow> 'k entry list \<Rightarrow> bool" where
  "forward_ok W it L \<longleftrightarrow> (if it_forward_initialized it
     then \<exists>S. forward_stack W (it_forward it) S \<and> sorted_keys S \<and> takeWhile (in_range (it_range it)) S = L
     else it_forward it = [])"

definition backward_ok :: "node_heap \<Rightarrow> ('s, 'k) iter_internal \<Rightarrow> 'k entry list \<Rightarrow> bool" where
  "backward_ok W it L \<longleftrightarrow> (if it_backward_initialized it
     then \<exists>S. backward_stack W (it_backward it) S \<and> sorted_keys (rev S) \<and> takeWhile (in_range (it_range it)) S = rev L
     else it_backward it = [])"

definition iter_core :: "node_heap \<Rightarrow> address \<Rightarrow> nat \<Rightarrow> nat \<Rightarrow> 'k entry list \<Rightarrow> ('s, 'k) iter_internal \<Rightarrow> 'k entry list \<Rightarrow> bool" where
  "iter_core W root len r es it L \<longleftrightarrow> synced (it_map it) root len W r \<and>
     (root = NULL \<and> es = [] \<and> (it_forward_initialized it \<or> fst (it_range it) = NoBound) \<and> (it_backward_initialized it \<or> snd (it_range it) = NoBound) \<or>
      (\<exists>h t. subtree W h t \<and> tree_addr t = root \<and> es = inorder t)) \<and> L = filter (in_range (it_range it)) es"

text \<open>What the closure returns for the entries of the map.\<close>

definition reads_entry :: "'k entry list \<Rightarrow> ('s, 'k, 'r) entry_map \<Rightarrow> (node_heap \<Rightarrow> 'k entry \<Rightarrow> 'r \<Rightarrow> bool) \<Rightarrow> bool" where
  "reads_entry es f Q \<longleftrightarrow> (\<forall>m root len W r n an i. synced m root len W r \<longrightarrow> node_is W n an \<longrightarrow> i < length (an_entries an) \<longrightarrow> an_entries an ! i \<in> set es \<longrightarrow>
     ok (f n i (bt_memory m)) (\<lambda>(x, n', s). Q W (an_entries an ! i) x \<and> node_is W n' an \<and> synced (bt_with_memory m s) root len W r))"

lemma visit_entry_ok:
  assumes f: "reads_entry es f Q" and m: "synced (it_map it) root len W r" and n: "node_is W n an" "i < length (an_entries an)" "an_entries an ! i \<in> set es"
  shows "ok (visit_entry K M f it n i) (\<lambda>(x, b, n', it'). Q W (an_entries an ! i) x \<and> b = Excluded (fst (an_entries an ! i)) \<and> node_is W n' an \<and>
    (\<exists>m'. it' = it\<lparr>it_map := m'\<rparr> \<and> synced m' root len W r))"
proof -
  from f m n obtain x n1 s1 where 1: "f n i (bt_memory (it_map it)) = Some (x, n1, s1)" "Q W (an_entries an ! i) x" "node_is W n1 an"
    "synced (bt_with_memory (it_map it) s1) root len W r"
    unfolding reads_entry_def by (fastforce elim!: ok_obtain)
  from bt_node_key[OF 1(4,3) n(2)] 1 show ?thesis
    unfolding visit_entry_def by (auto elim!: ok_mono)
qed

lemma iter_core_sorted: "iter_core W root len r es it L \<Longrightarrow> sorted_keys es"
  by (auto simp: iter_core_def dest: subtreeD(3))

lemma iter_core_upd:
  assumes "iter_core W root len r es it L" "synced m' root len W r"
  shows "iter_core W root len r es (it\<lparr>it_map := m'\<rparr>) L" "iter_core W root len r es (it\<lparr>it_forward := cs\<rparr>) L" "iter_core W root len r es (it\<lparr>it_backward := cs'\<rparr>) L"
    "iter_core W root len r es (it\<lparr>it_forward_initialized := True\<rparr>) L" "iter_core W root len r es (it\<lparr>it_backward_initialized := True\<rparr>) L"
  using assms by (auto simp: iter_core_def)

lemma initialize_forward_ok:
  assumes c: "iter_core W root len r es it L" and i: "\<not> it_forward_initialized it" "it_forward it = []"
  shows "ok (initialize_forward_cursors K M it) (\<lambda>it'. \<exists>m' cs. it' = it\<lparr>it_map := m', it_forward := cs, it_forward_initialized := True\<rparr> \<and>
    synced m' root len W r \<and> forward_ok W it' L)"
proof -
  have m: "synced (it_map it) root len W r" "bt_root_addr (it_map it) = root"
    using c by (auto simp: iter_core_def dest: syncedD(2))
  note so = iter_core_sorted[OF c]
  have L: "L = takeWhile (in_range (it_range it)) (filter (\<lambda>e. start_ok (fst (it_range it)) (fst e)) es)"
    using c filter_range(1)[OF so] by (simp add: iter_core_def)
  show ?thesis
  proof (cases "fst (it_range it) = NoBound")
    case True
    have "forward_at W (AddressCursor root) es"
      using c by (auto simp: iter_core_def forward_at_def)
    then have "forward_stack W [AddressCursor root] es"
      by simp
    then show ?thesis
      using True i m so L unfolding initialize_forward_cursors_def
      by (auto simp: push_forward_def forward_ok_def simp del: forward_stack.simps intro!: exI[of _ "it_map it"] exI[of _ "[AddressCursor root]"] exI[of _ es])
  next
    case False
    then obtain h t where t: "subtree W h t" "tree_addr t = root" "es = inorder t"
      using c i(1) by (auto simp: iter_core_def)
    obtain key where b: "fst (it_range it) = Included key \<or> fst (it_range it) = Excluded key"
      using False by (cases "fst (it_range it)") auto
    from load_node_ok[OF m(1) subtreeD(6)[OF t(1)]] obtain n m1 where
      1: "load_node K M (it_map it) root = Some (n, m1)" "synced m1 root len W r" "node_is W n (anode_of t)"
      unfolding t(2) by (auto elim!: ok_obtain)
    from seek_forward_ok[of "it\<lparr>it_map := m1\<rparr>" root len W r h t n key "[]"] 1(2,3) t b so i(2) obtain m2 cs S where
      2: "seek_forward K M (it\<lparr>it_map := m1\<rparr>) key n = Some (it\<lparr>it_map := m2, it_forward := cs\<rparr>)" "synced m2 root len W r" "forward_stack W cs S"
        "sorted_keys S" "takeWhile (in_range (it_range it)) S = L"
      unfolding L by (auto elim!: ok_obtain)
    show ?thesis
      using b i(1) m(2) 1(1) 2 unfolding initialize_forward_cursors_def by (auto simp: forward_ok_def intro!: exI[of _ m2] exI[of _ cs])
  qed
qed

definition iterates :: "node_heap \<Rightarrow> address \<Rightarrow> nat \<Rightarrow> nat \<Rightarrow> 'k entry list \<Rightarrow> ('s, 'k) iter_internal \<Rightarrow> 'k entry list \<Rightarrow> bool" where
  "iterates W root len r es it L \<longleftrightarrow> iter_core W root len r es it L \<and> forward_ok W it L \<and> backward_ok W it L"

definition yields :: "(node_heap \<Rightarrow> 'k entry \<Rightarrow> 'r \<Rightarrow> bool) \<Rightarrow> node_heap \<Rightarrow> address \<Rightarrow> nat \<Rightarrow> nat \<Rightarrow> 'k entry list \<Rightarrow> 'k entry list \<Rightarrow>
  'r option \<times> ('s, 'k) iter_internal \<Rightarrow> bool" where
  "yields Q W root len r es L = (\<lambda>(res, it). case L of
       [] \<Rightarrow> res = None \<and> iterates W root len r es it []
     | e # L' \<Rightarrow> \<exists>x. res = Some x \<and> Q W e x \<and> iterates W root len r es it L')"

text \<open>What is left when an entry of the range has been visited.\<close>

lemma forward_rest:
  assumes t: "subtree W h t" "node_is W n (anode_of t)" "i < length (tree_entries t)" and R: "forward_stack W cs R"
  shows "forward_stack W (case nd_node_type n of
      Internal \<Rightarrow> NodeCursor n (AtChild (i + 1)) # cs
    | Leaf \<Rightarrow> if i + 1 < entries_len n then NodeCursor n (AtEntry (i + 1)) # cs else cs) (kid_entries (Suc i) t @ from_entry (Suc i) t @ R)"
proof (cases "tree_kids t = []")
  case False
  then have "forward_at W (NodeCursor n (AtChild (Suc i))) (kid_entries (Suc i) t @ from_entry (Suc i) t)"
    using t by (auto simp: forward_at_def)
  from forward_push[OF this R] False node_of_tree(3)[OF t(2,1)] show ?thesis
    by (simp del: forward_stack.simps)
next
  case leaf: True
  then have n: "nd_node_type n = Leaf" "entries_len n = length (tree_entries t)" "kid_entries (Suc i) t = []"
    using node_of_tree[OF t(2,1)] by (simp_all add: kid_entries_def)
  show ?thesis
  proof (cases "Suc i < length (tree_entries t)")
    case True
    then show ?thesis
      using n forward_push[OF forward_at_entry[OF t(1,2) True] R] by (simp del: forward_stack.simps)
  next
    case False
    then show ?thesis
      using n R t(3) leaf by (simp add: from_entry_def)
  qed
qed

text \<open>The entry on top of the stack.\<close>

lemma take_forward_ok:
  assumes f: "reads_entry es f Q" and c: "iter_core W root len r es it L" "backward_ok W it L" "it_forward_initialized it"
    and t: "subtree W h t" "node_is W n (anode_of t)" "i < length (tree_entries t)"
    and R: "forward_stack W (it_forward it) R" "sorted_keys (from_entry i t @ R)" "takeWhile (in_range (it_range it)) (from_entry i t @ R) = L"
  shows "ok (take_forward K M f it n i) (yields Q W root len r es L)"
proof -
  let ?P = "in_range (it_range it)" and ?e = "tree_entries t ! i" and ?S = "kid_entries (Suc i) t @ from_entry (Suc i) t @ R"
  note step = from_entry_step[OF subtreeD(2)[OF t(1)] t(3)] and so = iter_core_sorted[OF c(1)]
  have m: "synced (it_map it) root len W r" and L: "L = filter ?P es"
    using c(1) by (auto simp: iter_core_def)
  from key_in_range_ok[OF m t(2), of i] t(3) obtain n1 m1 where
    1: "key_in_range K M it n i = Some (?P ?e, n1, it\<lparr>it_map := m1\<rparr>)" "node_is W n1 (anode_of t)" "synced m1 root len W r"
    by (auto elim!: ok_obtain)
  show ?thesis
  proof (cases "?P ?e")
    case False
    let ?it = "it\<lparr>it_map := m1, it_forward := [], it_backward := []\<rparr>"
    have run: "take_forward K M f it n i = Some (None, ?it)"
      using 1(1) False by (simp add: take_forward_def)
    have "L = []"
      using R(3) False by (simp add: step)
    then show ?thesis
      unfolding run using c 1(3) by (auto simp: yields_def iterates_def forward_ok_def backward_ok_def iter_core_def)
  next
    case True
    obtain L' where L': "L = ?e # L'" "takeWhile ?P ?S = L'"
      using R(3) True by (auto simp: step)
    note adv = advance_start[OF so L'(1)[unfolded L]]
    from visit_entry_ok[OF f, of "it\<lparr>it_map := m1\<rparr>" root len W r n1 "anode_of t" i] 1(2,3) t(3) adv(5) obtain x n2 m2 where
      2: "visit_entry K M f (it\<lparr>it_map := m1\<rparr>) n1 i = Some (x, Excluded (fst ?e), n2, it\<lparr>it_map := m2\<rparr>)" "Q W ?e x"
        "node_is W n2 (anode_of t)" "synced m2 root len W r"
      by (auto elim!: ok_obtain)
    define cs' where "cs' = (case nd_node_type n2 of
        Internal \<Rightarrow> NodeCursor n2 (AtChild (i + 1)) # it_forward it
      | Leaf \<Rightarrow> if i + 1 < entries_len n2 then NodeCursor n2 (AtEntry (i + 1)) # it_forward it else it_forward it)"
    let ?it = "it\<lparr>it_map := m2, it_forward := cs', it_range := (Excluded (fst ?e), snd (it_range it))\<rparr>"
    have run: "take_forward K M f it n i = Some (Some x, ?it)"
      using 1(1) True 2(1) by (cases "nd_node_type n2") (simp_all add: take_forward_def cs'_def push_forward_def Let_def)
    have "forward_ok W ?it L'"
      using forward_rest[OF t(1) 2(3) t(3) R(1), folded cs'_def] R(2) c(3) adv(4)[OF L'(2)] by (auto simp: forward_ok_def step)
    moreover have "backward_ok W ?it L'"
      using c(2) adv(3) unfolding backward_ok_def L'(1) by (auto split: if_splits)
    moreover have "iter_core W root len r es ?it L'"
      using c(1,3) 2(4) adv(2) by (auto simp: iter_core_def)
    ultimately show ?thesis
      unfolding run L'(1) using 2(2) by (simp add: yields_def iterates_def)
  qed
qed

lemma next_entry:
  assumes f: "reads_entry es f Q" and c: "iter_core W root len r es it L" "backward_ok W it L" "it_forward_initialized it"
    and st: "it_forward it = NodeCursor n (AtEntry i) # cs" and t: "subtree W h t" "node_is W n (anode_of t)" "i < length (tree_entries t)"
    and R: "forward_stack W cs R" "sorted_keys (from_entry i t @ R)" "takeWhile (in_range (it_range it)) (from_entry i t @ R) = L"
  shows "ok (next_map K M f it) (yields Q W root len r es L)"
proof -
  have "next_map K M f it = take_forward K M f (it\<lparr>it_forward := cs\<rparr>) n i"
    using c(3) st by (subst next_map.simps) simp
  then show ?thesis
    using take_forward_ok[OF f _ _ _ t, of root len r "it\<lparr>it_forward := cs\<rparr>" L R] c R by (simp add: iter_core_def backward_ok_def)
qed

text \<open>A subtree on top of the stack: the descent to its first entry.\<close>

lemma next_address:
  assumes f: "reads_entry es f Q" and "subtree W h t" "iter_core W root len r es it L" "backward_ok W it L" "it_forward_initialized it"
    "it_forward it = AddressCursor (tree_addr t) # cs" "forward_stack W cs R" "sorted_keys (inorder t @ R)" "takeWhile (in_range (it_range it)) (inorder t @ R) = L"
  shows "ok (next_map K M f it) (yields Q W root len r es L)"
  using assms(2-)
proof (induction h arbitrary: t it cs R rule: less_induct)
  case (less h)
  note t = less.prems(1) and c = less.prems(2-4)
  note d = subtreeD[OF t]
  have m: "synced (it_map it) root len W r"
    using c(1) by (simp add: iter_core_def)
  have x: "tree_addr t \<noteq> NULL"
    using synced_addr[OF m] kid_dom[OF d(1)] by simp
  from load_node_ok[OF m d(6)] obtain n m1 where
    1: "load_node K M (it_map it) (tree_addr t) = Some (n, m1)" "synced m1 root len W r" "node_is W n (anode_of t)"
    by (auto elim!: ok_obtain)
  note n = node_of_tree[OF 1(3) t]
  have io: "inorder t = kid_entries 0 t @ from_entry 0 t"
    using inorder_at[OF d(2), of 0] by simp
  show ?case
  proof (cases "tree_kids t = []")
    case True
    let ?it = "it\<lparr>it_map := m1, it_forward := NodeCursor n (AtEntry 0) # cs\<rparr>"
    have run: "next_map K M f it = next_map K M f ?it"
      using c(3) less.prems(5) x 1(1) n(2) True by (subst next_map.simps) (simp add: push_forward_def)
    have "inorder t = from_entry 0 t"
      using io True by (simp add: kid_entries_def)
    with less.prems(6-8) c 1 d(5) show ?thesis
      unfolding run by (intro next_entry[OF f, of _ _ _ _ ?it L n 0 cs h t R]) (auto simp: iter_core_upd t backward_ok_def)
  next
    case False
    obtain h' where kid: "h = Suc h'" "subtree W h' (tree_kids t ! 0)" "kid_entries 0 t = inorder (tree_kids t ! 0)"
      using subtree_kid[OF t False, of 0] by blast
    let ?it = "it\<lparr>it_map := m1, it_forward := AddressCursor (tree_addr (tree_kids t ! 0)) # NodeCursor n (AtEntry 0) # cs\<rparr>"
    have "next_map K M f it = next_map K M f (it\<lparr>it_map := m1, it_forward := NodeCursor n (AtChild 0) # cs\<rparr>)"
      using c(3) less.prems(5) x 1(1) n(3) False by (subst next_map.simps) (simp add: push_forward_def)
    also have "\<dots> = next_map K M f ?it"
      using c(3) n(1) n(4)[OF False, of 0] d(5) by (subst next_map.simps) (simp add: push_forward_def)
    finally have run: "next_map K M f it = next_map K M f ?it" .
    have "forward_stack W (NodeCursor n (AtEntry 0) # cs) (from_entry 0 t @ R)"
      using d(5) by (intro forward_push[OF forward_at_entry[OF t 1(3)] less.prems(6)]) simp
    with less.prems(7,8) c 1 kid show ?thesis
      unfolding run by (intro less.IH[of h' "tree_kids t ! 0" ?it "NodeCursor n (AtEntry 0) # cs" "from_entry 0 t @ R"])
        (auto simp: iter_core_upd io backward_ok_def simp del: forward_stack.simps)
  qed
qed

text \<open>\<open>next\<close> takes the first entry that is left.\<close>

lemma next_initialized:
  assumes f: "reads_entry es f Q" and "iterates W root len r es it L" "it_forward_initialized it"
  shows "ok (next_map K M f it) (yields Q W root len r es L)"
proof -
  have c: "iter_core W root len r es it L" "backward_ok W it L"
    using assms(2) by (simp_all add: iterates_def)
  obtain S where S: "forward_stack W (it_forward it) S" "sorted_keys S" "takeWhile (in_range (it_range it)) S = L"
    using assms(2,3) by (auto simp: iterates_def forward_ok_def)
  from c assms(3) S show ?thesis
  proof (induction "it_forward it" arbitrary: it S)
    case Nil
    then have "next_map K M f it = Some (None, it)"
      by (subst next_map.simps) simp
    then show ?case
      using Nil by (auto simp: yields_def iterates_def forward_ok_def)
  next
    case (Cons cu cs)
    obtain A R where R: "S = A @ R" "forward_at W cu A" "forward_stack W cs R"
      using Cons.prems(4) unfolding Cons.hyps(2)[symmetric] by auto
    from R(2) show ?case
    proof (cases rule: forward_at_cases)
      case null
      then have run: "next_map K M f it = next_map K M f (it\<lparr>it_forward := cs\<rparr>)"
        using Cons.prems(3) Cons.hyps(2)[symmetric] by (subst next_map.simps) simp
      show ?thesis
        unfolding run using Cons.prems R null iter_core_upd(2)[OF Cons.prems(1)]
        by (intro Cons.hyps(1)[of "it\<lparr>it_forward := cs\<rparr>" R]) (auto simp: backward_ok_def iter_core_def)
    next
      case addr
      then show ?thesis
        using Cons.prems R Cons.hyps(2) by (intro next_address[OF f addr(2) Cons.prems(1-3), of cs R]) auto
    next
      case entry
      then show ?thesis
        using Cons.prems R Cons.hyps(2) by (intro next_entry[OF f Cons.prems(1-3) _ entry(2-4), of cs R]) auto
    next
      case (child n i h t)
      obtain h' where kid: "subtree W h' (tree_kids t ! i)" "kid_entries i t = inorder (tree_kids t ! i)"
        using subtree_kid[OF child(2,5,4)] by blast
      note n = node_of_tree[OF child(3,2)]
      let ?cs = "if i < length (tree_entries t) then NodeCursor n (AtEntry i) # cs else cs"
      have run: "next_map K M f it = next_map K M f (it\<lparr>it_forward := AddressCursor (tree_addr (tree_kids t ! i)) # ?cs\<rparr>)"
        using Cons.prems(3) Cons.hyps(2)[symmetric] child(1,4) n(1) n(4)[OF child(5,4)] by (subst next_map.simps) (simp add: push_forward_def)
      have "forward_stack W ?cs (from_entry i t @ R)"
        using forward_push[OF forward_at_entry[OF child(2,3)] R(3), of i] child(4) R(3) subtreeD(2)[OF child(2)]
        by (cases "i < length (tree_entries t)") (auto simp del: forward_stack.simps)
      then show ?thesis
        unfolding run using Cons.prems R child(6) kid(2) iter_core_upd(2)[OF Cons.prems(1)]
        by (intro next_address[OF f kid(1), of root len r _ L ?cs "from_entry i t @ R"]) (auto simp: backward_ok_def iter_core_def)
    qed
  qed
qed

lemma next_map_ok:
  assumes f: "reads_entry es f Q" and it: "iterates W root len r es it L"
  shows "ok (next_map K M f it) (yields Q W root len r es L)"
proof (cases "it_forward_initialized it")
  case True
  then show ?thesis
    by (rule next_initialized[OF f it])
next
  case False
  have "it_forward it = []"
    using it False by (simp add: iterates_def forward_ok_def)
  have c: "iter_core W root len r es it L"
    using it by (simp add: iterates_def)
  from initialize_forward_ok[OF this False \<open>it_forward it = []\<close>] obtain m' cs where
    1: "initialize_forward_cursors K M it = Some (it\<lparr>it_map := m', it_forward := cs, it_forward_initialized := True\<rparr>)" "synced m' root len W r"
      "forward_ok W (it\<lparr>it_map := m', it_forward := cs, it_forward_initialized := True\<rparr>) L"
    by (auto elim!: ok_obtain)
  let ?it = "it\<lparr>it_map := m', it_forward := cs, it_forward_initialized := True\<rparr>"
  have "next_map K M f it = next_map K M f ?it"
    using 1(1) False by (subst (1 2) next_map.simps) simp
  moreover have "iterates W root len r es ?it L"
    using it 1(2,3) by (auto simp: iterates_def iter_core_def backward_ok_def)
  ultimately show ?thesis
    using next_initialized[OF f, of W root len r ?it L] by simp
qed

section \<open>The other end\<close>

lemma initialize_backward_ok:
  assumes c: "iter_core W root len r es it L" and i: "\<not> it_backward_initialized it" "it_backward it = []"
  shows "ok (initialize_backward_cursors K M it) (\<lambda>it'. \<exists>m' cs. it' = it\<lparr>it_map := m', it_backward := cs, it_backward_initialized := True\<rparr> \<and>
    synced m' root len W r \<and> backward_ok W it' L)"
proof -
  have m: "synced (it_map it) root len W r" "bt_root_addr (it_map it) = root"
    using c by (auto simp: iter_core_def dest: syncedD(2))
  note so = iter_core_sorted[OF c]
  have L: "rev L = takeWhile (in_range (it_range it)) (rev (filter (\<lambda>e. end_ok (snd (it_range it)) (fst e)) es))"
    using c filter_range(2)[OF so] by (simp add: iter_core_def)
  show ?thesis
  proof (cases "snd (it_range it) = NoBound")
    case True
    have "backward_at W (AddressCursor root) (rev es)"
      using c by (auto simp: iter_core_def backward_at_def)
    then have "backward_stack W [AddressCursor root] (rev es)"
      by simp
    then show ?thesis
      using True i m so L unfolding initialize_backward_cursors_def
      by (auto simp: push_backward_def backward_ok_def simp del: backward_stack.simps
          intro!: exI[of _ "it_map it"] exI[of _ "[AddressCursor root]"] exI[of _ "rev es"])
  next
    case False
    then obtain h t where t: "subtree W h t" "tree_addr t = root" "es = inorder t"
      using c i(1) by (auto simp: iter_core_def)
    obtain key where b: "snd (it_range it) = Included key \<or> snd (it_range it) = Excluded key"
      using False by (cases "snd (it_range it)") auto
    from load_node_ok[OF m(1) subtreeD(6)[OF t(1)]] obtain n m1 where
      1: "load_node K M (it_map it) root = Some (n, m1)" "synced m1 root len W r" "node_is W n (anode_of t)"
      unfolding t(2) by (auto elim!: ok_obtain)
    from seek_backward_ok[of "it\<lparr>it_map := m1\<rparr>" root len W r h t n key "[]"] 1(2,3) t b so i(2) obtain m2 cs S where
      2: "seek_backward K M (it\<lparr>it_map := m1\<rparr>) key n = Some (it\<lparr>it_map := m2, it_backward := cs\<rparr>)" "synced m2 root len W r" "backward_stack W cs S"
        "sorted_keys (rev S)" "takeWhile (in_range (it_range it)) S = rev L"
      unfolding L by (auto elim!: ok_obtain)
    show ?thesis
      using b i(1) m(2) 1(1) 2 unfolding initialize_backward_cursors_def by (auto simp: backward_ok_def intro!: exI[of _ m2] exI[of _ cs])
  qed
qed

definition yields_back :: "(node_heap \<Rightarrow> 'k entry \<Rightarrow> 'r \<Rightarrow> bool) \<Rightarrow> node_heap \<Rightarrow> address \<Rightarrow> nat \<Rightarrow> nat \<Rightarrow> 'k entry list \<Rightarrow> 'k entry list \<Rightarrow>
  'r option \<times> ('s, 'k) iter_internal \<Rightarrow> bool" where
  "yields_back Q W root len r es L = (\<lambda>(res, it).
     if L = [] then res = None \<and> iterates W root len r es it []
     else \<exists>x. res = Some x \<and> Q W (last L) x \<and> iterates W root len r es it (butlast L))"

lemma backward_rest:
  assumes t: "subtree W h t" "node_is W n (anode_of t)" "i < length (tree_entries t)" and R: "backward_stack W cs R"
  shows "backward_stack W (case nd_node_type n of
      Internal \<Rightarrow> NodeCursor n (AtChild i) # cs
    | Leaf \<Rightarrow> if i > 0 then NodeCursor n (AtEntry (i - 1)) # cs else cs) (rev (kid_entries i t) @ rev (up_to_entry i t) @ R)"
proof (cases "tree_kids t = []")
  case False
  then have "backward_at W (NodeCursor n (AtChild i)) (rev (kid_entries i t) @ rev (up_to_entry i t))"
    using t by (auto simp: backward_at_def)
  from backward_push[OF this R] False node_of_tree(3)[OF t(2,1)] show ?thesis
    by (simp del: backward_stack.simps)
next
  case leaf: True
  then have n: "nd_node_type n = Leaf" "kid_entries i t = []"
    using node_of_tree[OF t(2,1)] by (simp_all add: kid_entries_def)
  show ?thesis
  proof (cases i)
    case (Suc j)
    then show ?thesis
      using n t(3) backward_push[OF backward_at_entry[OF t(1,2)] R, of j] by (simp del: backward_stack.simps)
  next
    case 0
    then show ?thesis
      using n R by simp
  qed
qed

lemma take_backward_ok:
  assumes f: "reads_entry es f Q" and c: "iter_core W root len r es it L" "forward_ok W it L" "it_backward_initialized it"
    and t: "subtree W h t" "node_is W n (anode_of t)" "i < length (tree_entries t)"
    and R: "backward_stack W (it_backward it) R" "sorted_keys (rev R @ up_to_entry (Suc i) t)"
      "takeWhile (in_range (it_range it)) (rev (up_to_entry (Suc i) t) @ R) = rev L"
  shows "ok (take_backward K M f it n i) (yields_back Q W root len r es L)"
proof -
  let ?P = "in_range (it_range it)" and ?e = "tree_entries t ! i" and ?S = "rev (kid_entries i t) @ rev (up_to_entry i t) @ R"
  note step = up_to_entry_step[OF subtreeD(2)[OF t(1)] t(3)] and so = iter_core_sorted[OF c(1)]
  have m: "synced (it_map it) root len W r" and L: "L = filter ?P es"
    using c(1) by (auto simp: iter_core_def)
  from key_in_range_ok[OF m t(2), of i] t(3) obtain n1 m1 where
    1: "key_in_range K M it n i = Some (?P ?e, n1, it\<lparr>it_map := m1\<rparr>)" "node_is W n1 (anode_of t)" "synced m1 root len W r"
    by (auto elim!: ok_obtain)
  show ?thesis
  proof (cases "?P ?e")
    case False
    let ?it = "it\<lparr>it_map := m1, it_forward := [], it_backward := []\<rparr>"
    have run: "take_backward K M f it n i = Some (None, ?it)"
      using 1(1) False by (simp add: take_backward_def)
    have "L = []"
      using R(3) False by (simp add: step)
    then show ?thesis
      unfolding run using c 1(3) by (auto simp: yields_back_def iterates_def forward_ok_def backward_ok_def iter_core_def)
  next
    case True
    obtain L' where "rev L = ?e # rev L'" "takeWhile ?P ?S = rev L'"
      using R(3) True that[of "rev (takeWhile ?P ?S)"] by (simp add: step)
    then have L': "L = L' @ [?e]" "takeWhile ?P ?S = rev L'"
      by (simp_all add: rev_eq_Cons_iff)
    note adv = advance_end[OF so L'(1)[unfolded L]]
    from visit_entry_ok[OF f, of "it\<lparr>it_map := m1\<rparr>" root len W r n1 "anode_of t" i] 1(2,3) t(3) adv(5) obtain x n2 m2 where
      2: "visit_entry K M f (it\<lparr>it_map := m1\<rparr>) n1 i = Some (x, Excluded (fst ?e), n2, it\<lparr>it_map := m2\<rparr>)" "Q W ?e x"
        "node_is W n2 (anode_of t)" "synced m2 root len W r"
      by (auto elim!: ok_obtain)
    define cs' where "cs' = (case nd_node_type n2 of
        Internal \<Rightarrow> NodeCursor n2 (AtChild i) # it_backward it
      | Leaf \<Rightarrow> if i > 0 then NodeCursor n2 (AtEntry (i - 1)) # it_backward it else it_backward it)"
    let ?it = "it\<lparr>it_map := m2, it_backward := cs', it_range := (fst (it_range it), Excluded (fst ?e))\<rparr>"
    have run: "take_backward K M f it n i = Some (Some x, ?it)"
      using 1(1) True 2(1) by (cases "nd_node_type n2") (simp_all add: take_backward_def cs'_def push_backward_def Let_def)
    have "sorted_keys (rev ?S)"
      using R(2) by (simp add: step sorted_wrt_append ball_Un)
    then have "backward_ok W ?it L'"
      using backward_rest[OF t(1) 2(3) t(3) R(1), folded cs'_def] c(3) adv(4)[OF L'(2)] by (auto simp: backward_ok_def)
    moreover have "forward_ok W ?it L'"
      using c(2) adv(3) unfolding forward_ok_def L'(1) by (auto split: if_splits)
    moreover have "iter_core W root len r es ?it L'"
      using c(1,3) 2(4) adv(2) by (auto simp: iter_core_def)
    ultimately show ?thesis
      unfolding run L'(1) using 2(2) by (simp add: yields_back_def iterates_def)
  qed
qed

lemma next_back_entry:
  assumes f: "reads_entry es f Q" and c: "iter_core W root len r es it L" "forward_ok W it L" "it_backward_initialized it"
    and st: "it_backward it = NodeCursor n (AtEntry i) # cs" and t: "subtree W h t" "node_is W n (anode_of t)" "i < length (tree_entries t)"
    and R: "backward_stack W cs R" "sorted_keys (rev R @ up_to_entry (Suc i) t)" "takeWhile (in_range (it_range it)) (rev (up_to_entry (Suc i) t) @ R) = rev L"
  shows "ok (next_back_map K M f it) (yields_back Q W root len r es L)"
proof -
  have "next_back_map K M f it = take_backward K M f (it\<lparr>it_backward := cs\<rparr>) n i"
    using c(3) st by (subst next_back_map.simps) simp
  then show ?thesis
    using take_backward_ok[OF f _ _ _ t, of root len r "it\<lparr>it_backward := cs\<rparr>" L R] c R by (simp add: iter_core_def forward_ok_def)
qed

lemma next_back_address:
  assumes f: "reads_entry es f Q" and "subtree W h t" "iter_core W root len r es it L" "forward_ok W it L" "it_backward_initialized it"
    "it_backward it = AddressCursor (tree_addr t) # cs" "backward_stack W cs R" "sorted_keys (rev R @ inorder t)"
    "takeWhile (in_range (it_range it)) (rev (inorder t) @ R) = rev L"
  shows "ok (next_back_map K M f it) (yields_back Q W root len r es L)"
  using assms(2-)
proof (induction h arbitrary: t it cs R rule: less_induct)
  case (less h)
  note t = less.prems(1) and c = less.prems(2-4)
  note d = subtreeD[OF t]
  let ?l = "length (tree_entries t)"
  obtain j where l: "?l = Suc j"
    using d(5) by (cases ?l) auto
  have m: "synced (it_map it) root len W r"
    using c(1) by (simp add: iter_core_def)
  have x: "tree_addr t \<noteq> NULL"
    using synced_addr[OF m] kid_dom[OF d(1)] by simp
  from load_node_ok[OF m d(6)] obtain n m1 where
    1: "load_node K M (it_map it) (tree_addr t) = Some (n, m1)" "synced m1 root len W r" "node_is W n (anode_of t)"
    by (auto elim!: ok_obtain)
  note n = node_of_tree[OF 1(3) t]
  have io: "inorder t = up_to_entry ?l t @ kid_entries ?l t"
    using inorder_at[OF d(2), of ?l] d(2) by simp
  show ?case
  proof (cases "tree_kids t = []")
    case True
    let ?it = "it\<lparr>it_map := m1, it_backward := NodeCursor n (AtEntry j) # cs\<rparr>"
    have run: "next_back_map K M f it = next_back_map K M f ?it"
      using c(3) less.prems(5) x 1(1) n(1,2) True l by (subst next_back_map.simps) (simp add: push_backward_def)
    have "inorder t = up_to_entry (Suc j) t"
      using io True l by (simp add: kid_entries_def)
    with less.prems(6-8) c 1 l show ?thesis
      unfolding run by (intro next_back_entry[OF f, of _ _ _ _ ?it L n j cs h t R]) (auto simp: iter_core_upd t forward_ok_def)
  next
    case False
    obtain h' where kid: "h = Suc h'" "subtree W h' (tree_kids t ! ?l)" "kid_entries ?l t = inorder (tree_kids t ! ?l)"
      using subtree_kid[OF t False, of ?l] by blast
    let ?it = "it\<lparr>it_map := m1, it_backward := AddressCursor (tree_addr (tree_kids t ! ?l)) # NodeCursor n (AtEntry j) # cs\<rparr>"
    have "next_back_map K M f it = next_back_map K M f (it\<lparr>it_map := m1, it_backward := NodeCursor n (AtChild ?l) # cs\<rparr>)"
      using c(3) less.prems(5) x 1(1) n(3,5) False by (subst next_back_map.simps) (simp add: push_backward_def)
    also have "\<dots> = next_back_map K M f ?it"
      using c(3) n(4)[OF False, of ?l] l by (subst next_back_map.simps) (simp add: push_backward_def)
    finally have run: "next_back_map K M f it = next_back_map K M f ?it" .
    have "backward_stack W (NodeCursor n (AtEntry j) # cs) (rev (up_to_entry ?l t) @ R)"
      using l backward_push[OF backward_at_entry[OF t 1(3), of j] less.prems(6)] by simp
    with less.prems(7,8) c 1 kid show ?thesis
      unfolding run by (intro less.IH[of h' "tree_kids t ! ?l" ?it "NodeCursor n (AtEntry j) # cs" "rev (up_to_entry ?l t) @ R"])
        (auto simp: iter_core_upd io forward_ok_def simp del: backward_stack.simps)
  qed
qed

lemma next_back_initialized:
  assumes f: "reads_entry es f Q" and "iterates W root len r es it L" "it_backward_initialized it"
  shows "ok (next_back_map K M f it) (yields_back Q W root len r es L)"
proof -
  have c: "iter_core W root len r es it L" "forward_ok W it L"
    using assms(2) by (simp_all add: iterates_def)
  obtain S where S: "backward_stack W (it_backward it) S" "sorted_keys (rev S)" "takeWhile (in_range (it_range it)) S = rev L"
    using assms(2,3) by (auto simp: iterates_def backward_ok_def)
  from c assms(3) S show ?thesis
  proof (induction "it_backward it" arbitrary: it S)
    case Nil
    then have "next_back_map K M f it = Some (None, it)"
      by (subst next_back_map.simps) simp
    then show ?case
      using Nil by (auto simp: yields_back_def iterates_def backward_ok_def)
  next
    case (Cons cu cs)
    obtain A R where R: "S = A @ R" "backward_at W cu A" "backward_stack W cs R"
      using Cons.prems(4) unfolding Cons.hyps(2)[symmetric] by auto
    from R(2) show ?case
    proof (cases rule: backward_at_cases)
      case null
      then have run: "next_back_map K M f it = next_back_map K M f (it\<lparr>it_backward := cs\<rparr>)"
        using Cons.prems(3) Cons.hyps(2)[symmetric] by (subst next_back_map.simps) simp
      show ?thesis
        unfolding run using Cons.prems R null
        by (intro Cons.hyps(1)[of "it\<lparr>it_backward := cs\<rparr>" R]) (auto simp: forward_ok_def iter_core_def)
    next
      case addr
      then show ?thesis
        using Cons.prems R Cons.hyps(2) by (intro next_back_address[OF f addr(2) Cons.prems(1-3), of cs R]) auto
    next
      case entry
      then show ?thesis
        using Cons.prems R Cons.hyps(2) by (intro next_back_entry[OF f Cons.prems(1-3) _ entry(2-4), of cs R]) auto
    next
      case (child n i h t)
      obtain h' where kid: "subtree W h' (tree_kids t ! i)" "kid_entries i t = inorder (tree_kids t ! i)"
        using subtree_kid[OF child(2,5,4)] by blast
      note n = node_of_tree[OF child(3,2)]
      let ?cs = "if 0 < i then NodeCursor n (AtEntry (i - 1)) # cs else cs"
      have run: "next_back_map K M f it = next_back_map K M f (it\<lparr>it_backward := AddressCursor (tree_addr (tree_kids t ! i)) # ?cs\<rparr>)"
        using Cons.prems(3) Cons.hyps(2)[symmetric] child(1) n(4)[OF child(5,4)] by (subst next_back_map.simps) (simp add: push_backward_def)
      have "backward_stack W ?cs (rev (up_to_entry i t) @ R)"
        using backward_push[OF backward_at_entry[OF child(2,3), of "i - 1"] R(3)] child(4) R(3) by (cases i) (auto simp del: backward_stack.simps)
      then show ?thesis
        unfolding run using Cons.prems R child(6) kid(2)
        by (intro next_back_address[OF f kid(1), of root len r _ L ?cs "rev (up_to_entry i t) @ R"]) (auto simp: forward_ok_def iter_core_def)
    qed
  qed
qed

lemma next_back_map_ok:
  assumes f: "reads_entry es f Q" and it: "iterates W root len r es it L"
  shows "ok (next_back_map K M f it) (yields_back Q W root len r es L)"
proof (cases "it_backward_initialized it")
  case True
  then show ?thesis
    by (rule next_back_initialized[OF f it])
next
  case False
  have c: "iter_core W root len r es it L" "it_backward it = []"
    using it False by (simp_all add: iterates_def backward_ok_def)
  from initialize_backward_ok[OF c(1) False c(2)] obtain m' cs where
    1: "initialize_backward_cursors K M it = Some (it\<lparr>it_map := m', it_backward := cs, it_backward_initialized := True\<rparr>)" "synced m' root len W r"
      "backward_ok W (it\<lparr>it_map := m', it_backward := cs, it_backward_initialized := True\<rparr>) L"
    by (auto elim!: ok_obtain)
  let ?it = "it\<lparr>it_map := m', it_backward := cs, it_backward_initialized := True\<rparr>"
  have "next_back_map K M f it = next_back_map K M f ?it"
    using 1(1) False by (subst (1 2) next_back_map.simps) simp
  moreover have "iterates W root len r es ?it L"
    using it 1(2,3) by (auto simp: iterates_def iter_core_def forward_ok_def)
  ultimately show ?thesis
    using next_back_initialized[OF f, of W root len r ?it L] by simp
qed

section \<open>The iterators of a map\<close>

text \<open>
  An iterator on a map with the entries \<open>es\<close> that has the entries \<open>L\<close> left. An iterator that has been made empty has no range; its
  stacks are.
\<close>

definition spent :: "('s, 'k) iter_internal \<Rightarrow> bool" where
  "spent it \<longleftrightarrow> it_forward_initialized it \<and> it_backward_initialized it \<and> it_forward it = [] \<and> it_backward it = []"

definition iterating :: "node_heap \<Rightarrow> address \<Rightarrow> nat \<Rightarrow> nat \<Rightarrow> ('s, 'k) iter_internal \<Rightarrow> 'k entry list \<Rightarrow> nat \<Rightarrow> 'k entry list \<Rightarrow> bool" where
  "iterating W root len r it es C L \<longleftrightarrow> synced (it_map it) root len W r \<and> (iterates W root len r es it L \<or> spent it \<and> L = []) \<and>
     (\<forall>m'. synced m' root len W r \<longrightarrow> holds m' es C)"

lemma iterates_synced: "iterates W root len r es it L \<Longrightarrow> synced (it_map it) root len W r"
  by (simp add: iterates_def iter_core_def)

lemma iterating_holds: "iterating W root len r it es C L \<Longrightarrow> holds (it_map it) es C"
  by (auto simp: iterating_def)

lemma iterating_upd: "iterating W root len r it es C L \<Longrightarrow> synced m' root len W r \<Longrightarrow> iterating W root len r (it\<lparr>it_map := m'\<rparr>) es C L"
  by (auto simp: iterating_def spent_def iterates_def iter_core_def forward_ok_def backward_ok_def)

lemma holds_subtree:
  assumes m: "holds m es C"
  obtains W root r where "synced m root (length es) W r" "\<And>m'. synced m' root (length es) W r \<Longrightarrow> holds m' es C"
    "root = NULL \<and> es = [] \<or> root \<noteq> NULL \<and> (\<exists>h t. subtree W h t \<and> tree_addr t = root \<and> es = inorder t)"
  using m
proof (cases rule: holds_cases)
  case empty
  then show ?thesis
    using that[of NULL Map.empty C] rooted_empty[of _ 0 Map.empty C Map.empty "{}"] by (auto simp: holds_def content_def evolves_fresh)
next
  case (tree t h W r)
  have "tree_addr t \<noteq> NULL"
    using synced_addr[OF tree(1)] kid_dom[OF tree(2)] by simp
  with tree show ?thesis
    using that[OF tree(1) holds_upd[OF _ tree(2-8)]] by (auto simp: subtree_def)
qed

lemma iter_start:
  assumes m: "holds m es C"
  shows "\<exists>W root len r. iterating W root len r (iter_new m) es C es"
    "\<exists>W root len r. iterating W root len r (range_internal m rg) es C (filter (in_range rg) es)"
    "\<exists>W root len r. iterating W root len r (iter_null m) es C []"
    "es \<noteq> [] \<Longrightarrow> \<exists>W root len r. iterating W root len r (iter_new_in_range m rg) es C (filter (in_range rg) es)"
proof -
  obtain W root r where s: "synced m root (length es) W r" "\<And>m'. synced m' root (length es) W r \<Longrightarrow> holds m' es C"
    "root = NULL \<and> es = [] \<or> root \<noteq> NULL \<and> (\<exists>h t. subtree W h t \<and> tree_addr t = root \<and> es = inorder t)"
    by (rule holds_subtree[OF m]) blast
  have root: "bt_root_addr m = root"
    using syncedD(2)[OF s(1)] .
  have "iterates W root (length es) r es (iter_new m) es" "iterates W root (length es) r es (range_internal m rg) (filter (in_range rg) es)"
    "es \<noteq> [] \<Longrightarrow> iterates W root (length es) r es (iter_new_in_range m rg) (filter (in_range rg) es)"
    using s(1,3) root by (auto simp: iterates_def iter_core_def forward_ok_def backward_ok_def iter_new_def range_internal_def iter_null_def iter_new_in_range_def range_contains_def)
  moreover have "iterating W root (length es) r (iter_null m) es C []"
    using s(1,2) by (simp add: iterating_def spent_def iter_null_def)
  moreover have "iterating W root (length es) r it es C L" if "iterates W root (length es) r es it L" for it L
    using that iterates_synced[OF that] s(2) by (simp add: iterating_def)
  ultimately show "\<exists>W root len r. iterating W root len r (iter_new m) es C es"
    "\<exists>W root len r. iterating W root len r (range_internal m rg) es C (filter (in_range rg) es)"
    "\<exists>W root len r. iterating W root len r (iter_null m) es C []"
    "es \<noteq> [] \<Longrightarrow> \<exists>W root len r. iterating W root len r (iter_new_in_range m rg) es C (filter (in_range rg) es)"
    by blast+
qed

lemma iterating_next:
  assumes f: "reads_entry es f Q" and it: "iterating W root len r it es C L"
  shows "ok (next_map K M f it) (\<lambda>(x, it'). iterating W root len r it' es C (tl L) \<and> (if L = [] then x = None else \<exists>y. x = Some y \<and> Q W (hd L) y))"
    "ok (next_back_map K M f it) (\<lambda>(x, it'). iterating W root len r it' es C (butlast L) \<and> (if L = [] then x = None else \<exists>y. x = Some y \<and> Q W (last L) y))"
proof -
  have "ok (next_map K M f it) (\<lambda>(x, it'). iterating W root len r it' es C (tl L) \<and> (if L = [] then x = None else \<exists>y. x = Some y \<and> Q W (hd L) y)) \<and>
    ok (next_back_map K M f it) (\<lambda>(x, it'). iterating W root len r it' es C (butlast L) \<and> (if L = [] then x = None else \<exists>y. x = Some y \<and> Q W (last L) y))"
  proof (cases "spent it \<and> L = []")
    case True
    then have "next_map K M f it = Some (None, it)" "next_back_map K M f it = Some (None, it)"
      by (subst next_map.simps next_back_map.simps; simp add: spent_def)+
    then show ?thesis
      using True it by simp
  next
    case False
    then have i: "iterates W root len r es it L"
      using it by (auto simp: iterating_def)
    have step: "iterating W root len r it' es C L'" if "iterates W root len r es it' L'" for it' L'
      using that it iterates_synced[OF that] by (simp add: iterating_def)
    show ?thesis
      using next_map_ok[OF f i] next_back_map_ok[OF f i] step by (cases L) (auto simp: yields_def yields_back_def elim!: ok_mono)
  qed
  then show "ok (next_map K M f it) (\<lambda>(x, it'). iterating W root len r it' es C (tl L) \<and> (if L = [] then x = None else \<exists>y. x = Some y \<and> Q W (hd L) y))"
    "ok (next_back_map K M f it) (\<lambda>(x, it'). iterating W root len r it' es C (butlast L) \<and> (if L = [] then x = None else \<exists>y. x = Some y \<and> Q W (last L) y))"
    by blast+
qed

lemma reads_unit: "reads_entry es (\<lambda>node idx s. Some ((), node, s)) (\<lambda>_ _ _. True)"
  by (simp add: reads_entry_def bt_with_memory_def bt_memory_def)

lemma reads_key: "reads_entry es (as_key K M) (\<lambda>W e k. k = fst e)"
  unfolding reads_entry_def as_key_def by (intro allI impI) (drule (2) bt_node_key, auto elim!: ok_mono)

text \<open>\<open>count\<close> goes through the rest of the range.\<close>

lemma count_ok:
  assumes "iterating W root len r it es C L"
  shows "ok (iter_count K M cnt it) (\<lambda>(n, it'). n = cnt + length L \<and> iterating W root len r it' es C [])"
  using assms
proof (induction L arbitrary: it cnt)
  case Nil
  from iterating_next(1)[OF reads_unit Nil] show ?case
    by (subst iter_count.simps) (auto elim!: ok_mono)
next
  case (Cons e L)
  from iterating_next(1)[OF reads_unit Cons.prems] obtain it' where
    1: "next_map K M (\<lambda>node idx s. Some ((), node, s)) it = Some (Some (), it')" "iterating W root len r it' es C L"
    by (auto elim!: ok_obtain)
  show ?case
    using Cons.IH[OF 1(2), of "cnt + 1"] 1(1) by (subst iter_count.simps) simp
qed

text \<open>The entry that a lazy item stands for.\<close>

definition item_is :: "node_heap \<Rightarrow> 'k entry \<Rightarrow> 'k lazy_item \<Rightarrow> bool" where
  "item_is W e li \<longleftrightarrow> (\<exists>an. node_is W (li_node li) an \<and> li_entry_idx li < length (an_entries an) \<and> an_entries an ! li_entry_idx li = e)"

lemma reads_item: "reads_entry es as_item item_is"
  by (auto simp: reads_entry_def as_item_def item_is_def bt_with_memory_def bt_memory_def)

lemma lazy_key_ok:
  assumes "synced m root len W r" "item_is W e li"
  shows "ok (lazy_key K M li (bt_memory m)) (\<lambda>(k, li', s). k = fst e \<and> item_is W e li' \<and> synced (bt_with_memory m s) root len W r)"
  using assms bt_node_key[OF assms(1)] unfolding lazy_key_def item_is_def by (fastforce elim!: ok_mono)

end

end
