(* ===== verification/BTree_Scan.thy ===== *)
theory BTree_Scan
  imports BTree_Spec BTree_Range
begin

text \<open>The iterators of the B-tree map over keys and values, from both ends.\<close>

section \<open>Scans\<close>

datatype scan_end = Front | Back

text \<open>A client of \<open>Iter\<close> that takes an item from one of its ends and converts it into a pair.\<close>

definition item_step ::
  "'k::linorder storable \<Rightarrow> 'v storable \<Rightarrow> 's memory_ops \<Rightarrow> ('s, 'k) iter_internal \<Rightarrow> scan_end \<Rightarrow> (('k \<times> 'v) option \<times> ('s, 'k) iter_internal) option" where
  "item_step K V M it e = do {
     (x, it) \<leftarrow> (case e of Front \<Rightarrow> items_next K M it | Back \<Rightarrow> items_next_back K M it);
     case x of
       None \<Rightarrow> Some (None, it)
     | Some li \<Rightarrow> do {
         (p, s) \<leftarrow> into_pair K V M li (bt_memory (it_map it));
         Some (Some p, it\<lparr>it_map := bt_with_memory (it_map it) s\<rparr>) } }"

definition key_step ::
  "'k::linorder storable \<Rightarrow> 's memory_ops \<Rightarrow> ('s, 'k) iter_internal \<Rightarrow> scan_end \<Rightarrow> ('k option \<times> ('s, 'k) iter_internal) option" where
  "key_step K M it e = (case e of Front \<Rightarrow> keys_next K M it | Back \<Rightarrow> keys_next_back K M it)"

definition value_step ::
  "'k::linorder storable \<Rightarrow> 'v storable \<Rightarrow> 's memory_ops \<Rightarrow> ('s, 'k) iter_internal \<Rightarrow> scan_end \<Rightarrow> ('v option \<times> ('s, 'k) iter_internal) option" where
  "value_step K V M it e = (case e of Front \<Rightarrow> values_next K V M it | Back \<Rightarrow> values_next_back K V M it)"

text \<open>What is taken from an end of a list, and what is left.\<close>

fun pick :: "scan_end \<Rightarrow> 'a list \<Rightarrow> 'a option" where
  "pick e [] = None"
| "pick Front xs = Some (hd xs)"
| "pick Back xs = Some (last xs)"

fun rest :: "scan_end \<Rightarrow> 'a list \<Rightarrow> 'a list" where
  "rest Front xs = tl xs"
| "rest Back xs = butlast xs"

text \<open>\<open>iter_from_prev_key\<close>: the largest key below the bound and all that follow it.\<close>

definition from_prev :: "'k::linorder \<Rightarrow> ('k \<times> 'v) list \<Rightarrow> ('k \<times> 'v) list" where
  "from_prev b xs = (case pick Back (filter (\<lambda>x. fst x < b) xs) of None \<Rightarrow> [] | Some z \<Rightarrow> filter (\<lambda>x. fst z \<le> fst x) xs)"

text \<open>Any number of items, from the ends that the client chooses.\<close>

fun run_steps :: "('i \<Rightarrow> scan_end \<Rightarrow> ('a \<times> 'i) option) \<Rightarrow> 'i \<Rightarrow> scan_end list \<Rightarrow> ('a list \<times> 'i) option" where
  "run_steps f it [] = Some ([], it)"
| "run_steps f it (e # es) = do { (x, it) \<leftarrow> f it e; (xs, it) \<leftarrow> run_steps f it es; Some (x # xs, it) }"

fun picks :: "scan_end list \<Rightarrow> 'a list \<Rightarrow> 'a option list" where
  "picks [] xs = []"
| "picks (e # es) xs = pick e xs # picks es (rest e xs)"

lemma run_steps_ok:
  assumes "\<And>it ys e. P it ys \<Longrightarrow> ok (f it e) (\<lambda>(x, it'). x = g (pick e ys) \<and> P it' (rest e ys))" "P it ys"
  shows "ok (run_steps f it es) (\<lambda>(xs, it'). xs = map g (picks es ys) \<and> (\<exists>ys'. P it' ys'))"
  using assms(2)
proof (induction es arbitrary: it ys)
  case (Cons e es)
  from assms(1)[OF Cons.prems, of e] obtain it' where 1: "f it e = Some (g (pick e ys), it')" "P it' (rest e ys)"
    by (auto elim!: ok_obtain)
  from Cons.IH[OF 1(2)] 1(1) show ?case
    by (auto elim!: ok_mono)
qed auto

lemma pick_map: "pick e (map f xs) = map_option f (pick e xs)" "rest e (map f xs) = map f (rest e xs)"
  by (cases e; cases xs; simp add: last_map map_butlast)+

lemma pick_set: "pick e xs = Some x \<Longrightarrow> x \<in> set xs"
  by (cases e; cases xs) (auto split: if_splits)

lemma pick_None: "pick e xs = None \<longleftrightarrow> xs = []"
  by (cases e; cases xs) auto

context btree_values
begin

definition scans :: "('s, 'k) iter_internal \<Rightarrow> ('k \<times> 'v) list \<Rightarrow> nat \<Rightarrow> ('k \<times> 'v) list \<Rightarrow> bool" where
  "scans it xs C ys \<longleftrightarrow> (\<forall>(k, v) \<in> set xs. vvalid v) \<and> set ys \<subseteq> set xs \<and> (\<exists>W root len r. iterating W root len r it (encoded V xs) C (encoded V ys))"

lemma scans_is_map: "scans it xs C ys \<Longrightarrow> is_map (it_map it) xs C"
  by (auto simp: scans_def is_map_def dest: iterating_holds)

lemma scans_upd:
  assumes "scans it xs C ys" "iterating W root len r it (encoded V xs) C (encoded V ys)" "synced m' root len W r"
  shows "scans (it\<lparr>it_map := m'\<rparr>) xs C ys"
  using assms(1) iterating_upd[OF assms(2,3)] by (auto simp: scans_def)

lemma filter_encoded: "filter (in_range rg) (encoded V xs) = encoded V (filter (\<lambda>x. range_contains rg (fst x)) xs)"
  by (simp add: filter_map comp_def)

lemma scan_start:
  assumes m: "is_map m xs C"
  shows "scans (btree_iter_internal m) xs C xs" "scans (range_internal m rg) xs C (filter (\<lambda>x. range_contains rg (fst x)) xs)" "scans (iter_null m) xs C []"
    "xs \<noteq> [] \<Longrightarrow> scans (iter_new_in_range m rg) xs C (filter (\<lambda>x. range_contains rg (fst x)) xs)"
  using iter_start(1,3)[OF is_mapD(1)[OF m]] iter_start(2,4)[OF is_mapD(1)[OF m], of rg, unfolded filter_encoded] m
  by (simp_all add: scans_def is_map_def btree_iter_internal_def)

lemma scan_read:
  assumes f: "reads_entry (encoded V xs) f Q" and it: "scans it xs C ys"
  shows "ok (case e of Front \<Rightarrow> next_map K M f it | Back \<Rightarrow> next_back_map K M f it) (\<lambda>(x, it'). scans it' xs C (rest e ys) \<and>
    (case pick e ys of None \<Rightarrow> x = None | Some z \<Rightarrow> \<exists>y W root len r. x = Some y \<and> z \<in> set xs \<and> Q W (apsnd (enc V) z) y \<and>
      iterating W root len r it' (encoded V xs) C (encoded V (rest e ys))))"
proof -
  obtain W root len r where i: "iterating W root len r it (encoded V xs) C (encoded V ys)" and v: "\<forall>(k, v) \<in> set xs. vvalid v" "set ys \<subseteq> set xs"
    using it by (auto simp: scans_def)
  have sub: "set (rest e ys) \<subseteq> set xs"
    using v(2) by (cases e; cases ys) (auto dest: in_set_butlastD)
  have s: "scans it' xs C (rest e ys)" if "iterating W root len r it' (encoded V xs) C (encoded V (rest e ys))" for it'
    using that v(1) sub by (auto simp: scans_def)
  show ?thesis
  proof (cases "ys = []")
    case True
    then show ?thesis
      using iterating_next[OF f i] s by (cases e) (auto elim!: ok_mono)
  next
    case False
    then have z: "pick Front ys = Some (hd ys)" "pick Back ys = Some (last ys)" "hd ys \<in> set xs" "last ys \<in> set xs" "hd (encoded V ys) = apsnd (enc V) (hd ys)"
      "last (encoded V ys) = apsnd (enc V) (last ys)"
      using v(2) hd_in_set[OF False] last_in_set[OF False] by (cases ys; auto simp: last_map)+
    show ?thesis
      using iterating_next[OF f i] False s z by (cases e) (fastforce simp: map_tl map_butlast elim!: ok_mono)+
  qed
qed

lemma key_step_ok:
  assumes "scans it xs C ys"
  shows "ok (key_step K M it e) (\<lambda>(x, it'). x = map_option fst (pick e ys) \<and> scans it' xs C (rest e ys))"
  using scan_read[OF reads_key assms, of e] unfolding key_step_def keys_next_def keys_next_back_def
  by (cases e; cases "pick e ys") (auto elim!: ok_mono)

lemma reads_value:
  assumes "\<forall>(k, v) \<in> set xs. vvalid v"
  shows "reads_entry (encoded V xs) (as_value V M) (\<lambda>W e v. from_bytes V (snd e) = Some v)"
  unfolding reads_entry_def
proof (intro allI impI)
  fix m root len W r n an i
  assume a: "synced m root len W r" "node_is W n an" "i < length (an_entries an)" "an_entries an ! i \<in> set (encoded V xs)"
  then obtain k v where "an_entries an ! i = (k, enc V v)" "(k, v) \<in> set xs"
    by auto
  then have "from_bytes V (snd (an_entries an ! i)) = Some v"
    using assms enc_ok(2)[of v] by auto
  with bt_node_value[OF a(1-3)] show "ok (as_value V M n i (bt_memory m)) (\<lambda>(x, n', s). from_bytes V (snd (an_entries an ! i)) = Some x \<and> node_is W n' an \<and>
      synced (bt_with_memory m s) root len W r)"
    unfolding as_value_def by (auto elim!: ok_mono)
qed

lemma value_step_ok:
  assumes it: "scans it xs C ys"
  shows "ok (value_step K V M it e) (\<lambda>(x, it'). x = map_option snd (pick e ys) \<and> scans it' xs C (rest e ys))"
proof -
  have v: "\<forall>(k, v) \<in> set xs. vvalid v"
    using it by (simp add: scans_def)
  then have dec: "from_bytes V (enc V (snd z)) = Some (snd z)" if "z \<in> set xs" for z
    using that enc_ok(2)[of "snd z"] by (cases z) auto
  show ?thesis
    using scan_read[OF reads_value[OF v] it, of e] dec unfolding value_step_def values_next_def values_next_back_def
    by (cases e; cases "pick e ys") (auto elim!: ok_mono)
qed

lemma into_pair_ok:
  assumes m: "synced m root len W r" and li: "item_is W (apsnd (enc V) z) li" and v: "vvalid (snd z)"
  shows "ok (into_pair K V M li (bt_memory m)) (\<lambda>(p, s). p = z \<and> synced (bt_with_memory m s) root len W r)"
proof -
  from lazy_key_ok[OF m li] obtain li1 s1 where
    1: "lazy_key K M li (bt_memory m) = Some (fst z, li1, s1)" "item_is W (apsnd (enc V) z) li1" "synced (bt_with_memory m s1) root len W r"
    by (auto elim!: ok_obtain)
  obtain an where an: "node_is W (li_node li1) an" "li_entry_idx li1 < length (an_entries an)" "an_entries an ! li_entry_idx li1 = apsnd (enc V) z"
    using 1(2) by (auto simp: item_is_def)
  from bt_node_value[OF 1(3) an(1,2)] 1(1) an(3) enc_ok(2)[OF v] show ?thesis
    unfolding into_pair_def lazy_value_def by (auto elim!: ok_mono)
qed

lemma item_step_ok:
  assumes it: "scans it xs C ys"
  shows "ok (item_step K V M it e) (\<lambda>(x, it'). x = pick e ys \<and> scans it' xs C (rest e ys))"
proof -
  have run: "item_step K V M it e = do { (x, it) \<leftarrow> (case e of Front \<Rightarrow> next_map K M as_item it | Back \<Rightarrow> next_back_map K M as_item it);
      case x of None \<Rightarrow> Some (None, it) | Some li \<Rightarrow> do {
         (p, s) \<leftarrow> into_pair K V M li (bt_memory (it_map it));
         Some (Some p, it\<lparr>it_map := bt_with_memory (it_map it) s\<rparr>) } }"
    by (cases e) (simp_all add: item_step_def items_next_def items_next_back_def)
  show ?thesis
    unfolding run ok_bind
  proof (rule ok_mono[OF scan_read[OF reads_item it, of e]], clarify)
    fix x it'
    assume s: "scans it' xs C (rest e ys)" and x: "case pick e ys of None \<Rightarrow> x = None | Some z \<Rightarrow> \<exists>y W root len r. x = Some y \<and> z \<in> set xs \<and> item_is W (apsnd (enc V) z) y \<and>
      iterating W root len r it' (encoded V xs) C (encoded V (rest e ys))"
    show "ok (case x of None \<Rightarrow> Some (None, it') | Some li \<Rightarrow> do {
         (p, s) \<leftarrow> into_pair K V M li (bt_memory (it_map it'));
         Some (Some p, it'\<lparr>it_map := bt_with_memory (it_map it') s\<rparr>) }) (\<lambda>(x, it'). x = pick e ys \<and> scans it' xs C (rest e ys))"
    proof (cases "pick e ys")
      case None
      then show ?thesis
        using x s by simp
    next
      case (Some z)
      then obtain y W root len r where y: "x = Some y" "z \<in> set xs" "item_is W (apsnd (enc V) z) y" "iterating W root len r it' (encoded V xs) C (encoded V (rest e ys))"
        using x by auto
      have "synced (it_map it') root len W r" "vvalid (snd z)"
        using y(2,4) s by (auto simp: iterating_def scans_def case_prod_beta)
      from into_pair_ok[OF this(1) y(3) this(2)] show ?thesis
        using y(1) Some scans_upd[OF s y(4)] by (auto elim!: ok_mono)
    qed
  qed
qed

lemma scan_count_ok:
  assumes "scans it xs C ys"
  shows "ok (iter_count K M 0 it) (\<lambda>(n, it'). n = length ys \<and> scans it' xs C [])"
proof -
  obtain W root len r where i: "iterating W root len r it (encoded V xs) C (encoded V ys)" and v: "\<forall>(k, v) \<in> set xs. vvalid v"
    using assms by (auto simp: scans_def)
  have "scans it' xs C []" if "iterating W root len r it' (encoded V xs) C []" for it'
    using that v by (auto simp: scans_def)
  then show ?thesis
    using count_ok[OF i, of 0] by (auto elim!: ok_mono)
qed

lemma from_prev_ok:
  assumes m: "is_map m xs C"
  shows "ok (iter_from_prev_key K M m b) (\<lambda>it. scans it xs C (from_prev b xs))"
proof -
  let ?ys = "filter (\<lambda>x. fst x < b) xs"
  have "scans (range_internal m (NoBound, Excluded b)) xs C ?ys"
    using scan_start(2)[OF m, of "(NoBound, Excluded b)"] by (simp add: range_contains_def)
  from scan_read[OF reads_item this, of Back] obtain x it where
    1: "items_next_back K M (range_internal m (NoBound, Excluded b)) = Some (x, it)" "scans it xs C (rest Back ?ys)"
      "case pick Back ?ys of None \<Rightarrow> x = None | Some z \<Rightarrow> \<exists>y W root len r. x = Some y \<and> z \<in> set xs \<and> item_is W (apsnd (enc V) z) y \<and>
        iterating W root len r it (encoded V xs) C (encoded V (rest Back ?ys))"
    by (auto simp: items_next_back_def simp del: rest.simps elim!: ok_obtain)
  show ?thesis
  proof (cases "pick Back ?ys")
    case None
    then show ?thesis
      using 1 scan_start(3)[OF scans_is_map[OF 1(2)]] by (simp add: iter_from_prev_key_def btree_range_def from_prev_def)
  next
    case (Some z)
    then obtain y W root len r where y: "x = Some y" "z \<in> set xs" "item_is W (apsnd (enc V) z) y" "iterating W root len r it (encoded V xs) C (encoded V (rest Back ?ys))"
      using 1(3) by auto
    have "synced (it_map it) root len W r"
      using y(4) by (simp add: iterating_def)
    from lazy_key_ok[OF this y(3)] obtain li s where
      2: "lazy_key K M y (bt_memory (it_map it)) = Some (fst z, li, s)" "synced (bt_with_memory (it_map it) s) root len W r"
      by (auto elim!: ok_obtain)
    have "scans (it\<lparr>it_map := bt_with_memory (it_map it) s\<rparr>) xs C (rest Back ?ys)"
      by (rule scans_upd[OF 1(2) y(4) 2(2)])
    then have "is_map (bt_with_memory (it_map it) s) xs C"
      using scans_is_map by force
    moreover have "xs \<noteq> []"
      using y(2) by auto
    ultimately have "scans (iter_new_in_range (bt_with_memory (it_map it) s) (Included (fst z), NoBound)) xs C (filter (\<lambda>x. fst z \<le> fst x) xs)"
      using scan_start(4)[of "bt_with_memory (it_map it) s" xs C "(Included (fst z), NoBound)"] by (simp add: range_contains_def)
    then show ?thesis
      using y(1) 1(1) 2(1) Some by (simp add: iter_from_prev_key_def btree_range_def from_prev_def)
  qed
qed

end

end
