(* ===== verification/BTree_Client.thy ===== *)
theory BTree_Client
  imports BTree_Scan
begin

text \<open>
  The B-tree map on any memory and any types of keys and values that meet their contracts: what its
  operations do, stated over finite maps.
\<close>

section \<open>The representation\<close>

text \<open>
  The map \<open>m\<close> in memory has the entries \<open>xs\<close>, in the order of their keys, and room for \<open>C\<close> nodes in all. \<open>kb\<close> and \<open>vb\<close>
  bound the sizes of the keys and values.
\<close>

definition btree_rep ::
  "'s memory_ops \<Rightarrow> ('s \<Rightarrow> bool) \<Rightarrow> ('s \<Rightarrow> bytes) \<Rightarrow> ('s \<Rightarrow> nat) \<Rightarrow> 'k::linorder storable \<Rightarrow> ('k \<Rightarrow> bool) \<Rightarrow> 'v storable \<Rightarrow> ('v \<Rightarrow> bool) \<Rightarrow>
   nat \<Rightarrow> nat \<Rightarrow> 's btree_map \<Rightarrow> ('k \<times> 'v) list \<Rightarrow> nat \<Rightarrow> bool" where
  "btree_rep M minv contents cap K vk V vv kb vb m xs C \<longleftrightarrow> memory M minv contents cap \<and> (\<exists>sz pg.
     btree_values M ALLOCATOR_OFFSET sz (page_rep minv contents cap ALLOCATOR_OFFSET sz) K vk pg kb vb V vv \<and>
     btree_values.is_map sz (page_rep minv contents cap ALLOCATOR_OFFSET sz) K vk pg kb vb V vv m xs C)"

lemma btree_repE:
  assumes "btree_rep M minv contents cap K vk V vv kb vb m xs C"
  obtains sz pg where "btree_values M ALLOCATOR_OFFSET sz (page_rep minv contents cap ALLOCATOR_OFFSET sz) K vk pg kb vb V vv"
    "btree_values.is_map sz (page_rep minv contents cap ALLOCATOR_OFFSET sz) K vk pg kb vb V vv m xs C"
    "\<And>m' xs'. btree_values.is_map sz (page_rep minv contents cap ALLOCATOR_OFFSET sz) K vk pg kb vb V vv m' xs' C \<Longrightarrow>
      btree_rep M minv contents cap K vk V vv kb vb m' xs' C"
  using assms unfolding btree_rep_def by blast

text \<open>What the types of keys and values have to provide.\<close>

definition btree_types :: "'k storable \<Rightarrow> ('k \<Rightarrow> bool) \<Rightarrow> 'v storable \<Rightarrow> ('v \<Rightarrow> bool) \<Rightarrow> nat \<Rightarrow> nat \<Rightarrow> bool" where
  "btree_types K vk V vv kb vb \<longleftrightarrow> storable_type K vk \<and> storable_type V vv \<and> kb \<le> U32_MAX \<and> vb \<le> U32_MAX \<and>
     (\<forall>k. vk k \<longrightarrow> length (key_bytes K k) \<le> kb) \<and> (\<forall>v. vv v \<longrightarrow> length (enc V v) \<le> vb)"

text \<open>The bytes that \<open>C\<close> nodes of pages of size \<open>sz\<close> can take: each has a first page and the overflow pages of its largest contents.\<close>

definition btree_bytes :: "nat \<Rightarrow> nat \<Rightarrow> nat \<Rightarrow> nat \<Rightarrow> nat" where
  "btree_bytes sz kb vb C = ALLOCATOR_OFFSET + 64 + (C + C * pages_needed sz (199 + 11 * (kb + vb))) * (sz + 16)"

lemma btree_values_on:
  assumes "memory M minv contents cap" "btree_types K vk V vv kb vb" "128 \<le> sz" "sz \<le> U32_MAX"
  shows "btree_values M ALLOCATOR_OFFSET sz (page_rep minv contents cap ALLOCATOR_OFFSET sz) K vk (PageValue sz) kb vb V vv"
  using assms memory.allocator_page_store[OF assms(1), of ALLOCATOR_OFFSET sz]
  by (simp add: btree_types_def btree_values_def btree_values_axioms_def btree_store_def btree_store_axioms_def btree_nodes_def btree_nodes_axioms_def
      node_ops_def node_ops_axioms_def)

text \<open>A map that has just been made is empty, whatever its version.\<close>

lemma empty_rep:
  assumes M: "memory M minv contents cap" and s: "minv s" and sz: "sz \<le> U32_MAX * 64"
    and L: "btree_values M ALLOCATOR_OFFSET sz (page_rep minv contents cap ALLOCATOR_OFFSET sz) K vk (version_page_size v) kb vb V vv"
    and room: "btree_bytes sz kb vb C \<le> cap s * WASM_PAGE_SIZE"
  shows "ok (do {
      allocator \<leftarrow> allocator_new M s ALLOCATOR_OFFSET sz;
      save_header M \<lparr>bt_root_addr = NULL, bt_version = v, bt_allocator = allocator, bt_length = 0\<rparr> })
    (\<lambda>m. btree_rep M minv contents cap K vk V vv kb vb m [] C)"
proof -
  let ?H = ALLOCATOR_OFFSET and ?prep = "page_rep minv contents cap ALLOCATOR_OFFSET sz" and ?pg = "version_page_size v"
  have S: "btree_store M ?H sz ?prep K vk ?pg kb vb"
    using L by (simp add: btree_values_def)
  have N: "btree_nodes M ?H sz ?prep K vk ?pg kb vb" and P: "page_store M ?H sz ?prep"
    using S by (simp_all add: btree_store_def btree_nodes_def node_ops_def)
  let ?r = "C + C * pages_needed sz (199 + 11 * (kb + vb))"
  have "?H + 64 \<le> cap s * WASM_PAGE_SIZE" "sz \<le> U64_MAX"
    using room sz unfolding btree_bytes_def by linarith+
  from memory.allocator_new_ok[OF M s this(1), of sz] this(2) obtain a where
    a: "allocator_new M s ?H sz = Some a" "minv (al_memory a)" "alloc_inv (contents (al_memory a)) a [] 0" "al_header_addr a = ?H" "al_allocation_size a = sz"
      "cap (al_memory a) = cap s"
    by (auto elim!: ok_obtain)
  have "alloc_rep minv contents cap a {} ?r"
    unfolding alloc_rep_def using a room by (intro conjI exI[of _ "[]"] exI[of _ 0]) (simp_all add: in_use_def btree_bytes_def algebra_simps)
  then have "?prep a (take ?H (contents (al_memory a))) Map.empty ?r"
    using a(4,5) by (simp add: page_rep_def)
  then have "page_store.heap sz ?prep a (take ?H (contents (al_memory a))) Map.empty ?r"
    unfolding page_store.heap_def[OF P] by (intro exI[of _ Map.empty]) (simp add: heap_pages_def pages_of_def)
  then have nodes: "btree_nodes.nodes sz ?prep kb vb a (take ?H (contents (al_memory a))) Map.empty C"
    by (simp add: btree_nodes.nodes_def[OF N] btree_nodes.most_def[OF N] btree_nodes.spare_def[OF N])
  let ?m = "\<lparr>bt_root_addr = NULL, bt_version = v, bt_allocator = a, bt_length = 0\<rparr>"
  have "ok (save_header M ?m) (\<lambda>m'. btree_store.synced sz ?prep ?pg kb vb m' NULL 0 Map.empty C)"
    using btree_store.save_header_ok[OF S, of ?m _ Map.empty C] nodes by simp
  moreover have "btree_rep M minv contents cap K vk V vv kb vb m' [] C" if "btree_store.synced sz ?prep ?pg kb vb m' NULL 0 Map.empty C" for m'
    unfolding btree_rep_def using M L btree_store.rooted_empty[OF S that, of Map.empty "{}"]
    by (intro conjI exI[of _ sz] exI[of _ ?pg]) (simp_all add: btree_values.is_map_def[OF L] btree_store.holds_def[OF S] btree_store.content_def[OF S] evolves_fresh)
  ultimately show ?thesis
    using a(1) by (auto elim!: ok_mono)
qed

lemma new_rep:
  assumes M: "memory M minv contents cap" and T: "btree_types K vk V vv kb vb" and s: "minv s"
    and p: "new_page_size K V = Some (PageValue sz)" "128 \<le> sz" "sz \<le> U32_MAX" and room: "btree_bytes sz kb vb C \<le> cap s * WASM_PAGE_SIZE"
  shows "ok (btree_new K V M s) (\<lambda>m. btree_rep M minv contents cap K vk V vv kb vb m [] C)"
  using empty_rep[OF M s _ _ room, of K vk "V2 (PageValue sz)"] btree_values_on[OF M T p(2,3)] p by (simp add: btree_new_def)

text \<open>The operations, on the list of entries.\<close>

lemma rep_sorted: "btree_rep M minv contents cap K vk V vv kb vb m xs C \<Longrightarrow> sorted_keys xs"
  by (erule btree_repE) (rule btree_values.is_map_sorted)

lemma rep_len:
  assumes "btree_rep M minv contents cap K vk V vv kb vb m xs C"
  shows "btree_len m = length xs" "btree_is_empty m \<longleftrightarrow> xs = []"
  using assms by (auto elim!: btree_repE simp: btree_values.len_ok)

lemma rep_root: "btree_rep M minv contents cap K vk V vv kb vb m xs C \<Longrightarrow> bt_root_addr m = NULL \<longleftrightarrow> xs = []"
  by (erule btree_repE) (auto simp: btree_values_def btree_store.holds_root dest!: btree_values.is_mapD(1)[rotated])

lemma rep_insert:
  assumes m: "btree_rep M minv contents cap K vk V vv kb vb m xs C" and "vk k" "vv v" "2 * (length xs div 5) + 4 \<le> C"
  shows "ok (btree_insert K V M m k v) (\<lambda>(old, m'). old = map_of xs k \<and> btree_rep M minv contents cap K vk V vv kb vb m' (ins k v xs) C)"
  by (rule btree_repE[OF m]) (auto intro!: ok_mono[OF btree_values.insert_ok] simp: assms)

lemma rep_get:
  assumes m: "btree_rep M minv contents cap K vk V vv kb vb m xs C"
  shows "ok (btree_get K V M m k) (\<lambda>(v, m'). v = map_of xs k \<and> btree_rep M minv contents cap K vk V vv kb vb m' xs C)"
  by (rule btree_repE[OF m]) (auto intro!: ok_mono[OF btree_values.get_ok])

lemma rep_contains_key:
  assumes m: "btree_rep M minv contents cap K vk V vv kb vb m xs C"
  shows "ok (btree_contains_key K M m k) (\<lambda>(b, m'). b = (map_of xs k \<noteq> None) \<and> btree_rep M minv contents cap K vk V vv kb vb m' xs C)"
  by (rule btree_repE[OF m]) (rule ok_mono[OF btree_values.contains_key_ok], auto)

lemma rep_remove:
  assumes m: "btree_rep M minv contents cap K vk V vv kb vb m xs C"
  shows "ok (btree_remove K V M m k) (\<lambda>(v, m'). v = map_of xs k \<and> btree_rep M minv contents cap K vk V vv kb vb m' (del k xs) C)"
  by (rule btree_repE[OF m]) (auto intro!: ok_mono[OF btree_values.remove_ok])

lemma rep_ends:
  assumes m: "btree_rep M minv contents cap K vk V vv kb vb m xs C"
  shows "ok (btree_first_key_value K V M m) (\<lambda>(e, m'). e = (if xs = [] then None else Some (hd xs)) \<and> btree_rep M minv contents cap K vk V vv kb vb m' xs C)"
    "ok (btree_last_key_value K V M m) (\<lambda>(e, m'). e = (if xs = [] then None else Some (last xs)) \<and> btree_rep M minv contents cap K vk V vv kb vb m' xs C)"
    "ok (btree_pop_first K V M m) (\<lambda>(e, m'). e = (if xs = [] then None else Some (hd xs)) \<and> btree_rep M minv contents cap K vk V vv kb vb m' (tl xs) C)"
    "ok (btree_pop_last K V M m) (\<lambda>(e, m'). e = (if xs = [] then None else Some (last xs)) \<and> btree_rep M minv contents cap K vk V vv kb vb m' (butlast xs) C)"
  by (rule btree_repE[OF m], rule ok_mono[OF btree_values.ends_ok(1)], assumption+, force)
    (rule btree_repE[OF m], rule ok_mono[OF btree_values.ends_ok(2)], assumption+, force,
     rule btree_repE[OF m], rule ok_mono[OF btree_values.ends_ok(3)], assumption+, force,
     rule btree_repE[OF m], rule ok_mono[OF btree_values.ends_ok(4)], assumption+, force)

lemma rep_clear_new:
  assumes m: "btree_rep M minv contents cap K vk V vv kb vb m xs C"
  shows "ok (btree_clear_new M m) (\<lambda>m'. btree_rep M minv contents cap K vk V vv kb vb m' [] C)"
  by (rule btree_repE[OF m]) (rule ok_mono[OF btree_values.clear_new_ok], auto)

lemma rep_load:
  assumes m: "btree_rep M minv contents cap K vk V vv kb vb m xs C"
  shows "ok (btree_load K V M (btree_into_memory m)) (\<lambda>m'. btree_rep M minv contents cap K vk V vv kb vb m' xs C \<and> bt_version m' = migrated (bt_version m))"
  by (rule btree_repE[OF m]) (rule ok_mono[OF btree_values.load_ok], auto)

text \<open>What is known of the memory of a map. Initialising a map on it finds the magic and loads the map.\<close>

lemma rep_memory:
  assumes m: "btree_rep M minv contents cap K vk V vv kb vb m xs C"
  shows "minv (btree_into_memory m)" "\<exists>fs n. alloc_inv (contents (btree_into_memory m)) (bt_allocator m) fs n"
proof -
  obtain sz pg where L: "btree_values M ALLOCATOR_OFFSET sz (page_rep minv contents cap ALLOCATOR_OFFSET sz) K vk pg kb vb V vv"
    and m': "btree_values.is_map sz (page_rep minv contents cap ALLOCATOR_OFFSET sz) K vk pg kb vb V vv m xs C"
    by (rule btree_repE[OF m]) blast
  have S: "btree_store M ALLOCATOR_OFFSET sz (page_rep minv contents cap ALLOCATOR_OFFSET sz) K vk pg kb vb"
    using L by (simp add: btree_values_def)
  obtain h D r where "page_rep minv contents cap ALLOCATOR_OFFSET sz (bt_allocator m) h D r"
    using btree_store.holds_prep[OF S btree_values.is_mapD(1)[OF L m']] by blast
  then show "minv (btree_into_memory m)" "\<exists>fs n. alloc_inv (contents (btree_into_memory m)) (bt_allocator m) fs n"
    by (auto simp: page_rep_def alloc_rep_def btree_into_memory_def)
qed

lemma rep_size:
  assumes m: "btree_rep M minv contents cap K vk V vv kb vb m xs C"
  shows "\<exists>n. size_op M (btree_into_memory m) = Some n \<and> n \<noteq> 0"
proof -
  have M: "memory M minv contents cap"
    using m by (simp add: btree_rep_def)
  obtain fs n where "alloc_inv (contents (btree_into_memory m)) (bt_allocator m) fs n"
    using rep_memory(2)[OF m] by blast
  then show ?thesis
    using rep_memory(1)[OF m] memory.size_law[OF M] memory.size_bytes[OF M, of "btree_into_memory m"]
      alloc_invD(4)[of "contents (btree_into_memory m)" "bt_allocator m" fs n] by force
qed

lemma rep_init:
  assumes m: "btree_rep M minv contents cap K vk V vv kb vb m xs C"
  shows "ok (btree_init K V M (btree_into_memory m)) (\<lambda>m'. btree_rep M minv contents cap K vk V vv kb vb m' xs C \<and> bt_version m' = migrated (bt_version m))"
proof -
  obtain n where n: "size_op M (btree_into_memory m) = Some n" "n \<noteq> 0"
    using rep_size[OF m] by blast
  have "ok (read_op M (bt_memory m) 0 3) (\<lambda>(bs, s). bs = BTREE_MAGIC \<and> btree_rep M minv contents cap K vk V vv kb vb (bt_with_memory m s) xs C)"
    by (rule btree_repE[OF m]) (rule ok_mono[OF btree_values.magic_ok], auto)
  then obtain s where s: "read_op M (btree_into_memory m) 0 3 = Some (BTREE_MAGIC, s)"
    and m': "btree_rep M minv contents cap K vk V vv kb vb (bt_with_memory m s) xs C"
    by (auto simp: bt_memory_def btree_into_memory_def elim!: ok_obtain)
  from rep_load[OF m'] show ?thesis
    unfolding btree_init_def using n s by (simp add: btree_into_memory_def bt_with_memory_def)
qed

text \<open>The iterators: \<open>ys\<close> is what is left.\<close>

definition btree_scan ::
  "'s memory_ops \<Rightarrow> ('s \<Rightarrow> bool) \<Rightarrow> ('s \<Rightarrow> bytes) \<Rightarrow> ('s \<Rightarrow> nat) \<Rightarrow> 'k::linorder storable \<Rightarrow> ('k \<Rightarrow> bool) \<Rightarrow> 'v storable \<Rightarrow> ('v \<Rightarrow> bool) \<Rightarrow>
   nat \<Rightarrow> nat \<Rightarrow> ('s, 'k) iter_internal \<Rightarrow> ('k \<times> 'v) list \<Rightarrow> nat \<Rightarrow> ('k \<times> 'v) list \<Rightarrow> bool" where
  "btree_scan M minv contents cap K vk V vv kb vb it xs C ys \<longleftrightarrow> memory M minv contents cap \<and> (\<exists>sz pg.
     btree_values M ALLOCATOR_OFFSET sz (page_rep minv contents cap ALLOCATOR_OFFSET sz) K vk pg kb vb V vv \<and>
     btree_values.scans sz (page_rep minv contents cap ALLOCATOR_OFFSET sz) K vk pg kb vb V vv it xs C ys)"

lemma btree_scanE:
  assumes "btree_scan M minv contents cap K vk V vv kb vb it xs C ys"
  obtains sz pg where "btree_values M ALLOCATOR_OFFSET sz (page_rep minv contents cap ALLOCATOR_OFFSET sz) K vk pg kb vb V vv"
    "btree_values.scans sz (page_rep minv contents cap ALLOCATOR_OFFSET sz) K vk pg kb vb V vv it xs C ys"
    "\<And>it' ys'. btree_values.scans sz (page_rep minv contents cap ALLOCATOR_OFFSET sz) K vk pg kb vb V vv it' xs C ys' \<Longrightarrow>
      btree_scan M minv contents cap K vk V vv kb vb it' xs C ys'"
  using assms unfolding btree_scan_def by blast

lemma scan_rep: "btree_scan M minv contents cap K vk V vv kb vb it xs C ys \<Longrightarrow> btree_rep M minv contents cap K vk V vv kb vb (it_map it) xs C"
  unfolding btree_scan_def btree_rep_def using btree_values.scans_is_map by blast

lemma rep_scan:
  assumes m: "btree_rep M minv contents cap K vk V vv kb vb m xs C"
  shows "btree_scan M minv contents cap K vk V vv kb vb (btree_iter_internal m) xs C xs"
    "btree_scan M minv contents cap K vk V vv kb vb (range_internal m rg) xs C (filter (\<lambda>x. range_contains rg (fst x)) xs)"
    "ok (iter_from_prev_key K M m b) (\<lambda>it. btree_scan M minv contents cap K vk V vv kb vb it xs C (from_prev b xs))"
proof -
  obtain sz pg where L: "btree_values M ALLOCATOR_OFFSET sz (page_rep minv contents cap ALLOCATOR_OFFSET sz) K vk pg kb vb V vv"
    and m': "btree_values.is_map sz (page_rep minv contents cap ALLOCATOR_OFFSET sz) K vk pg kb vb V vv m xs C" and M: "memory M minv contents cap"
    using m unfolding btree_rep_def by blast
  have s: "btree_scan M minv contents cap K vk V vv kb vb it xs C ys"
    if "btree_values.scans sz (page_rep minv contents cap ALLOCATOR_OFFSET sz) K vk pg kb vb V vv it xs C ys" for it ys
    unfolding btree_scan_def using that L M by blast
  show "btree_scan M minv contents cap K vk V vv kb vb (btree_iter_internal m) xs C xs"
    "btree_scan M minv contents cap K vk V vv kb vb (range_internal m rg) xs C (filter (\<lambda>x. range_contains rg (fst x)) xs)"
    by (rule s[OF btree_values.scan_start(1)[OF L m']]) (rule s[OF btree_values.scan_start(2)[OF L m']])
  show "ok (iter_from_prev_key K M m b) (\<lambda>it. btree_scan M minv contents cap K vk V vv kb vb it xs C (from_prev b xs))"
    by (rule ok_mono[OF btree_values.from_prev_ok[OF L m']]) (rule s)
qed

lemma scan_steps:
  assumes it: "btree_scan M minv contents cap K vk V vv kb vb it xs C ys"
  shows "ok (item_step K V M it e) (\<lambda>(x, it'). x = pick e ys \<and> btree_scan M minv contents cap K vk V vv kb vb it' xs C (rest e ys))"
    "ok (key_step K M it e) (\<lambda>(x, it'). x = map_option fst (pick e ys) \<and> btree_scan M minv contents cap K vk V vv kb vb it' xs C (rest e ys))"
    "ok (value_step K V M it e) (\<lambda>(x, it'). x = map_option snd (pick e ys) \<and> btree_scan M minv contents cap K vk V vv kb vb it' xs C (rest e ys))"
    "ok (iter_count K M 0 it) (\<lambda>(n, it'). n = length ys \<and> btree_scan M minv contents cap K vk V vv kb vb it' xs C [])"
  by (rule btree_scanE[OF it], rule ok_mono[OF btree_values.item_step_ok], assumption+, force)
    (rule btree_scanE[OF it], rule ok_mono[OF btree_values.key_step_ok], assumption+, force,
     rule btree_scanE[OF it], rule ok_mono[OF btree_values.value_step_ok], assumption+, force,
     rule btree_scanE[OF it], rule ok_mono[OF btree_values.scan_count_ok], assumption+, force)

lemma scan_runs:
  assumes it: "btree_scan M minv contents cap K vk V vv kb vb it xs C ys"
  shows "ok (run_steps (item_step K V M) it es) (\<lambda>(rs, it'). rs = picks es ys \<and> btree_rep M minv contents cap K vk V vv kb vb (it_map it') xs C)"
    "ok (run_steps (key_step K M) it es) (\<lambda>(rs, it'). rs = map (map_option fst) (picks es ys) \<and> btree_rep M minv contents cap K vk V vv kb vb (it_map it') xs C)"
    "ok (run_steps (value_step K V M) it es) (\<lambda>(rs, it'). rs = map (map_option snd) (picks es ys) \<and> btree_rep M minv contents cap K vk V vv kb vb (it_map it') xs C)"
    "ok (iter_count K M 0 it) (\<lambda>(n, it'). n = length ys \<and> btree_rep M minv contents cap K vk V vv kb vb (it_map it') xs C)"
proof -
  let ?P = "\<lambda>it ys. btree_scan M minv contents cap K vk V vv kb vb it xs C ys"
  show "ok (run_steps (item_step K V M) it es) (\<lambda>(rs, it'). rs = picks es ys \<and> btree_rep M minv contents cap K vk V vv kb vb (it_map it') xs C)"
    using run_steps_ok[of ?P "item_step K V M" "\<lambda>x. x", OF scan_steps(1) it, of es] by (auto dest: scan_rep elim!: ok_mono)
  show "ok (run_steps (key_step K M) it es) (\<lambda>(rs, it'). rs = map (map_option fst) (picks es ys) \<and> btree_rep M minv contents cap K vk V vv kb vb (it_map it') xs C)"
    using run_steps_ok[of ?P "key_step K M", OF scan_steps(2) it, of es] by (auto dest: scan_rep elim!: ok_mono)
  show "ok (run_steps (value_step K V M) it es) (\<lambda>(rs, it'). rs = map (map_option snd) (picks es ys) \<and> btree_rep M minv contents cap K vk V vv kb vb (it_map it') xs C)"
    using run_steps_ok[of ?P "value_step K V M", OF scan_steps(3) it, of es] by (auto dest: scan_rep elim!: ok_mono)
  show "ok (iter_count K M 0 it) (\<lambda>(n, it'). n = length ys \<and> btree_rep M minv contents cap K vk V vv kb vb (it_map it') xs C)"
    using scan_steps(4)[OF it] by (auto dest: scan_rep elim!: ok_mono)
qed

section \<open>Clients\<close>

text \<open>The operations of a map as commands, what they answer, and a run of a list of commands.\<close>

datatype ('k, 'v) map_cmd = MapInsert 'k 'v | MapGet 'k | MapContains 'k | MapRemove 'k | MapLen | MapIsEmpty | MapFirst | MapLast
  | MapPopFirst | MapPopLast | MapClear | MapReopen | MapIter "scan_end list" | MapRange "'k key_range" "scan_end list" | MapKeys "'k key_range" "scan_end list"
  | MapValues "'k key_range" "scan_end list" | MapCount "'k key_range" | MapFromPrev 'k "scan_end list"

datatype ('k, 'v) map_reply = Stored "'v option" | Flag bool | Count nat | Entry "('k \<times> 'v) option" | Done
  | ItemList "('k \<times> 'v) option list" | KeyList "'k option list" | ValList "'v option list"

fun bt_step :: "'k::linorder storable \<Rightarrow> 'v storable \<Rightarrow> 's memory_ops \<Rightarrow> 's btree_map \<Rightarrow> ('k, 'v) map_cmd \<Rightarrow>
  (('k, 'v) map_reply \<times> 's btree_map) option" where
  "bt_step K V M m (MapInsert k v) = do { (old, m) \<leftarrow> btree_insert K V M m k v; Some (Stored old, m) }"
| "bt_step K V M m (MapGet k) = do { (v, m) \<leftarrow> btree_get K V M m k; Some (Stored v, m) }"
| "bt_step K V M m (MapContains k) = do { (b, m) \<leftarrow> btree_contains_key K M m k; Some (Flag b, m) }"
| "bt_step K V M m (MapRemove k) = do { (v, m) \<leftarrow> btree_remove K V M m k; Some (Stored v, m) }"
| "bt_step K V M m MapLen = Some (Count (btree_len m), m)"
| "bt_step K V M m MapIsEmpty = Some (Flag (btree_is_empty m), m)"
| "bt_step K V M m MapFirst = do { (e, m) \<leftarrow> btree_first_key_value K V M m; Some (Entry e, m) }"
| "bt_step K V M m MapLast = do { (e, m) \<leftarrow> btree_last_key_value K V M m; Some (Entry e, m) }"
| "bt_step K V M m MapPopFirst = do { (e, m) \<leftarrow> btree_pop_first K V M m; Some (Entry e, m) }"
| "bt_step K V M m MapPopLast = do { (e, m) \<leftarrow> btree_pop_last K V M m; Some (Entry e, m) }"
| "bt_step K V M m MapClear = do { m \<leftarrow> btree_clear_new M m; Some (Done, m) }"
| "bt_step K V M m MapReopen = do { m \<leftarrow> btree_init K V M (btree_into_memory m); Some (Done, m) }"
| "bt_step K V M m (MapIter es) = do { (xs, it) \<leftarrow> run_steps (item_step K V M) (btree_iter m) es; Some (ItemList xs, it_map it) }"
| "bt_step K V M m (MapRange rg es) = do { (xs, it) \<leftarrow> run_steps (item_step K V M) (btree_range m rg) es; Some (ItemList xs, it_map it) }"
| "bt_step K V M m (MapKeys rg es) = do { (xs, it) \<leftarrow> run_steps (key_step K M) (btree_keys_range m rg) es; Some (KeyList xs, it_map it) }"
| "bt_step K V M m (MapValues rg es) = do { (xs, it) \<leftarrow> run_steps (value_step K V M) (btree_vals_range m rg) es; Some (ValList xs, it_map it) }"
| "bt_step K V M m (MapCount rg) = do { (n, it) \<leftarrow> iter_count K M 0 (btree_range m rg); Some (Count n, it_map it) }"
| "bt_step K V M m (MapFromPrev k es) = do {
     it \<leftarrow> iter_from_prev_key K M m k;
     (xs, it) \<leftarrow> run_steps (item_step K V M) it es;
     Some (ItemList xs, it_map it) }"

fun bt_run :: "'k::linorder storable \<Rightarrow> 'v storable \<Rightarrow> 's memory_ops \<Rightarrow> 's btree_map \<Rightarrow> ('k, 'v) map_cmd list \<Rightarrow>
  (('k, 'v) map_reply list \<times> 's btree_map) option" where
  "bt_run K V M m [] = Some ([], m)"
| "bt_run K V M m (c # cs) = do { (r, m) \<leftarrow> bt_step K V M m c; (rs, m) \<leftarrow> bt_run K V M m cs; Some (r # rs, m) }"

text \<open>The specification: the same commands on a finite map.\<close>

definition first_of :: "('k::linorder \<rightharpoonup> 'v) \<Rightarrow> ('k \<times> 'v) option" where
  "first_of f = (if dom f = {} then None else Some (Min (dom f), the (f (Min (dom f)))))"

definition last_of :: "('k::linorder \<rightharpoonup> 'v) \<Rightarrow> ('k \<times> 'v) option" where
  "last_of f = (if dom f = {} then None else Some (Max (dom f), the (f (Max (dom f)))))"

definition without :: "('k \<times> 'v) option \<Rightarrow> ('k \<rightharpoonup> 'v) \<Rightarrow> ('k \<rightharpoonup> 'v)" where
  "without e f = (case e of None \<Rightarrow> f | Some (k, v) \<Rightarrow> f(k := None))"

text \<open>The entries in the order of their keys.\<close>

definition entries_of :: "('k::linorder \<rightharpoonup> 'v) \<Rightarrow> ('k \<times> 'v) list" where
  "entries_of f = map (\<lambda>k. (k, the (f k))) (sorted_list_of_set (dom f))"

abbreviation in_entries :: "'k::linorder key_range \<Rightarrow> ('k \<rightharpoonup> 'v) \<Rightarrow> ('k \<times> 'v) list" where
  "in_entries rg f \<equiv> filter (\<lambda>x. range_contains rg (fst x)) (entries_of f)"

fun map_step :: "('k::linorder \<rightharpoonup> 'v) \<Rightarrow> ('k, 'v) map_cmd \<Rightarrow> ('k, 'v) map_reply \<times> ('k \<rightharpoonup> 'v)" where
  "map_step f (MapInsert k v) = (Stored (f k), f(k \<mapsto> v))"
| "map_step f (MapGet k) = (Stored (f k), f)"
| "map_step f (MapContains k) = (Flag (k \<in> dom f), f)"
| "map_step f (MapRemove k) = (Stored (f k), f(k := None))"
| "map_step f MapLen = (Count (card (dom f)), f)"
| "map_step f MapIsEmpty = (Flag (dom f = {}), f)"
| "map_step f MapFirst = (Entry (first_of f), f)"
| "map_step f MapLast = (Entry (last_of f), f)"
| "map_step f MapPopFirst = (Entry (first_of f), without (first_of f) f)"
| "map_step f MapPopLast = (Entry (last_of f), without (last_of f) f)"
| "map_step f MapClear = (Done, Map.empty)"
| "map_step f MapReopen = (Done, f)"
| "map_step f (MapIter es) = (ItemList (picks es (entries_of f)), f)"
| "map_step f (MapRange rg es) = (ItemList (picks es (in_entries rg f)), f)"
| "map_step f (MapKeys rg es) = (KeyList (map (map_option fst) (picks es (in_entries rg f))), f)"
| "map_step f (MapValues rg es) = (ValList (map (map_option snd) (picks es (in_entries rg f))), f)"
| "map_step f (MapCount rg) = (Count (length (in_entries rg f)), f)"
| "map_step f (MapFromPrev k es) = (ItemList (picks es (from_prev k (entries_of f))), f)"

fun map_run :: "('k::linorder \<rightharpoonup> 'v) \<Rightarrow> ('k, 'v) map_cmd list \<Rightarrow> ('k, 'v) map_reply list \<times> ('k \<rightharpoonup> 'v)" where
  "map_run f [] = ([], f)"
| "map_run f (c # cs) = (let (r, f') = map_step f c; (rs, f'') = map_run f' cs in (r # rs, f''))"

text \<open>The commands that may make the map larger, and the entries they may store.\<close>

fun growth :: "('k, 'v) map_cmd \<Rightarrow> nat" where
  "growth (MapInsert k v) = 1"
| "growth c = 0"

fun map_cmd_valid :: "('k \<Rightarrow> bool) \<Rightarrow> ('v \<Rightarrow> bool) \<Rightarrow> ('k, 'v) map_cmd \<Rightarrow> bool" where
  "map_cmd_valid vk vv (MapInsert k v) \<longleftrightarrow> vk k \<and> vv v"
| "map_cmd_valid vk vv c \<longleftrightarrow> True"

lemma first_of_sorted:
  assumes "sorted_keys xs"
  shows "first_of (map_of xs) = (if xs = [] then None else Some (hd xs))" "without (first_of (map_of xs)) (map_of xs) = map_of (tl xs)"
proof -
  have "first_of (map_of xs) = (if xs = [] then None else Some (hd xs)) \<and> without (first_of (map_of xs)) (map_of xs) = map_of (tl xs)"
  proof (cases xs)
    case (Cons x ys)
    have "Min (dom (map_of xs)) = fst x"
      using assms Cons by (intro Min_eqI) (auto simp: dom_map_of_conv_image_fst)
    moreover have "map_of ys (fst x) = None"
      using assms Cons by (auto simp: map_of_eq_None_iff)
    ultimately show ?thesis
      using Cons by (cases x) (auto simp: first_of_def without_def)
  qed (simp add: first_of_def without_def)
  then show "first_of (map_of xs) = (if xs = [] then None else Some (hd xs))" "without (first_of (map_of xs)) (map_of xs) = map_of (tl xs)"
    by blast+
qed

lemma last_of_sorted:
  assumes "sorted_keys xs"
  shows "last_of (map_of xs) = (if xs = [] then None else Some (last xs))" "without (last_of (map_of xs)) (map_of xs) = map_of (butlast xs)"
proof -
  have "last_of (map_of xs) = (if xs = [] then None else Some (last xs)) \<and> without (last_of (map_of xs)) (map_of xs) = map_of (butlast xs)"
  proof (cases xs rule: rev_cases)
    case (snoc ys x)
    have "Max (dom (map_of xs)) = fst x"
      using assms snoc by (intro Max_eqI) (auto simp: dom_map_of_conv_image_fst sorted_wrt_append)
    moreover have n: "map_of ys (fst x) = None"
      using assms snoc by (auto simp: map_of_eq_None_iff sorted_wrt_append)
    moreover have "map_of xs = (map_of ys)(fst x \<mapsto> snd x)"
      using n snoc by (auto simp: map_add_def split: option.splits)
    ultimately show ?thesis
      using snoc by (cases x) (auto simp: last_of_def without_def simp del: map_of_append)
  qed (simp add: last_of_def without_def)
  then show "last_of (map_of xs) = (if xs = [] then None else Some (last xs))" "without (last_of (map_of xs)) (map_of xs) = map_of (butlast xs)"
    by blast+
qed

lemma card_dom_sorted: "sorted_keys xs \<Longrightarrow> card (dom (map_of xs)) = length xs"
  using distinct_card[of "map fst xs"] by (auto simp: dom_map_of_conv_image_fst sorted_keys_map[symmetric] strict_sorted_iff)

lemma entries_of_sorted:
  assumes "sorted_keys xs"
  shows "entries_of (map_of xs) = xs"
proof -
  have "sorted_wrt (<) (map fst xs)"
    using assms by (simp only: sorted_keys_map)
  then have s: "sorted (map fst xs)" "distinct (map fst xs)"
    by (simp_all only: strict_sorted_iff)
  have "sorted_list_of_set (dom (map_of xs)) = map fst xs"
    using sorted_list_of_set.idem_if_sorted_distinct[OF s] by (simp add: dom_map_of_conv_image_fst)
  then have "entries_of (map_of xs) = map (\<lambda>x. (fst x, the (map_of xs (fst x)))) xs"
    by (simp add: entries_of_def comp_def)
  also have "\<dots> = map (\<lambda>x. x) xs"
    using s(2) by (intro map_cong) auto
  finally show ?thesis
    by simp
qed

text \<open>One command: the answer and the entries after it are those of the specification.\<close>

lemma step_simulates:
  assumes m: "btree_rep M minv contents cap K vk V vv kb vb m xs C" and c: "map_cmd_valid vk vv c" "2 * ((length xs + growth c) div 5) + 4 \<le> C"
  shows "ok (bt_step K V M m c) (\<lambda>(r, m'). \<exists>xs'. map_step (map_of xs) c = (r, map_of xs') \<and>
    btree_rep M minv contents cap K vk V vv kb vb m' xs' C \<and> length xs' \<le> length xs + growth c)"
proof -
  note s = rep_sorted[OF m]
  have C: "2 * (length xs div 5) + 4 \<le> C"
    using c(2) div_le_mono[of "length xs" "length xs + growth c" 5] by linarith
  have keep: "length (ins k v xs) \<le> length xs + 1" "length (del k xs) \<le> length xs" for k v
    using length_ins[OF s] length_del[OF s] by auto
  show ?thesis
  proof (cases c)
    case (MapInsert k v)
    have "vk k" "vv v"
      using c(1) MapInsert by simp_all
    from rep_insert[OF m this C] show ?thesis
      unfolding MapInsert using keep(1)[of k v] by (auto simp: map_of_ins[OF s] intro!: exI[of _ "ins k v xs"] elim!: ok_mono)
  next
    case (MapRemove k)
    show ?thesis
      unfolding MapRemove using rep_remove[OF m, of k] keep(2)[of k] by (auto simp: map_of_del intro!: exI[of _ "del k xs"] elim!: ok_mono)
  next
    case (MapGet k)
    show ?thesis
      unfolding MapGet using rep_get[OF m, of k] by (auto intro!: exI[of _ xs] elim!: ok_mono)
  next
    case (MapContains k)
    show ?thesis
      unfolding MapContains using rep_contains_key[OF m, of k] by (auto simp: domIff intro!: exI[of _ xs] elim!: ok_mono)
  next
    case MapLen
    show ?thesis
      unfolding MapLen using rep_len(1)[OF m] m by (auto simp: card_dom_sorted[OF s])
  next
    case MapIsEmpty
    show ?thesis
      unfolding MapIsEmpty using rep_len(2)[OF m] m by auto
  next
    case MapFirst
    show ?thesis
      unfolding MapFirst using rep_ends(1)[OF m] by (auto simp: first_of_sorted[OF s] intro!: exI[of _ xs] elim!: ok_mono)
  next
    case MapLast
    show ?thesis
      unfolding MapLast using rep_ends(2)[OF m] by (auto simp: last_of_sorted[OF s] intro!: exI[of _ xs] elim!: ok_mono)
  next
    case MapPopFirst
    show ?thesis
      unfolding MapPopFirst using rep_ends(3)[OF m] unfolding map_step.simps first_of_sorted(2)[OF s] unfolding first_of_sorted(1)[OF s] by (auto intro!: exI[of _ "tl xs"] elim!: ok_mono)
  next
    case MapPopLast
    show ?thesis
      unfolding MapPopLast using rep_ends(4)[OF m] unfolding map_step.simps last_of_sorted(2)[OF s] unfolding last_of_sorted(1)[OF s] by (auto intro!: exI[of _ "butlast xs"] elim!: ok_mono)
  next
    case MapClear
    show ?thesis
      unfolding MapClear using rep_clear_new[OF m] by (auto intro!: exI[of _ "[]"] elim!: ok_mono)
  next
    case MapReopen
    show ?thesis
      unfolding MapReopen using rep_init[OF m] by (auto intro!: exI[of _ xs] elim!: ok_mono)
  next
    case (MapIter es)
    show ?thesis
      unfolding MapIter using scan_runs(1)[OF rep_scan(1)[OF m], of es] by (auto simp: btree_iters entries_of_sorted[OF s] intro!: exI[of _ xs] elim!: ok_mono)
  next
    case (MapRange rg es)
    show ?thesis
      unfolding MapRange using scan_runs(1)[OF rep_scan(2)[OF m], of rg es] by (auto simp: btree_iters entries_of_sorted[OF s] intro!: exI[of _ xs] elim!: ok_mono)
  next
    case (MapKeys rg es)
    show ?thesis
      unfolding MapKeys using scan_runs(2)[OF rep_scan(2)[OF m], of rg es] by (auto simp: btree_iters entries_of_sorted[OF s] intro!: exI[of _ xs] elim!: ok_mono)
  next
    case (MapValues rg es)
    show ?thesis
      unfolding MapValues using scan_runs(3)[OF rep_scan(2)[OF m], of rg es] by (auto simp: btree_iters entries_of_sorted[OF s] intro!: exI[of _ xs] elim!: ok_mono)
  next
    case (MapCount rg)
    show ?thesis
      unfolding MapCount using scan_runs(4)[OF rep_scan(2)[OF m], of rg] by (auto simp: btree_iters entries_of_sorted[OF s] intro!: exI[of _ xs] elim!: ok_mono)
  next
    case (MapFromPrev k es)
    from rep_scan(3)[OF m, of k] obtain it where it: "iter_from_prev_key K M m k = Some it"
      "btree_scan M minv contents cap K vk V vv kb vb it xs C (from_prev k xs)"
      by (auto elim!: ok_obtain)
    show ?thesis
      unfolding MapFromPrev using scan_runs(1)[OF it(2), of es] it(1) by (auto simp: btree_iters entries_of_sorted[OF s] intro!: exI[of _ xs] elim!: ok_mono)
  qed
qed

lemma run_simulates:
  assumes "btree_rep M minv contents cap K vk V vv kb vb m xs C" "list_all (map_cmd_valid vk vv) cs"
    "2 * ((length xs + sum_list (map growth cs)) div 5) + 4 \<le> C"
  shows "ok (bt_run K V M m cs) (\<lambda>(rs, m'). \<exists>xs'. map_run (map_of xs) cs = (rs, map_of xs') \<and>
    btree_rep M minv contents cap K vk V vv kb vb m' xs' C \<and> length xs' \<le> length xs + sum_list (map growth cs))"
  using assms
proof (induction cs arbitrary: m xs)
  case Nil
  then show ?case by auto
next
  case (Cons c cs)
  have "2 * ((length xs + growth c) div 5) + 4 \<le> C"
    using Cons.prems(3) div_le_mono[of "length xs + growth c" "length xs + sum_list (map growth (c # cs))" 5] by simp
  from step_simulates[OF Cons.prems(1) _ this] Cons.prems(2) obtain r m1 xs1 where
    1: "bt_step K V M m c = Some (r, m1)" "map_step (map_of xs) c = (r, map_of xs1)" "btree_rep M minv contents cap K vk V vv kb vb m1 xs1 C"
      "length xs1 \<le> length xs + growth c"
    by (auto elim!: ok_obtain)
  have "2 * ((length xs1 + sum_list (map growth cs)) div 5) + 4 \<le> C"
    using Cons.prems(3) 1(4) div_le_mono[of "length xs1 + sum_list (map growth cs)" "length xs + sum_list (map growth (c # cs))" 5] by simp
  from Cons.IH[OF 1(3) _ this] Cons.prems(2) obtain rs m2 xs2 where
    2: "bt_run K V M m1 cs = Some (rs, m2)" "map_run (map_of xs1) cs = (rs, map_of xs2)" "btree_rep M minv contents cap K vk V vv kb vb m2 xs2 C"
      "length xs2 \<le> length xs1 + sum_list (map growth cs)"
    by (auto elim!: ok_obtain)
  show ?case
    using 1 2 by (auto intro!: exI[of _ xs2])
qed

lemma map_run_append: "map_run f (cs @ cs') = (let (rs, f') = map_run f cs; (rs', f'') = map_run f' cs' in (rs @ rs', f''))"
  by (induction cs arbitrary: f) (auto simp: Let_def split: prod.splits)

text \<open>The room that a run of commands on a map of bounded entries needs.\<close>

definition run_room :: "nat \<Rightarrow> nat \<Rightarrow> nat \<Rightarrow> ('k, 'v) map_cmd list \<Rightarrow> nat" where
  "run_room sz kb vb cs = btree_bytes sz kb vb (2 * (sum_list (map growth cs) div 5) + 4)"

definition btree_client ::
  "'s memory_ops \<Rightarrow> ('s \<Rightarrow> bool) \<Rightarrow> ('s \<Rightarrow> bytes) \<Rightarrow> ('s \<Rightarrow> nat) \<Rightarrow> 'k::linorder storable \<Rightarrow> ('k \<Rightarrow> bool) \<Rightarrow> 'v storable \<Rightarrow> ('v \<Rightarrow> bool) \<Rightarrow>
   nat \<Rightarrow> nat \<Rightarrow> nat \<Rightarrow> 's \<Rightarrow> ('k, 'v) map_cmd list \<Rightarrow> bool" where
  "btree_client M minv contents cap K vk V vv kb vb sz s cs \<longleftrightarrow>
     memory M minv contents cap \<and> btree_types K vk V vv kb vb \<and> minv s \<and> 128 \<le> sz \<and> sz \<le> U32_MAX \<and>
     list_all (map_cmd_valid vk vv) cs \<and> run_room sz kb vb cs \<le> cap s * WASM_PAGE_SIZE"

lemma client_run:
  assumes c: "btree_client M minv contents cap K vk V vv kb vb sz s cs" and p: "new_page_size K V = Some (PageValue sz)"
  shows "ok (do { m \<leftarrow> btree_new K V M s; bt_run K V M m cs }) (\<lambda>(rs, m). \<exists>xs C. map_run Map.empty cs = (rs, map_of xs) \<and>
    btree_rep M minv contents cap K vk V vv kb vb m xs C)"
proof -
  let ?C = "2 * (sum_list (map growth cs) div 5) + 4"
  from new_rep[of M minv contents cap K vk V vv kb vb s sz ?C] c p obtain m where
    m: "btree_new K V M s = Some m" "btree_rep M minv contents cap K vk V vv kb vb m [] ?C"
    by (auto simp: btree_client_def run_room_def elim!: ok_obtain)
  from run_simulates[OF m(2), of cs] c m(1) show ?thesis
    by (fastforce simp: btree_client_def elim!: ok_mono)
qed

text \<open>The chunks that a map uses.\<close>

lemma rep_chunks:
  assumes m: "btree_rep M minv contents cap K vk V vv kb vb m xs C"
  shows "al_num_allocated_chunks (bt_allocator m) \<le> (length xs + 4) div 5 * Suc (pages_needed (al_allocation_size (bt_allocator m)) (199 + 11 * (kb + vb)))"
proof -
  obtain sz pg where L: "btree_values M ALLOCATOR_OFFSET sz (page_rep minv contents cap ALLOCATOR_OFFSET sz) K vk pg kb vb V vv"
    and m': "btree_values.is_map sz (page_rep minv contents cap ALLOCATOR_OFFSET sz) K vk pg kb vb V vv m xs C"
    by (rule btree_repE[OF m]) blast
  have S: "btree_store M ALLOCATOR_OFFSET sz (page_rep minv contents cap ALLOCATOR_OFFSET sz) K vk pg kb vb"
    and N: "btree_nodes M ALLOCATOR_OFFSET sz (page_rep minv contents cap ALLOCATOR_OFFSET sz) K vk pg kb vb"
    using L by (simp_all add: btree_values_def btree_store_def)
  obtain h D r where D: "page_rep minv contents cap ALLOCATOR_OFFSET sz (bt_allocator m) h D r"
    "card (dom D) \<le> (length (encoded V xs) + 4) div 5 * Suc (btree_nodes.most sz kb vb)"
    using btree_store.holds_pages[OF S btree_values.is_mapD(1)[OF L m']] by blast
  have "card (dom D) = al_num_allocated_chunks (bt_allocator m)" "al_allocation_size (bt_allocator m) = sz"
    using D(1) card_in_use(2) by (auto simp: page_rep_def alloc_rep_def)
  with D(2) show ?thesis
    by (simp add: btree_nodes.most_def[OF N])
qed

text \<open>A map in the format of version 1.\<close>

lemma size_v1_eq: "size_v1 mk mv = Some sz \<Longrightarrow> sz = 191 + 11 * (mk + mv)"
  by (auto simp: size_v1_def U32_SIZE_def CAPACITY_def node_header_size_def u64_add_def u64_mul_def split: if_splits)

lemma new_v1_rep:
  assumes M: "memory M minv contents cap" and T: "btree_types K vk V vv kb vb" and s: "minv s"
    and b: "bound_max_size (BOUND K) = Some kb" "bound_max_size (BOUND V) = Some vb"
    and p: "size_v1 kb vb = Some sz" "sz \<le> U32_MAX" and room: "btree_bytes sz kb vb C \<le> cap s * WASM_PAGE_SIZE"
  shows "ok (btree_new_v1 K V M s) (\<lambda>m. btree_rep M minv contents cap K vk V vv kb vb m [] C)"
proof -
  have "btree_values M ALLOCATOR_OFFSET sz (page_rep minv contents cap ALLOCATOR_OFFSET sz) K vk (version_page_size (V1 kb vb)) kb vb V vv"
    using memory.allocator_page_store[OF M, of ALLOCATOR_OFFSET sz] p size_v1_eq[OF p(1)] T
    by (simp add: btree_types_def btree_values_def btree_values_axioms_def btree_store_def btree_store_axioms_def btree_nodes_def btree_nodes_axioms_def
        node_ops_def node_ops_axioms_def as_u32_def)
  from empty_rep[OF M s _ this room] p(2) show ?thesis
    by (simp add: btree_new_v1_def b p(1))
qed

text \<open>The instance that the examples use: keys and values of type u64 in a vector memory.\<close>

lemma u64_types: "btree_types u64_storable (\<lambda>_. True) u64_storable (\<lambda>_. True) 8 8"
  using u64_ty.storable_type_axioms
  by (simp add: btree_types_def enc_def key_bytes_def u64_storable_def word_to_bytes_def)

lemma u64_page_size: "new_page_size u64_storable u64_storable = Some (PageValue 275)"
  by (simp add: new_page_size_def u64_storable_def size_v1_def U32_SIZE_def CAPACITY_def node_header_size_def as_u32_def u64_add_def u64_mul_def)

interpretation u64_btree: btree_values VectorMemory ALLOCATOR_OFFSET 275 "page_rep vec_inv (\<lambda>m. m) vec_cap ALLOCATOR_OFFSET 275"
  u64_storable "\<lambda>_. True" "PageValue 275" 8 8 u64_storable "\<lambda>_. True"
  by (rule btree_values_on[OF vm.memory_axioms u64_types]) simp_all

section \<open>Properties\<close>

text \<open>
  C1. The B-tree map is a finite map: for any memory that meets its contract, any types of keys and values that meet theirs, and
  any list of commands (insert, get, contains_key, remove, len, is_empty, first and last key, pop_first, pop_last, clear_new,
  reopening the map from its memory, and iterating over entries, keys or values, in a range or not, with any mix of calls of \<open>next\<close>
  and \<open>next_back\<close>), the map made by \<open>new\<close> runs all of them to the end, and each one answers what it answers on a
  finite map. The memory must have room for the nodes that the inserts of the run can need.
\<close>

theorem btree_simulates_map:
  assumes "btree_client M minv contents cap K vk V vv kb vb sz s cs" "new_page_size K V = Some (PageValue sz)"
  shows "ok (do { m \<leftarrow> btree_new K V M s; bt_run K V M m cs }) (\<lambda>(rs, m). rs = fst (map_run Map.empty cs))"
  by (rule ok_mono[OF client_run[OF assms]]) auto

definition example_cmds :: "(64 word, 64 word) map_cmd list" where
  "example_cmds = [MapInsert 7 70, MapInsert 3 30, MapReopen, MapRange (Included 2, Excluded 7) [Back, Front], MapGet 7, MapPopFirst, MapLen, MapRemove 7, MapGet 7]"

lemma example_client: "btree_client VectorMemory vec_inv (\<lambda>m. m) vec_cap u64_storable (\<lambda>_. True) u64_storable (\<lambda>_. True) 8 8 275 [] example_cmds"
  using vm.memory_axioms u64_types vec_inv_empty
  by (simp add: btree_client_def example_cmds_def run_room_def btree_bytes_def ALLOCATOR_OFFSET_def pages_needed_def vec_cap_def VEC_MAX_PAGES_val)

lemma example_answers:
  "map_run Map.empty example_cmds = ([Stored None, Stored None, Done, ItemList [Some (3, 30), None], Stored (Some 70), Entry (Some (3, 30)), Count 1, Stored (Some 70), Stored None], Map.empty)"
  by (simp add: example_cmds_def first_of_def without_def entries_of_def sorted_list_of_set_insert_remove range_contains_def)

theorem btree_simulates_map_witness:
  "ok (do { m \<leftarrow> btree_new u64_storable u64_storable VectorMemory []; bt_run u64_storable u64_storable VectorMemory m example_cmds })
    (\<lambda>(rs, m). rs = [Stored None, Stored None, Done, ItemList [Some (3, 30), None], Stored (Some 70), Entry (Some (3, 30)), Count 1, Stored (Some 70), Stored None])"
  using btree_simulates_map[OF example_client u64_page_size] by (simp add: example_answers)

text \<open>
  C3. The memory that a map uses is bounded by what it holds now, not by what it once held: after any run of commands that leaves \<open>n\<close>
  entries, the allocator has at most \<open>\<lceil>n / 5\<rceil>\<close> nodes in use, each with the overflow pages of its largest contents. In particular an
  empty map, whether its entries were removed, popped or cleared, uses no chunk at all.
\<close>

theorem btree_memory_use:
  assumes "btree_client M minv contents cap K vk V vv kb vb sz s cs" "new_page_size K V = Some (PageValue sz)"
  shows "ok (do { m \<leftarrow> btree_new K V M s; bt_run K V M m cs }) (\<lambda>(rs, m).
    al_num_allocated_chunks (bt_allocator m) \<le>
      (card (dom (snd (map_run Map.empty cs))) + 4) div 5 * Suc (pages_needed (al_allocation_size (bt_allocator m)) (199 + 11 * (kb + vb))))"
  by (rule ok_mono[OF client_run[OF assms]], clarify) (frule rep_chunks, drule rep_sorted, simp add: card_dom_sorted)

theorem btree_memory_use_witness:
  "ok (do { m \<leftarrow> btree_new u64_storable u64_storable VectorMemory []; bt_run u64_storable u64_storable VectorMemory m example_cmds })
    (\<lambda>(rs, m). al_num_allocated_chunks (bt_allocator m) = 0)"
  by (rule ok_mono[OF btree_memory_use[OF example_client u64_page_size]]) (auto simp: example_answers)

text \<open>
  C15. Migration: a map in the format of version 1 answers a run of commands as a finite map does; when it is opened with \<open>init\<close> it
  becomes a map of version 2, and that one answers the commands that follow as the same finite map.
\<close>

theorem btree_migration_keeps_map:
  assumes "btree_client M minv contents cap K vk V vv kb vb sz s (cs @ cs')"
    and "bound_max_size (BOUND K) = Some kb" "bound_max_size (BOUND V) = Some vb" "size_v1 kb vb = Some sz"
  shows "ok (do { m \<leftarrow> btree_new_v1 K V M s; (rs, m) \<leftarrow> bt_run K V M m cs; m' \<leftarrow> btree_init K V M (btree_into_memory m);
      (rs', m'') \<leftarrow> bt_run K V M m' cs'; Some (rs, m', rs') })
    (\<lambda>(rs, m', rs'). rs @ rs' = fst (map_run Map.empty (cs @ cs')) \<and> (\<exists>p. bt_version m' = V2 p))"
proof -
  let ?C = "2 * (sum_list (map growth (cs @ cs')) div 5) + 4"
  from new_v1_rep[of M minv contents cap K vk V vv kb vb s sz ?C] assms obtain m where
    m: "btree_new_v1 K V M s = Some m" "btree_rep M minv contents cap K vk V vv kb vb m [] ?C"
    by (auto simp: btree_client_def run_room_def elim!: ok_obtain)
  have v: "list_all (map_cmd_valid vk vv) cs" "list_all (map_cmd_valid vk vv) cs'"
    using assms(1) by (simp_all add: btree_client_def)
  have "2 * ((length [] + sum_list (map growth cs)) div 5) + 4 \<le> ?C"
    using div_le_mono[of "sum_list (map growth cs)" "sum_list (map growth (cs @ cs'))" 5] by simp
  from run_simulates[OF m(2) v(1) this] obtain rs m1 xs where
    1: "bt_run K V M m cs = Some (rs, m1)" "map_run Map.empty cs = (rs, map_of xs)" "btree_rep M minv contents cap K vk V vv kb vb m1 xs ?C"
      "length xs \<le> sum_list (map growth cs)"
    by (auto elim!: ok_obtain)
  from rep_init[OF 1(3)] obtain m2 where
    2: "btree_init K V M (btree_into_memory m1) = Some m2" "btree_rep M minv contents cap K vk V vv kb vb m2 xs ?C" "bt_version m2 = migrated (bt_version m1)"
    by (auto elim!: ok_obtain)
  have "2 * ((length xs + sum_list (map growth cs')) div 5) + 4 \<le> ?C"
    using 1(4) div_le_mono[of "length xs + sum_list (map growth cs')" "sum_list (map growth (cs @ cs'))" 5] by simp
  from run_simulates[OF 2(2) v(2) this] obtain rs' m3 xs' where
    3: "bt_run K V M m2 cs' = Some (rs', m3)" "map_run (map_of xs) cs' = (rs', map_of xs')"
    by (auto elim!: ok_obtain)
  have "\<exists>p. migrated w = V2 p" for w
    by (cases w) auto
  then show ?thesis
    using m(1) 1 2 3 map_run_append[of Map.empty cs cs'] by simp
qed

theorem btree_migration_keeps_map_witness:
  "ok (do { m \<leftarrow> btree_new_v1 u64_storable u64_storable VectorMemory []; (rs, m) \<leftarrow> bt_run u64_storable u64_storable VectorMemory m [MapInsert 7 70];
      m' \<leftarrow> btree_init u64_storable u64_storable VectorMemory (btree_into_memory m);
      (rs', m'') \<leftarrow> bt_run u64_storable u64_storable VectorMemory m' [MapGet 7]; Some (rs, m', rs') })
    (\<lambda>(rs, m', rs'). rs @ rs' = [Stored None, Stored (Some 70)] \<and> (\<exists>p. bt_version m' = V2 p))"
proof -
  have "btree_client VectorMemory vec_inv (\<lambda>m. m) vec_cap u64_storable (\<lambda>_. True) u64_storable (\<lambda>_. True) 8 8 367 [] ([MapInsert 7 70] @ [MapGet 7])"
    using vm.memory_axioms u64_types vec_inv_empty
    by (simp add: btree_client_def run_room_def btree_bytes_def ALLOCATOR_OFFSET_def pages_needed_def vec_cap_def VEC_MAX_PAGES_val)
  from btree_migration_keeps_map[OF this] show ?thesis
    by (simp add: u64_storable_def bound_max_size_def size_v1_def U32_SIZE_def CAPACITY_def node_header_size_def u64_add_def u64_mul_def)
qed

end
