(* ===== verification/BTree_Set.thy ===== *)
theory BTree_Set
  imports BTree_Client
begin

text \<open>
  \<open>BTreeSet\<close> (\<open>src/src/btreeset.rs\<close>): a B-tree map with unit values. What is shown: a set answers any list of commands as a finite set
  does, and union, intersection, symmetric difference and the comparisons, which walk through two sorted iterators at once, compute what
  their names say.
\<close>

section \<open>The set and its iterator\<close>

record 's btree_set =
  bs_map :: "'s btree_map"

text \<open>\<open>Iter\<close> wraps the iterator of the map; only the keys are read.\<close>

definition set_iter_next :: "'k::linorder storable \<Rightarrow> 's memory_ops \<Rightarrow> ('s, 'k) iter_internal \<Rightarrow> ('k option \<times> ('s, 'k) iter_internal) option" where
  "set_iter_next K M it = do {
     (e, it) \<leftarrow> items_next K M it;
     case e of
       None \<Rightarrow> Some (None, it)
     | Some entry \<Rightarrow> do {
         (k, entry, s) \<leftarrow> lazy_key K M entry (bt_memory (it_map it));
         Some (Some k, it\<lparr>it_map := bt_with_memory (it_map it) s\<rparr>) } }"

definition set_init :: "'k storable \<Rightarrow> 's memory_ops \<Rightarrow> 's \<Rightarrow> 's btree_set option" where
  "set_init K M s = do { m \<leftarrow> btree_init K unit_storable M s; Some \<lparr>bs_map = m\<rparr> }"

definition set_new :: "'k storable \<Rightarrow> 's memory_ops \<Rightarrow> 's \<Rightarrow> 's btree_set option" where
  "set_new K M s = do { m \<leftarrow> btree_new K unit_storable M s; Some \<lparr>bs_map = m\<rparr> }"

definition set_load :: "'k storable \<Rightarrow> 's memory_ops \<Rightarrow> 's \<Rightarrow> 's btree_set option" where
  "set_load K M s = do { m \<leftarrow> btree_load K unit_storable M s; Some \<lparr>bs_map = m\<rparr> }"

definition set_insert :: "'k::linorder storable \<Rightarrow> 's memory_ops \<Rightarrow> 's btree_set \<Rightarrow> 'k \<Rightarrow> (bool \<times> 's btree_set) option" where
  "set_insert K M st key = do {
     (old, m) \<leftarrow> btree_insert K unit_storable M (bs_map st) key ();
     Some (old = None, \<lparr>bs_map = m\<rparr>) }"

definition set_contains :: "'k::linorder storable \<Rightarrow> 's memory_ops \<Rightarrow> 's btree_set \<Rightarrow> 'k \<Rightarrow> (bool \<times> 's btree_set) option" where
  "set_contains K M st key = do {
     (v, m) \<leftarrow> btree_get K unit_storable M (bs_map st) key;
     Some (v \<noteq> None, \<lparr>bs_map = m\<rparr>) }"

definition set_is_empty :: "'s btree_set \<Rightarrow> bool" where
  "set_is_empty st = btree_is_empty (bs_map st)"

definition set_len :: "'s btree_set \<Rightarrow> nat" where
  "set_len st = btree_len (bs_map st)"

definition set_into_memory :: "'s btree_set \<Rightarrow> 's" where
  "set_into_memory st = btree_into_memory (bs_map st)"

definition set_clear :: "'s memory_ops \<Rightarrow> 's btree_set \<Rightarrow> 's btree_set option" where
  "set_clear M st = do { m \<leftarrow> btree_clear_new M (bs_map st); Some \<lparr>bs_map = m\<rparr> }"

definition set_first :: "'k::linorder storable \<Rightarrow> 's memory_ops \<Rightarrow> 's btree_set \<Rightarrow> ('k option \<times> 's btree_set) option" where
  "set_first K M st = do {
     (e, m) \<leftarrow> btree_first_key_value K unit_storable M (bs_map st);
     Some (map_option fst e, \<lparr>bs_map = m\<rparr>) }"

definition set_last :: "'k::linorder storable \<Rightarrow> 's memory_ops \<Rightarrow> 's btree_set \<Rightarrow> ('k option \<times> 's btree_set) option" where
  "set_last K M st = do {
     (e, m) \<leftarrow> btree_last_key_value K unit_storable M (bs_map st);
     Some (map_option fst e, \<lparr>bs_map = m\<rparr>) }"

definition set_remove :: "'k::linorder storable \<Rightarrow> 's memory_ops \<Rightarrow> 's btree_set \<Rightarrow> 'k \<Rightarrow> (bool \<times> 's btree_set) option" where
  "set_remove K M st key = do {
     (v, m) \<leftarrow> btree_remove K unit_storable M (bs_map st) key;
     Some (v \<noteq> None, \<lparr>bs_map = m\<rparr>) }"

definition set_pop_last :: "'k::linorder storable \<Rightarrow> 's memory_ops \<Rightarrow> 's btree_set \<Rightarrow> ('k option \<times> 's btree_set) option" where
  "set_pop_last K M st = do {
     (e, m) \<leftarrow> btree_pop_last K unit_storable M (bs_map st);
     Some (map_option fst e, \<lparr>bs_map = m\<rparr>) }"

definition set_pop_first :: "'k::linorder storable \<Rightarrow> 's memory_ops \<Rightarrow> 's btree_set \<Rightarrow> ('k option \<times> 's btree_set) option" where
  "set_pop_first K M st = do {
     (e, m) \<leftarrow> btree_pop_first K unit_storable M (bs_map st);
     Some (map_option fst e, \<lparr>bs_map = m\<rparr>) }"

definition set_iter :: "'s btree_set \<Rightarrow> ('s, 'k) iter_internal" where
  "set_iter st = btree_iter (bs_map st)"

definition set_range :: "'s btree_set \<Rightarrow> 'k key_range \<Rightarrow> ('s, 'k) iter_internal" where
  "set_range st key_range = btree_range (bs_map st) key_range"

section \<open>Two sets\<close>

text \<open>
  The closures that walk through two iterators, with what they capture as their state. The iterators are used through \<open>next\<close> only, which is
  the parameter \<open>nx\<close>; the two sets live in separate memories.
\<close>

record ('i, 'k) set_pair =
  iter_self :: 'i
  iter_other :: 'i
  next_self :: "'k option"
  next_other :: "'k option"

definition pair_start :: "('i \<Rightarrow> ('k option \<times> 'i) option) \<Rightarrow> 'i \<Rightarrow> 'i \<Rightarrow> ('i, 'k) set_pair option" where
  "pair_start nx i j = do {
     (x, i) \<leftarrow> nx i;
     (y, j) \<leftarrow> nx j;
     Some \<lparr>iter_self = i, iter_other = j, next_self = x, next_other = y\<rparr> }"

definition advance_self :: "('i \<Rightarrow> ('k option \<times> 'i) option) \<Rightarrow> ('i, 'k) set_pair \<Rightarrow> ('i, 'k) set_pair option" where
  "advance_self nx p = do { (x, i) \<leftarrow> nx (iter_self p); Some (p\<lparr>iter_self := i, next_self := x\<rparr>) }"

definition advance_other :: "('i \<Rightarrow> ('k option \<times> 'i) option) \<Rightarrow> ('i, 'k) set_pair \<Rightarrow> ('i, 'k) set_pair option" where
  "advance_other nx p = do { (y, j) \<leftarrow> nx (iter_other p); Some (p\<lparr>iter_other := j, next_other := y\<rparr>) }"

definition union_next :: "('i \<Rightarrow> ('k::linorder option \<times> 'i) option) \<Rightarrow> ('i, 'k) set_pair \<Rightarrow> ('k option \<times> ('i, 'k) set_pair) option" where
  "union_next nx p = (case (next_self p, next_other p) of
       (Some a, Some b) \<Rightarrow>
         if a < b then do { p \<leftarrow> advance_self nx p; Some (Some a, p) }
         else if b < a then do { p \<leftarrow> advance_other nx p; Some (Some b, p) }
         else do { p \<leftarrow> advance_self nx p; p \<leftarrow> advance_other nx p; Some (Some a, p) }
     | (Some a, None) \<Rightarrow> do { p \<leftarrow> advance_self nx p; Some (Some a, p) }
     | (None, Some b) \<Rightarrow> do { p \<leftarrow> advance_other nx p; Some (Some b, p) }
     | (None, None) \<Rightarrow> Some (None, p))"

partial_function (option) intersection_next ::
  "('i \<Rightarrow> ('k::linorder option \<times> 'i) option) \<Rightarrow> ('i, 'k) set_pair \<Rightarrow> ('k option \<times> ('i, 'k) set_pair) option" where
  "intersection_next nx p = (case (next_self p, next_other p) of
       (Some a, Some b) \<Rightarrow>
         if a < b then do { p \<leftarrow> advance_self nx p; intersection_next nx p }
         else if b < a then do { p \<leftarrow> advance_other nx p; intersection_next nx p }
         else do { p \<leftarrow> advance_self nx p; p \<leftarrow> advance_other nx p; Some (Some a, p) }
     | _ \<Rightarrow> Some (None, p))"

partial_function (option) disjoint_loop :: "('i \<Rightarrow> ('k::linorder option \<times> 'i) option) \<Rightarrow> ('i, 'k) set_pair \<Rightarrow> bool option" where
  "disjoint_loop nx p = (case (next_self p, next_other p) of
       (Some a, Some b) \<Rightarrow>
         if a < b then do { p \<leftarrow> advance_self nx p; disjoint_loop nx p }
         else if b < a then do { p \<leftarrow> advance_other nx p; disjoint_loop nx p }
         else Some False
     | _ \<Rightarrow> Some True)"

partial_function (option) subset_loop :: "('i \<Rightarrow> ('k::linorder option \<times> 'i) option) \<Rightarrow> ('i, 'k) set_pair \<Rightarrow> bool option" where
  "subset_loop nx p = (case next_self p of
       Some a \<Rightarrow> (case next_other p of
           Some b \<Rightarrow>
             if a = b then do { p \<leftarrow> advance_self nx p; p \<leftarrow> advance_other nx p; subset_loop nx p }
             else if b < a then do { p \<leftarrow> advance_other nx p; subset_loop nx p }
             else Some False
         | None \<Rightarrow> Some False)
     | None \<Rightarrow> Some True)"

partial_function (option) symmetric_difference_next ::
  "('i \<Rightarrow> ('k::linorder option \<times> 'i) option) \<Rightarrow> ('i, 'k) set_pair \<Rightarrow> ('k option \<times> ('i, 'k) set_pair) option" where
  "symmetric_difference_next nx p = (case (next_self p, next_other p) of
       (Some a, Some b) \<Rightarrow>
         if a < b then do { p \<leftarrow> advance_self nx p; Some (Some a, p) }
         else if b < a then do { p \<leftarrow> advance_other nx p; Some (Some b, p) }
         else do { p \<leftarrow> advance_self nx p; p \<leftarrow> advance_other nx p; symmetric_difference_next nx p }
     | (Some a, None) \<Rightarrow> do { p \<leftarrow> advance_self nx p; Some (Some a, p) }
     | (None, Some b) \<Rightarrow> do { p \<leftarrow> advance_other nx p; Some (Some b, p) }
     | (None, None) \<Rightarrow> Some (None, p))"

definition set_union :: "'k::linorder storable \<Rightarrow> 's memory_ops \<Rightarrow> 's btree_set \<Rightarrow> 's btree_set \<Rightarrow> (('s, 'k) iter_internal, 'k) set_pair option" where
  "set_union K M a b = pair_start (set_iter_next K M) (set_iter a) (set_iter b)"

definition set_intersection :: "'k::linorder storable \<Rightarrow> 's memory_ops \<Rightarrow> 's btree_set \<Rightarrow> 's btree_set \<Rightarrow> (('s, 'k) iter_internal, 'k) set_pair option" where
  "set_intersection K M a b = pair_start (set_iter_next K M) (set_iter a) (set_iter b)"

definition set_symmetric_difference :: "'k::linorder storable \<Rightarrow> 's memory_ops \<Rightarrow> 's btree_set \<Rightarrow> 's btree_set \<Rightarrow> (('s, 'k) iter_internal, 'k) set_pair option" where
  "set_symmetric_difference K M a b = pair_start (set_iter_next K M) (set_iter a) (set_iter b)"

definition set_is_disjoint :: "'k::linorder storable \<Rightarrow> 's memory_ops \<Rightarrow> 's btree_set \<Rightarrow> 's btree_set \<Rightarrow> bool option" where
  "set_is_disjoint K M a b = do { p \<leftarrow> pair_start (set_iter_next K M) (set_iter a) (set_iter b); disjoint_loop (set_iter_next K M) p }"

definition set_is_subset :: "'k::linorder storable \<Rightarrow> 's memory_ops \<Rightarrow> 's btree_set \<Rightarrow> 's btree_set \<Rightarrow> bool option" where
  "set_is_subset K M a b = do { p \<leftarrow> pair_start (set_iter_next K M) (set_iter a) (set_iter b); subset_loop (set_iter_next K M) p }"

definition set_is_superset :: "'k::linorder storable \<Rightarrow> 's memory_ops \<Rightarrow> 's btree_set \<Rightarrow> 's btree_set \<Rightarrow> bool option" where
  "set_is_superset K M a b = set_is_subset K M b a"

section \<open>Sorted streams\<close>

text \<open>What an iterator promises to those who only call \<open>next\<close>: \<open>ks\<close> are the keys it still has.\<close>

locale key_stream =
  fixes nx :: "'i \<Rightarrow> ('k option \<times> 'i) option"
    and rep :: "'i \<Rightarrow> 'k list \<Rightarrow> bool"
  assumes next_law: "rep i ks \<Longrightarrow> ok (nx i) (\<lambda>(x, i'). x = pick Front ks \<and> rep i' (tl ks))"

text \<open>A client that takes all keys.\<close>

partial_function (option) drain :: "('i \<Rightarrow> ('k option \<times> 'i) option) \<Rightarrow> 'i \<Rightarrow> 'k list option" where
  "drain nx i = do {
     (x, i) \<leftarrow> nx i;
     case x of None \<Rightarrow> Some [] | Some k \<Rightarrow> do { ks \<leftarrow> drain nx i; Some (k # ks) } }"

fun next_n :: "('i \<Rightarrow> ('k option \<times> 'i) option) \<Rightarrow> nat \<Rightarrow> 'i \<Rightarrow> ('k option list \<times> 'i) option" where
  "next_n nx 0 i = Some ([], i)"
| "next_n nx (Suc n) i = do { (x, i) \<leftarrow> nx i; (xs, i) \<leftarrow> next_n nx n i; Some (x # xs, i) }"

context key_stream
begin

lemma drain_ok: "rep i ks \<Longrightarrow> drain nx i = Some ks"
proof (induction ks arbitrary: i)
  case Nil
  from next_law[OF Nil] show ?case
    by (subst drain.simps) (auto elim!: ok_obtain)
next
  case (Cons k ks)
  from next_law[OF Cons.prems] obtain i' where "nx i = Some (Some k, i')" "rep i' ks"
    by (auto elim!: ok_obtain)
  then show ?case
    using Cons.IH[of i'] by (subst drain.simps) simp
qed

lemma next_n_ok: "rep i ks \<Longrightarrow> ok (next_n nx n i) (\<lambda>(xs, i'). xs = picks (replicate n Front) ks \<and> (\<exists>ks'. rep i' ks'))"
proof (induction n arbitrary: i ks)
  case (Suc n)
  from next_law[OF Suc.prems] obtain i' where 1: "nx i = Some (pick Front ks, i')" "rep i' (tl ks)"
    by (auto elim!: ok_obtain)
  from Suc.IH[OF 1(2)] 1(1) show ?case
    by (auto elim!: ok_mono)
qed auto

end

text \<open>What the walks give, as functions of the two sorted lists.\<close>

fun union_list :: "'k::linorder list \<Rightarrow> 'k list \<Rightarrow> 'k list" where
  "union_list [] vs = vs"
| "union_list us [] = us"
| "union_list (u # us) (v # vs) =
     (if u < v then u # union_list us (v # vs) else if v < u then v # union_list (u # us) vs else u # union_list us vs)"

fun inter_list :: "'k::linorder list \<Rightarrow> 'k list \<Rightarrow> 'k list" where
  "inter_list [] vs = []"
| "inter_list us [] = []"
| "inter_list (u # us) (v # vs) =
     (if u < v then inter_list us (v # vs) else if v < u then inter_list (u # us) vs else u # inter_list us vs)"

fun symdiff_list :: "'k::linorder list \<Rightarrow> 'k list \<Rightarrow> 'k list" where
  "symdiff_list [] vs = vs"
| "symdiff_list us [] = us"
| "symdiff_list (u # us) (v # vs) =
     (if u < v then u # symdiff_list us (v # vs) else if v < u then v # symdiff_list (u # us) vs else symdiff_list us vs)"

lemma list_nil [simp]: "union_list us [] = us" "symdiff_list us [] = us"
  by (cases us; simp)+

lemma below_sorted: "sorted_wrt (<) (v # vs) \<Longrightarrow> u < v \<Longrightarrow> u \<notin> set (v # vs)" for u v :: "'k::linorder"
  by (auto dest: less_trans)

lemma heads_differ:
  fixes u v :: "'k::linorder"
  assumes "sorted_wrt (<) (u # us)" "sorted_wrt (<) (v # vs)"
  shows "u < v \<Longrightarrow> u \<notin> set (v # vs)" "v < u \<Longrightarrow> v \<notin> set (u # us)" "u \<notin> set us" "v \<notin> set vs"
  using assms below_sorted[of v vs u] below_sorted[of u us v] by auto

lemma set_lists:
  assumes "sorted_wrt (<) us" "sorted_wrt (<) vs"
  shows "set (union_list us vs) = set us \<union> set vs" "set (inter_list us vs) = set us \<inter> set vs"
    "set (symdiff_list us vs) = (set us - set vs) \<union> (set vs - set us)"
proof -
  show "set (union_list us vs) = set us \<union> set vs"
    by (induction us vs rule: union_list.induct) auto
  show "set (inter_list us vs) = set us \<inter> set vs"
    using assms
  proof (induction us vs rule: inter_list.induct)
    case (3 u us v vs)
    note d = heads_differ[OF 3(4,5)]
    show ?case
      using 3 d by (cases u v rule: linorder_cases) auto
  qed simp_all
  show "set (symdiff_list us vs) = (set us - set vs) \<union> (set vs - set us)"
    using assms
  proof (induction us vs rule: symdiff_list.induct)
    case (3 u us v vs)
    note d = heads_differ[OF 3(4,5)]
    show ?case
      using 3 d by (cases u v rule: linorder_cases) auto
  qed simp_all
qed

lemma sorted_lists:
  assumes "sorted_wrt (<) us" "sorted_wrt (<) vs"
  shows "sorted_wrt (<) (union_list us vs)" "sorted_wrt (<) (inter_list us vs)" "sorted_wrt (<) (symdiff_list us vs)"
proof -
  show "sorted_wrt (<) (union_list us vs)"
    using assms by (induction us vs rule: union_list.induct) (auto simp: set_lists dest: less_trans)
  show "sorted_wrt (<) (inter_list us vs)"
    using assms by (induction us vs rule: inter_list.induct) (auto simp: set_lists dest: less_trans)
  show "sorted_wrt (<) (symdiff_list us vs)"
    using assms by (induction us vs rule: symdiff_list.induct) (auto simp: set_lists dest: less_trans)
qed

text \<open>The walks over two streams are streams again.\<close>

locale key_pair = key_stream nx rep
  for nx :: "'i \<Rightarrow> ('k::linorder option \<times> 'i) option" and rep
begin

definition pair_at :: "('i, 'k) set_pair \<Rightarrow> 'k list \<Rightarrow> 'k list \<Rightarrow> bool" where
  "pair_at p us vs \<longleftrightarrow> rep (iter_self p) (tl us) \<and> next_self p = pick Front us \<and> rep (iter_other p) (tl vs) \<and> next_other p = pick Front vs \<and>
     sorted_wrt (<) us \<and> sorted_wrt (<) vs"

lemma pair_start_ok:
  assumes "rep i us" "rep j vs" "sorted_wrt (<) us" "sorted_wrt (<) vs"
  shows "ok (pair_start nx i j) (\<lambda>p. pair_at p us vs)"
proof -
  obtain i' j' where "nx i = Some (pick Front us, i')" "rep i' (tl us)" "nx j = Some (pick Front vs, j')" "rep j' (tl vs)"
    using next_law[OF assms(1)] next_law[OF assms(2)] by (auto elim!: ok_obtain)
  then show ?thesis
    using assms(3,4) by (simp add: pair_start_def pair_at_def)
qed

lemma advance_ok:
  assumes "pair_at p us vs"
  shows "us \<noteq> [] \<Longrightarrow> ok (advance_self nx p) (\<lambda>p'. pair_at p' (tl us) vs)" "vs \<noteq> [] \<Longrightarrow> ok (advance_other nx p) (\<lambda>p'. pair_at p' us (tl vs))"
proof -
  have r: "rep (iter_self p) (tl us)" "rep (iter_other p) (tl vs)"
    using assms by (simp_all add: pair_at_def)
  show "us \<noteq> [] \<Longrightarrow> ok (advance_self nx p) (\<lambda>p'. pair_at p' (tl us) vs)"
    using next_law[OF r(1)] assms unfolding advance_self_def by (cases us) (auto simp: pair_at_def elim!: ok_mono)
  show "vs \<noteq> [] \<Longrightarrow> ok (advance_other nx p) (\<lambda>p'. pair_at p' us (tl vs))"
    using next_law[OF r(2)] assms unfolding advance_other_def by (cases vs) (auto simp: pair_at_def elim!: ok_mono)
qed

lemma advance_both:
  assumes "pair_at p (u # us) (v # vs)"
  shows "ok (do { p \<leftarrow> advance_self nx p; advance_other nx p }) (\<lambda>p'. pair_at p' us vs)"
  using advance_ok(1)[OF assms] by (auto dest: advance_ok(2) elim!: ok_mono)

lemma pair_nexts: "pair_at p us vs \<Longrightarrow> next_self p = pick Front us \<and> next_other p = pick Front vs \<and> sorted_wrt (<) us \<and> sorted_wrt (<) vs"
  by (simp add: pair_at_def)

definition union_rep :: "('i, 'k) set_pair \<Rightarrow> 'k list \<Rightarrow> bool" where
  "union_rep p ks \<longleftrightarrow> (\<exists>us vs. pair_at p us vs \<and> ks = union_list us vs)"

definition inter_rep :: "('i, 'k) set_pair \<Rightarrow> 'k list \<Rightarrow> bool" where
  "inter_rep p ks \<longleftrightarrow> (\<exists>us vs. pair_at p us vs \<and> ks = inter_list us vs)"

definition symdiff_rep :: "('i, 'k) set_pair \<Rightarrow> 'k list \<Rightarrow> bool" where
  "symdiff_rep p ks \<longleftrightarrow> (\<exists>us vs. pair_at p us vs \<and> ks = symdiff_list us vs)"

lemma reps:
  assumes "pair_at p us vs"
  shows "union_rep p (union_list us vs)" "inter_rep p (inter_list us vs)" "symdiff_rep p (symdiff_list us vs)"
  using assms by (auto simp: union_rep_def inter_rep_def symdiff_rep_def)

lemma advanced:
  assumes "pair_at p us vs"
  shows "us = u # us' \<Longrightarrow> \<exists>p'. advance_self nx p = Some p' \<and> pair_at p' us' vs" "vs = v # vs' \<Longrightarrow> \<exists>p'. advance_other nx p = Some p' \<and> pair_at p' us vs'"
    "us = u # us' \<Longrightarrow> vs = v # vs' \<Longrightarrow> \<exists>p1 p'. advance_self nx p = Some p1 \<and> advance_other nx p1 = Some p' \<and> pair_at p' us' vs'"
  using advance_ok[OF assms] advance_both[of p u us' v vs'] assms by (auto elim!: ok_obtain)

lemma union_next_ok:
  assumes p: "pair_at p us vs"
  shows "ok (union_next nx p) (\<lambda>(x, p'). x = pick Front (union_list us vs) \<and> union_rep p' (tl (union_list us vs)))"
proof -
  note n = pair_nexts[OF p]
  consider "us = []" "vs = []" | v vs' where "us = []" "vs = v # vs'" | u us' where "us = u # us'" "vs = []" | u us' v vs' where "us = u # us'" "vs = v # vs'"
    by (cases us; cases vs) auto
  then show ?thesis
  proof cases
    case 1
    then show ?thesis
      using n reps(1)[OF p] by (simp add: union_next_def)
  next
    case 2
    then show ?thesis
      using n advanced(2)[OF p 2(2)] reps(1) by (force simp: union_next_def)
  next
    case 3
    then show ?thesis
      using n advanced(1)[OF p 3(1)] reps(1) by (force simp: union_next_def)
  next
    case (4 u us' v vs')
    from advanced(1)[OF p 4(1)] advanced(2)[OF p 4(2)] advanced(3)[OF p 4] show ?thesis
      using n 4 by (cases u v rule: linorder_cases) (auto simp: union_next_def dest: reps(1))
  qed
qed

lemma symmetric_difference_next_ok:
  assumes "pair_at p us vs"
  shows "ok (symmetric_difference_next nx p) (\<lambda>(x, p'). x = pick Front (symdiff_list us vs) \<and> symdiff_rep p' (tl (symdiff_list us vs)))"
  using assms
proof (induction us vs arbitrary: p rule: symdiff_list.induct)
  case (1 vs)
  show ?case
  proof (cases vs)
    case Nil
    then show ?thesis
      using pair_nexts[OF 1] reps(3)[OF 1] by (subst symmetric_difference_next.simps) simp
  next
    case (Cons v vs')
    then show ?thesis
      using pair_nexts[OF 1] advanced(2)[OF 1 Cons] reps(3) by (subst symmetric_difference_next.simps) force
  qed
next
  case (2 u us)
  then show ?case
    using pair_nexts[OF 2] advanced(1)[OF 2 refl] reps(3) by (subst symmetric_difference_next.simps) force
next
  case (3 u us v vs)
  from advanced(1)[OF 3(4) refl] advanced(2)[OF 3(4) refl] advanced(3)[OF 3(4) refl refl] show ?case
    using pair_nexts[OF 3(4)] 3(3) by (subst symmetric_difference_next.simps, cases u v rule: linorder_cases) (auto dest: reps(3))
qed

lemma intersection_next_ok:
  assumes "pair_at p us vs"
  shows "ok (intersection_next nx p) (\<lambda>(x, p'). x = pick Front (inter_list us vs) \<and> inter_rep p' (tl (inter_list us vs)))"
  using assms
proof (induction us vs arbitrary: p rule: inter_list.induct)
  case (3 u us v vs)
  from advanced(1)[OF 3(4) refl] advanced(2)[OF 3(4) refl] advanced(3)[OF 3(4) refl refl] show ?case
    using pair_nexts[OF 3(4)] 3(1,2) by (subst intersection_next.simps, cases u v rule: linorder_cases) (auto dest: reps(2))
qed (subst intersection_next.simps, use pair_nexts reps(2) in fastforce)+

lemma disjoint_loop_ok:
  assumes "pair_at p us vs"
  shows "disjoint_loop nx p = Some (set us \<inter> set vs = {})"
  using assms
proof (induction us vs arbitrary: p rule: inter_list.induct)
  case (3 u us v vs)
  note n = pair_nexts[OF 3(4)] and a = advance_ok[OF 3(4)]
  note d = heads_differ[of u us v vs]
  show ?case
  proof (cases u v rule: linorder_cases)
    case less
    then obtain p' where "advance_self nx p = Some p'" "pair_at p' us (v # vs)"
      using a(1) by (auto elim!: ok_obtain)
    then show ?thesis
      using 3(1)[OF less, of p'] n less d(1) by (subst disjoint_loop.simps) auto
  next
    case greater
    then obtain p' where "advance_other nx p = Some p'" "pair_at p' (u # us) vs"
      using a(2) by (auto elim!: ok_obtain)
    then show ?thesis
      using 3(2)[of p'] n greater d(2) by (subst disjoint_loop.simps) auto
  qed (use n in \<open>subst disjoint_loop.simps, simp\<close>)
qed (subst disjoint_loop.simps, use pair_nexts in fastforce)+

lemma subset_loop_ok:
  assumes "pair_at p us vs"
  shows "subset_loop nx p = Some (set us \<subseteq> set vs)"
  using assms
proof (induction us vs arbitrary: p rule: inter_list.induct)
  case (3 u us v vs)
  note n = pair_nexts[OF 3(4)] and a = advance_ok[OF 3(4)] advance_both[OF 3(4)]
  note d = heads_differ[of u us v vs]
  show ?case
  proof (cases u v rule: linorder_cases)
    case less
    then show ?thesis
      using n d(1) by (subst subset_loop.simps) auto
  next
    case greater
    then obtain p' where "advance_other nx p = Some p'" "pair_at p' (u # us) vs"
      using a(2) by (auto elim!: ok_obtain)
    then show ?thesis
      using 3(2)[of p'] n greater d(2) by (subst subset_loop.simps) auto
  next
    case equal
    then obtain p1 p' where "advance_self nx p = Some p1" "advance_other nx p1 = Some p'" "pair_at p' us vs"
      using a(3) by (auto elim!: ok_obtain)
    then show ?thesis
      using 3(3)[of p'] n equal d(3,4) by (subst subset_loop.simps) auto
  qed
qed (subst subset_loop.simps, use pair_nexts in fastforce)+

end

sublocale key_pair \<subseteq> union: key_stream "union_next nx" union_rep
  by unfold_locales (auto simp: union_rep_def dest: union_next_ok)

sublocale key_pair \<subseteq> inter: key_stream "intersection_next nx" inter_rep
  by unfold_locales (auto simp: inter_rep_def dest: intersection_next_ok)

sublocale key_pair \<subseteq> symdiff: key_stream "symmetric_difference_next nx" symdiff_rep
  by unfold_locales (auto simp: symdiff_rep_def dest: symmetric_difference_next_ok)

context key_pair
begin

lemma drain_walks:
  assumes "pair_at p us vs"
  shows "drain (union_next nx) p = Some (union_list us vs)" "drain (intersection_next nx) p = Some (inter_list us vs)"
    "drain (symmetric_difference_next nx) p = Some (symdiff_list us vs)"
  using union.drain_ok inter.drain_ok symdiff.drain_ok reps[OF assms] by blast+

end

section \<open>The set in memory\<close>

context btree_values
begin

lemma set_iter_next_ok:
  assumes it: "scans it xs C ys"
  shows "ok (set_iter_next K M it) (\<lambda>(x, it'). x = map_option fst (pick Front ys) \<and> scans it' xs C (tl ys))"
proof -
  from scan_read[OF reads_item it, of Front] obtain x it' where
    1: "items_next K M it = Some (x, it')" "scans it' xs C (rest Front ys)"
      "case pick Front ys of None \<Rightarrow> x = None | Some z \<Rightarrow> \<exists>y W root len r. x = Some y \<and> z \<in> set xs \<and> item_is W (apsnd (enc V) z) y \<and>
        iterating W root len r it' (encoded V xs) C (encoded V (rest Front ys))"
    by (auto simp: items_next_def simp del: rest.simps elim!: ok_obtain)
  show ?thesis
  proof (cases "pick Front ys")
    case None
    then show ?thesis
      using 1 by (simp add: set_iter_next_def)
  next
    case (Some z)
    then obtain y W root len r where y: "x = Some y" "item_is W (apsnd (enc V) z) y" "iterating W root len r it' (encoded V xs) C (encoded V (rest Front ys))"
      using 1(3) by auto
    have "synced (it_map it') root len W r"
      using y(3) by (simp add: iterating_def)
    from lazy_key_ok[OF this y(2)] show ?thesis
      using 1(1) y(1) Some scans_upd[OF 1(2) y(3)] by (auto simp: set_iter_next_def elim!: ok_mono)
  qed
qed

end

abbreviation units :: "'k list \<Rightarrow> ('k \<times> unit) list" where
  "units ks \<equiv> map (\<lambda>k. (k, ())) ks"

lemma units_fst: "units (map fst xs) = xs"
  by (induction xs) auto

definition set_rep ::
  "'s memory_ops \<Rightarrow> ('s \<Rightarrow> bool) \<Rightarrow> ('s \<Rightarrow> bytes) \<Rightarrow> ('s \<Rightarrow> nat) \<Rightarrow> 'k::linorder storable \<Rightarrow> ('k \<Rightarrow> bool) \<Rightarrow> nat \<Rightarrow> 's btree_set \<Rightarrow> 'k list \<Rightarrow> nat \<Rightarrow> bool" where
  "set_rep M minv contents cap K vk kb st ks C \<longleftrightarrow> btree_rep M minv contents cap K vk unit_storable (\<lambda>_. True) kb 0 (bs_map st) (units ks) C"

text \<open>An iterator of a set as a stream of keys.\<close>

definition set_stream ::
  "'s memory_ops \<Rightarrow> ('s \<Rightarrow> bool) \<Rightarrow> ('s \<Rightarrow> bytes) \<Rightarrow> ('s \<Rightarrow> nat) \<Rightarrow> 'k::linorder storable \<Rightarrow> ('k \<Rightarrow> bool) \<Rightarrow> nat \<Rightarrow> 'k list \<Rightarrow> nat \<Rightarrow>
   ('s, 'k) iter_internal \<Rightarrow> 'k list \<Rightarrow> bool" where
  "set_stream M minv contents cap K vk kb ks C it js \<longleftrightarrow> btree_scan M minv contents cap K vk unit_storable (\<lambda>_. True) kb 0 it (units ks) C (units js)"

lemma set_stream_next:
  assumes "set_stream M minv contents cap K vk kb ks C it js"
  shows "ok (set_iter_next K M it) (\<lambda>(x, it'). x = pick Front js \<and> set_stream M minv contents cap K vk kb ks C it' (tl js))"
proof -
  have "ok (set_iter_next K M it) (\<lambda>(x, it'). x = map_option fst (pick Front (units js)) \<and>
      btree_scan M minv contents cap K vk unit_storable (\<lambda>_. True) kb 0 it' (units ks) C (tl (units js)))"
    by (rule btree_scanE[OF assms[unfolded set_stream_def]], rule ok_mono[OF btree_values.set_iter_next_ok], assumption+, force)
  then show ?thesis
    by (auto simp: set_stream_def pick_map map_tl option.map_comp comp_def option.map_ident elim!: ok_mono)
qed

lemma stream_on: "key_stream (set_iter_next K M) (set_stream M minv contents cap K vk kb ks C)"
  by unfold_locales (rule set_stream_next)

lemma any_stream_on: "key_pair (set_iter_next K M) (\<lambda>it js. \<exists>ks C. set_stream M minv contents cap K vk kb ks C it js)"
proof
  fix it js
  assume "\<exists>ks C. set_stream M minv contents cap K vk kb ks C it js"
  then obtain ks C where "set_stream M minv contents cap K vk kb ks C it js"
    by blast
  from set_stream_next[OF this] show "ok (set_iter_next K M it) (\<lambda>(x, it'). x = pick Front js \<and> (\<exists>ks C. set_stream M minv contents cap K vk kb ks C it' (tl js)))"
    by (rule ok_mono) auto
qed

lemma set_streams:
  assumes "set_rep M minv contents cap K vk kb st ks C"
  shows "set_stream M minv contents cap K vk kb ks C (set_iter st) ks"
    "set_stream M minv contents cap K vk kb ks C (set_range st rg) (filter (range_contains rg) ks)" "sorted_wrt (<) ks"
proof -
  note m = assms[unfolded set_rep_def]
  show "set_stream M minv contents cap K vk kb ks C (set_iter st) ks" "set_stream M minv contents cap K vk kb ks C (set_range st rg) (filter (range_contains rg) ks)"
    using rep_scan(1)[OF m] rep_scan(2)[OF m, of rg] by (simp_all add: set_stream_def set_iter_def set_range_def btree_iters filter_map comp_def)
  show "sorted_wrt (<) ks"
    using rep_sorted[OF m] by (simp add: sorted_wrt_map)
qed

lemma stream_rep: "set_stream M minv contents cap K vk kb ks C it js \<Longrightarrow> set_rep M minv contents cap K vk kb \<lparr>bs_map = it_map it\<rparr> ks C"
  by (simp add: set_stream_def set_rep_def scan_rep)

section \<open>Clients\<close>

datatype 'k set_cmd = SetInsert 'k | SetContains 'k | SetRemove 'k | SetLen | SetIsEmpty | SetFirst | SetLast | SetPopFirst | SetPopLast
  | SetClear | SetReopen | SetIter nat | SetRange "'k key_range" nat

datatype 'k set_reply = SFlag bool | SCount nat | SKey "'k option" | SKeys "'k option list" | SDone

fun st_step :: "'k::linorder storable \<Rightarrow> 's memory_ops \<Rightarrow> 's btree_set \<Rightarrow> 'k set_cmd \<Rightarrow> ('k set_reply \<times> 's btree_set) option" where
  "st_step K M st (SetInsert k) = do { (b, st) \<leftarrow> set_insert K M st k; Some (SFlag b, st) }"
| "st_step K M st (SetContains k) = do { (b, st) \<leftarrow> set_contains K M st k; Some (SFlag b, st) }"
| "st_step K M st (SetRemove k) = do { (b, st) \<leftarrow> set_remove K M st k; Some (SFlag b, st) }"
| "st_step K M st SetLen = Some (SCount (set_len st), st)"
| "st_step K M st SetIsEmpty = Some (SFlag (set_is_empty st), st)"
| "st_step K M st SetFirst = do { (k, st) \<leftarrow> set_first K M st; Some (SKey k, st) }"
| "st_step K M st SetLast = do { (k, st) \<leftarrow> set_last K M st; Some (SKey k, st) }"
| "st_step K M st SetPopFirst = do { (k, st) \<leftarrow> set_pop_first K M st; Some (SKey k, st) }"
| "st_step K M st SetPopLast = do { (k, st) \<leftarrow> set_pop_last K M st; Some (SKey k, st) }"
| "st_step K M st SetClear = do { st \<leftarrow> set_clear M st; Some (SDone, st) }"
| "st_step K M st SetReopen = do { st \<leftarrow> set_init K M (set_into_memory st); Some (SDone, st) }"
| "st_step K M st (SetIter n) = do { (ks, it) \<leftarrow> next_n (set_iter_next K M) n (set_iter st); Some (SKeys ks, \<lparr>bs_map = it_map it\<rparr>) }"
| "st_step K M st (SetRange rg n) = do { (ks, it) \<leftarrow> next_n (set_iter_next K M) n (set_range st rg); Some (SKeys ks, \<lparr>bs_map = it_map it\<rparr>) }"

fun st_run :: "'k::linorder storable \<Rightarrow> 's memory_ops \<Rightarrow> 's btree_set \<Rightarrow> 'k set_cmd list \<Rightarrow> ('k set_reply list \<times> 's btree_set) option" where
  "st_run K M st [] = Some ([], st)"
| "st_run K M st (c # cs) = do { (r, st) \<leftarrow> st_step K M st c; (rs, st) \<leftarrow> st_run K M st cs; Some (r # rs, st) }"

text \<open>The specification: a finite set.\<close>

definition least :: "'k::linorder set \<Rightarrow> 'k option" where
  "least A = (if A = {} then None else Some (Min A))"

definition greatest :: "'k::linorder set \<Rightarrow> 'k option" where
  "greatest A = (if A = {} then None else Some (Max A))"

fun set_step :: "'k::linorder set \<Rightarrow> 'k set_cmd \<Rightarrow> 'k set_reply \<times> 'k set" where
  "set_step A (SetInsert k) = (SFlag (k \<notin> A), insert k A)"
| "set_step A (SetContains k) = (SFlag (k \<in> A), A)"
| "set_step A (SetRemove k) = (SFlag (k \<in> A), A - {k})"
| "set_step A SetLen = (SCount (card A), A)"
| "set_step A SetIsEmpty = (SFlag (A = {}), A)"
| "set_step A SetFirst = (SKey (least A), A)"
| "set_step A SetLast = (SKey (greatest A), A)"
| "set_step A SetPopFirst = (SKey (least A), A - set_option (least A))"
| "set_step A SetPopLast = (SKey (greatest A), A - set_option (greatest A))"
| "set_step A SetClear = (SDone, {})"
| "set_step A SetReopen = (SDone, A)"
| "set_step A (SetIter n) = (SKeys (picks (replicate n Front) (sorted_list_of_set A)), A)"
| "set_step A (SetRange rg n) = (SKeys (picks (replicate n Front) (filter (range_contains rg) (sorted_list_of_set A))), A)"

fun set_run :: "'k::linorder set \<Rightarrow> 'k set_cmd list \<Rightarrow> 'k set_reply list \<times> 'k set" where
  "set_run A [] = ([], A)"
| "set_run A (c # cs) = (let (r, A') = set_step A c; (rs, A'') = set_run A' cs in (r # rs, A''))"

fun set_growth :: "'k set_cmd \<Rightarrow> nat" where
  "set_growth (SetInsert k) = 1"
| "set_growth c = 0"

fun set_cmd_valid :: "('k \<Rightarrow> bool) \<Rightarrow> 'k set_cmd \<Rightarrow> bool" where
  "set_cmd_valid vk (SetInsert k) \<longleftrightarrow> vk k"
| "set_cmd_valid vk c \<longleftrightarrow> True"

text \<open>The commands of the set are commands of the map, except for the iterators.\<close>

fun as_map_cmd :: "'k set_cmd \<Rightarrow> ('k, unit) map_cmd" where
  "as_map_cmd (SetInsert k) = MapInsert k ()"
| "as_map_cmd (SetContains k) = MapGet k"
| "as_map_cmd (SetRemove k) = MapRemove k"
| "as_map_cmd SetLen = MapLen"
| "as_map_cmd SetIsEmpty = MapIsEmpty"
| "as_map_cmd SetFirst = MapFirst"
| "as_map_cmd SetLast = MapLast"
| "as_map_cmd SetPopFirst = MapPopFirst"
| "as_map_cmd SetPopLast = MapPopLast"
| "as_map_cmd SetClear = MapClear"
| "as_map_cmd c = MapReopen"

fun as_set_reply :: "'k set_cmd \<Rightarrow> ('k, unit) map_reply \<Rightarrow> 'k set_reply" where
  "as_set_reply (SetInsert k) (Stored v) = SFlag (v = None)"
| "as_set_reply c (Stored v) = SFlag (v \<noteq> None)"
| "as_set_reply c (Count n) = SCount n"
| "as_set_reply c (Flag b) = SFlag b"
| "as_set_reply c (Entry e) = SKey (map_option fst e)"
| "as_set_reply c r = SDone"

fun iterates_set :: "'k set_cmd \<Rightarrow> bool" where
  "iterates_set (SetIter n) = True"
| "iterates_set (SetRange rg n) = True"
| "iterates_set c = False"

lemma st_step_map:
  "\<not> iterates_set c \<Longrightarrow> st_step K M st c = do { (r, m) \<leftarrow> bt_step K unit_storable M (bs_map st) (as_map_cmd c); Some (as_set_reply c r, \<lparr>bs_map = m\<rparr>) }"
  by (cases c) (simp_all add: set_insert_def set_contains_def set_remove_def set_len_def set_is_empty_def set_first_def set_last_def set_pop_first_def set_pop_last_def
      set_clear_def set_init_def set_into_memory_def case_prod_beta split: option.splits)

lemma least_first: "map_option fst (first_of f) = least (dom f)" "map_option fst (last_of f) = greatest (dom f)"
  by (simp_all add: first_of_def last_of_def least_def greatest_def)

lemma dom_without: "dom (without e f) = dom f - set_option (map_option fst e)"
  by (cases e) (auto simp: without_def split: prod.splits)

lemma not_Some_unit: "x \<noteq> Some () \<longleftrightarrow> x = None"
  by (cases x) auto

lemma set_step_map: "\<not> iterates_set c \<Longrightarrow> set_step (dom f) c = map_prod (as_set_reply c) dom (map_step f (as_map_cmd c))"
  by (cases c) (simp_all add: least_first dom_without domIff not_Some_unit)

lemma dom_units [simp]: "dom (map_of (units ks)) = set ks"
  by (simp add: dom_map_of_conv_image_fst image_image)

lemma sorted_keys_set: "sorted_wrt (<) ks \<Longrightarrow> sorted_list_of_set (set ks) = ks"
  by (simp add: strict_sorted_iff sorted_list_of_set.idem_if_sorted_distinct)

text \<open>One command, and a run of commands.\<close>

lemma set_step_simulates:
  assumes st: "set_rep M minv contents cap K vk kb st ks C" and c: "set_cmd_valid vk c" "2 * ((length ks + set_growth c) div 5) + 4 \<le> C"
  shows "ok (st_step K M st c) (\<lambda>(r, st'). \<exists>ks'. set_step (set ks) c = (r, set ks') \<and>
    set_rep M minv contents cap K vk kb st' ks' C \<and> length ks' \<le> length ks + set_growth c)"
proof (cases "iterates_set c")
  case True
  note s = set_streams[OF st]
  have n: "ok (next_n (set_iter_next K M) n it) (\<lambda>(xs, it'). xs = picks (replicate n Front) js \<and> set_rep M minv contents cap K vk kb \<lparr>bs_map = it_map it'\<rparr> ks C)"
    if "set_stream M minv contents cap K vk kb ks C it js" for n it js
    by (rule ok_mono[OF key_stream.next_n_ok[OF stream_on that]]) (auto dest: stream_rep)
  from True consider k where "c = SetIter k" | rg k where "c = SetRange rg k"
    by (cases c) auto
  then show ?thesis
  proof cases
    case (1 k)
    then show ?thesis
      using n[OF s(1), of k] by (auto simp: sorted_keys_set[OF s(3)] intro!: exI[of _ ks] elim!: ok_mono)
  next
    case (2 rg k)
    then show ?thesis
      using n[OF s(2), of k rg] by (auto simp: sorted_keys_set[OF s(3)] intro!: exI[of _ ks] elim!: ok_mono)
  qed
next
  case False
  have g: "growth (as_map_cmd c) = set_growth c" "map_cmd_valid vk (\<lambda>_. True) (as_map_cmd c)"
    using c(1) by (cases c; simp)+
  from step_simulates[OF st[unfolded set_rep_def] g(2)] c(2) g(1) obtain r m xs where
    1: "bt_step K unit_storable M (bs_map st) (as_map_cmd c) = Some (r, m)" "map_step (map_of (units ks)) (as_map_cmd c) = (r, map_of xs)"
      "btree_rep M minv contents cap K vk unit_storable (\<lambda>_. True) kb 0 m xs C" "length xs \<le> length ks + set_growth c"
    by (auto elim!: ok_obtain)
  show ?thesis
    unfolding st_step_map[OF False] using 1 set_step_map[OF False, of "map_of (units ks)"]
    by (simp add: set_rep_def exI[of _ "map fst xs"] units_fst dom_map_of_conv_image_fst[of xs] del: map_map)
qed

lemma set_run_simulates:
  assumes "set_rep M minv contents cap K vk kb st ks C" "list_all (set_cmd_valid vk) cs"
    "2 * ((length ks + sum_list (map set_growth cs)) div 5) + 4 \<le> C"
  shows "ok (st_run K M st cs) (\<lambda>(rs, st'). \<exists>ks'. set_run (set ks) cs = (rs, set ks') \<and> set_rep M minv contents cap K vk kb st' ks' C)"
  using assms
proof (induction cs arbitrary: st ks)
  case Nil
  then show ?case by auto
next
  case (Cons c cs)
  have "2 * ((length ks + set_growth c) div 5) + 4 \<le> C"
    using Cons.prems(3) div_le_mono[of "length ks + set_growth c" "length ks + sum_list (map set_growth (c # cs))" 5] by simp
  from set_step_simulates[OF Cons.prems(1) _ this] Cons.prems(2) obtain r st1 ks1 where
    1: "st_step K M st c = Some (r, st1)" "set_step (set ks) c = (r, set ks1)" "set_rep M minv contents cap K vk kb st1 ks1 C"
      "length ks1 \<le> length ks + set_growth c"
    by (auto elim!: ok_obtain)
  have "2 * ((length ks1 + sum_list (map set_growth cs)) div 5) + 4 \<le> C"
    using Cons.prems(3) 1(4) div_le_mono[of "length ks1 + sum_list (map set_growth cs)" "length ks + sum_list (map set_growth (c # cs))" 5] by simp
  from Cons.IH[OF 1(3) _ this] Cons.prems(2) 1(1,2) show ?case
    by (auto elim!: ok_mono)
qed

definition set_client ::
  "'s memory_ops \<Rightarrow> ('s \<Rightarrow> bool) \<Rightarrow> ('s \<Rightarrow> bytes) \<Rightarrow> ('s \<Rightarrow> nat) \<Rightarrow> 'k::linorder storable \<Rightarrow> ('k \<Rightarrow> bool) \<Rightarrow> nat \<Rightarrow> nat \<Rightarrow> 's \<Rightarrow> 'k set_cmd list \<Rightarrow> bool" where
  "set_client M minv contents cap K vk kb sz s cs \<longleftrightarrow>
     memory M minv contents cap \<and> btree_types K vk unit_storable (\<lambda>_. True) kb 0 \<and> minv s \<and> new_page_size K unit_storable = Some (PageValue sz) \<and>
     128 \<le> sz \<and> sz \<le> U32_MAX \<and> list_all (set_cmd_valid vk) cs \<and>
     btree_bytes sz kb 0 (2 * (sum_list (map set_growth cs) div 5) + 4) \<le> cap s * WASM_PAGE_SIZE"

text \<open>A client makes a set and runs its commands.\<close>

definition set_program :: "'k::linorder storable \<Rightarrow> 's memory_ops \<Rightarrow> 's \<Rightarrow> 'k set_cmd list \<Rightarrow> ('k set_reply list \<times> 's btree_set) option" where
  "set_program K M s cs = do { st \<leftarrow> set_new K M s; st_run K M st cs }"

lemma set_program_ok:
  assumes "set_client M minv contents cap K vk kb sz s cs"
  shows "ok (set_program K M s cs) (\<lambda>(rs, st). \<exists>ks C. set_run {} cs = (rs, set ks) \<and> set_rep M minv contents cap K vk kb st ks C)"
proof -
  let ?C = "2 * (sum_list (map set_growth cs) div 5) + 4"
  from new_rep[of M minv contents cap K vk unit_storable "\<lambda>_. True" kb 0 s sz ?C] assms obtain m where
    m: "btree_new K unit_storable M s = Some m" "btree_rep M minv contents cap K vk unit_storable (\<lambda>_. True) kb 0 m [] ?C"
    by (auto simp: set_client_def elim!: ok_obtain)
  have "set_rep M minv contents cap K vk kb \<lparr>bs_map = m\<rparr> [] ?C"
    using m(2) by (simp add: set_rep_def)
  from set_run_simulates[OF this, of cs] assms m(1) show ?thesis
    by (fastforce simp: set_client_def set_program_def set_new_def elim!: ok_mono)
qed

text \<open>The operations on two sets.\<close>

lemma set_algebra_ok:
  assumes a: "set_rep M minv contents cap K vk kb a ks C" and b: "set_rep M minv contents cap K vk kb b js D"
  shows "ok (set_union K M a b) (\<lambda>p. drain (union_next (set_iter_next K M)) p = Some (sorted_list_of_set (set ks \<union> set js)))"
    "ok (set_intersection K M a b) (\<lambda>p. drain (intersection_next (set_iter_next K M)) p = Some (sorted_list_of_set (set ks \<inter> set js)))"
    "ok (set_symmetric_difference K M a b)
      (\<lambda>p. drain (symmetric_difference_next (set_iter_next K M)) p = Some (sorted_list_of_set ((set ks - set js) \<union> (set js - set ks))))"
    "set_is_disjoint K M a b = Some (set ks \<inter> set js = {})" "set_is_subset K M a b = Some (set ks \<subseteq> set js)"
proof -
  let ?rep = "\<lambda>it js. \<exists>ks C. set_stream M minv contents cap K vk kb ks C it js"
  note kp = any_stream_on[of K M minv contents cap vk kb]
  note sa = set_streams(3)[OF a] and sb = set_streams(3)[OF b]
  note sl = set_lists[OF sa sb] and so = sorted_lists[OF sa sb, THEN sorted_keys_set]
  have "?rep (set_iter a) ks" "?rep (set_iter b) js"
    using set_streams(1)[OF a] set_streams(1)[OF b] by blast+
  from key_pair.pair_start_ok[OF kp this sa sb] obtain p where
    p: "pair_start (set_iter_next K M) (set_iter a) (set_iter b) = Some p" "key_pair.pair_at ?rep p ks js"
    by (auto elim!: ok_obtain)
  note r = key_pair.drain_walks[OF kp p(2)]
  show "ok (set_union K M a b) (\<lambda>p. drain (union_next (set_iter_next K M)) p = Some (sorted_list_of_set (set ks \<union> set js)))"
    using r(1) so(1) sl(1) p(1) by (simp add: set_union_def)
  show "ok (set_intersection K M a b) (\<lambda>p. drain (intersection_next (set_iter_next K M)) p = Some (sorted_list_of_set (set ks \<inter> set js)))"
    using r(2) so(2) sl(2) p(1) by (simp add: set_intersection_def)
  show "ok (set_symmetric_difference K M a b)
      (\<lambda>p. drain (symmetric_difference_next (set_iter_next K M)) p = Some (sorted_list_of_set ((set ks - set js) \<union> (set js - set ks))))"
    using r(3) so(3) sl(3) p(1) by (simp add: set_symmetric_difference_def)
  show "set_is_disjoint K M a b = Some (set ks \<inter> set js = {})" "set_is_subset K M a b = Some (set ks \<subseteq> set js)"
    using p(1) key_pair.disjoint_loop_ok[OF kp p(2)] key_pair.subset_loop_ok[OF kp p(2)] by (simp_all add: set_is_disjoint_def set_is_subset_def)
qed

text \<open>The instance that the examples use: sets of u64 in a vector memory.\<close>

lemma u64_set_types: "btree_types u64_storable (\<lambda>_. True) unit_storable (\<lambda>_. True) 8 0"
  using u64_ty.storable_type_axioms unit_ty.storable_type_axioms
  by (simp add: btree_types_def enc_def key_bytes_def u64_storable_def unit_storable_def word_to_bytes_def)

lemma u64_set_page_size: "new_page_size u64_storable unit_storable = Some (PageValue 209)"
  by (simp add: new_page_size_def u64_storable_def unit_storable_def size_v1_def U32_SIZE_def CAPACITY_def node_header_size_def as_u32_def u64_add_def u64_mul_def)

interpretation u64_keys: key_pair "set_iter_next u64_storable VectorMemory"
  "\<lambda>it js. \<exists>ks C. set_stream VectorMemory vec_inv (\<lambda>m. m) vec_cap u64_storable (\<lambda>_. True) 8 ks C it js"
  by (rule any_stream_on)

section \<open>Properties\<close>

text \<open>
  C4. A B-tree set is a finite set: for any memory and any type of keys that meet their contracts, a set made by \<open>new\<close> runs any list of
  commands (insert, contains, remove, len, is_empty, first, last, pop_first, pop_last, clear, reopening it from its memory, and taking any
  number of keys from an iterator over all keys or over a range) to the end, and each one answers what it answers on a finite set: insert
  tells whether the key is new, remove whether it was there, and the iterators give the keys in increasing order.
\<close>

theorem set_simulates:
  assumes "set_client M minv contents cap K vk kb sz s cs"
  shows "ok (set_program K M s cs) (\<lambda>(rs, st). rs = fst (set_run {} cs))"
  by (rule ok_mono[OF set_program_ok[OF assms]]) auto

lemma u64_set_client:
  assumes "sum_list (map set_growth cs) \<le> 50"
  shows "set_client VectorMemory vec_inv (\<lambda>m. m) vec_cap u64_storable (\<lambda>_. True) 8 209 [] cs"
proof -
  have "set_cmd_valid (\<lambda>_. True) c" for c :: "64 word set_cmd"
    by (cases c) auto
  moreover have "sum_list (map set_growth cs) div 5 \<le> 10"
    using div_le_mono[OF assms, of 5] by simp
  ultimately show ?thesis
    using vm.memory_axioms u64_set_types vec_inv_empty u64_set_page_size
    by (simp add: set_client_def btree_bytes_def ALLOCATOR_OFFSET_def pages_needed_def vec_cap_def VEC_MAX_PAGES_val list_all_iff)
qed

definition example_set :: "64 word set_cmd list" where
  "example_set = [SetInsert 7, SetInsert 3, SetInsert 7, SetReopen, SetIter 3, SetFirst, SetRemove 3, SetContains 3, SetLen]"

theorem set_simulates_witness:
  "ok (set_program u64_storable VectorMemory [] example_set)
    (\<lambda>(rs, st). rs = [SFlag True, SFlag True, SFlag False, SDone, SKeys [Some 3, Some 7, None], SKey (Some 3), SFlag True, SFlag False, SCount 1])"
proof -
  have "sum_list (map set_growth example_set) \<le> 50"
    by (simp add: example_set_def)
  from set_simulates[OF u64_set_client[OF this]] show ?thesis
    by (simp add: example_set_def least_def sorted_list_of_set_insert_remove numeral_3_eq_3 insert_Diff_if card_insert_if insert_absorb)
qed

text \<open>
  C5. Operations on two sets, each reached by any run of commands in its own memory: the iterators of union, intersection and symmetric
  difference give exactly the keys of the union, the intersection and the symmetric difference, in increasing order and none twice;
  \<open>is_disjoint\<close>, \<open>is_subset\<close> and \<open>is_superset\<close> answer what they ask. All of them end without a panic.
\<close>

theorem btree_set_algebra:
  assumes "set_client M minv contents cap K vk kb sz s cs" "set_client M minv contents cap K vk kb sz t ds"
    "A = snd (set_run {} cs)" "B = snd (set_run {} ds)"
  shows "ok (do {
      (rs, a) \<leftarrow> set_program K M s cs;
      (rs', b) \<leftarrow> set_program K M t ds;
      u \<leftarrow> set_union K M a b; us \<leftarrow> drain (union_next (set_iter_next K M)) u;
      i \<leftarrow> set_intersection K M a b; ins \<leftarrow> drain (intersection_next (set_iter_next K M)) i;
      d \<leftarrow> set_symmetric_difference K M a b; difs \<leftarrow> drain (symmetric_difference_next (set_iter_next K M)) d;
      disjoint \<leftarrow> set_is_disjoint K M a b; sub \<leftarrow> set_is_subset K M a b; sup \<leftarrow> set_is_superset K M a b;
      Some (us, ins, difs, disjoint, sub, sup) })
    (\<lambda>(us, ins, difs, disjoint, sub, sup). us = sorted_list_of_set (A \<union> B) \<and> ins = sorted_list_of_set (A \<inter> B) \<and>
      difs = sorted_list_of_set ((A - B) \<union> (B - A)) \<and> disjoint = (A \<inter> B = {}) \<and> sub = (A \<subseteq> B) \<and> sup = (B \<subseteq> A))"
proof -
  from set_program_ok[OF assms(1)] obtain rs a ks C where
    a: "set_program K M s cs = Some (rs, a)" "A = set ks" "set_rep M minv contents cap K vk kb a ks C"
    using assms(3) by (auto elim!: ok_obtain)
  from set_program_ok[OF assms(2)] obtain rs' b js D where
    b: "set_program K M t ds = Some (rs', b)" "B = set js" "set_rep M minv contents cap K vk kb b js D"
    using assms(4) by (auto elim!: ok_obtain)
  from set_algebra_ok[OF a(3) b(3)] set_algebra_ok(5)[OF b(3) a(3)] a(1) b(1) show ?thesis
    by (auto simp: a(2) b(2) set_is_superset_def elim!: ok_obtain)
qed

theorem btree_set_algebra_witness:
  "ok (do {
      (rs, a) \<leftarrow> set_program u64_storable VectorMemory [] [SetInsert 5, SetInsert 2];
      (rs', b) \<leftarrow> set_program u64_storable VectorMemory [] [SetInsert 5, SetInsert 9];
      u \<leftarrow> set_union u64_storable VectorMemory a b; us \<leftarrow> drain (union_next (set_iter_next u64_storable VectorMemory)) u;
      i \<leftarrow> set_intersection u64_storable VectorMemory a b; ins \<leftarrow> drain (intersection_next (set_iter_next u64_storable VectorMemory)) i;
      d \<leftarrow> set_symmetric_difference u64_storable VectorMemory a b; difs \<leftarrow> drain (symmetric_difference_next (set_iter_next u64_storable VectorMemory)) d;
      disjoint \<leftarrow> set_is_disjoint u64_storable VectorMemory a b; sub \<leftarrow> set_is_subset u64_storable VectorMemory a b;
      sup \<leftarrow> set_is_superset u64_storable VectorMemory a b;
      Some (us, ins, difs, disjoint, sub, sup) })
    (\<lambda>(us, ins, difs, disjoint, sub, sup). us = [2, 5, 9] \<and> ins = [5] \<and> difs = [2, 9] \<and> \<not> disjoint \<and> \<not> sub \<and> \<not> sup)"
proof -
  have "snd (set_run {} [SetInsert 5, SetInsert 2]) = {2, 5 :: 64 word}" "snd (set_run {} [SetInsert 5, SetInsert 9]) = {9, 5 :: 64 word}"
    by auto
  from btree_set_algebra[OF u64_set_client u64_set_client this[symmetric]] show ?thesis
    by (rule ok_mono) (auto simp: sorted_list_of_set_insert_remove insert_commute insert_Diff_if)
qed

end
