(* ===== verification/Rep_Log.thy ===== *)
theory Rep_Log
  imports BTree_Set Log Cell
begin

text \<open>
  \<open>RepLogMap\<close> (\<open>src/replog/src/lib.rs\<close>, \<open>src/replog/src/changelog.rs\<close>): a map with a log of its changes, from which a replica can follow
  it. The keys are in one B-tree map, with an entry number each, the values in another under the entry numbers, the changes in a log and
  two counters in a cell; the five memories are apart from each other. This theory has the code and the types that it stores.
\<close>

section \<open>The types in the log and in the cell\<close>

datatype change_kind = Upsert | Delete

fun kind_code :: "change_kind \<Rightarrow> 8 word" where
  "kind_code Upsert = 0"
| "kind_code Delete = 1"

record 'k change_entry =
  ce_kind :: change_kind
  ce_entry_id :: "64 word"
  ce_key :: 'k

definition is_upsert :: "'k change_entry \<Rightarrow> bool" where
  "is_upsert e \<longleftrightarrow> ce_kind e = Upsert"

definition is_delete :: "'k change_entry \<Rightarrow> bool" where
  "is_delete e \<longleftrightarrow> ce_kind e = Delete"

definition change_to_bytes :: "'k storable \<Rightarrow> 'k change_entry \<Rightarrow> bytes option" where
  "change_to_bytes K e = do {
     key_bytes \<leftarrow> to_bytes K (ce_key e);
     Some (kind_code (ce_kind e) # to_le_bytes 8 (unat (ce_entry_id e)) @ key_bytes) }"

definition change_from_bytes :: "'k storable \<Rightarrow> bytes \<Rightarrow> 'k change_entry option" where
  "change_from_bytes K bs = do {
     assert_that (0 < length bs);
     kind \<leftarrow> (if bs ! 0 = 0 then Some Upsert else if bs ! 0 = 1 then Some Delete else None);
     assert_that (9 \<le> length bs);
     key \<leftarrow> from_bytes K (drop 9 bs);
     Some \<lparr>ce_kind = kind, ce_entry_id = of_nat (from_le_bytes (subrange bs 1 8)), ce_key = key\<rparr> }"

definition change_storable :: "'k storable \<Rightarrow> 'k change_entry storable" where
  "change_storable K = \<lparr>to_bytes = change_to_bytes K, from_bytes = change_from_bytes K, BOUND = Unbounded\<rparr>"

record counters =
  next_entry_id :: "64 word"
  epoch_start :: nat

definition default_counters :: counters where
  "default_counters = \<lparr>next_entry_id = 0, epoch_start = 0\<rparr>"

definition counters_to_bytes :: "counters \<Rightarrow> bytes option" where
  "counters_to_bytes c = Some (to_le_bytes 8 (unat (next_entry_id c)) @ to_le_bytes 8 (epoch_start c))"

definition counters_from_bytes :: "bytes \<Rightarrow> counters option" where
  "counters_from_bytes bs = do {
     assert_that (8 \<le> length bs);
     assert_that (16 \<le> length bs);
     Some \<lparr>next_entry_id = of_nat (from_le_bytes (subrange bs 0 8)), epoch_start = from_le_bytes (subrange bs 8 8)\<rparr> }"

definition counters_storable :: "counters storable" where
  "counters_storable = \<lparr>to_bytes = counters_to_bytes, from_bytes = counters_from_bytes, BOUND = Bounded 16 True\<rparr>"

section \<open>The map\<close>

text \<open>The type parameters of the map: what its keys and values are stored as, its five memories, and the bytes that an entry of a snapshot page takes in the memory of the program.\<close>

record ('k, 'v, 'a, 'b, 'c, 'd, 'e) replog_types =
  key_type :: "'k storable"
  value_type :: "'v storable"
  key_mem :: "'a memory_ops"
  value_mem :: "'b memory_ops"
  index_mem :: "'c memory_ops"
  data_mem :: "'d memory_ops"
  counter_mem :: "'e memory_ops"
  entry_size :: nat

record ('a, 'b, 'c, 'd, 'e) rep_log_map =
  key_index :: "'a btree_map"
  value_store :: "'b btree_map"
  changelog :: "('c, 'd) log"
  rl_counters :: "(counters, 'e) cell"

datatype rep_log_error = ChangelogFull

definition rl_init ::
  "('k, 'v, 'a, 'b, 'c, 'd, 'e) replog_types \<Rightarrow> 'a \<Rightarrow> 'b \<Rightarrow> 'c \<Rightarrow> 'd \<Rightarrow> 'e \<Rightarrow> ('a, 'b, 'c, 'd, 'e) rep_log_map option" where
  "rl_init P key_index_mem value_store_mem changelog_index_mem changelog_data_mem counters_mem = do {
     ki \<leftarrow> btree_init (key_type P) u64_storable (key_mem P) key_index_mem;
     vs \<leftarrow> btree_init u64_storable (value_type P) (value_mem P) value_store_mem;
     l \<leftarrow> log_init (index_mem P) (data_mem P) changelog_index_mem changelog_data_mem;
     c \<leftarrow> cell_init counters_storable (counter_mem P) counters_mem default_counters;
     Some \<lparr>key_index = ki, value_store = vs, changelog = l, rl_counters = c\<rparr> }"

text \<open>The calls on the four parts.\<close>

definition index_get ::
  "('k::linorder, 'v, 'a, 'b, 'c, 'd, 'e) replog_types \<Rightarrow> ('a, 'b, 'c, 'd, 'e) rep_log_map \<Rightarrow> 'k \<Rightarrow>
   (64 word option \<times> ('a, 'b, 'c, 'd, 'e) rep_log_map) option" where
  "index_get P rl key = do {
     (r, m) \<leftarrow> btree_get (key_type P) u64_storable (key_mem P) (key_index rl) key;
     Some (r, rl\<lparr>key_index := m\<rparr>) }"

definition index_insert ::
  "('k::linorder, 'v, 'a, 'b, 'c, 'd, 'e) replog_types \<Rightarrow> ('a, 'b, 'c, 'd, 'e) rep_log_map \<Rightarrow> 'k \<Rightarrow> 64 word \<Rightarrow>
   (64 word option \<times> ('a, 'b, 'c, 'd, 'e) rep_log_map) option" where
  "index_insert P rl key entry_id = do {
     (r, m) \<leftarrow> btree_insert (key_type P) u64_storable (key_mem P) (key_index rl) key entry_id;
     Some (r, rl\<lparr>key_index := m\<rparr>) }"

definition index_remove ::
  "('k::linorder, 'v, 'a, 'b, 'c, 'd, 'e) replog_types \<Rightarrow> ('a, 'b, 'c, 'd, 'e) rep_log_map \<Rightarrow> 'k \<Rightarrow>
   (64 word option \<times> ('a, 'b, 'c, 'd, 'e) rep_log_map) option" where
  "index_remove P rl key = do {
     (r, m) \<leftarrow> btree_remove (key_type P) u64_storable (key_mem P) (key_index rl) key;
     Some (r, rl\<lparr>key_index := m\<rparr>) }"

definition store_get ::
  "('k, 'v, 'a, 'b, 'c, 'd, 'e) replog_types \<Rightarrow> ('a, 'b, 'c, 'd, 'e) rep_log_map \<Rightarrow> 64 word \<Rightarrow>
   ('v option \<times> ('a, 'b, 'c, 'd, 'e) rep_log_map) option" where
  "store_get P rl entry_id = do {
     (r, m) \<leftarrow> btree_get u64_storable (value_type P) (value_mem P) (value_store rl) entry_id;
     Some (r, rl\<lparr>value_store := m\<rparr>) }"

definition store_insert ::
  "('k, 'v, 'a, 'b, 'c, 'd, 'e) replog_types \<Rightarrow> ('a, 'b, 'c, 'd, 'e) rep_log_map \<Rightarrow> 64 word \<Rightarrow> 'v \<Rightarrow>
   ('v option \<times> ('a, 'b, 'c, 'd, 'e) rep_log_map) option" where
  "store_insert P rl entry_id v = do {
     (r, m) \<leftarrow> btree_insert u64_storable (value_type P) (value_mem P) (value_store rl) entry_id v;
     Some (r, rl\<lparr>value_store := m\<rparr>) }"

definition store_remove ::
  "('k, 'v, 'a, 'b, 'c, 'd, 'e) replog_types \<Rightarrow> ('a, 'b, 'c, 'd, 'e) rep_log_map \<Rightarrow> 64 word \<Rightarrow>
   ('v option \<times> ('a, 'b, 'c, 'd, 'e) rep_log_map) option" where
  "store_remove P rl entry_id = do {
     (r, m) \<leftarrow> btree_remove u64_storable (value_type P) (value_mem P) (value_store rl) entry_id;
     Some (r, rl\<lparr>value_store := m\<rparr>) }"

definition append_change ::
  "('k, 'v, 'a, 'b, 'c, 'd, 'e) replog_types \<Rightarrow> ('a, 'b, 'c, 'd, 'e) rep_log_map \<Rightarrow> change_kind \<Rightarrow> 64 word \<Rightarrow> 'k \<Rightarrow>
   ((log_write_error + nat) \<times> ('a, 'b, 'c, 'd, 'e) rep_log_map) option" where
  "append_change P rl kind entry_id key = do {
     (r, l) \<leftarrow> log_append (change_storable (key_type P)) (index_mem P) (data_mem P) (changelog rl)
        \<lparr>ce_kind = kind, ce_entry_id = entry_id, ce_key = key\<rparr>;
     Some (r, rl\<lparr>changelog := l\<rparr>) }"

definition set_counters ::
  "('k, 'v, 'a, 'b, 'c, 'd, 'e) replog_types \<Rightarrow> ('a, 'b, 'c, 'd, 'e) rep_log_map \<Rightarrow> counters \<Rightarrow> ('a, 'b, 'c, 'd, 'e) rep_log_map option" where
  "set_counters P rl c = do {
     (old, cl) \<leftarrow> cell_set counters_storable (counter_mem P) (rl_counters rl) c;
     Some (rl\<lparr>rl_counters := cl\<rparr>) }"

text \<open>\<open>c.next_entry_id += 1\<close> and \<open>c.next_entry_id -= 1\<close>, checked.\<close>

definition id_succ :: "counters \<Rightarrow> counters option" where
  "id_succ c = do { n \<leftarrow> u64_add (unat (next_entry_id c)) 1; Some (c\<lparr>next_entry_id := of_nat n\<rparr>) }"

definition id_pred :: "counters \<Rightarrow> counters option" where
  "id_pred c = do { n \<leftarrow> u64_sub (unat (next_entry_id c)) 1; Some (c\<lparr>next_entry_id := of_nat n\<rparr>) }"

definition rl_insert ::
  "('k::linorder, 'v, 'a, 'b, 'c, 'd, 'e) replog_types \<Rightarrow> ('a, 'b, 'c, 'd, 'e) rep_log_map \<Rightarrow> 'k \<Rightarrow> 'v \<Rightarrow>
   ('v option \<times> ('a, 'b, 'c, 'd, 'e) rep_log_map) option" where
  "rl_insert P rl key v = do {
     (found, rl) \<leftarrow> index_get P rl key;
     case found of
       Some entry_id \<Rightarrow> do {
         (old, rl) \<leftarrow> store_insert P rl entry_id v;
         (_, rl) \<leftarrow> expect (append_change P rl Upsert entry_id key);
         Some (old, rl) }
     | None \<Rightarrow> do {
         let c = cell_get (rl_counters rl);
         let entry_id = next_entry_id c;
         c \<leftarrow> id_succ c;
         rl \<leftarrow> set_counters P rl c;
         (_, rl) \<leftarrow> index_insert P rl key entry_id;
         (_, rl) \<leftarrow> store_insert P rl entry_id v;
         (_, rl) \<leftarrow> expect (append_change P rl Upsert entry_id key);
         Some (None, rl) } }"

definition rl_get ::
  "('k::linorder, 'v, 'a, 'b, 'c, 'd, 'e) replog_types \<Rightarrow> ('a, 'b, 'c, 'd, 'e) rep_log_map \<Rightarrow> 'k \<Rightarrow>
   ('v option \<times> ('a, 'b, 'c, 'd, 'e) rep_log_map) option" where
  "rl_get P rl key = do {
     (found, rl) \<leftarrow> index_get P rl key;
     case found of
       None \<Rightarrow> Some (None, rl)
     | Some entry_id \<Rightarrow> do {
         (v, rl) \<leftarrow> store_get P rl entry_id;
         assert_that (v \<noteq> None);
         Some (v, rl) } }"

definition rl_contains_key ::
  "('k::linorder, 'v, 'a, 'b, 'c, 'd, 'e) replog_types \<Rightarrow> ('a, 'b, 'c, 'd, 'e) rep_log_map \<Rightarrow> 'k \<Rightarrow>
   (bool \<times> ('a, 'b, 'c, 'd, 'e) rep_log_map) option" where
  "rl_contains_key P rl key = do {
     (b, m) \<leftarrow> btree_contains_key (key_type P) (key_mem P) (key_index rl) key;
     Some (b, rl\<lparr>key_index := m\<rparr>) }"

definition rl_remove ::
  "('k::linorder, 'v, 'a, 'b, 'c, 'd, 'e) replog_types \<Rightarrow> ('a, 'b, 'c, 'd, 'e) rep_log_map \<Rightarrow> 'k \<Rightarrow>
   ('v option \<times> ('a, 'b, 'c, 'd, 'e) rep_log_map) option" where
  "rl_remove P rl key = do {
     (found, rl) \<leftarrow> index_remove P rl key;
     case found of
       None \<Rightarrow> Some (None, rl)
     | Some entry_id \<Rightarrow> do {
         (v, rl) \<leftarrow> store_remove P rl entry_id;
         (_, rl) \<leftarrow> expect (append_change P rl Delete entry_id key);
         Some (v, rl) } }"

definition rl_try_insert ::
  "('k::linorder, 'v, 'a, 'b, 'c, 'd, 'e) replog_types \<Rightarrow> ('a, 'b, 'c, 'd, 'e) rep_log_map \<Rightarrow> 'k \<Rightarrow> 'v \<Rightarrow>
   ((rep_log_error + 'v option) \<times> ('a, 'b, 'c, 'd, 'e) rep_log_map) option" where
  "rl_try_insert P rl key v = do {
     (found, rl) \<leftarrow> index_get P rl key;
     case found of
       Some entry_id \<Rightarrow> do {
         (old, rl) \<leftarrow> store_insert P rl entry_id v;
         (r, rl) \<leftarrow> append_change P rl Upsert entry_id key;
         case r of
           Inr _ \<Rightarrow> Some (Inr old, rl)
         | Inl _ \<Rightarrow> do {
             (_, rl) \<leftarrow> (case old of
                Some old_val \<Rightarrow> store_insert P rl entry_id old_val
              | None \<Rightarrow> store_remove P rl entry_id);
             Some (Inl ChangelogFull, rl) } }
     | None \<Rightarrow> do {
         let c = cell_get (rl_counters rl);
         let entry_id = next_entry_id c;
         c \<leftarrow> id_succ c;
         rl \<leftarrow> set_counters P rl c;
         (_, rl) \<leftarrow> index_insert P rl key entry_id;
         (_, rl) \<leftarrow> store_insert P rl entry_id v;
         (r, rl) \<leftarrow> append_change P rl Upsert entry_id key;
         case r of
           Inr _ \<Rightarrow> Some (Inr None, rl)
         | Inl _ \<Rightarrow> do {
             (_, rl) \<leftarrow> index_remove P rl key;
             (_, rl) \<leftarrow> store_remove P rl entry_id;
             c \<leftarrow> id_pred c;
             rl \<leftarrow> set_counters P rl c;
             Some (Inl ChangelogFull, rl) } } }"

definition rl_try_remove ::
  "('k::linorder, 'v, 'a, 'b, 'c, 'd, 'e) replog_types \<Rightarrow> ('a, 'b, 'c, 'd, 'e) rep_log_map \<Rightarrow> 'k \<Rightarrow>
   ((rep_log_error + 'v option) \<times> ('a, 'b, 'c, 'd, 'e) rep_log_map) option" where
  "rl_try_remove P rl key = do {
     (found, rl) \<leftarrow> index_remove P rl key;
     case found of
       None \<Rightarrow> Some (Inr None, rl)
     | Some entry_id \<Rightarrow> do {
         (v, rl) \<leftarrow> store_remove P rl entry_id;
         (r, rl) \<leftarrow> append_change P rl Delete entry_id key;
         case r of
           Inr _ \<Rightarrow> Some (Inr v, rl)
         | Inl _ \<Rightarrow> do {
             (_, rl) \<leftarrow> index_insert P rl key entry_id;
             rl \<leftarrow> (case v of Some w \<Rightarrow> do { (_, rl) \<leftarrow> store_insert P rl entry_id w; Some rl } | None \<Rightarrow> Some rl);
             Some (Inl ChangelogFull, rl) } } }"

definition rl_len :: "('a, 'b, 'c, 'd, 'e) rep_log_map \<Rightarrow> nat" where
  "rl_len rl = btree_len (key_index rl)"

definition rl_is_empty :: "('a, 'b, 'c, 'd, 'e) rep_log_map \<Rightarrow> bool" where
  "rl_is_empty rl = btree_is_empty (key_index rl)"

definition rl_changelog_len ::
  "('k, 'v, 'a, 'b, 'c, 'd, 'e) replog_types \<Rightarrow> ('a, 'b, 'c, 'd, 'e) rep_log_map \<Rightarrow> (nat \<times> ('a, 'b, 'c, 'd, 'e) rep_log_map) option" where
  "rl_changelog_len P rl = do { (n, l) \<leftarrow> log_len (index_mem P) (changelog rl); Some (n, rl\<lparr>changelog := l\<rparr>) }"

definition rl_epoch_start :: "('a, 'b, 'c, 'd, 'e) rep_log_map \<Rightarrow> nat" where
  "rl_epoch_start rl = epoch_start (cell_get (rl_counters rl))"

definition rl_next_entry_id :: "('a, 'b, 'c, 'd, 'e) rep_log_map \<Rightarrow> 64 word" where
  "rl_next_entry_id rl = next_entry_id (cell_get (rl_counters rl))"

definition rl_current_seq ::
  "('k, 'v, 'a, 'b, 'c, 'd, 'e) replog_types \<Rightarrow> ('a, 'b, 'c, 'd, 'e) rep_log_map \<Rightarrow> (nat \<times> ('a, 'b, 'c, 'd, 'e) rep_log_map) option" where
  "rl_current_seq P rl = do {
     (n, rl) \<leftarrow> rl_changelog_len P rl;
     s \<leftarrow> u64_add (epoch_start (cell_get (rl_counters rl))) n;
     Some (s, rl) }"

definition rl_clear ::
  "('k, 'v, 'a, 'b, 'c, 'd, 'e) replog_types \<Rightarrow> ('a, 'b, 'c, 'd, 'e) rep_log_map \<Rightarrow> ('a, 'b, 'c, 'd, 'e) rep_log_map option" where
  "rl_clear P rl = do {
     (s, rl) \<leftarrow> rl_current_seq P rl;
     invalidation_seq \<leftarrow> u64_add s 1;
     ki \<leftarrow> btree_clear_new (key_mem P) (key_index rl);
     vs \<leftarrow> btree_clear_new (value_mem P) (value_store rl);
     l \<leftarrow> log_clear (index_mem P) (changelog rl);
     set_counters P (rl\<lparr>key_index := ki, value_store := vs, changelog := l\<rparr>)
       \<lparr>next_entry_id = next_entry_id (cell_get (rl_counters rl)), epoch_start = invalidation_seq\<rparr> }"

definition entry_value ::
  "('k, 'v, 'a, 'b, 'c, 'd, 'e) replog_types \<Rightarrow> ('a, 'b, 'c, 'd, 'e) rep_log_map \<Rightarrow> ('k \<times> 64 word) option \<Rightarrow>
   (('k \<times> 'v) option \<times> ('a, 'b, 'c, 'd, 'e) rep_log_map) option" where
  "entry_value P rl e = (case e of
       None \<Rightarrow> Some (None, rl)
     | Some (key, entry_id) \<Rightarrow> do {
         (v, rl) \<leftarrow> store_get P rl entry_id;
         assert_that (v \<noteq> None);
         Some (map_option (Pair key) v, rl) })"

definition rl_first_key_value ::
  "('k::linorder, 'v, 'a, 'b, 'c, 'd, 'e) replog_types \<Rightarrow> ('a, 'b, 'c, 'd, 'e) rep_log_map \<Rightarrow>
   (('k \<times> 'v) option \<times> ('a, 'b, 'c, 'd, 'e) rep_log_map) option" where
  "rl_first_key_value P rl = do {
     (e, m) \<leftarrow> btree_first_key_value (key_type P) u64_storable (key_mem P) (key_index rl);
     entry_value P (rl\<lparr>key_index := m\<rparr>) e }"

definition rl_last_key_value ::
  "('k::linorder, 'v, 'a, 'b, 'c, 'd, 'e) replog_types \<Rightarrow> ('a, 'b, 'c, 'd, 'e) rep_log_map \<Rightarrow>
   (('k \<times> 'v) option \<times> ('a, 'b, 'c, 'd, 'e) rep_log_map) option" where
  "rl_last_key_value P rl = do {
     (e, m) \<leftarrow> btree_last_key_value (key_type P) u64_storable (key_mem P) (key_index rl);
     entry_value P (rl\<lparr>key_index := m\<rparr>) e }"

definition rl_get_value_by_id ::
  "('k, 'v, 'a, 'b, 'c, 'd, 'e) replog_types \<Rightarrow> ('a, 'b, 'c, 'd, 'e) rep_log_map \<Rightarrow> 64 word \<Rightarrow>
   ('v option \<times> ('a, 'b, 'c, 'd, 'e) rep_log_map) option" where
  "rl_get_value_by_id P rl entry_id = store_get P rl entry_id"

section \<open>Iterators\<close>

text \<open>An iterator over the index, with the map that its closure reads the values from.\<close>

record ('a, 'b, 'c, 'd, 'e, 'k) rl_iterator =
  ri_index :: "('a, 'k) iter_internal"
  ri_map :: "('a, 'b, 'c, 'd, 'e) rep_log_map"

text \<open>The next item of the index with its key and its entry number.\<close>

definition index_next ::
  "('k::linorder, 'v, 'a, 'b, 'c, 'd, 'e) replog_types \<Rightarrow> ('a, 'k) iter_internal \<Rightarrow> (('k \<times> 64 word) option \<times> ('a, 'k) iter_internal) option" where
  "index_next P it = do {
     (x, it) \<leftarrow> items_next (key_type P) (key_mem P) it;
     case x of
       None \<Rightarrow> Some (None, it)
     | Some entry \<Rightarrow> do {
         (key, entry, s) \<leftarrow> lazy_key (key_type P) (key_mem P) entry (bt_memory (it_map it));
         (entry_id, entry, s) \<leftarrow> lazy_value u64_storable (key_mem P) entry s;
         Some (Some (key, entry_id), it\<lparr>it_map := bt_with_memory (it_map it) s\<rparr>) } }"

partial_function (option) rl_iter_next ::
  "('k::linorder, 'v, 'a, 'b, 'c, 'd, 'e) replog_types \<Rightarrow> ('a, 'b, 'c, 'd, 'e, 'k) rl_iterator \<Rightarrow>
   (('k \<times> 'v) option \<times> ('a, 'b, 'c, 'd, 'e, 'k) rl_iterator) option" where
  "rl_iter_next P it = do {
     (e, i) \<leftarrow> index_next P (ri_index it);
     case e of
       None \<Rightarrow> Some (None, it\<lparr>ri_index := i\<rparr>)
     | Some (key, entry_id) \<Rightarrow> do {
         (v, rl) \<leftarrow> store_get P (ri_map it) entry_id;
         case v of
           Some w \<Rightarrow> Some (Some (key, w), \<lparr>ri_index = i, ri_map = rl\<rparr>)
         | None \<Rightarrow> rl_iter_next P \<lparr>ri_index = i, ri_map = rl\<rparr> } }"

definition index_next_value ::
  "('k::linorder, 'v, 'a, 'b, 'c, 'd, 'e) replog_types \<Rightarrow> ('a, 'k) iter_internal \<Rightarrow> (64 word option \<times> ('a, 'k) iter_internal) option" where
  "index_next_value P it = do {
     (x, it) \<leftarrow> items_next (key_type P) (key_mem P) it;
     case x of
       None \<Rightarrow> Some (None, it)
     | Some entry \<Rightarrow> do {
         (entry_id, entry, s) \<leftarrow> lazy_value u64_storable (key_mem P) entry (bt_memory (it_map it));
         Some (Some entry_id, it\<lparr>it_map := bt_with_memory (it_map it) s\<rparr>) } }"

partial_function (option) rl_values_next ::
  "('k::linorder, 'v, 'a, 'b, 'c, 'd, 'e) replog_types \<Rightarrow> ('a, 'b, 'c, 'd, 'e, 'k) rl_iterator \<Rightarrow>
   ('v option \<times> ('a, 'b, 'c, 'd, 'e, 'k) rl_iterator) option" where
  "rl_values_next P it = do {
     (e, i) \<leftarrow> index_next_value P (ri_index it);
     case e of
       None \<Rightarrow> Some (None, it\<lparr>ri_index := i\<rparr>)
     | Some entry_id \<Rightarrow> do {
         (v, rl) \<leftarrow> store_get P (ri_map it) entry_id;
         case v of
           Some w \<Rightarrow> Some (Some w, \<lparr>ri_index = i, ri_map = rl\<rparr>)
         | None \<Rightarrow> rl_values_next P \<lparr>ri_index = i, ri_map = rl\<rparr> } }"

definition rl_iter :: "('a, 'b, 'c, 'd, 'e) rep_log_map \<Rightarrow> ('a, 'b, 'c, 'd, 'e, 'k) rl_iterator" where
  "rl_iter rl = \<lparr>ri_index = btree_iter (key_index rl), ri_map = rl\<rparr>"

definition rl_range :: "('a, 'b, 'c, 'd, 'e) rep_log_map \<Rightarrow> 'k key_range \<Rightarrow> ('a, 'b, 'c, 'd, 'e, 'k) rl_iterator" where
  "rl_range rl rg = \<lparr>ri_index = btree_range (key_index rl) rg, ri_map = rl\<rparr>"

definition rl_keys :: "('a, 'b, 'c, 'd, 'e) rep_log_map \<Rightarrow> ('a, 'k) iter_internal" where
  "rl_keys rl = btree_keys (key_index rl)"

definition rl_values :: "('a, 'b, 'c, 'd, 'e) rep_log_map \<Rightarrow> ('a, 'b, 'c, 'd, 'e, 'k) rl_iterator" where
  "rl_values rl = \<lparr>ri_index = btree_iter (key_index rl), ri_map = rl\<rparr>"

section \<open>Replication\<close>

text \<open>\<open>for idx in offset..end\<close>\<close>

fun collect_changes ::
  "('k, 'v, 'a, 'b, 'c, 'd, 'e) replog_types \<Rightarrow> nat list \<Rightarrow> ('a, 'b, 'c, 'd, 'e) rep_log_map \<Rightarrow> 'k change_entry list \<Rightarrow>
   ('k change_entry list \<times> ('a, 'b, 'c, 'd, 'e) rep_log_map) option" where
  "collect_changes P [] rl entries = Some (entries, rl)"
| "collect_changes P (idx # idxs) rl entries = do {
     (e, l) \<leftarrow> log_get (change_storable (key_type P)) (index_mem P) (data_mem P) (changelog rl) idx;
     collect_changes P idxs (rl\<lparr>changelog := l\<rparr>) (case e of Some entry \<Rightarrow> entries @ [entry] | None \<Rightarrow> entries) }"

definition rl_changes_since ::
  "('k, 'v, 'a, 'b, 'c, 'd, 'e) replog_types \<Rightarrow> ('a, 'b, 'c, 'd, 'e) rep_log_map \<Rightarrow> nat \<Rightarrow> nat \<Rightarrow>
   (('k change_entry list \<times> nat) option \<times> ('a, 'b, 'c, 'd, 'e) rep_log_map) option" where
  "rl_changes_since P rl since_seq limit = do {
     let c = cell_get (rl_counters rl);
     if since_seq < epoch_start c then Some (None, rl)
     else do {
       let offset = since_seq - epoch_start c;
       (log_len, rl) \<leftarrow> rl_changelog_len P rl;
       if offset \<ge> log_len then do {
         (s, rl) \<leftarrow> rl_current_seq P rl;
         Some (Some ([], s), rl) }
       else do {
         upto \<leftarrow> u64_add offset limit;
         let stop = min log_len upto;
         (entries, rl) \<leftarrow> collect_changes P [offset..<stop] rl [];
         next_seq \<leftarrow> u64_add since_seq (length entries);
         Some (Some (entries, next_seq), rl) } } }"

fun attach_values ::
  "('k::linorder, 'v, 'a, 'b, 'c, 'd, 'e) replog_types \<Rightarrow> ('a, 'b, 'c, 'd, 'e) rep_log_map \<Rightarrow> 'k change_entry list \<Rightarrow>
   (('k change_entry \<times> 'v option) list \<times> ('a, 'b, 'c, 'd, 'e) rep_log_map) option" where
  "attach_values P rl [] = Some ([], rl)"
| "attach_values P rl (entry # entries) = do {
     (v, rl) \<leftarrow> (if is_upsert entry then rl_get P rl (ce_key entry) else Some (None, rl));
     (rest, rl) \<leftarrow> attach_values P rl entries;
     Some ((entry, v) # rest, rl) }"

definition rl_changes_with_values_since ::
  "('k::linorder, 'v, 'a, 'b, 'c, 'd, 'e) replog_types \<Rightarrow> ('a, 'b, 'c, 'd, 'e) rep_log_map \<Rightarrow> nat \<Rightarrow> nat \<Rightarrow>
   ((('k change_entry \<times> 'v option) list \<times> nat) option \<times> ('a, 'b, 'c, 'd, 'e) rep_log_map) option" where
  "rl_changes_with_values_since P rl since_seq limit = do {
     (r, rl) \<leftarrow> rl_changes_since P rl since_seq limit;
     case r of
       None \<Rightarrow> Some (None, rl)
     | Some (entries, next_seq) \<Rightarrow> do {
         (with_values, rl) \<leftarrow> attach_values P rl entries;
         Some (Some (with_values, next_seq), rl) } }"

text \<open>\<open>for lazy in iter.take(limit)\<close>\<close>

fun snapshot_loop ::
  "('k::linorder, 'v, 'a, 'b, 'c, 'd, 'e) replog_types \<Rightarrow> nat \<Rightarrow> ('a, 'b, 'c, 'd, 'e, 'k) rl_iterator \<Rightarrow>
   ((64 word \<times> 'k \<times> 'v) list \<times> ('a, 'b, 'c, 'd, 'e, 'k) rl_iterator) option" where
  "snapshot_loop P 0 it = Some ([], it)"
| "snapshot_loop P (Suc n) it = do {
     (e, i) \<leftarrow> index_next P (ri_index it);
     case e of
       None \<Rightarrow> Some ([], it\<lparr>ri_index := i\<rparr>)
     | Some (key, entry_id) \<Rightarrow> do {
         (v, rl) \<leftarrow> store_get P (ri_map it) entry_id;
         (entries, it) \<leftarrow> snapshot_loop P n \<lparr>ri_index = i, ri_map = rl\<rparr>;
         Some ((case v of Some w \<Rightarrow> (entry_id, key, w) # entries | None \<Rightarrow> entries), it) } }"

text \<open>An iterator is done: the map goes on with the index as the iterator left it.\<close>

definition end_iter :: "('a, 'b, 'c, 'd, 'e, 'k) rl_iterator \<Rightarrow> ('a, 'b, 'c, 'd, 'e) rep_log_map" where
  "end_iter it = (ri_map it)\<lparr>key_index := it_map (ri_index it)\<rparr>"

text \<open>\<open>Vec::with_capacity\<close> panics when the bytes that are asked for pass the largest \<open>isize\<close>.\<close>

abbreviation ISIZE_MAX :: nat where "ISIZE_MAX \<equiv> 9223372036854775807"

definition rl_snapshot_page ::
  "('k::linorder, 'v, 'a, 'b, 'c, 'd, 'e) replog_types \<Rightarrow> ('a, 'b, 'c, 'd, 'e) rep_log_map \<Rightarrow> 'k option \<Rightarrow> nat \<Rightarrow>
   ((64 word \<times> 'k \<times> 'v) list \<times> nat \<times> ('a, 'b, 'c, 'd, 'e) rep_log_map) option" where
  "rl_snapshot_page P rl after_key limit = do {
     let it = (case after_key of Some k \<Rightarrow> rl_range rl (Excluded k, NoBound) | None \<Rightarrow> rl_iter rl);
     assert_that (limit * entry_size P \<le> ISIZE_MAX);
     (entries, it) \<leftarrow> snapshot_loop P limit it;
     (s, rl) \<leftarrow> rl_current_seq P (end_iter it);
     Some (entries, s, rl) }"

definition rl_compact ::
  "('k, 'v, 'a, 'b, 'c, 'd, 'e) replog_types \<Rightarrow> ('a, 'b, 'c, 'd, 'e) rep_log_map \<Rightarrow> ('a, 'b, 'c, 'd, 'e) rep_log_map option" where
  "rl_compact P rl = do {
     (new_epoch, rl) \<leftarrow> rl_current_seq P rl;
     let c = cell_get (rl_counters rl);
     l \<leftarrow> log_clear (index_mem P) (changelog rl);
     set_counters P (rl\<lparr>changelog := l\<rparr>) \<lparr>next_entry_id = next_entry_id c, epoch_start = new_epoch\<rparr> }"

section \<open>The stored types meet their contract\<close>

lemma change_storable_type:
  assumes "storable_type K vk"
  shows "storable_type (change_storable K) (\<lambda>e. vk (ce_key e))"
proof -
  have "ok (change_to_bytes K e) (\<lambda>bs. change_from_bytes K bs = Some e)" if v: "vk (ce_key e)" for e
  proof -
    obtain kb where k: "to_bytes K (ce_key e) = Some kb" "from_bytes K kb = Some (ce_key e)"
      using storable_type.roundtrip_law[OF assms v] by (auto elim!: ok_obtain)
    have "unat (ce_entry_id e) < 256 ^ 8"
      using unsigned_less[of "ce_entry_id e"] by simp
    then show ?thesis
      using k by (cases e; cases "ce_kind e")
        (auto simp: change_to_bytes_def change_from_bytes_def subrange_def simp del: to_le_bytes.simps)
  qed
  then show ?thesis
    by unfold_locales (auto simp: change_storable_def check_bounds_def change_to_bytes_def intro: ok_mono[OF storable_type.roundtrip_law[OF assms]])
qed

definition counters_valid :: "counters \<Rightarrow> bool" where
  "counters_valid c \<longleftrightarrow> epoch_start c \<le> U64_MAX"

interpretation counters_ty: storable_type counters_storable counters_valid
proof
  fix c assume "counters_valid c"
  then have "epoch_start c < 256 ^ 8" "unat (next_entry_id c) < 256 ^ 8"
    using unsigned_less[of "next_entry_id c"] by (simp_all add: counters_valid_def)
  then show "ok (to_bytes counters_storable c) (\<lambda>bs. from_bytes counters_storable bs = Some c)"
    by (simp add: counters_storable_def counters_to_bytes_def counters_from_bytes_def subrange_def del: to_le_bytes.simps)
next
  show "ok (to_bytes counters_storable c) (\<lambda>bs. ok (check_bounds counters_storable bs) (\<lambda>_. True))" for c
    by (simp add: counters_storable_def counters_to_bytes_def check_bounds_def del: to_le_bytes.simps)
qed

end
