(* ===== verification/Rep_Log_Spec.thy ===== *)
theory Rep_Log_Spec
  imports Rep_Log
begin

text \<open>
  What the operations of \<open>RepLogMap\<close> do: the four parts that they call, the contents that the parts hold together, and the
  specification of the map as a finite map with a list of changes.
\<close>

section \<open>The parts\<close>

text \<open>
  The five memories with their contracts, and the types of keys and values. \<open>C\<close> is the number of nodes that each B-tree has room for, \<open>IC\<close> and
  \<open>DC\<close> are the pages that the memories of the log can have.
\<close>

locale replog =
  fixes P :: "('k::linorder, 'v, 'a, 'b, 'c, 'd, 'e) replog_types"
    and inv1 :: "'a \<Rightarrow> bool" and con1 :: "'a \<Rightarrow> bytes" and cap1 :: "'a \<Rightarrow> nat"
    and inv2 :: "'b \<Rightarrow> bool" and con2 :: "'b \<Rightarrow> bytes" and cap2 :: "'b \<Rightarrow> nat"
    and inv3 :: "'c \<Rightarrow> bool" and con3 :: "'c \<Rightarrow> bytes" and cap3 :: "'c \<Rightarrow> nat"
    and inv4 :: "'d \<Rightarrow> bool" and con4 :: "'d \<Rightarrow> bytes" and cap4 :: "'d \<Rightarrow> nat"
    and inv5 :: "'e \<Rightarrow> bool" and con5 :: "'e \<Rightarrow> bytes" and cap5 :: "'e \<Rightarrow> nat"
    and vk :: "'k \<Rightarrow> bool" and vv :: "'v \<Rightarrow> bool" and kb :: nat and vb :: nat and C :: nat and IC :: nat and DC :: nat
  assumes memories: "memory (key_mem P) inv1 con1 cap1" "memory (value_mem P) inv2 con2 cap2" "memory (index_mem P) inv3 con3 cap3"
      "memory (data_mem P) inv4 con4 cap4" "memory (counter_mem P) inv5 con5 cap5"
    and types: "btree_types (key_type P) vk u64_storable (\<lambda>_. True) kb 8" "btree_types u64_storable (\<lambda>_. True) (value_type P) vv 8 vb"
begin

lemma change_log: "stable_log (index_mem P) inv3 con3 cap3 (data_mem P) inv4 con4 cap4 (change_storable (key_type P)) (\<lambda>e. vk (ce_key e))"
  using memories types change_storable_type[of "key_type P" vk] by (simp add: stable_log_def btree_types_def)

lemma counter_cell: "stable_cell (counter_mem P) inv5 con5 cap5 counters_storable counters_valid"
  using memories counters_ty.storable_type_axioms by (simp add: stable_cell_def)

definition log_at :: "('c, 'd) log \<Rightarrow> 'k change_entry list \<Rightarrow> bool" where
  "log_at l es \<longleftrightarrow> inv3 (index_memory l) \<and> inv4 (data_memory l) \<and> cap3 (index_memory l) = IC \<and> cap4 (data_memory l) = DC \<and>
     (\<exists>bss. log_index (con3 (index_memory l)) bss \<and> log_data (con4 (data_memory l)) bss \<and> log_items (change_storable (key_type P)) bss es \<and>
       length (concat bss) \<le> length es * (9 + kb))"

definition cell_at :: "(counters, 'e) cell \<Rightarrow> counters \<Rightarrow> bool" where
  "cell_at cl c \<longleftrightarrow> inv5 (cell_memory cl) \<and> 0 < cap5 (cell_memory cl) \<and> cell_value cl = c \<and> cell_rep counters_storable (con5 (cell_memory cl)) c"

text \<open>The index has the entries \<open>xs\<close>, the store the values \<open>ys\<close>, the log the changes \<open>es\<close>, and the cell the counters \<open>c\<close>.\<close>

definition parts :: "('a, 'b, 'c, 'd, 'e) rep_log_map \<Rightarrow> ('k \<times> 64 word) list \<Rightarrow> (64 word \<times> 'v) list \<Rightarrow> 'k change_entry list \<Rightarrow> counters \<Rightarrow> bool" where
  "parts rl xs ys es c \<longleftrightarrow>
     btree_rep (key_mem P) inv1 con1 cap1 (key_type P) vk u64_storable (\<lambda>_. True) kb 8 (key_index rl) xs C \<and>
     btree_rep (value_mem P) inv2 con2 cap2 u64_storable (\<lambda>_. True) (value_type P) vv 8 vb (value_store rl) ys C \<and>
     log_at (changelog rl) es \<and> cell_at (rl_counters rl) c"

lemma partsD:
  assumes "parts rl xs ys es c"
  shows "btree_rep (key_mem P) inv1 con1 cap1 (key_type P) vk u64_storable (\<lambda>_. True) kb 8 (key_index rl) xs C"
    "btree_rep (value_mem P) inv2 con2 cap2 u64_storable (\<lambda>_. True) (value_type P) vv 8 vb (value_store rl) ys C"
    "log_at (changelog rl) es" "cell_at (rl_counters rl) c" "sorted_keys xs" "sorted_keys ys"
  using assms unfolding parts_def by (auto dest: rep_sorted)

lemma parts_upd:
  assumes "parts rl xs ys es c"
  shows "btree_rep (key_mem P) inv1 con1 cap1 (key_type P) vk u64_storable (\<lambda>_. True) kb 8 m xs' C \<Longrightarrow> parts (rl\<lparr>key_index := m\<rparr>) xs' ys es c"
    "btree_rep (value_mem P) inv2 con2 cap2 u64_storable (\<lambda>_. True) (value_type P) vv 8 vb m2 ys' C \<Longrightarrow> parts (rl\<lparr>value_store := m2\<rparr>) xs ys' es c"
    "log_at l es' \<Longrightarrow> parts (rl\<lparr>changelog := l\<rparr>) xs ys es' c" "cell_at cl c' \<Longrightarrow> parts (rl\<lparr>rl_counters := cl\<rparr>) xs ys es c'"
  using assms by (simp_all add: parts_def)

lemma counters_get: "parts rl xs ys es c \<Longrightarrow> cell_get (rl_counters rl) = c"
  by (simp add: parts_def cell_at_def cell_get_def)

text \<open>The calls on the parts.\<close>

lemma index_calls:
  assumes p: "parts rl xs ys es c"
  shows "ok (index_get P rl k) (\<lambda>(r, rl'). r = map_of xs k \<and> parts rl' xs ys es c)"
    "vk k \<Longrightarrow> 2 * (length xs div 5) + 4 \<le> C \<Longrightarrow> ok (index_insert P rl k i) (\<lambda>(r, rl'). r = map_of xs k \<and> parts rl' (ins k i xs) ys es c)"
    "ok (index_remove P rl k) (\<lambda>(r, rl'). r = map_of xs k \<and> parts rl' (del k xs) ys es c)"
    "ok (rl_contains_key P rl k) (\<lambda>(r, rl'). r = (map_of xs k \<noteq> None) \<and> parts rl' xs ys es c)"
proof -
  note m = partsD(1)[OF p] and u = parts_upd(1)[OF p]
  show "ok (index_get P rl k) (\<lambda>(r, rl'). r = map_of xs k \<and> parts rl' xs ys es c)"
    using rep_get[OF m, of k] u by (auto simp: index_get_def elim!: ok_mono)
  show "vk k \<Longrightarrow> 2 * (length xs div 5) + 4 \<le> C \<Longrightarrow> ok (index_insert P rl k i) (\<lambda>(r, rl'). r = map_of xs k \<and> parts rl' (ins k i xs) ys es c)"
    using rep_insert[OF m, of k i] u by (auto simp: index_insert_def elim!: ok_mono)
  show "ok (index_remove P rl k) (\<lambda>(r, rl'). r = map_of xs k \<and> parts rl' (del k xs) ys es c)"
    using rep_remove[OF m, of k] u by (auto simp: index_remove_def elim!: ok_mono)
  show "ok (rl_contains_key P rl k) (\<lambda>(r, rl'). r = (map_of xs k \<noteq> None) \<and> parts rl' xs ys es c)"
    using rep_contains_key[OF m, of k] u unfolding rl_contains_key_def by (auto elim!: ok_mono)
qed

lemma store_calls:
  assumes p: "parts rl xs ys es c"
  shows "ok (store_get P rl i) (\<lambda>(r, rl'). r = map_of ys i \<and> parts rl' xs ys es c)"
    "vv v \<Longrightarrow> 2 * (length ys div 5) + 4 \<le> C \<Longrightarrow> ok (store_insert P rl i v) (\<lambda>(r, rl'). r = map_of ys i \<and> parts rl' xs (ins i v ys) es c)"
    "ok (store_remove P rl i) (\<lambda>(r, rl'). r = map_of ys i \<and> parts rl' xs (del i ys) es c)"
proof -
  note m = partsD(2)[OF p] and u = parts_upd(2)[OF p]
  show "ok (store_get P rl i) (\<lambda>(r, rl'). r = map_of ys i \<and> parts rl' xs ys es c)"
    using rep_get[OF m, of i] u by (auto simp: store_get_def elim!: ok_mono)
  show "vv v \<Longrightarrow> 2 * (length ys div 5) + 4 \<le> C \<Longrightarrow> ok (store_insert P rl i v) (\<lambda>(r, rl'). r = map_of ys i \<and> parts rl' xs (ins i v ys) es c)"
    using rep_insert[OF m, where k = i and v = v] u by (auto simp: store_insert_def elim!: ok_mono)
  show "ok (store_remove P rl i) (\<lambda>(r, rl'). r = map_of ys i \<and> parts rl' xs (del i ys) es c)"
    using rep_remove[OF m, of i] u by (auto simp: store_remove_def elim!: ok_mono)
qed

lemma change_bytes:
  assumes "vk (ce_key e)"
  shows "\<exists>bs. to_bytes (change_storable (key_type P)) e = Some bs \<and> length bs \<le> 9 + kb"
proof -
  have K: "storable_type (key_type P) vk" "length (key_bytes (key_type P) (ce_key e)) \<le> kb"
    using types(1) assms by (simp_all add: btree_types_def)
  from storable_type.roundtrip_law[OF K(1) assms] obtain bs where "to_bytes (key_type P) (ce_key e) = Some bs"
    by (auto elim!: ok_obtain)
  with K(2) show ?thesis
    by (simp add: change_storable_def change_to_bytes_def key_bytes_def del: to_le_bytes.simps)
qed

text \<open>The memories of the log have room for \<open>n\<close> changes.\<close>

definition log_room :: "nat \<Rightarrow> bool" where
  "log_room n \<longleftrightarrow> 32 + n * (9 + kb) \<le> DC * WASM_PAGE_SIZE \<and> 40 + 8 * n \<le> IC * WASM_PAGE_SIZE"

lemma append_change_ok:
  assumes p: "parts rl xs ys es c" and k: "vk k" and room: "log_room (Suc (length es))"
  shows "ok (append_change P rl kind i k) (\<lambda>(r, rl'). r = Inr (length es) \<and> parts rl' xs ys (es @ [\<lparr>ce_kind = kind, ce_entry_id = i, ce_key = k\<rparr>]) c)"
proof -
  let ?e = "\<lparr>ce_kind = kind, ce_entry_id = i, ce_key = k\<rparr>" and ?T = "change_storable (key_type P)" and ?l = "changelog rl"
  obtain bss where l: "inv3 (index_memory ?l)" "inv4 (data_memory ?l)" "cap3 (index_memory ?l) = IC" "cap4 (data_memory ?l) = DC"
    "log_index (con3 (index_memory ?l)) bss" "log_data (con4 (data_memory ?l)) bss" "log_items ?T bss es" "length (concat bss) \<le> length es * (9 + kb)"
    using partsD(3)[OF p] by (auto simp: log_at_def)
  obtain bs where bs: "to_bytes ?T ?e = Some bs" "length bs \<le> 9 + kb"
    using change_bytes[of ?e] k by auto
  have n: "length bss = length es"
    using l(7) by (simp add: log_items_def list_all2_lengthD)
  have "32 + length (concat bss) + length bs \<le> DC * WASM_PAGE_SIZE" "48 + 8 * length bss \<le> IC * WASM_PAGE_SIZE"
    using room l(8) bs(2) n by (simp_all add: log_room_def)
  then have "ok (log_append ?T (index_mem P) (data_mem P) ?l ?e) (\<lambda>(r, l'). r = Inr (length bss) \<and> (inv3 (index_memory l') \<and> inv4 (data_memory l') \<and>
      log_index (con3 (index_memory l')) (bss @ [bs]) \<and> log_data (con4 (data_memory l')) (bss @ [bs])) \<and> log_items ?T (bss @ [bs]) (es @ [?e]) \<and>
      cap3 (index_memory l') = cap3 (index_memory ?l) \<and> cap4 (data_memory l') = cap4 (data_memory ?l))"
    using l k by (intro stable_log.append_ok[OF change_log _ l(7) _ bs(1)]) simp_all
  then have "ok (log_append ?T (index_mem P) (data_mem P) ?l ?e) (\<lambda>(r, l'). r = Inr (length bss) \<and> log_at l' (es @ [?e]))"
    by (rule ok_mono) (use l bs(2) in \<open>auto simp: log_at_def intro!: exI[of _ "bss @ [bs]"]\<close>)
  then show ?thesis
    using n parts_upd(3)[OF p] unfolding append_change_def by (auto elim!: ok_mono)
qed

lemma append_change_fail:
  assumes p: "parts rl xs ys es c" and k: "vk k" and r: "append_change P rl kind i k = Some (Inl e, rl')"
  shows "parts rl' xs ys es c"
proof -
  let ?e = "\<lparr>ce_kind = kind, ce_entry_id = i, ce_key = k\<rparr>" and ?T = "change_storable (key_type P)"
  obtain bs where bs: "to_bytes ?T ?e = Some bs"
    using change_bytes[of ?e] k by auto
  obtain l' where l': "log_append ?T (index_mem P) (data_mem P) (changelog rl) ?e = Some (Inl e, l')" "rl' = rl\<lparr>changelog := l'\<rparr>"
    using r by (auto simp: append_change_def bind_eq_Some_conv)
  have "log_at l' es"
    using partsD(3)[OF p] stable_log.append_fail[OF change_log _ bs l'(1)] unfolding log_at_def by fastforce
  with l'(2) parts_upd(3)[OF p] show ?thesis
    by simp
qed

lemma set_counters_ok:
  assumes p: "parts rl xs ys es c" and c: "epoch_start c' \<le> U64_MAX"
  shows "ok (set_counters P rl c') (\<lambda>rl'. parts rl' xs ys es c')"
proof -
  have v: "counters_valid c'"
    using c by (simp add: counters_valid_def)
  have "to_bytes counters_storable c' = Some (to_le_bytes 8 (unat (next_entry_id c')) @ to_le_bytes 8 (epoch_start c'))"
    by (simp add: counters_storable_def counters_to_bytes_def del: to_le_bytes.simps)
  from stable_cell.set_cell_ok[OF counter_cell _ v this, of "rl_counters rl"] partsD(4)[OF p]
  have "ok (cell_set counters_storable (counter_mem P) (rl_counters rl) c') (\<lambda>(old, cl). cell_at cl c')"
    by (auto simp: cell_at_def simp del: to_le_bytes.simps elim!: ok_mono)
  then show ?thesis
    using parts_upd(4)[OF p] by (auto simp: set_counters_def elim!: ok_mono)
qed

lemma log_calls:
  assumes p: "parts rl xs ys es c"
  shows "ok (rl_changelog_len P rl) (\<lambda>(n, rl'). n = length es \<and> parts rl' xs ys es c)"
    "ok (log_get (change_storable (key_type P)) (index_mem P) (data_mem P) (changelog rl) i)
      (\<lambda>(r, l). r = (if i < length es then Some (es ! i) else None) \<and> parts (rl\<lparr>changelog := l\<rparr>) xs ys es c)"
    "ok (log_clear (index_mem P) (changelog rl)) (\<lambda>l. parts (rl\<lparr>changelog := l\<rparr>) xs ys [] c)"
    "ok (log_init (index_mem P) (data_mem P) (index_memory (changelog rl)) (data_memory (changelog rl))) (\<lambda>l. log_at l es)"
proof -
  let ?l = "changelog rl" and ?T = "change_storable (key_type P)"
  obtain bss where l: "inv3 (index_memory ?l)" "inv4 (data_memory ?l)" "cap3 (index_memory ?l) = IC" "cap4 (data_memory ?l) = DC"
    "log_index (con3 (index_memory ?l)) bss" "log_data (con4 (data_memory ?l)) bss" "log_items ?T bss es" "length (concat bss) \<le> length es * (9 + kb)"
    using partsD(3)[OF p] by (auto simp: log_at_def)
  have n: "length bss = length es"
    using l(7) by (simp add: log_items_def list_all2_lengthD)
  have u: "parts (rl\<lparr>changelog := l'\<rparr>) xs ys es c" "log_at l' es"
    if "inv3 (index_memory l')" "inv4 (data_memory l')" "cap3 (index_memory l') = IC" "cap4 (data_memory l') = DC"
    "log_index (con3 (index_memory l')) bss" "log_data (con4 (data_memory l')) bss" for l'
    using that l(7,8) parts_upd(3)[OF p, of l' es] by (auto simp: log_at_def)
  show "ok (rl_changelog_len P rl) (\<lambda>(n, rl'). n = length es \<and> parts rl' xs ys es c)"
    using stable_log.len_ok[OF change_log, of ?l bss] l(1-6) n u(1) by (auto simp: rl_changelog_len_def elim!: ok_mono)
  show "ok (log_get ?T (index_mem P) (data_mem P) ?l i)
      (\<lambda>(r, l). r = (if i < length es then Some (es ! i) else None) \<and> parts (rl\<lparr>changelog := l\<rparr>) xs ys es c)"
    using stable_log.get_entry_ok[OF change_log _ l(7), of ?l i] l(1-6) u(1) by (auto elim!: ok_mono)
  show "ok (log_clear (index_mem P) ?l) (\<lambda>l. parts (rl\<lparr>changelog := l\<rparr>) xs ys [] c)"
    using stable_log.clear_ok[OF change_log, of ?l bss] l(1-6) parts_upd(3)[OF p]
    by (auto simp: log_at_def log_items_def intro!: exI[of _ "[]"] elim!: ok_mono)
  show "ok (log_init (index_mem P) (data_mem P) (index_memory ?l) (data_memory ?l)) (\<lambda>l. log_at l es)"
    using stable_log.reopen_ok[OF change_log, of ?l bss] l(1-6) u(2) by (auto elim!: ok_mono)
qed

lemma current_seq_ok:
  assumes p: "parts rl xs ys es c" and s: "epoch_start c + length es \<le> U64_MAX"
  shows "ok (rl_current_seq P rl) (\<lambda>(s, rl'). s = epoch_start c + length es \<and> parts rl' xs ys es c)"
  using log_calls(1)[OF p] s unfolding rl_current_seq_def by (auto simp: counters_get u64_add_def elim!: ok_mono)

end

section \<open>Iterators over the index\<close>

context btree_values
begin

lemma lazy_value_ok:
  assumes m: "synced m root len W r" and li: "item_is W (apsnd (enc V) z) li" and v: "vvalid (snd z)"
  shows "ok (lazy_value V M li (bt_memory m)) (\<lambda>(x, li', s). x = snd z \<and> synced (bt_with_memory m s) root len W r)"
proof -
  obtain an where an: "node_is W (li_node li) an" "li_entry_idx li < length (an_entries an)" "an_entries an ! li_entry_idx li = apsnd (enc V) z"
    using li by (auto simp: item_is_def)
  from bt_node_value[OF m an(1,2)] an(3) enc_ok(2)[OF v] show ?thesis
    unfolding lazy_value_def by (auto elim!: ok_mono)
qed

lemma item_value_ok:
  assumes it: "scans it xs C ys"
  shows "ok (do {
      (x, it) \<leftarrow> items_next K M it;
      case x of
        None \<Rightarrow> Some (None, it)
      | Some entry \<Rightarrow> do {
          (v, entry, s) \<leftarrow> lazy_value V M entry (bt_memory (it_map it));
          Some (Some v, it\<lparr>it_map := bt_with_memory (it_map it) s\<rparr>) } })
    (\<lambda>(x, it'). x = map_option snd (pick Front ys) \<and> scans it' xs C (tl ys))"
proof -
  from scan_read[OF reads_item it, of Front] obtain x it' where
    1: "items_next K M it = Some (x, it')" "scans it' xs C (rest Front ys)"
      "case pick Front ys of None \<Rightarrow> x = None | Some z \<Rightarrow> \<exists>y W root len r. x = Some y \<and> z \<in> set xs \<and> item_is W (apsnd (enc V) z) y \<and>
        iterating W root len r it' (encoded V xs) C (encoded V (rest Front ys))"
    by (auto simp: items_next_def simp del: rest.simps elim!: ok_obtain)
  show ?thesis
  proof (cases "pick Front ys")
    case None
    then show ?thesis
      using 1 by simp
  next
    case (Some z)
    then obtain y W root len r where y: "x = Some y" "z \<in> set xs" "item_is W (apsnd (enc V) z) y"
      "iterating W root len r it' (encoded V xs) C (encoded V (rest Front ys))"
      using 1(3) by auto
    have "synced (it_map it') root len W r" "vvalid (snd z)"
      using y(2,4) it by (auto simp: iterating_def scans_def case_prod_beta)
    from lazy_value_ok[OF this(1) y(3) this(2)] show ?thesis
      using 1(1) y(1) Some scans_upd[OF 1(2) y(4)] by (auto elim!: ok_mono)
  qed
qed

lemma scans_subset: "scans it xs C ys \<Longrightarrow> set ys \<subseteq> set xs"
  by (simp add: scans_def)

end

lemma scan_subset: "btree_scan M minv contents cap K vk V vv kb vb it xs C ys \<Longrightarrow> set ys \<subseteq> set xs"
  by (erule btree_scanE) (rule btree_values.scans_subset)

context replog
begin

abbreviation index_scan :: "('a, 'k) iter_internal \<Rightarrow> ('k \<times> 64 word) list \<Rightarrow> ('k \<times> 64 word) list \<Rightarrow> bool" where
  "index_scan it xs zs \<equiv> btree_scan (key_mem P) inv1 con1 cap1 (key_type P) vk u64_storable (\<lambda>_. True) kb 8 it xs C zs"

lemma index_nexts:
  assumes it: "index_scan it xs zs"
  shows "ok (index_next P it) (\<lambda>(x, it'). x = pick Front zs \<and> index_scan it' xs (tl zs))"
    "ok (index_next_value P it) (\<lambda>(x, it'). x = map_option snd (pick Front zs) \<and> index_scan it' xs (tl zs))"
proof -
  have "index_next P it = item_step (key_type P) u64_storable (key_mem P) it Front"
    unfolding index_next_def item_step_def into_pair_def
    by (auto simp: case_prod_beta intro!: bind_option_cong split: option.splits)
  with scan_steps(1)[OF it, of Front] show "ok (index_next P it) (\<lambda>(x, it'). x = pick Front zs \<and> index_scan it' xs (tl zs))"
    by simp
  show "ok (index_next_value P it) (\<lambda>(x, it'). x = map_option snd (pick Front zs) \<and> index_scan it' xs (tl zs))"
    unfolding index_next_value_def
    by (rule btree_scanE[OF it], rule ok_mono[OF btree_values.item_value_ok], assumption+, force)
qed

text \<open>An iterator of the map: \<open>zs\<close> are the entries of the index that are left, and all of them have a value.\<close>

definition iter_at :: "('a, 'b, 'c, 'd, 'e, 'k) rl_iterator \<Rightarrow> ('k \<times> 64 word) list \<Rightarrow> (64 word \<times> 'v) list \<Rightarrow> 'k change_entry list \<Rightarrow> counters \<Rightarrow>
    ('k \<times> 64 word) list \<Rightarrow> bool" where
  "iter_at it xs ys es c zs \<longleftrightarrow> index_scan (ri_index it) xs zs \<and> parts (ri_map it) xs ys es c \<and> snd ` set xs \<subseteq> dom (map_of ys)"

lemma iter_at_end: "iter_at it xs ys es c zs \<Longrightarrow> parts (end_iter it) xs ys es c"
  by (auto simp: iter_at_def end_iter_def intro!: parts_upd(1) dest: scan_rep)

lemma iter_at_start:
  assumes p: "parts rl xs ys es c" and v: "snd ` set xs \<subseteq> dom (map_of ys)"
  shows "iter_at (rl_iter rl) xs ys es c xs" "iter_at (rl_range rl rg) xs ys es c (filter (\<lambda>x. range_contains rg (fst x)) xs)"
    "iter_at (rl_values rl) xs ys es c xs" "index_scan (rl_keys rl) xs xs"
  using p v rep_scan(1,2)[OF partsD(1)[OF p]] by (auto simp: iter_at_def rl_iter_def rl_range_def rl_values_def rl_keys_def btree_iters)

lemma read_entry:
  assumes it: "iter_at it xs ys es c ((k, i) # zs)"
  shows "\<exists>i' rl v. index_next P (ri_index it) = Some (Some (k, i), i') \<and> store_get P (ri_map it) i = Some (Some v, rl) \<and> map_of ys i = Some v \<and>
      iter_at \<lparr>ri_index = i', ri_map = rl\<rparr> xs ys es c zs"
    "\<exists>i' rl v. index_next_value P (ri_index it) = Some (Some i, i') \<and> store_get P (ri_map it) i = Some (Some v, rl) \<and> map_of ys i = Some v \<and>
      iter_at \<lparr>ri_index = i', ri_map = rl\<rparr> xs ys es c zs"
proof -
  have s: "index_scan (ri_index it) xs ((k, i) # zs)" and p: "parts (ri_map it) xs ys es c" and d: "snd ` set xs \<subseteq> dom (map_of ys)"
    using it by (simp_all add: iter_at_def)
  have "(k, i) \<in> set xs"
    using scan_subset[OF s] by simp
  then have "i \<in> dom (map_of ys)"
    using d by force
  then obtain v where v: "map_of ys i = Some v"
    by blast
  from store_calls(1)[OF p, of i] v obtain rl where rl: "store_get P (ri_map it) i = Some (Some v, rl)" "parts rl xs ys es c"
    by (auto elim!: ok_obtain)
  show "\<exists>i' rl v. index_next P (ri_index it) = Some (Some (k, i), i') \<and> store_get P (ri_map it) i = Some (Some v, rl) \<and> map_of ys i = Some v \<and>
      iter_at \<lparr>ri_index = i', ri_map = rl\<rparr> xs ys es c zs"
    using index_nexts(1)[OF s] rl v d by (auto simp: iter_at_def elim!: ok_obtain)
  show "\<exists>i' rl v. index_next_value P (ri_index it) = Some (Some i, i') \<and> store_get P (ri_map it) i = Some (Some v, rl) \<and> map_of ys i = Some v \<and>
      iter_at \<lparr>ri_index = i', ri_map = rl\<rparr> xs ys es c zs"
    using index_nexts(2)[OF s] rl v d by (auto simp: iter_at_def elim!: ok_obtain)
qed

lemma read_end:
  assumes it: "iter_at it xs ys es c []"
  shows "\<exists>i'. index_next P (ri_index it) = Some (None, i') \<and> iter_at (it\<lparr>ri_index := i'\<rparr>) xs ys es c []"
    "\<exists>i'. index_next_value P (ri_index it) = Some (None, i') \<and> iter_at (it\<lparr>ri_index := i'\<rparr>) xs ys es c []"
  using it index_nexts[of "ri_index it" xs "[]"] by (auto simp: iter_at_def elim!: ok_obtain)

abbreviation with_value :: "(64 word \<times> 'v) list \<Rightarrow> 'k \<times> 64 word \<Rightarrow> 'k \<times> 'v" where
  "with_value ys \<equiv> (\<lambda>(k, i). (k, the (map_of ys i)))"

lemma iter_streams:
  "key_stream (rl_iter_next P) (\<lambda>it ws. \<exists>zs. iter_at it xs ys es c zs \<and> ws = map (with_value ys) zs)"
  "key_stream (rl_values_next P) (\<lambda>it ws. \<exists>zs. iter_at it xs ys es c zs \<and> ws = map (snd \<circ> with_value ys) zs)"
  "key_stream (keys_next (key_type P) (key_mem P)) (\<lambda>it ws. \<exists>zs. index_scan it xs zs \<and> ws = map fst zs)"
proof -
  show "key_stream (rl_iter_next P) (\<lambda>it ws. \<exists>zs. iter_at it xs ys es c zs \<and> ws = map (with_value ys) zs)"
  proof (unfold_locales, elim exE conjE)
    fix it ws zs
    assume it: "iter_at it xs ys es c zs" and ws: "ws = map (with_value ys) zs"
    show "ok (rl_iter_next P it) (\<lambda>(x, it'). x = pick Front ws \<and> (\<exists>zs. iter_at it' xs ys es c zs \<and> tl ws = map (with_value ys) zs))"
    proof (cases zs)
      case Nil
      with read_end(1)[of it xs ys es c] it ws show ?thesis
        by (subst rl_iter_next.simps) auto
    next
      case (Cons z zs')
      with read_entry(1)[of it xs ys es c "fst z" "snd z" zs'] it ws show ?thesis
        by (subst rl_iter_next.simps) (force split: prod.splits)
    qed
  qed
  show "key_stream (rl_values_next P) (\<lambda>it ws. \<exists>zs. iter_at it xs ys es c zs \<and> ws = map (snd \<circ> with_value ys) zs)"
  proof (unfold_locales, elim exE conjE)
    fix it ws zs
    assume it: "iter_at it xs ys es c zs" and ws: "ws = map (snd \<circ> with_value ys) zs"
    show "ok (rl_values_next P it) (\<lambda>(x, it'). x = pick Front ws \<and> (\<exists>zs. iter_at it' xs ys es c zs \<and> tl ws = map (snd \<circ> with_value ys) zs))"
    proof (cases zs)
      case Nil
      with read_end(2)[of it xs ys es c] it ws show ?thesis
        by (subst rl_values_next.simps) auto
    next
      case (Cons z zs')
      with read_entry(2)[of it xs ys es c "fst z" "snd z" zs'] it ws show ?thesis
        by (subst rl_values_next.simps) (force split: prod.splits)
    qed
  qed
  show "key_stream (keys_next (key_type P) (key_mem P)) (\<lambda>it ws. \<exists>zs. index_scan it xs zs \<and> ws = map fst zs)"
  proof (unfold_locales, elim exE conjE)
    fix it ws zs
    assume it: "index_scan it xs zs" and ws: "ws = map fst zs"
    have "ok (keys_next (key_type P) (key_mem P) it) (\<lambda>(x, it'). x = map_option fst (pick Front zs) \<and> index_scan it' xs (tl zs))"
      using scan_steps(2)[OF it, of Front] by (simp add: key_step_def)
    then show "ok (keys_next (key_type P) (key_mem P) it) (\<lambda>(x, it'). x = pick Front ws \<and> (\<exists>zs. index_scan it' xs zs \<and> tl ws = map fst zs))"
      by (rule ok_mono) (auto simp: ws pick_map map_tl)
  qed
qed

lemma snapshot_loop_ok:
  "iter_at it xs ys es c zs \<Longrightarrow> ok (snapshot_loop P n it) (\<lambda>(ps, it'). ps = map (\<lambda>(k, i). (i, k, the (map_of ys i))) (take n zs) \<and> (\<exists>zs'. iter_at it' xs ys es c zs'))"
proof (induction n arbitrary: it zs)
  case (Suc n)
  show ?case
  proof (cases zs)
    case Nil
    then show ?thesis
      using Suc.prems read_end(1)[of it xs ys es c] by auto
  next
    case (Cons z zs')
    obtain k i where z: "z = (k, i)"
      by (cases z)
    obtain i' rl v where 1: "index_next P (ri_index it) = Some (Some (k, i), i')" "store_get P (ri_map it) i = Some (Some v, rl)" "map_of ys i = Some v"
      "iter_at \<lparr>ri_index = i', ri_map = rl\<rparr> xs ys es c zs'"
      using read_entry(1)[OF Suc.prems[unfolded Cons z]] by blast
    from Suc.IH[OF 1(4)] 1(1-3) Cons z show ?thesis
      by (auto elim!: ok_mono)
  qed
qed auto

end

end
