(* ===== verification/Rep_Log_Client.thy ===== *)
theory Rep_Log_Client
  imports Rep_Log_Spec
begin

text \<open>
  The specification of \<open>RepLogMap\<close>, a finite map with a list of changes, and the proof that the operations implement it.
\<close>

section \<open>The specification\<close>

text \<open>A key has an entry number and a value. The changes are those since sequence number \<open>sp_epoch\<close>.\<close>

record ('k, 'v) rl_spec =
  sp_map :: "'k \<rightharpoonup> 64 word \<times> 'v"
  sp_changes :: "'k change_entry list"
  sp_next :: "64 word"
  sp_epoch :: nat

definition sp_new :: "('k, 'v) rl_spec" where
  "sp_new = \<lparr>sp_map = Map.empty, sp_changes = [], sp_next = 0, sp_epoch = 0\<rparr>"

definition sp_seq :: "('k, 'v) rl_spec \<Rightarrow> nat" where
  "sp_seq \<sigma> = sp_epoch \<sigma> + length (sp_changes \<sigma>)"

definition log_change :: "change_kind \<Rightarrow> 64 word \<Rightarrow> 'k \<Rightarrow> ('k, 'v) rl_spec \<Rightarrow> ('k, 'v) rl_spec" where
  "log_change kind i k \<sigma> = \<sigma>\<lparr>sp_changes := sp_changes \<sigma> @ [\<lparr>ce_kind = kind, ce_entry_id = i, ce_key = k\<rparr>]\<rparr>"

definition sp_insert :: "'k \<Rightarrow> 'v \<Rightarrow> ('k, 'v) rl_spec \<Rightarrow> 'v option \<times> ('k, 'v) rl_spec" where
  "sp_insert k v \<sigma> = (case sp_map \<sigma> k of
       Some (i, old) \<Rightarrow> (Some old, log_change Upsert i k (\<sigma>\<lparr>sp_map := (sp_map \<sigma>)(k \<mapsto> (i, v))\<rparr>))
     | None \<Rightarrow> (None, log_change Upsert (sp_next \<sigma>) k (\<sigma>\<lparr>sp_map := (sp_map \<sigma>)(k \<mapsto> (sp_next \<sigma>, v)), sp_next := sp_next \<sigma> + 1\<rparr>)))"

definition sp_remove :: "'k \<Rightarrow> ('k, 'v) rl_spec \<Rightarrow> 'v option \<times> ('k, 'v) rl_spec" where
  "sp_remove k \<sigma> = (case sp_map \<sigma> k of
       Some (i, v) \<Rightarrow> (Some v, log_change Delete i k (\<sigma>\<lparr>sp_map := (sp_map \<sigma>)(k := None)\<rparr>))
     | None \<Rightarrow> (None, \<sigma>))"

definition sp_clear :: "('k, 'v) rl_spec \<Rightarrow> ('k, 'v) rl_spec" where
  "sp_clear \<sigma> = \<sigma>\<lparr>sp_map := Map.empty, sp_changes := [], sp_epoch := sp_seq \<sigma> + 1\<rparr>"

definition sp_compact :: "('k, 'v) rl_spec \<Rightarrow> ('k, 'v) rl_spec" where
  "sp_compact \<sigma> = \<sigma>\<lparr>sp_changes := [], sp_epoch := sp_seq \<sigma>\<rparr>"

definition sp_get :: "('k, 'v) rl_spec \<Rightarrow> 'k \<Rightarrow> 'v option" where
  "sp_get \<sigma> k = map_option snd (sp_map \<sigma> k)"

text \<open>The value of an entry number, whatever its key.\<close>

definition sp_by_id :: "('k::linorder, 'v) rl_spec \<Rightarrow> 64 word \<Rightarrow> 'v option" where
  "sp_by_id \<sigma> i = map_of (map snd (entries_of (sp_map \<sigma>))) i"

definition sp_since :: "('k, 'v) rl_spec \<Rightarrow> nat \<Rightarrow> nat \<Rightarrow> ('k change_entry list \<times> nat) option" where
  "sp_since \<sigma> s l = (if s < sp_epoch \<sigma> then None
     else let es = take l (drop (s - sp_epoch \<sigma>) (sp_changes \<sigma>)) in Some (es, if sp_seq \<sigma> \<le> s then sp_seq \<sigma> else s + length es))"

definition sp_valued :: "('k, 'v) rl_spec \<Rightarrow> 'k change_entry \<Rightarrow> 'k change_entry \<times> 'v option" where
  "sp_valued \<sigma> e = (e, if is_upsert e then sp_get \<sigma> (ce_key e) else None)"

definition sp_page :: "('k::linorder, 'v) rl_spec \<Rightarrow> 'k option \<Rightarrow> nat \<Rightarrow> (64 word \<times> 'k \<times> 'v) list" where
  "sp_page \<sigma> after_key l = map (\<lambda>(k, i, v). (i, k, v))
     (take l (filter (\<lambda>x. case after_key of None \<Rightarrow> True | Some a \<Rightarrow> a < fst x) (entries_of (sp_map \<sigma>))))"

definition sp_pairs :: "('k::linorder, 'v) rl_spec \<Rightarrow> ('k \<times> 'v) list" where
  "sp_pairs \<sigma> = map (\<lambda>(k, i, v). (k, v)) (entries_of (sp_map \<sigma>))"

text \<open>The index \<open>f\<close> and the store \<open>g\<close> together: every entry number belongs to one key and has a value, and is below the next one.\<close>

definition linked :: "('k \<rightharpoonup> 64 word) \<Rightarrow> (64 word \<rightharpoonup> 'v) \<Rightarrow> 64 word \<Rightarrow> bool" where
  "linked f g n \<longleftrightarrow> inj_on f (dom f) \<and> ran f = dom g \<and> (\<forall>i \<in> dom g. i < n)"

definition join :: "('k \<rightharpoonup> 64 word) \<Rightarrow> (64 word \<rightharpoonup> 'v) \<Rightarrow> ('k \<rightharpoonup> 64 word \<times> 'v)" where
  "join f g k = map_option (\<lambda>i. (i, the (g i))) (f k)"

lemma linkedD:
  assumes "linked f g n"
  shows "f k = Some i \<Longrightarrow> \<exists>v. g i = Some v \<and> join f g k = Some (i, v)" "f k = None \<longleftrightarrow> join f g k = None" "dom (join f g) = dom f"
    "f k = Some i \<Longrightarrow> f k' = Some i \<Longrightarrow> k = k'" "g n = None" "n \<notin> ran f"
proof -
  show "f k = Some i \<Longrightarrow> \<exists>v. g i = Some v \<and> join f g k = Some (i, v)"
    using assms ranI[of f k i] by (auto simp: linked_def join_def)
  show "f k = None \<longleftrightarrow> join f g k = None" "dom (join f g) = dom f"
    by (auto simp: join_def)
  show "f k = Some i \<Longrightarrow> f k' = Some i \<Longrightarrow> k = k'"
    using assms unfolding linked_def by (metis domI inj_onD)
  show "g n = None" "n \<notin> ran f"
    using assms by (auto simp: linked_def)
qed

lemma linked_old:
  assumes l: "linked f g n" and i: "f k = Some i"
  shows "linked f (g(i \<mapsto> v)) n" "join f (g(i \<mapsto> v)) = (join f g)(k \<mapsto> (i, v))"
  using l i linkedD(1,4)[OF l] ranI[of f k i] by (auto simp: linked_def join_def fun_eq_iff map_option_case split: option.splits)

lemma linked_new:
  assumes l: "linked f g n" and k: "f k = None" and n: "unat n < U64_MAX"
  shows "linked (f(k \<mapsto> n)) (g(n \<mapsto> v)) (n + 1)" "join (f(k \<mapsto> n)) (g(n \<mapsto> v)) = (join f g)(k \<mapsto> (n, v))"
proof -
  have "unat (n + 1) = unat n + 1"
    using n by (simp add: unat_word_ariths)
  then have "i < n + 1 \<longleftrightarrow> i \<le> n" for i
    by (simp add: word_less_nat_alt word_le_nat_alt less_Suc_eq_le)
  moreover have "\<And>k'. f k' \<noteq> Some n"
    using linkedD(6)[OF l] by (auto intro: ranI)
  ultimately show "linked (f(k \<mapsto> n)) (g(n \<mapsto> v)) (n + 1)"
    using l k by (auto simp: linked_def inj_on_def less_imp_le)
  show "join (f(k \<mapsto> n)) (g(n \<mapsto> v)) = (join f g)(k \<mapsto> (n, v))"
    using \<open>\<And>k'. f k' \<noteq> Some n\<close> by (auto simp: join_def fun_eq_iff map_option_case split: option.splits)
qed

lemma linked_del:
  assumes l: "linked f g n" and i: "f k = Some i"
  shows "linked (f(k := None)) (g(i := None)) n" "join (f(k := None)) (g(i := None)) = (join f g)(k := None)"
proof -
  have u: "f k' = Some i \<longleftrightarrow> k' = k" for k'
    using linkedD(4)[OF l i, of k'] i by blast
  have "ran (f(k := None)) = ran f - {i}"
  proof (intro equalityI subsetI)
    fix x assume "x \<in> ran f - {i}"
    then obtain a where "f a = Some x" "a \<noteq> k"
      using i unfolding ran_def by force
    then show "x \<in> ran (f(k := None))"
      by (auto simp: ran_def)
  qed (auto simp: ran_def u split: if_splits)
  moreover have "inj_on (f(k := None)) (dom f - {k})"
    using l inj_on_diff[of f "dom f" "{k}"] by (subst inj_on_cong[of _ _ f]) (auto simp: linked_def)
  ultimately show "linked (f(k := None)) (g(i := None)) n"
    using l by (simp add: linked_def)
  show "join (f(k := None)) (g(i := None)) = (join f g)(k := None)"
    using u by (auto simp: join_def fun_eq_iff map_option_case split: option.splits)
qed

lemma ran_image: "ran f = (the \<circ> f) ` dom f"
  by (force simp: ran_def image_iff)

lemma linked_card:
  assumes l: "linked (map_of xs) (map_of ys) n" and s: "sorted_keys xs" "sorted_keys ys"
  shows "length xs = card (dom (join (map_of xs) (map_of ys)))" "length ys = card (dom (join (map_of xs) (map_of ys)))"
proof -
  let ?f = "map_of xs" and ?g = "map_of ys"
  have "card (dom ?g) = card ((the \<circ> ?f) ` dom ?f)"
    using l by (simp add: linked_def ran_image)
  also have "\<dots> = card (dom ?f)"
  proof (intro card_image inj_onI)
    fix x y assume "x \<in> dom ?f" "y \<in> dom ?f" "(the \<circ> ?f) x = (the \<circ> ?f) y"
    then obtain i where "?f x = Some i" "?f y = Some i"
      by (metis comp_apply domD option.sel)
    then show "x = y"
      by (rule linkedD(4)[OF l])
  qed
  finally show "length xs = card (dom (join ?f ?g))" "length ys = card (dom (join ?f ?g))"
    using card_dom_sorted[OF s(1)] card_dom_sorted[OF s(2)] linkedD(3)[OF l] by simp_all
qed

lemma entries_join: "sorted_keys xs \<Longrightarrow> entries_of (join (map_of xs) g) = map (\<lambda>(k, i). (k, i, the (g i))) xs"
proof -
  assume s: "sorted_keys xs"
  have "entries_of (join (map_of xs) g) = map (\<lambda>(k, i). (k, i, the (g i))) (entries_of (map_of xs))"
    by (auto simp: entries_of_def join_def[abs_def] dom_map_option_comp[unfolded comp_def] finite_dom_map_of domIff)
  with entries_of_sorted[OF s] show ?thesis
    by simp
qed

lemma rep_valid: "btree_rep M minv contents cap K vk V vv kb vb m xs C \<Longrightarrow> map_of xs k = Some v \<Longrightarrow> vv v"
  by (erule btree_repE) (rule btree_values.is_mapD(2))

text \<open>A state that \<open>n\<close> commands can have reached.\<close>

definition fits :: "nat \<Rightarrow> ('k, 'v) rl_spec \<Rightarrow> bool" where
  "fits n \<sigma> \<longleftrightarrow> card (dom (sp_map \<sigma>)) \<le> n \<and> unat (sp_next \<sigma>) \<le> n \<and> sp_seq \<sigma> \<le> n"

section \<open>The operations\<close>

context replog
begin

definition tree_room :: "nat \<Rightarrow> bool" where
  "tree_room n \<longleftrightarrow> 2 * (n div 5) + 4 \<le> C \<and> n < U64_MAX"

definition room :: "nat \<Rightarrow> bool" where
  "room n \<longleftrightarrow> tree_room n \<and> log_room (Suc n)"

lemma room_le: "log_room n \<Longrightarrow> m \<le> n \<Longrightarrow> log_room m" "tree_room n \<Longrightarrow> m \<le> n \<Longrightarrow> tree_room m"
proof -
  show "log_room m" if r: "log_room n" and m: "m \<le> n"
  proof -
    have "m * (9 + kb) \<le> n * (9 + kb)"
      using m by (rule mult_le_mono1)
    moreover have "8 * m \<le> 8 * n"
      using m by simp
    ultimately show ?thesis
      using r unfolding log_room_def by safe linarith+
  qed
  show "tree_room n \<Longrightarrow> m \<le> n \<Longrightarrow> tree_room m"
    using div_le_mono[of m n 5] unfolding tree_room_def by linarith
qed

lemma fits_room: "room n \<Longrightarrow> fits n \<sigma> \<Longrightarrow> log_room (Suc (length (sp_changes \<sigma>)))" "room n \<Longrightarrow> tree_room n"
  using room_le(1)[of "Suc n"] by (auto simp: room_def fits_def sp_seq_def)

definition rl_rep :: "('a, 'b, 'c, 'd, 'e) rep_log_map \<Rightarrow> ('k, 'v) rl_spec \<Rightarrow> bool" where
  "rl_rep rl \<sigma> \<longleftrightarrow> (\<exists>xs ys. parts rl xs ys (sp_changes \<sigma>) \<lparr>next_entry_id = sp_next \<sigma>, epoch_start = sp_epoch \<sigma>\<rparr> \<and>
     linked (map_of xs) (map_of ys) (sp_next \<sigma>) \<and> sp_map \<sigma> = join (map_of xs) (map_of ys))"

lemma rl_repI:
  assumes "parts rl xs ys es \<lparr>next_entry_id = n, epoch_start = ep\<rparr>" "linked (map_of xs) (map_of ys) n"
  shows "rl_rep rl \<lparr>sp_map = join (map_of xs) (map_of ys), sp_changes = es, sp_next = n, sp_epoch = ep\<rparr>"
  using assms by (auto simp: rl_rep_def)

lemma rl_repE:
  assumes "rl_rep rl \<sigma>" "fits n \<sigma>" "tree_room n"
  obtains xs ys where "parts rl xs ys (sp_changes \<sigma>) \<lparr>next_entry_id = sp_next \<sigma>, epoch_start = sp_epoch \<sigma>\<rparr>"
    "linked (map_of xs) (map_of ys) (sp_next \<sigma>)" "sp_map \<sigma> = join (map_of xs) (map_of ys)" "sorted_keys xs" "sorted_keys ys"
    "2 * (length xs div 5) + 4 \<le> C" "2 * (length ys div 5) + 4 \<le> C"
proof -
  obtain xs ys where 1: "parts rl xs ys (sp_changes \<sigma>) \<lparr>next_entry_id = sp_next \<sigma>, epoch_start = sp_epoch \<sigma>\<rparr>"
    "linked (map_of xs) (map_of ys) (sp_next \<sigma>)" "sp_map \<sigma> = join (map_of xs) (map_of ys)"
    using assms(1) by (auto simp: rl_rep_def)
  have 2: "length xs \<le> n" "length ys \<le> n"
    using linked_card[OF 1(2) partsD(5,6)[OF 1(1)]] assms(2) by (simp_all add: fits_def 1(3))
  show ?thesis
    using that[OF 1 partsD(5,6)[OF 1(1)]] room_le(2)[OF assms(3) 2(1)] room_le(2)[OF assms(3) 2(2)] by (simp add: tree_room_def)
qed

lemma insert_ok:
  assumes "rl_rep rl \<sigma>" "fits n \<sigma>" "room n" "vk k" "vv v"
  shows "ok (rl_insert P rl k v) (\<lambda>(r, rl'). r = fst (sp_insert k v \<sigma>) \<and> rl_rep rl' (snd (sp_insert k v \<sigma>)))"
proof -
  let ?c = "\<lparr>next_entry_id = sp_next \<sigma>, epoch_start = sp_epoch \<sigma>\<rparr>"
  obtain xs ys where p: "parts rl xs ys (sp_changes \<sigma>) ?c"
    and l: "linked (map_of xs) (map_of ys) (sp_next \<sigma>)" and j: "sp_map \<sigma> = join (map_of xs) (map_of ys)" and s: "sorted_keys xs" "sorted_keys ys"
    and C: "2 * (length xs div 5) + 4 \<le> C" "2 * (length ys div 5) + 4 \<le> C"
    by (rule rl_repE[OF assms(1,2) fits_room(2)[OF assms(3)]])
  note room = fits_room(1)[OF assms(3,2)]
  from index_calls(1)[OF p, of k] obtain rl1 where 1: "index_get P rl k = Some (map_of xs k, rl1)" "parts rl1 xs ys (sp_changes \<sigma>) ?c"
    by (auto elim!: ok_obtain)
  show ?thesis
  proof (cases "map_of xs k")
    case (Some i)
    then obtain old where old: "map_of ys i = Some old" "sp_map \<sigma> k = Some (i, old)"
      using linkedD(1)[OF l Some] j by auto
    from store_calls(2)[OF 1(2) assms(5) C(2), of i] old(1) obtain rl2 where
      2: "store_insert P rl1 i v = Some (Some old, rl2)" "parts rl2 xs (ins i v ys) (sp_changes \<sigma>) ?c"
      by (auto elim!: ok_obtain)
    have "rl_rep rl' (snd (sp_insert k v \<sigma>))"
      if "parts rl' xs (ins i v ys) (sp_changes \<sigma> @ [\<lparr>ce_kind = Upsert, ce_entry_id = i, ce_key = k\<rparr>]) ?c" for rl'
      using that linked_old[OF l Some, of v] old(2)
      by (auto simp: rl_rep_def sp_insert_def log_change_def j map_of_ins[OF s(2)] intro!: exI[of _ xs] exI[of _ "ins i v ys"])
    with append_change_ok[OF 2(2) assms(4) room, of Upsert i] show ?thesis
      using 1(1) 2(1) Some old(2) by (auto simp: rl_insert_def sp_insert_def elim!: ok_mono)
  next
    case None
    have n: "unat (sp_next \<sigma>) < U64_MAX"
      using assms(2,3) by (auto simp: fits_def room_def tree_room_def)
    then have c: "id_succ ?c = Some (?c\<lparr>next_entry_id := sp_next \<sigma> + 1\<rparr>)"
      by (simp add: id_succ_def u64_add_def)
    have "epoch_start (?c\<lparr>next_entry_id := sp_next \<sigma> + 1\<rparr>) \<le> U64_MAX"
      using assms(2,3) by (auto simp: fits_def room_def tree_room_def sp_seq_def)
    from set_counters_ok[OF 1(2) this] obtain rl2 where
      2: "set_counters P rl1 (?c\<lparr>next_entry_id := sp_next \<sigma> + 1\<rparr>) = Some rl2" "parts rl2 xs ys (sp_changes \<sigma>) (?c\<lparr>next_entry_id := sp_next \<sigma> + 1\<rparr>)"
      by (auto elim!: ok_obtain)
    from index_calls(2)[OF 2(2) assms(4) C(1), of "sp_next \<sigma>"] obtain rl3 r3 where
      3: "index_insert P rl2 k (sp_next \<sigma>) = Some (r3, rl3)" "parts rl3 (ins k (sp_next \<sigma>) xs) ys (sp_changes \<sigma>) (?c\<lparr>next_entry_id := sp_next \<sigma> + 1\<rparr>)"
      by (auto elim!: ok_obtain)
    from store_calls(2)[OF 3(2) assms(5) C(2), of "sp_next \<sigma>"] obtain rl4 r4 where
      4: "store_insert P rl3 (sp_next \<sigma>) v = Some (r4, rl4)"
        "parts rl4 (ins k (sp_next \<sigma>) xs) (ins (sp_next \<sigma>) v ys) (sp_changes \<sigma>) (?c\<lparr>next_entry_id := sp_next \<sigma> + 1\<rparr>)"
      by (auto elim!: ok_obtain)
    have "rl_rep rl' (snd (sp_insert k v \<sigma>))"
      if "parts rl' (ins k (sp_next \<sigma>) xs) (ins (sp_next \<sigma>) v ys) (sp_changes \<sigma> @ [\<lparr>ce_kind = Upsert, ce_entry_id = sp_next \<sigma>, ce_key = k\<rparr>])
        (?c\<lparr>next_entry_id := sp_next \<sigma> + 1\<rparr>)" for rl'
      using that linked_new[OF l None n, of v] None linkedD(2)[OF l, of k]
      by (auto simp: rl_rep_def sp_insert_def log_change_def j map_of_ins[OF s(1)] map_of_ins[OF s(2)]
          intro!: exI[of _ "ins k (sp_next \<sigma>) xs"] exI[of _ "ins (sp_next \<sigma>) v ys"])
    with append_change_ok[OF 4(2) assms(4) room, of Upsert "sp_next \<sigma>"] show ?thesis
      using 1 2(1) 3(1) 4(1) None c linkedD(2)[OF l, of k] by (auto simp: rl_insert_def sp_insert_def counters_get j elim!: ok_mono)
  qed
qed

lemma remove_ok:
  assumes "rl_rep rl \<sigma>" "fits n \<sigma>" "room n" "vk k"
  shows "ok (rl_remove P rl k) (\<lambda>(r, rl'). r = fst (sp_remove k \<sigma>) \<and> rl_rep rl' (snd (sp_remove k \<sigma>)))"
proof -
  let ?c = "\<lparr>next_entry_id = sp_next \<sigma>, epoch_start = sp_epoch \<sigma>\<rparr>"
  obtain xs ys where p: "parts rl xs ys (sp_changes \<sigma>) ?c"
    and l: "linked (map_of xs) (map_of ys) (sp_next \<sigma>)" and j: "sp_map \<sigma> = join (map_of xs) (map_of ys)"
    by (rule rl_repE[OF assms(1,2) fits_room(2)[OF assms(3)]])
  note room = fits_room(1)[OF assms(3,2)]
  from index_calls(3)[OF p, of k] obtain rl1 where 1: "index_remove P rl k = Some (map_of xs k, rl1)" "parts rl1 (del k xs) ys (sp_changes \<sigma>) ?c"
    by (auto elim!: ok_obtain)
  show ?thesis
  proof (cases "map_of xs k")
    case (Some i)
    then obtain old where old: "map_of ys i = Some old" "sp_map \<sigma> k = Some (i, old)"
      using linkedD(1)[OF l Some] j by auto
    from store_calls(3)[OF 1(2), of i] old(1) obtain rl2 where
      2: "store_remove P rl1 i = Some (Some old, rl2)" "parts rl2 (del k xs) (del i ys) (sp_changes \<sigma>) ?c"
      by (auto elim!: ok_obtain)
    have "rl_rep rl' (snd (sp_remove k \<sigma>))"
      if "parts rl' (del k xs) (del i ys) (sp_changes \<sigma> @ [\<lparr>ce_kind = Delete, ce_entry_id = i, ce_key = k\<rparr>]) ?c" for rl'
      using that linked_del[OF l Some] old(2)
      by (auto simp: rl_rep_def sp_remove_def log_change_def j map_of_del intro!: exI[of _ "del k xs"] exI[of _ "del i ys"])
    with append_change_ok[OF 2(2) assms(4) room, of Delete i] show ?thesis
      using 1(1) 2(1) Some old(2) by (auto simp: rl_remove_def sp_remove_def elim!: ok_mono)
  next
    case None
    then have "map_of (del k xs) = map_of xs"
      by (auto simp: map_of_del)
    then have "rl_rep rl1 \<sigma>"
      using 1(2) l j by (auto simp: rl_rep_def intro!: exI[of _ "del k xs"] exI[of _ ys])
    then show ?thesis
      using 1(1) None linkedD(2)[OF l, of k] j by (simp add: rl_remove_def sp_remove_def)
  qed
qed

text \<open>The operations that report a full log do what the others do when they succeed, and nothing when they fail.\<close>

lemma try_insert_ok:
  assumes r: "rl_insert P rl k v = Some (r, rl')"
  shows "rl_try_insert P rl k v = Some (Inr r, rl')"
proof -
  obtain found rl1 where g: "index_get P rl k = Some (found, rl1)"
    using r by (auto simp: rl_insert_def bind_eq_Some_conv)
  show ?thesis
  proof (cases found)
    case (Some i)
    then obtain rl2 n where "store_insert P rl1 i v = Some (r, rl2)" "append_change P rl2 Upsert i k = Some (Inr n, rl')"
      using r g by (auto simp: rl_insert_def bind_eq_Some_conv expect_Some)
    then show ?thesis
      using g Some by (simp add: rl_try_insert_def)
  next
    case None
    let ?i = "next_entry_id (cell_get (rl_counters rl1))"
    obtain c rl2 r3 rl3 r4 rl4 n where "id_succ (cell_get (rl_counters rl1)) = Some c" "set_counters P rl1 c = Some rl2"
      "index_insert P rl2 k ?i = Some (r3, rl3)" "store_insert P rl3 ?i v = Some (r4, rl4)" "append_change P rl4 Upsert ?i k = Some (Inr n, rl')" "r = None"
      using r g None by (auto simp: rl_insert_def bind_eq_Some_conv expect_Some Let_def)
    then show ?thesis
      using g None by (simp add: rl_try_insert_def)
  qed
qed

lemma try_remove_ok:
  assumes r: "rl_remove P rl k = Some (r, rl')"
  shows "rl_try_remove P rl k = Some (Inr r, rl')"
proof -
  obtain found rl1 where g: "index_remove P rl k = Some (found, rl1)"
    using r by (auto simp: rl_remove_def bind_eq_Some_conv)
  show ?thesis
  proof (cases found)
    case (Some i)
    then obtain rl2 n where "store_remove P rl1 i = Some (r, rl2)" "append_change P rl2 Delete i k = Some (Inr n, rl')"
      using r g by (auto simp: rl_remove_def bind_eq_Some_conv expect_Some)
    then show ?thesis
      using g Some by (simp add: rl_try_remove_def)
  next
    case None
    then show ?thesis
      using r g by (simp add: rl_try_remove_def rl_remove_def)
  qed
qed

lemma ins_del:
  assumes "sorted_keys xs"
  shows "map_of xs k = None \<Longrightarrow> map_of (del k (ins k i xs)) = map_of xs" "map_of xs k = Some i \<Longrightarrow> map_of (ins k i (del k xs)) = map_of xs"
    "map_of xs k = Some i \<Longrightarrow> map_of (ins k i (ins k j xs)) = map_of xs"
  using assms by (auto simp: map_of_del map_of_ins sorted_del sorted_ins fun_eq_iff)

lemma length_changed:
  assumes "sorted_keys xs"
  shows "map_of xs k \<noteq> None \<Longrightarrow> length (ins k i xs) = length xs" "length (del k xs) \<le> length xs"
  using assms by (simp_all add: length_ins length_del)

text \<open>\<open>try_insert\<close> reports an error exactly when the append does, and then it rolls back without a panic.\<close>

lemma try_insert_cases:
  assumes "rl_rep rl \<sigma>" "fits n \<sigma>" "tree_room n" "vk k" "vv v"
  obtains rl' xs ys c i where "parts rl' xs ys (sp_changes \<sigma>) c"
    "\<And>e rl''. append_change P rl' Upsert i k = Some (Inl e, rl'') \<Longrightarrow> ok (rl_try_insert P rl k v) (\<lambda>(r, rl'). r = Inl ChangelogFull \<and> rl_rep rl' \<sigma>)"
    "\<And>e rl''. rl_try_insert P rl k v = Some (Inl e, rl'') \<Longrightarrow> \<exists>e rl''. append_change P rl' Upsert i k = Some (Inl e, rl'')"
proof -
  let ?c = "\<lparr>next_entry_id = sp_next \<sigma>, epoch_start = sp_epoch \<sigma>\<rparr>"
  obtain xs ys where p: "parts rl xs ys (sp_changes \<sigma>) ?c"
    and l: "linked (map_of xs) (map_of ys) (sp_next \<sigma>)" and j: "sp_map \<sigma> = join (map_of xs) (map_of ys)" and s: "sorted_keys xs" "sorted_keys ys"
    and C: "2 * (length xs div 5) + 4 \<le> C" "2 * (length ys div 5) + 4 \<le> C"
    by (rule rl_repE[OF assms(1-3)])
  from index_calls(1)[OF p, of k] obtain rl1 where 1: "index_get P rl k = Some (map_of xs k, rl1)" "parts rl1 xs ys (sp_changes \<sigma>) ?c"
    by (auto elim!: ok_obtain)
  show ?thesis
  proof (cases "map_of xs k")
    case (Some i)
    then obtain old where old: "map_of ys i = Some old"
      using linkedD(1)[OF l Some] by auto
    from store_calls(2)[OF 1(2) assms(5) C(2), of i] old obtain rl2 where
      2: "store_insert P rl1 i v = Some (Some old, rl2)" "parts rl2 xs (ins i v ys) (sp_changes \<sigma>) ?c"
      by (auto elim!: ok_obtain)
    have o: "vv old" "2 * (length (ins i v ys) div 5) + 4 \<le> C"
      using rep_valid[OF partsD(2)[OF p] old] C(2) length_changed(1)[OF s(2), of i v] old by auto
    have k: "rl_rep rl' \<sigma>" if "parts rl' xs (ins i old (ins i v ys)) (sp_changes \<sigma>) ?c" for rl'
      using that l j ins_del(3)[OF s(2) old, of v] by (auto simp: rl_rep_def intro!: exI[of _ xs] exI[of _ "ins i old (ins i v ys)"])
    show ?thesis
    proof (rule that[OF 2(2)])
      fix e rl3 assume a: "append_change P rl2 Upsert i k = Some (Inl e, rl3)"
      from store_calls(2)[OF append_change_fail[OF 2(2) assms(4) a] o, of i] k show "ok (rl_try_insert P rl k v) (\<lambda>(r, rl'). r = Inl ChangelogFull \<and> rl_rep rl' \<sigma>)"
        using 1(1) 2(1) Some a by (auto simp: rl_try_insert_def elim!: ok_mono)
    next
      fix e rl' assume r: "rl_try_insert P rl k v = Some (Inl e, rl')"
      then obtain a rl3 where a: "append_change P rl2 Upsert i k = Some (a, rl3)"
        using 1(1) 2(1) Some by (auto simp: rl_try_insert_def bind_eq_Some_conv)
      with r show "\<exists>e rl''. append_change P rl2 Upsert i k = Some (Inl e, rl'')"
        using 1(1) 2(1) Some by (cases a) (auto simp: rl_try_insert_def)
    qed
  next
    case None
    let ?i = "sp_next \<sigma>" and ?c' = "?c\<lparr>next_entry_id := sp_next \<sigma> + 1\<rparr>" and ?xs = "ins k (sp_next \<sigma>) xs" and ?ys = "ins (sp_next \<sigma>) v ys"
    have n: "unat ?i < U64_MAX" and ep: "epoch_start ?c' \<le> U64_MAX" "epoch_start ?c \<le> U64_MAX"
      using assms(2,3) by (auto simp: fits_def tree_room_def sp_seq_def)
    then have c: "id_succ ?c = Some ?c'" "id_pred ?c' = Some ?c"
      by (simp_all add: id_succ_def id_pred_def u64_add_def u64_sub_def unat_word_ariths)
    from set_counters_ok[OF 1(2) ep(1)] obtain rl2 where 2: "set_counters P rl1 ?c' = Some rl2" "parts rl2 xs ys (sp_changes \<sigma>) ?c'"
      by (auto elim!: ok_obtain)
    from index_calls(2)[OF 2(2) assms(4) C(1), of ?i] obtain rl3 r3 where 3: "index_insert P rl2 k ?i = Some (r3, rl3)" "parts rl3 ?xs ys (sp_changes \<sigma>) ?c'"
      by (auto elim!: ok_obtain)
    from store_calls(2)[OF 3(2) assms(5) C(2), of ?i] obtain rl4 r4 where 4: "store_insert P rl3 ?i v = Some (r4, rl4)" "parts rl4 ?xs ?ys (sp_changes \<sigma>) ?c'"
      by (auto elim!: ok_obtain)
    have c1: "cell_get (rl_counters rl1) = ?c"
      by (rule counters_get[OF 1(2)])
    have k: "rl_rep rl' \<sigma>" if "parts rl' (del k ?xs) (del ?i ?ys) (sp_changes \<sigma>) ?c" for rl'
      using that l j ins_del(1)[OF s(1) None, of ?i] ins_del(1)[OF s(2) linkedD(5)[OF l], of v]
      by (auto simp: rl_rep_def intro!: exI[of _ "del k ?xs"] exI[of _ "del ?i ?ys"])
    show ?thesis
    proof (rule that[OF 4(2)])
      fix e rl5 assume a: "append_change P rl4 Upsert ?i k = Some (Inl e, rl5)"
      note p5 = append_change_fail[OF 4(2) assms(4) a]
      from index_calls(3)[OF p5, of k] obtain r6 rl6 where 6: "index_remove P rl5 k = Some (r6, rl6)" "parts rl6 (del k ?xs) ?ys (sp_changes \<sigma>) ?c'"
        by (auto elim!: ok_obtain)
      from store_calls(3)[OF 6(2), of ?i] obtain r7 rl7 where 7: "store_remove P rl6 ?i = Some (r7, rl7)" "parts rl7 (del k ?xs) (del ?i ?ys) (sp_changes \<sigma>) ?c'"
        by (auto elim!: ok_obtain)
      from set_counters_ok[OF 7(2) ep(2)] k show "ok (rl_try_insert P rl k v) (\<lambda>(r, rl'). r = Inl ChangelogFull \<and> rl_rep rl' \<sigma>)"
        using 1(1) 2(1) 3(1) 4(1) 6(1) 7(1) None c c1 a by (auto simp: rl_try_insert_def Let_def elim!: ok_mono)
    next
      fix e rl' assume r: "rl_try_insert P rl k v = Some (Inl e, rl')"
      then obtain a rl5 where a: "append_change P rl4 Upsert ?i k = Some (a, rl5)"
        using 1(1) 2(1) 3(1) 4(1) None c c1 by (auto simp: rl_try_insert_def Let_def bind_eq_Some_conv)
      with r show "\<exists>e rl''. append_change P rl4 Upsert ?i k = Some (Inl e, rl'')"
        using 1(1) 2(1) 3(1) 4(1) None c c1 by (cases a) (auto simp: rl_try_insert_def Let_def)
    qed
  qed
qed

lemma try_insert_fail:
  assumes "rl_rep rl \<sigma>" "fits n \<sigma>" "tree_room n" "vk k" "vv v" and r: "rl_try_insert P rl k v = Some (Inl e, rl')"
  shows "rl_rep rl' \<sigma>"
proof (rule try_insert_cases[OF assms(1-5)])
  fix rl1 i
  assume "\<And>e rl'. append_change P rl1 Upsert i k = Some (Inl e, rl') \<Longrightarrow> ok (rl_try_insert P rl k v) (\<lambda>(r, rl'). r = Inl ChangelogFull \<and> rl_rep rl' \<sigma>)"
    "\<And>e rl'. rl_try_insert P rl k v = Some (Inl e, rl') \<Longrightarrow> \<exists>e rl'. append_change P rl1 Upsert i k = Some (Inl e, rl')"
  with r have "ok (rl_try_insert P rl k v) (\<lambda>(r, rl'). r = Inl ChangelogFull \<and> rl_rep rl' \<sigma>)"
    by blast
  with r show ?thesis
    by (auto elim!: ok_obtain)
qed

lemma try_insert_full:
  assumes "rl_rep rl \<sigma>" "fits n \<sigma>" "tree_room n" "vk k" "vv v"
    and "\<And>l i. log_at l (sp_changes \<sigma>) \<Longrightarrow> \<exists>e l'. log_append (change_storable (key_type P)) (index_mem P) (data_mem P) l \<lparr>ce_kind = Upsert, ce_entry_id = i, ce_key = k\<rparr> = Some (Inl e, l')"
  shows "\<exists>rl'. rl_try_insert P rl k v = Some (Inl ChangelogFull, rl')"
proof (rule try_insert_cases[OF assms(1-5)])
  fix rl1 xs ys c i
  assume p: "parts rl1 xs ys (sp_changes \<sigma>) c"
    and a: "\<And>e rl'. append_change P rl1 Upsert i k = Some (Inl e, rl') \<Longrightarrow> ok (rl_try_insert P rl k v) (\<lambda>(r, rl'). r = Inl ChangelogFull \<and> rl_rep rl' \<sigma>)"
  obtain e l where "log_append (change_storable (key_type P)) (index_mem P) (data_mem P) (changelog rl1) \<lparr>ce_kind = Upsert, ce_entry_id = i, ce_key = k\<rparr> = Some (Inl e, l)"
    using assms(6)[OF partsD(3)[OF p]] by blast
  then show ?thesis
    using a[of e] by (auto simp: append_change_def elim!: ok_obtain)
qed

lemma try_remove_fail:
  assumes "rl_rep rl \<sigma>" "fits n \<sigma>" "tree_room n" "vk k" and r: "rl_try_remove P rl k = Some (Inl e, rl')"
  shows "rl_rep rl' \<sigma>"
proof -
  let ?c = "\<lparr>next_entry_id = sp_next \<sigma>, epoch_start = sp_epoch \<sigma>\<rparr>"
  obtain xs ys where p: "parts rl xs ys (sp_changes \<sigma>) ?c"
    and l: "linked (map_of xs) (map_of ys) (sp_next \<sigma>)" and j: "sp_map \<sigma> = join (map_of xs) (map_of ys)" and s: "sorted_keys xs" "sorted_keys ys"
    and C: "2 * (length xs div 5) + 4 \<le> C" "2 * (length ys div 5) + 4 \<le> C"
    by (rule rl_repE[OF assms(1-3)])
  from index_calls(3)[OF p, of k] obtain rl1 where 1: "index_remove P rl k = Some (map_of xs k, rl1)" "parts rl1 (del k xs) ys (sp_changes \<sigma>) ?c"
    by (auto elim!: ok_obtain)
  with r obtain i where i: "map_of xs k = Some i"
    by (cases "map_of xs k") (auto simp: rl_try_remove_def)
  then obtain old where old: "map_of ys i = Some old"
    using linkedD(1)[OF l i] by auto
  from store_calls(3)[OF 1(2), of i] old obtain rl2 where
    2: "store_remove P rl1 i = Some (Some old, rl2)" "parts rl2 (del k xs) (del i ys) (sp_changes \<sigma>) ?c"
    by (auto elim!: ok_obtain)
  obtain a rl3 where a: "append_change P rl2 Delete i k = Some (a, rl3)"
    using r 1(1) 2(1) i by (auto simp: rl_try_remove_def bind_eq_Some_conv)
  then obtain e' r4 rl4 r5 where 3: "append_change P rl2 Delete i k = Some (Inl e', rl3)" "index_insert P rl3 k i = Some (r4, rl4)" "store_insert P rl4 i old = Some (r5, rl')"
    using r 1(1) 2(1) i by (cases a) (auto simp: rl_try_remove_def bind_eq_Some_conv)
  have len: "2 * (length (del k xs) div 5) + 4 \<le> C" "2 * (length (del i ys) div 5) + 4 \<le> C"
    using C length_changed(2)[OF s(1), of k] length_changed(2)[OF s(2), of i] div_le_mono[of "length (del k xs)" "length xs" 5]
      div_le_mono[of "length (del i ys)" "length ys" 5] by linarith+
  from index_calls(2)[OF append_change_fail[OF 2(2) assms(4) 3(1)] assms(4) len(1), of i] 3(2)
  have p4: "parts rl4 (ins k i (del k xs)) (del i ys) (sp_changes \<sigma>) ?c"
    by (auto elim!: ok_obtain)
  from store_calls(2)[OF p4 rep_valid[OF partsD(2)[OF p] old] len(2), of i] 3(3) have "parts rl' (ins k i (del k xs)) (ins i old (del i ys)) (sp_changes \<sigma>) ?c"
    by (auto elim!: ok_obtain)
  then show ?thesis
    using l j ins_del(2)[OF s(1) i] ins_del(2)[OF s(2) old] by (auto simp: rl_rep_def intro!: exI[of _ "ins k i (del k xs)"] exI[of _ "ins i old (del i ys)"])
qed

text \<open>The operations that only read.\<close>

lemma rl_repD:
  assumes "rl_rep rl \<sigma>"
  obtains xs ys where "parts rl xs ys (sp_changes \<sigma>) \<lparr>next_entry_id = sp_next \<sigma>, epoch_start = sp_epoch \<sigma>\<rparr>"
    "linked (map_of xs) (map_of ys) (sp_next \<sigma>)" "sp_map \<sigma> = join (map_of xs) (map_of ys)" "sorted_keys xs" "sorted_keys ys"
    "\<forall>rl'. parts rl' xs ys (sp_changes \<sigma>) \<lparr>next_entry_id = sp_next \<sigma>, epoch_start = sp_epoch \<sigma>\<rparr> \<longrightarrow> rl_rep rl' \<sigma>"
    "entries_of (sp_map \<sigma>) = map (\<lambda>(k, i). (k, i, the (map_of ys i))) xs" "sp_pairs \<sigma> = map (with_value ys) xs" "snd ` set xs \<subseteq> dom (map_of ys)"
proof -
  obtain xs ys where 1: "parts rl xs ys (sp_changes \<sigma>) \<lparr>next_entry_id = sp_next \<sigma>, epoch_start = sp_epoch \<sigma>\<rparr>"
    "linked (map_of xs) (map_of ys) (sp_next \<sigma>)" "sp_map \<sigma> = join (map_of xs) (map_of ys)"
    using assms by (auto simp: rl_rep_def)
  note s = partsD(5,6)[OF 1(1)]
  have e: "entries_of (sp_map \<sigma>) = map (\<lambda>(k, i). (k, i, the (map_of ys i))) xs"
    using entries_join[OF s(1), of "map_of ys"] 1(3) by simp
  have "i \<in> dom (map_of ys)" if "(k, i) \<in> set xs" for k i
  proof -
    have "distinct (map fst xs)"
      using s(1) sorted_keys_map[of xs] strict_sorted_iff by blast
    then have "map_of xs k = Some i"
      using that by simp
    then show ?thesis
      using linkedD(1)[OF 1(2)] by blast
  qed
  then have "snd ` set xs \<subseteq> dom (map_of ys)"
    by (intro image_subsetI) (metis prod.collapse)
  with 1 s e show ?thesis
    by (intro that[of xs ys]) (auto simp: rl_rep_def sp_pairs_def)
qed

lemma get_ok:
  assumes "rl_rep rl \<sigma>"
  shows "ok (rl_get P rl k) (\<lambda>(r, rl'). r = sp_get \<sigma> k \<and> rl_rep rl' \<sigma>)"
proof -
  let ?c = "\<lparr>next_entry_id = sp_next \<sigma>, epoch_start = sp_epoch \<sigma>\<rparr>"
  obtain xs ys where p: "parts rl xs ys (sp_changes \<sigma>) ?c" and l: "linked (map_of xs) (map_of ys) (sp_next \<sigma>)" and j: "sp_map \<sigma> = join (map_of xs) (map_of ys)"
    and keep: "\<forall>rl'. parts rl' xs ys (sp_changes \<sigma>) ?c \<longrightarrow> rl_rep rl' \<sigma>"
    by (rule rl_repD[OF assms])
  note k = keep[rule_format]
  from index_calls(1)[OF p, of k] obtain rl1 where 1: "index_get P rl k = Some (map_of xs k, rl1)" "parts rl1 xs ys (sp_changes \<sigma>) ?c"
    by (auto elim!: ok_obtain)
  show ?thesis
  proof (cases "map_of xs k")
    case None
    then show ?thesis
      using 1 k[OF 1(2)] linkedD(2)[OF l, of k] j by (simp add: rl_get_def sp_get_def)
  next
    case (Some i)
    then obtain v where v: "map_of ys i = Some v" "sp_map \<sigma> k = Some (i, v)"
      using linkedD(1)[OF l Some] j by auto
    with store_calls(1)[OF 1(2), of i] k 1(1) Some show ?thesis
      by (auto simp: rl_get_def sp_get_def elim!: ok_mono)
  qed
qed

lemma ends_ok:
  assumes "rl_rep rl \<sigma>"
  shows "ok (rl_first_key_value P rl) (\<lambda>(r, rl'). r = pick Front (sp_pairs \<sigma>) \<and> rl_rep rl' \<sigma>)"
    "ok (rl_last_key_value P rl) (\<lambda>(r, rl'). r = pick Back (sp_pairs \<sigma>) \<and> rl_rep rl' \<sigma>)"
proof -
  let ?c = "\<lparr>next_entry_id = sp_next \<sigma>, epoch_start = sp_epoch \<sigma>\<rparr>"
  obtain xs ys where p: "parts rl xs ys (sp_changes \<sigma>) ?c" and keep: "\<forall>rl'. parts rl' xs ys (sp_changes \<sigma>) ?c \<longrightarrow> rl_rep rl' \<sigma>"
    and e: "sp_pairs \<sigma> = map (with_value ys) xs" and d: "snd ` set xs \<subseteq> dom (map_of ys)"
    by (rule rl_repD[OF assms])
  note k = keep[rule_format]
  have v: "ok (entry_value P rl' (pick b xs)) (\<lambda>(r, rl'). r = pick b (sp_pairs \<sigma>) \<and> rl_rep rl' \<sigma>)" if r: "parts rl' xs ys (sp_changes \<sigma>) ?c" for b rl'
  proof (cases "pick b xs")
    case None
    then show ?thesis
      using k[OF r] by (simp add: entry_value_def e pick_map)
  next
    case (Some z)
    then have "z \<in> set xs"
      by (cases b; cases xs) (auto split: if_splits)
    then obtain w where "map_of ys (snd z) = Some w"
      using d by blast
    with store_calls(1)[OF r, of "snd z"] k Some show ?thesis
      by (auto simp: entry_value_def e pick_map case_prod_beta elim!: ok_mono)
  qed
  have pk: "pick Front xs = (if xs = [] then None else Some (hd xs))" "pick Back xs = (if xs = [] then None else Some (last xs))"
    by (cases xs; simp)+
  show "ok (rl_first_key_value P rl) (\<lambda>(r, rl'). r = pick Front (sp_pairs \<sigma>) \<and> rl_rep rl' \<sigma>)"
    using rep_ends(1)[OF partsD(1)[OF p]] v[OF parts_upd(1)[OF p], of _ Front] unfolding rl_first_key_value_def pk by (auto elim!: ok_mono)
  show "ok (rl_last_key_value P rl) (\<lambda>(r, rl'). r = pick Back (sp_pairs \<sigma>) \<and> rl_rep rl' \<sigma>)"
    using rep_ends(2)[OF partsD(1)[OF p]] v[OF parts_upd(1)[OF p], of _ Back] unfolding rl_last_key_value_def pk by (auto elim!: ok_mono)
qed

lemma simple_reads_ok:
  assumes "rl_rep rl \<sigma>" "sp_seq \<sigma> \<le> U64_MAX"
  shows "ok (rl_contains_key P rl k) (\<lambda>(r, rl'). r = (k \<in> dom (sp_map \<sigma>)) \<and> rl_rep rl' \<sigma>)"
    "rl_len rl = card (dom (sp_map \<sigma>))" "rl_is_empty rl \<longleftrightarrow> dom (sp_map \<sigma>) = {}" "rl_epoch_start rl = sp_epoch \<sigma>" "rl_next_entry_id rl = sp_next \<sigma>"
    "ok (rl_changelog_len P rl) (\<lambda>(r, rl'). r = length (sp_changes \<sigma>) \<and> rl_rep rl' \<sigma>)"
    "ok (rl_current_seq P rl) (\<lambda>(r, rl'). r = sp_seq \<sigma> \<and> rl_rep rl' \<sigma>)"
proof -
  let ?c = "\<lparr>next_entry_id = sp_next \<sigma>, epoch_start = sp_epoch \<sigma>\<rparr>"
  obtain xs ys where p: "parts rl xs ys (sp_changes \<sigma>) ?c" and l: "linked (map_of xs) (map_of ys) (sp_next \<sigma>)" and j: "sp_map \<sigma> = join (map_of xs) (map_of ys)"
    and s: "sorted_keys xs" "sorted_keys ys" and keep: "\<forall>rl'. parts rl' xs ys (sp_changes \<sigma>) ?c \<longrightarrow> rl_rep rl' \<sigma>"
    by (rule rl_repD[OF assms(1)])
  note k = keep[rule_format]
  have d: "dom (sp_map \<sigma>) = dom (map_of xs)"
    using linkedD(3)[OF l] j by simp
  show "ok (rl_contains_key P rl k) (\<lambda>(r, rl'). r = (k \<in> dom (sp_map \<sigma>)) \<and> rl_rep rl' \<sigma>)"
    using index_calls(4)[OF p, of k] k by (auto simp: d domIff elim!: ok_mono)
  show "rl_len rl = card (dom (sp_map \<sigma>))" "rl_is_empty rl \<longleftrightarrow> dom (sp_map \<sigma>) = {}"
    using rep_len[OF partsD(1)[OF p]] card_dom_sorted[OF s(1)] by (simp_all add: rl_len_def rl_is_empty_def d)
  show "rl_epoch_start rl = sp_epoch \<sigma>" "rl_next_entry_id rl = sp_next \<sigma>"
    by (simp_all add: rl_epoch_start_def rl_next_entry_id_def counters_get[OF p])
  show "ok (rl_changelog_len P rl) (\<lambda>(r, rl'). r = length (sp_changes \<sigma>) \<and> rl_rep rl' \<sigma>)"
    using log_calls(1)[OF p] k by (auto elim!: ok_mono)
  show "ok (rl_current_seq P rl) (\<lambda>(r, rl'). r = sp_seq \<sigma> \<and> rl_rep rl' \<sigma>)"
    using current_seq_ok[OF p] k assms(2) by (auto simp: sp_seq_def elim!: ok_mono)
qed

lemma map_of_snd: "map_of (map (\<lambda>(k, i). (i, h i)) xs) i = (if i \<in> snd ` set xs then Some (h i) else None)"
  by (induction xs) auto

lemma by_id_ok:
  assumes "rl_rep rl \<sigma>"
  shows "ok (rl_get_value_by_id P rl i) (\<lambda>(r, rl'). r = sp_by_id \<sigma> i \<and> rl_rep rl' \<sigma>)"
proof -
  let ?c = "\<lparr>next_entry_id = sp_next \<sigma>, epoch_start = sp_epoch \<sigma>\<rparr>"
  obtain xs ys where p: "parts rl xs ys (sp_changes \<sigma>) ?c" and l: "linked (map_of xs) (map_of ys) (sp_next \<sigma>)"
    and keep: "\<forall>rl'. parts rl' xs ys (sp_changes \<sigma>) ?c \<longrightarrow> rl_rep rl' \<sigma>"
    and e: "entries_of (sp_map \<sigma>) = map (\<lambda>(k, i). (k, i, the (map_of ys i))) xs" and d: "snd ` set xs \<subseteq> dom (map_of ys)"
    by (rule rl_repD[OF assms])
  note k = keep[rule_format]
  have "sp_by_id \<sigma> i = map_of ys i"
  proof (cases "i \<in> snd ` set xs")
    case True
    then show ?thesis
      using d by (auto simp: sp_by_id_def e comp_def case_prod_beta map_of_snd[of "\<lambda>i. the (map_of ys i)", unfolded case_prod_beta])
  next
    case False
    then have "i \<notin> ran (map_of xs)"
      by (auto simp: ran_def image_iff dest!: map_of_SomeD)
    then have "map_of ys i = None"
      using l by (auto simp: linked_def)
    with False show ?thesis
      by (simp add: sp_by_id_def e comp_def case_prod_beta map_of_snd[of "\<lambda>i. the (map_of ys i)", unfolded case_prod_beta])
  qed
  with store_calls(1)[OF p, of i] k show ?thesis
    by (auto simp: rl_get_value_by_id_def elim!: ok_mono)
qed

text \<open>The iterators.\<close>

lemma iters_ok:
  assumes "rl_rep rl \<sigma>"
  shows "ok (next_n (rl_iter_next P) n (rl_iter rl)) (\<lambda>(r, it). r = picks (replicate n Front) (sp_pairs \<sigma>) \<and> rl_rep (end_iter it) \<sigma>)"
    "ok (next_n (rl_iter_next P) n (rl_range rl rg)) (\<lambda>(r, it). r = picks (replicate n Front) (filter (\<lambda>x. range_contains rg (fst x)) (sp_pairs \<sigma>)) \<and> rl_rep (end_iter it) \<sigma>)"
    "ok (next_n (rl_values_next P) n (rl_values rl :: ('a, 'b, 'c, 'd, 'e, 'k) rl_iterator))
      (\<lambda>(r, it). r = picks (replicate n Front) (map snd (sp_pairs \<sigma>)) \<and> rl_rep (end_iter it) \<sigma>)"
    "ok (next_n (keys_next (key_type P) (key_mem P)) n (rl_keys rl)) (\<lambda>(r, it). r = picks (replicate n Front) (map fst (sp_pairs \<sigma>)) \<and> rl_rep (rl\<lparr>key_index := it_map it\<rparr>) \<sigma>)"
proof -
  let ?c = "\<lparr>next_entry_id = sp_next \<sigma>, epoch_start = sp_epoch \<sigma>\<rparr>"
  obtain xs ys where p: "parts rl xs ys (sp_changes \<sigma>) ?c" and keep: "\<forall>rl'. parts rl' xs ys (sp_changes \<sigma>) ?c \<longrightarrow> rl_rep rl' \<sigma>"
    and e: "sp_pairs \<sigma> = map (with_value ys) xs" and d: "snd ` set xs \<subseteq> dom (map_of ys)"
    by (rule rl_repD[OF assms])
  note at = iter_at_start[OF p d] and st = iter_streams(1,2)[of xs ys "sp_changes \<sigma>" ?c] iter_streams(3)[of xs]
  have fin: "rl_rep (end_iter it) \<sigma>" if "iter_at it xs ys (sp_changes \<sigma>) ?c zs" for it zs
    using keep iter_at_end[OF that] by blast
  have n1: "ok (next_n (rl_iter_next P) n it) (\<lambda>(r, it). r = picks (replicate n Front) (map (with_value ys) zs) \<and> rl_rep (end_iter it) \<sigma>)"
    if "iter_at it xs ys (sp_changes \<sigma>) ?c zs" for it zs
    by (rule ok_mono[OF key_stream.next_n_ok[OF st(1), of it "map (with_value ys) zs"]]) (use that fin in auto)
  show "ok (next_n (rl_iter_next P) n (rl_iter rl)) (\<lambda>(r, it). r = picks (replicate n Front) (sp_pairs \<sigma>) \<and> rl_rep (end_iter it) \<sigma>)"
    using n1[OF at(1)] by (simp add: e)
  show "ok (next_n (rl_iter_next P) n (rl_range rl rg)) (\<lambda>(r, it). r = picks (replicate n Front) (filter (\<lambda>x. range_contains rg (fst x)) (sp_pairs \<sigma>)) \<and> rl_rep (end_iter it) \<sigma>)"
    using n1[OF at(2)[of rg]] by (simp add: e filter_map comp_def case_prod_beta)
  show "ok (next_n (rl_values_next P) n (rl_values rl :: ('a, 'b, 'c, 'd, 'e, 'k) rl_iterator))
      (\<lambda>(r, it). r = picks (replicate n Front) (map snd (sp_pairs \<sigma>)) \<and> rl_rep (end_iter it) \<sigma>)"
    by (rule ok_mono[OF key_stream.next_n_ok[OF st(2), of "rl_values rl" "map snd (sp_pairs \<sigma>)"]]) (use at(3) fin e in auto)
  show "ok (next_n (keys_next (key_type P) (key_mem P)) n (rl_keys rl)) (\<lambda>(r, it). r = picks (replicate n Front) (map fst (sp_pairs \<sigma>)) \<and> rl_rep (rl\<lparr>key_index := it_map it\<rparr>) \<sigma>)"
    by (rule ok_mono[OF key_stream.next_n_ok[OF st(3), of "rl_keys rl" "map fst (sp_pairs \<sigma>)"]])
      (use at(4) e keep parts_upd(1)[OF p] in \<open>auto simp: comp_def case_prod_beta dest: scan_rep\<close>)
qed

text \<open>The replication interface.\<close>

lemma collect_ok:
  assumes "parts rl xs ys es c" "\<forall>i \<in> set idxs. i < length es"
  shows "ok (collect_changes P idxs rl acc) (\<lambda>(r, rl'). r = acc @ map ((!) es) idxs \<and> parts rl' xs ys es c)"
  using assms
proof (induction idxs arbitrary: rl acc)
  case (Cons i idxs)
  from log_calls(2)[OF Cons.prems(1), of i] Cons.prems(2) obtain l where
    l: "log_get (change_storable (key_type P)) (index_mem P) (data_mem P) (changelog rl) i = Some (Some (es ! i), l)" "parts (rl\<lparr>changelog := l\<rparr>) xs ys es c"
    by (auto elim!: ok_obtain)
  from Cons.IH[OF l(2), of "acc @ [es ! i]"] Cons.prems(2) l(1) show ?case
    by simp
qed simp

lemma changes_since_ok:
  assumes "rl_rep rl \<sigma>" "sp_seq \<sigma> + l \<le> U64_MAX"
  shows "ok (rl_changes_since P rl s l) (\<lambda>(r, rl'). r = sp_since \<sigma> s l \<and> rl_rep rl' \<sigma>)"
proof (cases "s < sp_epoch \<sigma>")
  case True
  then show ?thesis
    using assms(1) simple_reads_ok(4)[OF assms(1)] assms(2) by (simp add: rl_changes_since_def sp_since_def rl_epoch_start_def)
next
  case False
  let ?c = "\<lparr>next_entry_id = sp_next \<sigma>, epoch_start = sp_epoch \<sigma>\<rparr>" and ?es = "sp_changes \<sigma>" and ?o = "s - sp_epoch \<sigma>"
  obtain xs ys where p: "parts rl xs ys ?es ?c" and keep: "\<forall>rl'. parts rl' xs ys ?es ?c \<longrightarrow> rl_rep rl' \<sigma>"
    by (rule rl_repD[OF assms(1)])
  note k = keep[rule_format]
  have c: "epoch_start (cell_get (rl_counters rl)) = sp_epoch \<sigma>"
    using counters_get[OF p] by simp
  from log_calls(1)[OF p] obtain rl1 where 1: "rl_changelog_len P rl = Some (length ?es, rl1)" "parts rl1 xs ys ?es ?c"
    by (auto elim!: ok_obtain)
  show ?thesis
  proof (cases "length ?es \<le> ?o")
    case True
    moreover have "epoch_start ?c + length ?es \<le> U64_MAX"
      using assms(2) by (simp add: sp_seq_def)
    ultimately show ?thesis
      using current_seq_ok[OF 1(2)] False c 1(1) k by (auto simp: rl_changes_since_def sp_since_def sp_seq_def elim!: ok_mono)
  next
    case o: False
    let ?b = "min (length ?es) (?o + l)"
    have b: "u64_add ?o l = Some (?o + l)"
      using assms(2) o by (simp add: u64_add_def sp_seq_def)
    have m: "map ((!) ?es) [?o..<?b] = take l (drop ?o ?es)"
      using o by (intro nth_equalityI) (auto simp: min_def split: if_splits)
    have "length (take l (drop ?o ?es)) \<le> length ?es - ?o"
      by simp
    then have "s + length (take l (drop ?o ?es)) \<le> U64_MAX"
      using assms(2) o False unfolding sp_seq_def by linarith
    moreover have "\<not> sp_seq \<sigma> \<le> s"
      using o False by (simp add: sp_seq_def)
    ultimately show ?thesis
      using collect_ok[OF 1(2), of "[?o..<?b]" "[]"] b m o False c 1(1) k
      by (auto simp: rl_changes_since_def sp_since_def Let_def simp del: length_take elim!: ok_mono)
  qed
qed

lemma attach_ok: "rl_rep rl \<sigma> \<Longrightarrow> ok (attach_values P rl es) (\<lambda>(r, rl'). r = map (sp_valued \<sigma>) es \<and> rl_rep rl' \<sigma>)"
proof (induction es arbitrary: rl)
  case (Cons e es)
  have "ok (if is_upsert e then rl_get P rl (ce_key e) else Some (None, rl)) (\<lambda>(v, rl'). (e, v) = sp_valued \<sigma> e \<and> rl_rep rl' \<sigma>)"
    using get_ok[OF Cons.prems, of "ce_key e"] Cons.prems by (auto simp: sp_valued_def elim!: ok_mono)
  then obtain v rl1 where 1: "(if is_upsert e then rl_get P rl (ce_key e) else Some (None, rl)) = Some (v, rl1)" "(e, v) = sp_valued \<sigma> e" "rl_rep rl1 \<sigma>"
    by (auto elim!: ok_obtain)
  from Cons.IH[OF 1(3)] show ?case
    unfolding attach_values.simps 1(1) using 1(2) by (auto elim!: ok_mono)
qed simp

lemma changes_with_values_ok:
  assumes "rl_rep rl \<sigma>" "sp_seq \<sigma> + l \<le> U64_MAX"
  shows "ok (rl_changes_with_values_since P rl s l) (\<lambda>(r, rl'). r = map_option (apfst (map (sp_valued \<sigma>))) (sp_since \<sigma> s l) \<and> rl_rep rl' \<sigma>)"
proof -
  from changes_since_ok[OF assms] obtain rl1 where 1: "rl_changes_since P rl s l = Some (sp_since \<sigma> s l, rl1)" "rl_rep rl1 \<sigma>"
    by (auto elim!: ok_obtain)
  show ?thesis
  proof (cases "sp_since \<sigma> s l")
    case None
    then show ?thesis
      using 1 by (simp add: rl_changes_with_values_since_def)
  next
    case (Some x)
    then show ?thesis
      using 1 attach_ok[OF 1(2), of "fst x"] by (cases x) (auto simp: rl_changes_with_values_since_def elim!: ok_mono)
  qed
qed

lemma snapshot_page_ok:
  assumes "rl_rep rl \<sigma>" "sp_seq \<sigma> \<le> U64_MAX" "l * entry_size P \<le> ISIZE_MAX"
  shows "ok (rl_snapshot_page P rl a l) (\<lambda>(r, s, rl'). r = sp_page \<sigma> a l \<and> s = sp_seq \<sigma> \<and> rl_rep rl' \<sigma>)"
proof -
  let ?c = "\<lparr>next_entry_id = sp_next \<sigma>, epoch_start = sp_epoch \<sigma>\<rparr>"
  obtain xs ys where p: "parts rl xs ys (sp_changes \<sigma>) ?c" and keep: "\<forall>rl'. parts rl' xs ys (sp_changes \<sigma>) ?c \<longrightarrow> rl_rep rl' \<sigma>"
    and e: "entries_of (sp_map \<sigma>) = map (\<lambda>(k, i). (k, i, the (map_of ys i))) xs" and d: "snd ` set xs \<subseteq> dom (map_of ys)"
    by (rule rl_repD[OF assms(1)])
  note at = iter_at_start[OF p d]
  let ?it = "case a of Some k \<Rightarrow> rl_range rl (Excluded k, NoBound) | None \<Rightarrow> rl_iter rl"
  let ?zs = "filter (\<lambda>x. case a of None \<Rightarrow> True | Some a \<Rightarrow> a < fst x) xs"
  have "iter_at ?it xs ys (sp_changes \<sigma>) ?c ?zs"
    using at(1) at(2)[of "(Excluded _, NoBound)"] by (cases a) (auto simp: range_contains_def)
  from snapshot_loop_ok[OF this, of l] obtain it zs' where
    1: "snapshot_loop P l ?it = Some (map (\<lambda>(k, i). (i, k, the (map_of ys i))) (take l ?zs), it)" "iter_at it xs ys (sp_changes \<sigma>) ?c zs'"
    by (auto elim!: ok_obtain)
  have "rl_rep (end_iter it) \<sigma>"
    using keep iter_at_end[OF 1(2)] by blast
  moreover have "map (\<lambda>(k, i). (i, k, the (map_of ys i))) (take l ?zs) = sp_page \<sigma> a l"
    by (cases a) (simp_all add: sp_page_def e filter_map take_map comp_def case_prod_beta)
  ultimately show ?thesis
    using 1(1) simple_reads_ok(7)[of "end_iter it" \<sigma>] assms(2,3) unfolding rl_snapshot_page_def by (auto elim!: ok_mono)
qed

lemma snapshot_page_large: "ISIZE_MAX < l * entry_size P \<Longrightarrow> rl_snapshot_page P rl a l = None"
  by (simp add: rl_snapshot_page_def assert_that_def)

text \<open>Clearing, compaction and reopening.\<close>

lemma clear_ok:
  assumes "rl_rep rl \<sigma>" "sp_seq \<sigma> < U64_MAX"
  shows "ok (rl_clear P rl) (\<lambda>rl'. rl_rep rl' (sp_clear \<sigma>))"
proof -
  let ?c = "\<lparr>next_entry_id = sp_next \<sigma>, epoch_start = sp_epoch \<sigma>\<rparr>" and ?es = "sp_changes \<sigma>"
  obtain xs ys where p: "parts rl xs ys ?es ?c"
    by (rule rl_repD[OF assms(1)])
  have "epoch_start ?c + length ?es \<le> U64_MAX"
    using assms(2) by (simp add: sp_seq_def)
  from current_seq_ok[OF p this] obtain rl1 where 1: "rl_current_seq P rl = Some (sp_seq \<sigma>, rl1)" "parts rl1 xs ys ?es ?c"
    by (auto simp: sp_seq_def elim!: ok_obtain)
  from rep_clear_new[OF partsD(1)[OF 1(2)]] rep_clear_new[OF partsD(2)[OF 1(2)]] obtain ki vs where
    2: "btree_clear_new (key_mem P) (key_index rl1) = Some ki" "btree_clear_new (value_mem P) (value_store rl1) = Some vs"
      "parts (rl1\<lparr>key_index := ki, value_store := vs\<rparr>) [] [] ?es ?c"
    using parts_upd(2)[OF parts_upd(1)[OF 1(2)]] by (auto elim!: ok_obtain)
  from log_calls(3)[OF 2(3)] obtain l where 3: "log_clear (index_mem P) (changelog rl1) = Some l"
    "parts (rl1\<lparr>key_index := ki, value_store := vs, changelog := l\<rparr>) [] [] [] ?c"
    by (auto elim!: ok_obtain)
  have b: "epoch_start \<lparr>next_entry_id = sp_next \<sigma>, epoch_start = sp_seq \<sigma> + 1\<rparr> \<le> U64_MAX" "u64_add (sp_seq \<sigma>) 1 = Some (sp_seq \<sigma> + 1)"
    using assms(2) by (simp_all add: u64_add_def)
  have "rl_rep rl' (sp_clear \<sigma>)" if "parts rl' [] [] [] \<lparr>next_entry_id = sp_next \<sigma>, epoch_start = sp_seq \<sigma> + 1\<rparr>" for rl'
    using that by (auto simp: rl_rep_def sp_clear_def linked_def join_def[abs_def] intro!: exI[of _ "[]"])
  then show ?thesis
    using set_counters_ok[OF 3(2) b(1)] b(2) 1(1) 2(1,2) 3(1) by (auto simp: rl_clear_def counters_get[OF 1(2)] elim!: ok_mono)
qed

lemma compact_ok:
  assumes "rl_rep rl \<sigma>" "sp_seq \<sigma> \<le> U64_MAX"
  shows "ok (rl_compact P rl) (\<lambda>rl'. rl_rep rl' (sp_compact \<sigma>))"
proof -
  let ?c = "\<lparr>next_entry_id = sp_next \<sigma>, epoch_start = sp_epoch \<sigma>\<rparr>" and ?es = "sp_changes \<sigma>"
  obtain xs ys where p: "parts rl xs ys ?es ?c" and l: "linked (map_of xs) (map_of ys) (sp_next \<sigma>)" and j: "sp_map \<sigma> = join (map_of xs) (map_of ys)"
    by (rule rl_repD[OF assms(1)])
  have "epoch_start ?c + length ?es \<le> U64_MAX" "epoch_start \<lparr>next_entry_id = sp_next \<sigma>, epoch_start = sp_seq \<sigma>\<rparr> \<le> U64_MAX"
    using assms(2) by (simp_all add: sp_seq_def)
  note b = this
  from current_seq_ok[OF p b(1)] obtain rl1 where 1: "rl_current_seq P rl = Some (sp_seq \<sigma>, rl1)" "parts rl1 xs ys ?es ?c"
    by (auto simp: sp_seq_def elim!: ok_obtain)
  from log_calls(3)[OF 1(2)] obtain l' where 2: "log_clear (index_mem P) (changelog rl1) = Some l'" "parts (rl1\<lparr>changelog := l'\<rparr>) xs ys [] ?c"
    by (auto elim!: ok_obtain)
  have "rl_rep rl' (sp_compact \<sigma>)" if "parts rl' xs ys [] \<lparr>next_entry_id = sp_next \<sigma>, epoch_start = sp_seq \<sigma>\<rparr>" for rl'
    using that l j by (auto simp: rl_rep_def sp_compact_def)
  then show ?thesis
    using set_counters_ok[OF 2(2) b(2)] 1(1) 2(1) by (auto simp: rl_compact_def counters_get[OF 1(2)] Let_def elim!: ok_mono)
qed

text \<open>\<open>init\<close> on the memories of a map, and on new ones.\<close>

abbreviation reopen :: "('a, 'b, 'c, 'd, 'e) rep_log_map \<Rightarrow> ('a, 'b, 'c, 'd, 'e) rep_log_map option" where
  "reopen rl \<equiv> rl_init P (btree_into_memory (key_index rl)) (btree_into_memory (value_store rl)) (index_memory (changelog rl)) (data_memory (changelog rl))
     (cell_into_memory (rl_counters rl))"

lemma reopen_ok:
  assumes "rl_rep rl \<sigma>"
  shows "ok (reopen rl) (\<lambda>rl'. rl_rep rl' \<sigma>)"
proof -
  let ?c = "\<lparr>next_entry_id = sp_next \<sigma>, epoch_start = sp_epoch \<sigma>\<rparr>"
  obtain xs ys where p: "parts rl xs ys (sp_changes \<sigma>) ?c" and keep: "\<forall>rl'. parts rl' xs ys (sp_changes \<sigma>) ?c \<longrightarrow> rl_rep rl' \<sigma>"
    by (rule rl_repD[OF assms])
  have "ok (cell_init counters_storable (counter_mem P) (cell_into_memory (rl_counters rl)) default_counters) (\<lambda>cl. cell_at cl ?c)"
    using stable_cell.reopen_cell_ok[OF counter_cell, of "cell_memory (rl_counters rl)" ?c default_counters] partsD(4)[OF p]
    by (auto simp: cell_at_def cell_into_memory_def elim!: ok_mono)
  then show ?thesis
    using rep_init[OF partsD(1)[OF p]] rep_init[OF partsD(2)[OF p]] log_calls(4)[OF p] keep
    by (fastforce simp: rl_init_def parts_def elim!: ok_obtain)
qed

lemma init_ok:
  assumes s: "inv1 a" "inv2 b" "inv3 c" "inv4 d" "inv5 e" and z: "con1 a = []" "con2 b = []" "con4 d = []" "con5 e = []"
    and K: "new_page_size (key_type P) u64_storable = Some (PageValue kz)" "128 \<le> kz" "kz \<le> U32_MAX" "btree_bytes kz kb 8 C \<le> cap1 a * WASM_PAGE_SIZE"
    and V: "new_page_size u64_storable (value_type P) = Some (PageValue vz)" "128 \<le> vz" "vz \<le> U32_MAX" "btree_bytes vz 8 vb C \<le> cap2 b * WASM_PAGE_SIZE"
    and L: "cap3 c = IC" "cap4 d = DC" "0 < IC" "0 < DC" and E: "0 < cap5 e"
  shows "ok (rl_init P a b c d e) (\<lambda>rl. rl_rep rl sp_new)"
proof -
  have sz: "size_op (key_mem P) a = Some 0" "size_op (value_mem P) b = Some 0" "size_op (data_mem P) d = Some 0" "size_op (counter_mem P) e = Some 0"
    using memory.size_law[OF memories(1) s(1)] memory.size_law[OF memories(2) s(2)] memory.size_law[OF memories(4) s(4)] memory.size_law[OF memories(5) s(5)] z by simp_all
  have "to_bytes counters_storable default_counters = Some (to_le_bytes 8 0 @ to_le_bytes 8 0)" "counters_valid default_counters"
    by (simp_all add: counters_storable_def counters_to_bytes_def default_counters_def counters_valid_def del: to_le_bytes.simps)
  from stable_cell.new_cell_ok[OF counter_cell s(5) this(2,1)] E
  have "ok (cell_new counters_storable (counter_mem P) e default_counters) (\<lambda>cl. cell_at cl default_counters)"
    by (auto simp: cell_at_def simp del: to_le_bytes.simps elim!: ok_mono)
  moreover have "ok (log_new (index_mem P) (data_mem P) c d) (\<lambda>l. log_at l [])"
    using stable_log.new_log_ok[OF change_log s(3,4)] L by (auto simp: log_at_def log_items_def intro!: exI[of _ "[]"] elim!: ok_mono)
  moreover have "rl_rep rl sp_new" if "parts rl [] [] [] default_counters" for rl
    using that by (auto simp: rl_rep_def sp_new_def default_counters_def linked_def join_def[abs_def] intro!: exI[of _ "[]"])
  ultimately show ?thesis
    using new_rep[OF memories(1) types(1) s(1) K] new_rep[OF memories(2) types(2) s(2) V] sz
    by (fastforce simp: rl_init_def btree_init_def log_init_def cell_init_def parts_def elim!: ok_obtain)
qed

end

end
