(* ===== verification/Rep_Log_Run.thy ===== *)
theory Rep_Log_Run
  imports Rep_Log_Client "HOL-Library.List_Lexorder"
begin

text \<open>
  Clients of \<open>RepLogMap\<close>: lists of commands, what they answer on the map in memory and on its specification, and the properties of such runs.
\<close>

section \<open>Commands\<close>

datatype ('k, 'v) rl_cmd = RlInsert 'k 'v | RlTryInsert 'k 'v | RlRemove 'k | RlTryRemove 'k | RlGet 'k | RlContains 'k | RlLen | RlIsEmpty
  | RlFirst | RlLast | RlIter nat | RlRange "'k key_range" nat | RlKeys nat | RlValues nat | RlById "64 word" | RlLogLen | RlEpoch | RlNextId | RlSeq
  | RlChanges nat nat | RlChangesValues nat nat | RlPage "'k option" nat | RlClear | RlCompact | RlReopen

datatype ('k, 'v) rl_reply = RVal "'v option" | RTried "rep_log_error + 'v option" | RFlag bool | RNum nat | RId "64 word" | RPair "('k \<times> 'v) option"
  | RPairs "('k \<times> 'v) option list" | RKeys "'k option list" | RVals "'v option list" | RChanges "('k change_entry list \<times> nat) option"
  | RChangesV "(('k change_entry \<times> 'v option) list \<times> nat) option" | RPage "(64 word \<times> 'k \<times> 'v) list" nat | RDone

fun rl_step ::
  "('k::linorder, 'v, 'a, 'b, 'c, 'd, 'e) replog_types \<Rightarrow> ('a, 'b, 'c, 'd, 'e) rep_log_map \<Rightarrow> ('k, 'v) rl_cmd \<Rightarrow>
   (('k, 'v) rl_reply \<times> ('a, 'b, 'c, 'd, 'e) rep_log_map) option" where
  "rl_step P rl (RlInsert k v) = do { (r, rl) \<leftarrow> rl_insert P rl k v; Some (RVal r, rl) }"
| "rl_step P rl (RlTryInsert k v) = do { (r, rl) \<leftarrow> rl_try_insert P rl k v; Some (RTried r, rl) }"
| "rl_step P rl (RlRemove k) = do { (r, rl) \<leftarrow> rl_remove P rl k; Some (RVal r, rl) }"
| "rl_step P rl (RlTryRemove k) = do { (r, rl) \<leftarrow> rl_try_remove P rl k; Some (RTried r, rl) }"
| "rl_step P rl (RlGet k) = do { (r, rl) \<leftarrow> rl_get P rl k; Some (RVal r, rl) }"
| "rl_step P rl (RlContains k) = do { (r, rl) \<leftarrow> rl_contains_key P rl k; Some (RFlag r, rl) }"
| "rl_step P rl RlLen = Some (RNum (rl_len rl), rl)"
| "rl_step P rl RlIsEmpty = Some (RFlag (rl_is_empty rl), rl)"
| "rl_step P rl RlFirst = do { (r, rl) \<leftarrow> rl_first_key_value P rl; Some (RPair r, rl) }"
| "rl_step P rl RlLast = do { (r, rl) \<leftarrow> rl_last_key_value P rl; Some (RPair r, rl) }"
| "rl_step P rl (RlIter n) = do { (r, it) \<leftarrow> next_n (rl_iter_next P) n (rl_iter rl); Some (RPairs r, end_iter it) }"
| "rl_step P rl (RlRange rg n) = do { (r, it) \<leftarrow> next_n (rl_iter_next P) n (rl_range rl rg); Some (RPairs r, end_iter it) }"
| "rl_step P rl (RlKeys n) = do {
     (r, it) \<leftarrow> next_n (keys_next (key_type P) (key_mem P)) n (rl_keys rl);
     Some (RKeys r, rl\<lparr>key_index := it_map it\<rparr>) }"
| "rl_step P rl (RlValues n) = do { (r, it) \<leftarrow> next_n (rl_values_next P) n (rl_values rl); Some (RVals r, end_iter it) }"
| "rl_step P rl (RlById i) = do { (r, rl) \<leftarrow> rl_get_value_by_id P rl i; Some (RVal r, rl) }"
| "rl_step P rl RlLogLen = do { (r, rl) \<leftarrow> rl_changelog_len P rl; Some (RNum r, rl) }"
| "rl_step P rl RlEpoch = Some (RNum (rl_epoch_start rl), rl)"
| "rl_step P rl RlNextId = Some (RId (rl_next_entry_id rl), rl)"
| "rl_step P rl RlSeq = do { (r, rl) \<leftarrow> rl_current_seq P rl; Some (RNum r, rl) }"
| "rl_step P rl (RlChanges s l) = do { (r, rl) \<leftarrow> rl_changes_since P rl s l; Some (RChanges r, rl) }"
| "rl_step P rl (RlChangesValues s l) = do { (r, rl) \<leftarrow> rl_changes_with_values_since P rl s l; Some (RChangesV r, rl) }"
| "rl_step P rl (RlPage a l) = do { (r, s, rl) \<leftarrow> rl_snapshot_page P rl a l; Some (RPage r s, rl) }"
| "rl_step P rl RlClear = do { rl \<leftarrow> rl_clear P rl; Some (RDone, rl) }"
| "rl_step P rl RlCompact = do { rl \<leftarrow> rl_compact P rl; Some (RDone, rl) }"
| "rl_step P rl RlReopen = do {
     rl \<leftarrow> rl_init P (btree_into_memory (key_index rl)) (btree_into_memory (value_store rl)) (index_memory (changelog rl)) (data_memory (changelog rl))
       (cell_into_memory (rl_counters rl));
     Some (RDone, rl) }"

fun rl_run ::
  "('k::linorder, 'v, 'a, 'b, 'c, 'd, 'e) replog_types \<Rightarrow> ('a, 'b, 'c, 'd, 'e) rep_log_map \<Rightarrow> ('k, 'v) rl_cmd list \<Rightarrow>
   (('k, 'v) rl_reply list \<times> ('a, 'b, 'c, 'd, 'e) rep_log_map) option" where
  "rl_run P rl [] = Some ([], rl)"
| "rl_run P rl (c # cs) = do { (r, rl) \<leftarrow> rl_step P rl c; (rs, rl) \<leftarrow> rl_run P rl cs; Some (r # rs, rl) }"

fun sp_step :: "('k::linorder, 'v) rl_spec \<Rightarrow> ('k, 'v) rl_cmd \<Rightarrow> ('k, 'v) rl_reply \<times> ('k, 'v) rl_spec" where
  "sp_step \<sigma> (RlInsert k v) = apfst RVal (sp_insert k v \<sigma>)"
| "sp_step \<sigma> (RlTryInsert k v) = apfst (RTried \<circ> Inr) (sp_insert k v \<sigma>)"
| "sp_step \<sigma> (RlRemove k) = apfst RVal (sp_remove k \<sigma>)"
| "sp_step \<sigma> (RlTryRemove k) = apfst (RTried \<circ> Inr) (sp_remove k \<sigma>)"
| "sp_step \<sigma> (RlGet k) = (RVal (sp_get \<sigma> k), \<sigma>)"
| "sp_step \<sigma> (RlContains k) = (RFlag (k \<in> dom (sp_map \<sigma>)), \<sigma>)"
| "sp_step \<sigma> RlLen = (RNum (card (dom (sp_map \<sigma>))), \<sigma>)"
| "sp_step \<sigma> RlIsEmpty = (RFlag (dom (sp_map \<sigma>) = {}), \<sigma>)"
| "sp_step \<sigma> RlFirst = (RPair (pick Front (sp_pairs \<sigma>)), \<sigma>)"
| "sp_step \<sigma> RlLast = (RPair (pick Back (sp_pairs \<sigma>)), \<sigma>)"
| "sp_step \<sigma> (RlIter n) = (RPairs (picks (replicate n Front) (sp_pairs \<sigma>)), \<sigma>)"
| "sp_step \<sigma> (RlRange rg n) = (RPairs (picks (replicate n Front) (filter (\<lambda>x. range_contains rg (fst x)) (sp_pairs \<sigma>))), \<sigma>)"
| "sp_step \<sigma> (RlKeys n) = (RKeys (picks (replicate n Front) (map fst (sp_pairs \<sigma>))), \<sigma>)"
| "sp_step \<sigma> (RlValues n) = (RVals (picks (replicate n Front) (map snd (sp_pairs \<sigma>))), \<sigma>)"
| "sp_step \<sigma> (RlById i) = (RVal (sp_by_id \<sigma> i), \<sigma>)"
| "sp_step \<sigma> RlLogLen = (RNum (length (sp_changes \<sigma>)), \<sigma>)"
| "sp_step \<sigma> RlEpoch = (RNum (sp_epoch \<sigma>), \<sigma>)"
| "sp_step \<sigma> RlNextId = (RId (sp_next \<sigma>), \<sigma>)"
| "sp_step \<sigma> RlSeq = (RNum (sp_seq \<sigma>), \<sigma>)"
| "sp_step \<sigma> (RlChanges s l) = (RChanges (sp_since \<sigma> s l), \<sigma>)"
| "sp_step \<sigma> (RlChangesValues s l) = (RChangesV (map_option (apfst (map (sp_valued \<sigma>))) (sp_since \<sigma> s l)), \<sigma>)"
| "sp_step \<sigma> (RlPage a l) = (RPage (sp_page \<sigma> a l) (sp_seq \<sigma>), \<sigma>)"
| "sp_step \<sigma> RlClear = (RDone, sp_clear \<sigma>)"
| "sp_step \<sigma> RlCompact = (RDone, sp_compact \<sigma>)"
| "sp_step \<sigma> RlReopen = (RDone, \<sigma>)"

fun sp_run :: "('k::linorder, 'v) rl_spec \<Rightarrow> ('k, 'v) rl_cmd list \<Rightarrow> ('k, 'v) rl_reply list \<times> ('k, 'v) rl_spec" where
  "sp_run \<sigma> [] = ([], \<sigma>)"
| "sp_run \<sigma> (c # cs) = (let (r, \<sigma>') = sp_step \<sigma> c; (rs, \<sigma>'') = sp_run \<sigma>' cs in (r # rs, \<sigma>''))"

text \<open>The commands that append to the log, and what the arguments of a command have to be: keys and values of their types, and a limit that does not
  make \<open>changes_since\<close> overflow.\<close>

fun appends :: "('k, 'v) rl_cmd \<Rightarrow> bool" where
  "appends (RlInsert k v) = True"
| "appends (RlTryInsert k v) = True"
| "appends (RlRemove k) = True"
| "appends (RlTryRemove k) = True"
| "appends c = False"

fun rl_cmd_valid :: "('k, 'v, 'a, 'b, 'c, 'd, 'e) replog_types \<Rightarrow> ('k \<Rightarrow> bool) \<Rightarrow> ('v \<Rightarrow> bool) \<Rightarrow> nat \<Rightarrow> ('k, 'v) rl_cmd \<Rightarrow> bool" where
  "rl_cmd_valid P vk vv n (RlInsert k v) \<longleftrightarrow> vk k \<and> vv v"
| "rl_cmd_valid P vk vv n (RlTryInsert k v) \<longleftrightarrow> vk k \<and> vv v"
| "rl_cmd_valid P vk vv n (RlRemove k) \<longleftrightarrow> vk k"
| "rl_cmd_valid P vk vv n (RlTryRemove k) \<longleftrightarrow> vk k"
| "rl_cmd_valid P vk vv n (RlChanges s l) \<longleftrightarrow> n + l \<le> U64_MAX"
| "rl_cmd_valid P vk vv n (RlChangesValues s l) \<longleftrightarrow> n + l \<le> U64_MAX"
| "rl_cmd_valid P vk vv n (RlPage a l) \<longleftrightarrow> l * entry_size P \<le> ISIZE_MAX"
| "rl_cmd_valid P vk vv n c \<longleftrightarrow> True"

text \<open>A command adds at most one to every size.\<close>

lemma card_insert_Suc: "card (insert x A) \<le> Suc (card A)"
  by (cases "finite A") (simp_all add: card_insert_if)

lemma unat_succ: "unat (w + 1 :: 64 word) \<le> Suc (unat w)"
  by (simp add: unat_word_ariths)

lemma fits_changes:
  assumes "fits n \<sigma>"
  shows "fits (Suc n) (snd (sp_insert k v \<sigma>))" "fits (Suc n) (snd (sp_remove k \<sigma>))"
proof -
  have "card (insert k (dom (sp_map \<sigma>))) \<le> Suc n" "unat (sp_next \<sigma> + 1) \<le> Suc n" "card (dom (sp_map \<sigma>) - {k}) \<le> Suc n"
    using assms card_insert_Suc[of k "dom (sp_map \<sigma>)"] unat_succ[of "sp_next \<sigma>"] card_Diff1_le[of "dom (sp_map \<sigma>)" k] by (auto simp: fits_def)
  then show "fits (Suc n) (snd (sp_insert k v \<sigma>))" "fits (Suc n) (snd (sp_remove k \<sigma>))"
    using assms by (auto simp: fits_def sp_insert_def sp_remove_def log_change_def sp_seq_def split: option.splits)
qed

lemma fits_step: "fits n \<sigma> \<Longrightarrow> fits (Suc n) (snd (sp_step \<sigma> c))"
  by (cases c) (auto simp: fits_changes, auto simp: fits_def sp_clear_def sp_compact_def sp_seq_def)

context replog
begin

lemma step_ok:
  assumes rep: "rl_rep rl \<sigma>" and f: "fits n \<sigma>" and r: "tree_room n" "appends c \<longrightarrow> log_room (Suc n)" and c: "rl_cmd_valid P vk vv n c"
  shows "ok (rl_step P rl c) (\<lambda>(r, rl'). r = fst (sp_step \<sigma> c) \<and> rl_rep rl' (snd (sp_step \<sigma> c)))"
proof -
  have s: "sp_seq \<sigma> \<le> n" "sp_seq \<sigma> < U64_MAX"
    using f r(1) by (auto simp: fits_def tree_room_def)
  then have s': "sp_seq \<sigma> \<le> U64_MAX"
    by simp
  have w: "room n" if "appends c"
    using r that by (simp add: room_def)
  note ins = insert_ok[OF rep f] and rem = remove_ok[OF rep f]
  have tried: "ok (rl_try_insert P rl k v) (\<lambda>(r, rl'). r = Inr (fst (sp_insert k v \<sigma>)) \<and> rl_rep rl' (snd (sp_insert k v \<sigma>)))"
    if "room n" "vk k" "vv v" for k v
    using ins[OF that] by (auto dest!: try_insert_ok elim!: ok_obtain)
  have tried2: "ok (rl_try_remove P rl k) (\<lambda>(r, rl'). r = Inr (fst (sp_remove k \<sigma>)) \<and> rl_rep rl' (snd (sp_remove k \<sigma>)))"
    if "room n" "vk k" for k
    using rem[OF that] by (auto dest!: try_remove_ok elim!: ok_obtain)
  note reads = simple_reads_ok[OF rep s']
  show ?thesis
  proof (cases c)
    case (RlInsert k v)
    then show ?thesis
      using ins[of k v] w c by (auto simp: elim!: ok_mono)
  next
    case (RlTryInsert k v)
    then show ?thesis
      using tried[of k v] w c by (auto elim!: ok_mono)
  next
    case (RlRemove k)
    then show ?thesis
      using rem[of k] w c by (auto elim!: ok_mono)
  next
    case (RlTryRemove k)
    then show ?thesis
      using tried2[of k] w c by (auto elim!: ok_mono)
  next
    case (RlGet k)
    then show ?thesis
      using get_ok[OF rep, of k] by (auto elim!: ok_mono)
  next
    case (RlContains k)
    then show ?thesis
      using reads(1)[of k] by (auto elim!: ok_mono)
  next
    case RlFirst
    then show ?thesis
      using ends_ok(1)[OF rep] by (auto elim!: ok_mono)
  next
    case RlLast
    then show ?thesis
      using ends_ok(2)[OF rep] by (auto elim!: ok_mono)
  next
    case (RlIter m)
    then show ?thesis
      using iters_ok(1)[OF rep, of m] by (auto elim!: ok_mono)
  next
    case (RlRange rg m)
    then show ?thesis
      using iters_ok(2)[OF rep, of m rg] by (auto elim!: ok_mono)
  next
    case (RlKeys m)
    then show ?thesis
      using iters_ok(4)[OF rep, of m] by (auto elim!: ok_mono)
  next
    case (RlValues m)
    then show ?thesis
      using iters_ok(3)[OF rep, of m] by (auto elim!: ok_mono)
  next
    case (RlById i)
    then show ?thesis
      using by_id_ok[OF rep, of i] by (auto elim!: ok_mono)
  next
    case (RlChanges t l)
    then show ?thesis
      using changes_since_ok[OF rep, of l t] s(1) c by (auto elim!: ok_mono)
  next
    case (RlChangesValues t l)
    then show ?thesis
      using changes_with_values_ok[OF rep, of l t] s(1) c by (auto elim!: ok_mono)
  next
    case (RlPage a l)
    then show ?thesis
      using snapshot_page_ok[OF rep s', of l a] c by (auto elim!: ok_mono)
  next
    case RlClear
    then show ?thesis
      using clear_ok[OF rep s(2)] by (auto elim!: ok_mono)
  next
    case RlCompact
    then show ?thesis
      using compact_ok[OF rep s'] by (auto elim!: ok_mono)
  next
    case RlReopen
    then show ?thesis
      using reopen_ok[OF rep] by (auto elim!: ok_mono)
  qed (use reads rep in \<open>auto elim!: ok_mono\<close>)
qed

lemma cmd_valid_le: "rl_cmd_valid P vk vv n c \<Longrightarrow> m \<le> n \<Longrightarrow> rl_cmd_valid P vk vv m c"
  by (cases c) auto

lemma run_ok:
  assumes "rl_rep rl \<sigma>" "fits n \<sigma>" "n + length cs \<le> N" "tree_room N" "list_all (rl_cmd_valid P vk vv N) cs" "list_ex appends cs \<longrightarrow> log_room N"
  shows "ok (rl_run P rl cs) (\<lambda>(rs, rl'). rs = fst (sp_run \<sigma> cs) \<and> rl_rep rl' (snd (sp_run \<sigma> cs)) \<and> fits (n + length cs) (snd (sp_run \<sigma> cs)))"
  using assms
proof (induction cs arbitrary: rl \<sigma> n)
  case (Cons c cs)
  have n: "n \<le> N" "Suc n \<le> N"
    using Cons.prems(3) by simp_all
  have "appends c \<longrightarrow> log_room (Suc n)"
    using Cons.prems(6) n(2) room_le(1) by auto
  with step_ok[OF Cons.prems(1,2) room_le(2)[OF Cons.prems(4) n(1)], of c] Cons.prems(5) cmd_valid_le[OF _ n(1)]
  obtain rl1 where 1: "rl_step P rl c = Some (fst (sp_step \<sigma> c), rl1)" "rl_rep rl1 (snd (sp_step \<sigma> c))"
    by (auto elim!: ok_obtain)
  have "list_ex appends cs \<longrightarrow> log_room N" "list_all (rl_cmd_valid P vk vv N) cs" "Suc n + length cs \<le> N"
    using Cons.prems(3,5,6) by auto
  from Cons.IH[OF 1(2) fits_step[OF Cons.prems(2)] this(3) Cons.prems(4) this(2,1)] show ?case
    using 1(1) by (auto simp: Let_def case_prod_beta elim!: ok_mono)
qed auto

end

lemma sp_run_append: "sp_run \<sigma> (cs @ cs') = (let (rs, \<sigma>') = sp_run \<sigma> cs; (rs', \<sigma>'') = sp_run \<sigma>' cs' in (rs @ rs', \<sigma>''))"
  by (induction cs arbitrary: \<sigma>) (auto simp: Let_def split: prod.splits)

section \<open>Clients\<close>

text \<open>The contract of a memory: its invariant, its contents and the pages it can have.\<close>

type_synonym 's contract = "('s \<Rightarrow> bool) \<times> ('s \<Rightarrow> bytes) \<times> ('s \<Rightarrow> nat)"

text \<open>Five new memories, with room for \<open>N\<close> entries in the B-trees and \<open>L\<close> changes in the log.\<close>

fun rl_client ::
  "('k::linorder, 'v, 'a, 'b, 'c, 'd, 'e) replog_types \<Rightarrow> 'a contract \<times> 'b contract \<times> 'c contract \<times> 'd contract \<times> 'e contract \<Rightarrow>
   ('k \<Rightarrow> bool) \<Rightarrow> ('v \<Rightarrow> bool) \<Rightarrow> nat \<Rightarrow> nat \<Rightarrow> 'a \<times> 'b \<times> 'c \<times> 'd \<times> 'e \<Rightarrow> nat \<Rightarrow> nat \<Rightarrow> bool" where
  "rl_client P ((i1, c1, p1), (i2, c2, p2), (i3, c3, p3), (i4, c4, p4), (i5, c5, p5)) vk vv kb vb (a, b, c, d, e) N L \<longleftrightarrow>
     replog P i1 c1 p1 i2 c2 p2 i3 c3 p3 i4 c4 p4 i5 c5 p5 vk vv kb vb \<and>
     i1 a \<and> i2 b \<and> i3 c \<and> i4 d \<and> i5 e \<and> c1 a = [] \<and> c2 b = [] \<and> c4 d = [] \<and> c5 e = [] \<and>
     (\<exists>kz. new_page_size (key_type P) u64_storable = Some (PageValue kz) \<and> 128 \<le> kz \<and> kz \<le> U32_MAX \<and>
        btree_bytes kz kb 8 (2 * (N div 5) + 4) \<le> p1 a * WASM_PAGE_SIZE) \<and>
     (\<exists>vz. new_page_size u64_storable (value_type P) = Some (PageValue vz) \<and> 128 \<le> vz \<and> vz \<le> U32_MAX \<and>
        btree_bytes vz 8 vb (2 * (N div 5) + 4) \<le> p2 b * WASM_PAGE_SIZE) \<and>
     32 + L * (9 + kb) \<le> p4 d * WASM_PAGE_SIZE \<and> 40 + 8 * L \<le> p3 c * WASM_PAGE_SIZE \<and> 0 < p5 e \<and> L \<le> N \<and> N < U64_MAX"

text \<open>A client makes a map on the five memories and runs its commands.\<close>

definition rl_program ::
  "('k::linorder, 'v, 'a, 'b, 'c, 'd, 'e) replog_types \<Rightarrow> 'a \<times> 'b \<times> 'c \<times> 'd \<times> 'e \<Rightarrow> ('k, 'v) rl_cmd list \<Rightarrow>
   (('k, 'v) rl_reply list \<times> ('a, 'b, 'c, 'd, 'e) rep_log_map) option" where
  "rl_program P s cs = do { rl \<leftarrow> (case s of (a, b, c, d, e) \<Rightarrow> rl_init P a b c d e); rl_run P rl cs }"

lemma fits_new: "fits 0 sp_new"
  by (simp add: fits_def sp_new_def sp_seq_def)

lemma program_ok:
  assumes "rl_client P ((i1, c1, p1), (i2, c2, p2), (i3, c3, p3), (i4, c4, p4), (i5, c5, p5)) vk vv kb vb (a, b, c, d, e) N L"
    and "length cs \<le> L" "list_all (rl_cmd_valid P vk vv L) cs"
  defines "C \<equiv> 2 * (N div 5) + 4"
  shows "ok (rl_program P (a, b, c, d, e) cs) (\<lambda>(rs, rl). rs = fst (sp_run sp_new cs) \<and>
    replog.rl_rep P i1 c1 p1 i2 c2 p2 i3 c3 p3 i4 c4 p4 i5 c5 p5 vk vv kb vb C (p3 c) (p4 d) rl (snd (sp_run sp_new cs)) \<and> fits (length cs) (snd (sp_run sp_new cs)))"
    "replog.tree_room C N" "replog P i1 c1 p1 i2 c2 p2 i3 c3 p3 i4 c4 p4 i5 c5 p5 vk vv kb vb"
proof -
  show R: "replog P i1 c1 p1 i2 c2 p2 i3 c3 p3 i4 c4 p4 i5 c5 p5 vk vv kb vb"
    using assms(1) by simp
  show T: "replog.tree_room C N"
    using assms(1) by (simp add: replog.tree_room_def[OF R] C_def)
  have "ok (rl_init P a b c d e) (\<lambda>rl. replog.rl_rep P i1 c1 p1 i2 c2 p2 i3 c3 p3 i4 c4 p4 i5 c5 p5 vk vv kb vb C (p3 c) (p4 d) rl sp_new)"
    using assms(1) unfolding rl_client.simps C_def
    by (elim conjE exE, intro replog.init_ok[OF R]) (auto simp: mult_eq_0_iff intro!: gr0I)
  then obtain rl where rl: "rl_init P a b c d e = Some rl"
    "replog.rl_rep P i1 c1 p1 i2 c2 p2 i3 c3 p3 i4 c4 p4 i5 c5 p5 vk vv kb vb C (p3 c) (p4 d) rl sp_new"
    by (auto elim!: ok_obtain)
  have "replog.tree_room C L" "replog.log_room kb (p3 c) (p4 d) L"
    using assms(1) replog.room_le(2)[OF R T, of L] by (simp_all add: replog.log_room_def[OF R])
  with replog.run_ok[OF R rl(2) fits_new, of cs L] assms(2,3) rl(1)
  show "ok (rl_program P (a, b, c, d, e) cs) (\<lambda>(rs, rl). rs = fst (sp_run sp_new cs) \<and>
    replog.rl_rep P i1 c1 p1 i2 c2 p2 i3 c3 p3 i4 c4 p4 i5 c5 p5 vk vv kb vb C (p3 c) (p4 d) rl (snd (sp_run sp_new cs)) \<and> fits (length cs) (snd (sp_run sp_new cs)))"
    by (simp add: rl_program_def)
qed

lemma client_cases:
  fixes s :: "'a \<times> 'b \<times> 'c \<times> 'd \<times> 'e"
  obtains i1 c1 p1 i2 c2 p2 i3 c3 p3 i4 c4 p4 i5 c5 p5 a b c d e where
    "ms = ((i1, c1, p1), (i2, c2, p2), (i3, c3, p3), (i4, c4, p4), (i5, c5, p5))" "s = (a, b, c, d, e)"
  by (cases ms rule: prod_cases5, cases s rule: prod_cases5) (metis prod_cases3)

text \<open>Keys and values of type u64 in vector memories, the instance of the examples.\<close>

definition u64_replog :: "(64 word, 64 word, bytes, bytes, bytes, bytes, bytes) replog_types" where
  "u64_replog = \<lparr>key_type = u64_storable, value_type = u64_storable, key_mem = VectorMemory, value_mem = VectorMemory, index_mem = VectorMemory,
     data_mem = VectorMemory, counter_mem = VectorMemory, entry_size = 24\<rparr>"

abbreviation vec_contract :: "bytes contract" where
  "vec_contract \<equiv> (vec_inv, \<lambda>m. m, vec_cap)"

abbreviation vec_contracts :: "bytes contract \<times> bytes contract \<times> bytes contract \<times> bytes contract \<times> bytes contract" where
  "vec_contracts \<equiv> (vec_contract, vec_contract, vec_contract, vec_contract, vec_contract)"

interpretation u64_rl: replog u64_replog vec_inv "\<lambda>m. m" vec_cap vec_inv "\<lambda>m. m" vec_cap vec_inv "\<lambda>m. m" vec_cap vec_inv "\<lambda>m. m" vec_cap
  vec_inv "\<lambda>m. m" vec_cap "\<lambda>_. True" "\<lambda>_. True" 8 8 C IC DC
  for C IC DC
  by (rule replog.intro) (simp_all add: u64_replog_def vm.memory_axioms u64_types)

lemma u64_client: "n \<le> 50 \<Longrightarrow> rl_client u64_replog vec_contracts (\<lambda>_. True) (\<lambda>_. True) 8 8 ([], [], [], [], []) n n"
proof -
  assume n: "n \<le> 50"
  then have "n div 5 \<le> 10"
    using div_le_mono[of n 50 5] by simp
  with n show ?thesis
    using u64_rl.replog_axioms vec_inv_empty u64_page_size
    by (simp add: u64_replog_def btree_bytes_def ALLOCATOR_OFFSET_def pages_needed_def vec_cap_def VEC_MAX_PAGES_val)
qed

section \<open>Properties\<close>

text \<open>
  C6. The replicated map is a finite map with a list of changes: on any five memories that meet their contract, with any types of keys and
  values, the map made by \<open>init\<close> runs any list of commands to the end (insert, try_insert, remove, try_remove, look-ups, first and
  last, iterators over entries, ranges, keys and values, the changes since a sequence number with and without values, pages of a snapshot, clear, compact,
  and reopening the map from its memories), and each one answers what it answers on the specification. No debug assertion that the two B-trees
  agree ever fires. The memories must have room for the entries and changes of the run.
\<close>

theorem replog_simulates:
  assumes "rl_client P ms vk vv kb vb s (length cs) (length cs)" "list_all (rl_cmd_valid P vk vv (length cs)) cs"
  shows "ok (rl_program P s cs) (\<lambda>(rs, rl). rs = fst (sp_run sp_new cs))"
  using assms by (cases ms s rule: client_cases) (auto intro: ok_mono[OF program_ok(1)])

definition example_rl :: "(64 word, 64 word) rl_cmd list" where
  "example_rl = [RlInsert 7 70, RlInsert 3 30, RlInsert 7 71, RlRemove 3, RlReopen, RlGet 7, RlIter 2, RlChangesValues 1 2, RlSeq, RlCompact, RlChanges 1 9, RlChanges 4 9]"

theorem replog_simulates_witness:
  "ok (rl_program u64_replog ([], [], [], [], []) example_rl) (\<lambda>(rs, rl).
     rs = [RVal None, RVal None, RVal (Some 70), RVal (Some 30), RDone, RVal (Some 71), RPairs [Some (7, 71), None],
       RChangesV (Some ([(\<lparr>ce_kind = Upsert, ce_entry_id = 1, ce_key = 3\<rparr>, None), (\<lparr>ce_kind = Upsert, ce_entry_id = 0, ce_key = 7\<rparr>, Some 71)], 3)),
       RNum 4, RDone, RChanges None, RChanges (Some ([], 4))])"
proof -
  have v: "rl_client u64_replog vec_contracts (\<lambda>_. True) (\<lambda>_. True) 8 8 ([], [], [], [], []) (length example_rl) (length example_rl)"
    "list_all (rl_cmd_valid u64_replog (\<lambda>_. True) (\<lambda>_. True) (length example_rl)) example_rl"
    by (rule u64_client) (simp_all add: example_rl_def)
  have r: "replicate 2 Front = [Front, Front]"
    by (simp add: numeral_2_eq_2)
  have "fst (sp_run sp_new example_rl) = [RVal None, RVal None, RVal (Some 70), RVal (Some 30), RDone, RVal (Some 71), RPairs [Some (7, 71), None],
       RChangesV (Some ([(\<lparr>ce_kind = Upsert, ce_entry_id = 1, ce_key = 3\<rparr>, None), (\<lparr>ce_kind = Upsert, ce_entry_id = 0, ce_key = 7\<rparr>, Some 71)], 3)),
       RNum 4, RDone, RChanges None, RChanges (Some ([], 4))]"
    by (simp add: example_rl_def sp_new_def sp_insert_def sp_remove_def log_change_def sp_get_def sp_pairs_def entries_of_def sp_since_def sp_valued_def sp_seq_def
        sp_compact_def is_upsert_def sorted_list_of_set_insert_remove insert_Diff_if r Let_def)
  with replog_simulates[OF v] show ?thesis
    by simp
qed

text \<open>
  C7. A write that reports a full log changes nothing: when \<open>try_insert\<close> or \<open>try_remove\<close> returns an error, both B-trees, the log
  and the counters are as before the call, so every later command that does not write to the log, reopening and compaction included, answers as if the
  call had not been made.
\<close>

theorem replog_try_all_or_nothing:
  assumes "rl_client P ms vk vv kb vb s N (length cs)" "list_all (rl_cmd_valid P vk vv (length cs)) cs"
    and "length cs + length ds \<le> N" "list_all (rl_cmd_valid P vk vv N) ds" "\<not> list_ex appends ds" "vk k" "vv v"
  shows "ok (rl_program P s cs) (\<lambda>(rs, rl). \<forall>e rl'.
    (rl_try_insert P rl k v = Some (Inl e, rl') \<or> rl_try_remove P rl k = Some (Inl e, rl')) \<longrightarrow>
    ok (rl_run P rl' ds) (\<lambda>(rs', rl''). rs' = fst (sp_run (snd (sp_run sp_new cs)) ds)))"
proof (cases ms s rule: client_cases)
  case (1 i1 c1 p1 i2 c2 p2 i3 c3 p3 i4 c4 p4 i5 c5 p5 a b c d e)
  let ?\<sigma> = "snd (sp_run sp_new cs)"
  note p = program_ok[OF assms(1)[unfolded 1] le_refl assms(2)]
  have "ok (rl_run P rl' ds) (\<lambda>(rs', rl''). rs' = fst (sp_run ?\<sigma> ds))"
    if rep: "replog.rl_rep P i1 c1 p1 i2 c2 p2 i3 c3 p3 i4 c4 p4 i5 c5 p5 vk vv kb vb (2 * (N div 5) + 4) (p3 c) (p4 d) rl ?\<sigma>" and f: "fits (length cs) ?\<sigma>"
      and e: "rl_try_insert P rl k v = Some (Inl e, rl') \<or> rl_try_remove P rl k = Some (Inl e, rl')" for rl e rl'
  proof -
    have t: "replog.tree_room (2 * (N div 5) + 4) (length cs)"
      using replog.room_le(2)[OF p(3,2), of "length cs"] assms(3) by simp
    have "replog.rl_rep P i1 c1 p1 i2 c2 p2 i3 c3 p3 i4 c4 p4 i5 c5 p5 vk vv kb vb (2 * (N div 5) + 4) (p3 c) (p4 d) rl' ?\<sigma>"
      using e replog.try_insert_fail[OF p(3) rep f t assms(6,7)] replog.try_remove_fail[OF p(3) rep f t assms(6)] by blast
    from replog.run_ok[OF p(3) this f assms(3) p(2) assms(4)] assms(5) show ?thesis
      by (auto elim!: ok_mono)
  qed
  with p(1) show ?thesis
    unfolding 1 by (blast intro: ok_mono[of "rl_program P (a, b, c, d, e) cs"])
qed

text \<open>A map with byte strings as keys whose log has a data memory of one page, for a run in which an insert fails.\<close>

definition page_replog :: "(bytes, 64 word, bytes, bytes, bytes, bytes, bytes) replog_types" where
  "page_replog = \<lparr>key_type = vec_u8_storable, value_type = u64_storable, key_mem = VectorMemory, value_mem = VectorMemory, index_mem = VectorMemory,
     data_mem = RestrictedMemory VectorMemory 0 1, counter_mem = VectorMemory, entry_size = 40\<rparr>"

lemma short_types: "btree_types vec_u8_storable (\<lambda>k. length k \<le> 70000) u64_storable (\<lambda>_. True) 70000 8"
proof -
  have "storable_type vec_u8_storable (\<lambda>k. length k \<le> 70000)"
    by unfold_locales (simp_all add: vec_u8_storable_def ok_check_bounds)
  then show ?thesis
    using u64_types by (simp add: btree_types_def key_bytes_def vec_u8_storable_def)
qed

interpretation page_rl: replog page_replog vec_inv "\<lambda>m. m" vec_cap vec_inv "\<lambda>m. m" vec_cap vec_inv "\<lambda>m. m" vec_cap
  "restricted_inv vec_inv (\<lambda>m. m) 0 1" "restricted_contents (\<lambda>m. m) 0 1" "restricted_cap vec_cap 0 1"
  vec_inv "\<lambda>m. m" vec_cap "\<lambda>k. length k \<le> 70000" "\<lambda>_. True" 70000 8 C IC DC
  for C IC DC
  by (rule replog.intro) (simp_all add: page_replog_def vm.memory_axioms rvm.memory_axioms u64_types short_types)

abbreviation page_contracts :: "bytes contract \<times> bytes contract \<times> bytes contract \<times> bytes contract \<times> bytes contract" where
  "page_contracts \<equiv> (vec_contract, vec_contract, vec_contract, (restricted_inv vec_inv (\<lambda>m. m) 0 1, restricted_contents (\<lambda>m. m) 0 1, restricted_cap vec_cap 0 1), vec_contract)"

lemma page_client: "rl_client page_replog page_contracts (\<lambda>k. length k \<le> 70000) (\<lambda>_. True) 70000 8 ([], [], [], [], []) 2 0"
proof -
  have "new_page_size vec_u8_storable u64_storable = Some (PageValue 1024)"
    by (simp add: new_page_size_def vec_u8_storable_def DEFAULT_PAGE_SIZE_def)
  then show ?thesis
    using page_rl.replog_axioms vec_inv_empty u64_page_size
    by (simp add: page_replog_def btree_bytes_def ALLOCATOR_OFFSET_def pages_needed_def vec_cap_def VEC_MAX_PAGES_val restricted_inv_def restricted_cap_def
        restricted_contents_def subrange_def MAX_PAGES_val)
qed

theorem replog_try_all_or_nothing_witness:
  "\<exists>rl rl'. rl_init page_replog [] [] [] [] [] = Some rl \<and> rl_try_insert page_replog rl (replicate 70000 1) 5 = Some (Inl ChangelogFull, rl') \<and>
     ok (rl_run page_replog rl' [RlContains (replicate 70000 1), RlLogLen]) (\<lambda>(rs, rl''). rs = [RFlag False, RNum 0])"
proof -
  let ?k = "replicate 70000 1 :: bytes" and ?T = "change_storable vec_u8_storable" and ?s = "([], [], [], [], []) :: bytes \<times> bytes \<times> bytes \<times> bytes \<times> bytes"
  note p = program_ok[OF page_client, of "[]"]
  from p(1) obtain rl where rl: "rl_program page_replog ?s [] = Some ([], rl)" "page_rl.rl_rep 4 (vec_cap []) (restricted_cap vec_cap 0 1 []) rl sp_new"
    by (auto elim!: ok_obtain)
  have full: "\<exists>e l'. log_append ?T VectorMemory (RestrictedMemory VectorMemory 0 1) l \<lparr>ce_kind = Upsert, ce_entry_id = i, ce_key = ?k\<rparr> = Some (Inl e, l')"
    if at: "page_rl.log_at (vec_cap []) (restricted_cap vec_cap 0 1 []) l []" for l i
  proof -
    obtain bss where h: "vec_inv (index_memory l)" "restricted_inv vec_inv (\<lambda>m. m) 0 1 (data_memory l)" "log_index (index_memory l) bss"
      "log_data (restricted_contents (\<lambda>m. m) 0 1 (data_memory l)) bss" "bss = []"
      using at unfolding page_rl.log_at_def by (auto simp: log_items_def)
    let ?bs = "0 # to_le_bytes 8 (unat i) @ ?k"
    have bs: "to_bytes ?T \<lparr>ce_kind = Upsert, ce_entry_id = i, ce_key = ?k\<rparr> = Some ?bs"
      by (simp add: change_storable_def change_to_bytes_def vec_u8_storable_def del: to_le_bytes.simps)
    have "stable_log VectorMemory vec_inv (\<lambda>m. m) vec_cap (RestrictedMemory VectorMemory 0 1) (restricted_inv vec_inv (\<lambda>m. m) 0 1)
        (restricted_contents (\<lambda>m. m) 0 1) (restricted_cap vec_cap 0 1) ?T (\<lambda>e. length (ce_key e) \<le> 70000)"
      using page_rl.change_log by (simp add: page_replog_def)
    then show ?thesis
      by (rule stable_log.append_no_room[OF _ _ bs, where bss = "[]"])
        (use h one_page_full[of _ 32 ?bs] in \<open>auto simp: log_data_def simp del: to_le_bytes.simps\<close>)
  qed
  have "page_rl.tree_room 4 0"
    by (simp add: page_rl.tree_room_def)
  from page_rl.try_insert_full[OF rl(2) fits_new this, of ?k 5] full obtain rl' where rl': "rl_try_insert page_replog rl ?k 5 = Some (Inl ChangelogFull, rl')"
    by (auto simp: page_replog_def sp_new_def)
  have c: "rl_client page_replog page_contracts (\<lambda>k. length k \<le> 70000) (\<lambda>_. True) 70000 8 ?s 2 (length ([] :: (bytes, 64 word) rl_cmd list))"
    using page_client by (simp only: list.size(3))
  have "ok (rl_program page_replog ?s []) (\<lambda>(rs, rl). \<forall>e rl'.
    (rl_try_insert page_replog rl ?k 5 = Some (Inl e, rl') \<or> rl_try_remove page_replog rl ?k = Some (Inl e, rl')) \<longrightarrow>
    ok (rl_run page_replog rl' [RlContains ?k, RlLogLen]) (\<lambda>(rs', rl''). rs' = fst (sp_run (snd (sp_run sp_new [])) [RlContains ?k, RlLogLen])))"
    by (rule replog_try_all_or_nothing[OF c]) simp_all
  then have "ok (rl_run page_replog rl' [RlContains ?k, RlLogLen]) (\<lambda>(rs, rl''). rs = [RFlag False, RNum 0])"
    using rl(1) rl' by (simp add: sp_new_def)
  moreover have "rl_init page_replog [] [] [] [] [] = Some rl"
    using rl(1) by (auto simp: rl_program_def bind_eq_Some_conv)
  ultimately show ?thesis
    using rl' by blast
qed

text \<open>
  C40. A limit that is too large panics: when \<open>changes_since\<close> is asked for the changes from a number that the log still has, and the position of that number
  in the log plus the limit exceeds 64 bits, the call does not return, though the limit only bounds the number of entries. A client that asks for everything
  with the largest limit meets this as soon as it has seen a change of the epoch.
\<close>

theorem changes_since_large_limit_panics:
  assumes "rl_client P ms vk vv kb vb s (length cs) (length cs)" "list_all (rl_cmd_valid P vk vv (length cs)) cs"
    and "\<sigma> = snd (sp_run sp_new cs)" "sp_epoch \<sigma> \<le> t" "t < sp_seq \<sigma>" "U64_MAX < t - sp_epoch \<sigma> + l"
  shows "ok (rl_program P s cs) (\<lambda>(rs, rl). rl_changes_since P rl t l = None)"
proof (cases ms s rule: client_cases)
  case (1 i1 c1 p1 i2 c2 p2 i3 c3 p3 i4 c4 p4 i5 c5 p5 a b c d e)
  note p = program_ok[OF assms(1)[unfolded 1] le_refl assms(2)]
  have "rl_changes_since P rl t l = None"
    if rep: "replog.rl_rep P i1 c1 p1 i2 c2 p2 i3 c3 p3 i4 c4 p4 i5 c5 p5 vk vv kb vb (2 * (length cs div 5) + 4) (p3 c) (p4 d) rl \<sigma>"
      and f: "fits (length cs) \<sigma>" for rl
  proof -
    have "sp_seq \<sigma> \<le> U64_MAX"
      using f p(2) by (auto simp: fits_def replog.tree_room_def[OF p(3)])
    note r = replog.simple_reads_ok[OF p(3) rep this]
    from r(6) obtain rl1 where "rl_changelog_len P rl = Some (length (sp_changes \<sigma>), rl1)"
      by (auto elim!: ok_obtain)
    moreover have "t - sp_epoch \<sigma> < length (sp_changes \<sigma>)"
      using assms(4,5) by (simp add: sp_seq_def)
    ultimately show ?thesis
      using r(4) assms(4-6) by (simp add: rl_changes_since_def rl_epoch_start_def u64_add_def sp_seq_def Let_def)
  qed
  with p(1) show ?thesis
    unfolding 1 assms(3) by (auto elim!: ok_mono)
qed

theorem changes_since_large_limit_panics_witness:
  "ok (rl_program u64_replog ([], [], [], [], []) [RlInsert 7 70, RlInsert 3 30]) (\<lambda>(rs, rl). rl_changes_since u64_replog rl 1 U64_MAX = None)"
proof -
  have "snd (sp_run sp_new [RlInsert 7 70, RlInsert 3 30 :: (64 word, 64 word) rl_cmd]) = \<lparr>sp_map = [7 \<mapsto> (0, 70), 3 \<mapsto> (1, 30)],
    sp_changes = [\<lparr>ce_kind = Upsert, ce_entry_id = 0, ce_key = 7\<rparr>, \<lparr>ce_kind = Upsert, ce_entry_id = 1, ce_key = 3\<rparr>], sp_next = 2, sp_epoch = 0\<rparr>"
    by (simp add: sp_new_def sp_insert_def log_change_def)
  from changes_since_large_limit_panics[OF u64_client _ this[symmetric], of 1 U64_MAX] show ?thesis
    by (simp add: sp_seq_def)
qed

end
