(* ===== verification/Rep_Log_Sync.thy ===== *)
theory Rep_Log_Sync
  imports Rep_Log_Run
begin

text \<open>
  Replicas that follow a \<open>RepLogMap\<close> through its replication interface (\<open>snapshot_page\<close> and \<open>changes_with_values_since\<close>): whatever the
  map does between their calls, a replica that has caught up holds the map, and one that keeps asking catches up.
\<close>

section \<open>The replica\<close>

text \<open>
  A replica is either in the middle of a snapshot, with the last key it got, or it follows the changes from its cursor on. It does what the comments of the
  interface say: the sequence number of the first page is where the changes start, the last key of a page is passed to the next call, an
  empty page ends the snapshot, and \<open>None\<close> for the changes starts a new snapshot.
\<close>

datatype 'k phase = Snapshot "'k option" | Following

record ('k, 'v) replica =
  rp_map :: "'k \<rightharpoonup> 'v"
  rp_cursor :: nat
  rp_phase :: "'k phase"

definition new_replica :: "('k, 'v) replica" where
  "new_replica = \<lparr>rp_map = Map.empty, rp_cursor = 0, rp_phase = Snapshot None\<rparr>"

definition take_page :: "nat \<Rightarrow> (64 word \<times> 'k \<times> 'v) list \<Rightarrow> nat \<Rightarrow> 'k option \<Rightarrow> ('k, 'v) replica \<Rightarrow> ('k, 'v) replica" where
  "take_page l es s a rp = \<lparr>
     rp_map = rp_map rp ++ map_of (map snd es),
     rp_cursor = (if a = None then s else rp_cursor rp),
     rp_phase = (if es \<noteq> [] then Snapshot (Some (fst (snd (last es)))) else if l = 0 then Snapshot a else Following)\<rparr>"

definition take_changes :: "(('k change_entry \<times> 'v option) list \<times> nat) option \<Rightarrow> ('k, 'v) replica \<Rightarrow> ('k, 'v) replica" where
  "take_changes r rp = (case r of
       None \<Rightarrow> rp\<lparr>rp_map := Map.empty, rp_phase := Snapshot None\<rparr>
     | Some (es, s) \<Rightarrow> rp\<lparr>rp_map := foldl (\<lambda>m (e, v). m(ce_key e := v)) (rp_map rp) es, rp_cursor := s\<rparr>)"

text \<open>What can happen: a command of the map, a call for a page of the snapshot, a call for changes.\<close>

datatype ('k, 'v) sync_event = Server "('k, 'v) rl_cmd" | Page nat | Poll nat

fun sync_step ::
  "('k::linorder, 'v, 'a, 'b, 'c, 'd, 'e) replog_types \<Rightarrow> ('a, 'b, 'c, 'd, 'e) rep_log_map \<times> ('k, 'v) replica \<Rightarrow> ('k, 'v) sync_event \<Rightarrow>
   (('a, 'b, 'c, 'd, 'e) rep_log_map \<times> ('k, 'v) replica) option" where
  "sync_step P (rl, rp) (Server c) = do { (r, rl) \<leftarrow> rl_step P rl c; Some (rl, rp) }"
| "sync_step P (rl, rp) (Page l) = (case rp_phase rp of
       Following \<Rightarrow> Some (rl, rp)
     | Snapshot a \<Rightarrow> do { (es, s, rl) \<leftarrow> rl_snapshot_page P rl a l; Some (rl, take_page l es s a rp) })"
| "sync_step P (rl, rp) (Poll l) = (case rp_phase rp of
       Following \<Rightarrow> do { (r, rl) \<leftarrow> rl_changes_with_values_since P rl (rp_cursor rp) l; Some (rl, take_changes r rp) }
     | Snapshot a \<Rightarrow> Some (rl, rp))"

fun sync_run ::
  "('k::linorder, 'v, 'a, 'b, 'c, 'd, 'e) replog_types \<Rightarrow> ('a, 'b, 'c, 'd, 'e) rep_log_map \<times> ('k, 'v) replica \<Rightarrow> ('k, 'v) sync_event list \<Rightarrow>
   (('a, 'b, 'c, 'd, 'e) rep_log_map \<times> ('k, 'v) replica) option" where
  "sync_run P st [] = Some st"
| "sync_run P st (ev # evs) = do { st \<leftarrow> sync_step P st ev; sync_run P st evs }"

definition sync_program ::
  "('k::linorder, 'v, 'a, 'b, 'c, 'd, 'e) replog_types \<Rightarrow> 'a \<times> 'b \<times> 'c \<times> 'd \<times> 'e \<Rightarrow> ('k, 'v) sync_event list \<Rightarrow>
   (('a, 'b, 'c, 'd, 'e) rep_log_map \<times> ('k, 'v) replica) option" where
  "sync_program P s evs = do { rl \<leftarrow> (case s of (a, b, c, d, e) \<Rightarrow> rl_init P a b c d e); sync_run P (rl, new_replica) evs }"

text \<open>The same on the specification.\<close>

fun sp_sync :: "('k::linorder, 'v) rl_spec \<times> ('k, 'v) replica \<Rightarrow> ('k, 'v) sync_event \<Rightarrow> ('k, 'v) rl_spec \<times> ('k, 'v) replica" where
  "sp_sync (\<sigma>, rp) (Server c) = (snd (sp_step \<sigma> c), rp)"
| "sp_sync (\<sigma>, rp) (Page l) = (\<sigma>, case rp_phase rp of Following \<Rightarrow> rp | Snapshot a \<Rightarrow> take_page l (sp_page \<sigma> a l) (sp_seq \<sigma>) a rp)"
| "sp_sync (\<sigma>, rp) (Poll l) = (\<sigma>, case rp_phase rp of
       Following \<Rightarrow> take_changes (map_option (apfst (map (sp_valued \<sigma>))) (sp_since \<sigma> (rp_cursor rp) l)) rp
     | Snapshot a \<Rightarrow> rp)"

section \<open>The log and the map\<close>

text \<open>What the log says last about a key: whether it was inserted or removed.\<close>

definition last_kind :: "'k change_entry list \<Rightarrow> 'k \<rightharpoonup> bool" where
  "last_kind es = map_of (rev (map (\<lambda>e. (ce_key e, is_upsert e)) es))"

lemma last_kind_simps [simp]:
  "last_kind [] = Map.empty" "last_kind [e] = [ce_key e \<mapsto> is_upsert e]" "last_kind (es @ es') = last_kind es ++ last_kind es'"
  by (auto simp: last_kind_def)

definition sp_inv :: "('k, 'v) rl_spec \<Rightarrow> bool" where
  "sp_inv \<sigma> \<longleftrightarrow> finite (dom (sp_map \<sigma>)) \<and> (\<forall>k b. last_kind (sp_changes \<sigma>) k = Some b \<longrightarrow> b = (sp_map \<sigma> k \<noteq> None))"

lemma sp_inv_new: "sp_inv sp_new"
  by (simp add: sp_inv_def sp_new_def)

lemma sp_inv_step: "sp_inv \<sigma> \<Longrightarrow> sp_inv (snd (sp_step \<sigma> c))"
  by (cases c) (auto simp: sp_inv_def sp_insert_def sp_remove_def log_change_def sp_clear_def sp_compact_def is_upsert_def split: option.splits)

lemma entries_of_facts:
  assumes "finite (dom f)"
  shows "sorted_keys (entries_of f)" "map_of (entries_of f) = f" "length (entries_of f) = card (dom f)"
proof -
  show "sorted_keys (entries_of f)"
    by (simp add: entries_of_def sorted_wrt_map)
  show "map_of (entries_of f) = f"
    using assms by (auto simp: entries_of_def map_of_map_restrict restrict_map_def fun_eq_iff domIff)
  show "length (entries_of f) = card (dom f)"
    by (simp add: entries_of_def)
qed

section \<open>The invariant of a replica\<close>

text \<open>
  A replica agrees with the map on every key that its snapshot has passed, except for those that still have a change after its cursor. A stale replica,
  whose cursor is before the epoch, may hold anything; it will be told.
\<close>

definition covered :: "'k::linorder phase \<Rightarrow> 'k \<Rightarrow> bool" where
  "covered ph k = (case ph of Following \<Rightarrow> True | Snapshot None \<Rightarrow> False | Snapshot (Some a) \<Rightarrow> k \<le> a)"

definition pending :: "('k, 'v) rl_spec \<Rightarrow> nat \<Rightarrow> 'k change_entry list" where
  "pending \<sigma> c = drop (c - sp_epoch \<sigma>) (sp_changes \<sigma>)"

definition sync_inv :: "('k::linorder, 'v) rl_spec \<Rightarrow> ('k, 'v) replica \<Rightarrow> bool" where
  "sync_inv \<sigma> rp \<longleftrightarrow> (rp_phase rp \<noteq> Snapshot None \<longrightarrow> rp_cursor rp \<le> sp_seq \<sigma>) \<and> (\<forall>k \<in> dom (rp_map rp). covered (rp_phase rp) k) \<and>
     (sp_epoch \<sigma> \<le> rp_cursor rp \<longrightarrow>
       (\<forall>k. covered (rp_phase rp) k \<longrightarrow> last_kind (pending \<sigma> (rp_cursor rp)) k = None \<longrightarrow> rp_map rp k = sp_get \<sigma> k))"

lemma sync_inv_new: "sync_inv \<sigma> new_replica"
  by (simp add: sync_inv_def new_replica_def covered_def)

lemma covered_None [simp]: "\<not> covered (Snapshot None) k"
  by (simp add: covered_def)

text \<open>A command of the map.\<close>

lemma sync_change:
  assumes "sync_inv \<sigma> rp" "\<forall>k'. k' \<noteq> ce_key e \<longrightarrow> sp_get \<sigma>' k' = sp_get \<sigma> k'" "sp_changes \<sigma>' = sp_changes \<sigma> @ [e]" "sp_epoch \<sigma>' = sp_epoch \<sigma>"
  shows "sync_inv \<sigma>' rp"
proof (cases "rp_phase rp = Snapshot None")
  case True
  then show ?thesis
    using assms(1) by (simp add: sync_inv_def)
next
  case False
  then have "rp_cursor rp \<le> sp_seq \<sigma>"
    using assms(1) by (simp add: sync_inv_def)
  then have "pending \<sigma>' (rp_cursor rp) = pending \<sigma> (rp_cursor rp) @ [e]" "rp_cursor rp \<le> sp_seq \<sigma>'"
    using assms(3,4) by (auto simp: pending_def sp_seq_def)
  with assms show ?thesis
    by (auto simp: sync_inv_def)
qed

lemma sync_server:
  assumes "sync_inv \<sigma> rp"
  shows "sync_inv (snd (sp_step \<sigma> c)) rp"
proof -
  have up: "sync_inv (snd (sp_insert k v \<sigma>)) rp" for k v
  proof -
    obtain i where "sp_changes (snd (sp_insert k v \<sigma>)) = sp_changes \<sigma> @ [\<lparr>ce_kind = Upsert, ce_entry_id = i, ce_key = k\<rparr>]"
      by (cases "sp_map \<sigma> k") (auto simp: sp_insert_def log_change_def)
    then show ?thesis
      by (intro sync_change[OF assms]) (auto simp: sp_insert_def sp_get_def log_change_def split: option.splits)
  qed
  have del: "sync_inv (snd (sp_remove k \<sigma>)) rp" for k
  proof (cases "sp_map \<sigma> k")
    case None
    then show ?thesis
      using assms by (simp add: sp_remove_def)
  next
    case (Some x)
    then show ?thesis
      by (intro sync_change[OF assms, of "\<lparr>ce_kind = Delete, ce_entry_id = fst x, ce_key = k\<rparr>"])
        (auto simp: sp_remove_def sp_get_def log_change_def split: prod.splits)
  qed
  have cl: "sync_inv (sp_clear \<sigma>) rp"
    using assms by (auto simp: sync_inv_def sp_clear_def sp_seq_def pending_def covered_def split: phase.splits option.splits)
  have co: "sync_inv (sp_compact \<sigma>) rp"
  proof (cases "rp_phase rp = Snapshot None")
    case True
    then show ?thesis
      using assms by (simp add: sync_inv_def)
  next
    case False
    then have "sp_seq \<sigma> \<le> rp_cursor rp \<Longrightarrow> rp_cursor rp = sp_seq \<sigma>"
      using assms by (simp add: sync_inv_def)
    then show ?thesis
      using assms False by (auto simp: sync_inv_def sp_compact_def sp_seq_def pending_def sp_get_def)
  qed
  show ?thesis
    using assms up del cl co by (cases c) simp_all
qed

text \<open>A call for changes.\<close>

lemma apply_changes:
  "foldl (\<lambda>m (e, v). m(ce_key e := v)) m (map (sp_valued \<sigma>) es) k = (case last_kind es k of None \<Rightarrow> m k | Some b \<Rightarrow> if b then sp_get \<sigma> k else None)"
  by (induction es rule: rev_induct) (auto simp: sp_valued_def split: option.splits)

lemma since_split:
  assumes "sp_epoch \<sigma> \<le> c" "c \<le> sp_seq \<sigma>"
  shows "sp_since \<sigma> c l = Some (take l (pending \<sigma> c), c + length (take l (pending \<sigma> c)))" "pending \<sigma> (c + length (take l (pending \<sigma> c))) = drop l (pending \<sigma> c)"
    "c + length (pending \<sigma> c) = sp_seq \<sigma>"
proof -
  have "sp_seq \<sigma> \<le> c \<Longrightarrow> c = sp_seq \<sigma> \<and> pending \<sigma> c = []"
    using assms by (auto simp: sp_seq_def pending_def)
  then show "sp_since \<sigma> c l = Some (take l (pending \<sigma> c), c + length (take l (pending \<sigma> c)))"
    using assms by (auto simp: sp_since_def pending_def Let_def)
  show "c + length (pending \<sigma> c) = sp_seq \<sigma>"
    using assms by (simp add: pending_def sp_seq_def)
  show "pending \<sigma> (c + length (take l (pending \<sigma> c))) = drop l (pending \<sigma> c)"
    using assms by (cases "l \<le> length (sp_changes \<sigma>) - (c - sp_epoch \<sigma>)") (auto simp: pending_def add.commute min_def)
qed

lemma sync_poll:
  assumes i: "sync_inv \<sigma> rp" and s: "sp_inv \<sigma>" and f: "rp_phase rp = Following"
  shows "sync_inv \<sigma> (take_changes (map_option (apfst (map (sp_valued \<sigma>))) (sp_since \<sigma> (rp_cursor rp) l)) rp)"
proof (cases "rp_cursor rp < sp_epoch \<sigma>")
  case True
  then show ?thesis
    by (simp add: sync_inv_def take_changes_def sp_since_def)
next
  case False
  let ?c = "rp_cursor rp"
  have c: "sp_epoch \<sigma> \<le> ?c" "?c \<le> sp_seq \<sigma>"
    using i f False by (simp_all add: sync_inv_def)
  note sp = since_split[OF c]
  let ?es = "take l (pending \<sigma> ?c)" and ?rest = "drop l (pending \<sigma> ?c)"
  have rest: "last_kind (pending \<sigma> ?c) = last_kind ?es ++ last_kind ?rest"
    using last_kind_simps(3)[of ?es ?rest] by (simp only: append_take_drop_id)
  have all: "last_kind (sp_changes \<sigma>) = last_kind (take (?c - sp_epoch \<sigma>) (sp_changes \<sigma>)) ++ last_kind (pending \<sigma> ?c)"
    using last_kind_simps(3)[of "take (?c - sp_epoch \<sigma>) (sp_changes \<sigma>)" "pending \<sigma> ?c"] by (simp only: pending_def append_take_drop_id)
  have "(case last_kind ?es k of None \<Rightarrow> rp_map rp k | Some b \<Rightarrow> if b then sp_get \<sigma> k else None) = sp_get \<sigma> k" if k: "last_kind ?rest k = None" for k
  proof (cases "last_kind ?es k")
    case None
    then have "last_kind (pending \<sigma> ?c) k = None"
      using k by (simp only: rest map_add_None)
    then show ?thesis
      using i f c(1) None by (simp add: sync_inv_def covered_def)
  next
    case (Some b)
    then have "last_kind (sp_changes \<sigma>) k = Some b"
      using k by (simp only: all rest map_add_def) simp
    then have "b = (sp_map \<sigma> k \<noteq> None)"
      using s by (simp add: sp_inv_def)
    then show ?thesis
      using Some by (cases "sp_map \<sigma> k") (simp_all add: sp_get_def)
  qed
  moreover have "?c + length ?es \<le> sp_seq \<sigma>"
    using sp(3) by simp
  ultimately show ?thesis
    using f sp by (auto simp: sync_inv_def take_changes_def apply_changes covered_def)
qed

text \<open>A call for a page: the entries after a key, and what is left after a page.\<close>

definition left_after :: "('k::linorder, 'v) rl_spec \<Rightarrow> 'k option \<Rightarrow> ('k \<times> 64 word \<times> 'v) list" where
  "left_after \<sigma> a = filter (\<lambda>x. case a of None \<Rightarrow> True | Some b \<Rightarrow> b < fst x) (entries_of (sp_map \<sigma>))"

lemma left_afterD: "x \<in> set (left_after \<sigma> a) \<Longrightarrow> case a of None \<Rightarrow> True | Some b \<Rightarrow> b < fst x"
  by (simp add: left_after_def)

lemma page_left: "sp_page \<sigma> a l = map (\<lambda>(k, i, v). (i, k, v)) (take l (left_after \<sigma> a))"
  by (simp add: sp_page_def left_after_def)

lemma taken:
  assumes s: "sorted_keys zs" and n: "take l zs \<noteq> []"
  shows "filter (\<lambda>x. fst (last (take l zs)) < fst x) zs = drop l zs" "\<forall>x \<in> set (take l zs). fst x \<le> fst (last (take l zs))"
    "\<forall>x \<in> set (drop l zs). fst (last (take l zs)) < fst x"
proof -
  let ?t = "take l zs" and ?d = "drop l zs"
  have "sorted_keys (?t @ ?d)"
    using s by simp
  then have 1: "\<forall>x \<in> set ?t. \<forall>y \<in> set ?d. fst x < fst y" and st: "sorted_keys ?t"
    by (auto simp: sorted_wrt_append simp del: append_take_drop_id)
  show 2: "\<forall>x \<in> set ?t. fst x \<le> fst (last ?t)"
  proof -
    have "sorted_keys (butlast ?t @ [last ?t])"
      using st by (simp only: append_butlast_last_id[OF n])
    then have "\<forall>x \<in> set (butlast ?t). fst x < fst (last ?t)"
      by (simp add: sorted_wrt_append del: append_butlast_last_id)
    moreover have "set ?t = insert (last ?t) (set (butlast ?t))"
      using arg_cong[OF append_butlast_last_id[OF n], of set] by simp
    ultimately show ?thesis
      by (simp add: less_imp_le)
  qed
  show 3: "\<forall>y \<in> set ?d. fst (last ?t) < fst y"
    using 1 last_in_set[OF n] by blast
  have "filter (\<lambda>x. fst (last ?t) < fst x) (?t @ ?d) = ?d"
    using 2 3 by (auto simp: filter_empty_conv not_less filter_id_conv simp del: append_take_drop_id)
  then show "filter (\<lambda>x. fst (last ?t) < fst x) zs = ?d"
    by simp
qed

lemma left_facts:
  assumes "sp_inv \<sigma>"
  shows "sorted_keys (left_after \<sigma> a)" "map_of (left_after \<sigma> a) k = (if (case a of None \<Rightarrow> True | Some b \<Rightarrow> b < k) then sp_map \<sigma> k else None)"
    "take l (left_after \<sigma> a) \<noteq> [] \<Longrightarrow> left_after \<sigma> (Some (fst (last (take l (left_after \<sigma> a))))) = drop l (left_after \<sigma> a)"
    "length (left_after \<sigma> a) \<le> card (dom (sp_map \<sigma>))"
proof -
  note e = entries_of_facts[of "sp_map \<sigma>"]
  have f: "finite (dom (sp_map \<sigma>))"
    using assms by (simp add: sp_inv_def)
  show s: "sorted_keys (left_after \<sigma> a)"
    using e(1)[OF f] by (simp add: left_after_def sorted_wrt_filter)
  have "map_of (filter (\<lambda>x. Q (fst x)) xs) k = (if Q k then map_of xs k else None)" for Q and xs :: "('a \<times> 64 word \<times> 'b) list"
    by (induction xs) auto
  from this[of "\<lambda>k. case a of None \<Rightarrow> True | Some b \<Rightarrow> b < k"]
  show "map_of (left_after \<sigma> a) k = (if (case a of None \<Rightarrow> True | Some b \<Rightarrow> b < k) then sp_map \<sigma> k else None)"
    using e(2)[OF f] by (simp add: left_after_def)
  show "length (left_after \<sigma> a) \<le> card (dom (sp_map \<sigma>))"
    using e(3)[OF f] by (simp add: left_after_def) (metis length_filter_le)
  assume n: "take l (left_after \<sigma> a) \<noteq> []"
  let ?b = "fst (last (take l (left_after \<sigma> a)))"
  have "last (take l (left_after \<sigma> a)) \<in> set (left_after \<sigma> a)"
    using last_in_set[OF n] by (rule in_set_takeD)
  then have "case a of None \<Rightarrow> True | Some b \<Rightarrow> b < ?b"
    by (rule left_afterD)
  then have "left_after \<sigma> (Some ?b) = filter (\<lambda>x. ?b < fst x) (left_after \<sigma> a)"
    by (auto simp: left_after_def intro!: filter_cong split: option.splits)
  then show "left_after \<sigma> (Some ?b) = drop l (left_after \<sigma> a)"
    using taken(1)[OF s n] by simp
qed

lemma map_of_values: "map_of (map (\<lambda>(k, i, v). (k, v)) zs) k = map_option snd (map_of zs k)"
  by (induction zs) auto


text \<open>A page covers the keys from where the snapshot was up to its last key, and gives exactly what the map has of them.\<close>

lemma page_facts:
  fixes k :: "'k::linorder" and rp :: "('k, 'v) replica" and a l c
  assumes s: "sp_inv \<sigma>"
  defines "page \<equiv> map_of (map snd (sp_page \<sigma> a l))" and "ph \<equiv> rp_phase (take_page l (sp_page \<sigma> a l) c a rp)"
  shows "covered (Snapshot a) k \<Longrightarrow> page k = None" "covered (Snapshot a) k \<Longrightarrow> covered ph k"
    "covered ph k \<Longrightarrow> \<not> covered (Snapshot a) k \<Longrightarrow> page k = sp_get \<sigma> k" "page k \<noteq> None \<Longrightarrow> covered ph k"
proof -
  let ?L = "left_after \<sigma> a"
  let ?t = "take l ?L" and ?d = "drop l ?L"
  have cov: "covered (Snapshot a) k \<longleftrightarrow> \<not> (case a of None \<Rightarrow> True | Some b \<Rightarrow> b < k)"
    by (auto simp: covered_def split: option.splits)
  have page: "page k = map_option snd (map_of ?t k)"
    by (simp add: page_def page_left comp_def case_prod_unfold map_of_values[symmetric])
  have left: "map_of ?L k = (if covered (Snapshot a) k then None else sp_map \<sigma> k)"
    using left_facts(2)[OF s, of a k] by (simp only: cov) simp
  have both: "map_of ?L k = (map_of ?d ++ map_of ?t) k"
    by (metis append_take_drop_id map_of_append)
  show 1: "page k = None" if c: "covered (Snapshot a) k"
    using left both c by (simp add: page)
  have ph: "ph = (if ?t \<noteq> [] then Snapshot (Some (fst (last ?t))) else if l = 0 then Snapshot a else Following)"
    by (auto simp: ph_def take_page_def page_left last_map case_prod_unfold)
  note le = taken(2,3)[OF left_facts(1)[OF s]]
  show "covered ph k" if c: "covered (Snapshot a) k"
  proof (cases "?t = []")
    case True
    then show ?thesis
      using c by (simp add: ph) (simp add: covered_def)
  next
    case False
    then have "case a of None \<Rightarrow> True | Some b \<Rightarrow> b < fst (last ?t)"
      using left_afterD in_set_takeD last_in_set by metis
    then show ?thesis
      using c False by (auto simp: ph covered_def split: option.splits)
  qed
  show "page k = sp_get \<sigma> k" if c: "covered ph k" "\<not> covered (Snapshot a) k"
  proof -
    have "map_of ?d k = None"
    proof (cases "?t = []")
      case True
      then have "?L = []"
        using c by (auto simp: ph split: if_splits)
      then show ?thesis
        by simp
    next
      case False
      then have "k \<le> fst (last ?t)"
        using c(1) by (simp add: ph) (simp add: covered_def)
      then have "k \<notin> fst ` set ?d"
        using le(2)[OF False] by auto
      then show ?thesis
        by (simp add: map_of_eq_None_iff)
    qed
    then have "map_of ?t k = sp_map \<sigma> k"
      using left both c(2) by (simp add: map_add_def split: option.splits)
    then show ?thesis
      by (simp add: page sp_get_def)
  qed
  show "covered ph k" if p: "page k \<noteq> None"
  proof -
    obtain x where x: "map_of ?t k = Some x"
      using p by (auto simp: page)
    then have t: "(k, x) \<in> set ?t"
      by (rule map_of_SomeD)
    then have n: "?t \<noteq> []"
      by (auto simp del: take_eq_Nil)
    have "k \<le> fst (last ?t)"
      using le(1)[OF n] t by force
    then show ?thesis
      using n by (simp add: ph) (simp add: covered_def)
  qed
qed

lemma sync_page:
  assumes i: "sync_inv \<sigma> rp" and s: "sp_inv \<sigma>" and f: "rp_phase rp = Snapshot a"
  shows "sync_inv \<sigma> (take_page l (sp_page \<sigma> a l) (sp_seq \<sigma>) a rp)"
proof -
  let ?rp = "take_page l (sp_page \<sigma> a l) (sp_seq \<sigma>) a rp" and ?page = "map_of (map snd (sp_page \<sigma> a l))"
  note p = page_facts(1)[OF s, where a=a and l=l] page_facts(2-4)[OF s, where a=a and l=l and c="sp_seq \<sigma>" and rp=rp]
  have m: "rp_map ?rp k = (rp_map rp ++ ?page) k" for k
    by (simp add: take_page_def)
  have c: "rp_cursor ?rp = (if a = None then sp_seq \<sigma> else rp_cursor rp)"
    by (simp add: take_page_def)
  have old: "rp_map rp k = None" if "\<not> covered (Snapshot a) k" for k
    using i f that by (auto simp: sync_inv_def)
  have "rp_map ?rp k = sp_get \<sigma> k"
    if e: "sp_epoch \<sigma> \<le> rp_cursor ?rp" "last_kind (pending \<sigma> (rp_cursor ?rp)) k = None" and k: "covered (rp_phase ?rp) k" for k
  proof (cases "covered (Snapshot a) k")
    case True
    then have "rp_cursor ?rp = rp_cursor rp"
      by (cases a) (simp_all add: take_page_def)
    then have "rp_map rp k = sp_get \<sigma> k"
      using i f e True by (simp add: sync_inv_def)
    then show ?thesis
      using p(1)[OF True] by (simp add: m map_add_def)
  next
    case False
    then show ?thesis
      using p(3)[OF k False] old[OF False] by (simp add: m map_add_def split: option.splits)
  qed
  moreover have "covered (rp_phase ?rp) k" if k: "rp_map ?rp k \<noteq> None" for k
  proof (cases "?page k")
    case None
    then have "covered (Snapshot a) k"
      using old k by (force simp: m map_add_def)
    then show ?thesis
      by (rule p(2))
  next
    case (Some x)
    then show ?thesis
      using p(4)[of k] by simp
  qed
  moreover have "rp_cursor ?rp \<le> sp_seq \<sigma>"
    using i f by (auto simp: c sync_inv_def)
  ultimately show ?thesis
    by (auto simp: sync_inv_def)
qed


section \<open>Runs\<close>

definition sync_ok :: "('k::linorder, 'v) rl_spec \<times> ('k, 'v) replica \<Rightarrow> bool" where
  "sync_ok st \<longleftrightarrow> sp_inv (fst st) \<and> sync_inv (fst st) (snd st)"

lemma sync_ok_step:
  assumes "sync_ok st"
  shows "sync_ok (sp_sync st ev)"
proof (cases st)
  case (Pair \<sigma> rp)
  with assms show ?thesis
    by (cases ev) (auto simp: sync_ok_def sp_inv_step sync_server sync_page sync_poll split: phase.splits)
qed

lemma sync_ok_run: "sync_ok st \<Longrightarrow> sync_ok (foldl sp_sync st evs)"
  by (induction evs arbitrary: st) (simp_all add: sync_ok_step)

text \<open>Only the commands of the map need room; the limit of a call must not make it overflow.\<close>

fun is_server :: "('k, 'v) sync_event \<Rightarrow> bool" where
  "is_server (Server c) = True"
| "is_server _ = False"

fun event_valid :: "('k, 'v, 'a, 'b, 'c, 'd, 'e) replog_types \<Rightarrow> ('k \<Rightarrow> bool) \<Rightarrow> ('v \<Rightarrow> bool) \<Rightarrow> nat \<Rightarrow> ('k, 'v) sync_event \<Rightarrow> bool" where
  "event_valid P vk vv n (Server c) = rl_cmd_valid P vk vv n c"
| "event_valid P vk vv n (Page l) = (l * entry_size P \<le> ISIZE_MAX)"
| "event_valid P vk vv n (Poll l) = (n + l \<le> U64_MAX)"

abbreviation servers :: "('k, 'v) sync_event list \<Rightarrow> nat" where
  "servers evs \<equiv> length (filter is_server evs)"

context replog
begin

lemma sync_step_ok:
  assumes rep: "rl_rep rl \<sigma>" and f: "fits n \<sigma>" and r: "tree_room n" "is_server ev \<longrightarrow> log_room (Suc n)" and v: "event_valid P vk vv n ev"
  shows "ok (sync_step P (rl, rp) ev) (\<lambda>(rl', rp'). rl_rep rl' (fst (sp_sync (\<sigma>, rp) ev)) \<and> rp' = snd (sp_sync (\<sigma>, rp) ev))"
    "fits (n + servers [ev]) (fst (sp_sync (\<sigma>, rp) ev))"
proof -
  have s: "sp_seq \<sigma> \<le> n" "sp_seq \<sigma> \<le> U64_MAX"
    using f r(1) by (auto simp: fits_def tree_room_def)
  show "ok (sync_step P (rl, rp) ev) (\<lambda>(rl', rp'). rl_rep rl' (fst (sp_sync (\<sigma>, rp) ev)) \<and> rp' = snd (sp_sync (\<sigma>, rp) ev))"
  proof (cases ev)
    case (Server c)
    then show ?thesis
      using step_ok[OF rep f r(1), of c] r(2) v by (auto elim!: ok_mono)
  next
    case (Page l)
    then show ?thesis
      using snapshot_page_ok[OF rep s(2), of l] v rep by (cases "rp_phase rp") (force elim!: ok_mono, simp)
  next
    case (Poll l)
    then show ?thesis
      using changes_with_values_ok[OF rep, of l "rp_cursor rp"] s(1) v rep by (cases "rp_phase rp") (auto elim!: ok_mono)
  qed
  show "fits (n + servers [ev]) (fst (sp_sync (\<sigma>, rp) ev))"
    using f fits_step by (cases ev) auto
qed

lemma sync_run_ok:
  assumes "rl_rep rl \<sigma>" "fits n \<sigma>" "n + servers evs \<le> N" "tree_room N" "log_room N" "list_all (event_valid P vk vv N) evs"
  shows "ok (sync_run P (rl, rp) evs) (\<lambda>(rl', rp'). rl_rep rl' (fst (foldl sp_sync (\<sigma>, rp) evs)) \<and> rp' = snd (foldl sp_sync (\<sigma>, rp) evs)) \<and>
    fits (n + servers evs) (fst (foldl sp_sync (\<sigma>, rp) evs))"
  using assms
proof (induction evs arbitrary: rl \<sigma> rp n)
  case (Cons ev evs)
  obtain \<sigma>' rp' where st: "sp_sync (\<sigma>, rp) ev = (\<sigma>', rp')"
    by fastforce
  have n: "n \<le> N" "is_server ev \<longrightarrow> Suc n \<le> N"
    using Cons.prems(3) by auto
  then have r: "tree_room n" "is_server ev \<longrightarrow> log_room (Suc n)"
    using room_le Cons.prems(4,5) by auto
  have v: "event_valid P vk vv n ev"
    using Cons.prems(6) n(1) cmd_valid_le by (cases ev) auto
  note s = sync_step_ok[OF Cons.prems(1,2) r v, of rp]
  from s(1) obtain rl1 where 1: "sync_step P (rl, rp) ev = Some (rl1, rp')" "rl_rep rl1 \<sigma>'"
    by (auto simp: st elim!: ok_obtain)
  have f: "fits (n + servers [ev]) \<sigma>'"
    using s(2) by (simp only: st fst_conv)
  have le: "n + servers [ev] + servers evs \<le> N"
    using Cons.prems(3) by auto
  have vs: "list_all (event_valid P vk vv N) evs"
    using Cons.prems(6) by simp
  from Cons.IH[OF 1(2) f le Cons.prems(4,5) vs, of rp'] show ?case
    using 1(1) by (cases "is_server ev") (simp_all add: st)
qed simp_all

end


lemma sync_program_ok:
  assumes "rl_client P ((i1, c1, p1), (i2, c2, p2), (i3, c3, p3), (i4, c4, p4), (i5, c5, p5)) vk vv kb vb (a, b, c, d, e) N N"
    and "servers evs \<le> N" "list_all (event_valid P vk vv N) evs"
  defines "st \<equiv> foldl sp_sync (sp_new, new_replica) evs"
  shows "ok (sync_program P (a, b, c, d, e) evs) (\<lambda>(rl, rp). rp = snd st \<and>
      ok (rl_current_seq P rl) (\<lambda>(n, _). n = sp_seq (fst st)) \<and> (\<forall>k. ok (rl_get P rl k) (\<lambda>(v, _). v = sp_get (fst st) k)))"
    "fits N (fst st)"
proof -
  note p = program_ok[OF assms(1), of "[]"]
  note R = p(3)
  let ?rep = "replog.rl_rep P i1 c1 p1 i2 c2 p2 i3 c3 p3 i4 c4 p4 i5 c5 p5 vk vv kb vb (2 * (N div 5) + 4) (p3 c) (p4 d)"
  from p(1) obtain rl where rl: "rl_init P a b c d e = Some rl" "?rep rl sp_new"
    by (auto simp: rl_program_def elim!: ok_obtain)
  have room: "replog.log_room kb (p3 c) (p4 d) N"
    using assms(1) by (simp add: replog.log_room_def[OF R])
  note run = replog.sync_run_ok[OF R rl(2) fits_new, of evs N new_replica, folded st_def]
  then have r: "ok (sync_run P (rl, new_replica) evs) (\<lambda>(rl', rp'). ?rep rl' (fst st) \<and> rp' = snd st)" and f: "fits (servers evs) (fst st)"
    using assms(2,3) room p(2) by simp_all
  show "fits N (fst st)"
    using f assms(2) by (auto simp: fits_def)
  then have "sp_seq (fst st) \<le> U64_MAX"
    using p(2) by (auto simp: fits_def replog.tree_room_def[OF R])
  with r show "ok (sync_program P (a, b, c, d, e) evs) (\<lambda>(rl, rp). rp = snd st \<and>
      ok (rl_current_seq P rl) (\<lambda>(n, _). n = sp_seq (fst st)) \<and> (\<forall>k. ok (rl_get P rl k) (\<lambda>(v, _). v = sp_get (fst st) k)))"
    using rl(1) by (auto simp: sync_program_def intro: ok_mono[OF replog.simple_reads_ok(7)[OF R]] ok_mono[OF replog.get_ok[OF R]] elim!: ok_mono)
qed

lemma sync_ok_start: "sync_ok (foldl sp_sync (sp_new, new_replica) evs)"
  by (rule sync_ok_run) (simp add: sync_ok_def sp_inv_new sync_inv_new)

section \<open>Catching up\<close>

text \<open>A replica has caught up when it follows the changes and its cursor is at the end of the log. Then it holds the map.\<close>

definition caught_up :: "('k, 'v) rl_spec \<times> ('k, 'v) replica \<Rightarrow> bool" where
  "caught_up st \<longleftrightarrow> rp_phase (snd st) = Following \<and> rp_cursor (snd st) = sp_seq (fst st)"

lemma caught_up_holds:
  assumes "sync_ok st" "caught_up st"
  shows "rp_map (snd st) k = sp_get (fst st) k"
  using assms by (auto simp: sync_ok_def sync_inv_def caught_up_def covered_def pending_def sp_seq_def)

lemma caught_up_stays:
  assumes "caught_up (\<sigma>, rp)"
  shows "sp_sync (\<sigma>, rp) (Page l) = (\<sigma>, rp)" "sp_sync (\<sigma>, rp) (Poll l) = (\<sigma>, rp)"
  using assms by (auto simp: caught_up_def take_changes_def sp_since_def sp_seq_def)

text \<open>Every page leaves less of the snapshot, every call for changes less of the log.\<close>

lemma pages_done:
  assumes "sp_inv \<sigma>" "0 < l" "\<forall>a. rp_phase rp = Snapshot a \<longrightarrow> length (left_after \<sigma> a) < n"
  shows "\<exists>rp'. foldl sp_sync (\<sigma>, rp) (replicate n (Page l)) = (\<sigma>, rp') \<and> rp_phase rp' = Following \<and>
    rp_cursor rp' = (if rp_phase rp = Snapshot None then sp_seq \<sigma> else rp_cursor rp)"
  using assms(3)
proof (induction n arbitrary: rp)
  case 0
  then show ?case
    by (cases "rp_phase rp") auto
next
  case (Suc n)
  show ?case
  proof (cases "rp_phase rp")
    case Following
    then show ?thesis
      using Suc.IH[of rp] by simp
  next
    case (Snapshot a)
    let ?L = "left_after \<sigma> a"
    obtain rp1 where st: "sp_sync (\<sigma>, rp) (Page l) = (\<sigma>, rp1)" and c: "rp_cursor rp1 = (if a = None then sp_seq \<sigma> else rp_cursor rp)"
      and ph: "rp_phase rp1 = (if ?L = [] then Following else Snapshot (Some (fst (last (take l ?L)))))"
      using assms(2) Snapshot by (simp add: take_page_def page_left last_map case_prod_unfold)
    have "length (left_after \<sigma> (Some (fst (last (take l ?L))))) < n" if "?L \<noteq> []"
    proof -
      have "length (left_after \<sigma> (Some (fst (last (take l ?L))))) = length ?L - l"
        using left_facts(3)[OF assms(1), of l a] that assms(2) by simp
      moreover have "0 < length ?L" "length ?L < Suc n"
        using that Suc.prems Snapshot by simp_all
      ultimately show ?thesis
        using assms(2) by linarith
    qed
    then have "\<forall>a. rp_phase rp1 = Snapshot a \<longrightarrow> length (left_after \<sigma> a) < n"
      by (auto simp: ph)
    from Suc.IH[OF this] show ?thesis
      using Snapshot by (auto simp: st ph c simp del: sp_sync.simps)
  qed
qed

lemma polls_done:
  assumes "0 < l" "rp_phase rp = Following" "sp_epoch \<sigma> \<le> rp_cursor rp" "rp_cursor rp \<le> sp_seq \<sigma>" "sp_seq \<sigma> - rp_cursor rp \<le> n"
  shows "caught_up (foldl sp_sync (\<sigma>, rp) (replicate n (Poll l)))" "fst (foldl sp_sync (\<sigma>, rp) (replicate n (Poll l))) = \<sigma>"
proof -
  have "caught_up (foldl sp_sync (\<sigma>, rp) (replicate n (Poll l))) \<and> fst (foldl sp_sync (\<sigma>, rp) (replicate n (Poll l))) = \<sigma>"
    using assms(2-)
  proof (induction n arbitrary: rp)
    case 0
    then show ?case
      by (simp add: caught_up_def)
  next
    case (Suc n)
    let ?p = "pending \<sigma> (rp_cursor rp)"
    note s = since_split[OF Suc.prems(2,3)]
    obtain rp' where st: "sp_sync (\<sigma>, rp) (Poll l) = (\<sigma>, rp')" "rp_phase rp' = Following" "rp_cursor rp' = rp_cursor rp + min (length ?p) l"
      using Suc.prems(1) s(1) by (simp add: take_changes_def)
    then have "sp_epoch \<sigma> \<le> rp_cursor rp'" "rp_cursor rp' \<le> sp_seq \<sigma>" "sp_seq \<sigma> - rp_cursor rp' \<le> n"
      using Suc.prems s(3) assms(1) by (auto simp: min_def)
    from Suc.IH[OF st(2) this] show ?case
      by (simp add: st(1) del: sp_sync.simps)
  qed
  then show "caught_up (foldl sp_sync (\<sigma>, rp) (replicate n (Poll l)))" "fst (foldl sp_sync (\<sigma>, rp) (replicate n (Poll l))) = \<sigma>"
    by simp_all
qed

lemma polls_stale:
  assumes "rp_phase rp = Following" "rp_cursor rp < sp_epoch \<sigma>"
  shows "\<exists>rp'. foldl sp_sync (\<sigma>, rp) (replicate (Suc n) (Poll l)) = (\<sigma>, rp') \<and> rp_phase rp' = Snapshot None"
proof -
  have "foldl sp_sync (\<sigma>, rp) (replicate n (Poll l)) = (\<sigma>, rp)" if "rp_phase rp = Snapshot None" for rp
    using that by (induction n) simp_all
  then show ?thesis
    using assms by (simp add: take_changes_def sp_since_def)
qed


text \<open>One round of calls: enough pages for a snapshot of \<open>n\<close> entries, then enough calls for \<open>n\<close> changes.\<close>

definition sync_round :: "nat \<Rightarrow> nat \<Rightarrow> ('k, 'v) sync_event list" where
  "sync_round n l = replicate (Suc n) (Page l) @ replicate (Suc n) (Poll l)"

lemma round_fresh:
  assumes i: "sync_ok (\<sigma>, rp)" and f: "fits n \<sigma>" and l: "0 < l" and e: "rp_phase rp = Snapshot None \<or> sp_epoch \<sigma> \<le> rp_cursor rp"
  shows "caught_up (foldl sp_sync (\<sigma>, rp) (sync_round n l))" "fst (foldl sp_sync (\<sigma>, rp) (sync_round n l)) = \<sigma>"
proof -
  have s: "sp_inv \<sigma>" and c: "rp_phase rp \<noteq> Snapshot None \<longrightarrow> rp_cursor rp \<le> sp_seq \<sigma>"
    using i by (auto simp: sync_ok_def sync_inv_def)
  have "length (left_after \<sigma> a) < Suc n" for a
    using left_facts(4)[OF s, of a] f by (simp add: fits_def)
  then obtain rp' where p: "foldl sp_sync (\<sigma>, rp) (replicate (Suc n) (Page l)) = (\<sigma>, rp')" "rp_phase rp' = Following"
    "rp_cursor rp' = (if rp_phase rp = Snapshot None then sp_seq \<sigma> else rp_cursor rp)"
    using pages_done[OF s l] by metis
  have "sp_epoch \<sigma> \<le> rp_cursor rp'" "rp_cursor rp' \<le> sp_seq \<sigma>" "sp_seq \<sigma> - rp_cursor rp' \<le> Suc n"
    using e c f by (auto simp: p(3) sp_seq_def fits_def)
  from polls_done[OF l p(2) this]
  show "caught_up (foldl sp_sync (\<sigma>, rp) (sync_round n l))" "fst (foldl sp_sync (\<sigma>, rp) (sync_round n l)) = \<sigma>"
    by (simp_all only: sync_round_def foldl_append p(1))
qed

lemma round_stale:
  assumes i: "sync_ok (\<sigma>, rp)" and f: "fits n \<sigma>" and l: "0 < l" and e: "rp_phase rp \<noteq> Snapshot None" "rp_cursor rp < sp_epoch \<sigma>"
  shows "\<exists>rp'. foldl sp_sync (\<sigma>, rp) (sync_round n l) = (\<sigma>, rp') \<and> rp_phase rp' = Snapshot None"
proof -
  have s: "sp_inv \<sigma>"
    using i by (simp add: sync_ok_def)
  have "length (left_after \<sigma> a) < Suc n" for a
    using left_facts(4)[OF s, of a] f by (simp add: fits_def)
  then obtain rp' where p: "foldl sp_sync (\<sigma>, rp) (replicate (Suc n) (Page l)) = (\<sigma>, rp')" "rp_phase rp' = Following" "rp_cursor rp' = rp_cursor rp"
    using pages_done[OF s l] e(1) by metis
  then show ?thesis
    using polls_stale[of rp' \<sigma> n l] e(2) by (simp only: sync_round_def foldl_append)
qed

lemma rounds_catch_up:
  assumes i: "sync_ok st" and f: "fits n (fst st)" and l: "0 < l"
  shows "caught_up (foldl sp_sync st (sync_round n l @ sync_round n l))" "fst (foldl sp_sync st (sync_round n l @ sync_round n l)) = fst st"
proof -
  obtain \<sigma> rp where st: "st = (\<sigma>, rp)"
    by fastforce
  obtain rp1 where 1: "foldl sp_sync st (sync_round n l) = (\<sigma>, rp1)" "rp_phase rp1 = Snapshot None \<or> sp_epoch \<sigma> \<le> rp_cursor rp1"
  proof (cases "rp_phase rp = Snapshot None \<or> sp_epoch \<sigma> \<le> rp_cursor rp")
    case True
    with round_fresh[of \<sigma> rp n l] i f l
    have "caught_up (foldl sp_sync st (sync_round n l))" "fst (foldl sp_sync st (sync_round n l)) = \<sigma>"
      by (simp_all add: st)
    then show ?thesis
      using that[of "snd (foldl sp_sync st (sync_round n l))"] by (auto simp: caught_up_def sp_seq_def prod_eq_iff)
  next
    case False
    with round_stale[of \<sigma> rp n l] i f l show ?thesis
      using that by (auto simp: st)
  qed
  have "sync_ok (\<sigma>, rp1)" "fits n \<sigma>"
    using sync_ok_run[OF i, of "sync_round n l"] f by (simp_all add: 1(1)) (simp add: st)
  from round_fresh[OF this l 1(2)]
  show "caught_up (foldl sp_sync st (sync_round n l @ sync_round n l))" "fst (foldl sp_sync st (sync_round n l @ sync_round n l)) = fst st"
    by (simp_all add: 1(1)) (simp add: st)
qed

section \<open>Properties\<close>

text \<open>
  C8. A replica never believes a wrong map: on any memories that meet their contract, whatever commands the map runs (reopening, compaction and
  clearing included) and whatever pages and changes the replica asks for in between, with any limits that do not overflow, none of the calls panics, and whenever the
  replica follows the changes and its cursor is the current sequence number of the map, it holds for every key what \<open>get\<close> returns.
\<close>

theorem replica_converges:
  assumes "rl_client P ms vk vv kb vb s N N" "servers evs \<le> N" "list_all (event_valid P vk vv N) evs"
  shows "ok (sync_program P s evs) (\<lambda>(rl, rp). ok (rl_current_seq P rl) (\<lambda>(n, _).
    rp_phase rp = Following \<and> rp_cursor rp = n \<longrightarrow> (\<forall>k. ok (rl_get P rl k) (\<lambda>(v, _). v = rp_map rp k))))"
proof (cases ms s rule: client_cases)
  case (1 i1 c1 p1 i2 c2 p2 i3 c3 p3 i4 c4 p4 i5 c5 p5 a b c d e)
  note p = sync_program_ok(1)[OF assms(1)[unfolded 1] assms(2,3)]
  show ?thesis
    unfolding 1(2) using caught_up_holds[OF sync_ok_start, of evs]
    by (intro ok_mono[OF p]) (auto simp: caught_up_def elim!: ok_mono)
qed

definition example_sync :: "(64 word, 64 word) sync_event list" where
  "example_sync = [Server (RlInsert 7 70), Server (RlInsert 3 30), Page 1, Server (RlRemove 3), Page 1, Page 1, Poll 9]"

theorem replica_converges_witness:
  "ok (sync_program u64_replog ([], [], [], [], []) example_sync) (\<lambda>(rl, rp). rp_phase rp = Following \<and> rp_map rp = [7 \<mapsto> 70] \<and>
     ok (rl_current_seq u64_replog rl) (\<lambda>(n, _). n = 3 \<and> (\<forall>k. ok (rl_get u64_replog rl k) (\<lambda>(v, _). v = rp_map rp k))))"
proof -
  have v: "rl_client u64_replog vec_contracts (\<lambda>_. True) (\<lambda>_. True) 8 8 ([], [], [], [], []) 3 3"
    by (rule u64_client) simp
  have e: "servers example_sync \<le> 3" "list_all (event_valid u64_replog (\<lambda>_. True) (\<lambda>_. True) 3) example_sync"
    by (simp_all add: example_sync_def u64_replog_def)
  have "foldl sp_sync (sp_new, new_replica) example_sync = (\<lparr>sp_map = [7 \<mapsto> (0, 70)],
      sp_changes = [\<lparr>ce_kind = Upsert, ce_entry_id = 0, ce_key = 7\<rparr>, \<lparr>ce_kind = Upsert, ce_entry_id = 1, ce_key = 3\<rparr>,
        \<lparr>ce_kind = Delete, ce_entry_id = 1, ce_key = 3\<rparr>], sp_next = 2, sp_epoch = 0\<rparr>,
      \<lparr>rp_map = [7 \<mapsto> 70], rp_cursor = 3, rp_phase = Following\<rparr>)"
    by (simp add: example_sync_def sp_new_def new_replica_def sp_insert_def sp_remove_def log_change_def sp_get_def sp_page_def entries_of_def sp_since_def
        sp_valued_def sp_seq_def is_upsert_def take_page_def take_changes_def sorted_list_of_set_insert_remove insert_Diff_if Let_def)
  with sync_program_ok(1)[OF v e] replica_converges[OF v e] show ?thesis
    by (auto simp: sp_seq_def elim!: ok_obtain)
qed

text \<open>
  C9. A replica catches up: after any such run, with \<open>N\<close> a bound on the commands of the map, two rounds of \<open>N + 1\<close> pages and \<open>N + 1\<close> calls for changes, with any
  limit above 0 that does not overflow, bring the replica to the current sequence number, and for every key it holds what \<open>get\<close> returns. Two rounds are needed because
  the first may end with the answer that the cursor is too old.
\<close>

theorem replica_catches_up:
  assumes "rl_client P ms vk vv kb vb s N N" "servers evs \<le> N" "list_all (event_valid P vk vv N) evs" "0 < l" "N + l \<le> U64_MAX" "l * entry_size P \<le> ISIZE_MAX"
  shows "ok (sync_program P s (evs @ sync_round N l @ sync_round N l)) (\<lambda>(rl, rp). rp_phase rp = Following \<and>
    ok (rl_current_seq P rl) (\<lambda>(n, _). n = rp_cursor rp) \<and> (\<forall>k. ok (rl_get P rl k) (\<lambda>(v, _). v = rp_map rp k)))"
proof (cases ms s rule: client_cases)
  case (1 i1 c1 p1 i2 c2 p2 i3 c3 p3 i4 c4 p4 i5 c5 p5 a b c d e)
  let ?evs = "evs @ sync_round N l @ sync_round N l" and ?st = "foldl sp_sync (sp_new, new_replica) evs"
  have v: "servers ?evs \<le> N" "list_all (event_valid P vk vv N) ?evs"
    using assms(2,3,5,6) by (simp_all add: sync_round_def list_all_iff del: replicate_Suc)
  have "fits N (fst ?st)"
    by (rule sync_program_ok(2)[OF assms(1)[unfolded 1] assms(2,3)])
  from rounds_catch_up(1)[OF sync_ok_start this assms(4)] have c: "caught_up (foldl sp_sync (sp_new, new_replica) ?evs)"
    by simp
  show ?thesis
    unfolding 1(2) using caught_up_holds[OF sync_ok_start c] c
    by (intro ok_mono[OF sync_program_ok(1)[OF assms(1)[unfolded 1] v]]) (auto simp: caught_up_def elim!: ok_mono)
qed


theorem replica_catches_up_witness:
  "ok (sync_program u64_replog ([], [], [], [], [])
       ([Server (RlInsert 7 70), Page 1, Server RlCompact, Server (RlInsert 3 30)] @ sync_round 3 1 @ sync_round 3 1)) (\<lambda>(rl, rp). rp_phase rp = Following \<and>
     ok (rl_current_seq u64_replog rl) (\<lambda>(n, _). n = rp_cursor rp) \<and> (\<forall>k. ok (rl_get u64_replog rl k) (\<lambda>(v, _). v = rp_map rp k)))"
  by (rule replica_catches_up[OF u64_client]) (simp_all add: u64_replog_def)

end
