(* ===== verification/Spec2Isabelle.thy ===== *)
theory Spec2Isabelle
  imports File_Memory Min_Heap Cell Log Tuples Memory_IO Virtual_Memory BTree_Set Rep_Log_Sync
begin

text \<open>
  \<^bold>\<open>Stable structures: a verification of the data structures of the crate.\<close>

  The program is a Rust library of data structures that live in a flat, growing, byte-addressed memory
  (the stable memory of a canister) and survive its upgrades, because everything they need to go on is
  in the bytes. Its parts, and the theories that model them:

  \<^item> The \<open>Memory\<close> trait, the helpers that read and write integers, structs and byte ranges and grow the
    memory on demand, and the two memories \<open>VectorMemory\<close> and \<open>RestrictedMemory\<close> (\<open>src/src/lib.rs\<close>,
    \<open>src/src/vec_mem.rs\<close>): theory \<open>Memory\<close>. \<open>Reader\<close>, \<open>Writer\<close> and their buffered forms
    (\<open>src/src/reader.rs\<close>, \<open>src/src/writer.rs\<close>): theory \<open>Memory_IO\<close>. \<open>FileMemory\<close> and \<open>Ic0StableMemory\<close>
    (\<open>src/src/file_mem.rs\<close>, \<open>src/src/ic0_memory.rs\<close>): theory \<open>File_Memory\<close>; the calls of \<open>std::fs::File\<close> are modelled there, the
    functions of the system interface are parameters.
  \<^item> The memory manager (\<open>src/src/memory_manager.rs\<close>), which cuts one memory into buckets and hands out up
    to 255 virtual memories, each a \<open>Memory\<close> again with a cache of one bucket per handle: theories
    \<open>Memory_Manager\<close> (the code, the address map, reading and writing) and \<open>Virtual_Memory\<close> (growth,
    creation and loading, isolation).
  \<^item> The \<open>Storable\<close> trait, its bounds and its implementations (\<open>src/src/storable.rs\<close>,
    \<open>src/src/storable/tuples.rs\<close>): theories \<open>Storable\<close> and \<open>Tuples\<close>. \<open>Address\<close> and \<open>Bytes\<close>
    (\<open>src/src/types.rs\<close>): theory \<open>Types\<close>.
  \<^item> The structures: \<open>BaseVec\<close> and \<open>Vec\<close> (\<open>src/src/base_vec.rs\<close>, \<open>src/src/vec.rs\<close>; theories
    \<open>Base_Vec\<close>, \<open>Growable_Vec\<close>), \<open>MinHeap\<close> on top of \<open>BaseVec\<close> (\<open>src/src/min_heap.rs\<close>; theory
    \<open>Min_Heap\<close>), \<open>Cell\<close> (\<open>src/src/cell.rs\<close>; theory \<open>Cell\<close>), \<open>Log\<close> (\<open>src/src/log.rs\<close>; theory \<open>Log\<close>).
  \<^item> The B-tree map, from the bottom up. The chunk allocator (\<open>src/src/btreemap/allocator.rs\<close>): \<open>Allocator\<close>, and
    \<open>Page_Store\<close>, what its client relies on. The nodes with their two layouts and the input and output over overflow pages
    (\<open>src/src/btreemap/node.rs\<close>, \<open>node/io.rs\<close>, \<open>node/v1.rs\<close>, \<open>node/v2.rs\<close>): \<open>Node_Pages\<close> (chains of pages),
    \<open>BTree_Node\<close> (entries, children, lazily loaded keys and values, binary search), \<open>Node_V1\<close> and \<open>Node_V2\<close> (saving and loading),
    \<open>Node_Heap\<close> and \<open>Node_Store\<close> (the nodes in memory as a finite map from addresses). The map itself (\<open>src/src/btreemap.rs\<close>):
    \<open>BTree_Map\<close> is the code; \<open>BTree_Tree\<close> is the tree that the nodes in memory form, with its order, heights and fill;
    \<open>BTree_Insert\<close>, \<open>BTree_Rebalance\<close> and \<open>BTree_Remove\<close> are the proofs of insertion, of the rotations and merges, and of removal;
    \<open>BTree_Ops\<close> and \<open>BTree_Spec\<close> are those of the other operations, of creation, loading and migration. The iterators
    (\<open>src/src/btreemap/iter.rs\<close>): \<open>BTree_Iter\<close> is the code, \<open>BTree_Range\<close> and \<open>BTree_Scan\<close> the proofs. \<open>BTree_Client\<close> states what
    a map does over any memory and any types. \<open>BTree_Set\<close> is the set (\<open>src/src/btreeset.rs\<close>), with the operations on two sets.
  \<^item> The replicated map (\<open>src/replog/src/lib.rs\<close>, \<open>src/replog/src/changelog.rs\<close>): a map from keys to entry numbers, a map from entry
    numbers to values, a log of the changes and a cell with two counters. \<open>Rep_Log\<close> is the code; \<open>Rep_Log_Spec\<close> derives what the five
    memories of a replicated map promise together from the theorems of its four parts; \<open>Rep_Log_Client\<close> has the specification and the
    operations; \<open>Rep_Log_Run\<close> has sequences of operations and their properties; \<open>Rep_Log_Sync\<close> has replicas that follow a map through its
    replication interface.
  \<^item> \<open>Prelude\<close> holds what all of them share: panics and errors as values, the checked integer operations,
    integers as bytes, ranges of byte lists.

  \<^bold>\<open>How the code is modelled.\<close> A definition has the name of the function it models, with a prefix for
  the structure (\<open>bv_push\<close>, \<open>mh_pop\<close>, \<open>log_append\<close>, \<open>mm_grow\<close>). State is passed explicitly: a function
  on a structure takes its state and returns it updated. The result type is \<open>option\<close>, and \<open>None\<close> is a
  panic: a failed assertion, an index out of range, an \<open>unwrap\<close> of nothing, an arithmetic overflow (the
  model is the code with overflow checks and debug assertions). A \<open>Result\<close> is a sum, with \<open>Inl\<close> for the
  error. Integers are natural numbers with the bound of their type in every operation that can leave
  it; bytes are 8-bit words. A memory is a state type with a record of four operations, so a structure
  is written once for all memories, as in the code; several memories with their own states stand for
  memories that do not alias.

  \<^bold>\<open>Interfaces.\<close> What the code relies on is a locale, and the model's own definitions interpret it.
  \<open>memory\<close>: the laws of the trait (size, in-range access, growth up to a capacity), interpreted by
  \<open>VectorMemory\<close>, by \<open>RestrictedMemory\<close>, by \<open>FileMemory\<close> and by every virtual memory of a manager. \<open>flat_memory\<close>: a memory that
  fills new pages with zeros, so that it cannot be told from a vector. \<open>storable_type\<close>:
  encoding and decoding are inverse and the bound holds, interpreted by the implementations of the
  crate. \<open>stable_vec\<close>, \<open>stable_heap\<close>, \<open>stable_cell\<close>, \<open>stable_log\<close>: a structure on any memory and any type
  that meet these laws. \<open>chunk_pool\<close>: what the client of the allocator relies on. \<open>page_store\<close>: pages that can be
  allocated, read, written and freed; \<open>node_ops\<close>, \<open>btree_nodes\<close>, \<open>btree_store\<close> and \<open>btree_values\<close> extend it step by step to nodes on
  pages, to the nodes of one tree, to the tree with its header, and to a map with values of some type. \<open>key_stream\<close>: what a
  user of \<open>next\<close> relies on; \<open>key_pair\<close>: two streams, and the walks over them that are streams again. \<open>replog\<close>: five memories and the types of keys and values of a replicated map. \<open>ok r Q\<close> is total
  correctness: \<open>r\<close> is not a panic and its result satisfies \<open>Q\<close>.

  \<^bold>\<open>What is shown.\<close> A stable vector is a list under every sequence of operations, also across
  reopening, and panics exactly where the list operation is undefined. The heap keeps its order, its
  debug assertions never fire, and pushing and popping sorts. A cell stores its value or changes
  nothing, and gives the value back when it is opened again. A log appends atomically: a failed append
  leaves every entry as it was; a log that is opened again has its entries. What is written through the
  buffered writer is read back in full by \<open>read_exact\<close> calls on the buffered reader, whatever the chunks. Pairs of bounded types and triples decode to
  what was encoded; pairs with an unbounded type panic, since the code for them is a \<open>todo!\<close>. A file memory answers as a
  vector does. On the stable memory of a canister, where growth may fail at any time, each \<open>safe_write\<close> is done or reports the failed growth and
  leaves the memory as it was. Every virtual memory is a memory; no operation of a handle, in range or not, changes
  another virtual memory, in any interleaving and across upgrades; a manager that is loaded has the
  state of the one that wrote the memory. The allocator hands out chunks that do not overlap, keeps
  their data, rejects a second deallocation, and survives reloading. 
  A B-tree map answers every sequence of commands as a finite map does, iterators in both directions and reopening included;
  the binary search in a node, which loads keys as it goes, is a linear search; the chunks it uses are bounded by what it holds; a map of the first layout is migrated with its entries. A B-tree set is a
  finite set, and the operations on two sets compute the operations on finite sets. A replicated map answers every sequence of
  commands as its specification does, a finite map with the list of its changes; a failed \<open>try_insert\<close> or \<open>try_remove\<close> leaves nothing behind. A replica that
  takes pages and changes in any interleaving with the commands of the map holds the map whenever it has caught up, and it catches up when it goes on asking. The theory at hand adds what spans
  components: a vector in a virtual memory is a list, a B-tree map in one is a finite map, and both leave the other memories alone.

  Six theorems state where the code leaves its documentation: the bound of \<open>Option\<close>, on which vectors and B-tree maps panic, growth of a
  restricted memory that starts beyond its base, accesses beyond the end of a restricted memory, which reach the restricted memory behind it, of a
  virtual memory and of a file, and the limit of \<open>changes_since\<close>. The replicas are clients as the known limitations of \<open>src/docs/src/replog-spec.md\<close>
  describe them, which go on from the sequence number of the first page of a snapshot; other places in the documentation take that of the last page, which misses changes.

  \<^bold>\<open>Bounds and termination.\<close> No definition needs fuel. Loops recurse on a measure (the rest of the list,
  the distance to the end, the number of buckets) where there is one in the data. The recursions of the B-tree and its iterators follow addresses in
  memory and would not end on a corrupt one; they are partial functions in the option monad, and \<open>ok\<close> in their theorems says that
  they return: the height of the tree bounds the recursion. Where a theorem needs room to grow it says how much, in terms of
  the capacity of the memory.

  \<^bold>\<open>Not modelled.\<close> Reads and writes of a file that the operating system cuts short before its end or its limit; \<open>Debug\<close> and \<open>Display\<close> output; the reference count that \<open>MemoryManager::into_memory\<close> checks; the unsafe
  pointer form of \<open>read\<close>, which returns the same bytes; the memory of the host that vectors take (\<open>with_capacity\<close>), except for the page of a snapshot, whose
  limit the client chooses. The two sets of an operation on
  sets are in memories of their own, and so are the parts of a replicated map. \<open>usize\<close> has 64 bits, so \<open>limit as usize\<close> is the identity; the size of a
  snapshot entry in the memory of the host is the parameter \<open>entry_size\<close>. Conversions of lengths and array sizes to \<open>u32\<close> (\<open>N as u32\<close>, \<open>len() as u32\<close>)
  are the identity, and the sums in the bounds of options and tuples, which the compiler evaluates, have no limit: types of 4 GiB and more are outside of the model.
  The locale \<open>memory\<close> asks only for what the structures rely on: it leaves out the zeros in new pages (\<open>flat_memory\<close> adds them), the panic on an access out of
  bounds, and growth that fails by -1 and never by a panic; the theorems on accesses out of bounds and the findings say which memories keep these parts of the trait.
\<close>

section \<open>Components on the virtual memories of one manager\<close>

lemma stable_vec_framed:
  assumes "stable_vec M minv contents cap T valid bd"
  shows "stable_vec (VirtualMemory M i) (framed_inv minv contents i D H) (virtual_contents contents i) (virtual_limit cap i) T valid bd"
proof -
  have "memory M minv contents cap" "storable_type T valid" "stable_vec_axioms T bd"
    using assms by (simp_all add: stable_vec_def)
  then show ?thesis
    by (simp add: stable_vec_def memory.framed_memory)
qed

text \<open>
  C21. A stable vector that lives in one of the virtual memories of a manager is a list, and it keeps to
  its memory: any sequence of vector operations returns what it returns on the list, and every other
  virtual memory of the manager has the contents it had before.
\<close>

theorem vec_in_virtual_memory:
  assumes V: "stable_vec M minv contents cap T valid bd"
    and v: "virtual_inv minv contents i v" "vec_rep T bd VEC_MAGIC (virtual_contents contents i v) xs"
    and cs: "\<forall>c \<in> set cs. cmd_valid valid c" "length xs + pushes cs \<le> U64_MAX"
      "DATA_OFFSET + slot_bytes bd * (length xs + pushes cs) \<le> virtual_limit cap i v * WASM_PAGE_SIZE"
    and spec: "run spec_step cs xs = Some (outs, ys)"
  shows "ok (run (sv_step T (VirtualMemory M i)) cs v) (\<lambda>(outs', v'). outs' = outs \<and> virtual_inv minv contents i v' \<and>
    vec_rep T bd VEC_MAGIC (virtual_contents contents i v') ys \<and>
    (\<forall>j < MAX_NUM_MEMORIES. j \<noteq> i \<longrightarrow>
      vcontents (fst v') (contents (mm_memory (fst v'))) j = vcontents (fst v) (contents (mm_memory (fst v))) j))"
proof -
  let ?D = "vcontents (fst v) (contents (mm_memory (fst v)))"
  have "framed_inv minv contents i ?D {} v"
    using v(1) by (simp add: framed_inv_def)
  with stable_vec.sv_run_ok[OF stable_vec_framed[OF V, of i ?D "{}"], of v xs cs outs ys] v(2) cs spec show ?thesis
    by (auto simp: framed_inv_def elim!: ok_mono)
qed

interpretation u64_vvec: stable_vec "VirtualMemory VectorMemory i" "framed_inv vec_inv (\<lambda>m. m) i D H"
  "virtual_contents (\<lambda>m. m) i" "virtual_limit vec_cap i" u64_storable "\<lambda>_. True" "\<lparr>max_size = 8, is_fixed_size = True\<rparr>"
  for i D H
  by (rule stable_vec_framed[OF u64_vec.stable_vec_axioms])

theorem vec_in_virtual_memory_witness:
  "\<exists>m v. mm_init VectorMemory [] 2 = Some m \<and> sv_new u64_storable (VirtualMemory VectorMemory 3) (mm_get m 3) = Some v \<and>
     ok (run (sv_step u64_storable (VirtualMemory VectorMemory 3)) [Push 7, Push 9, Reopen, Pop, Items] v) (\<lambda>(outs, v').
       outs = [Out_unit, Out_unit, Out_unit, Out_item (Some 9), Out_list [7]] \<and>
       vcontents (fst v') (mm_memory (fst v')) 4 = vcontents (fst v) (mm_memory (fst v)) 4)"
proof -
  let ?bd = "\<lparr>max_size = 8, is_fixed_size = True\<rparr>" and ?V = "VirtualMemory VectorMemory 3"
  let ?cs = "[Push 7, Push 9, Reopen, Pop, Items] :: 64 word vec_cmd list"
  obtain m where m: "mm_init VectorMemory [] 2 = Some m" "vm.mm_ok m" "bucket_size_in_pages m = 2"
    "allocated_buckets m = 0" "vec_cap (mm_memory m) = VEC_MAX_PAGES"
    using vm.mm_init_fresh[of "[]" 2] by (auto simp: vec_cap_def VEC_MAX_PAGES_val elim: ok_obtain)
  let ?D = "vcontents m (mm_memory m)"
  have inv: "framed_inv vec_inv (\<lambda>m. m) 3 ?D {} (mm_get m 3)"
    using m(2) by (simp add: framed_inv_def virtual_inv_def mm_get_def cache_new_ok MAX_NUM_MEMORIES_def)
  have lim: "1 \<le> virtual_limit vec_cap 3 (mm_get m 3)"
    using m(3-5) by (simp add: virtual_limit_def virtual_cap_def mm_get_def MAX_NUM_BUCKETS_def VEC_MAX_PAGES_val)
  have "ok (bv_new u64_storable ?V (mm_get m 3) VEC_MAGIC) (\<lambda>(r, s). r = Inr () \<and>
      (framed_inv vec_inv (\<lambda>m. m) 3 ?D {} s \<and> vec_rep u64_storable ?bd VEC_MAGIC (virtual_contents (\<lambda>m. m) 3 s) []) \<and>
      virtual_limit vec_cap 3 s = virtual_limit vec_cap 3 (mm_get m 3))"
    using lim by (intro u64_vvec.new_ok[OF inv]) (simp_all add: VEC_MAGIC_def)
  then obtain v where v: "bv_new u64_storable ?V (mm_get m 3) VEC_MAGIC = Some (Inr (), v)"
    "framed_inv vec_inv (\<lambda>m. m) 3 ?D {} v" "vec_rep u64_storable ?bd VEC_MAGIC (virtual_contents (\<lambda>m. m) 3 v) []"
    "1 \<le> virtual_limit vec_cap 3 v"
    using lim by (auto elim: ok_obtain)
  have "ok (run (sv_step u64_storable ?V) ?cs v) (\<lambda>(outs', v').
      outs' = [Out_unit, Out_unit, Out_unit, Out_item (Some 9), Out_list [7]] \<and> virtual_inv vec_inv (\<lambda>m. m) 3 v' \<and>
      vec_rep u64_storable ?bd VEC_MAGIC (virtual_contents (\<lambda>m. m) 3 v') [7] \<and>
      (\<forall>j < MAX_NUM_MEMORIES. j \<noteq> 3 \<longrightarrow> vcontents (fst v') (mm_memory (fst v')) j = vcontents (fst v) (mm_memory (fst v)) j))"
    using v(2-4) by (intro vec_in_virtual_memory[OF u64_vec.stable_vec_axioms])
      (simp_all add: framed_inv_def DATA_OFFSET_def bytes_to_store_size_bounded_def)
  then have "ok (run (sv_step u64_storable ?V) ?cs v) (\<lambda>(outs, v').
      outs = [Out_unit, Out_unit, Out_unit, Out_item (Some 9), Out_list [7]] \<and>
      vcontents (fst v') (mm_memory (fst v')) 4 = vcontents (fst v) (mm_memory (fst v)) 4)"
    by (rule ok_mono) (auto simp: MAX_NUM_MEMORIES_def)
  moreover have "sv_new u64_storable ?V (mm_get m 3) = Some v"
    using v(1) by (simp add: sv_new_def expect_def)
  ultimately show ?thesis
    using m(1) by blast
qed

text \<open>
  C22. A B-tree map that lives in one of the virtual memories of a manager is a finite map, and it keeps to its memory: any sequence of commands answers what it answers on the
  finite map, every other virtual memory of the manager has the contents it had before, and every handle of a virtual memory that could be used before can be
  used after it.
\<close>

theorem map_in_virtual_memory:
  assumes M: "memory M minv contents cap" and T: "btree_types K vk V vv kb vb" "new_page_size K V = Some (PageValue sz)" "128 \<le> sz" "sz \<le> U32_MAX"
    and v: "virtual_inv minv contents i v" and cs: "list_all (map_cmd_valid vk vv) cs" "run_room sz kb vb cs \<le> virtual_limit cap i v * WASM_PAGE_SIZE"
  shows "ok (do { m \<leftarrow> btree_new K V (VirtualMemory M i) v; bt_run K V (VirtualMemory M i) m cs }) (\<lambda>(rs, m).
    rs = fst (map_run Map.empty cs) \<and> virtual_inv minv contents i (btree_into_memory m) \<and>
    (\<forall>j < MAX_NUM_MEMORIES. j \<noteq> i \<longrightarrow> vcontents (fst (btree_into_memory m)) (contents (mm_memory (fst (btree_into_memory m)))) j =
      vcontents (fst v) (contents (mm_memory (fst v))) j) \<and>
    (\<forall>j c. virtual_inv minv contents j (fst v, c) \<longrightarrow> virtual_inv minv contents j (fst (btree_into_memory m), c)))"
proof -
  let ?D = "vcontents (fst v) (contents (mm_memory (fst v)))" and ?H = "{(j, c). virtual_inv minv contents j (fst v, c)}"
  let ?inv = "framed_inv minv contents i ?D ?H"
  have "?inv v"
    using v by (simp add: framed_inv_def)
  then have c: "btree_client (VirtualMemory M i) ?inv (virtual_contents contents i) (virtual_limit cap i) K vk V vv kb vb sz v cs"
    using memory.framed_memory[OF M] T cs by (simp add: btree_client_def)
  show ?thesis
    by (rule ok_mono[OF client_run[OF c T(2)]]) (auto simp: framed_inv_def dest!: rep_memory(1))
qed

theorem map_in_virtual_memory_witness:
  "\<exists>m. mm_init VectorMemory [] 2 = Some m \<and>
     ok (do { t \<leftarrow> btree_new u64_storable u64_storable (VirtualMemory VectorMemory 3) (mm_get m 3);
              bt_run u64_storable u64_storable (VirtualMemory VectorMemory 3) t example_cmds }) (\<lambda>(rs, t).
       rs = fst (map_run Map.empty example_cmds) \<and>
       vcontents (fst (btree_into_memory t)) (mm_memory (fst (btree_into_memory t))) 4 = vcontents m (mm_memory m) 4)"
proof -
  obtain m where m: "mm_init VectorMemory [] 2 = Some m" "vm.mm_ok m" "bucket_size_in_pages m = 2"
    "allocated_buckets m = 0" "vec_cap (mm_memory m) = VEC_MAX_PAGES"
    using vm.mm_init_fresh[of "[]" 2] by (auto simp: vec_cap_def VEC_MAX_PAGES_val elim: ok_obtain)
  have inv: "virtual_inv vec_inv (\<lambda>m. m) 3 (mm_get m 3)"
    using m(2) by (simp add: virtual_inv_def mm_get_def cache_new_ok MAX_NUM_MEMORIES_def)
  have lim: "1 \<le> virtual_limit vec_cap 3 (mm_get m 3)"
    using m(3-5) by (simp add: virtual_limit_def virtual_cap_def mm_get_def MAX_NUM_BUCKETS_def VEC_MAX_PAGES_val)
  have room: "run_room 275 8 8 example_cmds \<le> virtual_limit vec_cap 3 (mm_get m 3) * WASM_PAGE_SIZE"
    using lim by (simp add: example_cmds_def run_room_def btree_bytes_def ALLOCATOR_OFFSET_def pages_needed_def)
  have cs: "list_all (map_cmd_valid (\<lambda>_. True) (\<lambda>_. True)) example_cmds"
    by (simp add: example_cmds_def)
  from map_in_virtual_memory[OF vm.memory_axioms u64_types u64_page_size _ _ inv cs room] m(1) show ?thesis
    by (intro exI[of _ m]) (auto simp: mm_get_def MAX_NUM_MEMORIES_def elim!: ok_mono)
qed

section \<open>A bound that the structures reject\<close>

text \<open>
  C35. \<open>Option\<close> of a type of fixed size breaks its own bound, unless the size is 0: the option type meets the contract of \<open>Storable\<close> exactly when the size is 0. When it is
  not, \<open>push\<close> and \<open>set\<close> of a vector and \<open>insert\<close> of a B-tree map, which check the bound of what they store, panic on \<open>None\<close> in every state and
  on every memory, while every \<open>Some\<close> of a valid value passes the check and is decoded again.
\<close>

theorem option_none_breaks_bound:
  assumes "storable_type T valid" "BOUND T = Bounded m True"
  shows "(storable_type (option_storable T) (pred_option valid) \<longleftrightarrow> m = 0) \<and>
    (0 < m \<longrightarrow> sv_push (option_storable T) M s None = None \<and> sv_set (option_storable T) M s i None = None \<and>
      btree_insert K (option_storable T) M' bt k None = None) \<and>
    (valid x \<longrightarrow> ok (to_bytes_checked (option_storable T) (Some x)) (\<lambda>bs. from_bytes (option_storable T) bs = Some (Some x)))"
  using option_contract_iff[OF assms] option_checked[OF assms]
  by (auto simp: sv_push_def sv_set_def bv_push_def bv_set_def btree_insert_def expect_def bind_eq_None_conv)

theorem option_none_breaks_bound_witness:
  "\<not> storable_type (option_storable u64_storable) (pred_option (\<lambda>_. True)) \<and>
   sv_push (option_storable u64_storable) VectorMemory [] None = None \<and> sv_set (option_storable u64_storable) VectorMemory [] 0 None = None \<and>
   btree_insert u64_storable (option_storable u64_storable) VectorMemory \<lparr>bt_root_addr = NULL, bt_version = V2 (PageValue 275),
     bt_allocator = \<lparr>al_header_addr = 52, al_allocation_size = 275, al_num_allocated_chunks = 0, al_free_list_head = 100, al_memory = []\<rparr>, bt_length = 0\<rparr> 1 None = None \<and>
   ok (to_bytes_checked (option_storable u64_storable) (Some 5)) (\<lambda>bs. from_bytes (option_storable u64_storable) bs = Some (Some 5))"
  using option_none_breaks_bound[OF u64_ty.storable_type_axioms, of 8 VectorMemory "[]" 0 u64_storable VectorMemory _ 1 5]
  by (simp add: u64_storable_def)

end
